(* ===== verification/Prelude.thy ===== *)
theory Prelude
  imports Main "HOL-Library.Word" "HOL-Library.Monad_Syntax"
begin

text \<open>
  Shared vocabulary of the development: the machine types of the C++ code, checked arithmetic,
  the loop combinators over \<open>option\<close> (an assertion failure or undefined behaviour is \<open>None\<close>),
  and generic lemmas on lists, memories and words used by more than one component.
\<close>

unbundle bit_operations_syntax

subsection \<open>Machine types\<close>

type_synonym u8 = "8 word"
type_synonym u16 = "16 word"
type_synonym u32 = "32 word"
type_synonym u64 = "64 word"

text \<open>Collections: defining equations of the small total helpers, and preservation facts.\<close>

named_theorems model_defs
named_theorems inv_intros

abbreviation INT_MAX :: int where "INT_MAX \<equiv> 2147483647"
abbreviation INT_MIN :: int where "INT_MIN \<equiv> - 2147483648"
abbreviation SIZE_MAX :: u64 where "SIZE_MAX \<equiv> 18446744073709551615"
abbreviation U32_MAX :: nat where "U32_MAX \<equiv> 4294967295"

text \<open>The conversion \<open>(size_t) i\<close> of a C integer, sign extension included.\<close>

abbreviation size_of_int :: "int \<Rightarrow> u64" where
  "size_of_int i \<equiv> word_of_int i"

lemma unat_size_of_int:
  "0 \<le> i \<Longrightarrow> i < 2 ^ 64 \<Longrightarrow> unat (size_of_int i) = nat i"
  by (simp add: unat_eq_nat_uint uint_word_of_int)

subsection \<open>Checked operations\<close>

text \<open>An assertion, a 32-bit signed result, and reads of an array, one or several.\<close>

abbreviation (input) require :: "bool \<Rightarrow> 'a option \<Rightarrow> 'a option" where
  "require P k \<equiv> (if P then k else None)"

definition i32_ok :: "int \<Rightarrow> bool" where
  "i32_ok x \<longleftrightarrow> INT_MIN \<le> x \<and> x \<le> INT_MAX"

definition read_at :: "nat \<Rightarrow> 'a list \<Rightarrow> 'a option" where
  "read_at i xs = require (i < length xs) (Some (xs ! i))"

definition gather :: "('a \<Rightarrow> 'b option) \<Rightarrow> 'a list \<Rightarrow> 'b list option" where
  "gather f xs = those (map f xs)"

lemma read_at_Some [simp]: "i < length xs \<Longrightarrow> read_at i xs = Some (xs ! i)"
  by (simp add: read_at_def)

lemma gather_Some: "(\<And>x. x \<in> set xs \<Longrightarrow> f x = Some (g x)) \<Longrightarrow> gather f xs = Some (map g xs)"
  unfolding gather_def by (induction xs) auto

lemma gather_all: "gather f xs = Some ys \<Longrightarrow> x \<in> set xs \<Longrightarrow> \<exists>y \<in> set ys. f x = Some y"
  unfolding gather_def by (induction xs arbitrary: ys) (auto split: option.splits)

lemma gather_None: "x \<in> set xs \<Longrightarrow> f x = None \<Longrightarrow> gather f xs = None"
  using gather_all[of f xs _ x] by (cases "gather f xs") auto

subsection \<open>Loops whose body can fail\<close>

fun fold_opt :: "('a \<Rightarrow> 's \<Rightarrow> 's option) \<Rightarrow> 'a list \<Rightarrow> 's \<Rightarrow> 's option" where
  "fold_opt f [] s = Some s"
| "fold_opt f (x # xs) s = (case f x s of None \<Rightarrow> None | Some s' \<Rightarrow> fold_opt f xs s')"

lemma fold_opt_append:
  "fold_opt f (xs @ ys) s = (case fold_opt f xs s of None \<Rightarrow> None | Some s' \<Rightarrow> fold_opt f ys s')"
  by (induction xs arbitrary: s) (auto split: option.splits)

lemma fold_opt_invariant:
  assumes "fold_opt f xs s = Some t" and "P s"
    and "\<And>x s s'. x \<in> set xs \<Longrightarrow> P s \<Longrightarrow> f x s = Some s' \<Longrightarrow> P s'"
  shows "P t"
  using assms
proof (induction xs arbitrary: s)
  case Nil
  then show ?case by simp
next
  case (Cons x xs)
  from Cons.prems(1) obtain s' where s': "f x s = Some s'" "fold_opt f xs s' = Some t"
    by (auto split: option.splits)
  then have "P s'" using Cons.prems(2,3) by (meson list.set_intros(1))
  with s' show ?case using Cons.prems(3) by (intro Cons.IH) (auto intro: list.set_intros(2))
qed

lemma fold_opt_total:
  assumes "P s" and "\<And>x s. x \<in> set xs \<Longrightarrow> P s \<Longrightarrow> \<exists>s'. f x s = Some s' \<and> P s'"
  shows "\<exists>t. fold_opt f xs s = Some t \<and> P t"
  using assms
proof (induction xs arbitrary: s)
  case Nil
  then show ?case by simp
next
  case (Cons x xs)
  from Cons.prems obtain s' where "f x s = Some s'" "P s'" by (meson list.set_intros(1))
  with Cons show ?case by (auto intro!: Cons.IH)
qed

lemma fold_opt_map: "fold_opt f (map g xs) s = fold_opt (\<lambda>x. f (g x)) xs s"
  by (induction xs arbitrary: s) (auto split: option.splits)

lemma fold_opt_None: "x \<in> set xs \<Longrightarrow> (\<And>s. f x s = None) \<Longrightarrow> fold_opt f xs s = None"
  by (induction xs arbitrary: s) (auto split: option.splits)

text \<open>
  A loop over \<open>[a..<b]\<close> with an invariant indexed by the iterations done: the work-horse of
  the array loops below.
\<close>

lemma fold_opt_upt_invariant:
  assumes "fold_opt f [a..<b] s = Some t" and "a \<le> b" and "P a s"
    and "\<And>i s s'. a \<le> i \<Longrightarrow> i < b \<Longrightarrow> P i s \<Longrightarrow> f i s = Some s' \<Longrightarrow> P (Suc i) s'"
  shows "P b t"
  using assms(2,1,4)
proof (induction arbitrary: t rule: dec_induct)
  case base
  then show ?case using assms(3) by simp
next
  case (step n)
  from step.prems obtain u where "fold_opt f [a..<n] s = Some u" "f n u = Some t"
    using step.hyps by (auto simp: fold_opt_append upt_Suc_append split: option.splits)
  then show ?case
    using step.IH step.hyps step.prems(2) by (meson less_Suc_eq)
qed

lemma fold_opt_upt_total:
  assumes "a \<le> b" and "P a s" and "\<And>i s. a \<le> i \<Longrightarrow> i < b \<Longrightarrow> P i s \<Longrightarrow> \<exists>t. f i s = Some t \<and> P (Suc i) t"
  shows "\<exists>t. fold_opt f [a..<b] s = Some t \<and> P b t"
  using assms(1,3)
proof (induction rule: dec_induct)
  case base
  then show ?case using assms(2) by simp
next
  case (step n)
  then obtain u where u: "fold_opt f [a..<n] s = Some u" "P n u" by auto
  then obtain t where "f n u = Some t" "P (Suc n) t" using step by auto
  then show ?case using u step.hyps by (auto simp: upt_Suc_append fold_opt_append)
qed

lemma fold_upt_invariant:
  assumes "a \<le> b" and "P a s" and "\<And>i s. a \<le> i \<Longrightarrow> i < b \<Longrightarrow> P i s \<Longrightarrow> P (Suc i) (f i s)"
  shows "P b (fold f [a..<b] s)"
  using assms(1,3)
proof (induction rule: dec_induct)
  case base
  then show ?case using assms(2) by simp
next
  case (step n)
  then show ?case by (simp add: upt_Suc_append)
qed

subsection \<open>Nested loops that flatten\<close>

lemma fold_concat: "fold f (concat xss) s = fold (fold f) xss s"
  by (induction xss arbitrary: s) auto

lemma fold_concat_map: "fold (\<lambda>x. fold f (g x)) xs s = fold f (concat (map g xs)) s"
  by (induction xs arbitrary: s) auto

lemma length_concat_uniform:
  assumes "\<And>x. x \<in> set xs \<Longrightarrow> length (g x) = k"
  shows "length (concat (map g xs)) = length xs * k"
  using assms by (induction xs) auto

lemma nth_concat_uniform:
  assumes "\<And>x. x \<in> set xs \<Longrightarrow> length (g x) = k" and "i < length xs * k"
  shows "concat (map g xs) ! i = g (xs ! (i div k)) ! (i mod k)"
  using assms
proof (induction xs arbitrary: i)
  case Nil
  then show ?case by simp
next
  case (Cons x xs)
  have k: "length (g x) = k" and pos: "0 < k" using Cons.prems by (auto intro: gr0I)
  show ?case
  proof (cases "i < k")
    case True
    then show ?thesis using k by (simp add: nth_append)
  next
    case False
    then have "i - k < length xs * k" using Cons.prems(2) by simp
    then have "concat (map g xs) ! (i - k) = g (xs ! ((i - k) div k)) ! ((i - k) mod k)"
      using Cons.prems(1) by (intro Cons.IH) auto
    moreover have "i div k = Suc ((i - k) div k)" "i mod k = (i - k) mod k"
      using False pos by (simp_all add: le_div_geq le_mod_geq)
    ultimately show ?thesis using False k by (simp add: nth_append)
  qed
qed

subsection \<open>Words\<close>

text \<open>Rounding up to an even number, \<open>(x + 1) & ~1\<close>, when the addition does not wrap.\<close>

lemma unat_add_1: "unat x + 1 < 2 ^ LENGTH('a) \<Longrightarrow> unat (x + 1) = unat x + 1"
  for x :: "'a :: len word"
  by (simp add: unat_word_ariths)

lemma and_not_1_eq: "x AND NOT 1 = push_bit 1 (drop_bit 1 x)"
  for x :: "'a :: len word"
proof (rule bit_word_eqI)
  fix n assume "n < LENGTH('a)"
  then show "bit (x AND NOT 1) n = bit (push_bit 1 (drop_bit 1 x)) n"
    by (simp only: bit_and_iff bit_not_iff bit_push_bit_iff bit_drop_bit_eq bit_1_iff o_def)
      (auto simp: Suc_le_eq)
qed

lemma unat_and_not_1: "unat (x AND NOT 1) = 2 * (unat x div 2)"
  for x :: "'a :: len word"
proof -
  have "unat x < 2 ^ LENGTH('a)" by (rule unsigned_less)
  then have b: "2 * (unat x div 2) < 2 ^ LENGTH('a)" by linarith
  have "unat (x AND NOT 1) = unat (drop_bit 1 x * 2)"
    by (simp only: and_not_1_eq push_bit_eq_mult power_one_right)
  also have "\<dots> = 2 * (unat x div 2)"
    using b by (cases "LENGTH('a) = 1") (auto simp: unat_word_ariths unat_drop_bit_eq drop_bit_Suc mult.commute)
  finally show ?thesis .
qed

lemma unat_even_up:
  fixes x :: "'a :: len word"
  assumes "unat x + 1 < 2 ^ LENGTH('a)"
  shows "unat ((x + 1) AND NOT 1) = 2 * ((unat x + 1) div 2)"
  using assms by (simp only: unat_and_not_1 unat_add_1)

lemma unat_drop_bit: "unat (drop_bit n x) = unat x div 2 ^ n"
  for x :: "'a :: len word"
  by (simp only: unat_drop_bit_eq) (simp add: drop_bit_eq_div)

lemma unat_ucast_wide: "LENGTH('a) \<le> LENGTH('b) \<Longrightarrow> unat (ucast x :: 'b :: len word) = unat x"
  for x :: "'a :: len word"
proof -
  assume "LENGTH('a) \<le> LENGTH('b)"
  then have "(2 :: nat) ^ LENGTH('a) \<le> 2 ^ LENGTH('b)" by (rule power_increasing) simp
  then have "unat x < 2 ^ LENGTH('b)" by (rule less_le_trans[OF unsigned_less])
  then show ?thesis by (simp add: unsigned_ucast_eq take_bit_nat_eq_self)
qed

lemma unat_ucast_mod: "unat (ucast x :: 'b :: len word) = unat x mod 2 ^ LENGTH('b)"
  for x :: "'a :: len word"
  by (simp add: unsigned_ucast_eq take_bit_eq_mod)

lemma unat_mult_no_overflow:
  "unat x * unat y < 2 ^ LENGTH('a) \<Longrightarrow> unat (x * y) = unat x * unat y"
  for x y :: "'a :: len word"
  by (simp add: unat_word_ariths)

lemma unat_add_no_overflow:
  "unat x + unat y < 2 ^ LENGTH('a) \<Longrightarrow> unat (x + y) = unat x + unat y"
  for x y :: "'a :: len word"
  by (simp add: unat_word_ariths)

text \<open>Rounding down and up to a multiple of a power of two.\<close>

lemma unat_and_not_mask: "unat (x AND NOT (mask k)) = unat x div 2 ^ k * 2 ^ k"
  for x :: "'a :: len word"
proof -
  have "x AND NOT (mask k) = push_bit k (drop_bit k x)"
    by (rule bit_word_eqI) (auto simp: bit_and_iff bit_not_iff bit_mask_iff bit_push_bit_iff bit_drop_bit_eq)
  moreover have "unat x div 2 ^ k * 2 ^ k < 2 ^ LENGTH('a)"
    by (rule le_less_trans[OF _ unsigned_less[of x]]) (simp add: mult.commute)
  ultimately show ?thesis
    by (simp only: unsigned_push_bit_eq unat_drop_bit) (simp add: push_bit_eq_mult take_bit_nat_eq_self)
qed

lemma unat_and_mask: "unat (x AND mask k) = unat x mod 2 ^ k"
  for x :: "'a :: len word"
  by (simp only: take_bit_eq_mask[symmetric] unsigned_take_bit_eq) (simp add: take_bit_eq_mod)

subsection \<open>Transition systems\<close>

text \<open>
  The contract of the state machines below: an invariant that holds initially and that every step
  keeps holds in every reachable state.
\<close>

locale transition_system =
  fixes init :: "'s \<Rightarrow> bool" and step :: "'s \<Rightarrow> 's \<Rightarrow> bool" and inv :: "'s \<Rightarrow> bool"
  assumes init_inv: "init s \<Longrightarrow> inv s"
    and step_inv: "step s t \<Longrightarrow> inv s \<Longrightarrow> inv t"
begin

lemma steps_inv: "step\<^sup>*\<^sup>* s t \<Longrightarrow> inv s \<Longrightarrow> inv t"
  by (induction rule: rtranclp_induct) (auto intro: step_inv)

lemma reachable_inv: "init s \<Longrightarrow> step\<^sup>*\<^sup>* s t \<Longrightarrow> inv t"
  using steps_inv init_inv by blast

end

subsection \<open>Bytes written into a list\<close>

definition put_bytes :: "nat \<Rightarrow> u8 list \<Rightarrow> u8 list \<Rightarrow> u8 list" where
  "put_bytes p xs m = take p m @ xs @ drop (p + length xs) m"

lemma length_put_bytes: "p + length xs \<le> length m \<Longrightarrow> length (put_bytes p xs m) = length m"
  by (simp add: put_bytes_def)

lemma put_bytes_below: "p + length xs \<le> length m \<Longrightarrow> j < p \<Longrightarrow> put_bytes p xs m ! j = m ! j"
  by (simp add: put_bytes_def nth_append)

lemma put_bytes_at: "p + length xs \<le> length m \<Longrightarrow> i < length xs \<Longrightarrow> put_bytes p xs m ! (p + i) = xs ! i"
  by (simp add: put_bytes_def nth_append)

lemma put_bytes_outside:
  "p + length xs \<le> length m \<Longrightarrow> j < p \<or> p + length xs \<le> j \<Longrightarrow> j < length m \<Longrightarrow> put_bytes p xs m ! j = m ! j"
  by (auto simp: put_bytes_def nth_append min_def)

lemma read_put_same: "p + length xs \<le> length m \<Longrightarrow> take (length xs) (drop p (put_bytes p xs m)) = xs"
  by (simp add: put_bytes_def)

lemma read_put_above:
  assumes "q + length xs \<le> length m" and "p + n \<le> q"
  shows "take n (drop p (put_bytes q xs m)) = take n (drop p m)"
  using assms by (intro nth_equalityI) (simp_all add: length_put_bytes put_bytes_below)

end
