(* ===== verification/Kv_Cells.thy ===== *)
theory Kv_Cells
  imports Prelude "HOL-Library.Finite_Map" "HOL-Library.Signed_Division"
begin

text \<open>
  The metadata of the KV cache cells (\<^verbatim>\<open>src/llama-kv-cells.h\<close>, class \<open>llama_kv_cells\<close>): for every
  cell its position (\<open>-1\<close> when empty), the accumulated position shift and the set of sequences it
  belongs to, and two indices derived from them, the set of used cells and, for every sequence, the
  multiset of positions present. A failed \<open>assert\<close>, an exception of \<open>std::bitset\<close>, an access past the
  end of a vector and a signed overflow are \<open>None\<close>. Cell indices are \<open>nat\<close> below \<open>2 ^ 32\<close>, positions
  and sequence ids are \<open>int\<close> in the 32-bit range.
\<close>

subsection \<open>State\<close>

abbreviation (input) LLAMA_MAX_SEQ :: int where "LLAMA_MAX_SEQ \<equiv> 256"

record kv_cells =
  c_has_shift :: bool
  c_used :: "nat set"
  c_pos :: "int list"
  c_shift :: "int list"
  c_seq :: "int set list"
  c_seq_pos :: "int \<Rightarrow> (int, int) fmap"

definition kv_cells_init :: kv_cells where
  "kv_cells_init = \<lparr>c_has_shift = False, c_used = {}, c_pos = [], c_shift = [], c_seq = [],
     c_seq_pos = (\<lambda>_. fmempty)\<rparr>"

text \<open>32-bit sums, and a valid bit position of \<open>std::bitset<LLAMA_MAX_SEQ>\<close>.\<close>

definition u32_add :: "nat \<Rightarrow> nat \<Rightarrow> nat" where
  "u32_add a b = (a + b) mod 2 ^ 32"

definition seq_id_ok :: "int \<Rightarrow> bool" where
  "seq_id_ok s \<longleftrightarrow> 0 \<le> s \<and> s < LLAMA_MAX_SEQ"

abbreviation (input) in_cells :: "nat \<Rightarrow> kv_cells \<Rightarrow> bool" where
  "in_cells i c \<equiv> i < length (c_pos c)"

subsection \<open>The index of positions per sequence\<close>

definition seq_pos_dec :: "int \<Rightarrow> int \<Rightarrow> kv_cells \<Rightarrow> kv_cells option" where
  "seq_pos_dec s p c = (case fmlookup (c_seq_pos c s) p of
     None \<Rightarrow> None
   | Some n \<Rightarrow> Some (c\<lparr>c_seq_pos := (c_seq_pos c)(s :=
       if n - 1 = 0 then fmdrop p (c_seq_pos c s) else fmupd p (n - 1) (c_seq_pos c s))\<rparr>))"

definition seq_pos_inc :: "int \<Rightarrow> int \<Rightarrow> kv_cells \<Rightarrow> kv_cells" where
  "seq_pos_inc s p c = c\<lparr>c_seq_pos := (c_seq_pos c)(s :=
     fmupd p ((case fmlookup (c_seq_pos c s) p of None \<Rightarrow> 0 | Some n \<Rightarrow> n) + 1) (c_seq_pos c s))\<rparr>"

definition seq_pos_rm :: "nat \<Rightarrow> kv_cells \<Rightarrow> kv_cells option" where
  "seq_pos_rm i c =
     fold_opt (\<lambda>s c. if s \<in> c_seq c ! i then seq_pos_dec s (c_pos c ! i) c else Some c) [0..LLAMA_MAX_SEQ - 1] c"

definition seq_pos_add :: "nat \<Rightarrow> kv_cells \<Rightarrow> kv_cells" where
  "seq_pos_add i c =
     fold (\<lambda>s c. if s \<in> c_seq c ! i then seq_pos_inc s (c_pos c ! i) c else c) [0..LLAMA_MAX_SEQ - 1] c"

subsection \<open>Whole-table operations\<close>

definition cells_reset :: "kv_cells \<Rightarrow> kv_cells" where
  "cells_reset c = \<lparr>c_has_shift = False, c_used = {},
     c_pos = replicate (length (c_pos c)) (- 1), c_shift = replicate (length (c_pos c)) 0,
     c_seq = replicate (length (c_pos c)) {}, c_seq_pos = (\<lambda>_. fmempty)\<rparr>"

definition cells_reset_shift :: "kv_cells \<Rightarrow> kv_cells" where
  "cells_reset_shift c = c\<lparr>c_has_shift := False, c_shift := replicate (length (c_shift c)) 0\<rparr>"

definition cells_size :: "kv_cells \<Rightarrow> nat" where
  "cells_size c = length (c_pos c)"

definition vector_resize :: "nat \<Rightarrow> 'a \<Rightarrow> 'a list \<Rightarrow> 'a list" where
  "vector_resize n x xs = take n xs @ replicate (n - length xs) x"

definition cells_resize :: "nat \<Rightarrow> kv_cells \<Rightarrow> kv_cells" where
  "cells_resize n c = cells_reset (c\<lparr>c_pos := vector_resize n 0 (c_pos c),
     c_shift := vector_resize n 0 (c_shift c), c_seq := vector_resize n {} (c_seq c)\<rparr>)"

definition cells_is_empty :: "nat \<Rightarrow> kv_cells \<Rightarrow> bool option" where
  "cells_is_empty i c = require (in_cells i c)
     (require (c_pos c ! i \<ge> - 1) (Some (c_pos c ! i = - 1)))"

definition cells_get_used :: "kv_cells \<Rightarrow> nat" where
  "cells_get_used c = card (c_used c)"

definition cells_used_min :: "kv_cells \<Rightarrow> nat" where
  "cells_used_min c = (if c_used c = {} then 0 else Min (c_used c))"

definition cells_used_max_p1 :: "kv_cells \<Rightarrow> nat" where
  "cells_used_max_p1 c = (if c_used c = {} then 0 else Max (c_used c) + 1)"

subsection \<open>Saving and restoring cells\<close>

text \<open>\<open>cp\<close> of a list of indices; the saved table keeps positions and sequences only.\<close>

definition cells_cp :: "nat list \<Rightarrow> kv_cells \<Rightarrow> kv_cells option" where
  "cells_cp idxs c = require (list_all (\<lambda>idx. in_cells idx c \<and> c_shift c ! idx = 0) idxs)
     (let res = cells_resize (length idxs) kv_cells_init in
      Some (res\<lparr>c_pos := map (\<lambda>idx. c_pos c ! idx) idxs, c_seq := map (\<lambda>idx. c_seq c ! idx) idxs\<rparr>))"

definition cells_cp_range :: "nat \<Rightarrow> nat \<Rightarrow> kv_cells \<Rightarrow> kv_cells option" where
  "cells_cp_range i n c = require (u32_add i n \<le> length (c_pos c)) (cells_cp (map (u32_add i) [0..<n]) c)"

definition cells_set_one :: "nat \<Rightarrow> int \<Rightarrow> int set \<Rightarrow> kv_cells \<Rightarrow> kv_cells option" where
  "cells_set_one idx p S c = require (in_cells idx c)
    (let c1 = (if c_pos c ! idx = - 1 \<and> p \<noteq> - 1 then c\<lparr>c_used := insert idx (c_used c)\<rparr> else c);
         c2 = (if c_pos c1 ! idx \<noteq> - 1 \<and> p = - 1 then c1\<lparr>c_used := c_used c1 - {idx}\<rparr> else c1)
     in case (if c_pos c2 ! idx \<noteq> - 1 then seq_pos_rm idx c2 else Some c2) of
          None \<Rightarrow> None
        | Some c3 \<Rightarrow>
            let c4 = c3\<lparr>c_pos := (c_pos c3)[idx := p], c_seq := (c_seq c3)[idx := S]\<rparr>;
                c5 = (if c_pos c4 ! idx \<noteq> - 1 then seq_pos_add idx c4 else c4)
            in require (c_shift c5 ! idx = 0) (Some c5))"

definition cells_set :: "nat list \<Rightarrow> kv_cells \<Rightarrow> kv_cells \<Rightarrow> kv_cells option" where
  "cells_set idxs other c = require (length idxs = length (c_pos other))
     (fold_opt (\<lambda>j. cells_set_one (idxs ! j) (c_pos other ! j) (c_seq other ! j)) [0..<length (c_pos other)] c)"

definition cells_set_range :: "nat \<Rightarrow> kv_cells \<Rightarrow> kv_cells \<Rightarrow> kv_cells option" where
  "cells_set_range i other c = require (i + length (c_pos other) \<le> length (c_pos c))
     (cells_set (map (u32_add i) [0..<length (c_pos other)]) other c)"

subsection \<open>Operations on one cell\<close>

definition cells_rm :: "nat \<Rightarrow> kv_cells \<Rightarrow> kv_cells option" where
  "cells_rm i c = require (in_cells i c) (require (c_pos c ! i \<noteq> - 1)
     (case seq_pos_rm i c of None \<Rightarrow> None | Some c1 \<Rightarrow>
        Some (c1\<lparr>c_seq := (c_seq c1)[i := {}], c_pos := (c_pos c1)[i := - 1], c_shift := (c_shift c1)[i := 0],
               c_used := c_used c1 - {i}\<rparr>)))"

definition cells_seq_rm :: "nat \<Rightarrow> int \<Rightarrow> kv_cells \<Rightarrow> (bool \<times> kv_cells) option" where
  "cells_seq_rm i seq_id c = require (in_cells i c) (require (seq_id_ok seq_id \<and> seq_id \<in> c_seq c ! i)
     (require (c_pos c ! i \<noteq> - 1)
       (case seq_pos_dec seq_id (c_pos c ! i) (c\<lparr>c_seq := (c_seq c)[i := c_seq c ! i - {seq_id}]\<rparr>) of
          None \<Rightarrow> None
        | Some c1 \<Rightarrow>
            if c_seq c1 ! i = {} then
              Some (True, c1\<lparr>c_pos := (c_pos c1)[i := - 1], c_shift := (c_shift c1)[i := 0], c_used := c_used c1 - {i}\<rparr>)
            else Some (False, c1))))"

definition cells_seq_keep :: "nat \<Rightarrow> int \<Rightarrow> kv_cells \<Rightarrow> (bool \<times> kv_cells) option" where
  "cells_seq_keep i seq_id c = require (in_cells i c) (require (seq_id_ok seq_id)
     (if seq_id \<in> c_seq c ! i then
        (case seq_pos_rm i c of None \<Rightarrow> None | Some c1 \<Rightarrow>
           Some (False, seq_pos_inc seq_id (c_pos c1 ! i) (c1\<lparr>c_seq := (c_seq c1)[i := {seq_id}]\<rparr>)))
      else if c_seq c ! i \<noteq> {} then
        (case seq_pos_rm i c of None \<Rightarrow> None | Some c1 \<Rightarrow>
           Some (True, c1\<lparr>c_seq := (c_seq c1)[i := {}], c_pos := (c_pos c1)[i := - 1],
                 c_shift := (c_shift c1)[i := 0], c_used := c_used c1 - {i}\<rparr>))
      else require (c_pos c ! i = - 1) (Some (False, c))))"

definition cells_seq_count :: "nat \<Rightarrow> kv_cells \<Rightarrow> nat option" where
  "cells_seq_count i c = require (in_cells i c) (require (c_pos c ! i \<noteq> - 1) (Some (card (c_seq c ! i))))"

definition cells_seq_has :: "nat \<Rightarrow> int \<Rightarrow> kv_cells \<Rightarrow> bool option" where
  "cells_seq_has i seq_id c = require (in_cells i c) (require (seq_id_ok seq_id) (Some (seq_id \<in> c_seq c ! i)))"

definition cells_seq_add :: "nat \<Rightarrow> int \<Rightarrow> kv_cells \<Rightarrow> kv_cells option" where
  "cells_seq_add i seq_id c = require (in_cells i c) (require (c_pos c ! i \<noteq> - 1)
     (require (seq_id_ok seq_id \<and> seq_id \<notin> c_seq c ! i)
       (Some (seq_pos_inc seq_id (c_pos c ! i) (c\<lparr>c_seq := (c_seq c)[i := insert seq_id (c_seq c ! i)]\<rparr>)))))"

definition cells_seq_get :: "nat \<Rightarrow> kv_cells \<Rightarrow> int option" where
  "cells_seq_get i c = require (in_cells i c) (require (card (c_seq c ! i) = 1)
     (case filter (\<lambda>s. s \<in> c_seq c ! i) [0..LLAMA_MAX_SEQ - 1] of [] \<Rightarrow> Some (- 1) | s # _ \<Rightarrow> Some s))"

definition cells_seq_pos_min :: "int \<Rightarrow> kv_cells \<Rightarrow> int option" where
  "cells_seq_pos_min seq_id c = require (seq_id_ok seq_id)
     (if fset (fmdom (c_seq_pos c seq_id)) = {} then Some (- 1)
      else let p = Min (fset (fmdom (c_seq_pos c seq_id)))
           in require (the (fmlookup (c_seq_pos c seq_id) p) > 0) (Some p))"

definition cells_seq_pos_max :: "int \<Rightarrow> kv_cells \<Rightarrow> int option" where
  "cells_seq_pos_max seq_id c = require (seq_id_ok seq_id)
     (if fset (fmdom (c_seq_pos c seq_id)) = {} then Some (- 1)
      else let p = Max (fset (fmdom (c_seq_pos c seq_id)))
           in require (the (fmlookup (c_seq_pos c seq_id) p) > 0) (Some p))"

definition cells_pos_get :: "nat \<Rightarrow> kv_cells \<Rightarrow> int option" where
  "cells_pos_get i c = require (in_cells i c) (require (c_pos c ! i \<noteq> - 1) (Some (c_pos c ! i)))"

definition cells_get_shift :: "nat \<Rightarrow> kv_cells \<Rightarrow> int option" where
  "cells_get_shift i c = require (in_cells i c) (require (c_pos c ! i \<noteq> - 1) (Some (c_shift c ! i)))"

definition cells_pos_in :: "nat \<Rightarrow> int \<Rightarrow> int \<Rightarrow> kv_cells \<Rightarrow> bool option" where
  "cells_pos_in i p0 p1 c = require (in_cells i c) (Some (p0 \<le> c_pos c ! i \<and> c_pos c ! i < p1))"

definition cells_pos_set :: "nat \<Rightarrow> int \<Rightarrow> kv_cells \<Rightarrow> kv_cells option" where
  "cells_pos_set i p c = require (in_cells i c) (require (c_pos c ! i = - 1) (require (c_seq c ! i = {})
     (Some (c\<lparr>c_pos := (c_pos c)[i := p], c_used := insert i (c_used c)\<rparr>))))"

definition cells_pos_add :: "nat \<Rightarrow> int \<Rightarrow> kv_cells \<Rightarrow> (bool \<times> kv_cells) option" where
  "cells_pos_add i d c = require (in_cells i c) (require (c_pos c ! i \<noteq> - 1)
     (case seq_pos_rm i c of None \<Rightarrow> None | Some c1 \<Rightarrow>
        require (i32_ok (c_pos c1 ! i + d) \<and> i32_ok (c_shift c1 ! i + d))
        (let c2 = c1\<lparr>c_pos := (c_pos c1)[i := c_pos c1 ! i + d], c_shift := (c_shift c1)[i := c_shift c1 ! i + d],
                     c_has_shift := True\<rparr>
         in if c_pos c2 ! i < 0 then
              Some (True, c2\<lparr>c_seq := (c_seq c2)[i := {}], c_pos := (c_pos c2)[i := - 1],
                     c_shift := (c_shift c2)[i := 0], c_used := c_used c2 - {i}\<rparr>)
            else Some (False, seq_pos_add i c2))))"

definition cells_pos_div :: "nat \<Rightarrow> int \<Rightarrow> kv_cells \<Rightarrow> kv_cells option" where
  "cells_pos_div i d c = require (in_cells i c) (require (c_pos c ! i \<noteq> - 1)
     (case seq_pos_rm i c of None \<Rightarrow> None | Some c1 \<Rightarrow>
        require (d \<noteq> 0 \<and> i32_ok (c_pos c1 ! i sdiv d))
        (let p_old = c_pos c1 ! i; p = p_old sdiv d in
         require (i32_ok (p_old - p) \<and> i32_ok (c_shift c1 ! i + (p_old - p)))
           (Some ((seq_pos_add i (c1\<lparr>c_pos := (c_pos c1)[i := p],
                c_shift := (c_shift c1)[i := c_shift c1 ! i + (p_old - p)]\<rparr>))\<lparr>c_has_shift := True\<rparr>)))))"

subsection \<open>What the table means\<close>

text \<open>
  A cell is empty or holds a position, a pending shift and a set of sequences. The two indices of
  the class are determined by the cells.
\<close>

datatype cell = Empty | Cell (cell_pos: int) (cell_shift: int) (cell_seqs: "int set")

definition view_cell :: "kv_cells \<Rightarrow> nat \<Rightarrow> cell" where
  "view_cell c i = (if c_pos c ! i = - 1 then Empty else Cell (c_pos c ! i) (c_shift c ! i) (c_seq c ! i))"

definition cells_view :: "kv_cells \<Rightarrow> cell list" where
  "cells_view c = map (view_cell c) [0..<length (c_pos c)]"

definition tally :: "int list \<Rightarrow> int set list \<Rightarrow> int \<Rightarrow> int \<Rightarrow> nat" where
  "tally ps ss s p = card {j. j < length ps \<and> ps ! j = p \<and> s \<in> ss ! j}"

definition index_ok :: "(int \<Rightarrow> (int, int) fmap) \<Rightarrow> (int \<Rightarrow> int \<Rightarrow> nat) \<Rightarrow> bool" where
  "index_ok f t \<longleftrightarrow> (\<forall>s p. fmlookup (f s) p = (if t s p = 0 then None else Some (int (t s p))))"

definition seq_set_ok :: "int set \<Rightarrow> bool" where
  "seq_set_ok S \<longleftrightarrow> S \<subseteq> {s. seq_id_ok s}"

definition cells_ok :: "kv_cells \<Rightarrow> bool" where
  "cells_ok c \<longleftrightarrow> length (c_shift c) = length (c_pos c) \<and> length (c_seq c) = length (c_pos c)
     \<and> c_used c = {i. i < length (c_pos c) \<and> c_pos c ! i \<noteq> - 1}
     \<and> (\<forall>i < length (c_pos c). - 1 \<le> c_pos c ! i \<and> seq_set_ok (c_seq c ! i)
          \<and> (c_pos c ! i = - 1 \<longrightarrow> c_seq c ! i = {} \<and> c_shift c ! i = 0))
     \<and> index_ok (c_seq_pos c) (tally (c_pos c) (c_seq c))"

subsection \<open>The position index\<close>

lemma tally_update:
  assumes "i < length ps" and "i < length ss"
  shows "tally (ps[i := p']) (ss[i := S']) s p =
    tally ps ss s p - of_bool (s \<in> ss ! i \<and> p = ps ! i) + of_bool (s \<in> S' \<and> p = p')"
proof -
  let ?rest = "{j. j < length ps \<and> j \<noteq> i \<and> ps ! j = p \<and> s \<in> ss ! j}"
  have fin: "finite ?rest" by simp
  have old: "{j. j < length ps \<and> ps ! j = p \<and> s \<in> ss ! j}
      = (if s \<in> ss ! i \<and> p = ps ! i then insert i ?rest else ?rest)"
    using assms by auto
  have new: "{j. j < length (ps[i := p']) \<and> ps[i := p'] ! j = p \<and> s \<in> ss[i := S'] ! j}
      = (if s \<in> S' \<and> p = p' then insert i ?rest else ?rest)"
    using assms by (auto simp: nth_list_update)
  show ?thesis unfolding tally_def old new using fin by auto
qed

lemma tally_pos:
  assumes "i < length ps" and "s \<in> ss ! i"
  shows "0 < tally ps ss s (ps ! i)"
  using assms by (auto simp: tally_def card_gt_0_iff)

lemma tally_zero_iff: "tally ps ss s p = 0 \<longleftrightarrow> (\<forall>j < length ps. ps ! j = p \<longrightarrow> s \<notin> ss ! j)"
  by (auto simp: tally_def)

lemma index_ok_inc:
  assumes "index_ok (c_seq_pos c) t"
  shows "\<exists>f. seq_pos_inc s p c = c\<lparr>c_seq_pos := f\<rparr>
    \<and> index_ok f (\<lambda>s' p'. t s' p' + of_bool (s' = s \<and> p' = p))"
  by (rule exI[of _ "c_seq_pos (seq_pos_inc s p c)"])
    (use assms in \<open>auto simp: seq_pos_inc_def index_ok_def\<close>)

lemma index_ok_dec:
  assumes "index_ok (c_seq_pos c) t" and "0 < t s p"
  shows "\<exists>f. seq_pos_dec s p c = Some (c\<lparr>c_seq_pos := f\<rparr>)
    \<and> index_ok f (\<lambda>s' p'. t s' p' - of_bool (s' = s \<and> p' = p))"
  by (rule exI[of _ "c_seq_pos (the (seq_pos_dec s p c))"])
    (use assms in \<open>auto simp: seq_pos_dec_def index_ok_def of_nat_diff\<close>)

lemma index_ok_dec_list:
  assumes "index_ok (c_seq_pos c) t" and "distinct xs" and "\<And>s. s \<in> set xs \<Longrightarrow> s \<in> S \<Longrightarrow> 0 < t s p"
    and "c_seq c ! i = S" and "c_pos c ! i = p"
  shows "\<exists>f. fold_opt (\<lambda>s c. if s \<in> c_seq c ! i then seq_pos_dec s (c_pos c ! i) c else Some c) xs c
      = Some (c\<lparr>c_seq_pos := f\<rparr>)
    \<and> index_ok f (\<lambda>s' p'. t s' p' - of_bool (s' \<in> set xs \<and> s' \<in> S \<and> p' = p))"
  using assms
proof (induction xs arbitrary: c t)
  case Nil
  then show ?case by (auto intro!: exI[of _ "c_seq_pos c"])
next
  case (Cons x xs)
  show ?case
  proof (cases "x \<in> S")
    case True
    then obtain f where f: "seq_pos_dec x p c = Some (c\<lparr>c_seq_pos := f\<rparr>)"
      "index_ok f (\<lambda>s' p'. t s' p' - of_bool (s' = x \<and> p' = p))"
      using index_ok_dec[OF Cons.prems(1), of x p] Cons.prems(3)[of x] by auto
    have "\<exists>g. fold_opt (\<lambda>s c. if s \<in> c_seq c ! i then seq_pos_dec s (c_pos c ! i) c else Some c) xs (c\<lparr>c_seq_pos := f\<rparr>)
      = Some (c\<lparr>c_seq_pos := f\<rparr>\<lparr>c_seq_pos := g\<rparr>)
      \<and> index_ok g (\<lambda>s' p'. t s' p' - of_bool (s' = x \<and> p' = p) - of_bool (s' \<in> set xs \<and> s' \<in> S \<and> p' = p))"
      using Cons.prems f(2) by (intro Cons.IH) auto
    moreover have "t s' p' - of_bool (s' = x \<and> p' = p) - of_bool (s' \<in> set xs \<and> s' \<in> S \<and> p' = p)
        = t s' p' - of_bool (s' \<in> set (x # xs) \<and> s' \<in> S \<and> p' = p)" for s' p'
      using True Cons.prems(2) by auto
    ultimately show ?thesis using f True Cons.prems(4,5) by auto
  next
    case False
    have "\<exists>g. fold_opt (\<lambda>s c. if s \<in> c_seq c ! i then seq_pos_dec s (c_pos c ! i) c else Some c) xs c
      = Some (c\<lparr>c_seq_pos := g\<rparr>) \<and> index_ok g (\<lambda>s' p'. t s' p' - of_bool (s' \<in> set xs \<and> s' \<in> S \<and> p' = p))"
      using Cons.prems by (intro Cons.IH) auto
    moreover have "(s' \<in> set (x # xs) \<and> s' \<in> S \<and> p' = p) = (s' \<in> set xs \<and> s' \<in> S \<and> p' = p)" for s' p'
      using False by auto
    ultimately show ?thesis using False Cons.prems(4,5) by simp
  qed
qed

lemma index_ok_inc_list:
  assumes "index_ok (c_seq_pos c) t" and "distinct xs"
    and "c_seq c ! i = S" and "c_pos c ! i = p"
  shows "\<exists>f. fold (\<lambda>s c. if s \<in> c_seq c ! i then seq_pos_inc s (c_pos c ! i) c else c) xs c = c\<lparr>c_seq_pos := f\<rparr>
    \<and> index_ok f (\<lambda>s' p'. t s' p' + of_bool (s' \<in> set xs \<and> s' \<in> S \<and> p' = p))"
  using assms
proof (induction xs arbitrary: c t)
  case Nil
  then show ?case by (auto intro!: exI[of _ "c_seq_pos c"])
next
  case (Cons x xs)
  show ?case
  proof (cases "x \<in> S")
    case True
    obtain f where f: "seq_pos_inc x p c = c\<lparr>c_seq_pos := f\<rparr>"
      "index_ok f (\<lambda>s' p'. t s' p' + of_bool (s' = x \<and> p' = p))"
      using index_ok_inc[OF Cons.prems(1), of x p] by auto
    have "\<exists>g. fold (\<lambda>s c. if s \<in> c_seq c ! i then seq_pos_inc s (c_pos c ! i) c else c) xs (c\<lparr>c_seq_pos := f\<rparr>)
      = c\<lparr>c_seq_pos := f\<rparr>\<lparr>c_seq_pos := g\<rparr>
      \<and> index_ok g (\<lambda>s' p'. t s' p' + of_bool (s' = x \<and> p' = p) + of_bool (s' \<in> set xs \<and> s' \<in> S \<and> p' = p))"
      using Cons.prems f(2) by (intro Cons.IH) auto
    moreover have "t s' p' + of_bool (s' = x \<and> p' = p) + of_bool (s' \<in> set xs \<and> s' \<in> S \<and> p' = p)
        = t s' p' + of_bool (s' \<in> set (x # xs) \<and> s' \<in> S \<and> p' = p)" for s' p'
      using True Cons.prems(2) by auto
    ultimately show ?thesis using f True Cons.prems(3,4) by auto
  next
    case False
    have "\<exists>g. fold (\<lambda>s c. if s \<in> c_seq c ! i then seq_pos_inc s (c_pos c ! i) c else c) xs c
      = c\<lparr>c_seq_pos := g\<rparr> \<and> index_ok g (\<lambda>s' p'. t s' p' + of_bool (s' \<in> set xs \<and> s' \<in> S \<and> p' = p))"
      using Cons.prems by (intro Cons.IH) auto
    moreover have "(s' \<in> set (x # xs) \<and> s' \<in> S \<and> p' = p) = (s' \<in> set xs \<and> s' \<in> S \<and> p' = p)" for s' p'
      using False by auto
    ultimately show ?thesis using False Cons.prems(3,4) by simp
  qed
qed

lemma seq_ids: "set [0..LLAMA_MAX_SEQ - 1] = {s. seq_id_ok s}" "distinct [0..LLAMA_MAX_SEQ - 1]"
  by (auto simp: seq_id_ok_def)

lemma seq_pos_rm_value:
  assumes "index_ok (c_seq_pos c) t" and "seq_set_ok (c_seq c ! i)"
    and "\<And>s. s \<in> c_seq c ! i \<Longrightarrow> 0 < t s (c_pos c ! i)"
  shows "\<exists>f. seq_pos_rm i c = Some (c\<lparr>c_seq_pos := f\<rparr>)
    \<and> index_ok f (\<lambda>s p. t s p - of_bool (s \<in> c_seq c ! i \<and> p = c_pos c ! i))"
proof -
  have "(s \<in> set [0..LLAMA_MAX_SEQ - 1] \<and> s \<in> c_seq c ! i \<and> p = c_pos c ! i) = (s \<in> c_seq c ! i \<and> p = c_pos c ! i)" for s p
    using assms(2) unfolding seq_ids seq_set_ok_def by blast
  then show ?thesis
    using index_ok_dec_list[OF assms(1) seq_ids(2), of "c_seq c ! i" "c_pos c ! i" i] assms(3)
    unfolding seq_pos_rm_def by simp
qed

lemma seq_pos_add_value:
  assumes "index_ok (c_seq_pos c) t" and "seq_set_ok (c_seq c ! i)"
  shows "\<exists>f. seq_pos_add i c = c\<lparr>c_seq_pos := f\<rparr>
    \<and> index_ok f (\<lambda>s p. t s p + of_bool (s \<in> c_seq c ! i \<and> p = c_pos c ! i))"
proof -
  have "(s \<in> set [0..LLAMA_MAX_SEQ - 1] \<and> s \<in> c_seq c ! i \<and> p = c_pos c ! i) = (s \<in> c_seq c ! i \<and> p = c_pos c ! i)" for s p
    using assms(2) unfolding seq_ids seq_set_ok_def by blast
  then show ?thesis
    using index_ok_inc_list[OF assms(1) seq_ids(2), of i "c_seq c ! i" "c_pos c ! i"]
    unfolding seq_pos_add_def by simp
qed

subsection \<open>Every operation keeps the indices in step with the cells\<close>

lemma length_view [simp]: "length (cells_view c) = length (c_pos c)"
  by (simp add: cells_view_def)

lemma view_nth: "i < length (c_pos c) \<Longrightarrow> cells_view c ! i = view_cell c i"
  by (simp add: cells_view_def)

lemma view_Cell:
  "i < length (c_pos c) \<Longrightarrow> cells_view c ! i = Cell p sh S \<longleftrightarrow>
     c_pos c ! i \<noteq> - 1 \<and> p = c_pos c ! i \<and> sh = c_shift c ! i \<and> S = c_seq c ! i"
  by (auto simp: view_nth view_cell_def)

lemma view_Empty: "i < length (c_pos c) \<Longrightarrow> cells_view c ! i = Empty \<longleftrightarrow> c_pos c ! i = - 1"
  by (auto simp: view_nth view_cell_def)

lemma cells_okD:
  assumes "cells_ok c"
  shows "length (c_shift c) = length (c_pos c)" and "length (c_seq c) = length (c_pos c)"
    and "c_used c = {i. i < length (c_pos c) \<and> c_pos c ! i \<noteq> - 1}"
    and "i < length (c_pos c) \<Longrightarrow> - 1 \<le> c_pos c ! i"
    and "i < length (c_pos c) \<Longrightarrow> seq_set_ok (c_seq c ! i)"
    and "i < length (c_pos c) \<Longrightarrow> c_pos c ! i = - 1 \<Longrightarrow> c_seq c ! i = {}"
    and "i < length (c_pos c) \<Longrightarrow> c_pos c ! i = - 1 \<Longrightarrow> c_shift c ! i = 0"
    and "index_ok (c_seq_pos c) (tally (c_pos c) (c_seq c))"
  using assms unfolding cells_ok_def by blast+

definition mk_cell :: "int \<Rightarrow> int \<Rightarrow> int set \<Rightarrow> cell" where
  "mk_cell p sh S = (if p = - 1 then Empty else Cell p sh S)"

text \<open>Replacing one cell: the facts every operation below discharges.\<close>

lemma cells_put:
  assumes ok: "cells_ok c" and i: "i < length (c_pos c)"
    and fields: "c_pos c' = (c_pos c)[i := p]" "c_shift c' = (c_shift c)[i := sh]" "c_seq c' = (c_seq c)[i := S]"
    and used: "c_used c' = (if p = - 1 then c_used c - {i} else insert i (c_used c))"
    and idx: "index_ok (c_seq_pos c') (\<lambda>s q. tally (c_pos c) (c_seq c) s q
        - of_bool (s \<in> c_seq c ! i \<and> q = c_pos c ! i) + of_bool (s \<in> S \<and> q = p))"
    and new: "- 1 \<le> p" "seq_set_ok S" "p = - 1 \<longrightarrow> S = {} \<and> sh = 0"
  shows "cells_ok c' \<and> cells_view c' = (cells_view c)[i := mk_cell p sh S]"
proof
  note d = cells_okD[OF ok]
  have "tally (c_pos c') (c_seq c') s q = tally (c_pos c) (c_seq c) s q
      - of_bool (s \<in> c_seq c ! i \<and> q = c_pos c ! i) + of_bool (s \<in> S \<and> q = p)" for s q
    unfolding fields using i d(2) by (intro tally_update) simp_all
  then have "tally (c_pos c') (c_seq c') = (\<lambda>s q. tally (c_pos c) (c_seq c) s q
      - of_bool (s \<in> c_seq c ! i \<and> q = c_pos c ! i) + of_bool (s \<in> S \<and> q = p))"
    by blast
  then have index: "index_ok (c_seq_pos c') (tally (c_pos c') (c_seq c'))" using idx by simp
  have used': "c_used c' = {i. i < length (c_pos c') \<and> c_pos c' ! i \<noteq> - 1}"
    unfolding used fields d(3) using i by (auto simp: nth_list_update)
  have cells: "- 1 \<le> c_pos c' ! j \<and> seq_set_ok (c_seq c' ! j)
      \<and> (c_pos c' ! j = - 1 \<longrightarrow> c_seq c' ! j = {} \<and> c_shift c' ! j = 0)" if "j < length (c_pos c')" for j
    using that i d new unfolding fields by (cases "j = i") auto
  show "cells_ok c'"
    unfolding cells_ok_def using d(1,2) used' cells index by (simp add: fields)
  show "cells_view c' = (cells_view c)[i := mk_cell p sh S]"
    using i d(1,2) by (intro nth_equalityI) (auto simp: view_nth view_cell_def fields nth_list_update mk_cell_def)
qed

lemma seq_pos_rm_ok:
  assumes "cells_ok c" and "i < length (c_pos c)"
  shows "\<exists>f. seq_pos_rm i c = Some (c\<lparr>c_seq_pos := f\<rparr>)
    \<and> index_ok f (\<lambda>s p. tally (c_pos c) (c_seq c) s p - of_bool (s \<in> c_seq c ! i \<and> p = c_pos c ! i))"
  using assms cells_okD[OF assms(1)] by (intro seq_pos_rm_value) (auto intro: tally_pos)

lemma cells_rm_ok:
  assumes ok: "cells_ok c" and i: "i < length (c_pos c)" and cell: "cells_view c ! i = Cell p sh S"
  shows "\<exists>c'. cells_rm i c = Some c' \<and> cells_ok c' \<and> cells_view c' = (cells_view c)[i := Empty]
    \<and> c_has_shift c' = c_has_shift c"
proof -
  obtain f where f: "seq_pos_rm i c = Some (c\<lparr>c_seq_pos := f\<rparr>)"
    "index_ok f (\<lambda>s p. tally (c_pos c) (c_seq c) s p - of_bool (s \<in> c_seq c ! i \<and> p = c_pos c ! i))"
    using seq_pos_rm_ok[OF ok i] by blast
  let ?c = "c\<lparr>c_seq_pos := f, c_seq := (c_seq c)[i := {}], c_pos := (c_pos c)[i := - 1],
    c_shift := (c_shift c)[i := 0], c_used := c_used c - {i}\<rparr>"
  have "cells_ok ?c \<and> cells_view ?c = (cells_view c)[i := mk_cell (- 1) 0 {}]"
    using f(2) by (intro cells_put[OF ok i]) (simp_all add: seq_set_ok_def)
  then show ?thesis using f(1) i cell by (simp add: cells_rm_def view_Cell mk_cell_def)
qed

lemma cells_pos_set_ok:
  assumes ok: "cells_ok c" and i: "i < length (c_pos c)" and cell: "cells_view c ! i = Empty" and p: "0 \<le> p"
  shows "\<exists>c'. cells_pos_set i p c = Some c' \<and> cells_ok c' \<and> cells_view c' = (cells_view c)[i := Cell p 0 {}]
    \<and> c_has_shift c' = c_has_shift c"
proof -
  note d = cells_okD[OF ok]
  have e: "c_pos c ! i = - 1" using cell i by (simp add: view_Empty)
  then have sq: "c_seq c ! i = {}" "c_shift c ! i = 0" using d(6,7)[OF i] by auto
  let ?c = "c\<lparr>c_pos := (c_pos c)[i := p], c_used := insert i (c_used c)\<rparr>"
  have "cells_ok ?c \<and> cells_view ?c = (cells_view c)[i := mk_cell p 0 {}]"
    using d(8) p sq list_update_id[of "c_seq c" i] list_update_id[of "c_shift c" i]
    by (intro cells_put[OF ok i]) (simp_all add: seq_set_ok_def)
  then show ?thesis using e i sq p by (simp add: cells_pos_set_def mk_cell_def)
qed

lemma cells_seq_add_ok:
  assumes ok: "cells_ok c" and i: "i < length (c_pos c)" and cell: "cells_view c ! i = Cell p sh S"
    and s: "seq_id_ok s" "s \<notin> S"
  shows "\<exists>c'. cells_seq_add i s c = Some c' \<and> cells_ok c' \<and> cells_view c' = (cells_view c)[i := Cell p sh (insert s S)]
    \<and> c_has_shift c' = c_has_shift c"
proof -
  note d = cells_okD[OF ok]
  have c: "c_pos c ! i \<noteq> - 1" "p = c_pos c ! i" "sh = c_shift c ! i" "S = c_seq c ! i"
    using cell i by (auto simp: view_Cell)
  obtain f where f: "seq_pos_inc s p (c\<lparr>c_seq := (c_seq c)[i := insert s S]\<rparr>)
      = c\<lparr>c_seq := (c_seq c)[i := insert s S]\<rparr>\<lparr>c_seq_pos := f\<rparr>"
    "index_ok f (\<lambda>s' p'. tally (c_pos c) (c_seq c) s' p' + of_bool (s' = s \<and> p' = p))"
    using index_ok_inc[of "c\<lparr>c_seq := (c_seq c)[i := insert s S]\<rparr>" _ s p] d(8) by fastforce
  have t: "(\<lambda>s' p'. tally (c_pos c) (c_seq c) s' p' + of_bool (s' = s \<and> p' = p))
    = (\<lambda>s' q. tally (c_pos c) (c_seq c) s' q - of_bool (s' \<in> c_seq c ! i \<and> q = c_pos c ! i)
        + of_bool (s' \<in> insert s S \<and> q = p))"
  proof (intro ext)
    fix s' q
    show "tally (c_pos c) (c_seq c) s' q + of_bool (s' = s \<and> q = p)
      = tally (c_pos c) (c_seq c) s' q - of_bool (s' \<in> c_seq c ! i \<and> q = c_pos c ! i)
        + of_bool (s' \<in> insert s S \<and> q = p)"
      using s(2) c tally_pos[of i "c_pos c" s' "c_seq c"] i by (cases "s' \<in> S \<and> q = p") auto
  qed
  let ?c = "c\<lparr>c_seq := (c_seq c)[i := insert s S]\<rparr>\<lparr>c_seq_pos := f\<rparr>"
  have "c_used c = insert i (c_used c)" using c(1) i d(3) by auto
  moreover have "seq_set_ok (insert s S)" using s(1) c(4) d(5)[OF i] by (simp add: seq_set_ok_def)
  ultimately have "cells_ok ?c \<and> cells_view ?c = (cells_view c)[i := mk_cell p sh (insert s S)]"
    using f(2)[unfolded t] c d(4)[OF i] by (intro cells_put[OF ok i]) simp_all
  then show ?thesis using f(1) c s i by (simp add: cells_seq_add_def mk_cell_def)
qed

lemma cells_seq_rm_ok:
  assumes ok: "cells_ok c" and i: "i < length (c_pos c)" and cell: "cells_view c ! i = Cell p sh S"
    and s: "s \<in> S"
  shows "\<exists>c'. cells_seq_rm i s c = Some (S = {s}, c') \<and> cells_ok c'
    \<and> cells_view c' = (cells_view c)[i := if S = {s} then Empty else Cell p sh (S - {s})]
    \<and> c_has_shift c' = c_has_shift c"
proof -
  note d = cells_okD[OF ok]
  have c: "c_pos c ! i \<noteq> - 1" "p = c_pos c ! i" "sh = c_shift c ! i" "S = c_seq c ! i"
    using cell i by (auto simp: view_Cell)
  have sid: "seq_id_ok s" using s c(4) d(5)[OF i] by (auto simp: seq_set_ok_def)
  let ?c0 = "c\<lparr>c_seq := (c_seq c)[i := S - {s}]\<rparr>"
  have pos: "0 < tally (c_pos c) (c_seq c) s p" using tally_pos[OF i] s c by auto
  have "index_ok (c_seq_pos ?c0) (tally (c_pos c) (c_seq c))" using d(8) by simp
  then obtain f where f: "seq_pos_dec s p ?c0 = Some (?c0\<lparr>c_seq_pos := f\<rparr>)"
    "index_ok f (\<lambda>s' p'. tally (c_pos c) (c_seq c) s' p' - of_bool (s' = s \<and> p' = p))"
    using index_ok_dec[of ?c0 _ s p] pos by blast
  have t: "tally (c_pos c) (c_seq c) s' q - of_bool (s' = s \<and> q = p)
      = tally (c_pos c) (c_seq c) s' q - of_bool (s' \<in> c_seq c ! i \<and> q = c_pos c ! i)
        + of_bool (s' \<in> S - {s} \<and> q = p)" for s' q
    using s c tally_pos[of i "c_pos c" s' "c_seq c"] i by (cases "s' \<in> S \<and> q = p") auto
  note idx = f(2)[unfolded t]
  show ?thesis
  proof (cases "S = {s}")
    case True
    let ?c = "?c0\<lparr>c_seq_pos := f, c_pos := (c_pos c)[i := - 1], c_shift := (c_shift c)[i := 0], c_used := c_used c - {i}\<rparr>"
    have "cells_ok ?c \<and> cells_view ?c = (cells_view c)[i := mk_cell (- 1) 0 {}]"
      using idx True by (intro cells_put[OF ok i]) (simp_all add: seq_set_ok_def)
    then show ?thesis using f(1) c s sid i True d(2) by (simp add: cells_seq_rm_def mk_cell_def)
  next
    case False
    let ?c = "?c0\<lparr>c_seq_pos := f\<rparr>"
    have "c_used c = insert i (c_used c)" using c(1) i d(3) by auto
    moreover have "seq_set_ok (S - {s})" using c(4) d(5)[OF i] by (auto simp: seq_set_ok_def)
    ultimately have "cells_ok ?c \<and> cells_view ?c = (cells_view c)[i := mk_cell p sh (S - {s})]"
      using idx c d(4)[OF i] by (intro cells_put[OF ok i]) simp_all
    moreover have "S - {s} \<noteq> {}" using False s by auto
    ultimately show ?thesis using f(1) c s sid i False d(2) by (simp add: cells_seq_rm_def mk_cell_def)
  qed
qed

lemma cells_seq_keep_ok:
  assumes ok: "cells_ok c" and i: "i < length (c_pos c)" and s: "seq_id_ok s"
    and named: "\<forall>p sh. cells_view c ! i \<noteq> Cell p sh {}"
  shows "\<exists>c'. cells_seq_keep i s c = Some (cells_view c ! i \<noteq> Empty \<and> s \<notin> cell_seqs (cells_view c ! i), c')
    \<and> cells_ok c'
    \<and> cells_view c' = (cells_view c)[i := case cells_view c ! i of Empty \<Rightarrow> Empty
        | Cell p sh S \<Rightarrow> if s \<in> S then Cell p sh {s} else Empty]
    \<and> c_has_shift c' = c_has_shift c"
proof -
  note d = cells_okD[OF ok]
  obtain f where f: "seq_pos_rm i c = Some (c\<lparr>c_seq_pos := f\<rparr>)"
    "index_ok f (\<lambda>s p. tally (c_pos c) (c_seq c) s p - of_bool (s \<in> c_seq c ! i \<and> p = c_pos c ! i))"
    using seq_pos_rm_ok[OF ok i] by blast
  have vlen: "i < length (cells_view c)" using i by simp
  show ?thesis
  proof (cases "cells_view c ! i")
    case Empty
    then have "c_pos c ! i = - 1" using i by (simp add: view_Empty)
    then have "c_seq c ! i = {}" by (rule d(6)[OF i])
    then show ?thesis
      using Empty ok i s \<open>c_pos c ! i = - 1\<close> list_update_id[of "cells_view c" i]
      by (simp add: cells_seq_keep_def)
  next
    case (Cell p sh S)
    have c: "c_pos c ! i \<noteq> - 1" "p = c_pos c ! i" "sh = c_shift c ! i" "S = c_seq c ! i"
      using Cell i by (auto simp: view_Cell)
    have ne: "S \<noteq> {}" using named Cell by auto
    show ?thesis
    proof (cases "s \<in> S")
      case True
      let ?c0 = "c\<lparr>c_seq_pos := f, c_seq := (c_seq c)[i := {s}]\<rparr>"
      have "index_ok (c_seq_pos ?c0) (\<lambda>s p. tally (c_pos c) (c_seq c) s p - of_bool (s \<in> c_seq c ! i \<and> p = c_pos c ! i))"
        using f(2) by simp
      then obtain g where g: "seq_pos_inc s p ?c0 = ?c0\<lparr>c_seq_pos := g\<rparr>"
        "index_ok g (\<lambda>s' q. tally (c_pos c) (c_seq c) s' q - of_bool (s' \<in> c_seq c ! i \<and> q = c_pos c ! i)
           + of_bool (s' = s \<and> q = p))"
        using index_ok_inc[of ?c0 _ s p] by blast
      let ?c = "?c0\<lparr>c_seq_pos := g\<rparr>"
      have "c_used c = insert i (c_used c)" using c(1) i d(3) by auto
      then have "cells_ok ?c \<and> cells_view ?c = (cells_view c)[i := mk_cell p sh {s}]"
        using g(2) c d(4)[OF i] s by (intro cells_put[OF ok i]) (simp_all add: seq_set_ok_def)
      then show ?thesis using f(1) g(1) c s i True Cell by (simp add: cells_seq_keep_def mk_cell_def)
    next
      case False
      let ?c = "c\<lparr>c_seq_pos := f, c_seq := (c_seq c)[i := {}], c_pos := (c_pos c)[i := - 1],
        c_shift := (c_shift c)[i := 0], c_used := c_used c - {i}\<rparr>"
      have "cells_ok ?c \<and> cells_view ?c = (cells_view c)[i := mk_cell (- 1) 0 {}]"
        using f(2) by (intro cells_put[OF ok i]) (simp_all add: seq_set_ok_def)
      then show ?thesis using f(1) c s i False ne Cell by (simp add: cells_seq_keep_def mk_cell_def)
    qed
  qed
qed

lemma seq_pos_add_ok:
  assumes "index_ok (c_seq_pos c1) t" and "seq_set_ok (c_seq c1 ! i)"
  obtains g where "seq_pos_add i c1 = c1\<lparr>c_seq_pos := g\<rparr>"
    and "index_ok g (\<lambda>s p. t s p + of_bool (s \<in> c_seq c1 ! i \<and> p = c_pos c1 ! i))"
  using seq_pos_add_value[OF assms] by blast

lemma cells_pos_add_ok:
  assumes ok: "cells_ok c" and i: "i < length (c_pos c)" and cell: "cells_view c ! i = Cell p sh S"
    and fits: "i32_ok (p + d)" "i32_ok (sh + d)"
  shows "\<exists>c'. cells_pos_add i d c = Some (p + d < 0, c') \<and> cells_ok c'
    \<and> cells_view c' = (cells_view c)[i := if p + d < 0 then Empty else Cell (p + d) (sh + d) S]
    \<and> c_has_shift c'"
proof -
  note dd = cells_okD[OF ok]
  have c: "c_pos c ! i \<noteq> - 1" "p = c_pos c ! i" "sh = c_shift c ! i" "S = c_seq c ! i"
    using cell i by (auto simp: view_Cell)
  obtain f where f: "seq_pos_rm i c = Some (c\<lparr>c_seq_pos := f\<rparr>)"
    "index_ok f (\<lambda>s p. tally (c_pos c) (c_seq c) s p - of_bool (s \<in> c_seq c ! i \<and> p = c_pos c ! i))"
    using seq_pos_rm_ok[OF ok i] by blast
  let ?c1 = "c\<lparr>c_seq_pos := f, c_pos := (c_pos c)[i := p + d], c_shift := (c_shift c)[i := sh + d], c_has_shift := True\<rparr>"
  show ?thesis
  proof (cases "p + d < 0")
    case True
    let ?c = "?c1\<lparr>c_seq := (c_seq c)[i := {}], c_pos := (c_pos c)[i := - 1], c_shift := (c_shift c)[i := 0],
      c_used := c_used c - {i}\<rparr>"
    have "cells_ok ?c \<and> cells_view ?c = (cells_view c)[i := mk_cell (- 1) 0 {}]"
      using f(2) by (intro cells_put[OF ok i]) (simp_all add: seq_set_ok_def)
    then show ?thesis using f(1) c fits i True dd(1) by (simp add: cells_pos_add_def mk_cell_def)
  next
    case False
    have "index_ok (c_seq_pos ?c1) (\<lambda>s p. tally (c_pos c) (c_seq c) s p - of_bool (s \<in> c_seq c ! i \<and> p = c_pos c ! i))"
      "seq_set_ok (c_seq ?c1 ! i)" using f(2) dd(5)[OF i] by simp_all
    then obtain g where g: "seq_pos_add i ?c1 = ?c1\<lparr>c_seq_pos := g\<rparr>"
      "index_ok g (\<lambda>s q. tally (c_pos c) (c_seq c) s q - of_bool (s \<in> c_seq c ! i \<and> q = c_pos c ! i)
         + of_bool (s \<in> c_seq ?c1 ! i \<and> q = c_pos ?c1 ! i))"
      by (rule seq_pos_add_ok)
    let ?c = "?c1\<lparr>c_seq_pos := g\<rparr>"
    have "c_used c = insert i (c_used c)" using c(1) i dd(3) by auto
    then have "cells_ok ?c \<and> cells_view ?c = (cells_view c)[i := mk_cell (p + d) (sh + d) S]"
      using g(2) c dd(5)[OF i] i False by (intro cells_put[OF ok i]) simp_all
    then show ?thesis using f(1) g(1) c fits i False dd(1) by (simp add: cells_pos_add_def mk_cell_def)
  qed
qed

lemma sdiv_pos_bounds:
  assumes "0 \<le> (p :: int)" and "0 < d"
  shows "p sdiv d = p div d" and "0 \<le> p sdiv d" and "p sdiv d \<le> p"
proof -
  show eq: "p sdiv d = p div d" using assms by (simp add: signed_divide_int_def sgn_if)
  show "0 \<le> p sdiv d" "p sdiv d \<le> p"
    unfolding eq using assms zdiv_mono2[of p 1 d] by (simp_all add: pos_imp_zdiv_nonneg_iff)
qed

lemma cells_pos_div_ok:
  assumes ok: "cells_ok c" and i: "i < length (c_pos c)" and cell: "cells_view c ! i = Cell p sh S"
    and d: "0 < d" and fits: "i32_ok p" "i32_ok (sh + (p - p div d))"
  shows "\<exists>c'. cells_pos_div i d c = Some c' \<and> cells_ok c'
    \<and> cells_view c' = (cells_view c)[i := Cell (p div d) (sh + (p - p div d)) S]
    \<and> c_has_shift c'"
proof -
  note dd = cells_okD[OF ok]
  have c: "c_pos c ! i \<noteq> - 1" "p = c_pos c ! i" "sh = c_shift c ! i" "S = c_seq c ! i"
    using cell i by (auto simp: view_Cell)
  have p0: "0 \<le> p" using c dd(4)[OF i] by linarith
  note sd = sdiv_pos_bounds[OF p0 d]
  obtain f where f: "seq_pos_rm i c = Some (c\<lparr>c_seq_pos := f\<rparr>)"
    "index_ok f (\<lambda>s p. tally (c_pos c) (c_seq c) s p - of_bool (s \<in> c_seq c ! i \<and> p = c_pos c ! i))"
    using seq_pos_rm_ok[OF ok i] by blast
  let ?p = "p div d" and ?sh = "sh + (p - p div d)"
  let ?c1 = "c\<lparr>c_seq_pos := f, c_pos := (c_pos c)[i := ?p], c_shift := (c_shift c)[i := ?sh]\<rparr>"
  have "index_ok (c_seq_pos ?c1) (\<lambda>s p. tally (c_pos c) (c_seq c) s p - of_bool (s \<in> c_seq c ! i \<and> p = c_pos c ! i))"
    "seq_set_ok (c_seq ?c1 ! i)" using f(2) dd(5)[OF i] by simp_all
  then obtain g where g: "seq_pos_add i ?c1 = ?c1\<lparr>c_seq_pos := g\<rparr>"
    "index_ok g (\<lambda>s q. tally (c_pos c) (c_seq c) s q - of_bool (s \<in> c_seq c ! i \<and> q = c_pos c ! i)
       + of_bool (s \<in> c_seq ?c1 ! i \<and> q = c_pos ?c1 ! i))"
    by (rule seq_pos_add_ok)
  let ?c = "?c1\<lparr>c_seq_pos := g, c_has_shift := True\<rparr>"
  have b: "0 \<le> ?p" "?p \<le> p" using sd by simp_all
  have "c_used c = insert i (c_used c)" using c(1) i dd(3) by auto
  then have "cells_ok ?c \<and> cells_view ?c = (cells_view c)[i := mk_cell ?p ?sh S]"
    using g(2) c dd(5)[OF i] i b by (intro cells_put[OF ok i]) simp_all
  moreover have "i32_ok (p sdiv d)" "i32_ok (p - p sdiv d)"
    using b fits(1) p0 by (auto simp: i32_ok_def sd(1))
  ultimately show ?thesis
    using f(1) g(1) c fits(2) i d b sd(1) by (simp add: cells_pos_div_def mk_cell_def Let_def)
qed

lemma cells_set_one_ok:
  assumes ok: "cells_ok c" and i: "i < length (c_pos c)" and still: "c_shift c ! i = 0"
    and new: "- 1 \<le> p" "seq_set_ok S" "p = - 1 \<longrightarrow> S = {}"
  shows "\<exists>c'. cells_set_one i p S c = Some c' \<and> cells_ok c' \<and> cells_view c' = (cells_view c)[i := mk_cell p 0 S]
    \<and> c_shift c' = c_shift c \<and> c_has_shift c' = c_has_shift c"
proof -
  note dd = cells_okD[OF ok]
  define u where "u = (if p = - 1 then c_used c - {i} else insert i (c_used c))"
  let ?t = "\<lambda>s q. tally (c_pos c) (c_seq c) s q - of_bool (s \<in> c_seq c ! i \<and> q = c_pos c ! i)"
  let ?c2 = "if c_pos c ! i = - 1 \<and> p \<noteq> - 1 then c\<lparr>c_used := insert i (c_used c)\<rparr> else c"
  let ?c2' = "if c_pos ?c2 ! i \<noteq> - 1 \<and> p = - 1 then ?c2\<lparr>c_used := c_used ?c2 - {i}\<rparr> else ?c2"
  have c2: "?c2' = c\<lparr>c_used := u\<rparr>"
    using i unfolding u_def by (auto simp: dd(3) intro!: kv_cells.equality)
  have "\<exists>f. (if c_pos c ! i \<noteq> - 1 then seq_pos_rm i (c\<lparr>c_used := u\<rparr>) else Some (c\<lparr>c_used := u\<rparr>))
      = Some (c\<lparr>c_used := u, c_seq_pos := f\<rparr>) \<and> index_ok f ?t"
  proof (cases "c_pos c ! i = - 1")
    case True
    then have "?t = tally (c_pos c) (c_seq c)" using dd(6)[OF i] by (auto simp: fun_eq_iff)
    then show ?thesis using True dd(8) by (intro exI[of _ "c_seq_pos c"]) simp
  next
    case False
    have "\<exists>f. seq_pos_rm i (c\<lparr>c_used := u\<rparr>) = Some ((c\<lparr>c_used := u\<rparr>)\<lparr>c_seq_pos := f\<rparr>)
        \<and> index_ok f (\<lambda>s q. tally (c_pos c) (c_seq c) s q
            - of_bool (s \<in> c_seq (c\<lparr>c_used := u\<rparr>) ! i \<and> q = c_pos (c\<lparr>c_used := u\<rparr>) ! i))"
      using dd(5,8) i by (intro seq_pos_rm_value) (auto intro: tally_pos)
    then show ?thesis using False by simp
  qed
  then obtain f where f: "(if c_pos c ! i \<noteq> - 1 then seq_pos_rm i (c\<lparr>c_used := u\<rparr>) else Some (c\<lparr>c_used := u\<rparr>))
      = Some (c\<lparr>c_used := u, c_seq_pos := f\<rparr>)" "index_ok f ?t" by blast
  let ?c4 = "c\<lparr>c_used := u, c_seq_pos := f, c_pos := (c_pos c)[i := p], c_seq := (c_seq c)[i := S]\<rparr>"
  have "\<exists>g. (if p \<noteq> - 1 then seq_pos_add i ?c4 else ?c4) = ?c4\<lparr>c_seq_pos := g\<rparr>
      \<and> index_ok g (\<lambda>s q. ?t s q + of_bool (s \<in> S \<and> q = p))"
  proof (cases "p = - 1")
    case True
    then show ?thesis using new(3) f(2) by (intro exI[of _ f]) simp
  next
    case False
    have "index_ok (c_seq_pos ?c4) ?t" "seq_set_ok (c_seq ?c4 ! i)" using f(2) new(2) i dd(2) by simp_all
    then show ?thesis using False i dd(2) by (elim seq_pos_add_ok) (auto simp del: of_bool_conj)
  qed
  then obtain g where g: "(if p \<noteq> - 1 then seq_pos_add i ?c4 else ?c4) = ?c4\<lparr>c_seq_pos := g\<rparr>"
    "index_ok g (\<lambda>s q. ?t s q + of_bool (s \<in> S \<and> q = p))" by blast
  let ?c = "?c4\<lparr>c_seq_pos := g\<rparr>"
  have "cells_ok ?c \<and> cells_view ?c = (cells_view c)[i := mk_cell p 0 S]"
    using g(2) new still list_update_id[of "c_shift c" i]
    by (intro cells_put[OF ok i]) (simp_all add: u_def)
  moreover have "cells_set_one i p S c = Some ?c"
    unfolding cells_set_one_def Let_def c2 using f(1) g(1) i still by (cases "p = - 1") simp_all
  ultimately show ?thesis by simp
qed

subsection \<open>Whole-table operations\<close>

lemma tally_replicate: "tally (replicate n (- 1)) (replicate n {}) = (\<lambda>s p. 0)"
  by (intro ext) (auto simp: tally_def)

lemma cells_reset_ok: "cells_ok (cells_reset c)" "cells_view (cells_reset c) = replicate (length (c_pos c)) Empty"
  by (simp_all add: cells_ok_def cells_reset_def tally_replicate index_ok_def seq_set_ok_def
      list_eq_iff_nth_eq view_nth view_cell_def)

lemma length_vector_resize [simp]: "length (vector_resize n x xs) = n"
  by (simp add: vector_resize_def)

lemma cells_resize_ok: "cells_ok (cells_resize n c)" "cells_view (cells_resize n c) = replicate n Empty"
  by (simp_all add: cells_resize_def cells_reset_ok)

lemma cells_reset_shift_ok:
  assumes "cells_ok c"
  shows "cells_ok (cells_reset_shift c)"
    and "cells_view (cells_reset_shift c) = map (\<lambda>x. case x of Empty \<Rightarrow> Empty | Cell p sh S \<Rightarrow> Cell p 0 S) (cells_view c)"
  using assms
  by (auto simp: cells_ok_def cells_reset_shift_def list_eq_iff_nth_eq view_nth view_cell_def)

text \<open>A saved table: the cells alone, without indices.\<close>

definition saved_ok :: "kv_cells \<Rightarrow> bool" where
  "saved_ok sv \<longleftrightarrow> length (c_seq sv) = length (c_pos sv)
     \<and> (\<forall>j < length (c_pos sv). - 1 \<le> c_pos sv ! j \<and> seq_set_ok (c_seq sv ! j) \<and> (c_pos sv ! j = - 1 \<longrightarrow> c_seq sv ! j = {}))"

lemma cells_cp_saved:
  assumes "cells_ok c" and "cells_cp idxs c = Some sv"
  shows "saved_ok sv" and "length (c_pos sv) = length idxs"
    and "j < length idxs \<Longrightarrow> idxs ! j < length (c_pos c)
      \<and> mk_cell (c_pos sv ! j) 0 (c_seq sv ! j) = cells_view c ! (idxs ! j)"
  using assms cells_okD[OF assms(1)]
  by (auto simp: cells_cp_def saved_ok_def Let_def list_all_iff mk_cell_def view_nth view_cell_def split: if_splits)

lemma cells_set_prefix_ok:
  assumes ok: "cells_ok c" and sv: "saved_ok sv" and len: "length idxs = length (c_pos sv)"
    and ix: "\<And>i. i \<in> set idxs \<Longrightarrow> i < length (c_pos c) \<and> c_shift c ! i = 0"
  shows "n \<le> length (c_pos sv) \<Longrightarrow> \<exists>c'.
      fold_opt (\<lambda>j. cells_set_one (idxs ! j) (c_pos sv ! j) (c_seq sv ! j)) [0..<n] c = Some c'
    \<and> cells_ok c' \<and> c_shift c' = c_shift c \<and> c_has_shift c' = c_has_shift c
    \<and> cells_view c' = fold (\<lambda>j v. v[idxs ! j := mk_cell (c_pos sv ! j) 0 (c_seq sv ! j)]) [0..<n] (cells_view c)"
proof (induction n)
  case 0
  then show ?case using ok by simp
next
  case (Suc n)
  then obtain c1 where c1: "fold_opt (\<lambda>j. cells_set_one (idxs ! j) (c_pos sv ! j) (c_seq sv ! j)) [0..<n] c = Some c1"
    and ok1: "cells_ok c1" and sh: "c_shift c1 = c_shift c" "c_has_shift c1 = c_has_shift c"
    and v: "cells_view c1 = fold (\<lambda>j v. v[idxs ! j := mk_cell (c_pos sv ! j) 0 (c_seq sv ! j)]) [0..<n] (cells_view c)"
    by auto
  have n: "n < length (c_pos sv)" using Suc.prems by simp
  have "length (c_pos c1) = length (c_pos c)"
    using cells_okD(1)[OF ok1] cells_okD(1)[OF ok] sh by simp
  then have i: "idxs ! n < length (c_pos c1)" and z: "c_shift c1 ! (idxs ! n) = 0"
    using ix[of "idxs ! n"] n len sh by simp_all
  have "\<exists>c'. cells_set_one (idxs ! n) (c_pos sv ! n) (c_seq sv ! n) c1 = Some c' \<and> cells_ok c'
      \<and> cells_view c' = (cells_view c1)[idxs ! n := mk_cell (c_pos sv ! n) 0 (c_seq sv ! n)]
      \<and> c_shift c' = c_shift c1 \<and> c_has_shift c' = c_has_shift c1"
    using sv n by (intro cells_set_one_ok[OF ok1 i z]) (simp_all add: saved_ok_def)
  then show ?case using c1 sh v by (auto simp: fold_opt_append)
qed

lemma cells_set_ok:
  assumes ok: "cells_ok c" and sv: "saved_ok sv" and len: "length idxs = length (c_pos sv)"
    and ix: "\<And>i. i \<in> set idxs \<Longrightarrow> i < length (c_pos c) \<and> c_shift c ! i = 0"
  shows "\<exists>c'. cells_set idxs sv c = Some c' \<and> cells_ok c' \<and> c_shift c' = c_shift c \<and> c_has_shift c' = c_has_shift c
    \<and> cells_view c' = fold (\<lambda>j v. v[idxs ! j := mk_cell (c_pos sv ! j) 0 (c_seq sv ! j)]) [0..<length idxs] (cells_view c)"
  using cells_set_prefix_ok[OF assms, of "length idxs"] len by (simp add: cells_set_def)

lemma nth_fold_updates:
  assumes "\<And>j. j < length idxs \<Longrightarrow> idxs ! j < length v \<and> x j = w ! (idxs ! j)" and "n \<le> length idxs" and "i < length v"
  shows "fold (\<lambda>j v. v[idxs ! j := x j]) [0..<n] v ! i = (if i \<in> set (take n idxs) then w ! i else v ! i)"
proof -
  have "length (fold (\<lambda>j v. v[idxs ! j := x j]) [0..<n] v) = length v" for n by (induction n) auto
  then show ?thesis using assms(2)
  proof (induction n)
    case 0
    then show ?case by simp
  next
    case (Suc n)
    then show ?case using assms(1)[of n] assms(3) by (auto simp: nth_list_update take_Suc_conv_app_nth)
  qed
qed

lemma length_fold_updates: "length (fold (\<lambda>j v. v[idxs ! j := x j]) ns v) = length v"
  by (induction ns arbitrary: v) auto

text \<open>Saving some cells and restoring them later, over whatever happened to them in between.\<close>

lemma cells_restore:
  assumes ok: "cells_ok c" and sv: "cells_cp idxs c = Some sv"
    and ok2: "cells_ok c2" and len: "length (c_pos c2) = length (c_pos c)"
    and still: "\<And>i. i \<in> set idxs \<Longrightarrow> c_shift c2 ! i = 0"
  shows "\<exists>c3. cells_set idxs sv c2 = Some c3 \<and> cells_ok c3
    \<and> (\<forall>i < length (c_pos c). cells_view c3 ! i = (if i \<in> set idxs then cells_view c ! i else cells_view c2 ! i))
    \<and> length (c_pos c3) = length (c_pos c) \<and> c_has_shift c3 = c_has_shift c2"
proof -
  note saved = cells_cp_saved[OF ok sv]
  have ix: "i < length (c_pos c2) \<and> c_shift c2 ! i = 0" if "i \<in> set idxs" for i
    using that saved(3) still len by (metis in_set_conv_nth)
  obtain c3 where c3: "cells_set idxs sv c2 = Some c3" "cells_ok c3" "c_shift c3 = c_shift c2" "c_has_shift c3 = c_has_shift c2"
    "cells_view c3 = fold (\<lambda>j v. v[idxs ! j := mk_cell (c_pos sv ! j) 0 (c_seq sv ! j)]) [0..<length idxs] (cells_view c2)"
    using cells_set_ok[OF ok2 saved(1) saved(2)[symmetric] ix] by blast
  have "cells_view c3 ! i = (if i \<in> set idxs then cells_view c ! i else cells_view c2 ! i)"
    if "i < length (c_pos c)" for i
    unfolding c3(5) using that saved(3) len
    by (subst nth_fold_updates[where w = "cells_view c"]) simp_all
  moreover have "length (c_pos c3) = length (c_pos c)"
    using c3(3) cells_okD(1)[OF c3(2)] cells_okD(1)[OF ok2] len by simp
  ultimately show ?thesis using c3 by blast
qed

subsection \<open>Reading the indices\<close>

definition seq_positions :: "kv_cells \<Rightarrow> int \<Rightarrow> int set" where
  "seq_positions c s = {p. \<exists>i < length (c_pos c). \<exists>sh S. cells_view c ! i = Cell p sh S \<and> s \<in> S}"

lemma seq_pos_dom:
  assumes "cells_ok c"
  shows "fset (fmdom (c_seq_pos c s)) = seq_positions c s"
proof -
  note d = cells_okD[OF assms]
  have dom: "fset (fmdom (c_seq_pos c s)) = {p. tally (c_pos c) (c_seq c) s p \<noteq> 0}"
    using d(8) by (auto simp: fmdom.rep_eq dom_def index_ok_def fmlookup_dom_iff split: if_splits)
  show ?thesis
    unfolding dom tally_zero_iff seq_positions_def using d(6) by (auto simp: view_Cell cong: conj_cong)
qed

lemma seq_pos_counted:
  assumes "cells_ok c" and "p \<in> fset (fmdom (c_seq_pos c s))"
  shows "the (fmlookup (c_seq_pos c s) p) > 0"
proof -
  obtain n where n: "fmlookup (c_seq_pos c s) p = Some n" using assms(2) by (auto simp: fmlookup_dom_iff)
  then show ?thesis using cells_okD(8)[OF assms(1)] by (auto simp: index_ok_def split: if_splits)
qed

lemma seq_positions_finite: "finite (seq_positions c s)"
proof -
  have "seq_positions c s \<subseteq> (\<lambda>i. cell_pos (cells_view c ! i)) ` {..<length (c_pos c)}"
    by (force simp: seq_positions_def)
  then show ?thesis by (rule finite_subset) simp
qed

lemma seq_pos_extrema:
  assumes ok: "cells_ok c" and s: "seq_id_ok s"
  shows "cells_seq_pos_min s c = Some (if seq_positions c s = {} then - 1 else Min (seq_positions c s))"
    and "cells_seq_pos_max s c = Some (if seq_positions c s = {} then - 1 else Max (seq_positions c s))"
proof -
  have "the (fmlookup (c_seq_pos c s) p) > 0" if "p \<in> seq_positions c s" for p
    using seq_pos_counted[OF ok] that by (simp add: seq_pos_dom[OF ok])
  then show "cells_seq_pos_min s c = Some (if seq_positions c s = {} then - 1 else Min (seq_positions c s))"
    and "cells_seq_pos_max s c = Some (if seq_positions c s = {} then - 1 else Max (seq_positions c s))"
    using s seq_positions_finite
    by (auto simp: cells_seq_pos_min_def cells_seq_pos_max_def seq_pos_dom[OF ok] Let_def)
qed

lemma used_is_nonempty:
  assumes "cells_ok c"
  shows "c_used c = {i. i < length (c_pos c) \<and> cells_view c ! i \<noteq> Empty}"
  unfolding cells_okD(3)[OF assms] by (simp add: view_Empty cong: conj_cong)

lemma used_finite: "cells_ok c \<Longrightarrow> finite (c_used c)"
  by (simp add: cells_okD(3))

lemma seq_get_single:
  assumes "cells_ok c" and "i < length (c_pos c)" and "c_seq c ! i = {s}"
  shows "cells_seq_get i c = Some s"
proof -
  have "seq_id_ok s" using cells_okD(5)[OF assms(1,2)] assms(3) by (simp add: seq_set_ok_def)
  then have m: "s \<in> set [0..LLAMA_MAX_SEQ - 1]" by (simp only: seq_ids mem_Collect_eq)
  have single: "filter (\<lambda>x. x \<in> {s}) xs = [s]" if "distinct xs" "s \<in> set xs" for xs :: "int list"
    using that by (induction xs) (auto simp: filter_empty_conv)
  have "card (c_seq c ! i) = 1" using assms(3) by simp
  then show ?thesis
    unfolding cells_seq_get_def assms(3) single[OF seq_ids(2) m] using assms(2) by (simp only: if_True list.case refl)
qed

subsection \<open>The interface the cache uses to fill a cell\<close>

locale cell_store =
  fixes ok :: "'s \<Rightarrow> bool" and view :: "'s \<Rightarrow> cell list"
    and rm :: "nat \<Rightarrow> 's \<Rightarrow> 's option" and pos_set :: "nat \<Rightarrow> int \<Rightarrow> 's \<Rightarrow> 's option"
    and seq_add :: "nat \<Rightarrow> int \<Rightarrow> 's \<Rightarrow> 's option"
  assumes rm_law: "ok s \<Longrightarrow> i < length (view s) \<Longrightarrow> view s ! i \<noteq> Empty
      \<Longrightarrow> \<exists>s'. rm i s = Some s' \<and> ok s' \<and> view s' = (view s)[i := Empty]"
    and pos_set_law: "ok s \<Longrightarrow> i < length (view s) \<Longrightarrow> view s ! i = Empty \<Longrightarrow> 0 \<le> p
      \<Longrightarrow> \<exists>s'. pos_set i p s = Some s' \<and> ok s' \<and> view s' = (view s)[i := Cell p 0 {}]"
    and seq_add_law: "ok s \<Longrightarrow> i < length (view s) \<Longrightarrow> view s ! i = Cell p sh S \<Longrightarrow> seq_id_ok q \<Longrightarrow> q \<notin> S
      \<Longrightarrow> \<exists>s'. seq_add i q s = Some s' \<and> ok s' \<and> view s' = (view s)[i := Cell p sh (insert q S)]"
begin

lemma add_seqs:
  assumes "ok s" and "i < length (view s)" and "view s ! i = Cell p sh S" and "distinct qs"
    and "set qs \<inter> S = {}" and "\<And>q. q \<in> set qs \<Longrightarrow> seq_id_ok q"
  shows "\<exists>s'. fold_opt (seq_add i) qs s = Some s' \<and> ok s' \<and> view s' = (view s)[i := Cell p sh (S \<union> set qs)]"
  using assms
proof (induction qs arbitrary: s S)
  case Nil
  then show ?case using list_update_id[of "view s" i] by simp
next
  case (Cons q qs)
  obtain s1 where s1: "seq_add i q s = Some s1" "ok s1" "view s1 = (view s)[i := Cell p sh (insert q S)]"
    using seq_add_law[OF Cons.prems(1-3), of q] Cons.prems(5,6) by auto
  have "\<exists>s'. fold_opt (seq_add i) qs s1 = Some s' \<and> ok s' \<and> view s' = (view s1)[i := Cell p sh (insert q S \<union> set qs)]"
    using Cons.prems s1 by (intro Cons.IH) auto
  then show ?case using s1 by auto
qed

text \<open>Filling a cell that may be occupied: clear, set the position, add the sequences.\<close>

lemma write_cell:
  assumes ok: "ok s" and i: "i < length (view s)" and p: "0 \<le> p" and qs: "distinct qs" "\<And>q. q \<in> set qs \<Longrightarrow> seq_id_ok q"
  shows "\<exists>s'. Option.bind (if view s ! i = Empty then Some s else rm i s)
        (\<lambda>s. Option.bind (pos_set i p s) (fold_opt (seq_add i) qs)) = Some s'
    \<and> ok s' \<and> view s' = (view s)[i := Cell p 0 (set qs)]"
proof -
  obtain s1 where s1: "(if view s ! i = Empty then Some s else rm i s) = Some s1" "ok s1"
    "view s1 = (view s)[i := Empty]"
    using rm_law[OF ok i] ok list_update_id[of "view s" i] by (cases "view s ! i = Empty") auto
  obtain s2 where s2: "pos_set i p s1 = Some s2" "ok s2" "view s2 = (view s1)[i := Cell p 0 {}]"
    using pos_set_law[OF s1(2), of i p] s1(3) i p by auto
  obtain s3 where "fold_opt (seq_add i) qs s2 = Some s3" "ok s3" "view s3 = (view s2)[i := Cell p 0 ({} \<union> set qs)]"
    using add_seqs[OF s2(2), of i p 0 "{}" qs] s2(3) s1(3) i qs by auto
  then show ?thesis using s1 s2 by simp
qed

end

interpretation kv: cell_store cells_ok cells_view cells_rm cells_pos_set cells_seq_add
proof unfold_locales
  fix s i
  assume a: "cells_ok s" "i < length (cells_view s)" "cells_view s ! i \<noteq> Empty"
  obtain p sh S where "cells_view s ! i = Cell p sh S" using a(3) by (cases "cells_view s ! i") auto
  then show "\<exists>s'. cells_rm i s = Some s' \<and> cells_ok s' \<and> cells_view s' = (cells_view s)[i := Empty]"
    using cells_rm_ok[of s i] a by auto
next
  show "\<exists>s'. cells_pos_set i p s = Some s' \<and> cells_ok s' \<and> cells_view s' = (cells_view s)[i := Cell p 0 {}]"
    if "cells_ok s" "i < length (cells_view s)" "cells_view s ! i = Empty" "0 \<le> p" for s i p
    using cells_pos_set_ok[of s i p] that by auto
next
  show "\<exists>s'. cells_seq_add i q s = Some s' \<and> cells_ok s' \<and> cells_view s' = (cells_view s)[i := Cell p sh (insert q S)]"
    if "cells_ok s" "i < length (cells_view s)" "cells_view s ! i = Cell p sh S" "seq_id_ok q" "q \<notin> S" for s i p sh S q
    using cells_seq_add_ok[of s i p sh S q] that by auto
qed

subsection \<open>Every reachable table\<close>

text \<open>
  A completed call of each mutating operation. Positions set are non-negative and divisors positive,
  as in all callers; a restored table is one that \<open>cp\<close> produced or its like (\<open>saved_ok\<close>).
\<close>

inductive cells_step :: "kv_cells \<Rightarrow> kv_cells \<Rightarrow> bool" where
  step_reset: "cells_step c (cells_reset c)"
| step_reset_shift: "cells_step c (cells_reset_shift c)"
| step_resize: "cells_step c (cells_resize n c)"
| step_rm: "cells_rm i c = Some c' \<Longrightarrow> cells_step c c'"
| step_seq_rm: "cells_seq_rm i s c = Some (b, c') \<Longrightarrow> cells_step c c'"
| step_seq_keep: "cells_seq_keep i s c = Some (b, c') \<Longrightarrow> cells_step c c'"
| step_seq_add: "cells_seq_add i s c = Some c' \<Longrightarrow> cells_step c c'"
| step_pos_set: "cells_pos_set i p c = Some c' \<Longrightarrow> 0 \<le> p \<Longrightarrow> cells_step c c'"
| step_pos_add: "cells_pos_add i d c = Some (b, c') \<Longrightarrow> cells_step c c'"
| step_pos_div: "cells_pos_div i d c = Some c' \<Longrightarrow> 0 < d \<Longrightarrow> i32_ok (c_pos c ! i) \<Longrightarrow> cells_step c c'"
| step_set: "cells_set idxs sv c = Some c' \<Longrightarrow> saved_ok sv \<Longrightarrow> cells_step c c'"

lemma set_one_shift:
  assumes "cells_set_one i p S c = Some c'" and "cells_ok c" and "- 1 \<le> p" "seq_set_ok S" "p = - 1 \<longrightarrow> S = {}"
  shows "cells_ok c'"
proof -
  have i: "i < length (c_pos c)" using assms(1) by (auto simp: cells_set_one_def split: if_splits)
  have keep: "c_shift c2 = c_shift c1" if "seq_pos_rm i c1 = Some c2" for c1 c2
    using that unfolding seq_pos_rm_def
    by (rule fold_opt_invariant[where P = "\<lambda>c. c_shift c = c_shift c1"])
      (auto simp: seq_pos_dec_def split: if_splits option.splits)
  have keep': "c_shift (seq_pos_add i c1) = c_shift c1" for c1
  proof -
    have "c_shift (fold (\<lambda>s c. if s \<in> c_seq c ! i then seq_pos_inc s (c_pos c ! i) c else c) xs c1) = c_shift c1" for xs
      by (induction xs arbitrary: c1) (auto simp: seq_pos_inc_def)
    then show ?thesis by (simp add: seq_pos_add_def del: upto.simps)
  qed
  have "c_shift c ! i = 0"
    using assms(1) keep keep' by (auto simp: cells_set_one_def Let_def split: if_splits option.splits dest!: keep)
  then show ?thesis using cells_set_one_ok[OF assms(2) i _ assms(3-5)] assms(1) by auto
qed

lemma view_cases:
  assumes "i < length (c_pos c)" and "c_pos c ! i \<noteq> - 1"
  shows "cells_view c ! i = Cell (c_pos c ! i) (c_shift c ! i) (c_seq c ! i)"
  using assms by (simp add: view_Cell)

lemma cells_step_ok:
  assumes "cells_step c c'" and ok: "cells_ok c"
  shows "cells_ok c'"
  using assms(1)
proof cases
  case step_reset
  then show ?thesis using cells_reset_ok by simp
next
  case step_reset_shift
  then show ?thesis using cells_reset_shift_ok(1)[OF ok] by simp
next
  case step_resize
  then show ?thesis using cells_resize_ok by simp
next
  case (step_rm i)
  then have "i < length (c_pos c)" "c_pos c ! i \<noteq> - 1" by (auto simp: cells_rm_def split: if_splits)
  then show ?thesis using cells_rm_ok[OF ok _ view_cases] step_rm by fastforce
next
  case (step_seq_rm i s b)
  then have "i < length (c_pos c)" "c_pos c ! i \<noteq> - 1" "s \<in> c_seq c ! i"
    by (auto simp: cells_seq_rm_def split: if_splits)
  then show ?thesis using cells_seq_rm_ok[OF ok _ view_cases] step_seq_rm by fastforce
next
  case (step_seq_keep i s b)
  then have i: "i < length (c_pos c)" and s: "seq_id_ok s"
    by (auto simp: cells_seq_keep_def split: if_splits)
  have "c_pos c ! i = - 1 \<or> c_seq c ! i \<noteq> {}"
    using step_seq_keep by (auto simp: cells_seq_keep_def split: if_splits)
  then have "\<forall>p sh. cells_view c ! i \<noteq> Cell p sh {}" using i by (auto simp: view_Cell)
  then show ?thesis using cells_seq_keep_ok[OF ok i s] step_seq_keep by fastforce
next
  case (step_seq_add i s)
  then have "i < length (c_pos c)" "c_pos c ! i \<noteq> - 1" "seq_id_ok s" "s \<notin> c_seq c ! i"
    by (auto simp: cells_seq_add_def split: if_splits)
  then show ?thesis using cells_seq_add_ok[OF ok _ view_cases] step_seq_add by fastforce
next
  case (step_pos_set i p)
  then have "i < length (c_pos c)" "c_pos c ! i = - 1" by (auto simp: cells_pos_set_def split: if_splits)
  then show ?thesis using cells_pos_set_ok[OF ok, of i p] step_pos_set by (fastforce simp: view_Empty)
next
  case (step_pos_add i d b)
  then have i: "i < length (c_pos c)" "c_pos c ! i \<noteq> - 1" by (auto simp: cells_pos_add_def split: if_splits)
  obtain f where "seq_pos_rm i c = Some (c\<lparr>c_seq_pos := f\<rparr>)" using seq_pos_rm_ok[OF ok i(1)] by blast
  then have "i32_ok (c_pos c ! i + d)" "i32_ok (c_shift c ! i + d)"
    using step_pos_add by (auto simp: cells_pos_add_def split: if_splits)
  then show ?thesis using cells_pos_add_ok[OF ok i(1) view_cases[OF i]] step_pos_add by fastforce
next
  case (step_pos_div i d)
  then have i: "i < length (c_pos c)" "c_pos c ! i \<noteq> - 1" by (auto simp: cells_pos_div_def split: if_splits)
  obtain f where "seq_pos_rm i c = Some (c\<lparr>c_seq_pos := f\<rparr>)" using seq_pos_rm_ok[OF ok i(1)] by blast
  then have "i32_ok (c_shift c ! i + (c_pos c ! i - c_pos c ! i sdiv d))"
    using step_pos_div i by (auto simp: cells_pos_div_def Let_def split: if_splits)
  moreover have "0 \<le> c_pos c ! i" using cells_okD(4)[OF ok i(1)] i(2) by linarith
  ultimately have "i32_ok (c_shift c ! i + (c_pos c ! i - c_pos c ! i div d))"
    using step_pos_div by (simp add: sdiv_pos_bounds(1))
  then show ?thesis using cells_pos_div_ok[OF ok i(1) view_cases[OF i]] step_pos_div by fastforce
next
  case (step_set idxs sv)
  then have run: "fold_opt (\<lambda>j. cells_set_one (idxs ! j) (c_pos sv ! j) (c_seq sv ! j)) [0..<length (c_pos sv)] c = Some c'"
    by (auto simp: cells_set_def split: if_splits)
  show ?thesis
    by (rule fold_opt_invariant[where P = cells_ok, OF run ok])
      (use step_set in \<open>auto simp: saved_ok_def intro: set_one_shift\<close>)
qed

lemma cells_init_ok: "cells_ok kv_cells_init"
  by (simp add: cells_ok_def kv_cells_init_def index_ok_def tally_def)

interpretation kv_table: transition_system "\<lambda>c. c = kv_cells_init" cells_step cells_ok
  by unfold_locales (auto intro: cells_init_ok cells_step_ok)

text \<open>
  Property C28. Whatever operations have run, the set of used cells is the set of non-empty cells,
  every per-sequence position count is the number of cells of that sequence at that position, and
  an empty cell has no sequence and no pending shift.
\<close>

theorem cells_reachable_ok:
  assumes "cells_step\<^sup>*\<^sup>* kv_cells_init c"
  shows "c_used c = {i. i < length (c_pos c) \<and> c_pos c ! i \<noteq> - 1}
    \<and> (\<forall>s p. fmlookup (c_seq_pos c s) p =
         (let n = card {i. i < length (c_pos c) \<and> c_pos c ! i = p \<and> s \<in> c_seq c ! i}
          in if n = 0 then None else Some (int n)))
    \<and> (\<forall>i < length (c_pos c). - 1 \<le> c_pos c ! i \<and> (c_pos c ! i = - 1 \<longrightarrow> c_seq c ! i = {} \<and> c_shift c ! i = 0))"
proof -
  have ok: "cells_ok c" using kv_table.reachable_inv[OF refl assms] .
  show ?thesis
    using cells_okD(8)[OF ok] cells_okD(3,4,6,7)[OF ok] by (auto simp: index_ok_def tally_def Let_def)
qed

lemma cells_reachable_ok_witness:
  "\<exists>c. cells_step\<^sup>*\<^sup>* kv_cells_init c \<and> c_used c = {1} \<and> c_pos c = [- 1, 7] \<and> fmlookup (c_seq_pos c 3) 7 = Some 1"
proof -
  let ?c0 = "cells_resize 2 kv_cells_init"
  have s0: "cells_step kv_cells_init ?c0" by (rule cells_step.intros)
  define c1 where "c1 = ?c0\<lparr>c_pos := [- 1, 7], c_used := {1}\<rparr>"
  have "cells_pos_set 1 7 ?c0 = Some c1"
    by (simp add: cells_pos_set_def c1_def cells_resize_def cells_reset_def numeral_2_eq_2)
  then have s1: "cells_step ?c0 c1" by (rule cells_step.step_pos_set) simp
  define c2 where "c2 = seq_pos_inc 3 7 (c1\<lparr>c_seq := [{}, {3}]\<rparr>)"
  have "cells_seq_add 1 3 c1 = Some c2"
    by (simp add: cells_seq_add_def c1_def c2_def cells_resize_def cells_reset_def numeral_2_eq_2 seq_id_ok_def)
  then have s2: "cells_step c1 c2" by (rule step_seq_add)
  have r: "cells_step\<^sup>*\<^sup>* kv_cells_init c2" 
    by (rule converse_rtranclp_into_rtranclp[OF s0 converse_rtranclp_into_rtranclp[OF s1 r_into_rtranclp[of cells_step, OF s2]]])
  have f: "c_pos c2 = [- 1, 7]" "c_seq c2 = [{}, {3}]" "c_used c2 = {1}"
    by (simp_all add: c2_def c1_def seq_pos_inc_def)
  have "{i. i < length (c_pos c2) \<and> c_pos c2 ! i = 7 \<and> 3 \<in> c_seq c2 ! i} = {1}"
    by (auto simp: f less_Suc_eq)
  then have "fmlookup (c_seq_pos c2 3) 7 = Some 1"
    using cells_reachable_ok[OF r] by (simp only: Let_def) simp
  then show ?thesis using r f by blast
qed

text \<open>
  \<open>seq_pos_min\<close> and \<open>seq_pos_max\<close> are the extreme positions among the cells that hold
  the sequence, and \<open>-1\<close> when none does; \<open>get_used\<close>, \<open>used_min\<close> and \<open>used_max_p1\<close> are the number,
  the first and one past the last of the non-empty cells.
\<close>

theorem cells_queries_exact:
  assumes ok: "cells_ok c" and s: "seq_id_ok s"
  defines "P \<equiv> {c_pos c ! i | i. i < length (c_pos c) \<and> s \<in> c_seq c ! i}"
    and "U \<equiv> {i. i < length (c_pos c) \<and> c_pos c ! i \<noteq> - 1}"
  shows "cells_seq_pos_min s c = Some (if P = {} then - 1 else Min P)
    \<and> cells_seq_pos_max s c = Some (if P = {} then - 1 else Max P)
    \<and> cells_get_used c = card U
    \<and> cells_used_min c = (if U = {} then 0 else Min U)
    \<and> cells_used_max_p1 c = (if U = {} then 0 else Suc (Max U))"
proof -
  have "s \<in> c_seq c ! i \<Longrightarrow> i < length (c_pos c) \<Longrightarrow> c_pos c ! i \<noteq> - 1" for i
    using cells_okD(6)[OF ok, of i] by auto
  then have "seq_positions c s = P"
    unfolding seq_positions_def P_def by (auto simp: view_Cell cong: conj_cong)
  moreover have "c_used c = U" using cells_okD(3)[OF ok] by (simp add: U_def)
  ultimately show ?thesis
    using seq_pos_extrema[OF ok s] by (simp add: cells_get_used_def cells_used_min_def cells_used_max_p1_def)
qed

lemma less_3_cases_iff: "i < Suc (Suc (Suc 0)) \<longleftrightarrow> i = 0 \<or> i = 1 \<or> i = 2"
  by auto

lemma Collect_less_3: "{j. j < Suc (Suc (Suc 0)) \<and> Q j} =
    (if Q 0 then {0} else {}) \<union> (if Q 1 then {1} else {}) \<union> (if Q 2 then {2} else {})"
proof (rule set_eqI)
  fix x
  show "x \<in> {j. j < Suc (Suc (Suc 0)) \<and> Q j} \<longleftrightarrow>
    x \<in> (if Q 0 then {0} else {}) \<union> (if Q 1 then {1} else {}) \<union> (if Q 2 then {2} else {})"
    unfolding less_3_cases_iff by (cases "x = 0"; cases "x = 1"; cases "x = 2") simp_all
qed

definition sample_cells :: kv_cells where
  "sample_cells = \<lparr>c_has_shift = False, c_used = {0, 2}, c_pos = [9, - 1, 4], c_shift = [0, 0, 0],
     c_seq = [{0}, {}, {0, 1}],
     c_seq_pos = (\<lambda>_. fmempty)(0 := fmupd 9 1 (fmupd 4 1 fmempty), 1 := fmupd 4 1 fmempty)\<rparr>"

lemma sample_cells_ok: "cells_ok sample_cells"
proof -
  have t: "tally [9, - 1, 4] [{0}, {}, {0, 1}] s p =
      of_bool (s = 0 \<and> p = 9) + of_bool (s = 0 \<and> p = 4) + of_bool (s = 1 \<and> p = 4)" for s p
  proof -
    have "{j. j < length [9, - 1, 4 :: int] \<and> [9, - 1, 4] ! j = p \<and> s \<in> [{0}, {}, {0, 1}] ! j}
      = (if s = 0 \<and> p = 9 then {0} else {}) \<union> (if (s = 0 \<or> s = 1) \<and> p = 4 then {2} else {})"
      by (simp add: Collect_less_3)
    then show ?thesis by (auto simp: tally_def)
  qed
  have "index_ok (c_seq_pos sample_cells) (tally [9, - 1, 4] [{0}, {}, {0, 1}])"
    unfolding index_ok_def t by (simp add: sample_cells_def)
  then show ?thesis
    by (auto simp: cells_ok_def sample_cells_def seq_set_ok_def seq_id_ok_def less_3_cases_iff)
qed

lemma cells_queries_exact_witness:
  "cells_seq_pos_min 0 sample_cells = Some 4 \<and> cells_seq_pos_max 0 sample_cells = Some 9
   \<and> cells_seq_pos_min 2 sample_cells = Some (- 1) \<and> cells_used_max_p1 sample_cells = 3"
proof -
  have "{c_pos sample_cells ! i | i. i < length (c_pos sample_cells) \<and> 0 \<in> c_seq sample_cells ! i} = {4, 9}"
    "{c_pos sample_cells ! i | i. i < length (c_pos sample_cells) \<and> 2 \<in> c_seq sample_cells ! i} = {}"
    "{i. i < length (c_pos sample_cells) \<and> c_pos sample_cells ! i \<noteq> - 1} = {0, 2}"
    by (auto simp: sample_cells_def less_3_cases_iff ex_disj_distrib conj_disj_distribL conj_disj_distribR)
  moreover have "seq_id_ok 0" "seq_id_ok 2" by (simp_all add: seq_id_ok_def)
  ultimately show ?thesis
    using cells_queries_exact[OF sample_cells_ok, of 0] cells_queries_exact[OF sample_cells_ok, of 2] by simp
qed

text \<open>
  Save and restore: writing a table saved by \<open>cp\<close> back over the same indices, after
  any other change that left no pending shift there, brings exactly those cells back (position and
  sequences) and leaves every other cell as it then was, and the indices agree again.
\<close>

theorem cells_save_restore:
  assumes "cells_ok c" and "cells_cp idxs c = Some sv"
    and "cells_ok c2" and "length (c_pos c2) = length (c_pos c)"
    and "\<forall>i \<in> set idxs. c_shift c2 ! i = 0"
  shows "\<exists>c3. cells_set idxs sv c2 = Some c3 \<and> cells_ok c3 \<and> length (c_pos c3) = length (c_pos c)
    \<and> (\<forall>i < length (c_pos c). cells_view c3 ! i = (if i \<in> set idxs then cells_view c ! i else cells_view c2 ! i))"
  using cells_restore[OF assms(1-4)] assms(5) by blast

lemma cells_save_restore_witness:
  "\<exists>sv c2 c3. cells_cp [2] sample_cells = Some sv \<and> cells_rm 2 sample_cells = Some c2
    \<and> cells_set [2] sv c2 = Some c3 \<and> cells_view c3 ! 2 = Cell 4 0 {0, 1} \<and> cells_view c2 ! 2 = Empty"
proof -
  obtain sv where sv: "cells_cp [2] sample_cells = Some sv" by (simp add: cells_cp_def sample_cells_def)
  have v: "cells_view sample_cells ! 2 = Cell 4 0 {0, 1}" "length (c_pos sample_cells) = 3"
    by (simp_all add: sample_cells_def view_nth view_cell_def)
  obtain c2 where c2: "cells_rm 2 sample_cells = Some c2" "cells_ok c2"
    "cells_view c2 = (cells_view sample_cells)[2 := Empty]"
    using cells_rm_ok[OF sample_cells_ok _ v(1)] v(2) by auto
  have "length (cells_view c2) = 3" using c2(3) v(2) by simp
  then have l: "length (c_pos c2) = 3" by simp
  have e: "cells_view c2 ! 2 = Empty" using c2(3) v(2) by simp
  then have "c_pos c2 ! 2 = - 1" using l by (simp add: view_Empty)
  then have "c_shift c2 ! 2 = 0" using cells_okD(7)[OF c2(2), of 2] l by simp
  then obtain c3 where "cells_set [2] sv c2 = Some c3" "cells_view c3 ! 2 = cells_view sample_cells ! 2"
    using cells_save_restore[OF sample_cells_ok sv c2(2)] l v(2) by fastforce
  then show ?thesis using sv c2(1) e v(1) by auto
qed

text \<open>
  Property C29. The pending shift of a surviving cell. \<open>pos_add\<close> adds to the shift exactly what it
  adds to the position, so \<open>pos - shift\<close> stays the position the cached keys are rotated for;
  \<open>pos_div\<close> adds \<open>p_old - pos\<close>, the change of the position with the opposite sign, so \<open>pos - shift\<close>
  moves by twice the change.
\<close>

theorem cells_pending_shift:
  assumes ok: "cells_ok c" and i: "i < length (c_pos c)" and cell: "cells_view c ! i = Cell p sh S"
    and range: "i32_ok p" "i32_ok (p + d)" "i32_ok (sh + d)" "0 \<le> p + d" "0 < k" "i32_ok (sh + (p - p div k))"
  shows "\<exists>c1 c2 p1 sh1 p2 sh2.
      cells_pos_add i d c = Some (False, c1) \<and> cells_view c1 = (cells_view c)[i := Cell p1 sh1 S] \<and> p1 - sh1 = p - sh
    \<and> cells_pos_div i k c = Some c2 \<and> cells_view c2 = (cells_view c)[i := Cell p2 sh2 S]
    \<and> p2 = p div k \<and> p2 - sh2 = (p - sh) + 2 * (p2 - p)"
proof -
  obtain c1 where "cells_pos_add i d c = Some (False, c1)" "cells_view c1 = (cells_view c)[i := Cell (p + d) (sh + d) S]"
    using cells_pos_add_ok[OF ok i cell range(2,3)] range(4) by fastforce
  moreover obtain c2 where "cells_pos_div i k c = Some c2"
    "cells_view c2 = (cells_view c)[i := Cell (p div k) (sh + (p - p div k)) S]"
    using cells_pos_div_ok[OF ok i cell range(5,1,6)] by blast
  ultimately show ?thesis by (intro exI conjI) (assumption | simp)+
qed

lemma cells_pending_shift_witness:
  "\<exists>c2. cells_pos_div 0 3 sample_cells = Some c2 \<and> cells_view c2 ! 0 = Cell 3 6 {0}"
proof -
  have "cells_view sample_cells ! 0 = Cell 9 0 {0}" "length (cells_view sample_cells) = 3"
    by (simp_all add: sample_cells_def view_nth view_cell_def)
  then show ?thesis
    using cells_pending_shift[OF sample_cells_ok, of 0 9 0 "{0}" 1 3]
    by (auto simp: i32_ok_def sample_cells_def)
qed

end
