(* ===== verification/Kv_Cache.thy ===== *)
theory Kv_Cache
  imports Kv_Cells
begin

text \<open>
  The unified KV cache (\<^verbatim>\<open>src/llama-kv-cache.cpp\<close>, class \<open>llama_kv_cache\<close>): its state, and the
  operations on sequences. Each stream has its table of cells (theory \<open>Kv_Cells\<close>) and the search head
  of \<open>find_slot\<close>; the K and V buffers are bytes per layer and stream. A failed \<open>GGML_ASSERT\<close> or
  \<open>assert\<close>, an access out of bounds and a signed overflow are \<open>None\<close>.
\<close>

subsection \<open>State\<close>

datatype swa_type = SWA_NONE | SWA_STANDARD | SWA_CHUNKED | SWA_SYMMETRIC

text \<open>A cached layer: its K and V rows per stream, and the sizes ggml gives for their types.\<close>

record kv_layer =
  kl_il :: nat
  kl_k_type :: int
  kl_v_type :: int
  kl_k_size_row :: nat
  kl_v_size_row :: nat
  kl_v_size_el :: nat
  kl_n_embd_v_gqa :: nat
  kl_k_stream :: "u8 list list"
  kl_v_stream :: "u8 list list"

record kv_cache =
  kv_v_trans :: bool
  kv_n_seq_max :: nat
  kv_n_stream :: nat
  kv_n_pad :: nat
  kv_n_swa :: nat
  kv_swa_type :: swa_type
  kv_heads :: "nat list"
  kv_tables :: "kv_cells list"
  kv_seq_to_stream :: "nat list"
  kv_sc_ssrc :: "nat list"
  kv_sc_sdst :: "nat list"
  kv_layers :: "kv_layer list"

text \<open>
  The part of the constructor that builds the metadata; the layers are allocated by ggml and given.
\<close>

definition kv_init ::
    "bool \<Rightarrow> bool \<Rightarrow> nat \<Rightarrow> nat \<Rightarrow> nat \<Rightarrow> nat \<Rightarrow> swa_type \<Rightarrow> kv_layer list \<Rightarrow> kv_cache option" where
  "kv_init v_trans unified kv_size n_seq_max n_pad n_swa swa layers =
    (let n_stream = (if unified then 1 else n_seq_max) in
     require (n_pad \<noteq> 0 \<and> kv_size mod n_pad = 0)
       (Some \<lparr>kv_v_trans = v_trans, kv_n_seq_max = n_seq_max, kv_n_stream = n_stream, kv_n_pad = n_pad,
          kv_n_swa = n_swa, kv_swa_type = swa, kv_heads = replicate n_stream 0,
          kv_tables = replicate n_stream (cells_resize kv_size kv_cells_init),
          kv_seq_to_stream = (if n_stream > 1 then [0..<n_stream] else replicate (nat LLAMA_MAX_SEQ) 0),
          kv_sc_ssrc = [], kv_sc_sdst = [], kv_layers = layers\<rparr>))"

definition i32_of_u32 :: "nat \<Rightarrow> int" where
  "i32_of_u32 n = (if n < 2 ^ 31 then int n else int n - 2 ^ 32)"

definition is_masked_swa :: "nat \<Rightarrow> swa_type \<Rightarrow> int \<Rightarrow> int \<Rightarrow> bool option" where
  "is_masked_swa n_swa swa p0 p1 = require (p0 \<ge> 0 \<and> p1 \<ge> 0)
     (case swa of
        SWA_NONE \<Rightarrow> Some False
      | SWA_STANDARD \<Rightarrow> Some (p1 - p0 \<ge> i32_of_u32 n_swa)
      | SWA_CHUNKED \<Rightarrow> require (n_swa \<noteq> 0) (Some (p0 < (p1 div int n_swa) * int n_swa))
      | SWA_SYMMETRIC \<Rightarrow>
          let half_n_swa = i32_of_u32 n_swa sdiv 2; pos_diff = p1 - p0
          in Some (pos_diff < - half_n_swa \<or> pos_diff > half_n_swa))"

definition kv_is_masked_swa :: "kv_cache \<Rightarrow> int \<Rightarrow> int \<Rightarrow> bool option" where
  "kv_is_masked_swa kv = is_masked_swa (kv_n_swa kv) (kv_swa_type kv)"

subsection \<open>Queries\<close>

definition kv_get_size :: "kv_cache \<Rightarrow> nat" where
  "kv_get_size kv = cells_size (kv_tables kv ! (kv_seq_to_stream kv ! 0))"

definition kv_get_n_stream :: "kv_cache \<Rightarrow> nat" where
  "kv_get_n_stream kv = kv_n_stream kv"

definition kv_get_has_shift :: "kv_cache \<Rightarrow> bool" where
  "kv_get_has_shift kv = fold (\<lambda>s result. result \<or> c_has_shift (kv_tables kv ! s)) [0..<kv_n_stream kv] False"

definition kv_get_can_shift :: "kv_cache \<Rightarrow> bool" where
  "kv_get_can_shift kv = True"

text \<open>\<open>GGML_PAD(x, n)\<close> on 32-bit unsigned values.\<close>

definition ggml_pad :: "u32 \<Rightarrow> u32 \<Rightarrow> u32" where
  "ggml_pad x n = (x + n - 1) AND NOT (n - 1)"

subsection \<open>Sequence operations\<close>

text \<open>The negative bounds of a position range stand for its extremes.\<close>

definition range_lo :: "int \<Rightarrow> int" where
  "range_lo p0 = (if p0 < 0 then 0 else p0)"

definition range_hi :: "int \<Rightarrow> int" where
  "range_hi p1 = (if p1 < 0 then INT_MAX else p1)"

definition seq_in_range :: "kv_cache \<Rightarrow> int \<Rightarrow> bool" where
  "seq_in_range kv seq_id \<longleftrightarrow> 0 \<le> seq_id \<and> nat seq_id < length (kv_seq_to_stream kv)"

definition stream_of :: "kv_cache \<Rightarrow> int \<Rightarrow> nat" where
  "stream_of kv seq_id = kv_seq_to_stream kv ! nat seq_id"

text \<open>A loop over all cells that remembers the first cell freed; \<open>n\<close>, the table size, is none.\<close>

definition note_freed :: "nat \<Rightarrow> nat \<Rightarrow> bool \<times> kv_cells \<Rightarrow> nat \<Rightarrow> kv_cells \<times> nat" where
  "note_freed n i r new_head = (snd r, if fst r \<and> new_head = n then i else new_head)"

definition put_stream :: "nat \<Rightarrow> kv_cells \<Rightarrow> nat \<Rightarrow> kv_cache \<Rightarrow> kv_cache" where
  "put_stream s cells head kv = kv\<lparr>kv_tables := (kv_tables kv)[s := cells], kv_heads := (kv_heads kv)[s := head]\<rparr>"

definition lower_head :: "nat \<Rightarrow> nat \<Rightarrow> nat \<Rightarrow> nat" where
  "lower_head n new_head head = (if new_head \<noteq> n \<and> new_head < head then new_head else head)"

definition seq_rm_cell :: "int \<Rightarrow> int \<Rightarrow> int \<Rightarrow> nat \<Rightarrow> nat \<Rightarrow> kv_cells \<times> nat \<Rightarrow> (kv_cells \<times> nat) option" where
  "seq_rm_cell seq_id p0 p1 n i = (\<lambda>(cells, new_head). do {
     inside \<leftarrow> cells_pos_in i p0 p1 cells;
     if \<not> inside then Some (cells, new_head) else do {
       has \<leftarrow> cells_seq_has i seq_id cells;
       if has then do { r \<leftarrow> cells_seq_rm i seq_id cells; Some (note_freed n i r new_head) }
       else Some (cells, new_head) } })"

definition rm_any_cell :: "int \<Rightarrow> int \<Rightarrow> nat \<Rightarrow> nat \<Rightarrow> kv_cells \<times> nat \<Rightarrow> (kv_cells \<times> nat) option" where
  "rm_any_cell p0 p1 n i = (\<lambda>(cells, new_head). do {
     inside \<leftarrow> cells_pos_in i p0 p1 cells;
     if \<not> inside then Some (cells, new_head) else do {
       cells' \<leftarrow> cells_rm i cells;
       Some (note_freed n i (True, cells') new_head) } })"

definition kv_seq_rm :: "int \<Rightarrow> int \<Rightarrow> int \<Rightarrow> kv_cache \<Rightarrow> (bool \<times> kv_cache) option" where
  "kv_seq_rm seq_id p0 p1 kv = require (seq_id = - 1 \<or> seq_in_range kv seq_id)
    (let p0 = range_lo p0; p1 = range_hi p1 in
     if seq_id \<ge> 0 then
       let strm = stream_of kv seq_id; n = cells_size (kv_tables kv ! strm) in do {
         (cells, new_head) \<leftarrow> fold_opt (seq_rm_cell seq_id p0 p1 n) [0..<n] (kv_tables kv ! strm, n);
         Some (True, put_stream strm cells (lower_head n new_head (kv_heads kv ! strm)) kv) }
     else do {
       kv' \<leftarrow> fold_opt (\<lambda>s kv. let n = cells_size (kv_tables kv ! s) in do {
           (cells, new_head) \<leftarrow> fold_opt (rm_any_cell p0 p1 n) [0..<n] (kv_tables kv ! s, n);
           Some (put_stream s cells (lower_head n new_head (kv_heads kv ! s)) kv) }) [0..<kv_n_stream kv] kv;
       Some (True, kv') })"

definition clear_bufs :: "kv_layer list \<Rightarrow> kv_layer list" where
  "clear_bufs = map (\<lambda>l. l\<lparr>kl_k_stream := map (map (\<lambda>_. 0)) (kl_k_stream l),
     kl_v_stream := map (map (\<lambda>_. 0)) (kl_v_stream l)\<rparr>)"

definition kv_clear :: "bool \<Rightarrow> kv_cache \<Rightarrow> kv_cache" where
  "kv_clear data kv =
    (let kv' = fold (\<lambda>s kv. put_stream s (cells_reset (kv_tables kv ! s)) 0 kv) [0..<kv_n_stream kv] kv
     in if data then kv'\<lparr>kv_layers := clear_bufs (kv_layers kv')\<rparr> else kv')"

definition cp_same_cell :: "int \<Rightarrow> int \<Rightarrow> int \<Rightarrow> int \<Rightarrow> nat \<Rightarrow> kv_cells \<Rightarrow> kv_cells option" where
  "cp_same_cell src dst p0 p1 i cells = do {
     inside \<leftarrow> cells_pos_in i p0 p1 cells;
     if \<not> inside then Some cells else do {
       has \<leftarrow> cells_seq_has i src cells;
       if has then cells_seq_add i dst cells else Some cells } }"

definition cp_cross_cell :: "kv_cells \<Rightarrow> int \<Rightarrow> int \<Rightarrow> nat \<Rightarrow> kv_cells \<Rightarrow> kv_cells option" where
  "cp_cross_cell cells0 src dst i cells1 = do {
     has \<leftarrow> cells_seq_has i src cells0;
     if \<not> has then Some cells1 else do {
       pos \<leftarrow> cells_pos_get i cells0;
       shift \<leftarrow> cells_get_shift i cells0;
       pos \<leftarrow> (if shift \<noteq> 0 then require (i32_ok (pos - shift) \<and> pos - shift \<ge> 0) (Some (pos - shift)) else Some pos);
       cells1 \<leftarrow> cells_pos_set i pos cells1;
       cells1 \<leftarrow> cells_seq_add i dst cells1;
       if shift \<noteq> 0 then map_option snd (cells_pos_add i shift cells1) else Some cells1 } }"

definition kv_seq_cp :: "int \<Rightarrow> int \<Rightarrow> int \<Rightarrow> int \<Rightarrow> kv_cache \<Rightarrow> kv_cache option" where
  "kv_seq_cp src dst p0 p1 kv = require (seq_in_range kv src) (require (seq_in_range kv dst)
    (let s0 = stream_of kv src; s1 = stream_of kv dst in
     if s0 = s1 then
       if src = dst then Some kv else
       let p0 = range_lo p0; p1 = range_hi p1 in do {
         cells \<leftarrow> fold_opt (cp_same_cell src dst p0 p1) [0..<cells_size (kv_tables kv ! s0)] (kv_tables kv ! s0);
         Some (kv\<lparr>kv_tables := (kv_tables kv)[s0 := cells]\<rparr>) }
     else
       let size = i32_of_u32 (kv_get_size kv);
           is_full = \<not> (p0 > 0 \<and> p0 + 1 < size) \<and> \<not> (p1 > 0 \<and> p1 + 1 < size) in
       require (i32_ok (p0 + 1) \<and> i32_ok (p1 + 1) \<and> is_full) (do {
         cells \<leftarrow> fold_opt (cp_cross_cell (kv_tables kv ! s0) src dst) [0..<cells_size (kv_tables kv ! s0)]
           (cells_reset (kv_tables kv ! s1));
         Some (put_stream s1 cells (kv_heads kv ! s0)
           (kv\<lparr>kv_sc_ssrc := kv_sc_ssrc kv @ [s0], kv_sc_sdst := kv_sc_sdst kv @ [s1]\<rparr>)) })))"

definition seq_keep_cell :: "int \<Rightarrow> nat \<Rightarrow> nat \<Rightarrow> kv_cells \<times> nat \<Rightarrow> (kv_cells \<times> nat) option" where
  "seq_keep_cell seq_id n i = (\<lambda>(cells, new_head). do {
     r \<leftarrow> cells_seq_keep i seq_id cells;
     Some (note_freed n i r new_head) })"

definition kv_seq_keep :: "int \<Rightarrow> kv_cache \<Rightarrow> kv_cache option" where
  "kv_seq_keep seq_id kv = require (seq_in_range kv seq_id)
    (let strm = stream_of kv seq_id; n = cells_size (kv_tables kv ! strm) in do {
       (cells, new_head) \<leftarrow> fold_opt (seq_keep_cell seq_id n) [0..<n] (kv_tables kv ! strm, n);
       Some (put_stream strm cells (lower_head n new_head (kv_heads kv ! strm)) kv) })"

definition seq_add_cell :: "int \<Rightarrow> int \<Rightarrow> int \<Rightarrow> int \<Rightarrow> nat \<Rightarrow> nat \<Rightarrow> kv_cells \<times> nat \<Rightarrow> (kv_cells \<times> nat) option" where
  "seq_add_cell seq_id p0 p1 shift n i = (\<lambda>(cells, new_head). do {
     inside \<leftarrow> cells_pos_in i p0 p1 cells;
     if \<not> inside then Some (cells, new_head) else do {
       has \<leftarrow> cells_seq_has i seq_id cells;
       if has then do { r \<leftarrow> cells_pos_add i shift cells; Some (note_freed n i r new_head) }
       else Some (cells, new_head) } })"

definition kv_seq_add :: "int \<Rightarrow> int \<Rightarrow> int \<Rightarrow> int \<Rightarrow> kv_cache \<Rightarrow> kv_cache option" where
  "kv_seq_add seq_id p0 p1 shift kv = require (seq_in_range kv seq_id)
    (if shift = 0 then Some kv else
     let strm = stream_of kv seq_id; n = cells_size (kv_tables kv ! strm); p0 = range_lo p0; p1 = range_hi p1 in
     if p0 = p1 then Some kv else do {
       (cells, new_head) \<leftarrow> fold_opt (seq_add_cell seq_id p0 p1 shift n) [0..<n] (kv_tables kv ! strm, n);
       Some (put_stream strm cells (if new_head \<noteq> n then new_head else 0) kv) })"

definition seq_div_cell :: "int \<Rightarrow> int \<Rightarrow> int \<Rightarrow> int \<Rightarrow> nat \<Rightarrow> kv_cells \<Rightarrow> kv_cells option" where
  "seq_div_cell seq_id p0 p1 d i cells = do {
     inside \<leftarrow> cells_pos_in i p0 p1 cells;
     if \<not> inside then Some cells else do {
       has \<leftarrow> cells_seq_has i seq_id cells;
       if has then cells_pos_div i d cells else Some cells } }"

definition kv_seq_div :: "int \<Rightarrow> int \<Rightarrow> int \<Rightarrow> int \<Rightarrow> kv_cache \<Rightarrow> kv_cache option" where
  "kv_seq_div seq_id p0 p1 d kv = require (seq_in_range kv seq_id)
    (if d = 1 then Some kv else
     let strm = stream_of kv seq_id; p0 = range_lo p0; p1 = range_hi p1 in
     if p0 = p1 then Some kv else do {
       cells \<leftarrow> fold_opt (seq_div_cell seq_id p0 p1 d) [0..<cells_size (kv_tables kv ! strm)] (kv_tables kv ! strm);
       Some (kv\<lparr>kv_tables := (kv_tables kv)[strm := cells]\<rparr>) })"

definition kv_seq_pos_min :: "int \<Rightarrow> kv_cache \<Rightarrow> int option" where
  "kv_seq_pos_min seq_id kv = require (seq_in_range kv seq_id)
     (cells_seq_pos_min seq_id (kv_tables kv ! stream_of kv seq_id))"

definition kv_seq_pos_max :: "int \<Rightarrow> kv_cache \<Rightarrow> int option" where
  "kv_seq_pos_max seq_id kv = require (seq_in_range kv seq_id)
     (cells_seq_pos_max seq_id (kv_tables kv ! stream_of kv seq_id))"

subsection \<open>Pending updates\<close>

text \<open>The K-shift input tensor: one entry per cell, stream after stream.\<close>

definition kv_set_input_k_shift :: "kv_cache \<Rightarrow> int list option" where
  "kv_set_input_k_shift kv = fold_opt (\<lambda>s data. let cells = kv_tables kv ! s in
     fold_opt (\<lambda>i data. do {
       empty \<leftarrow> cells_is_empty i cells;
       x \<leftarrow> (if empty then Some 0 else cells_get_shift i cells);
       Some (data @ [x]) }) [0..<cells_size cells] data) [0..<kv_n_stream kv] []"

definition copy_stream :: "nat \<Rightarrow> nat \<Rightarrow> kv_layer list \<Rightarrow> kv_layer list" where
  "copy_stream ssrc sdst = map (\<lambda>l. l\<lparr>kl_k_stream := (kl_k_stream l)[sdst := kl_k_stream l ! ssrc],
     kl_v_stream := (kl_v_stream l)[sdst := kl_v_stream l ! ssrc]\<rparr>)"

definition apply_copies :: "nat list \<Rightarrow> nat list \<Rightarrow> kv_cache \<Rightarrow> kv_cache option" where
  "apply_copies ssrc sdst kv = fold_opt (\<lambda>i kv.
     require (i < length sdst \<and> ssrc ! i < kv_n_stream kv \<and> sdst ! i < kv_n_stream kv \<and> ssrc ! i \<noteq> sdst ! i)
       (Some (kv\<lparr>kv_layers := copy_stream (ssrc ! i) (sdst ! i) (kv_layers kv)\<rparr>))) [0..<length ssrc] kv"

text \<open>
  The K-shift graph is built and run by ggml: its outcome is given, and \<open>rope\<close> is what a completed
  run does to the buffers for the shift input.
\<close>

datatype shift_outcome = Shift_alloc_failed | Shift_compute_failed | Shift_done

definition reset_shifts :: "kv_cache \<Rightarrow> kv_cache" where
  "reset_shifts kv = fold (\<lambda>s kv. kv\<lparr>kv_tables := (kv_tables kv)[s := cells_reset_shift (kv_tables kv ! s)]\<rparr>)
     [0..<kv_n_stream kv] kv"

definition kv_update ::
    "(int list \<Rightarrow> kv_layer list \<Rightarrow> kv_layer list) \<Rightarrow> bool \<Rightarrow> shift_outcome \<Rightarrow> bool \<Rightarrow> nat list \<times> nat list
       \<Rightarrow> kv_cache \<Rightarrow> (bool \<times> kv_cache) option" where
  "kv_update rope rope_none outcome do_shift sc_info kv =
    (case sc_info of (ssrc, sdst) \<Rightarrow> require (length ssrc = length sdst) (do {
       kv \<leftarrow> (if ssrc \<noteq> [] then require (kv_n_stream kv > 1) (apply_copies ssrc sdst kv) else Some kv);
       if \<not> do_shift then Some (False, kv) else
       require (kv_get_can_shift kv) (
         if rope_none then Some (False, reset_shifts kv) else
         case outcome of
           Shift_done \<Rightarrow> do {
             shifts \<leftarrow> kv_set_input_k_shift kv;
             Some (True, reset_shifts (kv\<lparr>kv_layers := rope shifts (kv_layers kv)\<rparr>)) }
         | _ \<Rightarrow> Some (False, kv)) }))"

subsection \<open>Loops over the cells of a stream\<close>

text \<open>
  A loop that visits every cell once and changes only the cell it visits rewrites the table cell by
  cell; \<open>I\<close> is whatever else the loop carries.
\<close>

lemma cell_loop:
  fixes body :: "nat \<Rightarrow> 's \<Rightarrow> 's option" and cells :: "'s \<Rightarrow> kv_cells"
  assumes ok: "cells_ok (cells s)" and n: "length (cells_view (cells s)) = n" and I0: "I 0 s"
    and step: "\<And>i s'. i < n \<Longrightarrow> cells_ok (cells s') \<Longrightarrow> length (cells_view (cells s')) = n
      \<Longrightarrow> cells_view (cells s') ! i = cells_view (cells s) ! i \<Longrightarrow> I i s'
      \<Longrightarrow> \<exists>t. body i s' = Some t \<and> cells_ok (cells t)
            \<and> cells_view (cells t) = (cells_view (cells s'))[i := g (cells_view (cells s') ! i)] \<and> I (Suc i) t"
  shows "\<exists>t. fold_opt body [0..<n] s = Some t \<and> cells_ok (cells t)
    \<and> cells_view (cells t) = map g (cells_view (cells s)) \<and> I n t"
proof -
  let ?v = "cells_view (cells s)"
  have "\<exists>t. fold_opt body [0..<m] s = Some t \<and> cells_ok (cells t)
      \<and> cells_view (cells t) = map g (take m ?v) @ drop m ?v \<and> I m t" if "m \<le> n" for m
    using that
  proof (induction m)
    case 0
    then show ?case using ok I0 by simp
  next
    case (Suc m)
    then obtain t where t: "fold_opt body [0..<m] s = Some t" "cells_ok (cells t)"
      "cells_view (cells t) = map g (take m ?v) @ drop m ?v" "I m t" by auto
    have m: "m < n" using Suc.prems by simp
    have len: "length (cells_view (cells t)) = n" and at: "cells_view (cells t) ! m = ?v ! m"
      unfolding t(3) using m n by (simp_all add: nth_append)
    obtain u where u: "body m t = Some u" "cells_ok (cells u)"
      "cells_view (cells u) = (cells_view (cells t))[m := g (cells_view (cells t) ! m)]" "I (Suc m) u"
      using step[OF m t(2) len at t(4)] by blast
    have "(map g (take m ?v) @ drop m ?v)[m := g (?v ! m)] = map g (take (Suc m) ?v) @ drop (Suc m) ?v"
      using m n by (simp add: list_update_append take_Suc_conv_app_nth Cons_nth_drop_Suc[symmetric])
    then show ?case using t(1) u at by (simp add: fold_opt_append t(3))
  qed
  from this[of n] show ?thesis using n by simp
qed

text \<open>The index of the first cell that satisfies \<open>Q\<close>, the table size if none.\<close>

definition first_such :: "(cell \<Rightarrow> bool) \<Rightarrow> cell list \<Rightarrow> nat" where
  "first_such Q v = length (takeWhile (\<lambda>x. \<not> Q x) v)"

lemma first_such_take:
  "first_such Q (take (Suc m) v) = (if first_such Q (take m v) = m then (if Q (v ! m) then m else Suc m)
     else first_such Q (take m v))" if "m < length v"
proof (cases "\<exists>x \<in> set (take m v). Q x")
  case True
  then have "takeWhile (\<lambda>x. \<not> Q x) (take m v @ [v ! m]) = takeWhile (\<lambda>x. \<not> Q x) (take m v)"
    by (auto simp: takeWhile_append1)
  moreover have "length (takeWhile (\<lambda>x. \<not> Q x) (take m v)) < m"
    using True that by (metis (no_types, lifting) length_take length_takeWhile_le linorder_neqE_nat min.absorb2
        less_or_eq_imp_le nat_less_le not_le set_takeWhileD takeWhile_eq_take take_all_iff)
  ultimately show ?thesis using that by (simp add: first_such_def take_Suc_conv_app_nth)
next
  case False
  then have all: "takeWhile (\<lambda>x. \<not> Q x) (take m v) = take m v"
    by (intro takeWhile_eq_all_conv[THEN iffD2]) auto
  from False have "takeWhile (\<lambda>x. \<not> Q x) (take m v @ [v ! m]) = take m v @ takeWhile (\<lambda>x. \<not> Q x) [v ! m]"
    by (intro takeWhile_append2) auto
  then show ?thesis using that unfolding first_such_def all by (simp add: take_Suc_conv_app_nth)
qed

lemma first_such_le: "first_such Q v \<le> length v"
  by (simp add: first_such_def length_takeWhile_le)

lemma first_such_less_iff: "first_such Q v < length v \<longleftrightarrow> (\<exists>x \<in> set v. Q x)"
proof -
  have "first_such Q v = length v \<longleftrightarrow> (\<forall>x \<in> set v. \<not> Q x)"
    unfolding first_such_def by (metis takeWhile_eq_all_conv takeWhile_eq_take take_all_iff order_refl)
  then show ?thesis using first_such_le[of Q v] by (auto simp: order.strict_iff_order)
qed

text \<open>The freed-cell marker after \<open>i\<close> iterations.\<close>

definition marker :: "(cell \<Rightarrow> bool) \<Rightarrow> cell list \<Rightarrow> nat \<Rightarrow> kv_cells \<times> nat \<Rightarrow> bool" where
  "marker Q v i s \<longleftrightarrow> snd s = (if first_such Q (take i v) = i then length v else first_such Q (take i v))"

lemma marker_0: "marker Q v 0 (c, length v)"
  by (simp add: marker_def first_such_def)

lemma marker_step:
  assumes "marker Q v i (c, nh)" and "i < length v"
  shows "marker Q v (Suc i) (c', if Q (v ! i) \<and> nh = length v then i else nh)"
proof -
  have "first_such Q (take i v) \<le> i" using first_such_le[of Q "take i v"] by (simp add: min_def split: if_splits)
  then show ?thesis using assms by (auto simp: marker_def first_such_take)
qed

lemma marker_end: "marker Q v (length v) s \<Longrightarrow> snd s = first_such Q v"
  by (simp add: marker_def split: if_splits)

subsection \<open>The cache invariant\<close>

definition table_ok :: "nat \<Rightarrow> kv_cells \<Rightarrow> bool" where
  "table_ok n c \<longleftrightarrow> cells_ok c \<and> cells_size c = n \<and> (\<forall>p sh. Cell p sh {} \<notin> set (cells_view c))"

definition kv_ok :: "kv_cache \<Rightarrow> bool" where
  "kv_ok kv \<longleftrightarrow> 0 < kv_n_stream kv \<and> length (kv_tables kv) = kv_n_stream kv \<and> length (kv_heads kv) = kv_n_stream kv
     \<and> (\<forall>s < kv_n_stream kv. table_ok (kv_get_size kv) (kv_tables kv ! s) \<and> kv_heads kv ! s \<le> kv_get_size kv)
     \<and> 0 < length (kv_seq_to_stream kv) \<and> length (kv_seq_to_stream kv) \<le> 256
     \<and> (\<forall>q < length (kv_seq_to_stream kv). kv_seq_to_stream kv ! q < kv_n_stream kv)"

definition kv_view :: "kv_cache \<Rightarrow> cell list list" where
  "kv_view kv = map cells_view (kv_tables kv)"

lemma kv_okD:
  assumes "kv_ok kv" and "s < kv_n_stream kv"
  shows "cells_ok (kv_tables kv ! s)" and "cells_size (kv_tables kv ! s) = kv_get_size kv"
    and "length (cells_view (kv_tables kv ! s)) = kv_get_size kv"
    and "Cell p sh {} \<notin> set (cells_view (kv_tables kv ! s))" and "kv_heads kv ! s \<le> kv_get_size kv"
    and "s < length (kv_tables kv)" and "s < length (kv_heads kv)"
    and "kv_view kv ! s = cells_view (kv_tables kv ! s)"
  using assms by (auto simp: kv_ok_def table_ok_def cells_size_def kv_view_def)

lemma stream_of_less: "kv_ok kv \<Longrightarrow> seq_in_range kv q \<Longrightarrow> stream_of kv q < kv_n_stream kv"
  by (auto simp: kv_ok_def seq_in_range_def stream_of_def)

lemma seq_in_range_id: "kv_ok kv \<Longrightarrow> seq_in_range kv q \<Longrightarrow> seq_id_ok q"
  by (auto simp: kv_ok_def seq_in_range_def seq_id_ok_def)

lemma put_stream_simps [simp]:
  "kv_n_stream (put_stream s c h kv) = kv_n_stream kv" "kv_seq_to_stream (put_stream s c h kv) = kv_seq_to_stream kv"
  "kv_layers (put_stream s c h kv) = kv_layers kv" "kv_swa_type (put_stream s c h kv) = kv_swa_type kv"
  "kv_n_swa (put_stream s c h kv) = kv_n_swa kv" "kv_n_pad (put_stream s c h kv) = kv_n_pad kv"
  "kv_n_seq_max (put_stream s c h kv) = kv_n_seq_max kv" "kv_v_trans (put_stream s c h kv) = kv_v_trans kv"
  "kv_tables (put_stream s c h kv) = (kv_tables kv)[s := c]" "kv_heads (put_stream s c h kv) = (kv_heads kv)[s := h]"
  "kv_sc_ssrc (put_stream s c h kv) = kv_sc_ssrc kv" "kv_sc_sdst (put_stream s c h kv) = kv_sc_sdst kv"
  by (simp_all add: put_stream_def)

lemma kv_view_put [simp]: "kv_view (put_stream s c h kv) = (kv_view kv)[s := cells_view c]"
  by (simp add: kv_view_def map_update)

lemma kv_size_put:
  assumes "kv_ok kv" and "s < kv_n_stream kv" and "cells_size c = kv_get_size kv"
  shows "kv_get_size (put_stream s c h kv) = kv_get_size kv"
proof -
  have z: "kv_seq_to_stream kv ! 0 < length (kv_tables kv)" using assms(1) by (auto simp: kv_ok_def)
  show ?thesis
    using z assms(3) by (cases "kv_seq_to_stream kv ! 0 = s") (simp_all add: kv_get_size_def)
qed

lemma kv_ok_put:
  assumes ok: "kv_ok kv" and s: "s < kv_n_stream kv" and c: "table_ok (kv_get_size kv) c" and h: "h \<le> kv_get_size kv"
  shows "kv_ok (put_stream s c h kv)"
proof -
  have "kv_get_size (put_stream s c h kv) = kv_get_size kv"
    using c by (intro kv_size_put[OF ok s]) (simp add: table_ok_def)
  then show ?thesis using ok s c h by (auto simp: kv_ok_def nth_list_update)
qed

lemma put_table_eq: "s < length (kv_heads kv) \<Longrightarrow> kv\<lparr>kv_tables := (kv_tables kv)[s := c]\<rparr> = put_stream s c (kv_heads kv ! s) kv"
  by (simp add: put_stream_def)

text \<open>The table left by a cell-wise rewriting.\<close>

lemma table_ok_map:
  assumes ok: "kv_ok kv" and s: "s < kv_n_stream kv" and c: "cells_ok c"
    and v: "cells_view c = map g (cells_view (kv_tables kv ! s))"
    and g: "\<And>x p sh. (\<And>p' sh'. x \<noteq> Cell p' sh' {}) \<Longrightarrow> g x \<noteq> Cell p sh {}"
  shows "table_ok (kv_get_size kv) c"
proof -
  have "length (cells_view c) = kv_get_size kv" using v kv_okD(3)[OF ok s] by simp
  moreover have "Cell p sh {} \<notin> set (cells_view c)" for p sh
  proof
    assume "Cell p sh {} \<in> set (cells_view c)"
    then obtain x where "x \<in> set (cells_view (kv_tables kv ! s))" "g x = Cell p sh {}" using v by auto
    then show False using g[of x p sh] kv_okD(4)[OF ok s] by metis
  qed
  ultimately show ?thesis using c by (simp add: table_ok_def cells_size_def)
qed

subsection \<open>What the sequence operations do to a cell\<close>

fun cell_has :: "int \<Rightarrow> cell \<Rightarrow> bool" where
  "cell_has s Empty = False"
| "cell_has s (Cell p sh S) = (s \<in> S)"

fun cell_between :: "int \<Rightarrow> int \<Rightarrow> cell \<Rightarrow> bool" where
  "cell_between lo hi Empty = False"
| "cell_between lo hi (Cell p sh S) = (lo \<le> p \<and> p < hi)"

fun drop_seq :: "int \<Rightarrow> int \<Rightarrow> int \<Rightarrow> cell \<Rightarrow> cell" where
  "drop_seq s lo hi Empty = Empty"
| "drop_seq s lo hi (Cell p sh S) =
     (if lo \<le> p \<and> p < hi \<and> s \<in> S then (if S = {s} then Empty else Cell p sh (S - {s})) else Cell p sh S)"

fun drop_any :: "int \<Rightarrow> int \<Rightarrow> cell \<Rightarrow> cell" where
  "drop_any lo hi Empty = Empty"
| "drop_any lo hi (Cell p sh S) = (if lo \<le> p \<and> p < hi then Empty else Cell p sh S)"

fun keep_seq :: "int \<Rightarrow> cell \<Rightarrow> cell" where
  "keep_seq s Empty = Empty"
| "keep_seq s (Cell p sh S) = (if s \<in> S then Cell p sh {s} else Empty)"

fun share_seq :: "int \<Rightarrow> int \<Rightarrow> int \<Rightarrow> int \<Rightarrow> cell \<Rightarrow> cell" where
  "share_seq src dst lo hi Empty = Empty"
| "share_seq src dst lo hi (Cell p sh S) =
     (if lo \<le> p \<and> p < hi \<and> src \<in> S then Cell p sh (insert dst S) else Cell p sh S)"

fun move_seq :: "int \<Rightarrow> int \<Rightarrow> int \<Rightarrow> int \<Rightarrow> cell \<Rightarrow> cell" where
  "move_seq s lo hi d Empty = Empty"
| "move_seq s lo hi d (Cell p sh S) =
     (if lo \<le> p \<and> p < hi \<and> s \<in> S then (if p + d < 0 then Empty else Cell (p + d) (sh + d) S) else Cell p sh S)"

fun div_seq :: "int \<Rightarrow> int \<Rightarrow> int \<Rightarrow> int \<Rightarrow> cell \<Rightarrow> cell" where
  "div_seq s lo hi k Empty = Empty"
| "div_seq s lo hi k (Cell p sh S) =
     (if lo \<le> p \<and> p < hi \<and> s \<in> S then Cell (p div k) (sh + (p - p div k)) S else Cell p sh S)"

lemma pos_in_view:
  assumes "cells_ok c" and "i < length (cells_view c)" and "0 \<le> lo"
  shows "cells_pos_in i lo hi c = Some (cell_between lo hi (cells_view c ! i))"
  using assms by (simp add: cells_pos_in_def view_nth view_cell_def)

lemma seq_has_view:
  assumes "cells_ok c" and "i < length (cells_view c)" and "seq_id_ok s"
  shows "cells_seq_has i s c = Some (cell_has s (cells_view c ! i))"
  using assms cells_okD(6)[OF assms(1), of i]
  by (simp add: cells_seq_has_def view_nth view_cell_def)

lemma range_lo_nonneg [simp]: "0 \<le> range_lo p"
  by (simp add: range_lo_def)

text \<open>One visit of each loop.\<close>

lemma seq_rm_cell_view:
  assumes ok: "cells_ok c" and i: "i < length (cells_view c)" and s: "seq_id_ok s" and lo: "0 \<le> lo"
  shows "\<exists>c'. seq_rm_cell s lo hi n i (c, nh) =
      Some (c', if drop_seq s lo hi (cells_view c ! i) = Empty \<and> cells_view c ! i \<noteq> Empty \<and> nh = n then i else nh)
    \<and> cells_ok c' \<and> cells_view c' = (cells_view c)[i := drop_seq s lo hi (cells_view c ! i)]"
proof (cases "cells_view c ! i")
  case Empty
  then show ?thesis using ok i pos_in_view[OF ok i lo] list_update_id[of "cells_view c" i] by (simp add: seq_rm_cell_def)
next
  case (Cell p sh S)
  show ?thesis
  proof (cases "lo \<le> p \<and> p < hi \<and> s \<in> S")
    case True
    then show ?thesis
      using ok i pos_in_view[OF ok i lo] seq_has_view[OF ok i s] cells_seq_rm_ok[OF ok _ Cell, of s] Cell
      by (auto simp: seq_rm_cell_def note_freed_def)
  next
    case False
    then show ?thesis
      using ok i pos_in_view[OF ok i lo] seq_has_view[OF ok i s] Cell list_update_id[of "cells_view c" i]
      by (auto simp: seq_rm_cell_def)
  qed
qed

lemma rm_any_cell_view:
  assumes ok: "cells_ok c" and i: "i < length (cells_view c)" and lo: "0 \<le> lo"
  shows "\<exists>c'. rm_any_cell lo hi n i (c, nh) =
      Some (c', if drop_any lo hi (cells_view c ! i) = Empty \<and> cells_view c ! i \<noteq> Empty \<and> nh = n then i else nh)
    \<and> cells_ok c' \<and> cells_view c' = (cells_view c)[i := drop_any lo hi (cells_view c ! i)]"
proof (cases "cells_view c ! i")
  case Empty
  then show ?thesis using ok i pos_in_view[OF ok i lo] list_update_id[of "cells_view c" i] by (simp add: rm_any_cell_def)
next
  case (Cell p sh S)
  then show ?thesis
    using ok i pos_in_view[OF ok i lo] cells_rm_ok[OF ok _ Cell] list_update_id[of "cells_view c" i]
    by (cases "lo \<le> p \<and> p < hi") (auto simp: rm_any_cell_def note_freed_def)
qed

lemma seq_keep_cell_view:
  assumes ok: "cells_ok c" and i: "i < length (cells_view c)" and s: "seq_id_ok s"
    and named: "\<And>p sh. cells_view c ! i \<noteq> Cell p sh {}"
  shows "\<exists>c'. seq_keep_cell s n i (c, nh) =
      Some (c', if keep_seq s (cells_view c ! i) = Empty \<and> cells_view c ! i \<noteq> Empty \<and> nh = n then i else nh)
    \<and> cells_ok c' \<and> cells_view c' = (cells_view c)[i := keep_seq s (cells_view c ! i)]"
  using cells_seq_keep_ok[OF ok _ s, of i] i named
  by (cases "cells_view c ! i") (auto simp: seq_keep_cell_def note_freed_def split: if_splits)

subsection \<open>What the sequence operations do to the cache\<close>

abbreviation (input) emptied :: "(cell \<Rightarrow> cell) \<Rightarrow> cell \<Rightarrow> bool" where
  "emptied g x \<equiv> g x = Empty \<and> x \<noteq> Empty"

lemma marked_loop:
  assumes ok: "cells_ok c0" and n: "length (cells_view c0) = n"
    and step: "\<And>i c nh. i < n \<Longrightarrow> cells_ok c \<Longrightarrow> length (cells_view c) = n \<Longrightarrow> cells_view c ! i = cells_view c0 ! i
      \<Longrightarrow> \<exists>c'. body i (c, nh) = Some (c', if emptied g (cells_view c ! i) \<and> nh = n then i else nh)
        \<and> cells_ok c' \<and> cells_view c' = (cells_view c)[i := g (cells_view c ! i)]"
  shows "\<exists>c. fold_opt body [0..<n] (c0, n) = Some (c, first_such (emptied g) (cells_view c0))
    \<and> cells_ok c \<and> cells_view c = map g (cells_view c0)"
proof -
  let ?v = "cells_view c0"
  have "\<exists>t. fold_opt body [0..<n] (c0, n) = Some t \<and> cells_ok (fst t)
      \<and> cells_view (fst t) = map g (cells_view (fst (c0, n))) \<and> marker (emptied g) ?v n t"
  proof (rule cell_loop)
    show "marker (emptied g) ?v 0 (c0, n)" using marker_0[of _ ?v c0] n by simp
  next
    fix i s'
    assume a: "i < n" "cells_ok (fst s')" "length (cells_view (fst s')) = n"
      "cells_view (fst s') ! i = cells_view (fst (c0, n)) ! i" "marker (emptied g) ?v i s'"
    obtain c nh where s': "s' = (c, nh)" by (cases s')
    obtain c' where c': "body i (c, nh) = Some (c', if emptied g (cells_view c ! i) \<and> nh = n then i else nh)"
      "cells_ok c'" "cells_view c' = (cells_view c)[i := g (cells_view c ! i)]"
      using step[of i c nh] a s' by auto
    have "marker (emptied g) ?v (Suc i) (c', if emptied g (?v ! i) \<and> nh = length ?v then i else nh)"
      using marker_step[of "emptied g" ?v i c nh c'] a(1,5) n s' by (simp only:)
    then show "\<exists>t. body i s' = Some t \<and> cells_ok (fst t)
        \<and> cells_view (fst t) = (cells_view (fst s'))[i := g (cells_view (fst s') ! i)] \<and> marker (emptied g) ?v (Suc i) t"
      using c' a(4) n s' by simp
  qed (use ok n in simp_all)
  then show ?thesis using marker_end[of "emptied g" ?v] n by fastforce
qed

lemma lower_head_le: "nh \<le> n \<Longrightarrow> h \<le> n \<Longrightarrow> lower_head n nh h \<le> n"
  by (simp add: lower_head_def)

text \<open>Removing a sequence from a range of positions.\<close>

lemma kv_seq_rm_spec:
  fixes p0 p1 :: int
  assumes ok: "kv_ok kv" and q: "seq_in_range kv q"
  defines "st \<equiv> stream_of kv q" and "g \<equiv> drop_seq q (range_lo p0) (range_hi p1)"
  shows "\<exists>kv'. kv_seq_rm q p0 p1 kv = Some (True, kv') \<and> kv_ok kv'
    \<and> kv_view kv' = (kv_view kv)[st := map g (kv_view kv ! st)]
    \<and> kv_heads kv' = (kv_heads kv)[st := lower_head (kv_get_size kv) (first_such (emptied g) (kv_view kv ! st)) (kv_heads kv ! st)]
    \<and> kv_seq_to_stream kv' = kv_seq_to_stream kv \<and> kv_n_stream kv' = kv_n_stream kv
    \<and> (\<exists>c h. kv' = put_stream st c h kv)"
proof -
  have st: "st < kv_n_stream kv" unfolding st_def by (rule stream_of_less[OF ok q])
  have q0: "q \<ge> 0" using q by (simp add: seq_in_range_def)
  note d = kv_okD[OF ok st] and sid = seq_in_range_id[OF ok q]
  let ?c0 = "kv_tables kv ! st" and ?n = "kv_get_size kv"
  have "\<exists>c. fold_opt (seq_rm_cell q (range_lo p0) (range_hi p1) ?n) [0..<?n] (?c0, ?n)
        = Some (c, first_such (emptied g) (cells_view ?c0))
      \<and> cells_ok c \<and> cells_view c = map g (cells_view ?c0)"
  proof (rule marked_loop[OF d(1,3)])
    fix i c nh
    assume a: "i < ?n" "cells_ok c" "length (cells_view c) = ?n"
    show "\<exists>c'. seq_rm_cell q (range_lo p0) (range_hi p1) ?n i (c, nh)
          = Some (c', if emptied g (cells_view c ! i) \<and> nh = ?n then i else nh)
        \<and> cells_ok c' \<and> cells_view c' = (cells_view c)[i := g (cells_view c ! i)]"
      using seq_rm_cell_view[OF a(2) _ sid range_lo_nonneg, of i p0 "range_hi p1" ?n nh] a by (simp add: g_def)
  qed
  then obtain c where c: "fold_opt (seq_rm_cell q (range_lo p0) (range_hi p1) ?n) [0..<?n] (?c0, ?n)
        = Some (c, first_such (emptied g) (cells_view ?c0))"
      "cells_ok c" "cells_view c = map g (cells_view ?c0)" by blast
  have "drop_seq q lo hi x \<noteq> Cell p sh {}" if "\<And>p sh. x \<noteq> Cell p sh {}" for lo hi x p sh
    using that by (cases x) (auto simp: subset_singleton_iff)
  then have "table_ok ?n c" by (intro table_ok_map[OF ok st c(2) c(3)[unfolded g_def]]) blast
  moreover have "first_such (emptied g) (cells_view ?c0) \<le> ?n" using first_such_le[of _ "cells_view ?c0"] d(3) by simp
  ultimately have "kv_ok (put_stream st c (lower_head ?n (first_such (emptied g) (cells_view ?c0)) (kv_heads kv ! st)) kv)"
    using d(5) by (intro kv_ok_put[OF ok st] lower_head_le)
  moreover have "kv_seq_rm q p0 p1 kv = Some (True, put_stream st c (lower_head ?n (first_such (emptied g) (cells_view ?c0)) (kv_heads kv ! st)) kv)"
    using q q0 c(1) d(2) by (simp add: kv_seq_rm_def st_def[symmetric])
  ultimately show ?thesis using c(3) d(8) by auto
qed

lemma kv_seq_keep_spec:
  assumes ok: "kv_ok kv" and q: "seq_in_range kv q"
  defines "st \<equiv> stream_of kv q"
  shows "\<exists>kv'. kv_seq_keep q kv = Some kv' \<and> kv_ok kv'
    \<and> kv_view kv' = (kv_view kv)[st := map (keep_seq q) (kv_view kv ! st)]
    \<and> kv_heads kv' = (kv_heads kv)[st := lower_head (kv_get_size kv) (first_such (emptied (keep_seq q)) (kv_view kv ! st)) (kv_heads kv ! st)]"
proof -
  have st: "st < kv_n_stream kv" unfolding st_def by (rule stream_of_less[OF ok q])
  note d = kv_okD[OF ok st] and sid = seq_in_range_id[OF ok q]
  let ?c0 = "kv_tables kv ! st" and ?n = "kv_get_size kv"
  have "\<exists>c. fold_opt (seq_keep_cell q ?n) [0..<?n] (?c0, ?n)
        = Some (c, first_such (emptied (keep_seq q)) (cells_view ?c0))
      \<and> cells_ok c \<and> cells_view c = map (keep_seq q) (cells_view ?c0)"
  proof (rule marked_loop[OF d(1,3)])
    fix i c nh
    assume a: "i < ?n" "cells_ok c" "length (cells_view c) = ?n" "cells_view c ! i = cells_view ?c0 ! i"
    have "cells_view c ! i \<noteq> Cell p sh {}" for p sh using a d(3,4) by (metis nth_mem)
    then show "\<exists>c'. seq_keep_cell q ?n i (c, nh) = Some (c', if emptied (keep_seq q) (cells_view c ! i) \<and> nh = ?n then i else nh)
        \<and> cells_ok c' \<and> cells_view c' = (cells_view c)[i := keep_seq q (cells_view c ! i)]"
      using seq_keep_cell_view[OF a(2) _ sid, of i ?n nh] a by simp
  qed
  then obtain c where c: "fold_opt (seq_keep_cell q ?n) [0..<?n] (?c0, ?n)
        = Some (c, first_such (emptied (keep_seq q)) (cells_view ?c0))"
      "cells_ok c" "cells_view c = map (keep_seq q) (cells_view ?c0)" by blast
  have "keep_seq q x \<noteq> Cell p sh {}" for x p sh by (cases x) auto
  then have "table_ok ?n c" by (intro table_ok_map[OF ok st c(2,3)]) auto
  moreover have "first_such (emptied (keep_seq q)) (cells_view ?c0) \<le> ?n" using first_such_le[of _ "cells_view ?c0"] d(3) by simp
  ultimately have "kv_ok (put_stream st c (lower_head ?n (first_such (emptied (keep_seq q)) (cells_view ?c0)) (kv_heads kv ! st)) kv)"
    using d(5) by (intro kv_ok_put[OF ok st] lower_head_le)
  then show ?thesis using q c(1,3) d(2,8) by (simp add: kv_seq_keep_def st_def[symmetric])
qed

text \<open>Loops without the marker.\<close>

lemma plain_loop:
  assumes "cells_ok c0" and "length (cells_view c0) = n"
    and "\<And>i c. i < n \<Longrightarrow> cells_ok c \<Longrightarrow> length (cells_view c) = n \<Longrightarrow> cells_view c ! i = cells_view c0 ! i
      \<Longrightarrow> \<exists>c'. body i c = Some c' \<and> cells_ok c' \<and> cells_view c' = (cells_view c)[i := g (cells_view c ! i)]"
  shows "\<exists>c. fold_opt body [0..<n] c0 = Some c \<and> cells_ok c \<and> cells_view c = map g (cells_view c0)"
  using cell_loop[where cells = "\<lambda>c. c" and I = "\<lambda>_ _. True" and s = c0 and n = n and body = body and g = g] assms by auto

lemma cp_same_cell_view:
  assumes ok: "cells_ok c" and i: "i < length (cells_view c)" and s: "seq_id_ok src" "seq_id_ok dst" and lo: "0 \<le> lo"
    and new: "cell_between lo hi (cells_view c ! i) \<Longrightarrow> cell_has src (cells_view c ! i) \<Longrightarrow> \<not> cell_has dst (cells_view c ! i)"
  shows "\<exists>c'. cp_same_cell src dst lo hi i c = Some c' \<and> cells_ok c'
    \<and> cells_view c' = (cells_view c)[i := share_seq src dst lo hi (cells_view c ! i)]"
proof (cases "cells_view c ! i")
  case Empty
  then show ?thesis using ok pos_in_view[OF ok i lo] list_update_id[of "cells_view c" i] by (simp add: cp_same_cell_def)
next
  case (Cell p sh S)
  then show ?thesis
    using ok i new pos_in_view[OF ok i lo] seq_has_view[OF ok i s(1)] cells_seq_add_ok[OF ok _ Cell s(2)]
      list_update_id[of "cells_view c" i]
    by (auto simp: cp_same_cell_def)
qed

lemma kv_seq_cp_same_spec:
  assumes ok: "kv_ok kv" and q: "seq_in_range kv src" "seq_in_range kv dst"
    and same: "stream_of kv src = stream_of kv dst" and ne: "src \<noteq> dst"
    and new: "\<And>x. x \<in> set (kv_view kv ! stream_of kv src) \<Longrightarrow> cell_between (range_lo p0) (range_hi p1) x
      \<Longrightarrow> cell_has src x \<Longrightarrow> \<not> cell_has dst x"
  defines "st \<equiv> stream_of kv src"
  shows "\<exists>kv'. kv_seq_cp src dst p0 p1 kv = Some kv' \<and> kv_ok kv'
    \<and> kv_view kv' = (kv_view kv)[st := map (share_seq src dst (range_lo p0) (range_hi p1)) (kv_view kv ! st)]
    \<and> kv_heads kv' = kv_heads kv
    \<and> kv_sc_ssrc kv' = kv_sc_ssrc kv \<and> kv_sc_sdst kv' = kv_sc_sdst kv"
proof -
  have st: "st < kv_n_stream kv" unfolding st_def by (rule stream_of_less[OF ok q(1)])
  note d = kv_okD[OF ok st]
  let ?c0 = "kv_tables kv ! st" and ?n = "kv_get_size kv" and ?g = "share_seq src dst (range_lo p0) (range_hi p1)"
  have "\<exists>c. fold_opt (cp_same_cell src dst (range_lo p0) (range_hi p1)) [0..<?n] ?c0 = Some c
      \<and> cells_ok c \<and> cells_view c = map ?g (cells_view ?c0)"
  proof (rule plain_loop[OF d(1,3)])
    fix i c
    assume a: "i < ?n" "cells_ok c" "length (cells_view c) = ?n" "cells_view c ! i = cells_view ?c0 ! i"
    have "cells_view c ! i \<in> set (kv_view kv ! stream_of kv src)" using a d(3,8) st_def by (metis nth_mem)
    then show "\<exists>c'. cp_same_cell src dst (range_lo p0) (range_hi p1) i c = Some c' \<and> cells_ok c'
        \<and> cells_view c' = (cells_view c)[i := ?g (cells_view c ! i)]"
      using a new by (intro cp_same_cell_view seq_in_range_id[OF ok q(1)] seq_in_range_id[OF ok q(2)]) auto
  qed
  then obtain c where c: "fold_opt (cp_same_cell src dst (range_lo p0) (range_hi p1)) [0..<?n] ?c0 = Some c"
    "cells_ok c" "cells_view c = map ?g (cells_view ?c0)" by blast
  have "?g x \<noteq> Cell p sh {}" if "\<And>p sh. x \<noteq> Cell p sh {}" for x p sh using that by (cases x) auto
  then have "table_ok ?n c" by (intro table_ok_map[OF ok st c(2,3)]) auto
  then have "kv_ok (put_stream st c (kv_heads kv ! st) kv)" using d(5) by (intro kv_ok_put[OF ok st])
  moreover have "kv_seq_cp src dst p0 p1 kv = Some (put_stream st c (kv_heads kv ! st) kv)"
    using q same ne c(1) d(2) put_table_eq[OF d(7)] by (simp add: kv_seq_cp_def st_def[symmetric])
  ultimately show ?thesis using c(3) d(8) by simp
qed

text \<open>The assertion in \<open>seq_add\<close> stops a copy inside a stream at a cell that already holds the destination.\<close>

lemma kv_seq_cp_same_aborts:
  assumes ok: "kv_ok kv" and q: "seq_in_range kv src" "seq_in_range kv dst"
    and same: "stream_of kv src = stream_of kv dst" and ne: "src \<noteq> dst"
    and x: "x \<in> set (kv_view kv ! stream_of kv src)" "cell_between (range_lo p0) (range_hi p1) x" "cell_has src x" "cell_has dst x"
  shows "kv_seq_cp src dst p0 p1 kv = None"
proof -
  let ?st = "stream_of kv src"
  have st: "?st < kv_n_stream kv" by (rule stream_of_less[OF ok q(1)])
  note d = kv_okD[OF ok st] and sid = seq_in_range_id[OF ok q(1)] seq_in_range_id[OF ok q(2)]
  let ?c0 = "kv_tables kv ! ?st" and ?n = "kv_get_size kv" and ?f = "cp_same_cell src dst (range_lo p0) (range_hi p1)"
  define bad where "bad y \<longleftrightarrow> cell_between (range_lo p0) (range_hi p1) y \<and> cell_has src y \<and> cell_has dst y" for y
  have lo: "0 \<le> range_lo p0" by (simp add: range_lo_def)
  have stop: "?f i c = None" if "cells_ok c" "i < length (cells_view c)" "bad (cells_view c ! i)" for i c
  proof (cases "cells_view c ! i")
    case Empty
    then show ?thesis using that(3) by (simp add: bad_def)
  next
    case (Cell p sh S)
    moreover from this have "S = c_seq c ! i" using that(2) by (auto simp: view_Cell)
    ultimately show ?thesis using that pos_in_view[OF that(1,2) lo] seq_has_view[OF that(1,2) sid(1)]
      by (simp add: cp_same_cell_def bad_def cells_seq_add_def)
  qed
  have "fold_opt ?f [0..<m] ?c0 = None \<or> (\<exists>c. fold_opt ?f [0..<m] ?c0 = Some c \<and> cells_ok c
      \<and> length (cells_view c) = ?n \<and> (\<forall>j. m \<le> j \<longrightarrow> cells_view c ! j = cells_view ?c0 ! j)
      \<and> (\<forall>j < m. \<not> bad (cells_view ?c0 ! j)))" if "m \<le> ?n" for m
    using that
  proof (induction m)
    case 0
    then show ?case using d(1,3) by simp
  next
    case (Suc m)
    show ?case
    proof (cases "fold_opt ?f [0..<m] ?c0")
      case None
      then show ?thesis by (simp add: fold_opt_append)
    next
      case (Some c)
      with Suc have c: "cells_ok c" "length (cells_view c) = ?n" "\<forall>j. m \<le> j \<longrightarrow> cells_view c ! j = cells_view ?c0 ! j"
        "\<forall>j < m. \<not> bad (cells_view ?c0 ! j)" by auto
      have m: "m < length (cells_view c)" using Suc.prems c(2) by simp
      show ?thesis
      proof (cases "bad (cells_view c ! m)")
        case True
        then show ?thesis using stop[OF c(1) m] Some by (simp add: fold_opt_append)
      next
        case False
        then obtain c' where "?f m c = Some c'" "cells_ok c'"
          "cells_view c' = (cells_view c)[m := share_seq src dst (range_lo p0) (range_hi p1) (cells_view c ! m)]"
          using cp_same_cell_view[OF c(1) m sid lo, of "range_hi p1"] by (auto simp: bad_def)
        moreover from this have "length (cells_view c') = ?n" using c(2) by (simp only: length_list_update)
        ultimately show ?thesis using False Some c by (auto simp: fold_opt_append less_Suc_eq simp del: length_view)
      qed
    qed
  qed
  from this[of ?n] have "fold_opt ?f [0..<?n] ?c0 = None \<or> (\<forall>j < ?n. \<not> bad (cells_view ?c0 ! j))" by auto
  moreover obtain j where "j < ?n" "cells_view ?c0 ! j = x" using x(1) d(3,8) by (metis in_set_conv_nth)
  ultimately have "fold_opt ?f [0..<?n] ?c0 = None" using x(2-4) by (auto simp: bad_def)
  then show ?thesis using q same ne d(2) by (simp add: kv_seq_cp_def)
qed

text \<open>Shifting and dividing the positions of a sequence, when no position overflows.\<close>

fun move_fits :: "int \<Rightarrow> int \<Rightarrow> int \<Rightarrow> int \<Rightarrow> cell \<Rightarrow> bool" where
  "move_fits s lo hi d Empty = True"
| "move_fits s lo hi d (Cell p sh S) = (lo \<le> p \<and> p < hi \<and> s \<in> S \<longrightarrow> i32_ok (p + d) \<and> i32_ok (sh + d))"

fun div_fits :: "int \<Rightarrow> int \<Rightarrow> int \<Rightarrow> int \<Rightarrow> cell \<Rightarrow> bool" where
  "div_fits s lo hi k Empty = True"
| "div_fits s lo hi k (Cell p sh S) = (lo \<le> p \<and> p < hi \<and> s \<in> S \<longrightarrow> i32_ok p \<and> i32_ok (sh + (p - p div k)))"

lemma seq_add_cell_view:
  assumes ok: "cells_ok c" and i: "i < length (cells_view c)" and s: "seq_id_ok s" and lo: "0 \<le> lo"
    and fits: "move_fits s lo hi d (cells_view c ! i)"
  shows "\<exists>c'. seq_add_cell s lo hi d n i (c, nh) =
      Some (c', if emptied (move_seq s lo hi d) (cells_view c ! i) \<and> nh = n then i else nh)
    \<and> cells_ok c' \<and> cells_view c' = (cells_view c)[i := move_seq s lo hi d (cells_view c ! i)]"
proof (cases "cells_view c ! i")
  case Empty
  then show ?thesis using ok i pos_in_view[OF ok i lo] list_update_id[of "cells_view c" i] by (simp add: seq_add_cell_def)
next
  case (Cell p sh S)
  show ?thesis
  proof (cases "lo \<le> p \<and> p < hi \<and> s \<in> S")
    case True
    then show ?thesis
      using ok i fits pos_in_view[OF ok i lo] seq_has_view[OF ok i s] cells_pos_add_ok[OF ok _ Cell, of d] Cell
      by (auto simp: seq_add_cell_def note_freed_def)
  next
    case False
    then show ?thesis
      using ok i pos_in_view[OF ok i lo] seq_has_view[OF ok i s] Cell list_update_id[of "cells_view c" i]
      by (auto simp: seq_add_cell_def)
  qed
qed

lemma seq_div_cell_view:
  assumes ok: "cells_ok c" and i: "i < length (cells_view c)" and s: "seq_id_ok s" and lo: "0 \<le> lo" and k: "0 < k"
    and fits: "div_fits s lo hi k (cells_view c ! i)"
  shows "\<exists>c'. seq_div_cell s lo hi k i c = Some c'
    \<and> cells_ok c' \<and> cells_view c' = (cells_view c)[i := div_seq s lo hi k (cells_view c ! i)]"
proof (cases "cells_view c ! i")
  case Empty
  then show ?thesis using ok i pos_in_view[OF ok i lo] list_update_id[of "cells_view c" i] by (simp add: seq_div_cell_def)
next
  case (Cell p sh S)
  show ?thesis
  proof (cases "lo \<le> p \<and> p < hi \<and> s \<in> S")
    case True
    then show ?thesis
      using ok i fits pos_in_view[OF ok i lo] seq_has_view[OF ok i s] cells_pos_div_ok[OF ok _ Cell k] Cell
      by (auto simp: seq_div_cell_def)
  next
    case False
    then show ?thesis
      using ok i pos_in_view[OF ok i lo] seq_has_view[OF ok i s] Cell list_update_id[of "cells_view c" i]
      by (auto simp: seq_div_cell_def)
  qed
qed

lemma kv_seq_add_spec:
  fixes p0 p1 :: int
  assumes ok: "kv_ok kv" and q: "seq_in_range kv q" and d0: "d \<noteq> 0" and range: "range_lo p0 \<noteq> range_hi p1"
    and fits: "\<And>x. x \<in> set (kv_view kv ! stream_of kv q) \<Longrightarrow> move_fits q (range_lo p0) (range_hi p1) d x"
  defines "st \<equiv> stream_of kv q" and "g \<equiv> move_seq q (range_lo p0) (range_hi p1) d"
  shows "\<exists>kv'. kv_seq_add q p0 p1 d kv = Some kv' \<and> kv_ok kv'
    \<and> kv_view kv' = (kv_view kv)[st := map g (kv_view kv ! st)]
    \<and> kv_heads kv' = (kv_heads kv)[st :=
        if first_such (emptied g) (kv_view kv ! st) = kv_get_size kv then 0 else first_such (emptied g) (kv_view kv ! st)]"
proof -
  have st: "st < kv_n_stream kv" unfolding st_def by (rule stream_of_less[OF ok q])
  note dd = kv_okD[OF ok st] and sid = seq_in_range_id[OF ok q]
  let ?c0 = "kv_tables kv ! st" and ?n = "kv_get_size kv"
  have "\<exists>c. fold_opt (seq_add_cell q (range_lo p0) (range_hi p1) d ?n) [0..<?n] (?c0, ?n)
        = Some (c, first_such (emptied g) (cells_view ?c0))
      \<and> cells_ok c \<and> cells_view c = map g (cells_view ?c0)"
  proof (rule marked_loop[OF dd(1,3)])
    fix i c nh
    assume a: "i < ?n" "cells_ok c" "length (cells_view c) = ?n" "cells_view c ! i = cells_view ?c0 ! i"
    have "cells_view c ! i \<in> set (kv_view kv ! stream_of kv q)" using a dd(3,8) st_def by (metis nth_mem)
    then show "\<exists>c'. seq_add_cell q (range_lo p0) (range_hi p1) d ?n i (c, nh)
          = Some (c', if emptied g (cells_view c ! i) \<and> nh = ?n then i else nh)
        \<and> cells_ok c' \<and> cells_view c' = (cells_view c)[i := g (cells_view c ! i)]"
      unfolding g_def using a fits by (intro seq_add_cell_view) (auto simp: sid)
  qed
  then obtain c where c: "fold_opt (seq_add_cell q (range_lo p0) (range_hi p1) d ?n) [0..<?n] (?c0, ?n)
        = Some (c, first_such (emptied g) (cells_view ?c0))"
      "cells_ok c" "cells_view c = map g (cells_view ?c0)" by blast
  have "move_seq q lo hi d x \<noteq> Cell p sh {}" if "\<And>p sh. x \<noteq> Cell p sh {}" for lo hi x p sh
    using that by (cases x) auto
  then have "table_ok ?n c" by (intro table_ok_map[OF ok st c(2) c(3)[unfolded g_def]]) blast
  moreover have "first_such (emptied g) (cells_view ?c0) \<le> ?n" using first_such_le[of _ "cells_view ?c0"] dd(3) by simp
  ultimately have "kv_ok (put_stream st c (if first_such (emptied g) (cells_view ?c0) \<noteq> ?n then first_such (emptied g) (cells_view ?c0) else 0) kv)"
    using dd(5) by (intro kv_ok_put[OF ok st]) simp_all
  moreover have "kv_seq_add q p0 p1 d kv = Some (put_stream st c (if first_such (emptied g) (cells_view ?c0) \<noteq> ?n then first_such (emptied g) (cells_view ?c0) else 0) kv)"
    using q c(1) dd(2) d0 range by (simp add: kv_seq_add_def st_def[symmetric])
  ultimately show ?thesis using c(3) dd(8) by auto
qed

lemma kv_seq_div_spec:
  fixes p0 p1 :: int
  assumes ok: "kv_ok kv" and q: "seq_in_range kv q" and k: "1 < k" and range: "range_lo p0 \<noteq> range_hi p1"
    and fits: "\<And>x. x \<in> set (kv_view kv ! stream_of kv q) \<Longrightarrow> div_fits q (range_lo p0) (range_hi p1) k x"
  defines "st \<equiv> stream_of kv q" and "g \<equiv> div_seq q (range_lo p0) (range_hi p1) k"
  shows "\<exists>kv'. kv_seq_div q p0 p1 k kv = Some kv' \<and> kv_ok kv'
    \<and> kv_view kv' = (kv_view kv)[st := map g (kv_view kv ! st)] \<and> kv_heads kv' = kv_heads kv
    \<and> kv_seq_to_stream kv' = kv_seq_to_stream kv \<and> kv_n_stream kv' = kv_n_stream kv"
proof -
  have st: "st < kv_n_stream kv" unfolding st_def by (rule stream_of_less[OF ok q])
  note dd = kv_okD[OF ok st] and sid = seq_in_range_id[OF ok q]
  let ?c0 = "kv_tables kv ! st" and ?n = "kv_get_size kv"
  have "\<exists>c. fold_opt (seq_div_cell q (range_lo p0) (range_hi p1) k) [0..<?n] ?c0 = Some c
      \<and> cells_ok c \<and> cells_view c = map g (cells_view ?c0)"
  proof (rule plain_loop[OF dd(1,3)])
    fix i c
    assume a: "i < ?n" "cells_ok c" "length (cells_view c) = ?n" "cells_view c ! i = cells_view ?c0 ! i"
    have "cells_view c ! i \<in> set (kv_view kv ! stream_of kv q)" using a dd(3,8) st_def by (metis nth_mem)
    then show "\<exists>c'. seq_div_cell q (range_lo p0) (range_hi p1) k i c = Some c'
        \<and> cells_ok c' \<and> cells_view c' = (cells_view c)[i := g (cells_view c ! i)]"
      unfolding g_def using a fits k by (intro seq_div_cell_view) (auto simp: sid)
  qed
  then obtain c where c: "fold_opt (seq_div_cell q (range_lo p0) (range_hi p1) k) [0..<?n] ?c0 = Some c"
    "cells_ok c" "cells_view c = map g (cells_view ?c0)" by blast
  have "div_seq q lo hi k x \<noteq> Cell p sh {}" if "\<And>p sh. x \<noteq> Cell p sh {}" for lo hi x p sh
    using that by (cases x) auto
  then have "table_ok ?n c" by (intro table_ok_map[OF ok st c(2) c(3)[unfolded g_def]]) blast
  then have "kv_ok (put_stream st c (kv_heads kv ! st) kv)" using dd(5) by (intro kv_ok_put[OF ok st])
  moreover have "kv_seq_div q p0 p1 k kv = Some (put_stream st c (kv_heads kv ! st) kv)"
    using q k c(1) dd(2) range put_table_eq[OF dd(7)] by (simp add: kv_seq_div_def st_def[symmetric])
  ultimately show ?thesis using c(3) dd(8) by simp
qed

text \<open>Copying a sequence to another stream.\<close>

fun copy_cell :: "int \<Rightarrow> int \<Rightarrow> cell \<Rightarrow> cell" where
  "copy_cell src dst Empty = Empty"
| "copy_cell src dst (Cell p sh S) = (if src \<in> S then Cell p sh {dst} else Empty)"

fun copy_fits :: "int \<Rightarrow> cell \<Rightarrow> bool" where
  "copy_fits src Empty = True"
| "copy_fits src (Cell p sh S) = (src \<in> S \<and> sh \<noteq> 0 \<longrightarrow> 0 \<le> p - sh \<and> i32_ok (p - sh) \<and> i32_ok p \<and> i32_ok sh)"

lemma fill_loop:
  assumes ok: "cells_ok c0" and n: "length (cells_view c0) = n"
    and step: "\<And>i c. i < n \<Longrightarrow> cells_ok c \<Longrightarrow> length (cells_view c) = n \<Longrightarrow> cells_view c ! i = cells_view c0 ! i
      \<Longrightarrow> \<exists>c'. body i c = Some c' \<and> cells_ok c' \<and> cells_view c' = (cells_view c)[i := h i]"
  shows "\<exists>c. fold_opt body [0..<n] c0 = Some c \<and> cells_ok c \<and> cells_view c = map h [0..<n]"
proof -
  have "\<exists>c. fold_opt body [0..<m] c0 = Some c \<and> cells_ok c
      \<and> cells_view c = map h [0..<m] @ drop m (cells_view c0)" if "m \<le> n" for m
    using that
  proof (induction m)
    case 0
    then show ?case using ok by simp
  next
    case (Suc m)
    then obtain c where c: "fold_opt body [0..<m] c0 = Some c" "cells_ok c"
      "cells_view c = map h [0..<m] @ drop m (cells_view c0)" by auto
    have m: "m < n" using Suc.prems by simp
    have len: "length (cells_view c) = n" and at: "cells_view c ! m = cells_view c0 ! m"
      unfolding c(3) using m n by (simp_all add: nth_append)
    obtain u where u: "body m c = Some u" "cells_ok u" "cells_view u = (cells_view c)[m := h m]"
      using step[OF m c(2) len at] by blast
    then show ?case
      using c(1) m n by (simp add: fold_opt_append c(3) list_update_append Cons_nth_drop_Suc[symmetric])
  qed
  from this[of n] show ?thesis using n by simp
qed

lemma cp_cross_cell_view:
  assumes ok0: "cells_ok c0" and i0: "i < length (cells_view c0)" and ok: "cells_ok c" and i: "i < length (cells_view c)"
    and s: "seq_id_ok src" "seq_id_ok dst" and e: "cells_view c ! i = Empty" and fits: "copy_fits src (cells_view c0 ! i)"
  shows "\<exists>c'. cp_cross_cell c0 src dst i c = Some c' \<and> cells_ok c'
    \<and> cells_view c' = (cells_view c)[i := copy_cell src dst (cells_view c0 ! i)]"
proof (cases "cells_view c0 ! i")
  case Empty
  then show ?thesis
    using ok i e seq_has_view[OF ok0 i0 s(1)] list_update_id[of "cells_view c" i] by (simp add: cp_cross_cell_def)
next
  case (Cell p sh S)
  show ?thesis
  proof (cases "src \<in> S")
    case False
    then show ?thesis
      using Cell ok i e seq_has_view[OF ok0 i0 s(1)] list_update_id[of "cells_view c" i] by (simp add: cp_cross_cell_def)
  next
    case True
    have i': "i < length (c_pos c0)" "i < length (c_pos c)" using i0 i by simp_all
    have get: "cells_pos_get i c0 = Some p" "cells_get_shift i c0 = Some sh" and p0: "0 \<le> p"
      using Cell i' cells_okD(4)[OF ok0 i'(1)] by (auto simp: view_Cell cells_pos_get_def cells_get_shift_def)
    have fit: "sh \<noteq> 0 \<longrightarrow> 0 \<le> p - sh \<and> i32_ok (p - sh) \<and> i32_ok p \<and> i32_ok sh" using fits Cell True by simp
    let ?p = "if sh \<noteq> 0 then p - sh else p"
    have "0 \<le> ?p" using fit p0 by simp
    then obtain c1 where c1: "cells_pos_set i ?p c = Some c1" "cells_ok c1" "cells_view c1 = (cells_view c)[i := Cell ?p 0 {}]"
      using cells_pos_set_ok[OF ok i'(2) e, of ?p] by blast
    have "length (cells_view c1) = length (cells_view c)" using c1(3) by simp
    then have i1: "i < length (c_pos c1)" using i by simp
    have v1: "cells_view c1 ! i = Cell ?p 0 {}" using c1(3) i by simp
    obtain c2 where c2: "cells_seq_add i dst c1 = Some c2" "cells_ok c2" "cells_view c2 = (cells_view c)[i := Cell ?p 0 {dst}]"
      using cells_seq_add_ok[OF c1(2) i1 v1 s(2)] c1(3) by auto
    have i2: "i < length (cells_view c2)" using c2(3) i by simp
    then have i2': "i < length (c_pos c2)" by simp
    have v2: "cells_view c2 ! i = Cell ?p 0 {dst}" using c2(3) i by simp
    have has: "cells_seq_has i src c0 = Some True" using seq_has_view[OF ok0 i0 s(1)] Cell True by simp
    show ?thesis
    proof (cases "sh = 0")
      case True
      then show ?thesis using has get c1(1) c2 Cell \<open>src \<in> S\<close> by (simp add: cp_cross_cell_def)
    next
      case False
      then obtain c3 where "cells_pos_add i sh c2 = Some (False, c3)" "cells_ok c3"
        "cells_view c3 = (cells_view c)[i := Cell p sh {dst}]"
        using cells_pos_add_ok[OF c2(2) i2' v2, of sh] fit p0 c2(3) by auto
      then show ?thesis using False has get c1(1) c2(1) Cell \<open>src \<in> S\<close> fit by (simp add: cp_cross_cell_def)
    qed
  qed
qed

definition whole_range :: "kv_cache \<Rightarrow> int \<Rightarrow> int \<Rightarrow> bool" where
  "whole_range kv p0 p1 \<longleftrightarrow> i32_ok (p0 + 1) \<and> i32_ok (p1 + 1)
     \<and> \<not> (p0 > 0 \<and> p0 + 1 < i32_of_u32 (kv_get_size kv)) \<and> \<not> (p1 > 0 \<and> p1 + 1 < i32_of_u32 (kv_get_size kv))"

lemma kv_seq_cp_range_aborts:
  assumes "stream_of kv src \<noteq> stream_of kv dst" and "\<not> whole_range kv p0 p1"
  shows "kv_seq_cp src dst p0 p1 kv = None"
  using assms by (auto simp: kv_seq_cp_def whole_range_def Let_def)

lemma kv_seq_cp_cross_spec:
  assumes ok: "kv_ok kv" and q: "seq_in_range kv src" "seq_in_range kv dst"
    and cross: "stream_of kv src \<noteq> stream_of kv dst"
    and full: "whole_range kv p0 p1"
    and fits: "\<And>x. x \<in> set (kv_view kv ! stream_of kv src) \<Longrightarrow> copy_fits src x"
  shows "\<exists>kv'. kv_seq_cp src dst p0 p1 kv = Some kv' \<and> kv_ok kv'
    \<and> kv_view kv' = (kv_view kv)[stream_of kv dst := map (copy_cell src dst) (kv_view kv ! stream_of kv src)]
    \<and> kv_heads kv' = (kv_heads kv)[stream_of kv dst := kv_heads kv ! stream_of kv src]
    \<and> kv_sc_ssrc kv' = kv_sc_ssrc kv @ [stream_of kv src] \<and> kv_sc_sdst kv' = kv_sc_sdst kv @ [stream_of kv dst]"
proof -
  let ?s0 = "stream_of kv src" and ?s1 = "stream_of kv dst" and ?n = "kv_get_size kv"
  have s0: "?s0 < kv_n_stream kv" and s1: "?s1 < kv_n_stream kv" using stream_of_less[OF ok] q by auto
  note d0 = kv_okD[OF ok s0] and d1 = kv_okD[OF ok s1]
  let ?c0 = "kv_tables kv ! ?s0" and ?c1 = "cells_reset (kv_tables kv ! ?s1)"
  have r: "cells_view ?c1 = replicate ?n Empty" using cells_reset_ok(2) d1(2) by (simp add: cells_size_def)
  have "\<exists>c. fold_opt (cp_cross_cell ?c0 src dst) [0..<?n] ?c1 = Some c \<and> cells_ok c
      \<and> cells_view c = map (\<lambda>i. copy_cell src dst (cells_view ?c0 ! i)) [0..<?n]"
  proof (rule fill_loop[OF cells_reset_ok(1)])
    show "length (cells_view ?c1) = ?n" by (simp only: r length_replicate)
    fix i c
    assume a: "i < ?n" "cells_ok c" "length (cells_view c) = ?n" "cells_view c ! i = cells_view ?c1 ! i"
    have "cells_view ?c0 ! i \<in> set (kv_view kv ! ?s0)" using a(1) d0(3,8) by (metis nth_mem)
    then show "\<exists>c'. cp_cross_cell ?c0 src dst i c = Some c' \<and> cells_ok c'
        \<and> cells_view c' = (cells_view c)[i := copy_cell src dst (cells_view ?c0 ! i)]"
      using a r d0 fits seq_in_range_id[OF ok q(1)] seq_in_range_id[OF ok q(2)]
      by (intro cp_cross_cell_view) simp_all
  qed
  then obtain c where c: "fold_opt (cp_cross_cell ?c0 src dst) [0..<?n] ?c1 = Some c" "cells_ok c"
    "cells_view c = map (\<lambda>i. copy_cell src dst (cells_view ?c0 ! i)) [0..<?n]" by blast
  have v: "cells_view c = map (copy_cell src dst) (cells_view ?c0)"
    unfolding c(3) using d0(3) by (intro nth_equalityI) simp_all
  have ne: "copy_cell src dst x \<noteq> Cell p sh {}" for x p sh by (cases x) auto
  have t: "table_ok ?n c"
    by (rule table_ok_map[OF ok s0 c(2) v]) (simp add: ne)
  let ?kv = "kv\<lparr>kv_sc_ssrc := kv_sc_ssrc kv @ [?s0], kv_sc_sdst := kv_sc_sdst kv @ [?s1]\<rparr>"
  have "kv_ok ?kv" "kv_get_size ?kv = ?n" "kv_view ?kv = kv_view kv"
    using ok by (simp_all add: kv_ok_def kv_get_size_def kv_view_def)
  then have "kv_ok (put_stream ?s1 c (kv_heads kv ! ?s0) ?kv)"
    using s1 t d0(5) by (intro kv_ok_put) simp_all
  moreover have "kv_seq_cp src dst p0 p1 kv = Some (put_stream ?s1 c (kv_heads kv ! ?s0) ?kv)"
    using q cross c(1) d0(2) full by (simp add: kv_seq_cp_def whole_range_def Let_def)
  ultimately show ?thesis using v d0(8) \<open>kv_view ?kv = kv_view kv\<close> by simp
qed

text \<open>A cell whose pending shift exceeds its position stops the copy.\<close>

lemma kv_seq_cp_cross_aborts:
  assumes ok: "kv_ok kv" and q: "seq_in_range kv src" "seq_in_range kv dst"
    and cross: "stream_of kv src \<noteq> stream_of kv dst" and i: "i < kv_get_size kv"
    and bad: "kv_view kv ! stream_of kv src ! i = Cell p sh S" "src \<in> S" "p < sh"
  shows "kv_seq_cp src dst p0 p1 kv = None"
proof -
  let ?s0 = "stream_of kv src" and ?n = "kv_get_size kv" and ?s1 = "stream_of kv dst"
  have s0: "?s0 < kv_n_stream kv" using stream_of_less[OF ok] q by auto
  note d0 = kv_okD[OF ok s0] and sid = seq_in_range_id[OF ok q(1)]
  let ?c0 = "kv_tables kv ! ?s0"
  have i': "i < length (c_pos ?c0)" using i d0(3) by simp
  have cell: "cells_view ?c0 ! i = Cell p sh S" using bad(1) d0(8) by simp
  then have get: "cells_pos_get i ?c0 = Some p" "cells_get_shift i ?c0 = Some sh" and p0: "0 \<le> p"
    using i' cells_okD(4)[OF d0(1) i'] by (auto simp: view_Cell cells_pos_get_def cells_get_shift_def)
  have has: "cells_seq_has i src ?c0 = Some True" using seq_has_view[OF d0(1) _ sid, of i] cell i' bad(2) by simp
  have stop: "cp_cross_cell ?c0 src dst i c = None" for c
    using has get bad(3) p0 by (simp add: cp_cross_cell_def)
  have "[0..<?n] = [0..<i] @ i # [Suc i..<?n]" using i by (metis less_imp_add_positive upt_add_eq_append upt_conv_Cons le_add1 add_0 zero_le)
  then have "fold_opt (cp_cross_cell ?c0 src dst) [0..<?n] c = None" for c
    by (simp add: fold_opt_append stop split: option.splits)
  then show ?thesis using q cross d0(2) by (simp add: kv_seq_cp_def Let_def)
qed

text \<open>Operations on every stream.\<close>

lemma stream_loop:
  assumes ok: "kv_ok kv"
    and step: "\<And>s kv'. s < kv_n_stream kv \<Longrightarrow> kv_ok kv' \<Longrightarrow> kv_n_stream kv' = kv_n_stream kv \<Longrightarrow> kv_get_size kv' = kv_get_size kv
      \<Longrightarrow> kv_tables kv' ! s = kv_tables kv ! s
      \<Longrightarrow> \<exists>c h. f s kv' = Some (put_stream s c h kv') \<and> table_ok (kv_get_size kv) c \<and> h \<le> kv_get_size kv
            \<and> cells_view c = map g (cells_view (kv_tables kv ! s))"
  shows "\<exists>kv'. fold_opt f [0..<kv_n_stream kv] kv = Some kv' \<and> kv_ok kv' \<and> kv_n_stream kv' = kv_n_stream kv
    \<and> kv_view kv' = map (map g) (kv_view kv)"
proof -
  let ?n = "kv_n_stream kv"
  have "\<exists>kv'. fold_opt f [0..<m] kv = Some kv' \<and> kv_ok kv' \<and> kv_n_stream kv' = ?n \<and> kv_get_size kv' = kv_get_size kv
      \<and> drop m (kv_tables kv') = drop m (kv_tables kv)
      \<and> kv_view kv' = map (map g) (take m (kv_view kv)) @ drop m (kv_view kv)" if "m \<le> ?n" for m
    using that
  proof (induction m)
    case 0
    then show ?case using ok by simp
  next
    case (Suc m)
    then obtain k where k: "fold_opt f [0..<m] kv = Some k" "kv_ok k" "kv_n_stream k = ?n" "kv_get_size k = kv_get_size kv"
      "drop m (kv_tables k) = drop m (kv_tables kv)"
      "kv_view k = map (map g) (take m (kv_view kv)) @ drop m (kv_view kv)" by auto
    have m: "m < ?n" using Suc.prems by simp
    have len: "length (kv_tables kv) = ?n" "length (kv_tables k) = ?n" "length (kv_view kv) = ?n"
      using ok k(2,3) by (auto simp: kv_ok_def kv_view_def)
    have "drop m (kv_tables k) ! 0 = drop m (kv_tables kv) ! 0" using k(5) by simp
    then have at: "kv_tables k ! m = kv_tables kv ! m" using m len by simp
    obtain c h where c: "f m k = Some (put_stream m c h k)" "table_ok (kv_get_size kv) c" "h \<le> kv_get_size kv"
      "cells_view c = map g (cells_view (kv_tables kv ! m))"
      using step[OF m k(2,3,4) at] by blast
    have mk: "m < kv_n_stream k" using m k(3) by simp
    have "kv_ok (put_stream m c h k)" using c(2,3) k(4) by (intro kv_ok_put[OF k(2) mk]) simp_all
    moreover have "kv_get_size (put_stream m c h k) = kv_get_size kv"
      using kv_size_put[OF k(2) mk] c(2) k(4) by (simp add: table_ok_def)
    moreover have "drop (Suc m) ((kv_tables k)[m := c]) = drop (Suc m) (kv_tables kv)"
      using k(5) by (metis drop_Suc drop_update_cancel lessI tl_drop)
    moreover have "kv_view (put_stream m c h k) = map (map g) (take (Suc m) (kv_view kv)) @ drop (Suc m) (kv_view kv)"
      using m len c(4) kv_okD(8)[OF ok m]
      by (simp add: k(6) list_update_append take_Suc_conv_app_nth Cons_nth_drop_Suc[symmetric])
    ultimately show ?case using k(1,3) c(1) by (simp add: fold_opt_append)
  qed
  from this[of ?n] show ?thesis using ok by (auto simp: kv_ok_def kv_view_def)
qed

lemma kv_seq_rm_any_spec:
  fixes p0 p1 :: int
  assumes ok: "kv_ok kv"
  shows "\<exists>kv'. kv_seq_rm (- 1) p0 p1 kv = Some (True, kv') \<and> kv_ok kv'
    \<and> kv_view kv' = map (map (drop_any (range_lo p0) (range_hi p1))) (kv_view kv)"
proof -
  let ?lo = "range_lo p0" and ?hi = "range_hi p1" and ?n = "kv_get_size kv"
  let ?g = "drop_any ?lo ?hi"
  let ?f = "\<lambda>s kv. let n = cells_size (kv_tables kv ! s) in do {
           (cells, new_head) \<leftarrow> fold_opt (rm_any_cell ?lo ?hi n) [0..<n] (kv_tables kv ! s, n);
           Some (put_stream s cells (lower_head n new_head (kv_heads kv ! s)) kv) }"
  have "\<exists>kv'. fold_opt ?f [0..<kv_n_stream kv] kv = Some kv' \<and> kv_ok kv' \<and> kv_n_stream kv' = kv_n_stream kv
      \<and> kv_view kv' = map (map ?g) (kv_view kv)"
  proof (rule stream_loop[OF ok])
    fix s k
    assume a: "s < kv_n_stream kv" "kv_ok k" "kv_n_stream k = kv_n_stream kv" "kv_get_size k = ?n"
      "kv_tables k ! s = kv_tables kv ! s"
    have sk: "s < kv_n_stream k" using a by simp
    note d = kv_okD[OF a(2) sk]
    let ?c0 = "kv_tables kv ! s"
    have "\<exists>c. fold_opt (rm_any_cell ?lo ?hi ?n) [0..<?n] (?c0, ?n) = Some (c, first_such (emptied ?g) (cells_view ?c0))
      \<and> cells_ok c \<and> cells_view c = map ?g (cells_view ?c0)"
    proof (rule marked_loop)
      show "cells_ok ?c0" "length (cells_view ?c0) = ?n" using d(1,3) a(4,5) by simp_all
      fix i c nh
      assume "i < ?n" "cells_ok c" "length (cells_view c) = ?n"
      then show "\<exists>c'. rm_any_cell ?lo ?hi ?n i (c, nh) = Some (c', if emptied ?g (cells_view c ! i) \<and> nh = ?n then i else nh)
        \<and> cells_ok c' \<and> cells_view c' = (cells_view c)[i := ?g (cells_view c ! i)]"
        using rm_any_cell_view[of c i ?lo ?hi ?n nh] by simp
    qed
    then obtain c where c: "fold_opt (rm_any_cell ?lo ?hi ?n) [0..<?n] (?c0, ?n) = Some (c, first_such (emptied ?g) (cells_view ?c0))"
      "cells_ok c" "cells_view c = map ?g (cells_view ?c0)" by blast
    have "?g x \<noteq> Cell p sh {}" if "\<And>p sh. x \<noteq> Cell p sh {}" for x p sh using that by (cases x) auto
    then have "table_ok ?n c" by (intro table_ok_map[OF ok a(1) c(2,3)]) blast
    moreover have "first_such (emptied ?g) (cells_view ?c0) \<le> ?n"
      using first_such_le[of "emptied ?g" "cells_view ?c0"] d(3) a(4,5) by simp
    then have "lower_head ?n (first_such (emptied ?g) (cells_view ?c0)) (kv_heads k ! s) \<le> ?n"
      using d(5) a(4) by (intro lower_head_le) simp_all
    ultimately show "\<exists>c h. ?f s k = Some (put_stream s c h k) \<and> table_ok ?n c \<and> h \<le> ?n \<and> cells_view c = map ?g (cells_view ?c0)"
      using c(1,3) d(2) a(4,5) by (auto simp: Let_def)
  qed
  then show ?thesis by (auto simp: kv_seq_rm_def Let_def)
qed

lemma kv_clear_spec:
  assumes ok: "kv_ok kv"
  shows "kv_ok (kv_clear data kv) \<and> kv_view (kv_clear data kv) = map (map (\<lambda>_. Empty)) (kv_view kv)"
proof -
  let ?f = "\<lambda>s kv. Some (put_stream s (cells_reset (kv_tables kv ! s)) 0 kv)"
  have f: "fold_opt ?f xs k = Some (fold (\<lambda>s kv. put_stream s (cells_reset (kv_tables kv ! s)) 0 kv) xs k)" for xs k
    by (induction xs arbitrary: k) auto
  have "\<exists>kv'. fold_opt ?f [0..<kv_n_stream kv] kv = Some kv' \<and> kv_ok kv' \<and> kv_n_stream kv' = kv_n_stream kv
      \<and> kv_view kv' = map (map (\<lambda>_. Empty)) (kv_view kv)"
  proof (rule stream_loop[OF ok])
    fix s k
    assume a: "s < kv_n_stream kv" "kv_get_size k = kv_get_size kv" "kv_tables k ! s = kv_tables kv ! s"
    let ?c = "cells_reset (kv_tables kv ! s)"
    note d = kv_okD[OF ok a(1)]
    have v: "cells_view ?c = replicate (kv_get_size kv) Empty"
      using cells_reset_ok(2)[of "kv_tables kv ! s"] d(2) by (simp add: cells_size_def)
    then have "length (c_pos ?c) = kv_get_size kv" by (metis length_replicate length_view)
    then have "table_ok (kv_get_size kv) ?c" using v cells_reset_ok(1) by (simp add: table_ok_def cells_size_def)
    moreover have "cells_view ?c = map (\<lambda>_. Empty) (cells_view (kv_tables kv ! s))"
      using v d(3) by (simp add: map_replicate_const)
    ultimately show "\<exists>c h. ?f s k = Some (put_stream s c h k) \<and> table_ok (kv_get_size kv) c \<and> h \<le> kv_get_size kv
        \<and> cells_view c = map (\<lambda>_. Empty) (cells_view (kv_tables kv ! s))"
      using a(3) by auto
  qed
  then obtain k where k: "fold (\<lambda>s kv. put_stream s (cells_reset (kv_tables kv ! s)) 0 kv) [0..<kv_n_stream kv] kv = k"
    "kv_ok k" "kv_view k = map (map (\<lambda>_. Empty)) (kv_view kv)" unfolding f by blast
  then show ?thesis by (simp add: kv_clear_def kv_ok_def kv_get_size_def kv_view_def)
qed

lemma kv_init_ok:
  assumes "n_pad \<noteq> 0" and "kv_size mod n_pad = 0" and "0 < n_seq_max" and "n_seq_max \<le> 256"
  shows "\<exists>kv. kv_init vt unified kv_size n_seq_max n_pad n_swa swa layers = Some kv \<and> kv_ok kv
    \<and> kv_view kv = replicate (if unified then 1 else n_seq_max) (replicate kv_size Empty) \<and> kv_get_size kv = kv_size"
proof -
  let ?c = "cells_resize kv_size kv_cells_init"
  have len: "length (c_pos ?c) = kv_size" using cells_resize_ok(2)[of kv_size kv_cells_init] by (metis length_replicate length_view)
  have t: "table_ok kv_size ?c" using cells_resize_ok[of kv_size kv_cells_init] len by (simp add: table_ok_def cells_size_def)
  have "(if unified then 1 else n_seq_max) = 1 \<or> (if unified then 1 else n_seq_max) > 1" using assms(3) by auto
  then show ?thesis
    using assms t cells_resize_ok(2)[of kv_size kv_cells_init] len
    by (auto simp: kv_init_def kv_ok_def kv_view_def kv_get_size_def cells_size_def Let_def)
qed

subsection \<open>Pending updates are applied once\<close>

lemma reset_shifts_spec:
  assumes ok: "kv_ok kv"
  shows "kv_ok (reset_shifts kv) \<and> kv_get_has_shift (reset_shifts kv) = False
    \<and> kv_view (reset_shifts kv) =
        map (map (\<lambda>x. case x of Empty \<Rightarrow> Empty | Cell p sh S \<Rightarrow> Cell p 0 S)) (kv_view kv)
    \<and> kv_heads (reset_shifts kv) = kv_heads kv \<and> kv_layers (reset_shifts kv) = kv_layers kv"
proof -
  let ?n = "kv_n_stream kv"
  let ?g = "\<lambda>x. case x of Empty \<Rightarrow> Empty | Cell p sh S \<Rightarrow> Cell p 0 S"
  have len: "length (kv_tables kv) = ?n" using ok by (simp add: kv_ok_def)
  have "fold (\<lambda>s kv. kv\<lparr>kv_tables := (kv_tables kv)[s := cells_reset_shift (kv_tables kv ! s)]\<rparr>) [0..<m] kv
      = kv\<lparr>kv_tables := map cells_reset_shift (take m (kv_tables kv)) @ drop m (kv_tables kv)\<rparr>" if "m \<le> ?n" for m
    using that
  proof (induction m)
    case (Suc m)
    then show ?case
      using len by (simp add: nth_append list_update_append take_Suc_conv_app_nth Cons_nth_drop_Suc[symmetric])
  qed simp
  from this[of ?n] have r: "reset_shifts kv = kv\<lparr>kv_tables := map cells_reset_shift (kv_tables kv)\<rparr>"
    using len by (simp add: reset_shifts_def)
  have sz: "cells_size (cells_reset_shift c) = cells_size c" for c by (simp add: cells_size_def cells_reset_shift_def)
  have z: "kv_seq_to_stream kv ! 0 < ?n" using ok by (auto simp: kv_ok_def)
  have gs: "kv_get_size (reset_shifts kv) = kv_get_size kv" using z len by (simp add: r kv_get_size_def sz)
  have "table_ok n (cells_reset_shift c)" if "table_ok n c" for n c
  proof -
    have "Cell p sh {} \<notin> set (cells_view (cells_reset_shift c))" for p sh
      using that cells_reset_shift_ok(2)[of c] by (auto simp: table_ok_def split: cell.splits)
    then show ?thesis using that cells_reset_shift_ok(1)[of c] by (simp add: table_ok_def sz)
  qed
  then have "kv_ok (reset_shifts kv)" using ok gs len by (simp add: kv_ok_def r)
  moreover have "fold (\<lambda>s result. result \<or> c_has_shift (map cells_reset_shift (kv_tables kv) ! s)) [0..<m] False = False"
    if "m \<le> ?n" for m
    using that by (induction m) (simp_all add: len cells_reset_shift_def)
  moreover have "map (cells_view \<circ> cells_reset_shift) (kv_tables kv) = map (map ?g \<circ> cells_view) (kv_tables kv)"
    using kv_okD(1)[OF ok] len cells_reset_shift_ok(2) by (auto simp: list_eq_iff_nth_eq)
  ultimately show ?thesis by (simp add: r kv_get_has_shift_def kv_view_def)
qed

subsection \<open>Correctness of the sequence operations\<close>

text \<open>A two-stream cache of three cells per stream; stream 0 holds cells of sequences 0 and 1.\<close>

definition sample_kv :: kv_cache where
  "sample_kv = \<lparr>kv_v_trans = False, kv_n_seq_max = 2, kv_n_stream = 2, kv_n_pad = 1, kv_n_swa = 0,
     kv_swa_type = SWA_NONE, kv_heads = [3, 1], kv_tables = [sample_cells, cells_resize 3 kv_cells_init],
     kv_seq_to_stream = [0, 1], kv_sc_ssrc = [], kv_sc_sdst = [], kv_layers = []\<rparr>"

lemma sample_view: "cells_view sample_cells = [Cell 9 0 {0}, Empty, Cell 4 0 {0, 1}]"
  by (simp add: cells_view_def sample_cells_def view_cell_def)

lemma sample_len: "length (c_pos sample_cells) = 3"
  by (simp add: sample_cells_def)

lemma sample_kv_ok: "kv_ok sample_kv" "kv_get_size sample_kv = 3"
  "kv_view sample_kv = [[Cell 9 0 {0}, Empty, Cell 4 0 {0, 1}], [Empty, Empty, Empty]]"
proof -
  have v: "cells_view (cells_resize 3 kv_cells_init) = [Empty, Empty, Empty]"
    by (simp add: cells_resize_ok numeral_3_eq_3)
  then have l: "length (c_pos (cells_resize 3 kv_cells_init)) = 3" by (metis length_view list.size(3,4) add_Suc_right One_nat_def add_0_right numeral_3_eq_3)
  show "kv_get_size sample_kv = 3" by (simp add: sample_kv_def kv_get_size_def cells_size_def sample_cells_def)
  then show "kv_ok sample_kv"
    using sample_cells_ok cells_resize_ok(1)[of 3 kv_cells_init] v l
    by (auto simp: kv_ok_def sample_kv_def table_ok_def cells_size_def sample_view less_2_cases_iff less_Suc_eq sample_len)
  show "kv_view sample_kv = [[Cell 9 0 {0}, Empty, Cell 4 0 {0, 1}], [Empty, Empty, Empty]]"
    using v sample_view by (simp add: kv_view_def sample_kv_def)
qed

lemma sample_seqs: "seq_in_range sample_kv 0" "seq_in_range sample_kv 1" "stream_of sample_kv 0 = 0" "stream_of sample_kv 1 = 1"
  by (simp_all add: seq_in_range_def stream_of_def sample_kv_def)

text \<open>
  Property C25. \<open>seq_rm\<close> always succeeds on a valid cache. For a sequence, every cell of its stream
  with a position in the range loses that sequence and becomes empty when it was the last one; for
  \<open>-1\<close>, every cell of every stream in the range becomes empty. Nothing else changes in any cell, a
  negative bound is open, and the invariant is kept.
\<close>

theorem seq_rm_exact:
  assumes "kv_ok kv" and "seq_in_range kv q"
  shows "\<exists>kv1 kv2. kv_seq_rm q p0 p1 kv = Some (True, kv1) \<and> kv_ok kv1
    \<and> kv_view kv1 = (kv_view kv)[stream_of kv q :=
        map (drop_seq q (if p0 < 0 then 0 else p0) (if p1 < 0 then INT_MAX else p1)) (kv_view kv ! stream_of kv q)]
    \<and> kv_seq_rm (- 1) p0 p1 kv = Some (True, kv2) \<and> kv_ok kv2
    \<and> kv_view kv2 = map (map (drop_any (if p0 < 0 then 0 else p0) (if p1 < 0 then INT_MAX else p1))) (kv_view kv)"
  using kv_seq_rm_spec[OF assms, of p0 p1] kv_seq_rm_any_spec[OF assms(1), of p0 p1]
  unfolding range_lo_def range_hi_def by blast

lemma seq_rm_exact_witness:
  "\<exists>kv1. kv_seq_rm 0 5 (- 1) sample_kv = Some (True, kv1)
    \<and> kv_view kv1 = [[Empty, Empty, Cell 4 0 {0, 1}], [Empty, Empty, Empty]]"
  using seq_rm_exact[OF sample_kv_ok(1) sample_seqs(1), of 5 "- 1"] sample_seqs(3)
  by (fastforce simp: sample_kv_ok(3))

text \<open>
  After \<open>seq_keep\<close> a cell of the stream holds that sequence alone or is empty: the
  sequence's own minimum and maximum positions are unchanged and every other sequence of the stream
  is gone.
\<close>

theorem seq_keep_exact:
  assumes ok: "kv_ok kv" and q: "seq_in_range kv q"
  shows "\<exists>kv'. kv_seq_keep q kv = Some kv' \<and> kv_ok kv'
    \<and> kv_view kv' = (kv_view kv)[stream_of kv q := map (keep_seq q) (kv_view kv ! stream_of kv q)]
    \<and> cells_seq_pos_min q (kv_tables kv' ! stream_of kv q) = cells_seq_pos_min q (kv_tables kv ! stream_of kv q)
    \<and> cells_seq_pos_max q (kv_tables kv' ! stream_of kv q) = cells_seq_pos_max q (kv_tables kv ! stream_of kv q)
    \<and> (\<forall>r. seq_id_ok r \<and> r \<noteq> q \<longrightarrow> cells_seq_pos_max r (kv_tables kv' ! stream_of kv q) = Some (- 1))"
proof -
  let ?s = "stream_of kv q"
  have s: "?s < kv_n_stream kv" by (rule stream_of_less[OF ok q])
  obtain kv' where k: "kv_seq_keep q kv = Some kv'" "kv_ok kv'"
    "kv_view kv' = (kv_view kv)[?s := map (keep_seq q) (kv_view kv ! ?s)]"
    using kv_seq_keep_spec[OF ok q] by blast
  have "length (kv_view kv') = kv_n_stream kv'" "length (kv_view kv) = kv_n_stream kv"
    using k(2) ok by (simp_all add: kv_ok_def kv_view_def)
  then have s': "?s < kv_n_stream kv'" using k(3) s by simp
  note d = kv_okD[OF ok s] and d' = kv_okD[OF k(2) s']
  let ?c = "kv_tables kv ! ?s" and ?c' = "kv_tables kv' ! ?s"
  have v: "cells_view ?c' = map (keep_seq q) (cells_view ?c)"
    using k(3) d(8) d'(8) s \<open>length (kv_view kv) = kv_n_stream kv\<close> by simp
  have P: "seq_positions c r = {p. \<exists>sh S. Cell p sh S \<in> set (cells_view c) \<and> r \<in> S}" for c r
    unfolding seq_positions_def by (auto simp: in_set_conv_nth)
  have k1: "keep_seq q x = Cell p sh S \<longleftrightarrow> (\<exists>S'. x = Cell p sh S' \<and> q \<in> S') \<and> S = {q}" for x p sh S
    by (cases x) auto
  have "Cell p sh S \<in> set (cells_view ?c') \<longleftrightarrow> (\<exists>S'. Cell p sh S' \<in> set (cells_view ?c) \<and> q \<in> S') \<and> S = {q}" for p sh S
  proof -
    have "Cell p sh S \<in> set (cells_view ?c') \<longleftrightarrow> (\<exists>x \<in> set (cells_view ?c). keep_seq q x = Cell p sh S)"
      unfolding v by (auto simp: image_iff) metis
    then show ?thesis unfolding k1 by blast
  qed
  then have "seq_positions ?c' q = seq_positions ?c q" and none: "r \<noteq> q \<Longrightarrow> seq_positions ?c' r = {}" for r
    unfolding P by auto
  then show ?thesis
    using k seq_pos_extrema[OF d(1) seq_in_range_id[OF ok q]] seq_pos_extrema[OF d'(1)] seq_in_range_id[OF ok q] by auto
qed

text \<open>The same tables with both sequences in stream 0.\<close>

abbreviation "one_stream_kv \<equiv> sample_kv\<lparr>kv_seq_to_stream := [0, 0]\<rparr>"

lemma one_stream_kv:
  shows "kv_ok one_stream_kv" and "seq_in_range one_stream_kv 0" and "seq_in_range one_stream_kv 1"
    and "stream_of one_stream_kv 0 = 0" and "stream_of one_stream_kv 1 = 0"
    and "kv_view one_stream_kv = [[Cell 9 0 {0}, Empty, Cell 4 0 {0, 1}], [Empty, Empty, Empty]]"
proof -
  have g: "kv_get_size one_stream_kv = 3" using sample_kv_ok(2) by (simp add: kv_get_size_def sample_kv_def)
  show "kv_view one_stream_kv = [[Cell 9 0 {0}, Empty, Cell 4 0 {0, 1}], [Empty, Empty, Empty]]"
    using sample_kv_ok(3) by (simp add: kv_view_def sample_kv_def)
  show "kv_ok one_stream_kv"
    using sample_kv_ok(1,2) g by (auto simp: kv_ok_def sample_kv_def less_2_cases_iff less_Suc_eq)
  show "seq_in_range one_stream_kv 0" "seq_in_range one_stream_kv 1"
    "stream_of one_stream_kv 0 = 0" "stream_of one_stream_kv 1 = 0"
    by (simp_all add: seq_in_range_def stream_of_def sample_kv_def)
qed

lemma seq_keep_exact_witness:
  "\<exists>kv'. kv_seq_keep 1 one_stream_kv = Some kv' \<and> kv_view kv' = [[Empty, Empty, Cell 4 0 {1}], [Empty, Empty, Empty]]"
  using seq_keep_exact[OF one_stream_kv(1,3)] by (fastforce simp: one_stream_kv)



text \<open>
  Property C27. \<open>seq_add\<close> moves the position and the pending shift of every cell of the sequence in
  the range by the same amount, empties the cells that would get a negative position, and leaves the
  search head on the first cell emptied, or at 0; \<open>pos - shift\<close> of a surviving cell is unchanged.
\<close>

theorem seq_add_exact:
  assumes ok: "kv_ok kv" and q: "seq_in_range kv q" and d: "d \<noteq> 0" and range: "range_lo p0 \<noteq> range_hi p1"
    and fits: "\<forall>x \<in> set (kv_view kv ! stream_of kv q). move_fits q (range_lo p0) (range_hi p1) d x"
  shows "\<exists>kv'. kv_seq_add q p0 p1 d kv = Some kv' \<and> kv_ok kv'
    \<and> kv_view kv' = (kv_view kv)[stream_of kv q := map (move_seq q (range_lo p0) (range_hi p1) d) (kv_view kv ! stream_of kv q)]
    \<and> (\<forall>i < kv_get_size kv. \<forall>p sh S. kv_view kv' ! stream_of kv q ! i = Cell p sh S \<longrightarrow>
         (\<exists>p' sh'. kv_view kv ! stream_of kv q ! i = Cell p' sh' S \<and> p - sh = p' - sh'))"
proof -
  obtain kv' where k: "kv_seq_add q p0 p1 d kv = Some kv'" "kv_ok kv'"
    "kv_view kv' = (kv_view kv)[stream_of kv q := map (move_seq q (range_lo p0) (range_hi p1) d) (kv_view kv ! stream_of kv q)]"
    using kv_seq_add_spec[OF ok q d range] fits by blast
  have st: "stream_of kv q < kv_n_stream kv" by (rule stream_of_less[OF ok q])
  have l: "length (kv_view kv) = kv_n_stream kv" using ok by (simp add: kv_ok_def kv_view_def)
  have "move_seq q (range_lo p0) (range_hi p1) d x = Cell p sh S \<Longrightarrow> \<exists>p' sh'. x = Cell p' sh' S \<and> p - sh = p' - sh'" for x p sh S
    by (cases x) (auto split: if_splits)
  then have "\<exists>p' sh'. kv_view kv ! stream_of kv q ! i = Cell p' sh' S \<and> p - sh = p' - sh'"
    if "i < kv_get_size kv" "kv_view kv' ! stream_of kv q ! i = Cell p sh S" for i p sh S
    using that k(3) st l kv_okD(3,8)[OF ok st] by simp
  then show ?thesis using k by blast
qed

lemma seq_add_exact_witness:
  "\<exists>kv'. kv_seq_add 0 0 8 (- 5) sample_kv = Some kv'
    \<and> kv_view kv' = [[Cell 9 0 {0}, Empty, Empty], [Empty, Empty, Empty]]"
  using seq_add_exact[OF sample_kv_ok(1) sample_seqs(1), of "- 5" 0 8] sample_seqs(3)
  by (simp add: sample_kv_ok(3) range_lo_def range_hi_def i32_ok_def) blast

text \<open>
  A consequence of the sign of \<open>pos_div\<close>: after dividing the positions of a sequence, a
  cell at \<open>p\<close> without pending shift has \<open>2 * (p div k) < p\<close> for every \<open>k > 2\<close> and \<open>p > 0\<close>, so its
  pending shift exceeds its position, and copying the sequence to another stream fails the
  assertion on the unshifted position.
\<close>

theorem seq_div_then_cp_aborts:
  assumes ok: "kv_ok kv" and q: "seq_in_range kv src" "seq_in_range kv dst"
    and cross: "stream_of kv src \<noteq> stream_of kv dst"
    and cell: "Cell p 0 S \<in> set (kv_view kv ! stream_of kv src)" "src \<in> S" "p < INT_MAX"
    and k: "1 < k" "2 * (p div k) < p"
    and fits: "\<forall>x \<in> set (kv_view kv ! stream_of kv src). div_fits src 0 INT_MAX k x"
  shows "\<exists>kv'. kv_seq_div src (- 1) (- 1) k kv = Some kv' \<and> kv_ok kv' \<and> kv_seq_cp src dst (- 1) (- 1) kv' = None"
proof -
  have r: "range_lo (- 1) = 0" "range_hi (- 1) = INT_MAX" by (simp_all add: range_lo_def range_hi_def)
  let ?s = "stream_of kv src"
  obtain kv' where k': "kv_seq_div src (- 1) (- 1) k kv = Some kv'" "kv_ok kv'"
    "kv_view kv' = (kv_view kv)[?s := map (div_seq src 0 INT_MAX k) (kv_view kv ! ?s)]"
    "kv_seq_to_stream kv' = kv_seq_to_stream kv" "kv_n_stream kv' = kv_n_stream kv"
    using kv_seq_div_spec[OF ok q(1) k(1), of "- 1" "- 1"] fits unfolding r by auto
  have st: "?s < kv_n_stream kv" by (rule stream_of_less[OF ok q(1)])
  note d = kv_okD[OF ok st]
  have l: "length (kv_view kv) = kv_n_stream kv" using ok by (simp add: kv_ok_def kv_view_def)
  obtain i where i: "i < length (kv_view kv ! ?s)" "kv_view kv ! ?s ! i = Cell p 0 S"
    using cell(1) by (auto simp: in_set_conv_nth)
  have seqs: "seq_in_range kv' src" "seq_in_range kv' dst" "stream_of kv' src = ?s" "stream_of kv' dst = stream_of kv dst"
    using q k'(4) by (simp_all add: seq_in_range_def stream_of_def)
  have v: "kv_view kv' ! ?s = map (div_seq src 0 INT_MAX k) (kv_view kv ! ?s)" using k'(3) st l by simp
  have st': "?s < kv_n_stream kv'" using st k'(5) by simp
  have p0: "0 \<le> p"
    using i d(3,8) cells_okD(4)[OF d(1), of i] by (simp add: view_Cell)
  have ix: "i < kv_get_size kv'" using i(1) v kv_okD(3,8)[OF k'(2) st'] by simp
  have c': "kv_view kv' ! stream_of kv' src ! i = Cell (p div k) (p - p div k) S"
    unfolding seqs(3) v using i cell(2,3) p0 by simp
  have "kv_seq_cp src dst (- 1) (- 1) kv' = None"
    by (rule kv_seq_cp_cross_aborts[OF k'(2) seqs(1,2) _ ix c' cell(2)]) (use k(2) cross seqs in simp_all)
  then show ?thesis using k'(1,2) by blast
qed

lemma seq_div_then_cp_aborts_witness:
  "\<exists>kv'. kv_seq_div 0 (- 1) (- 1) 3 sample_kv = Some kv' \<and> kv_seq_cp 0 1 (- 1) (- 1) kv' = None"
  using seq_div_then_cp_aborts[OF sample_kv_ok(1) sample_seqs(1,2), of 9 "{0}" 3] sample_seqs(3,4)
  by (auto simp: sample_kv_ok(3) i32_ok_def)

text \<open>
  A completed update keeps every position and sequence, leaves no pending shift and no
  shift flag, and a failed K-shift leaves the cache as it was (the shifts stay pending).
\<close>

theorem update_applies_shifts:
  assumes ok: "kv_ok kv"
  shows "\<exists>kv'. kv_update rope True outcome True ([], []) kv = Some (False, kv') \<and> kv_ok kv' \<and> kv_get_has_shift kv' = False
    \<and> kv_view kv' = map (map (\<lambda>x. case x of Empty \<Rightarrow> Empty | Cell p sh S \<Rightarrow> Cell p 0 S)) (kv_view kv)
    \<and> kv_update rope False Shift_compute_failed True ([], []) kv = Some (False, kv)
    \<and> kv_update rope False Shift_alloc_failed True ([], []) kv = Some (False, kv)
    \<and> kv_update rope rn outcome False ([], []) kv = Some (False, kv)"
  using reset_shifts_spec[OF ok] by (auto simp: kv_update_def kv_get_can_shift_def)

lemma update_applies_shifts_witness:
  "\<exists>kv'. kv_update (\<lambda>_ l. l) True Shift_done True ([], []) sample_kv = Some (False, kv') \<and> kv_view kv' = kv_view sample_kv"
  using update_applies_shifts[OF sample_kv_ok(1), of "\<lambda>_ l. l" Shift_done] by (auto simp: sample_kv_ok(3))

end
