(* ===== verification/Kv_Slots.thy ===== *)
theory Kv_Slots
  imports Kv_Cache
begin

text \<open>
  Placing micro-batches in the KV cache (\<^verbatim>\<open>src/llama-kv-cache.cpp\<close>): the ring search for free cells
  (\<open>find_slot\<close>), writing a micro-batch into its cells (\<open>apply_ubatch\<close>), the dry run that finds slots
  for all micro-batches of a batch and undoes itself (\<open>prepare\<close>), and the batch context. The search
  loop may not end, so it is a \<open>partial_function (option)\<close>; that it returns is proved.
\<close>

subsection \<open>Micro-batches and slots\<close>

text \<open>\<open>seq_id[i]\<close> is the list of its \<open>n_seq_id[i]\<close> entries.\<close>

record ubatch =
  ub_n_tokens :: nat
  ub_n_seqs_unq :: nat
  ub_pos :: "int list"
  ub_seq_id :: "int list list"
  ub_seq_id_unq :: "int list"

record slot_info =
  si_s0 :: nat
  si_s1 :: nat
  si_strm :: "nat list"
  si_idxs :: "nat list list"

definition slot_none :: slot_info where
  "slot_none = \<lparr>si_s0 = 0, si_s1 = 0, si_strm = [], si_idxs = []\<rparr>"

definition slot_empty :: "slot_info \<Rightarrow> bool" where
  "slot_empty si \<longleftrightarrow> si_idxs si = []"

definition slot_resize :: "nat \<Rightarrow> slot_info \<Rightarrow> slot_info" where
  "slot_resize n si = si\<lparr>si_strm := vector_resize n 0 (si_strm si), si_idxs := vector_resize n [] (si_idxs si)\<rparr>"

definition slot_size :: "slot_info \<Rightarrow> nat option" where
  "slot_size si = require (length (si_idxs si) = length (si_strm si) \<and> si_idxs si \<noteq> []) (Some (length (si_idxs si ! 0)))"

definition slot_n_stream :: "slot_info \<Rightarrow> nat" where
  "slot_n_stream si = length (si_strm si)"

definition slot_head :: "slot_info \<Rightarrow> nat option" where
  "slot_head si = require (length (si_idxs si) = 1 \<and> si_idxs si ! 0 \<noteq> []) (Some (si_idxs si ! 0 ! 0))"

subsection \<open>Searching for cells\<close>

definition can_use_cell :: "kv_cache \<Rightarrow> kv_cells \<Rightarrow> nat \<Rightarrow> bool option" where
  "can_use_cell kv cells idx = do {
     can_use \<leftarrow> cells_is_empty idx cells;
     if can_use then Some True else do {
       n \<leftarrow> cells_seq_count idx cells;
       if n \<noteq> 1 then Some False else do {
         pos_cell \<leftarrow> cells_pos_get idx cells;
         seq_id_cell \<leftarrow> cells_seq_get idx cells;
         pos_max \<leftarrow> cells_seq_pos_max seq_id_cell cells;
         require (i32_ok (pos_max + 1)) (kv_is_masked_swa kv pos_cell (pos_max + 1)) } } }"

text \<open>The inner loop: up to \<open>n_test\<close> cells from the current head; a continuous search stops at a used one.\<close>

fun slot_scan :: "(nat \<Rightarrow> bool option) \<Rightarrow> bool \<Rightarrow> nat \<Rightarrow> nat \<times> nat \<times> nat list \<Rightarrow> (nat \<times> nat \<times> nat list) option" where
  "slot_scan use cont 0 (head_cur, n_tested, idxs) = Some (head_cur, n_tested, idxs)"
| "slot_scan use cont (Suc k) (head_cur, n_tested, idxs) = (case use head_cur of
     None \<Rightarrow> None
   | Some True \<Rightarrow> slot_scan use cont k (head_cur + 1, n_tested + 1, idxs @ [head_cur])
   | Some False \<Rightarrow> if cont then Some (head_cur + 1, n_tested + 1, idxs)
       else slot_scan use cont k (head_cur + 1, n_tested + 1, idxs))"

text \<open>The \<open>while (true)\<close> loop; \<open>Some None\<close> is the early \<open>return { }\<close>.\<close>

partial_function (option) slot_search ::
    "(nat \<Rightarrow> bool option) \<Rightarrow> bool \<Rightarrow> nat \<Rightarrow> nat \<Rightarrow> nat \<Rightarrow> nat \<Rightarrow> nat list \<Rightarrow> nat list option option" where
  "slot_search use cont sz n_tokens head_cur n_tested idxs =
    (let n_test = (if cont then n_tokens else 1) in
     if head_cur + n_test > sz
     then slot_search use cont sz n_tokens 0 (n_tested + (sz - head_cur)) idxs
     else Option.bind (slot_scan use cont n_test (head_cur, n_tested, idxs)) (\<lambda>(head_cur, n_tested, idxs).
       if length idxs = n_tokens then Some (Some idxs)
       else let idxs = (if cont then [] else idxs) in
         if n_tested \<ge> sz then Some None
         else slot_search use cont sz n_tokens head_cur n_tested idxs))"

fun find_slot_seqs :: "kv_cache \<Rightarrow> ubatch \<Rightarrow> bool \<Rightarrow> nat \<Rightarrow> nat list \<Rightarrow> slot_info \<Rightarrow> slot_info option" where
  "find_slot_seqs kv ub cont n_tokens [] res = Some res"
| "find_slot_seqs kv ub cont n_tokens (s # ss) res = require (s < length (ub_seq_id_unq ub))
    (let seq_id = ub_seq_id_unq ub ! s in
     require (kv_n_stream kv > 1 \<longrightarrow> s * n_tokens < length (ub_seq_id ub)
       \<and> length (ub_seq_id ub ! (s * n_tokens)) = 1 \<and> ub_seq_id ub ! (s * n_tokens) ! 0 = seq_id)
     (require (seq_in_range kv seq_id)
      (let strm = stream_of kv seq_id;
           res = res\<lparr>si_s0 := min (si_s0 res) strm, si_s1 := max (si_s1 res) strm, si_strm := (si_strm res)[s := strm]\<rparr>;
           cells = kv_tables kv ! strm;
           head_cur = kv_heads kv ! strm;
           head_cur = (if head_cur > u32_add (cells_get_used cells) (2 * n_tokens mod 2 ^ 32) then 0 else head_cur)
       in if n_tokens > cells_size cells then Some slot_none
          else case slot_search (can_use_cell kv cells) cont (cells_size cells) n_tokens head_cur 0 [] of
            None \<Rightarrow> None
          | Some None \<Rightarrow> Some slot_none
          | Some (Some idxs) \<Rightarrow>
              find_slot_seqs kv ub cont n_tokens ss (res\<lparr>si_idxs := (si_idxs res)[s := idxs]\<rparr>))))"

definition kv_find_slot :: "ubatch \<Rightarrow> bool \<Rightarrow> kv_cache \<Rightarrow> slot_info option" where
  "kv_find_slot ub cont kv =
    (if kv_n_stream kv > 1
     then require (ub_n_seqs_unq ub \<noteq> 0 \<and> ub_n_tokens ub mod ub_n_seqs_unq ub = 0)
       (find_slot_seqs kv ub cont (ub_n_tokens ub div ub_n_seqs_unq ub) [0..<ub_n_seqs_unq ub]
         (slot_resize (ub_n_seqs_unq ub) \<lparr>si_s0 = nat LLAMA_MAX_SEQ, si_s1 = 0, si_strm = [], si_idxs = []\<rparr>))
     else find_slot_seqs kv ub cont (ub_n_tokens ub) [0..<1]
         (slot_resize 1 \<lparr>si_s0 = nat LLAMA_MAX_SEQ, si_s1 = 0, si_strm = [], si_idxs = []\<rparr>))"

subsection \<open>Writing a micro-batch\<close>

text \<open>One token: \<open>rm\<close> maps every sequence to the largest position overwritten so far, \<open>-1\<close> if none.\<close>

definition apply_token ::
    "slot_info \<Rightarrow> ubatch \<Rightarrow> nat \<Rightarrow> nat \<Rightarrow> nat \<Rightarrow> kv_cache \<times> (int \<Rightarrow> int) \<Rightarrow> (kv_cache \<times> (int \<Rightarrow> int)) option" where
  "apply_token si ub sz s ii = (\<lambda>(kv, rm).
    let i = s * sz + ii; strm = si_strm si ! s; cells = kv_tables kv ! strm in
    require (ii < length (si_idxs si ! s) \<and> strm < length (kv_tables kv) \<and> i < length (ub_pos ub) \<and> i < length (ub_seq_id ub))
    (let idx = si_idxs si ! s ! ii in do {
       empty \<leftarrow> cells_is_empty idx cells;
       (cells, rm) \<leftarrow> (if empty then Some (cells, rm) else do {
           n \<leftarrow> cells_seq_count idx cells;
           require (n = 1) (do {
             seq_id \<leftarrow> cells_seq_get idx cells;
             pos \<leftarrow> cells_pos_get idx cells;
             cells \<leftarrow> cells_rm idx cells;
             Some (cells, rm(seq_id := max (rm seq_id) pos)) }) });
       cells \<leftarrow> cells_pos_set idx (ub_pos ub ! i) cells;
       cells \<leftarrow> fold_opt (cells_seq_add idx) (ub_seq_id ub ! i) cells;
       Some (kv\<lparr>kv_tables := (kv_tables kv)[strm := cells]\<rparr>, rm) }))"

definition purge_seq :: "(int \<Rightarrow> int) \<Rightarrow> int \<Rightarrow> kv_cache \<Rightarrow> kv_cache option" where
  "purge_seq rm s kv =
    (if rm s = - 1 then Some kv else
     require (nat s < length (kv_seq_to_stream kv)) (do {
       pos_min \<leftarrow> cells_seq_pos_min s (kv_tables kv ! (kv_seq_to_stream kv ! nat s));
       if pos_min \<le> rm s then require (i32_ok (rm s + 1)) (map_option snd (kv_seq_rm s pos_min (rm s + 1) kv))
       else Some kv }))"

definition move_head :: "slot_info \<Rightarrow> nat \<Rightarrow> kv_cache \<Rightarrow> kv_cache option" where
  "move_head si s kv = require (si_idxs si ! s \<noteq> [])
     (Some (kv\<lparr>kv_heads := (kv_heads kv)[si_strm si ! s := last (si_idxs si ! s) + 1]\<rparr>))"

definition kv_apply_ubatch :: "slot_info \<Rightarrow> ubatch \<Rightarrow> kv_cache \<Rightarrow> kv_cache option" where
  "kv_apply_ubatch si ub kv = do {
     sz \<leftarrow> slot_size si;
     require (ub_n_tokens ub = slot_n_stream si * sz) (do {
       (kv, rm) \<leftarrow> fold_opt (\<lambda>s. fold_opt (apply_token si ub sz s) [0..<sz]) [0..<slot_n_stream si] (kv, \<lambda>_. - 1);
       kv \<leftarrow> fold_opt (purge_seq rm) [0..LLAMA_MAX_SEQ - 1] kv;
       fold_opt (move_head si) [0..<slot_n_stream si] kv }) }"

subsection \<open>The dry run over a batch\<close>

text \<open>What is remembered of a placed micro-batch: its slot, the heads before, and the old cells per stream.\<close>

type_synonym placed = "slot_info \<times> nat list \<times> kv_cells list"

definition save_slot :: "slot_info \<Rightarrow> kv_cache \<Rightarrow> kv_cells list option" where
  "save_slot si kv = fold_opt (\<lambda>s saved. do {
     c \<leftarrow> cells_cp (si_idxs si ! s) (kv_tables kv ! (si_strm si ! s));
     Some (saved @ [c]) }) [0..<slot_n_stream si] []"

fun prepare_place :: "ubatch list \<Rightarrow> slot_info list \<Rightarrow> placed list \<Rightarrow> kv_cache
    \<Rightarrow> (bool \<times> slot_info list \<times> placed list \<times> kv_cache) option" where
  "prepare_place [] res states kv = Some (True, res, states, kv)"
| "prepare_place (ub # ubs) res states kv = do {
     si \<leftarrow> kv_find_slot ub False kv;
     if slot_empty si then Some (False, res, states, kv) else do {
       saved \<leftarrow> save_slot si kv;
       kv' \<leftarrow> kv_apply_ubatch si ub kv;
       prepare_place ubs (res @ [si]) (states @ [(si, kv_heads kv, saved)]) kv' } }"

text \<open>Restoring one micro-batch; the old heads are indexed by the slot's stream number \<open>s\<close>.\<close>

definition restore_stream :: "placed \<Rightarrow> nat \<Rightarrow> kv_cache \<Rightarrow> kv_cache option" where
  "restore_stream st s kv = (case st of (si, heads_old, saved) \<Rightarrow>
     let strm = si_strm si ! s in
     require (s < length heads_old \<and> s < length saved) (do {
       cells \<leftarrow> cells_set (si_idxs si ! s) (saved ! s) (kv_tables kv ! strm);
       Some (put_stream strm cells (heads_old ! s) kv) }))"

definition restore_placed :: "placed \<Rightarrow> kv_cache \<Rightarrow> kv_cache option" where
  "restore_placed st kv = fold_opt (restore_stream st) [0..<slot_n_stream (fst st)] kv"

definition kv_prepare :: "ubatch list \<Rightarrow> kv_cache \<Rightarrow> (slot_info list \<times> kv_cache) option" where
  "kv_prepare ubs kv = do {
     (success, res, states, kv) \<leftarrow> prepare_place ubs [] [] kv;
     require (states \<noteq> [] \<or> \<not> success) (do {
       kv \<leftarrow> fold_opt restore_placed (rev states) kv;
       Some (if success then res else [], kv) }) }"

subsection \<open>The batch context\<close>

datatype memory_status = STATUS_SUCCESS | STATUS_NO_UPDATE | STATUS_FAILED_PREPARE | STATUS_FAILED_COMPUTE

record kv_context =
  kx_status :: memory_status
  kx_do_shift :: bool
  kx_sc_info :: "nat list \<times> nat list"
  kx_i_cur :: nat
  kx_sinfos :: "slot_info list"
  kx_ubatches :: "ubatch list"
  kx_n_kv :: nat

definition status_is_fail :: "memory_status \<Rightarrow> bool" where
  "status_is_fail st = (case st of STATUS_SUCCESS \<Rightarrow> False | STATUS_NO_UPDATE \<Rightarrow> False
     | STATUS_FAILED_PREPARE \<Rightarrow> True | STATUS_FAILED_COMPUTE \<Rightarrow> True)"

definition status_combine :: "memory_status \<Rightarrow> memory_status \<Rightarrow> memory_status" where
  "status_combine s0 s1 =
    (if status_is_fail s0 then s0 else if status_is_fail s1 then s1
     else if s0 = STATUS_SUCCESS \<or> s1 = STATUS_SUCCESS then STATUS_SUCCESS else STATUS_NO_UPDATE)"

definition context_blank :: "memory_status \<Rightarrow> kv_context" where
  "context_blank st = \<lparr>kx_status = st, kx_do_shift = False, kx_sc_info = ([], []), kx_i_cur = 0,
     kx_sinfos = [], kx_ubatches = [], kx_n_kv = 0\<rparr>"

definition context_full :: "kv_cache \<Rightarrow> kv_context" where
  "context_full kv = (context_blank STATUS_SUCCESS)\<lparr>kx_n_kv := kv_get_size kv,
     kx_sinfos := [\<lparr>si_s0 = 0, si_s1 = kv_get_n_stream kv - 1, si_strm = [0..<kv_get_n_stream kv],
       si_idxs = replicate (kv_get_n_stream kv) [0]\<rparr>]\<rparr>"

definition context_update :: "bool \<Rightarrow> nat list \<times> nat list \<Rightarrow> kv_context" where
  "context_update do_shift sc = (context_blank (if \<not> do_shift \<and> fst sc = [] then STATUS_NO_UPDATE else STATUS_SUCCESS))
     \<lparr>kx_do_shift := do_shift, kx_sc_info := sc\<rparr>"

definition context_batch :: "slot_info list \<Rightarrow> ubatch list \<Rightarrow> kv_context" where
  "context_batch sinfos ubs = (context_blank STATUS_SUCCESS)\<lparr>kx_sinfos := sinfos, kx_ubatches := ubs\<rparr>"

definition kv_get_n_kv :: "slot_info \<Rightarrow> kv_cache \<Rightarrow> nat" where
  "kv_get_n_kv si kv = fold (\<lambda>s result. let cells = kv_tables kv ! (si_strm si ! s) in
     max (min (cells_size cells)
       (max (kv_n_pad kv) (unat (ggml_pad (of_nat (cells_used_max_p1 cells)) (of_nat (kv_n_pad kv)))))) result)
     [0..<slot_n_stream si] 0"

text \<open>
  \<open>init_batch\<close>, for the split of the batch allocator: its micro-batches, and whether they cover the batch.
\<close>

definition kv_init_batch :: "ubatch list \<Rightarrow> bool \<Rightarrow> kv_cache \<Rightarrow> (kv_context \<times> kv_cache) option" where
  "kv_init_batch ubs covered kv =
    (if \<not> covered then Some (context_blank STATUS_FAILED_PREPARE, kv) else do {
       (sinfos, kv) \<leftarrow> kv_prepare ubs kv;
       Some (if sinfos = [] then context_blank STATUS_FAILED_PREPARE else context_batch sinfos ubs, kv) })"

definition kv_init_update :: "kv_cache \<Rightarrow> kv_context \<times> kv_cache" where
  "kv_init_update kv = (context_update (kv_get_has_shift kv) (kv_sc_ssrc kv, kv_sc_sdst kv),
     kv\<lparr>kv_sc_ssrc := [], kv_sc_sdst := []\<rparr>)"

definition context_next :: "kv_context \<Rightarrow> (bool \<times> kv_context) option" where
  "context_next kx = require (kx_status kx = STATUS_SUCCESS)
     (let kx = kx\<lparr>kx_i_cur := kx_i_cur kx + 1\<rparr> in Some (kx_i_cur kx < length (kx_ubatches kx), kx))"

definition context_apply ::
    "(int list \<Rightarrow> kv_layer list \<Rightarrow> kv_layer list) \<Rightarrow> bool \<Rightarrow> shift_outcome \<Rightarrow> kv_context \<times> kv_cache
       \<Rightarrow> (bool \<times> kv_context \<times> kv_cache) option" where
  "context_apply rope rope_none outcome = (\<lambda>(kx, kv). require (\<not> status_is_fail (kx_status kx))
    (if kx_ubatches kx = [] then do {
       (updated, kv) \<leftarrow> kv_update rope rope_none outcome (kx_do_shift kx) (kx_sc_info kx) kv;
       Some (True, kx, kv) }
     else require (kx_i_cur kx < length (kx_sinfos kx) \<and> kx_i_cur kx < length (kx_ubatches kx)) (do {
       kv \<leftarrow> kv_apply_ubatch (kx_sinfos kx ! kx_i_cur kx) (kx_ubatches kx ! kx_i_cur kx) kv;
       Some (True, kx\<lparr>kx_n_kv := kv_get_n_kv (kx_sinfos kx ! kx_i_cur kx) kv\<rparr>, kv) })))"

subsection \<open>The search for separate cells\<close>

text \<open>The cells in the order the search visits them: from the head to the end, then from the start.\<close>

definition ring :: "nat \<Rightarrow> nat \<Rightarrow> nat list" where
  "ring head n = [head..<n] @ [0..<head]"

lemma length_ring: "head \<le> n \<Longrightarrow> length (ring head n) = n"
  by (simp add: ring_def)

lemma nth_ring: "head \<le> n \<Longrightarrow> t < n \<Longrightarrow> ring head n ! t = (if t < n - head then head + t else t - (n - head))"
  by (simp add: ring_def nth_append)

lemma set_ring: "head \<le> n \<Longrightarrow> set (ring head n) = {..<n}"
  by (auto simp: ring_def)

lemma distinct_ring: "distinct (ring head n)"
  by (auto simp: ring_def)

lemma ring_next:
  assumes "head \<le> n" and "Suc t < n"
  shows "ring head n ! Suc t = (if Suc (ring head n ! t) = n then 0 else Suc (ring head n ! t))"
  using assms by (simp add: nth_ring) arith

definition at_cell :: "nat \<Rightarrow> nat \<Rightarrow> nat \<Rightarrow> nat \<Rightarrow> bool" where
  "at_cell head n t h \<longleftrightarrow> (if h = n then ring head n ! t = 0 else h = ring head n ! t)"

lemma ring_less: "head \<le> n \<Longrightarrow> t < n \<Longrightarrow> ring head n ! t < n"
  by (simp add: nth_ring) arith

lemma slot_search_step:
  assumes use: "\<And>i. i < n \<Longrightarrow> use i = Some (U i)" and head: "head \<le> n" and t: "t < n" and at: "at_cell head n t h"
  defines "x \<equiv> ring head n ! t"
  shows "slot_search use False n k h t idxs =
    (let idxs' = (if U x then idxs @ [x] else idxs) in
     if length idxs' = k then Some (Some idxs')
     else if Suc t \<ge> n then Some None else slot_search use False n k (Suc x) (Suc t) idxs')"
proof -
  have x: "x < n" unfolding x_def by (rule ring_less[OF head t])
  have base: "slot_search use False n k x t idxs =
    (let idxs' = (if U x then idxs @ [x] else idxs) in
     if length idxs' = k then Some (Some idxs')
     else if Suc t \<ge> n then Some None else slot_search use False n k (Suc x) (Suc t) idxs')"
    using x use[OF x] by (subst slot_search.simps) (simp add: Let_def split: bool.split)
  show ?thesis
  proof (cases "h = n")
    case False
    then show ?thesis using at base by (simp add: at_cell_def x_def)
  next
    case True
    then have "x = 0" using at by (simp add: at_cell_def x_def)
    moreover have "slot_search use False n k h t idxs = slot_search use False n k 0 t idxs"
      using True by (subst slot_search.simps) simp
    ultimately show ?thesis using base by simp
  qed
qed

lemma at_cell_next:
  assumes "head \<le> n" and "Suc t < n"
  shows "at_cell head n (Suc t) (Suc (ring head n ! t))"
  using ring_next[OF assms] by (simp add: at_cell_def)

lemma slot_search_run:
  assumes use: "\<And>i. i < n \<Longrightarrow> use i = Some (U i)" and head: "head \<le> n"
  shows "t < n \<Longrightarrow> at_cell head n t h \<Longrightarrow> idxs = filter U (take t (ring head n)) \<Longrightarrow> length idxs < k \<Longrightarrow>
    slot_search use False n k h t idxs = Some (if k \<le> length (filter U (ring head n))
      then Some (take k (filter U (ring head n))) else None)"
proof (induction "n - t" arbitrary: t h idxs)
  case 0
  then show ?case by simp
next
  case (Suc d)
  let ?xs = "ring head n" and ?x = "ring head n ! t"
  let ?idxs = "if U ?x then idxs @ [?x] else idxs"
  have len: "length ?xs = n" by (rule length_ring[OF head])
  have next_idxs: "?idxs = filter U (take (Suc t) ?xs)"
    using Suc.prems(1,3) len by (simp add: take_Suc_conv_app_nth)
  have split: "filter U ?xs = filter U (take (Suc t) ?xs) @ filter U (drop (Suc t) ?xs)"
    by (metis append_take_drop_id filter_append)
  note step = slot_search_step[where use = use and U = U, OF use head Suc.prems(1,2), of k idxs]
  show ?case
  proof (cases "length ?idxs = k")
    case True
    then have "take k (filter U ?xs) = ?idxs" "k \<le> length (filter U ?xs)"
      unfolding split next_idxs by simp_all
    then show ?thesis using True step by (simp add: Let_def)
  next
    case False
    then have less: "length ?idxs < k" using Suc.prems(4) by (simp split: if_splits)
    show ?thesis
    proof (cases "Suc t \<ge> n")
      case True
      then have "filter U ?xs = ?idxs" unfolding next_idxs using len by simp
      then show ?thesis using False True less step by (simp add: Let_def)
    next
      case more: False
      then have st: "Suc t < n" by simp
      have "slot_search use False n k (Suc ?x) (Suc t) ?idxs = Some (if k \<le> length (filter U ?xs)
          then Some (take k (filter U ?xs)) else None)"
        by (rule Suc.hyps(1)[OF _ st at_cell_next[OF head st] next_idxs less]) (use Suc.hyps(2) in simp)
      then show ?thesis using False more step by (simp add: Let_def)
    qed
  qed
qed

lemma slot_search_value:
  assumes "\<And>i. i < n \<Longrightarrow> use i = Some (U i)" and "head \<le> n" and "0 < k" and "k \<le> n"
  shows "slot_search use False n k head 0 [] = Some (if k \<le> length (filter U (ring head n))
      then Some (take k (filter U (ring head n))) else None)"
proof -
  have "at_cell head n 0 head" using assms(2,3,4) by (simp add: at_cell_def nth_ring)
  then show ?thesis using assms by (intro slot_search_run) auto
qed

text \<open>What the search returns: distinct usable cells, as many as asked for, if there are that many.\<close>

lemma slot_search_result:
  assumes "\<And>i. i < n \<Longrightarrow> use i = Some (U i)" and "head \<le> n" and "0 < k" and "k \<le> n"
  shows "\<exists>r. slot_search use False n k head 0 [] = Some r
    \<and> (r = None \<longleftrightarrow> card {i. i < n \<and> U i} < k)
    \<and> (\<forall>idxs. r = Some idxs \<longrightarrow> length idxs = k \<and> distinct idxs \<and> (\<forall>i \<in> set idxs. i < n \<and> U i))"
proof -
  let ?f = "filter U (ring head n)"
  have set_f: "set ?f = {i. i < n \<and> U i}" using set_ring[OF assms(2)] by auto
  have "card (set ?f) = length ?f" by (intro distinct_card distinct_filter distinct_ring)
  then have card: "card {i. i < n \<and> U i} = length ?f" unfolding set_f .
  have sub: "\<forall>i \<in> set (take k ?f). i < n \<and> U i" using in_set_takeD[of _ k ?f] set_f by blast
  have dist: "distinct (take k ?f)" using distinct_ring by simp
  note search = slot_search_value[OF assms]
  show ?thesis
  proof (cases "k \<le> length ?f")
    case True
    then have len: "length (take k ?f) = k" by simp
    then have "slot_search use False n k head 0 [] = Some (Some (take k ?f))"
      using search True by (simp only: if_True)
    moreover have "Some (take k ?f) = None \<longleftrightarrow> length ?f < k" using True by simp
    moreover have "\<forall>idxs. Some (take k ?f) = Some idxs \<longrightarrow>
        length idxs = k \<and> distinct idxs \<and> (\<forall>i \<in> set idxs. i < n \<and> U i)"
      using len sub dist by blast
    ultimately show ?thesis unfolding card by blast
  next
    case False
    then have "slot_search use False n k head 0 [] = Some None" using search by (simp only: if_False)
    then show ?thesis using False unfolding card by (metis not_le option.distinct(1))
  qed
qed

subsection \<open>The search for a continuous block\<close>

definition block_at :: "(nat \<Rightarrow> bool) \<Rightarrow> nat \<Rightarrow> nat \<Rightarrow> nat \<Rightarrow> bool" where
  "block_at U n k a \<longleftrightarrow> a + k \<le> n \<and> (\<forall>i. a \<le> i \<and> i < a + k \<longrightarrow> U i)"

lemma slot_scan_cont:
  assumes "\<And>i. a \<le> i \<Longrightarrow> i < a + k \<Longrightarrow> use i = Some (U i)"
  shows "(\<forall>i. a \<le> i \<and> i < a + k \<longrightarrow> U i) \<and> slot_scan use True k (a, t, idxs) = Some (a + k, t + k, idxs @ [a..<a + k])
    \<or> (\<exists>j. a \<le> j \<and> j < a + k \<and> \<not> U j \<and> slot_scan use True k (a, t, idxs) = Some (Suc j, t + (Suc j - a), idxs @ [a..<j]))"
  using assms
proof (induction k arbitrary: a t idxs)
  case 0
  then show ?case by auto
next
  case (Suc k)
  have use: "use a = Some (U a)" by (rule Suc.prems) simp_all
  show ?case
  proof (cases "U a")
    case False
    then show ?thesis using use by (auto intro!: exI[of _ a])
  next
    case True
    have e: "[Suc a..<m] = tl [a..<m]" "a < m \<Longrightarrow> [a..<m] = a # [Suc a..<m]" for m by (simp_all add: upt_conv_Cons)
    have "(\<forall>i. Suc a \<le> i \<and> i < Suc a + k \<longrightarrow> U i)
        \<and> slot_scan use True k (Suc a, Suc t, idxs @ [a]) = Some (Suc a + k, Suc t + k, (idxs @ [a]) @ [Suc a..<Suc a + k])
      \<or> (\<exists>j. Suc a \<le> j \<and> j < Suc a + k \<and> \<not> U j
        \<and> slot_scan use True k (Suc a, Suc t, idxs @ [a]) = Some (Suc j, Suc t + (Suc j - Suc a), (idxs @ [a]) @ [Suc a..<j]))"
      by (rule Suc.IH) (use Suc.prems in auto)
    then show ?thesis
    proof
      assume l: "(\<forall>i. Suc a \<le> i \<and> i < Suc a + k \<longrightarrow> U i)
        \<and> slot_scan use True k (Suc a, Suc t, idxs @ [a]) = Some (Suc a + k, Suc t + k, (idxs @ [a]) @ [Suc a..<Suc a + k])"
      then have "\<forall>i. a \<le> i \<and> i < a + Suc k \<longrightarrow> U i" using True by (metis Suc_leI add_Suc_shift le_neq_implies_less)
      then show ?thesis using l use True by (simp add: upt_conv_Cons del: upt_Suc)
    next
      assume "\<exists>j. Suc a \<le> j \<and> j < Suc a + k \<and> \<not> U j
        \<and> slot_scan use True k (Suc a, Suc t, idxs @ [a]) = Some (Suc j, Suc t + (Suc j - Suc a), (idxs @ [a]) @ [Suc a..<j])"
      then obtain j where j: "Suc a \<le> j" "j < Suc a + k" "\<not> U j"
        "slot_scan use True k (Suc a, Suc t, idxs @ [a]) = Some (Suc j, Suc t + (Suc j - Suc a), (idxs @ [a]) @ [Suc a..<j])" by blast
      then have "slot_scan use True (Suc k) (a, t, idxs) = Some (Suc j, t + (Suc j - a), idxs @ [a..<j])"
        using use True by (simp add: upt_conv_Cons Suc_diff_le del: upt_Suc)
      then show ?thesis using j by (intro disjI2 exI[of _ j]) simp
    qed
  qed
qed

definition search_inv :: "(nat \<Rightarrow> bool) \<Rightarrow> nat \<Rightarrow> nat \<Rightarrow> nat \<Rightarrow> nat \<Rightarrow> nat \<Rightarrow> bool" where
  "search_inv U n k head h t \<longleftrightarrow> h \<le> n \<and>
     (h = head + t \<and> (\<forall>a. head \<le> a \<and> a < h \<longrightarrow> \<not> block_at U n k a)
      \<or> t = n - head + h \<and> (\<forall>a. a < h \<or> head \<le> a \<longrightarrow> \<not> block_at U n k a)
      \<or> (\<forall>a. \<not> block_at U n k a))"

lemma search_inv_wrap:
  assumes "search_inv U n k head h t" and "head \<le> n" and "h + k > n"
  shows "search_inv U n k head 0 (t + (n - h))"
proof -
  have late: "\<not> block_at U n k a" if "h \<le> a" for a using that assms(3) by (simp add: block_at_def)
  have later: "\<not> block_at U n k a" if "\<forall>a. head \<le> a \<and> a < h \<longrightarrow> \<not> block_at U n k a" "head \<le> a" for a
    using that late[of a] by (cases "a < h") auto
  have all: "\<not> block_at U n k a" if "\<forall>a. a < h \<or> head \<le> a \<longrightarrow> \<not> block_at U n k a" for a
    using that late[of a] by (cases "a < h") auto
  consider "h \<le> n" "h = head + t" "\<forall>a. head \<le> a \<and> a < h \<longrightarrow> \<not> block_at U n k a"
    | "\<forall>a. a < h \<or> head \<le> a \<longrightarrow> \<not> block_at U n k a" | "\<forall>a. \<not> block_at U n k a"
    using assms(1) unfolding search_inv_def by blast
  then show ?thesis
  proof cases
    case 1
    then have "t + (n - h) = n - head + 0" by simp
    moreover have "\<forall>a. a < 0 \<or> head \<le> a \<longrightarrow> \<not> block_at U n k a" using later[OF 1(3)] by blast
    ultimately show ?thesis unfolding search_inv_def by blast
  next
    case 2
    then show ?thesis using all unfolding search_inv_def by blast
  next
    case 3
    then show ?thesis unfolding search_inv_def by blast
  qed
qed

lemma search_inv_fail:
  assumes inv: "search_inv U n k head h t" and head: "head \<le> n" and j: "h \<le> j" "j < h + k" "h + k \<le> n" "\<not> U j"
  shows "search_inv U n k head (Suc j) (t + (Suc j - h))"
    and "n \<le> t + (Suc j - h) \<Longrightarrow> \<not> block_at U n k a"
proof -
  have hit: "\<not> block_at U n k a" if "h \<le> a" "a < Suc j" for a
    using that j by (auto simp: block_at_def intro!: exI[of _ j])
  have 1: "\<forall>a. head \<le> a \<and> a < Suc j \<longrightarrow> \<not> block_at U n k a" if "\<forall>a. head \<le> a \<and> a < h \<longrightarrow> \<not> block_at U n k a"
    using that hit by (metis not_le)
  have 2: "\<forall>a. a < Suc j \<or> head \<le> a \<longrightarrow> \<not> block_at U n k a" if "\<forall>a. a < h \<or> head \<le> a \<longrightarrow> \<not> block_at U n k a"
    using that hit by (metis not_le)
  show "search_inv U n k head (Suc j) (t + (Suc j - h))"
  proof -
    consider "h = head + t" "\<forall>a. head \<le> a \<and> a < h \<longrightarrow> \<not> block_at U n k a"
      | "t = n - head + h" "\<forall>a. a < h \<or> head \<le> a \<longrightarrow> \<not> block_at U n k a"
      | "\<forall>a. \<not> block_at U n k a"
      using inv unfolding search_inv_def by blast
    then show ?thesis
    proof cases
      case a: 1
      have "Suc j \<le> n" "Suc j = head + (t + (Suc j - h))" using a(1) j by linarith+
      then show ?thesis using 1[OF a(2)] unfolding search_inv_def by blast
    next
      case a: 2
      have "Suc j \<le> n" "t + (Suc j - h) = n - head + Suc j" using a(1) j by linarith+
      then show ?thesis using 2[OF a(2)] unfolding search_inv_def by blast
    next
      case a: 3
      have "Suc j \<le> n" using j by linarith
      then show ?thesis using a unfolding search_inv_def by blast
    qed
  qed
  assume n: "n \<le> t + (Suc j - h)"
  show "\<not> block_at U n k a"
  proof -
    consider "h = head + t" "\<forall>a. head \<le> a \<and> a < h \<longrightarrow> \<not> block_at U n k a"
      | "t = n - head + h" "\<forall>a. a < h \<or> head \<le> a \<longrightarrow> \<not> block_at U n k a"
      | "\<forall>a. \<not> block_at U n k a"
      using inv by (auto simp: search_inv_def)
    then show ?thesis
    proof cases
      case 1
      then have "head = 0" "Suc j = n" using n j by linarith+
      moreover have "a < n" if "block_at U n k a" using that j by (auto simp: block_at_def)
      ultimately show ?thesis using 1(2) hit by (metis le0 not_le)
    next
      case 2
      have "head \<le> Suc j" using 2(1) n j head by linarith
      then show ?thesis using 2(2) hit by (metis le_trans not_le)
    next
      case 3
      then show ?thesis by blast
    qed
  qed
qed

lemma slot_search_cont_run:
  assumes use: "\<And>i. i < n \<Longrightarrow> use i = Some (U i)" and head: "head \<le> n" and k: "0 < k" "k \<le> n"
  shows "search_inv U n k head h t \<Longrightarrow> \<exists>r. slot_search use True n k h t [] = Some r
    \<and> (case r of None \<Rightarrow> \<forall>a. \<not> block_at U n k a | Some idxs \<Rightarrow> \<exists>a. block_at U n k a \<and> idxs = [a..<a + k])"
proof (induction "2 * (n - t) + (if h + k > n then 1 else 0)" arbitrary: h t rule: less_induct)
  case less
  show ?case
  proof (cases "h + k > n")
    case True
    have "\<exists>r. slot_search use True n k 0 (t + (n - h)) [] = Some r
      \<and> (case r of None \<Rightarrow> \<forall>a. \<not> block_at U n k a | Some idxs \<Rightarrow> \<exists>a. block_at U n k a \<and> idxs = [a..<a + k])"
      using True k by (intro less.hyps search_inv_wrap[OF less.prems head True]) simp
    moreover have "slot_search use True n k h t [] = slot_search use True n k 0 (t + (n - h)) []"
      using True by (subst slot_search.simps) simp
    ultimately show ?thesis by simp
  next
    case False
    then have hk: "h + k \<le> n" by simp
    have unf: "slot_search use True n k h t [] = Option.bind (slot_scan use True k (h, t, [])) (\<lambda>(h, t, idxs).
       if length idxs = k then Some (Some idxs) else if t \<ge> n then Some None else slot_search use True n k h t [])"
      using hk by (subst slot_search.simps) (simp add: Let_def split_def cong: if_cong)
    have u: "use i = Some (U i)" if "h \<le> i" "i < h + k" for i using use that hk by simp
    consider "\<forall>i. h \<le> i \<and> i < h + k \<longrightarrow> U i" "slot_scan use True k (h, t, []) = Some (h + k, t + k, [h..<h + k])"
      | j where "h \<le> j" "j < h + k" "\<not> U j" "slot_scan use True k (h, t, []) = Some (Suc j, t + (Suc j - h), [h..<j])"
      using slot_scan_cont[where use = use and U = U and a = h and k = k and t = t and idxs = "[]", OF u] by auto
    then show ?thesis
    proof cases
      case 1
      then have "slot_search use True n k h t [] = Some (Some [h..<h + k])" unfolding unf by simp
      moreover have "block_at U n k h" using 1 hk by (simp add: block_at_def)
      ultimately show ?thesis by auto
    next
      case 2
      have len: "length [h..<j] \<noteq> k" using 2 by simp
      show ?thesis
      proof (cases "t + (Suc j - h) \<ge> n")
        case True
        then have "slot_search use True n k h t [] = Some None" unfolding unf using 2 len by simp
        then show ?thesis using search_inv_fail(2)[OF less.prems head 2(1,2) hk 2(3) True] by auto
      next
        case more: False
        then have eq: "slot_search use True n k h t [] = slot_search use True n k (Suc j) (t + (Suc j - h)) []"
          unfolding unf using 2 len by simp
        have "\<exists>r. slot_search use True n k (Suc j) (t + (Suc j - h)) [] = Some r
          \<and> (case r of None \<Rightarrow> \<forall>a. \<not> block_at U n k a | Some idxs \<Rightarrow> \<exists>a. block_at U n k a \<and> idxs = [a..<a + k])"
          using more 2 hk by (intro less.hyps search_inv_fail(1)[OF less.prems head 2(1,2) hk 2(3)]) auto
        then show ?thesis using eq by simp
      qed
    qed
  qed
qed

lemma slot_search_cont_result:
  assumes "\<And>i. i < n \<Longrightarrow> use i = Some (U i)" and "head \<le> n" and "0 < k" and "k \<le> n"
  shows "\<exists>r. slot_search use True n k head 0 [] = Some r
    \<and> (case r of None \<Rightarrow> \<forall>a. \<not> block_at U n k a | Some idxs \<Rightarrow> \<exists>a. block_at U n k a \<and> idxs = [a..<a + k])"
  using assms by (intro slot_search_cont_run) (auto simp: search_inv_def)

subsection \<open>Which cells a search may use\<close>

definition swa_defined :: "kv_cache \<Rightarrow> bool" where
  "swa_defined kv \<longleftrightarrow> (kv_swa_type kv = SWA_CHUNKED \<longrightarrow> kv_n_swa kv \<noteq> 0)"

definition positions_fit :: "kv_cache \<Rightarrow> bool" where
  "positions_fit kv \<longleftrightarrow> (\<forall>v \<in> set (kv_view kv). \<forall>p sh S. Cell p sh S \<in> set v \<longrightarrow> p < INT_MAX)"

text \<open>An empty cell, or one of a single sequence whose position the sliding window already masks.\<close>

definition usable :: "kv_cache \<Rightarrow> kv_cells \<Rightarrow> nat \<Rightarrow> bool" where
  "usable kv c i = (case cells_view c ! i of Empty \<Rightarrow> True
     | Cell p sh S \<Rightarrow> \<exists>q. S = {q} \<and> kv_is_masked_swa kv p (Max (seq_positions c q) + 1) = Some True)"

lemma masked_total:
  assumes "swa_defined kv" and "0 \<le> p0" and "0 \<le> p1"
  shows "\<exists>b. kv_is_masked_swa kv p0 p1 = Some b"
  using assms by (auto simp: kv_is_masked_swa_def is_masked_swa_def swa_defined_def Let_def split: swa_type.splits)

lemma can_use_cell_value:
  assumes ok: "table_ok n c" and i: "i < n" and swa: "swa_defined kv"
    and fit: "\<And>p sh S. Cell p sh S \<in> set (cells_view c) \<Longrightarrow> p < INT_MAX"
  shows "can_use_cell kv c i = Some (usable kv c i)"
proof -
  have c: "cells_ok c" and len: "length (c_pos c) = n" and named: "\<And>p sh. Cell p sh {} \<notin> set (cells_view c)"
    using ok by (auto simp: table_ok_def cells_size_def)
  have i': "i < length (c_pos c)" using i len by simp
  note d = cells_okD[OF c]
  show ?thesis
  proof (cases "cells_view c ! i")
    case Empty
    then have "c_pos c ! i = - 1" using i' by (simp add: view_Empty)
    then show ?thesis using i' Empty by (simp add: can_use_cell_def cells_is_empty_def usable_def)
  next
    case (Cell p sh S)
    then have f: "c_pos c ! i \<noteq> - 1" "p = c_pos c ! i" "S = c_seq c ! i" using i' by (auto simp: view_Cell)
    have p: "0 \<le> p" using d(4)[OF i'] f by linarith
    have e: "cells_is_empty i c = Some False" "cells_pos_get i c = Some p" "cells_seq_count i c = Some (card S)"
      using f i' p by (auto simp: cells_is_empty_def cells_pos_get_def cells_seq_count_def)
    show ?thesis
    proof (cases "card S = 1")
      case False
      then have "\<not> (\<exists>q. S = {q})" by auto
      then show ?thesis using e False Cell by (simp add: can_use_cell_def usable_def)
    next
      case True
      then obtain q where S: "S = {q}" by (auto simp: card_1_singleton_iff)
      have g: "cells_seq_get i c = Some q" by (rule seq_get_single[OF c i']) (use f S in simp)
      have "q \<in> c_seq c ! i" using f(3) S by blast
      then have sid: "seq_id_ok q" using d(5)[OF i'] by (auto simp: seq_set_ok_def)
      have "cells_view c ! i = Cell p sh {q}" using Cell S by simp
      then have mem: "p \<in> seq_positions c q" unfolding seq_positions_def using i' by blast
      then have "seq_positions c q \<noteq> {}" by (metis empty_iff)
      then have mx: "cells_seq_pos_max q c = Some (Max (seq_positions c q))"
        using seq_pos_extrema(2)[OF c sid] by simp
      have "Max (seq_positions c q) \<in> seq_positions c q"
        by (rule Max_in[OF seq_positions_finite]) (use mem in auto)
      then obtain j sh' S' where "j < length (c_pos c)" "cells_view c ! j = Cell (Max (seq_positions c q)) sh' S'"
        by (auto simp: seq_positions_def)
      then have up: "Max (seq_positions c q) < INT_MAX" using fit by (metis length_view nth_mem)
      have "p \<le> Max (seq_positions c q)" using mem seq_positions_finite by (rule Max_ge[rotated])
      then have "0 \<le> Max (seq_positions c q) + 1" "i32_ok (Max (seq_positions c q) + 1)"
        using p up by (auto simp: i32_ok_def)
      moreover obtain b where "kv_is_masked_swa kv p (Max (seq_positions c q) + 1) = Some b"
        using masked_total[OF swa p] calculation(1) by blast
      ultimately show ?thesis using e g mx True Cell S by (simp add: can_use_cell_def usable_def)
    qed
  qed
qed

lemma usable_no_swa: "kv_swa_type kv = SWA_NONE \<Longrightarrow> usable kv c i = (cells_view c ! i = Empty)"
  by (auto simp: usable_def kv_is_masked_swa_def is_masked_swa_def split: cell.splits)

subsection \<open>Finding a slot in a single stream\<close>

definition ubatch_ok :: "kv_cache \<Rightarrow> ubatch \<Rightarrow> bool" where
  "ubatch_ok kv ub \<longleftrightarrow> 0 < ub_n_tokens ub \<and> length (ub_pos ub) = ub_n_tokens ub \<and> length (ub_seq_id ub) = ub_n_tokens ub
     \<and> (\<forall>p \<in> set (ub_pos ub). 0 \<le> p \<and> p < INT_MAX)
     \<and> (\<forall>qs \<in> set (ub_seq_id ub). qs \<noteq> [] \<and> distinct qs \<and> (\<forall>q \<in> set qs. seq_id_ok q))
     \<and> ub_seq_id_unq ub \<noteq> [] \<and> seq_in_range kv (ub_seq_id_unq ub ! 0)"

definition single_stream :: "kv_cache \<Rightarrow> bool" where
  "single_stream kv \<longleftrightarrow> kv_ok kv \<and> kv_n_stream kv = 1 \<and> swa_defined kv \<and> positions_fit kv"

lemma single_streamD:
  assumes "single_stream kv"
  shows "kv_ok kv" "kv_n_stream kv = 1" "swa_defined kv" "table_ok (kv_get_size kv) (kv_tables kv ! 0)"
    "length (kv_tables kv) = 1" "length (kv_heads kv) = 1" "kv_heads kv ! 0 \<le> kv_get_size kv"
    "seq_in_range kv q \<Longrightarrow> stream_of kv q = 0"
    "Cell p sh S \<in> set (cells_view (kv_tables kv ! 0)) \<Longrightarrow> p < INT_MAX"
    "kv_view kv = [cells_view (kv_tables kv ! 0)]" "cells_size (kv_tables kv ! 0) = kv_get_size kv"
proof -
  show ok: "kv_ok kv" "kv_n_stream kv = 1" "swa_defined kv" using assms by (auto simp: single_stream_def)
  then show "table_ok (kv_get_size kv) (kv_tables kv ! 0)" "length (kv_tables kv) = 1" "length (kv_heads kv) = 1"
    "kv_heads kv ! 0 \<le> kv_get_size kv" by (auto simp: kv_ok_def)
  then show "cells_size (kv_tables kv ! 0) = kv_get_size kv" by (simp add: table_ok_def)
  show "stream_of kv q = 0" if "seq_in_range kv q" using stream_of_less[OF ok(1) that] ok(2) by simp
  obtain c where c: "kv_tables kv = [c]"
    using \<open>length (kv_tables kv) = 1\<close> by (metis One_nat_def Suc_length_conv length_0_conv)
  then show v: "kv_view kv = [cells_view (kv_tables kv ! 0)]" by (simp add: kv_view_def)
  show "p < INT_MAX" if "Cell p sh S \<in> set (cells_view (kv_tables kv ! 0))"
    using assms that unfolding single_stream_def positions_fit_def v by auto
qed

lemma find_slot_single:
  assumes kv: "single_stream kv" and ub: "ubatch_ok kv ub"
  defines "n \<equiv> kv_get_size kv" and "k \<equiv> ub_n_tokens ub" and "c \<equiv> kv_tables kv ! 0"
  shows "\<exists>r. kv_find_slot ub cont kv = Some (case r of None \<Rightarrow> slot_none
      | Some idxs \<Rightarrow> \<lparr>si_s0 = 0, si_s1 = 0, si_strm = [0], si_idxs = [idxs]\<rparr>)
    \<and> (\<not> cont \<longrightarrow> (r = None \<longleftrightarrow> card {i. i < n \<and> usable kv c i} < k)
        \<and> (\<forall>idxs. r = Some idxs \<longrightarrow> length idxs = k \<and> distinct idxs \<and> (\<forall>i \<in> set idxs. i < n \<and> usable kv c i)))
    \<and> (cont \<longrightarrow> (case r of None \<Rightarrow> \<forall>a. \<not> block_at (usable kv c) n k a
        | Some idxs \<Rightarrow> \<exists>a. block_at (usable kv c) n k a \<and> idxs = [a..<a + k]))"
proof -
  note d = single_streamD[OF kv]
  let ?q = "ub_seq_id_unq ub ! 0" and ?u = "can_use_cell kv c"
  have q: "ub_seq_id_unq ub \<noteq> []" "seq_in_range kv ?q" and k: "0 < k" using ub by (auto simp: ubatch_ok_def k_def)
  have st: "stream_of kv ?q = 0" by (rule d(8)[OF q(2)])
  have sz: "cells_size c = n" using d(11) by (simp add: c_def n_def)
  let ?h = "if kv_heads kv ! 0 > u32_add (cells_get_used c) (2 * k mod 2 ^ 32) then 0 else kv_heads kv ! 0"
  have h: "?h \<le> n" using d(7) by (simp add: n_def)
  have use: "?u i = Some (usable kv c i)" if "i < n" for i
    using d(3,4,9) that unfolding n_def c_def by (intro can_use_cell_value) auto
  have find: "kv_find_slot ub cont kv = (if k > n then Some slot_none
     else case slot_search ?u cont n k ?h 0 [] of None \<Rightarrow> None | Some None \<Rightarrow> Some slot_none
       | Some (Some idxs) \<Rightarrow> Some \<lparr>si_s0 = 0, si_s1 = 0, si_strm = [0], si_idxs = [idxs]\<rparr>)"
    using q d(2) st sz
    by (simp add: kv_find_slot_def slot_resize_def vector_resize_def Let_def k_def c_def[symmetric]
        split: option.split)
  show ?thesis
  proof (cases "k > n")
    case True
    have "card {i. i < n \<and> usable kv c i} \<le> card {..<n}" by (intro card_mono) auto
    then have "card {i. i < n \<and> usable kv c i} < k" using True by simp
    moreover have "\<not> block_at (usable kv c) n k a" for a using True by (simp add: block_at_def)
    ultimately show ?thesis using find True by (intro exI[of _ None]) simp
  next
    case False
    show ?thesis
    proof (cases cont)
      case True
      obtain r where r: "slot_search ?u True n k ?h 0 [] = Some r"
        "case r of None \<Rightarrow> \<forall>a. \<not> block_at (usable kv c) n k a | Some idxs \<Rightarrow> \<exists>a. block_at (usable kv c) n k a \<and> idxs = [a..<a + k]"
        using slot_search_cont_result[where use = "?u" and U = "usable kv c" and n = n and k = k and head = ?h, OF use h k] False by auto
      then show ?thesis using find False True by (intro exI[of _ r]) (auto split: option.splits)
    next
      case sep: False
      obtain r where r: "slot_search ?u False n k ?h 0 [] = Some r"
        "r = None \<longleftrightarrow> card {i. i < n \<and> usable kv c i} < k"
        "\<forall>idxs. r = Some idxs \<longrightarrow> length idxs = k \<and> distinct idxs \<and> (\<forall>i \<in> set idxs. i < n \<and> usable kv c i)"
        using slot_search_result[where use = "?u" and U = "usable kv c" and n = n and k = k and head = ?h, OF use h k] False by auto
      have "kv_find_slot ub cont kv = Some (case r of None \<Rightarrow> slot_none
          | Some idxs \<Rightarrow> \<lparr>si_s0 = 0, si_s1 = 0, si_strm = [0], si_idxs = [idxs]\<rparr>)"
        using find False sep r(1) by (simp split: option.split)
      then show ?thesis using r(2,3) sep by blast
    qed
  qed
qed

subsection \<open>Writing into empty cells\<close>

text \<open>The table after the first \<open>m\<close> tokens of a micro-batch are written to the cells \<open>idxs\<close>.\<close>

definition token_cell :: "ubatch \<Rightarrow> nat \<Rightarrow> cell" where
  "token_cell ub j = Cell (ub_pos ub ! j) 0 (set (ub_seq_id ub ! j))"

definition write_tokens :: "ubatch \<Rightarrow> nat list \<Rightarrow> nat \<Rightarrow> cell list \<Rightarrow> cell list" where
  "write_tokens ub idxs m v = fold (\<lambda>j v. v[idxs ! j := token_cell ub j]) [0..<m] v"

lemma write_tokens_0 [simp]: "write_tokens ub idxs 0 v = v"
  by (simp add: write_tokens_def)

lemma write_tokens_Suc: "write_tokens ub idxs (Suc m) v = (write_tokens ub idxs m v)[idxs ! m := token_cell ub m]"
  by (simp add: write_tokens_def)

lemma length_write_tokens [simp]: "length (write_tokens ub idxs m v) = length v"
  by (induction m) (simp_all add: write_tokens_Suc)

lemma write_tokens_other: "(\<And>j. j < m \<Longrightarrow> idxs ! j \<noteq> i) \<Longrightarrow> write_tokens ub idxs m v ! i = v ! i"
  by (induction m) (simp_all add: write_tokens_Suc)

lemma write_tokens_at:
  assumes "distinct idxs" and "m \<le> length idxs" and "j < m" and "idxs ! j < length v"
  shows "write_tokens ub idxs m v ! (idxs ! j) = token_cell ub j"
  using assms
proof (induction m)
  case (Suc m)
  then show ?case
    by (cases "j = m") (auto simp: write_tokens_Suc nth_list_update nth_eq_iff_index_eq)
qed simp

lemma set_write_tokens: "set (write_tokens ub idxs m v) \<subseteq> set v \<union> token_cell ub ` {..<m}"
proof (induction m)
  case (Suc m)
  have "set (write_tokens ub idxs (Suc m) v) \<subseteq> insert (token_cell ub m) (set (write_tokens ub idxs m v))"
    unfolding write_tokens_Suc by (rule set_update_subset_insert)
  then show ?case using Suc.IH by (auto simp: lessThan_Suc)
qed simp

definition slot_of :: "nat list \<Rightarrow> slot_info" where
  "slot_of idxs = \<lparr>si_s0 = 0, si_s1 = 0, si_strm = [0], si_idxs = [idxs]\<rparr>"

lemma slot_of_simps [simp]:
  "si_strm (slot_of idxs) = [0]" "si_idxs (slot_of idxs) = [idxs]" "slot_n_stream (slot_of idxs) = 1"
  "slot_size (slot_of idxs) = Some (length idxs)" "\<not> slot_empty (slot_of idxs)"
  by (simp_all add: slot_of_def slot_n_stream_def slot_size_def slot_empty_def)

text \<open>The cells chosen for a micro-batch.\<close>

definition cells_free :: "ubatch \<Rightarrow> nat list \<Rightarrow> cell list \<Rightarrow> bool" where
  "cells_free ub idxs v \<longleftrightarrow> length idxs = ub_n_tokens ub \<and> distinct idxs \<and> (\<forall>i \<in> set idxs. i < length v \<and> v ! i = Empty)"

lemma apply_tokens_value:
  assumes kv: "kv_tables kv = [c]" and c: "cells_ok c" and ub: "ubatch_ok kv0 ub" and free: "cells_free ub idxs (cells_view c)"
  shows "m \<le> length idxs \<Longrightarrow> \<exists>c'. fold_opt (apply_token (slot_of idxs) ub (length idxs) 0) [0..<m] (kv, rm)
      = Some (kv\<lparr>kv_tables := [c']\<rparr>, rm) \<and> cells_ok c' \<and> cells_view c' = write_tokens ub idxs m (cells_view c)"
proof (induction m)
  case 0
  have "kv\<lparr>kv_tables := [c]\<rparr> = kv" using kv by (simp add: kv_cache.equality)
  then show ?case using c by (intro exI[of _ c]) simp
next
  case (Suc m)
  then obtain c1 where c1: "fold_opt (apply_token (slot_of idxs) ub (length idxs) 0) [0..<m] (kv, rm) = Some (kv\<lparr>kv_tables := [c1]\<rparr>, rm)"
    "cells_ok c1" "cells_view c1 = write_tokens ub idxs m (cells_view c)" by auto
  have m: "m < length idxs" using Suc.prems by simp
  let ?i = "idxs ! m"
  have i: "?i < length (cells_view c)" "cells_view c ! ?i = Empty"
    using free m by (auto simp: cells_free_def)
  have "idxs ! j \<noteq> ?i" if "j < m" for j
    using free that m by (auto simp: cells_free_def nth_eq_iff_index_eq)
  then have e1: "cells_view c1 ! ?i = Empty" using i(2) by (simp add: c1(3) write_tokens_other)
  have i1: "?i < length (cells_view c1)" using i(1) by (simp only: c1(3) length_write_tokens)
  have n: "m < ub_n_tokens ub" using free m by (simp add: cells_free_def)
  then have tok: "0 \<le> ub_pos ub ! m" "distinct (ub_seq_id ub ! m)" "\<And>q. q \<in> set (ub_seq_id ub ! m) \<Longrightarrow> seq_id_ok q"
    "m < length (ub_pos ub)" "m < length (ub_seq_id ub)"
    using ub by (auto simp: ubatch_ok_def)
  obtain c2 where c2: "Option.bind (cells_pos_set ?i (ub_pos ub ! m) c1) (fold_opt (cells_seq_add ?i) (ub_seq_id ub ! m)) = Some c2"
    "cells_ok c2" "cells_view c2 = (cells_view c1)[?i := token_cell ub m]"
    using kv.write_cell[OF c1(2) i1 tok(1,2)] tok(3) e1 by (auto simp: token_cell_def)
  have "cells_is_empty ?i c1 = Some True"
    using i1 e1 by (simp add: cells_is_empty_def view_Empty)
  then have "apply_token (slot_of idxs) ub (length idxs) 0 m (kv\<lparr>kv_tables := [c1]\<rparr>, rm) = Some (kv\<lparr>kv_tables := [c2]\<rparr>, rm)"
    using c2(1) m tok(4,5) by (auto simp: apply_token_def bind_eq_Some_conv Let_def)
  then show ?case using c1(1,3) c2(2,3) by (intro exI[of _ c2]) (simp add: fold_opt_append write_tokens_Suc)
qed

definition empty_cells :: "cell list \<Rightarrow> nat set" where
  "empty_cells v = {i. i < length v \<and> v ! i = Empty}"

lemma empty_cells_write:
  assumes free: "cells_free ub idxs v"
  shows "empty_cells (write_tokens ub idxs (length idxs) v) = empty_cells v - set idxs"
    and "card (empty_cells (write_tokens ub idxs (length idxs) v)) + ub_n_tokens ub = card (empty_cells v)"
    and "i < length v \<Longrightarrow> v ! i \<noteq> Empty \<Longrightarrow> write_tokens ub idxs (length idxs) v ! i = v ! i"
proof -
  have other: "write_tokens ub idxs (length idxs) v ! i = v ! i" if "i \<notin> set idxs" for i
    using that by (intro write_tokens_other) auto
  show set_eq: "empty_cells (write_tokens ub idxs (length idxs) v) = empty_cells v - set idxs"
  proof (intro set_eqI)
    fix i
    show "i \<in> empty_cells (write_tokens ub idxs (length idxs) v) \<longleftrightarrow> i \<in> empty_cells v - set idxs"
    proof (cases "i \<in> set idxs")
      case True
      then obtain j where j: "j < length idxs" "idxs ! j = i" by (auto simp: in_set_conv_nth)
      then have "write_tokens ub idxs (length idxs) v ! i = token_cell ub j"
        using write_tokens_at[of idxs "length idxs" j v ub] free by (auto simp: cells_free_def)
      then show ?thesis using True by (simp add: empty_cells_def token_cell_def)
    qed (simp add: empty_cells_def other)
  qed
  have sub: "set idxs \<subseteq> empty_cells v" and n: "card (set idxs) = ub_n_tokens ub"
    using free by (auto simp: cells_free_def empty_cells_def distinct_card)
  have fin: "finite (empty_cells v)" by (simp add: empty_cells_def)
  show "card (empty_cells (write_tokens ub idxs (length idxs) v)) + ub_n_tokens ub = card (empty_cells v)"
    using card_mono[OF fin sub] n by (simp add: set_eq card_Diff_subset[OF finite_set sub])
  show "write_tokens ub idxs (length idxs) v ! i = v ! i" if "i < length v" "v ! i \<noteq> Empty"
    using other[of i] free that by (auto simp: cells_free_def)
qed

lemma fold_opt_idle: "(\<And>x. x \<in> set xs \<Longrightarrow> f x s = Some s) \<Longrightarrow> fold_opt f xs s = Some s"
  by (induction xs) auto

definition plain_cache :: "kv_cache \<Rightarrow> bool" where
  "plain_cache kv \<longleftrightarrow> single_stream kv \<and> kv_swa_type kv = SWA_NONE"

text \<open>Two caches with the same configuration, cells and heads.\<close>

definition same_cache :: "kv_cache \<Rightarrow> kv_cache \<Rightarrow> bool" where
  "same_cache k k' \<longleftrightarrow> kv_view k = kv_view k' \<and> kv_heads k = kv_heads k' \<and> kv_seq_to_stream k = kv_seq_to_stream k'
     \<and> kv_layers k = kv_layers k'"

lemma apply_ubatch_plain:
  assumes kv: "plain_cache kv" and ub: "ubatch_ok kv0 ub" and free: "cells_free ub idxs (kv_view kv ! 0)"
  shows "\<exists>kv'. kv_apply_ubatch (slot_of idxs) ub kv = Some kv' \<and> plain_cache kv'
    \<and> kv_view kv' = [write_tokens ub idxs (length idxs) (kv_view kv ! 0)] \<and> kv_heads kv' = [last idxs + 1]
    \<and> kv_seq_to_stream kv' = kv_seq_to_stream kv \<and> kv_layers kv' = kv_layers kv"
proof -
  have ss: "single_stream kv" and swa: "kv_swa_type kv = SWA_NONE" using kv by (auto simp: plain_cache_def)
  note d = single_streamD[OF ss]
  obtain c where c: "kv_tables kv = [c]" using d(5) by (metis One_nat_def Suc_length_conv length_0_conv)
  obtain h where h: "kv_heads kv = [h]" using d(6) by (metis One_nat_def Suc_length_conv length_0_conv)
  have v0: "kv_view kv ! 0 = cells_view c" using c by (simp add: kv_view_def)
  have cok: "cells_ok c" "cells_size c = kv_get_size kv" "\<And>p sh. Cell p sh {} \<notin> set (cells_view c)"
    using d(4) c by (auto simp: table_ok_def)
  let ?n = "length idxs"
  have n: "?n = ub_n_tokens ub" "0 < ?n" using free ub by (auto simp: cells_free_def ubatch_ok_def)
  obtain c' where c': "fold_opt (apply_token (slot_of idxs) ub ?n 0) [0..<?n] (kv, \<lambda>_. - 1) = Some (kv\<lparr>kv_tables := [c']\<rparr>, \<lambda>_. - 1)"
    "cells_ok c'" "cells_view c' = write_tokens ub idxs ?n (cells_view c)"
    using apply_tokens_value[OF c cok(1) ub free[unfolded v0], of ?n "\<lambda>_. - 1"] by auto
  let ?kv1 = "kv\<lparr>kv_tables := [c']\<rparr>" and ?kv2 = "kv\<lparr>kv_tables := [c'], kv_heads := [last idxs + 1]\<rparr>"
  have purge: "fold_opt (purge_seq (\<lambda>_. - 1)) xs ?kv1 = Some ?kv1" for xs
    by (rule fold_opt_idle) (simp add: purge_seq_def)
  have "idxs \<noteq> []" using n(2) by auto
  then have heads: "fold_opt (move_head (slot_of idxs)) [0..<1] ?kv1 = Some ?kv2"
    using h by (simp add: move_head_def)
  have run: "kv_apply_ubatch (slot_of idxs) ub kv = Some ?kv2"
    using c'(1) purge heads n(1) by (simp add: kv_apply_ubatch_def bind_eq_Some_conv del: upto.simps)
  have len: "length (c_pos c') = length (c_pos c)" using c'(3) by (metis length_view length_write_tokens)
  have sub: "set (cells_view c') \<subseteq> set (cells_view c) \<union> token_cell ub ` {..<?n}"
    unfolding c'(3) by (rule set_write_tokens)
  have tok: "token_cell ub j \<noteq> Cell p sh {}" "token_cell ub j = Cell p sh S \<Longrightarrow> p < INT_MAX" if "j < ?n" for j p sh S
    using ub that n(1) by (auto simp: ubatch_ok_def token_cell_def)
  have old_or_new: "Cell p sh S \<in> set (cells_view c) \<or> (\<exists>j < ?n. token_cell ub j = Cell p sh S)"
    if "Cell p sh S \<in> set (cells_view c')" for p sh S
    using subsetD[OF sub that] by (auto simp: image_iff)
  then have "Cell p sh {} \<notin> set (cells_view c')" for p sh using cok(3)[of p sh] tok(1)[of _ p sh] by blast
  then have t': "table_ok (kv_get_size kv) c'"
    using c'(2) cok(2) len by (simp add: table_ok_def cells_size_def)
  have "last idxs < length (cells_view c)" using free \<open>idxs \<noteq> []\<close> v0 by (auto simp: cells_free_def)
  then have lh: "last idxs + 1 \<le> kv_get_size kv" using cok(2) by (simp add: cells_size_def)
  have seqs: "kv_seq_to_stream kv ! 0 = 0" using d(1,2) by (auto simp: kv_ok_def)
  have gs: "kv_get_size ?kv2 = kv_get_size kv" using seqs c cok(2) t' by (simp add: kv_get_size_def table_ok_def)
  have ok2: "kv_ok ?kv2" using d(1,2) gs t' lh by (auto simp: kv_ok_def)
  have "positions_fit ?kv2"
  proof -
    have "p < INT_MAX" if "Cell p sh S \<in> set (cells_view c')" for p sh S
      using old_or_new[OF that] d(9)[of p sh S] c tok(2)[of _ p sh S] by auto
    then show ?thesis by (simp add: positions_fit_def kv_view_def)
  qed
  then have "plain_cache ?kv2" using ok2 d(2,3) swa by (simp add: plain_cache_def single_stream_def swa_defined_def)
  then show ?thesis using run c'(3) v0 by (auto simp: kv_view_def)
qed

subsection \<open>Placing a batch and undoing it\<close>

lemma same_cache_view: "same_cache k k' \<Longrightarrow> kv_view k = kv_view k'"
  by (simp add: same_cache_def)

lemma plain_tables:
  assumes "plain_cache kv"
  obtains c h where "kv_tables kv = [c]" "kv_heads kv = [h]" "cells_ok c" "kv_view kv = [cells_view c]"
    "cells_size c = kv_get_size kv" "h \<le> kv_get_size kv"
proof -
  have ss: "single_stream kv" using assms by (simp add: plain_cache_def)
  note d = single_streamD[OF ss]
  obtain c where c: "kv_tables kv = [c]" using d(5) by (metis One_nat_def Suc_length_conv length_0_conv)
  obtain h where h: "kv_heads kv = [h]" using d(6) by (metis One_nat_def Suc_length_conv length_0_conv)
  show thesis using that[OF c h] d(4,7,10) c h by (simp add: table_ok_def)
qed

lemma find_slot_plain:
  assumes kv: "plain_cache kv" and ub: "ubatch_ok kv ub"
  shows "kv_find_slot ub False kv = Some slot_none \<and> card (empty_cells (kv_view kv ! 0)) < ub_n_tokens ub
    \<or> (\<exists>idxs. kv_find_slot ub False kv = Some (slot_of idxs) \<and> cells_free ub idxs (kv_view kv ! 0))"
proof -
  have ss: "single_stream kv" and swa: "kv_swa_type kv = SWA_NONE" using kv by (auto simp: plain_cache_def)
  obtain c h where c: "kv_tables kv = [c]" "kv_view kv = [cells_view c]" "cells_size c = kv_get_size kv"
    using plain_tables[OF kv] by blast
  have n: "kv_get_size kv = length (cells_view c)" using c(3) by (simp add: cells_size_def)
  have u: "usable kv c i = (cells_view c ! i = Empty)" for i by (rule usable_no_swa[OF swa])
  obtain r where r: "kv_find_slot ub False kv = Some (case r of None \<Rightarrow> slot_none | Some idxs \<Rightarrow> slot_of idxs)"
    "r = None \<longleftrightarrow> card {i. i < length (cells_view c) \<and> cells_view c ! i = Empty} < ub_n_tokens ub"
    "\<forall>idxs. r = Some idxs \<longrightarrow> length idxs = ub_n_tokens ub \<and> distinct idxs
       \<and> (\<forall>i \<in> set idxs. i < length (cells_view c) \<and> cells_view c ! i = Empty)"
    using find_slot_single[OF ss ub, of False] c(1) unfolding n slot_of_def by (auto simp: u)
  show ?thesis
  proof (cases r)
    case None
    then show ?thesis using r(1,2) c(2) by (simp add: empty_cells_def)
  next
    case (Some idxs)
    then have "cells_free ub idxs (kv_view kv ! 0)" using r(3) c(2) by (simp add: cells_free_def)
    then show ?thesis using r(1) Some by auto
  qed
qed

text \<open>Undoing one placed micro-batch: the cells it was given were empty before.\<close>

lemma restore_placed_plain:
  assumes kv: "plain_cache kv" and free: "cells_free ub idxs (kv_view kv ! 0)" and saved: "save_slot (slot_of idxs) kv = Some saved"
    and k: "plain_cache k" "kv_view k = [write_tokens ub idxs (length idxs) (kv_view kv ! 0)]"
      "kv_seq_to_stream k = kv_seq_to_stream kv" "kv_layers k = kv_layers kv"
  shows "\<exists>k'. restore_placed (slot_of idxs, kv_heads kv, saved) k = Some k' \<and> plain_cache k' \<and> same_cache k' kv"
proof -
  obtain c h where c: "kv_tables kv = [c]" "kv_heads kv = [h]" "cells_ok c" "kv_view kv = [cells_view c]"
    "cells_size c = kv_get_size kv" "h \<le> kv_get_size kv" using plain_tables[OF kv] by blast
  obtain c2 h2 where c2: "kv_tables k = [c2]" "kv_heads k = [h2]" "cells_ok c2" "kv_view k = [cells_view c2]"
    "cells_size c2 = kv_get_size k" using plain_tables[OF k(1)] by blast
  obtain sv where sv: "cells_cp idxs c = Some sv" "saved = [sv]"
    using saved c(1) by (auto simp: save_slot_def bind_eq_Some_conv split: option.splits)
  have v2: "cells_view c2 = write_tokens ub idxs (length idxs) (cells_view c)" using k(2) c2(4) c(4) by simp
  have len: "length (c_pos c2) = length (c_pos c)" using v2 by (metis length_view length_write_tokens)
  have still: "c_shift c2 ! i = 0" if "i \<in> set idxs" for i
  proof -
    obtain j where j: "j < length idxs" "idxs ! j = i" using \<open>i \<in> set idxs\<close> by (auto simp: in_set_conv_nth)
    have i: "i < length (cells_view c)" using free that c(4) by (simp add: cells_free_def)
    then have "cells_view c2 ! i = token_cell ub j"
      unfolding v2 using write_tokens_at[of idxs "length idxs" j "cells_view c" ub] free j by (simp add: cells_free_def)
    then have "cells_view c2 ! i = Cell (ub_pos ub ! j) 0 (set (ub_seq_id ub ! j))" by (simp add: token_cell_def)
    then show ?thesis using i len view_Cell[of i c2, THEN iffD1] by simp
  qed
  obtain c3 where c3: "cells_set idxs sv c2 = Some c3" "cells_ok c3" "length (c_pos c3) = length (c_pos c)"
    "\<forall>i < length (c_pos c). cells_view c3 ! i = (if i \<in> set idxs then cells_view c ! i else cells_view c2 ! i)"
    using cells_restore[OF c(3) sv(1) c2(3) len still] by blast
  have "cells_view c3 ! i = cells_view c ! i" if "i < length (c_pos c)" for i
  proof (cases "i \<in> set idxs")
    case False
    then have "idxs ! j \<noteq> i" if "j < length idxs" for j using that by (metis nth_mem)
    then have "cells_view c2 ! i = cells_view c ! i" unfolding v2 by (intro write_tokens_other)
    then show ?thesis using c3(4) that False by simp
  qed (use c3(4) that in simp)
  then have v3: "cells_view c3 = cells_view c" using c3(3) by (intro nth_equalityI) simp_all
  let ?k' = "put_stream 0 c3 h k"
  have run: "restore_placed (slot_of idxs, kv_heads kv, saved) k = Some ?k'"
    using c(2) sv(2) c2(1) c3(1) by (simp add: restore_placed_def restore_stream_def)
  have ssk: "single_stream k" "kv_swa_type k = SWA_NONE" using k(1) by (simp_all add: plain_cache_def)
  have size: "kv_get_size kv = kv_get_size k" using c(5) c2(5) len by (simp add: cells_size_def)
  have "single_stream kv" using kv by (simp add: plain_cache_def)
  note dkv = single_streamD[OF this]
  have t3: "table_ok (kv_get_size k) c3"
    using c3(2,3) c(1,5) dkv(4) v3 size by (simp add: table_ok_def cells_size_def)
  have ok': "kv_ok ?k'"
    using single_streamD(1,2)[OF ssk(1)] t3 c(6) size by (intro kv_ok_put) simp_all
  have vk': "kv_view ?k' = kv_view kv" using c2(4) c(4) v3 by simp
  have "positions_fit ?k'" using kv unfolding plain_cache_def single_stream_def positions_fit_def vk' by blast
  then have "plain_cache ?k'"
    using ok' ssk single_streamD(2,3)[OF ssk(1)] by (simp add: plain_cache_def single_stream_def swa_defined_def)
  then show ?thesis using run vk' c(2) c2(2) k(3,4) by (auto simp: same_cache_def)
qed

lemma save_slot_plain:
  assumes kv: "plain_cache kv" and free: "cells_free ub idxs (kv_view kv ! 0)"
  shows "\<exists>saved. save_slot (slot_of idxs) kv = Some saved"
proof -
  obtain c h where c: "kv_tables kv = [c]" "cells_ok c" "kv_view kv = [cells_view c]" using plain_tables[OF kv] by blast
  have "i < length (c_pos c) \<and> c_shift c ! i = 0" if "i \<in> set idxs" for i
    using free that c(3) cells_okD(7)[OF c(2), of i] view_Empty[of i c] by (auto simp: cells_free_def)
  then show ?thesis using c(1) by (simp add: save_slot_def cells_cp_def list_all_iff Let_def)
qed

text \<open>
  The dry run over a list of micro-batches, generalised over what was placed before: undoing it leads
  back, and replaying the slots it found over an equal cache works and reaches the same cells.
\<close>

fun apply_all :: "(slot_info \<times> ubatch) list \<Rightarrow> kv_cache \<Rightarrow> kv_cache option" where
  "apply_all [] kv = Some kv"
| "apply_all (x # xs) kv = (case kv_apply_ubatch (fst x) (snd x) kv of None \<Rightarrow> None | Some kv' \<Rightarrow> apply_all xs kv')"

lemma prepare_place_plain:
  assumes "plain_cache kv" and "\<And>ub. ub \<in> set ubs \<Longrightarrow> ubatch_ok kv ub"
  shows "\<exists>ok rs ss kv'. prepare_place ubs res states kv = Some (ok, res @ rs, states @ ss, kv')
    \<and> plain_cache kv' \<and> kv_seq_to_stream kv' = kv_seq_to_stream kv \<and> kv_layers kv' = kv_layers kv
    \<and> (\<exists>k'. fold_opt restore_placed (rev ss) kv' = Some k' \<and> plain_cache k' \<and> same_cache k' kv)
    \<and> (ok \<longrightarrow> length rs = length ubs \<and> length ss = length ubs)
    \<and> (ok \<longleftrightarrow> (\<Sum>ub\<leftarrow>ubs. ub_n_tokens ub) \<le> card (empty_cells (kv_view kv ! 0)))
    \<and> (ok \<longrightarrow> card (empty_cells (kv_view kv' ! 0)) + (\<Sum>ub\<leftarrow>ubs. ub_n_tokens ub) = card (empty_cells (kv_view kv ! 0))
         \<and> (\<forall>i < length (kv_view kv ! 0). kv_view kv ! 0 ! i \<noteq> Empty \<longrightarrow> kv_view kv' ! 0 ! i = kv_view kv ! 0 ! i))
    \<and> (ok \<longrightarrow> (\<forall>k. plain_cache k \<and> same_cache k kv \<longrightarrow>
         (\<exists>k'. apply_all (zip rs ubs) k = Some k' \<and> plain_cache k' \<and> same_cache k' kv')))"
  using assms
proof (induction ubs arbitrary: kv res states)
  case Nil
  have "same_cache kv kv" by (simp add: same_cache_def)
  then show ?case using Nil.prems(1) by (intro exI[of _ True] exI[of _ "[]"] exI[of _ kv]) auto
next
  case (Cons ub ubs)
  have ub: "ubatch_ok kv ub" using Cons.prems(2) by simp
  have refl: "same_cache kv kv" by (simp add: same_cache_def)
  from find_slot_plain[OF Cons.prems(1) ub] show ?case
  proof
    assume none: "kv_find_slot ub False kv = Some slot_none \<and> card (empty_cells (kv_view kv ! 0)) < ub_n_tokens ub"
    then have "prepare_place (ub # ubs) res states kv = Some (False, res @ [], states @ [], kv)"
      by (simp add: slot_empty_def slot_none_def)
    then show ?thesis using Cons.prems(1) refl none by (intro exI[of _ False] exI[of _ "[]"] exI[of _ kv]) auto
  next
    assume "\<exists>idxs. kv_find_slot ub False kv = Some (slot_of idxs) \<and> cells_free ub idxs (kv_view kv ! 0)"
    then obtain idxs where slot: "kv_find_slot ub False kv = Some (slot_of idxs)" and free: "cells_free ub idxs (kv_view kv ! 0)" by blast
    obtain saved where saved: "save_slot (slot_of idxs) kv = Some saved" using save_slot_plain[OF Cons.prems(1) free] by blast
    obtain k1 where k1: "kv_apply_ubatch (slot_of idxs) ub kv = Some k1" "plain_cache k1"
      "kv_view k1 = [write_tokens ub idxs (length idxs) (kv_view kv ! 0)]" "kv_heads k1 = [last idxs + 1]"
      "kv_seq_to_stream k1 = kv_seq_to_stream kv" "kv_layers k1 = kv_layers kv"
      using apply_ubatch_plain[OF Cons.prems(1) ub free] by blast
    have "ubatch_ok k1 u" if "u \<in> set ubs" for u
      using Cons.prems(2)[of u] that k1(5) by (simp add: ubatch_ok_def seq_in_range_def)
    then obtain ok rs ss kv' where
      ih: "prepare_place ubs (res @ [slot_of idxs]) (states @ [(slot_of idxs, kv_heads kv, saved)]) k1
          = Some (ok, (res @ [slot_of idxs]) @ rs, (states @ [(slot_of idxs, kv_heads kv, saved)]) @ ss, kv')"
        "plain_cache kv'" "kv_seq_to_stream kv' = kv_seq_to_stream k1" "kv_layers kv' = kv_layers k1"
        "ok \<longrightarrow> length rs = length ubs \<and> length ss = length ubs"
        "ok \<longleftrightarrow> (\<Sum>ub\<leftarrow>ubs. ub_n_tokens ub) \<le> card (empty_cells (kv_view k1 ! 0))"
        "ok \<longrightarrow> card (empty_cells (kv_view kv' ! 0)) + (\<Sum>ub\<leftarrow>ubs. ub_n_tokens ub) = card (empty_cells (kv_view k1 ! 0))
          \<and> (\<forall>i < length (kv_view k1 ! 0). kv_view k1 ! 0 ! i \<noteq> Empty \<longrightarrow> kv_view kv' ! 0 ! i = kv_view k1 ! 0 ! i)"
    and undone: "\<exists>k'. fold_opt restore_placed (rev ss) kv' = Some k' \<and> plain_cache k' \<and> same_cache k' k1"
    and replay: "ok \<longrightarrow> (\<forall>k. plain_cache k \<and> same_cache k k1 \<longrightarrow>
         (\<exists>k'. apply_all (zip rs ubs) k = Some k' \<and> plain_cache k' \<and> same_cache k' kv'))"
      using Cons.IH[OF k1(2), of "res @ [slot_of idxs]" "states @ [(slot_of idxs, kv_heads kv, saved)]"] by blast
    have run: "prepare_place (ub # ubs) res states kv
        = Some (ok, res @ slot_of idxs # rs, states @ (slot_of idxs, kv_heads kv, saved) # ss, kv')"
      using slot saved k1(1) ih(1) by simp
    obtain k2 where k2: "fold_opt restore_placed (rev ss) kv' = Some k2" "plain_cache k2" "same_cache k2 k1" using undone by blast
    obtain k3 where k3: "restore_placed (slot_of idxs, kv_heads kv, saved) k2 = Some k3" "plain_cache k3" "same_cache k3 kv"
      using restore_placed_plain[OF Cons.prems(1) free saved k2(2)] k2(3) k1(3,5,6) by (auto simp: same_cache_def)
    have undo: "fold_opt restore_placed (rev ((slot_of idxs, kv_heads kv, saved) # ss)) kv' = Some k3"
      using k2(1) k3(1) by (simp add: fold_opt_append)
    have again: "\<exists>k'. apply_all (zip (slot_of idxs # rs) (ub # ubs)) k = Some k' \<and> plain_cache k' \<and> same_cache k' kv'"
      if succ: "ok" and pk: "plain_cache k" and sk: "same_cache k kv" for k
    proof -
      have "cells_free ub idxs (kv_view k ! 0)" using free sk by (simp add: same_cache_def)
      then obtain k' where k': "kv_apply_ubatch (slot_of idxs) ub k = Some k'" "plain_cache k'" "same_cache k' k1"
        using apply_ubatch_plain[OF pk ub] sk k1(3,4,5,6) by (fastforce simp: same_cache_def)
      then show ?thesis using replay succ by auto
    qed
    have v1: "kv_view k1 ! 0 = write_tokens ub idxs (length idxs) (kv_view kv ! 0)" using k1(3) by simp
    note w = empty_cells_write[OF free, folded v1]
    have len1: "length (kv_view k1 ! 0) = length (kv_view kv ! 0)" by (simp add: v1)
    have count: "ok \<longleftrightarrow> (\<Sum>ub\<leftarrow>ub # ubs. ub_n_tokens ub) \<le> card (empty_cells (kv_view kv ! 0))"
      using ih(6) w(2) by simp linarith
    have after: "ok \<longrightarrow> card (empty_cells (kv_view kv' ! 0)) + (\<Sum>ub\<leftarrow>ub # ubs. ub_n_tokens ub) = card (empty_cells (kv_view kv ! 0))
      \<and> (\<forall>i < length (kv_view kv ! 0). kv_view kv ! 0 ! i \<noteq> Empty \<longrightarrow> kv_view kv' ! 0 ! i = kv_view kv ! 0 ! i)"
      using ih(7) w(2,3) len1 by auto
    show ?thesis
      using run undo k3(2,3) ih(2-5) k1(5,6) again count after
      by (intro exI[of _ ok] exI[of _ "slot_of idxs # rs"] exI[of _ "(slot_of idxs, kv_heads kv, saved) # ss"] exI[of _ kv'])
        (simp del: rev.simps)
  qed
qed

subsection \<open>The attention window\<close>

lemma ggml_pad_value:
  assumes "k < 32" and "unat x + 2 ^ k \<le> 2 ^ 32"
  shows "unat (ggml_pad x (2 ^ k)) = (unat x + (2 ^ k - 1)) div 2 ^ k * 2 ^ k"
proof -
  have "(2 :: nat) ^ k < 2 ^ 32" using assms(1) by (rule power_strict_increasing) simp
  then have "unat (word_of_nat (2 ^ k) :: u32) = 2 ^ k" using assms(1) by (simp only: unsigned_of_nat) (simp add: take_bit_nat_eq_self)
  then have p: "unat (2 ^ k :: u32) = 2 ^ k" by (simp only: of_nat_power of_nat_numeral)
  have pos: "(1 :: nat) \<le> 2 ^ k" by simp
  have one: "unat (2 ^ k - 1 :: u32) = 2 ^ k - 1"
    using assms(1) p by (subst unat_sub) (simp_all add: word_le_nat_alt)
  have "unat x + unat (2 ^ k - 1 :: u32) < 2 ^ LENGTH(32)" unfolding one using assms(2) pos by simp
  then have "unat (x + (2 ^ k - 1)) = unat x + unat (2 ^ k - 1 :: u32)" by (rule unat_add_lem[THEN iffD1])
  moreover have "x + 2 ^ k - 1 = x + (2 ^ k - 1)" by simp
  ultimately have y: "unat (x + 2 ^ k - 1) = unat x + (2 ^ k - 1)" unfolding one by (simp only:)
  have "unat (ggml_pad x (2 ^ k)) = unat (x + 2 ^ k - 1) div 2 ^ k * 2 ^ k"
    by (simp only: ggml_pad_def mask_eq_exp_minus_1[symmetric] unat_and_not_mask)
  then show ?thesis unfolding y .
qed

lemma ggml_pad_ge:
  assumes "k < 32" and "unat x + 2 ^ k \<le> 2 ^ 32"
  shows "unat x \<le> unat (ggml_pad x (2 ^ k))"
proof -
  have "unat x + (2 ^ k - 1) = (unat x + (2 ^ k - 1)) div 2 ^ k * 2 ^ k + (unat x + (2 ^ k - 1)) mod 2 ^ k"
    by (rule div_mult_mod_eq[symmetric])
  moreover have "(unat x + (2 ^ k - 1)) mod 2 ^ k < 2 ^ k" by simp
  ultimately show ?thesis unfolding ggml_pad_value[OF assms] by linarith
qed

lemma used_below_max:
  assumes "table_ok n c" and "i < n" and "cells_view c ! i \<noteq> Empty"
  shows "i < cells_used_max_p1 c" and "cells_used_max_p1 c \<le> n"
proof -
  have ok: "cells_ok c" and l: "length (c_pos c) = n" using assms(1) by (auto simp: table_ok_def cells_size_def)
  have mem: "i \<in> c_used c" using used_is_nonempty[OF ok] assms(2,3) l by simp
  then have "i \<le> Max (c_used c)" using used_finite[OF ok] by simp
  then show "i < cells_used_max_p1 c" using mem by (auto simp: cells_used_max_p1_def)
  have "Max (c_used c) \<in> c_used c" using used_finite[OF ok] mem by (intro Max_in) auto
  then show "cells_used_max_p1 c \<le> n" using used_is_nonempty[OF ok] l mem by (auto simp: cells_used_max_p1_def)
qed

lemma fold_max_ge:
  assumes "x \<in> set xs"
  shows "f x \<le> fold (\<lambda>x r. max (f x) r) xs (r :: nat)"
proof -
  have mono: "r \<le> fold (\<lambda>x r. max (f x) r) xs r" for r xs
    by (induction xs arbitrary: r) (auto intro: order_trans[OF max.cobounded2])
  show ?thesis using assms
    by (induction xs arbitrary: r) (auto intro: order_trans[OF max.cobounded1 mono])
qed

lemma fold_max_le: "(\<And>x. x \<in> set xs \<Longrightarrow> f x \<le> n) \<Longrightarrow> r \<le> n \<Longrightarrow> fold (\<lambda>x r. max (f x) r) xs (r :: nat) \<le> n"
  by (induction xs arbitrary: r) auto

subsection \<open>Correctness of placement\<close>

text \<open>
  Property C19. In a single-stream cache the search always returns. Searching separate cells, it fails
  exactly when fewer cells are usable (empty, or of one sequence and masked by its sliding window)
  than the micro-batch has tokens, and otherwise gives that many distinct usable cells; searching a
  continuous block, it fails exactly when no block of usable cells is long enough.
\<close>

theorem find_slot_complete:
  assumes "single_stream kv" and "ubatch_ok kv ub"
  defines "n \<equiv> kv_get_size kv" and "k \<equiv> ub_n_tokens ub" and "free \<equiv> usable kv (kv_tables kv ! 0)"
  shows "(if card {i. i < n \<and> free i} < k then kv_find_slot ub False kv = Some slot_none
     else \<exists>idxs. kv_find_slot ub False kv = Some \<lparr>si_s0 = 0, si_s1 = 0, si_strm = [0], si_idxs = [idxs]\<rparr>
       \<and> length idxs = k \<and> distinct idxs \<and> (\<forall>i \<in> set idxs. i < n \<and> free i))
   \<and> (if \<forall>a. \<not> block_at free n k a then kv_find_slot ub True kv = Some slot_none
     else \<exists>a. block_at free n k a
       \<and> kv_find_slot ub True kv = Some \<lparr>si_s0 = 0, si_s1 = 0, si_strm = [0], si_idxs = [[a..<a + k]]\<rparr>)"
proof -
  obtain r where r: "kv_find_slot ub False kv = Some (case r of None \<Rightarrow> slot_none
      | Some idxs \<Rightarrow> \<lparr>si_s0 = 0, si_s1 = 0, si_strm = [0], si_idxs = [idxs]\<rparr>)"
    "r = None \<longleftrightarrow> card {i. i < n \<and> free i} < k"
    "\<forall>idxs. r = Some idxs \<longrightarrow> length idxs = k \<and> distinct idxs \<and> (\<forall>i \<in> set idxs. i < n \<and> free i)"
    using find_slot_single[OF assms(1,2), of False] unfolding n_def k_def free_def by blast
  have sep: "if card {i. i < n \<and> free i} < k then kv_find_slot ub False kv = Some slot_none
     else \<exists>idxs. kv_find_slot ub False kv = Some \<lparr>si_s0 = 0, si_s1 = 0, si_strm = [0], si_idxs = [idxs]\<rparr>
       \<and> length idxs = k \<and> distinct idxs \<and> (\<forall>i \<in> set idxs. i < n \<and> free i)"
  proof (cases r)
    case None
    have "card {i. i < n \<and> free i} < k" using r(2) None by blast
    moreover have "kv_find_slot ub False kv = Some slot_none" using r(1) None by (simp only: option.case)
    ultimately show ?thesis by (simp only: if_True)
  next
    case (Some idxs)
    have c: "\<not> card {i. i < n \<and> free i} < k" using r(2) Some by blast
    have f: "kv_find_slot ub False kv = Some \<lparr>si_s0 = 0, si_s1 = 0, si_strm = [0], si_idxs = [idxs]\<rparr>"
      using r(1) Some by (simp only: option.case)
    have "length idxs = k \<and> distinct idxs \<and> (\<forall>i \<in> set idxs. i < n \<and> free i)" using r(3) Some by blast
    with c f show ?thesis by (simp only: if_False) blast
  qed
  obtain r where r: "kv_find_slot ub True kv = Some (case r of None \<Rightarrow> slot_none
      | Some idxs \<Rightarrow> \<lparr>si_s0 = 0, si_s1 = 0, si_strm = [0], si_idxs = [idxs]\<rparr>)"
    "case r of None \<Rightarrow> \<forall>a. \<not> block_at free n k a | Some idxs \<Rightarrow> \<exists>a. block_at free n k a \<and> idxs = [a..<a + k]"
    using find_slot_single[OF assms(1,2), of True] unfolding n_def k_def free_def by blast
  have "if \<forall>a. \<not> block_at free n k a then kv_find_slot ub True kv = Some slot_none
     else \<exists>a. block_at free n k a
       \<and> kv_find_slot ub True kv = Some \<lparr>si_s0 = 0, si_s1 = 0, si_strm = [0], si_idxs = [[a..<a + k]]\<rparr>"
  proof (cases r)
    case None
    have none: "\<forall>a. \<not> block_at free n k a" using r(2) unfolding None option.case .
    have "kv_find_slot ub True kv = Some slot_none" using r(1) None by (simp only: option.case)
    then show ?thesis unfolding if_P[OF none] .
  next
    case (Some idxs)
    then obtain a where a: "block_at free n k a" "idxs = [a..<a + k]" using r(2) by (simp only: option.case) blast
    have "kv_find_slot ub True kv = Some \<lparr>si_s0 = 0, si_s1 = 0, si_strm = [0], si_idxs = [[a..<a + k]]\<rparr>"
      using r(1) Some a(2) by (simp only: option.case)
    then show ?thesis using a(1) by metis
  qed
  with sep show ?thesis by blast
qed

definition sample_single :: kv_cache where
  "sample_single = sample_kv\<lparr>kv_n_stream := 1, kv_heads := [2], kv_tables := [sample_cells], kv_seq_to_stream := [0, 0]\<rparr>"

definition sample_ubatch :: ubatch where
  "sample_ubatch = \<lparr>ub_n_tokens = 1, ub_n_seqs_unq = 1, ub_pos = [10], ub_seq_id = [[0]], ub_seq_id_unq = [0]\<rparr>"

lemma sample_single_ok: "plain_cache sample_single" "ubatch_ok sample_single sample_ubatch"
  "kv_view sample_single = [[Cell 9 0 {0}, Empty, Cell 4 0 {0, 1}]]" "kv_get_size sample_single = 3"
proof -
  show g: "kv_get_size sample_single = 3"
    by (simp add: sample_single_def kv_get_size_def cells_size_def sample_len sample_kv_def)
  show v: "kv_view sample_single = [[Cell 9 0 {0}, Empty, Cell 4 0 {0, 1}]]"
    by (simp add: sample_single_def kv_view_def sample_view)
  have "kv_ok sample_single"
    using sample_cells_ok g by (auto simp: kv_ok_def sample_single_def sample_kv_def table_ok_def cells_size_def sample_view sample_len less_Suc_eq)
  then show "plain_cache sample_single"
    using v by (auto simp: plain_cache_def single_stream_def swa_defined_def positions_fit_def)
      (simp_all add: sample_single_def sample_kv_def)
  show "ubatch_ok sample_single sample_ubatch"
    by (simp add: ubatch_ok_def sample_ubatch_def seq_id_ok_def seq_in_range_def sample_single_def)
qed

lemma sample_free: "{i. i < 3 \<and> usable sample_single (kv_tables sample_single ! 0) i} = {1}"
proof -
  have use: "usable sample_single (kv_tables sample_single ! 0) i = ([Cell 9 0 {0}, Empty, Cell 4 0 {0, 1}] ! i = Empty)" for i
    by (subst usable_no_swa) (simp_all add: sample_single_def sample_kv_def sample_view)
  have "(i < 3 \<and> ([Cell 9 0 {0}, Empty, Cell 4 0 {0, 1}] ! i = Empty)) = (i = 1)" for i
    by (cases "i = 0"; cases "i = 1"; cases "i = 2") simp_all
  then show ?thesis unfolding use by simp
qed

lemma find_slot_complete_witness:
  "kv_find_slot sample_ubatch False sample_single = Some \<lparr>si_s0 = 0, si_s1 = 0, si_strm = [0], si_idxs = [[1]]\<rparr>"
proof -
  have ss: "single_stream sample_single" using sample_single_ok(1) by (simp add: plain_cache_def)
  have k: "ub_n_tokens sample_ubatch = 1" by (simp add: sample_ubatch_def)
  obtain idxs where i: "kv_find_slot sample_ubatch False sample_single = Some \<lparr>si_s0 = 0, si_s1 = 0, si_strm = [0], si_idxs = [idxs]\<rparr>"
    "length idxs = 1" "\<forall>i \<in> set idxs. i < 3 \<and> usable sample_single (kv_tables sample_single ! 0) i"
    using find_slot_complete[OF ss sample_single_ok(2)] unfolding sample_single_ok(4) sample_free k by auto
  obtain x where "idxs = [x]" using i(2) by (metis One_nat_def Suc_length_conv length_0_conv)
  moreover have "x \<in> {i. i < 3 \<and> usable sample_single (kv_tables sample_single ! 0) i}" using i(3) calculation by simp
  ultimately show ?thesis using i(1) unfolding sample_free by simp
qed

text \<open>
  Writing a micro-batch into cells that are empty succeeds, fills exactly those cells, token
  by token, with its positions and sequences, and moves the search head behind the last one.
\<close>

theorem apply_ubatch_writes:
  assumes "plain_cache kv" and "ubatch_ok kv ub" and "cells_free ub idxs (kv_view kv ! 0)"
  shows "\<exists>kv'. kv_apply_ubatch (slot_of idxs) ub kv = Some kv' \<and> plain_cache kv'
    \<and> kv_view kv' = [write_tokens ub idxs (length idxs) (kv_view kv ! 0)] \<and> kv_heads kv' = [last idxs + 1]"
  using apply_ubatch_plain[OF assms] by blast

lemma apply_ubatch_writes_witness:
  "\<exists>kv'. kv_apply_ubatch (slot_of [1]) sample_ubatch sample_single = Some kv'
    \<and> kv_view kv' = [[Cell 9 0 {0}, Cell 10 0 {0}, Cell 4 0 {0, 1}]] \<and> kv_heads kv' = [2]"
proof -
  have "cells_free sample_ubatch [1] (kv_view sample_single ! 0)"
    by (simp add: cells_free_def sample_single_ok(3) sample_ubatch_def)
  note w = apply_ubatch_writes[OF sample_single_ok(1,2) this]
  have v: "write_tokens sample_ubatch [1] (length [1::nat]) (kv_view sample_single ! 0) = [Cell 9 0 {0}, Cell 10 0 {0}, Cell 4 0 {0, 1}]"
    by (simp add: sample_single_ok(3) write_tokens_def token_cell_def sample_ubatch_def)
  have l: "last [1 :: nat] + 1 = 2" by simp
  show ?thesis using w unfolding v l by blast
qed

text \<open>
  Property C6. In a cache of one stream and without a sliding window the dry run of a batch always
  returns and leaves cells and search head as they were. It finds slots exactly when the empty cells
  are as many as the tokens of the batch; then there is one slot per micro-batch, and writing the
  micro-batches into them in order succeeds, gives every token an empty cell of its own and leaves the
  tokens that were there.
\<close>

theorem prepare_dry_run:
  assumes "plain_cache kv" and "ubs \<noteq> []" and "\<And>ub. ub \<in> set ubs \<Longrightarrow> ubatch_ok kv ub"
  shows "\<exists>sis kv'. kv_prepare ubs kv = Some (sis, kv') \<and> plain_cache kv' \<and> same_cache kv' kv
    \<and> (if (\<Sum>ub\<leftarrow>ubs. ub_n_tokens ub) \<le> card (empty_cells (kv_view kv ! 0))
       then length sis = length ubs \<and> (\<exists>k. apply_all (zip sis ubs) kv' = Some k \<and> plain_cache k
         \<and> card (empty_cells (kv_view k ! 0)) + (\<Sum>ub\<leftarrow>ubs. ub_n_tokens ub) = card (empty_cells (kv_view kv ! 0))
         \<and> (\<forall>i < length (kv_view kv ! 0). kv_view kv ! 0 ! i \<noteq> Empty \<longrightarrow> kv_view k ! 0 ! i = kv_view kv ! 0 ! i))
       else sis = [])"
proof -
  obtain ok rs ss k where run: "prepare_place ubs [] [] kv = Some (ok, rs, ss, k)"
    and undo: "\<exists>k'. fold_opt restore_placed (rev ss) k = Some k' \<and> plain_cache k' \<and> same_cache k' kv"
    and len: "ok \<longrightarrow> length rs = length ubs \<and> length ss = length ubs"
    and count: "ok \<longleftrightarrow> (\<Sum>ub\<leftarrow>ubs. ub_n_tokens ub) \<le> card (empty_cells (kv_view kv ! 0))"
    and after: "ok \<longrightarrow> card (empty_cells (kv_view k ! 0)) + (\<Sum>ub\<leftarrow>ubs. ub_n_tokens ub) = card (empty_cells (kv_view kv ! 0))
         \<and> (\<forall>i < length (kv_view kv ! 0). kv_view kv ! 0 ! i \<noteq> Empty \<longrightarrow> kv_view k ! 0 ! i = kv_view kv ! 0 ! i)"
    and replay: "ok \<longrightarrow> (\<forall>k1. plain_cache k1 \<and> same_cache k1 kv \<longrightarrow>
         (\<exists>k'. apply_all (zip rs ubs) k1 = Some k' \<and> plain_cache k' \<and> same_cache k' k))"
    using prepare_place_plain[OF assms(1,3), of ubs "[]" "[]"] by auto
  obtain kv' where kv': "fold_opt restore_placed (rev ss) k = Some kv'" "plain_cache kv'" "same_cache kv' kv" using undo by blast
  have prep: "kv_prepare ubs kv = Some (if ok then rs else [], kv')"
    using run kv'(1) len assms(2) by (auto simp: kv_prepare_def)
  show ?thesis
  proof (cases ok)
    case True
    obtain k' where "apply_all (zip rs ubs) kv' = Some k'" "plain_cache k'" "same_cache k' k"
      using replay True kv'(2,3) by blast
    then show ?thesis using True prep kv'(2,3) len count after by (auto simp: same_cache_def)
  next
    case False
    then show ?thesis using prep kv'(2,3) count by auto
  qed
qed

lemma prepare_dry_run_witness: "\<exists>si kv'. kv_prepare [sample_ubatch] sample_single = Some ([si], kv')
    \<and> kv_view kv' = [[Cell 9 0 {0}, Empty, Cell 4 0 {0, 1}]] \<and> kv_heads kv' = [2]
    \<and> (\<exists>kv'. kv_prepare [sample_ubatch, sample_ubatch] sample_single = Some ([], kv'))"
proof -
  have free: "card (empty_cells (kv_view sample_single ! 0)) = 1"
  proof -
    have "empty_cells (kv_view sample_single ! 0) = {1}"
      by (auto simp: empty_cells_def sample_single_ok(3) less_Suc_eq nth_Cons')
    then show ?thesis by simp
  qed
  have h: "kv_heads sample_single = [2]" "ub_n_tokens sample_ubatch = 1" by (simp_all add: sample_single_def sample_ubatch_def)
  have "\<exists>kv'. kv_prepare [sample_ubatch, sample_ubatch] sample_single = Some ([], kv')"
    using prepare_dry_run[OF sample_single_ok(1), of "[sample_ubatch, sample_ubatch]"] by (auto simp: sample_single_ok(2) free h)
  moreover have "\<exists>sis kv'. kv_prepare [sample_ubatch] sample_single = Some (sis, kv') \<and> same_cache kv' sample_single \<and> length sis = 1"
    using prepare_dry_run[OF sample_single_ok(1), of "[sample_ubatch]"] by (auto simp: sample_single_ok(2) free h)
  ultimately show ?thesis
    unfolding same_cache_def h sample_single_ok(3) by (auto simp: length_Suc_conv)
qed

lemma get_n_kv_covers:
  assumes "kv_ok kv" and "kv_n_pad kv = 2 ^ k" and "k < 32" and "kv_get_size kv + 2 ^ k \<le> 2 ^ 32"
    and "set (si_strm si) \<subseteq> {..<kv_n_stream kv}"
  shows "kv_get_n_kv si kv \<le> kv_get_size kv
    \<and> (\<forall>t \<in> set (si_strm si). \<forall>i < kv_get_size kv. kv_view kv ! t ! i \<noteq> Empty \<longrightarrow> i < kv_get_n_kv si kv)"
proof -
  let ?g = "\<lambda>s. min (cells_size (kv_tables kv ! (si_strm si ! s))) (max (kv_n_pad kv)
    (unat (ggml_pad (of_nat (cells_used_max_p1 (kv_tables kv ! (si_strm si ! s)))) (of_nat (kv_n_pad kv)))))"
  have tab: "table_ok (kv_get_size kv) (kv_tables kv ! t)" "t < length (kv_tables kv)" if "t < kv_n_stream kv" for t
    using assms(1) that by (auto simp: kv_ok_def)
  have strm: "si_strm si ! s < kv_n_stream kv" if "s < slot_n_stream si" for s
    using subsetD[OF assms(5) nth_mem[of s "si_strm si"]] that by (simp add: slot_n_stream_def)
  have fold: "kv_get_n_kv si kv = fold (\<lambda>s r. max (?g s) r) [0..<slot_n_stream si] 0"
    by (simp add: kv_get_n_kv_def Let_def)
  have "kv_get_n_kv si kv \<le> kv_get_size kv" unfolding fold
    by (rule fold_max_le) (use tab strm in \<open>auto simp: table_ok_def\<close>)
  moreover have "i < kv_get_n_kv si kv" if t: "t \<in> set (si_strm si)" and i: "i < kv_get_size kv" "kv_view kv ! t ! i \<noteq> Empty" for t i
  proof -
    obtain s where s: "s < slot_n_stream si" "si_strm si ! s = t" using t by (auto simp: in_set_conv_nth slot_n_stream_def)
    let ?c = "kv_tables kv ! t"
    have c: "table_ok (kv_get_size kv) ?c" "t < length (kv_tables kv)" using tab strm[OF s(1)] s(2) by auto
    have "cells_view ?c ! i \<noteq> Empty" using i(2) c(2) by (simp add: kv_view_def)
    note used = used_below_max[OF c(1) i(1) this]
    have small: "cells_used_max_p1 ?c < 2 ^ 32" using used(2) assms(4) zero_less_power[of "2::nat" k] by linarith
    then have u: "unat (of_nat (cells_used_max_p1 ?c) :: u32) = cells_used_max_p1 ?c"
      by (simp only: unsigned_of_nat) (simp add: take_bit_nat_eq_self)
    have "cells_used_max_p1 ?c + 2 ^ k \<le> 2 ^ 32" using used(2) assms(4) by linarith
    then have "cells_used_max_p1 ?c \<le> unat (ggml_pad (of_nat (cells_used_max_p1 ?c)) (2 ^ k))"
      using ggml_pad_ge[OF assms(3), of "of_nat (cells_used_max_p1 ?c)"] unfolding u by blast
    then have "i < unat (ggml_pad (of_nat (cells_used_max_p1 ?c)) (2 ^ k))" using used(1) by linarith
    then have "i < ?g s" using i(1) c(1) s(2) assms(2) by (simp add: table_ok_def)
    also have "?g s \<le> kv_get_n_kv si kv" unfolding fold by (rule fold_max_ge) (use s(1) in simp)
    finally show ?thesis .
  qed
  ultimately show ?thesis by blast
qed

text \<open>
  The attention window computed for a slot reaches past every occupied cell of the slot's
  streams and not past the cache, when the padding is a power of two.
\<close>

theorem n_kv_covers_used:
  assumes "kv_ok kv" and "kv_n_pad kv = 2 ^ k" and "k < 32" and "kv_get_size kv + 2 ^ k \<le> 2 ^ 32"
    and "set (si_strm si) \<subseteq> {..<kv_n_stream kv}"
  shows "kv_get_n_kv si kv \<le> kv_get_size kv
    \<and> (\<forall>t \<in> set (si_strm si). \<forall>i < kv_get_size kv. kv_view kv ! t ! i \<noteq> Empty \<longrightarrow> i < kv_get_n_kv si kv)"
  using get_n_kv_covers[OF assms] .

lemma n_kv_covers_used_witness:
  "2 < kv_get_n_kv (slot_of [1]) sample_single \<and> kv_get_n_kv (slot_of [1]) sample_single \<le> 3"
proof -
  have ok: "kv_ok sample_single" using sample_single_ok(1) by (simp add: plain_cache_def single_stream_def)
  have p: "kv_n_pad sample_single = 2 ^ 0" "kv_n_stream sample_single = 1"
    by (simp_all add: sample_single_def sample_kv_def)
  have strm: "set (si_strm (slot_of [1])) \<subseteq> {..<kv_n_stream sample_single}" by (simp add: p(2))
  have fits: "kv_get_size sample_single + 2 ^ 0 \<le> 2 ^ 32" by (simp add: sample_single_ok(4))
  have "(0::nat) \<in> set (si_strm (slot_of [1]))" by simp
  then show ?thesis using n_kv_covers_used[OF ok p(1) _ fits strm] unfolding sample_single_ok(3,4) by fastforce
qed

definition second_ubatch :: ubatch where
  "second_ubatch = \<lparr>ub_n_tokens = 1, ub_n_seqs_unq = 1, ub_pos = [0], ub_seq_id = [[1]], ub_seq_id_unq = [1]\<rparr>"

subsection \<open>The heads after a dry run\<close>

text \<open>The streams of a slot are those of the unique sequences of the micro-batch.\<close>

lemma find_slot_seqs_streams:
  assumes "find_slot_seqs kv ub cont n ss res = Some si" and "si \<noteq> slot_none"
    and "length (si_idxs res) = length (si_strm res)" and "\<And>s. s \<in> set ss \<Longrightarrow> s < length (si_strm res)"
  shows "length (si_strm si) = length (si_strm res) \<and> length (si_idxs si) = length (si_strm si)
    \<and> (\<forall>s < length (si_strm si). si_strm si ! s = (if s \<in> set ss then stream_of kv (ub_seq_id_unq ub ! s) else si_strm res ! s))
    \<and> (\<forall>s \<in> set ss. seq_in_range kv (ub_seq_id_unq ub ! s))"
  using assms
proof (induction ss arbitrary: res)
  case (Cons s ss)
  let ?q = "ub_seq_id_unq ub ! s"
  obtain idxs r where r: "find_slot_seqs kv ub cont n ss (r\<lparr>si_idxs := (si_idxs r)[s := idxs]\<rparr>) = Some si"
    "si_strm r = (si_strm res)[s := stream_of kv ?q]" "si_idxs r = si_idxs res" and q: "seq_in_range kv ?q"
    using Cons.prems(1,2) by (auto simp: Let_def split: if_splits option.splits)
  have "length (si_strm si) = length (si_strm res) \<and> length (si_idxs si) = length (si_strm si)
    \<and> (\<forall>t < length (si_strm si). si_strm si ! t
        = (if t \<in> set ss then stream_of kv (ub_seq_id_unq ub ! t) else (si_strm res)[s := stream_of kv ?q] ! t))
    \<and> (\<forall>t \<in> set ss. seq_in_range kv (ub_seq_id_unq ub ! t))"
    using Cons.IH[OF r(1)] Cons.prems(2-4) r(2,3) by simp
  then show ?case using q Cons.prems(4) by (auto simp: nth_list_update)
qed auto

lemma find_slot_streams:
  assumes "kv_find_slot ub False kv = Some si" and "\<not> slot_empty si" and "1 < kv_n_stream kv"
  shows "length (si_strm si) = ub_n_seqs_unq ub"
    and "s < ub_n_seqs_unq ub \<Longrightarrow> si_strm si ! s = stream_of kv (ub_seq_id_unq ub ! s) \<and> seq_in_range kv (ub_seq_id_unq ub ! s)"
proof -
  have ne: "si \<noteq> slot_none" using assms(2) by (auto simp: slot_empty_def slot_none_def)
  have run: "find_slot_seqs kv ub False (ub_n_tokens ub div ub_n_seqs_unq ub) [0..<ub_n_seqs_unq ub]
      (slot_resize (ub_n_seqs_unq ub) \<lparr>si_s0 = nat LLAMA_MAX_SEQ, si_s1 = 0, si_strm = [], si_idxs = []\<rparr>) = Some si"
    using assms(1,3) by (simp add: kv_find_slot_def split: if_splits)
  have len: "length (si_strm (slot_resize m \<lparr>si_s0 = a, si_s1 = b, si_strm = [], si_idxs = []\<rparr>)) = m"
    "length (si_idxs (slot_resize m \<lparr>si_s0 = a, si_s1 = b, si_strm = [], si_idxs = []\<rparr>)) = m" for m a b
    by (simp_all add: slot_resize_def vector_resize_def)
  note f = find_slot_seqs_streams[OF run ne, unfolded len, simplified]
  show "length (si_strm si) = ub_n_seqs_unq ub" using f by simp
  show "si_strm si ! s = stream_of kv (ub_seq_id_unq ub ! s) \<and> seq_in_range kv (ub_seq_id_unq ub ! s)"
    if "s < ub_n_seqs_unq ub" using f that by simp
qed

text \<open>Writing a micro-batch neither adds nor removes heads.\<close>

lemma seq_rm_heads: "0 \<le> q \<Longrightarrow> kv_seq_rm q p0 p1 kv = Some (b, kv') \<Longrightarrow> length (kv_heads kv') = length (kv_heads kv)"
  by (auto simp: kv_seq_rm_def put_stream_def Let_def bind_eq_Some_conv split: if_splits)

lemma apply_ubatch_heads:
  assumes "kv_apply_ubatch si ub kv = Some kv'"
  shows "length (kv_heads kv') = length (kv_heads kv)"
proof -
  let ?h = "\<lambda>k. length (kv_heads k) = length (kv_heads kv)"
  obtain sz k1 rm k2 where run: "fold_opt (\<lambda>s. fold_opt (apply_token si ub sz s) [0..<sz]) [0..<slot_n_stream si] (kv, \<lambda>_. - 1) = Some (k1, rm)"
    "fold_opt (purge_seq rm) [0..LLAMA_MAX_SEQ - 1] k1 = Some k2" "fold_opt (move_head si) [0..<slot_n_stream si] k2 = Some kv'"
    using assms by (auto simp: kv_apply_ubatch_def bind_eq_Some_conv simp del: upto.simps split: if_splits)
  have tok: "?h (fst t)" if "apply_token si ub sz s i x = Some t" "?h (fst x)" for s i x t
    using that by (cases x) (auto simp: apply_token_def Let_def bind_eq_Some_conv split: if_splits)
  have "?h (fst (k1, rm))"
  proof (rule fold_opt_invariant[OF run(1), where P = "\<lambda>x. ?h (fst x)"])
    fix s x t
    assume "fold_opt (apply_token si ub sz s) [0..<sz] x = Some t" "?h (fst x)"
    then show "?h (fst t)" using tok by (rule fold_opt_invariant[where P = "\<lambda>x. ?h (fst x)"])
  qed simp
  then have "?h k1" by simp
  then have "?h k2"
  proof (rule fold_opt_invariant[OF run(2), where P = ?h])
    fix s k k'
    assume "s \<in> set [0..LLAMA_MAX_SEQ - 1]" "purge_seq rm s k = Some k'" "?h k"
    then show "?h k'" by (auto simp: purge_seq_def bind_eq_Some_conv dest!: seq_rm_heads[rotated] split: if_splits simp del: upto.simps)
  qed
  then show ?thesis
    by (rule fold_opt_invariant[OF run(3), where P = ?h]) (auto simp: move_head_def split: if_splits)
qed

lemma restore_heads:
  assumes "restore_placed (si, old, saved) k = Some k'" and "distinct (si_strm si)"
    and "\<And>s. s < length (si_strm si) \<Longrightarrow> si_strm si ! s < length (kv_heads k)"
  shows "s < length (si_strm si) \<Longrightarrow> kv_heads k' ! (si_strm si ! s) = old ! s"
proof -
  let ?P = "\<lambda>m k'. length (kv_heads k') = length (kv_heads k) \<and> (\<forall>s < m. kv_heads k' ! (si_strm si ! s) = old ! s)"
  have "?P (length (si_strm si)) k'"
  proof (rule fold_opt_upt_invariant[where P = ?P])
    show "fold_opt (restore_stream (si, old, saved)) [0..<length (si_strm si)] k = Some k'"
      using assms(1) by (simp add: restore_placed_def slot_n_stream_def)
    fix i u v
    assume a: "i < length (si_strm si)" "restore_stream (si, old, saved) i u = Some v" "?P i u"
    then have "kv_heads v = (kv_heads u)[si_strm si ! i := old ! i]"
      by (auto simp: restore_stream_def put_stream_def Let_def bind_eq_Some_conv split: if_splits)
    moreover have "si_strm si ! i \<noteq> si_strm si ! s" if "s < i" for s
      using assms(2) a(1) that by (simp add: nth_eq_iff_index_eq)
    ultimately show "?P (Suc i) v" using a(1,3) assms(3) by (auto simp: less_Suc_eq)
  qed simp_all
  then show "s < length (si_strm si) \<Longrightarrow> kv_heads k' ! (si_strm si ! s) = old ! s" by simp
qed

text \<open>
  Property C20. In a cache with several streams, a dry run of a micro-batch that finds a slot leaves,
  as the head of the stream of the micro-batch's \<open>s\<close>-th sequence, the old head of stream \<open>s\<close>: the old
  heads are saved for all streams and read back by the position in the slot. So a micro-batch for
  stream 1 alone replaces the head of stream 1 by that of stream 0.
\<close>

theorem prepare_swaps_heads:
  assumes "kv_ok kv" and "1 < kv_n_stream kv" and "kv_prepare [ub] kv = Some (sis, kv')" and "sis \<noteq> []"
    and "distinct (map (stream_of kv) (take (ub_n_seqs_unq ub) (ub_seq_id_unq ub)))"
    and "s < ub_n_seqs_unq ub" and "ub_n_seqs_unq ub \<le> length (ub_seq_id_unq ub)"
  shows "kv_heads kv' ! stream_of kv (ub_seq_id_unq ub ! s) = kv_heads kv ! s"
proof -
  obtain si saved k where run: "kv_find_slot ub False kv = Some si" "\<not> slot_empty si" "kv_apply_ubatch si ub kv = Some k"
    "restore_placed (si, kv_heads kv, saved) k = Some kv'"
    using assms(3,4) by (auto simp: kv_prepare_def bind_eq_Some_conv split: if_splits option.splits)
  note st = find_slot_streams[OF run(1,2) assms(2)]
  have map: "si_strm si = map (stream_of kv) (take (ub_n_seqs_unq ub) (ub_seq_id_unq ub))"
    using st assms(7) by (intro nth_equalityI) simp_all
  have "si_strm si ! t < length (kv_heads k)" if "t < length (si_strm si)" for t
    using st that apply_ubatch_heads[OF run(3)] stream_of_less[OF assms(1)] assms(1) by (simp add: kv_ok_def)
  then show ?thesis
    using restore_heads[OF run(4), of s] assms(5,6) st map by simp
qed

lemma sample_prepare:
  "\<exists>c. kv_prepare [second_ubatch] sample_kv = Some ([\<lparr>si_s0 = 1, si_s1 = 1, si_strm = [1], si_idxs = [[1]]\<rparr>], c)"
proof -
  let ?c = "cells_resize 3 kv_cells_init" and ?kv = sample_kv
  let ?si = "\<lparr>si_s0 = 1, si_s1 = 1, si_strm = [1], si_idxs = [[1]]\<rparr>"
  have nst: "kv_n_stream ?kv = 2" and seqs: "kv_seq_to_stream ?kv = [0, 1]" by (simp_all add: sample_kv_def)
  have t: "kv_tables ?kv = [sample_cells, ?c]" "kv_heads ?kv = [3, 1]" by (simp_all add: sample_kv_def)
  have ok: "cells_ok ?c" "cells_view ?c = [Empty, Empty, Empty]" by (simp_all add: cells_resize_ok numeral_3_eq_3)
  have c: "length (c_pos ?c) = 3" "c_pos ?c ! 1 = - 1" "c_shift ?c ! 1 = 0" "c_used ?c = {}"
    by (simp_all add: cells_resize_def cells_reset_def kv_cells_init_def vector_resize_def)
  then have nonnil: "c_pos ?c \<noteq> []" by auto
  have empty: "cells_is_empty 1 ?c = Some True" using c by (simp add: cells_is_empty_def)
  then have use: "can_use_cell ?kv ?c 1 = Some True" by (simp add: can_use_cell_def)
  have search: "slot_search (can_use_cell ?kv ?c) False 3 1 1 0 [] = Some (Some [1])"
    using use by (subst slot_search.simps) (simp add: Let_def)
  have find: "kv_find_slot second_ubatch False ?kv = Some ?si"
    using search c nonnil nst seqs by (simp add: kv_find_slot_def second_ubatch_def t cells_size_def sample_seqs slot_resize_def
      vector_resize_def cells_get_used_def u32_add_def Let_def)
  obtain sv where sv: "cells_cp [1] ?c = Some sv" using c by (simp add: cells_cp_def)
  have saved: "save_slot ?si ?kv = Some [sv]" using sv by (simp add: save_slot_def t slot_n_stream_def)
  have "seq_id_ok 1" by (simp add: seq_id_ok_def)
  then obtain c2 where c2: "Option.bind (cells_pos_set 1 0 ?c) (fold_opt (cells_seq_add 1) [1]) = Some c2"
    "cells_ok c2" "cells_view c2 = (cells_view ?c)[1 := Cell 0 0 {1}]"
    using kv.write_cell[OF ok(1), of 1 0 "[1]"] ok(2) by auto
  let ?k1 = "?kv\<lparr>kv_tables := [sample_cells, c2]\<rparr>" and ?k2 = "?kv\<lparr>kv_tables := [sample_cells, c2], kv_heads := [3, 2]\<rparr>"
  have tok: "apply_token ?si second_ubatch 1 0 0 (?kv, \<lambda>_. - 1) = Some (?k1, \<lambda>_. - 1)"
    using c2(1) empty by (auto simp: apply_token_def t second_ubatch_def bind_eq_Some_conv)
  have purge: "fold_opt (purge_seq (\<lambda>_. - 1)) xs ?k1 = Some ?k1" for xs
    by (rule fold_opt_idle) (simp add: purge_seq_def)
  have apply_ub: "kv_apply_ubatch ?si second_ubatch ?kv = Some ?k2"
    using tok purge[of "[0..LLAMA_MAX_SEQ - 1]"]
    by (simp add: kv_apply_ubatch_def slot_size_def slot_n_stream_def second_ubatch_def move_head_def t del: upto.simps)
  have len: "length (c_pos c2) = length (c_pos ?c)" using c2(3) ok(2) c(1) by (metis length_list_update length_view)
  have "cells_view c2 ! 1 = Cell 0 0 {1}" using c2(3) ok(2) by simp
  then have "c_shift c2 ! i = 0" if "i \<in> set [1]" for i
    using that len c(1) view_Cell[of 1 c2, THEN iffD1] by simp
  then obtain c3 where c3: "cells_set [1] sv c2 = Some c3" using cells_restore[OF ok(1) sv c2(2) len] by blast
  then have restore: "restore_placed (?si, [3, 1], [sv]) ?k2 = Some (put_stream 1 c3 3 ?k2)"
    by (simp add: restore_placed_def restore_stream_def slot_n_stream_def)
  show ?thesis using find saved apply_ub restore t(2) by (auto simp: kv_prepare_def slot_empty_def)
qed


lemma prepare_swaps_heads_witness:
  "kv_heads sample_kv = [3, 1] \<and> (\<exists>sis kv'. kv_prepare [second_ubatch] sample_kv = Some (sis, kv') \<and> sis \<noteq> [] \<and> kv_heads kv' ! 1 = 3)"
proof -
  have h: "kv_heads sample_kv = [3, 1]" "1 < kv_n_stream sample_kv" by (simp_all add: sample_kv_def)
  obtain kv' where p: "kv_prepare [second_ubatch] sample_kv = Some ([\<lparr>si_s0 = 1, si_s1 = 1, si_strm = [1], si_idxs = [[1]]\<rparr>], kv')"
    using sample_prepare by blast
  have "kv_heads kv' ! 1 = 3"
    using prepare_swaps_heads[OF sample_kv_ok(1) h(2) p, of 0] by (simp add: second_ubatch_def sample_seqs h(1))
  then show ?thesis using p h(1) by auto
qed

end
