(* ===== verification/Kv_State.thy ===== *)
theory Kv_State
  imports Kv_Slots
begin

text \<open>
  Saving and restoring the KV cache (\<^verbatim>\<open>src/llama-kv-cache.cpp\<close>, \<open>state_write\<close> and \<open>state_read\<close>)
  over the byte buffers of \<^verbatim>\<open>src/llama-context.cpp\<close>. A save is the list of chunks written, in order
  (\<open>None\<close> when an assertion fails); a restore consumes bytes and can throw, refuse (return false),
  abort on an assertion, or continue with the rest of the bytes.
\<close>

subsection \<open>Bytes\<close>

text \<open>The little-endian bytes of an unsigned value of \<open>k\<close> bytes, and of a 32-bit signed one.\<close>

definition le_bytes :: "nat \<Rightarrow> nat \<Rightarrow> u8 list" where
  "le_bytes k n = map (\<lambda>i. of_nat (n div 256 ^ i)) [0..<k]"

fun le_nat :: "u8 list \<Rightarrow> nat" where
  "le_nat [] = 0"
| "le_nat (b # bs) = unat b + 256 * le_nat bs"

definition u32_of_i32 :: "int \<Rightarrow> nat" where
  "u32_of_i32 i = nat (i mod 2 ^ 32)"

definition le_i32 :: "int \<Rightarrow> u8 list" where
  "le_i32 i = le_bytes 4 (u32_of_i32 i)"

subsection \<open>The buffers\<close>

text \<open>\<open>llama_io_write_buffer\<close>: what is written and the room left; a write that does not fit throws.\<close>

definition io_write :: "u8 list \<Rightarrow> u8 list \<times> nat \<Rightarrow> (u8 list \<times> nat) option" where
  "io_write src = (\<lambda>(out, room). if length src > room then None else Some (out @ src, room - length src))"

text \<open>\<open>llama_io_write_dummy\<close> counts.\<close>

definition io_count :: "u8 list \<Rightarrow> nat \<Rightarrow> nat" where
  "io_count src size_written = size_written + length src"

text \<open>\<open>llama_io_read_buffer::read\<close>: the bytes and the rest; too short throws.\<close>

definition io_read :: "nat \<Rightarrow> u8 list \<Rightarrow> (u8 list \<times> u8 list) option" where
  "io_read n bs = (if n > length bs then None else Some (take n bs, drop n bs))"

definition io_read_nat :: "nat \<Rightarrow> u8 list \<Rightarrow> (nat \<times> u8 list) option" where
  "io_read_nat k bs = map_option (\<lambda>(x, rest). (le_nat x, rest)) (io_read k bs)"

definition io_read_i32 :: "u8 list \<Rightarrow> (int \<times> u8 list) option" where
  "io_read_i32 bs = map_option (\<lambda>(x, rest). (i32_of_u32 (le_nat x), rest)) (io_read 4 bs)"

subsection \<open>Tensor bytes\<close>

definition tensor_get :: "u8 list \<Rightarrow> nat \<Rightarrow> nat \<Rightarrow> u8 list option" where
  "tensor_get t off n = require (off + n \<le> length t) (Some (take n (drop off t)))"

definition tensor_set :: "u8 list \<Rightarrow> nat \<Rightarrow> u8 list \<Rightarrow> u8 list option" where
  "tensor_set xs off t = require (off + length xs \<le> length t) (Some (put_bytes off xs t))"

subsection \<open>Saving\<close>

text \<open>The scan for the ranges of the cells to save: count, begin of the open range (the size: none), ranges.\<close>

definition cell_saved :: "int \<Rightarrow> kv_cells \<Rightarrow> nat \<Rightarrow> bool option" where
  "cell_saved seq_id cells i = do {
     empty \<leftarrow> cells_is_empty i cells;
     if empty then Some False else if seq_id = - 1 then Some True else cells_seq_has i seq_id cells }"

definition range_step :: "int \<Rightarrow> kv_cells \<Rightarrow> nat \<Rightarrow> nat \<times> nat \<times> (nat \<times> nat) list \<Rightarrow> (nat \<times> nat \<times> (nat \<times> nat) list) option" where
  "range_step seq_id cells i = (\<lambda>(cell_count, cell_range_begin, data). do {
     saved \<leftarrow> cell_saved seq_id cells i;
     Some (if saved then (cell_count + 1, if cell_range_begin = cells_size cells then i else cell_range_begin, data)
           else if cell_range_begin \<noteq> cells_size cells
                then (cell_count, cells_size cells, data @ [(cell_range_begin, i)])
                else (cell_count, cell_range_begin, data)) })"

definition state_ranges :: "int \<Rightarrow> kv_cells \<Rightarrow> (nat \<times> (nat \<times> nat) list) option" where
  "state_ranges seq_id cells = do {
     (cell_count, cell_range_begin, data) \<leftarrow> fold_opt (range_step seq_id cells) [0..<cells_size cells] (0, cells_size cells, []);
     let data = (if cell_range_begin \<noteq> cells_size cells then data @ [(cell_range_begin, cells_size cells)] else data);
     require (cell_count = sum_list (map (\<lambda>(a, b). b - a) data)) (Some (cell_count, data)) }"

text \<open>The chunks of a loop, in order.\<close>

fun collect :: "('a \<Rightarrow> 'b list option) \<Rightarrow> 'a list \<Rightarrow> 'b list option" where
  "collect f [] = Some []"
| "collect f (x # xs) = do { a \<leftarrow> f x; b \<leftarrow> collect f xs; Some (a @ b) }"

definition write_cell_meta :: "nat \<Rightarrow> int \<Rightarrow> kv_cells \<Rightarrow> nat \<Rightarrow> u8 list list option" where
  "write_cell_meta n_seq_max seq_id cells i = do {
     seq_ids \<leftarrow> collect (\<lambda>cur. if int cur = seq_id \<or> seq_id = - 1
         then do { has \<leftarrow> cells_seq_has i (int cur) cells; Some (if has then [cur] else []) } else Some []) [0..<n_seq_max];
     pos \<leftarrow> cells_pos_get i cells;
     Some (le_i32 pos # le_bytes 4 (length seq_ids) # map (\<lambda>s. le_i32 (int s)) seq_ids) }"

definition state_write_meta :: "nat \<Rightarrow> (nat \<times> nat) list \<Rightarrow> int \<Rightarrow> kv_cache \<Rightarrow> u8 list list option" where
  "state_write_meta strm ranges seq_id kv =
     collect (\<lambda>(a, b). collect (write_cell_meta (kv_n_seq_max kv) seq_id (kv_tables kv ! strm)) [a..<b]) ranges"

text \<open>The offset of a range in a row of the transposed values, computed in 32 bits.\<close>

definition v_src_offset :: "nat \<Rightarrow> nat \<Rightarrow> nat \<Rightarrow> nat \<Rightarrow> nat" where
  "v_src_offset range_first j kv_size v_size_el =
     ((range_first + j * kv_size mod 2 ^ 32) mod 2 ^ 32 * v_size_el) mod 2 ^ 32"

definition write_k_layer :: "nat \<Rightarrow> (nat \<times> nat) list \<Rightarrow> kv_layer \<Rightarrow> u8 list list option" where
  "write_k_layer strm ranges l = do {
     rows \<leftarrow> collect (\<lambda>(a, b). map_option (\<lambda>x. [x]) (tensor_get (kl_k_stream l ! strm) (a * kl_k_size_row l) ((b - a) * kl_k_size_row l))) ranges;
     Some (le_i32 (kl_k_type l) # le_bytes 8 (kl_k_size_row l) # rows) }"

definition write_v_layer :: "nat \<Rightarrow> (nat \<times> nat) list \<Rightarrow> kv_layer \<Rightarrow> u8 list list option" where
  "write_v_layer strm ranges l = do {
     rows \<leftarrow> collect (\<lambda>(a, b). map_option (\<lambda>x. [x]) (tensor_get (kl_v_stream l ! strm) (a * kl_v_size_row l) ((b - a) * kl_v_size_row l))) ranges;
     Some (le_i32 (kl_v_type l) # le_bytes 8 (kl_v_size_row l) # rows) }"

definition write_v_trans_layer :: "nat \<Rightarrow> (nat \<times> nat) list \<Rightarrow> nat \<Rightarrow> kv_layer \<Rightarrow> u8 list list option" where
  "write_v_trans_layer strm ranges kv_size l = do {
     rows \<leftarrow> collect (\<lambda>j. collect (\<lambda>(a, b). map_option (\<lambda>x. [x])
         (tensor_get (kl_v_stream l ! strm) (v_src_offset a j kv_size (kl_v_size_el l)) ((b - a) * kl_v_size_el l))) ranges)
       [0..<kl_n_embd_v_gqa l];
     Some (le_i32 (kl_v_type l) # le_bytes 4 (kl_v_size_el l) # le_bytes 4 (kl_n_embd_v_gqa l) # rows) }"

definition state_write_data :: "nat \<Rightarrow> (nat \<times> nat) list \<Rightarrow> kv_cache \<Rightarrow> u8 list list option" where
  "state_write_data strm ranges kv = do {
     keys \<leftarrow> collect (write_k_layer strm ranges) (kv_layers kv);
     vals \<leftarrow> (if \<not> kv_v_trans kv then collect (write_v_layer strm ranges) (kv_layers kv)
             else collect (write_v_trans_layer strm ranges (cells_size (kv_tables kv ! strm))) (kv_layers kv));
     Some (le_bytes 4 (if kv_v_trans kv then 1 else 0) # le_bytes 4 (length (kv_layers kv)) # keys @ vals) }"

definition write_stream :: "int \<Rightarrow> kv_cache \<Rightarrow> nat \<Rightarrow> u8 list list option" where
  "write_stream seq_id kv s = do {
     (cell_count, ranges) \<leftarrow> state_ranges seq_id (kv_tables kv ! s);
     if cell_count = 0 then Some [le_bytes 4 cell_count]
     else do {
       meta \<leftarrow> state_write_meta s ranges seq_id kv;
       data \<leftarrow> state_write_data s ranges kv;
       Some (le_bytes 4 cell_count # meta @ data) } }"

definition kv_state_write :: "int \<Rightarrow> kv_cache \<Rightarrow> u8 list list option" where
  "kv_state_write seq_id kv = do {
     streams \<leftarrow> collect (write_stream seq_id kv) [0..<kv_n_stream kv];
     Some (le_bytes 4 (kv_n_stream kv) # streams) }"

subsection \<open>Restoring\<close>

text \<open>How a step of a restore ends: with the rest of the bytes, refusing, throwing, or aborting.\<close>

datatype read_result = Read_ok "u8 list" | Read_false | Read_throw | Read_abort

fun read_then :: "read_result \<times> kv_cache \<Rightarrow> (u8 list \<Rightarrow> kv_cache \<Rightarrow> read_result \<times> kv_cache) \<Rightarrow> read_result \<times> kv_cache" where
  "read_then (Read_ok bs, kv) f = f bs kv"
| "read_then (r, kv) f = (r, kv)"

fun read_loop :: "('a \<Rightarrow> u8 list \<Rightarrow> kv_cache \<Rightarrow> read_result \<times> kv_cache) \<Rightarrow> 'a list \<Rightarrow> u8 list \<Rightarrow> kv_cache \<Rightarrow> read_result \<times> kv_cache" where
  "read_loop f [] bs kv = (Read_ok bs, kv)"
| "read_loop f (x # xs) bs kv = read_then (f x bs kv) (read_loop f xs)"

text \<open>Reading a value, and an operation of the cache that aborts when an assertion fails.\<close>

fun read_get :: "('a \<times> u8 list) option \<Rightarrow> kv_cache \<Rightarrow> ('a \<Rightarrow> u8 list \<Rightarrow> read_result \<times> kv_cache) \<Rightarrow> read_result \<times> kv_cache" where
  "read_get None kv f = (Read_throw, kv)"
| "read_get (Some (x, bs)) kv f = f x bs"

fun read_do :: "'a option \<Rightarrow> kv_cache \<Rightarrow> ('a \<Rightarrow> read_result \<times> kv_cache) \<Rightarrow> read_result \<times> kv_cache" where
  "read_do None kv f = (Read_abort, kv)"
| "read_do (Some x) kv f = f x"

text \<open>One cell of a whole-cache restore.\<close>

definition read_cell :: "nat \<Rightarrow> nat \<Rightarrow> u8 list \<Rightarrow> kv_cache \<Rightarrow> read_result \<times> kv_cache" where
  "read_cell strm i bs kv =
     read_get (io_read_i32 bs) kv (\<lambda>pos bs. read_get (io_read_nat 4 bs) kv (\<lambda>n_seq_id bs.
       read_do (cells_pos_set i pos (kv_tables kv ! strm)) kv (\<lambda>cells.
         read_loop (\<lambda>j bs kv. read_get (io_read_i32 bs) kv (\<lambda>seq_id bs.
             if seq_id < 0 \<or> nat seq_id \<ge> kv_n_seq_max kv then (Read_false, kv)
             else read_do (cells_seq_add i seq_id (kv_tables kv ! strm)) kv (\<lambda>cells.
               (Read_ok bs, kv\<lparr>kv_tables := (kv_tables kv)[strm := cells]\<rparr>)))) [0..<n_seq_id]
           bs (kv\<lparr>kv_tables := (kv_tables kv)[strm := cells]\<rparr>))))"

text \<open>The positions of a single-sequence restore; the sequence id read is discarded.\<close>

fun read_positions :: "nat \<Rightarrow> u8 list \<Rightarrow> kv_cache \<Rightarrow> int list \<Rightarrow> (int list \<Rightarrow> u8 list \<Rightarrow> read_result \<times> kv_cache) \<Rightarrow> read_result \<times> kv_cache" where
  "read_positions 0 bs kv acc f = f acc bs"
| "read_positions (Suc n) bs kv acc f =
     read_get (io_read_i32 bs) kv (\<lambda>pos bs. read_get (io_read_nat 4 bs) kv (\<lambda>n_seq_id bs.
       if n_seq_id \<noteq> 1 then (Read_false, kv)
       else read_get (io_read_i32 bs) kv (\<lambda>seq_id bs. read_positions n bs kv (acc @ [pos]) f)))"

definition restore_ubatch :: "int \<Rightarrow> int list \<Rightarrow> ubatch" where
  "restore_ubatch dest_seq_id poss = \<lparr>ub_n_tokens = length poss, ub_n_seqs_unq = 1, ub_pos = poss,
     ub_seq_id = replicate (length poss) [dest_seq_id], ub_seq_id_unq = [dest_seq_id]\<rparr>"

definition restore_checks :: "nat \<Rightarrow> nat \<Rightarrow> int \<Rightarrow> int list \<Rightarrow> kv_cells \<Rightarrow> bool option" where
  "restore_checks head_cur cell_count dest_seq_id poss cells = do {
     first \<leftarrow> cells_pos_get head_cur cells;
     final \<leftarrow> cells_pos_get (head_cur + cell_count - 1) cells;
     a \<leftarrow> cells_seq_has head_cur dest_seq_id cells;
     b \<leftarrow> cells_seq_has (head_cur + cell_count - 1) dest_seq_id cells;
     Some (head_cur + cell_count \<le> cells_size cells \<and> first = poss ! 0 \<and> final = poss ! (cell_count - 1) \<and> a \<and> b) }"

definition state_read_meta :: "nat \<Rightarrow> nat \<Rightarrow> int \<Rightarrow> u8 list \<Rightarrow> kv_cache \<Rightarrow> read_result \<times> kv_cache" where
  "state_read_meta strm cell_count dest_seq_id bs kv =
     (if dest_seq_id \<noteq> - 1 then
        read_do (kv_seq_rm dest_seq_id (- 1) (- 1) kv) kv (\<lambda>(_, kv).
          read_positions cell_count bs kv [] (\<lambda>poss bs.
            let ub = restore_ubatch dest_seq_id poss in
            read_do (kv_find_slot ub True kv) kv (\<lambda>si.
              if slot_empty si then (Read_false, kv)
              else read_do (kv_apply_ubatch si ub kv) kv (\<lambda>kv. read_do (slot_head si) kv (\<lambda>head_cur.
                let kv = kv\<lparr>kv_heads := (kv_heads kv)[strm := head_cur]\<rparr> in
                read_do (restore_checks head_cur cell_count dest_seq_id poss (kv_tables kv ! strm)) kv (\<lambda>ok.
                  if ok then (Read_ok bs, kv) else (Read_abort, kv)))))))
      else if cell_count > cells_size (kv_tables kv ! strm) then (Read_false, kv)
      else read_then (read_loop (read_cell strm) [0..<cell_count] bs (kv_clear True kv))
        (\<lambda>bs kv. (Read_ok bs, kv\<lparr>kv_heads := (kv_heads kv)[strm := 0]\<rparr>)))"

definition put_layer :: "nat \<Rightarrow> kv_layer \<Rightarrow> kv_cache \<Rightarrow> kv_cache" where
  "put_layer l x kv = kv\<lparr>kv_layers := (kv_layers kv)[l := x]\<rparr>"

definition read_k_layer :: "nat \<Rightarrow> nat \<Rightarrow> nat \<Rightarrow> u8 list \<Rightarrow> kv_cache \<Rightarrow> read_result \<times> kv_cache" where
  "read_k_layer strm cell_count l bs kv = (let x = kv_layers kv ! l in
     read_get (io_read_i32 bs) kv (\<lambda>k_type bs. if kl_k_type x \<noteq> k_type then (Read_false, kv)
     else read_get (io_read_nat 8 bs) kv (\<lambda>k_size_row bs. if kl_k_size_row x \<noteq> k_size_row then (Read_false, kv)
     else if cell_count = 0 then (Read_ok bs, kv)
     else read_get (io_read (cell_count * k_size_row) bs) kv (\<lambda>rows bs.
       read_do (tensor_set rows (kv_heads kv ! strm * k_size_row) (kl_k_stream x ! strm)) kv (\<lambda>k.
         (Read_ok bs, put_layer l (x\<lparr>kl_k_stream := (kl_k_stream x)[strm := k]\<rparr>) kv))))))"

definition read_v_layer :: "nat \<Rightarrow> nat \<Rightarrow> nat \<Rightarrow> u8 list \<Rightarrow> kv_cache \<Rightarrow> read_result \<times> kv_cache" where
  "read_v_layer strm cell_count l bs kv = (let x = kv_layers kv ! l in
     read_get (io_read_i32 bs) kv (\<lambda>v_type bs. if kl_v_type x \<noteq> v_type then (Read_false, kv)
     else read_get (io_read_nat 8 bs) kv (\<lambda>v_size_row bs. if kl_v_size_row x \<noteq> v_size_row then (Read_false, kv)
     else if cell_count = 0 then (Read_ok bs, kv)
     else read_get (io_read (cell_count * v_size_row) bs) kv (\<lambda>rows bs.
       read_do (tensor_set rows (kv_heads kv ! strm * v_size_row) (kl_v_stream x ! strm)) kv (\<lambda>v.
         (Read_ok bs, put_layer l (x\<lparr>kl_v_stream := (kl_v_stream x)[strm := v]\<rparr>) kv))))))"

definition v_dst_offset :: "nat \<Rightarrow> nat \<Rightarrow> nat \<Rightarrow> nat \<Rightarrow> nat" where
  "v_dst_offset head j kv_size v_size_el = (head + j * kv_size mod 2 ^ 32) mod 2 ^ 32 * v_size_el"

definition read_v_row :: "nat \<Rightarrow> nat \<Rightarrow> nat \<Rightarrow> nat \<Rightarrow> u8 list \<Rightarrow> kv_cache \<Rightarrow> read_result \<times> kv_cache" where
  "read_v_row strm cell_count l j bs kv = (let x = kv_layers kv ! l in
     read_get (io_read (cell_count * kl_v_size_el x) bs) kv (\<lambda>row bs.
       read_do (tensor_set row (v_dst_offset (kv_heads kv ! strm) j (cells_size (kv_tables kv ! strm)) (kl_v_size_el x))
           (kl_v_stream x ! strm)) kv (\<lambda>v.
         (Read_ok bs, put_layer l (x\<lparr>kl_v_stream := (kl_v_stream x)[strm := v]\<rparr>) kv))))"

definition read_v_trans_layer :: "nat \<Rightarrow> nat \<Rightarrow> nat \<Rightarrow> u8 list \<Rightarrow> kv_cache \<Rightarrow> read_result \<times> kv_cache" where
  "read_v_trans_layer strm cell_count l bs kv = (let x = kv_layers kv ! l in
     read_get (io_read_i32 bs) kv (\<lambda>v_type bs. if kl_v_type x \<noteq> v_type then (Read_false, kv)
     else read_get (io_read_nat 4 bs) kv (\<lambda>v_size_el bs. if kl_v_size_el x \<noteq> v_size_el then (Read_false, kv)
     else read_get (io_read_nat 4 bs) kv (\<lambda>n_embd bs. if kl_n_embd_v_gqa x \<noteq> n_embd then (Read_false, kv)
     else if cell_count = 0 then (Read_ok bs, kv)
     else read_loop (read_v_row strm cell_count l) [0..<n_embd] bs kv))))"

definition state_read_data :: "nat \<Rightarrow> nat \<Rightarrow> u8 list \<Rightarrow> kv_cache \<Rightarrow> read_result \<times> kv_cache" where
  "state_read_data strm cell_count bs kv =
     read_get (io_read_nat 4 bs) kv (\<lambda>v_trans bs. read_get (io_read_nat 4 bs) kv (\<lambda>n_layer bs.
       if n_layer \<noteq> length (kv_layers kv) then (Read_false, kv)
       else if cell_count > cells_size (kv_tables kv ! strm) then (Read_false, kv)
       else if kv_v_trans kv \<noteq> (v_trans \<noteq> 0) then (Read_false, kv)
       else read_then (read_loop (read_k_layer strm cell_count) [0..<length (kv_layers kv)] bs kv) (\<lambda>bs kv.
         if \<not> kv_v_trans kv then read_loop (read_v_layer strm cell_count) [0..<length (kv_layers kv)] bs kv
         else read_loop (read_v_trans_layer strm cell_count) [0..<length (kv_layers kv)] bs kv)))"

text \<open>One stream: a refusal empties the cache (or the sequence) and throws.\<close>

definition read_stream :: "int \<Rightarrow> nat \<Rightarrow> u8 list \<Rightarrow> kv_cache \<Rightarrow> read_result \<times> kv_cache" where
  "read_stream seq_id s bs kv =
     read_get (io_read_nat 4 bs) kv (\<lambda>cell_count bs.
       if cell_count = 0 then (Read_ok bs, kv)
       else let strm = (if seq_id = - 1 then s else stream_of kv seq_id) in
         case read_then (state_read_meta strm cell_count seq_id bs kv) (state_read_data strm cell_count) of
           (Read_false, kv) \<Rightarrow> if seq_id = - 1 then (Read_throw, kv_clear True kv)
             else read_do (kv_seq_rm seq_id (- 1) (- 1) kv) kv (\<lambda>(_, kv). (Read_throw, kv))
         | r \<Rightarrow> r)"

definition kv_state_read :: "int \<Rightarrow> u8 list \<Rightarrow> kv_cache \<Rightarrow> read_result \<times> kv_cache" where
  "kv_state_read seq_id bs kv =
     (if \<not> (seq_id = - 1 \<or> seq_in_range kv seq_id) then (Read_abort, kv)
      else read_get (io_read_nat 4 bs) kv (\<lambda>n_stream_cur bs.
        if n_stream_cur \<noteq> kv_n_stream kv then (Read_throw, kv)
        else read_loop (read_stream seq_id) [0..<kv_n_stream kv] bs kv))"

end
