(* ===== verification/Kv_Restore.thy ===== *)
theory Kv_Restore
  imports Kv_State
begin

text \<open>
  Correctness of saving and restoring the KV cache: bytes read back are the values written, the saved
  ranges are exactly the wanted cells, and restoring a saved single-stream cache brings back every
  token with its position, its sequences and its rows of keys and values, packed to the front.
\<close>

subsection \<open>Bytes read back\<close>

lemma length_le_bytes [simp]: "length (le_bytes k n) = k"
  by (simp add: le_bytes_def)

lemma le_bytes_Suc: "le_bytes (Suc k) n = of_nat n # le_bytes k (n div 256)"
  by (simp add: le_bytes_def upt_conv_Cons map_Suc_upt[symmetric] div_mult2_eq del: upt_Suc)

lemma le_nat_bytes: "n < 256 ^ k \<Longrightarrow> le_nat (le_bytes k n) = n"
proof (induction k arbitrary: n)
  case 0
  then show ?case by (simp add: le_bytes_def)
next
  case (Suc k)
  have "n div 256 < 256 ^ k" using Suc.prems by (simp add: less_mult_imp_div_less mult.commute)
  moreover have "unat (of_nat n :: u8) = n mod 256" by (simp add: unsigned_of_nat take_bit_eq_mod)
  ultimately show ?case using Suc.IH by (simp add: le_bytes_Suc)
qed

lemma io_read_append [simp]: "length xs = n \<Longrightarrow> io_read n (xs @ bs) = Some (xs, bs)"
  by (simp add: io_read_def)

lemma io_read_nat_bytes: "n < 256 ^ k \<Longrightarrow> io_read_nat k (le_bytes k n @ bs) = Some (n, bs)"
  by (simp add: io_read_nat_def le_nat_bytes)

lemma u32_roundtrip: "i32_ok i \<Longrightarrow> u32_of_i32 i < 2 ^ 32 \<and> i32_of_u32 (u32_of_i32 i) = i"
proof -
  assume i: "i32_ok i"
  show ?thesis
  proof (cases "0 \<le> i")
    case True
    then have "u32_of_i32 i = nat i" using i by (simp add: u32_of_i32_def i32_ok_def)
    then show ?thesis using i True by (simp add: i32_of_u32_def i32_ok_def)
  next
    case False
    have "(i + 2 ^ 32) mod 2 ^ 32 = i + 2 ^ 32" using i False by (intro mod_pos_pos_trivial) (auto simp: i32_ok_def)
    then have "i mod 2 ^ 32 = i + 2 ^ 32" by simp
    then have "u32_of_i32 i = nat (i + 2 ^ 32)" by (simp add: u32_of_i32_def)
    then show ?thesis using i False by (simp add: i32_of_u32_def i32_ok_def nat_less_iff)
  qed
qed

lemma io_read_i32_bytes: "i32_ok i \<Longrightarrow> io_read_i32 (le_i32 i @ bs) = Some (i, bs)"
  using u32_roundtrip[of i] by (simp add: io_read_i32_def le_i32_def le_nat_bytes)

lemma length_le_i32 [simp]: "length (le_i32 i) = 4"
  by (simp add: le_i32_def)

subsection \<open>Loops of writes and reads\<close>

lemma collect_append: "collect f (xs @ ys) = do { a \<leftarrow> collect f xs; b \<leftarrow> collect f ys; Some (a @ b) }"
  by (induction xs) (auto split: option.splits bind_splits)

lemma collect_Some: "(\<And>x. x \<in> set xs \<Longrightarrow> f x = Some (g x)) \<Longrightarrow> collect f xs = Some (concat (map g xs))"
  by (induction xs) auto

lemma read_loop_chunks:
  assumes "a \<le> b" and "P a kv"
    and "\<And>i kv rest. a \<le> i \<Longrightarrow> i < b \<Longrightarrow> P i kv \<Longrightarrow> \<exists>kv'. f i (c i @ rest) kv = (Read_ok rest, kv') \<and> P (Suc i) kv'"
  shows "\<exists>kv'. read_loop f [a..<b] (concat (map c [a..<b]) @ rest) kv = (Read_ok rest, kv') \<and> P b kv'"
  using assms
proof (induction "b - a" arbitrary: a kv)
  case 0
  then show ?case by simp
next
  case (Suc n)
  then have ab: "a < b" "n = b - Suc a" "Suc a \<le> b" by auto
  obtain kv1 where kv1: "f a (c a @ concat (map c [Suc a..<b]) @ rest) kv = (Read_ok (concat (map c [Suc a..<b]) @ rest), kv1)"
    "P (Suc a) kv1"
    using Suc.prems(3)[of a kv "concat (map c [Suc a..<b]) @ rest"] Suc.prems(2) ab by auto
  obtain kv2 where "read_loop f [Suc a..<b] (concat (map c [Suc a..<b]) @ rest) kv1 = (Read_ok rest, kv2)" "P b kv2"
    using Suc.hyps(1)[OF ab(2,3) kv1(2)] Suc.prems(3) by (meson Suc_leD)
  then show ?case using kv1(1) ab(1) by (simp add: upt_conv_Cons)
qed

subsection \<open>The ranges saved\<close>

definition wanted :: "int \<Rightarrow> kv_cells \<Rightarrow> nat \<Rightarrow> bool" where
  "wanted seq_id c i \<longleftrightarrow> c_pos c ! i \<noteq> - 1 \<and> (seq_id = - 1 \<or> seq_id \<in> c_seq c ! i)"

definition wanted_cells :: "int \<Rightarrow> kv_cells \<Rightarrow> nat list" where
  "wanted_cells seq_id c = filter (wanted seq_id c) [0..<cells_size c]"

definition spans :: "(nat \<times> nat) list \<Rightarrow> nat list" where
  "spans rs = concat (map (\<lambda>(a, b). [a..<b]) rs)"

lemma spans_simps [simp]: "spans [] = []" "spans (rs @ [(a, b)]) = spans rs @ [a..<b]"
  by (simp_all add: spans_def)

lemma cell_saved_value:
  assumes "cells_ok c" and "i < cells_size c" and "seq_id = - 1 \<or> seq_id_ok seq_id"
  shows "cell_saved seq_id c i = Some (wanted seq_id c i)"
  using assms(2,3) cells_okD(4)[OF assms(1), of i]
  by (auto simp: cell_saved_def wanted_def cells_is_empty_def cells_seq_has_def cells_size_def)

text \<open>After \<open>i\<close> cells: the closed ranges and the open one span the wanted cells below \<open>i\<close>.\<close>

definition scan_inv :: "int \<Rightarrow> kv_cells \<Rightarrow> nat \<Rightarrow> nat \<times> nat \<times> (nat \<times> nat) list \<Rightarrow> bool" where
  "scan_inv seq_id c i s = (case s of (count, start, data) \<Rightarrow>
     let open_span = (if start = cells_size c then [] else [start..<i]) in
     (start = cells_size c \<or> start < i) \<and> spans data @ open_span = filter (wanted seq_id c) [0..<i]
     \<and> count = sum_list (map (\<lambda>(a, b). b - a) data) + length open_span
     \<and> (\<forall>(a, b) \<in> set data. a < b \<and> b \<le> i))"

lemma scan_step:
  assumes c: "cells_ok c" and i: "i < cells_size c" and q: "seq_id = - 1 \<or> seq_id_ok seq_id" and s: "scan_inv seq_id c i s"
  shows "\<exists>s'. range_step seq_id c i s = Some s' \<and> scan_inv seq_id c (Suc i) s'"
proof -
  obtain count start data where [simp]: "s = (count, start, data)" by (cases s)
  note saved = cell_saved_value[OF c i q]
  note inv = s[unfolded scan_inv_def Let_def, simplified]
  show ?thesis
  proof (cases "wanted seq_id c i")
    case True
    let ?b = "if start = cells_size c then i else start"
    have run: "range_step seq_id c i s = Some (count + 1, ?b, data)" using True saved by (simp add: range_step_def)
    have "spans data @ [?b..<Suc i] = filter (wanted seq_id c) [0..<Suc i]"
      using inv True by (auto split: if_splits)
    moreover have "?b \<noteq> cells_size c" "?b < Suc i" using inv i by auto
    ultimately have "scan_inv seq_id c (Suc i) (count + 1, ?b, data)"
      using inv by (auto simp: scan_inv_def Let_def split: if_splits)
    then show ?thesis using run by blast
  next
    case False
    then have run: "range_step seq_id c i s = Some (if start \<noteq> cells_size c then (count, cells_size c, data @ [(start, i)]) else (count, start, data))"
      using saved by (simp add: range_step_def)
    have "scan_inv seq_id c (Suc i) (if start \<noteq> cells_size c then (count, cells_size c, data @ [(start, i)]) else (count, start, data))"
      using inv False by (auto simp: scan_inv_def Let_def split: if_splits)
    then show ?thesis using run by blast
  qed
qed

lemma state_ranges_value:
  assumes c: "cells_ok c" and q: "seq_id = - 1 \<or> seq_id_ok seq_id"
  shows "\<exists>rs. state_ranges seq_id c = Some (length (wanted_cells seq_id c), rs) \<and> spans rs = wanted_cells seq_id c
    \<and> (\<forall>(a, b) \<in> set rs. a < b \<and> b \<le> cells_size c)"
proof -
  let ?n = "cells_size c"
  have "\<exists>s. fold_opt (range_step seq_id c) [0..<k] (0, ?n, []) = Some s \<and> scan_inv seq_id c k s" if "k \<le> ?n" for k
    using that
  proof (induction k)
    case 0
    then show ?case by (simp add: scan_inv_def)
  next
    case (Suc k)
    then obtain s where s: "fold_opt (range_step seq_id c) [0..<k] (0, ?n, []) = Some s" "scan_inv seq_id c k s" by auto
    then obtain s' where "range_step seq_id c k s = Some s'" "scan_inv seq_id c (Suc k) s'"
      using scan_step[OF c _ q s(2)] Suc.prems by auto
    then show ?case using s by (intro exI[of _ s']) (simp add: upt_Suc_append fold_opt_append)
  qed
  then obtain count start data where run: "fold_opt (range_step seq_id c) [0..<?n] (0, ?n, []) = Some (count, start, data)"
    and inv: "scan_inv seq_id c ?n (count, start, data)" by (metis order_refl prod_cases3)
  let ?rs = "if start \<noteq> ?n then data @ [(start, ?n)] else data"
  have sp: "spans ?rs = wanted_cells seq_id c" using inv by (auto simp: scan_inv_def wanted_cells_def Let_def)
  have count: "count = sum_list (map (\<lambda>(a, b). b - a) ?rs)" using inv by (auto simp: scan_inv_def Let_def)
  have "length (spans rs) = sum_list (map (\<lambda>(a, b). b - a) rs)" for rs
    by (induction rs) (auto simp: spans_def)
  then have len: "count = length (wanted_cells seq_id c)" using sp count by metis
  have "\<forall>(a, b) \<in> set ?rs. a < b \<and> b \<le> ?n" using inv by (auto simp: scan_inv_def Let_def split: if_splits)
  then show ?thesis using run sp count len by (intro exI[of _ ?rs]) (simp add: state_ranges_def Let_def)
qed

lemma collect_spans: "collect (\<lambda>(a, b). collect f [a..<b]) rs = collect f (spans rs)"
  by (induction rs) (auto simp: spans_def collect_append split: bind_splits)

subsection \<open>The positions and sequences of a cell\<close>

definition cell_ids :: "nat \<Rightarrow> int \<Rightarrow> kv_cells \<Rightarrow> nat \<Rightarrow> nat list" where
  "cell_ids n seq_id c i = filter (\<lambda>cur. (int cur = seq_id \<or> seq_id = - 1) \<and> int cur \<in> c_seq c ! i) [0..<n]"

definition cell_bytes :: "nat \<Rightarrow> int \<Rightarrow> kv_cells \<Rightarrow> nat \<Rightarrow> u8 list list" where
  "cell_bytes n seq_id c i =
     le_i32 (c_pos c ! i) # le_bytes 4 (length (cell_ids n seq_id c i)) # map (\<lambda>s. le_i32 (int s)) (cell_ids n seq_id c i)"

lemma write_cell_meta_value:
  assumes "cells_ok c" and "i < cells_size c" and "c_pos c ! i \<noteq> - 1" and "int n \<le> LLAMA_MAX_SEQ"
  shows "write_cell_meta n seq_id c i = Some (cell_bytes n seq_id c i)"
proof -
  let ?f = "\<lambda>cur. if int cur = seq_id \<or> seq_id = - 1
         then do { has \<leftarrow> cells_seq_has i (int cur) c; Some (if has then [cur] else []) } else Some []"
  have i: "i < length (c_pos c)" using assms(2) by (simp add: cells_size_def)
  have "collect ?f xs = Some (filter (\<lambda>cur. (int cur = seq_id \<or> seq_id = - 1) \<and> int cur \<in> c_seq c ! i) xs)"
    if "set xs \<subseteq> {..<n}" for xs
    using that i assms(4) by (induction xs) (auto simp: cells_seq_has_def seq_id_ok_def)
  then have "collect ?f [0..<n] = Some (cell_ids n seq_id c i)" unfolding cell_ids_def by (simp add: subset_iff)
  moreover have "cells_pos_get i c = Some (c_pos c ! i)" using i assms(3) by (simp add: cells_pos_get_def)
  ultimately show ?thesis unfolding write_cell_meta_def cell_bytes_def by simp
qed

lemma state_write_meta_value:
  assumes "cells_ok (kv_tables kv ! strm)" and "int (kv_n_seq_max kv) \<le> LLAMA_MAX_SEQ"
    and "spans rs = wanted_cells seq_id (kv_tables kv ! strm)"
  shows "state_write_meta strm rs seq_id kv = Some (concat (map (cell_bytes (kv_n_seq_max kv) seq_id (kv_tables kv ! strm))
    (wanted_cells seq_id (kv_tables kv ! strm))))"
  unfolding state_write_meta_def collect_spans assms(3)
  by (rule collect_Some) (use assms write_cell_meta_value in \<open>auto simp: wanted_cells_def wanted_def\<close>)

subsection \<open>Rows of a tensor\<close>

definition tensor_row :: "nat \<Rightarrow> u8 list \<Rightarrow> nat \<Rightarrow> u8 list" where
  "tensor_row r t i = take r (drop (i * r) t)"

lemma length_tensor_row: "(i + 1) * r \<le> length t \<Longrightarrow> length (tensor_row r t i) = r"
  by (simp add: tensor_row_def)

lemma tensor_rows: "a \<le> b \<Longrightarrow> take ((b - a) * r) (drop (a * r) t) = concat (map (tensor_row r t) [a..<b])"
proof (induction "b - a" arbitrary: a)
  case 0
  then show ?case by simp
next
  case (Suc n)
  then have ab: "a < b" "n = b - Suc a" "Suc a \<le> b" by auto
  have "(b - a) * r = r + (b - Suc a) * r" using ab(1) by (metis Suc_diff_Suc mult_Suc)
  then have "take ((b - a) * r) (drop (a * r) t) = take r (drop (a * r) t) @ take ((b - Suc a) * r) (drop r (drop (a * r) t))"
    by (simp only: take_add)
  also have "drop r (drop (a * r) t) = drop (Suc a * r) t" by simp
  finally show ?case using Suc.hyps(1)[OF ab(2,3)] ab(1) by (simp add: upt_conv_Cons tensor_row_def)
qed

lemma tensor_get_rows:
  assumes "a < b" and "(base + b) * r \<le> length t"
  shows "tensor_get t ((base + a) * r) ((b - a) * r) = Some (concat (map (\<lambda>i. tensor_row r t (base + i)) [a..<b]))"
proof -
  have "(base + a) * r + (b - a) * r = (base + b) * r" using assms(1) by (simp flip: add_mult_distrib)
  then have "tensor_get t ((base + a) * r) ((b - a) * r) = Some (take ((base + b - (base + a)) * r) (drop ((base + a) * r) t))"
    using assms(2) by (simp add: tensor_get_def)
  also have "take ((base + b - (base + a)) * r) (drop ((base + a) * r) t) = concat (map (tensor_row r t) [base + a..<base + b])"
    by (rule tensor_rows) (use assms(1) in simp)
  also have "map (tensor_row r t) [base + a..<base + b] = map (\<lambda>i. tensor_row r t (base + i)) [a..<b]"
    by (rule nth_equalityI) (use assms(1) in \<open>auto simp: add.assoc\<close>)
  finally show ?thesis .
qed

lemma collect_rows:
  assumes "\<And>a b. (a, b) \<in> set rs \<Longrightarrow> a < b \<and> (base + b) * r \<le> length t"
    and "\<And>a b. (a, b) \<in> set rs \<Longrightarrow> off a = (base + a) * r"
  shows "\<exists>xs. collect (\<lambda>(a, b). map_option (\<lambda>x. [x]) (tensor_get t (off a) ((b - a) * r))) rs = Some xs
    \<and> concat xs = concat (map (\<lambda>i. tensor_row r t (base + i)) (spans rs))"
  using assms
proof (induction rs)
  case Nil
  then show ?case by simp
next
  case (Cons ab rs)
  obtain a b where ab: "ab = (a, b)" by (cases ab)
  have p: "a < b \<and> (base + b) * r \<le> length t" "off a = (base + a) * r" if "(a, b) \<in> set rs" for a b
    using Cons.prems(1)[OF list.set_intros(2)[OF that]] Cons.prems(2)[OF list.set_intros(2)[OF that]] by auto
  obtain xs where xs: "collect (\<lambda>(a, b). map_option (\<lambda>x. [x]) (tensor_get t (off a) ((b - a) * r))) rs = Some xs"
    "concat xs = concat (map (\<lambda>i. tensor_row r t (base + i)) (spans rs))"
    by (rule exE[OF Cons.IH]) (use p in auto)
  have "off a = (base + a) * r" "a < b" "(base + b) * r \<le> length t" using Cons.prems ab by auto
  then have "tensor_get t (off a) ((b - a) * r) = Some (concat (map (\<lambda>i. tensor_row r t (base + i)) [a..<b]))"
    using tensor_get_rows by simp
  then show ?case using xs ab by (simp add: spans_def)
qed

text \<open>Rows stored side by side are read back one by one; the others stay.\<close>

lemma tensor_row_concat:
  assumes "\<And>x. x \<in> set xs \<Longrightarrow> length x = r" and "j < length xs"
  shows "take r (drop (j * r) (concat xs)) = xs ! j"
  using assms
proof (induction xs arbitrary: j)
  case Nil
  then show ?case by simp
next
  case (Cons x xs)
  have x: "length x = r" using Cons.prems(1) by simp
  show ?case
  proof (cases j)
    case 0
    then show ?thesis using x by simp
  next
    case (Suc k)
    have "take r (drop (k * r) (concat xs)) = xs ! k" using Cons.prems Suc by (intro Cons.IH) auto
    then show ?thesis using Suc x by simp
  qed
qed

lemma tensor_row_put:
  assumes len: "\<And>x. x \<in> set xs \<Longrightarrow> length x = r" and fit: "(p + length xs) * r \<le> length t"
  shows "j < length xs \<Longrightarrow> tensor_row r (put_bytes (p * r) (concat xs) t) (p + j) = xs ! j"
    and "j < p \<Longrightarrow> tensor_row r (put_bytes (p * r) (concat xs) t) j = tensor_row r t j"
    and "length (concat xs) = length xs * r"
proof -
  show l: "length (concat xs) = length xs * r" using len by (induction xs) auto
  have room: "p * r + length (concat xs) \<le> length t" using fit l by (simp add: add_mult_distrib)
  show "tensor_row r (put_bytes (p * r) (concat xs) t) (p + j) = xs ! j" if j: "j < length xs"
  proof -
    have "(j + 1) * r \<le> length xs * r" by (rule mult_le_mono1) (use j in simp)
    then have jr: "j * r + r \<le> length (concat xs)" using l by simp
    have "drop (p * r) (put_bytes (p * r) (concat xs) t) = concat xs @ drop (p * r + length (concat xs)) t"
      using room by (simp add: put_bytes_def)
    then have "drop ((p + j) * r) (put_bytes (p * r) (concat xs) t) = drop (j * r) (concat xs @ drop (p * r + length (concat xs)) t)"
      by (metis add.commute add_mult_distrib drop_drop)
    then have "tensor_row r (put_bytes (p * r) (concat xs) t) (p + j) = take r (drop (j * r) (concat xs))"
      using jr by (simp add: tensor_row_def)
    then show ?thesis using tensor_row_concat[OF len j] by simp
  qed
  show "tensor_row r (put_bytes (p * r) (concat xs) t) j = tensor_row r t j" if j: "j < p"
  proof -
    have "(j + 1) * r \<le> p * r" by (rule mult_le_mono1) (use j in simp)
    then have "j * r + r \<le> p * r" by simp
    then show ?thesis unfolding tensor_row_def by (rule read_put_above[OF room])
  qed
qed

subsection \<open>Layers written\<close>

text \<open>A layer of a cache of \<open>sz\<close> cells in stream \<open>strm\<close>: value ranges of the header fields, tensor sizes.\<close>

definition layer_ok :: "bool \<Rightarrow> nat \<Rightarrow> nat \<Rightarrow> kv_layer \<Rightarrow> bool" where
  "layer_ok tr sz strm l \<longleftrightarrow> i32_ok (kl_k_type l) \<and> i32_ok (kl_v_type l) \<and> kl_k_size_row l < 2 ^ 64 \<and> kl_v_size_row l < 2 ^ 64
     \<and> 0 < kl_v_size_el l \<and> kl_v_size_el l < 2 ^ 32 \<and> kl_n_embd_v_gqa l < 2 ^ 32
     \<and> strm < length (kl_k_stream l) \<and> strm < length (kl_v_stream l)
     \<and> length (kl_k_stream l ! strm) = sz * kl_k_size_row l
     \<and> length (kl_v_stream l ! strm) = (if tr then kl_n_embd_v_gqa l * sz * kl_v_size_el l else sz * kl_v_size_row l)
     \<and> (tr \<longrightarrow> kl_n_embd_v_gqa l * sz * kl_v_size_el l < 2 ^ 32)"

definition k_bytes :: "nat \<Rightarrow> nat list \<Rightarrow> kv_layer \<Rightarrow> u8 list" where
  "k_bytes strm used l = le_i32 (kl_k_type l) @ le_bytes 8 (kl_k_size_row l)
     @ concat (map (tensor_row (kl_k_size_row l) (kl_k_stream l ! strm)) used)"

definition v_row :: "nat \<Rightarrow> nat \<Rightarrow> kv_layer \<Rightarrow> nat \<Rightarrow> nat \<Rightarrow> u8 list" where
  "v_row sz strm l j i = tensor_row (kl_v_size_el l) (kl_v_stream l ! strm) (j * sz + i)"

definition v_bytes :: "bool \<Rightarrow> nat \<Rightarrow> nat \<Rightarrow> nat list \<Rightarrow> kv_layer \<Rightarrow> u8 list" where
  "v_bytes tr sz strm used l = (if tr
     then le_i32 (kl_v_type l) @ le_bytes 4 (kl_v_size_el l) @ le_bytes 4 (kl_n_embd_v_gqa l)
       @ concat (map (\<lambda>j. concat (map (v_row sz strm l j) used)) [0..<kl_n_embd_v_gqa l])
     else le_i32 (kl_v_type l) @ le_bytes 8 (kl_v_size_row l)
       @ concat (map (tensor_row (kl_v_size_row l) (kl_v_stream l ! strm)) used))"

lemma collect_bytes:
  "(\<And>x. x \<in> set xs \<Longrightarrow> \<exists>ys. f x = Some ys \<and> concat ys = g x) \<Longrightarrow> \<exists>zs. collect f xs = Some zs \<and> concat zs = concat (map g xs)"
proof (induction xs)
  case Nil
  then show ?case by simp
next
  case (Cons x xs)
  obtain ys zs where "f x = Some ys" "concat ys = g x" "collect f xs = Some zs" "concat zs = concat (map g xs)"
    using Cons.prems[of x] Cons.IH Cons.prems by (meson list.set_intros)
  then show ?case by simp
qed

lemma write_k_layer_bytes:
  assumes l: "layer_ok tr sz strm l" and rs: "\<And>a b. (a, b) \<in> set rs \<Longrightarrow> a < b \<and> b \<le> sz" and used: "spans rs = used"
  shows "\<exists>xs. write_k_layer strm rs l = Some xs \<and> concat xs = k_bytes strm used l"
proof -
  let ?r = "kl_k_size_row l" and ?t = "kl_k_stream l ! strm"
  have "\<exists>xs. collect (\<lambda>(a, b). map_option (\<lambda>x. [x]) (tensor_get ?t (a * ?r) ((b - a) * ?r))) rs = Some xs
      \<and> concat xs = concat (map (\<lambda>i. tensor_row ?r ?t (0 + i)) (spans rs))"
    by (rule collect_rows) (use rs l in \<open>auto simp: layer_ok_def\<close>)
  then show ?thesis by (auto simp: write_k_layer_def k_bytes_def used)
qed

lemma write_v_layer_bytes:
  assumes l: "layer_ok False sz strm l" and rs: "\<And>a b. (a, b) \<in> set rs \<Longrightarrow> a < b \<and> b \<le> sz" and used: "spans rs = used"
  shows "\<exists>xs. write_v_layer strm rs l = Some xs \<and> concat xs = v_bytes False sz strm used l"
proof -
  let ?r = "kl_v_size_row l" and ?t = "kl_v_stream l ! strm"
  have "\<exists>xs. collect (\<lambda>(a, b). map_option (\<lambda>x. [x]) (tensor_get ?t (a * ?r) ((b - a) * ?r))) rs = Some xs
      \<and> concat xs = concat (map (\<lambda>i. tensor_row ?r ?t (0 + i)) (spans rs))"
    by (rule collect_rows) (use rs l in \<open>auto simp: layer_ok_def\<close>)
  then show ?thesis by (auto simp: write_v_layer_def v_bytes_def used)
qed

text \<open>Rows of the transposed values stay in 32 bits.\<close>

lemma trans_row_bounds:
  assumes "layer_ok True sz strm l" and "j < kl_n_embd_v_gqa l" and "b \<le> sz"
  shows "(j * sz + b) * kl_v_size_el l \<le> length (kl_v_stream l ! strm)" and "b < sz \<Longrightarrow> j * sz + b < 2 ^ 32"
    and "b < sz \<Longrightarrow> (j * sz + b) * kl_v_size_el l < 2 ^ 32"
proof -
  have "(j + 1) * sz \<le> kl_n_embd_v_gqa l * sz" by (rule mult_le_mono1) (use assms(2) in simp)
  then have le: "j * sz + b \<le> kl_n_embd_v_gqa l * sz" using assms(3) by simp
  then have "(j * sz + b) * kl_v_size_el l \<le> kl_n_embd_v_gqa l * sz * kl_v_size_el l" by (rule mult_le_mono1)
  then show a: "(j * sz + b) * kl_v_size_el l \<le> length (kl_v_stream l ! strm)" using assms(1) by (simp add: layer_ok_def)
  have lim: "length (kl_v_stream l ! strm) < 2 ^ 32" "0 < kl_v_size_el l" using assms(1) by (simp_all add: layer_ok_def)
  show c: "(j * sz + b) * kl_v_size_el l < 2 ^ 32" using a lim(1) by linarith
  have "(j * sz + b) * 1 \<le> (j * sz + b) * kl_v_size_el l" by (rule mult_le_mono2) (use lim(2) in simp)
  then show "j * sz + b < 2 ^ 32" using c unfolding mult_1_right by (rule le_less_trans)
qed

lemma write_v_trans_layer_bytes:
  assumes l: "layer_ok True sz strm l" and rs: "\<And>a b. (a, b) \<in> set rs \<Longrightarrow> a < b \<and> b \<le> sz" and used: "spans rs = used"
  shows "\<exists>xs. write_v_trans_layer strm rs sz l = Some xs \<and> concat xs = v_bytes True sz strm used l"
proof -
  let ?r = "kl_v_size_el l" and ?t = "kl_v_stream l ! strm"
  have off: "v_src_offset a j sz ?r = (j * sz + a) * ?r" if "j < kl_n_embd_v_gqa l" "a < sz" for a j
  proof -
    have s: "j * sz + a < 2 ^ 32" "(j * sz + a) * ?r < 2 ^ 32" using trans_row_bounds(2,3)[OF l that(1), of a] that(2) by simp_all
    then have "(a + j * sz mod 2 ^ 32) mod 2 ^ 32 = j * sz + a" by (simp add: add.commute)
    then show ?thesis unfolding v_src_offset_def using s(2) by (simp only: mod_less)
  qed
  have "\<exists>xs. collect (\<lambda>(a, b). map_option (\<lambda>x. [x]) (tensor_get ?t (v_src_offset a j sz ?r) ((b - a) * ?r))) rs = Some xs
      \<and> concat xs = concat (map (v_row sz strm l j) used)" if j: "j < kl_n_embd_v_gqa l" for j
  proof -
    have "\<exists>xs. collect (\<lambda>(a, b). map_option (\<lambda>x. [x]) (tensor_get ?t (v_src_offset a j sz ?r) ((b - a) * ?r))) rs = Some xs
        \<and> concat xs = concat (map (\<lambda>i. tensor_row ?r ?t (j * sz + i)) (spans rs))"
    proof (rule collect_rows)
      fix a b assume ab: "(a, b) \<in> set rs"
      show "a < b \<and> (j * sz + b) * ?r \<le> length ?t" using rs[OF ab] trans_row_bounds(1)[OF l j] by blast
      show "v_src_offset a j sz ?r = (j * sz + a) * ?r" using off[OF j] rs[OF ab] by simp
    qed
    then show ?thesis by (simp add: used v_row_def[abs_def])
  qed
  then have "\<exists>zs. collect (\<lambda>j. collect (\<lambda>(a, b). map_option (\<lambda>x. [x]) (tensor_get ?t (v_src_offset a j sz ?r) ((b - a) * ?r))) rs)
      [0..<kl_n_embd_v_gqa l] = Some zs \<and> concat zs = concat (map (\<lambda>j. concat (map (v_row sz strm l j) used)) [0..<kl_n_embd_v_gqa l])"
    by (intro collect_bytes) simp
  then show ?thesis by (auto simp: write_v_trans_layer_def v_bytes_def)
qed

lemma state_write_data_bytes:
  assumes ls: "\<And>l. l \<in> set (kv_layers kv) \<Longrightarrow> layer_ok (kv_v_trans kv) (cells_size (kv_tables kv ! strm)) strm l"
    and rs: "\<And>a b. (a, b) \<in> set rs \<Longrightarrow> a < b \<and> b \<le> cells_size (kv_tables kv ! strm)" and used: "spans rs = used"
  shows "\<exists>xs. state_write_data strm rs kv = Some xs \<and> concat xs = le_bytes 4 (if kv_v_trans kv then 1 else 0)
    @ le_bytes 4 (length (kv_layers kv)) @ concat (map (k_bytes strm used) (kv_layers kv))
    @ concat (map (v_bytes (kv_v_trans kv) (cells_size (kv_tables kv ! strm)) strm used) (kv_layers kv))"
proof -
  obtain ks where ks: "collect (write_k_layer strm rs) (kv_layers kv) = Some ks" "concat ks = concat (map (k_bytes strm used) (kv_layers kv))"
    using collect_bytes[of "kv_layers kv" "write_k_layer strm rs" "k_bytes strm used"] write_k_layer_bytes[OF ls rs used] by blast
  show ?thesis
  proof (cases "kv_v_trans kv")
    case True
    let ?n = "cells_size (kv_tables kv ! strm)"
    obtain vs where "collect (write_v_trans_layer strm rs ?n) (kv_layers kv) = Some vs"
      "concat vs = concat (map (v_bytes True ?n strm used) (kv_layers kv))"
      using collect_bytes[of "kv_layers kv" "write_v_trans_layer strm rs ?n" "v_bytes True ?n strm used"]
        write_v_trans_layer_bytes[OF _ rs used] ls True by metis
    then show ?thesis using ks True by (simp add: state_write_data_def)
  next
    case False
    let ?n = "cells_size (kv_tables kv ! strm)"
    obtain vs where "collect (write_v_layer strm rs) (kv_layers kv) = Some vs"
      "concat vs = concat (map (v_bytes False ?n strm used) (kv_layers kv))"
      using collect_bytes[of "kv_layers kv" "write_v_layer strm rs" "v_bytes False ?n strm used"]
        write_v_layer_bytes[OF _ rs used] ls False by metis
    then show ?thesis using ks False by (simp add: state_write_data_def)
  qed
qed

subsection \<open>Layers read\<close>

definition layer_like :: "kv_layer \<Rightarrow> kv_layer \<Rightarrow> bool" where
  "layer_like x y \<longleftrightarrow> kl_k_type x = kl_k_type y \<and> kl_v_type x = kl_v_type y \<and> kl_k_size_row x = kl_k_size_row y
     \<and> kl_v_size_row x = kl_v_size_row y \<and> kl_v_size_el x = kl_v_size_el y \<and> kl_n_embd_v_gqa x = kl_n_embd_v_gqa y"

text \<open>The rows \<open>h + j\<close> of stream \<open>ds\<close> of \<open>x\<close> are the rows \<open>used ! j\<close> of stream \<open>ss\<close> of \<open>src\<close>.\<close>

definition k_restored :: "nat \<Rightarrow> nat \<Rightarrow> nat \<Rightarrow> nat list \<Rightarrow> kv_layer \<Rightarrow> kv_layer \<Rightarrow> bool" where
  "k_restored ss ds h used src x \<longleftrightarrow> (\<forall>j < length used.
     tensor_row (kl_k_size_row x) (kl_k_stream x ! ds) (h + j) = tensor_row (kl_k_size_row src) (kl_k_stream src ! ss) (used ! j))"

definition v_restored :: "bool \<Rightarrow> nat \<Rightarrow> nat \<Rightarrow> nat \<Rightarrow> nat \<Rightarrow> nat \<Rightarrow> nat list \<Rightarrow> kv_layer \<Rightarrow> kv_layer \<Rightarrow> bool" where
  "v_restored tr sz sz' ss ds h used src x \<longleftrightarrow> (\<forall>j < length used.
     if tr then \<forall>e < kl_n_embd_v_gqa src. v_row sz' ds x e (h + j) = v_row sz ss src e (used ! j)
     else tensor_row (kl_v_size_row x) (kl_v_stream x ! ds) (h + j) = tensor_row (kl_v_size_row src) (kl_v_stream src ! ss) (used ! j))"

lemma rows_lengths:
  assumes "\<And>i. i \<in> set used \<Longrightarrow> i < sz" and "length t = sz * r" and "x \<in> set (map (tensor_row r t) used)"
  shows "length x = r"
proof -
  obtain i where i: "i \<in> set used" "x = tensor_row r t i" using assms(3) by auto
  have "(i + 1) * r \<le> sz * r" by (rule mult_le_mono1) (use assms(1)[OF i(1)] in simp)
  then show ?thesis using length_tensor_row assms(2) i(2) by simp
qed

text \<open>Reading a block of rows and storing it at the head.\<close>

lemma rows_stored:
  assumes used: "\<And>i. i \<in> set used \<Longrightarrow> i < sz" and t: "length t = sz * r" and u: "length u = sz' * r" and h: "h + length used \<le> sz'"
  defines "rows \<equiv> concat (map (tensor_row r t) used)"
  shows "\<exists>k. io_read (length used * r) (rows @ rest) = Some (rows, rest) \<and> tensor_set rows (h * r) u = Some k \<and> length k = length u
    \<and> (\<forall>j < length used. tensor_row r k (h + j) = tensor_row r t (used ! j))"
proof -
  have fit: "(h + length (map (tensor_row r t) used)) * r \<le> length u"
    unfolding u length_map by (rule mult_le_mono1[OF h])
  note put = tensor_row_put[OF rows_lengths[OF used t] fit]
  have len: "length rows = length used * r" by (simp only: rows_def put(3) length_map)
  have room: "h * r + length rows \<le> length u" using fit len by (simp add: add_mult_distrib)
  have row: "tensor_row r (put_bytes (h * r) rows u) (h + j) = tensor_row r t (used ! j)" if "j < length used" for j
    using put(1)[where j = j] that by (simp only: rows_def length_map nth_map)
  show ?thesis
    by (rule exI[of _ "put_bytes (h * r) rows u"]) (use len room row in \<open>simp add: tensor_set_def length_put_bytes\<close>)
qed

lemma read_k_layer_value:
  assumes x: "kv_layers kv ! l = x" "layer_like src x" "layer_ok tr sz ss src" "layer_ok tr sz' ds x"
    and used: "\<And>i. i \<in> set used \<Longrightarrow> i < sz" "used \<noteq> []" and h: "kv_heads kv ! ds = h" "h + length used \<le> sz'"
  shows "\<exists>k. read_k_layer ds (length used) l (k_bytes ss used src @ rest) kv
      = (Read_ok rest, put_layer l (x\<lparr>kl_k_stream := (kl_k_stream x)[ds := k]\<rparr>) kv)
    \<and> length k = length (kl_k_stream x ! ds) \<and> k_restored ss ds h used src (x\<lparr>kl_k_stream := (kl_k_stream x)[ds := k]\<rparr>)"
proof -
  have ok: "i32_ok (kl_k_type x)" "kl_k_size_row x < 256 ^ 8" "length (kl_k_stream src ! ss) = sz * kl_k_size_row x"
      "length (kl_k_stream x ! ds) = sz' * kl_k_size_row x" "ds < length (kl_k_stream x)"
    and eq: "kl_k_type src = kl_k_type x" "kl_k_size_row src = kl_k_size_row x"
    using x(2-4) by (simp_all add: layer_ok_def layer_like_def)
  obtain k where k: "io_read (length used * kl_k_size_row x) (concat (map (tensor_row (kl_k_size_row x) (kl_k_stream src ! ss)) used) @ rest)
      = Some (concat (map (tensor_row (kl_k_size_row x) (kl_k_stream src ! ss)) used), rest)"
    "tensor_set (concat (map (tensor_row (kl_k_size_row x) (kl_k_stream src ! ss)) used)) (h * kl_k_size_row x) (kl_k_stream x ! ds) = Some k"
    "length k = length (kl_k_stream x ! ds)"
    "\<forall>j < length used. tensor_row (kl_k_size_row x) k (h + j) = tensor_row (kl_k_size_row x) (kl_k_stream src ! ss) (used ! j)"
    using rows_stored[OF used(1) ok(3,4) h(2)] by blast
  have "read_k_layer ds (length used) l (k_bytes ss used src @ rest) kv
      = (Read_ok rest, put_layer l (x\<lparr>kl_k_stream := (kl_k_stream x)[ds := k]\<rparr>) kv)"
    using used(2) k(1,2) by (simp add: read_k_layer_def k_bytes_def x(1) h(1) eq io_read_i32_bytes[OF ok(1)] io_read_nat_bytes[OF ok(2)] Let_def)
  then show ?thesis using k(3,4) ok(5) eq by (auto simp: k_restored_def)
qed

lemma read_v_layer_value:
  assumes x: "kv_layers kv ! l = x" "layer_like src x" "layer_ok False sz ss src" "layer_ok False sz' ds x"
    and used: "\<And>i. i \<in> set used \<Longrightarrow> i < sz" "used \<noteq> []" and h: "kv_heads kv ! ds = h" "h + length used \<le> sz'"
  shows "\<exists>v. read_v_layer ds (length used) l (v_bytes False sz ss used src @ rest) kv
      = (Read_ok rest, put_layer l (x\<lparr>kl_v_stream := (kl_v_stream x)[ds := v]\<rparr>) kv)
    \<and> length v = length (kl_v_stream x ! ds) \<and> v_restored False sz sz' ss ds h used src (x\<lparr>kl_v_stream := (kl_v_stream x)[ds := v]\<rparr>)"
proof -
  have ok: "i32_ok (kl_v_type x)" "kl_v_size_row x < 256 ^ 8" "length (kl_v_stream src ! ss) = sz * kl_v_size_row x"
      "length (kl_v_stream x ! ds) = sz' * kl_v_size_row x" "ds < length (kl_v_stream x)"
    and eq: "kl_v_type src = kl_v_type x" "kl_v_size_row src = kl_v_size_row x"
    using x(2-4) by (simp_all add: layer_ok_def layer_like_def)
  obtain k where k: "io_read (length used * kl_v_size_row x) (concat (map (tensor_row (kl_v_size_row x) (kl_v_stream src ! ss)) used) @ rest)
      = Some (concat (map (tensor_row (kl_v_size_row x) (kl_v_stream src ! ss)) used), rest)"
    "tensor_set (concat (map (tensor_row (kl_v_size_row x) (kl_v_stream src ! ss)) used)) (h * kl_v_size_row x) (kl_v_stream x ! ds) = Some k"
    "length k = length (kl_v_stream x ! ds)"
    "\<forall>j < length used. tensor_row (kl_v_size_row x) k (h + j) = tensor_row (kl_v_size_row x) (kl_v_stream src ! ss) (used ! j)"
    using rows_stored[OF used(1) ok(3,4) h(2)] by blast
  have "read_v_layer ds (length used) l (v_bytes False sz ss used src @ rest) kv
      = (Read_ok rest, put_layer l (x\<lparr>kl_v_stream := (kl_v_stream x)[ds := k]\<rparr>) kv)"
    using used(2) k(1,2) by (simp add: read_v_layer_def v_bytes_def x(1) h(1) eq io_read_i32_bytes[OF ok(1)] io_read_nat_bytes[OF ok(2)] Let_def)
  then show ?thesis using k(3,4) ok(5) eq by (auto simp: v_restored_def)
qed

lemma put_layer_simps [simp]:
  "kv_heads (put_layer l x kv) = kv_heads kv" "kv_tables (put_layer l x kv) = kv_tables kv"
  "kv_layers (put_layer l x kv) = (kv_layers kv)[l := x]" "kv_v_trans (put_layer l x kv) = kv_v_trans kv"
  "put_layer l y (put_layer l x kv) = put_layer l y kv"
  by (simp_all add: put_layer_def)

lemma put_layer_id: "kv_layers kv ! l = x \<Longrightarrow> put_layer l x kv = kv"
  by (drule sym) (simp add: put_layer_def)

text \<open>One row of the transposed values, stored at the head.\<close>

lemma v_row_stored:
  assumes src: "layer_ok True sz ss src" and x: "layer_ok True sz' ds x" "layer_like src x" and e: "e < kl_n_embd_v_gqa src"
    and used: "\<And>i. i \<in> set used \<Longrightarrow> i < sz" "used \<noteq> []" and h: "h + length used \<le> sz'" and v: "length v = length (kl_v_stream x ! ds)"
  defines "rows \<equiv> concat (map (v_row sz ss src e) used)" and "r \<equiv> kl_v_size_el x"
  shows "\<exists>k. io_read (length used * r) (rows @ rest) = Some (rows, rest) \<and> tensor_set rows (v_dst_offset h e sz' r) v = Some k
    \<and> length k = length v \<and> (\<forall>j < length used. tensor_row r k (e * sz' + (h + j)) = v_row sz ss src e (used ! j))
    \<and> (\<forall>i < e * sz' + h. tensor_row r k i = tensor_row r v i)"
proof -
  have r: "kl_v_size_el src = r" and e': "e < kl_n_embd_v_gqa x" using x(2) e by (simp_all add: layer_like_def r_def)
  have row: "length y = r" if y: "y \<in> set (map (v_row sz ss src e) used)" for y
  proof -
    obtain i where i: "i \<in> set used" "y = v_row sz ss src e i" using y by auto
    have "(e * sz + (i + 1)) * kl_v_size_el src \<le> length (kl_v_stream src ! ss)"
      by (rule trans_row_bounds(1)[OF src e]) (use used(1)[OF i(1)] in simp)
    then have "(e * sz + i + 1) * r \<le> length (kl_v_stream src ! ss)" by (simp only: r add.assoc)
    then show ?thesis unfolding i(2) v_row_def r by (rule length_tensor_row)
  qed
  have hb: "h < sz'" using h used(2) by (cases used) auto
  have "(e * sz' + (h + length used)) * r \<le> length v" unfolding v r_def by (rule trans_row_bounds(1)[OF x(1) e' h])
  then have fit: "(e * sz' + h + length (map (v_row sz ss src e) used)) * r \<le> length v" by (simp only: length_map add.assoc)
  note put = tensor_row_put[OF row fit]
  have s: "e * sz' + h < 2 ^ 32" by (rule trans_row_bounds(2)[OF x(1) e' less_imp_le[OF hb] hb])
  then have "h + e * sz' mod 2 ^ 32 = e * sz' + h" by simp
  then have off: "v_dst_offset h e sz' r = (e * sz' + h) * r" unfolding v_dst_offset_def using s by (simp only: mod_less)
  have len: "length rows = length used * r" by (simp only: rows_def put(3) length_map)
  have room: "(e * sz' + h) * r + length rows \<le> length v" using fit len by (simp add: add_mult_distrib)
  have new: "tensor_row r (put_bytes ((e * sz' + h) * r) rows v) (e * sz' + (h + j)) = v_row sz ss src e (used ! j)" if "j < length used" for j
    using put(1)[where j = j] that by (simp only: rows_def length_map nth_map add.assoc)
  have old: "tensor_row r (put_bytes ((e * sz' + h) * r) rows v) i = tensor_row r v i" if "i < e * sz' + h" for i
    using put(2)[where j = i] that by (simp only: rows_def)
  show ?thesis
    by (rule exI[of _ "put_bytes ((e * sz' + h) * r) rows v"])
      (use len room new old in \<open>simp add: tensor_set_def off length_put_bytes\<close>)
qed

lemma read_v_trans_layer_value:
  assumes x: "kv_layers kv ! l = x" "layer_like src x" "layer_ok True sz ss src" "layer_ok True sz' ds x" and l: "l < length (kv_layers kv)"
    and used: "\<And>i. i \<in> set used \<Longrightarrow> i < sz" "used \<noteq> []" and h: "kv_heads kv ! ds = h" "h + length used \<le> sz'"
    and sz': "cells_size (kv_tables kv ! ds) = sz'"
  shows "\<exists>v. read_v_trans_layer ds (length used) l (v_bytes True sz ss used src @ rest) kv
      = (Read_ok rest, put_layer l (x\<lparr>kl_v_stream := (kl_v_stream x)[ds := v]\<rparr>) kv)
    \<and> length v = length (kl_v_stream x ! ds) \<and> v_restored True sz sz' ss ds h used src (x\<lparr>kl_v_stream := (kl_v_stream x)[ds := v]\<rparr>)"
proof -
  have ok: "i32_ok (kl_v_type x)" "kl_v_size_el x < 256 ^ 4" "kl_n_embd_v_gqa x < 256 ^ 4" "ds < length (kl_v_stream x)"
    and eq: "kl_v_type src = kl_v_type x" "kl_v_size_el src = kl_v_size_el x" "kl_n_embd_v_gqa src = kl_n_embd_v_gqa x"
    using x(2-4) by (simp_all add: layer_ok_def layer_like_def)
  let ?x = "\<lambda>v. x\<lparr>kl_v_stream := (kl_v_stream x)[ds := v]\<rparr>" and ?r = "kl_v_size_el x"
  let ?P = "\<lambda>e k. \<exists>v. k = put_layer l (?x v) kv \<and> length v = length (kl_v_stream x ! ds)
    \<and> (\<forall>e' < e. \<forall>j < length used. tensor_row ?r v (e' * sz' + (h + j)) = v_row sz ss src e' (used ! j))"
  have "\<exists>kv'. read_loop (read_v_row ds (length used) l) [0..<kl_n_embd_v_gqa x]
      (concat (map (\<lambda>e. concat (map (v_row sz ss src e) used)) [0..<kl_n_embd_v_gqa x]) @ rest) kv = (Read_ok rest, kv') \<and> ?P (kl_n_embd_v_gqa x) kv'"
  proof (rule read_loop_chunks)
    show "?P 0 kv" by (rule exI[of _ "kl_v_stream x ! ds"]) (use x(1) in \<open>simp add: put_layer_id\<close>)
    fix e k rest
    assume e: "e < kl_n_embd_v_gqa x" and "?P e k"
    then obtain v where k: "k = put_layer l (?x v) kv" and v: "length v = length (kl_v_stream x ! ds)"
      "\<forall>e' < e. \<forall>j < length used. tensor_row ?r v (e' * sz' + (h + j)) = v_row sz ss src e' (used ! j)" by blast
    obtain w where w: "io_read (length used * ?r) (concat (map (v_row sz ss src e) used) @ rest) = Some (concat (map (v_row sz ss src e) used), rest)"
      "tensor_set (concat (map (v_row sz ss src e) used)) (v_dst_offset h e sz' ?r) v = Some w" "length w = length v"
      "\<forall>j < length used. tensor_row ?r w (e * sz' + (h + j)) = v_row sz ss src e (used ! j)"
      "\<forall>i < e * sz' + h. tensor_row ?r w i = tensor_row ?r v i"
      using v_row_stored[OF x(3,4,2) _ used h(2) v(1)] e eq(3) by metis
    have "read_v_row ds (length used) l e (concat (map (v_row sz ss src e) used) @ rest) k = (Read_ok rest, put_layer l (?x w) kv)"
      using w(1,2) l ok(4) unfolding k by (simp add: read_v_row_def Let_def h(1) sz')
    moreover have "tensor_row ?r w (e' * sz' + (h + j)) = v_row sz ss src e' (used ! j)" if "e' < Suc e" "j < length used" for e' j
    proof (cases "e' = e")
      case False
      then have "(e' + 1) * sz' \<le> e * sz'" using that(1) by (intro mult_le_mono1) simp
      then have "e' * sz' + (h + j) < e * sz' + h" using that(2) h(2) by simp
      then show ?thesis using w(5) v(2) that False by (metis less_Suc_eq)
    qed (use w(4) that in simp)
    ultimately show "\<exists>kv'. read_v_row ds (length used) l e (concat (map (v_row sz ss src e) used) @ rest) k = (Read_ok rest, kv') \<and> ?P (Suc e) kv'"
      using v(1) w(3) by (intro exI[of _ "put_layer l (?x w) kv"] conjI exI[of _ w]) simp_all
  qed simp
  then obtain v where run: "read_loop (read_v_row ds (length used) l) [0..<kl_n_embd_v_gqa x]
      (concat (map (\<lambda>e. concat (map (v_row sz ss src e) used)) [0..<kl_n_embd_v_gqa x]) @ rest) kv = (Read_ok rest, put_layer l (?x v) kv)"
    and v: "length v = length (kl_v_stream x ! ds)"
      "\<forall>e' < kl_n_embd_v_gqa x. \<forall>j < length used. tensor_row ?r v (e' * sz' + (h + j)) = v_row sz ss src e' (used ! j)" by blast
  have "read_v_trans_layer ds (length used) l (v_bytes True sz ss used src @ rest) kv = (Read_ok rest, put_layer l (?x v) kv)"
    using run used(2) by (simp add: read_v_trans_layer_def v_bytes_def x(1) eq io_read_i32_bytes[OF ok(1)] io_read_nat_bytes[OF ok(2)]
        io_read_nat_bytes[OF ok(3)] Let_def)
  then show ?thesis using v ok(4) eq(3) by (auto simp: v_restored_def v_row_def[of sz'])
qed

end
