(* ===== verification/Kv_Roundtrip.thy ===== *)
theory Kv_Roundtrip
  imports Kv_Restore
begin

text \<open>
  The round trip of the KV cache through its saved state, what a save costs, and where a restore
  departs from the state that was saved.
\<close>

subsection \<open>The tensors of all layers\<close>

definition layers_match :: "bool \<Rightarrow> nat \<Rightarrow> nat \<Rightarrow> nat \<Rightarrow> nat \<Rightarrow> kv_layer list \<Rightarrow> kv_layer list \<Rightarrow> bool" where
  "layers_match tr sz sz' ss ds ls xs \<longleftrightarrow> length xs = length ls
     \<and> (\<forall>l < length ls. layer_like (ls ! l) (xs ! l) \<and> layer_ok tr sz ss (ls ! l) \<and> layer_ok tr sz' ds (xs ! l))"

text \<open>The first \<open>nk\<close> layers have their keys restored, the first \<open>nv\<close> their values.\<close>

definition data_inv :: "kv_cache \<Rightarrow> bool \<Rightarrow> nat \<Rightarrow> nat \<Rightarrow> nat \<Rightarrow> nat \<Rightarrow> nat \<Rightarrow> nat list \<Rightarrow> kv_layer list \<Rightarrow> nat \<Rightarrow> nat \<Rightarrow> kv_cache \<Rightarrow> bool" where
  "data_inv kv0 tr sz sz' ss ds h used ls nk nv kv \<longleftrightarrow> kv = kv0\<lparr>kv_layers := kv_layers kv\<rparr>
     \<and> layers_match tr sz sz' ss ds ls (kv_layers kv)
     \<and> (\<forall>l < nk. k_restored ss ds h used (ls ! l) (kv_layers kv ! l))
     \<and> (\<forall>l < nv. v_restored tr sz sz' ss ds h used (ls ! l) (kv_layers kv ! l))"

lemma put_layer_frame: "kv = kv0\<lparr>kv_layers := ys\<rparr> \<Longrightarrow> put_layer l x kv = kv0\<lparr>kv_layers := kv_layers (put_layer l x kv)\<rparr>"
  by (simp add: put_layer_def)

lemma data_inv_heads:
  assumes "data_inv kv0 tr sz sz' ss ds h used ls nk nv kv"
  shows "kv_heads kv = kv_heads kv0" "kv_tables kv = kv_tables kv0" "kv_v_trans kv = kv_v_trans kv0" "length (kv_layers kv) = length ls"
proof -
  have eq: "kv = kv0\<lparr>kv_layers := kv_layers kv\<rparr>" using assms by (simp add: data_inv_def)
  show "kv_heads kv = kv_heads kv0" "kv_tables kv = kv_tables kv0" "kv_v_trans kv = kv_v_trans kv0" by (subst eq, simp)+
  show "length (kv_layers kv) = length ls" using assms by (simp add: data_inv_def layers_match_def)
qed

lemma data_inv_put:
  assumes inv: "data_inv kv0 tr sz sz' ss ds h used ls nk nv kv" and l: "l < length ls"
    and x: "layer_like (ls ! l) x" "layer_ok tr sz' ds x"
    and k: "l < nk' \<Longrightarrow> k_restored ss ds h used (ls ! l) x" and v: "l < nv' \<Longrightarrow> v_restored tr sz sz' ss ds h used (ls ! l) x"
    and n: "nk' \<le> nk \<or> nk' = Suc l \<and> l = nk" "nv' \<le> nv \<or> nv' = Suc l \<and> l = nv"
  shows "data_inv kv0 tr sz sz' ss ds h used ls nk' nv' (put_layer l x kv)"
proof -
  have len: "length (kv_layers kv) = length ls" using inv by (simp add: data_inv_def layers_match_def)
  have at: "(kv_layers kv)[l := x] ! i = (if i = l then x else kv_layers kv ! i)" for i
    using l len by (simp add: nth_list_update)
  have "kv = kv0\<lparr>kv_layers := kv_layers kv\<rparr>" using inv by (simp add: data_inv_def)
  then have frame: "put_layer l x kv = kv0\<lparr>kv_layers := kv_layers (put_layer l x kv)\<rparr>" by (rule put_layer_frame)
  have "layers_match tr sz sz' ss ds ls ((kv_layers kv)[l := x])"
    using inv x by (auto simp: data_inv_def layers_match_def at)
  moreover have "k_restored ss ds h used (ls ! i) ((kv_layers kv)[l := x] ! i)" if "i < nk'" for i
    using inv k n(1) that unfolding at by (cases "i = l") (auto simp: data_inv_def)
  moreover have "v_restored tr sz sz' ss ds h used (ls ! i) ((kv_layers kv)[l := x] ! i)" if "i < nv'" for i
    using inv v n(2) that unfolding at by (cases "i = l") (auto simp: data_inv_def)
  ultimately show ?thesis using frame by (simp add: data_inv_def)
qed

lemma layer_update_ok:
  "layer_ok tr sz ds x \<Longrightarrow> length k = length (kl_k_stream x ! ds) \<Longrightarrow> layer_ok tr sz ds (x\<lparr>kl_k_stream := (kl_k_stream x)[ds := k]\<rparr>)"
  "layer_ok tr sz ds x \<Longrightarrow> length k = length (kl_v_stream x ! ds) \<Longrightarrow> layer_ok tr sz ds (x\<lparr>kl_v_stream := (kl_v_stream x)[ds := k]\<rparr>)"
  by (simp_all add: layer_ok_def)

lemma layer_update_like [simp]:
  "layer_like y (x\<lparr>kl_k_stream := ks\<rparr>) = layer_like y x" "layer_like y (x\<lparr>kl_v_stream := ks\<rparr>) = layer_like y x"
  by (simp_all add: layer_like_def)

lemma restored_other [simp]:
  "k_restored ss ds h used y (x\<lparr>kl_v_stream := ks\<rparr>) = k_restored ss ds h used y x"
  "v_restored tr sz sz' ss ds h used y (x\<lparr>kl_k_stream := ks\<rparr>) = v_restored tr sz sz' ss ds h used y x"
  by (simp_all add: k_restored_def v_restored_def v_row_def)

lemma read_keys:
  assumes inv: "data_inv kv tr sz sz' ss ds h used ls 0 0 kv"
    and used: "\<And>i. i \<in> set used \<Longrightarrow> i < sz" "used \<noteq> []" and h: "kv_heads kv ! ds = h" "h + length used \<le> sz'"
  shows "\<exists>kv'. read_loop (read_k_layer ds (length used)) [0..<length ls] (concat (map (k_bytes ss used) ls) @ rest) kv = (Read_ok rest, kv')
    \<and> data_inv kv tr sz sz' ss ds h used ls (length ls) 0 kv'"
proof -
  have "\<exists>kv'. read_loop (read_k_layer ds (length used)) [0..<length ls] (concat (map (\<lambda>l. k_bytes ss used (ls ! l)) [0..<length ls]) @ rest) kv
      = (Read_ok rest, kv') \<and> data_inv kv tr sz sz' ss ds h used ls (length ls) 0 kv'"
  proof (rule read_loop_chunks[where P = "\<lambda>l. data_inv kv tr sz sz' ss ds h used ls l 0"])
    fix l k rest
    assume l: "l < length ls" and k: "data_inv kv tr sz sz' ss ds h used ls l 0 k"
    let ?x = "kv_layers k ! l"
    have x: "layer_like (ls ! l) ?x" "layer_ok tr sz ss (ls ! l)" "layer_ok tr sz' ds ?x"
      using k l by (simp_all add: data_inv_def layers_match_def)
    have hd: "kv_heads k ! ds = h" using data_inv_heads(1)[OF k] h(1) by simp
    obtain t where t: "read_k_layer ds (length used) l (k_bytes ss used (ls ! l) @ rest) k
        = (Read_ok rest, put_layer l (?x\<lparr>kl_k_stream := (kl_k_stream ?x)[ds := t]\<rparr>) k)"
      "length t = length (kl_k_stream ?x ! ds)" "k_restored ss ds h used (ls ! l) (?x\<lparr>kl_k_stream := (kl_k_stream ?x)[ds := t]\<rparr>)"
      using read_k_layer_value[OF refl x used hd h(2)] by blast
    have "data_inv kv tr sz sz' ss ds h used ls (Suc l) 0 (put_layer l (?x\<lparr>kl_k_stream := (kl_k_stream ?x)[ds := t]\<rparr>) k)"
      by (rule data_inv_put[OF k l]) (use x t layer_update_ok(1)[OF x(3) t(2)] in simp_all)
    then show "\<exists>kv'. read_k_layer ds (length used) l (k_bytes ss used (ls ! l) @ rest) k = (Read_ok rest, kv')
        \<and> data_inv kv tr sz sz' ss ds h used ls (Suc l) 0 kv'" using t(1) by blast
  qed (use inv in simp_all)
  moreover have "map (\<lambda>l. k_bytes ss used (ls ! l)) [0..<length ls] = map (k_bytes ss used) ls"
    by (rule nth_equalityI) simp_all
  ultimately show ?thesis by simp
qed

lemma read_values:
  assumes inv: "data_inv kv0 tr sz sz' ss ds h used ls (length ls) 0 kv"
    and used: "\<And>i. i \<in> set used \<Longrightarrow> i < sz" "used \<noteq> []" and h: "kv_heads kv0 ! ds = h" "h + length used \<le> sz'"
    and sz': "cells_size (kv_tables kv0 ! ds) = sz'"
  shows "\<exists>kv'. read_loop (if tr then read_v_trans_layer ds (length used) else read_v_layer ds (length used)) [0..<length ls]
      (concat (map (v_bytes tr sz ss used) ls) @ rest) kv = (Read_ok rest, kv')
    \<and> data_inv kv0 tr sz sz' ss ds h used ls (length ls) (length ls) kv'"
proof -
  let ?f = "if tr then read_v_trans_layer ds (length used) else read_v_layer ds (length used)"
  have "\<exists>kv'. read_loop ?f [0..<length ls] (concat (map (\<lambda>l. v_bytes tr sz ss used (ls ! l)) [0..<length ls]) @ rest) kv
      = (Read_ok rest, kv') \<and> data_inv kv0 tr sz sz' ss ds h used ls (length ls) (length ls) kv'"
  proof (rule read_loop_chunks[where P = "data_inv kv0 tr sz sz' ss ds h used ls (length ls)"])
    fix l k rest
    assume l: "l < length ls" and k: "data_inv kv0 tr sz sz' ss ds h used ls (length ls) l k"
    let ?x = "kv_layers k ! l"
    have x: "layer_like (ls ! l) ?x" "layer_ok tr sz ss (ls ! l)" "layer_ok tr sz' ds ?x" "k_restored ss ds h used (ls ! l) ?x"
      using k l by (simp_all add: data_inv_def layers_match_def)
    note d = data_inv_heads[OF k]
    have hd: "kv_heads k ! ds = h" "cells_size (kv_tables k ! ds) = sz'" "l < length (kv_layers k)" using d h(1) sz' l by simp_all
    obtain t where t: "?f l (v_bytes tr sz ss used (ls ! l) @ rest) k = (Read_ok rest, put_layer l (?x\<lparr>kl_v_stream := (kl_v_stream ?x)[ds := t]\<rparr>) k)"
      "length t = length (kl_v_stream ?x ! ds)" "v_restored tr sz sz' ss ds h used (ls ! l) (?x\<lparr>kl_v_stream := (kl_v_stream ?x)[ds := t]\<rparr>)"
    proof (cases tr)
      case True
      have "layer_ok True sz ss (ls ! l)" "layer_ok True sz' ds ?x" using x(2,3) True by simp_all
      from read_v_trans_layer_value[OF refl x(1) this hd(3) used hd(1) h(2) hd(2)] show ?thesis using that True by auto
    next
      case False
      have "layer_ok False sz ss (ls ! l)" "layer_ok False sz' ds ?x" using x(2,3) False by simp_all
      from read_v_layer_value[OF refl x(1) this used hd(1) h(2)] show ?thesis using that False by auto
    qed
    have "data_inv kv0 tr sz sz' ss ds h used ls (length ls) (Suc l) (put_layer l (?x\<lparr>kl_v_stream := (kl_v_stream ?x)[ds := t]\<rparr>) k)"
      by (rule data_inv_put[OF k l]) (use x t layer_update_ok(2)[OF x(3) t(2)] in simp_all)
    then show "\<exists>kv'. ?f l (v_bytes tr sz ss used (ls ! l) @ rest) k = (Read_ok rest, kv')
        \<and> data_inv kv0 tr sz sz' ss ds h used ls (length ls) (Suc l) kv'" using t(1) by blast
  qed (use inv in simp_all)
  moreover have "map (\<lambda>l. v_bytes tr sz ss used (ls ! l)) [0..<length ls] = map (v_bytes tr sz ss used) ls"
    by (rule nth_equalityI) simp_all
  ultimately show ?thesis by simp
qed

lemma state_read_data_value:
  assumes match: "layers_match (kv_v_trans kv) sz sz' ss ds ls (kv_layers kv)" and n: "length ls < 2 ^ 32"
    and used: "\<And>i. i \<in> set used \<Longrightarrow> i < sz" "used \<noteq> []" and h: "kv_heads kv ! ds = h" "h + length used \<le> sz'"
    and sz': "cells_size (kv_tables kv ! ds) = sz'"
  shows "\<exists>kv'. state_read_data ds (length used) (le_bytes 4 (if kv_v_trans kv then 1 else 0) @ le_bytes 4 (length ls)
      @ concat (map (k_bytes ss used) ls) @ concat (map (v_bytes (kv_v_trans kv) sz ss used) ls) @ rest) kv = (Read_ok rest, kv')
    \<and> data_inv kv (kv_v_trans kv) sz sz' ss ds h used ls (length ls) (length ls) kv'"
proof -
  have i0: "data_inv kv (kv_v_trans kv) sz sz' ss ds h used ls 0 0 kv" using match by (simp add: data_inv_def)
  obtain k1 where k1: "read_loop (read_k_layer ds (length used)) [0..<length ls] (concat (map (k_bytes ss used) ls)
      @ concat (map (v_bytes (kv_v_trans kv) sz ss used) ls) @ rest) kv = (Read_ok (concat (map (v_bytes (kv_v_trans kv) sz ss used) ls) @ rest), k1)"
    "data_inv kv (kv_v_trans kv) sz sz' ss ds h used ls (length ls) 0 k1" using read_keys[OF i0 used h] by blast
  obtain k2 where k2: "read_loop (if kv_v_trans kv then read_v_trans_layer ds (length used) else read_v_layer ds (length used)) [0..<length ls]
      (concat (map (v_bytes (kv_v_trans kv) sz ss used) ls) @ rest) k1 = (Read_ok rest, k2)"
    "data_inv kv (kv_v_trans kv) sz sz' ss ds h used ls (length ls) (length ls) k2" using read_values[OF k1(2) used h sz'] by blast
  note d1 = data_inv_heads[OF k1(2)]
  have len: "length (kv_layers kv) = length ls" using match by (simp add: layers_match_def)
  have b: "(if kv_v_trans kv then 1 else 0 :: nat) < 256 ^ 4" "length ls < 256 ^ 4" using n by auto
  have "state_read_data ds (length used) (le_bytes 4 (if kv_v_trans kv then 1 else 0) @ le_bytes 4 (length ls)
      @ concat (map (k_bytes ss used) ls) @ concat (map (v_bytes (kv_v_trans kv) sz ss used) ls) @ rest) kv = (Read_ok rest, k2)"
    unfolding state_read_data_def io_read_nat_bytes[OF b(1)] read_get.simps io_read_nat_bytes[OF b(2)]
    using h(2) k1(1) k2(1) by (cases "kv_v_trans kv") (simp_all add: len sz' d1)
  then show ?thesis using k2(2) by blast
qed

subsection \<open>The cells of a whole-cache restore\<close>

lemma read_seqs:
  assumes "length ns = length qs" and "\<And>q. q \<in> set qs \<Longrightarrow> q < kv_n_seq_max kv \<and> q < 2 ^ 31" and "strm < length (kv_tables kv)"
    and "fold_opt (cells_seq_add i) (map int qs) (kv_tables kv ! strm) = Some c"
  shows "read_loop (\<lambda>j bs kv. read_get (io_read_i32 bs) kv (\<lambda>seq_id bs.
             if seq_id < 0 \<or> nat seq_id \<ge> kv_n_seq_max kv then (Read_false, kv)
             else read_do (cells_seq_add i seq_id (kv_tables kv ! strm)) kv (\<lambda>cells.
               (Read_ok bs, kv\<lparr>kv_tables := (kv_tables kv)[strm := cells]\<rparr>)))) ns
           (concat (map (\<lambda>s. le_i32 (int s)) qs) @ rest) kv
    = (Read_ok rest, kv\<lparr>kv_tables := (kv_tables kv)[strm := c]\<rparr>)"
  using assms
proof (induction qs arbitrary: ns kv)
  case Nil
  then have "c = kv_tables kv ! strm" by simp
  then show ?case using Nil by simp
next
  case (Cons q qs)
  obtain n ns' where ns: "ns = n # ns'" using Cons.prems(1) by (cases ns) auto
  obtain c1 where c1: "cells_seq_add i (int q) (kv_tables kv ! strm) = Some c1" "fold_opt (cells_seq_add i) (map int qs) c1 = Some c"
    using Cons.prems(4) by (auto split: option.splits)
  let ?kv = "kv\<lparr>kv_tables := (kv_tables kv)[strm := c1]\<rparr>"
  have "i32_ok (int q)" using Cons.prems(2)[of q] by (simp add: i32_ok_def)
  moreover have "\<not> kv_n_seq_max kv \<le> q" using Cons.prems(2)[of q] by simp
  moreover note Cons.IH[of ns' ?kv] Cons.prems c1 ns
  ultimately show ?case by (simp add: io_read_i32_bytes)
qed

definition token_of :: "kv_cells \<Rightarrow> nat \<Rightarrow> cell" where
  "token_of c u = Cell (c_pos c ! u) 0 (c_seq c ! u)"

lemma read_cell_value:
  assumes strm: "strm < length (kv_tables kv)" and c: "cells_ok (kv_tables kv ! strm)"
    and i: "i < length (cells_view (kv_tables kv ! strm))" "cells_view (kv_tables kv ! strm) ! i = Empty"
    and src: "0 \<le> c_pos src ! u" "i32_ok (c_pos src ! u)" "c_seq src ! u \<subseteq> {0..<int n}" and n: "kv_n_seq_max kv = n" "int n \<le> LLAMA_MAX_SEQ"
  shows "\<exists>c'. read_cell strm i (concat (cell_bytes n (- 1) src u) @ rest) kv = (Read_ok rest, kv\<lparr>kv_tables := (kv_tables kv)[strm := c']\<rparr>)
    \<and> cells_ok c' \<and> cells_view c' = (cells_view (kv_tables kv ! strm))[i := token_of src u]"
proof -
  let ?qs = "cell_ids n (- 1) src u"
  have qs: "distinct (map int ?qs)" "\<And>q. q \<in> set (map int ?qs) \<Longrightarrow> seq_id_ok q" "length ?qs < 256 ^ 4" "\<And>q. q \<in> set ?qs \<Longrightarrow> q < n \<and> q < 2 ^ 31"
  proof -
    show "distinct (map int ?qs)" by (simp add: cell_ids_def distinct_map)
    show "seq_id_ok q" if "q \<in> set (map int ?qs)" for q using that n(2) by (auto simp: cell_ids_def seq_id_ok_def)
    have "length ?qs \<le> n" unfolding cell_ids_def using length_filter_le[of _ "[0..<n]"] by simp
    then show "length ?qs < 256 ^ 4" using n(2) by simp
    show "q < n \<and> q < 2 ^ 31" if "q \<in> set ?qs" for q using that n(2) by (auto simp: cell_ids_def)
  qed
  have "set (map int ?qs) = c_seq src ! u"
  proof
    show "c_seq src ! u \<subseteq> set (map int ?qs)"
    proof
      fix q assume q: "q \<in> c_seq src ! u"
      then have "q = int (nat q)" "nat q < n" using src(3) by (auto simp: nat_less_iff)
      then show "q \<in> set (map int ?qs)" using q by (auto simp: cell_ids_def intro!: image_eqI[of _ _ "nat q"])
    qed
  qed (auto simp: cell_ids_def)
  then obtain c' where c': "Option.bind (cells_pos_set i (c_pos src ! u) (kv_tables kv ! strm)) (fold_opt (cells_seq_add i) (map int ?qs)) = Some c'"
    "cells_ok c'" "cells_view c' = (cells_view (kv_tables kv ! strm))[i := token_of src u]"
    using kv.write_cell[OF c i(1) src(1) qs(1,2)] i(2) by (auto simp: token_of_def)
  then obtain c1 where c1: "cells_pos_set i (c_pos src ! u) (kv_tables kv ! strm) = Some c1" "fold_opt (cells_seq_add i) (map int ?qs) c1 = Some c'"
    by (auto simp: bind_eq_Some_conv)
  let ?kv = "kv\<lparr>kv_tables := (kv_tables kv)[strm := c1]\<rparr>"
  have bytes: "concat (cell_bytes n (- 1) src u) @ rest = le_i32 (c_pos src ! u) @ le_bytes 4 (length ?qs)
      @ concat (map (\<lambda>s. le_i32 (int s)) ?qs) @ rest" by (simp add: cell_bytes_def)
  have "read_cell strm i (concat (cell_bytes n (- 1) src u) @ rest) kv = (Read_ok rest, ?kv\<lparr>kv_tables := (kv_tables ?kv)[strm := c']\<rparr>)"
    unfolding read_cell_def bytes io_read_i32_bytes[OF src(2)] read_get.simps io_read_nat_bytes[OF qs(3)] c1(1) read_do.simps
    by (rule read_seqs) (use qs(4) n(1) strm c1(2) in auto)
  then show ?thesis using c'(2,3) by (intro exI[of _ c']) simp
qed

lemma read_cells_value:
  assumes strm: "strm < length (kv_tables kv)" and c: "cells_ok (kv_tables kv ! strm)" "cells_view (kv_tables kv ! strm) = replicate sz Empty"
    and src: "\<And>u. u \<in> set used \<Longrightarrow> 0 \<le> c_pos src ! u \<and> i32_ok (c_pos src ! u) \<and> c_seq src ! u \<subseteq> {0..<int n}"
    and n: "kv_n_seq_max kv = n" "int n \<le> LLAMA_MAX_SEQ" and sz: "length used \<le> sz"
  shows "\<exists>c'. read_loop (read_cell strm) [0..<length used] (concat (concat (map (cell_bytes n (- 1) src) used)) @ rest) kv
      = (Read_ok rest, kv\<lparr>kv_tables := (kv_tables kv)[strm := c']\<rparr>)
    \<and> cells_ok c' \<and> cells_view c' = map (token_of src) used @ replicate (sz - length used) Empty"
proof -
  let ?P = "\<lambda>i k. \<exists>c'. k = kv\<lparr>kv_tables := (kv_tables kv)[strm := c']\<rparr> \<and> cells_ok c'
    \<and> cells_view c' = map (token_of src) (take i used) @ replicate (sz - i) Empty"
  let ?c = "\<lambda>i. concat (cell_bytes n (- 1) src (used ! i))"
  have "\<exists>kv'. read_loop (read_cell strm) [0..<length used] (concat (map ?c [0..<length used]) @ rest) kv = (Read_ok rest, kv') \<and> ?P (length used) kv'"
  proof (rule read_loop_chunks)
    show "?P 0 kv" by (rule exI[of _ "kv_tables kv ! strm"]) (use c in simp)
    fix i k rest
    assume i: "i < length used" and "?P i k"
    then obtain c1 where k: "k = kv\<lparr>kv_tables := (kv_tables kv)[strm := c1]\<rparr>" and c1: "cells_ok c1"
      "cells_view c1 = map (token_of src) (take i used) @ replicate (sz - i) Empty" by blast
    have t: "kv_tables k ! strm = c1" "strm < length (kv_tables k)" "kv_n_seq_max k = n" using strm n(1) by (simp_all add: k)
    have at: "i < length (cells_view c1)" "cells_view c1 ! i = Empty" using c1(2) i sz by (simp_all add: nth_append)
    have u: "0 \<le> c_pos src ! (used ! i)" "i32_ok (c_pos src ! (used ! i))" "c_seq src ! (used ! i) \<subseteq> {0..<int n}"
      using src[of "used ! i"] i by simp_all
    obtain c2 where c2: "read_cell strm i (?c i @ rest) k = (Read_ok rest, k\<lparr>kv_tables := (kv_tables k)[strm := c2]\<rparr>)"
      "cells_ok c2" "cells_view c2 = (cells_view c1)[i := token_of src (used ! i)]"
      using read_cell_value[OF t(2) _ _ _ u t(3) n(2), of i rest] c1(1) at unfolding t(1) by blast
    have "sz - i = Suc (sz - Suc i)" using i sz by simp
    then have "cells_view c2 = map (token_of src) (take (Suc i) used) @ replicate (sz - Suc i) Empty"
      unfolding c2(3) c1(2) using i by (simp add: list_update_append take_Suc_conv_app_nth)
    then show "\<exists>kv'. read_cell strm i (?c i @ rest) k = (Read_ok rest, kv') \<and> ?P (Suc i) kv'"
      using c2(1,2) by (intro exI conjI) (auto simp: k)
  qed simp
  moreover have "map ?c [0..<length used] = map (\<lambda>u. concat (cell_bytes n (- 1) src u)) used" by (rule nth_equalityI) simp_all
  moreover have "concat (map (\<lambda>u. concat (cell_bytes n (- 1) src u)) us) = concat (concat (map (cell_bytes n (- 1) src) us))" for us
    by (induction us) simp_all
  ultimately show ?thesis by fastforce
qed

subsection \<open>Clearing first\<close>

lemma clear_fields:
  "kv_layers (kv_clear True kv) = clear_bufs (kv_layers kv)" "kv_n_stream (kv_clear data kv) = kv_n_stream kv"
  "kv_n_seq_max (kv_clear data kv) = kv_n_seq_max kv" "kv_v_trans (kv_clear data kv) = kv_v_trans kv"
  "kv_seq_to_stream (kv_clear data kv) = kv_seq_to_stream kv"
proof -
  let ?f = "\<lambda>s kv. put_stream s (cells_reset (kv_tables kv ! s)) 0 kv"
  have "kv_layers (fold ?f xs k) = kv_layers k \<and> kv_n_stream (fold ?f xs k) = kv_n_stream k \<and> kv_n_seq_max (fold ?f xs k) = kv_n_seq_max k
      \<and> kv_v_trans (fold ?f xs k) = kv_v_trans k \<and> kv_seq_to_stream (fold ?f xs k) = kv_seq_to_stream k" for xs k
    by (induction xs arbitrary: k) simp_all
  then show "kv_layers (kv_clear True kv) = clear_bufs (kv_layers kv)" "kv_n_stream (kv_clear data kv) = kv_n_stream kv"
    "kv_n_seq_max (kv_clear data kv) = kv_n_seq_max kv" "kv_v_trans (kv_clear data kv) = kv_v_trans kv"
    "kv_seq_to_stream (kv_clear data kv) = kv_seq_to_stream kv"
    by (simp_all add: kv_clear_def Let_def)
qed

lemma layers_match_clear:
  assumes "layers_match tr sz sz' ss ds ls xs"
  shows "layers_match tr sz sz' ss ds ls (clear_bufs xs)"
proof -
  have "clear_bufs xs ! l = (xs ! l)\<lparr>kl_k_stream := map (map (\<lambda>_. 0)) (kl_k_stream (xs ! l)),
      kl_v_stream := map (map (\<lambda>_. 0)) (kl_v_stream (xs ! l))\<rparr>" if "l < length xs" for l
    using that by (simp add: clear_bufs_def)
  then have "layer_like y (clear_bufs xs ! l) = layer_like y (xs ! l)" "layer_ok tr sz' ds (xs ! l) \<Longrightarrow> layer_ok tr sz' ds (clear_bufs xs ! l)"
    if "l < length xs" for l y
    using that by (simp_all add: layer_like_def layer_ok_def)
  moreover have "length (clear_bufs xs) = length xs" by (simp add: clear_bufs_def)
  ultimately show ?thesis using assms by (simp add: layers_match_def)
qed

subsection \<open>One stream saved and restored\<close>

text \<open>A single-stream cache whose state can be saved: fields in the ranges of their types.\<close>

definition saveable :: "kv_cache \<Rightarrow> bool" where
  "saveable kv \<longleftrightarrow> kv_ok kv \<and> kv_n_stream kv = 1 \<and> int (kv_n_seq_max kv) \<le> LLAMA_MAX_SEQ \<and> kv_get_size kv < 2 ^ 32
     \<and> length (kv_layers kv) < 2 ^ 32
     \<and> (\<forall>p sh S. Cell p sh S \<in> set (kv_view kv ! 0) \<longrightarrow> i32_ok p \<and> S \<subseteq> {0..<int (kv_n_seq_max kv)})
     \<and> (\<forall>l \<in> set (kv_layers kv). layer_ok (kv_v_trans kv) (kv_get_size kv) 0 l)"

text \<open>A cache of the same configuration, perhaps of another size, into which it is restored.\<close>

definition restorable :: "kv_cache \<Rightarrow> kv_cache \<Rightarrow> bool" where
  "restorable kv kv' \<longleftrightarrow> kv_ok kv' \<and> kv_n_stream kv' = 1 \<and> kv_n_seq_max kv' = kv_n_seq_max kv \<and> kv_v_trans kv' = kv_v_trans kv
     \<and> layers_match (kv_v_trans kv) (kv_get_size kv) (kv_get_size kv') 0 0 (kv_layers kv) (kv_layers kv')
     \<and> length (filter (\<lambda>x. x \<noteq> Empty) (kv_view kv ! 0)) \<le> kv_get_size kv'"

abbreviation saved_cells :: "kv_cache \<Rightarrow> nat list" where
  "saved_cells kv \<equiv> wanted_cells (- 1) (kv_tables kv ! 0)"

fun settled :: "cell \<Rightarrow> cell" where
  "settled Empty = Empty"
| "settled (Cell p sh S) = Cell p 0 S"

lemma saved_view:
  "map (token_of c) (wanted_cells (- 1) c) = map settled (filter (\<lambda>x. x \<noteq> Empty) (cells_view c))"
  "length (wanted_cells (- 1) c) = length (filter (\<lambda>x. x \<noteq> Empty) (cells_view c))"
proof -
  have f: "filter (\<lambda>x. x \<noteq> Empty) (cells_view c) = map (view_cell c) (wanted_cells (- 1) c)"
    by (simp add: cells_view_def wanted_cells_def wanted_def cells_size_def filter_map o_def view_cell_def)
      (intro map_cong filter_cong; simp add: view_cell_def wanted_def)
  have "settled (view_cell c u) = token_of c u" if "u \<in> set (wanted_cells (- 1) c)" for u
    using that by (auto simp: wanted_cells_def wanted_def view_cell_def token_of_def)
  then show "map (token_of c) (wanted_cells (- 1) c) = map settled (filter (\<lambda>x. x \<noteq> Empty) (cells_view c))"
    unfolding f by simp
  show "length (wanted_cells (- 1) c) = length (filter (\<lambda>x. x \<noteq> Empty) (cells_view c))" unfolding f by simp
qed

lemma single_size: "kv_ok kv \<Longrightarrow> kv_n_stream kv = 1 \<Longrightarrow> kv_get_size kv = cells_size (kv_tables kv ! 0) \<and> length (kv_tables kv) = 1
    \<and> length (kv_heads kv) = 1 \<and> kv_seq_to_stream kv ! 0 = 0"
  by (auto simp: kv_ok_def kv_get_size_def)

lemma state_write_bytes:
  assumes "saveable kv" and "saved_cells kv \<noteq> []"
  shows "\<exists>chunks. kv_state_write (- 1) kv = Some chunks \<and> concat chunks = le_bytes 4 1 @ le_bytes 4 (length (saved_cells kv))
    @ concat (concat (map (cell_bytes (kv_n_seq_max kv) (- 1) (kv_tables kv ! 0)) (saved_cells kv)))
    @ le_bytes 4 (if kv_v_trans kv then 1 else 0) @ le_bytes 4 (length (kv_layers kv))
    @ concat (map (k_bytes 0 (saved_cells kv)) (kv_layers kv))
    @ concat (map (v_bytes (kv_v_trans kv) (kv_get_size kv) 0 (saved_cells kv)) (kv_layers kv))"
proof -
  have ok: "kv_ok kv" "kv_n_stream kv = 1" using assms(1) by (simp_all add: saveable_def)
  note s1 = single_size[OF ok]
  have c: "cells_ok (kv_tables kv ! 0)" using kv_okD(1)[OF ok(1), of 0] ok(2) by simp
  obtain rs where rs: "state_ranges (- 1) (kv_tables kv ! 0) = Some (length (saved_cells kv), rs)" "spans rs = saved_cells kv"
    "\<forall>(a, b) \<in> set rs. a < b \<and> b \<le> cells_size (kv_tables kv ! 0)" using state_ranges_value[OF c, of "- 1"] by auto
  have ls: "layer_ok (kv_v_trans kv) (cells_size (kv_tables kv ! 0)) 0 l" if "l \<in> set (kv_layers kv)" for l
    using assms(1) that s1 by (simp add: saveable_def)
  have b: "a < b \<and> b \<le> cells_size (kv_tables kv ! 0)" if "(a, b) \<in> set rs" for a b using rs(3) that by blast
  obtain data where data: "state_write_data 0 rs kv = Some data" "concat data = le_bytes 4 (if kv_v_trans kv then 1 else 0)
    @ le_bytes 4 (length (kv_layers kv)) @ concat (map (k_bytes 0 (saved_cells kv)) (kv_layers kv))
    @ concat (map (v_bytes (kv_v_trans kv) (cells_size (kv_tables kv ! 0)) 0 (saved_cells kv)) (kv_layers kv))"
    using state_write_data_bytes[OF ls b rs(2)] by blast
  have n: "int (kv_n_seq_max kv) \<le> LLAMA_MAX_SEQ" using assms(1) by (simp add: saveable_def)
  have "write_stream (- 1) kv 0 = Some (le_bytes 4 (length (saved_cells kv))
      # concat (map (cell_bytes (kv_n_seq_max kv) (- 1) (kv_tables kv ! 0)) (saved_cells kv)) @ data)"
    using rs(1) assms(2) state_write_meta_value[OF c n rs(2)] data(1) by (simp add: write_stream_def)
  then show ?thesis using data(2) ok(2) s1 by (simp add: kv_state_write_def)
qed

text \<open>The cells are restored first, over a cleared cache, before any byte of data is read.\<close>

lemma restore_meta:
  assumes src: "saveable kv" and tgt: "restorable kv kv'" and ne: "saved_cells kv \<noteq> []"
  shows "\<exists>c2. state_read_meta 0 (length (saved_cells kv)) (- 1)
        (concat (concat (map (cell_bytes (kv_n_seq_max kv) (- 1) (kv_tables kv ! 0)) (saved_cells kv))) @ data) kv'
      = (Read_ok data, (kv_clear True kv')\<lparr>kv_tables := [c2], kv_heads := [0]\<rparr>)
    \<and> table_ok (kv_get_size kv') c2
    \<and> cells_view c2 = map settled (filter (\<lambda>x. x \<noteq> Empty) (kv_view kv ! 0)) @ replicate (kv_get_size kv' - length (saved_cells kv)) Empty
    \<and> length (saved_cells kv) \<le> kv_get_size kv'"
proof -
  let ?c = "kv_tables kv ! 0" and ?used = "saved_cells kv" and ?kc = "kv_clear True kv'" and ?sz' = "kv_get_size kv'"
  have ok: "kv_ok kv" "kv_n_stream kv = 1" and ok': "kv_ok kv'" "kv_n_stream kv' = 1"
    using src tgt by (simp_all add: saveable_def restorable_def)
  note s1 = single_size[OF ok] and s1' = single_size[OF ok']
  have okc: "kv_ok ?kc" "kv_n_stream ?kc = 1" using kv_clear_spec[OF ok'(1)] ok'(2) by (simp_all add: clear_fields)
  note s1c = single_size[OF okc]
  have view': "kv_view ?kc = [replicate ?sz' Empty]"
    using kv_clear_spec[OF ok'(1), of True] s1' by (auto simp: kv_view_def length_Suc_conv map_replicate_const cells_size_def)
  then have vc: "cells_view (kv_tables ?kc ! 0) = replicate ?sz' Empty" using s1c by (auto simp: kv_view_def length_Suc_conv)
  have cc: "cells_ok (kv_tables ?kc ! 0)" using kv_okD(1)[OF okc(1), of 0] okc(2) by simp
  have c: "cells_ok ?c" using kv_okD(1)[OF ok(1), of 0] ok(2) by simp
  have v0: "kv_view kv ! 0 = cells_view ?c" using s1 by (simp add: kv_view_def)
  have used: "0 \<le> c_pos ?c ! i \<and> i32_ok (c_pos ?c ! i) \<and> c_seq ?c ! i \<subseteq> {0..<int (kv_n_seq_max kv)}" "c_seq ?c ! i \<noteq> {}"
    if "i \<in> set ?used" for i
  proof -
    have i: "i < length (c_pos ?c)" "c_pos ?c ! i \<noteq> - 1" using that by (auto simp: wanted_cells_def wanted_def cells_size_def)
    have v: "cells_view ?c ! i = Cell (c_pos ?c ! i) (c_shift ?c ! i) (c_seq ?c ! i)" using i by (simp add: view_nth view_cell_def)
    then have m: "Cell (c_pos ?c ! i) (c_shift ?c ! i) (c_seq ?c ! i) \<in> set (cells_view ?c)" using i(1) by (metis length_view nth_mem)
    then show "0 \<le> c_pos ?c ! i \<and> i32_ok (c_pos ?c ! i) \<and> c_seq ?c ! i \<subseteq> {0..<int (kv_n_seq_max kv)}"
      using src cells_okD(4)[OF c i(1)] i(2) v0 by (auto simp: saveable_def)
    show "c_seq ?c ! i \<noteq> {}" using m kv_okD(4)[OF ok(1), of 0] ok(2) by auto
  qed
  have len: "length ?used \<le> ?sz'" using tgt saved_view(2)[of ?c] by (simp add: restorable_def v0)
  have n: "kv_n_seq_max ?kc = kv_n_seq_max kv" "int (kv_n_seq_max kv) \<le> LLAMA_MAX_SEQ"
    using src tgt by (simp_all add: saveable_def restorable_def clear_fields)
  obtain c2 where c2: "read_loop (read_cell 0) [0..<length ?used] (concat (concat (map (cell_bytes (kv_n_seq_max kv) (- 1) ?c) ?used)) @ data) ?kc
      = (Read_ok data, ?kc\<lparr>kv_tables := (kv_tables ?kc)[0 := c2]\<rparr>)" "cells_ok c2"
      "cells_view c2 = map (token_of ?c) ?used @ replicate (?sz' - length ?used) Empty"
    using read_cells_value[OF _ cc vc used(1) n len, where rest = data] s1c by auto
  have up: "(kv_tables ?kc)[0 := c2] = [c2]" "(kv_heads ?kc)[0 := 0] = [0]" using s1c by (auto simp: length_Suc_conv)
  have "state_read_meta 0 (length ?used) (- 1) (concat (concat (map (cell_bytes (kv_n_seq_max kv) (- 1) ?c) ?used)) @ data) kv'
      = (Read_ok data, ?kc\<lparr>kv_tables := [c2], kv_heads := [0]\<rparr>)"
    using len s1' c2(1) up by (simp add: state_read_meta_def)
  moreover have "cells_size c2 = ?sz'" using arg_cong[OF c2(3), of length] len by (simp add: cells_size_def)
  moreover have "Cell p sh {} \<notin> set (cells_view c2)" for p sh using used(2) by (auto simp: c2(3) token_of_def)
  ultimately show ?thesis using len c2(2,3) unfolding v0 saved_view(1)[symmetric] by (auto simp: table_ok_def)
qed

text \<open>A cache whose single table and head are replaced.\<close>

lemma kv_ok_replaced:
  assumes "kv_ok kv" and "kv_n_stream kv = 1" and "table_ok (kv_get_size kv) c" and "kv2 = kv\<lparr>kv_tables := [c], kv_heads := [0], kv_layers := ls\<rparr>"
  shows "kv_ok kv2 \<and> kv_view kv2 = [cells_view c] \<and> kv_get_size kv2 = kv_get_size kv"
  using assms single_size[OF assms(1,2)] by (auto simp: kv_ok_def kv_get_size_def kv_view_def table_ok_def)

lemma clear_size: "kv_ok kv \<Longrightarrow> kv_n_stream kv = 1 \<Longrightarrow> kv_ok (kv_clear True kv) \<and> kv_n_stream (kv_clear True kv) = 1
    \<and> kv_get_size (kv_clear True kv) = kv_get_size kv"
proof -
  assume ok: "kv_ok kv" "kv_n_stream kv = 1"
  have c: "kv_ok (kv_clear True kv)" "kv_n_stream (kv_clear True kv) = 1" using kv_clear_spec[OF ok(1)] ok(2) by (simp_all add: clear_fields)
  have "map length (kv_view (kv_clear True kv)) = map length (kv_view kv)" using kv_clear_spec[OF ok(1), of True] by simp
  then show ?thesis using c single_size[OF ok] single_size[OF c] by (auto simp: kv_view_def length_Suc_conv cells_size_def)
qed

lemma restore_value:
  assumes src: "saveable kv" and tgt: "restorable kv kv'" and ne: "saved_cells kv \<noteq> []"
  shows "\<exists>chunks kv2. kv_state_write (- 1) kv = Some chunks \<and> kv_state_read (- 1) (concat chunks @ rest) kv' = (Read_ok rest, kv2)
    \<and> kv_ok kv2 \<and> kv_view kv2 = [map settled (filter (\<lambda>x. x \<noteq> Empty) (kv_view kv ! 0))
        @ replicate (kv_get_size kv' - length (saved_cells kv)) Empty]
    \<and> (\<forall>l < length (kv_layers kv). k_restored 0 0 0 (saved_cells kv) (kv_layers kv ! l) (kv_layers kv2 ! l)
        \<and> v_restored (kv_v_trans kv) (kv_get_size kv) (kv_get_size kv') 0 0 0 (saved_cells kv) (kv_layers kv ! l) (kv_layers kv2 ! l))"
proof -
  let ?c = "kv_tables kv ! 0" and ?used = "saved_cells kv" and ?kc = "kv_clear True kv'" and ?sz' = "kv_get_size kv'"
  have ok: "kv_ok kv" "kv_n_stream kv = 1" and ok': "kv_ok kv'" "kv_n_stream kv' = 1"
    using src tgt by (simp_all add: saveable_def restorable_def)
  note s1 = single_size[OF ok] and cl = clear_size[OF ok']
  have used: "i < kv_get_size kv" if "i \<in> set ?used" for i using that s1 by (simp add: wanted_cells_def)
  obtain chunks where w: "kv_state_write (- 1) kv = Some chunks" "concat chunks = le_bytes 4 1 @ le_bytes 4 (length ?used)
    @ concat (concat (map (cell_bytes (kv_n_seq_max kv) (- 1) ?c) ?used))
    @ le_bytes 4 (if kv_v_trans kv then 1 else 0) @ le_bytes 4 (length (kv_layers kv))
    @ concat (map (k_bytes 0 ?used) (kv_layers kv)) @ concat (map (v_bytes (kv_v_trans kv) (kv_get_size kv) 0 ?used) (kv_layers kv))"
    using state_write_bytes[OF src ne] by blast
  let ?data = "le_bytes 4 (if kv_v_trans kv then 1 else 0) @ le_bytes 4 (length (kv_layers kv))
    @ concat (map (k_bytes 0 ?used) (kv_layers kv)) @ concat (map (v_bytes (kv_v_trans kv) (kv_get_size kv) 0 ?used) (kv_layers kv)) @ rest"
  obtain c2 where meta: "state_read_meta 0 (length ?used) (- 1) (concat (concat (map (cell_bytes (kv_n_seq_max kv) (- 1) ?c) ?used)) @ ?data) kv'
      = (Read_ok ?data, ?kc\<lparr>kv_tables := [c2], kv_heads := [0]\<rparr>)" and c2: "table_ok ?sz' c2"
      "cells_view c2 = map settled (filter (\<lambda>x. x \<noteq> Empty) (kv_view kv ! 0)) @ replicate (?sz' - length ?used) Empty" and len: "length ?used \<le> ?sz'"
    using restore_meta[OF src tgt ne, of ?data] by blast
  let ?k1 = "?kc\<lparr>kv_tables := [c2], kv_heads := [0]\<rparr>"
  have tr: "kv_v_trans ?k1 = kv_v_trans kv" using tgt by (simp add: restorable_def clear_fields)
  have match: "layers_match (kv_v_trans ?k1) (kv_get_size kv) ?sz' 0 0 (kv_layers kv) (kv_layers ?k1)"
    using layers_match_clear[of "kv_v_trans kv"] tgt unfolding tr by (simp add: restorable_def clear_fields)
  have hd: "kv_heads ?k1 ! 0 = 0" "0 + length ?used \<le> ?sz'" "cells_size (kv_tables ?k1 ! 0) = ?sz'"
    using len c2(1) by (simp_all add: table_ok_def)
  have nl: "length (kv_layers kv) < 2 ^ 32" using src by (simp add: saveable_def)
  obtain k2 where k2: "state_read_data 0 (length ?used) ?data ?k1 = (Read_ok rest, k2)"
    "data_inv ?k1 (kv_v_trans kv) (kv_get_size kv) ?sz' 0 0 0 ?used (kv_layers kv) (length (kv_layers kv)) (length (kv_layers kv)) k2"
    using state_read_data_value[OF match nl used(1) ne hd] unfolding tr by blast
  have "length ?used \<le> kv_get_size kv" using saved_view(2)[of ?c] length_filter_le[of _ "cells_view ?c"] s1 by (simp add: cells_size_def)
  then have b: "length ?used < 256 ^ 4" "(1 :: nat) < 256 ^ 4" using src by (simp_all add: saveable_def)
  have "read_stream (- 1) 0 (le_bytes 4 (length ?used) @ concat (concat (map (cell_bytes (kv_n_seq_max kv) (- 1) ?c) ?used)) @ ?data) kv' = (Read_ok rest, k2)"
    unfolding read_stream_def io_read_nat_bytes[OF b(1)] read_get.simps using ne meta k2(1) by (simp add: Let_def)
  then have run: "kv_state_read (- 1) (concat chunks @ rest) kv' = (Read_ok rest, k2)"
    unfolding w(2) kv_state_read_def append_assoc io_read_nat_bytes[OF b(2)] read_get.simps using ok'(2) by simp
  have frame: "k2 = ?k1\<lparr>kv_layers := kv_layers k2\<rparr>" using k2(2) by (simp add: data_inv_def)
  have "table_ok (kv_get_size ?kc) c2" using c2(1) cl by simp
  from kv_ok_replaced[OF _ _ this, of k2 "kv_layers k2"] have "kv_ok k2 \<and> kv_view k2 = [cells_view c2]" using frame cl by simp
  then show ?thesis using w(1) run c2(2) k2(2) by (simp add: data_inv_def)
qed

subsection \<open>What a restore of one stream does to the others\<close>

lemma keep_get: "P kv \<Longrightarrow> (\<And>x bs. P (snd (f x bs))) \<Longrightarrow> P (snd (read_get v kv f))"
  by (cases v) auto

lemma keep_do: "P kv \<Longrightarrow> (\<And>x. P (snd (f x))) \<Longrightarrow> P (snd (read_do v kv f))"
  by (cases v) auto

lemma keep_then: "P (snd r) \<Longrightarrow> (\<And>bs kv. P kv \<Longrightarrow> P (snd (f bs kv))) \<Longrightarrow> P (snd (read_then r f))"
  by (cases "(r, f)" rule: read_then.cases) auto

lemma keep_loop: "P kv \<Longrightarrow> (\<And>x bs kv. P kv \<Longrightarrow> P (snd (f x bs kv))) \<Longrightarrow> P (snd (read_loop f xs bs kv))"
  by (induction xs arbitrary: bs kv) (auto intro: keep_then)

lemma keep_if: "P (snd a) \<Longrightarrow> P (snd b) \<Longrightarrow> P (snd (if c then a else b))"
  by simp

lemma read_cell_others:
  assumes s: "s \<noteq> strm" and c: "kv_tables kv ! s = c"
  shows "kv_tables (snd (read_cell strm i bs kv)) ! s = c"
proof -
  let ?P = "\<lambda>kv. kv_tables kv ! s = c"
  show "?P (snd (read_cell strm i bs kv))"
    unfolding read_cell_def
    by (intro keep_get[where P = ?P] keep_do[where P = ?P] keep_loop[where P = ?P] keep_if[where P = ?P]) (use s c in simp_all)
qed

lemma read_data_tables: "kv_tables (snd (state_read_data strm n bs kv)) = kv_tables kv"
proof -
  let ?P = "\<lambda>k. kv_tables k = kv_tables kv"
  note keep = keep_get[where P = ?P] keep_do[where P = ?P] keep_loop[where P = ?P] keep_if[where P = ?P] keep_then[where P = ?P]
  have k: "?P k \<Longrightarrow> ?P (snd (read_k_layer strm n l b k))" for l b k
    unfolding read_k_layer_def Let_def by (intro keep) simp_all
  have v: "?P k \<Longrightarrow> ?P (snd (read_v_layer strm n l b k))" for l b k
    unfolding read_v_layer_def Let_def by (intro keep) simp_all
  have row: "?P k \<Longrightarrow> ?P (snd (read_v_row strm n l j b k))" for l j b k
    unfolding read_v_row_def Let_def by (intro keep) simp_all
  have t: "?P k \<Longrightarrow> ?P (snd (read_v_trans_layer strm n l b k))" for l b k
    unfolding read_v_trans_layer_def Let_def by (intro keep row) simp_all
  show ?thesis
    unfolding state_read_data_def by (intro keep k v t) simp_all
qed

lemma read_stream_others:
  assumes ok: "kv_ok kv" and s: "s < kv_n_stream kv" "s' < kv_n_stream kv" "s' \<noteq> s"
    and n: "io_read_nat 4 bs = Some (n, bs')" "n \<noteq> 0" and run: "read_stream (- 1) s bs kv = (Read_ok rest, kv2)"
  shows "\<forall>x \<in> set (cells_view (kv_tables kv2 ! s')). x = Empty"
proof -
  let ?c = "kv_tables (kv_clear True kv) ! s'"
  let ?P = "\<lambda>k. kv_tables k ! s' = ?c"
  have clr: "\<forall>x \<in> set (cells_view ?c). x = Empty"
  proof -
    have v: "kv_view (kv_clear True kv) = map (map (\<lambda>_. Empty)) (kv_view kv)" "kv_ok (kv_clear True kv)" using kv_clear_spec[OF ok] by simp_all
    have l: "s' < length (kv_view kv)" using kv_okD(6)[OF ok s(2)] by (simp add: kv_view_def)
    have "cells_view ?c = kv_view (kv_clear True kv) ! s'" using kv_okD(8)[OF v(2), of s'] s(2) by (simp add: clear_fields)
    then show ?thesis using v(1) l by auto
  qed
  note keep = keep_get[where P = ?P] keep_loop[where P = ?P] keep_if[where P = ?P] keep_then[where P = ?P]
  obtain r k where k: "read_then (state_read_meta s n (- 1) bs' kv) (state_read_data s n) = (r, k)" by fastforce
  have "r = Read_ok rest \<and> k = kv2"
    using run k n unfolding read_stream_def by (cases r) (auto simp: Let_def)
  moreover have "\<not> n > cells_size (kv_tables kv ! s)" using calculation k by (auto simp: state_read_meta_def)
  moreover have "?P (snd (read_then (read_then (read_loop (read_cell s) [0..<n] bs' (kv_clear True kv))
      (\<lambda>bs kv. (Read_ok bs, kv\<lparr>kv_heads := (kv_heads kv)[s := 0]\<rparr>))) (state_read_data s n)))"
    by (intro keep) (use read_cell_others[OF s(3)] read_data_tables in simp_all)
  ultimately have "?P kv2" using k by (simp add: state_read_meta_def)
  then show ?thesis using clr by simp
qed

subsection \<open>Buffers of the counted size\<close>

lemma io_write_all: "fold_opt io_write chunks (out, room) =
    (if length (concat chunks) \<le> room then Some (out @ concat chunks, room - length (concat chunks)) else None)"
  by (induction chunks arbitrary: out room) (auto simp: io_write_def)

lemma io_count_all: "fold io_count chunks n = n + length (concat chunks)"
  by (induction chunks arbitrary: n) (auto simp: io_count_def)

subsection \<open>Samples\<close>

definition sample_layer :: "nat \<Rightarrow> u8 list \<Rightarrow> u8 list \<Rightarrow> kv_layer" where
  "sample_layer il k v = \<lparr>kl_il = il, kl_k_type = 8, kl_v_type = 1, kl_k_size_row = 2, kl_v_size_row = 2, kl_v_size_el = 1,
     kl_n_embd_v_gqa = 2, kl_k_stream = [k], kl_v_stream = [v]\<rparr>"

definition full_cache :: kv_cache where
  "full_cache = \<lparr>kv_v_trans = True, kv_n_seq_max = 2, kv_n_stream = 1, kv_n_pad = 1, kv_n_swa = 0, kv_swa_type = SWA_NONE,
     kv_heads = [3], kv_tables = [sample_cells], kv_seq_to_stream = [0, 0], kv_sc_ssrc = [], kv_sc_sdst = [],
     kv_layers = [sample_layer 0 [10, 11, 12, 13, 14, 15] [20, 21, 22, 23, 24, 25]]\<rparr>"

definition blank_cache :: kv_cache where
  "blank_cache = full_cache\<lparr>kv_heads := [0], kv_tables := [cells_resize 3 kv_cells_init],
     kv_layers := [sample_layer 0 [0, 0, 0, 0, 0, 0] [0, 0, 0, 0, 0, 0]]\<rparr>"

lemma blank_view: "cells_view (cells_resize 3 kv_cells_init) = [Empty, Empty, Empty]" "cells_size (cells_resize 3 kv_cells_init) = 3"
proof -
  show v: "cells_view (cells_resize 3 kv_cells_init) = [Empty, Empty, Empty]" by (simp add: cells_resize_ok numeral_3_eq_3)
  show "cells_size (cells_resize 3 kv_cells_init) = 3" using arg_cong[OF v, of length] by (simp add: cells_size_def)
qed

lemma sample_sizes: "cells_size sample_cells = 3" "kv_get_size full_cache = 3" "kv_get_size blank_cache = 3"
  using blank_view(2) by (simp_all add: cells_size_def sample_len kv_get_size_def full_cache_def blank_cache_def)

lemma sample_layer_ok: "length k = 6 \<Longrightarrow> length v = 6 \<Longrightarrow> layer_ok tr 3 0 (sample_layer il k v)"
  by (simp add: layer_ok_def sample_layer_def i32_ok_def)

lemma sample_caches_ok: "kv_ok full_cache" "kv_ok blank_cache"
proof -
  have "table_ok 3 sample_cells" using sample_cells_ok sample_sizes(1) by (simp add: table_ok_def sample_view)
  then show "kv_ok full_cache" using sample_sizes(2) by (auto simp: kv_ok_def full_cache_def less_Suc_eq)
  have "table_ok 3 (cells_resize 3 kv_cells_init)" using blank_view cells_resize_ok(1) by (simp add: table_ok_def)
  then show "kv_ok blank_cache" using sample_sizes(3) by (auto simp: kv_ok_def blank_cache_def full_cache_def less_Suc_eq)
qed

lemma sample_saveable: "saveable full_cache" "restorable full_cache blank_cache" "saveable blank_cache"
  "saved_cells full_cache = [0, 2]" "saved_cells blank_cache = []"
proof -
  have v: "kv_view full_cache ! 0 = [Cell 9 0 {0}, Empty, Cell 4 0 {0, 1}]" by (simp add: kv_view_def full_cache_def sample_view)
  have v': "kv_view blank_cache ! 0 = [Empty, Empty, Empty]" by (simp add: kv_view_def blank_cache_def blank_view)
  have l: "layer_ok True 3 0 (kv_layers full_cache ! 0)" "layer_ok True 3 0 (kv_layers blank_cache ! 0)"
    by (simp_all add: full_cache_def blank_cache_def sample_layer_ok)
  have f: "kv_n_stream full_cache = 1" "kv_n_seq_max full_cache = 2" "kv_v_trans full_cache" "length (kv_layers full_cache) = 1"
    "kv_n_stream blank_cache = 1" "kv_n_seq_max blank_cache = 2" "kv_v_trans blank_cache" "length (kv_layers blank_cache) = 1"
    by (simp_all add: full_cache_def blank_cache_def)
  have all: "(\<forall>x \<in> set xs. P x) \<longleftrightarrow> P (xs ! 0)" if "length xs = 1" for xs P using that by (cases xs) auto
  show "saveable full_cache" "saveable blank_cache"
    using sample_caches_ok f l unfolding saveable_def v v' sample_sizes(2,3) all[OF f(4)] all[OF f(8)] by (auto simp: i32_ok_def)
  have "layer_like (kv_layers full_cache ! 0) (kv_layers blank_cache ! 0)"
    by (simp add: layer_like_def full_cache_def blank_cache_def sample_layer_def)
  then show "restorable full_cache blank_cache"
    using sample_caches_ok f l unfolding restorable_def layers_match_def v sample_sizes(2,3) by simp
  show "saved_cells full_cache = [0, 2]"
    by (simp add: wanted_cells_def wanted_def full_cache_def sample_sizes(1) numeral_3_eq_3) (simp add: sample_cells_def)
  have "length (saved_cells blank_cache) = 0" unfolding saved_view(2) by (simp add: blank_cache_def blank_view)
  then show "saved_cells blank_cache = []" by simp
qed

subsection \<open>Properties\<close>

text \<open>
  Property C22. A single-stream cache saved into a buffer of exactly the counted size and restored into
  any cache of the same configuration with room gives back every token: the cells hold the saved
  positions and sequences, packed to the front, with no pending shift, and row \<open>j\<close> of the keys and
  values of every layer is the row of the \<open>j\<close>-th saved cell, transposed values included. Bytes that
  follow are left unread.
\<close>

theorem state_roundtrip:
  assumes "saveable kv" and "restorable kv kv'" and "saved_cells kv \<noteq> []"
  shows "\<exists>chunks bytes kv2. kv_state_write (- 1) kv = Some chunks \<and> fold_opt io_write chunks ([], fold io_count chunks 0) = Some (bytes, 0)
    \<and> kv_state_read (- 1) (bytes @ rest) kv' = (Read_ok rest, kv2)
    \<and> kv_ok kv2 \<and> kv_view kv2 = [map settled (filter (\<lambda>x. x \<noteq> Empty) (kv_view kv ! 0))
        @ replicate (kv_get_size kv' - length (saved_cells kv)) Empty]
    \<and> (\<forall>l < length (kv_layers kv). k_restored 0 0 0 (saved_cells kv) (kv_layers kv ! l) (kv_layers kv2 ! l)
        \<and> v_restored (kv_v_trans kv) (kv_get_size kv) (kv_get_size kv') 0 0 0 (saved_cells kv) (kv_layers kv ! l) (kv_layers kv2 ! l))"
proof -
  obtain chunks kv2 where "kv_state_write (- 1) kv = Some chunks" "kv_state_read (- 1) (concat chunks @ rest) kv' = (Read_ok rest, kv2)"
    "kv_ok kv2" "kv_view kv2 = [map settled (filter (\<lambda>x. x \<noteq> Empty) (kv_view kv ! 0)) @ replicate (kv_get_size kv' - length (saved_cells kv)) Empty]"
    "\<forall>l < length (kv_layers kv). k_restored 0 0 0 (saved_cells kv) (kv_layers kv ! l) (kv_layers kv2 ! l)
        \<and> v_restored (kv_v_trans kv) (kv_get_size kv) (kv_get_size kv') 0 0 0 (saved_cells kv) (kv_layers kv ! l) (kv_layers kv2 ! l)"
    using restore_value[OF assms] by blast
  then show ?thesis by (intro exI[of _ chunks] exI[of _ "concat chunks"] exI[of _ kv2]) (simp add: io_write_all io_count_all)
qed

lemma state_roundtrip_witness:
  "\<exists>chunks bytes kv2. kv_state_write (- 1) full_cache = Some chunks \<and> fold_opt io_write chunks ([], fold io_count chunks 0) = Some (bytes, 0)
    \<and> kv_state_read (- 1) (bytes @ [7]) blank_cache = (Read_ok [7], kv2)
    \<and> kv_view kv2 = [[Cell 9 0 {0}, Cell 4 0 {0, 1}, Empty]]"
proof -
  have v: "kv_view full_cache ! 0 = [Cell 9 0 {0}, Empty, Cell 4 0 {0, 1}]" by (simp add: kv_view_def full_cache_def sample_view)
  have "saved_cells full_cache \<noteq> []" by (simp add: sample_saveable)
  from state_roundtrip[OF sample_saveable(1,2) this, of "[7]"] show ?thesis
    unfolding v sample_saveable(4) sample_sizes(3) by (auto simp: numeral_3_eq_3)
qed

text \<open>
  Property C23. When a saved state is cut off after the cells, restoring it throws, but the cache then
  holds all the saved tokens over keys and values that are all zero: the exception is not followed by
  the clean-up that a refused restore gets.
\<close>

theorem truncated_restore_keeps_tokens:
  assumes "saveable kv" and "restorable kv kv'" and "saved_cells kv \<noteq> []"
  shows "\<exists>chunks n kv2. kv_state_write (- 1) kv = Some chunks \<and> kv_state_read (- 1) (take n (concat chunks)) kv' = (Read_throw, kv2)
    \<and> kv_view kv2 = [map settled (filter (\<lambda>x. x \<noteq> Empty) (kv_view kv ! 0))
        @ replicate (kv_get_size kv' - length (saved_cells kv)) Empty]
    \<and> kv_layers kv2 = clear_bufs (kv_layers kv')"
proof -
  let ?meta = "concat (concat (map (cell_bytes (kv_n_seq_max kv) (- 1) (kv_tables kv ! 0)) (saved_cells kv)))"
  let ?pre = "le_bytes 4 1 @ le_bytes 4 (length (saved_cells kv)) @ ?meta"
  have ok: "kv_ok kv" "kv_n_stream kv = 1" "kv_n_stream kv' = 1" "kv_get_size kv < 2 ^ 32" using assms by (simp_all add: saveable_def restorable_def)
  obtain chunks data where w: "kv_state_write (- 1) kv = Some chunks" "concat chunks = ?pre @ data"
    using state_write_bytes[OF assms(1,3)] by auto
  obtain c2 where m: "state_read_meta 0 (length (saved_cells kv)) (- 1) (?meta @ []) kv'
        = (Read_ok [], (kv_clear True kv')\<lparr>kv_tables := [c2], kv_heads := [0]\<rparr>)"
    "cells_view c2 = map settled (filter (\<lambda>x. x \<noteq> Empty) (kv_view kv ! 0)) @ replicate (kv_get_size kv' - length (saved_cells kv)) Empty"
    using restore_meta[OF assms, of "[]"] by blast
  let ?k = "(kv_clear True kv')\<lparr>kv_tables := [c2], kv_heads := [0]\<rparr>"
  have "length (saved_cells kv) \<le> cells_size (kv_tables kv ! 0)"
    unfolding wanted_cells_def using length_filter_le[of _ "[0..<cells_size (kv_tables kv ! 0)]"] by simp
  then have b: "length (saved_cells kv) < 256 ^ 4" "(1 :: nat) < 256 ^ 4" using ok(4) single_size[OF ok(1,2)] by simp_all
  have "state_read_data 0 (length (saved_cells kv)) [] ?k = (Read_throw, ?k)"
    by (simp add: state_read_data_def io_read_nat_def io_read_def)
  then have "read_stream (- 1) 0 (le_bytes 4 (length (saved_cells kv)) @ ?meta) kv' = (Read_throw, ?k)"
    unfolding read_stream_def io_read_nat_bytes[OF b(1)] read_get.simps using m(1) assms(3) by (simp add: Let_def)
  then have "kv_state_read (- 1) ?pre kv' = (Read_throw, ?k)"
    unfolding kv_state_read_def io_read_nat_bytes[OF b(2)] read_get.simps using ok(3) by simp
  moreover have "take (length ?pre) (concat chunks) = ?pre" unfolding w(2) by (rule append_eq_conv_conj[THEN iffD1, THEN conjunct1, OF refl, symmetric])
  ultimately show ?thesis using w(1) m(2) by (intro exI[of _ chunks] exI[of _ "length ?pre"] exI[of _ ?k]) (simp add: kv_view_def clear_fields)
qed

lemma truncated_restore_keeps_tokens_witness:
  "\<exists>chunks n kv2. kv_state_write (- 1) full_cache = Some chunks \<and> kv_state_read (- 1) (take n (concat chunks)) blank_cache = (Read_throw, kv2)
    \<and> kv_view kv2 = [[Cell 9 0 {0}, Cell 4 0 {0, 1}, Empty]]"
proof -
  have v: "kv_view full_cache ! 0 = [Cell 9 0 {0}, Empty, Cell 4 0 {0, 1}]" by (simp add: kv_view_def full_cache_def sample_view)
  have "saved_cells full_cache \<noteq> []" by (simp add: sample_saveable)
  from truncated_restore_keeps_tokens[OF sample_saveable(1,2) this] show ?thesis
    unfolding v sample_saveable(4) sample_sizes(3) by (auto simp: numeral_3_eq_3)
qed

text \<open>
  The state of an empty cache restores nothing: whatever the target held stays, because a
  stream with no cells is skipped before the clearing.
\<close>

theorem empty_state_keeps_target:
  assumes "saveable kv" and "saved_cells kv = []" and "kv_n_stream kv' = 1"
  shows "\<exists>chunks. kv_state_write (- 1) kv = Some chunks \<and> kv_state_read (- 1) (concat chunks @ rest) kv' = (Read_ok rest, kv')"
proof -
  have ok: "kv_ok kv" "kv_n_stream kv = 1" using assms(1) by (simp_all add: saveable_def)
  have c: "cells_ok (kv_tables kv ! 0)" using kv_okD(1)[OF ok(1), of 0] ok(2) by simp
  obtain rs where "state_ranges (- 1) (kv_tables kv ! 0) = Some (0, rs)" using state_ranges_value[OF c, of "- 1"] assms(2) by auto
  then have w: "kv_state_write (- 1) kv = Some [le_bytes 4 1, le_bytes 4 0]" using ok(2) by (simp add: kv_state_write_def write_stream_def)
  have b: "(1 :: nat) < 256 ^ 4" "(0 :: nat) < 256 ^ 4" by simp_all
  have "read_stream (- 1) 0 (le_bytes 4 0 @ rest) kv' = (Read_ok rest, kv')"
    unfolding read_stream_def io_read_nat_bytes[OF b(2)] read_get.simps by simp
  then have "kv_state_read (- 1) (le_bytes 4 1 @ le_bytes 4 0 @ rest) kv' = (Read_ok rest, kv')"
    unfolding kv_state_read_def io_read_nat_bytes[OF b(1)] read_get.simps using assms(3) by simp
  then show ?thesis using w by simp
qed

lemma empty_state_keeps_target_witness:
  "\<exists>chunks. kv_state_write (- 1) blank_cache = Some chunks \<and> kv_state_read (- 1) (concat chunks @ [7]) full_cache = (Read_ok [7], full_cache)
    \<and> kv_view full_cache = [[Cell 9 0 {0}, Empty, Cell 4 0 {0, 1}]]"
proof -
  have n: "kv_n_stream full_cache = 1" by (simp add: full_cache_def)
  show ?thesis using empty_state_keeps_target[OF sample_saveable(3,5) n, of "[7]"] by (simp add: kv_view_def full_cache_def sample_view)
qed

text \<open>
  Property C24. In a whole-cache restore, restoring any stream that has cells empties every other
  stream, also those already restored, because \<open>state_read_meta\<close> clears the whole cache for each
  stream: of a saved multi-stream state only the last non-empty stream survives.
\<close>

theorem stream_restore_empties_others:
  assumes "kv_ok kv" and "s < kv_n_stream kv" and "s' < kv_n_stream kv" and "s' \<noteq> s"
    and "io_read_nat 4 bs = Some (n, bs')" and "n \<noteq> 0" and "read_stream (- 1) s bs kv = (Read_ok rest, kv2)"
  shows "\<forall>x \<in> set (cells_view (kv_tables kv2 ! s')). x = Empty"
  by (rule read_stream_others[OF assms])

lemma sample_stream_read:
  "\<exists>kv2. read_stream (- 1) 1 (le_bytes 4 1 @ concat (concat (map (cell_bytes 2 (- 1) sample_cells) [0])) @ le_bytes 4 0 @ le_bytes 4 0) sample_kv
    = (Read_ok [], kv2)"
proof -
  let ?kc = "kv_clear True sample_kv" and ?data = "le_bytes 4 0 @ le_bytes 4 0"
  have ok: "kv_ok ?kc" "kv_view ?kc = [[Empty, Empty, Empty], [Empty, Empty, Empty]]" using kv_clear_spec[OF sample_kv_ok(1)] by (simp_all add: sample_kv_ok(3))
  have n: "kv_n_stream ?kc = 2" "kv_n_seq_max ?kc = 2" "kv_layers ?kc = []" "\<not> kv_v_trans ?kc" by (simp_all add: clear_fields sample_kv_def clear_bufs_def)
  have s1: "1 < kv_n_stream ?kc" using n(1) by simp
  have v: "cells_view (kv_tables ?kc ! 1) = replicate 3 Empty" using kv_okD(8)[OF ok(1) s1] ok(2) by (simp add: numeral_3_eq_3)
  have src: "0 \<le> c_pos sample_cells ! u \<and> i32_ok (c_pos sample_cells ! u) \<and> c_seq sample_cells ! u \<subseteq> {0..<int 2}" if "u \<in> set [0 :: nat]" for u
    using that by (simp add: sample_cells_def i32_ok_def)
  obtain c' where c: "read_loop (read_cell 1) [0..<1] (concat (concat (map (cell_bytes 2 (- 1) sample_cells) [0])) @ ?data) ?kc
      = (Read_ok ?data, ?kc\<lparr>kv_tables := (kv_tables ?kc)[1 := c']\<rparr>)" "cells_view c' = map (token_of sample_cells) [0] @ replicate 2 Empty"
    using read_cells_value[where used = "[0]" and rest = ?data, OF kv_okD(6)[OF ok(1) s1] kv_okD(1)[OF ok(1) s1] v src n(2)] by (auto simp del: read_loop.simps)
  have sz: "cells_size c' = 3" using arg_cong[OF c(2), of length] by (simp add: cells_size_def)
  have "cells_size (kv_tables sample_kv ! 1) = 3" by (simp add: sample_kv_def blank_view)
  then have meta: "state_read_meta 1 1 (- 1) (concat (concat (map (cell_bytes 2 (- 1) sample_cells) [0])) @ ?data) sample_kv
      = (Read_ok ?data, ?kc\<lparr>kv_tables := (kv_tables ?kc)[1 := c'], kv_heads := (kv_heads ?kc)[1 := 0]\<rparr>)"
    using c(1) by (simp add: state_read_meta_def)
  let ?k = "?kc\<lparr>kv_tables := (kv_tables ?kc)[1 := c'], kv_heads := (kv_heads ?kc)[1 := 0]\<rparr>"
  have b: "(0 :: nat) < 256 ^ 4" "(1 :: nat) < 256 ^ 4" by simp_all
  have e: "le_bytes 4 0 = le_bytes 4 0 @ []" by simp
  have t: "kv_tables ?k ! 1 = c'" using kv_okD(6)[OF ok(1) s1] by simp
  have "state_read_data 1 1 ?data ?k = (Read_ok [], ?k)"
    unfolding state_read_data_def io_read_nat_bytes[OF b(1)] read_get.simps
    by (subst e, subst io_read_nat_bytes[OF b(1)]) (use n t sz in simp)
  then have "read_stream (- 1) 1 (le_bytes 4 1 @ concat (concat (map (cell_bytes 2 (- 1) sample_cells) [0])) @ ?data) sample_kv = (Read_ok [], ?k)"
    unfolding read_stream_def io_read_nat_bytes[OF b(2)] read_get.simps using meta by (simp add: Let_def)
  then show ?thesis by blast
qed

lemma stream_restore_empties_others_witness:
  "kv_view sample_kv ! 0 = [Cell 9 0 {0}, Empty, Cell 4 0 {0, 1}]
   \<and> (\<exists>kv2. read_stream (- 1) 1 (le_bytes 4 1 @ concat (concat (map (cell_bytes 2 (- 1) sample_cells) [0])) @ le_bytes 4 0 @ le_bytes 4 0) sample_kv
      = (Read_ok [], kv2) \<and> (\<forall>x \<in> set (cells_view (kv_tables kv2 ! 0)). x = Empty))"
proof -
  have n: "1 < kv_n_stream sample_kv" "0 < kv_n_stream sample_kv" by (simp_all add: sample_kv_def)
  have b: "(1 :: nat) < 256 ^ 4" by simp
  obtain kv2 where r: "read_stream (- 1) 1 (le_bytes 4 1 @ concat (concat (map (cell_bytes 2 (- 1) sample_cells) [0])) @ le_bytes 4 0 @ le_bytes 4 0) sample_kv
      = (Read_ok [], kv2)" using sample_stream_read by blast
  have "\<forall>x \<in> set (cells_view (kv_tables kv2 ! 0)). x = Empty"
    by (rule stream_restore_empties_others[OF sample_kv_ok(1) n _ io_read_nat_bytes[OF b] _ r]) simp_all
  then show ?thesis using r by (simp add: sample_kv_ok(3))
qed

end
