(* ===== verification/Kv_Inputs.thy ===== *)
theory Kv_Inputs
  imports Kv_Slots
begin

text \<open>
  The input tensors the KV cache fills for the attention graph (\<^verbatim>\<open>src/llama-kv-cache.cpp\<close>): the
  rows of K and the elements of V that a micro-batch is stored to (\<open>set_input_k_idxs\<close>,
  \<open>set_input_v_idxs\<close>) and the attention mask (\<open>set_input_kq_mask\<close>). A tensor is the list of its
  elements, given with its old contents; a write outside it is \<open>None\<close>.
\<close>

subsection \<open>Rows and elements to store to\<close>

definition put_elem :: "nat \<Rightarrow> 'a \<Rightarrow> 'a list \<Rightarrow> 'a list option" where
  "put_elem i x data = require (i < length data) (Some (data[i := x]))"

text \<open>The element \<open>idxs[s][i]\<close> of a slot.\<close>

definition slot_cell :: "slot_info \<Rightarrow> nat \<Rightarrow> nat \<Rightarrow> nat option" where
  "slot_cell si s i = require (s < length (si_idxs si) \<and> i < length (si_idxs si ! s)) (Some (si_idxs si ! s ! i))"

text \<open>\<open>offs\<close> is computed in 32 bits: \<open>strm[s]\<close> is a 32-bit int and the size a \<open>uint32_t\<close>.\<close>

definition kv_set_input_k_idxs :: "ubatch \<Rightarrow> slot_info \<Rightarrow> kv_cache \<Rightarrow> int list \<Rightarrow> int list option" where
  "kv_set_input_k_idxs ub si kv dst = do {
     sz \<leftarrow> slot_size si;
     require (ub_n_tokens ub = sz * slot_n_stream si)
       (fold_opt (\<lambda>s. fold_opt (\<lambda>i data. do {
            idx \<leftarrow> slot_cell si s i;
            put_elem (s * sz + i) (int (si_strm si ! s * kv_get_size kv mod 2 ^ 32) + int idx) data }) [0..<sz])
          [0..<slot_n_stream si] dst) }"

definition i64_ok :: "int \<Rightarrow> bool" where
  "i64_ok i \<longleftrightarrow> - (2 ^ 63) \<le> i \<and> i < 2 ^ 63"

text \<open>\<open>n_embd\<close> is the \<open>n_embd_v_gqa_max()\<close> of the hyperparameters.\<close>

definition kv_set_input_v_idxs :: "nat \<Rightarrow> ubatch \<Rightarrow> slot_info \<Rightarrow> kv_cache \<Rightarrow> int list \<Rightarrow> int list option" where
  "kv_set_input_v_idxs n_embd ub si kv dst = do {
     sz \<leftarrow> slot_size si;
     require (ub_n_tokens ub = sz * slot_n_stream si)
       (if \<not> kv_v_trans kv
        then fold_opt (\<lambda>s. fold_opt (\<lambda>i data. do {
            idx \<leftarrow> slot_cell si s i;
            put_elem (s * sz + i) (int (si_strm si ! s * kv_get_size kv mod 2 ^ 32) + int idx) data }) [0..<sz])
          [0..<slot_n_stream si] dst
        else let kv_size = kv_get_size kv in
          fold_opt (\<lambda>s. let offs = int (si_strm si ! s) * int kv_size * int n_embd in
            fold_opt (\<lambda>i. fold_opt (\<lambda>j data. do {
              idx \<leftarrow> slot_cell si s i;
              require (i64_ok offs \<and> i64_ok (offs + int j * int kv_size + int idx))
                (put_elem (s * sz * n_embd + i * n_embd + j) (offs + int j * int kv_size + int idx) data) })
              [0..<n_embd]) [0..<sz]) [0..<slot_n_stream si] dst) }"

subsection \<open>The attention mask\<close>

text \<open>An element of the mask: minus infinity, or the float of an integer bias.\<close>

datatype mask = Masked | Bias int

definition KQ_MASK_PAD :: nat where "KQ_MASK_PAD = 64"

definition mask_pad :: "nat \<Rightarrow> nat" where
  "mask_pad x = (x + (KQ_MASK_PAD - 1)) div KQ_MASK_PAD * KQ_MASK_PAD"

definition kq_mask_cell :: "bool \<Rightarrow> bool \<Rightarrow> kv_cache \<Rightarrow> kv_cells \<Rightarrow> int \<Rightarrow> int \<Rightarrow> nat \<Rightarrow> mask option" where
  "kq_mask_cell causal_attn use_alibi kv cells seq_id p1 j = do {
     empty \<leftarrow> cells_is_empty j cells;
     if empty then Some Masked else do {
       same \<leftarrow> cells_seq_has j seq_id cells;
       if \<not> same then Some Masked else do {
         p0 \<leftarrow> cells_pos_get j cells;
         if causal_attn \<and> p0 > p1 then Some Masked else do {
           swa \<leftarrow> kv_is_masked_swa kv p0 p1;
           if swa then Some Masked
           else if use_alibi then require (i32_ok (p0 - p1) \<and> i32_ok \<bar>p0 - p1\<bar>) (Some (Bias (- \<bar>p0 - p1\<bar>)))
           else Some (Bias 0) } } } }"

definition kq_mask_row :: "bool \<Rightarrow> bool \<Rightarrow> kv_cache \<Rightarrow> kv_cells \<Rightarrow> int \<Rightarrow> int \<Rightarrow> nat \<Rightarrow> nat \<Rightarrow> mask list \<Rightarrow> mask list option" where
  "kq_mask_row causal_attn use_alibi kv cells seq_id p1 n_kv idst =
     fold_opt (\<lambda>j data. do {
       m \<leftarrow> kq_mask_cell causal_attn use_alibi kv cells seq_id p1 j;
       case m of Masked \<Rightarrow> Some data | Bias b \<Rightarrow> put_elem (idst + j) (Bias b) data }) [0..<n_kv]"

text \<open>\<open>n_kv\<close> and \<open>n_strm\<close> are \<open>ne[0]\<close> and \<open>ne[3]\<close> of the tensor, and \<open>n_elem\<close> the number of its elements.\<close>

definition kv_set_input_kq_mask :: "bool \<Rightarrow> bool \<Rightarrow> ubatch \<Rightarrow> nat \<Rightarrow> nat \<Rightarrow> nat \<Rightarrow> kv_cache \<Rightarrow> mask list option" where
  "kv_set_input_kq_mask causal_attn use_alibi ub n_kv n_strm n_elem kv =
     require (n_strm \<noteq> 0 \<and> ub_n_tokens ub mod n_strm = 0)
     (let n_tps = ub_n_tokens ub div n_strm; n_tps_pad = mask_pad n_tps in
      fold_opt (\<lambda>s. fold_opt (\<lambda>ii data.
        let i = s * n_tps + ii in
        require (i < length (ub_seq_id ub) \<and> ub_seq_id ub ! i \<noteq> [] \<and> i < length (ub_pos ub))
        (let seq_id = ub_seq_id ub ! i ! 0 in
         require (seq_in_range kv seq_id)
           (kq_mask_row causal_attn use_alibi kv (kv_tables kv ! stream_of kv seq_id) seq_id (ub_pos ub ! i) n_kv
             (n_kv * (s * n_tps_pad + ii)) data)))
        [0..<n_tps]) [0..<n_strm] (replicate n_elem Masked))"

subsection \<open>Loops that fill a tensor\<close>

lemma fold_opt_prefix:
  assumes "distinct xs" and "P [] s"
    and "\<And>ys x s. x \<in> set xs \<Longrightarrow> x \<notin> set ys \<Longrightarrow> P ys s \<Longrightarrow> \<exists>t. f x s = Some t \<and> P (ys @ [x]) t"
  shows "\<exists>t. fold_opt f xs s = Some t \<and> P xs t"
  using assms
proof (induction xs rule: rev_induct)
  case Nil
  then show ?case by simp
next
  case (snoc x xs)
  have "\<exists>t. f y s = Some t \<and> P (ys @ [y]) t" if "y \<in> set xs" "y \<notin> set ys" "P ys s" for ys y s
    by (rule snoc.prems(3)[OF _ that(2,3)]) (use that(1) in auto)
  then have "\<exists>t. fold_opt f xs s = Some t \<and> P xs t" using snoc.prems(1) by (intro snoc.IH[OF _ snoc.prems(2)]) auto
  then obtain t where t: "fold_opt f xs s = Some t" "P xs t" by blast
  then obtain u where "f x t = Some u" "P (xs @ [x]) u" using snoc.prems(1) snoc.prems(3)[of x xs t] by auto
  then show ?case using t by (simp add: fold_opt_append)
qed

lemma fold_opt_pairs:
  "fold_opt (\<lambda>x. fold_opt (f x) ys) xs s = fold_opt (\<lambda>(x, y). f x y) (List.product xs ys) s"
proof (induction xs arbitrary: s)
  case (Cons x xs)
  have "fold_opt (\<lambda>(x, y). f x y) (map (Pair x) zs) s = fold_opt (f x) zs s" for zs s
    by (induction zs arbitrary: s) (auto split: option.splits)
  then show ?case by (simp add: fold_opt_append Cons.IH split: option.split)
qed simp

lemma put_elem_fill:
  assumes "k < length data"
  shows "\<exists>d. put_elem k x data = Some d \<and> length d = length data \<and> (\<forall>i < length data. d ! i = (if i = k then x else data ! i))"
  using assms by (auto simp: put_elem_def nth_list_update)

subsection \<open>What the mask shows\<close>

definition swa_masked :: "kv_cache \<Rightarrow> int \<Rightarrow> int \<Rightarrow> bool" where
  "swa_masked kv p0 p1 \<longleftrightarrow> kv_is_masked_swa kv p0 p1 = Some True"

definition cell_mask :: "bool \<Rightarrow> bool \<Rightarrow> kv_cache \<Rightarrow> int \<Rightarrow> int \<Rightarrow> cell \<Rightarrow> mask" where
  "cell_mask causal alibi kv q p1 x = (case x of Empty \<Rightarrow> Masked
     | Cell p sh S \<Rightarrow> if q \<in> S \<and> (causal \<longrightarrow> p \<le> p1) \<and> \<not> swa_masked kv p p1
         then Bias (if alibi then - \<bar>p - p1\<bar> else 0) else Masked)"

lemma kq_mask_cell_value:
  assumes c: "cells_ok c" and j: "j < length (cells_view c)" and q: "seq_id_ok q" and p1: "0 \<le> p1" "p1 \<le> INT_MAX" and swa: "swa_defined kv"
    and fit: "\<And>p sh S. Cell p sh S \<in> set (cells_view c) \<Longrightarrow> p < INT_MAX"
  shows "kq_mask_cell causal alibi kv c q p1 j = Some (cell_mask causal alibi kv q p1 (cells_view c ! j))"
proof (cases "cells_view c ! j")
  case Empty
  moreover have "c_pos c ! j = - 1" using Empty j by (simp add: view_Empty)
  ultimately show ?thesis using j by (simp add: kq_mask_cell_def cells_is_empty_def cell_mask_def)
next
  case (Cell p sh S)
  have j': "j < length (c_pos c)" using j by simp
  have f: "c_pos c ! j \<noteq> - 1" "p = c_pos c ! j" "S = c_seq c ! j" using Cell j' by (auto simp: view_Cell)
  have p: "0 \<le> p" using cells_okD(4)[OF c j'] f by linarith
  have "Cell p sh S \<in> set (cells_view c)" using Cell j by (metis nth_mem)
  then have up: "p < INT_MAX" by (rule fit)
  obtain b where b: "kv_is_masked_swa kv p p1 = Some b" using masked_total[OF swa p p1(1)] by blast
  have d: "i32_ok (p - p1)" "i32_ok \<bar>p - p1\<bar>" using p p1 up by (auto simp: i32_ok_def)
  have "cells_is_empty j c = Some False" using f(1) j' cells_okD(4)[OF c j'] by (simp add: cells_is_empty_def)
  then have e: "cells_is_empty j c = Some False" "cells_pos_get j c = Some p" "cells_seq_has j q c = Some (q \<in> S)"
    using f j' q by (auto simp: cells_pos_get_def cells_seq_has_def)
  show ?thesis using e b d Cell by (auto simp: kq_mask_cell_def cell_mask_def swa_masked_def)
qed

lemma kq_mask_row_value:
  assumes cell: "\<And>j. j < n_kv \<Longrightarrow> kq_mask_cell causal alibi kv c q p1 j = Some (m j)"
    and room: "idst + n_kv \<le> length data" and fresh: "\<And>j. j < n_kv \<Longrightarrow> data ! (idst + j) = Masked"
  shows "\<exists>d. kq_mask_row causal alibi kv c q p1 n_kv idst data = Some d \<and> length d = length data
    \<and> (\<forall>k < length data. d ! k = (if idst \<le> k \<and> k < idst + n_kv then m (k - idst) else data ! k))"
proof -
  let ?P = "\<lambda>n d. length d = length data
    \<and> (\<forall>k < length data. d ! k = (if idst \<le> k \<and> k < idst + n then m (k - idst) else data ! k))"
  have "\<exists>d. fold_opt (\<lambda>j data. do { x \<leftarrow> kq_mask_cell causal alibi kv c q p1 j;
      case x of Masked \<Rightarrow> Some data | Bias b \<Rightarrow> put_elem (idst + j) (Bias b) data }) [0..<n] data = Some d \<and> ?P n d" if "n \<le> n_kv" for n
    using that
  proof (induction n)
    case 0
    then show ?case by auto
  next
    case (Suc n)
    then obtain d where d: "fold_opt (\<lambda>j data. do { x \<leftarrow> kq_mask_cell causal alibi kv c q p1 j;
      case x of Masked \<Rightarrow> Some data | Bias b \<Rightarrow> put_elem (idst + j) (Bias b) data }) [0..<n] data = Some d" "?P n d" by auto
    have n: "n < n_kv" using Suc.prems by simp
    have at: "idst + n < length d" using room n d(2) by simp
    show ?case
    proof (cases "m n")
      case Masked
      have "d ! (idst + n) = Masked" using d(2) at fresh[OF n] by simp
      then have "?P (Suc n) d" using d(2) Masked by (auto simp: less_Suc_eq)
      then show ?thesis using d(1) cell[OF n] Masked by (simp add: fold_opt_append)
    next
      case (Bias b)
      obtain e where e: "put_elem (idst + n) (Bias b) d = Some e" "length e = length d"
        "\<forall>i < length d. e ! i = (if i = idst + n then Bias b else d ! i)" using put_elem_fill[OF at] by blast
      have "?P (Suc n) e" using d(2) e(2,3) Bias by (auto simp: less_Suc_eq)
      then show ?thesis using d(1) cell[OF n] Bias e(1) by (simp add: fold_opt_append)
    qed
  qed
  from this[of n_kv] show ?thesis by (simp add: kq_mask_row_def)
qed

definition tokens_ok :: "kv_cache \<Rightarrow> ubatch \<Rightarrow> bool" where
  "tokens_ok kv ub \<longleftrightarrow> length (ub_seq_id ub) = ub_n_tokens ub \<and> length (ub_pos ub) = ub_n_tokens ub
     \<and> (\<forall>i < ub_n_tokens ub. ub_seq_id ub ! i \<noteq> [] \<and> seq_in_range kv (ub_seq_id ub ! i ! 0)
         \<and> 0 \<le> ub_pos ub ! i \<and> ub_pos ub ! i \<le> INT_MAX)"

lemma mask_pad_ge: "n \<le> mask_pad n"
  unfolding mask_pad_def KQ_MASK_PAD_def by simp

lemma div_mod_row:
  assumes "j < (n :: nat)"
  shows "(n * r + j) div n = r" "(n * r + j) mod n = j"
  using assms by simp_all

lemma token_index:
  assumes "s < n_strm" and "ii < n_tps" and "n_tps = n div n_strm" and "n mod n_strm = (0 :: nat)"
  shows "s * n_tps + ii < n"
proof -
  have "n = n_strm * n_tps" using assms(3,4) by auto
  moreover have "Suc s * n_tps \<le> n_strm * n_tps" by (rule mult_le_mono1) (use assms(1) in simp)
  ultimately show ?thesis using assms(2) by simp
qed

text \<open>The mask as a function of the index: row \<open>s * n_tps_pad + ii\<close>, column \<open>j\<close>.\<close>

lemma kq_mask_value:
  fixes causal alibi :: bool
  assumes ok: "kv_ok kv" and swa: "swa_defined kv" and fit: "positions_fit kv" and ub: "tokens_ok kv ub"
    and strm: "n_strm \<noteq> 0" "ub_n_tokens ub mod n_strm = 0" and n_kv: "n_kv \<le> kv_get_size kv"
  defines "n_tps \<equiv> ub_n_tokens ub div n_strm"
  defines "pad \<equiv> mask_pad n_tps"
  assumes elem: "n_elem = n_kv * (pad * n_strm)"
  defines "val \<equiv> \<lambda>s ii j. cell_mask causal alibi kv (ub_seq_id ub ! (s * n_tps + ii) ! 0) (ub_pos ub ! (s * n_tps + ii))
      (kv_view kv ! stream_of kv (ub_seq_id ub ! (s * n_tps + ii) ! 0) ! j)"
  shows "\<exists>d. kv_set_input_kq_mask causal alibi ub n_kv n_strm n_elem kv = Some d \<and> length d = n_elem
    \<and> (\<forall>k < n_elem. d ! k = (if k div n_kv mod pad < n_tps then val (k div n_kv div pad) (k div n_kv mod pad) (k mod n_kv) else Masked))"
proof -
  let ?f = "\<lambda>(s, ii) data. let i = s * n_tps + ii in
        require (i < length (ub_seq_id ub) \<and> ub_seq_id ub ! i \<noteq> [] \<and> i < length (ub_pos ub))
        (let seq_id = ub_seq_id ub ! i ! 0 in
         require (seq_in_range kv seq_id)
           (kq_mask_row causal alibi kv (kv_tables kv ! stream_of kv seq_id) seq_id (ub_pos ub ! i) n_kv (n_kv * (s * pad + ii)) data))"
  let ?xs = "List.product [0..<n_strm] [0..<n_tps]"
  let ?P = "\<lambda>ys d. length d = n_elem \<and> (\<forall>k < n_elem. d ! k =
      (if (k div n_kv div pad, k div n_kv mod pad) \<in> set ys then val (k div n_kv div pad) (k div n_kv mod pad) (k mod n_kv) else Masked))"
  have tp: "n_tps \<le> pad" unfolding pad_def by (rule mask_pad_ge)
  have "\<exists>d. fold_opt ?f ?xs (replicate n_elem Masked) = Some d \<and> ?P ?xs d"
  proof (rule fold_opt_prefix)
    show "distinct ?xs" by (simp add: distinct_product)
    show "?P [] (replicate n_elem Masked)" by simp
    fix ys x d
    assume in_xs: "x \<in> set ?xs" and new: "x \<notin> set ys" and P: "?P ys d"
    obtain s ii where x: "x = (s, ii)" by (cases x)
    have b: "s < n_strm" "ii < n_tps" using in_xs x by auto
    let ?i = "s * n_tps + ii" and ?q = "ub_seq_id ub ! (s * n_tps + ii) ! 0" and ?base = "n_kv * (s * pad + ii)"
    have i: "?i < ub_n_tokens ub" by (rule token_index[OF b]) (use strm in \<open>simp_all add: n_tps_def\<close>)
    then have u: "ub_seq_id ub ! ?i \<noteq> []" "seq_in_range kv ?q" "0 \<le> ub_pos ub ! ?i" "ub_pos ub ! ?i \<le> INT_MAX"
      "?i < length (ub_seq_id ub)" "?i < length (ub_pos ub)" using ub by (auto simp: tokens_ok_def)
    let ?st = "stream_of kv ?q"
    have st: "?st < kv_n_stream kv" by (rule stream_of_less[OF ok u(2)])
    note t = kv_okD[OF ok st]
    have cell: "kq_mask_cell causal alibi kv (kv_tables kv ! ?st) ?q (ub_pos ub ! ?i) j = Some (val s ii j)" if "j < n_kv" for j
      unfolding val_def t(8)
    proof (rule kq_mask_cell_value[OF t(1) _ seq_in_range_id[OF ok u(2)] u(3,4) swa])
      show "j < length (cells_view (kv_tables kv ! ?st))" using that n_kv t(3) by simp
      show "p < INT_MAX" if "Cell p sh S \<in> set (cells_view (kv_tables kv ! ?st))" for p sh S
        using fit that t(6) unfolding positions_fit_def kv_view_def by fastforce
    qed
    have "Suc (s * pad + ii) \<le> n_strm * pad"
    proof -
      have "Suc s * pad \<le> n_strm * pad" by (rule mult_le_mono1) (use b in simp)
      then show ?thesis using b(2) tp by simp
    qed
    then have "n_kv * Suc (s * pad + ii) \<le> n_kv * (n_strm * pad)" by (rule mult_le_mono2)
    then have room: "?base + n_kv \<le> length d" using P by (simp add: elem algebra_simps)
    have row: "(k div n_kv div pad = s \<and> k div n_kv mod pad = ii) = (?base \<le> k \<and> k < ?base + n_kv)" if "k < n_elem" for k
    proof
      assume a: "k div n_kv div pad = s \<and> k div n_kv mod pad = ii"
      have "k div n_kv = s * pad + ii" using a div_mult_mod_eq[of "k div n_kv" pad] by simp
      moreover have "0 < n_kv" using that elem by (cases n_kv) auto
      ultimately show "?base \<le> k \<and> k < ?base + n_kv"
        using div_mult_mod_eq[of k n_kv] mod_less_divisor[of n_kv k] by (metis add_less_cancel_left le_add1 mult.commute)
    next
      assume "?base \<le> k \<and> k < ?base + n_kv"
      then have "k = n_kv * (s * pad + ii) + (k - ?base)" "k - ?base < n_kv" by auto
      then have "k div n_kv = s * pad + ii" using div_mod_row(1) by metis
      then show "k div n_kv div pad = s \<and> k div n_kv mod pad = ii" using b(2) tp by simp
    qed
    have fresh: "d ! (?base + j) = Masked" if "j < n_kv" for j
    proof -
      have k: "?base + j < n_elem" using room P that by simp
      have "((?base + j) div n_kv div pad, (?base + j) div n_kv mod pad) = x" using row[OF k] that x by simp
      then show ?thesis using P k new by auto
    qed
    obtain d' where d': "kq_mask_row causal alibi kv (kv_tables kv ! ?st) ?q (ub_pos ub ! ?i) n_kv ?base d = Some d'" "length d' = length d"
      "\<forall>k < length d. d' ! k = (if ?base \<le> k \<and> k < ?base + n_kv then val s ii (k - ?base) else d ! k)"
      using kq_mask_row_value[OF cell room fresh] by blast
    have "?P (ys @ [x]) d'"
    proof (intro conjI allI impI)
      show "length d' = n_elem" using d'(2) P by simp
      fix k assume k: "k < n_elem"
      show "d' ! k = (if (k div n_kv div pad, k div n_kv mod pad) \<in> set (ys @ [x])
          then val (k div n_kv div pad) (k div n_kv mod pad) (k mod n_kv) else Masked)"
      proof (cases "?base \<le> k \<and> k < ?base + n_kv")
        case True
        then have r: "k div n_kv div pad = s" "k div n_kv mod pad = ii" using row[OF k] by auto
        have "k = ?base + (k - ?base)" "k - ?base < n_kv" using True by auto
        then have "k mod n_kv = k - ?base" using div_mod_row(2) by metis
        then show ?thesis using d'(3) k True P r x by simp
      next
        case False
        then have "(k div n_kv div pad, k div n_kv mod pad) \<noteq> x" using row[OF k] x by auto
        then show ?thesis using d'(3) k False P by auto
      qed
    qed
    then show "\<exists>d'. ?f x d = Some d' \<and> ?P (ys @ [x]) d'" using d'(1) u x by (auto simp: Let_def)
  qed
  then obtain d where d: "fold_opt ?f ?xs (replicate n_elem Masked) = Some d" "?P ?xs d" by blast
  have "((k div n_kv div pad, k div n_kv mod pad) \<in> set ?xs) = (k div n_kv mod pad < n_tps)" if "k < n_elem" for k
  proof -
    have "k div n_kv < pad * n_strm" using that unfolding elem by (simp add: less_mult_imp_div_less mult.commute)
    then have "k div n_kv div pad < n_strm" by (simp add: less_mult_imp_div_less mult.commute)
    then show ?thesis by simp
  qed
  then have "\<forall>k < n_elem. d ! k = (if k div n_kv mod pad < n_tps then val (k div n_kv div pad) (k div n_kv mod pad) (k mod n_kv) else Masked)"
    using d(2) by simp
  moreover have "kv_set_input_kq_mask causal alibi ub n_kv n_strm n_elem kv = fold_opt ?f ?xs (replicate n_elem Masked)"
    using strm unfolding pad_def by (simp add: kv_set_input_kq_mask_def n_tps_def[symmetric] fold_opt_pairs)
  ultimately show ?thesis using d by auto
qed

subsection \<open>Where a micro-batch is stored\<close>

lemma fill_loop_values:
  assumes "length data = n" and "\<And>k d. k < n \<Longrightarrow> length d = n \<Longrightarrow> f k d = put_elem k (x k) d"
  shows "fold_opt f [0..<n] data = Some (map x [0..<n])"
proof -
  have "\<exists>d. fold_opt f [0..<m] data = Some d \<and> length d = n \<and> (\<forall>i < m. d ! i = x i)" if "m \<le> n" for m
    using that
  proof (induction m)
    case 0
    then show ?case using assms(1) by simp
  next
    case (Suc m)
    then obtain d where d: "fold_opt f [0..<m] data = Some d" "length d = n" "\<forall>i < m. d ! i = x i" by auto
    obtain e where "put_elem m (x m) d = Some e" "length e = n" "\<forall>i < n. e ! i = (if i = m then x m else d ! i)"
      using put_elem_fill[of m d "x m"] d(2) Suc.prems by auto
    then show ?case using d assms(2)[of m d] Suc.prems by (auto simp: fold_opt_append less_Suc_eq)
  qed
  from this[of n] obtain d where "fold_opt f [0..<n] data = Some d" "length d = n" "\<forall>i < n. d ! i = x i" by auto
  then show ?thesis by (auto intro: nth_equalityI)
qed

lemma k_idxs_single:
  assumes "length idxs = ub_n_tokens ub" and "length dst = ub_n_tokens ub"
  shows "kv_set_input_k_idxs ub (slot_of idxs) kv dst = Some (map int idxs)"
proof -
  have "fold_opt (\<lambda>i data. do { idx \<leftarrow> slot_cell (slot_of idxs) 0 i; put_elem (0 * length idxs + i)
      (int (si_strm (slot_of idxs) ! 0 * kv_get_size kv mod 2 ^ 32) + int idx) data }) [0..<length idxs] dst
      = Some (map (\<lambda>i. int (idxs ! i)) [0..<length idxs])"
    using assms by (intro fill_loop_values) (auto simp: slot_cell_def)
  also have "map (\<lambda>i. int (idxs ! i)) [0..<length idxs] = map int idxs" by (auto intro: nth_equalityI)
  finally show ?thesis using assms by (simp add: kv_set_input_k_idxs_def)
qed

text \<open>The elements of the transposed V: token after token, and for each its dimensions.\<close>

lemma list_product_map: "map f (List.product [0..<m] [0..<n]) = map (\<lambda>k. f (k div n, k mod n)) [0..<m * n]"
proof (rule nth_equalityI)
  fix k assume k: "k < length (map f (List.product [0..<m] [0..<n]))"
  then have "k < m * n" by simp
  moreover from this have "0 < n" "k div n < m" by (auto intro: gr0I simp: less_mult_imp_div_less)
  ultimately show "map f (List.product [0..<m] [0..<n]) ! k = map (\<lambda>k. f (k div n, k mod n)) [0..<m * n] ! k"
    by (simp add: product_nth)
qed simp

lemma fold_opt_grid:
  "fold_opt (\<lambda>i. fold_opt (f i) [0..<n]) [0..<m] s = fold_opt (\<lambda>k. f (k div n) (k mod n)) [0..<m * n] s"
proof -
  have "List.product [0..<m] [0..<n] = map (\<lambda>k. (k div n, k mod n)) [0..<m * n]"
    using list_product_map[of "\<lambda>x. x" m n] by simp
  then show ?thesis by (simp add: fold_opt_pairs fold_opt_map)
qed

lemma v_idxs_single:
  assumes n: "length idxs = ub_n_tokens ub" and tr: "kv_v_trans kv" and dst: "length dst = ub_n_tokens ub * n_embd"
    and fits: "int n_embd * int (kv_get_size kv) < 2 ^ 63" and idx: "\<And>i. i \<in> set idxs \<Longrightarrow> i < kv_get_size kv"
  shows "kv_set_input_v_idxs n_embd ub (slot_of idxs) kv dst
    = Some (map (\<lambda>k. int (k mod n_embd) * int (kv_get_size kv) + int (idxs ! (k div n_embd))) [0..<ub_n_tokens ub * n_embd])"
proof -
  let ?sz = "kv_get_size kv" and ?offs = "int (si_strm (slot_of idxs) ! 0) * int (kv_get_size kv) * int n_embd"
  let ?f = "\<lambda>i j data. do { idx \<leftarrow> slot_cell (slot_of idxs) 0 i; require (i64_ok ?offs \<and> i64_ok (?offs + int j * int ?sz + int idx))
      (put_elem (0 * length idxs * n_embd + i * n_embd + j) (?offs + int j * int ?sz + int idx) data) }"
  have "fold_opt (\<lambda>i. fold_opt (?f i) [0..<n_embd]) [0..<length idxs] dst
      = Some (map (\<lambda>k. int (k mod n_embd) * int ?sz + int (idxs ! (k div n_embd))) [0..<length idxs * n_embd])"
    unfolding fold_opt_grid
  proof (rule fill_loop_values)
    show "length dst = length idxs * n_embd" using n dst by simp
    fix k d
    assume k: "k < length idxs * n_embd"
    then have "0 < n_embd" by (auto intro: gr0I)
    then have b: "k div n_embd < length idxs" "k mod n_embd < n_embd" using k by (simp_all add: less_mult_imp_div_less)
    have "idxs ! (k div n_embd) < ?sz" using idx b(1) by simp
    then have "(k mod n_embd) * ?sz + idxs ! (k div n_embd) < Suc (k mod n_embd) * ?sz" by simp
    also have "\<dots> \<le> n_embd * ?sz" by (rule mult_le_mono1) (use b(2) in simp)
    finally have "int ((k mod n_embd) * ?sz + idxs ! (k div n_embd)) < int (n_embd * ?sz)" by (simp only: of_nat_less_iff)
    then have "int (k mod n_embd) * int ?sz + int (idxs ! (k div n_embd)) < 2 ^ 63" using fits by simp
    then have "i64_ok (0 + int (k mod n_embd) * int ?sz + int (idxs ! (k div n_embd)))" by (simp add: i64_ok_def order_trans[OF _ add_nonneg_nonneg])
    moreover have "i64_ok 0" by (simp add: i64_ok_def)
    moreover have "k div n_embd * n_embd + k mod n_embd = k" by simp
    ultimately show "?f (k div n_embd) (k mod n_embd) d = put_elem k (int (k mod n_embd) * int ?sz + int (idxs ! (k div n_embd))) d"
      using b(1) by (simp add: slot_cell_def)
  qed
  then show ?thesis using n tr by (simp add: kv_set_input_v_idxs_def Let_def del: slot_of_simps(1) cong: if_cong)
qed

end
