(* ===== verification/Kv_Iswa.thy ===== *)
theory Kv_Iswa
  imports Kv_State Kv_Inputs
begin

text \<open>
  The cache of models with interleaved sliding-window layers (\<^verbatim>\<open>src/llama-kv-cache-iswa.cpp\<close>), which
  Gemma 3 uses: one cache for the full-attention layers and a smaller one, whose old cells are reused,
  for the sliding-window layers. Every operation runs on both, the base cache first.
\<close>

record kv_iswa =
  iw_unified :: bool
  iw_base :: kv_cache
  iw_swa :: kv_cache

text \<open>
  The constructor. \<open>alloc\<close> is the layers ggml allocates for a cache of a size, of those a filter selects.
\<close>

definition layer_base :: "(nat \<Rightarrow> bool) option \<Rightarrow> (nat \<Rightarrow> bool) \<Rightarrow> nat \<Rightarrow> bool" where
  "layer_base flt is_swa il = (if (case flt of None \<Rightarrow> False | Some f \<Rightarrow> \<not> f il) then False else \<not> is_swa il)"

definition layer_swa :: "(nat \<Rightarrow> bool) option \<Rightarrow> (nat \<Rightarrow> bool) \<Rightarrow> nat \<Rightarrow> bool" where
  "layer_swa flt is_swa il = (if (case flt of None \<Rightarrow> False | Some f \<Rightarrow> \<not> f il) then False else is_swa il)"

definition iswa_size :: "bool \<Rightarrow> bool \<Rightarrow> nat \<Rightarrow> nat \<Rightarrow> nat \<Rightarrow> nat \<Rightarrow> nat \<Rightarrow> nat" where
  "iswa_size swa_full unified size_base n_seq_max n_ubatch n_pad n_swa =
    (if swa_full then size_base
     else min size_base (unat (ggml_pad (of_nat n_swa * of_nat (if unified then n_seq_max else 1) + of_nat n_ubatch) (of_nat n_pad))))"

definition iswa_init ::
    "(nat \<Rightarrow> (nat \<Rightarrow> bool) \<Rightarrow> kv_layer list) \<Rightarrow> (nat \<Rightarrow> bool) option \<Rightarrow> (nat \<Rightarrow> bool) \<Rightarrow> bool \<Rightarrow> bool \<Rightarrow> bool
       \<Rightarrow> nat \<Rightarrow> nat \<Rightarrow> nat \<Rightarrow> nat \<Rightarrow> nat \<Rightarrow> swa_type \<Rightarrow> kv_iswa option" where
  "iswa_init alloc flt is_swa v_trans swa_full unified kv_size n_seq_max n_ubatch n_pad n_swa swa =
    (let size_base = kv_size; size_swa = iswa_size swa_full unified size_base n_seq_max n_ubatch n_pad n_swa in do {
       base \<leftarrow> kv_init v_trans unified size_base n_seq_max n_pad 0 SWA_NONE (alloc size_base (layer_base flt is_swa));
       sw \<leftarrow> kv_init v_trans unified size_swa n_seq_max n_pad n_swa swa (alloc size_swa (layer_swa flt is_swa));
       Some \<lparr>iw_unified = unified, iw_base = base, iw_swa = sw\<rparr> })"

subsection \<open>Sequence operations\<close>

definition on_both :: "(kv_cache \<Rightarrow> kv_cache option) \<Rightarrow> kv_iswa \<Rightarrow> kv_iswa option" where
  "on_both f iw = do { base \<leftarrow> f (iw_base iw); sw \<leftarrow> f (iw_swa iw); Some (iw\<lparr>iw_base := base, iw_swa := sw\<rparr>) }"

definition iswa_clear :: "bool \<Rightarrow> kv_iswa \<Rightarrow> kv_iswa" where
  "iswa_clear data iw = iw\<lparr>iw_base := kv_clear data (iw_base iw), iw_swa := kv_clear data (iw_swa iw)\<rparr>"

definition iswa_seq_rm :: "int \<Rightarrow> int \<Rightarrow> int \<Rightarrow> kv_iswa \<Rightarrow> (bool \<times> kv_iswa) option" where
  "iswa_seq_rm seq_id p0 p1 iw = do {
     (res0, base) \<leftarrow> kv_seq_rm seq_id p0 p1 (iw_base iw);
     (res1, sw) \<leftarrow> kv_seq_rm seq_id p0 p1 (iw_swa iw);
     Some (res0 \<and> res1, iw\<lparr>iw_base := base, iw_swa := sw\<rparr>) }"

definition iswa_seq_cp :: "int \<Rightarrow> int \<Rightarrow> int \<Rightarrow> int \<Rightarrow> kv_iswa \<Rightarrow> kv_iswa option" where
  "iswa_seq_cp src dst p0 p1 = on_both (kv_seq_cp src dst p0 p1)"

definition iswa_seq_keep :: "int \<Rightarrow> kv_iswa \<Rightarrow> kv_iswa option" where
  "iswa_seq_keep seq_id = on_both (kv_seq_keep seq_id)"

definition iswa_seq_add :: "int \<Rightarrow> int \<Rightarrow> int \<Rightarrow> int \<Rightarrow> kv_iswa \<Rightarrow> kv_iswa option" where
  "iswa_seq_add seq_id p0 p1 shift = on_both (kv_seq_add seq_id p0 p1 shift)"

definition iswa_seq_div :: "int \<Rightarrow> int \<Rightarrow> int \<Rightarrow> int \<Rightarrow> kv_iswa \<Rightarrow> kv_iswa option" where
  "iswa_seq_div seq_id p0 p1 d = on_both (kv_seq_div seq_id p0 p1 d)"

definition iswa_seq_pos_min :: "int \<Rightarrow> kv_iswa \<Rightarrow> int option" where
  "iswa_seq_pos_min seq_id iw = kv_seq_pos_min seq_id (iw_swa iw)"

definition iswa_seq_pos_max :: "int \<Rightarrow> kv_iswa \<Rightarrow> int option" where
  "iswa_seq_pos_max seq_id iw = kv_seq_pos_max seq_id (iw_swa iw)"

definition iswa_get_can_shift :: "kv_iswa \<Rightarrow> bool" where
  "iswa_get_can_shift iw \<longleftrightarrow> kv_get_size (iw_base iw) = kv_get_size (iw_swa iw)"

subsection \<open>Saving and restoring\<close>

definition iswa_state_write :: "bool \<Rightarrow> int \<Rightarrow> kv_iswa \<Rightarrow> u8 list list option" where
  "iswa_state_write swa_only seq_id iw = do {
     base \<leftarrow> (if \<not> swa_only then kv_state_write seq_id (iw_base iw) else Some []);
     sw \<leftarrow> kv_state_write seq_id (iw_swa iw);
     Some (base @ sw) }"

definition iswa_read_swa :: "int \<Rightarrow> u8 list \<Rightarrow> kv_iswa \<Rightarrow> read_result \<times> kv_iswa" where
  "iswa_read_swa seq_id bs iw = (case kv_state_read seq_id bs (iw_swa iw) of (r, sw) \<Rightarrow> (r, iw\<lparr>iw_swa := sw\<rparr>))"

definition iswa_state_read :: "bool \<Rightarrow> int \<Rightarrow> u8 list \<Rightarrow> kv_iswa \<Rightarrow> read_result \<times> kv_iswa" where
  "iswa_state_read swa_only seq_id bs iw =
    (if \<not> swa_only
     then (case kv_state_read seq_id bs (iw_base iw) of
         (Read_ok rest, base) \<Rightarrow> iswa_read_swa seq_id rest (iw\<lparr>iw_base := base\<rparr>)
       | (r, base) \<Rightarrow> (r, iw\<lparr>iw_base := base\<rparr>))
     else iswa_read_swa seq_id bs iw)"

subsection \<open>Batches\<close>

record iswa_context =
  ix_status :: memory_status
  ix_i_next :: nat
  ix_ubatches :: "ubatch list"
  ix_base :: kv_context
  ix_swa :: kv_context

definition iswa_context_of :: "ubatch list \<Rightarrow> kv_context \<Rightarrow> kv_context \<Rightarrow> iswa_context" where
  "iswa_context_of ubs base sw = \<lparr>ix_status = status_combine (kx_status base) (kx_status sw), ix_i_next = 0,
     ix_ubatches = ubs, ix_base = base, ix_swa = sw\<rparr>"

definition iswa_context_failed :: "memory_status \<Rightarrow> iswa_context" where
  "iswa_context_failed st = \<lparr>ix_status = st, ix_i_next = 0, ix_ubatches = [],
     ix_base = context_blank st, ix_swa = context_blank st\<rparr>"

definition iswa_init_full :: "kv_iswa \<Rightarrow> iswa_context" where
  "iswa_init_full iw = iswa_context_of [] (context_full (iw_base iw)) (context_full (iw_swa iw))"

definition iswa_init_update :: "kv_iswa \<Rightarrow> iswa_context \<times> kv_iswa" where
  "iswa_init_update iw = (let (base_ctx, base) = kv_init_update (iw_base iw); (swa_ctx, sw) = kv_init_update (iw_swa iw)
     in (iswa_context_of [] base_ctx swa_ctx, iw\<lparr>iw_base := base, iw_swa := sw\<rparr>))"

text \<open>
  One attempt with the micro-batches a split of the batch produced, and whether they cover the batch:
  both caches must find slots. \<open>None\<close> inside is the \<open>break\<close>.
\<close>

definition iswa_try :: "ubatch list \<Rightarrow> bool \<Rightarrow> kv_iswa \<Rightarrow> (iswa_context option \<times> kv_iswa) option" where
  "iswa_try ubs covered iw =
    (if \<not> covered then Some (None, iw) else do {
       (sinfos_base, base) \<leftarrow> kv_prepare ubs (iw_base iw);
       let iw = iw\<lparr>iw_base := base\<rparr>;
       if sinfos_base = [] then Some (None, iw) else do {
         (sinfos_swa, sw) \<leftarrow> kv_prepare ubs (iw_swa iw);
         let iw = iw\<lparr>iw_swa := sw\<rparr>;
         if sinfos_swa = [] then Some (None, iw)
         else require (length sinfos_base = length sinfos_swa)
           (Some (Some (iswa_context_of ubs (context_batch sinfos_base ubs) (context_batch sinfos_swa ubs)), iw)) } })"

definition iswa_init_batch :: "ubatch list \<times> bool \<Rightarrow> ubatch list \<times> bool \<Rightarrow> kv_iswa \<Rightarrow> (iswa_context \<times> kv_iswa) option" where
  "iswa_init_batch simple equal iw = do {
     (ctx, iw) \<leftarrow> (if \<not> iw_unified iw then Some (None, iw) else iswa_try (fst simple) (snd simple) iw);
     case ctx of Some c \<Rightarrow> Some (c, iw) | None \<Rightarrow> do {
       (ctx, iw) \<leftarrow> iswa_try (fst equal) (snd equal) iw;
       case ctx of Some c \<Rightarrow> Some (c, iw) | None \<Rightarrow> Some (iswa_context_failed STATUS_FAILED_PREPARE, iw) } }"

definition iswa_context_next :: "iswa_context \<Rightarrow> (bool \<times> iswa_context) option" where
  "iswa_context_next ix = require (ix_status ix = STATUS_SUCCESS) (do {
     (_, base) \<leftarrow> context_next (ix_base ix);
     (_, sw) \<leftarrow> context_next (ix_swa ix);
     let i_next = ix_i_next ix + 1;
     Some (i_next < length (ix_ubatches ix), ix\<lparr>ix_base := base, ix_swa := sw, ix_i_next := i_next\<rparr>) })"

text \<open>\<open>rope\<close>, \<open>rope_none\<close> and the outcome of the shift graph, for the base and the sliding-window cache.\<close>

definition iswa_context_apply ::
    "(int list \<Rightarrow> kv_layer list \<Rightarrow> kv_layer list) \<Rightarrow> bool \<Rightarrow> shift_outcome \<times> shift_outcome
       \<Rightarrow> iswa_context \<times> kv_iswa \<Rightarrow> (bool \<times> iswa_context \<times> kv_iswa) option" where
  "iswa_context_apply rope rope_none outcome = (\<lambda>(ix, iw). require (\<not> status_is_fail (ix_status ix)) (do {
     (res0, bctx, base) \<leftarrow> context_apply rope rope_none (fst outcome) (ix_base ix, iw_base iw);
     (res1, sctx, sw) \<leftarrow> context_apply rope rope_none (snd outcome) (ix_swa ix, iw_swa iw);
     Some (res0 \<and> res1, ix\<lparr>ix_base := bctx, ix_swa := sctx\<rparr>, iw\<lparr>iw_base := base, iw_swa := sw\<rparr>) }))"

definition iswa_get_ubatch :: "iswa_context \<Rightarrow> ubatch option" where
  "iswa_get_ubatch ix = require (ix_status ix = STATUS_SUCCESS \<and> ix_i_next ix < length (ix_ubatches ix))
     (Some (ix_ubatches ix ! ix_i_next ix))"

end
