(* ===== verification/Kv_Window.thy ===== *)
theory Kv_Window
  imports Kv_Iswa
begin

text \<open>
  The sliding-window cache: placing a micro-batch reuses cells whose token the window already masks
  and purges every older token of the same sequence. The lemmas describe the positions of every
  sequence after \<open>apply_ubatch\<close>; the theory then runs the two caches of \<open>llama_kv_cache_iswa\<close> side by
  side and shows that the small one always has every token the attention may look at.
\<close>

subsection \<open>The positions of a sequence\<close>

definition qpos :: "cell list \<Rightarrow> int \<Rightarrow> int set" where
  "qpos v q = {p. \<exists>sh S. Cell p sh S \<in> set v \<and> q \<in> S}"

lemma qposI: "Cell p sh S \<in> set v \<Longrightarrow> q \<in> S \<Longrightarrow> p \<in> qpos v q"
  by (auto simp: qpos_def)

lemma seq_positions_qpos: "seq_positions c q = qpos (cells_view c) q"
  unfolding seq_positions_def qpos_def by (auto simp: in_set_conv_nth intro: nth_mem)

lemma qpos_finite: "finite (qpos v q)"
proof -
  have "qpos v q \<subseteq> cell_pos ` set v" by (force simp: qpos_def)
  then show ?thesis by (rule finite_subset) simp
qed

lemma qpos_drop:
  "qpos (map (drop_seq s lo hi) v) q = (if q = s then {p \<in> qpos v q. \<not> (lo \<le> p \<and> p < hi)} else qpos v q)"
proof -
  have fwd: "\<exists>sh S. Cell p sh S \<in> set v \<and> q \<in> S \<and> (q = s \<longrightarrow> \<not> (lo \<le> p \<and> p < hi))"
    if a: "Cell p sh' S' \<in> drop_seq s lo hi ` set v" and "q \<in> S'" for p sh' S'
  proof -
    obtain x where x: "x \<in> set v" "drop_seq s lo hi x = Cell p sh' S'" using a unfolding image_iff by metis
    from x(2) obtain p0 sh0 S0 where "x = Cell p0 sh0 S0" by (cases x) auto
    then show ?thesis using x that(2) by (auto split: if_splits)
  qed
  have bwd: "\<exists>sh S. Cell p sh S \<in> drop_seq s lo hi ` set v \<and> q \<in> S"
    if "Cell p sh S \<in> set v" "q \<in> S" "q = s \<longrightarrow> \<not> (lo \<le> p \<and> p < hi)" for p sh S
  proof -
    have "drop_seq s lo hi (Cell p sh S) \<in> drop_seq s lo hi ` set v" using that(1) by (rule imageI)
    moreover have "\<exists>S'. drop_seq s lo hi (Cell p sh S) = Cell p sh S' \<and> q \<in> S'" using that(2,3) by auto
    ultimately show ?thesis by metis
  qed
  show ?thesis unfolding qpos_def set_map using fwd bwd by (auto; blast)
qed

lemma qpos_keep: "qpos (map (keep_seq s) v) q = (if q = s then qpos v q else {})"
proof -
  have "\<exists>sh S. Cell p sh S \<in> set v \<and> q \<in> S \<and> q = s" if a: "Cell p sh' S' \<in> keep_seq s ` set v" and "q \<in> S'" for p sh' S'
  proof -
    obtain x where x: "x \<in> set v" "keep_seq s x = Cell p sh' S'" using a unfolding image_iff by metis
    from x(2) obtain p0 sh0 S0 where "x = Cell p0 sh0 S0" by (cases x) auto
    then show ?thesis using x that(2) by (auto split: if_splits)
  qed
  moreover have "\<exists>sh S. Cell p sh S \<in> keep_seq s ` set v \<and> s \<in> S" if "Cell p sh S \<in> set v" "s \<in> S" for p sh S
    using that imageI[OF that(1), of "keep_seq s"] by auto
  ultimately show ?thesis unfolding qpos_def set_map by (auto; blast)
qed

lemma qpos_share:
  "qpos (map (share_seq src dst lo hi) v) q = qpos v q \<union> (if q = dst then {p \<in> qpos v src. lo \<le> p \<and> p < hi} else {})"
proof -
  have fwd: "\<exists>sh S. Cell p sh S \<in> set v \<and> (q \<in> S \<or> q = dst \<and> src \<in> S \<and> lo \<le> p \<and> p < hi)"
    if a: "Cell p sh' S' \<in> share_seq src dst lo hi ` set v" and "q \<in> S'" for p sh' S'
  proof -
    obtain x where x: "x \<in> set v" "share_seq src dst lo hi x = Cell p sh' S'" using a unfolding image_iff by metis
    from x(2) obtain p0 sh0 S0 where "x = Cell p0 sh0 S0" by (cases x) auto
    then show ?thesis using x that(2) by (auto split: if_splits)
  qed
  have bwd: "\<exists>sh S. Cell p sh S \<in> share_seq src dst lo hi ` set v \<and> q \<in> S"
    if "Cell p sh S \<in> set v" "q \<in> S \<or> q = dst \<and> src \<in> S \<and> lo \<le> p \<and> p < hi" for p sh S
  proof -
    have "share_seq src dst lo hi (Cell p sh S) \<in> share_seq src dst lo hi ` set v" using that(1) by (rule imageI)
    moreover have "\<exists>S'. share_seq src dst lo hi (Cell p sh S) = Cell p sh S' \<and> q \<in> S'" using that(2) by auto
    ultimately show ?thesis by metis
  qed
  show ?thesis unfolding qpos_def set_map using fwd bwd by (auto; blast)
qed

text \<open>Writing tokens keeps what is not overwritten.\<close>

lemma qpos_write:
  assumes d: "distinct idxs" and len: "length idxs = m" and i: "\<And>i. i \<in> set idxs \<Longrightarrow> i < length v"
  shows "qpos (write_tokens ub idxs m v) q
    = {p. \<exists>i < length v. i \<notin> set idxs \<and> (\<exists>sh S. v ! i = Cell p sh S \<and> q \<in> S)}
      \<union> {ub_pos ub ! j | j. j < m \<and> q \<in> set (ub_seq_id ub ! j)}" (is "?L = ?old \<union> ?new")
proof -
  let ?w = "write_tokens ub idxs m v"
  have at: "?w ! (idxs ! j) = token_cell ub j" if "j < m" for j
    using that d len i by (intro write_tokens_at) auto
  have other: "?w ! i = v ! i" if "i \<notin> set idxs" for i
    using that len by (intro write_tokens_other) auto
  show ?thesis
  proof (intro equalityI subsetI)
    fix p assume "p \<in> ?L"
    then obtain k sh S where k: "k < length v" "?w ! k = Cell p sh S" "q \<in> S" by (auto simp: qpos_def in_set_conv_nth)
    show "p \<in> ?old \<union> ?new"
    proof (cases "k \<in> set idxs")
      case True
      then obtain j where "j < m" "k = idxs ! j" using len by (auto simp: in_set_conv_nth)
      then show ?thesis using k at[of j] by (auto simp: token_cell_def)
    next
      case False
      then show ?thesis using k other[of k] by auto
    qed
  next
    fix p assume "p \<in> ?old \<union> ?new"
    then show "p \<in> ?L"
    proof
      assume "p \<in> ?old"
      then obtain k sh S where k: "k < length v" "k \<notin> set idxs" "v ! k = Cell p sh S" "q \<in> S" by auto
      then have "?w ! k = Cell p sh S" using other by simp
      then have "Cell p sh S \<in> set ?w" using k(1) nth_mem[of k ?w] by simp
      then show ?thesis using k(4) by (rule qposI)
    next
      assume "p \<in> ?new"
      then obtain j where j: "j < m" "q \<in> set (ub_seq_id ub ! j)" "p = ub_pos ub ! j" by auto
      have "idxs ! j < length ?w" using j(1) len i by simp
      then have "Cell p 0 (set (ub_seq_id ub ! j)) \<in> set ?w" using at[OF j(1)] j(3) nth_mem[of "idxs ! j" ?w] by (simp add: token_cell_def)
      then show ?thesis using j(2) by (rule qposI)
    qed
  qed
qed

subsection \<open>Overwriting cells\<close>

definition cells_reusable :: "ubatch \<Rightarrow> nat list \<Rightarrow> cell list \<Rightarrow> bool" where
  "cells_reusable ub idxs v \<longleftrightarrow> length idxs = ub_n_tokens ub \<and> distinct idxs
     \<and> (\<forall>i \<in> set idxs. i < length v \<and> (v ! i = Empty \<or> (\<exists>p sh q. v ! i = Cell p sh {q})))"

text \<open>What \<open>apply_ubatch\<close> remembers: the largest position overwritten, per sequence.\<close>

definition rm_tracks :: "nat list \<Rightarrow> nat \<Rightarrow> cell list \<Rightarrow> (int \<Rightarrow> int) \<Rightarrow> bool" where
  "rm_tracks idxs m v rm \<longleftrightarrow> (\<forall>q. (rm q = - 1 \<or> (\<exists>j < m. \<exists>sh. v ! (idxs ! j) = Cell (rm q) sh {q}))
     \<and> (\<forall>j < m. \<forall>p sh. v ! (idxs ! j) = Cell p sh {q} \<longrightarrow> p \<le> rm q))"

lemma rm_tracks_skip:
  assumes "rm_tracks idxs m v rm" and "v ! (idxs ! m) = Empty"
  shows "rm_tracks idxs (Suc m) v rm"
  using assms unfolding rm_tracks_def by (metis less_Suc_eq cell.distinct(1))

lemma rm_tracks_over:
  assumes t: "rm_tracks idxs m v rm" and c: "v ! (idxs ! m) = Cell p sh {q}" and p: "0 \<le> p"
  shows "rm_tracks idxs (Suc m) v (rm(q := max (rm q) p))"
  unfolding rm_tracks_def
proof (intro allI conjI impI)
  fix q'
  have old: "rm q' = - 1 \<or> (\<exists>j < m. \<exists>sh. v ! (idxs ! j) = Cell (rm q') sh {q'})" using t by (simp add: rm_tracks_def)
  show "(rm(q := max (rm q) p)) q' = - 1 \<or> (\<exists>j < Suc m. \<exists>sh. v ! (idxs ! j) = Cell ((rm(q := max (rm q) p)) q') sh {q'})"
  proof (cases "q' = q \<and> rm q \<le> p")
    case True
    then show ?thesis using c by auto
  next
    case False
    then have "(rm(q := max (rm q) p)) q' = rm q'" by auto
    then show ?thesis using old less_SucI by metis
  qed
next
  fix q' j p' sh'
  assume j: "j < Suc m" "v ! (idxs ! j) = Cell p' sh' {q'}"
  show "p' \<le> (rm(q := max (rm q) p)) q'"
  proof (cases "j = m")
    case True
    then show ?thesis using c j by auto
  next
    case False
    then have "p' \<le> rm q'" using j t unfolding rm_tracks_def by (metis less_SucE)
    then show ?thesis by auto
  qed
qed

lemma apply_tokens_over:
  assumes kv: "kv_tables kv = [c]" and c: "cells_ok c" and ub: "ubatch_ok kv0 ub" and free: "cells_reusable ub idxs (cells_view c)"
  shows "m \<le> length idxs \<Longrightarrow> \<exists>c' rm. fold_opt (apply_token (slot_of idxs) ub (length idxs) 0) [0..<m] (kv, \<lambda>_. - 1)
      = Some (kv\<lparr>kv_tables := [c']\<rparr>, rm) \<and> cells_ok c' \<and> cells_view c' = write_tokens ub idxs m (cells_view c)
      \<and> rm_tracks idxs m (cells_view c) rm"
proof (induction m)
  case 0
  have "kv\<lparr>kv_tables := [c]\<rparr> = kv" using kv by (simp add: kv_cache.equality)
  then show ?case using c by (intro exI[of _ c]) (simp add: rm_tracks_def)
next
  case (Suc m)
  then obtain c1 rm where c1: "fold_opt (apply_token (slot_of idxs) ub (length idxs) 0) [0..<m] (kv, \<lambda>_. - 1) = Some (kv\<lparr>kv_tables := [c1]\<rparr>, rm)"
    "cells_ok c1" "cells_view c1 = write_tokens ub idxs m (cells_view c)" "rm_tracks idxs m (cells_view c) rm" by auto
  have m: "m < length idxs" using Suc.prems by simp
  let ?i = "idxs ! m"
  have i: "?i < length (cells_view c)" "cells_view c ! ?i = Empty \<or> (\<exists>p sh q. cells_view c ! ?i = Cell p sh {q})"
    using free m by (auto simp: cells_reusable_def)
  have "idxs ! j \<noteq> ?i" if "j < m" for j
    using free that m by (auto simp: cells_reusable_def nth_eq_iff_index_eq)
  then have e1: "cells_view c1 ! ?i = cells_view c ! ?i" by (simp add: c1(3) write_tokens_other)
  have i1: "?i < length (cells_view c1)" using i(1) by (simp only: c1(3) length_write_tokens)
  then have i1': "?i < length (c_pos c1)" by simp
  have n: "m < ub_n_tokens ub" using free m by (simp add: cells_reusable_def)
  then have tok: "0 \<le> ub_pos ub ! m" "distinct (ub_seq_id ub ! m)" "\<And>q. q \<in> set (ub_seq_id ub ! m) \<Longrightarrow> seq_id_ok q"
    "m < length (ub_pos ub)" "m < length (ub_seq_id ub)"
    using ub by (auto simp: ubatch_ok_def)
  obtain c2 where c2: "Option.bind (if cells_view c1 ! ?i = Empty then Some c1 else cells_rm ?i c1)
      (\<lambda>s. Option.bind (cells_pos_set ?i (ub_pos ub ! m) s) (fold_opt (cells_seq_add ?i) (ub_seq_id ub ! m))) = Some c2"
    "cells_ok c2" "cells_view c2 = (cells_view c1)[?i := token_cell ub m]"
    using kv.write_cell[OF c1(2) i1 tok(1,2)] tok(3) by (auto simp: token_cell_def)
  have v2: "cells_view c2 = write_tokens ub idxs (Suc m) (cells_view c)" using c2(3) c1(3) by (simp add: write_tokens_Suc)
  show ?case
  proof (cases "cells_view c ! ?i")
    case Empty
    have "cells_is_empty ?i c1 = Some True"
      using i1' Empty e1 by (simp add: cells_is_empty_def view_Empty)
    then have "apply_token (slot_of idxs) ub (length idxs) 0 m (kv\<lparr>kv_tables := [c1]\<rparr>, rm) = Some (kv\<lparr>kv_tables := [c2]\<rparr>, rm)"
      using c2(1) m tok(4,5) e1 Empty by (auto simp: apply_token_def bind_eq_Some_conv Let_def)
    moreover have "rm_tracks idxs (Suc m) (cells_view c) rm" by (rule rm_tracks_skip[OF c1(4) Empty])
    ultimately show ?thesis using c1(1) c2(2) v2 by (intro exI[of _ c2] exI[of _ rm]) (simp add: fold_opt_append)
  next
    case (Cell p sh S)
    then obtain q where S: "S = {q}" using i(2) by auto
    have f: "c_pos c1 ! ?i \<noteq> - 1" "p = c_pos c1 ! ?i" "c_seq c1 ! ?i = {q}" using Cell S e1 i1' by (auto simp: view_Cell)
    have p: "0 \<le> p" using cells_okD(4)[OF c1(2) i1'] f by linarith
    have e: "cells_is_empty ?i c1 = Some False" "cells_pos_get ?i c1 = Some p" "cells_seq_count ?i c1 = Some 1"
      using f i1' p by (auto simp: cells_is_empty_def cells_pos_get_def cells_seq_count_def)
    have g: "cells_seq_get ?i c1 = Some q" by (rule seq_get_single[OF c1(2) i1' f(3)])
    let ?rm = "rm(q := max (rm q) p)"
    have "apply_token (slot_of idxs) ub (length idxs) 0 m (kv\<lparr>kv_tables := [c1]\<rparr>, rm) = Some (kv\<lparr>kv_tables := [c2]\<rparr>, ?rm)"
      using c2(1) m tok(4,5) e1 e g Cell by (auto simp: apply_token_def bind_eq_Some_conv Let_def)
    moreover have "rm_tracks idxs (Suc m) (cells_view c) ?rm"
      by (rule rm_tracks_over[OF c1(4) _ p]) (use Cell S in simp)
    ultimately show ?thesis using c1(1) c2(2) v2 by (intro exI[of _ c2] exI[of _ ?rm]) (simp add: fold_opt_append del: fun_upd_apply)
  qed
qed

subsection \<open>Purging what the window has passed\<close>

definition same_conf :: "kv_cache \<Rightarrow> kv_cache \<Rightarrow> bool" where
  "same_conf k k' \<longleftrightarrow> kv_swa_type k' = kv_swa_type k \<and> kv_n_swa k' = kv_n_swa k \<and> kv_n_stream k' = kv_n_stream k
     \<and> kv_seq_to_stream k' = kv_seq_to_stream k \<and> kv_n_pad k' = kv_n_pad k \<and> kv_get_size k' = kv_get_size k
     \<and> kv_sc_ssrc k' = kv_sc_ssrc k \<and> kv_sc_sdst k' = kv_sc_sdst k"

lemma view_size: "kv_ok kv \<Longrightarrow> length (kv_view kv ! 0) = kv_get_size kv"
  using kv_okD(3,8)[of kv 0] by (simp add: kv_ok_def)

lemma same_conf_refl [simp]: "same_conf k k" and same_conf_trans: "same_conf k1 k2 \<Longrightarrow> same_conf k2 k3 \<Longrightarrow> same_conf k1 k3"
  by (simp_all add: same_conf_def)

lemma same_conf_masked: "same_conf k k' \<Longrightarrow> swa_masked k' = swa_masked k"
  by (intro ext) (simp add: same_conf_def swa_masked_def kv_is_masked_swa_def)

text \<open>A cache in unified mode: one stream for all 256 sequences.\<close>

definition unified_cache :: "kv_cache \<Rightarrow> bool" where
  "unified_cache kv \<longleftrightarrow> single_stream kv \<and> length (kv_seq_to_stream kv) = 256"

lemma unified_seqs: "unified_cache kv \<Longrightarrow> seq_in_range kv q = seq_id_ok q"
  by (auto simp: unified_cache_def seq_in_range_def seq_id_ok_def)

lemma unified_tables:
  assumes "unified_cache kv"
  obtains c h where "kv_tables kv = [c]" "kv_heads kv = [h]" "cells_ok c" "kv_view kv = [cells_view c]"
    "cells_size c = kv_get_size kv" "h \<le> kv_get_size kv" "\<And>p sh. Cell p sh {} \<notin> set (cells_view c)"
    "\<And>p sh S. Cell p sh S \<in> set (cells_view c) \<Longrightarrow> 0 \<le> p \<and> p < INT_MAX"
proof -
  have ss: "single_stream kv" using assms by (simp add: unified_cache_def)
  note d = single_streamD[OF ss]
  obtain c where c: "kv_tables kv = [c]" using d(5) by (metis One_nat_def Suc_length_conv length_0_conv)
  obtain h where h: "kv_heads kv = [h]" using d(6) by (metis One_nat_def Suc_length_conv length_0_conv)
  have ok: "cells_ok c" "\<And>p sh. Cell p sh {} \<notin> set (cells_view c)" using d(4) c by (auto simp: table_ok_def)
  have "0 \<le> p \<and> p < INT_MAX" if m: "Cell p sh S \<in> set (cells_view c)" for p sh S
  proof -
    obtain i where i: "i < length (c_pos c)" "cells_view c ! i = Cell p sh S" using m by (metis in_set_conv_nth length_view)
    then have "c_pos c ! i \<noteq> - 1" "p = c_pos c ! i" by (auto simp: view_Cell)
    then show ?thesis using cells_okD(4)[OF ok(1) i(1)] d(9)[of p sh S] m c by simp
  qed
  then show thesis using that[OF c h] ok d(7,10,11) c h by simp
qed

lemma unified_map:
  assumes kv: "unified_cache kv" and ok: "kv_ok kv'" and conf: "same_conf kv kv'" and v: "kv_view kv' = [map g (kv_view kv ! 0)]"
    and g: "\<And>x p sh S. g x = Cell p sh S \<Longrightarrow> \<exists>sh' S'. x = Cell p sh' S'"
  shows "unified_cache kv'"
proof -
  obtain c where c: "kv_view kv = [cells_view c]" "\<And>p sh S. Cell p sh S \<in> set (cells_view c) \<Longrightarrow> 0 \<le> p \<and> p < INT_MAX"
    by (rule unified_tables[OF kv]) blast
  have "p < INT_MAX" if m: "Cell p sh S \<in> set (map g (cells_view c))" for p sh S
  proof -
    obtain x where x: "x \<in> set (cells_view c)" "g x = Cell p sh S" using m unfolding set_map image_iff by metis
    then obtain sh' S' where "x = Cell p sh' S'" using g by blast
    then show ?thesis using c(2) x(1) by blast
  qed
  then have "positions_fit kv'" by (simp add: positions_fit_def v c(1))
  then show ?thesis using kv ok conf by (auto simp: unified_cache_def single_stream_def same_conf_def swa_defined_def)
qed

lemma drop_seq_Cell: "drop_seq s lo hi x = Cell p sh S \<Longrightarrow> \<exists>sh' S'. x = Cell p sh' S'"
  by (cases x) (auto split: if_splits)

lemma unified_seq_rm:
  fixes p0 p1 :: int
  assumes kv: "unified_cache kv" and q: "seq_id_ok q"
  shows "\<exists>kv'. kv_seq_rm q p0 p1 kv = Some (True, kv') \<and> unified_cache kv' \<and> same_conf kv kv'
    \<and> kv_view kv' = [map (drop_seq q (range_lo p0) (range_hi p1)) (kv_view kv ! 0)]"
proof -
  have ss: "single_stream kv" and ok: "kv_ok kv" using kv by (auto simp: unified_cache_def single_stream_def)
  have r: "seq_in_range kv q" using unified_seqs[OF kv] q by simp
  have st: "stream_of kv q = 0" by (rule single_streamD(8)[OF ss r])
  obtain kv' c h where k: "kv_seq_rm q p0 p1 kv = Some (True, kv')" "kv_ok kv'"
    "kv_view kv' = (kv_view kv)[0 := map (drop_seq q (range_lo p0) (range_hi p1)) (kv_view kv ! 0)]" "kv' = put_stream 0 c h kv"
    using kv_seq_rm_spec[OF ok r, of p0 p1] unfolding st by blast
  have v: "kv_view kv' = [map (drop_seq q (range_lo p0) (range_hi p1)) (kv_view kv ! 0)]"
    using k(3) single_streamD(10)[OF ss] by (metis list_update_code(2))
  have "kv_get_size kv' = kv_get_size kv" using view_size[OF k(2)] view_size[OF ok] by (simp add: v)
  then have conf: "same_conf kv kv'" by (simp add: k(4) same_conf_def)
  have "unified_cache kv'" by (rule unified_map[OF kv k(2) conf v drop_seq_Cell])
  then show ?thesis using k(1) conf v by blast
qed

lemma drop_seq_cong:
  assumes "\<And>p sh S. x = Cell p sh S \<Longrightarrow> s \<in> S \<Longrightarrow> (lo \<le> p \<and> p < hi) = (lo' \<le> p \<and> p < hi')"
  shows "drop_seq s lo hi x = drop_seq s lo' hi' x"
  using assms by (cases x) auto

lemma purge_seq_value:
  assumes kv: "unified_cache kv" and s: "seq_id_ok s" and r: "rm s = - 1 \<or> 0 \<le> rm s \<and> rm s < INT_MAX"
  shows "\<exists>kv'. purge_seq rm s kv = Some kv' \<and> unified_cache kv' \<and> same_conf kv kv'
    \<and> kv_view kv' = [map (drop_seq s 0 (rm s + 1)) (kv_view kv ! 0)]"
proof (cases "rm s = - 1")
  case True
  obtain c where c: "kv_view kv = [cells_view c]" by (rule unified_tables[OF kv])
  have "drop_seq s 0 0 x = x" for x by (cases x) auto
  then have "map (drop_seq s 0 0) v = v" for v by (simp add: map_idI)
  then show ?thesis using True kv c by (simp add: purge_seq_def)
next
  case False
  then have r0: "0 \<le> rm s" "rm s < INT_MAX" using r by auto
  have ss: "single_stream kv" using kv by (simp add: unified_cache_def)
  have st: "stream_of kv s = 0" using single_streamD(8)[OF ss] unified_seqs[OF kv] s by simp
  obtain c where c: "kv_tables kv = [c]" "cells_ok c" "kv_view kv = [cells_view c]"
    "\<And>p sh S. Cell p sh S \<in> set (cells_view c) \<Longrightarrow> 0 \<le> p \<and> p < INT_MAX" by (rule unified_tables[OF kv]) blast
  let ?m = "if qpos (cells_view c) s = {} then - 1 else Min (qpos (cells_view c) s)"
  have mn: "cells_seq_pos_min s (kv_tables kv ! (kv_seq_to_stream kv ! nat s)) = Some ?m"
    using seq_pos_extrema(1)[OF c(2) s] st c(1) by (simp add: stream_of_def seq_positions_qpos)
  have len: "nat s < length (kv_seq_to_stream kv)" using kv s by (auto simp: unified_cache_def seq_id_ok_def)
  have low: "?m \<le> p" if "Cell p sh S \<in> set (cells_view c)" "s \<in> S" for p sh S
    using Min_le[OF qpos_finite qposI[OF that]] qposI[OF that] by auto
  show ?thesis
  proof (cases "?m \<le> rm s")
    case True
    have run: "purge_seq rm s kv = map_option snd (kv_seq_rm s ?m (rm s + 1) kv)"
      using False len mn True r0 by (simp add: purge_seq_def i32_ok_def)
    obtain kv' where k: "kv_seq_rm s ?m (rm s + 1) kv = Some (True, kv')" "unified_cache kv'" "same_conf kv kv'"
      "kv_view kv' = [map (drop_seq s (range_lo ?m) (range_hi (rm s + 1))) (kv_view kv ! 0)]"
      using unified_seq_rm[OF kv s] by blast
    have "map (drop_seq s (range_lo ?m) (range_hi (rm s + 1))) (cells_view c) = map (drop_seq s 0 (rm s + 1)) (cells_view c)"
    proof (rule map_cong[OF refl], rule drop_seq_cong)
      fix x p sh S
      assume a: "x \<in> set (cells_view c)" "x = Cell p sh S" "s \<in> S"
      then have "?m \<le> p" "0 \<le> p" using low c(4) by blast+
      then show "(range_lo ?m \<le> p \<and> p < range_hi (rm s + 1)) = (0 \<le> p \<and> p < rm s + 1)"
        using r0 by (auto simp: range_lo_def range_hi_def)
    qed
    then show ?thesis using run k c(3) by simp
  next
    case no: False
    have "drop_seq s 0 (rm s + 1) x = x" if "x \<in> set (cells_view c)" for x
    proof (cases x)
      case (Cell p sh S)
      have "\<not> p < rm s + 1" if "s \<in> S"
      proof -
        have "?m \<le> p" using low \<open>x \<in> set (cells_view c)\<close> Cell that by blast
        with no have "rm s < p" by (meson less_le_trans not_le)
        then show ?thesis by simp
      qed
      then show ?thesis using Cell by auto
    qed simp
    then have "map (drop_seq s 0 (rm s + 1)) (cells_view c) = cells_view c" by (rule map_idI)
    then show ?thesis using False len mn no kv c(3) by (simp add: purge_seq_def)
  qed
qed

definition purge_cell :: "int set \<Rightarrow> (int \<Rightarrow> int) \<Rightarrow> cell \<Rightarrow> cell" where
  "purge_cell Q rm x = (case x of Empty \<Rightarrow> Empty
     | Cell p sh S \<Rightarrow> let S' = {q \<in> S. \<not> (q \<in> Q \<and> p \<le> rm q)} in if S' = {} then Empty else Cell p sh S')"

lemma purge_cell_drop:
  assumes "\<And>p sh S. x = Cell p sh S \<Longrightarrow> 0 \<le> p \<and> S \<noteq> {}"
  shows "purge_cell Q rm (drop_seq s 0 (rm s + 1) x) = purge_cell (insert s Q) rm x"
proof (cases x)
  case (Cell p sh S)
  have p: "0 \<le> p" using assms[OF Cell] by simp
  show ?thesis
  proof (cases "p \<le> rm s \<and> s \<in> S")
    case True
    have "{q \<in> S - {s}. \<not> (q \<in> Q \<and> p \<le> rm q)} = {q \<in> S. \<not> (q \<in> insert s Q \<and> p \<le> rm q)}" using True by auto
    then show ?thesis using True p Cell by (auto simp: purge_cell_def Let_def)
  next
    case False
    have "{q \<in> S. \<not> (q \<in> Q \<and> p \<le> rm q)} = {q \<in> S. \<not> (q \<in> insert s Q \<and> p \<le> rm q)}" using False by auto
    then show ?thesis using False p Cell by (auto simp: purge_cell_def Let_def)
  qed
qed (simp add: purge_cell_def)

lemma qpos_purge: "qpos (map (purge_cell Q rm) v) q = {p \<in> qpos v q. \<not> (q \<in> Q \<and> p \<le> rm q)}"
proof -
  have fwd: "\<exists>sh S. Cell p sh S \<in> set v \<and> q \<in> S \<and> \<not> (q \<in> Q \<and> p \<le> rm q)"
    if a: "Cell p sh' S' \<in> purge_cell Q rm ` set v" and "q \<in> S'" for p sh' S'
  proof -
    obtain x where x: "x \<in> set v" "purge_cell Q rm x = Cell p sh' S'" using a unfolding image_iff by metis
    from x(2) obtain p0 sh0 S0 where "x = Cell p0 sh0 S0" by (cases x) (auto simp: purge_cell_def)
    then show ?thesis using x that(2) by (auto simp: purge_cell_def Let_def split: if_splits)
  qed
  have bwd: "\<exists>sh S. Cell p sh S \<in> purge_cell Q rm ` set v \<and> q \<in> S"
    if a: "Cell p sh S \<in> set v" and "q \<in> S" "\<not> (q \<in> Q \<and> p \<le> rm q)" for p sh S
  proof -
    have "purge_cell Q rm (Cell p sh S) \<in> purge_cell Q rm ` set v" using a by (rule imageI)
    moreover have "\<exists>S'. purge_cell Q rm (Cell p sh S) = Cell p sh S' \<and> q \<in> S'" using that(2,3) by (auto simp: purge_cell_def Let_def)
    ultimately show ?thesis by metis
  qed
  show ?thesis unfolding qpos_def set_map using fwd bwd by (auto; blast)
qed

lemma purge_all:
  assumes kv: "unified_cache kv" and s: "\<And>s. s \<in> set xs \<Longrightarrow> seq_id_ok s \<and> (rm s = - 1 \<or> 0 \<le> rm s \<and> rm s < INT_MAX)"
  shows "\<exists>kv'. fold_opt (purge_seq rm) xs kv = Some kv' \<and> unified_cache kv' \<and> same_conf kv kv'
    \<and> kv_view kv' = [map (purge_cell (set xs) rm) (kv_view kv ! 0)]"
  using assms
proof (induction xs arbitrary: kv)
  case Nil
  obtain c where c: "kv_view kv = [cells_view c]" "\<And>p sh. Cell p sh {} \<notin> set (cells_view c)" by (rule unified_tables[OF Nil(1)]) blast
  have keep: "(\<And>p sh. x \<noteq> Cell p sh {}) \<Longrightarrow> purge_cell {} rm x = x" for x
    by (cases x) (auto simp: purge_cell_def)
  have "purge_cell {} rm x = x" if "x \<in> set (cells_view c)" for x
    by (rule keep) (use that c(2) in blast)
  then have "map (purge_cell {} rm) (cells_view c) = cells_view c" by (rule map_idI)
  then show ?case using Nil(1) c(1) by simp
next
  case (Cons s xs)
  obtain k1 where k1: "purge_seq rm s kv = Some k1" "unified_cache k1" "same_conf kv k1"
    "kv_view k1 = [map (drop_seq s 0 (rm s + 1)) (kv_view kv ! 0)]"
    using purge_seq_value[OF Cons.prems(1)] Cons.prems(2) by (meson list.set_intros(1))
  obtain k2 where k2: "fold_opt (purge_seq rm) xs k1 = Some k2" "unified_cache k2" "same_conf k1 k2"
    "kv_view k2 = [map (purge_cell (set xs) rm) (kv_view k1 ! 0)]"
    using Cons.IH[OF k1(2)] Cons.prems(2) by (meson list.set_intros(2))
  obtain c where c: "kv_view kv = [cells_view c]" "\<And>p sh. Cell p sh {} \<notin> set (cells_view c)"
    "\<And>p sh S. Cell p sh S \<in> set (cells_view c) \<Longrightarrow> 0 \<le> p \<and> p < INT_MAX" by (rule unified_tables[OF Cons.prems(1)]) blast
  have "purge_cell (set xs) rm (drop_seq s 0 (rm s + 1) x) = purge_cell (set (s # xs)) rm x" if "x \<in> set (cells_view c)" for x
    unfolding list.set(2) using that c(2,3) by (intro purge_cell_drop) blast
  then have "kv_view k2 = [map (purge_cell (set (s # xs)) rm) (kv_view kv ! 0)]"
    using k2(4) k1(4) c(1) by simp
  then show ?case using k1(1,3) k2(1,2,3) same_conf_trans by auto
qed

text \<open>Applying a micro-batch to reusable cells: the new positions of every sequence.\<close>

lemma apply_ubatch_over:
  assumes kv: "unified_cache kv" and ub: "ubatch_ok kv ub" and free: "cells_reusable ub idxs (kv_view kv ! 0)"
  defines "v \<equiv> kv_view kv ! 0"
  shows "\<exists>kv' rm. kv_apply_ubatch (slot_of idxs) ub kv = Some kv' \<and> unified_cache kv' \<and> same_conf kv kv'
    \<and> rm_tracks idxs (length idxs) v rm
    \<and> kv_view kv' = [map (purge_cell {q. seq_id_ok q} rm) (write_tokens ub idxs (length idxs) v)]
    \<and> kv_heads kv' = [last idxs + 1]"
proof -
  let ?n = "length idxs"
  have ss: "single_stream kv" using kv by (simp add: unified_cache_def)
  note d = single_streamD[OF ss]
  obtain c h where c: "kv_tables kv = [c]" "kv_heads kv = [h]" "cells_ok c" "kv_view kv = [cells_view c]" "cells_size c = kv_get_size kv"
    "h \<le> kv_get_size kv" "\<And>p sh. Cell p sh {} \<notin> set (cells_view c)"
    "\<And>p sh S. Cell p sh S \<in> set (cells_view c) \<Longrightarrow> 0 \<le> p \<and> p < INT_MAX" by (rule unified_tables[OF kv]) blast
  have v: "v = cells_view c" by (simp add: v_def c(4))
  have n: "?n = ub_n_tokens ub" "0 < ?n" using free ub by (auto simp: cells_reusable_def ubatch_ok_def)
  then have ne: "idxs \<noteq> []" by auto
  obtain c' rm where c': "fold_opt (apply_token (slot_of idxs) ub ?n 0) [0..<?n] (kv, \<lambda>_. - 1) = Some (kv\<lparr>kv_tables := [c']\<rparr>, rm)"
    "cells_ok c'" "cells_view c' = write_tokens ub idxs ?n v" "rm_tracks idxs ?n v rm"
    using apply_tokens_over[OF c(1,3) ub, of idxs ?n] free v_def v by auto
  let ?k1 = "kv\<lparr>kv_tables := [c']\<rparr>"
  have len: "length (c_pos c') = length (c_pos c)" using c'(3) v by (metis length_view length_write_tokens)
  have sub: "set (cells_view c') \<subseteq> set (cells_view c) \<union> token_cell ub ` {..<?n}"
    unfolding c'(3) v by (rule set_write_tokens)
  have tok: "token_cell ub j \<noteq> Cell p sh {}" "token_cell ub j = Cell p sh S \<Longrightarrow> p < INT_MAX" if "j < ?n" for j p sh S
    using ub that n(1) by (auto simp: ubatch_ok_def token_cell_def)
  have old_or_new: "Cell p sh S \<in> set (cells_view c) \<or> (\<exists>j < ?n. token_cell ub j = Cell p sh S)"
    if "Cell p sh S \<in> set (cells_view c')" for p sh S
    using subsetD[OF sub that] by (auto simp: image_iff)
  have "Cell p sh {} \<notin> set (cells_view c')" for p sh using old_or_new[of p sh "{}"] c(7)[of p sh] tok(1)[of _ p sh] by blast
  then have t': "table_ok (kv_get_size kv) c'" using c'(2) c(5) len by (simp add: table_ok_def cells_size_def)
  have seqs: "kv_seq_to_stream kv ! 0 = 0" using d(1,2) by (auto simp: kv_ok_def)
  have gs: "kv_get_size ?k1 = kv_get_size kv" using seqs c(1,5) t' by (simp add: kv_get_size_def table_ok_def)
  have ok1: "kv_ok ?k1" using d(1,2) gs t' c(2,6) by (auto simp: kv_ok_def)
  have fit1: "positions_fit ?k1"
  proof -
    have "p < INT_MAX" if "Cell p sh S \<in> set (cells_view c')" for p sh S
      using old_or_new[OF that] c(8)[of p sh S] tok(2)[of _ p sh S] by auto
    then show ?thesis by (simp add: positions_fit_def kv_view_def)
  qed
  have k1: "unified_cache ?k1" "same_conf kv ?k1" "kv_view ?k1 = [write_tokens ub idxs ?n v]"
    using kv ok1 fit1 d(2,3) c'(3) gs by (simp_all add: unified_cache_def single_stream_def swa_defined_def same_conf_def kv_view_def)
  have rm: "rm q = - 1 \<or> 0 \<le> rm q \<and> rm q < INT_MAX" for q
  proof (cases "rm q = - 1")
    case False
    then obtain j sh where j: "j < ?n" "v ! (idxs ! j) = Cell (rm q) sh {q}" using c'(4) by (auto simp: rm_tracks_def)
    then have "idxs ! j < length v" using free by (auto simp: cells_reusable_def v_def)
    then have "Cell (rm q) sh {q} \<in> set (cells_view c)" using j(2) nth_mem v by metis
    then show ?thesis using c(8) by blast
  qed simp
  have ids: "s \<in> set [0..LLAMA_MAX_SEQ - 1] \<longleftrightarrow> seq_id_ok s" for s by (simp only: seq_ids mem_Collect_eq)
  obtain k2 where k2: "fold_opt (purge_seq rm) [0..LLAMA_MAX_SEQ - 1] ?k1 = Some k2" "unified_cache k2" "same_conf ?k1 k2"
    "kv_view k2 = [map (purge_cell (set [0..LLAMA_MAX_SEQ - 1]) rm) (kv_view ?k1 ! 0)]"
    using purge_all[OF k1(1), of "[0..LLAMA_MAX_SEQ - 1]" rm] rm ids by blast
  have v2: "kv_view k2 = [map (purge_cell {q. seq_id_ok q} rm) (write_tokens ub idxs ?n v)]"
    using k2(4) unfolding seq_ids(1) k1(3) nth_Cons_0 .
  obtain c2 h2 where c2: "kv_tables k2 = [c2]" "kv_heads k2 = [h2]" "cells_size c2 = kv_get_size k2" "kv_view k2 = [cells_view c2]"
    by (rule unified_tables[OF k2(2)]) blast
  let ?k3 = "k2\<lparr>kv_heads := [last idxs + 1]\<rparr>"
  have heads: "fold_opt (move_head (slot_of idxs)) [0..<1] k2 = Some ?k3" using c2(2) ne by (simp add: move_head_def)
  have run: "kv_apply_ubatch (slot_of idxs) ub kv = Some ?k3"
    using c'(1) k2(1) heads n(1) by (simp add: kv_apply_ubatch_def bind_eq_Some_conv del: upto.simps)
  have "kv_view ?k3 = kv_view k2" by (simp add: kv_view_def)
  have same: "kv_get_size ?k3 = kv_get_size k2" by (simp add: kv_get_size_def)
  have "kv_get_size k2 = kv_get_size kv" using v2 c2(3,4) v c(5) by (simp add: cells_size_def) (metis length_map length_view length_write_tokens)
  have "last idxs < length v" using free ne by (auto simp: cells_reusable_def v_def)
  then have "last idxs + 1 \<le> kv_get_size kv" using c(5) v by (simp add: cells_size_def)
  then have h3: "last idxs + 1 \<le> kv_get_size k2" using \<open>kv_get_size k2 = kv_get_size kv\<close> by simp
  have k2s: "single_stream k2" "length (kv_seq_to_stream k2) = 256" using k2(2) by (auto simp: unified_cache_def)
  have "kv_ok ?k3" using single_streamD(1,2)[OF k2s(1)] h3 c2(2) unfolding kv_ok_def same by simp
  moreover have "swa_defined ?k3" "positions_fit ?k3"
    using k2s(1) \<open>kv_view ?k3 = kv_view k2\<close> by (simp_all add: single_stream_def swa_defined_def positions_fit_def)
  ultimately have "unified_cache ?k3" using k2s single_streamD(2)[OF k2s(1)] by (simp add: unified_cache_def single_stream_def)
  moreover have "same_conf kv ?k3" using same_conf_trans[OF k1(2) k2(3)] same by (simp add: same_conf_def)
  ultimately show ?thesis using run c'(4) v2 \<open>kv_view ?k3 = kv_view k2\<close> by auto
qed

lemma apply_ubatch_purges:
  assumes "unified_cache kv" and "ubatch_ok kv ub" and "cells_reusable ub idxs (kv_view kv ! 0)"
  shows "\<exists>kv' rm. kv_apply_ubatch (slot_of idxs) ub kv = Some kv' \<and> unified_cache kv' \<and> same_conf kv kv'
    \<and> rm_tracks idxs (length idxs) (kv_view kv ! 0) rm
    \<and> kv_view kv' = [map (purge_cell {q. seq_id_ok q} rm) (write_tokens ub idxs (length idxs) (kv_view kv ! 0))]"
  using apply_ubatch_over[OF assms] by blast

subsection \<open>A micro-batch through the dry run and into the cells\<close>

definition no_shift :: "kv_cache \<Rightarrow> bool" where
  "no_shift kv \<longleftrightarrow> (\<forall>p sh S. Cell p sh S \<in> set (kv_view kv ! 0) \<longrightarrow> sh = 0)"

lemma view_shift:
  assumes "cells_ok c" and "i < length (c_pos c)" and "\<And>p sh S. cells_view c ! i = Cell p sh S \<Longrightarrow> sh = 0"
  shows "c_shift c ! i = 0"
  using assms(3) cells_okD(7)[OF assms(1,2)] view_Cell[OF assms(2)] by blast

text \<open>The cells the search returns: empty, or of one sequence and already masked for its next position.\<close>

definition free_cells :: "kv_cache \<Rightarrow> nat" where
  "free_cells kv = card {i. i < length (kv_view kv ! 0) \<and> kv_view kv ! 0 ! i = Empty}"

definition masked_cells :: "kv_cache \<Rightarrow> nat list \<Rightarrow> cell list \<Rightarrow> bool" where
  "masked_cells kv idxs v \<longleftrightarrow> (\<forall>i \<in> set idxs. \<forall>p sh q. v ! i = Cell p sh {q} \<longrightarrow> swa_masked kv p (Max (qpos v q) + 1))"

lemma find_slot_unified:
  assumes kv: "unified_cache kv" and ub: "ubatch_ok kv ub"
  shows "kv_find_slot ub False kv = Some slot_none \<and> free_cells kv < ub_n_tokens ub
    \<or> (\<exists>idxs. kv_find_slot ub False kv = Some (slot_of idxs) \<and> cells_reusable ub idxs (kv_view kv ! 0) \<and> masked_cells kv idxs (kv_view kv ! 0))"
proof -
  have ss: "single_stream kv" using kv by (simp add: unified_cache_def)
  obtain c where c: "kv_tables kv = [c]" "kv_view kv = [cells_view c]" "cells_size c = kv_get_size kv" by (rule unified_tables[OF kv]) blast
  have n: "kv_get_size kv = length (cells_view c)" using c(3) by (simp add: cells_size_def)
  obtain r where r: "kv_find_slot ub False kv = Some (case r of None \<Rightarrow> slot_none | Some idxs \<Rightarrow> slot_of idxs)"
    "r = None \<longleftrightarrow> card {i. i < length (cells_view c) \<and> usable kv c i} < ub_n_tokens ub"
    "\<forall>idxs. r = Some idxs \<longrightarrow> length idxs = ub_n_tokens ub \<and> distinct idxs \<and> (\<forall>i \<in> set idxs. i < length (cells_view c) \<and> usable kv c i)"
    using find_slot_single[OF ss ub, of False] c(1) unfolding n slot_of_def by auto
  show ?thesis
  proof (cases r)
    case (Some idxs)
    have u: "usable kv c i" if "i \<in> set idxs" for i using r(3) Some that by blast
    have "cells_view c ! i = Empty \<or> (\<exists>p sh q. cells_view c ! i = Cell p sh {q})" if "i \<in> set idxs" for i
      using u[OF that] by (auto simp: usable_def split: cell.splits)
    then have "cells_reusable ub idxs (cells_view c)" using r(3) Some by (auto simp: cells_reusable_def)
    moreover have "masked_cells kv idxs (cells_view c)"
      unfolding masked_cells_def
    proof (intro ballI allI impI)
      fix i p sh q assume "i \<in> set idxs" "cells_view c ! i = Cell p sh {q}"
      then show "swa_masked kv p (Max (qpos (cells_view c) q) + 1)"
        using u[of i] by (auto simp: usable_def swa_masked_def seq_positions_qpos)
    qed
    ultimately show ?thesis using r(1) Some c(2) by auto
  next
    case None
    have "{i. i < length (cells_view c) \<and> cells_view c ! i = Empty} \<subseteq> {i. i < length (cells_view c) \<and> usable kv c i}"
      by (auto simp: usable_def)
    then have "free_cells kv \<le> card {i. i < length (cells_view c) \<and> usable kv c i}"
      unfolding free_cells_def c(2) nth_Cons_0 by (rule card_mono[rotated]) simp
    then have "free_cells kv < ub_n_tokens ub" using r(2) None by linarith
    then show ?thesis using r(1) None by simp
  qed
qed

text \<open>The table after placing and undoing: the reused cells are back, the rest is purged.\<close>

lemma restore_over:
  assumes kv: "unified_cache kv" and free: "cells_reusable ub idxs (kv_view kv ! 0)" and sh: "no_shift kv"
    and k: "unified_cache k" "same_conf kv k" "kv_view k = [map (purge_cell Q rm) (write_tokens ub idxs (length idxs) (kv_view kv ! 0))]"
  shows "\<exists>saved k'. save_slot (slot_of idxs) kv = Some saved \<and> restore_placed (slot_of idxs, kv_heads kv, saved) k = Some k'
    \<and> unified_cache k' \<and> same_conf kv k' \<and> length (kv_view k' ! 0) = length (kv_view kv ! 0)
    \<and> (\<forall>i < length (kv_view kv ! 0). kv_view k' ! 0 ! i
        = (if i \<in> set idxs then kv_view kv ! 0 ! i else purge_cell Q rm (kv_view kv ! 0 ! i)))"
proof -
  obtain c h where c: "kv_tables kv = [c]" "kv_heads kv = [h]" "cells_ok c" "kv_view kv = [cells_view c]"
    "cells_size c = kv_get_size kv" "h \<le> kv_get_size kv" "\<And>p sh. Cell p sh {} \<notin> set (cells_view c)"
    "\<And>p sh S. Cell p sh S \<in> set (cells_view c) \<Longrightarrow> 0 \<le> p \<and> p < INT_MAX" by (rule unified_tables[OF kv]) blast
  obtain c2 h2 where c2: "kv_tables k = [c2]" "kv_heads k = [h2]" "cells_ok c2" "kv_view k = [cells_view c2]"
    "cells_size c2 = kv_get_size k" "\<And>p sh. Cell p sh {} \<notin> set (cells_view c2)"
    "\<And>p sh S. Cell p sh S \<in> set (cells_view c2) \<Longrightarrow> 0 \<le> p \<and> p < INT_MAX" by (rule unified_tables[OF k(1)]) blast
  let ?w = "write_tokens ub idxs (length idxs) (cells_view c)"
  have v2: "cells_view c2 = map (purge_cell Q rm) ?w" using k(3) c2(4) c(4) by simp
  have len: "length (c_pos c2) = length (c_pos c)" using arg_cong[OF v2, of length] by simp
  have ix: "i < length (c_pos c)" if "i \<in> set idxs" for i using free that c(4) by (simp add: cells_reusable_def)
  have sh0: "c_shift c ! i = 0" if "i \<in> set idxs" for i
  proof (rule view_shift[OF c(3) ix[OF that]])
    fix p sh' S assume "cells_view c ! i = Cell p sh' S"
    then have "Cell p sh' S \<in> set (cells_view c)" using ix[OF that] by (metis length_view nth_mem)
    then show "sh' = 0" using sh unfolding no_shift_def c(4) nth_Cons_0 by blast
  qed
  obtain sv where sv: "cells_cp idxs c = Some sv" using sh0 ix by (auto simp: cells_cp_def list_all_iff Let_def)
  have still: "c_shift c2 ! i = 0" if "i \<in> set idxs" for i
  proof -
    obtain j where j: "j < length idxs" "idxs ! j = i" using \<open>i \<in> set idxs\<close> by (auto simp: in_set_conv_nth)
    have i: "i < length (c_pos c2)" using ix[OF that] len by simp
    have "?w ! i = token_cell ub j"
      using write_tokens_at[of idxs "length idxs" j "cells_view c" ub] free j ix[OF that] by (simp add: cells_reusable_def)
    then have at: "cells_view c2 ! i = purge_cell Q rm (token_cell ub j)" using i len by (simp add: v2)
    show ?thesis
      by (rule view_shift[OF c2(3) i]) (auto simp: at token_cell_def purge_cell_def Let_def split: if_splits)
  qed
  obtain c3 where c3: "cells_set idxs sv c2 = Some c3" "cells_ok c3" "length (c_pos c3) = length (c_pos c)"
    "\<forall>i < length (c_pos c). cells_view c3 ! i = (if i \<in> set idxs then cells_view c ! i else cells_view c2 ! i)"
    using cells_restore[OF c(3) sv c2(3) len still] by blast
  have at3: "cells_view c3 ! i = (if i \<in> set idxs then cells_view c ! i else purge_cell Q rm (cells_view c ! i))" if i: "i < length (c_pos c)" for i
  proof (cases "i \<in> set idxs")
    case False
    then have "idxs ! j \<noteq> i" if "j < length idxs" for j using that by (metis nth_mem)
    then have "?w ! i = cells_view c ! i" by (intro write_tokens_other)
    then show ?thesis using c3(4) i False by (simp add: v2)
  qed (use c3(4) i in simp)
  have cell3: "x \<in> set (cells_view c) \<or> x \<in> set (cells_view c2)" if x: "x \<in> set (cells_view c3)" for x
  proof -
    obtain i where i: "i < length (c_pos c)" "cells_view c3 ! i = x" using x c3(3) by (auto simp: in_set_conv_nth)
    have "cells_view c ! i \<in> set (cells_view c)" "cells_view c2 ! i \<in> set (cells_view c2)" using i(1) len by (intro nth_mem; simp)+
    then show ?thesis using c3(4) i by (auto split: if_splits)
  qed
  let ?k' = "put_stream 0 c3 h k"
  have save: "save_slot (slot_of idxs) kv = Some [sv]" using c(1) sv by (simp add: save_slot_def)
  have run: "restore_placed (slot_of idxs, kv_heads kv, [sv]) k = Some ?k'"
    using c(2) c2(1) c3(1) by (simp add: restore_placed_def restore_stream_def)
  have size: "kv_get_size kv = kv_get_size k" using c(5) c2(5) len by (simp add: cells_size_def)
  have "Cell p s {} \<notin> set (cells_view c3)" for p s using cell3 c(7) c2(6) by blast
  then have t3: "table_ok (kv_get_size k) c3" using c3(2,3) c(5) size by (simp add: table_ok_def cells_size_def)
  have ssk: "single_stream k" using k(1) by (simp add: unified_cache_def)
  have ok': "kv_ok ?k'" using single_streamD(1,2)[OF ssk] t3 c(6) size by (intro kv_ok_put) simp_all
  have v3: "kv_view ?k' = [cells_view c3]" using c2(4) by simp
  have "p < INT_MAX" if "Cell p s S \<in> set (cells_view c3)" for p s S using cell3[OF that] c(8) c2(7) by blast
  then have "positions_fit ?k'" unfolding positions_fit_def v3 by auto
  then have "unified_cache ?k'" using ok' ssk k(1) single_streamD(2,3)[OF ssk]
    by (simp add: unified_cache_def single_stream_def swa_defined_def)
  moreover have "kv_get_size ?k' = kv_get_size kv" using view_size[OF ok'] c3(3) c(5) unfolding v3 by (simp add: cells_size_def)
  then have "same_conf kv ?k'" using k(2) by (simp add: same_conf_def)
  ultimately show ?thesis using save run v3 c3(3) at3 c(4) by auto
qed

text \<open>
  Placing one micro-batch: the search, the dry run and the writing. The bounds say that a sequence
  loses only positions its window has passed, and that new positions beyond the old ones are there.
\<close>

definition window_kept :: "kv_cache \<Rightarrow> cell list \<Rightarrow> cell list \<Rightarrow> (int \<Rightarrow> int set) \<Rightarrow> bool" where
  "window_kept kv v v' new \<longleftrightarrow> (\<forall>q. qpos v' q \<subseteq> qpos v q \<union> new q
     \<and> (\<forall>p \<in> qpos v q. \<not> swa_masked kv p (Max (qpos v q) + 1) \<longrightarrow> p \<in> qpos v' q)
     \<and> (\<forall>p \<in> new q. (\<forall>p' \<in> qpos v q. p' < p) \<longrightarrow> p \<in> qpos v' q))"

definition new_pos :: "ubatch \<Rightarrow> int \<Rightarrow> int set" where
  "new_pos ub q = {ub_pos ub ! j | j. j < ub_n_tokens ub \<and> q \<in> set (ub_seq_id ub ! j)}"

lemma swa_masked_mono:
  assumes "swa_masked kv p0 p1" and "0 \<le> p0'" and "p0' \<le> p0" and "p0 \<le> p1" and "p1 \<le> p1'"
  shows "swa_masked kv p0' p1'"
proof (cases "kv_swa_type kv")
  case SWA_CHUNKED
  then have "p0 < p1 div int (kv_n_swa kv) * int (kv_n_swa kv)" "kv_n_swa kv \<noteq> 0"
    using assms(1) by (auto simp: swa_masked_def kv_is_masked_swa_def is_masked_swa_def split: if_splits)
  moreover have "p1 div int (kv_n_swa kv) * int (kv_n_swa kv) \<le> p1' div int (kv_n_swa kv) * int (kv_n_swa kv)"
    using assms(5) by (intro mult_right_mono zdiv_mono1) (use calculation(2) in simp_all)
  ultimately have "p0' < p1' div int (kv_n_swa kv) * int (kv_n_swa kv)" using assms(3) by linarith
  then show ?thesis using assms(2-5) \<open>kv_n_swa kv \<noteq> 0\<close> SWA_CHUNKED by (simp add: swa_masked_def kv_is_masked_swa_def is_masked_swa_def)
qed (use assms in \<open>auto simp: swa_masked_def kv_is_masked_swa_def is_masked_swa_def Let_def split: if_splits\<close>)

lemma rm_masked:
  assumes rm: "rm_tracks idxs (length idxs) v rm" and m: "masked_cells kv idxs v" and i: "\<And>i. i \<in> set idxs \<Longrightarrow> i < length v"
  shows "rm q = - 1 \<or> rm q \<in> qpos v q \<and> swa_masked kv (rm q) (Max (qpos v q) + 1)"
proof (cases "rm q = - 1")
  case False
  then obtain j sh where j: "j < length idxs" "v ! (idxs ! j) = Cell (rm q) sh {q}" using rm by (auto simp: rm_tracks_def)
  then have "Cell (rm q) sh {q} \<in> set v" using i[of "idxs ! j"] by (metis nth_mem)
  then have "rm q \<in> qpos v q" by (rule qposI) simp
  moreover have "swa_masked kv (rm q) (Max (qpos v q) + 1)" using m j nth_mem[OF j(1)] unfolding masked_cells_def by blast
  ultimately show ?thesis by simp
qed simp

text \<open>What is masked for the next position of a sequence stays below \<open>rm\<close>'s bound; the rest is above.\<close>

lemma kept_above_rm:
  assumes r: "r = - 1 \<or> r \<in> qpos v q \<and> swa_masked kv r (Max (qpos v q) + 1)" and p: "p \<in> qpos v q" "0 \<le> p"
    and keep: "\<not> swa_masked kv p (Max (qpos v q) + 1)"
  shows "r < p"
proof (rule ccontr)
  assume "\<not> r < p"
  then have r': "r \<in> qpos v q" "swa_masked kv r (Max (qpos v q) + 1)" "p \<le> r" using r p(2) by auto
  have "r \<le> Max (qpos v q) + 1" using Max_ge[OF qpos_finite r'(1)] by simp
  then have "swa_masked kv p (Max (qpos v q) + 1)" using swa_masked_mono[OF r'(2) p(2) r'(3)] by simp
  then show False using keep by simp
qed

text \<open>Both the table after the dry run and the one after writing the micro-batch keep the window.\<close>

fun cell_in :: "int \<Rightarrow> int \<Rightarrow> cell \<Rightarrow> bool" where
  "cell_in p q Empty = False"
| "cell_in p q (Cell p' sh S) = (p' = p \<and> q \<in> S)"

lemma cell_in_iff: "cell_in p q x \<longleftrightarrow> (\<exists>sh S. x = Cell p sh S \<and> q \<in> S)"
  by (cases x) auto

lemma qpos_at: "qpos v q = {p. \<exists>i < length v. cell_in p q (v ! i)}"
  unfolding qpos_def cell_in_iff by (auto simp: in_set_conv_nth)

lemma purge_cell_in: "cell_in p q (purge_cell Q rm x) \<longleftrightarrow> cell_in p q x \<and> \<not> (q \<in> Q \<and> p \<le> rm q)"
  by (cases x) (auto simp: purge_cell_def Let_def)

lemma dry_kept:
  assumes len: "length v1 = length v"
    and v1: "\<And>i. i < length v \<Longrightarrow> v1 ! i = (if i \<in> set idxs then v ! i else purge_cell Q rm (v ! i))"
    and rm: "\<And>q. rm q = - 1 \<or> rm q \<in> qpos v q \<and> swa_masked kv (rm q) (Max (qpos v q) + 1)"
    and nn: "\<And>p q. p \<in> qpos v q \<Longrightarrow> 0 \<le> p"
  shows "window_kept kv v v1 (\<lambda>_. {})"
  unfolding window_kept_def
proof (intro allI conjI ballI impI)
  fix q
  have has: "cell_in p q (v1 ! i) = (cell_in p q (v ! i) \<and> (i \<notin> set idxs \<longrightarrow> \<not> (q \<in> Q \<and> p \<le> rm q)))" if "i < length v" for i p
    using v1[OF that] by (auto simp: purge_cell_in)
  show "qpos v1 q \<subseteq> qpos v q \<union> {}" unfolding qpos_at len using has by auto
  fix p assume p: "p \<in> qpos v q" and keep: "\<not> swa_masked kv p (Max (qpos v q) + 1)"
  have "rm q < p" by (rule kept_above_rm[OF rm p nn[OF p] keep])
  then have "\<not> (q \<in> Q \<and> p \<le> rm q)" by simp
  then show "p \<in> qpos v1 q" using p has unfolding qpos_at len by blast
qed simp

lemma written_kept:
  assumes free: "cells_reusable ub idxs v" and m: "masked_cells kv idxs v"
    and len: "length v1 = length v" and v1: "\<And>i. i < length v \<Longrightarrow> v1 ! i = (if i \<in> set idxs then v ! i else purge_cell Q rm (v ! i))"
    and rm: "\<And>q. rm q = - 1 \<or> rm q \<in> qpos v q \<and> swa_masked kv (rm q) (Max (qpos v q) + 1)"
    and rm': "\<And>q. rm' q = - 1 \<or> rm' q \<in> qpos v q \<and> swa_masked kv (rm' q) (Max (qpos v q) + 1)"
    and nn: "\<And>p q. p \<in> qpos v q \<Longrightarrow> 0 \<le> p" and ub: "\<And>j. j < ub_n_tokens ub \<Longrightarrow> 0 \<le> ub_pos ub ! j"
  shows "window_kept kv v (map (purge_cell Q rm') (write_tokens ub idxs (length idxs) v1)) (new_pos ub)"
  unfolding window_kept_def
proof (intro allI)
  fix q
  let ?v2 = "map (purge_cell Q rm') (write_tokens ub idxs (length idxs) v1)"
  have f: "distinct idxs" "length idxs = ub_n_tokens ub" "\<And>i. i \<in> set idxs \<Longrightarrow> i < length v" using free by (auto simp: cells_reusable_def)
  have w: "qpos (write_tokens ub idxs (length idxs) v1) q
      = {p. \<exists>i < length v. i \<notin> set idxs \<and> cell_in p q (v1 ! i)} \<union> new_pos ub q"
    using qpos_write[OF f(1) refl, of v1 ub q] f(2,3) len by (auto simp: new_pos_def cell_in_iff)
  have old: "(\<exists>i < length v. i \<notin> set idxs \<and> cell_in p q (v1 ! i))
      = (\<not> (q \<in> Q \<and> p \<le> rm q) \<and> (\<exists>i < length v. i \<notin> set idxs \<and> cell_in p q (v ! i)))" for p
    using v1 by (auto simp: purge_cell_in)
  have v2: "qpos ?v2 q = {p. \<not> (q \<in> Q \<and> p \<le> rm' q) \<and> (p \<in> new_pos ub q
      \<or> \<not> (q \<in> Q \<and> p \<le> rm q) \<and> (\<exists>i < length v. i \<notin> set idxs \<and> cell_in p q (v ! i)))}"
    unfolding qpos_purge w using old by blast
  have sub: "qpos ?v2 q \<subseteq> qpos v q \<union> new_pos ub q" unfolding v2 by (auto simp: qpos_at)
  have keep: "p \<in> qpos ?v2 q" if p: "p \<in> qpos v q" "\<not> swa_masked kv p (Max (qpos v q) + 1)" for p
  proof -
    obtain i sh S where i: "i < length v" "v ! i = Cell p sh S" "q \<in> S" using p(1) unfolding qpos_at cell_in_iff by blast
    have "i \<notin> set idxs"
    proof
      assume a: "i \<in> set idxs"
      then have "v ! i = Empty \<or> (\<exists>p sh q. v ! i = Cell p sh {q})" using free by (simp add: cells_reusable_def)
      then obtain q' where "S = {q'}" using i(2) by auto
      then have "v ! i = Cell p sh {q}" using i by auto
      then show False using m a p(2) unfolding masked_cells_def by blast
    qed
    moreover have "rm q < p" by (rule kept_above_rm[OF rm p(1) nn[OF p(1)] p(2)])
    moreover have "rm' q < p" by (rule kept_above_rm[OF rm' p(1) nn[OF p(1)] p(2)])
    ultimately show ?thesis unfolding v2 using i(1,3) by (auto simp: i(2) intro!: exI[of _ i])
  qed
  have fresh: "p \<in> qpos ?v2 q" if p: "p \<in> new_pos ub q" "\<forall>p' \<in> qpos v q. p' < p" for p
  proof -
    have "0 \<le> p" using p(1) ub by (auto simp: new_pos_def)
    then have "rm' q < p" using rm'[of q] p(2) by auto
    then show ?thesis unfolding v2 using p(1) by simp
  qed
  show "qpos ?v2 q \<subseteq> qpos v q \<union> new_pos ub q
     \<and> (\<forall>p \<in> qpos v q. \<not> swa_masked kv p (Max (qpos v q) + 1) \<longrightarrow> p \<in> qpos ?v2 q)
     \<and> (\<forall>p \<in> new_pos ub q. (\<forall>p' \<in> qpos v q. p' < p) \<longrightarrow> p \<in> qpos ?v2 q)"
    using sub keep fresh by blast
qed

text \<open>What the dry run and the writing of one micro-batch do to a cache in unified mode.\<close>

definition window_cache :: "kv_cache \<Rightarrow> bool" where
  "window_cache kv \<longleftrightarrow> unified_cache kv \<and> no_shift kv \<and> kv_sc_ssrc kv = [] \<and> kv_sc_sdst kv = []"

lemma window_nonneg: "window_cache kv \<Longrightarrow> p \<in> qpos (kv_view kv ! 0) q \<Longrightarrow> 0 \<le> p"
proof -
  assume a: "window_cache kv" "p \<in> qpos (kv_view kv ! 0) q"
  then have "unified_cache kv" by (simp add: window_cache_def)
  then obtain c where "kv_view kv = [cells_view c]" "\<And>p sh S. Cell p sh S \<in> set (cells_view c) \<Longrightarrow> 0 \<le> p \<and> p < INT_MAX"
    by (rule unified_tables) blast
  then show "0 \<le> p" using a(2) by (auto simp: qpos_def)
qed

lemma purge_cell_Cell: "purge_cell Q rm x = Cell p sh S \<Longrightarrow> \<exists>S'. x = Cell p sh S'"
  by (cases x) (auto simp: purge_cell_def Let_def split: if_splits)

lemma place_one:
  assumes kv: "window_cache kv" and ub: "ubatch_ok kv ub"
  shows "kv_prepare [ub] kv = Some ([], kv) \<and> free_cells kv < ub_n_tokens ub
    \<or> (\<exists>idxs k1 k2. kv_prepare [ub] kv = Some ([slot_of idxs], k1) \<and> kv_apply_ubatch (slot_of idxs) ub k1 = Some k2
        \<and> window_cache k1 \<and> window_cache k2 \<and> same_conf kv k1 \<and> same_conf kv k2
        \<and> window_kept kv (kv_view kv ! 0) (kv_view k1 ! 0) (\<lambda>_. {})
        \<and> window_kept kv (kv_view kv ! 0) (kv_view k2 ! 0) (new_pos ub))"
proof -
  let ?v = "kv_view kv ! 0" and ?Q = "{q. seq_id_ok q}"
  have u: "unified_cache kv" "no_shift kv" using kv by (auto simp: window_cache_def)
  have nn: "0 \<le> p" if "p \<in> qpos ?v q" for p q using window_nonneg[OF kv that] .
  consider (none) "kv_find_slot ub False kv = Some slot_none" "free_cells kv < ub_n_tokens ub"
    | (slot) idxs where "kv_find_slot ub False kv = Some (slot_of idxs)" "cells_reusable ub idxs ?v" "masked_cells kv idxs ?v"
    using find_slot_unified[OF u(1) ub] by blast
  then show ?thesis
  proof cases
    case none
    then show ?thesis by (simp add: kv_prepare_def slot_empty_def slot_none_def)
  next
    case slot
    have ix: "i < length ?v" if "i \<in> set idxs" for i using slot(2) that by (auto simp: cells_reusable_def)
    obtain k0 rm where k0: "kv_apply_ubatch (slot_of idxs) ub kv = Some k0" "unified_cache k0" "same_conf kv k0"
      "rm_tracks idxs (length idxs) ?v rm" "kv_view k0 = [map (purge_cell ?Q rm) (write_tokens ub idxs (length idxs) ?v)]"
      using apply_ubatch_purges[OF u(1) ub slot(2)] by blast
    obtain saved k1 where k1: "save_slot (slot_of idxs) kv = Some saved" "restore_placed (slot_of idxs, kv_heads kv, saved) k0 = Some k1"
      "unified_cache k1" "same_conf kv k1" "length (kv_view k1 ! 0) = length ?v"
      "\<forall>i < length ?v. kv_view k1 ! 0 ! i = (if i \<in> set idxs then ?v ! i else purge_cell ?Q rm (?v ! i))"
      using restore_over[OF u(1) slot(2) u(2) k0(2,3,5)] by blast
    have prep: "kv_prepare [ub] kv = Some ([slot_of idxs], k1)"
      using slot(1) k0(1) k1(1,2) by (simp add: kv_prepare_def)
    have ub1: "ubatch_ok k1 ub" using ub k1(4) by (simp add: ubatch_ok_def seq_in_range_def same_conf_def)
    have reuse1: "cells_reusable ub idxs (kv_view k1 ! 0)" using slot(2) k1(5,6) by (simp add: cells_reusable_def)
    obtain k2 rm' where k2: "kv_apply_ubatch (slot_of idxs) ub k1 = Some k2" "unified_cache k2" "same_conf k1 k2"
      "rm_tracks idxs (length idxs) (kv_view k1 ! 0) rm'"
      "kv_view k2 = [map (purge_cell ?Q rm') (write_tokens ub idxs (length idxs) (kv_view k1 ! 0))]"
      using apply_ubatch_purges[OF k1(3) ub1 reuse1] by blast
    have at: "kv_view k1 ! 0 ! (idxs ! j) = ?v ! (idxs ! j)" if "j < length idxs" for j
      using k1(6) ix that by simp
    have tr': "rm_tracks idxs (length idxs) ?v rm'"
      using k2(4) at unfolding rm_tracks_def by (metis (no_types, lifting))
    note rm = rm_masked[OF k0(4) slot(3) ix] and rm' = rm_masked[OF tr' slot(3) ix]
    have w1: "window_kept kv ?v (kv_view k1 ! 0) (\<lambda>_. {})" by (rule dry_kept[OF k1(5) _ rm nn]) (use k1(6) in auto)
    have p0: "0 \<le> ub_pos ub ! j" if "j < ub_n_tokens ub" for j using ub that by (simp add: ubatch_ok_def)
    have w2: "window_kept kv ?v (kv_view k2 ! 0) (new_pos ub)"
      unfolding k2(5) nth_Cons_0
      by (rule written_kept[OF slot(2,3) k1(5) _ rm rm' nn p0]) (use k1(6) in auto)
    have src: "\<exists>S'. Cell p sh S' \<in> set ?v" if "Cell p sh S \<in> set (kv_view k1 ! 0)" for p sh S
    proof -
      obtain i where i: "i < length ?v" "kv_view k1 ! 0 ! i = Cell p sh S" using \<open>Cell p sh S \<in> set (kv_view k1 ! 0)\<close> k1(5) by (auto simp: in_set_conv_nth)
      then have "\<exists>S'. ?v ! i = Cell p sh S'" using k1(6) purge_cell_Cell by (metis (no_types, lifting))
      then show ?thesis using nth_mem[OF i(1)] by metis
    qed
    have "no_shift k1" using src u(2) unfolding no_shift_def by blast
    moreover have "no_shift k2"
      unfolding no_shift_def
    proof (intro allI impI)
      fix p sh S assume "Cell p sh S \<in> set (kv_view k2 ! 0)"
      then obtain x where x: "x \<in> set (write_tokens ub idxs (length idxs) (kv_view k1 ! 0))" "purge_cell ?Q rm' x = Cell p sh S"
        unfolding k2(5) nth_Cons_0 set_map image_iff by metis
      then obtain S' where "x = Cell p sh S'" using purge_cell_Cell by blast
      then have "Cell p sh S' \<in> set (kv_view k1 ! 0) \<or> (\<exists>j. token_cell ub j = Cell p sh S')"
        using subsetD[OF set_write_tokens x(1)] by auto
      then show "sh = 0" using \<open>no_shift k1\<close> unfolding no_shift_def by (auto simp: token_cell_def)
    qed
    ultimately have "window_cache k1" "window_cache k2"
      using k1(3) k2(2) kv k1(4) same_conf_trans[OF k1(4) k2(3)] by (simp_all add: window_cache_def same_conf_def)
    then show ?thesis using prep k2(1) k1(4) same_conf_trans[OF k1(4) k2(3)] w1 w2 by blast
  qed
qed

end
