(* ===== verification/Kv_Attend.thy ===== *)
theory Kv_Attend
  imports Kv_Window
begin

text \<open>
  The base and the sliding-window cache of \<open>llama_kv_cache_iswa\<close>, in unified mode, side by side: the
  invariant that ties them together in every state reached by clearing, by removing any range of any
  sequence, by keeping and copying sequences and by batches of one micro-batch of next tokens, and what the
  attention mask of the sliding-window layers then shows. Not covered are batches of several micro-batches
  and position shifts (\<open>seq_add\<close>, \<open>seq_div\<close>).

  Removing the tail of a sequence loses window data: the sliding-window cache may have given the cells of
  masked positions to others, and an earlier next token would see them. So the states carry, beside the two
  caches, a mark per sequence that the code does not have: a bound of the positions the sequence held since it
  was last empty. The invariant and the theorem on attention speak of positions from the mark on; without
  tail removals the mark is the next position.
\<close>

abbreviation bpos :: "kv_iswa \<Rightarrow> int \<Rightarrow> int set" where "bpos iw \<equiv> qpos (kv_view (iw_base iw) ! 0)"
abbreviation spos :: "kv_iswa \<Rightarrow> int \<Rightarrow> int set" where "spos iw \<equiv> qpos (kv_view (iw_swa iw) ! 0)"

type_synonym marks = "int \<Rightarrow> int"

definition window_inv :: "marks \<Rightarrow> kv_iswa \<Rightarrow> bool" where
  "window_inv hi iw \<longleftrightarrow> iw_unified iw \<and> window_cache (iw_base iw) \<and> kv_swa_type (iw_base iw) = SWA_NONE \<and> window_cache (iw_swa iw)
     \<and> (\<forall>q. spos iw q \<subseteq> bpos iw q) \<and> (\<forall>q. \<forall>p \<in> bpos iw q. p < hi q)
     \<and> (\<forall>q. \<forall>p \<in> bpos iw q. \<not> swa_masked (iw_swa iw) p (hi q) \<longrightarrow> p \<in> spos iw q)"

text \<open>The next tokens of their sequences: beyond every position the base cache holds.\<close>

definition batch_fresh :: "kv_iswa \<Rightarrow> ubatch \<Rightarrow> bool" where
  "batch_fresh iw ub \<longleftrightarrow> ubatch_ok (iw_base iw) ub \<and> ubatch_ok (iw_swa iw) ub
     \<and> (\<forall>q. \<forall>p \<in> new_pos ub q. \<forall>p' \<in> bpos iw q. p' < p)"

text \<open>How the marks move: an emptied sequence starts again, and a batch raises the marks of its sequences.\<close>

definition forget :: "kv_iswa \<Rightarrow> marks \<Rightarrow> marks" where
  "forget iw hi q = (if bpos iw q = {} then 0 else hi q)"

definition raise :: "ubatch \<Rightarrow> marks \<Rightarrow> marks" where
  "raise ub hi q = (if new_pos ub q = {} then hi q else max (hi q) (Max (new_pos ub q) + 1))"

text \<open>
  The steps. A batch of one micro-batch goes through \<open>init_batch\<close>, where both splits give it, and, if
  both caches have room, through \<open>apply\<close>. With \<open>tail\<close>, any range may be removed or copied; without, a removal
  starts at the front and a copy is of the whole sequence into an empty one.
\<close>

inductive iswa_step :: "bool \<Rightarrow> marks \<times> kv_iswa \<Rightarrow> marks \<times> kv_iswa \<Rightarrow> bool" for tail where
  step_clear: "iswa_step tail (hi, iw) (\<lambda>_. 0, iswa_clear data iw)"
| step_rm: "q = - 1 \<or> seq_id_ok q \<Longrightarrow> tail \<or> p0 \<le> 0 \<Longrightarrow> iswa_seq_rm q p0 p1 iw = Some (b, iw')
    \<Longrightarrow> iswa_step tail (hi, iw) (forget iw' hi, iw')"
| step_keep: "seq_id_ok q \<Longrightarrow> iswa_seq_keep q iw = Some iw' \<Longrightarrow> iswa_step tail (hi, iw) (forget iw' hi, iw')"
| step_cp: "seq_id_ok src \<Longrightarrow> seq_id_ok dst \<Longrightarrow> tail \<or> bpos iw dst = {} \<and> p0 \<le> 0 \<and> p1 < 0
    \<Longrightarrow> iswa_seq_cp src dst p0 p1 iw = Some iw' \<Longrightarrow> iswa_step tail (hi, iw) (hi(dst := max (hi dst) (hi src)), iw')"
| step_batch: "batch_fresh iw ub \<Longrightarrow> iswa_init_batch ([ub], True) ([ub], True) iw = Some (ix, iw1) \<Longrightarrow> ix_status ix = STATUS_SUCCESS
    \<Longrightarrow> iswa_context_apply rope rope_none outcome (ix, iw1) = Some (res, ix', iw') \<Longrightarrow> iswa_step tail (hi, iw) (raise ub hi, iw')"
| step_refused: "batch_fresh iw ub \<Longrightarrow> iswa_init_batch ([ub], True) ([ub], True) iw = Some (ix, iw1) \<Longrightarrow> ix_status ix \<noteq> STATUS_SUCCESS
    \<Longrightarrow> iswa_step tail (hi, iw) (hi, iw1)"

subsection \<open>Sequence operations keep the caches in step\<close>

lemma window_tables:
  assumes "window_cache kv"
  shows "kv_ok kv" "single_stream kv" "unified_cache kv" "no_shift kv" "kv_n_stream kv = 1" "length (kv_view kv) = 1"
proof -
  show u: "unified_cache kv" "no_shift kv" using assms by (auto simp: window_cache_def)
  then show ss: "single_stream kv" by (simp add: unified_cache_def)
  show "kv_ok kv" "kv_n_stream kv = 1" using single_streamD(1,2)[OF ss] .
  show "length (kv_view kv) = 1" using single_streamD(10)[OF ss] by (metis length_Cons list.size(3) One_nat_def)
qed

text \<open>A cell-wise rewriting that keeps positions and shifts.\<close>

lemma window_map:
  assumes kv: "window_cache kv" and ok: "kv_ok kv'" and conf: "same_conf kv kv'" and v: "kv_view kv' = [map g (kv_view kv ! 0)]"
    and g: "\<And>x p sh S. g x = Cell p sh S \<Longrightarrow> \<exists>S'. x = Cell p sh S'"
  shows "window_cache kv'"
proof -
  have "unified_cache kv'"
    using g by (intro unified_map[OF window_tables(3)[OF kv] ok conf v]) blast
  moreover have "no_shift kv'"
    unfolding no_shift_def v
  proof (intro allI impI)
    fix p sh S assume "Cell p sh S \<in> set ([map g (kv_view kv ! 0)] ! 0)"
    then obtain x where x: "x \<in> set (kv_view kv ! 0)" "g x = Cell p sh S" by auto
    then show "sh = 0" using g[OF x(2)] window_tables(4)[OF kv] unfolding no_shift_def by blast
  qed
  ultimately show ?thesis using kv conf by (simp add: window_cache_def same_conf_def)
qed

lemma window_conf: "window_cache kv \<Longrightarrow> seq_in_range kv q = seq_id_ok q"
  by (simp add: unified_seqs window_cache_def)

lemma window_stream: "window_cache kv \<Longrightarrow> seq_id_ok q \<Longrightarrow> stream_of kv q = 0"
  using single_streamD(8)[OF window_tables(2)] by (simp add: window_conf)

lemma qpos_drop_any: "qpos (map (drop_any lo hi) v) q = {p \<in> qpos v q. \<not> (lo \<le> p \<and> p < hi)}"
proof -
  have "Cell p sh S \<in> drop_any lo hi ` set v \<longleftrightarrow> Cell p sh S \<in> set v \<and> \<not> (lo \<le> p \<and> p < hi)" for p sh S
  proof
    assume "Cell p sh S \<in> drop_any lo hi ` set v"
    then obtain x where x: "x \<in> set v" "drop_any lo hi x = Cell p sh S" unfolding image_iff by metis
    have "x = Cell p sh S \<and> \<not> (lo \<le> p \<and> p < hi)" using x(2) by (cases x) (auto split: if_splits)
    then show "Cell p sh S \<in> set v \<and> \<not> (lo \<le> p \<and> p < hi)" using x(1) by auto
  next
    assume "Cell p sh S \<in> set v \<and> \<not> (lo \<le> p \<and> p < hi)"
    then show "Cell p sh S \<in> drop_any lo hi ` set v" by (intro image_eqI[of _ _ "Cell p sh S"]) auto
  qed
  then show ?thesis unfolding qpos_def by auto
qed

text \<open>Removing for every sequence leaves the configuration.\<close>

lemma seq_rm_any_fields:
  fixes p0 p1 :: int
  assumes "kv_seq_rm (- 1) p0 p1 kv = Some (b, kv')"
  shows "kv_swa_type kv' = kv_swa_type kv \<and> kv_n_swa kv' = kv_n_swa kv \<and> kv_n_stream kv' = kv_n_stream kv
    \<and> kv_seq_to_stream kv' = kv_seq_to_stream kv \<and> kv_n_pad kv' = kv_n_pad kv \<and> kv_sc_ssrc kv' = kv_sc_ssrc kv \<and> kv_sc_sdst kv' = kv_sc_sdst kv"
proof -
  define f where "f = (\<lambda>s kv. let n = cells_size (kv_tables kv ! s) in do {
     (cells, new_head) \<leftarrow> fold_opt (rm_any_cell (range_lo p0) (range_hi p1) n) [0..<n] (kv_tables kv ! s, n);
     Some (put_stream s cells (lower_head n new_head (kv_heads kv ! s)) kv) })"
  have "fold_opt f [0..<kv_n_stream kv] kv = Some kv'"
    using assms by (simp add: kv_seq_rm_def f_def bind_eq_Some_conv)
  then show ?thesis
    by (rule fold_opt_invariant) (auto simp: f_def Let_def put_stream_def bind_eq_Some_conv split: prod.splits)
qed

lemma window_seq_rm:
  fixes p0 p1 :: int
  assumes kv: "window_cache kv" and q: "q = - 1 \<or> seq_id_ok q"
  shows "\<exists>kv'. kv_seq_rm q p0 p1 kv = Some (True, kv') \<and> window_cache kv' \<and> same_conf kv kv'
    \<and> (\<forall>r. qpos (kv_view kv' ! 0) r
        = (if q = - 1 \<or> r = q then {p \<in> qpos (kv_view kv ! 0) r. \<not> (range_lo p0 \<le> p \<and> p < range_hi p1)} else qpos (kv_view kv ! 0) r))"
proof (cases "q = - 1")
  case False
  then have sid: "seq_id_ok q" using q by simp
  obtain kv' where k: "kv_seq_rm q p0 p1 kv = Some (True, kv')" "unified_cache kv'" "same_conf kv kv'"
    "kv_view kv' = [map (drop_seq q (range_lo p0) (range_hi p1)) (kv_view kv ! 0)]"
    using unified_seq_rm[OF window_tables(3)[OF kv] sid] by blast
  have cell: "\<exists>S'. x = Cell p sh S'" if "drop_seq q lo hi x = Cell p sh S" for lo hi x p sh S
    using that by (cases x) (auto split: if_splits)
  have "kv_ok kv'" using k(2) by (simp add: unified_cache_def single_stream_def)
  then have "window_cache kv'" by (rule window_map[OF kv _ k(3,4)]) (rule cell)
  then show ?thesis using k False by (auto simp: qpos_drop)
next
  case True
  obtain kv' where k: "kv_seq_rm (- 1) p0 p1 kv = Some (True, kv')" "kv_ok kv'"
    "kv_view kv' = map (map (drop_any (range_lo p0) (range_hi p1))) (kv_view kv)"
    using kv_seq_rm_any_spec[OF window_tables(1)[OF kv]] by blast
  have v: "kv_view kv' = [map (drop_any (range_lo p0) (range_hi p1)) (kv_view kv ! 0)]"
    using k(3) single_streamD(10)[OF window_tables(2)[OF kv]] by (metis list.map(1,2) nth_Cons_0)
  have "kv_get_size kv' = kv_get_size kv" using view_size[OF k(2)] view_size[OF window_tables(1)[OF kv]] by (simp add: v)
  then have conf: "same_conf kv kv'" using seq_rm_any_fields[OF k(1)] by (simp add: same_conf_def)
  have cell: "\<exists>S'. x = Cell p sh S'" if "drop_any lo hi x = Cell p sh S" for lo hi x p sh S
    using that by (cases x) (auto split: if_splits)
  have "window_cache kv'" by (rule window_map[OF kv k(2) conf v]) (rule cell)
  then show ?thesis using k(1) conf v True by (auto simp: qpos_drop_any)
qed

lemma window_fields:
  assumes "kv_view kv' = (kv_view kv)[0 := v]" and "window_cache kv"
  shows "kv_view kv' = [v]"
  using single_streamD(10)[OF window_tables(2)[OF assms(2)]] assms(1) by (metis list_update_code(2))

lemma window_seq_keep:
  assumes kv: "window_cache kv" and q: "seq_id_ok q"
  shows "\<exists>kv'. kv_seq_keep q kv = Some kv' \<and> window_cache kv' \<and> same_conf kv kv'
    \<and> (\<forall>r. qpos (kv_view kv' ! 0) r = (if r = q then qpos (kv_view kv ! 0) r else {}))"
proof -
  have r: "seq_in_range kv q" using q by (simp add: window_conf[OF kv])
  obtain kv' where k: "kv_seq_keep q kv = Some kv'" "kv_ok kv'" "kv_view kv' = (kv_view kv)[0 := map (keep_seq q) (kv_view kv ! 0)]"
    using kv_seq_keep_spec[OF window_tables(1)[OF kv] r] unfolding window_stream[OF kv q] by blast
  note v = window_fields[OF k(3) kv]
  have "kv_get_size kv' = kv_get_size kv" using view_size[OF k(2)] view_size[OF window_tables(1)[OF kv]] by (simp add: v)
  then have conf: "same_conf kv kv'" using k(1)
    by (auto simp: kv_seq_keep_def same_conf_def bind_eq_Some_conv Let_def split: if_splits prod.splits)
  have cell: "\<exists>S'. x = Cell p sh S'" if "keep_seq q x = Cell p sh S" for x p sh S
    using that by (cases x) (auto split: if_splits)
  have "window_cache kv'" by (rule window_map[OF kv k(2) conf v]) (rule cell)
  then show ?thesis using k(1) conf v by (auto simp: qpos_keep)
qed

lemma window_seq_cp:
  fixes p0 p1 :: int
  assumes kv: "window_cache kv" and q: "seq_id_ok src" "seq_id_ok dst" and run: "kv_seq_cp src dst p0 p1 kv = Some kv'"
  shows "window_cache kv' \<and> same_conf kv kv'
    \<and> (\<forall>r. qpos (kv_view kv' ! 0) r = qpos (kv_view kv ! 0) r
        \<union> (if r = dst then {p \<in> qpos (kv_view kv ! 0) src. range_lo p0 \<le> p \<and> p < range_hi p1} else {}))"
proof (cases "src = dst")
  case True
  have "kv' = kv" using run unfolding kv_seq_cp_def by (simp add: True Let_def split: if_splits)
  then show ?thesis using kv True by auto
next
  case ne: False
  have r: "seq_in_range kv src" "seq_in_range kv dst" using q by (simp_all add: window_conf[OF kv])
  have st: "stream_of kv src = 0" "stream_of kv dst = 0" using window_stream[OF kv] q by simp_all
  have same: "stream_of kv src = stream_of kv dst" by (simp add: st)
  have none: "\<not> cell_has dst x" if "x \<in> set (kv_view kv ! 0)" "cell_between (range_lo p0) (range_hi p1) x" "cell_has src x" for x
    using kv_seq_cp_same_aborts[OF window_tables(1)[OF kv] r same ne _ that(2,3)] that(1) run st by auto
  have k: "kv_ok kv'" "kv_view kv' = (kv_view kv)[0 := map (share_seq src dst (range_lo p0) (range_hi p1)) (kv_view kv ! 0)]"
    using kv_seq_cp_same_spec[OF window_tables(1)[OF kv] r same ne, of p0 p1] none run unfolding st by auto
  note v = window_fields[OF k(2) kv]
  have "kv_get_size kv' = kv_get_size kv" using view_size[OF k(1)] view_size[OF window_tables(1)[OF kv]] by (simp add: v)
  then have conf: "same_conf kv kv'" using run st ne
    by (auto simp: kv_seq_cp_def same_conf_def bind_eq_Some_conv Let_def split: if_splits)
  have cell: "\<exists>S'. x = Cell p sh S'" if "share_seq src dst lo hi x = Cell p sh S" for lo hi x p sh S
    using that by (cases x) (auto split: if_splits)
  have "window_cache kv'" by (rule window_map[OF kv k(1) conf v]) (rule cell)
  then show ?thesis using conf v by (auto simp: qpos_share)
qed

lemma window_clear:
  assumes kv: "window_cache kv"
  shows "window_cache (kv_clear data kv) \<and> same_conf kv (kv_clear data kv) \<and> (\<forall>q. qpos (kv_view (kv_clear data kv) ! 0) q = {})"
proof -
  have k: "kv_ok (kv_clear data kv)" "kv_view (kv_clear data kv) = map (map (\<lambda>_. Empty)) (kv_view kv)"
    using kv_clear_spec[OF window_tables(1)[OF kv]] by auto
  have v: "kv_view (kv_clear data kv) = [map (\<lambda>_. Empty) (kv_view kv ! 0)]"
    using k(2) single_streamD(10)[OF window_tables(2)[OF kv]] by (metis list.map(1,2) nth_Cons_0)
  have "kv_n_stream kv = 1" by (rule window_tables(5)[OF kv])
  moreover have "kv_get_size (kv_clear data kv) = kv_get_size kv" using view_size[OF k(1)] view_size[OF window_tables(1)[OF kv]] by (simp add: v)
  ultimately have conf: "same_conf kv (kv_clear data kv)" by (simp add: kv_clear_def same_conf_def Let_def)
  have "window_cache (kv_clear data kv)" by (rule window_map[OF kv k(1) conf v]) simp
  then show ?thesis using conf v by (auto simp: qpos_def)
qed

subsection \<open>Every step keeps the invariant\<close>

lemma same_conf_no_swa: "same_conf k k' \<Longrightarrow> kv_swa_type k = SWA_NONE \<Longrightarrow> kv_swa_type k' = SWA_NONE"
  by (simp add: same_conf_def)

lemma no_swa_masked: "kv_swa_type kv = SWA_NONE \<Longrightarrow> \<not> swa_masked kv p0 p1"
  by (auto simp: swa_masked_def kv_is_masked_swa_def is_masked_swa_def)

text \<open>What no step changes: the mode, the configuration of both caches and that they are unified.\<close>

definition same_setup :: "kv_iswa \<Rightarrow> kv_iswa \<Rightarrow> bool" where
  "same_setup iw iw' \<longleftrightarrow> iw_unified iw' = iw_unified iw \<and> window_cache (iw_base iw') \<and> window_cache (iw_swa iw')
     \<and> same_conf (iw_base iw) (iw_base iw') \<and> same_conf (iw_swa iw) (iw_swa iw')"

lemma window_invI:
  assumes "window_inv hi iw" and "same_setup iw iw'" and "\<And>q. spos iw' q \<subseteq> bpos iw' q" and "\<And>q p. p \<in> bpos iw' q \<Longrightarrow> p < hi' q"
    and "\<And>q p. p \<in> bpos iw' q \<Longrightarrow> \<not> swa_masked (iw_swa iw) p (hi' q) \<Longrightarrow> p \<in> spos iw' q"
  shows "window_inv hi' iw'"
  using assms by (auto simp: window_inv_def same_setup_def same_conf_masked dest: same_conf_no_swa)

lemma window_invD:
  assumes "window_inv hi iw"
  shows "window_cache (iw_base iw)" "window_cache (iw_swa iw)" "spos iw q \<subseteq> bpos iw q" "kv_swa_type (iw_base iw) = SWA_NONE"
    "p \<in> bpos iw q \<Longrightarrow> \<not> swa_masked (iw_swa iw) p (hi q) \<Longrightarrow> p \<in> spos iw q" "iw_unified iw" "p \<in> bpos iw q \<Longrightarrow> p < hi q"
  using assms by (auto simp: window_inv_def)

text \<open>Masked for a later position is implied by masked for an earlier one.\<close>

lemma not_masked_earlier:
  assumes "\<not> swa_masked kv p p2" and "0 \<le> p" and "p \<le> p1" and "p1 \<le> p2"
  shows "\<not> swa_masked kv p p1"
  using swa_masked_mono[of kv p p1 p p2] assms by blast

lemma Max_sub: "A \<subseteq> B \<Longrightarrow> p \<in> A \<Longrightarrow> finite B \<Longrightarrow> Max A \<le> Max B" for A B :: "int set"
  by (intro Max_mono) auto

text \<open>A position both caches hold and the mark still sees is not masked for the last one of the small cache.\<close>

lemma seen_in_swa:
  assumes inv: "window_inv hi iw" and p: "p \<in> bpos iw q" and keep: "\<not> swa_masked (iw_swa iw) p p1" and beyond: "hi q \<le> p1"
  shows "p \<in> spos iw q \<and> \<not> swa_masked (iw_swa iw) p (Max (spos iw q) + 1)"
proof -
  have nn: "0 \<le> p" using window_nonneg[OF window_invD(1)[OF inv] p] .
  have "p \<le> hi q" using window_invD(7)[OF inv p] by simp
  then have ps: "p \<in> spos iw q" by (rule window_invD(5)[OF inv p not_masked_earlier[OF keep nn _ beyond]])
  have "Max (spos iw q) \<in> spos iw q" by (rule Max_in[OF qpos_finite]) (use ps in auto)
  then have "Max (spos iw q) < hi q" using window_invD(3)[OF inv] window_invD(7)[OF inv] by blast
  moreover have "p \<le> Max (spos iw q) + 1" using Max_ge[OF qpos_finite ps] by simp
  ultimately show ?thesis using ps beyond by (intro conjI not_masked_earlier[OF keep nn]) simp_all
qed

lemma batch_in_swa:
  assumes inv: "window_inv hi iw" and fresh: "batch_fresh iw ub"
    and w: "window_kept (iw_swa iw) (kv_view (iw_swa iw) ! 0) v' (new_pos ub)"
    and p: "p \<in> bpos iw q \<union> new_pos ub q" and keep: "\<not> swa_masked (iw_swa iw) p p1" and beyond: "hi q \<le> p1"
  shows "p \<in> qpos v' q"
proof (cases "p \<in> new_pos ub q")
  case True
  have "\<forall>p' \<in> spos iw q. p' < p" using True fresh window_invD(3)[OF inv, of q] by (auto simp: batch_fresh_def)
  then show ?thesis using w True by (auto simp: window_kept_def)
next
  case False
  then show ?thesis using w p seen_in_swa[OF inv _ keep beyond] by (auto simp: window_kept_def)
qed

text \<open>The base cache loses nothing.\<close>

lemma base_kept:
  assumes "kv_swa_type kv = SWA_NONE" and "window_kept kv v v' new" and "\<And>p p'. p \<in> new q \<Longrightarrow> p' \<in> qpos v q \<Longrightarrow> p' < p"
  shows "qpos v' q = qpos v q \<union> new q"
  using assms no_swa_masked[OF assms(1)] unfolding window_kept_def by blast

text \<open>The dry run, in one or both caches.\<close>

lemma window_kept_refl: "window_kept kv v v (\<lambda>_. {})"
  by (simp add: window_kept_def)

lemma inv_dry:
  assumes inv: "window_inv hi iw" and k: "window_cache k1" "same_conf (iw_base iw) k1"
      "window_kept (iw_base iw) (kv_view (iw_base iw) ! 0) (kv_view k1 ! 0) (\<lambda>_. {})"
    and m: "window_cache m1" "same_conf (iw_swa iw) m1" "window_kept (iw_swa iw) (kv_view (iw_swa iw) ! 0) (kv_view m1 ! 0) (\<lambda>_. {})"
  shows "window_inv hi (iw\<lparr>iw_base := k1, iw_swa := m1\<rparr>)" and "qpos (kv_view k1 ! 0) q = bpos iw q"
proof -
  show b: "qpos (kv_view k1 ! 0) q = bpos iw q" for q
    using base_kept[OF window_invD(4)[OF inv] k(3)] by simp
  have sub: "qpos (kv_view m1 ! 0) q \<subseteq> bpos iw q" for q
    using m(3) window_invD(3)[OF inv, of q] unfolding window_kept_def by blast
  have seen: "p \<in> qpos (kv_view m1 ! 0) q" if "p \<in> bpos iw q" "\<not> swa_masked (iw_swa iw) p (hi q)" for p q
    using m(3) seen_in_swa[OF inv that] by (simp add: window_kept_def)
  show "window_inv hi (iw\<lparr>iw_base := k1, iw_swa := m1\<rparr>)"
    by (rule window_invI[OF inv]) (use k m sub seen window_invD(7)[OF inv] in \<open>simp_all add: b same_setup_def\<close>)
qed

text \<open>One attempt of \<open>init_batch\<close>: refused, or ready to be applied.\<close>

definition placed_in :: "marks \<Rightarrow> kv_iswa \<Rightarrow> ubatch \<Rightarrow> kv_iswa \<Rightarrow> bool" where
  "placed_in hi iw ub iw' \<longleftrightarrow> window_inv (raise ub hi) iw' \<and> same_conf (iw_base iw) (iw_base iw') \<and> same_conf (iw_swa iw) (iw_swa iw')
     \<and> (\<forall>q. bpos iw' q = bpos iw q \<union> new_pos ub q)
     \<and> (\<forall>q p p1. p \<in> bpos iw' q \<longrightarrow> \<not> swa_masked (iw_swa iw) p p1 \<longrightarrow> hi q \<le> p1 \<longrightarrow> p \<in> spos iw' q)"

lemma new_pos_finite: "finite (new_pos ub q)"
  by (simp add: new_pos_def)

lemma raise_ge: "hi q \<le> raise ub hi q" "p \<in> new_pos ub q \<Longrightarrow> p < raise ub hi q"
  using Max_ge[OF new_pos_finite, of p ub q] by (auto simp: raise_def)

lemma inv_placed:
  assumes inv: "window_inv hi iw" and fresh: "batch_fresh iw ub" and k: "window_cache k2" "same_conf (iw_base iw) k2"
      "window_kept (iw_base iw) (kv_view (iw_base iw) ! 0) (kv_view k2 ! 0) (new_pos ub)"
    and m: "window_cache m2" "same_conf (iw_swa iw) m2" "window_kept (iw_swa iw) (kv_view (iw_swa iw) ! 0) (kv_view m2 ! 0) (new_pos ub)"
    and iw': "iw_base iw' = k2" "iw_swa iw' = m2" "iw_unified iw' = iw_unified iw"
  shows "placed_in hi iw ub iw'"
proof -
  have b: "bpos iw' q = bpos iw q \<union> new_pos ub q" for q
    unfolding iw'(1) using fresh by (intro base_kept[OF window_invD(4)[OF inv] k(3)]) (auto simp: batch_fresh_def)
  have sub: "spos iw' q \<subseteq> bpos iw' q" for q
    using m(3) window_invD(3)[OF inv, of q] unfolding b iw'(2) window_kept_def by blast
  have seen: "p \<in> spos iw' q" if "p \<in> bpos iw' q" "\<not> swa_masked (iw_swa iw) p p1" "hi q \<le> p1" for p q p1
    unfolding iw'(2) using that by (intro batch_in_swa[OF inv fresh m(3)]) (simp_all add: b)
  have below: "p < raise ub hi q" if "p \<in> bpos iw' q" for p q
    using that raise_ge(1)[of hi q ub] raise_ge(2)[of p ub q hi] window_invD(7)[OF inv, of p q] by (auto simp: b)
  have "window_inv (raise ub hi) iw'"
    by (rule window_invI[OF inv]) (use k m iw' sub below seen raise_ge(1) in \<open>auto simp: same_setup_def\<close>)
  then show ?thesis using k(2) m(2) iw' b seen unfolding placed_in_def by blast
qed

lemma fresh_dry:
  assumes "batch_fresh iw ub" and "same_conf (iw_base iw) k1" and "same_conf (iw_swa iw) m1" and "\<And>q. qpos (kv_view k1 ! 0) q = bpos iw q"
  shows "batch_fresh (iw\<lparr>iw_base := k1, iw_swa := m1\<rparr>) ub"
  using assms by (simp add: batch_fresh_def ubatch_ok_def seq_in_range_def same_conf_def)

lemma iswa_try_cases:
  assumes inv: "window_inv hi iw" and fresh: "batch_fresh iw ub"
  shows "(\<exists>iw1. iswa_try [ub] True iw = Some (None, iw1)
        \<and> (free_cells (iw_base iw) < ub_n_tokens ub \<or> free_cells (iw_swa iw) < ub_n_tokens ub) \<and> window_inv hi iw1 \<and> batch_fresh iw1 ub
        \<and> same_conf (iw_base iw) (iw_base iw1) \<and> same_conf (iw_swa iw) (iw_swa iw1) \<and> bpos iw1 = bpos iw)
    \<or> (\<exists>si sj iw1 iw2. iswa_try [ub] True iw = Some (Some (iswa_context_of [ub] (context_batch [si] [ub]) (context_batch [sj] [ub])), iw1)
        \<and> kv_apply_ubatch si ub (iw_base iw1) = Some (iw_base iw2) \<and> kv_apply_ubatch sj ub (iw_swa iw1) = Some (iw_swa iw2)
        \<and> iw_unified iw2 = iw_unified iw1 \<and> si_strm si = [0] \<and> si_strm sj = [0] \<and> placed_in hi iw ub iw2)"
proof -
  note d = window_invD[OF inv]
  have ub: "ubatch_ok (iw_base iw) ub" "ubatch_ok (iw_swa iw) ub" using fresh by (simp_all add: batch_fresh_def)
  from place_one[OF d(1) ub(1)] show ?thesis
  proof
    assume "kv_prepare [ub] (iw_base iw) = Some ([], iw_base iw) \<and> free_cells (iw_base iw) < ub_n_tokens ub"
    then have "iswa_try [ub] True iw = Some (None, iw)" "free_cells (iw_base iw) < ub_n_tokens ub" by (simp_all add: iswa_try_def)
    then show ?thesis using inv fresh by auto
  next
    assume "\<exists>idxs k1 k2. kv_prepare [ub] (iw_base iw) = Some ([slot_of idxs], k1) \<and> kv_apply_ubatch (slot_of idxs) ub k1 = Some k2
        \<and> window_cache k1 \<and> window_cache k2 \<and> same_conf (iw_base iw) k1 \<and> same_conf (iw_base iw) k2
        \<and> window_kept (iw_base iw) (kv_view (iw_base iw) ! 0) (kv_view k1 ! 0) (\<lambda>_. {})
        \<and> window_kept (iw_base iw) (kv_view (iw_base iw) ! 0) (kv_view k2 ! 0) (new_pos ub)"
    then obtain idxs k1 k2 where k: "kv_prepare [ub] (iw_base iw) = Some ([slot_of idxs], k1)" "kv_apply_ubatch (slot_of idxs) ub k1 = Some k2"
      "window_cache k1" "window_cache k2" "same_conf (iw_base iw) k1" "same_conf (iw_base iw) k2"
      "window_kept (iw_base iw) (kv_view (iw_base iw) ! 0) (kv_view k1 ! 0) (\<lambda>_. {})"
      "window_kept (iw_base iw) (kv_view (iw_base iw) ! 0) (kv_view k2 ! 0) (new_pos ub)" by blast
    from place_one[OF d(2) ub(2)] show ?thesis
    proof
      assume s: "kv_prepare [ub] (iw_swa iw) = Some ([], iw_swa iw) \<and> free_cells (iw_swa iw) < ub_n_tokens ub"
      let ?iw1 = "iw\<lparr>iw_base := k1, iw_swa := iw_swa iw\<rparr>"
      note dry = inv_dry[OF inv k(3,5,7) d(2) same_conf_refl window_kept_refl]
      have "iswa_try [ub] True iw = Some (None, ?iw1)" using k(1) s by (simp add: iswa_try_def)
      moreover have "batch_fresh ?iw1 ub" by (rule fresh_dry[OF fresh k(5) same_conf_refl dry(2)])
      moreover have "bpos ?iw1 = bpos iw" by (intro ext) (simp add: dry(2))
      ultimately show ?thesis using dry(1) k(5) s by (intro disjI1 exI[of _ ?iw1]) simp
    next
      assume "\<exists>idxs k1 k2. kv_prepare [ub] (iw_swa iw) = Some ([slot_of idxs], k1) \<and> kv_apply_ubatch (slot_of idxs) ub k1 = Some k2
        \<and> window_cache k1 \<and> window_cache k2 \<and> same_conf (iw_swa iw) k1 \<and> same_conf (iw_swa iw) k2
        \<and> window_kept (iw_swa iw) (kv_view (iw_swa iw) ! 0) (kv_view k1 ! 0) (\<lambda>_. {})
        \<and> window_kept (iw_swa iw) (kv_view (iw_swa iw) ! 0) (kv_view k2 ! 0) (new_pos ub)"
      then obtain jdxs m1 m2 where m: "kv_prepare [ub] (iw_swa iw) = Some ([slot_of jdxs], m1)" "kv_apply_ubatch (slot_of jdxs) ub m1 = Some m2"
        "window_cache m2" "same_conf (iw_swa iw) m2" "window_kept (iw_swa iw) (kv_view (iw_swa iw) ! 0) (kv_view m2 ! 0) (new_pos ub)" by blast
      let ?iw1 = "iw\<lparr>iw_base := k1, iw_swa := m1\<rparr>" and ?iw2 = "iw\<lparr>iw_base := k2, iw_swa := m2\<rparr>"
      have "iswa_try [ub] True iw = Some (Some (iswa_context_of [ub] (context_batch [slot_of idxs] [ub]) (context_batch [slot_of jdxs] [ub])), ?iw1)"
        using k(1) m(1) by (simp add: iswa_try_def)
      moreover have "placed_in hi iw ub ?iw2" by (rule inv_placed[OF inv fresh k(4,6,8) m(3,4,5)]) simp_all
      moreover have "si_strm (slot_of idxs) = [0]" "si_strm (slot_of jdxs) = [0]" by simp_all
      ultimately show ?thesis using k(2) m(2) by (intro disjI2 exI[of _ "slot_of idxs"] exI[of _ "slot_of jdxs"] exI[of _ ?iw1] exI[of _ ?iw2]) simp
    qed
  qed
qed

lemma placed_from:
  assumes "placed_in hi iw1 ub iw2" and "same_conf (iw_base iw) (iw_base iw1)" and "same_conf (iw_swa iw) (iw_swa iw1)" and "bpos iw1 = bpos iw"
  shows "placed_in hi iw ub iw2"
  using assms(1) same_conf_trans[OF assms(2)] same_conf_trans[OF assms(3)] same_conf_masked[OF assms(3)]
  unfolding placed_in_def assms(4) by simp

text \<open>\<open>init_batch\<close> always returns; a batch it accepts can be applied.\<close>

definition batch_ready :: "marks \<Rightarrow> kv_iswa \<Rightarrow> ubatch \<Rightarrow> iswa_context \<Rightarrow> kv_iswa \<Rightarrow> bool" where
  "batch_ready hi iw ub ix iw1 \<longleftrightarrow> (\<exists>si sj iw2. ix = iswa_context_of [ub] (context_batch [si] [ub]) (context_batch [sj] [ub])
     \<and> kv_apply_ubatch si ub (iw_base iw1) = Some (iw_base iw2) \<and> kv_apply_ubatch sj ub (iw_swa iw1) = Some (iw_swa iw2)
     \<and> iw_unified iw2 = iw_unified iw1 \<and> si_strm si = [0] \<and> si_strm sj = [0] \<and> placed_in hi iw ub iw2)"

lemma init_batch_cases:
  assumes inv: "window_inv hi iw" and fresh: "batch_fresh iw ub"
  shows "\<exists>ix iw1. iswa_init_batch ([ub], True) ([ub], True) iw = Some (ix, iw1)
    \<and> (batch_ready hi iw ub ix iw1 \<or> ix = iswa_context_failed STATUS_FAILED_PREPARE \<and> window_inv hi iw1 \<and> bpos iw1 = bpos iw
        \<and> (free_cells (iw_base iw) < ub_n_tokens ub \<or> free_cells (iw_swa iw) < ub_n_tokens ub))"
proof -
  have u: "iw_unified iw" by (rule window_invD(6)[OF inv])
  have ready: "iswa_init_batch ([ub], True) ([ub], True) iw = Some (c, iw')" if "iswa_try [ub] True iw = Some (Some c, iw')" for c iw'
    using that u by (simp add: iswa_init_batch_def)
  from iswa_try_cases[OF inv fresh] show ?thesis
  proof
    assume "\<exists>iw1. iswa_try [ub] True iw = Some (None, iw1)
        \<and> (free_cells (iw_base iw) < ub_n_tokens ub \<or> free_cells (iw_swa iw) < ub_n_tokens ub) \<and> window_inv hi iw1 \<and> batch_fresh iw1 ub
        \<and> same_conf (iw_base iw) (iw_base iw1) \<and> same_conf (iw_swa iw) (iw_swa iw1) \<and> bpos iw1 = bpos iw"
    then obtain iw1 where t: "iswa_try [ub] True iw = Some (None, iw1)" "window_inv hi iw1" "batch_fresh iw1 ub"
      "same_conf (iw_base iw) (iw_base iw1)" "same_conf (iw_swa iw) (iw_swa iw1)" "bpos iw1 = bpos iw"
      and few: "free_cells (iw_base iw) < ub_n_tokens ub \<or> free_cells (iw_swa iw) < ub_n_tokens ub" by blast
    from iswa_try_cases[OF t(2,3)] show ?thesis
    proof
      assume "\<exists>iw2. iswa_try [ub] True iw1 = Some (None, iw2)
        \<and> (free_cells (iw_base iw1) < ub_n_tokens ub \<or> free_cells (iw_swa iw1) < ub_n_tokens ub) \<and> window_inv hi iw2 \<and> batch_fresh iw2 ub
        \<and> same_conf (iw_base iw1) (iw_base iw2) \<and> same_conf (iw_swa iw1) (iw_swa iw2) \<and> bpos iw2 = bpos iw1"
      then show ?thesis using t(1,6) u few by (auto simp: iswa_init_batch_def)
    next
      assume "\<exists>si sj iw2 iw3. iswa_try [ub] True iw1 = Some (Some (iswa_context_of [ub] (context_batch [si] [ub]) (context_batch [sj] [ub])), iw2)
        \<and> kv_apply_ubatch si ub (iw_base iw2) = Some (iw_base iw3) \<and> kv_apply_ubatch sj ub (iw_swa iw2) = Some (iw_swa iw3)
        \<and> iw_unified iw3 = iw_unified iw2 \<and> si_strm si = [0] \<and> si_strm sj = [0] \<and> placed_in hi iw1 ub iw3"
      then obtain si sj iw2 iw3 where r: "iswa_try [ub] True iw1 = Some (Some (iswa_context_of [ub] (context_batch [si] [ub]) (context_batch [sj] [ub])), iw2)"
        "kv_apply_ubatch si ub (iw_base iw2) = Some (iw_base iw3)" "kv_apply_ubatch sj ub (iw_swa iw2) = Some (iw_swa iw3)"
        "iw_unified iw3 = iw_unified iw2" "si_strm si = [0]" "si_strm sj = [0]" "placed_in hi iw1 ub iw3" by blast
      have "iswa_init_batch ([ub], True) ([ub], True) iw = Some (iswa_context_of [ub] (context_batch [si] [ub]) (context_batch [sj] [ub]), iw2)"
        using t(1) r(1) u by (simp add: iswa_init_batch_def)
      moreover have "placed_in hi iw ub iw3" by (rule placed_from[OF r(7) t(4,5,6)])
      ultimately show ?thesis using r(2-6) unfolding batch_ready_def by blast
    qed
  next
    assume "\<exists>si sj iw1 iw2. iswa_try [ub] True iw = Some (Some (iswa_context_of [ub] (context_batch [si] [ub]) (context_batch [sj] [ub])), iw1)
        \<and> kv_apply_ubatch si ub (iw_base iw1) = Some (iw_base iw2) \<and> kv_apply_ubatch sj ub (iw_swa iw1) = Some (iw_swa iw2)
        \<and> iw_unified iw2 = iw_unified iw1 \<and> si_strm si = [0] \<and> si_strm sj = [0] \<and> placed_in hi iw ub iw2"
    then show ?thesis using ready unfolding batch_ready_def by blast
  qed
qed

lemma batch_ready_apply:
  assumes "batch_ready hi iw ub ix iw1"
  shows "ix_status ix = STATUS_SUCCESS \<and> (\<exists>ix' iw' si sj. iswa_context_apply rope rope_none outcome (ix, iw1) = Some (True, ix', iw')
    \<and> placed_in hi iw ub iw' \<and> kx_n_kv (ix_base ix') = kv_get_n_kv si (iw_base iw') \<and> si_strm si = [0]
    \<and> kx_n_kv (ix_swa ix') = kv_get_n_kv sj (iw_swa iw') \<and> si_strm sj = [0])"
proof -
  obtain si sj iw2 where r: "ix = iswa_context_of [ub] (context_batch [si] [ub]) (context_batch [sj] [ub])"
    "kv_apply_ubatch si ub (iw_base iw1) = Some (iw_base iw2)" "kv_apply_ubatch sj ub (iw_swa iw1) = Some (iw_swa iw2)"
    "iw_unified iw2 = iw_unified iw1" "si_strm si = [0]" "si_strm sj = [0]" "placed_in hi iw ub iw2" using assms unfolding batch_ready_def by blast
  have st: "ix_status ix = STATUS_SUCCESS"
    by (simp add: r(1) iswa_context_of_def context_batch_def context_blank_def status_combine_def status_is_fail_def)
  let ?iw' = "iw1\<lparr>iw_base := iw_base iw2, iw_swa := iw_swa iw2\<rparr>"
  have eq: "?iw' = iw2" using r(4) by (simp add: kv_iswa.equality)
  have "\<exists>ix'. iswa_context_apply rope rope_none outcome (ix, iw1) = Some (True, ix', ?iw')
      \<and> kx_n_kv (ix_base ix') = kv_get_n_kv si (iw_base iw2) \<and> kx_n_kv (ix_swa ix') = kv_get_n_kv sj (iw_swa iw2)"
    using r(2,3) st by (simp add: iswa_context_apply_def r(1) iswa_context_of_def context_batch_def context_blank_def
      context_apply_def status_is_fail_def)
  then show ?thesis using st r(5-7) unfolding eq by blast
qed

text \<open>What the operations on sequences do to the positions of both caches.\<close>

lemma clear_effect:
  assumes "window_inv hi iw"
  shows "same_setup iw (iswa_clear data iw) \<and> (\<forall>q. bpos (iswa_clear data iw) q = {} \<and> spos (iswa_clear data iw) q = {})"
  using window_clear[OF window_invD(1)[OF assms], of data] window_clear[OF window_invD(2)[OF assms], of data]
  by (simp add: iswa_clear_def same_setup_def)

lemma rm_effect:
  fixes p0 p1 :: int
  assumes inv: "window_inv hi iw" and q: "q = - 1 \<or> seq_id_ok q" and run: "iswa_seq_rm q p0 p1 iw = Some (b, iw')"
  defines "left \<equiv> \<lambda>r A. if q = - 1 \<or> r = q then {p \<in> A. \<not> (range_lo p0 \<le> p \<and> p < range_hi p1)} else A"
  shows "same_setup iw iw' \<and> (\<forall>r. bpos iw' r = left r (bpos iw r) \<and> spos iw' r = left r (spos iw r))"
proof -
  note d = window_invD[OF inv]
  obtain k where k: "kv_seq_rm q p0 p1 (iw_base iw) = Some (True, k)" "window_cache k" "same_conf (iw_base iw) k"
    "\<forall>r. qpos (kv_view k ! 0) r = left r (bpos iw r)"
    using window_seq_rm[OF d(1) q, of p0 p1] unfolding left_def by blast
  obtain m where m: "kv_seq_rm q p0 p1 (iw_swa iw) = Some (True, m)" "window_cache m" "same_conf (iw_swa iw) m"
    "\<forall>r. qpos (kv_view m ! 0) r = left r (spos iw r)"
    using window_seq_rm[OF d(2) q, of p0 p1] unfolding left_def by blast
  have "iw' = iw\<lparr>iw_base := k, iw_swa := m\<rparr>" using run k(1) m(1) by (simp add: iswa_seq_rm_def)
  then show ?thesis using k m by (simp add: same_setup_def)
qed

lemma keep_effect:
  assumes inv: "window_inv hi iw" and q: "seq_id_ok q" and run: "iswa_seq_keep q iw = Some iw'"
  shows "same_setup iw iw' \<and> (\<forall>r. bpos iw' r = (if r = q then bpos iw r else {}) \<and> spos iw' r = (if r = q then spos iw r else {}))"
proof -
  note d = window_invD[OF inv]
  obtain k where k: "kv_seq_keep q (iw_base iw) = Some k" "window_cache k" "same_conf (iw_base iw) k"
    "\<forall>r. qpos (kv_view k ! 0) r = (if r = q then bpos iw r else {})" using window_seq_keep[OF d(1) q] by blast
  obtain m where m: "kv_seq_keep q (iw_swa iw) = Some m" "window_cache m" "same_conf (iw_swa iw) m"
    "\<forall>r. qpos (kv_view m ! 0) r = (if r = q then spos iw r else {})" using window_seq_keep[OF d(2) q] by blast
  have "iw' = iw\<lparr>iw_base := k, iw_swa := m\<rparr>" using run k(1) m(1) by (simp add: iswa_seq_keep_def on_both_def)
  then show ?thesis using k m by (simp add: same_setup_def)
qed

lemma cp_effect:
  fixes p0 p1 :: int
  assumes inv: "window_inv hi iw" and q: "seq_id_ok src" "seq_id_ok dst" and run: "iswa_seq_cp src dst p0 p1 iw = Some iw'"
  defines "part \<equiv> \<lambda>r A. if r = dst then {p \<in> A. range_lo p0 \<le> p \<and> p < range_hi p1} else {}"
  shows "same_setup iw iw' \<and> (\<forall>r. bpos iw' r = bpos iw r \<union> part r (bpos iw src) \<and> spos iw' r = spos iw r \<union> part r (spos iw src))"
proof -
  note d = window_invD[OF inv]
  obtain k m where km: "kv_seq_cp src dst p0 p1 (iw_base iw) = Some k" "kv_seq_cp src dst p0 p1 (iw_swa iw) = Some m"
    "iw' = iw\<lparr>iw_base := k, iw_swa := m\<rparr>"
    using run by (auto simp: iswa_seq_cp_def on_both_def bind_eq_Some_conv)
  show ?thesis
    using window_seq_cp[OF d(1) q km(1)] window_seq_cp[OF d(2) q km(2)] unfolding part_def by (simp add: km(3) same_setup_def)
qed

text \<open>A batch that is accepted and applied, or refused.\<close>

lemma batch_effect:
  assumes inv: "window_inv hi iw" and fresh: "batch_fresh iw ub" and i: "iswa_init_batch ([ub], True) ([ub], True) iw = Some (ix, iw1)"
  shows "ix_status ix = STATUS_SUCCESS \<Longrightarrow> iswa_context_apply rope rope_none outcome (ix, iw1) = Some (res, ix', iw') \<Longrightarrow> placed_in hi iw ub iw'"
    and "ix_status ix \<noteq> STATUS_SUCCESS \<Longrightarrow> window_inv hi iw1 \<and> bpos iw1 = bpos iw"
proof -
  have c: "batch_ready hi iw ub ix iw1 \<or> ix = iswa_context_failed STATUS_FAILED_PREPARE \<and> window_inv hi iw1 \<and> bpos iw1 = bpos iw"
    using init_batch_cases[OF inv fresh] i by auto
  show "placed_in hi iw ub iw'" if a: "ix_status ix = STATUS_SUCCESS" "iswa_context_apply rope rope_none outcome (ix, iw1) = Some (res, ix', iw')"
  proof -
    have "ix \<noteq> iswa_context_failed STATUS_FAILED_PREPARE" using a(1) by (auto simp: iswa_context_failed_def)
    then show ?thesis using c a(2) batch_ready_apply[of hi iw ub ix iw1 rope rope_none outcome] by auto
  qed
  show "window_inv hi iw1 \<and> bpos iw1 = bpos iw" if "ix_status ix \<noteq> STATUS_SUCCESS"
    using c that batch_ready_apply[of hi iw ub ix iw1] by blast
qed

abbreviation "marked_inv st \<equiv> window_inv (fst st) (snd st)"

text \<open>Taking the same positions out of both caches.\<close>

lemma window_inv_filter:
  assumes inv: "window_inv hi iw" and conf: "same_setup iw iw'"
    and pos: "\<And>r. bpos iw' r = {p \<in> bpos iw r. P r p}" "\<And>r. spos iw' r = {p \<in> spos iw r. P r p}"
  shows "window_inv (forget iw' hi) iw'"
proof (rule window_invI[OF inv conf])
  fix r
  show "spos iw' r \<subseteq> bpos iw' r" using window_invD(3)[OF inv, of r] by (auto simp: pos)
  fix p assume p: "p \<in> bpos iw' r"
  then have pb: "p \<in> bpos iw r" "P r p" and ne: "bpos iw' r \<noteq> {}" by (auto simp: pos(1))
  show "p < forget iw' hi r" using window_invD(7)[OF inv pb(1)] ne by (simp add: forget_def)
  assume "\<not> swa_masked (iw_swa iw) p (forget iw' hi r)"
  then have "\<not> swa_masked (iw_swa iw) p (hi r)" using ne by (simp add: forget_def)
  then show "p \<in> spos iw' r" using window_invD(5)[OF inv pb(1)] pb(2) by (simp add: pos(2))
qed

lemma iswa_step_inv: "iswa_step tail st st' \<Longrightarrow> marked_inv st \<Longrightarrow> marked_inv st'"
proof (induction rule: iswa_step.induct)
  case (step_clear hi iw data)
  then have inv: "window_inv hi iw" by simp
  show ?case using clear_effect[OF inv, of data] by (auto intro!: window_invI[OF inv])
next
  case (step_rm q p0 p1 iw b iw' hi)
  then have inv: "window_inv hi iw" by simp
  have "window_inv (forget iw' hi) iw'"
    by (rule window_inv_filter[OF inv, of _ "\<lambda>r p. if q = - 1 \<or> r = q then \<not> (range_lo p0 \<le> p \<and> p < range_hi p1) else True"])
      (use rm_effect[OF inv step_rm.hyps(1,3)] in \<open>cases "q = - 1"; auto split: if_splits\<close>)+
  then show ?case by simp
next
  case (step_keep q iw iw' hi)
  then have inv: "window_inv hi iw" by simp
  have "window_inv (forget iw' hi) iw'"
    by (rule window_inv_filter[OF inv, of _ "\<lambda>r p. r = q"]) (use keep_effect[OF inv step_keep.hyps] in simp_all)
  then show ?case by simp
next
  case (step_cp src dst iw p0 p1 iw' hi)
  then have inv: "window_inv hi iw" by simp
  note e = cp_effect[OF inv step_cp.hyps(1,2,4)] and d = window_invD[OF inv]
  let ?hi = "hi(dst := max (hi dst) (hi src))"
  have seen: "p \<in> spos iw r" if "p \<in> bpos iw r" "\<not> swa_masked (iw_swa iw) p h" "hi r \<le> h" for p r h
    using seen_in_swa[OF inv that] by blast
  have "window_inv ?hi iw'"
  proof (rule window_invI[OF inv])
    fix r
    show "same_setup iw iw'" using e by simp
    show "spos iw' r \<subseteq> bpos iw' r" using e d(3)[of r] d(3)[of src] by (cases "r = dst") auto
    fix p assume p: "p \<in> bpos iw' r"
    then consider (old) "p \<in> bpos iw r" | (new) "r = dst" "p \<in> bpos iw src" "range_lo p0 \<le> p \<and> p < range_hi p1"
      using e by (auto split: if_splits)
    note from_old_or_new = this
    show "p < ?hi r" using from_old_or_new
    proof cases
      case old
      then show ?thesis using d(7)[OF old] by auto
    next
      case new
      then show ?thesis using d(7)[OF new(2)] by simp
    qed
    assume open_p: "\<not> swa_masked (iw_swa iw) p (?hi r)"
    show "p \<in> spos iw' r" using from_old_or_new
    proof cases
      case old
      have "p \<in> spos iw r" by (rule seen[OF old open_p]) simp
      then show ?thesis using e by simp
    next
      case new
      have "p \<in> spos iw src" by (rule seen[OF new(2) open_p]) (simp add: new(1))
      then show ?thesis using e new(1,3) by simp
    qed
  qed
  then show ?case by (simp only: fst_conv snd_conv)
next
  case (step_batch iw ub ix iw1 rope rope_none outcome res ix' iw' hi)
  then have "placed_in hi iw ub iw'" using batch_effect(1)[of hi] by simp
  then show ?case by (simp add: placed_in_def)
next
  case (step_refused iw ub ix iw1 hi)
  then show ?case using batch_effect(2)[of hi] by simp
qed

text \<open>Without tail removals the mark of a sequence is its next position.\<close>

definition mark_exact :: "marks \<times> kv_iswa \<Rightarrow> bool" where
  "mark_exact st \<longleftrightarrow> (\<forall>q. fst st q = (if bpos (snd st) q = {} then 0 else Max (bpos (snd st) q) + 1))"

lemma iswa_step_exact: "iswa_step tail st st' \<Longrightarrow> \<not> tail \<Longrightarrow> marked_inv st \<Longrightarrow> mark_exact st \<Longrightarrow> mark_exact st'"
proof (induction rule: iswa_step.induct)
  case (step_clear hi iw data)
  then show ?case using clear_effect[of hi iw data] by (simp add: mark_exact_def)
next
  case (step_rm q p0 p1 iw b iw' hi)
  have inv: "window_inv hi iw" using step_rm.prems by simp
  have lo: "range_lo p0 = 0" using step_rm.hyps(2) step_rm.prems(1) by (simp add: range_lo_def)
  note e = rm_effect[OF inv step_rm.hyps(1,3), unfolded lo]
  have "Max (bpos iw' r) = Max (bpos iw r)" if ne: "bpos iw' r \<noteq> {}" for r
  proof (rule antisym)
    have sub: "bpos iw' r \<subseteq> bpos iw r" using e by (auto split: if_splits)
    then show "Max (bpos iw' r) \<le> Max (bpos iw r)" using ne qpos_finite by (intro Max_mono)
    obtain p where p: "p \<in> bpos iw' r" using ne by blast
    have nn: "0 \<le> p" using p sub window_nonneg[OF window_invD(1)[OF inv]] by blast
    have mx: "Max (bpos iw r) \<in> bpos iw r" "p \<le> Max (bpos iw r)"
      using p sub Max_in[OF qpos_finite, of "kv_view (iw_base iw) ! 0" r] Max_ge[OF qpos_finite, of p "kv_view (iw_base iw) ! 0" r] by auto
    have "Max (bpos iw r) \<in> bpos iw' r" using p mx e nn by (auto split: if_splits)
    then show "Max (bpos iw r) \<le> Max (bpos iw' r)" by (rule Max_ge[OF qpos_finite])
  qed
  moreover have "bpos iw r \<noteq> {}" if "bpos iw' r \<noteq> {}" for r using that e by (auto split: if_splits)
  ultimately show ?case using step_rm.prems(3) by (simp add: mark_exact_def forget_def)
next
  case (step_keep q iw iw' hi)
  then have inv: "window_inv hi iw" by simp
  show ?case using keep_effect[OF inv step_keep.hyps] step_keep.prems(3) by (auto simp: mark_exact_def forget_def split: if_splits)
next
  case (step_cp src dst iw p0 p1 iw' hi)
  have inv: "window_inv hi iw" using step_cp.prems by simp
  have lo: "range_lo p0 = 0" "range_hi p1 = INT_MAX" and new: "bpos iw dst = {}"
    using step_cp.hyps(3) step_cp.prems(1) by (simp_all add: range_lo_def range_hi_def)
  note e = cp_effect[OF inv step_cp.hyps(1,2,4), unfolded lo]
  have "0 \<le> p \<and> p < INT_MAX" if "p \<in> bpos iw src" for p
  proof -
    obtain c where "kv_view (iw_base iw) = [cells_view c]" "\<And>p sh S. Cell p sh S \<in> set (cells_view c) \<Longrightarrow> 0 \<le> p \<and> p < INT_MAX"
      by (rule unified_tables[OF window_tables(3)[OF window_invD(1)[OF inv]]]) blast
    then show ?thesis using that unfolding qpos_def by auto
  qed
  then have all: "{p \<in> bpos iw src. 0 \<le> p \<and> p < INT_MAX} = bpos iw src" by blast
  have b: "bpos iw' r = (if r = dst then bpos iw src else bpos iw r)" for r using e new unfolding all by (auto split: if_splits)
  have old: "hi r = (if bpos iw r = {} then 0 else Max (bpos iw r) + 1)" for r using step_cp.prems(3) by (simp add: mark_exact_def)
  have "0 \<le> Max (bpos iw src)" if "bpos iw src \<noteq> {}"
    using Max_in[OF qpos_finite that] window_nonneg[OF window_invD(1)[OF inv]] by blast
  then show ?case using new by (auto simp: mark_exact_def b old)
next
  case (step_batch iw ub ix iw1 rope rope_none outcome res ix' iw' hi)
  have inv: "window_inv hi iw" using step_batch.prems by simp
  have b: "bpos iw' q = bpos iw q \<union> new_pos ub q" for q
    using batch_effect(1)[OF inv step_batch.hyps(1,2,3,4)] by (simp add: placed_in_def)
  have old: "hi q = (if bpos iw q = {} then 0 else Max (bpos iw q) + 1)" for q using step_batch.prems(3) by (simp add: mark_exact_def)
  have nn: "0 \<le> Max (new_pos ub q)" if "new_pos ub q \<noteq> {}" for q
  proof -
    have "\<forall>p \<in> new_pos ub q. 0 \<le> p" using step_batch.hyps(1) by (auto simp: batch_fresh_def ubatch_ok_def new_pos_def)
    then show ?thesis using Max_in[OF new_pos_finite that] by blast
  qed
  show ?case
    using nn by (auto simp: mark_exact_def raise_def b old Max_Un[OF qpos_finite _ new_pos_finite])
next
  case (step_refused iw ub ix iw1 hi)
  then have "bpos iw1 = bpos iw" using batch_effect(2)[of hi iw ub ix iw1] by simp
  then show ?case using step_refused.prems(3) unfolding mark_exact_def fst_conv snd_conv by simp
qed

subsection \<open>Every reachable state\<close>

text \<open>A cache in unified mode as the constructor leaves it, with all marks at 0.\<close>

inductive iswa_initial :: "kv_iswa \<Rightarrow> bool" where
  constructed: "iswa_init alloc flt is_swa v_trans swa_full True kv_size n_seq_max n_ubatch n_pad n_swa swa = Some iw
    \<Longrightarrow> 0 < n_seq_max \<Longrightarrow> n_seq_max \<le> 256 \<Longrightarrow> (swa = SWA_CHUNKED \<longrightarrow> n_swa \<noteq> 0) \<Longrightarrow> iswa_initial iw"

lemma kv_init_window:
  assumes i: "kv_init v_trans True kv_size n_seq_max n_pad n_swa swa layers = Some kv" and n: "0 < n_seq_max" "n_seq_max \<le> 256"
    and swa: "swa = SWA_CHUNKED \<longrightarrow> n_swa \<noteq> 0"
  shows "window_cache kv \<and> kv_swa_type kv = swa \<and> kv_n_swa kv = n_swa \<and> kv_n_pad kv = n_pad \<and> kv_get_size kv = kv_size
    \<and> kv_view kv = [replicate kv_size Empty]"
proof -
  have pad: "n_pad \<noteq> 0" "kv_size mod n_pad = 0" using i by (auto simp: kv_init_def Let_def split: if_splits)
  have k: "kv_ok kv" "kv_view kv = [replicate kv_size Empty]" "kv_get_size kv = kv_size"
    using kv_init_ok[OF pad n, of v_trans True n_swa swa layers] i by auto
  have f: "kv_n_stream kv = 1" "kv_swa_type kv = swa" "kv_n_swa kv = n_swa" "length (kv_seq_to_stream kv) = 256" "kv_n_pad kv = n_pad"
    "kv_sc_ssrc kv = []" "kv_sc_sdst kv = []"
    using i by (auto simp: kv_init_def Let_def split: if_splits)
  have "positions_fit kv" "no_shift kv" by (auto simp: positions_fit_def no_shift_def k(2))
  then show ?thesis using k f swa by (auto simp: window_cache_def unified_cache_def single_stream_def swa_defined_def)
qed

lemma qpos_empty [simp]: "qpos (replicate n Empty) q = {}"
  by (auto simp: qpos_def)

lemma iswa_initial_inv:
  assumes "iswa_initial iw"
  shows "window_inv (\<lambda>_. 0) iw \<and> (\<forall>q. bpos iw q = {})"
  using assms
proof cases
  case (constructed alloc flt is_swa v_trans swa_full kv_size n_seq_max n_ubatch n_pad n_swa swa)
  let ?sz = "iswa_size swa_full True kv_size n_seq_max n_ubatch n_pad n_swa"
  obtain b s where bs: "kv_init v_trans True kv_size n_seq_max n_pad 0 SWA_NONE (alloc kv_size (layer_base flt is_swa)) = Some b"
    "kv_init v_trans True ?sz n_seq_max n_pad n_swa swa (alloc ?sz (layer_swa flt is_swa)) = Some s"
    "iw = \<lparr>iw_unified = True, iw_base = b, iw_swa = s\<rparr>"
    using constructed(1) by (auto simp: iswa_init_def Let_def bind_eq_Some_conv)
  have "SWA_NONE = SWA_CHUNKED \<longrightarrow> (0 :: nat) \<noteq> 0" by simp
  then show ?thesis
    using kv_init_window[OF bs(1) constructed(2,3)] kv_init_window[OF bs(2) constructed(2,3,4)] by (simp add: window_inv_def bs(3))
qed

inductive marked_initial :: "marks \<times> kv_iswa \<Rightarrow> bool" where
  fresh: "iswa_initial iw \<Longrightarrow> marked_initial (\<lambda>_. 0, iw)"

interpretation iswa: transition_system marked_initial "iswa_step tail" marked_inv
  by unfold_locales (auto simp: iswa_initial_inv elim: marked_initial.cases intro: iswa_step_inv)

interpretation front: transition_system marked_initial "iswa_step False" "\<lambda>st. marked_inv st \<and> mark_exact st"
  by unfold_locales
    (auto simp: iswa_initial_inv mark_exact_def[of "(_, _)"] elim: marked_initial.cases intro: iswa_step_inv iswa_step_exact)

text \<open>The largest position of a sequence, from its cells.\<close>

lemma window_pos_max:
  assumes kv: "window_cache kv" and q: "seq_id_ok q"
  shows "kv_seq_pos_max q kv = Some (if qpos (kv_view kv ! 0) q = {} then - 1 else Max (qpos (kv_view kv ! 0) q))"
proof -
  obtain c where c: "kv_tables kv = [c]" "cells_ok c" "kv_view kv = [cells_view c]" by (rule unified_tables[OF window_tables(3)[OF kv]]) blast
  show ?thesis using seq_pos_extrema(2)[OF c(2) q] c(1,3) window_stream[OF kv q] window_conf[OF kv, of q] q
    by (simp add: kv_seq_pos_max_def seq_positions_qpos)
qed

lemma standard_not_masked:
  assumes "kv_swa_type kv = SWA_STANDARD" and "2 \<le> i32_of_u32 (kv_n_swa kv)"
  shows "\<not> swa_masked kv p (p + 1)"
  using assms by (auto simp: swa_masked_def kv_is_masked_swa_def is_masked_swa_def split: if_splits)

lemma inv_pos_max:
  assumes inv: "window_inv hi iw" and exact: "mark_exact (hi, iw)" and q: "seq_id_ok q" and swa: "kv_swa_type (iw_swa iw) = SWA_STANDARD" "2 \<le> i32_of_u32 (kv_n_swa (iw_swa iw))"
  shows "iswa_seq_pos_max q iw = kv_seq_pos_max q (iw_base iw)"
proof -
  note d = window_invD[OF inv]
  have "spos iw q \<noteq> {} \<and> Max (spos iw q) = Max (bpos iw q)" if ne: "bpos iw q \<noteq> {}"
  proof -
    have "Max (bpos iw q) \<in> bpos iw q" using ne by (intro Max_in qpos_finite)
    then have m: "Max (bpos iw q) \<in> spos iw q"
      by (rule d(5)) (use exact ne standard_not_masked[OF swa] in \<open>simp add: mark_exact_def\<close>)
    have "Max (spos iw q) = Max (bpos iw q)"
      by (rule antisym[OF Max_sub[OF d(3) m qpos_finite] Max_ge[OF qpos_finite m]])
    then show ?thesis using m by auto
  qed
  moreover have "spos iw q = {}" if "bpos iw q = {}" using d(3)[of q] that by auto
  ultimately show ?thesis unfolding iswa_seq_pos_max_def window_pos_max[OF d(1) q] window_pos_max[OF d(2) q] by auto
qed

subsection \<open>What the attention masks show\<close>

text \<open>The positions of the cells a row of the mask lets through.\<close>

definition row_visible :: "mask list \<Rightarrow> nat \<Rightarrow> nat \<Rightarrow> cell list \<Rightarrow> int set" where
  "row_visible d row n_kv v = {p. \<exists>j < n_kv. d ! (n_kv * row + j) \<noteq> Masked \<and> (\<exists>sh S. v ! j = Cell p sh S)}"

lemma mask_shows:
  assumes kv: "window_cache kv" and ub: "ubatch_ok kv ub" and n_kv: "n_kv \<le> kv_get_size kv"
    and cover: "\<And>i. i < kv_get_size kv \<Longrightarrow> kv_view kv ! 0 ! i \<noteq> Empty \<Longrightarrow> i < n_kv"
  shows "\<exists>d. kv_set_input_kq_mask causal alibi ub n_kv 1 (n_kv * mask_pad (ub_n_tokens ub)) kv = Some d
    \<and> (\<forall>j < ub_n_tokens ub. row_visible d j n_kv (kv_view kv ! 0) = {p \<in> qpos (kv_view kv ! 0) (ub_seq_id ub ! j ! 0).
        (causal \<longrightarrow> p \<le> ub_pos ub ! j) \<and> \<not> swa_masked kv p (ub_pos ub ! j)})"
proof -
  let ?v = "kv_view kv ! 0" and ?n = "ub_n_tokens ub" and ?pad = "mask_pad (ub_n_tokens ub)"
  note w = window_tables[OF kv]
  have ss: "swa_defined kv" "positions_fit kv" using w(2) by (simp_all add: single_stream_def)
  have q: "seq_id_ok (ub_seq_id ub ! j ! 0)" "ub_seq_id ub ! j \<noteq> []" "0 \<le> ub_pos ub ! j \<and> ub_pos ub ! j < INT_MAX" if "j < ?n" for j
  proof -
    have "ub_seq_id ub ! j \<noteq> []" "ub_seq_id ub ! j \<in> set (ub_seq_id ub)" "\<forall>s \<in> set (ub_seq_id ub ! j). seq_id_ok s"
      and "0 \<le> ub_pos ub ! j \<and> ub_pos ub ! j < INT_MAX"
      using ub that by (auto simp: ubatch_ok_def)
    then show "seq_id_ok (ub_seq_id ub ! j ! 0)" "ub_seq_id ub ! j \<noteq> []" "0 \<le> ub_pos ub ! j \<and> ub_pos ub ! j < INT_MAX"
      by simp_all
  qed
  have tok: "tokens_ok kv ub"
    unfolding tokens_ok_def
  proof (intro conjI allI impI)
    fix i assume i: "i < ?n"
    show "seq_in_range kv (ub_seq_id ub ! i ! 0)" using q(1)[OF i] by (simp add: window_conf[OF kv])
    show "ub_seq_id ub ! i \<noteq> []" by (rule q(2)[OF i])
    show "0 \<le> ub_pos ub ! i" "ub_pos ub ! i \<le> INT_MAX" using q(3)[OF i] by auto
  qed (use ub in \<open>auto simp: ubatch_ok_def\<close>)
  have tp: "?n \<le> ?pad" by (rule mask_pad_ge)
  have one: "(1 :: nat) \<noteq> 0" "?n mod 1 = 0" by simp_all
  have n1: "?n div 1 = ?n" by simp
  obtain d where d: "kv_set_input_kq_mask causal alibi ub n_kv 1 (n_kv * (?pad * 1)) kv = Some d"
    "\<forall>k < n_kv * (?pad * 1). d ! k = (if k div n_kv mod ?pad < ?n then
        cell_mask causal alibi kv (ub_seq_id ub ! (k div n_kv div ?pad * ?n + k div n_kv mod ?pad) ! 0)
          (ub_pos ub ! (k div n_kv div ?pad * ?n + k div n_kv mod ?pad))
          (kv_view kv ! stream_of kv (ub_seq_id ub ! (k div n_kv div ?pad * ?n + k div n_kv mod ?pad) ! 0) ! (k mod n_kv)) else Masked)"
    using kq_mask_value[OF w(1) ss tok one n_kv refl, of causal alibi] unfolding n1 by blast
  have row: "d ! (n_kv * j + i) = cell_mask causal alibi kv (ub_seq_id ub ! j ! 0) (ub_pos ub ! j) (?v ! i)" if j: "j < ?n" and i: "i < n_kv" for j i
  proof -
    have "n_kv * j + i < n_kv * Suc j" using i by simp
    also have "\<dots> \<le> n_kv * ?pad" by (rule mult_le_mono2) (use j tp in simp)
    finally have "n_kv * j + i < n_kv * (?pad * 1)" by simp
    moreover have "j div ?pad = 0" "j mod ?pad = j" using j tp by simp_all
    ultimately show ?thesis using d(2) div_mod_row[OF i, of j] j window_stream[OF kv q(1)[OF j]] by simp
  qed
  have len: "length ?v = kv_get_size kv" using kv_okD(3,8)[OF w(1), of 0] w(5) by simp
  have "row_visible d j n_kv ?v = {p \<in> qpos ?v (ub_seq_id ub ! j ! 0). (causal \<longrightarrow> p \<le> ub_pos ub ! j) \<and> \<not> swa_masked kv p (ub_pos ub ! j)}"
    if j: "j < ?n" for j
  proof (intro equalityI subsetI)
    fix p assume "p \<in> row_visible d j n_kv ?v"
    then obtain i sh S where i: "i < n_kv" "d ! (n_kv * j + i) \<noteq> Masked" "?v ! i = Cell p sh S" by (auto simp: row_visible_def)
    have "Cell p sh S \<in> set ?v" using i(1,3) n_kv len nth_mem[of i ?v] by simp
    moreover have "ub_seq_id ub ! j ! 0 \<in> S \<and> (causal \<longrightarrow> p \<le> ub_pos ub ! j) \<and> \<not> swa_masked kv p (ub_pos ub ! j)"
      using i(2) unfolding row[OF j i(1)] i(3) cell_mask_def by (simp split: if_splits)
    ultimately show "p \<in> {p \<in> qpos ?v (ub_seq_id ub ! j ! 0). (causal \<longrightarrow> p \<le> ub_pos ub ! j) \<and> \<not> swa_masked kv p (ub_pos ub ! j)}"
      by (auto intro: qposI)
  next
    fix p assume a: "p \<in> {p \<in> qpos ?v (ub_seq_id ub ! j ! 0). (causal \<longrightarrow> p \<le> ub_pos ub ! j) \<and> \<not> swa_masked kv p (ub_pos ub ! j)}"
    then obtain i sh S where i: "i < length ?v" "?v ! i = Cell p sh S" "ub_seq_id ub ! j ! 0 \<in> S"
      by (auto simp: qpos_at cell_in_iff)
    have ik: "i < n_kv" using cover[of i] i(1,2) len by simp
    have "d ! (n_kv * j + i) \<noteq> Masked" unfolding row[OF j ik] i(2) cell_mask_def using a i(3) by simp
    then show "p \<in> row_visible d j n_kv ?v" using ik i(2) by (auto simp: row_visible_def)
  qed
  then show ?thesis using d(1) by auto
qed

lemma n_kv_window:
  assumes kv: "window_cache kv" and pad: "kv_n_pad kv = 2 ^ k" "k < 32" "kv_get_size kv + 2 ^ k \<le> 2 ^ 32" and si: "si_strm si = [0]"
  shows "kv_get_n_kv si kv \<le> kv_get_size kv" and "i < kv_get_size kv \<Longrightarrow> kv_view kv ! 0 ! i \<noteq> Empty \<Longrightarrow> i < kv_get_n_kv si kv"
  using get_n_kv_covers[OF window_tables(1)[OF kv] pad, of si] si window_tables(5)[OF kv] by auto

subsection \<open>The window survives, and attention sees what full attention would\<close>

text \<open>
  Property C5. Take any run of the two unified caches from their construction: clearing, \<open>seq_rm\<close> of any range,
  \<open>seq_keep\<close>, \<open>seq_cp\<close> of any range that does not hit a cell of the destination, and batches of one
  micro-batch of next tokens, accepted or refused. Then the sliding-window cache holds only tokens of the
  base cache, and every one that a token at or after the mark of its sequence can attend to, where the mark
  bounds the positions the sequence held since it was last empty. If only fronts are removed and only whole
  sequences copied, into empty ones, the mark is the next position, and with a standard window of at least
  two the last position the pair reports is the base cache's.
\<close>

theorem swa_keeps_window:
  assumes "marked_initial st0" and "(iswa_step tail)\<^sup>*\<^sup>* st0 (hi, iw)"
  shows "(\<forall>q. spos iw q \<subseteq> bpos iw q \<and> (\<forall>p \<in> bpos iw q. p < hi q \<and> (\<not> swa_masked (iw_swa iw) p (hi q) \<longrightarrow> p \<in> spos iw q)))
    \<and> (\<not> tail \<longrightarrow> (\<forall>q. hi q = (if bpos iw q = {} then 0 else Max (bpos iw q) + 1))
      \<and> (kv_swa_type (iw_swa iw) = SWA_STANDARD \<and> 2 \<le> i32_of_u32 (kv_n_swa (iw_swa iw))
        \<longrightarrow> (\<forall>q. seq_id_ok q \<longrightarrow> iswa_seq_pos_max q iw = kv_seq_pos_max q (iw_base iw))))"
proof -
  have inv: "window_inv hi iw" using iswa.reachable_inv[OF assms] by simp
  have exact: "mark_exact (hi, iw)" if "\<not> tail" using front.reachable_inv[OF assms(1)] assms(2) that by simp
  show ?thesis using inv exact inv_pos_max[OF inv] by (simp add: window_inv_def) (simp add: mark_exact_def)
qed

text \<open>The masks of a placed micro-batch, one row per token.\<close>

lemma same_conf_pads: "same_conf k k' \<Longrightarrow> kv_n_pad k' = kv_n_pad k \<and> kv_get_size k' = kv_get_size k"
  by (simp add: same_conf_def)

lemma placed_masks:
  assumes kv: "window_cache kv'" and conf: "same_conf kv kv'" and ub: "ubatch_ok kv ub"
    and pad: "kv_n_pad kv = 2 ^ k" "k < 32" "kv_get_size kv + 2 ^ k \<le> 2 ^ 32" and si: "si_strm si = [0]"
  defines "n \<equiv> kv_get_n_kv si kv'"
  shows "\<exists>d. kv_set_input_kq_mask causal alibi ub n 1 (n * mask_pad (ub_n_tokens ub)) kv' = Some d
    \<and> (\<forall>j < ub_n_tokens ub. row_visible d j n (kv_view kv' ! 0) = {p \<in> qpos (kv_view kv' ! 0) (ub_seq_id ub ! j ! 0).
        (causal \<longrightarrow> p \<le> ub_pos ub ! j) \<and> \<not> swa_masked kv p (ub_pos ub ! j)})"
proof -
  have pad': "kv_n_pad kv' = 2 ^ k" "kv_get_size kv' + 2 ^ k \<le> 2 ^ 32" using pad same_conf_pads[OF conf] by simp_all
  have ub': "ubatch_ok kv' ub" using ub conf by (simp add: ubatch_ok_def seq_in_range_def same_conf_def)
  note n = n_kv_window[OF kv pad'(1) pad(2) pad'(2) si]
  show ?thesis using mask_shows[OF kv ub' n(1,2), of causal alibi] unfolding n_def same_conf_masked[OF conf] .
qed

text \<open>
  Property C4. From any state of such a run, let a batch of one micro-batch of next tokens be accepted and
  applied. Then the masks of both caches can be filled, and for every token at or after the mark of its
  sequence (every token, if no tail was removed) the cells that the sliding-window mask lets through hold
  exactly the positions that full attention over the base cache sees and the window does not mask: reusing
  cells loses nothing that such a query needs.
\<close>

theorem swa_attention_as_full:
  assumes "marked_initial st0" and "(iswa_step tail)\<^sup>*\<^sup>* st0 (hi, iw)" and "batch_fresh iw ub"
    and "iswa_init_batch ([ub], True) ([ub], True) iw = Some (ix, iw1)" and "ix_status ix = STATUS_SUCCESS"
    and "iswa_context_apply rope rope_none outcome (ix, iw1) = Some (res, ix', iw')"
    and "kv_n_pad (iw_base iw) = 2 ^ k" and "kv_n_pad (iw_swa iw) = 2 ^ k" and "k < 32"
    and "kv_get_size (iw_base iw) + 2 ^ k \<le> 2 ^ 32" and "kv_get_size (iw_swa iw) + 2 ^ k \<le> 2 ^ 32"
  shows "res \<and> (\<exists>full window.
      kv_set_input_kq_mask causal alibi ub (kx_n_kv (ix_base ix')) 1 (kx_n_kv (ix_base ix') * mask_pad (ub_n_tokens ub)) (iw_base iw') = Some full
    \<and> kv_set_input_kq_mask causal alibi ub (kx_n_kv (ix_swa ix')) 1 (kx_n_kv (ix_swa ix') * mask_pad (ub_n_tokens ub)) (iw_swa iw') = Some window
    \<and> (\<forall>j < ub_n_tokens ub. \<not> tail \<or> hi (ub_seq_id ub ! j ! 0) \<le> ub_pos ub ! j \<longrightarrow>
        row_visible window j (kx_n_kv (ix_swa ix')) (kv_view (iw_swa iw') ! 0)
        = {p \<in> row_visible full j (kx_n_kv (ix_base ix')) (kv_view (iw_base iw') ! 0). \<not> swa_masked (iw_swa iw) p (ub_pos ub ! j)}))"
proof -
  have inv: "window_inv hi iw" using iswa.reachable_inv[OF assms(1,2)] by simp
  have exact: "mark_exact (hi, iw)" if "\<not> tail" using front.reachable_inv[OF assms(1)] assms(2) that by simp
  have "ix \<noteq> iswa_context_failed STATUS_FAILED_PREPARE" using assms(5) by (auto simp: iswa_context_failed_def)
  then have "batch_ready hi iw ub ix iw1" using init_batch_cases[OF inv assms(3)] assms(4) by auto
  then obtain si sj where r: "res" "placed_in hi iw ub iw'" "kx_n_kv (ix_base ix') = kv_get_n_kv si (iw_base iw')" "si_strm si = [0]"
    "kx_n_kv (ix_swa ix') = kv_get_n_kv sj (iw_swa iw')" "si_strm sj = [0]"
    using batch_ready_apply[of hi iw ub ix iw1 rope rope_none outcome] assms(6) by auto
  have p: "window_inv (raise ub hi) iw'" "same_conf (iw_base iw) (iw_base iw')" "same_conf (iw_swa iw) (iw_swa iw')"
    "\<And>q p p1. p \<in> bpos iw' q \<Longrightarrow> \<not> swa_masked (iw_swa iw) p p1 \<Longrightarrow> hi q \<le> p1 \<Longrightarrow> p \<in> spos iw' q"
    using r(2) unfolding placed_in_def by blast+
  have ub: "ubatch_ok (iw_base iw) ub" "ubatch_ok (iw_swa iw) ub" using assms(3) by (simp_all add: batch_fresh_def)
  obtain full where f: "kv_set_input_kq_mask causal alibi ub (kx_n_kv (ix_base ix')) 1 (kx_n_kv (ix_base ix') * mask_pad (ub_n_tokens ub)) (iw_base iw') = Some full"
    "\<forall>j < ub_n_tokens ub. row_visible full j (kx_n_kv (ix_base ix')) (kv_view (iw_base iw') ! 0) = {p \<in> bpos iw' (ub_seq_id ub ! j ! 0).
        (causal \<longrightarrow> p \<le> ub_pos ub ! j) \<and> \<not> swa_masked (iw_base iw) p (ub_pos ub ! j)}"
    using placed_masks[OF window_invD(1)[OF p(1)] p(2) ub(1) assms(7,9,10) r(4)] unfolding r(3) by blast
  obtain window where w: "kv_set_input_kq_mask causal alibi ub (kx_n_kv (ix_swa ix')) 1 (kx_n_kv (ix_swa ix') * mask_pad (ub_n_tokens ub)) (iw_swa iw') = Some window"
    "\<forall>j < ub_n_tokens ub. row_visible window j (kx_n_kv (ix_swa ix')) (kv_view (iw_swa iw') ! 0) = {p \<in> spos iw' (ub_seq_id ub ! j ! 0).
        (causal \<longrightarrow> p \<le> ub_pos ub ! j) \<and> \<not> swa_masked (iw_swa iw) p (ub_pos ub ! j)}"
    using placed_masks[OF window_invD(2)[OF p(1)] p(3) ub(2) assms(8,9,11) r(6)] unfolding r(5) by blast
  have beyond: "hi (ub_seq_id ub ! j ! 0) \<le> ub_pos ub ! j" if j: "j < ub_n_tokens ub" and at: "\<not> tail \<or> hi (ub_seq_id ub ! j ! 0) \<le> ub_pos ub ! j" for j
  proof (cases tail)
    case True
    then show ?thesis using at by simp
  next
    case False
    let ?q = "ub_seq_id ub ! j ! 0"
    have "ub_seq_id ub ! j \<in> set (ub_seq_id ub)" using j ub(1) by (simp add: ubatch_ok_def)
    then have "?q \<in> set (ub_seq_id ub ! j)" using ub(1) by (auto simp: ubatch_ok_def)
    then have new: "ub_pos ub ! j \<in> new_pos ub ?q" using j by (auto simp: new_pos_def)
    have "Max (bpos iw ?q) < ub_pos ub ! j" if "bpos iw ?q \<noteq> {}"
      using Max_in[OF qpos_finite that] new assms(3) by (auto simp: batch_fresh_def)
    moreover have "0 \<le> ub_pos ub ! j" using j ub(1) by (simp add: ubatch_ok_def)
    ultimately show ?thesis using exact[OF False] by (simp add: mark_exact_def zless_imp_add1_zle)
  qed
  have "row_visible window j (kx_n_kv (ix_swa ix')) (kv_view (iw_swa iw') ! 0)
        = {p \<in> row_visible full j (kx_n_kv (ix_base ix')) (kv_view (iw_base iw') ! 0). \<not> swa_masked (iw_swa iw) p (ub_pos ub ! j)}"
    if j: "j < ub_n_tokens ub" "\<not> tail \<or> hi (ub_seq_id ub ! j ! 0) \<le> ub_pos ub ! j" for j
    using f(2) w(2) j(1) p(4)[OF _ _ beyond[OF j]] subsetD[OF window_invD(3)[OF p(1)]] no_swa_masked[OF window_invD(4)[OF inv]] by auto
  then show ?thesis using r(1) f(1) w(1) by blast
qed

text \<open>A cache of four cells in each part, and a first token at position 10.\<close>

definition sample_iswa :: kv_iswa where
  "sample_iswa = the (iswa_init (\<lambda>_ _. []) None (\<lambda>_. False) False False True 4 1 2 1 2 SWA_STANDARD)"

lemma sample_iswa:
  "marked_initial (\<lambda>_. 0, sample_iswa)" "window_inv (\<lambda>_. 0) sample_iswa" "batch_fresh sample_iswa sample_ubatch" "bpos sample_iswa q = {}"
  "kv_n_pad (iw_base sample_iswa) = 2 ^ 0" "kv_n_pad (iw_swa sample_iswa) = 2 ^ 0"
  "kv_get_size (iw_base sample_iswa) = 4" "kv_get_size (iw_swa sample_iswa) = 4"
  "kv_swa_type (iw_swa sample_iswa) = SWA_STANDARD" "kv_n_swa (iw_swa sample_iswa) = 2"
  "free_cells (iw_base sample_iswa) = 4" "free_cells (iw_swa sample_iswa) = 4"
proof -
  have sz: "iswa_size False True 4 1 2 1 2 = 4"
    by (simp add: iswa_size_def ggml_pad_def)
  obtain b where b: "kv_init False True 4 1 1 0 SWA_NONE [] = Some b" by (simp add: kv_init_def Let_def)
  obtain s where s: "kv_init False True 4 1 1 2 SWA_STANDARD [] = Some s" by (simp add: kv_init_def Let_def)
  let ?iw = "\<lparr>iw_unified = True, iw_base = b, iw_swa = s\<rparr>"
  have i: "iswa_init (\<lambda>_ _. []) None (\<lambda>_. False) False False True 4 1 2 1 2 SWA_STANDARD = Some ?iw"
    using b s sz by (simp add: iswa_init_def Let_def)
  then have iw: "sample_iswa = ?iw" by (simp add: sample_iswa_def)
  have init: "iswa_initial sample_iswa" unfolding iw by (rule constructed[OF i]) simp_all
  then show "marked_initial (\<lambda>_. 0, sample_iswa)" by (rule fresh)
  show "window_inv (\<lambda>_. 0) sample_iswa" using iswa_initial_inv[OF init] by simp
  have kb: "window_cache b \<and> kv_swa_type b = SWA_NONE \<and> kv_n_swa b = 0 \<and> kv_n_pad b = 1 \<and> kv_get_size b = 4 \<and> kv_view b = [replicate 4 Empty]"
    by (rule kv_init_window[OF b]) simp_all
  have ks: "window_cache s \<and> kv_swa_type s = SWA_STANDARD \<and> kv_n_swa s = 2 \<and> kv_n_pad s = 1 \<and> kv_get_size s = 4 \<and> kv_view s = [replicate 4 Empty]"
    by (rule kv_init_window[OF s]) simp_all
  have ub: "ubatch_ok kv sample_ubatch" if "window_cache kv" for kv
    using window_conf[OF that, of 0] by (simp add: ubatch_ok_def sample_ubatch_def seq_id_ok_def)
  have empty: "qpos (replicate 4 Empty) q = {}" for q by (rule qpos_empty)
  show e: "bpos sample_iswa q = {}" for q using kb empty by (simp add: iw)
  show "batch_fresh sample_iswa sample_ubatch" using kb ks ub e by (simp add: batch_fresh_def iw)
  have "{i. i < 4 \<and> replicate 4 Empty ! i = Empty} = {..<4 :: nat}" by auto
  then show "free_cells (iw_base sample_iswa) = 4" "free_cells (iw_swa sample_iswa) = 4"
    using kb ks by (simp_all add: free_cells_def iw)
  show "kv_n_pad (iw_base sample_iswa) = 2 ^ 0" "kv_n_pad (iw_swa sample_iswa) = 2 ^ 0"
    "kv_get_size (iw_base sample_iswa) = 4" "kv_get_size (iw_swa sample_iswa) = 4"
    "kv_swa_type (iw_swa sample_iswa) = SWA_STANDARD" "kv_n_swa (iw_swa sample_iswa) = 2" using kb ks by (simp_all add: iw)
qed

lemma sample_run:
  "\<exists>ix iw1 ix' iw'. iswa_init_batch ([sample_ubatch], True) ([sample_ubatch], True) sample_iswa = Some (ix, iw1) \<and> ix_status ix = STATUS_SUCCESS
    \<and> iswa_context_apply (\<lambda>_ ls. ls) True (Shift_done, Shift_done) (ix, iw1) = Some (True, ix', iw')
    \<and> iswa_step tail (\<lambda>_. 0, sample_iswa) (raise sample_ubatch (\<lambda>_. 0), iw') \<and> bpos iw' 0 = {10} \<and> same_conf (iw_swa sample_iswa) (iw_swa iw')"
proof -
  have one: "ub_n_tokens sample_ubatch = 1" by (simp add: sample_ubatch_def)
  obtain ix iw1 where i: "iswa_init_batch ([sample_ubatch], True) ([sample_ubatch], True) sample_iswa = Some (ix, iw1)"
    "batch_ready (\<lambda>_. 0) sample_iswa sample_ubatch ix iw1"
    using init_batch_cases[OF sample_iswa(2,3)] unfolding one sample_iswa(11,12) by auto
  obtain ix' iw' where a: "ix_status ix = STATUS_SUCCESS" "placed_in (\<lambda>_. 0) sample_iswa sample_ubatch iw'"
    "iswa_context_apply (\<lambda>_ ls. ls) True (Shift_done, Shift_done) (ix, iw1) = Some (True, ix', iw')"
    using batch_ready_apply[OF i(2), of "\<lambda>_ ls. ls" True "(Shift_done, Shift_done)"] by blast
  have "new_pos sample_ubatch 0 = {10}" by (auto simp: new_pos_def sample_ubatch_def)
  then have "bpos iw' 0 = {10}" using a(2) sample_iswa(4)[of 0] by (simp add: placed_in_def)
  moreover have "same_conf (iw_swa sample_iswa) (iw_swa iw')" using a(2) by (simp add: placed_in_def)
  moreover have "iswa_step tail (\<lambda>_. 0, sample_iswa) (raise sample_ubatch (\<lambda>_. 0), iw')" by (rule step_batch[OF sample_iswa(3) i(1) a(1,3)])
  ultimately show ?thesis using i(1) a(1,3) by blast
qed

lemma swa_keeps_window_witness:
  "\<exists>ix iw1 ix' iw'. iswa_init_batch ([sample_ubatch], True) ([sample_ubatch], True) sample_iswa = Some (ix, iw1)
     \<and> iswa_context_apply (\<lambda>_ ls. ls) True (Shift_done, Shift_done) (ix, iw1) = Some (True, ix', iw')
     \<and> bpos iw' 0 = {10} \<and> spos iw' 0 = {10} \<and> iswa_seq_pos_max 0 iw' = kv_seq_pos_max 0 (iw_base iw')"
proof -
  obtain ix iw1 ix' iw' where r: "iswa_init_batch ([sample_ubatch], True) ([sample_ubatch], True) sample_iswa = Some (ix, iw1)"
    "iswa_context_apply (\<lambda>_ ls. ls) True (Shift_done, Shift_done) (ix, iw1) = Some (True, ix', iw')"
    "iswa_step False (\<lambda>_. 0, sample_iswa) (raise sample_ubatch (\<lambda>_. 0), iw')" "bpos iw' 0 = {10}" "same_conf (iw_swa sample_iswa) (iw_swa iw')" using sample_run by blast
  have swa: "kv_swa_type (iw_swa iw') = SWA_STANDARD" "2 \<le> i32_of_u32 (kv_n_swa (iw_swa iw'))"
    using r(5) sample_iswa(9,10) by (simp_all add: same_conf_def i32_of_u32_def)
  have "(iswa_step False)\<^sup>*\<^sup>* (\<lambda>_. 0, sample_iswa) (raise sample_ubatch (\<lambda>_. 0), iw')" using r(3) by blast
  note w = swa_keeps_window[OF sample_iswa(1) this]
  have mark: "raise sample_ubatch (\<lambda>_. 0) 0 = 11" using w r(4) by simp
  have "\<not> swa_masked (iw_swa iw') 10 11" using standard_not_masked[OF swa, of 10] by simp
  then have "spos iw' 0 = {10}" using w r(4) mark by (metis singletonD singletonI subset_singletonD empty_iff)
  moreover have "iswa_seq_pos_max 0 iw' = kv_seq_pos_max 0 (iw_base iw')" using w swa by (simp add: seq_id_ok_def)
  ultimately show ?thesis using r(1,2,4) by blast
qed

lemma swa_attention_as_full_witness:
  "\<exists>ix iw1 ix' iw' full window. iswa_init_batch ([sample_ubatch], True) ([sample_ubatch], True) sample_iswa = Some (ix, iw1)
    \<and> iswa_context_apply (\<lambda>_ ls. ls) True (Shift_done, Shift_done) (ix, iw1) = Some (True, ix', iw')
    \<and> kv_set_input_kq_mask True False sample_ubatch (kx_n_kv (ix_base ix')) 1 (kx_n_kv (ix_base ix') * 64) (iw_base iw') = Some full
    \<and> kv_set_input_kq_mask True False sample_ubatch (kx_n_kv (ix_swa ix')) 1 (kx_n_kv (ix_swa ix') * 64) (iw_swa iw') = Some window
    \<and> row_visible window 0 (kx_n_kv (ix_swa ix')) (kv_view (iw_swa iw') ! 0)
        = {p \<in> row_visible full 0 (kx_n_kv (ix_base ix')) (kv_view (iw_base iw') ! 0). \<not> swa_masked (iw_swa sample_iswa) p 10}"
proof -
  obtain ix iw1 ix' iw' where r: "iswa_init_batch ([sample_ubatch], True) ([sample_ubatch], True) sample_iswa = Some (ix, iw1)"
    "ix_status ix = STATUS_SUCCESS" "iswa_context_apply (\<lambda>_ ls. ls) True (Shift_done, Shift_done) (ix, iw1) = Some (True, ix', iw')"
    using sample_run by blast
  have fits: "kv_get_size (iw_base sample_iswa) + 2 ^ 0 \<le> 2 ^ 32" "kv_get_size (iw_swa sample_iswa) + 2 ^ 0 \<le> 2 ^ 32"
    by (simp_all add: sample_iswa(7,8))
  have refl: "(iswa_step False)\<^sup>*\<^sup>* (\<lambda>_. 0, sample_iswa) (\<lambda>_. 0, sample_iswa)" by simp
  have k: "(0 :: nat) < 32" by simp
  have u: "ub_n_tokens sample_ubatch = 1" "ub_pos sample_ubatch ! 0 = 10" "mask_pad 1 = 64" "(0 :: nat) < 1"
    by (simp_all add: sample_ubatch_def mask_pad_def KQ_MASK_PAD_def)
  obtain full window where
    "kv_set_input_kq_mask True False sample_ubatch (kx_n_kv (ix_base ix')) 1 (kx_n_kv (ix_base ix') * 64) (iw_base iw') = Some full"
    "kv_set_input_kq_mask True False sample_ubatch (kx_n_kv (ix_swa ix')) 1 (kx_n_kv (ix_swa ix') * 64) (iw_swa iw') = Some window"
    "\<forall>j < 1. \<not> False \<or> (\<lambda>_. 0) (ub_seq_id sample_ubatch ! j ! 0) \<le> ub_pos sample_ubatch ! j \<longrightarrow>
        row_visible window j (kx_n_kv (ix_swa ix')) (kv_view (iw_swa iw') ! 0)
        = {p \<in> row_visible full j (kx_n_kv (ix_base ix')) (kv_view (iw_base iw') ! 0). \<not> swa_masked (iw_swa sample_iswa) p (ub_pos sample_ubatch ! j)}"
    using swa_attention_as_full[OF sample_iswa(1) refl sample_iswa(3) r sample_iswa(5,6) k fits, of True False, unfolded u(1,3)] by blast
  moreover have "row_visible window 0 (kx_n_kv (ix_swa ix')) (kv_view (iw_swa iw') ! 0)
        = {p \<in> row_visible full 0 (kx_n_kv (ix_base ix')) (kv_view (iw_base iw') ! 0). \<not> swa_masked (iw_swa sample_iswa) p 10}"
    using mp[OF spec[OF calculation(3), of 0] u(4)] unfolding u(2) by simp
  ultimately show ?thesis using r(1,3) by blast
qed

end
