(* ===== verification/Kv_Dryrun.thy ===== *)
theory Kv_Dryrun
  imports Kv_Attend
begin

text \<open>
  The dry run of \<open>prepare\<close> over two micro-batches of a sliding-window cache. Placing a micro-batch
  purges every token of a sequence up to the newest one it overwrites, in whatever cell it stands;
  undoing it restores only the cells of the slots. So the dry run can drop tokens that the first
  micro-batch, written afterwards, is still to attend to.
\<close>

subsection \<open>Writing and undoing in a sliding-window cache\<close>

lemma apply_window:
  assumes kv: "window_cache kv" and ub: "ubatch_ok kv ub" and free: "cells_reusable ub idxs (kv_view kv ! 0)"
  shows "\<exists>kv' rm. kv_apply_ubatch (slot_of idxs) ub kv = Some kv' \<and> window_cache kv' \<and> same_conf kv kv'
    \<and> rm_tracks idxs (length idxs) (kv_view kv ! 0) rm
    \<and> kv_view kv' = [map (purge_cell {q. seq_id_ok q} rm) (write_tokens ub idxs (length idxs) (kv_view kv ! 0))]
    \<and> kv_heads kv' = [last idxs + 1]"
proof -
  obtain kv' rm where k: "kv_apply_ubatch (slot_of idxs) ub kv = Some kv'" "unified_cache kv'" "same_conf kv kv'"
    "rm_tracks idxs (length idxs) (kv_view kv ! 0) rm"
    "kv_view kv' = [map (purge_cell {q. seq_id_ok q} rm) (write_tokens ub idxs (length idxs) (kv_view kv ! 0))]"
    "kv_heads kv' = [last idxs + 1]"
    using apply_ubatch_over[OF window_tables(3)[OF kv] ub free] by blast
  have "no_shift kv'"
    unfolding no_shift_def k(5) nth_Cons_0
  proof (intro allI impI)
    fix p sh S assume "Cell p sh S \<in> set (map (purge_cell {q. seq_id_ok q} rm) (write_tokens ub idxs (length idxs) (kv_view kv ! 0)))"
    then obtain x S' where "x \<in> set (write_tokens ub idxs (length idxs) (kv_view kv ! 0))" "x = Cell p sh S'"
      unfolding set_map image_iff using purge_cell_Cell by metis
    then have "Cell p sh S' \<in> set (kv_view kv ! 0) \<or> (\<exists>j. token_cell ub j = Cell p sh S')"
      using subsetD[OF set_write_tokens, of x ub idxs "length idxs" "kv_view kv ! 0"] by auto
    then show "sh = 0" using window_tables(4)[OF kv] unfolding no_shift_def by (auto simp: token_cell_def)
  qed
  then have "window_cache kv'" using k(2,3) kv by (simp add: window_cache_def same_conf_def)
  then show ?thesis using k by blast
qed

lemma window_cells:
  assumes "window_cache kv" and "Cell p sh S \<in> set (kv_view kv ! 0)" and "q \<in> S"
  shows "seq_id_ok q"
proof -
  obtain c where c: "kv_view kv = [cells_view c]" "cells_ok c" by (rule unified_tables[OF window_tables(3)[OF assms(1)]]) blast
  then obtain i where i: "i < length (c_pos c)" "cells_view c ! i = Cell p sh S" using assms(2) by (auto simp: in_set_conv_nth)
  then have "q \<in> c_seq c ! i" using assms(3) by (simp add: view_Cell)
  then show ?thesis using cells_okD(5)[OF c(2) i(1)] by (auto simp: seq_set_ok_def)
qed

text \<open>Restoring a slot puts back its cells and leaves all others as they are.\<close>

lemma restore_window:
  assumes kv: "window_cache kv" and ix: "\<And>i. i \<in> set idxs \<Longrightarrow> i < length (kv_view kv ! 0)"
  shows "\<exists>saved. save_slot (slot_of idxs) kv = Some saved
    \<and> (\<forall>k. window_cache k \<longrightarrow> same_conf kv k \<longrightarrow> (\<exists>k'. restore_placed (slot_of idxs, kv_heads kv, saved) k = Some k'
        \<and> window_cache k' \<and> same_conf kv k'
        \<and> (\<forall>i < length (kv_view kv ! 0). kv_view k' ! 0 ! i = (if i \<in> set idxs then kv_view kv ! 0 ! i else kv_view k ! 0 ! i))))"
proof -
  obtain c h where c: "kv_tables kv = [c]" "kv_heads kv = [h]" "cells_ok c" "kv_view kv = [cells_view c]"
    "cells_size c = kv_get_size kv" "h \<le> kv_get_size kv" "\<And>p sh. Cell p sh {} \<notin> set (cells_view c)"
    "\<And>p sh S. Cell p sh S \<in> set (cells_view c) \<Longrightarrow> 0 \<le> p \<and> p < INT_MAX" by (rule unified_tables[OF window_tables(3)[OF kv]]) blast
  have still: "c_shift d ! i = 0" if "window_cache k" "kv_view k = [cells_view d]" "cells_ok d" "i < length (c_pos d)" for k d i
  proof (rule view_shift[OF that(3,4)])
    fix p sh S assume "cells_view d ! i = Cell p sh S"
    then have "Cell p sh S \<in> set (kv_view k ! 0)" using that(2,4) nth_mem[of i "cells_view d"] by simp
    then show "sh = 0" using window_tables(4)[OF that(1)] unfolding no_shift_def by blast
  qed
  have ix': "i < length (c_pos c)" if "i \<in> set idxs" for i using ix[OF that] by (simp add: c(4))
  obtain sv where sv: "cells_cp idxs c = Some sv"
    using still[OF kv c(4,3)] ix' by (auto simp: cells_cp_def list_all_iff Let_def)
  have save: "save_slot (slot_of idxs) kv = Some [sv]" using c(1) sv by (simp add: save_slot_def)
  have "\<exists>k'. restore_placed (slot_of idxs, kv_heads kv, [sv]) k = Some k' \<and> window_cache k' \<and> same_conf kv k'
      \<and> (\<forall>i < length (kv_view kv ! 0). kv_view k' ! 0 ! i = (if i \<in> set idxs then kv_view kv ! 0 ! i else kv_view k ! 0 ! i))"
    if k: "window_cache k" "same_conf kv k" for k
  proof -
    obtain d where d: "kv_tables k = [d]" "cells_ok d" "kv_view k = [cells_view d]" "cells_size d = kv_get_size k"
      "\<And>p sh. Cell p sh {} \<notin> set (cells_view d)" "\<And>p sh S. Cell p sh S \<in> set (cells_view d) \<Longrightarrow> 0 \<le> p \<and> p < INT_MAX"
      by (rule unified_tables[OF window_tables(3)[OF k(1)]]) blast
    have size: "kv_get_size k = kv_get_size kv" using k(2) by (simp add: same_conf_def)
    have len: "length (c_pos d) = length (c_pos c)" using c(5) d(4) size by (simp add: cells_size_def)
    obtain e where e: "cells_set idxs sv d = Some e" "cells_ok e" "length (c_pos e) = length (c_pos c)"
      "\<forall>i < length (c_pos c). cells_view e ! i = (if i \<in> set idxs then cells_view c ! i else cells_view d ! i)"
      using cells_restore[OF c(3) sv d(2) len] still[OF k(1) d(3,2)] ix' len by auto
    have from_old: "x \<in> set (cells_view c) \<or> x \<in> set (cells_view d)" if x: "x \<in> set (cells_view e)" for x
    proof -
      obtain i where i: "i < length (c_pos c)" "cells_view e ! i = x" using x e(3) by (auto simp: in_set_conv_nth)
      then show ?thesis using e(4) len nth_mem[of i "cells_view c"] nth_mem[of i "cells_view d"] by (auto split: if_splits)
    qed
    let ?k' = "put_stream 0 e h k"
    have v: "kv_view ?k' = [cells_view e]" using d(3) by simp
    have ss: "single_stream k" using window_tables(2)[OF k(1)] .
    have "Cell p s {} \<notin> set (cells_view e)" for p s using from_old c(7) d(5) by blast
    then have "table_ok (kv_get_size k) e" using e(2,3) c(5) size by (simp add: table_ok_def cells_size_def)
    then have ok: "kv_ok ?k'" using single_streamD(1,2)[OF ss] c(6) size by (intro kv_ok_put) simp_all
    have "p < INT_MAX" if "Cell p s S \<in> set (cells_view e)" for p s S using from_old[OF that] c(8) d(6) by blast
    then have "positions_fit ?k'" unfolding positions_fit_def v by auto
    moreover have "sh = 0" if "Cell p sh S \<in> set (cells_view e)" for p sh S
      using from_old[OF that] window_tables(4)[OF kv] window_tables(4)[OF k(1)] unfolding no_shift_def c(4) d(3) nth_Cons_0 by blast
    then have "no_shift ?k'" unfolding no_shift_def v nth_Cons_0 by blast
    ultimately have w: "window_cache ?k'" using ok k(1) single_streamD(2,3)[OF ss]
      by (simp add: window_cache_def unified_cache_def single_stream_def swa_defined_def)
    have "kv_get_size ?k' = kv_get_size kv" using view_size[OF ok] e(3) c(5) unfolding v by (simp add: cells_size_def)
    then have "same_conf kv ?k'" using k(2) by (simp add: same_conf_def)
    moreover have "restore_placed (slot_of idxs, kv_heads kv, [sv]) k = Some ?k'"
      using c(2) d(1) e(1) by (simp add: restore_placed_def restore_stream_def)
    ultimately show ?thesis using w e(4) v c(4) d(3) by auto
  qed
  then show ?thesis using save by blast
qed

subsection \<open>A dry run of two micro-batches\<close>

text \<open>The cells of the slots are as before their micro-batch; every other cell keeps what the second purge left.\<close>

lemma prepare_two:
  assumes kv: "window_cache kv" and ub: "ubatch_ok kv ub1" "ubatch_ok kv ub2"
    and a: "kv_find_slot ub1 False kv = Some (slot_of a)" "cells_reusable ub1 a (kv_view kv ! 0)"
    and k1: "kv_apply_ubatch (slot_of a) ub1 kv = Some k1"
    and b: "kv_find_slot ub2 False k1 = Some (slot_of b)" "cells_reusable ub2 b (kv_view k1 ! 0)"
  shows "\<exists>kv' rm. kv_prepare [ub1, ub2] kv = Some ([slot_of a, slot_of b], kv') \<and> window_cache kv' \<and> same_conf kv kv'
    \<and> rm_tracks b (length b) (kv_view k1 ! 0) rm
    \<and> (\<forall>i < length (kv_view kv ! 0). kv_view kv' ! 0 ! i = (if i \<in> set a then kv_view kv ! 0 ! i
        else if i \<in> set b then kv_view k1 ! 0 ! i else purge_cell {q. seq_id_ok q} rm (kv_view k1 ! 0 ! i)))"
proof -
  let ?n = "length (kv_view kv ! 0)"
  have w1: "window_cache k1" "same_conf kv k1" using apply_window[OF kv ub(1) a(2)] k1 by auto
  have len: "length (kv_view k ! 0) = ?n" if "window_cache k" "same_conf kv k" for k
    using view_size[OF window_tables(1)[OF kv]] view_size[OF window_tables(1)[OF that(1)]] that(2) by (simp add: same_conf_def)
  have ub2: "ubatch_ok k1 ub2" using ub(2) w1(2) by (simp add: ubatch_ok_def seq_in_range_def same_conf_def)
  obtain k2 rm where k2: "kv_apply_ubatch (slot_of b) ub2 k1 = Some k2" "window_cache k2" "same_conf k1 k2"
    "rm_tracks b (length b) (kv_view k1 ! 0) rm"
    "kv_view k2 = [map (purge_cell {q. seq_id_ok q} rm) (write_tokens ub2 b (length b) (kv_view k1 ! 0))]"
    using apply_window[OF w1(1) ub2 b(2)] by blast
  have ia: "i < ?n" if "i \<in> set a" for i using a(2) that by (simp add: cells_reusable_def)
  have ib: "i < length (kv_view k1 ! 0)" if "i \<in> set b" for i using b(2) that by (simp add: cells_reusable_def)
  obtain sa where sa: "save_slot (slot_of a) kv = Some sa"
    "\<And>k. window_cache k \<Longrightarrow> same_conf kv k \<Longrightarrow> \<exists>k'. restore_placed (slot_of a, kv_heads kv, sa) k = Some k'
        \<and> window_cache k' \<and> same_conf kv k'
        \<and> (\<forall>i < ?n. kv_view k' ! 0 ! i = (if i \<in> set a then kv_view kv ! 0 ! i else kv_view k ! 0 ! i))"
    using restore_window[OF kv ia] by blast
  obtain sb where sb: "save_slot (slot_of b) k1 = Some sb"
    "\<exists>k'. restore_placed (slot_of b, kv_heads k1, sb) k2 = Some k' \<and> window_cache k' \<and> same_conf k1 k'
        \<and> (\<forall>i < length (kv_view k1 ! 0). kv_view k' ! 0 ! i = (if i \<in> set b then kv_view k1 ! 0 ! i else kv_view k2 ! 0 ! i))"
    using restore_window[OF w1(1) ib] k2(2,3) by blast
  obtain k3 where k3: "restore_placed (slot_of b, kv_heads k1, sb) k2 = Some k3" "window_cache k3" "same_conf k1 k3"
    "\<forall>i < ?n. kv_view k3 ! 0 ! i = (if i \<in> set b then kv_view k1 ! 0 ! i else kv_view k2 ! 0 ! i)"
    using sb(2) len[OF w1] by auto
  obtain k4 where k4: "restore_placed (slot_of a, kv_heads kv, sa) k3 = Some k4" "window_cache k4" "same_conf kv k4"
    "\<forall>i < ?n. kv_view k4 ! 0 ! i = (if i \<in> set a then kv_view kv ! 0 ! i else kv_view k3 ! 0 ! i)"
    using sa(2)[OF k3(2) same_conf_trans[OF w1(2) k3(3)]] by blast
  have prep: "kv_prepare [ub1, ub2] kv = Some ([slot_of a, slot_of b], k4)"
    using a(1) k1 b(1) k2(1) sa(1) sb(1) k3(1) k4(1) by (simp add: kv_prepare_def)
  have "kv_view k2 ! 0 ! i = purge_cell {q. seq_id_ok q} rm (kv_view k1 ! 0 ! i)" if i: "i < ?n" "i \<notin> set b" for i
  proof -
    have "b ! j \<noteq> i" if "j < length b" for j using i(2) that by (metis nth_mem)
    then show ?thesis using i(1) len[OF w1] by (simp add: k2(5) write_tokens_other)
  qed
  then show ?thesis using prep k2(4) k3(4) k4(2,3,4) by auto
qed

lemma found_reusable:
  assumes "window_cache kv" and "ubatch_ok kv ub" and "kv_find_slot ub False kv = Some (slot_of idxs)"
  shows "cells_reusable ub idxs (kv_view kv ! 0)"
proof -
  have "slot_of idxs \<noteq> slot_none" "\<And>js. slot_of idxs = slot_of js \<Longrightarrow> idxs = js"
    by (simp_all add: slot_of_def slot_none_def)
  then show ?thesis using find_slot_unified[OF window_tables(3)[OF assms(1)] assms(2)] assms(3) by auto
qed

lemma prepare_two_found:
  assumes "kv_prepare [ub1, ub2] kv = Some ([si, sj], kv')" and "kv_apply_ubatch si ub1 kv = Some k1"
  shows "kv_find_slot ub1 False kv = Some si \<and> kv_find_slot ub2 False k1 = Some sj"
  using assms by (auto simp: kv_prepare_def bind_eq_Some_conv split: if_splits)

text \<open>
  Property C21. In a sliding-window cache, let a dry run find slots for two micro-batches, where the
  second overwrites, after the first is placed, a cell whose token of sequence \<open>q\<close> stands at position
  \<open>r\<close>. A token of \<open>q\<close> at a position \<open>p \<le> r\<close> outside the cells of both slots is then gone when the dry
  run has been undone, and still gone when the first micro-batch is written, although no micro-batch
  has used its cell. Nothing asks whether the first micro-batch still attends to \<open>p\<close>: in the witness
  its token at 5 sees position 2 within the window of 4.
\<close>

theorem dry_run_drops_window:
  assumes "window_cache kv" and "ubatch_ok kv ub1" and "ubatch_ok kv ub2"
    and "kv_prepare [ub1, ub2] kv = Some ([slot_of a, slot_of b], kv')" and "kv_apply_ubatch (slot_of a) ub1 kv = Some k1"
    and "i \<in> set b" and "kv_view k1 ! 0 ! i = Cell r sh {q}" and "p \<le> r"
    and "\<And>j. j \<in> set a \<union> set b \<Longrightarrow> \<not> cell_in p q (kv_view kv ! 0 ! j)" and "p \<notin> new_pos ub1 q"
  shows "p \<notin> qpos (kv_view kv' ! 0) q
    \<and> (\<exists>k1'. kv_apply_ubatch (slot_of a) ub1 kv' = Some k1' \<and> p \<notin> qpos (kv_view k1' ! 0) q)"
proof -
  let ?n = "length (kv_view kv ! 0)" and ?Q = "{q. seq_id_ok q}"
  note found = prepare_two_found[OF assms(4,5)]
  have ra: "cells_reusable ub1 a (kv_view kv ! 0)" using found_reusable[OF assms(1,2)] found by blast
  obtain rm1 where w1: "window_cache k1" "same_conf kv k1"
    "kv_view k1 = [map (purge_cell ?Q rm1) (write_tokens ub1 a (length a) (kv_view kv ! 0))]"
    using apply_window[OF assms(1,2) ra] assms(5) by auto
  have "ubatch_ok k1 ub2" using assms(3) w1(2) by (simp add: ubatch_ok_def seq_in_range_def same_conf_def)
  then have rb: "cells_reusable ub2 b (kv_view k1 ! 0)" using found_reusable[OF w1(1)] found by blast
  obtain rm where kv': "window_cache kv'" "same_conf kv kv'" "rm_tracks b (length b) (kv_view k1 ! 0) rm"
    "\<forall>j < ?n. kv_view kv' ! 0 ! j = (if j \<in> set a then kv_view kv ! 0 ! j
        else if j \<in> set b then kv_view k1 ! 0 ! j else purge_cell ?Q rm (kv_view k1 ! 0 ! j))"
    using prepare_two[OF assms(1,2,3) _ ra assms(5) _ rb] found assms(4) by auto
  have r: "r \<le> rm q" using kv'(3) assms(6,7) by (auto simp: rm_tracks_def in_set_conv_nth)
  have len: "length (kv_view kv' ! 0) = ?n"
    using view_size[OF window_tables(1)[OF assms(1)]] view_size[OF window_tables(1)[OF kv'(1)]] kv'(2) by (simp add: same_conf_def)
  have q: "seq_id_ok q"
  proof -
    have "i < length (kv_view k1 ! 0)" using rb assms(6) by (simp add: cells_reusable_def)
    then have "Cell r sh {q} \<in> set (kv_view k1 ! 0)" using nth_mem assms(7) by metis
    then show ?thesis using window_cells[OF w1(1)] by blast
  qed
  have "\<not> cell_in p q (kv_view kv' ! 0 ! j)" if j: "j < ?n" for j
  proof (cases "j \<in> set a")
    case False
    then have "a ! t \<noteq> j" if "t < length a" for t using that by (metis nth_mem)
    then have "kv_view k1 ! 0 ! j = purge_cell ?Q rm1 (kv_view kv ! 0 ! j)" using j by (simp add: w1(3) write_tokens_other)
    then show ?thesis using kv'(4) j False assms(8,9) r q by (auto simp: purge_cell_in)
  qed (use kv'(4) j assms(9) in simp)
  then have gone: "p \<notin> qpos (kv_view kv' ! 0) q" unfolding qpos_at len by blast
  have ub': "ubatch_ok kv' ub1" using assms(2) kv'(2) by (simp add: ubatch_ok_def seq_in_range_def same_conf_def)
  have "cells_reusable ub1 a (kv_view kv' ! 0)" using ra kv'(4) len by (simp add: cells_reusable_def)
  then obtain k1' rm' where k1': "kv_apply_ubatch (slot_of a) ub1 kv' = Some k1'" "cells_reusable ub1 a (kv_view kv' ! 0)"
    "kv_view k1' = [map (purge_cell ?Q rm') (write_tokens ub1 a (length a) (kv_view kv' ! 0))]"
    using apply_window[OF kv'(1) ub'] by blast
  have "qpos (write_tokens ub1 a (length a) (kv_view kv' ! 0)) q \<subseteq> qpos (kv_view kv' ! 0) q \<union> new_pos ub1 q"
    using k1'(2) by (subst qpos_write) (auto simp: qpos_at cell_in_iff new_pos_def cells_reusable_def)
  then have "qpos (kv_view k1' ! 0) q \<subseteq> qpos (kv_view kv' ! 0) q \<union> new_pos ub1 q"
    unfolding k1'(3) nth_Cons_0 qpos_purge by blast
  then show ?thesis using gone k1'(1) assms(10) by blast
qed

subsection \<open>Six cells and a window of four\<close>

text \<open>Where the search lands, with the usable cells as a predicate to compute with.\<close>

lemma find_slot_ring:
  assumes kv: "window_cache kv" and ub: "ubatch_ok kv ub" and v: "kv_view kv = [v]" and h: "kv_heads kv = [h]"
    and U: "\<And>i. i < length v \<Longrightarrow> U i \<longleftrightarrow> v ! i = Empty \<or> (\<exists>p sh q. v ! i = Cell p sh {q} \<and> swa_masked kv p (Max (qpos v q) + 1))"
    and head: "h \<le> card {i. i < length v \<and> v ! i \<noteq> Empty} + 2 * ub_n_tokens ub"
    and fits: "length v + 2 * ub_n_tokens ub < 2 ^ 32"
    and enough: "ub_n_tokens ub \<le> length (filter U (ring h (length v)))"
  shows "kv_find_slot ub False kv = Some (slot_of (take (ub_n_tokens ub) (filter U (ring h (length v)))))"
proof -
  let ?k = "ub_n_tokens ub" and ?q = "ub_seq_id_unq ub ! 0"
  note ss = window_tables(2)[OF kv] and u = window_tables(3)[OF kv]
  obtain c where c: "kv_tables kv = [c]" "cells_ok c" "kv_view kv = [cells_view c]" "cells_size c = kv_get_size kv" "h \<le> kv_get_size kv"
    using unified_tables[OF u] h by (metis list.inject)
  have cv: "cells_view c = v" using c(3) v by simp
  have n: "cells_size c = length v" unfolding cv[symmetric] by (simp add: cells_size_def)
  have q: "ub_seq_id_unq ub \<noteq> []" "seq_in_range kv ?q" and k: "0 < ?k" using ub by (auto simp: ubatch_ok_def)
  have st: "stream_of kv ?q = 0" by (rule single_streamD(8)[OF ss q(2)])
  have h': "h \<le> length v" using c(4,5) n by simp
  have kn: "?k \<le> length v" using enough length_filter_le[of U "ring h (length v)"] length_ring[OF h'] by simp
  have "can_use_cell kv c i = Some (usable kv c i)" if "i < length v" for i
    using single_streamD(3,4,9)[OF ss] that c(1,4) n by (intro can_use_cell_value[of "length v"]) auto
  moreover have "usable kv c i = U i" if "i < length v" for i
    unfolding U[OF that] usable_def cv by (auto simp: swa_masked_def seq_positions_qpos cv split: cell.splits)
  ultimately have search: "slot_search (can_use_cell kv c) False (length v) ?k h 0 [] = Some (Some (take ?k (filter U (ring h (length v)))))"
    using slot_search_value[of "length v" "can_use_cell kv c" U h ?k] h' k kn enough by simp
  have used: "cells_get_used c = card {i. i < length v \<and> v ! i \<noteq> Empty}"
    unfolding cells_get_used_def used_is_nonempty[OF c(2)] cv using cv by (metis length_view)
  have "card {i. i < length v \<and> v ! i \<noteq> Empty} \<le> card {..<length v}" by (intro card_mono) auto
  then have "\<not> h > u32_add (cells_get_used c) (2 * ?k mod 2 ^ 32)" using head fits used by (simp add: u32_add_def)
  then show ?thesis using q st c(1) h n kn single_streamD(2)[OF ss] search
    by (simp add: kv_find_slot_def slot_resize_def vector_resize_def Let_def slot_of_def)
qed

definition seq0_ubatch :: "int list \<Rightarrow> ubatch" where
  "seq0_ubatch ps = \<lparr>ub_n_tokens = length ps, ub_n_seqs_unq = 1, ub_pos = ps, ub_seq_id = map (\<lambda>_. [0]) ps, ub_seq_id_unq = [0]\<rparr>"

lemma seq0_ubatch_ok:
  "window_cache kv \<Longrightarrow> ps \<noteq> [] \<Longrightarrow> (\<And>p. p \<in> set ps \<Longrightarrow> 0 \<le> p \<and> p < INT_MAX) \<Longrightarrow> ubatch_ok kv (seq0_ubatch ps)"
  using window_conf[of kv 0] by (auto simp: ubatch_ok_def seq0_ubatch_def seq_id_ok_def)

lemma rm_tracks_empty:
  assumes "rm_tracks idxs (length idxs) v rm" and "\<forall>i \<in> set idxs. v ! i = Empty"
  shows "rm = (\<lambda>_. - 1)"
proof
  fix q
  show "rm q = - 1"
  proof (rule ccontr)
    assume "rm q \<noteq> - 1"
    then obtain j sh where "j < length idxs" "v ! (idxs ! j) = Cell (rm q) sh {q}" using assms(1) unfolding rm_tracks_def by blast
    then show False using assms(2) nth_mem[of j idxs] by auto
  qed
qed

lemma sample_window:
  "\<exists>kv. window_cache kv \<and> kv_swa_type kv = SWA_STANDARD \<and> kv_n_swa kv = 4 \<and> kv_heads kv = [2]
    \<and> kv_view kv = [[Cell 3 0 {0}, Cell 4 0 {0}, Cell 2 0 {0}, Empty, Empty, Empty]]"
proof -
  obtain k0 where "kv_init False True 6 1 1 4 SWA_STANDARD [] = Some k0" by (simp add: kv_init_def Let_def)
  then have k0: "window_cache k0 \<and> kv_swa_type k0 = SWA_STANDARD \<and> kv_n_swa k0 = 4 \<and> kv_n_pad k0 = 1 \<and> kv_get_size k0 = 6 \<and> kv_view k0 = [replicate 6 Empty]"
    by (rule kv_init_window) simp_all
  let ?ub = "seq0_ubatch [2, 3, 4]" and ?ix = "[2, 0, 1] :: nat list"
  have free: "cells_reusable ?ub ?ix (kv_view k0 ! 0)" using k0 by (simp add: cells_reusable_def seq0_ubatch_def)
  have w0: "window_cache k0" using k0 by simp
  have ok: "ubatch_ok k0 ?ub" by (rule seq0_ubatch_ok[OF w0]) auto
  obtain kv rm where kv: "window_cache kv" "same_conf k0 kv" "rm_tracks ?ix (length ?ix) (kv_view k0 ! 0) rm" "kv_heads kv = [last ?ix + 1]"
    "kv_view kv = [map (purge_cell {q. seq_id_ok q} rm) (write_tokens ?ub ?ix (length ?ix) (kv_view k0 ! 0))]"
    using apply_window[OF w0 ok free] by blast
  have rm: "rm = (\<lambda>_. - 1)" by (rule rm_tracks_empty[OF kv(3)]) (use k0 in simp)
  have w: "write_tokens ?ub ?ix (length ?ix) (kv_view k0 ! 0) = [Cell 3 0 {0}, Cell 4 0 {0}, Cell 2 0 {0}, Empty, Empty, Empty]"
    using k0 by (simp add: write_tokens_def token_cell_def seq0_ubatch_def eval_nat_numeral)
  have "kv_view kv = [[Cell 3 0 {0}, Cell 4 0 {0}, Cell 2 0 {0}, Empty, Empty, Empty]]"
    unfolding kv(5) w by (simp add: purge_cell_def rm)
  then show ?thesis using kv(1,2,4) k0 by (auto simp: same_conf_def)
qed

lemma sample_masked: "kv_swa_type kv = SWA_STANDARD \<Longrightarrow> kv_n_swa kv = 4 \<Longrightarrow> swa_masked kv p x \<longleftrightarrow> 0 \<le> p \<and> 4 \<le> x - p"
  by (auto simp: swa_masked_def kv_is_masked_swa_def is_masked_swa_def i32_of_u32_def)

lemma sample_max: "Max (qpos [Cell 3 0 {0}, Cell 4 0 {0}, Cell 2 0 {0}, Empty, Empty, Empty] 0) = 4"
    "Max (qpos [Cell 3 0 {0}, Cell 4 0 {0}, Cell 2 0 {0}, Cell 5 0 {0}, Cell 6 0 {0}, Empty] 0) = 6"
proof -
  have "qpos [Cell 3 0 {0}, Cell 4 0 {0}, Cell 2 0 {0}, Empty, Empty, Empty] 0 = {3, 4, 2}" by (auto simp: qpos_def)
  then show "Max (qpos [Cell 3 0 {0}, Cell 4 0 {0}, Cell 2 0 {0}, Empty, Empty, Empty] 0) = 4" by simp
  have "qpos [Cell 3 0 {0}, Cell 4 0 {0}, Cell 2 0 {0}, Cell 5 0 {0}, Cell 6 0 {0}, Empty] 0 = {3, 4, 2, 5, 6}"
    by (auto simp: qpos_def)
  then show "Max (qpos [Cell 3 0 {0}, Cell 4 0 {0}, Cell 2 0 {0}, Cell 5 0 {0}, Cell 6 0 {0}, Empty] 0) = 6" by simp
qed

lemma less_6_cases: "i < (6::nat) \<longleftrightarrow> i = 0 \<or> i = 1 \<or> i = 2 \<or> i = 3 \<or> i = 4 \<or> i = 5"
  by auto

lemma sample_rings: "length v = 6 \<Longrightarrow> ring 2 (length v) = [2, 3, 4, 5, 0, 1]" "length v = 6 \<Longrightarrow> ring 5 (length v) = [5, 0, 1, 2, 3, 4]"
  by (simp_all add: ring_def upt_rec)

text \<open>The two placements: the first into the cells 3 and 4, the second into the cells 5 and 0.\<close>

lemma sample_places:
  assumes kv: "window_cache kv" "kv_swa_type kv = SWA_STANDARD" "kv_n_swa kv = 4" "kv_heads kv = [2]"
    and v: "kv_view kv = [[Cell 3 0 {0}, Cell 4 0 {0}, Cell 2 0 {0}, Empty, Empty, Empty]]"
  shows "\<exists>k1. kv_find_slot (seq0_ubatch [5, 6]) False kv = Some (slot_of [3, 4])
    \<and> kv_apply_ubatch (slot_of [3, 4]) (seq0_ubatch [5, 6]) kv = Some k1 \<and> window_cache k1
    \<and> kv_view k1 = [[Cell 3 0 {0}, Cell 4 0 {0}, Cell 2 0 {0}, Cell 5 0 {0}, Cell 6 0 {0}, Empty]]
    \<and> kv_find_slot (seq0_ubatch [7, 8]) False k1 = Some (slot_of [5, 0])"
proof -
  let ?v = "[Cell 3 0 {0}, Cell 4 0 {0}, Cell 2 0 {0}, Empty, Empty, Empty]"
  let ?w = "[Cell 3 0 {0}, Cell 4 0 {0}, Cell 2 0 {0}, Cell 5 0 {0}, Cell 6 0 {0}, Empty]"
  have ok: "ubatch_ok k (seq0_ubatch [5, 6])" "ubatch_ok k (seq0_ubatch [7, 8])" if "window_cache k" for k
    by (rule seq0_ubatch_ok[OF that]; auto)+
  have two: "ub_n_tokens (seq0_ubatch [5, 6]) = 2" "ub_n_tokens (seq0_ubatch [7, 8]) = 2" by (simp_all add: seq0_ubatch_def)
  have U1: "3 \<le> i \<longleftrightarrow> ?v ! i = Empty \<or> (\<exists>p sh q. ?v ! i = Cell p sh {q} \<and> swa_masked kv p (Max (qpos ?v q) + 1))" if "i < length ?v" for i
    using that less_6_cases[of i] by (auto simp: sample_masked[OF kv(2,3)] sample_max)
  have f1: "kv_find_slot (seq0_ubatch [5, 6]) False kv = Some (slot_of [3, 4])"
    using find_slot_ring[OF kv(1) ok(1)[OF kv(1)] v kv(4) U1] sample_rings(1)[of ?v] by (simp add: two)
  have free: "cells_reusable (seq0_ubatch [5, 6]) [3, 4] (kv_view kv ! 0)" by (simp add: cells_reusable_def v seq0_ubatch_def)
  obtain k1 rm where k1: "kv_apply_ubatch (slot_of [3, 4]) (seq0_ubatch [5, 6]) kv = Some k1" "window_cache k1" "same_conf kv k1"
    "rm_tracks [3, 4] (length [3, 4 :: nat]) (kv_view kv ! 0) rm" "kv_heads k1 = [last [3, 4] + 1]"
    "kv_view k1 = [map (purge_cell {q. seq_id_ok q} rm) (write_tokens (seq0_ubatch [5, 6]) [3, 4] (length [3, 4 :: nat]) (kv_view kv ! 0))]"
    using apply_window[OF kv(1) ok(1)[OF kv(1)] free] by blast
  have rm: "rm = (\<lambda>_. - 1)" by (rule rm_tracks_empty[OF k1(4)]) (simp add: v)
  have w: "write_tokens (seq0_ubatch [5, 6]) [3, 4] (length [3, 4 :: nat]) (kv_view kv ! 0) = ?w"
    by (simp add: v write_tokens_def token_cell_def seq0_ubatch_def)
  have v1: "kv_view k1 = [?w]" unfolding k1(6) w by (simp add: purge_cell_def rm)
  have conf: "kv_swa_type k1 = SWA_STANDARD" "kv_n_swa k1 = 4" using k1(3) kv(2,3) by (simp_all add: same_conf_def)
  have U2: "i \<in> {0, 2, 5} \<longleftrightarrow> ?w ! i = Empty \<or> (\<exists>p sh q. ?w ! i = Cell p sh {q} \<and> swa_masked k1 p (Max (qpos ?w q) + 1))" if "i < length ?w" for i
    using that less_6_cases[of i] by (auto simp: sample_masked[OF conf] sample_max)
  have "(i < length ?w \<and> ?w ! i \<noteq> Empty) = (i \<in> {0, 1, 2, 3, 4})" for i using less_6_cases[of i] by auto
  then have "{i. i < length ?w \<and> ?w ! i \<noteq> Empty} = {0, 1, 2, 3, 4}" by blast
  then have occ: "card {i. i < length ?w \<and> ?w ! i \<noteq> Empty} = 5" by simp
  have h1: "kv_heads k1 = [5]" using k1(5) by simp
  have f2: "kv_find_slot (seq0_ubatch [7, 8]) False k1 = Some (slot_of [5, 0])"
    using find_slot_ring[OF k1(2) ok(2)[OF k1(2)] v1 h1 U2] sample_rings(2)[of ?w] occ by (simp add: two)
  show ?thesis using f1 k1(1,2) v1 f2 by blast
qed

lemma dry_run_drops_window_witness:
  "\<exists>kv si sj kv' k1. kv_view kv = [[Cell 3 0 {0}, Cell 4 0 {0}, Cell 2 0 {0}, Empty, Empty, Empty]] \<and> \<not> swa_masked kv 2 5
    \<and> kv_prepare [seq0_ubatch [5, 6], seq0_ubatch [7, 8]] kv = Some ([si, sj], kv')
    \<and> kv_apply_ubatch si (seq0_ubatch [5, 6]) kv' = Some k1 \<and> 2 \<notin> qpos (kv_view k1 ! 0) 0"
proof -
  let ?u = "seq0_ubatch [5, 6]" and ?w = "seq0_ubatch [7, 8]"
  obtain kv where kv: "window_cache kv" "kv_swa_type kv = SWA_STANDARD" "kv_n_swa kv = 4" "kv_heads kv = [2]"
    "kv_view kv = [[Cell 3 0 {0}, Cell 4 0 {0}, Cell 2 0 {0}, Empty, Empty, Empty]]" using sample_window by blast
  obtain k1 where k1: "kv_find_slot ?u False kv = Some (slot_of [3, 4])" "kv_apply_ubatch (slot_of [3, 4]) ?u kv = Some k1" "window_cache k1"
    "kv_view k1 = [[Cell 3 0 {0}, Cell 4 0 {0}, Cell 2 0 {0}, Cell 5 0 {0}, Cell 6 0 {0}, Empty]]"
    "kv_find_slot ?w False k1 = Some (slot_of [5, 0])" using sample_places[OF kv] by blast
  have ok: "ubatch_ok k ?u" "ubatch_ok k ?w" if "window_cache k" for k by (rule seq0_ubatch_ok[OF that]; auto)+
  obtain kv' where p: "kv_prepare [?u, ?w] kv = Some ([slot_of [3, 4], slot_of [5, 0]], kv')"
    using prepare_two[OF kv(1) ok[OF kv(1)] k1(1) found_reusable[OF kv(1) ok(1)[OF kv(1)] k1(1)] k1(2,5) found_reusable[OF k1(3) ok(2)[OF k1(3)] k1(5)]]
    by blast
  have "\<not> cell_in 2 0 (kv_view kv ! 0 ! j)" if "j \<in> set [3, 4] \<union> set [5, 0]" for j using that by (auto simp: kv(5))
  moreover have "2 \<noteq> ub_pos ?u ! j" if "j < ub_n_tokens ?u" for j
    using that by (cases j) (simp_all add: seq0_ubatch_def)
  then have "2 \<notin> new_pos ?u 0" unfolding new_pos_def by blast
  ultimately obtain k where "kv_apply_ubatch (slot_of [3, 4]) ?u kv' = Some k" "2 \<notin> qpos (kv_view k ! 0) 0"
    using dry_run_drops_window[OF kv(1) ok[OF kv(1)] p k1(2), of 0 3 0 0 2] by (auto simp: k1(4))
  then show ?thesis using p kv(5) sample_masked[OF kv(2,3), of 2 5] by auto
qed

end
