(* ===== verification/Batch_Alloc.thy ===== *)
theory Batch_Alloc
  imports Kv_Slots
begin

text \<open>
  Sanitizing a batch and splitting it into micro-batches (\<^verbatim>\<open>src/llama-batch.cpp\<close>, class
  \<open>llama_batch_allocr\<close>). An array of the batch is a list, a null pointer \<open>None\<close>; reading past an array
  or through a null pointer, a failed assertion and a signed overflow are \<open>None\<close> results. The vectors that
  hold generated fields are the lists of the batch itself. Debug output is left out.
\<close>

subsection \<open>Batches and their splitter\<close>

record batch =
  bt_n_tokens :: nat
  bt_token :: "int list option"
  bt_embd :: "u32 list option"
  bt_pos :: "int list option"
  bt_n_seq_id :: "int list option"
  bt_seq_id :: "int list list option"
  bt_logits :: "int list option"

definition batch_empty :: batch where
  "batch_empty = \<lparr>bt_n_tokens = 0, bt_token = None, bt_embd = None, bt_pos = None, bt_n_seq_id = None,
     bt_seq_id = None, bt_logits = None\<rparr>"

text \<open>The rest of a micro-batch: \<open>n_seq_id[i]\<close> is the length of the row \<open>seq_id[i]\<close>.\<close>

record full_ubatch = ubatch +
  fu_equal_seqs :: bool
  fu_n_seq_tokens :: nat
  fu_n_seqs :: nat
  fu_token :: "int list option"
  fu_embd :: "u32 list option"
  fu_seq_idx :: "int list"
  fu_output :: "int list"

definition ubatch_empty :: full_ubatch where
  "ubatch_empty = \<lparr>ub_n_tokens = 0, ub_n_seqs_unq = 0, ub_pos = [], ub_seq_id = [], ub_seq_id_unq = [], fu_equal_seqs = False,
     fu_n_seq_tokens = 0, fu_n_seqs = 0, fu_token = None, fu_embd = None, fu_seq_idx = [], fu_output = []\<rparr>"

record allocr =
  ba_batch :: batch
  ba_n_pos_per_embd :: nat
  ba_n_embd :: nat
  ba_n_seq_max :: nat
  ba_n_outputs :: nat
  ba_seq_id_unq :: "int list"
  ba_seq_idx :: "int list"
  ba_has_cpl :: bool
  ba_seq_pos :: "int \<Rightarrow> int set"
  ba_seq_cpl :: "int \<Rightarrow> int \<Rightarrow> bool"
  ba_seq_set :: "int set list"
  ba_seq_set_map :: "int set \<Rightarrow> nat list"
  ba_out_ids :: "nat list"
  ba_n_used :: nat
  ba_used :: "bool list"

definition no_seq_idx :: "int list" where "no_seq_idx = replicate 256 (- 1)"

text \<open>What \<open>init\<close> asks the memory for: the first and the last position of a sequence.\<close>

record batch_memory =
  bm_pos_min :: "int \<Rightarrow> int"
  bm_pos_max :: "int \<Rightarrow> int"

subsection \<open>Reading the arrays\<close>

definition arr :: "'a list option \<Rightarrow> 'a list" where
  "arr x = (case x of None \<Rightarrow> [] | Some xs \<Rightarrow> xs)"

text \<open>The sequences \<open>seq_id[i][0], ..., seq_id[i][n_seq_id[i] - 1]\<close> of token \<open>i\<close>, and \<open>seq_id[i][0]\<close>.\<close>

definition tok_seqs :: "batch \<Rightarrow> nat \<Rightarrow> int list option" where
  "tok_seqs b i = do {
     n \<leftarrow> read_at i (arr (bt_n_seq_id b));
     row \<leftarrow> read_at i (arr (bt_seq_id b));
     require (n \<le> int (length row)) (Some (take (nat n) row)) }"

definition tok_seq0 :: "batch \<Rightarrow> nat \<Rightarrow> int option" where
  "tok_seq0 b i = do { row \<leftarrow> read_at i (arr (bt_seq_id b)); read_at 0 row }"

subsection \<open>State resets\<close>

definition alloc_new :: "nat \<Rightarrow> allocr" where
  "alloc_new n_pos_per_embd = \<lparr>ba_batch = batch_empty, ba_n_pos_per_embd = n_pos_per_embd, ba_n_embd = 0, ba_n_seq_max = 0,
     ba_n_outputs = 0, ba_seq_id_unq = [], ba_seq_idx = no_seq_idx, ba_has_cpl = False, ba_seq_pos = (\<lambda>_. {}),
     ba_seq_cpl = (\<lambda>_ _. False), ba_seq_set = [], ba_seq_set_map = (\<lambda>_. []), ba_out_ids = [], ba_n_used = 0, ba_used = []\<rparr>"

definition alloc_clear :: "allocr \<Rightarrow> allocr" where
  "alloc_clear ba = ba\<lparr>ba_n_outputs := 0, ba_batch := batch_empty, ba_seq_id_unq := [], ba_seq_pos := (\<lambda>_. {}),
     ba_seq_cpl := (\<lambda>_ _. False), ba_seq_set := [], ba_seq_set_map := (\<lambda>_. []), ba_seq_idx := no_seq_idx\<rparr>"

definition get_n_tokens :: "allocr \<Rightarrow> nat" where
  "get_n_tokens ba = bt_n_tokens (ba_batch ba)"

definition split_reset :: "allocr \<Rightarrow> allocr" where
  "split_reset ba = ba\<lparr>ba_out_ids := [], ba_n_used := 0, ba_used := replicate (get_n_tokens ba) False\<rparr>"

definition alloc_seq_pos_min :: "int \<Rightarrow> allocr \<Rightarrow> int" where
  "alloc_seq_pos_min q ba = (if ba_seq_pos ba q = {} then - 1 else Min (ba_seq_pos ba q))"

definition alloc_seq_pos_max :: "int \<Rightarrow> allocr \<Rightarrow> int" where
  "alloc_seq_pos_max q ba = (if ba_seq_pos ba q = {} then - 1 else Max (ba_seq_pos ba q))"

subsection \<open>Validation of the input\<close>

definition tokens_valid :: "nat \<Rightarrow> batch \<Rightarrow> bool option" where
  "tokens_valid n_vocab b = (case bt_token b of None \<Rightarrow> Some True
     | Some ts \<Rightarrow> require (bt_n_tokens b \<le> length ts) (Some (list_all (\<lambda>t. 0 \<le> t \<and> t < int n_vocab) (take (bt_n_tokens b) ts))))"

definition seqs_valid :: "nat \<Rightarrow> batch \<Rightarrow> bool option" where
  "seqs_valid n_seq_max b = (if bt_seq_id b = None then Some True else do {
     rows \<leftarrow> gather (tok_seqs b) [0..<bt_n_tokens b];
     Some (list_all (list_all (\<lambda>q. 0 \<le> q \<and> q < int n_seq_max)) rows) })"

subsection \<open>Missing fields\<close>

definition fill_n_seq_id :: "batch \<Rightarrow> batch" where
  "fill_n_seq_id b = (if bt_n_seq_id b = None then b\<lparr>bt_n_seq_id := Some (replicate (bt_n_tokens b) 1)\<rparr> else b)"

definition fill_seq_id :: "batch \<Rightarrow> batch" where
  "fill_seq_id b = (if bt_seq_id b = None then b\<lparr>bt_seq_id := Some (replicate (bt_n_tokens b) [0])\<rparr> else b)"

text \<open>One token: it takes the next position of its first sequence, and all its sequences continue after it.\<close>

definition gen_pos_step :: "batch \<Rightarrow> nat \<Rightarrow> int list \<times> int list \<Rightarrow> (int list \<times> int list) option" where
  "gen_pos_step b i = (\<lambda>(p0, pos). do {
     q \<leftarrow> tok_seq0 b i;
     p \<leftarrow> require (0 \<le> q) (read_at (nat q) p0);
     seqs \<leftarrow> tok_seqs b i;
     require (i32_ok (p + 1) \<and> (\<forall>s \<in> set seqs. 0 \<le> s \<and> nat s < length p0))
       (Some (fold (\<lambda>s p0. p0[nat s := p + 1]) seqs p0, pos @ [p])) })"

definition fill_pos :: "batch_memory option \<Rightarrow> nat \<Rightarrow> batch \<Rightarrow> batch option" where
  "fill_pos mem n_seq_max b = (if bt_pos b \<noteq> None then Some b else
    (let p0 = map (\<lambda>s. case mem of None \<Rightarrow> 0 | Some m \<Rightarrow> bm_pos_max m (int s) + 1) [0..<n_seq_max] in
     require (list_all i32_ok p0) (do {
       (_, pos) \<leftarrow> fold_opt (gen_pos_step b) [0..<bt_n_tokens b] (p0, []);
       Some (b\<lparr>bt_pos := Some pos\<rparr>) })))"

definition fill_logits :: "bool \<Rightarrow> batch \<Rightarrow> batch option" where
  "fill_logits output_all b = (let n = bt_n_tokens b in case bt_logits b of
     None \<Rightarrow> Some (b\<lparr>bt_logits := Some (if output_all then replicate n 1 else (replicate n 0)[n - 1 := 1])\<rparr>)
   | Some ls \<Rightarrow> if output_all
       then require (n \<le> length ls) (Some (if list_ex (\<lambda>x. x = 0) (take n ls) then b\<lparr>bt_logits := Some (replicate n 1)\<rparr> else b))
       else Some b)"

subsection \<open>Statistics\<close>

definition count_outputs :: "batch \<Rightarrow> nat option" where
  "count_outputs b = require (bt_n_tokens b \<le> length (arr (bt_logits b)))
     (Some (length (filter (\<lambda>x. x \<noteq> 0) (take (bt_n_tokens b) (arr (bt_logits b))))))"

text \<open>The positions of the sequences of token \<open>i\<close>, and the coupling of all of them to the first.\<close>

definition note_pair :: "int \<Rightarrow> int \<Rightarrow> nat \<times> int \<Rightarrow> allocr \<Rightarrow> allocr" where
  "note_pair p s0 = (\<lambda>(s, s1) ba.
     let ba = ba\<lparr>ba_seq_pos := (ba_seq_pos ba)(s1 := insert p (ba_seq_pos ba s1))\<rparr> in
     if s > 0 then ba\<lparr>ba_seq_cpl := (ba_seq_cpl ba)(s1 := (ba_seq_cpl ba s1)(s0 := True)), ba_has_cpl := True\<rparr> else ba)"

definition note_token :: "nat \<Rightarrow> allocr \<Rightarrow> allocr option" where
  "note_token i ba = do {
     s0 \<leftarrow> tok_seq0 (ba_batch ba) i;
     seqs \<leftarrow> tok_seqs (ba_batch ba) i;
     p \<leftarrow> read_at i (arr (bt_pos (ba_batch ba)));
     require (list_all seq_id_ok seqs) (Some (fold (note_pair p s0) (enumerate 0 seqs) ba)) }"

definition note_set :: "nat \<Rightarrow> allocr \<Rightarrow> allocr option" where
  "note_set i ba = do {
     seqs \<leftarrow> tok_seqs (ba_batch ba) i;
     let cur = set seqs;
     Some (ba\<lparr>ba_seq_set := ba_seq_set ba @ [cur], ba_seq_set_map := (ba_seq_set_map ba)(cur := ba_seq_set_map ba cur @ [i])\<rparr>) }"

text \<open>The unique sequences in increasing order, with their indices.\<close>

definition index_seqs :: "nat \<Rightarrow> int set \<Rightarrow> int list \<times> int list \<Rightarrow> int list \<times> int list" where
  "index_seqs n_seq_max unq = fold (\<lambda>s (idx, ids). if int s \<in> unq then (idx[s := int (length ids)], ids @ [int s]) else (idx, ids)) [0..<n_seq_max]"

definition alloc_stats :: "nat \<Rightarrow> nat \<Rightarrow> allocr \<Rightarrow> allocr option" where
  "alloc_stats n_embd n_seq_max ba = do {
     let ba = ba\<lparr>ba_n_embd := n_embd, ba_n_seq_max := n_seq_max\<rparr>;
     outs \<leftarrow> count_outputs (ba_batch ba);
     let ba = ba\<lparr>ba_n_outputs := ba_n_outputs ba + outs, ba_has_cpl := False\<rparr>;
     ba \<leftarrow> fold_opt note_token [0..<get_n_tokens ba] ba;
     ba \<leftarrow> fold_opt note_set [0..<get_n_tokens ba] ba;
     let (idx, ids) = index_seqs n_seq_max (\<Union> (set (ba_seq_set ba))) (ba_seq_idx ba, ba_seq_id_unq ba);
     Some (ba\<lparr>ba_seq_idx := idx, ba_seq_id_unq := ids\<rparr>) }"

subsection \<open>Consistency checks\<close>

definition seq_consistent :: "batch_memory option \<Rightarrow> allocr \<Rightarrow> nat \<Rightarrow> bool option" where
  "seq_consistent mem ba s = (let q = int s in
     if ba_seq_pos ba q = {} then Some True else do {
       let p0 = (case mem of None \<Rightarrow> - 1 | Some m \<Rightarrow> bm_pos_max m q);
       ok \<leftarrow> (if p0 \<ge> 0
         then (if bt_token (ba_batch ba) \<noteq> None then Some (alloc_seq_pos_min q ba = p0 + 1)
               else require (bt_embd (ba_batch ba) \<noteq> None) (Some (\<not> (alloc_seq_pos_min q ba \<noteq> p0 \<and> alloc_seq_pos_min q ba \<noteq> p0 + 1))))
         else Some True);
       if \<not> ok then Some False
       else require (i32_ok (alloc_seq_pos_max q ba - alloc_seq_pos_min q ba + 1))
         (Some (\<not> alloc_seq_pos_max q ba - alloc_seq_pos_min q ba + 1 > int (card (ba_seq_pos ba q)))) })"

fun all_checks :: "('a \<Rightarrow> bool option) \<Rightarrow> 'a list \<Rightarrow> bool option" where
  "all_checks f [] = Some True"
| "all_checks f (x # xs) = do { ok \<leftarrow> f x; if \<not> ok then Some False else all_checks f xs }"

definition pair_consistent :: "batch_memory \<Rightarrow> allocr \<Rightarrow> nat \<times> nat \<Rightarrow> bool" where
  "pair_consistent m ba = (\<lambda>(s0, s1). ba_seq_cpl ba (int s0) (int s1) \<longrightarrow>
     \<not> (bm_pos_min m (int s0) \<noteq> bm_pos_min m (int s1) \<or> bm_pos_max m (int s0) \<noteq> bm_pos_max m (int s1)))"

definition coupled_consistent :: "batch_memory option \<Rightarrow> nat \<Rightarrow> allocr \<Rightarrow> bool" where
  "coupled_consistent mem n_seq_max ba = (case mem of None \<Rightarrow> True
     | Some m \<Rightarrow> list_all (pair_consistent m ba) (List.product [0..<n_seq_max] [0..<n_seq_max]))"

text \<open>
  The last loop: \<open>cur_seq_set\<close> and \<open>cur_seq_pos\<close>, with one step per token and sequence of it; a token
  that is refused ends it with \<open>False\<close>.
\<close>

definition order_step :: "int set list \<Rightarrow> nat \<Rightarrow> int \<Rightarrow> int \<Rightarrow> (int \<Rightarrow> int set) \<times> (int \<Rightarrow> int) \<Rightarrow> ((int \<Rightarrow> int set) \<times> (int \<Rightarrow> int)) option" where
  "order_step sets i p q = (\<lambda>(cur_set, cur_pos).
     let cur_set = cur_set(q := cur_set q \<inter> sets ! i) in
     if cur_set q = {} then None
     else if p < cur_pos q then None
     else Some (cur_set, cur_pos))"

definition order_token :: "allocr \<Rightarrow> nat \<Rightarrow> (int \<Rightarrow> int set) \<times> (int \<Rightarrow> int) \<Rightarrow> ((int \<Rightarrow> int set) \<times> (int \<Rightarrow> int)) option" where
  "order_token ba i st = do {
     p \<leftarrow> read_at i (arr (bt_pos (ba_batch ba)));
     seqs \<leftarrow> tok_seqs (ba_batch ba) i;
     fold_opt (order_step (ba_seq_set ba) i p) seqs st }"

definition order_checks :: "allocr \<Rightarrow> bool" where
  "order_checks ba \<longleftrightarrow> fold_opt (order_token ba) [0..<get_n_tokens ba] (\<lambda>_. {0..<LLAMA_MAX_SEQ}, \<lambda>_. - 1) \<noteq> None"

subsection \<open>\<open>init\<close>\<close>

definition alloc_checks :: "batch_memory option \<Rightarrow> nat \<Rightarrow> allocr \<Rightarrow> (bool \<times> allocr) option" where
  "alloc_checks mem n_seq_max ba = do {
     ok \<leftarrow> all_checks (seq_consistent mem ba) [0..<n_seq_max];
     if \<not> ok then Some (False, ba)
     else if \<not> coupled_consistent mem n_seq_max ba then Some (False, ba)
     else if \<not> order_checks ba then Some (False, ba)
     else Some (True, split_reset ba) }"

definition alloc_init :: "nat \<Rightarrow> batch_memory option \<Rightarrow> nat \<Rightarrow> nat \<Rightarrow> bool \<Rightarrow> batch \<Rightarrow> allocr \<Rightarrow> (bool \<times> allocr) option" where
  "alloc_init n_vocab mem n_embd n_seq_max output_all batch_inp ba =
    (let ba = (alloc_clear ba)\<lparr>ba_batch := batch_inp\<rparr> in
     require (bt_n_tokens batch_inp > 0)
     (if int n_seq_max > LLAMA_MAX_SEQ then Some (False, ba) else do {
       ok \<leftarrow> tokens_valid n_vocab batch_inp;
       if \<not> ok then Some (False, ba) else do {
         ok \<leftarrow> seqs_valid n_seq_max batch_inp;
         if \<not> ok then Some (False, ba) else do {
           b \<leftarrow> fill_pos mem n_seq_max (fill_seq_id (fill_n_seq_id batch_inp));
           b \<leftarrow> fill_logits output_all b;
           ba \<leftarrow> alloc_stats n_embd n_seq_max (ba\<lparr>ba_batch := b\<rparr>);
           alloc_checks mem n_seq_max ba } } }))"

subsection \<open>Building a micro-batch\<close>

definition embd_row :: "nat \<Rightarrow> u32 list \<Rightarrow> nat \<Rightarrow> u32 list option" where
  "embd_row n_embd es i = require ((i + 1) * n_embd \<le> length es) (Some (take n_embd (drop (i * n_embd) es)))"

definition gather_field :: "(nat \<Rightarrow> 'a list \<Rightarrow> 'b option) \<Rightarrow> nat list \<Rightarrow> 'a list option \<Rightarrow> 'b list option option" where
  "gather_field rd idxs field = (case field of None \<Rightarrow> Some None | Some xs \<Rightarrow> map_option Some (gather (\<lambda>i. rd i xs) idxs))"

definition n_pos_cur :: "allocr \<Rightarrow> nat" where
  "n_pos_cur ba = (if bt_embd (ba_batch ba) \<noteq> None then ba_n_pos_per_embd ba else 1)"

definition ubatch_add :: "nat list \<Rightarrow> nat \<Rightarrow> bool \<Rightarrow> allocr \<Rightarrow> (full_ubatch \<times> allocr) option" where
  "ubatch_add idxs n_seqs equal_seqs ba = (let b = ba_batch ba; n_tokens = length idxs in
     require (n_seqs \<noteq> 0 \<and> n_tokens mod n_seqs = 0) (do {
       token \<leftarrow> gather_field read_at idxs (bt_token b);
       embd \<leftarrow> gather_field (\<lambda>i es. embd_row (ba_n_embd ba) es i) idxs (bt_embd b);
       pos \<leftarrow> gather (\<lambda>(j, i). read_at (j * bt_n_tokens b + i) (arr (bt_pos b))) (List.product [0..<n_pos_cur ba] idxs);
       seqs \<leftarrow> gather (tok_seqs b) idxs;
       outs \<leftarrow> gather (\<lambda>i. read_at i (arr (bt_logits b))) idxs;
       let (idx, ids) = index_seqs (ba_n_seq_max ba) (\<Union> (set ` set seqs)) (no_seq_idx, []);
       Some (\<lparr>ub_n_tokens = n_tokens, ub_n_seqs_unq = length ids, ub_pos = pos, ub_seq_id = seqs, ub_seq_id_unq = ids,
           fu_equal_seqs = equal_seqs, fu_n_seq_tokens = n_tokens div n_seqs, fu_n_seqs = n_seqs, fu_token = token,
           fu_embd = map_option concat embd, fu_seq_idx = idx, fu_output = outs\<rparr>,
         ba\<lparr>ba_out_ids := ba_out_ids ba @ map fst (filter (\<lambda>(i, out). out \<noteq> 0) (zip idxs outs))\<rparr>) }))"

definition ubatch_reserve :: "nat \<Rightarrow> nat \<Rightarrow> allocr \<Rightarrow> (full_ubatch \<times> allocr) option" where
  "ubatch_reserve n_seq_tokens n_seqs ba = (let n_tokens = n_seq_tokens * n_seqs mod 2 ^ 32 in
    require (n_seqs \<le> 256) (Some
     (\<lparr>ub_n_tokens = n_tokens, ub_n_seqs_unq = n_seqs, ub_pos = replicate n_tokens 0, ub_seq_id = replicate n_tokens [],
        ub_seq_id_unq = map int [0..<n_seqs], fu_equal_seqs = True, fu_n_seq_tokens = n_seq_tokens, fu_n_seqs = n_seqs,
        fu_token = Some (replicate n_tokens 0), fu_embd = None,
        fu_seq_idx = fold (\<lambda>s idx. idx[s := int s]) [0..<n_seqs] no_seq_idx, fu_output = replicate n_tokens 0\<rparr>,
      split_reset (alloc_clear ba))))"

subsection \<open>The simple split\<close>

text \<open>The first unused token, from \<open>cur_idx\<close> on.\<close>

function first_unused :: "bool list \<Rightarrow> nat \<Rightarrow> nat" where
  "first_unused used cur_idx = (if cur_idx < length used \<and> used ! cur_idx then first_unused used (cur_idx + 1) else cur_idx)"
  by pat_completeness auto
termination by (relation "measure (\<lambda>(used, cur_idx). length used - cur_idx)") auto

definition mark_used :: "nat \<Rightarrow> allocr \<Rightarrow> allocr" where
  "mark_used i ba = ba\<lparr>ba_used := (ba_used ba)[i := True], ba_n_used := ba_n_used ba + 1\<rparr>"

function simple_take :: "nat \<Rightarrow> nat \<Rightarrow> nat list \<Rightarrow> allocr \<Rightarrow> nat list \<times> allocr" where
  "simple_take n_ubatch cur_idx idxs ba =
    (let idxs = idxs @ [cur_idx]; ba = mark_used cur_idx ba; cur_idx = cur_idx + 1 in
     if cur_idx \<ge> length (ba_used ba) then (idxs, ba)
     else if length idxs \<ge> n_ubatch then (idxs, ba)
     else simple_take n_ubatch cur_idx idxs ba)"
  by pat_completeness auto
termination
  by (relation "measure (\<lambda>(n_ubatch, cur_idx, idxs, ba). length (ba_used ba) - cur_idx)") (auto simp: mark_used_def)

declare first_unused.simps [simp del] simple_take.simps [simp del]

definition split_simple :: "nat \<Rightarrow> allocr \<Rightarrow> (full_ubatch \<times> allocr) option" where
  "split_simple n_ubatch ba = (let cur_idx = first_unused (ba_used ba) 0 in
     if cur_idx \<ge> length (ba_used ba) then Some (ubatch_empty, ba)
     else case simple_take n_ubatch cur_idx [] ba of (idxs, ba) \<Rightarrow> ubatch_add idxs (length idxs) False ba)"

subsection \<open>The equal split\<close>

text \<open>The sequence sets of the micro-batch, from the unused tokens in order.\<close>

fun equal_sets :: "allocr \<Rightarrow> nat \<Rightarrow> bool \<Rightarrow> nat list \<Rightarrow> int set list \<Rightarrow> int \<Rightarrow> int set list option" where
  "equal_sets ba n_ubatch seqtl [] cur last_seq_id = Some cur"
| "equal_sets ba n_ubatch seqtl (i # is) cur last_seq_id = do {
     u \<leftarrow> read_at i (ba_used ba);
     if u then equal_sets ba n_ubatch seqtl is cur last_seq_id
     else do {
       S \<leftarrow> read_at i (ba_seq_set ba);
       if \<not> list_all (\<lambda>T. T \<inter> S = {}) cur then equal_sets ba n_ubatch seqtl is cur last_seq_id
       else do {
         q \<leftarrow> tok_seq0 (ba_batch ba) i;
         if seqtl \<and> \<not> (cur = [] \<or> q = last_seq_id + 1) then equal_sets ba n_ubatch seqtl is cur last_seq_id
         else if length (cur @ [S]) > n_ubatch then Some (cur @ [S])
         else equal_sets ba n_ubatch seqtl is (cur @ [S]) q } } }"

text \<open>The first unused index of a sequence set.\<close>

function skip_used :: "bool list \<Rightarrow> nat list \<Rightarrow> nat \<Rightarrow> nat option" where
  "skip_used used ids k = (if k < length ids
     then (if ids ! k < length used then (if used ! (ids ! k) then skip_used used ids (k + 1) else Some k) else None)
     else None)"
  by pat_completeness auto
termination by (relation "measure (\<lambda>(used, ids, k). length ids - k)") auto

declare skip_used.simps [simp del]

text \<open>One more token for every sequence set; \<open>taken\<close> is \<open>idxs_per_seq\<close>.\<close>

definition equal_token :: "nat list list \<Rightarrow> nat \<Rightarrow> nat list \<times> nat list list \<times> allocr \<Rightarrow> (nat list \<times> nat list list \<times> allocr) option" where
  "equal_token ids s = (\<lambda>(cur_idx, taken, ba). do {
     idx \<leftarrow> read_at (cur_idx ! s) (ids ! s);
     Some (cur_idx[s := cur_idx ! s + 1], taken[s := taken ! s @ [idx]], mark_used idx ba) })"

partial_function (option) equal_rounds ::
    "nat \<Rightarrow> nat list list \<Rightarrow> nat list \<times> nat list list \<times> allocr \<Rightarrow> (nat list \<times> nat list list \<times> allocr) option" where
  "equal_rounds n_ubatch ids st =
    (if list_ex (\<lambda>s. fst st ! s \<ge> length (ids ! s)) [0..<length ids] then Some st
     else do {
       st \<leftarrow> fold_opt (equal_token ids) [0..<length ids] st;
       if (length (fst (snd st) ! 0) + 1) * length ids > n_ubatch then Some st
       else equal_rounds n_ubatch ids st })"

definition split_equal :: "nat \<Rightarrow> bool \<Rightarrow> allocr \<Rightarrow> (full_ubatch \<times> allocr) option" where
  "split_equal n_ubatch seqtl ba =
    (if seqtl \<and> ba_has_cpl ba then Some (ubatch_empty, ba)
     else do {
       cur \<leftarrow> equal_sets ba n_ubatch seqtl [0..<get_n_tokens ba] [] (- 1);
       let n_seqs = length cur;
       if n_seqs = 0 then Some (ubatch_empty, ba)
       else do {
         let ids = map (ba_seq_set_map ba) cur;
         cur_idx \<leftarrow> gather (\<lambda>l. skip_used (ba_used ba) l 0) ids;
         (_, taken, ba) \<leftarrow> equal_rounds n_ubatch ids (cur_idx, replicate n_seqs [], ba);
         ubatch_add (concat taken) n_seqs True ba } })"

subsection \<open>The split by sequence set\<close>

text \<open>The next unused token whose sequence set is part of the current one, or the number of tokens.\<close>

function next_subset :: "allocr \<Rightarrow> int set \<Rightarrow> nat \<Rightarrow> nat" where
  "next_subset ba S cur_idx =
    (if cur_idx < get_n_tokens ba \<and> (ba_used ba ! cur_idx \<or> S \<inter> ba_seq_set ba ! cur_idx \<noteq> ba_seq_set ba ! cur_idx)
     then next_subset ba S (cur_idx + 1) else cur_idx)"
  by pat_completeness auto
termination by (relation "measure (\<lambda>(ba, S, cur_idx). get_n_tokens ba - cur_idx)") auto

declare next_subset.simps [simp del]

partial_function (option) seq_take :: "nat \<Rightarrow> nat \<Rightarrow> nat list \<times> allocr \<Rightarrow> (nat list \<times> allocr) option" where
  "seq_take n_ubatch cur_idx st =
    (let idxs = fst st @ [cur_idx]; ba = mark_used cur_idx (snd st) in
     if length idxs \<ge> n_ubatch then Some (idxs, ba)
     else let nxt = next_subset ba (ba_seq_set ba ! cur_idx) (cur_idx + 1) in
       if nxt = get_n_tokens ba then Some (idxs, ba)
       else seq_take n_ubatch nxt (idxs, ba))"

definition split_seq :: "nat \<Rightarrow> allocr \<Rightarrow> (full_ubatch \<times> allocr) option" where
  "split_seq n_ubatch ba = (let cur_idx = first_unused (ba_used ba) 0 in
     if cur_idx \<ge> length (ba_used ba) then Some (ubatch_empty, ba)
     else do { (idxs, ba) \<leftarrow> seq_take n_ubatch cur_idx ([], ba); ubatch_add idxs 1 True ba })"

subsection \<open>All micro-batches of a batch\<close>

text \<open>The loop of \<open>init_batch\<close> around a split, until it returns an empty micro-batch.\<close>

partial_function (option) split_all ::
    "(allocr \<Rightarrow> (full_ubatch \<times> allocr) option) \<Rightarrow> full_ubatch list \<Rightarrow> allocr \<Rightarrow> (full_ubatch list \<times> allocr) option" where
  "split_all split ubatches ba =
    (case split ba of None \<Rightarrow> None
     | Some (ub, ba) \<Rightarrow> if ub_n_tokens ub = 0 then Some (ubatches, ba) else split_all split (ubatches @ [ub]) ba)"

declare equal_rounds.simps [code] seq_take.simps [code] split_all.simps [code]

end
