(* ===== verification/Batch_Split.thy ===== *)
theory Batch_Split
  imports Batch_Alloc Kv_Inputs "HOL-Library.Multiset"
begin

text \<open>
  The splits of a batch: every split of \<^verbatim>\<open>src/llama-batch.cpp\<close> run to its end hands out every token
  once, with its token id, embedding, positions, sequences and output flag.
\<close>

subsection \<open>Reading\<close>

text \<open>The sequences of a token that can be read.\<close>

definition seqs_of :: "batch \<Rightarrow> nat \<Rightarrow> int list" where
  "seqs_of b i = the (tok_seqs b i)"

definition alloc_ready :: "allocr \<Rightarrow> bool" where
  "alloc_ready ba \<longleftrightarrow> (let b = ba_batch ba; n = bt_n_tokens b in
     n \<le> length (arr (bt_token b)) \<or> bt_token b = None)
   \<and> (bt_embd (ba_batch ba) = None \<or> bt_n_tokens (ba_batch ba) * ba_n_embd ba \<le> length (arr (bt_embd (ba_batch ba))))
   \<and> n_pos_cur ba * bt_n_tokens (ba_batch ba) \<le> length (arr (bt_pos (ba_batch ba)))
   \<and> bt_n_tokens (ba_batch ba) \<le> length (arr (bt_logits (ba_batch ba)))
   \<and> (\<forall>i < bt_n_tokens (ba_batch ba). tok_seqs (ba_batch ba) i = Some (seqs_of (ba_batch ba) i) \<and> seqs_of (ba_batch ba) i \<noteq> []
        \<and> tok_seq0 (ba_batch ba) i = Some (seqs_of (ba_batch ba) i ! 0))
   \<and> ba_seq_set ba = map (\<lambda>i. set (seqs_of (ba_batch ba) i)) [0..<bt_n_tokens (ba_batch ba)]
   \<and> (\<forall>S. ba_seq_set_map ba S = filter (\<lambda>i. set (seqs_of (ba_batch ba) i) = S) [0..<bt_n_tokens (ba_batch ba)])"

lemma alloc_readyD:
  assumes "alloc_ready ba"
  defines "b \<equiv> ba_batch ba" and "n \<equiv> bt_n_tokens (ba_batch ba)"
  shows "bt_token b = Some ts \<Longrightarrow> n \<le> length ts" "bt_embd b = Some es \<Longrightarrow> n * ba_n_embd ba \<le> length es"
    "n_pos_cur ba * n \<le> length (arr (bt_pos b))" "n \<le> length (arr (bt_logits b))"
    "i < n \<Longrightarrow> tok_seqs b i = Some (seqs_of b i)" "i < n \<Longrightarrow> seqs_of b i \<noteq> []" "i < n \<Longrightarrow> tok_seq0 b i = Some (seqs_of b i ! 0)"
    "ba_seq_set ba = map (\<lambda>i. set (seqs_of b i)) [0..<n]" "ba_seq_set_map ba S = filter (\<lambda>i. set (seqs_of b i) = S) [0..<n]"
  using assms(1) by (auto simp: alloc_ready_def Let_def b_def n_def arr_def)

lemma alloc_ready_fields [simp]:
  "alloc_ready (ba\<lparr>ba_used := u\<rparr>) = alloc_ready ba" "alloc_ready (ba\<lparr>ba_n_used := k\<rparr>) = alloc_ready ba"
  "alloc_ready (ba\<lparr>ba_out_ids := os\<rparr>) = alloc_ready ba"
  by (simp_all add: alloc_ready_def n_pos_cur_def)

text \<open>What a token carries, in the batch and in a micro-batch.\<close>

type_synonym token_row = "int option \<times> u32 list option \<times> int list \<times> int list \<times> int"

abbreviation row_seqs :: "token_row \<Rightarrow> int list" where "row_seqs r \<equiv> fst (snd (snd (snd r)))"

definition batch_row :: "allocr \<Rightarrow> nat \<Rightarrow> token_row" where
  "batch_row ba i = (let b = ba_batch ba in
     (map_option (\<lambda>ts. ts ! i) (bt_token b), map_option (\<lambda>es. take (ba_n_embd ba) (drop (i * ba_n_embd ba) es)) (bt_embd b),
      map (\<lambda>j. arr (bt_pos b) ! (j * bt_n_tokens b + i)) [0..<n_pos_cur ba], seqs_of b i, arr (bt_logits b) ! i))"

definition ub_rows :: "nat \<Rightarrow> nat \<Rightarrow> full_ubatch \<Rightarrow> token_row list" where
  "ub_rows n_embd n_pos u = map (\<lambda>k.
     (map_option (\<lambda>ts. ts ! k) (fu_token u), map_option (\<lambda>es. take n_embd (drop (k * n_embd) es)) (fu_embd u),
      map (\<lambda>j. ub_pos u ! (j * ub_n_tokens u + k)) [0..<n_pos], ub_seq_id u ! k, fu_output u ! k)) [0..<ub_n_tokens u]"

lemma take_drop_concat:
  assumes "\<And>r. r \<in> set rs \<Longrightarrow> length r = m" and "k < length rs"
  shows "take m (drop (k * m) (concat rs)) = rs ! k"
  using assms
proof (induction rs arbitrary: k)
  case (Cons r rs)
  then show ?case by (cases k) auto
qed simp

text \<open>The unique sequences: in increasing order, each with its index.\<close>

definition seq_ids_in :: "nat \<Rightarrow> int set \<Rightarrow> int list" where
  "seq_ids_in m U = map int (filter (\<lambda>s. int s \<in> U) [0..<m])"

lemma index_seqs_ids: "snd (index_seqs m U (idx, ids)) = ids @ seq_ids_in m U"
proof -
  have "snd (fold (\<lambda>s (idx, ids). if int s \<in> U then (idx[s := int (length ids)], ids @ [int s]) else (idx, ids)) xs (idx, ids))
      = ids @ map int (filter (\<lambda>s. int s \<in> U) xs)" for xs
    by (induction xs arbitrary: idx ids) auto
  then show ?thesis by (simp add: index_seqs_def seq_ids_in_def)
qed

lemma ubatch_add_value:
  assumes r: "alloc_ready ba" and idxs: "set idxs \<subseteq> {..<get_n_tokens ba}" and d: "n_seqs \<noteq> 0" "length idxs mod n_seqs = 0"
  shows "\<exists>u. ubatch_add idxs n_seqs eq ba
        = Some (u, ba\<lparr>ba_out_ids := ba_out_ids ba @ filter (\<lambda>i. arr (bt_logits (ba_batch ba)) ! i \<noteq> 0) idxs\<rparr>)
      \<and> ub_n_tokens u = length idxs \<and> ub_rows (ba_n_embd ba) (n_pos_cur ba) u = map (batch_row ba) idxs
      \<and> fu_equal_seqs u = eq \<and> fu_n_seqs u = n_seqs \<and> fu_n_seq_tokens u = length idxs div n_seqs
      \<and> ub_pos u = map (\<lambda>(j, i). arr (bt_pos (ba_batch ba)) ! (j * bt_n_tokens (ba_batch ba) + i)) (List.product [0..<n_pos_cur ba] idxs)
      \<and> ub_seq_id u = map (seqs_of (ba_batch ba)) idxs
      \<and> ub_seq_id_unq u = seq_ids_in (ba_n_seq_max ba) (\<Union>i \<in> set idxs. set (seqs_of (ba_batch ba) i))
      \<and> ub_n_seqs_unq u = length (ub_seq_id_unq u)"
proof -
  let ?b = "ba_batch ba" and ?n = "bt_n_tokens (ba_batch ba)" and ?e = "ba_n_embd ba"
  note d' = alloc_readyD[OF r]
  have lt: "i < ?n" if "i \<in> set idxs" for i using idxs that by (auto simp: get_n_tokens_def)
  have tok: "gather_field read_at idxs (bt_token ?b) = Some (map_option (\<lambda>ts. map ((!) ts) idxs) (bt_token ?b))"
  proof (cases "bt_token ?b")
    case (Some ts)
    have "gather (\<lambda>i. read_at i ts) idxs = Some (map ((!) ts) idxs)"
      using d'(1)[OF Some] lt by (intro gather_Some) (fastforce simp: read_at_def)
    then show ?thesis by (simp add: gather_field_def Some)
  qed (simp add: gather_field_def)
  have emb: "gather_field (\<lambda>i es. embd_row ?e es i) idxs (bt_embd ?b)
      = Some (map_option (\<lambda>es. map (\<lambda>i. take ?e (drop (i * ?e) es)) idxs) (bt_embd ?b))"
  proof (cases "bt_embd ?b")
    case (Some es)
    have "embd_row ?e es i = Some (take ?e (drop (i * ?e) es))" if "i \<in> set idxs" for i
    proof -
      have "(i + 1) * ?e \<le> ?n * ?e" using lt[OF that] by (intro mult_le_mono1) simp
      then show ?thesis using d'(2)[OF Some] by (simp add: embd_row_def)
    qed
    then have "gather (\<lambda>i. embd_row ?e es i) idxs = Some (map (\<lambda>i. take ?e (drop (i * ?e) es)) idxs)" by (rule gather_Some)
    then show ?thesis by (simp add: gather_field_def Some)
  qed (simp add: gather_field_def)
  have at: "j * ?n + i < length (arr (bt_pos ?b))" if "j < n_pos_cur ba" "i \<in> set idxs" for i j
  proof -
    have "j * ?n + i < Suc j * ?n" using lt[OF that(2)] by simp
    also have "\<dots> \<le> n_pos_cur ba * ?n" using that(1) by (intro mult_le_mono1) simp
    finally show ?thesis using d'(3) by simp
  qed
  let ?pos = "map (\<lambda>(j, i). arr (bt_pos ?b) ! (j * ?n + i)) (List.product [0..<n_pos_cur ba] idxs)"
  have pos: "gather (\<lambda>(j, i). read_at (j * ?n + i) (arr (bt_pos ?b))) (List.product [0..<n_pos_cur ba] idxs) = Some ?pos"
    using at by (intro gather_Some) (auto simp: read_at_def)
  have seqs: "gather (tok_seqs ?b) idxs = Some (map (seqs_of ?b) idxs)" using d'(5) lt by (intro gather_Some) auto
  have outs: "gather (\<lambda>i. read_at i (arr (bt_logits ?b))) idxs = Some (map ((!) (arr (bt_logits ?b))) idxs)"
    using d'(4) lt by (intro gather_Some) (fastforce simp: read_at_def)
  obtain idx ids where ix: "index_seqs (ba_n_seq_max ba) (\<Union> (set ` set (map (seqs_of ?b) idxs))) (no_seq_idx, []) = (idx, ids)" by force
  have ids: "ids = seq_ids_in (ba_n_seq_max ba) (\<Union>i \<in> set idxs. set (seqs_of ?b i))"
    using index_seqs_ids[of "ba_n_seq_max ba" "\<Union> (set ` set (map (seqs_of ?b) idxs))" no_seq_idx "[]"] unfolding ix by (simp add: image_image)
  let ?u = "\<lparr>ub_n_tokens = length idxs, ub_n_seqs_unq = length ids, ub_pos = ?pos, ub_seq_id = map (seqs_of ?b) idxs, ub_seq_id_unq = ids,
      fu_equal_seqs = eq, fu_n_seq_tokens = length idxs div n_seqs, fu_n_seqs = n_seqs, fu_token = map_option (\<lambda>ts. map ((!) ts) idxs) (bt_token ?b),
      fu_embd = map_option (\<lambda>es. concat (map (\<lambda>i. take ?e (drop (i * ?e) es)) idxs)) (bt_embd ?b), fu_seq_idx = idx,
      fu_output = map ((!) (arr (bt_logits ?b))) idxs\<rparr>"
  have out: "map fst (filter (\<lambda>(i, out). out \<noteq> 0) (zip idxs (map ((!) (arr (bt_logits ?b))) idxs)))
      = filter (\<lambda>i. arr (bt_logits ?b) ! i \<noteq> 0) idxs"
    by (induction idxs) auto
  have run: "ubatch_add idxs n_seqs eq ba = Some (?u, ba\<lparr>ba_out_ids := ba_out_ids ba @ filter (\<lambda>i. arr (bt_logits ?b) ! i \<noteq> 0) idxs\<rparr>)"
    using d ix by (simp add: ubatch_add_def Let_def tok emb pos seqs outs out option.map_comp comp_def)
  have rows: "ub_rows ?e (n_pos_cur ba) ?u = map (batch_row ba) idxs"
  proof (rule nth_equalityI)
    fix k assume "k < length (ub_rows ?e (n_pos_cur ba) ?u)"
    then have k: "k < length idxs" by (simp add: ub_rows_def)
    have p: "?pos ! (j * length idxs + k) = arr (bt_pos ?b) ! (j * ?n + idxs ! k)" if "j < n_pos_cur ba" for j
    proof -
      have "j * length idxs + k < n_pos_cur ba * length idxs"
        using that k by (metis add.commute add_less_cancel_left less_le_trans mult_Suc mult_le_mono1 Suc_leI)
      moreover have "(j * length idxs + k) div length idxs = j" "(j * length idxs + k) mod length idxs = k"
        using div_mod_row(1)[OF k, of j] k by (simp_all add: mult.commute)
      ultimately show ?thesis using k that by (simp add: product_nth)
    qed
    have e: "take ?e (drop (k * ?e) (concat (map (\<lambda>i. take ?e (drop (i * ?e) es)) idxs))) = take ?e (drop (idxs ! k * ?e) es)" if "bt_embd ?b = Some es" for es
    proof -
      have "length (take ?e (drop (i * ?e) es)) = ?e" if i: "i \<in> set idxs" for i
      proof -
        have "(i + 1) * ?e \<le> ?n * ?e" using lt[OF i] by (intro mult_le_mono1) simp
        then show ?thesis using d'(2)[OF \<open>bt_embd ?b = Some es\<close>] by simp
      qed
      then have "take ?e (drop (k * ?e) (concat (map (\<lambda>i. take ?e (drop (i * ?e) es)) idxs))) = map (\<lambda>i. take ?e (drop (i * ?e) es)) idxs ! k"
        using k by (intro take_drop_concat) auto
      then show ?thesis using k by simp
    qed
    show "ub_rows ?e (n_pos_cur ba) ?u ! k = map (batch_row ba) idxs ! k"
      using k p e by (cases "bt_token ?b"; cases "bt_embd ?b") (simp_all add: ub_rows_def batch_row_def Let_def)
  qed (simp add: ub_rows_def)
  show ?thesis using run rows ids by (intro exI[of _ ?u]) simp
qed

subsection \<open>The simple split\<close>

text \<open>The state after the first \<open>k\<close> tokens, and after any set of tokens.\<close>

definition used_upto :: "nat \<Rightarrow> nat \<Rightarrow> bool list" where
  "used_upto n k = replicate k True @ replicate (n - k) False"

lemma used_upto_simps [simp]:
  "k \<le> n \<Longrightarrow> length (used_upto n k) = n" "i < n \<Longrightarrow> k \<le> n \<Longrightarrow> used_upto n k ! i = (i < k)"
  by (auto simp: used_upto_def nth_append)

lemma used_upto_mark [simp]: "k < n \<Longrightarrow> (used_upto n k)[k := True] = used_upto n (Suc k)"
  by (rule nth_equalityI) (auto simp: nth_list_update)

lemma first_unused_upto:
  assumes "k \<le> n" and "c \<le> k"
  shows "first_unused (used_upto n k) c = k"
  using assms(2)
proof (induction c rule: inc_induct)
  case base
  then show ?case using assms(1) by (subst first_unused.simps) auto
next
  case (step c)
  then show ?case using assms(1) by (subst first_unused.simps) auto
qed

lemma mark_used_fields [simp]:
  "ba_batch (mark_used i ba) = ba_batch ba" "ba_out_ids (mark_used i ba) = ba_out_ids ba" "ba_used (mark_used i ba) = (ba_used ba)[i := True]"
  "ba_n_used (mark_used i ba) = ba_n_used ba + 1"
  by (simp_all add: mark_used_def)

lemma simple_take_value:
  assumes "k < n" and "c = length idxs" and "m = min n (k + max 1 (n_ubatch - c))"
  shows "simple_take n_ubatch k idxs (ba\<lparr>ba_used := used_upto n k, ba_n_used := k\<rparr>)
      = (idxs @ [k..<m], ba\<lparr>ba_used := used_upto n m, ba_n_used := m\<rparr>)"
  using assms
proof (induction "n - k" arbitrary: k idxs c m)
  case (Suc x)
  let ?ba = "ba\<lparr>ba_used := used_upto n (Suc k), ba_n_used := Suc k\<rparr>"
  have mk: "mark_used k (ba\<lparr>ba_used := used_upto n k, ba_n_used := k\<rparr>) = ?ba"
    using Suc.prems(1) by (simp add: mark_used_def)
  have len: "length (ba_used ?ba) = n" using Suc.prems(1) by simp
  show ?case
  proof (cases "Suc k < n \<and> Suc c < n_ubatch")
    case True
    have rec: "simple_take n_ubatch k idxs (ba\<lparr>ba_used := used_upto n k, ba_n_used := k\<rparr>) = simple_take n_ubatch (Suc k) (idxs @ [k]) ?ba"
      using True len Suc.prems by (subst simple_take.simps) (simp add: Let_def mk del: mark_used_fields)
    have "simple_take n_ubatch (Suc k) (idxs @ [k]) ?ba
        = ((idxs @ [k]) @ [Suc k..<m], ba\<lparr>ba_used := used_upto n m, ba_n_used := m\<rparr>)"
      using Suc.hyps(2) True Suc.prems by (intro Suc.hyps(1)[where c = "Suc c"]) auto
    moreover have "k < m" using Suc.prems by simp
    ultimately show ?thesis unfolding rec by (simp add: upt_conv_Cons)
  next
    case False
    then have m: "m = Suc k" using Suc.prems by (auto simp: max_def min_def)
    show ?thesis using False len Suc.prems(2) by (subst simple_take.simps) (auto simp: Let_def mk m simp del: mark_used_fields)
  qed
qed simp

text \<open>The state of a split in progress: only the used tokens and the outputs change.\<close>

definition split_state :: "allocr \<Rightarrow> bool list \<Rightarrow> nat \<Rightarrow> nat list \<Rightarrow> allocr" where
  "split_state ba u k os = ba\<lparr>ba_used := u, ba_n_used := k, ba_out_ids := os\<rparr>"

lemma split_state_fields [simp]:
  "ba_batch (split_state ba u k os) = ba_batch ba" "get_n_tokens (split_state ba u k os) = get_n_tokens ba"
  "ba_used (split_state ba u k os) = u" "ba_n_used (split_state ba u k os) = k" "ba_out_ids (split_state ba u k os) = os"
  "ba_n_embd (split_state ba u k os) = ba_n_embd ba" "n_pos_cur (split_state ba u k os) = n_pos_cur ba"
  "ba_n_seq_max (split_state ba u k os) = ba_n_seq_max ba" "ba_has_cpl (split_state ba u k os) = ba_has_cpl ba"
  "ba_seq_set (split_state ba u k os) = ba_seq_set ba" "ba_seq_set_map (split_state ba u k os) = ba_seq_set_map ba"
  "alloc_ready (split_state ba u k os) = alloc_ready ba" "batch_row (split_state ba u k os) = batch_row ba"
  "(split_state ba u k os)\<lparr>ba_out_ids := os'\<rparr> = split_state ba u k os'"
  by (simp_all add: split_state_def get_n_tokens_def n_pos_cur_def batch_row_def alloc_ready_def fun_eq_iff cong: if_cong)

lemma split_reset_state: "split_reset ba = split_state ba (replicate (get_n_tokens ba) False) 0 []"
  by (simp add: split_reset_def split_state_def)

definition ub_valid :: "allocr \<Rightarrow> nat list \<Rightarrow> full_ubatch \<Rightarrow> bool" where
  "ub_valid ba idxs u \<longleftrightarrow> ub_n_tokens u = length idxs \<and> ub_rows (ba_n_embd ba) (n_pos_cur ba) u = map (batch_row ba) idxs
     \<and> ub_pos u = map (\<lambda>(j, i). arr (bt_pos (ba_batch ba)) ! (j * bt_n_tokens (ba_batch ba) + i)) (List.product [0..<n_pos_cur ba] idxs)
     \<and> ub_seq_id u = map (seqs_of (ba_batch ba)) idxs
     \<and> ub_seq_id_unq u = seq_ids_in (ba_n_seq_max ba) (\<Union>i \<in> set idxs. set (seqs_of (ba_batch ba) i))
     \<and> ub_n_seqs_unq u = length (ub_seq_id_unq u)"

abbreviation out_tokens :: "allocr \<Rightarrow> nat list \<Rightarrow> nat list" where
  "out_tokens ba idxs \<equiv> filter (\<lambda>i. arr (bt_logits (ba_batch ba)) ! i \<noteq> 0) idxs"

lemma split_simple_step:
  fixes n_ubatch :: nat
  assumes r: "alloc_ready ba" and k: "k < get_n_tokens ba"
  defines "n \<equiv> get_n_tokens ba"
  defines "m \<equiv> min n (k + max 1 n_ubatch)"
  shows "\<exists>u. split_simple n_ubatch (split_state ba (used_upto n k) k os)
      = Some (u, split_state ba (used_upto n m) m (os @ out_tokens ba [k..<m])) \<and> ub_valid ba [k..<m] u \<and> \<not> fu_equal_seqs u"
proof -
  have kn: "k < n" using k by (simp add: n_def)
  have km: "k < m" using kn by (simp add: m_def)
  have f: "first_unused (used_upto n k) 0 = k" using kn by (intro first_unused_upto) simp_all
  have eq: "split_state ba (used_upto n k) k os = (ba\<lparr>ba_out_ids := os\<rparr>)\<lparr>ba_used := used_upto n k, ba_n_used := k\<rparr>"
    by (simp add: split_state_def)
  have t: "simple_take n_ubatch k [] (split_state ba (used_upto n k) k os) = ([k..<m], split_state ba (used_upto n m) m os)"
    unfolding eq using simple_take_value[OF kn, where idxs = "[]" and c = 0 and m = m and n_ubatch = n_ubatch] by (simp add: m_def split_state_def)
  have mn: "m \<le> n" by (simp add: m_def)
  have sub: "set [k..<m] \<subseteq> {..<get_n_tokens (split_state ba (used_upto n m) m os)}" using mn by (auto simp: n_def)
  have d: "length [k..<m] \<noteq> 0" "length [k..<m] mod length [k..<m] = 0" using km by simp_all
  have r': "alloc_ready (split_state ba (used_upto n m) m os)" using r by simp
  obtain u where "ubatch_add [k..<m] (length [k..<m]) False (split_state ba (used_upto n m) m os)
      = Some (u, split_state ba (used_upto n m) m (os @ out_tokens ba [k..<m]))" "ub_valid ba [k..<m] u \<and> \<not> fu_equal_seqs u"
    using ubatch_add_value[OF r' sub d, of False] by (auto simp: ub_valid_def)
  then show ?thesis using kn f t by (auto simp: split_simple_def Let_def)
qed

lemma ubatch_empty_tokens [simp]: "ub_n_tokens ubatch_empty = 0"
  by (simp add: ubatch_empty_def)

text \<open>A split run to its end: the micro-batches and the tokens of each.\<close>

lemma split_all_step:
  "split ba = Some (u, ba') \<Longrightarrow> ub_n_tokens u \<noteq> 0 \<Longrightarrow> split_all split us ba = split_all split (us @ [u]) ba'"
  "split ba = Some (u, ba') \<Longrightarrow> ub_n_tokens u = 0 \<Longrightarrow> split_all split us ba = Some (us, ba')"
  by (subst split_all.simps, simp)+

lemma split_simple_end:
  "get_n_tokens ba = n \<Longrightarrow> split_simple n_ubatch (split_state ba (used_upto n n) k os) = Some (ubatch_empty, split_state ba (used_upto n n) k os)"
  by (simp add: split_simple_def Let_def first_unused_upto)

lemma split_simple_run:
  fixes n_ubatch :: nat
  assumes r: "alloc_ready ba" and k: "k \<le> get_n_tokens ba"
  defines "n \<equiv> get_n_tokens ba"
  shows "\<exists>us css. split_all (split_simple n_ubatch) acc (split_state ba (used_upto n k) k os)
      = Some (acc @ us, split_state ba (used_upto n n) n (os @ out_tokens ba [k..<n]))
    \<and> list_all2 (ub_valid ba) css us \<and> concat css = [k..<n] \<and> (\<forall>c \<in> set css. c \<noteq> [] \<and> length c \<le> max 1 n_ubatch)
    \<and> (n - k \<le> n_ubatch \<longrightarrow> length css \<le> 1)"
  using k
proof (induction "n - k" arbitrary: k os acc rule: less_induct)
  case less
  show ?case
  proof (cases "k < n")
    case False
    then have k: "k = n" using less.prems by (simp add: n_def)
    have "split_all (split_simple n_ubatch) acc (split_state ba (used_upto n n) n os) = Some (acc, split_state ba (used_upto n n) n os)"
      by (rule split_all_step(2)[where u = ubatch_empty]) (simp_all add: n_def split_simple_end)
    then show ?thesis unfolding k by (intro exI[of _ "[]"]) simp
  next
    case True
    define m where "m = min n (k + max 1 n_ubatch)"
    obtain u where u: "split_simple n_ubatch (split_state ba (used_upto n k) k os)
        = Some (u, split_state ba (used_upto n m) m (os @ out_tokens ba [k..<m]))" "ub_valid ba [k..<m] u"
      using split_simple_step[OF r True[unfolded n_def], of n_ubatch os] unfolding n_def[symmetric] m_def[symmetric] by blast
    have km: "k < m" "m \<le> n" using True by (simp_all add: m_def)
    have mn: "m \<le> get_n_tokens ba" using km by (simp add: n_def)
    have shorter: "n - m < n - k" using km by simp
    obtain us css where rest: "split_all (split_simple n_ubatch) (acc @ [u]) (split_state ba (used_upto n m) m (os @ out_tokens ba [k..<m]))
        = Some ((acc @ [u]) @ us, split_state ba (used_upto n n) n ((os @ out_tokens ba [k..<m]) @ out_tokens ba [m..<n]))"
      "list_all2 (ub_valid ba) css us" "concat css = [m..<n]" "\<forall>c \<in> set css. c \<noteq> [] \<and> length c \<le> max 1 n_ubatch"
      using less.hyps[OF shorter mn, of "acc @ [u]" "os @ out_tokens ba [k..<m]"] by blast
    have "ub_n_tokens u \<noteq> 0" using u(2) km by (simp add: ub_valid_def)
    note run = split_all_step(1)[where split = "split_simple n_ubatch" and us = acc, OF u(1) this]
    have upt: "[k..<m] @ [m..<n] = [k..<n]" using km by (metis less_imp_le upt_add_eq_append le_add_diff_inverse)
    have "m = n \<longrightarrow> css = []" using rest(3,4) by (cases css) auto
    moreover have "n - k \<le> n_ubatch \<longrightarrow> m = n" using True by (auto simp: m_def)
    moreover have "length [k..<m] \<le> max 1 n_ubatch" by (simp add: m_def)
    moreover have "split_all (split_simple n_ubatch) acc (split_state ba (used_upto n k) k os)
        = Some (acc @ (u # us), split_state ba (used_upto n n) n (os @ out_tokens ba [k..<n]))"
      using run rest(1) unfolding upt[symmetric] by simp
    moreover have "list_all2 (ub_valid ba) ([k..<m] # css) (u # us)" using u(2) rest(2) by simp
    moreover have "concat ([k..<m] # css) = [k..<n]" using rest(3) upt by simp
    moreover have "\<forall>c \<in> set ([k..<m] # css). c \<noteq> [] \<and> length c \<le> max 1 n_ubatch" using rest(4) km calculation(3) by auto
    ultimately show ?thesis by (intro exI[of _ "u # us"] exI[of _ "[k..<m] # css"]) auto
  qed
qed

lemma used_upto_0: "used_upto n 0 = replicate n False"
  by (simp add: used_upto_def)

lemma valid_rows:
  "list_all2 (ub_valid ba) css us \<Longrightarrow> concat (map (ub_rows (ba_n_embd ba) (n_pos_cur ba)) us) = map (batch_row ba) (concat css)"
  by (induction css us rule: list_all2_induct) (auto simp: ub_valid_def)

end
