(* ===== verification/Batch_Equal.thy ===== *)
theory Batch_Equal
  imports Batch_Split
begin

text \<open>
  The equal split of \<^verbatim>\<open>src/llama-batch.cpp\<close>: every micro-batch takes the same number of tokens from each
  of some disjoint sequence sets, and the tokens of a sequence set keep their order.
\<close>

subsection \<open>The sequence sets of a micro-batch\<close>

abbreviation tok_set :: "allocr \<Rightarrow> nat \<Rightarrow> int set" where
  "tok_set ba i \<equiv> set (seqs_of (ba_batch ba) i)"

definition ids_of :: "allocr \<Rightarrow> int set \<Rightarrow> nat list" where
  "ids_of ba S = filter (\<lambda>i. tok_set ba i = S) [0..<get_n_tokens ba]"

definition disjoint_sets_list :: "int set list \<Rightarrow> bool" where
  "disjoint_sets_list cur \<longleftrightarrow> sorted_wrt (\<lambda>A B. A \<inter> B = {}) cur"

lemma equal_sets_value:
  assumes r: "alloc_ready ba" and "set is \<subseteq> {..<get_n_tokens ba}" and "length (ba_used ba) = get_n_tokens ba"
    and "disjoint_sets_list cur" and "length cur \<le> n_ubatch"
  shows "\<exists>r. equal_sets ba n_ubatch seqtl is cur q = Some (cur @ r) \<and> disjoint_sets_list (cur @ r)
    \<and> (\<forall>S \<in> set r. \<exists>i \<in> set is. \<not> ba_used ba ! i \<and> S = tok_set ba i) \<and> length (cur @ r) \<le> n_ubatch + 1
    \<and> (cur = [] \<longrightarrow> (\<exists>i \<in> set is. \<not> ba_used ba ! i) \<longrightarrow> r \<noteq> [])"
  using assms(2-)
proof (induction "is" arbitrary: cur q)
  case Nil
  then show ?case by simp
next
  case (Cons i "is")
  have i: "i < get_n_tokens ba" using Cons.prems(1) by simp
  note d = alloc_readyD[OF r]
  have rd: "read_at i (ba_used ba) = Some (ba_used ba ! i)" "read_at i (ba_seq_set ba) = Some (tok_set ba i)"
    "tok_seq0 (ba_batch ba) i = Some (seqs_of (ba_batch ba) i ! 0)"
    using i Cons.prems(2) d(7,8) by (simp_all add: get_n_tokens_def)
  note hyp = Cons.IH[OF _ Cons.prems(2)]
  let ?S = "tok_set ba i" and ?q = "seqs_of (ba_batch ba) i ! 0"
  consider (skip) "ba_used ba ! i \<or> \<not> list_all (\<lambda>T. T \<inter> ?S = {}) cur \<or> seqtl \<and> \<not> (cur = [] \<or> ?q = q + 1)"
    | (full) "\<not> ba_used ba ! i" "list_all (\<lambda>T. T \<inter> ?S = {}) cur" "\<not> (seqtl \<and> \<not> (cur = [] \<or> ?q = q + 1))" "length (cur @ [?S]) > n_ubatch"
    | (more) "\<not> ba_used ba ! i" "list_all (\<lambda>T. T \<inter> ?S = {}) cur" "\<not> (seqtl \<and> \<not> (cur = [] \<or> ?q = q + 1))" "\<not> length (cur @ [?S]) > n_ubatch"
    by blast
  then show ?case
  proof cases
    case skip
    then have eq: "equal_sets ba n_ubatch seqtl (i # is) cur q = equal_sets ba n_ubatch seqtl is cur q" by (auto simp: rd)
    obtain r where "equal_sets ba n_ubatch seqtl is cur q = Some (cur @ r)" "disjoint_sets_list (cur @ r)"
      "\<forall>S \<in> set r. \<exists>i \<in> set is. \<not> ba_used ba ! i \<and> S = tok_set ba i" "length (cur @ r) \<le> n_ubatch + 1"
      "cur = [] \<longrightarrow> (\<exists>i \<in> set is. \<not> ba_used ba ! i) \<longrightarrow> r \<noteq> []"
      using hyp[of cur q] Cons.prems(1,3,4) by auto
    then show ?thesis using skip unfolding eq by (intro exI[of _ r]) auto
  next
    case full
    then have eq: "equal_sets ba n_ubatch seqtl (i # is) cur q = Some (cur @ [?S])" by (auto simp: rd)
    have "disjoint_sets_list (cur @ [?S])" using full(2) Cons.prems(3) by (auto simp: disjoint_sets_list_def sorted_wrt_append list_all_iff)
    then show ?thesis using full(1) Cons.prems(4) unfolding eq by (intro exI[of _ "[?S]"]) auto
  next
    case more
    then have eq: "equal_sets ba n_ubatch seqtl (i # is) cur q = equal_sets ba n_ubatch seqtl is (cur @ [?S]) ?q" by (auto simp: rd)
    have "disjoint_sets_list (cur @ [?S])" using more(2) Cons.prems(3) by (auto simp: disjoint_sets_list_def sorted_wrt_append list_all_iff)
    then obtain r where "equal_sets ba n_ubatch seqtl is (cur @ [?S]) ?q = Some ((cur @ [?S]) @ r)" "disjoint_sets_list ((cur @ [?S]) @ r)"
      "\<forall>S \<in> set r. \<exists>i \<in> set is. \<not> ba_used ba ! i \<and> S = tok_set ba i" "length ((cur @ [?S]) @ r) \<le> n_ubatch + 1"
      using hyp[of "cur @ [?S]" ?q] Cons.prems(1) more(4) by auto
    then show ?thesis using more(1) unfolding eq by (intro exI[of _ "?S # r"]) auto
  qed
qed

lemma skip_used_value:
  assumes "k < length l" and "\<forall>j < length l. l ! j < length u \<and> u ! (l ! j) = (j < k)" and "c \<le> k"
  shows "skip_used u l c = Some k"
  using assms(3)
proof (induction c rule: inc_induct)
  case base
  then show ?case using assms(1,2) by (subst skip_used.simps) auto
next
  case (step c)
  then show ?case using assms(1,2) by (subst skip_used.simps) auto
qed

subsection \<open>Rounds\<close>

text \<open>The state within round \<open>r\<close>, when the first \<open>k\<close> sequence sets have given their token.\<close>

definition in_round :: "nat \<Rightarrow> nat \<Rightarrow> nat \<Rightarrow> nat" where
  "in_round r k s = (if s < k then Suc r else r)"

definition round_state :: "nat list list \<Rightarrow> nat list \<Rightarrow> allocr \<Rightarrow> nat \<Rightarrow> nat \<Rightarrow> nat list \<times> nat list list \<times> allocr" where
  "round_state ids c ba r k =
    (map (\<lambda>s. c ! s + in_round r k s) [0..<length ids],
     map (\<lambda>s. take (in_round r k s) (drop (c ! s) (ids ! s))) [0..<length ids],
     ba\<lparr>ba_used := map (\<lambda>i. ba_used ba ! i \<or> (\<exists>s < length ids. i \<in> set (take (in_round r k s) (drop (c ! s) (ids ! s))))) [0..<length (ba_used ba)],
        ba_n_used := ba_n_used ba + r * length ids + k\<rparr>)"

lemma round_next: "round_state ids c ba r (length ids) = round_state ids c ba (Suc r) 0"
  by (simp add: round_state_def in_round_def algebra_simps cong: map_cong conj_cong)

lemma mark_map: "(map P [0..<n])[x := True] = map (\<lambda>i. i = x \<or> P i) [0..<n]"
proof (rule nth_equalityI)
  fix i assume "i < length ((map P [0..<n])[x := True])"
  then show "(map P [0..<n])[x := True] ! i = map (\<lambda>i. i = x \<or> P i) [0..<n] ! i" by (cases "i = x") simp_all
qed simp

lemma round_token:
  assumes k: "k < length ids" and room: "c ! k + r < length (ids ! k)"
  shows "equal_token ids k (round_state ids c ba r k) = Some (round_state ids c ba r (Suc k))"
proof -
  let ?idx = "ids ! k ! (c ! k + r)"
  have snoc: "take (Suc r) (drop (c ! k) (ids ! k)) = take r (drop (c ! k) (ids ! k)) @ [?idx]"
    using room by (simp add: take_Suc_conv_app_nth)
  have other: "in_round r (Suc k) s = (if s = k then Suc r else in_round r k s)" for s by (auto simp: in_round_def)
  have same: "in_round r k k = r" by (simp add: in_round_def)
  have cur: "(map (\<lambda>s. c ! s + in_round r k s) [0..<length ids])[k := c ! k + r + 1] = map (\<lambda>s. c ! s + in_round r (Suc k) s) [0..<length ids]"
    using k by (intro nth_equalityI) (auto simp: nth_list_update other)
  have taken: "(map (\<lambda>s. take (in_round r k s) (drop (c ! s) (ids ! s))) [0..<length ids])[k := take r (drop (c ! k) (ids ! k)) @ [?idx]]
      = map (\<lambda>s. take (in_round r (Suc k) s) (drop (c ! s) (ids ! s))) [0..<length ids]"
  proof (rule nth_equalityI)
    fix s assume "s < length ((map (\<lambda>s. take (in_round r k s) (drop (c ! s) (ids ! s))) [0..<length ids])[k := take r (drop (c ! k) (ids ! k)) @ [?idx]])"
    then have "s < length ids" by simp
    then show "(map (\<lambda>s. take (in_round r k s) (drop (c ! s) (ids ! s))) [0..<length ids])[k := take r (drop (c ! k) (ids ! k)) @ [?idx]] ! s
        = map (\<lambda>s. take (in_round r (Suc k) s) (drop (c ! s) (ids ! s))) [0..<length ids] ! s"
      using snoc by (cases "s = k") (simp_all add: other)
  qed simp
  have new: "(\<exists>s < length ids. i \<in> set (take (in_round r (Suc k) s) (drop (c ! s) (ids ! s))))
      \<longleftrightarrow> i = ?idx \<or> (\<exists>s < length ids. i \<in> set (take (in_round r k s) (drop (c ! s) (ids ! s))))" (is "?L \<longleftrightarrow> ?R") for i
  proof
    assume ?L
    then obtain s where s: "s < length ids" "i \<in> set (take (in_round r (Suc k) s) (drop (c ! s) (ids ! s)))" by blast
    show ?R
    proof (cases "s = k")
      case True
      then have "i = ?idx \<or> i \<in> set (take (in_round r k k) (drop (c ! k) (ids ! k)))" using s(2) unfolding other same True by (simp add: snoc)
      then show ?thesis using k by blast
    next
      case False
      then show ?thesis using s by (auto simp: other)
    qed
  next
    have mono: "set (take (in_round r k s) (drop (c ! s) (ids ! s))) \<subseteq> set (take (in_round r (Suc k) s) (drop (c ! s) (ids ! s)))" for s
      by (intro set_take_subset_set_take) (simp add: in_round_def)
    have last: "?idx \<in> set (take (in_round r (Suc k) k) (drop (c ! k) (ids ! k)))" by (simp add: other snoc)
    assume ?R
    then show ?L using mono last k by blast
  qed
  have used: "(map (\<lambda>i. ba_used ba ! i \<or> (\<exists>s < length ids. i \<in> set (take (in_round r k s) (drop (c ! s) (ids ! s))))) [0..<length (ba_used ba)])[?idx := True]
      = map (\<lambda>i. ba_used ba ! i \<or> (\<exists>s < length ids. i \<in> set (take (in_round r (Suc k) s) (drop (c ! s) (ids ! s))))) [0..<length (ba_used ba)]"
    unfolding new mark_map by auto
  have rd: "read_at (map (\<lambda>s. c ! s + in_round r k s) [0..<length ids] ! k) (ids ! k) = Some ?idx"
    using k room by (simp add: same)
  show ?thesis
    unfolding round_state_def equal_token_def using rd k cur taken used same by (simp add: mark_used_def)
qed

lemma round_run:
  assumes "\<forall>s < length ids. c ! s + r < length (ids ! s)"
  shows "fold_opt (equal_token ids) [0..<length ids] (round_state ids c ba r 0) = Some (round_state ids c ba (Suc r) 0)"
proof -
  have "fold_opt (equal_token ids) [0..<k] (round_state ids c ba r 0) = Some (round_state ids c ba r k)" if "k \<le> length ids" for k
    using that
  proof (induction k)
    case (Suc k)
    then show ?case using round_token[of k ids c r ba] assms by (simp add: fold_opt_append)
  qed simp
  then show ?thesis by (simp add: round_next)
qed

lemma equal_rounds_value:
  assumes ne: "ids \<noteq> []" and room: "\<forall>s < length ids. c ! s + r \<le> length (ids ! s)" and go: "0 < r \<longrightarrow> (r + 1) * length ids \<le> n_ubatch"
  shows "\<exists>m \<ge> r. equal_rounds n_ubatch ids (round_state ids c ba r 0) = Some (round_state ids c ba m 0)
    \<and> (\<forall>s < length ids. c ! s + m \<le> length (ids ! s)) \<and> (m \<le> 1 \<or> m * length ids \<le> n_ubatch)
    \<and> ((\<forall>s < length ids. c ! s + r < length (ids ! s)) \<longrightarrow> r < m)"
  using room go
proof (induction "length (ids ! 0) - (c ! 0 + r)" arbitrary: r rule: less_induct)
  case less
  let ?done = "\<exists>s < length ids. length (ids ! s) \<le> c ! s + r"
  have fst: "fst (round_state ids c ba r 0) ! s = c ! s + r" if "s < length ids" for s
    using that by (simp add: round_state_def in_round_def)
  have exit_iff: "list_ex (\<lambda>s. length (ids ! s) \<le> fst (round_state ids c ba r 0) ! s) [0..<length ids] \<longleftrightarrow> ?done"
    using fst by (auto simp: list_ex_iff)
  show ?case
  proof (cases ?done)
    case True
    then have "equal_rounds n_ubatch ids (round_state ids c ba r 0) = Some (round_state ids c ba r 0)"
      using exit_iff by (subst equal_rounds.simps) simp
    moreover have "r \<le> 1 \<or> r * length ids \<le> n_ubatch" using less.prems(2) by (auto simp: algebra_simps)
    ultimately show ?thesis using True less.prems(1) by (intro exI[of _ r]) (auto simp: not_less)
  next
    case False
    then have room: "\<forall>s < length ids. c ! s + r < length (ids ! s)" by (simp add: not_le)
    have r0: "c ! 0 + r < length (ids ! 0)" using room ne by simp
    have step: "fold_opt (equal_token ids) [0..<length ids] (round_state ids c ba r 0) = Some (round_state ids c ba (Suc r) 0)"
      by (rule round_run[OF room])
    have len: "length (fst (snd (round_state ids c ba (Suc r) 0)) ! 0) = Suc r"
      using r0 ne by (simp add: round_state_def in_round_def)
    have unf: "equal_rounds n_ubatch ids (round_state ids c ba r 0)
        = (if (Suc r + 1) * length ids > n_ubatch then Some (round_state ids c ba (Suc r) 0)
           else equal_rounds n_ubatch ids (round_state ids c ba (Suc r) 0))"
      using False[folded exit_iff] step len by (subst equal_rounds.simps) (simp only: if_False Option.bind.simps)
    show ?thesis
    proof (cases "(Suc r + 1) * length ids > n_ubatch")
      case True
      have "Suc r \<le> 1 \<or> Suc r * length ids \<le> n_ubatch" using less.prems(2) by (cases r) auto
      then show ?thesis using True unf room by (intro exI[of _ "Suc r"]) (auto simp: Suc_le_eq)
    next
      case stay: False
      have "length (ids ! 0) - (c ! 0 + Suc r) < length (ids ! 0) - (c ! 0 + r)" using r0 by simp
      moreover have "\<forall>s < length ids. c ! s + Suc r \<le> length (ids ! s)" using room by (auto simp: Suc_le_eq)
      moreover have "0 < Suc r \<longrightarrow> (Suc r + 1) * length ids \<le> n_ubatch" using stay by simp
      ultimately obtain m where "m \<ge> Suc r" "equal_rounds n_ubatch ids (round_state ids c ba (Suc r) 0) = Some (round_state ids c ba m 0)"
        "\<forall>s < length ids. c ! s + m \<le> length (ids ! s)" "m \<le> 1 \<or> m * length ids \<le> n_ubatch"
        using less.hyps[of "Suc r"] by blast
      then show ?thesis using stay unf by (intro exI[of _ m]) auto
    qed
  qed
qed

subsection \<open>One micro-batch\<close>

text \<open>The used tokens of every sequence set are its first ones.\<close>

definition prefix_used :: "allocr \<Rightarrow> (int set \<Rightarrow> nat) \<Rightarrow> bool list \<Rightarrow> bool" where
  "prefix_used ba f u \<longleftrightarrow> length u = get_n_tokens ba
     \<and> (\<forall>S. f S \<le> length (ids_of ba S) \<and> (\<forall>j < length (ids_of ba S). u ! (ids_of ba S ! j) = (j < f S)))"

lemma ids_of_at:
  assumes "j < length (ids_of ba S)"
  shows "ids_of ba S ! j < get_n_tokens ba" "tok_set ba (ids_of ba S ! j) = S"
  using nth_mem[OF assms] by (auto simp: ids_of_def)

lemma ids_of_index:
  assumes "i < get_n_tokens ba"
  shows "\<exists>j < length (ids_of ba (tok_set ba i)). ids_of ba (tok_set ba i) ! j = i"
  using assms unfolding in_set_conv_nth[symmetric] by (simp add: ids_of_def)

lemma ids_of_distinct: "distinct (ids_of ba S)"
  by (simp add: ids_of_def)

lemma ids_of_in: "i \<in> set (ids_of ba S) \<longleftrightarrow> i < get_n_tokens ba \<and> tok_set ba i = S"
  by (auto simp: ids_of_def)

text \<open>The tokens a micro-batch takes: the next \<open>m\<close> of each of its sequence sets.\<close>

definition taken_of :: "allocr \<Rightarrow> (int set \<Rightarrow> nat) \<Rightarrow> nat \<Rightarrow> int set \<Rightarrow> nat list" where
  "taken_of ba f m S = take m (drop (f S) (ids_of ba S))"

lemma taken_of_in:
  "i \<in> set (taken_of ba f m S) \<Longrightarrow> i < get_n_tokens ba \<and> tok_set ba i = S"
  by (auto simp: taken_of_def ids_of_in dest!: in_set_takeD in_set_dropD)

lemma taken_of_nth:
  assumes "j < length (ids_of ba S)"
  shows "ids_of ba S ! j \<in> set (taken_of ba f m S) \<longleftrightarrow> f S \<le> j \<and> j < f S + m"
proof
  assume "ids_of ba S ! j \<in> set (taken_of ba f m S)"
  then obtain t where t: "t < m" "f S + t < length (ids_of ba S)" "ids_of ba S ! (f S + t) = ids_of ba S ! j"
    by (auto simp: taken_of_def in_set_conv_nth)
  then have "f S + t = j" using assms ids_of_distinct by (simp add: nth_eq_iff_index_eq)
  then show "f S \<le> j \<and> j < f S + m" using t(1) by auto
next
  assume "f S \<le> j \<and> j < f S + m"
  then show "ids_of ba S ! j \<in> set (taken_of ba f m S)" using assms
    by (auto simp: taken_of_def in_set_conv_nth intro!: exI[of _ "j - f S"])
qed

definition advance :: "(int set \<Rightarrow> nat) \<Rightarrow> nat \<Rightarrow> int set list \<Rightarrow> int set \<Rightarrow> nat" where
  "advance f m cur S = (if S \<in> set cur then f S + m else f S)"

lemma prefix_used_advance:
  assumes p: "prefix_used ba f u" and room: "\<forall>S \<in> set cur. f S + m \<le> length (ids_of ba S)"
  shows "prefix_used ba (advance f m cur) (map (\<lambda>i. u ! i \<or> (\<exists>S \<in> set cur. i \<in> set (taken_of ba f m S))) [0..<get_n_tokens ba])"
  unfolding prefix_used_def
proof (intro conjI allI impI)
  fix S
  show "advance f m cur S \<le> length (ids_of ba S)" using p room by (auto simp: prefix_used_def advance_def)
  fix j assume j: "j < length (ids_of ba S)"
  note at = ids_of_at[OF j]
  have "(\<exists>T \<in> set cur. ids_of ba S ! j \<in> set (taken_of ba f m T)) \<longleftrightarrow> S \<in> set cur \<and> f S \<le> j \<and> j < f S + m"
    using taken_of_in[of "ids_of ba S ! j" ba f m] at(2) taken_of_nth[OF j, of f m] by metis
  moreover have "u ! (ids_of ba S ! j) = (j < f S)" using p j by (simp add: prefix_used_def)
  ultimately show "map (\<lambda>i. u ! i \<or> (\<exists>S \<in> set cur. i \<in> set (taken_of ba f m S))) [0..<get_n_tokens ba] ! (ids_of ba S ! j)
      = (j < advance f m cur S)"
    using at(1) by (auto simp: advance_def)
qed simp

text \<open>The shape of a micro-batch of equal sequences.\<close>

definition equal_shape :: "nat \<Rightarrow> full_ubatch \<Rightarrow> bool" where
  "equal_shape n_ubatch u \<longleftrightarrow> fu_equal_seqs u \<and> 0 < fu_n_seq_tokens u \<and> ub_n_tokens u = fu_n_seqs u * fu_n_seq_tokens u
     \<and> (\<forall>s < fu_n_seqs u. \<forall>t < fu_n_seq_tokens u. set (ub_seq_id u ! (s * fu_n_seq_tokens u + t)) = set (ub_seq_id u ! (s * fu_n_seq_tokens u)))
     \<and> (\<forall>s < fu_n_seqs u. \<forall>s' < s. set (ub_seq_id u ! (s * fu_n_seq_tokens u)) \<inter> set (ub_seq_id u ! (s' * fu_n_seq_tokens u)) = {})
     \<and> (ub_n_tokens u \<le> n_ubatch \<or> fu_n_seq_tokens u = 1 \<and> fu_n_seqs u \<le> n_ubatch + 1)"

lemma equal_shapeI:
  assumes v: "ub_valid ba (concat (map g cur)) u" "fu_equal_seqs u" "fu_n_seqs u = length cur" "fu_n_seq_tokens u = length (concat (map g cur)) div length cur"
    and g: "\<And>S. S \<in> set cur \<Longrightarrow> length (g S) = m \<and> (\<forall>i \<in> set (g S). tok_set ba i = S)"
    and m: "0 < m" "m = 1 \<or> m * length cur \<le> n_ubatch" and cur: "cur \<noteq> []" "disjoint_sets_list cur" "length cur \<le> n_ubatch + 1"
  shows "equal_shape n_ubatch u"
proof -
  have len: "length (concat (map g cur)) = length cur * m" using g by (intro length_concat_uniform) simp
  have tokens: "ub_n_tokens u = length cur * m" "ub_seq_id u = map (seqs_of (ba_batch ba)) (concat (map g cur))"
    using v(1) len by (simp_all add: ub_valid_def)
  have nst: "fu_n_seq_tokens u = m" using v(4) len cur(1) by simp
  have at: "set (ub_seq_id u ! (s * m + t)) = cur ! s" if s: "s < length cur" and t: "t < m" for s t
  proof -
    have "s * m + t < Suc s * m" using t by simp
    also have "\<dots> \<le> length cur * m" using s by (intro mult_le_mono1) simp
    finally have lt: "s * m + t < length cur * m" .
    have "(s * m + t) div m = s" "(s * m + t) mod m = t" using div_mod_row[OF t, of s] by (simp_all add: mult.commute)
    then have "concat (map g cur) ! (s * m + t) = g (cur ! s) ! t"
      using nth_concat_uniform[of cur g m "s * m + t"] g lt by simp
    moreover have "g (cur ! s) ! t \<in> set (g (cur ! s))" using g[of "cur ! s"] s t by (intro nth_mem) simp
    ultimately show ?thesis using g[of "cur ! s"] s lt len by (simp add: tokens(2))
  qed
  have dis: "cur ! s \<inter> cur ! s' = {}" if "s < length cur" "s' < s" for s s'
    using cur(2) sorted_wrt_nth_less[of "\<lambda>A B. A \<inter> B = {}" cur s' s] that by (auto simp: disjoint_sets_list_def)
  have first: "set (ub_seq_id u ! (s * m)) = cur ! s" if "s < length cur" for s using at[OF that m(1)] by simp
  have fits: "length cur * m \<le> n_ubatch \<or> m = 1" using m(2) by (auto simp: mult.commute)
  show ?thesis
    unfolding equal_shape_def nst v(3) using v(2) m(1) cur(3) tokens(1) at first dis fits by auto
qed

lemma split_equal_step:
  fixes n_ubatch :: nat and seqtl :: bool
  assumes r: "alloc_ready ba" and p: "prefix_used ba f u" and left: "\<exists>i < get_n_tokens ba. \<not> u ! i" and c: "\<not> (seqtl \<and> ba_has_cpl ba)"
  shows "\<exists>ub cur m u'. let idxs = concat (map (taken_of ba f m) cur) in
      split_equal n_ubatch seqtl (split_state ba u k os) = Some (ub, split_state ba u' (k + length idxs) (os @ out_tokens ba idxs))
    \<and> ub_valid ba idxs ub \<and> equal_shape n_ubatch ub \<and> cur \<noteq> [] \<and> disjoint_sets_list cur \<and> 0 < m \<and> {} \<notin> set cur
    \<and> (\<forall>S \<in> set cur. f S + m \<le> length (ids_of ba S)) \<and> prefix_used ba (advance f m cur) u'
    \<and> equal_sets (split_state ba u k os) n_ubatch seqtl [0..<get_n_tokens ba] [] (- 1) = Some cur \<and> (m \<le> 1 \<or> m * length cur \<le> n_ubatch)"
proof -
  let ?ba = "split_state ba u k os" and ?n = "get_n_tokens ba"
  note d = alloc_readyD[OF r]
  have lu: "length u = ?n" using p by (simp add: prefix_used_def)
  have r': "alloc_ready ?ba" using r by simp
  have ts: "tok_set ?ba i = tok_set ba i" for i by simp
  have "disjoint_sets_list []" by (simp add: disjoint_sets_list_def)
  then obtain cur where cur: "equal_sets ?ba n_ubatch seqtl [0..<?n] [] (- 1) = Some cur" "disjoint_sets_list cur"
    "\<forall>S \<in> set cur. \<exists>i \<in> {..<?n}. \<not> u ! i \<and> S = tok_set ba i" "length cur \<le> n_ubatch + 1" "cur \<noteq> []"
    using equal_sets_value[OF r', of "[0..<?n]" "[]" n_ubatch seqtl "- 1"] left lu by (auto simp: atLeast0LessThan)
  have sets: "ba_seq_set_map ba = ids_of ba" by (rule ext) (simp add: d(9) ids_of_def get_n_tokens_def)
  have nc: "(seqtl \<and> ba_has_cpl ba) = False" using c by simp
  have open_set: "f S < length (ids_of ba S)" if S: "S \<in> set cur" for S
  proof -
    obtain i where i: "i < ?n" "\<not> u ! i" "S = tok_set ba i" using cur(3) S by blast
    obtain j where j: "j < length (ids_of ba S)" "ids_of ba S ! j = i" using ids_of_index[OF i(1)] i(3) by blast
    then have "\<not> j < f S" using p i(2) by (auto simp: prefix_used_def)
    then show ?thesis using j(1) by simp
  qed
  let ?ids = "map (ids_of ba) cur" and ?c = "map f cur"
  have skip: "skip_used u (ids_of ba S) 0 = Some (f S)" if "S \<in> set cur" for S
    using p lu ids_of_at[of _ ba S] by (intro skip_used_value[OF open_set[OF that]]) (auto simp: prefix_used_def)
  have start: "gather (\<lambda>l. skip_used u l 0) ?ids = Some ?c"
    using skip unfolding gather_def by (induction cur) auto
  have len: "length ?ids = length cur" by simp
  have uu: "map ((!) u) [0..<?n] = u" using lu map_nth[of u] by simp
  have init: "(?c, replicate (length cur) [], ?ba) = round_state ?ids ?c ?ba 0 0"
    using lu uu by (auto simp: round_state_def in_round_def split_state_def intro!: nth_equalityI)
  have room0: "\<forall>s < length ?ids. ?c ! s + 0 \<le> length (?ids ! s)" "\<forall>s < length ?ids. ?c ! s + 0 < length (?ids ! s)"
    using open_set by (auto simp: less_imp_le)
  obtain m where m: "equal_rounds n_ubatch ?ids (round_state ?ids ?c ?ba 0 0) = Some (round_state ?ids ?c ?ba m 0)"
    "\<forall>s < length ?ids. ?c ! s + m \<le> length (?ids ! s)" "m \<le> 1 \<or> m * length ?ids \<le> n_ubatch" "0 < m"
    using equal_rounds_value[of ?ids ?c 0 n_ubatch ?ba] room0 cur(5) by auto
  have room: "\<forall>S \<in> set cur. f S + m \<le> length (ids_of ba S)" using m(2) by (auto simp: in_set_conv_nth)
  let ?idxs = "concat (map (taken_of ba f m) cur)"
  let ?u' = "map (\<lambda>i. u ! i \<or> (\<exists>S \<in> set cur. i \<in> set (taken_of ba f m S))) [0..<?n]"
  have taken: "map (\<lambda>s. take (in_round m 0 s) (drop (?c ! s) (?ids ! s))) [0..<length ?ids] = map (taken_of ba f m) cur"
    by (intro nth_equalityI) (simp_all add: taken_of_def in_round_def)
  have glen: "length (taken_of ba f m S) = m" if "S \<in> set cur" for S using bspec[OF room that] by (simp add: taken_of_def)
  have il: "length ?idxs = length cur * m" using glen by (intro length_concat_uniform)
  have ex: "(\<exists>s < length ?ids. i \<in> set (take (in_round m 0 s) (drop (?c ! s) (?ids ! s)))) = (\<exists>S \<in> set cur. i \<in> set (taken_of ba f m S))" for i
  proof -
    have "(\<exists>s < length cur. i \<in> set (taken_of ba f m (cur ! s))) = (\<exists>S \<in> set cur. i \<in> set (taken_of ba f m S))"
      by (metis in_set_conv_nth)
    moreover have "take (in_round m 0 s) (drop (?c ! s) (?ids ! s)) = taken_of ba f m (cur ! s)" if "s < length cur" for s
      using that by (simp add: in_round_def taken_of_def)
    ultimately show ?thesis by (simp cong: conj_cong)
  qed
  have st: "round_state ?ids ?c ?ba m 0 = (map (\<lambda>s. ?c ! s + in_round m 0 s) [0..<length ?ids], map (taken_of ba f m) cur,
      split_state ba ?u' (k + length ?idxs) os)"
    unfolding round_state_def taken ex il using lu by (simp add: split_state_def mult.commute)
  have sub: "set ?idxs \<subseteq> {..<get_n_tokens (split_state ba ?u' (k + length ?idxs) os)}" using taken_of_in by auto
  have dv: "length cur \<noteq> 0" "length ?idxs mod length cur = 0" using cur(5) il by simp_all
  have r2: "alloc_ready (split_state ba ?u' (k + length ?idxs) os)" using r by simp
  obtain ub where ub: "ubatch_add ?idxs (length cur) True (split_state ba ?u' (k + length ?idxs) os)
      = Some (ub, split_state ba ?u' (k + length ?idxs) (os @ out_tokens ba ?idxs))"
    "ub_valid ba ?idxs ub" "fu_equal_seqs ub" "fu_n_seqs ub = length cur" "fu_n_seq_tokens ub = length ?idxs div length cur"
    using ubatch_add_value[OF r2 sub dv, of True] by (auto simp: ub_valid_def)
  have run: "split_equal n_ubatch seqtl ?ba = Some (ub, split_state ba ?u' (k + length ?idxs) (os @ out_tokens ba ?idxs))"
    using cur(1,5) start m(1) ub(1) unfolding split_equal_def split_state_fields nc by (simp add: Let_def sets init st)
  have "equal_shape n_ubatch ub"
    by (rule equal_shapeI[OF ub(2-5), of m]) (use glen taken_of_in m(3,4) cur(2,4,5) in \<open>auto simp: le_Suc_eq\<close>)
  moreover have "{} \<notin> set cur" using cur(3) d(6) by (force simp: get_n_tokens_def)
  ultimately show ?thesis using run ub(2) cur(1,2,5) m(3,4) room prefix_used_advance[OF p room]
    by (intro exI[of _ ub] exI[of _ cur] exI[of _ m] exI[of _ ?u']) (simp add: Let_def)
qed

text \<open>
  The stop test of the loop over the tokens: if the first \<open>n + 1\<close> tokens have pairwise disjoint
  sequence sets, all of these are taken for a micro-batch of \<open>n\<close> tokens.
\<close>

lemma equal_sets_overfull:
  assumes r: "alloc_ready ba" and u: "ba_used ba = replicate (get_n_tokens ba) False" and n: "n < get_n_tokens ba"
    and dis: "\<And>i j. i < j \<Longrightarrow> j \<le> n \<Longrightarrow> tok_set ba i \<inter> tok_set ba j = {}"
    and seq: "\<And>i. seqtl \<Longrightarrow> i < n \<Longrightarrow> seqs_of (ba_batch ba) (Suc i) ! 0 = seqs_of (ba_batch ba) i ! 0 + 1"
    and k: "k \<le> n"
  shows "equal_sets ba n seqtl [k..<get_n_tokens ba] (map (tok_set ba) [0..<k]) (if k = 0 then - 1 else seqs_of (ba_batch ba) (k - 1) ! 0)
    = Some (map (tok_set ba) [0..<Suc n])"
  using k
proof (induction k rule: inc_induct)
  case base
  note d = alloc_readyD[OF r]
  have rd: "read_at n (ba_used ba) = Some False" "read_at n (ba_seq_set ba) = Some (tok_set ba n)"
    "tok_seq0 (ba_batch ba) n = Some (seqs_of (ba_batch ba) n ! 0)"
    using n u d(7,8) by (simp_all add: get_n_tokens_def)
  have "list_all (\<lambda>T. T \<inter> tok_set ba n = {}) (map (tok_set ba) [0..<n])" using dis by (simp add: list_all_iff)
  moreover have "n \<noteq> 0 \<Longrightarrow> seqtl \<Longrightarrow> seqs_of (ba_batch ba) n ! 0 = seqs_of (ba_batch ba) (n - 1) ! 0 + 1" using seq[of "n - 1"] by simp
  ultimately show ?case using n rd upt_conv_Cons[of n "get_n_tokens ba"] by (cases "n = 0"; cases seqtl) simp_all
next
  case (step k)
  note d = alloc_readyD[OF r]
  have kn: "k < get_n_tokens ba" using step.hyps n by simp
  have rd: "read_at k (ba_used ba) = Some False" "read_at k (ba_seq_set ba) = Some (tok_set ba k)"
    "tok_seq0 (ba_batch ba) k = Some (seqs_of (ba_batch ba) k ! 0)"
    using kn u d(7,8) by (simp_all add: get_n_tokens_def)
  have "list_all (\<lambda>T. T \<inter> tok_set ba k = {}) (map (tok_set ba) [0..<k])" using dis step.hyps by (simp add: list_all_iff)
  moreover have "k \<noteq> 0 \<Longrightarrow> seqtl \<Longrightarrow> seqs_of (ba_batch ba) k ! 0 = seqs_of (ba_batch ba) (k - 1) ! 0 + 1" using seq[of "k - 1"] step.hyps by simp
  ultimately show ?case using kn step.hyps step.IH rd upt_conv_Cons[of k "get_n_tokens ba"] by (cases "k = 0"; cases seqtl) simp_all
qed

lemma split_equal_overfull:
  fixes n :: nat and seqtl :: bool
  assumes r: "alloc_ready ba" and c: "\<not> (seqtl \<and> ba_has_cpl ba)" and n: "n < get_n_tokens ba" "0 < n"
    and dis: "\<And>i j. i < j \<Longrightarrow> j \<le> n \<Longrightarrow> tok_set ba i \<inter> tok_set ba j = {}"
    and seq: "\<And>i. seqtl \<Longrightarrow> i < n \<Longrightarrow> seqs_of (ba_batch ba) (Suc i) ! 0 = seqs_of (ba_batch ba) i ! 0 + 1"
  shows "\<exists>ub ba'. split_equal n seqtl (split_reset ba) = Some (ub, ba') \<and> ub_n_tokens ub = n + 1"
proof -
  let ?N = "get_n_tokens ba" and ?u = "replicate (get_n_tokens ba) False"
  have p: "prefix_used ba (\<lambda>_. 0) ?u" using ids_of_at by (auto simp: prefix_used_def)
  have left: "\<exists>i < ?N. \<not> ?u ! i" using n by auto
  obtain ub cur m u' where s: "split_equal n seqtl (split_state ba ?u 0 []) = Some (ub, split_state ba u' (0 + length (concat (map (taken_of ba (\<lambda>_. 0) m) cur)))
        ([] @ out_tokens ba (concat (map (taken_of ba (\<lambda>_. 0) m) cur))))"
    "ub_valid ba (concat (map (taken_of ba (\<lambda>_. 0) m) cur)) ub" "0 < m" "\<forall>S \<in> set cur. m \<le> length (ids_of ba S)"
    "equal_sets (split_state ba ?u 0 []) n seqtl [0..<?N] [] (- 1) = Some cur" "m \<le> 1 \<or> m * length cur \<le> n"
    using split_equal_step[OF r p left c, of n 0 "[]"] by (auto simp: Let_def)
  have "cur = map (tok_set ba) [0..<Suc n]"
    using equal_sets_overfull[of "split_state ba ?u 0 []" n seqtl 0] r n dis seq s(5) by simp
  then have len: "length cur = Suc n" by simp
  have m: "m = 1"
  proof (rule ccontr)
    assume "m \<noteq> 1"
    then have "m * Suc n \<le> n" using s(3,6) len by simp
    moreover have "1 * Suc n \<le> m * Suc n" using s(3) by (intro mult_le_mono1) simp
    ultimately show False by simp
  qed
  have "length (taken_of ba (\<lambda>_. 0) m S) = m" if "S \<in> set cur" for S using bspec[OF s(4) that] by (simp add: taken_of_def)
  then have "length (concat (map (taken_of ba (\<lambda>_. 0) m) cur)) = length cur * m" by (intro length_concat_uniform)
  then have "ub_n_tokens ub = n + 1" using s(2) len m by (simp add: ub_valid_def)
  then show ?thesis using s(1) by (simp add: split_reset_state)
qed

subsection \<open>All micro-batches\<close>

lemma filter_taken:
  assumes "disjoint_sets_list cur" and "{} \<notin> set cur"
  shows "filter (\<lambda>i. tok_set ba i = S) (concat (map (taken_of ba f m) cur)) = (if S \<in> set cur then taken_of ba f m S else [])"
  using assms
proof (induction cur)
  case (Cons T cur)
  have own: "filter (\<lambda>i. tok_set ba i = S) (taken_of ba f m T) = (if T = S then taken_of ba f m T else [])"
    using taken_of_in[of _ ba f m T] by (auto simp: filter_id_conv filter_empty_conv)
  have "S \<notin> set cur" if "T = S" using Cons.prems that by (auto simp: disjoint_sets_list_def)
  then show ?case using Cons by (auto simp: own disjoint_sets_list_def)
qed simp

lemma split_equal_end:
  assumes r: "alloc_ready ba" and p: "prefix_used ba f u" and all: "\<forall>i < get_n_tokens ba. u ! i"
  shows "split_equal n_ubatch seqtl (split_state ba u k os) = Some (ubatch_empty, split_state ba u k os)"
proof -
  let ?ba = "split_state ba u k os"
  have "alloc_ready ?ba" "disjoint_sets_list []" "length (ba_used ?ba) = get_n_tokens ?ba"
    using r p by (simp_all add: disjoint_sets_list_def prefix_used_def)
  then obtain r where "equal_sets ?ba n_ubatch seqtl [0..<get_n_tokens ba] [] (- 1) = Some ([] @ r)"
    "\<forall>S \<in> set r. \<exists>i \<in> set [0..<get_n_tokens ba]. \<not> ba_used ?ba ! i \<and> S = tok_set ?ba i"
    using equal_sets_value[of ?ba "[0..<get_n_tokens ba]" "[]" n_ubatch seqtl "- 1"] by (auto simp: atLeast0LessThan)
  moreover have "r = []" using calculation(2) all by (cases r) auto
  ultimately show ?thesis by (simp add: split_equal_def)
qed

lemma unused_decreases:
  assumes p: "prefix_used ba f u" and p': "prefix_used ba (advance f m cur) u'" and cur: "cur \<noteq> []" "0 < m"
    and room: "\<forall>S \<in> set cur. f S + m \<le> length (ids_of ba S)"
  shows "card {i. i < get_n_tokens ba \<and> \<not> u' ! i} < card {i. i < get_n_tokens ba \<and> \<not> u ! i}"
proof (rule psubset_card_mono)
  obtain S where S: "S \<in> set cur" using cur(1) by (cases cur) auto
  then have j: "f S < length (ids_of ba S)" using cur(2) room by fastforce
  let ?i = "ids_of ba S ! f S"
  have i: "?i < get_n_tokens ba" "tok_set ba ?i = S" using ids_of_at[OF j] by auto
  have new: "\<not> u ! ?i" "u' ! ?i" using p p' j S cur(2) by (auto simp: prefix_used_def advance_def)
  have keep: "u' ! i" if a: "i < get_n_tokens ba" "u ! i" for i
  proof -
    obtain j where k: "j < length (ids_of ba (tok_set ba i))" "ids_of ba (tok_set ba i) ! j = i" using ids_of_index[OF a(1)] by blast
    have "u ! (ids_of ba (tok_set ba i) ! j) = (j < f (tok_set ba i))"
      "u' ! (ids_of ba (tok_set ba i) ! j) = (j < advance f m cur (tok_set ba i))"
      using p p' k(1) unfolding prefix_used_def by blast+
    then show ?thesis using a(2) unfolding k(2) by (auto simp: advance_def)
  qed
  show "{i. i < get_n_tokens ba \<and> \<not> u' ! i} \<subset> {i. i < get_n_tokens ba \<and> \<not> u ! i}"
    using keep new i(1) by blast
qed simp

lemma split_equal_run:
  fixes n_ubatch :: nat and seqtl :: bool
  assumes r: "alloc_ready ba" and p: "prefix_used ba f u" and c: "\<not> (seqtl \<and> ba_has_cpl ba)"
  shows "\<exists>us css u'. split_all (split_equal n_ubatch seqtl) acc (split_state ba u k os)
      = Some (acc @ us, split_state ba u' (k + length (concat css)) (os @ out_tokens ba (concat css)))
    \<and> list_all2 (ub_valid ba) css us \<and> list_all (equal_shape n_ubatch) us
    \<and> (\<forall>S. filter (\<lambda>i. tok_set ba i = S) (concat css) = drop (f S) (ids_of ba S)) \<and> set (concat css) \<subseteq> {..<get_n_tokens ba}"
  using p
proof (induction "card {i. i < get_n_tokens ba \<and> \<not> u ! i}" arbitrary: u f k os acc rule: less_induct)
  case less
  show ?case
  proof (cases "\<exists>i < get_n_tokens ba. \<not> u ! i")
    case False
    have "f S = length (ids_of ba S)" for S
    proof (rule ccontr)
      assume "f S \<noteq> length (ids_of ba S)"
      then have j: "f S < length (ids_of ba S)" using less.prems by (simp add: prefix_used_def order.strict_iff_order)
      then have "\<not> u ! (ids_of ba S ! f S)" using less.prems by (simp add: prefix_used_def)
      then show False using False ids_of_at(1)[OF j] by blast
    qed
    then have done_all: "drop (f S) (ids_of ba S) = []" for S by simp
    have "split_equal n_ubatch seqtl (split_state ba u k os) = Some (ubatch_empty, split_state ba u k os)"
      using split_equal_end[OF r less.prems] False by blast
    then have "split_all (split_equal n_ubatch seqtl) acc (split_state ba u k os) = Some (acc, split_state ba u k os)"
      by (rule split_all_step(2)) simp
    then show ?thesis using done_all by (intro exI[of _ "[]"] exI[of _ "[]"] exI[of _ u]) simp
  next
    case True
    obtain ub cur m u' where step: "let idxs = concat (map (taken_of ba f m) cur) in
        split_equal n_ubatch seqtl (split_state ba u k os) = Some (ub, split_state ba u' (k + length idxs) (os @ out_tokens ba idxs))
      \<and> ub_valid ba idxs ub \<and> equal_shape n_ubatch ub \<and> cur \<noteq> [] \<and> disjoint_sets_list cur \<and> 0 < m \<and> {} \<notin> set cur
      \<and> (\<forall>S \<in> set cur. f S + m \<le> length (ids_of ba S)) \<and> prefix_used ba (advance f m cur) u'"
      using split_equal_step[OF r less.prems True c, of n_ubatch k os] unfolding Let_def by blast
    define idxs where "idxs = concat (map (taken_of ba f m) cur)"
    have s: "split_equal n_ubatch seqtl (split_state ba u k os) = Some (ub, split_state ba u' (k + length idxs) (os @ out_tokens ba idxs))"
      "ub_valid ba idxs ub" "equal_shape n_ubatch ub" "cur \<noteq> []" "disjoint_sets_list cur" "0 < m" "{} \<notin> set cur"
      "\<forall>S \<in> set cur. f S + m \<le> length (ids_of ba S)" "prefix_used ba (advance f m cur) u'"
      using step unfolding Let_def idxs_def[symmetric] by blast+
    obtain us css v where rest: "split_all (split_equal n_ubatch seqtl) (acc @ [ub]) (split_state ba u' (k + length idxs) (os @ out_tokens ba idxs))
        = Some ((acc @ [ub]) @ us, split_state ba v ((k + length idxs) + length (concat css)) ((os @ out_tokens ba idxs) @ out_tokens ba (concat css)))"
      "list_all2 (ub_valid ba) css us" "list_all (equal_shape n_ubatch) us"
      "\<forall>S. filter (\<lambda>i. tok_set ba i = S) (concat css) = drop (advance f m cur S) (ids_of ba S)" "set (concat css) \<subseteq> {..<get_n_tokens ba}"
      using less.hyps[OF unused_decreases[OF less.prems s(9,4,6,8)] s(9), of "acc @ [ub]" "k + length idxs" "os @ out_tokens ba idxs"] by blast
    have "idxs \<noteq> []"
    proof -
      obtain S where S: "S \<in> set cur" using s(4) by (cases cur) auto
      then have "length (taken_of ba f m S) = m" using bspec[OF s(8) S] by (simp add: taken_of_def)
      then have "taken_of ba f m S \<noteq> []" using s(6) by auto
      then show ?thesis using S by (auto simp: idxs_def)
    qed
    then have "ub_n_tokens ub \<noteq> 0" using s(2) by (simp add: ub_valid_def)
    note run = split_all_step(1)[where split = "split_equal n_ubatch seqtl" and us = acc, OF s(1) this]
    have "filter (\<lambda>i. tok_set ba i = S) (concat (idxs # css)) = drop (f S) (ids_of ba S)" for S
    proof -
      have "filter (\<lambda>i. tok_set ba i = S) idxs = (if S \<in> set cur then taken_of ba f m S else [])"
        unfolding idxs_def by (rule filter_taken[OF s(5,7)])
      then show ?thesis using rest(4) by (simp add: advance_def taken_of_def) (metis append_take_drop_id drop_drop add.commute)
    qed
    moreover have "set (concat (idxs # css)) \<subseteq> {..<get_n_tokens ba}" using rest(5) taken_of_in by (auto simp: idxs_def)
    moreover have "split_all (split_equal n_ubatch seqtl) acc (split_state ba u k os)
        = Some (acc @ (ub # us), split_state ba v (k + length (concat (idxs # css))) (os @ out_tokens ba (concat (idxs # css))))"
      using run rest(1) by (simp add: add.assoc)
    moreover have "list_all2 (ub_valid ba) (idxs # css) (ub # us)" using s(2) rest(2) by simp
    moreover have "list_all (equal_shape n_ubatch) (ub # us)" using s(3) rest(3) by simp
    ultimately show ?thesis by blast
  qed
qed

end
