(* ===== verification/Batch_Init.thy ===== *)
theory Batch_Init
  imports Batch_Equal
begin

text \<open>
  What \<open>llama_batch_allocr::init\<close> establishes for a batch it accepts, what its checks reject, and the
  splits of an accepted batch.
\<close>

subsection \<open>The loops over the tokens\<close>

text \<open>Token \<open>i\<close> can be read: it has sequences and a position.\<close>

definition token_ok :: "batch \<Rightarrow> nat \<Rightarrow> bool" where
  "token_ok b i \<longleftrightarrow> tok_seqs b i \<noteq> None \<and> tok_seq0 b i \<noteq> None \<and> i < length (arr (bt_pos b)) \<and> (\<forall>q \<in> set (seqs_of b i). seq_id_ok q)"

definition pos_of :: "batch \<Rightarrow> nat \<Rightarrow> int" where
  "pos_of b i = arr (bt_pos b) ! i"

definition batch_positions :: "batch \<Rightarrow> nat \<Rightarrow> int \<Rightarrow> int set" where
  "batch_positions b k q = {pos_of b i | i. i < k \<and> q \<in> set (seqs_of b i)}"

lemma batch_positions_Suc:
  "batch_positions b (Suc k) q = (if q \<in> set (seqs_of b k) then insert (pos_of b k) (batch_positions b k q) else batch_positions b k q)"
  by (auto simp: batch_positions_def less_Suc_eq)

lemma batch_positions_finite [simp]: "finite (batch_positions b k q)"
  by (simp add: batch_positions_def)

lemma note_pairs:
  "\<exists>c h. fold (note_pair p s0) xs ba
    = ba\<lparr>ba_seq_pos := (\<lambda>q. if q \<in> snd ` set xs then insert p (ba_seq_pos ba q) else ba_seq_pos ba q), ba_seq_cpl := c, ba_has_cpl := h\<rparr>"
proof (induction xs arbitrary: ba)
  case Nil
  show ?case by (intro exI[of _ "ba_seq_cpl ba"] exI[of _ "ba_has_cpl ba"]) simp
next
  case (Cons x xs)
  obtain c0 h0 where one: "note_pair p s0 x ba = ba\<lparr>ba_seq_pos := (ba_seq_pos ba)(snd x := insert p (ba_seq_pos ba (snd x))),
      ba_seq_cpl := c0, ba_has_cpl := h0\<rparr>"
  proof (cases "fst x > 0")
    case False
    then have "note_pair p s0 x ba = ba\<lparr>ba_seq_pos := (ba_seq_pos ba)(snd x := insert p (ba_seq_pos ba (snd x))),
      ba_seq_cpl := ba_seq_cpl ba, ba_has_cpl := ba_has_cpl ba\<rparr>" by (simp add: note_pair_def case_prod_beta)
    then show thesis by (rule that)
  qed (rule that, simp add: note_pair_def case_prod_beta Let_def del: fun_upd_apply)
  obtain c h where rest: "fold (note_pair p s0) xs (note_pair p s0 x ba)
    = (note_pair p s0 x ba)\<lparr>ba_seq_pos := (\<lambda>q. if q \<in> snd ` set xs then insert p (ba_seq_pos (note_pair p s0 x ba) q)
        else ba_seq_pos (note_pair p s0 x ba) q), ba_seq_cpl := c, ba_has_cpl := h\<rparr>"
    using Cons.IH by blast
  have "(\<lambda>q. if q \<in> snd ` set xs then insert p (ba_seq_pos (note_pair p s0 x ba) q) else ba_seq_pos (note_pair p s0 x ba) q)
    = (\<lambda>q. if q \<in> snd ` set (x # xs) then insert p (ba_seq_pos ba q) else ba_seq_pos ba q)"
    by (rule ext) (simp add: one)
  then show ?case using rest by (intro exI[of _ c] exI[of _ h]) (simp add: one)
qed

lemma note_token_value:
  "note_token i ba = Some ba' \<Longrightarrow> token_ok (ba_batch ba) i \<and> (\<exists>c h. ba' = ba\<lparr>ba_seq_pos := (\<lambda>q. if q \<in> set (seqs_of (ba_batch ba) i)
      then insert (pos_of (ba_batch ba) i) (ba_seq_pos ba q) else ba_seq_pos ba q), ba_seq_cpl := c, ba_has_cpl := h\<rparr>)"
proof -
  assume run: "note_token i ba = Some ba'"
  then obtain s0 seqs p where r: "tok_seq0 (ba_batch ba) i = Some s0" "tok_seqs (ba_batch ba) i = Some seqs" "read_at i (arr (bt_pos (ba_batch ba))) = Some p"
    "list_all seq_id_ok seqs" by (auto simp: note_token_def bind_eq_Some_conv split: if_splits)
  have p: "i < length (arr (bt_pos (ba_batch ba)))" "p = pos_of (ba_batch ba) i" using r(3) by (auto simp: read_at_def pos_of_def split: if_splits)
  have sq: "seqs_of (ba_batch ba) i = seqs" by (simp add: seqs_of_def r(2))
  have "snd ` set (enumerate 0 seqs) = set seqs" by (metis list.set_map map_snd_enumerate)
  then show ?thesis
    using run note_pairs[of p s0 "enumerate 0 seqs" ba] r p sq by (auto simp: note_token_def token_ok_def list_all_iff)
qed

lemma note_tokens:
  assumes "fold_opt note_token [0..<k] ba = Some ba'"
  shows "(\<forall>i < k. token_ok (ba_batch ba) i) \<and> (\<exists>c h. ba' = ba\<lparr>ba_seq_pos := (\<lambda>q. batch_positions (ba_batch ba) k q \<union> ba_seq_pos ba q),
      ba_seq_cpl := c, ba_has_cpl := h\<rparr>)"
  using assms
proof (induction k arbitrary: ba')
  case 0
  then show ?case by (intro conjI exI[of _ "ba_seq_cpl ba"] exI[of _ "ba_has_cpl ba"]) (simp_all add: batch_positions_def)
next
  case (Suc k)
  then obtain ba1 where b1: "fold_opt note_token [0..<k] ba = Some ba1" "note_token k ba1 = Some ba'"
    by (auto simp: fold_opt_append split: option.splits)
  obtain c h where i: "\<forall>i < k. token_ok (ba_batch ba) i" "ba1 = ba\<lparr>ba_seq_pos := (\<lambda>q. batch_positions (ba_batch ba) k q \<union> ba_seq_pos ba q),
      ba_seq_cpl := c, ba_has_cpl := h\<rparr>" using Suc.IH[OF b1(1)] by blast
  have eq: "ba_batch ba1 = ba_batch ba" by (simp add: i(2))
  obtain c' h' where s: "token_ok (ba_batch ba) k" "ba' = ba1\<lparr>ba_seq_pos := (\<lambda>q. if q \<in> set (seqs_of (ba_batch ba) k)
      then insert (pos_of (ba_batch ba) k) (ba_seq_pos ba1 q) else ba_seq_pos ba1 q), ba_seq_cpl := c', ba_has_cpl := h'\<rparr>"
    using note_token_value[OF b1(2)] unfolding eq by blast
  have "(\<lambda>q. if q \<in> set (seqs_of (ba_batch ba) k) then insert (pos_of (ba_batch ba) k) (ba_seq_pos ba1 q) else ba_seq_pos ba1 q)
      = (\<lambda>q. batch_positions (ba_batch ba) (Suc k) q \<union> ba_seq_pos ba q)"
    by (rule ext) (simp add: i(2) batch_positions_Suc)
  then show ?case using i s by (auto simp: less_Suc_eq)
qed

lemma note_sets:
  assumes "fold_opt note_set [0..<k] ba = Some ba'" and "ba_seq_set ba = []" and "ba_seq_set_map ba = (\<lambda>_. [])"
  shows "ba' = ba\<lparr>ba_seq_set := map (\<lambda>i. set (seqs_of (ba_batch ba) i)) [0..<k],
      ba_seq_set_map := (\<lambda>S. filter (\<lambda>i. set (seqs_of (ba_batch ba) i) = S) [0..<k])\<rparr>"
  using assms
proof (induction k arbitrary: ba')
  case 0
  then show ?case by simp
next
  case (Suc k)
  then obtain ba1 where b1: "fold_opt note_set [0..<k] ba = Some ba1" "note_set k ba1 = Some ba'"
    by (auto simp: fold_opt_append split: option.splits)
  have i: "ba1 = ba\<lparr>ba_seq_set := map (\<lambda>i. set (seqs_of (ba_batch ba) i)) [0..<k],
      ba_seq_set_map := (\<lambda>S. filter (\<lambda>i. set (seqs_of (ba_batch ba) i) = S) [0..<k])\<rparr>" by (rule Suc.IH[OF b1(1) Suc.prems(2,3)])
  obtain seqs where s: "tok_seqs (ba_batch ba) k = Some seqs" using b1(2) by (auto simp: note_set_def i bind_eq_Some_conv)
  have sq: "seqs_of (ba_batch ba) k = seqs" by (simp add: seqs_of_def s)
  have "ba' = ba1\<lparr>ba_seq_set := ba_seq_set ba1 @ [set seqs], ba_seq_set_map := (ba_seq_set_map ba1)(set seqs := ba_seq_set_map ba1 (set seqs) @ [k])\<rparr>"
    using b1(2) s by (simp add: note_set_def i Let_def)
  moreover have "(ba_seq_set_map ba1)(set seqs := ba_seq_set_map ba1 (set seqs) @ [k]) = (\<lambda>S. filter (\<lambda>i. set (seqs_of (ba_batch ba) i) = S) [0..<Suc k])"
    by (rule ext) (auto simp: i sq)
  moreover have "ba_seq_set ba1 @ [set seqs] = map (\<lambda>i. set (seqs_of (ba_batch ba) i)) [0..<Suc k]" by (simp add: i sq)
  ultimately show ?case by (simp add: i)
qed

subsection \<open>The last checks reject nothing but positions below -1\<close>

definition sets_hold :: "(int \<Rightarrow> int set) \<Rightarrow> bool" where
  "sets_hold cs \<longleftrightarrow> (\<forall>q. seq_id_ok q \<longrightarrow> q \<in> cs q)"

lemma order_steps:
  assumes "sets_hold cs" and "\<forall>q \<in> set qs. seq_id_ok q \<and> q \<in> sets ! i"
  shows "if \<forall>q \<in> set qs. - 1 \<le> p then \<exists>cs'. fold_opt (order_step sets i p) qs (cs, \<lambda>_. - 1) = Some (cs', \<lambda>_. - 1) \<and> sets_hold cs'
    else fold_opt (order_step sets i p) qs (cs, \<lambda>_. - 1) = None"
  using assms
proof (induction qs arbitrary: cs)
  case (Cons q qs)
  let ?cs = "cs(q := cs q \<inter> sets ! i)"
  have q: "q \<in> cs q \<inter> sets ! i" using Cons.prems by (auto simp: sets_hold_def)
  then have h: "sets_hold ?cs" using Cons.prems(1) by (auto simp: sets_hold_def)
  have step: "order_step sets i p q (cs, \<lambda>_. - 1) = (if p < - 1 then None else Some (?cs, \<lambda>_. - 1))"
    using q by (auto simp: order_step_def Let_def)
  show ?case using Cons.IH[OF h] Cons.prems(2) step by (cases "p < - 1") auto
qed auto

lemma order_checks_value:
  assumes t: "\<forall>i < get_n_tokens ba. token_ok (ba_batch ba) i"
    and sets: "ba_seq_set ba = map (\<lambda>i. set (seqs_of (ba_batch ba) i)) [0..<get_n_tokens ba]"
  shows "order_checks ba \<longleftrightarrow> (\<forall>i < get_n_tokens ba. seqs_of (ba_batch ba) i \<noteq> [] \<longrightarrow> - 1 \<le> pos_of (ba_batch ba) i)"
proof -
  let ?b = "ba_batch ba" and ?n = "get_n_tokens ba"
  have "if \<forall>i < k. seqs_of ?b i \<noteq> [] \<longrightarrow> - 1 \<le> pos_of ?b i
      then \<exists>cs. fold_opt (order_token ba) [0..<k] (\<lambda>_. {0..<LLAMA_MAX_SEQ}, \<lambda>_. - 1) = Some (cs, \<lambda>_. - 1) \<and> sets_hold cs
      else fold_opt (order_token ba) [0..<k] (\<lambda>_. {0..<LLAMA_MAX_SEQ}, \<lambda>_. - 1) = None" if "k \<le> ?n" for k
    using that
  proof (induction k)
    case 0
    then show ?case by (auto simp: sets_hold_def seq_id_ok_def)
  next
    case (Suc k)
    have k: "k < ?n" using Suc.prems by simp
    have ok: "token_ok ?b k" using t k by blast
    have tok: "order_token ba k st = fold_opt (order_step (ba_seq_set ba) k (pos_of ?b k)) (seqs_of ?b k) st" for st
      using ok by (auto simp: order_token_def token_ok_def seqs_of_def pos_of_def)
    have qs: "\<forall>q \<in> set (seqs_of ?b k). seq_id_ok q \<and> q \<in> ba_seq_set ba ! k" using ok k by (simp add: token_ok_def sets)
    show ?case
    proof (cases "\<forall>i < k. seqs_of ?b i \<noteq> [] \<longrightarrow> - 1 \<le> pos_of ?b i")
      case True
      then obtain cs where cs: "fold_opt (order_token ba) [0..<k] (\<lambda>_. {0..<LLAMA_MAX_SEQ}, \<lambda>_. - 1) = Some (cs, \<lambda>_. - 1)" "sets_hold cs"
        using Suc by auto
      have run: "fold_opt (order_token ba) [0..<Suc k] (\<lambda>_. {0..<LLAMA_MAX_SEQ}, \<lambda>_. - 1)
          = fold_opt (order_step (ba_seq_set ba) k (pos_of ?b k)) (seqs_of ?b k) (cs, \<lambda>_. - 1)"
        using cs(1) tok by (simp add: fold_opt_append split: option.split)
      have all: "(\<forall>i < Suc k. seqs_of ?b i \<noteq> [] \<longrightarrow> - 1 \<le> pos_of ?b i) \<longleftrightarrow> (\<forall>q \<in> set (seqs_of ?b k). - 1 \<le> pos_of ?b k)"
        using True by (cases "seqs_of ?b k") (auto simp: less_Suc_eq)
      show ?thesis using order_steps[OF cs(2) qs] unfolding run all .
    next
      case False
      then have "fold_opt (order_token ba) [0..<k] (\<lambda>_. {0..<LLAMA_MAX_SEQ}, \<lambda>_. - 1) = None" using Suc by auto
      then show ?thesis using False by (auto simp: fold_opt_append less_Suc_eq)
    qed
  qed
  from this[of ?n] show ?thesis by (auto simp: order_checks_def split: if_splits)
qed

subsection \<open>What an accepted batch looks like\<close>

lemma init_parts:
  assumes "alloc_init n_vocab mem n_embd n_seq_max output_all inp ba0 = Some (True, ba)"
  obtains b0 b ba1 where "0 < bt_n_tokens inp" "n_seq_max \<le> 256" "tokens_valid n_vocab inp = Some True" "seqs_valid n_seq_max inp = Some True"
    "fill_pos mem n_seq_max (fill_seq_id (fill_n_seq_id inp)) = Some b0" "fill_logits output_all b0 = Some b"
    "alloc_stats n_embd n_seq_max ((alloc_clear ba0)\<lparr>ba_batch := b\<rparr>) = Some ba1" "alloc_checks mem n_seq_max ba1 = Some (True, ba)"
  using assms by (auto simp: alloc_init_def Let_def bind_eq_Some_conv split: if_splits)

lemma fill_pos_fields:
  assumes "fill_pos mem n_seq_max b = Some b'"
  shows "b' = b\<lparr>bt_pos := bt_pos b'\<rparr>"
  using assms by (auto simp: fill_pos_def Let_def bind_eq_Some_conv split: if_splits)

lemma fill_logits_fields:
  assumes "fill_logits output_all b = Some b'"
  shows "b' = b\<lparr>bt_logits := bt_logits b'\<rparr>"
  using assms by (auto simp: fill_logits_def Let_def split: option.splits if_splits)

lemma stats_value:
  assumes run: "alloc_stats n_embd n_seq_max ba = Some ba1" and c: "ba_seq_set ba = []" "ba_seq_set_map ba = (\<lambda>_. [])" "ba_seq_pos ba = (\<lambda>_. {})"
  defines "b \<equiv> ba_batch ba" and "n \<equiv> bt_n_tokens (ba_batch ba)"
  shows "ba_batch ba1 = b \<and> ba_n_embd ba1 = n_embd \<and> ba_n_seq_max ba1 = n_seq_max \<and> ba_n_pos_per_embd ba1 = ba_n_pos_per_embd ba
    \<and> n \<le> length (arr (bt_logits b)) \<and> (\<forall>i < n. token_ok b i) \<and> ba_seq_pos ba1 = batch_positions b n
    \<and> ba_seq_set ba1 = map (\<lambda>i. set (seqs_of b i)) [0..<n] \<and> ba_seq_set_map ba1 = (\<lambda>S. filter (\<lambda>i. set (seqs_of b i) = S) [0..<n])
    \<and> ba_n_outputs ba1 = ba_n_outputs ba + length (filter (\<lambda>x. x \<noteq> 0) (take n (arr (bt_logits b))))"
proof -
  let ?ba = "ba\<lparr>ba_n_embd := n_embd, ba_n_seq_max := n_seq_max\<rparr>"
  obtain outs ba2 ba3 where r: "count_outputs b = Some outs"
    "fold_opt note_token [0..<n] (?ba\<lparr>ba_n_outputs := ba_n_outputs ba + outs, ba_has_cpl := False\<rparr>) = Some ba2"
    "fold_opt note_set [0..<get_n_tokens ba2] ba2 = Some ba3"
    "ba1 = ba3\<lparr>ba_seq_idx := fst (index_seqs n_seq_max (\<Union> (set (ba_seq_set ba3))) (ba_seq_idx ba3, ba_seq_id_unq ba3)),
      ba_seq_id_unq := snd (index_seqs n_seq_max (\<Union> (set (ba_seq_set ba3))) (ba_seq_idx ba3, ba_seq_id_unq ba3))\<rparr>"
    using run by (auto simp: alloc_stats_def Let_def bind_eq_Some_conv get_n_tokens_def b_def n_def case_prod_beta)
  obtain cp h where t: "\<forall>i < n. token_ok b i" "ba2 = ?ba\<lparr>ba_n_outputs := ba_n_outputs ba + outs,
      ba_seq_pos := batch_positions b n, ba_seq_cpl := cp, ba_has_cpl := h\<rparr>"
    using note_tokens[OF r(2)] c(3) unfolding b_def by auto
  have "get_n_tokens ba2 = n" by (simp add: t(2) get_n_tokens_def n_def)
  then have s: "ba3 = ba2\<lparr>ba_seq_set := map (\<lambda>i. set (seqs_of b i)) [0..<n], ba_seq_set_map := (\<lambda>S. filter (\<lambda>i. set (seqs_of b i) = S) [0..<n])\<rparr>"
    using note_sets[of n ba2 ba3] r(3) c(1,2) by (simp add: t(2) b_def)
  have "n \<le> length (arr (bt_logits b)) \<and> outs = length (filter (\<lambda>x. x \<noteq> 0) (take n (arr (bt_logits b))))"
    using r(1) by (auto simp: count_outputs_def b_def n_def split: if_splits)
  then show ?thesis using t(1) by (simp add: r(4) s t(2) b_def)
qed

lemma all_checks_True: "all_checks f xs = Some True \<longleftrightarrow> (\<forall>x \<in> set xs. f x = Some True)"
  by (induction xs) (auto simp: bind_eq_Some_conv)

lemma checks_value:
  assumes "alloc_checks mem n_seq_max ba1 = Some (True, ba)"
  shows "ba = split_reset ba1" "s < n_seq_max \<Longrightarrow> seq_consistent mem ba1 s = Some True" "coupled_consistent mem n_seq_max ba1" "order_checks ba1"
  using assms by (auto simp: alloc_checks_def bind_eq_Some_conv all_checks_True split: if_splits)

text \<open>The sequences of the tokens, given or generated.\<close>

lemma filled_seqs:
  assumes v: "seqs_valid n_seq_max inp = Some True" and n: "0 < bt_n_tokens inp" "0 < n_seq_max"
    and b: "bt_n_seq_id b = bt_n_seq_id (fill_seq_id (fill_n_seq_id inp))" "bt_seq_id b = bt_seq_id (fill_seq_id (fill_n_seq_id inp))"
    and i: "i < bt_n_tokens inp" "tok_seqs b i = Some qs"
  shows "\<forall>q \<in> set qs. 0 \<le> q \<and> q < int n_seq_max"
proof (cases "bt_seq_id inp")
  case None
  then have "bt_seq_id b = Some (replicate (bt_n_tokens inp) [0])" using b(2) by (simp add: fill_seq_id_def fill_n_seq_id_def)
  then have "set qs \<subseteq> set [0]" using i by (auto simp: tok_seqs_def arr_def bind_eq_Some_conv dest: in_set_takeD split: if_splits)
  then show ?thesis using n(2) by auto
next
  case (Some rows)
  then obtain rs where rs: "gather (tok_seqs inp) [0..<bt_n_tokens inp] = Some rs" "list_all (list_all (\<lambda>q. 0 \<le> q \<and> q < int n_seq_max)) rs"
    using v by (auto simp: seqs_valid_def bind_eq_Some_conv)
  obtain qs' where q: "qs' \<in> set rs" "tok_seqs inp i = Some qs'" using gather_all[OF rs(1), of i] i(1) by auto
  then have given: "bt_n_seq_id inp \<noteq> None" by (cases "bt_n_seq_id inp") (simp_all add: tok_seqs_def arr_def read_at_def)
  then have "bt_n_seq_id b = bt_n_seq_id inp" "bt_seq_id b = bt_seq_id inp"
    using b Some by (simp_all add: fill_seq_id_def fill_n_seq_id_def)
  then have "tok_seqs b i = tok_seqs inp i" by (simp add: tok_seqs_def)
  then show ?thesis using q rs(2) i(2) by (auto simp: list_all_iff)
qed

text \<open>The positions of a sequence: an interval, right after those in the memory.\<close>

lemma card_interval:
  fixes A :: "int set"
  assumes "finite A" and "A \<noteq> {}" and "Max A - Min A + 1 \<le> int (card A)"
  shows "A = {Min A..Max A}"
proof (rule card_subset_eq)
  show "A \<subseteq> {Min A..Max A}" using assms(1) by auto
  then have "card A \<le> card {Min A..Max A}" by (rule card_mono[rotated]) simp
  then show "card A = card {Min A..Max A}" using assms(3) by simp
qed simp

definition continues :: "batch_memory option \<Rightarrow> bool \<Rightarrow> int \<Rightarrow> int \<Rightarrow> bool" where
  "continues mem tokens q p \<longleftrightarrow> (\<forall>m. mem = Some m \<and> 0 \<le> bm_pos_max m q \<longrightarrow> p = bm_pos_max m q + 1 \<or> \<not> tokens \<and> p = bm_pos_max m q)"

lemma consistent_positions:
  assumes "seq_consistent mem ba s = Some True" and A: "ba_seq_pos ba (int s) = A" "finite A" "A \<noteq> {}"
  shows "A = {Min A..Max A} \<and> continues mem (bt_token (ba_batch ba) \<noteq> None) (int s) (Min A)"
proof -
  have mn: "alloc_seq_pos_min (int s) ba = Min A" "alloc_seq_pos_max (int s) ba = Max A"
    using A by (simp_all add: alloc_seq_pos_min_def alloc_seq_pos_max_def)
  have "Max A - Min A + 1 \<le> int (card A)" using assms(1) A by (auto simp: seq_consistent_def Let_def mn bind_eq_Some_conv split: if_splits)
  moreover have "continues mem (bt_token (ba_batch ba) \<noteq> None) (int s) (Min A)"
    using assms(1) A by (auto simp: seq_consistent_def Let_def mn bind_eq_Some_conv continues_def split: if_splits option.splits)
  ultimately show ?thesis using card_interval[OF A(2,3)] by simp
qed

definition accepted :: "nat \<Rightarrow> batch_memory option \<Rightarrow> nat \<Rightarrow> batch \<Rightarrow> allocr \<Rightarrow> bool" where
  "accepted n_vocab mem n_seq_max inp ba \<longleftrightarrow> (let b = ba_batch ba; n = bt_n_tokens inp in
     0 < n \<and> bt_n_tokens b = n \<and> bt_token b = bt_token inp \<and> bt_embd b = bt_embd inp
   \<and> (\<forall>ts. bt_token inp = Some ts \<longrightarrow> n \<le> length ts \<and> (\<forall>t \<in> set (take n ts). 0 \<le> t \<and> t < int n_vocab))
   \<and> (\<forall>i < n. token_ok b i \<and> (\<forall>q \<in> set (seqs_of b i). 0 \<le> q \<and> q < int n_seq_max) \<and> (seqs_of b i \<noteq> [] \<longrightarrow> - 1 \<le> pos_of b i))
   \<and> n \<le> length (arr (bt_logits b))
   \<and> (\<forall>q. let A = batch_positions b n q in A \<noteq> {} \<longrightarrow> A = {Min A..Max A} \<and> continues mem (bt_token inp \<noteq> None) q (Min A))
   \<and> ba_used ba = replicate n False \<and> ba_n_used ba = 0 \<and> ba_out_ids ba = []
   \<and> ba_n_outputs ba = length (filter (\<lambda>x. x \<noteq> 0) (take n (arr (bt_logits b)))))"

lemma init_accepted:
  assumes run: "alloc_init n_vocab mem n_embd n_seq_max output_all inp ba0 = Some (True, ba)" and ns: "0 < n_seq_max"
  shows "accepted n_vocab mem n_seq_max inp ba"
    and "ba_n_embd ba = n_embd" "ba_n_seq_max ba = n_seq_max" "ba_n_pos_per_embd ba = ba_n_pos_per_embd ba0" "n_seq_max \<le> 256"
    and "ba_seq_set ba = map (\<lambda>i. set (seqs_of (ba_batch ba) i)) [0..<bt_n_tokens inp]"
    and "ba_seq_set_map ba S = filter (\<lambda>i. set (seqs_of (ba_batch ba) i) = S) [0..<bt_n_tokens inp]"
    and "bt_pos inp \<noteq> None \<Longrightarrow> bt_pos (ba_batch ba) = bt_pos inp"
    and "bt_n_seq_id (ba_batch ba) = bt_n_seq_id (fill_seq_id (fill_n_seq_id inp))" and "bt_seq_id (ba_batch ba) = bt_seq_id (fill_seq_id (fill_n_seq_id inp))"
    and "split_reset ba = ba"
proof -
  obtain b0 b ba1 where r: "0 < bt_n_tokens inp" "n_seq_max \<le> 256" "tokens_valid n_vocab inp = Some True" "seqs_valid n_seq_max inp = Some True"
    "fill_pos mem n_seq_max (fill_seq_id (fill_n_seq_id inp)) = Some b0" "fill_logits output_all b0 = Some b"
    "alloc_stats n_embd n_seq_max ((alloc_clear ba0)\<lparr>ba_batch := b\<rparr>) = Some ba1" "alloc_checks mem n_seq_max ba1 = Some (True, ba)"
    by (rule init_parts[OF run])
  let ?n = "bt_n_tokens inp" and ?f = "fill_seq_id (fill_n_seq_id inp)"
  have f: "bt_n_tokens ?f = ?n" "bt_token ?f = bt_token inp" "bt_embd ?f = bt_embd inp" "bt_pos ?f = bt_pos inp"
    by (simp_all add: fill_seq_id_def fill_n_seq_id_def)
  have b0: "b0 = ?f\<lparr>bt_pos := bt_pos b0\<rparr>" by (rule fill_pos_fields[OF r(5)])
  have b: "b = b0\<lparr>bt_logits := bt_logits b\<rparr>" by (rule fill_logits_fields[OF r(6)])
  have bf: "bt_n_tokens b = ?n" "bt_token b = bt_token inp" "bt_embd b = bt_embd inp" "bt_n_seq_id b = bt_n_seq_id ?f" "bt_seq_id b = bt_seq_id ?f"
    by (subst b, subst b0, simp add: f)+
  have bp: "bt_pos inp \<noteq> None \<Longrightarrow> bt_pos b = bt_pos inp"
    using r(5) f(4) by (subst b) (auto simp: fill_pos_def)
  note st = stats_value[OF r(7)]
  have s: "ba_batch ba1 = b" "ba_n_embd ba1 = n_embd" "ba_n_seq_max ba1 = n_seq_max" "ba_n_pos_per_embd ba1 = ba_n_pos_per_embd ba0"
    "?n \<le> length (arr (bt_logits b))" "\<forall>i < ?n. token_ok b i" "ba_seq_pos ba1 = batch_positions b ?n"
    "ba_seq_set ba1 = map (\<lambda>i. set (seqs_of b i)) [0..<?n]" "ba_seq_set_map ba1 = (\<lambda>S. filter (\<lambda>i. set (seqs_of b i) = S) [0..<?n])"
    "ba_n_outputs ba1 = length (filter (\<lambda>x. x \<noteq> 0) (take ?n (arr (bt_logits b))))"
    using st by (simp_all add: alloc_clear_def bf)
  note c = checks_value[OF r(8)]
  have batch: "ba_batch ba = b" by (simp add: c(1) split_reset_def s(1))
  have g: "get_n_tokens ba1 = ?n" by (simp add: get_n_tokens_def s(1) bf)
  have seqs: "\<forall>q \<in> set (seqs_of b i). 0 \<le> q \<and> q < int n_seq_max" if "i < ?n" for i
    using filled_seqs[OF r(4,1) ns bf(4,5) that] s(6) that by (auto simp: token_ok_def seqs_of_def)
  have order: "\<forall>i < ?n. seqs_of b i \<noteq> [] \<longrightarrow> - 1 \<le> pos_of b i"
    using order_checks_value[of ba1] c(4) s(6,8) by (simp add: g s(1))
  have positions: "A = {Min A..Max A} \<and> continues mem (bt_token inp \<noteq> None) q (Min A)" if A: "A = batch_positions b ?n q" "A \<noteq> {}" for A q
  proof -
    obtain i where "i < ?n" "q \<in> set (seqs_of b i)" using A by (auto simp: batch_positions_def)
    then have q: "0 \<le> q" "q < int n_seq_max" using seqs by auto
    then have "seq_consistent mem ba1 (nat q) = Some True" using c(2)[of "nat q"] by simp
    then show ?thesis using consistent_positions[of mem ba1 "nat q" A] A q(1) by (simp add: s(1,7) bf)
  qed
  have tokens: "\<forall>ts. bt_token inp = Some ts \<longrightarrow> ?n \<le> length ts \<and> (\<forall>t \<in> set (take ?n ts). 0 \<le> t \<and> t < int n_vocab)"
    using r(3) by (auto simp: tokens_valid_def list_all_iff split: if_splits)
  have reset: "ba_used ba = replicate ?n False" "ba_n_used ba = 0" "ba_out_ids ba = []" "ba_n_outputs ba = ba_n_outputs ba1"
    by (simp_all add: c(1) split_reset_def g)
  show "accepted n_vocab mem n_seq_max inp ba"
    unfolding accepted_def batch Let_def
    using r(1) bf(1-3) tokens s(5,6,10) seqs order positions reset by auto
  show "ba_n_embd ba = n_embd" "ba_n_seq_max ba = n_seq_max" "ba_n_pos_per_embd ba = ba_n_pos_per_embd ba0" "n_seq_max \<le> 256"
    "ba_seq_set ba = map (\<lambda>i. set (seqs_of (ba_batch ba) i)) [0..<?n]"
    "ba_seq_set_map ba S = filter (\<lambda>i. set (seqs_of (ba_batch ba) i) = S) [0..<?n]"
    "bt_n_seq_id (ba_batch ba) = bt_n_seq_id ?f" "bt_seq_id (ba_batch ba) = bt_seq_id ?f" "split_reset ba = ba"
    using r(2) s bf(4,5) by (simp_all add: c(1) split_reset_def g get_n_tokens_def s bf)
  show "bt_pos inp \<noteq> None \<Longrightarrow> bt_pos (ba_batch ba) = bt_pos inp" using bp by (simp add: batch)
qed

text \<open>A batch of tokens, each with a sequence, is ready for every split.\<close>

definition tokens_have_seqs :: "batch \<Rightarrow> bool" where
  "tokens_have_seqs inp \<longleftrightarrow> (\<forall>ns. bt_n_seq_id inp = Some ns \<longrightarrow> (\<forall>i < bt_n_tokens inp. i < length ns \<longrightarrow> 1 \<le> ns ! i))"

lemma init_ready:
  assumes run: "alloc_init n_vocab mem n_embd n_seq_max output_all inp ba0 = Some (True, ba)" and ns: "0 < n_seq_max"
    and tok: "bt_embd inp = None" "tokens_have_seqs inp"
  shows "alloc_ready ba"
proof -
  let ?b = "ba_batch ba" and ?n = "bt_n_tokens inp"
  note i = init_accepted[OF run ns]
  have a: "0 < ?n" "bt_n_tokens ?b = ?n" "bt_token ?b = bt_token inp" "bt_embd ?b = None" "\<forall>ts. bt_token inp = Some ts \<longrightarrow> ?n \<le> length ts"
    "\<forall>i < ?n. token_ok ?b i" "?n \<le> length (arr (bt_logits ?b))"
    using i(1) tok(1) by (auto simp: accepted_def Let_def)
  have seqs: "tok_seqs ?b j = Some (seqs_of ?b j) \<and> seqs_of ?b j \<noteq> [] \<and> tok_seq0 ?b j = Some (seqs_of ?b j ! 0)" if j: "j < ?n" for j
  proof -
    obtain qs q0 where q: "tok_seqs ?b j = Some qs" "tok_seq0 ?b j = Some q0" using a(6) j by (auto simp: token_ok_def)
    have sq: "seqs_of ?b j = qs" by (simp add: seqs_of_def q(1))
    obtain row where row: "read_at j (arr (bt_seq_id ?b)) = Some row" "read_at 0 row = Some q0" using q(2) by (auto simp: tok_seq0_def bind_eq_Some_conv)
    obtain k where k: "read_at j (arr (bt_n_seq_id ?b)) = Some k" "k \<le> int (length row)" "qs = take (nat k) row"
      using q(1) row(1) by (auto simp: tok_seqs_def bind_eq_Some_conv split: if_splits)
    have "1 \<le> k"
    proof (cases "bt_n_seq_id inp")
      case None
      then have "bt_n_seq_id ?b = Some (replicate ?n 1)" using i(9) by (simp add: fill_seq_id_def fill_n_seq_id_def)
      then show ?thesis using k(1) j by (auto simp: arr_def read_at_def)
    next
      case (Some nsq)
      then have "bt_n_seq_id ?b = Some nsq" using i(9) by (simp add: fill_seq_id_def fill_n_seq_id_def)
      then show ?thesis using k(1) j tok(2) Some by (auto simp: arr_def read_at_def tokens_have_seqs_def split: if_splits)
    qed
    then have "qs \<noteq> []" "qs ! 0 = row ! 0" using k(2,3) by (auto simp: nth_take)
    then show ?thesis using q row(2) sq by (simp add: read_at_def split: if_splits)
  qed
  have "?n - 1 < length (arr (bt_pos ?b))" using a(1,6) by (auto simp: token_ok_def)
  then have pos: "?n \<le> length (arr (bt_pos ?b))" by simp
  show ?thesis
    unfolding alloc_ready_def using a(2,3,4,5,7) seqs i(6,7) pos tok(1) by (auto simp: Let_def arr_def n_pos_cur_def)
qed

subsection \<open>Properties\<close>

text \<open>
  Property C9. A batch that \<open>init\<close> accepts is complete and sound: every token id is in the vocabulary, every
  token can be read and its sequences are in range, and the positions of every sequence are an interval
  without gaps that continues right after the last position in the memory (for embeddings it may also
  repeat that position). No token is used yet.
\<close>

theorem init_accepts_sound:
  assumes "alloc_init n_vocab mem n_embd n_seq_max output_all inp ba0 = Some (True, ba)" and "0 < n_seq_max"
  shows "accepted n_vocab mem n_seq_max inp ba"
  by (rule init_accepted(1)[OF assms])

definition sample_batch :: "int list \<Rightarrow> int list list \<Rightarrow> batch" where
  "sample_batch ps qs = \<lparr>bt_n_tokens = length ps, bt_token = Some (map (\<lambda>_. 7) ps), bt_embd = None, bt_pos = Some ps,
     bt_n_seq_id = Some (map (\<lambda>q. int (length q)) qs), bt_seq_id = Some qs, bt_logits = None\<rparr>"

definition sample_alloc :: "int list \<Rightarrow> int list list \<Rightarrow> allocr" where
  "sample_alloc ps qs = snd (the (alloc_init 10 None 4 3 True (sample_batch ps qs) (alloc_new 1)))"

lemma sample_init:
  "map_option fst (alloc_init 10 None 4 3 True (sample_batch ps qs) (alloc_new 1)) = Some True
    \<Longrightarrow> alloc_init 10 None 4 3 True (sample_batch ps qs) (alloc_new 1) = Some (True, sample_alloc ps qs)"
  by (auto simp: sample_alloc_def)

lemma sample_accepted:
  "alloc_init 10 None 4 3 True (sample_batch [5, 6] [[0], [0, 1]]) (alloc_new 1) = Some (True, sample_alloc [5, 6] [[0], [0, 1]])"
  "alloc_init 10 None 4 3 True (sample_batch [1, 0] [[0], [0]]) (alloc_new 1) = Some (True, sample_alloc [1, 0] [[0], [0]])"
  "alloc_init 10 None 4 3 True (sample_batch [0, 0] [[0], [1]]) (alloc_new 1) = Some (True, sample_alloc [0, 0] [[0], [1]])"
  by (rule sample_init, code_simp)+

lemma init_accepts_sound_witness: "accepted 10 None 3 (sample_batch [5, 6] [[0], [0, 1]]) (sample_alloc [5, 6] [[0], [0, 1]])"
  by (rule init_accepts_sound[OF sample_accepted(1)]) simp

text \<open>
  Property C12. The last loop of \<open>init\<close>, which is to reject partial sequence sub-sets and decreasing
  positions, rejects nothing but positions below -1: after the statistics of a batch, it succeeds exactly
  when no token has such a position. The intersection of the sets a sequence appears in always contains the
  sequence, and the last position of a sequence is never recorded.
\<close>

theorem order_check_vacuous:
  assumes "alloc_stats n_embd n_seq_max ((alloc_clear ba0)\<lparr>ba_batch := b\<rparr>) = Some ba"
  shows "order_checks ba \<longleftrightarrow> (\<forall>i < bt_n_tokens b. seqs_of b i \<noteq> [] \<longrightarrow> - 1 \<le> pos_of b i)"
proof -
  have "ba_batch ba = b" "\<forall>i < bt_n_tokens b. token_ok b i" "ba_seq_set ba = map (\<lambda>i. set (seqs_of b i)) [0..<bt_n_tokens b]"
    using stats_value[OF assms] by (simp_all add: alloc_clear_def)
  then show ?thesis using order_checks_value[of ba] by (simp add: get_n_tokens_def)
qed

text \<open>Position 0 after position 1 in one sequence, and sets that meet in one sequence only: both pass.\<close>

definition decreasing_batch :: batch where
  "decreasing_batch = (sample_batch [1, 0] [[0, 1], [1, 2]])\<lparr>bt_logits := Some [1, 1]\<rparr>"

lemma decreasing_values: "bt_n_tokens decreasing_batch = 2" "pos_of decreasing_batch 0 = 1" "pos_of decreasing_batch 1 = 0"
  "seqs_of decreasing_batch 0 = [0, 1]" "seqs_of decreasing_batch 1 = [1, 2]"
  by code_simp+

lemma decreasing_stats:
  "map_option (\<lambda>_. ()) (alloc_stats 4 3 ((alloc_clear (alloc_new 1))\<lparr>ba_batch := decreasing_batch\<rparr>)) = Some ()"
  by code_simp

lemma order_check_vacuous_witness:
  "order_checks (the (alloc_stats 4 3 ((alloc_clear (alloc_new 1))\<lparr>ba_batch := decreasing_batch\<rparr>)))
    \<and> pos_of decreasing_batch 0 = 1 \<and> pos_of decreasing_batch 1 = 0 \<and> seqs_of decreasing_batch 0 = [0, 1] \<and> seqs_of decreasing_batch 1 = [1, 2]
    \<and> (\<exists>ba. alloc_init 10 None 4 3 True (sample_batch [1, 0] [[0], [0]]) (alloc_new 1) = Some (True, ba))"
proof -
  note v = decreasing_values
  obtain ba where s: "alloc_stats 4 3 ((alloc_clear (alloc_new 1))\<lparr>ba_batch := decreasing_batch\<rparr>) = Some ba" using decreasing_stats by auto
  have "- 1 \<le> pos_of decreasing_batch i" if "i < 2" for i
    using that v by (auto simp: less_2_cases_iff)
  then have "order_checks ba" using order_check_vacuous[OF s] by (simp add: v(1))
  then show ?thesis unfolding s option.sel using v(2,3,4,5) sample_accepted(2) by blast
qed

text \<open>
  Property C7. The simple split run to its end terminates with every token handed out exactly once and in
  order: the micro-batches' tokens, with their ids, embeddings, positions, sequences and output flags, are
  those of the batch; every micro-batch has between one and \<open>n_ubatch\<close> tokens (one, if \<open>n_ubatch\<close> is 0); and
  the output ids are the batch indices of the tokens marked for output.
\<close>

theorem simple_split_complete:
  fixes n_ubatch :: nat
  assumes "alloc_ready ba"
  shows "\<exists>us ba'. split_all (split_simple n_ubatch) [] (split_reset ba) = Some (us, ba')
    \<and> concat (map (ub_rows (ba_n_embd ba) (n_pos_cur ba)) us) = map (batch_row ba) [0..<get_n_tokens ba]
    \<and> (\<forall>u \<in> set us. 0 < ub_n_tokens u \<and> ub_n_tokens u \<le> max 1 n_ubatch)
    \<and> ba_n_used ba' = get_n_tokens ba \<and> ba_out_ids ba' = out_tokens ba [0..<get_n_tokens ba]"
proof -
  let ?n = "get_n_tokens ba"
  obtain us css where r: "split_all (split_simple n_ubatch) [] (split_reset ba) = Some (us, split_state ba (used_upto ?n ?n) ?n (out_tokens ba [0..<?n]))"
    "list_all2 (ub_valid ba) css us" "concat css = [0..<?n]" "\<forall>c \<in> set css. c \<noteq> [] \<and> length c \<le> max 1 n_ubatch"
    using split_simple_run[OF assms, of 0 n_ubatch "[]" "[]"] by (auto simp: split_reset_state used_upto_0)
  have "0 < ub_n_tokens u \<and> ub_n_tokens u \<le> max 1 n_ubatch" if "u \<in> set us" for u
    using r(2,4) that by (induction rule: list_all2_induct) (auto simp: ub_valid_def)
  then show ?thesis using r(1) valid_rows[OF r(2)] r(3) by auto
qed

lemma sample_ready: "alloc_ready (sample_alloc [5, 6] [[0], [0, 1]])" "alloc_ready (sample_alloc [0, 0] [[0], [1]])"
proof -
  have t: "tokens_have_seqs (sample_batch [5, 6] [[0], [0, 1]])" "tokens_have_seqs (sample_batch [0, 0] [[0], [1]])"
    by (auto simp: tokens_have_seqs_def sample_batch_def less_Suc_eq)
  show "alloc_ready (sample_alloc [5, 6] [[0], [0, 1]])"
    by (rule init_ready[OF sample_accepted(1) _ _ t(1)]) (simp_all add: sample_batch_def)
  show "alloc_ready (sample_alloc [0, 0] [[0], [1]])"
    by (rule init_ready[OF sample_accepted(3) _ _ t(2)]) (simp_all add: sample_batch_def)
qed

lemma sample_fields: "get_n_tokens (sample_alloc [5, 6] [[0], [0, 1]]) = 2" "get_n_tokens (sample_alloc [0, 0] [[0], [1]]) = 2"
  "ba_has_cpl (sample_alloc [0, 0] [[0], [1]]) = False"
  by code_simp+

lemma simple_split_complete_witness:
  "\<exists>us ba'. split_all (split_simple 1) [] (split_reset (sample_alloc [5, 6] [[0], [0, 1]])) = Some (us, ba')
    \<and> (\<forall>u \<in> set us. ub_n_tokens u = 1) \<and> ba_n_used ba' = 2"
  using simple_split_complete[OF sample_ready(1), of 1] unfolding sample_fields by fastforce

text \<open>
  Property C8. The equal split run to its end terminates and is a stable partition: for every sequence set, the
  micro-batches contain the tokens of that set in their order in the batch, each once; every micro-batch
  consists of blocks of equal length, one per sequence set, with pairwise disjoint sets; and it has at most
  \<open>n_ubatch\<close> tokens, or one token of each of at most \<open>n_ubatch + 1\<close> sets.
\<close>

theorem equal_split_stable:
  fixes n_ubatch :: nat and seqtl :: bool
  assumes "alloc_ready ba" and "\<not> (seqtl \<and> ba_has_cpl ba)"
  shows "\<exists>us ba'. split_all (split_equal n_ubatch seqtl) [] (split_reset ba) = Some (us, ba')
    \<and> (\<forall>S. filter (\<lambda>r. set (row_seqs r) = S) (concat (map (ub_rows (ba_n_embd ba) (n_pos_cur ba)) us))
          = filter (\<lambda>r. set (row_seqs r) = S) (map (batch_row ba) [0..<get_n_tokens ba]))
    \<and> list_all (equal_shape n_ubatch) us \<and> ba_n_used ba' = get_n_tokens ba"
proof -
  let ?n = "get_n_tokens ba"
  have p: "prefix_used ba (\<lambda>_. 0) (replicate ?n False)"
    using ids_of_at by (auto simp: prefix_used_def)
  obtain us css u' where r: "split_all (split_equal n_ubatch seqtl) [] (split_reset ba)
      = Some (us, split_state ba u' (length (concat css)) (out_tokens ba (concat css)))"
    "list_all2 (ub_valid ba) css us" "list_all (equal_shape n_ubatch) us"
    "\<forall>S. filter (\<lambda>i. tok_set ba i = S) (concat css) = ids_of ba S" "set (concat css) \<subseteq> {..<?n}"
    using split_equal_run[OF assms(1) p assms(2), of n_ubatch "[]" 0 "[]"] by (auto simp: split_reset_state)
  have row: "set (row_seqs (batch_row ba i)) = tok_set ba i" for i by (simp add: batch_row_def Let_def)
  have "filter (\<lambda>r. set (row_seqs r) = S) (map (batch_row ba) (concat css)) = filter (\<lambda>r. set (row_seqs r) = S) (map (batch_row ba) [0..<?n])" for S
    using r(4) by (simp add: filter_map comp_def row ids_of_def)
  moreover have "length (concat css) = ?n"
  proof -
    have "mset (concat css) = mset [0..<?n]"
    proof (rule multiset_eqI)
      fix i
      have own: "filter ((=) i) xs = filter ((=) i) (filter (\<lambda>j. tok_set ba j = tok_set ba i) xs)" for xs
        unfolding filter_filter by (intro filter_cong) auto
      show "count (mset (concat css)) i = count (mset [0..<?n]) i"
        unfolding count_mset count_list_eq_length_filter own[of "concat css"] own[of "[0..<?n]"] spec[OF r(4)] ids_of_def ..
    qed
    then show ?thesis by (metis size_mset length_upt diff_zero)
  qed
  ultimately show ?thesis using r(1,3) valid_rows[OF r(2)] by auto
qed

lemma equal_split_stable_witness:
  "\<exists>us ba'. split_all (split_equal 4 True) [] (split_reset (sample_alloc [0, 0] [[0], [1]])) = Some (us, ba')
    \<and> list_all (equal_shape 4) us \<and> ba_n_used ba' = 2"
proof -
  have "\<not> (True \<and> ba_has_cpl (sample_alloc [0, 0] [[0], [1]]))" by (simp add: sample_fields)
  from equal_split_stable[OF sample_ready(2) this, of 4] show ?thesis unfolding sample_fields by blast
qed

text \<open>
  Property C11. The equal split can exceed the micro-batch size it was asked for: it stops collecting
  sequence sets only when their number is above \<open>n\<close>. Of every batch whose first \<open>n + 1\<close> tokens belong to
  pairwise disjoint sequence sets (with consecutive first sequences, for a sequential split), the split
  into micro-batches of \<open>n\<close> tokens first makes one of \<open>n + 1\<close> tokens.
\<close>

theorem equal_split_exceeds:
  fixes n :: nat and seqtl :: bool
  assumes "alloc_ready ba" and "\<not> (seqtl \<and> ba_has_cpl ba)" and "0 < n" and "n < get_n_tokens ba"
    and "\<And>i j. i < j \<Longrightarrow> j \<le> n \<Longrightarrow> set (seqs_of (ba_batch ba) i) \<inter> set (seqs_of (ba_batch ba) j) = {}"
    and "\<And>i. seqtl \<Longrightarrow> i < n \<Longrightarrow> seqs_of (ba_batch ba) (Suc i) ! 0 = seqs_of (ba_batch ba) i ! 0 + 1"
  shows "\<exists>ub ba'. split_equal n seqtl (split_reset ba) = Some (ub, ba') \<and> ub_n_tokens ub = n + 1"
  by (rule split_equal_overfull[OF assms(1,2,4,3,5,6)])

lemma equal_split_exceeds_witness:
  "\<exists>u ba. alloc_init 10 None 4 3 True (sample_batch [0, 0] [[0], [1]]) (alloc_new 1) = Some (True, sample_alloc [0, 0] [[0], [1]])
    \<and> split_equal 1 True (split_reset (sample_alloc [0, 0] [[0], [1]])) = Some (u, ba) \<and> ub_n_tokens u = 2"
proof -
  let ?ba = "sample_alloc [0, 0] [[0], [1]]"
  have s: "seqs_of (ba_batch ?ba) 0 = [0]" "seqs_of (ba_batch ?ba) (Suc 0) = [1]" by code_simp+
  have dis: "set (seqs_of (ba_batch ?ba) i) \<inter> set (seqs_of (ba_batch ?ba) j) = {}" if "i < j" "j \<le> 1" for i j
  proof -
    have "i = 0 \<and> j = Suc 0" using that by linarith
    then show ?thesis by (simp add: s)
  qed
  have "\<exists>ub ba'. split_equal 1 True (split_reset ?ba) = Some (ub, ba') \<and> ub_n_tokens ub = 1 + 1"
    by (rule equal_split_exceeds[OF sample_ready(2) _ _ _ dis]) (simp_all add: sample_fields s)
  then show ?thesis using sample_accepted(3) by auto
qed

end
