(* ===== verification/Decode.thy ===== *)
theory Decode
  imports Batch_Init Kv_Attend
begin

text \<open>
  One call of \<open>llama_context::decode\<close> (\<^verbatim>\<open>src/llama-context.cpp\<close>) on a context whose memory is the
  interleaved sliding-window cache: the batch is sanitized and split, the memory is updated and finds
  slots, every micro-batch is applied and computed, and the outputs are mapped to the tokens of the batch.

  The graph of the model (\<open>forward\<close>), the graph of the K-shift and the allocation of the output buffer are
  parameters. A row of the logits buffer, \<open>n_vocab\<close> floats, is one element of any type. Contexts that
  output embeddings, logging and timing are left out.
\<close>

subsection \<open>Splitting inside \<open>init_batch\<close>\<close>

definition split_batch :: "(allocr \<Rightarrow> (full_ubatch \<times> allocr) option) \<Rightarrow> allocr \<Rightarrow> (full_ubatch list \<times> bool \<times> allocr) option" where
  "split_batch split ba = do {
     (us, ba) \<leftarrow> split_all split [] (split_reset ba);
     Some (us, \<not> ba_n_used ba < get_n_tokens ba, ba) }"

definition kv_balloc_init_batch :: "nat \<Rightarrow> allocr \<Rightarrow> kv_cache \<Rightarrow> (kv_context \<times> full_ubatch list \<times> allocr \<times> kv_cache) option" where
  "kv_balloc_init_batch n_ubatch ba kv = do {
     (us, covered, ba) \<leftarrow> split_batch (if kv_n_stream kv = 1 then split_simple n_ubatch else split_equal n_ubatch True) ba;
     (kx, kv) \<leftarrow> kv_init_batch (map ubatch.truncate us) covered kv;
     Some (kx, us, ba, kv) }"

definition iswa_balloc_init_batch :: "nat \<Rightarrow> allocr \<Rightarrow> kv_iswa \<Rightarrow> (iswa_context \<times> full_ubatch list \<times> allocr \<times> kv_iswa) option" where
  "iswa_balloc_init_batch n_ubatch ba iw = do {
     (ctx, us, ba, iw) \<leftarrow> (if \<not> iw_unified iw then Some (None, [], ba, iw) else do {
        (us, covered, ba) \<leftarrow> split_batch (split_simple n_ubatch) ba;
        (ctx, iw) \<leftarrow> iswa_try (map ubatch.truncate us) covered iw;
        Some (ctx, us, ba, iw) });
     case ctx of Some c \<Rightarrow> Some (c, us, ba, iw) | None \<Rightarrow> do {
       (us, covered, ba) \<leftarrow> split_batch (split_equal n_ubatch (\<not> iw_unified iw)) ba;
       (ctx, iw) \<leftarrow> iswa_try (map ubatch.truncate us) covered iw;
       case ctx of Some c \<Rightarrow> Some (c, us, ba, iw) | None \<Rightarrow> Some (iswa_context_failed STATUS_FAILED_PREPARE, [], ba, iw) } }"

subsection \<open>The context\<close>

record decode_params =
  dp_n_vocab :: nat
  dp_n_embd :: nat
  dp_kv_unified :: bool
  dp_n_seq_max :: nat
  dp_n_batch :: nat
  dp_n_ubatch :: nat
  dp_causal_attn :: bool

record 'r decode_state =
  ds_balloc :: allocr
  ds_memory :: kv_iswa
  ds_n_outputs :: nat
  ds_output_ids :: "int list"
  ds_output_swaps :: "(nat \<times> nat) list"
  ds_logits :: "'r list"

datatype graph_status = GRAPH_SUCCESS | GRAPH_ABORTED | GRAPH_ALLOC_FAILED | GRAPH_FAILED

text \<open>
  The parameters: the K-shift graph (its rotation of the layers, whether the model has no RoPE, and the
  outcomes for both caches), the output buffer for a number of rows, and the graph of the model, which
  gives a status, the layers of both caches and the rows of its outputs.
\<close>

record 'r externals =
  ex_rope :: "int list \<Rightarrow> kv_layer list \<Rightarrow> kv_layer list"
  ex_rope_none :: bool
  ex_shift :: "shift_outcome \<times> shift_outcome"
  ex_buffer :: "nat \<Rightarrow> 'r list \<Rightarrow> 'r list option"
  ex_forward :: "full_ubatch \<Rightarrow> iswa_context \<Rightarrow> kv_iswa \<Rightarrow> graph_status \<times> (kv_layer list \<times> kv_layer list) \<times> 'r list"

definition memory_of :: "kv_iswa \<Rightarrow> batch_memory" where
  "memory_of iw = \<lparr>bm_pos_min = (\<lambda>q. the (iswa_seq_pos_min q iw)), bm_pos_max = (\<lambda>q. the (iswa_seq_pos_max q iw))\<rparr>"

definition memory_update :: "'r externals \<Rightarrow> kv_iswa \<Rightarrow> (bool \<times> kv_iswa) option" where
  "memory_update ex iw = (case iswa_init_update iw of (ix, iw) \<Rightarrow>
     (case ix_status ix of
        STATUS_SUCCESS \<Rightarrow> do { (_, _, iw) \<leftarrow> iswa_context_apply (ex_rope ex) (ex_rope_none ex) (ex_shift ex) (ix, iw); Some (True, iw) }
      | _ \<Rightarrow> Some (False, iw)))"

text \<open>Slots for the batch, with one more attempt after an update of the memory; \<open>Inl\<close> is a return code.\<close>

definition decode_slots ::
    "decode_params \<Rightarrow> 'r externals \<Rightarrow> allocr \<Rightarrow> kv_iswa \<Rightarrow> ((int + iswa_context \<times> full_ubatch list) \<times> allocr \<times> kv_iswa) option" where
  "decode_slots dp ex ba iw = do {
     (ix, us, ba, iw) \<leftarrow> iswa_balloc_init_batch (dp_n_ubatch dp) ba iw;
     (case ix_status ix of
        STATUS_SUCCESS \<Rightarrow> Some (Inr (ix, us), ba, iw)
      | STATUS_NO_UPDATE \<Rightarrow> Some (Inl (- 2), ba, iw)
      | STATUS_FAILED_COMPUTE \<Rightarrow> Some (Inl (- 2), ba, iw)
      | STATUS_FAILED_PREPARE \<Rightarrow> do {
          (updated, iw) \<leftarrow> memory_update ex iw;
          if \<not> updated then Some (Inl 1, ba, iw) else do {
            (ix, us, ba, iw) \<leftarrow> iswa_balloc_init_batch (dp_n_ubatch dp) ba iw;
            (case ix_status ix of
               STATUS_SUCCESS \<Rightarrow> Some (Inr (ix, us), ba, iw)
             | STATUS_FAILED_PREPARE \<Rightarrow> Some (Inl 1, ba, iw)
             | _ \<Rightarrow> Some (Inl (- 2), ba, iw)) } }) }"

definition output_reserve :: "decode_params \<Rightarrow> 'r externals \<Rightarrow> nat \<Rightarrow> 'r decode_state \<Rightarrow> nat \<times> 'r decode_state" where
  "output_reserve dp ex n_outputs st =
    (let n_outputs_max = max n_outputs (dp_n_seq_max dp);
         st = (if ds_output_ids st = [] then st\<lparr>ds_output_ids := replicate (dp_n_batch dp) 0\<rparr> else st) in
     case ex_buffer ex n_outputs_max (ds_logits st) of None \<Rightarrow> (0, st\<lparr>ds_logits := []\<rparr>)
     | Some buf \<Rightarrow> (n_outputs_max, st\<lparr>ds_logits := buf, ds_output_ids := map (\<lambda>_. - 1) (ds_output_ids st), ds_n_outputs := 0\<rparr>))"

subsection \<open>One micro-batch\<close>

definition process_ubatch :: "'r externals \<Rightarrow> iswa_context \<Rightarrow> full_ubatch \<Rightarrow> kv_iswa \<Rightarrow> (graph_status \<times> 'r list \<times> iswa_context \<times> kv_iswa) option" where
  "process_ubatch ex ix ub iw = do {
     (ok, ix, iw) \<leftarrow> iswa_context_apply (ex_rope ex) (ex_rope_none ex) (ex_shift ex) (ix, iw);
     if \<not> ok then Some (GRAPH_FAILED, [], ix, iw)
     else case ex_forward ex ub ix iw of (status, (base, sw), rows) \<Rightarrow>
       Some (status, rows, ix, iw\<lparr>iw_base := (iw_base iw)\<lparr>kv_layers := base\<rparr>, iw_swa := (iw_swa iw)\<lparr>kv_layers := sw\<rparr>\<rparr>) }"

text \<open>The first position of the failed micro-batch in every sequence, of the first sequence of its tokens.\<close>

definition rollback_min :: "nat \<Rightarrow> full_ubatch \<Rightarrow> (int \<Rightarrow> int) \<Rightarrow> (int \<Rightarrow> int) option" where
  "rollback_min i ub pos_min = require (i < length (ub_seq_id ub) \<and> ub_seq_id ub ! i \<noteq> [] \<and> seq_id_ok (ub_seq_id ub ! i ! 0) \<and> i < length (ub_pos ub))
     (let seq_id = ub_seq_id ub ! i ! 0 in Some (pos_min(seq_id := min (pos_min seq_id) (ub_pos ub ! i))))"

definition rollback_rm :: "(int \<Rightarrow> int) \<Rightarrow> nat \<Rightarrow> kv_iswa \<Rightarrow> kv_iswa option" where
  "rollback_rm pos_min s iw = (if pos_min (int s) = INT_MAX then Some iw
     else do { (_, iw) \<leftarrow> iswa_seq_rm (int s) (pos_min (int s)) (- 1) iw; Some iw })"

definition rollback :: "full_ubatch \<Rightarrow> kv_iswa \<Rightarrow> kv_iswa option" where
  "rollback ub iw = do {
     pos_min \<leftarrow> fold_opt (\<lambda>i. rollback_min i ub) [0..<ub_n_tokens ub] (\<lambda>_. INT_MAX);
     fold_opt (rollback_rm pos_min) [0..<256] iw }"

definition graph_code :: "graph_status \<Rightarrow> int option" where
  "graph_code st = (case st of GRAPH_ABORTED \<Rightarrow> Some 2 | GRAPH_ALLOC_FAILED \<Rightarrow> Some (- 2) | GRAPH_FAILED \<Rightarrow> Some (- 3) | GRAPH_SUCCESS \<Rightarrow> None)"

definition count_ubatch_outputs :: "nat \<Rightarrow> nat \<Rightarrow> full_ubatch \<Rightarrow> nat option" where
  "count_ubatch_outputs n_outputs_all n_tokens_all ub =
    (if n_outputs_all = n_tokens_all then Some (ub_n_tokens ub)
     else require (ub_n_tokens ub \<le> length (fu_output ub)) (Some (length (filter (\<lambda>x. x \<noteq> 0) (take (ub_n_tokens ub) (fu_output ub))))))"

definition put_rows :: "nat \<Rightarrow> 'r list \<Rightarrow> 'r list \<Rightarrow> 'r list" where
  "put_rows k rows buf = take k buf @ rows @ drop (k + length rows) buf"

text \<open>The rows the graph computed, copied after those of the micro-batches before.\<close>

definition extract_logits :: "nat \<Rightarrow> nat \<Rightarrow> nat \<Rightarrow> 'r list \<Rightarrow> 'r list \<Rightarrow> 'r list option" where
  "extract_logits n_outputs_prev n_outputs n_outputs_all rows buf =
    (if n_outputs = 0 then Some buf
     else require (n_outputs_prev + n_outputs \<le> n_outputs_all \<and> n_outputs_prev + n_outputs \<le> length buf \<and> n_outputs \<le> length rows)
       (Some (put_rows n_outputs_prev (take n_outputs rows) buf)))"

partial_function (option) decode_loop ::
    "'r externals \<Rightarrow> nat \<Rightarrow> nat \<Rightarrow> full_ubatch list \<Rightarrow> iswa_context \<Rightarrow> nat \<Rightarrow> 'r decode_state \<Rightarrow> (int option \<times> 'r decode_state) option" where
  "decode_loop ex n_outputs_all n_tokens_all us ix n_outputs_prev st =
    (if ix_status ix \<noteq> STATUS_SUCCESS \<or> ix_i_next ix \<ge> length us then None
     else let ub = us ! ix_i_next ix in do {
       n_outputs \<leftarrow> count_ubatch_outputs n_outputs_all n_tokens_all ub;
       let st = st\<lparr>ds_n_outputs := n_outputs\<rparr>;
       (status, rows, ix, iw) \<leftarrow> process_ubatch ex ix ub (ds_memory st);
       let st = st\<lparr>ds_memory := iw\<rparr>;
       if status \<noteq> GRAPH_SUCCESS then do {
         iw \<leftarrow> rollback ub iw;
         Some (graph_code status, st\<lparr>ds_memory := iw\<rparr>) }
       else do {
         buf \<leftarrow> extract_logits n_outputs_prev n_outputs n_outputs_all rows (ds_logits st);
         let st = st\<lparr>ds_logits := buf\<rparr>;
         (more, ix) \<leftarrow> iswa_context_next ix;
         if \<not> more then Some (None, st)
         else decode_loop ex n_outputs_all n_tokens_all us ix (n_outputs_prev + n_outputs) st } })"

declare decode_loop.simps [code]

subsection \<open>The outputs\<close>

text \<open>The position of the smallest id from \<open>i\<close> on, and a step of the selection sort with its swap.\<close>

definition select_min :: "nat list \<Rightarrow> nat \<Rightarrow> nat" where
  "select_min ids i = fold (\<lambda>j j_min. if ids ! j < ids ! j_min then j else j_min) [i + 1..<length ids] i"

definition swap_at :: "nat \<Rightarrow> nat \<Rightarrow> 'a list \<Rightarrow> 'a list" where
  "swap_at i j xs = xs[i := xs ! j, j := xs ! i]"

definition select_step :: "nat \<Rightarrow> nat list \<times> (nat \<times> nat) list \<Rightarrow> nat list \<times> (nat \<times> nat) list" where
  "select_step i = (\<lambda>(ids, swaps). let j_min = select_min ids i in
     if j_min = i then (ids, swaps) else (swap_at i j_min ids, swaps @ [(i, j_min)]))"

definition set_output_id :: "nat list \<Rightarrow> nat \<Rightarrow> int list \<Rightarrow> int list option" where
  "set_output_id ids i out = require (ids ! i < length out) (Some (out[ids ! i := int i]))"

definition map_outputs :: "nat \<Rightarrow> 'r decode_state \<Rightarrow> 'r decode_state option" where
  "map_outputs n_outputs_all st = (let st = st\<lparr>ds_n_outputs := n_outputs_all\<rparr>; ids = ba_out_ids (ds_balloc st) in
     if n_outputs_all = 0 then Some st
     else require (length ids = n_outputs_all) (do {
       out \<leftarrow> fold_opt (set_output_id ids) [0..<n_outputs_all] (ds_output_ids st);
       if list_all (\<lambda>i. ids ! i = i) [0..<n_outputs_all] then Some (st\<lparr>ds_output_ids := out\<rparr>)
       else let (ids, swaps) = fold select_step [0..<n_outputs_all - 1] (ids, ds_output_swaps st) in do {
         out \<leftarrow> fold_opt (set_output_id ids) [0..<n_outputs_all] (map (\<lambda>_. - 1) out);
         Some (st\<lparr>ds_output_ids := out, ds_output_swaps := swaps, ds_balloc := (ds_balloc st)\<lparr>ba_out_ids := ids\<rparr>\<rparr>) } }))"

definition output_reorder :: "'r decode_state \<Rightarrow> 'r decode_state" where
  "output_reorder st = st\<lparr>ds_logits := fold (\<lambda>(i0, i1). swap_at i0 i1) (ds_output_swaps st) (ds_logits st), ds_output_swaps := []\<rparr>"

text \<open>The row of logits of token \<open>i\<close> of the batch, or for a negative \<open>i\<close> counted from the end.\<close>

definition get_logits_ith :: "int \<Rightarrow> 'r decode_state \<Rightarrow> 'r option" where
  "get_logits_ith i st0 = (let st = output_reorder st0;
     j = (if i < 0 then int (ds_n_outputs st) + i else if nat i \<ge> length (ds_output_ids st) then - 1 else ds_output_ids st ! nat i) in
     if ds_logits st = [] \<or> j < 0 \<or> j \<ge> int (ds_n_outputs st) then None else Some (ds_logits st ! nat j))"

subsection \<open>\<open>decode\<close>\<close>

definition decode_ready :: "decode_params \<Rightarrow> 'r externals \<Rightarrow> 'r decode_state \<Rightarrow> (int \<times> 'r decode_state) option" where
  "decode_ready dp ex st = (let n_tokens_all = get_n_tokens (ds_balloc st); n_outputs_all = ba_n_outputs (ds_balloc st) in
     require (n_tokens_all \<le> dp_n_batch dp \<and> (dp_causal_attn dp \<or> dp_n_ubatch dp \<ge> n_tokens_all)) (do {
       let st = st\<lparr>ds_output_swaps := []\<rparr>;
       (_, iw) \<leftarrow> memory_update ex (ds_memory st);
       (r, ba, iw) \<leftarrow> decode_slots dp ex (ds_balloc st) iw;
       let st = st\<lparr>ds_balloc := ba, ds_memory := iw\<rparr>;
       case r of Inl code \<Rightarrow> Some (code, st)
       | Inr (ix, us) \<Rightarrow> (case output_reserve dp ex n_outputs_all st of (reserved, st) \<Rightarrow>
           if reserved < n_outputs_all then Some (- 2, st) else do {
             (failed, st) \<leftarrow> decode_loop ex n_outputs_all n_tokens_all us ix 0 st;
             case failed of Some code \<Rightarrow> Some (code, st)
             | None \<Rightarrow> do { st \<leftarrow> map_outputs n_outputs_all st; Some (0, st) } }) }))"

definition decode :: "decode_params \<Rightarrow> 'r externals \<Rightarrow> batch \<Rightarrow> 'r decode_state \<Rightarrow> (int \<times> 'r decode_state) option" where
  "decode dp ex inp st =
    (let n_seq_max = (if dp_kv_unified dp then 256 else dp_n_seq_max dp); iw = ds_memory st in
     require ((bt_token inp = None) \<noteq> (bt_embd inp = None))
     (if bt_n_tokens inp = 0 then Some (- 1, st)
      else require (list_all (\<lambda>s. iswa_seq_pos_min (int s) iw \<noteq> None \<and> iswa_seq_pos_max (int s) iw \<noteq> None) [0..<n_seq_max]) (do {
        (ok, ba) \<leftarrow> alloc_init (dp_n_vocab dp) (Some (memory_of iw)) (dp_n_embd dp) n_seq_max False inp (ds_balloc st);
        let st = st\<lparr>ds_balloc := ba\<rparr>;
        if \<not> ok then Some (- 1, st) else decode_ready dp ex st })))"

end
