(* ===== verification/Decode_Outputs.thy ===== *)
theory Decode_Outputs
  imports Decode "HOL-Library.Multiset"
begin

text \<open>
  The mapping of output rows to tokens at the end of \<open>llama_context::decode\<close>: the selection sort of the
  output ids, the swaps it records, and the rows read back through them.
\<close>

subsection \<open>Swaps\<close>

lemma swap_at_length [simp]: "length (swap_at i j xs) = length xs"
  by (simp add: swap_at_def)

lemma swap_at_zip:
  assumes "length xs = length ys"
  shows "zip (swap_at i j xs) (swap_at i j ys) = (if i < length xs \<and> j < length xs then swap_at i j (zip xs ys) else zip (swap_at i j xs) (swap_at i j ys))"
  using assms by (simp add: swap_at_def zip_update)

lemma swap_at_mset:
  assumes "i < length xs" and "j < length xs"
  shows "mset (swap_at i j xs) = mset xs"
  using assms by (simp add: swap_at_def mset_swap)

definition swaps_within :: "nat \<Rightarrow> (nat \<times> nat) list \<Rightarrow> bool" where
  "swaps_within n swaps \<longleftrightarrow> list_all (\<lambda>(i, j). i < n \<and> j < n) swaps"

abbreviation apply_swaps :: "(nat \<times> nat) list \<Rightarrow> 'a list \<Rightarrow> 'a list" where
  "apply_swaps \<equiv> fold (\<lambda>(i0, i1). swap_at i0 i1)"

lemma apply_swaps_length [simp]: "length (apply_swaps swaps xs) = length xs"
  by (induction swaps arbitrary: xs) auto

lemma apply_swaps_zip:
  assumes "length xs = length ys" and "swaps_within (length xs) swaps"
  shows "zip (apply_swaps swaps xs) (apply_swaps swaps ys) = apply_swaps swaps (zip xs ys)"
  using assms
proof (induction swaps arbitrary: xs ys)
  case (Cons s swaps)
  obtain i j where s: "s = (i, j)" by force
  have "zip (swap_at i j xs) (swap_at i j ys) = swap_at i j (zip xs ys)"
    using swap_at_zip[of xs ys i j] Cons.prems by (simp add: s swaps_within_def)
  then show ?case using Cons.IH[of "swap_at i j xs" "swap_at i j ys"] Cons.prems by (simp add: s swaps_within_def)
qed simp

lemma apply_swaps_mset:
  "swaps_within (length xs) swaps \<Longrightarrow> mset (apply_swaps swaps xs) = mset xs"
proof (induction swaps arbitrary: xs)
  case (Cons s swaps)
  then show ?case by (cases s) (simp add: swaps_within_def swap_at_mset)
qed simp

text \<open>The rows beyond the outputs are not touched.\<close>

lemma apply_swaps_take:
  assumes "swaps_within n swaps" and "n \<le> length xs"
  shows "take n (apply_swaps swaps xs) = apply_swaps swaps (take n xs)"
  using assms
proof (induction swaps arbitrary: xs)
  case (Cons s swaps)
  obtain i j where s: "s = (i, j)" "i < n" "j < n" using Cons.prems(1) by (cases s) (auto simp: swaps_within_def)
  have "take n (swap_at i j xs) = swap_at i j (take n xs)"
    using s(2,3) by (simp add: swap_at_def take_update_swap)
  then show ?case using Cons.IH[of "swap_at i j xs"] Cons.prems by (simp add: s(1) swaps_within_def)
qed simp

subsection \<open>The selection sort\<close>

lemma select_min_value:
  assumes "i < length ids"
  shows "i \<le> select_min ids i \<and> select_min ids i < length ids \<and> (\<forall>j. i \<le> j \<and> j < length ids \<longrightarrow> ids ! select_min ids i \<le> ids ! j)"
proof -
  define m where "m k = fold (\<lambda>j j_min. if ids ! j < ids ! j_min then j else j_min) [i + 1..<k] i" for k
  have "i \<le> m k \<and> m k < length ids \<and> (\<forall>j. i \<le> j \<and> j < k \<longrightarrow> ids ! m k \<le> ids ! j)" if "i + 1 \<le> k" "k \<le> length ids" for k
    using that
  proof (induction k rule: dec_induct)
    case base
    then show ?case using assms by (auto simp: m_def le_less_Suc_eq less_Suc_eq)
  next
    case (step k)
    have eq: "m (Suc k) = (if ids ! k < ids ! m k then k else m k)" using step.hyps(1) by (simp add: m_def)
    have ih: "i \<le> m k" "m k < length ids" "\<forall>j. i \<le> j \<and> j < k \<longrightarrow> ids ! m k \<le> ids ! j" using step by simp_all
    show ?case
    proof (cases "ids ! k < ids ! m k")
      case True
      then show ?thesis using ih step by (auto simp: eq less_Suc_eq intro: less_imp_le less_le_trans)
    next
      case False
      then show ?thesis using ih by (auto simp: eq less_Suc_eq)
    qed
  qed
  from this[of "length ids"] show ?thesis using assms by (simp add: m_def select_min_def)
qed

text \<open>After \<open>i\<close> steps the first \<open>i\<close> ids are in order and not above the rest.\<close>

definition sorted_upto :: "nat \<Rightarrow> nat list \<Rightarrow> bool" where
  "sorted_upto i ids \<longleftrightarrow> (\<forall>a b. a < i \<longrightarrow> a \<le> b \<longrightarrow> b < length ids \<longrightarrow> ids ! a \<le> ids ! b)"

lemma select_step_value:
  assumes i: "i < length ids" and s: "sorted_upto i ids" and run: "select_step i (ids, swaps) = (ids', swaps')"
  shows "length ids' = length ids \<and> sorted_upto (Suc i) ids' \<and> (\<exists>new. swaps' = swaps @ new \<and> swaps_within (length ids) new \<and> ids' = apply_swaps new ids)"
proof -
  define m where "m = select_min ids i"
  have m: "i \<le> m" "m < length ids" "\<And>j. i \<le> j \<Longrightarrow> j < length ids \<Longrightarrow> ids ! m \<le> ids ! j"
    using select_min_value[OF i] by (auto simp: m_def)
  let ?t = "swap_at i m ids"
  have at: "?t ! j = (if j = m then ids ! i else if j = i then ids ! m else ids ! j)" if "j < length ids" for j
    using that m(1,2) i by (auto simp: swap_at_def nth_list_update)
  have "sorted_upto (Suc i) ?t"
    unfolding sorted_upto_def
  proof (intro allI impI)
    fix a b assume ab: "a < Suc i" "a \<le> b" "b < length ?t"
    show "?t ! a \<le> ?t ! b"
    proof (cases "a = i")
      case True
      then show ?thesis using ab m i by (auto simp: at)
    next
      case False
      then have "a < i" using ab(1) by simp
      then have "ids ! a \<le> ids ! c" if "a \<le> c" "c < length ids" for c using s that by (auto simp: sorted_upto_def)
      then show ?thesis using \<open>a < i\<close> ab m(1,2) i by (auto simp: at)
    qed
  qed
  moreover have "?t = ids" if "m = i" using that by (simp add: swap_at_def)
  moreover have "swaps_within (length ids) [(i, m)]" "apply_swaps [(i, m)] ids = ?t" using i m(2) by (simp_all add: swaps_within_def)
  moreover have "(m = i \<longrightarrow> ids' = ids \<and> swaps' = swaps) \<and> (m \<noteq> i \<longrightarrow> ids' = ?t \<and> swaps' = swaps @ [(i, m)])"
    using run by (auto simp: select_step_def m_def[symmetric] Let_def split: if_splits)
  ultimately show ?thesis
  proof (cases "m = i")
    case True
    then show ?thesis using \<open>sorted_upto (Suc i) ?t\<close> \<open>m = i \<Longrightarrow> ?t = ids\<close> \<open>(m = i \<longrightarrow> ids' = ids \<and> swaps' = swaps) \<and> (m \<noteq> i \<longrightarrow> ids' = ?t \<and> swaps' = swaps @ [(i, m)])\<close>
      by (intro conjI exI[of _ "[]"]) (simp_all add: swaps_within_def)
  qed auto
qed

lemma swaps_within_append [simp]: "swaps_within n (xs @ ys) = (swaps_within n xs \<and> swaps_within n ys)"
  by (simp add: swaps_within_def)

lemma selection_sort:
  assumes "k \<le> length ids" and "fold select_step [0..<k] (ids, swaps) = (ids', swaps')"
  shows "length ids' = length ids \<and> sorted_upto k ids' \<and> (\<exists>new. swaps' = swaps @ new \<and> swaps_within (length ids) new \<and> ids' = apply_swaps new ids)"
  using assms
proof (induction k arbitrary: ids' swaps')
  case 0
  then show ?case by (intro conjI exI[of _ "[]"]) (simp_all add: sorted_upto_def swaps_within_def)
next
  case (Suc k)
  obtain ids1 swaps1 where one: "fold select_step [0..<k] (ids, swaps) = (ids1, swaps1)" by force
  obtain new where i: "length ids1 = length ids" "sorted_upto k ids1" "swaps1 = swaps @ new" "swaps_within (length ids) new" "ids1 = apply_swaps new ids"
    using Suc.IH[OF _ one] Suc.prems(1) by auto
  have run: "select_step k (ids1, swaps1) = (ids', swaps')" using Suc.prems(2) one by simp
  have k: "k < length ids1" using Suc.prems(1) i(1) by simp
  obtain new' where s: "length ids' = length ids1" "sorted_upto (Suc k) ids'" "swaps' = swaps1 @ new'" "swaps_within (length ids1) new'" "ids' = apply_swaps new' ids1"
    using select_step_value[OF k i(2) run] by auto
  show ?case using s i by (intro conjI exI[of _ "new @ new'"]) simp_all
qed

lemma selection_sorted:
  assumes "ids \<noteq> []" and "fold select_step [0..<length ids - 1] (ids, []) = (ids', swaps)"
  shows "ids' = sort ids \<and> swaps_within (length ids) swaps \<and> ids' = apply_swaps swaps ids"
proof -
  have s: "length ids' = length ids" "sorted_upto (length ids - 1) ids'" "swaps_within (length ids) swaps" "ids' = apply_swaps swaps ids"
    using selection_sort[OF _ assms(2)] by auto
  have "sorted ids'"
    unfolding sorted_iff_nth_mono
  proof (intro allI impI)
    fix a b assume ab: "a \<le> b" "b < length ids'"
    show "ids' ! a \<le> ids' ! b"
    proof (cases "a < length ids - 1")
      case True
      then show ?thesis using s(2) ab by (auto simp: sorted_upto_def)
    next
      case False
      then have "a = b" using ab s(1) by simp
      then show ?thesis by simp
    qed
  qed
  moreover have "mset ids' = mset ids" using apply_swaps_mset[of ids swaps] s(3,4) by simp
  ultimately show ?thesis using s(3,4) properties_for_sort by metis
qed

subsection \<open>The output ids\<close>

lemma set_output_ids:
  assumes "distinct ids" and "\<forall>t \<in> set ids. t < length out"
  shows "\<exists>out'. fold_opt (set_output_id ids) [0..<length ids] out = Some out' \<and> length out' = length out
    \<and> (\<forall>i < length ids. out' ! (ids ! i) = int i) \<and> (\<forall>t. t \<notin> set ids \<longrightarrow> out' ! t = out ! t)"
proof -
  have "\<exists>out'. fold_opt (set_output_id ids) [0..<k] out = Some out' \<and> length out' = length out
      \<and> (\<forall>i < k. out' ! (ids ! i) = int i) \<and> (\<forall>t. t \<notin> set (take k ids) \<longrightarrow> out' ! t = out ! t)" if "k \<le> length ids" for k
    using that
  proof (induction k)
    case (Suc k)
    then obtain out1 where o: "fold_opt (set_output_id ids) [0..<k] out = Some out1" "length out1 = length out"
      "\<forall>i < k. out1 ! (ids ! i) = int i" "\<forall>t. t \<notin> set (take k ids) \<longrightarrow> out1 ! t = out ! t" by auto
    have k: "k < length ids" "ids ! k < length out1" using Suc.prems assms(2) o(2) by auto
    have ne: "ids ! k \<noteq> ids ! i" if "i < k" for i using assms(1) k(1) that by (simp add: nth_eq_iff_index_eq)
    have "fold_opt (set_output_id ids) [0..<Suc k] out = Some (out1[ids ! k := int k])"
      using o(1) k(2) by (simp add: fold_opt_append set_output_id_def)
    moreover have "\<forall>i < Suc k. out1[ids ! k := int k] ! (ids ! i) = int i" using o(3) k(2) ne by (simp add: less_Suc_eq)
    ultimately show ?case using o(2,4) k by (auto simp: take_Suc_conv_app_nth)
  qed simp
  from this[of "length ids"] show ?thesis by simp
qed

lemma rows_follow_ids:
  assumes "swaps_within (length ids) swaps" and "length ids \<le> length rows" and "distinct ids"
    and "i < length ids" and "k < length ids" and "apply_swaps swaps ids ! i = ids ! k"
  shows "apply_swaps swaps rows ! i = rows ! k"
proof -
  let ?n = "length ids"
  let ?r = "take ?n rows"
  have len: "length ids = length ?r" using assms(2) by simp
  have z: "zip (apply_swaps swaps ids) (apply_swaps swaps ?r) = apply_swaps swaps (zip ids ?r)"
    by (rule apply_swaps_zip[OF len assms(1)])
  have "swaps_within (length (zip ids ?r)) swaps" using assms(1,2) by simp
  then have "set (zip (apply_swaps swaps ids) (apply_swaps swaps ?r)) = set (zip ids ?r)"
    unfolding z by (metis apply_swaps_mset set_mset_mset)
  moreover have "(apply_swaps swaps ids ! i, apply_swaps swaps ?r ! i) \<in> set (zip (apply_swaps swaps ids) (apply_swaps swaps ?r))"
    using assms(4) len by (auto simp: in_set_zip)
  ultimately obtain j where "j < ?n" "ids ! j = ids ! k" "?r ! j = apply_swaps swaps ?r ! i"
    using assms(6) by (auto simp: in_set_zip)
  then have "apply_swaps swaps ?r ! i = rows ! k" using assms(3,5) by (simp add: nth_eq_iff_index_eq)
  moreover have "apply_swaps swaps ?r = take ?n (apply_swaps swaps rows)" using apply_swaps_take[OF assms(1,2)] by simp
  ultimately show ?thesis using assms(4) by simp
qed

definition outputs_ready :: "nat \<Rightarrow> 'r decode_state \<Rightarrow> bool" where
  "outputs_ready n st \<longleftrightarrow> 0 < n \<and> length (ba_out_ids (ds_balloc st)) = n \<and> distinct (ba_out_ids (ds_balloc st))
     \<and> (\<forall>t \<in> set (ba_out_ids (ds_balloc st)). t < length (ds_output_ids st)) \<and> (\<forall>x \<in> set (ds_output_ids st). x = - 1)
     \<and> n \<le> length (ds_logits st) \<and> ds_output_swaps st = []"

lemma map_outputs_value:
  assumes "outputs_ready n st"
  defines "ids \<equiv> ba_out_ids (ds_balloc st)"
  shows "\<exists>st'. map_outputs n st = Some st' \<and> ds_memory st' = ds_memory st \<and> ds_n_outputs st' = n
    \<and> swaps_within n (ds_output_swaps st') \<and> ds_logits st' = ds_logits st \<and> apply_swaps (ds_output_swaps st') ids = sort ids
    \<and> length (ds_output_ids st') = length (ds_output_ids st)
    \<and> (\<forall>i < n. ds_output_ids st' ! (sort ids ! i) = int i) \<and> (\<forall>t < length (ds_output_ids st). t \<notin> set ids \<longrightarrow> ds_output_ids st' ! t = - 1)"
proof -
  have a: "0 < n" "length ids = n" "distinct ids" "\<forall>t \<in> set ids. t < length (ds_output_ids st)" "\<forall>x \<in> set (ds_output_ids st). x = - 1"
    "ds_output_swaps st = []" using assms by (simp_all add: outputs_ready_def)
  obtain out where o: "fold_opt (set_output_id ids) [0..<n] (ds_output_ids st) = Some out" "length out = length (ds_output_ids st)"
    "\<forall>i < n. out ! (ids ! i) = int i" "\<forall>t. t \<notin> set ids \<longrightarrow> out ! t = ds_output_ids st ! t"
    using set_output_ids[OF a(3,4)] unfolding a(2) by blast
  show ?thesis
  proof (cases "list_all (\<lambda>i. ids ! i = i) [0..<n]")
    case True
    have "ids = [0..<n]" using True a(2) by (intro nth_equalityI) (auto simp: list_all_iff)
    then have "sort ids = ids" by (simp add: sort_upt)
    moreover have "map_outputs n st = Some (st\<lparr>ds_n_outputs := n, ds_output_ids := out\<rparr>)"
      using True a(1,2) o(1) by (simp add: map_outputs_def Let_def ids_def)
    ultimately show ?thesis using o(2-4) a by (simp add: swaps_within_def)
  next
    case False
    obtain ids' swaps where sel: "fold select_step [0..<n - 1] (ids, []) = (ids', swaps)" by force
    have ne: "ids \<noteq> []" using a(1,2) by auto
    note srt = selection_sorted[OF ne sel[folded a(2)]]
    have d: "distinct ids'" "\<forall>t \<in> set ids'. t < length (map (\<lambda>_. - 1 :: int) out)" "length ids' = n" "set ids' = set ids"
      using srt a(2-4) o(2) by simp_all
    obtain out' where o': "fold_opt (set_output_id ids') [0..<n] (map (\<lambda>_. - 1) out) = Some out'" "length out' = length out"
      "\<forall>i < n. out' ! (ids' ! i) = int i" "\<forall>t. t \<notin> set ids' \<longrightarrow> out' ! t = map (\<lambda>_. - 1) out ! t"
      using set_output_ids[OF d(1,2)] unfolding d(3) length_map by blast
    have "map_outputs n st = Some (st\<lparr>ds_n_outputs := n, ds_output_ids := out', ds_output_swaps := swaps,
        ds_balloc := (ds_balloc st)\<lparr>ba_out_ids := ids'\<rparr>\<rparr>)"
      using False a(1,2,6) o(1) o'(1) sel by (simp add: map_outputs_def Let_def ids_def)
    then show ?thesis using srt a o(2) o' d(4) by auto
  qed
qed

text \<open>
  Property C10. However the splits ordered the outputs, after \<open>decode\<close> has mapped them reading the logits of a
  token that was marked for output gives the row its micro-batch computed, tokens that were not marked have
  none, and the rows of the reordered buffer follow the order of the tokens in the batch.
\<close>

theorem outputs_by_token:
  assumes "outputs_ready n st"
  shows "\<exists>st'. map_outputs n st = Some st'
    \<and> (\<forall>k < n. get_logits_ith (int (ba_out_ids (ds_balloc st) ! k)) st' = Some (ds_logits st ! k))
    \<and> (\<forall>t < length (ds_output_ids st). t \<notin> set (ba_out_ids (ds_balloc st)) \<longrightarrow> get_logits_ith (int t) st' = None)
    \<and> (\<forall>i < n. \<exists>k < n. ba_out_ids (ds_balloc st) ! k = sort (ba_out_ids (ds_balloc st)) ! i
        \<and> ds_logits (output_reorder st') ! i = ds_logits st ! k)"
proof -
  let ?ids = "ba_out_ids (ds_balloc st)"
  have a: "0 < n" "length ?ids = n" "distinct ?ids" "\<forall>t \<in> set ?ids. t < length (ds_output_ids st)" "n \<le> length (ds_logits st)"
    using assms by (simp_all add: outputs_ready_def)
  obtain st' where m: "map_outputs n st = Some st'" "ds_n_outputs st' = n" "swaps_within n (ds_output_swaps st')" "ds_logits st' = ds_logits st"
    "apply_swaps (ds_output_swaps st') ?ids = sort ?ids" "length (ds_output_ids st') = length (ds_output_ids st)"
    "\<forall>i < n. ds_output_ids st' ! (sort ?ids ! i) = int i" "\<forall>t < length (ds_output_ids st). t \<notin> set ?ids \<longrightarrow> ds_output_ids st' ! t = - 1"
    using map_outputs_value[OF assms] by blast
  have re: "ds_logits (output_reorder st') = apply_swaps (ds_output_swaps st') (ds_logits st)" "ds_n_outputs (output_reorder st') = n"
    "ds_output_ids (output_reorder st') = ds_output_ids st'" by (simp_all add: output_reorder_def m)
  have ne: "apply_swaps (ds_output_swaps st') (ds_logits st) \<noteq> []"
    using a(1,5) apply_swaps_length[of "ds_output_swaps st'" "ds_logits st"] by (metis le_zero_eq length_0_conv less_irrefl)
  have row: "apply_swaps (ds_output_swaps st') (ds_logits st) ! i = ds_logits st ! k" if "i < n" "k < n" "sort ?ids ! i = ?ids ! k" for i k
    using rows_follow_ids[of ?ids "ds_output_swaps st'" "ds_logits st" i k] m(3,5) a that by simp
  have pos: "\<exists>i < n. sort ?ids ! i = ?ids ! k" if "k < n" for k
  proof -
    have "?ids ! k \<in> set (sort ?ids)" using that a(2) by simp
    then show ?thesis using a(2) by (metis in_set_conv_nth length_sort)
  qed
  have "get_logits_ith (int (?ids ! k)) st' = Some (ds_logits st ! k)" if k: "k < n" for k
  proof -
    obtain i where i: "i < n" "sort ?ids ! i = ?ids ! k" using pos[OF k] by blast
    have "?ids ! k < length (ds_output_ids st)" using a(2,4) k by simp
    moreover have "ds_output_ids st' ! (?ids ! k) = int i" using m(7) i by metis
    ultimately show ?thesis using row[OF i(1) k i(2)] i(1) ne m(6) by (simp add: get_logits_ith_def Let_def re)
  qed
  moreover have "get_logits_ith (int t) st' = None" if "t < length (ds_output_ids st)" "t \<notin> set ?ids" for t
    using m(6,8) that by (simp add: get_logits_ith_def Let_def re)
  moreover have "\<exists>k < n. ?ids ! k = sort ?ids ! i \<and> ds_logits (output_reorder st') ! i = ds_logits st ! k" if i: "i < n" for i
  proof -
    have "sort ?ids ! i \<in> set ?ids" using i a(2) by (metis length_sort nth_mem set_sort)
    then obtain k where "k < n" "?ids ! k = sort ?ids ! i" using a(2) by (metis in_set_conv_nth)
    then show ?thesis using row[OF i] by (auto simp: re)
  qed
  ultimately show ?thesis using m(1) by blast
qed

text \<open>Two outputs that came in reverse order.\<close>

definition sample_outputs :: "string decode_state" where
  "sample_outputs = \<lparr>ds_balloc = (alloc_new 1)\<lparr>ba_out_ids := [2, 0]\<rparr>, ds_memory = sample_iswa, ds_n_outputs = 0,
     ds_output_ids = [- 1, - 1, - 1], ds_output_swaps = [], ds_logits = [''two'', ''zero'']\<rparr>"

lemma outputs_by_token_witness:
  "\<exists>st'. map_outputs 2 sample_outputs = Some st' \<and> get_logits_ith 2 st' = Some ''two'' \<and> get_logits_ith 0 st' = Some ''zero'' \<and> get_logits_ith 1 st' = None"
proof -
  have r: "outputs_ready 2 sample_outputs" by (auto simp: outputs_ready_def sample_outputs_def)
  have f: "ba_out_ids (ds_balloc sample_outputs) = [2, 0]" "ds_logits sample_outputs = [''two'', ''zero'']" "ds_output_ids sample_outputs = [- 1, - 1, - 1]"
    by (simp_all add: sample_outputs_def)
  obtain st' where st: "map_outputs 2 sample_outputs = Some st'"
    "\<forall>k < 2. get_logits_ith (int ([2, 0] ! k)) st' = Some ([''two'', ''zero''] ! k)"
    "\<forall>t < length [- 1 :: int, - 1, - 1]. t \<notin> set [2, 0] \<longrightarrow> get_logits_ith (int t) st' = None"
    using outputs_by_token[OF r] unfolding f by blast
  have "get_logits_ith (int 2) st' = Some ''two''" "get_logits_ith (int 0) st' = Some ''zero''" "get_logits_ith (int 1) st' = None"
    using spec[OF st(2), of 0] spec[OF st(2), of 1] spec[OF st(3), of 1] by simp_all
  then show ?thesis using st(1) by auto
qed

end
