(* ===== verification/Q8_Layout.thy ===== *)
theory Q8_Layout
  imports Prelude
begin

text \<open>
  The pair-interleaved Q8_0 weight layout of the accelerator
  (\<^verbatim>\<open>ggml/src/ggml-cpu/fpga_q8_layout.cpp\<close>). A tile of \<open>rows\<close> logical rows with
  \<open>group_beats\<close> beats per row is stored as 128-bit words; the words of an even row and of the odd
  row after it alternate beat by beat, and an odd number of rows is padded by one companion row.
  A C \<open>int\<close> is its value (\<open>int\<close>), a \<open>size_t\<close> a 64-bit word, a \<open>uint32_t\<close> a 32-bit word. A function
  that fills an out parameter and returns \<open>bool\<close> returns an \<open>option\<close>; the null checks of those
  out parameters have no counterpart.
\<close>

subsection \<open>The operations\<close>

definition fpga_weight_layout_payload_words :: "int \<Rightarrow> int \<Rightarrow> u64 option" where
  "fpga_weight_layout_payload_words rows group_beats =
     (if rows \<le> 0 \<or> group_beats \<le> 0 then None
      else let logical_rows = size_of_int rows in
        if logical_rows = SIZE_MAX then None
        else let payload_rows = (logical_rows + 1) AND NOT 1; beats = size_of_int group_beats in
          if payload_rows = 0 \<or> payload_rows > SIZE_MAX div beats then None
          else Some (payload_rows * beats))"

definition fpga_weight_layout_payload_bytes :: "int \<Rightarrow> int \<Rightarrow> u64 option" where
  "fpga_weight_layout_payload_bytes rows group_beats =
     (case fpga_weight_layout_payload_words rows group_beats of
        None \<Rightarrow> None
      | Some words \<Rightarrow> if words > SIZE_MAX div 16 then None else Some (words * 16))"

definition fpga_weight_layout_word_index :: "int \<Rightarrow> int \<Rightarrow> int \<Rightarrow> int \<Rightarrow> u64 option" where
  "fpga_weight_layout_word_index rows group_beats physical_row beat =
     (if physical_row < 0 \<or> beat < 0 \<or> beat \<ge> group_beats then None
      else case fpga_weight_layout_payload_words rows group_beats of
        None \<Rightarrow> None
      | Some payload_words \<Rightarrow>
          (let payload_rows = (size_of_int rows + 1) AND NOT 1 in
           if size_of_int physical_row \<ge> payload_rows then None
           else let row_pair = drop_bit 1 (size_of_int physical_row);
                    candidate = (row_pair * size_of_int group_beats + size_of_int beat) * 2
                                + (size_of_int physical_row AND 1)
             in if candidate \<ge> payload_words then None else Some candidate))"

definition fpga_weight_layout_word_offset :: "u32 \<Rightarrow> int \<Rightarrow> int \<Rightarrow> int \<Rightarrow> int \<Rightarrow> u32 option" where
  "fpga_weight_layout_word_offset base rows group_beats physical_row beat =
     (case fpga_weight_layout_word_index rows group_beats physical_row beat of
        None \<Rightarrow> None
      | Some index \<Rightarrow>
          if index > SIZE_MAX div 16 then None
          else let byte_offset = index * 16 in
            if byte_offset > 4294967295 \<or> (ucast base :: u64) + byte_offset > 4294967295 then None
            else Some (base + ucast byte_offset))"

definition weight_window_bytes_for_rows :: "int \<Rightarrow> int \<Rightarrow> u64" where
  "weight_window_bytes_for_rows rows active_beats =
     (case fpga_weight_layout_payload_bytes rows active_beats of Some bytes \<Rightarrow> bytes | None \<Rightarrow> 0)"

subsection \<open>The layout over natural numbers\<close>

text \<open>
  What the layout promises, over unbounded numbers: the number of stored rows, the number of
  128-bit words, and the place of beat \<open>b\<close> of stored row \<open>r\<close>.
\<close>

definition padded_rows :: "nat \<Rightarrow> nat" where
  "padded_rows rows = 2 * ((rows + 1) div 2)"

definition layout_index :: "nat \<Rightarrow> nat \<Rightarrow> nat \<Rightarrow> nat" where
  "layout_index beats r b = 2 * ((r div 2) * beats + b) + r mod 2"

lemma padded_rows_bounds [simp]: "rows \<le> padded_rows rows" "padded_rows rows \<le> Suc rows"
  by (simp_all add: padded_rows_def)

lemma double_plus_one_less: "x < y \<Longrightarrow> 2 * x + 1 < 2 * (y :: nat)"
  by presburger

lemma double_plus_bit: "(2 * q + c mod 2) div 2 = q" "(2 * q + c mod 2) mod 2 = c mod (2 :: nat)"
  by presburger+

lemma double_sum_bounds:
  assumes "2 * (x + y) + z < (k :: nat)"
  obtains "2 * (x + y) < k" and "x + y < k" and "x < k"
  using assms by simp

lemma layout_index_less:
  assumes "r < padded_rows rows" and "b < beats"
  shows "layout_index beats r b < padded_rows rows * beats"
proof -
  let ?p = "(rows + 1) div 2"
  have "r div 2 < ?p" using assms(1) by (auto simp: padded_rows_def)
  then have "(r div 2 + 1) * beats \<le> ?p * beats" by (intro mult_le_mono) auto
  then have "(r div 2) * beats + b < ?p * beats" using assms(2) by simp
  then have "2 * ((r div 2) * beats + b) + 1 < 2 * (?p * beats)"
    by (rule double_plus_one_less)
  moreover have "r mod 2 \<le> 1" by simp
  ultimately show ?thesis by (simp add: layout_index_def padded_rows_def)
qed

text \<open>The coordinates are recovered from the index, so no two of them share a word.\<close>

lemma layout_index_decode:
  assumes "b < beats"
  shows "layout_index beats r b div 2 div beats = r div 2"
    and "layout_index beats r b div 2 mod beats = b"
    and "layout_index beats r b mod 2 = r mod 2"
  using assms unfolding layout_index_def double_plus_bit by simp_all

lemma layout_index_inj:
  assumes "layout_index beats r b = layout_index beats r' b'" and "b < beats" and "b' < beats"
  shows "r = r' \<and> b = b'"
  using assms layout_index_decode[of b beats r] layout_index_decode[of b' beats r']
  by (metis div_mult_mod_eq)

lemma layout_index_surj:
  assumes "i < padded_rows rows * beats"
  shows "\<exists>r b. r < padded_rows rows \<and> b < beats \<and> layout_index beats r b = i"
proof (intro exI conjI)
  let ?r = "2 * (i div 2 div beats) + i mod 2" and ?b = "i div 2 mod beats"
  have pos: "0 < beats" using assms by (auto intro: gr0I)
  have "i div 2 < (rows + 1) div 2 * beats" using assms by (auto simp: padded_rows_def)
  then have "i div 2 div beats < (rows + 1) div 2"
    by (metis div_less_iff_less_mult mult.commute pos)
  moreover have "i mod 2 \<le> 1" by simp
  ultimately show "?r < padded_rows rows" unfolding padded_rows_def by linarith
  show "?b < beats" using pos by simp
  show "layout_index beats ?r ?b = i" by (simp add: layout_index_def)
qed

lemma layout_index_bij:
  "bij_betw (\<lambda>(r, b). layout_index beats r b)
     ({0..<padded_rows rows} \<times> {0..<beats}) {0..<padded_rows rows * beats}"
proof (rule bij_betw_imageI)
  show "inj_on (\<lambda>(r, b). layout_index beats r b) ({0..<padded_rows rows} \<times> {0..<beats})"
    by (auto simp: inj_on_def dest: layout_index_inj)
  show "(\<lambda>(r, b). layout_index beats r b) ` ({0..<padded_rows rows} \<times> {0..<beats})
      = {0..<padded_rows rows * beats}"
    using layout_index_surj by (fastforce simp: layout_index_less image_iff)
qed

subsection \<open>The machine-word code computes the layout\<close>

lemma unat_payload_rows:
  assumes "0 < rows" and "rows \<le> INT_MAX"
  shows "unat ((size_of_int rows + 1) AND NOT 1) = padded_rows (nat rows)"
proof -
  have "unat (size_of_int rows) = nat rows" using assms by (intro unat_size_of_int) auto
  then show ?thesis using assms unat_even_up[of "size_of_int rows"]
    by (simp add: padded_rows_def)
qed

lemma payload_size_bound:
  assumes "0 < rows" "rows \<le> INT_MAX" "0 < beats" "beats \<le> INT_MAX"
  shows "padded_rows (nat rows) * nat beats < 2 ^ 63"
proof -
  have "padded_rows (nat rows) \<le> Suc (nat rows)" by simp
  also have "\<dots> \<le> 2 ^ 31" using assms by simp
  finally have "padded_rows (nat rows) * nat beats \<le> 2 ^ 31 * 2147483647"
    using assms by (intro mult_le_mono) auto
  then show ?thesis by simp
qed

lemma payload_words_value:
  assumes "0 < rows" "rows \<le> INT_MAX" "0 < beats" "beats \<le> INT_MAX"
  shows "\<exists>w. fpga_weight_layout_payload_words rows beats = Some w
           \<and> unat w = padded_rows (nat rows) * nat beats"
proof -
  let ?R = "(size_of_int rows + 1) AND NOT 1" and ?B = "size_of_int beats"
  have R: "unat ?R = padded_rows (nat rows)" using assms by (intro unat_payload_rows)
  have B: "unat ?B = nat beats" using assms by (intro unat_size_of_int) auto
  have lt: "unat ?R * unat ?B < 2 ^ 63" using payload_size_bound[OF assms] R B by simp
  have u: "unat (?R * ?B) = unat ?R * unat ?B" using lt by (intro unat_mult_no_overflow) simp
  have "unat (size_of_int rows) \<noteq> unat SIZE_MAX"
    using assms by (subst unat_size_of_int) auto
  then have 1: "size_of_int rows \<noteq> SIZE_MAX" by metis
  have "padded_rows (nat rows) \<noteq> 0" using assms by (simp add: padded_rows_def)
  then have 2: "?R \<noteq> 0" using R by auto
  have "unat ?R \<le> (2 ^ 64 - 1) div unat ?B"
    using lt B assms by (subst less_eq_div_iff_mult_less_eq) auto
  then have 3: "?R \<le> SIZE_MAX div ?B"
    by (simp add: word_le_nat_alt unat_div)
  show ?thesis
    using assms 1 2 3 u R B by (simp add: fpga_weight_layout_payload_words_def Let_def not_less)
qed

lemma payload_words_bad:
  "rows \<le> 0 \<or> beats \<le> 0 \<Longrightarrow> fpga_weight_layout_payload_words rows beats = None"
  by (auto simp: fpga_weight_layout_payload_words_def)

text \<open>
  The index computed with \<open>size_t\<close> arithmetic is the layout's, on every accepted input, and an
  input is rejected exactly when it names no stored row or no beat.
\<close>

lemma word_index_value:
  assumes dims: "0 < rows" "rows \<le> INT_MAX" "0 < beats" "beats \<le> INT_MAX"
    and row: "0 \<le> r" "nat r < padded_rows (nat rows)" and beat: "0 \<le> b" "b < beats"
  shows "\<exists>i. fpga_weight_layout_word_index rows beats r b = Some i
           \<and> unat i = layout_index (nat beats) (nat r) (nat b)"
proof -
  let ?r = "size_of_int r" and ?b = "size_of_int b" and ?B = "size_of_int beats"
  let ?q = "drop_bit 1 ?r"
  obtain w where w: "fpga_weight_layout_payload_words rows beats = Some w"
    "unat w = padded_rows (nat rows) * nat beats"
    using payload_words_value[OF dims] by blast
  have w63: "unat w < 2 ^ 63" using payload_size_bound[OF dims] w by simp
  have "padded_rows (nat rows) \<le> Suc (nat rows)" by simp
  moreover have "nat rows \<le> 2147483647" using dims by simp
  ultimately have r31: "nat r < 4294967296" using row by linarith
  have ur: "unat ?r = nat r" using row r31 by (intro unat_size_of_int) auto
  have ub: "unat ?b = nat b" using beat dims by (intro unat_size_of_int) auto
  have uB: "unat ?B = nat beats" using dims by (intro unat_size_of_int) auto
  have idx: "layout_index (nat beats) (nat r) (nat b) < unat w"
    using layout_index_less[OF row(2), of "nat b" "nat beats"] beat w by simp
  have q: "unat ?q = nat r div 2" using unat_drop_bit[of 1 ?r] by (simp add: ur)
  have sum: "2 * ((nat r div 2) * nat beats + nat b) + nat r mod 2 < 2 ^ 63"
    using idx w63 by (simp add: layout_index_def)
  then have small: "2 * ((nat r div 2) * nat beats + nat b) < 2 ^ 63"
      "(nat r div 2) * nat beats + nat b < 2 ^ 63" "(nat r div 2) * nat beats < 2 ^ 63"
    by (auto elim: double_sum_bounds)
  have 1: "unat (?q * ?B) = (nat r div 2) * nat beats"
    using small q uB by (subst unat_mult_no_overflow) auto
  have 2: "unat (?q * ?B + ?b) = (nat r div 2) * nat beats + nat b"
    using small 1 ub by (subst unat_add_no_overflow) auto
  have 3: "unat ((?q * ?B + ?b) * 2) = 2 * ((nat r div 2) * nat beats + nat b)"
    using small 2 by (subst unat_mult_no_overflow) auto
  have 4: "unat (?r AND 1) = nat r mod 2"
    by (simp add: ur and_one_eq unat_mod)
  have 5: "unat ((?q * ?B + ?b) * 2 + (?r AND 1)) = layout_index (nat beats) (nat r) (nat b)"
    using sum 3 4 by (subst unat_add_no_overflow) (auto simp: layout_index_def)
  have "\<not> ?r \<ge> (size_of_int rows + 1) AND NOT 1"
    using row ur unat_payload_rows[OF dims(1,2)] by (simp only: word_le_nat_alt not_le)
  moreover have "\<not> (?q * ?B + ?b) * 2 + (?r AND 1) \<ge> w"
    using idx 5 by (simp only: word_le_nat_alt not_le)
  ultimately show ?thesis
    using w row beat 5 by (simp only: fpga_weight_layout_word_index_def Let_def option.case) simp
qed

lemma word_index_rejects:
  assumes dims: "0 < rows" "rows \<le> INT_MAX" "0 < beats" "beats \<le> INT_MAX" and r: "r \<le> INT_MAX"
    and bad: "r < 0 \<or> nat r \<ge> padded_rows (nat rows) \<or> b < 0 \<or> b \<ge> beats"
  shows "fpga_weight_layout_word_index rows beats r b = None"
proof (cases "r < 0 \<or> b < 0 \<or> b \<ge> beats")
  case True
  then show ?thesis by (auto simp: fpga_weight_layout_word_index_def)
next
  case False
  then have "unat (size_of_int r) = nat r" using r by (intro unat_size_of_int) auto
  then have "size_of_int r \<ge> (size_of_int rows + 1) AND NOT 1"
    using bad False unat_payload_rows[OF dims(1,2)] by (simp only: word_le_nat_alt) auto
  then show ?thesis
    by (auto simp: fpga_weight_layout_word_index_def Let_def split: option.splits)
qed

subsection \<open>Byte offsets\<close>

lemma word_index_no_byte_overflow:
  assumes "unat (i :: u64) < 2 ^ 63" and "unat i * 16 \<le> U32_MAX"
  shows "\<not> i > SIZE_MAX div 16" and "unat (i * 16) = unat i * 16"
  using assms by (auto simp: word_less_nat_alt unat_div unat_mult_no_overflow)

lemma word_offset_value:
  assumes dims: "0 < rows" "rows \<le> INT_MAX" "0 < beats" "beats \<le> INT_MAX" and r: "r \<le> INT_MAX"
    and off: "fpga_weight_layout_word_offset base rows beats r b = Some off"
  shows "0 \<le> r \<and> nat r < padded_rows (nat rows) \<and> 0 \<le> b \<and> b < beats
    \<and> unat off = unat base + 16 * layout_index (nat beats) (nat r) (nat b)"
proof -
  obtain i where i: "fpga_weight_layout_word_index rows beats r b = Some i"
    and le: "\<not> i > SIZE_MAX div 16" "\<not> i * 16 > 4294967295"
      "\<not> (ucast base :: u64) + i * 16 > 4294967295"
    and o: "off = base + ucast (i * 16)"
    using off by (auto simp: fpga_weight_layout_word_offset_def Let_def split: option.splits if_splits)
  have ok: "0 \<le> r \<and> nat r < padded_rows (nat rows) \<and> 0 \<le> b \<and> b < beats"
  proof (rule ccontr)
    assume "\<not> ?thesis"
    then have "r < 0 \<or> nat r \<ge> padded_rows (nat rows) \<or> b < 0 \<or> b \<ge> beats" by auto
    then show False using word_index_rejects[OF dims r] i by simp
  qed
  then have ui: "unat i = layout_index (nat beats) (nat r) (nat b)"
    using word_index_value[OF dims, of r b] i by auto
  have "unat i \<le> 18446744073709551615 div 16"
    using le(1) by (simp add: word_less_nat_alt unat_div not_less)
  then have m: "unat (i * 16) = unat i * 16" by (subst unat_mult_no_overflow) auto
  have small: "unat (i * 16) \<le> 4294967295" using le(2) by (simp add: word_less_nat_alt not_less)
  have ub: "unat (ucast base :: u64) = unat base" by (rule unat_ucast_wide) simp
  have "unat base < 4294967296" using unsigned_less[of base] by simp
  then have "unat ((ucast base :: u64) + i * 16) = unat base + unat (i * 16)"
    using small ub by (subst unat_add_no_overflow) auto
  then have sum: "unat base + unat (i * 16) \<le> 4294967295"
    using le(3) by (simp add: word_less_nat_alt not_less)
  have "unat (ucast (i * 16) :: u32) = unat (i * 16)" using small by (simp add: unat_ucast_mod)
  then have "unat off = unat base + unat (i * 16)" using sum o by (subst o, subst unat_add_no_overflow) auto
  then show ?thesis using ok m ui by simp
qed

lemma window_bytes_value:
  assumes dims: "0 < rows" "rows \<le> INT_MAX" "0 < beats" "beats \<le> INT_MAX"
    and nz: "weight_window_bytes_for_rows rows beats \<noteq> 0"
  shows "unat (weight_window_bytes_for_rows rows beats) = padded_rows (nat rows) * nat beats * 16"
proof -
  obtain w where w: "fpga_weight_layout_payload_words rows beats = Some w"
    "unat w = padded_rows (nat rows) * nat beats" using payload_words_value[OF dims] by blast
  have le: "\<not> w > SIZE_MAX div 16" and eq: "weight_window_bytes_for_rows rows beats = w * 16"
    using nz w(1)
    by (auto simp: weight_window_bytes_for_rows_def fpga_weight_layout_payload_bytes_def split: if_splits)
  have "unat w \<le> 18446744073709551615 div 16"
    using le by (simp add: word_less_nat_alt unat_div not_less)
  then have "unat (w * 16) = unat w * 16" by (subst unat_mult_no_overflow) auto
  then show ?thesis using eq w by simp
qed

subsection \<open>An interface for injective placements\<close>

text \<open>
  A client that stores one fixed-size cell per coordinate only needs three laws: coordinates are
  placed inside the window, and two coordinates never share a cell. The stores may then come in
  any order, and each coordinate reads back what was stored for it.
\<close>

fun stores :: "('c \<Rightarrow> nat) \<Rightarrow> ('c \<Rightarrow> 'v) \<Rightarrow> 'c list \<Rightarrow> (nat \<Rightarrow> 'v) \<Rightarrow> nat \<Rightarrow> 'v" where
  "stores place v [] m = m"
| "stores place v (c # cs) m = stores place v cs (m(place c := v c))"

locale placement =
  fixes place :: "'c \<Rightarrow> nat" and coords :: "'c set" and window :: nat
  assumes place_less: "c \<in> coords \<Longrightarrow> place c < window"
    and place_inj: "c \<in> coords \<Longrightarrow> c' \<in> coords \<Longrightarrow> place c = place c' \<Longrightarrow> c = c'"
begin

lemma stores_outside:
  assumes "set cs \<subseteq> coords" and "i \<notin> place ` set cs"
  shows "stores place v cs m i = m i"
  using assms by (induction cs arbitrary: m) auto

lemma stores_read_back:
  assumes "set cs \<subseteq> coords" and "c \<in> set cs"
  shows "stores place v cs m (place c) = v c"
  using assms
proof (induction cs arbitrary: m)
  case Nil
  then show ?case by simp
next
  case (Cons d cs)
  show ?case
  proof (cases "c \<in> set cs")
    case True
    with Cons show ?thesis by simp
  next
    case False
    then have "d = c" using Cons.prems by simp
    moreover have "place c \<notin> place ` set cs"
      using False Cons.prems place_inj by auto
    ultimately show ?thesis using Cons.prems by (simp add: stores_outside)
  qed
qed

lemma stores_beyond_window:
  assumes "set cs \<subseteq> coords" and "window \<le> i"
  shows "stores place v cs m i = m i"
  using assms place_less by (intro stores_outside) (auto simp: not_less[symmetric])

end

interpretation q8: placement "\<lambda>(r, b). layout_index beats r b"
    "{0..<padded_rows rows} \<times> {0..<beats}" "padded_rows rows * beats"
  for rows beats
  by unfold_locales (auto simp: layout_index_less dest: layout_index_inj)

subsection \<open>Properties\<close>

lemma word_index_cases:
  assumes "0 < rows" "rows \<le> INT_MAX" "0 < beats" "beats \<le> INT_MAX" and "r \<le> INT_MAX"
  shows "map_option unat (fpga_weight_layout_word_index rows beats r b) =
    (if 0 \<le> r \<and> nat r < padded_rows (nat rows) \<and> 0 \<le> b \<and> b < beats
     then Some (layout_index (nat beats) (nat r) (nat b)) else None)"
proof (cases "0 \<le> r \<and> nat r < padded_rows (nat rows) \<and> 0 \<le> b \<and> b < beats")
  case True
  then show ?thesis using word_index_value[OF assms(1-4), of r b] by auto
next
  case False
  then have "fpga_weight_layout_word_index rows beats r b = None"
    by (intro word_index_rejects[OF assms]) auto
  with False show ?thesis by auto
qed

text \<open>
  For every tile geometry a C \<open>int\<close> can hold,
  \<open>fpga_weight_layout_word_index\<close> accepts exactly the coordinates of a stored row (padding
  companion included) and a beat, and what it returns with its 64-bit arithmetic is the
  pair-interleaved index \<open>2 * ((row div 2) * beats + beat) + row mod 2\<close>: no intermediate
  product or sum wraps.
\<close>

theorem word_index_exact:
  assumes "0 < rows" "rows \<le> INT_MAX" "0 < beats" "beats \<le> INT_MAX" and "r \<le> INT_MAX"
  shows "map_option unat (fpga_weight_layout_word_index rows beats r b) =
    (if 0 \<le> r \<and> nat r < padded_rows (nat rows) \<and> 0 \<le> b \<and> b < beats
     then Some (layout_index (nat beats) (nat r) (nat b)) else None)"
  by (rule word_index_cases[OF assms])

lemma word_index_exact_witness:
  "map_option unat (fpga_weight_layout_word_index 3 4 3 2) = Some 13
   \<and> map_option unat (fpga_weight_layout_word_index 3 4 4 2) = None"
  using word_index_exact[of 3 4 3 2] word_index_exact[of 3 4 4 2]
  by (simp add: padded_rows_def layout_index_def)

text \<open>
  Property C32. Dense and collision free: over all stored rows and beats, the index function is a
  bijection onto the words \<open>fpga_weight_layout_payload_words\<close> allocates, so no word is shared and
  none is left unwritten.
\<close>

theorem word_index_bijection:
  assumes "0 < rows" "rows \<le> INT_MAX" "0 < beats" "beats \<le> INT_MAX"
  shows "bij_betw (\<lambda>(r, b). unat (the (fpga_weight_layout_word_index rows beats (int r) (int b))))
     ({0..<padded_rows (nat rows)} \<times> {0..<nat beats})
     {0..<unat (the (fpga_weight_layout_payload_words rows beats))}"
proof -
  have eq: "unat (the (fpga_weight_layout_word_index rows beats (int r) (int b)))
      = layout_index (nat beats) r b"
    if "r < padded_rows (nat rows)" "b < nat beats" for r b
  proof -
    have "int b < beats" using that by linarith
    then show ?thesis using word_index_value[OF assms, of "int r" "int b"] that by auto
  qed
  have w: "unat (the (fpga_weight_layout_payload_words rows beats))
      = padded_rows (nat rows) * nat beats"
    using payload_words_value[OF assms] by auto
  show ?thesis
    using layout_index_bij[of "nat beats" "nat rows"] unfolding w
    by (rule bij_betw_cong[THEN iffD2, rotated]) (auto simp: eq)
qed

lemma word_index_bijection_witness:
  "bij_betw (\<lambda>(r, b). unat (the (fpga_weight_layout_word_index 3 2 (int r) (int b))))
     ({0..<padded_rows 3} \<times> {0..<2}) {0..<unat (the (fpga_weight_layout_payload_words 3 2))}"
  using word_index_bijection[of 3 2] by simp

text \<open>
  Property C33. An accepted byte offset stays in the tile's window and in the 32-bit address space,
  is the base plus sixteen times the word index, and two different coordinates get offsets at
  least one 16-byte word apart.
\<close>

theorem word_offset_safe:
  assumes dims: "0 < rows" "rows \<le> INT_MAX" "0 < beats" "beats \<le> INT_MAX"
    and "r \<le> INT_MAX" "r' \<le> INT_MAX"
    and off: "fpga_weight_layout_word_offset base rows beats r b = Some off"
    and off': "fpga_weight_layout_word_offset base rows beats r' b' = Some off'"
  shows "unat off = unat base + 16 * layout_index (nat beats) (nat r) (nat b)
    \<and> unat base \<le> unat off
    \<and> (weight_window_bytes_for_rows rows beats \<noteq> 0 \<longrightarrow>
         unat off + 16 \<le> unat base + unat (weight_window_bytes_for_rows rows beats))
    \<and> ((r, b) \<noteq> (r', b') \<longrightarrow> unat off + 16 \<le> unat off' \<or> unat off' + 16 \<le> unat off)"
proof -
  note v = word_offset_value[OF dims assms(5) off] and v' = word_offset_value[OF dims assms(6) off']
  have i: "layout_index (nat beats) (nat r) (nat b) < padded_rows (nat rows) * nat beats"
    using v layout_index_less[of "nat r" "nat rows" "nat b" "nat beats"] by auto
  have win: "unat (weight_window_bytes_for_rows rows beats) = padded_rows (nat rows) * nat beats * 16"
    if "weight_window_bytes_for_rows rows beats \<noteq> 0"
    using window_bytes_value[OF dims that] .
  let ?i = "layout_index (nat beats) (nat r) (nat b)" and ?i' = "layout_index (nat beats) (nat r') (nat b')"
  have o: "unat off = unat base + 16 * ?i" and o': "unat off' = unat base + 16 * ?i'"
    using v v' by blast+
  have "?i \<noteq> ?i'" if "(r, b) \<noteq> (r', b')"
  proof
    assume eq: "?i = ?i'"
    have "nat b < nat beats" "nat b' < nat beats" using v v' by linarith+
    then have "nat r = nat r' \<and> nat b = nat b'" using eq by (intro layout_index_inj)
    then show False using that v v' by (simp add: eq_nat_nat_iff)
  qed
  then have apart: "unat off + 16 \<le> unat off' \<or> unat off' + 16 \<le> unat off" if "(r, b) \<noteq> (r', b')"
    using that o o' by linarith
  show ?thesis
    by (intro conjI impI o apart) (use o i win in simp_all)
qed

lemma word_offset_safe_witness:
  "\<exists>off off'. fpga_weight_layout_word_offset 4096 3 4 1 0 = Some off
    \<and> fpga_weight_layout_word_offset 4096 3 4 2 3 = Some off'
    \<and> unat off = 4112 \<and> unat off + 16 \<le> 4096 + 256
    \<and> (unat off + 16 \<le> unat off' \<or> unat off' + 16 \<le> unat off)"
proof -
  have o: "fpga_weight_layout_word_offset 4096 3 4 1 0 = Some 4112"
    and o': "fpga_weight_layout_word_offset 4096 3 4 2 3 = Some 4320"
    and w: "weight_window_bytes_for_rows 3 4 = 256"
    by (simp_all add: fpga_weight_layout_word_offset_def fpga_weight_layout_word_index_def
        fpga_weight_layout_payload_words_def fpga_weight_layout_payload_bytes_def
        weight_window_bytes_for_rows_def word_le_nat_alt)
  show ?thesis
    using word_offset_safe[OF _ _ _ _ _ _ o o'] o o' w by (auto simp: layout_index_def)
qed

end
