(* ===== verification/Q8_Pack.thy ===== *)
theory Q8_Pack
  imports Q8_Layout
begin

text \<open>
  The host side packer of Q8_0 weights (\<^verbatim>\<open>ggml/src/ggml-cpu/fpga_q8_pack.cpp\<close>): the byte
  transformation that fills the staging window in the pair-interleaved layout, alone and fused with
  the matching table of fp16 scales. The destination windows are memories indexed by 32-bit word,
  relative to the window's address; the source tensor and activation are read from byte-addressed
  memory. An address is an integer with 0 the null pointer. A refused call (\<open>return false\<close>) is
  \<open>None\<close>; an accepted one is the new windows and the counts written back.
\<close>

subsection \<open>Source blocks\<close>

text \<open>
  \<open>block_q8_0\<close> is 34 bytes: the fp16 scale at offset 0 and 32 quants at offset 2.
\<close>

abbreviation Q8_BLOCK_BYTES :: int where "Q8_BLOCK_BYTES \<equiv> 34"
abbreviation (input) kNumLanes :: nat where "kNumLanes \<equiv> 16"
abbreviation (input) kBlockBeats :: nat where "kBlockBeats \<equiv> 2"

definition weight_block_from_base :: "int \<Rightarrow> int \<Rightarrow> int \<Rightarrow> int \<Rightarrow> int" where
  "weight_block_from_base nb1 data_base row block = data_base + row * nb1 + block * Q8_BLOCK_BYTES"

definition q8_qs :: "(int \<Rightarrow> u8) \<Rightarrow> int \<Rightarrow> nat \<Rightarrow> u8" where
  "q8_qs mem p i = mem (p + 2 + int i)"

definition q8_d :: "(int \<Rightarrow> u8) \<Rightarrow> int \<Rightarrow> u16" where
  "q8_d mem p = ucast (mem p) OR push_bit 8 (ucast (mem (p + 1)))"

subsection \<open>Little-endian word stores\<close>

definition pack_i8x4_le :: "(nat \<Rightarrow> u8) \<Rightarrow> u32" where
  "pack_i8x4_le lanes = ucast (lanes 0) OR push_bit 8 (ucast (lanes 1))
     OR push_bit 16 (ucast (lanes 2)) OR push_bit 24 (ucast (lanes 3))"

definition pack_i8x8_le :: "(nat \<Rightarrow> u8) \<Rightarrow> u64" where
  "pack_i8x8_le lanes = ucast (pack_i8x4_le lanes)
     OR push_bit 32 (ucast (pack_i8x4_le (\<lambda>i. lanes (4 + i))))"

text \<open>A 64-bit store on the little-endian host writes the low half to the lower word.\<close>

definition store_u64 :: "nat \<Rightarrow> u64 \<Rightarrow> (nat \<Rightarrow> u32) \<Rightarrow> nat \<Rightarrow> u32" where
  "store_u64 i v m = m(i := ucast v, i + 1 := ucast (drop_bit 32 v))"

definition store_i8x16_words ::
    "nat \<Rightarrow> (nat \<Rightarrow> u8) \<Rightarrow> bool \<Rightarrow> (nat \<Rightarrow> u32) \<Rightarrow> nat \<Rightarrow> u32" where
  "store_i8x16_words dst lanes wide_stores m =
     (if wide_stores then
        store_u64 (dst + 2) (pack_i8x8_le (\<lambda>i. lanes (8 + i))) (store_u64 dst (pack_i8x8_le lanes) m)
      else
        m(dst := pack_i8x4_le lanes,
          dst + 1 := pack_i8x4_le (\<lambda>i. lanes (4 + i)),
          dst + 2 := pack_i8x4_le (\<lambda>i. lanes (8 + i)),
          dst + 3 := pack_i8x4_le (\<lambda>i. lanes (12 + i))))"

definition store_scale_pair_words :: "nat \<Rightarrow> u32 \<Rightarrow> u32 \<Rightarrow> (nat \<Rightarrow> u32) \<Rightarrow> nat \<Rightarrow> u32" where
  "store_scale_pair_words dst first second m =
     store_u64 dst (ucast first OR push_bit 32 (ucast second)) m"

lemma low_half: "ucast (ucast (a :: u32) OR push_bit 32 (ucast (b :: u32)) :: u64) = a"
  by (rule bit_word_eqI) (auto simp: bit_simps)

lemma high_half: "ucast (drop_bit 32 (ucast (a :: u32) OR push_bit 32 (ucast (b :: u32)) :: u64)) = b"
  by (rule bit_word_eqI) (auto simp: bit_simps dest: bit_imp_le_length)

lemma store_u64_halves:
  "store_u64 i (ucast a OR push_bit 32 (ucast b)) m = m(i := a, i + 1 := b)"
  by (simp only: store_u64_def low_half high_half)

lemma store_scale_pair_words_eq: "store_scale_pair_words i a b m = m(i := a, i + 1 := b)"
  by (simp only: store_scale_pair_words_def store_u64_halves)

text \<open>Word \<open>w\<close> of a 16-lane beat; both store widths write the four of them.\<close>

definition beat_word :: "(nat \<Rightarrow> u8) \<Rightarrow> nat \<Rightarrow> u32" where
  "beat_word lanes w = pack_i8x4_le (\<lambda>i. lanes (4 * w + i))"

lemma store_i8x16_words_eq:
  "store_i8x16_words dst lanes wide m =
     (\<lambda>i. if dst \<le> i \<and> i < dst + 4 then beat_word lanes (i - dst) else m i)"
proof -
  have "store_i8x16_words dst lanes wide m =
      m(dst := beat_word lanes 0, dst + 1 := beat_word lanes 1,
        dst + 2 := beat_word lanes 2, dst + 3 := beat_word lanes 3)"
    by (cases wide)
      (simp_all add: store_i8x16_words_def pack_i8x8_le_def store_u64_halves beat_word_def
        add.assoc[symmetric] numeral_3_eq_3)
  also have "\<dots> = (\<lambda>i. if dst \<le> i \<and> i < dst + 4 then beat_word lanes (i - dst) else m i)"
  proof (rule ext)
    fix i
    have "i < dst \<or> i = dst \<or> i = dst + 1 \<or> i = dst + 2 \<or> i = dst + 3 \<or> dst + 4 \<le> i" by arith
    then show "(m(dst := beat_word lanes 0, dst + 1 := beat_word lanes 1,
        dst + 2 := beat_word lanes 2, dst + 3 := beat_word lanes 3)) i
      = (if dst \<le> i \<and> i < dst + 4 then beat_word lanes (i - dst) else m i)"
      by auto
  qed
  finally show ?thesis .
qed

lemma store_width_irrelevant:
  "store_i8x16_words dst lanes True m = store_i8x16_words dst lanes False m"
  by (simp only: store_i8x16_words_eq)

subsection \<open>The weight packer\<close>

text \<open>The arguments of the two packers, as one record.\<close>

record pack_task =
  pt_dst_words :: int
  pt_scale_words :: int
  pt_nb1 :: int
  pt_weight_data_base :: int
  pt_activation_data_base :: int
  pt_row0 :: int
  pt_k_block0 :: int
  pt_rows :: int
  pt_group_blocks :: int
  pt_group_beats :: int
  pt_pair_begin :: nat
  pt_pair_end :: nat
  pt_wide_stores :: bool

text \<open>
  The 16 lanes the inner loop stores for the even row and for the odd row of a pair: the odd row of
  the last pair of an odd tile does not exist and its beats are zero.
\<close>

definition zero_i8x16 :: "nat \<Rightarrow> u8" where
  "zero_i8x16 i = 0"

definition row_lanes :: "(int \<Rightarrow> u8) \<Rightarrow> pack_task \<Rightarrow> int \<Rightarrow> nat \<Rightarrow> nat \<Rightarrow> nat \<Rightarrow> u8" where
  "row_lanes mem t r gb beat i =
     q8_qs mem (weight_block_from_base (pt_nb1 t) (pt_weight_data_base t) (pt_row0 t + r) (pt_k_block0 t + int gb))
       (beat * kNumLanes + i)"

definition odd_lanes :: "(int \<Rightarrow> u8) \<Rightarrow> pack_task \<Rightarrow> int \<Rightarrow> nat \<Rightarrow> nat \<Rightarrow> nat \<Rightarrow> u8" where
  "odd_lanes mem t r gb beat = (if r < pt_rows t then row_lanes mem t r gb beat else zero_i8x16)"

text \<open>Loop state: the window, the output cursor and the count of words written.\<close>

type_synonym out_state = "(nat \<Rightarrow> u32) \<times> nat \<times> nat"

definition emit_lanes :: "bool \<Rightarrow> (nat \<Rightarrow> u8) \<Rightarrow> out_state \<Rightarrow> out_state" where
  "emit_lanes wide lanes = (\<lambda>(m, out, words). (store_i8x16_words out lanes wide m, out + 4, words + 4))"

definition pack_block :: "(int \<Rightarrow> u8) \<Rightarrow> pack_task \<Rightarrow> nat \<Rightarrow> nat \<Rightarrow> out_state \<Rightarrow> out_state" where
  "pack_block mem t pair gb =
     fold (\<lambda>beat s.
        emit_lanes (pt_wide_stores t) (odd_lanes mem t (int (2 * pair) + 1) gb beat)
          (emit_lanes (pt_wide_stores t) (row_lanes mem t (int (2 * pair)) gb beat) s)) [0..<kBlockBeats]"

definition pt_words_per_pair :: "pack_task \<Rightarrow> nat" where
  "pt_words_per_pair t = nat (pt_group_beats t) * 8"

definition fpga_pack_direct_weight_pair_range ::
    "(int \<Rightarrow> u8) \<Rightarrow> pack_task \<Rightarrow> (nat \<Rightarrow> u32) \<Rightarrow> ((nat \<Rightarrow> u32) \<times> nat) option" where
  "fpga_pack_direct_weight_pair_range mem t dst =
     (if pt_dst_words t = 0 \<or> (pt_wide_stores t \<and> pt_dst_words t mod 8 \<noteq> 0) \<or> pt_weight_data_base t = 0
         \<or> pt_rows t \<le> 0 \<or> pt_group_blocks t \<le> 0 \<or> pt_group_beats t \<noteq> pt_group_blocks t * int kBlockBeats
         \<or> pt_pair_begin t > pt_pair_end t \<or> pt_pair_end t > (nat (pt_rows t) + 1) div 2
      then None
      else if pt_words_per_pair t = 0 \<or> pt_pair_begin t > unat SIZE_MAX div pt_words_per_pair t
         \<or> pt_pair_end t - pt_pair_begin t > unat SIZE_MAX div pt_words_per_pair t
      then None
      else
        let (m, out, words) =
          fold (\<lambda>pair. fold (pack_block mem t pair) [0..<nat (pt_group_blocks t)])
            [pt_pair_begin t..<pt_pair_end t] (dst, pt_pair_begin t * pt_words_per_pair t, 0)
        in if words = (pt_pair_end t - pt_pair_begin t) * pt_words_per_pair t then Some (m, words) else None)"

subsection \<open>What the packer writes\<close>

text \<open>
  The lanes of beat \<open>b\<close> of stored row \<open>r\<close>, by the layout's coordinates, and the word the window
  holds at index \<open>i\<close> when the whole tile is stored.
\<close>

definition tile_lanes :: "(int \<Rightarrow> u8) \<Rightarrow> pack_task \<Rightarrow> nat \<Rightarrow> nat \<Rightarrow> nat \<Rightarrow> u8" where
  "tile_lanes mem t r b = odd_lanes mem t (int r) (b div 2) (b mod 2)"

definition tile_word :: "(int \<Rightarrow> u8) \<Rightarrow> pack_task \<Rightarrow> nat \<Rightarrow> u32" where
  "tile_word mem t i =
     (let q = i div 4; beats = nat (pt_group_beats t)
      in beat_word (tile_lanes mem t (2 * (q div 2 div beats) + q mod 2) (q div 2 mod beats)) (i mod 4))"

lemma tile_word_at:
  assumes "b < nat (pt_group_beats t)" and "w < 4"
  shows "tile_word mem t (4 * layout_index (nat (pt_group_beats t)) r b + w)
           = beat_word (tile_lanes mem t r b) w"
proof -
  have "(4 * layout_index (nat (pt_group_beats t)) r b + w) div 4 = layout_index (nat (pt_group_beats t)) r b"
    "(4 * layout_index (nat (pt_group_beats t)) r b + w) mod 4 = w" using assms(2) by simp_all
  then show ?thesis using layout_index_decode[OF assms(1), of r] by (simp add: tile_word_def Let_def)
qed

lemma emit_lanes_apply:
  "emit_lanes wide lanes (m, out, words) =
     (\<lambda>i. if out \<le> i \<and> i < out + 4 then beat_word lanes (i - out) else m i, out + 4, words + 4)"
  by (simp add: emit_lanes_def store_i8x16_words_eq)

lemma fold_emit:
  "fold (emit_lanes wide) xs (m, out, words) =
     (\<lambda>i. if out \<le> i \<and> i < out + 4 * length xs then beat_word (xs ! ((i - out) div 4)) ((i - out) mod 4)
          else m i,
      out + 4 * length xs, words + 4 * length xs)"
proof (induction xs arbitrary: m out words)
  case Nil
  then show ?case by (auto simp: fun_eq_iff)
next
  case (Cons x xs)
  have "(if out + 4 \<le> i \<and> i < out + 4 + 4 * length xs
         then beat_word (xs ! ((i - (out + 4)) div 4)) ((i - (out + 4)) mod 4)
         else if out \<le> i \<and> i < out + 4 then beat_word x (i - out) else m i) =
        (if out \<le> i \<and> i < out + 4 * length (x # xs)
         then beat_word ((x # xs) ! ((i - out) div 4)) ((i - out) mod 4) else m i)" for i
  proof (cases "out \<le> i \<and> \<not> i < out + 4")
    case True
    then obtain d where "i = out + 4 + d" using le_Suc_ex[of "out + 4" i] by auto
    moreover have "(4 + d) div 4 = Suc (d div 4)" "(4 + d) mod 4 = d mod 4" by simp_all
    ultimately show ?thesis by (simp add: add.assoc)
  next
    case False
    then show ?thesis by auto
  qed
  then show ?case by (simp add: emit_lanes_apply Cons.IH fun_eq_iff add.assoc)
qed

text \<open>The stores of a pair in program order, and of the whole range.\<close>

definition pair_stores :: "(int \<Rightarrow> u8) \<Rightarrow> pack_task \<Rightarrow> nat \<Rightarrow> (nat \<Rightarrow> u8) list" where
  "pair_stores mem t pair = concat (map (\<lambda>gb. concat (map (\<lambda>beat.
     [row_lanes mem t (int (2 * pair)) gb beat, odd_lanes mem t (int (2 * pair) + 1) gb beat])
       [0..<kBlockBeats])) [0..<nat (pt_group_blocks t)])"

lemma beats_list: "[0..<kBlockBeats] = [0, 1]"
  by (simp add: upt_conv_Cons)

lemma fold_pack_block:
  "fold (pack_block mem t pair) [0..<n] s =
     fold (emit_lanes (pt_wide_stores t)) (concat (map (\<lambda>gb. concat (map (\<lambda>beat.
     [row_lanes mem t (int (2 * pair)) gb beat, odd_lanes mem t (int (2 * pair) + 1) gb beat])
       [0..<kBlockBeats])) [0..<n])) s"
proof -
  have "pack_block mem t pair gb s = fold (emit_lanes (pt_wide_stores t)) (concat (map (\<lambda>beat.
     [row_lanes mem t (int (2 * pair)) gb beat, odd_lanes mem t (int (2 * pair) + 1) gb beat])
       [0..<kBlockBeats])) s" for gb s
    by (simp add: pack_block_def beats_list del: upt_rec_numeral)
  then have "pack_block mem t pair = (\<lambda>gb. fold (emit_lanes (pt_wide_stores t)) (concat (map (\<lambda>beat.
     [row_lanes mem t (int (2 * pair)) gb beat, odd_lanes mem t (int (2 * pair) + 1) gb beat])
       [0..<kBlockBeats])))" by blast
  then show ?thesis by (simp only: fold_concat_map)
qed

lemma mod_double_div_2: "i mod (2 * n) div 2 = i div 2 mod (n :: nat)"
  by (subst mod_mult2_eq) simp

lemma nth_pair_stores:
  assumes "j < nat (pt_group_blocks t) * 4" and "int (2 * pair) < pt_rows t"
  shows "pair_stores mem t pair ! j = tile_lanes mem t (2 * pair + j mod 2) (j div 2)"
proof -
  have jb: "j div 4 < nat (pt_group_blocks t)" using assms(1) by auto
  have "pair_stores mem t pair ! j = concat (map (\<lambda>beat.
     [row_lanes mem t (int (2 * pair)) (j div 4) beat, odd_lanes mem t (int (2 * pair) + 1) (j div 4) beat])
       [0..<kBlockBeats]) ! (j mod 4)"
    unfolding pair_stores_def using assms(1) jb
    by (subst nth_concat_uniform[where k = 4]) (simp_all add: beats_list del: upt_rec_numeral)
  also have "\<dots> = odd_lanes mem t (int (2 * pair + j mod 4 mod 2)) (j div 4) (j mod 4 div 2)"
  proof -
    have even: "odd_lanes mem t (2 * int pair) gb beat = row_lanes mem t (2 * int pair) gb beat"
      for gb beat using assms(2) by (simp add: odd_lanes_def)
    have "j mod 4 = 0 \<or> j mod 4 = 1 \<or> j mod 4 = 2 \<or> j mod 4 = 3" by arith
    then show ?thesis
      unfolding beats_list by (elim disjE) (simp_all add: even add.commute[of "1 :: int"])
  qed
  also have "\<dots> = tile_lanes mem t (2 * pair + j mod 2) (j div 2)"
  proof -
    have "j div 2 div 2 = j div 4" by (simp add: div_mult2_eq[symmetric])
    moreover have "j mod 4 mod 2 = j mod 2" by (simp add: mod_mod_cancel)
    moreover have "j mod 4 div 2 = j div 2 mod 2" using mod_double_div_2[of j 2] by simp
    ultimately show ?thesis by (simp add: tile_lanes_def)
  qed
  finally show ?thesis .
qed

lemma div_mod_4: "(4 * x + d) div 4 = x + d div 4" "(4 * x + d) mod 4 = (d mod 4 :: nat)"
  by simp_all

text \<open>A task the packer accepts.\<close>

definition pack_admissible :: "pack_task \<Rightarrow> bool" where
  "pack_admissible t \<longleftrightarrow> pt_dst_words t \<noteq> 0 \<and> (pt_wide_stores t \<longrightarrow> pt_dst_words t mod 8 = 0)
     \<and> pt_weight_data_base t \<noteq> 0 \<and> 0 < pt_rows t \<and> pt_rows t \<le> INT_MAX \<and> 0 < pt_group_blocks t
     \<and> pt_group_beats t = pt_group_blocks t * 2 \<and> pt_group_beats t \<le> INT_MAX
     \<and> pt_pair_begin t \<le> pt_pair_end t \<and> pt_pair_end t \<le> (nat (pt_rows t) + 1) div 2"

lemma pair_stores_length: "length (pair_stores mem t pair) = nat (pt_group_blocks t) * 4"
  unfolding pair_stores_def
  by (subst length_concat_uniform[where k = 4]) (simp_all add: beats_list del: upt_rec_numeral)

lemma range_stores_nth:
  assumes ok: "pack_admissible t"
    and k: "k < (pt_pair_end t - pt_pair_begin t) * (nat (pt_group_blocks t) * 4)"
  defines "i \<equiv> pt_pair_begin t * (nat (pt_group_blocks t) * 4) + k"
  shows "concat (map (pair_stores mem t) [pt_pair_begin t..<pt_pair_end t]) ! k
    = tile_lanes mem t (2 * (i div 2 div nat (pt_group_beats t)) + i mod 2) (i div 2 mod nat (pt_group_beats t))"
proof -
  let ?G = "nat (pt_group_blocks t)"
  let ?p = "pt_pair_begin t + k div (?G * 4)" and ?j = "k mod (?G * 4)"
  have G: "0 < ?G" "nat (pt_group_beats t) = ?G * 2"
    using ok by (auto simp: pack_admissible_def nat_mult_distrib)
  have p: "k div (?G * 4) < pt_pair_end t - pt_pair_begin t"
    using k G by (simp add: div_less_iff_less_mult)
  then have pr: "?p < pt_pair_end t" by linarith
  have "2 * ?p < nat (pt_rows t)" using pr ok by (auto simp: pack_admissible_def)
  then have prow: "int (2 * ?p) < pt_rows t" by linarith
  have "concat (map (pair_stores mem t) [pt_pair_begin t..<pt_pair_end t]) ! k
      = pair_stores mem t ?p ! ?j"
    using k p by (subst nth_concat_uniform[where k = "?G * 4"]) (simp_all add: pair_stores_length)
  also have "\<dots> = tile_lanes mem t (2 * ?p + ?j mod 2) (?j div 2)"
    using G prow by (intro nth_pair_stores) auto
  also have "2 * ?p + ?j mod 2 = 2 * (i div 2 div nat (pt_group_beats t)) + i mod 2"
  proof -
    have "k = k div (?G * 4) * (?G * 4) + ?j" by (rule div_mult_mod_eq[symmetric])
    then have i: "i = ?p * (?G * 4) + ?j" unfolding i_def by (simp only: add_mult_distrib add.assoc)
    have "i div 2 div (?G * 2) = i div (?G * 4)" by (simp add: div_mult2_eq[symmetric] mult.commute mult.left_commute)
    also have "\<dots> = ?p" using G unfolding i by (subst div_mult_self3) auto
    finally have "i div 2 div (?G * 2) = ?p" .
    moreover have "i mod 2 = ?j mod 2" unfolding i by (simp add: mod_add_eq[symmetric] mod_mult_left_eq)
    ultimately show ?thesis using G by simp
  qed
  also have "?j div 2 = i div 2 mod nat (pt_group_beats t)"
  proof -
    have "i mod (?G * 4) = ?j" by (simp add: i_def)
    moreover have "i mod (2 * (?G * 2)) div 2 = i div 2 mod (?G * 2)" by (rule mod_double_div_2)
    ultimately show ?thesis using G by (simp add: mult.commute mult.left_commute)
  qed
  finally show ?thesis .
qed

lemma pack_words_bounds:
  assumes "pack_admissible t"
  shows "0 < pt_words_per_pair t" and "pt_words_per_pair t = nat (pt_group_blocks t) * 16"
    and "\<not> pt_pair_begin t > unat SIZE_MAX div pt_words_per_pair t"
    and "\<not> pt_pair_end t - pt_pair_begin t > unat SIZE_MAX div pt_words_per_pair t"
proof -
  show W: "pt_words_per_pair t = nat (pt_group_blocks t) * 16"
    using assms by (simp add: pack_admissible_def pt_words_per_pair_def nat_mult_distrib)
  show pos: "0 < pt_words_per_pair t" using assms unfolding W by (simp add: pack_admissible_def)
  have "nat (pt_group_blocks t) \<le> 1073741823" "pt_pair_end t \<le> 1073741824"
    using assms by (auto simp: pack_admissible_def)
  then have "pt_pair_end t * pt_words_per_pair t \<le> 1073741824 * (1073741823 * 16)"
    unfolding W by (intro mult_le_mono) auto
  then have "pt_pair_end t \<le> unat SIZE_MAX div pt_words_per_pair t"
    using pos by (simp add: less_eq_div_iff_mult_less_eq)
  moreover have "pt_pair_begin t \<le> pt_pair_end t" using assms by (simp add: pack_admissible_def)
  ultimately show "\<not> pt_pair_begin t > unat SIZE_MAX div pt_words_per_pair t"
    "\<not> pt_pair_end t - pt_pair_begin t > unat SIZE_MAX div pt_words_per_pair t" by linarith+
qed

definition packed_window :: "(int \<Rightarrow> u8) \<Rightarrow> pack_task \<Rightarrow> (nat \<Rightarrow> u32) \<Rightarrow> nat \<Rightarrow> u32" where
  "packed_window mem t dst = (\<lambda>i.
     if pt_pair_begin t * pt_words_per_pair t \<le> i \<and> i < pt_pair_end t * pt_words_per_pair t
     then tile_word mem t i else dst i)"

lemma fold_pairs_value:
  assumes ok: "pack_admissible t"
  shows "fold (\<lambda>pair. fold (pack_block mem t pair) [0..<nat (pt_group_blocks t)])
           [pt_pair_begin t..<pt_pair_end t] (dst, pt_pair_begin t * pt_words_per_pair t, 0)
       = (packed_window mem t dst, pt_pair_end t * pt_words_per_pair t,
          (pt_pair_end t - pt_pair_begin t) * pt_words_per_pair t)"
proof -
  let ?G = "nat (pt_group_blocks t)" and ?W = "pt_words_per_pair t"
  let ?xs = "concat (map (pair_stores mem t) [pt_pair_begin t..<pt_pair_end t])"
  note W = pack_words_bounds(2)[OF ok]
  have le: "pt_pair_begin t \<le> pt_pair_end t" using ok by (simp add: pack_admissible_def)
  have len: "4 * length ?xs = (pt_pair_end t - pt_pair_begin t) * ?W"
    by (subst length_concat_uniform[where k = "?G * 4"]) (simp_all add: pair_stores_length W)
  have end_: "pt_pair_begin t * ?W + 4 * length ?xs = pt_pair_end t * ?W"
    unfolding len using le by (metis add_mult_distrib le_add_diff_inverse)
  have "(\<lambda>pair. fold (pack_block mem t pair) [0..<?G])
      = (\<lambda>pair. fold (emit_lanes (pt_wide_stores t)) (pair_stores mem t pair))"
    by (intro ext) (simp only: fold_pack_block pair_stores_def)
  then have "fold (\<lambda>pair. fold (pack_block mem t pair) [0..<?G])
      [pt_pair_begin t..<pt_pair_end t] (dst, pt_pair_begin t * ?W, 0)
    = fold (emit_lanes (pt_wide_stores t)) ?xs (dst, pt_pair_begin t * ?W, 0)"
    by (simp only: fold_concat_map)
  also have "\<dots> = (packed_window mem t dst, pt_pair_end t * ?W, (pt_pair_end t - pt_pair_begin t) * ?W)"
  proof -
    have "beat_word (?xs ! ((i - pt_pair_begin t * ?W) div 4)) ((i - pt_pair_begin t * ?W) mod 4)
        = tile_word mem t i" if i: "pt_pair_begin t * ?W \<le> i" "i < pt_pair_end t * ?W" for i
    proof -
      obtain d where d: "i = pt_pair_begin t * ?W + d" using i(1) le_Suc_ex by blast
      have "d < (pt_pair_end t - pt_pair_begin t) * ?W" using i(2) end_ d len by linarith
      then have k: "d div 4 < (pt_pair_end t - pt_pair_begin t) * (?G * 4)" by (auto simp: W)
      have e: "pt_pair_begin t * ?W = 4 * (pt_pair_begin t * (?G * 4))" by (simp add: W)
      have i4: "i div 4 = pt_pair_begin t * (?G * 4) + d div 4" "i mod 4 = d mod 4"
        unfolding d e by (rule div_mod_4)+
      show ?thesis
        using range_stores_nth[OF ok k, of mem]
        by (simp add: tile_word_def Let_def i4) (simp add: d)
    qed
    then have "(\<lambda>i. if pt_pair_begin t * ?W \<le> i \<and> i < pt_pair_begin t * ?W + 4 * length ?xs
        then beat_word (?xs ! ((i - pt_pair_begin t * ?W) div 4)) ((i - pt_pair_begin t * ?W) mod 4)
        else dst i) = packed_window mem t dst"
      unfolding end_ packed_window_def by (intro ext) auto
    then show ?thesis unfolding fold_emit end_ using len by simp
  qed
  finally show ?thesis .
qed

lemma pack_value:
  assumes ok: "pack_admissible t"
  shows "fpga_pack_direct_weight_pair_range mem t dst
    = Some (packed_window mem t dst, (pt_pair_end t - pt_pair_begin t) * pt_words_per_pair t)"
  using assms pack_words_bounds[OF ok] fold_pairs_value[OF ok, of mem dst]
  by (simp add: fpga_pack_direct_weight_pair_range_def pack_admissible_def)

subsection \<open>The fused weight and scale packer\<close>

abbreviation INT64_MAX :: int where "INT64_MAX \<equiv> 9223372036854775807"

text \<open>Scale entry: the activation's fp16 bits below, the weight's above.\<close>

definition scale_entry :: "(int \<Rightarrow> u8) \<Rightarrow> pack_task \<Rightarrow> nat \<Rightarrow> nat \<Rightarrow> u32" where
  "scale_entry mem t r gb =
     ucast (q8_d mem (pt_activation_data_base t + int gb * Q8_BLOCK_BYTES))
     OR push_bit 16 (ucast (q8_d mem (weight_block_from_base (pt_nb1 t) (pt_weight_data_base t)
          (pt_row0 t + int r) (pt_k_block0 t + int gb))))"

text \<open>
  One scale store. An aligned entry that has a successor in its row is kept back (\<open>Some\<close>) and
  written together with the successor as one 64-bit store.
\<close>

definition scale_step ::
    "pack_task \<Rightarrow> nat \<Rightarrow> nat \<Rightarrow> u32 \<Rightarrow> (nat \<Rightarrow> u32) \<times> u32 option \<Rightarrow> (nat \<Rightarrow> u32) \<times> u32 option" where
  "scale_step t row gb v = (\<lambda>(m, pending).
     let dst = row * nat (pt_group_blocks t) + gb in
     case pending of
       Some p \<Rightarrow> (store_scale_pair_words (dst - 1) p v m, None)
     | None \<Rightarrow>
         if pt_wide_stores t \<and> int gb + 1 < pt_group_blocks t \<and> (pt_scale_words t + 4 * int dst) mod 8 = 0
         then (m, Some v) else (m(dst := v), None))"

definition scale_block ::
    "(int \<Rightarrow> u8) \<Rightarrow> pack_task \<Rightarrow> nat \<Rightarrow> nat \<Rightarrow> (nat \<Rightarrow> u32) \<times> u32 option \<times> u32 option
       \<Rightarrow> (nat \<Rightarrow> u32) \<times> u32 option \<times> u32 option" where
  "scale_block mem t pair gb = (\<lambda>(m, even_pending, odd_pending).
     let (m1, even_pending') = scale_step t (2 * pair) gb (scale_entry mem t (2 * pair) gb) (m, even_pending);
         (m2, odd_pending') =
           (if int (2 * pair) + 1 < pt_rows t
            then scale_step t (2 * pair + 1) gb (scale_entry mem t (2 * pair + 1) gb) (m1, odd_pending)
            else (m1, odd_pending))
     in (m2, even_pending', odd_pending'))"

definition fused_pair ::
    "(int \<Rightarrow> u8) \<Rightarrow> pack_task \<Rightarrow> nat \<Rightarrow> out_state \<times> (nat \<Rightarrow> u32) \<Rightarrow> (out_state \<times> (nat \<Rightarrow> u32)) option" where
  "fused_pair mem t pair = (\<lambda>(ws, sm).
     let (ws', sm', even_pending, odd_pending) =
       fold (\<lambda>gb (w, s). (pack_block mem t pair gb w, scale_block mem t pair gb s))
         [0..<nat (pt_group_blocks t)] (ws, sm, None, None)
     in if even_pending \<noteq> None \<or> odd_pending \<noteq> None then None else Some (ws', sm'))"

definition fused_guard :: "pack_task \<Rightarrow> bool" where
  "fused_guard t \<longleftrightarrow>
     \<not> (pt_dst_words t = 0 \<or> pt_scale_words t = 0 \<or> (pt_wide_stores t \<and> pt_dst_words t mod 8 \<noteq> 0)
        \<or> pt_scale_words t mod 4 \<noteq> 0)
     \<and> \<not> (pt_weight_data_base t = 0 \<or> pt_activation_data_base t = 0 \<or> pt_rows t \<le> 0
        \<or> pt_group_blocks t \<le> 0 \<or> pt_group_blocks t > INT_MAX div int kBlockBeats
        \<or> pt_group_beats t \<noteq> pt_group_blocks t * int kBlockBeats \<or> pt_pair_begin t > pt_pair_end t
        \<or> pt_pair_end t > (nat (pt_rows t) + 1) div 2 \<or> pt_row0 t < 0
        \<or> pt_row0 t > INT64_MAX - pt_rows t \<or> pt_k_block0 t < 0
        \<or> pt_k_block0 t > INT64_MAX - pt_group_blocks t)"

definition fpga_pack_direct_weight_scale_pair_range ::
    "(int \<Rightarrow> u8) \<Rightarrow> pack_task \<Rightarrow> (nat \<Rightarrow> u32) \<Rightarrow> (nat \<Rightarrow> u32)
       \<Rightarrow> ((nat \<Rightarrow> u32) \<times> (nat \<Rightarrow> u32) \<times> nat \<times> nat) option" where
  "fpga_pack_direct_weight_scale_pair_range mem t weight_dst scale_dst =
     (let rows_size = nat (pt_rows t); group_blocks_size = nat (pt_group_blocks t);
          size_max = unat SIZE_MAX;
          first_row = pt_pair_begin t * 2;
          last_row = (if pt_pair_end t * 2 < rows_size then pt_pair_end t * 2 else rows_size)
      in if \<not> fused_guard t then None
      else if rows_size > size_max div group_blocks_size then None
      else if pt_words_per_pair t = 0 \<or> pt_pair_begin t > size_max div pt_words_per_pair t
         \<or> pt_pair_end t - pt_pair_begin t > size_max div pt_words_per_pair t then None
      else if pt_pair_begin t = pt_pair_end t then Some (weight_dst, scale_dst, 0, 0)
      else if first_row > last_row \<or> first_row > rows_size * group_blocks_size
         \<or> last_row - first_row > size_max div group_blocks_size then None
      else case fold_opt (fused_pair mem t) [pt_pair_begin t..<pt_pair_end t]
                 ((weight_dst, pt_pair_begin t * pt_words_per_pair t, 0), scale_dst) of
        None \<Rightarrow> None
      | Some ((m, out, words), sm) \<Rightarrow>
          if words = (pt_pair_end t - pt_pair_begin t) * pt_words_per_pair t
          then Some (m, sm, words, (last_row - first_row) * group_blocks_size) else None)"

subsection \<open>What the fused packer writes\<close>

text \<open>A window of \<open>n\<close> entries from \<open>base\<close> on takes its values from \<open>e\<close>.\<close>

definition lay :: "nat \<Rightarrow> nat \<Rightarrow> (nat \<Rightarrow> 'v) \<Rightarrow> (nat \<Rightarrow> 'v) \<Rightarrow> nat \<Rightarrow> 'v" where
  "lay base n e m = (\<lambda>i. if base \<le> i \<and> i < base + n then e i else m i)"

lemma lay_0 [simp]: "lay base 0 e m = m"
  by (auto simp: lay_def fun_eq_iff)

lemma lay_swap: "lay a n e (lay b k e m) = lay b k e (lay a n e m)"
  by (auto simp: lay_def)

lemma lay_join: "lay a n e (lay (a + n) k e m) = lay a (n + k) e m"
  by (auto simp: lay_def)

lemma lay_snoc: "(lay base n e m)(base + n := e (base + n)) = lay base (Suc n) e m"
  by (auto simp: lay_def)

definition scale_at :: "(int \<Rightarrow> u8) \<Rightarrow> pack_task \<Rightarrow> nat \<Rightarrow> u32" where
  "scale_at mem t i = scale_entry mem t (i div nat (pt_group_blocks t)) (i mod nat (pt_group_blocks t))"

lemma scale_at_row:
  "gb < nat (pt_group_blocks t) \<Longrightarrow> scale_at mem t (r * nat (pt_group_blocks t) + gb) = scale_entry mem t r gb"
  by (simp add: scale_at_def)

text \<open>Entries of a row written after \<open>gb\<close> iterations, and what a kept back entry must be.\<close>

definition written_of :: "u32 option \<Rightarrow> nat \<Rightarrow> nat" where
  "written_of p gb = (case p of None \<Rightarrow> gb | Some _ \<Rightarrow> gb - 1)"

definition pending_ok :: "(int \<Rightarrow> u8) \<Rightarrow> pack_task \<Rightarrow> nat \<Rightarrow> u32 option \<Rightarrow> nat \<Rightarrow> bool" where
  "pending_ok mem t r p gb = (case p of None \<Rightarrow> True
     | Some v \<Rightarrow> 0 < gb \<and> gb < nat (pt_group_blocks t) \<and> v = scale_entry mem t r (gb - 1))"

lemma scale_step_row:
  assumes gb: "gb < nat (pt_group_blocks t)" and p: "pending_ok mem t r p gb"
  shows "\<exists>p'. scale_step t r gb (scale_entry mem t r gb)
           (lay (r * nat (pt_group_blocks t)) (written_of p gb) (scale_at mem t) m, p)
         = (lay (r * nat (pt_group_blocks t)) (written_of p' (Suc gb)) (scale_at mem t) m, p')
         \<and> pending_ok mem t r p' (Suc gb)"
proof (cases p)
  case None
  let ?b = "r * nat (pt_group_blocks t)"
  have "(lay ?b gb (scale_at mem t) m)(?b + gb := scale_entry mem t r gb)
      = lay ?b (Suc gb) (scale_at mem t) m"
    using lay_snoc[of ?b gb "scale_at mem t" m] gb by (simp add: scale_at_row)
  then show ?thesis using None gb
    by (auto simp: scale_step_def written_of_def pending_ok_def Let_def)
next
  case (Some v)
  let ?b = "r * nat (pt_group_blocks t)"
  obtain g where g: "gb = Suc g" "v = scale_entry mem t r g"
    using p Some by (cases gb) (auto simp: pending_ok_def)
  have "(lay ?b g (scale_at mem t) m)(?b + g := scale_entry mem t r g, ?b + Suc g := scale_entry mem t r (Suc g))
      = lay ?b (Suc (Suc g)) (scale_at mem t) m"
    using lay_snoc[of ?b g "scale_at mem t" m] lay_snoc[of ?b "Suc g" "scale_at mem t" m] gb g
    by (simp add: scale_at_row[of g] scale_at_row[of "Suc g", simplified])
  then show ?thesis using Some g
    by (auto simp: scale_step_def written_of_def pending_ok_def Let_def store_scale_pair_words_eq)
qed

text \<open>Rows of a pair that exist.\<close>

definition odd_exists :: "pack_task \<Rightarrow> nat \<Rightarrow> bool" where
  "odd_exists t pair \<longleftrightarrow> int (2 * pair) + 1 < pt_rows t"

definition pair_inv ::
    "(int \<Rightarrow> u8) \<Rightarrow> pack_task \<Rightarrow> nat \<Rightarrow> (nat \<Rightarrow> u32) \<Rightarrow> nat \<Rightarrow> (nat \<Rightarrow> u32) \<times> u32 option \<times> u32 option \<Rightarrow> bool" where
  "pair_inv mem t pair m0 gb = (\<lambda>(m, pe, po).
     m = lay (2 * pair * nat (pt_group_blocks t)) (written_of pe gb) (scale_at mem t)
          (lay ((2 * pair + 1) * nat (pt_group_blocks t))
             (if odd_exists t pair then written_of po gb else 0) (scale_at mem t) m0)
     \<and> pending_ok mem t (2 * pair) pe gb \<and> pending_ok mem t (2 * pair + 1) po gb
     \<and> (\<not> odd_exists t pair \<longrightarrow> po = None))"

lemma pair_inv_step:
  assumes gb: "gb < nat (pt_group_blocks t)" and inv: "pair_inv mem t pair m0 gb s"
  shows "pair_inv mem t pair m0 (Suc gb) (scale_block mem t pair gb s)"
proof -
  obtain m pe po where s: "s = (m, pe, po)" by (cases s)
  let ?G = "nat (pt_group_blocks t)" and ?e = "scale_at mem t"
  let ?odd = "odd_exists t pair"
  let ?mo = "lay ((2 * pair + 1) * ?G) (if ?odd then written_of po gb else 0) ?e m0"
  have m: "m = lay (2 * pair * ?G) (written_of pe gb) ?e ?mo" and pe: "pending_ok mem t (2 * pair) pe gb"
    and po: "pending_ok mem t (2 * pair + 1) po gb" and none: "\<not> ?odd \<Longrightarrow> po = None"
    using inv by (auto simp: pair_inv_def s)
  obtain pe' where e: "scale_step t (2 * pair) gb (scale_entry mem t (2 * pair) gb) (m, pe)
      = (lay (2 * pair * ?G) (written_of pe' (Suc gb)) ?e ?mo, pe')"
    and pe': "pending_ok mem t (2 * pair) pe' (Suc gb)"
    using scale_step_row[OF gb pe, of ?mo] m by auto
  show ?thesis
  proof (cases ?odd)
    case False
    then show ?thesis using e pe' none
      by (simp add: s scale_block_def pair_inv_def odd_exists_def Let_def pending_ok_def)
  next
    case True
    let ?me = "lay (2 * pair * ?G) (written_of pe' (Suc gb)) ?e m0"
    have sw: "lay (2 * pair * ?G) (written_of pe' (Suc gb)) ?e ?mo
        = lay ((2 * pair + 1) * ?G) (written_of po gb) ?e ?me"
      using True by (simp only: if_True lay_swap)
    obtain po' where "scale_step t (2 * pair + 1) gb (scale_entry mem t (2 * pair + 1) gb)
          (lay ((2 * pair + 1) * ?G) (written_of po gb) ?e ?me, po)
        = (lay ((2 * pair + 1) * ?G) (written_of po' (Suc gb)) ?e ?me, po')"
      and "pending_ok mem t (2 * pair + 1) po' (Suc gb)"
      using scale_step_row[OF gb po, of ?me] by auto
    moreover have "lay ((2 * pair + 1) * ?G) (written_of po' (Suc gb)) ?e ?me
        = lay (2 * pair * ?G) (written_of pe' (Suc gb)) ?e (lay ((2 * pair + 1) * ?G) (written_of po' (Suc gb)) ?e m0)"
      by (rule lay_swap)
    ultimately show ?thesis using True e pe' sw
      by (simp add: s scale_block_def pair_inv_def odd_exists_def Let_def)
  qed
qed

text \<open>Rows \<open>[0, pair)\<close> of pairs, cut at the number of logical rows.\<close>

definition rows_before :: "pack_task \<Rightarrow> nat \<Rightarrow> nat" where
  "rows_before t pair = min (2 * pair) (nat (pt_rows t))"

lemma scale_pair_value:
  assumes G: "0 < nat (pt_group_blocks t)" and pair: "2 * pair < nat (pt_rows t)"
  shows "fold (scale_block mem t pair) [0..<nat (pt_group_blocks t)] (m0, None, None)
    = (lay (rows_before t pair * nat (pt_group_blocks t))
         ((rows_before t (Suc pair) - rows_before t pair) * nat (pt_group_blocks t)) (scale_at mem t) m0,
       None, None)"
proof -
  let ?G = "nat (pt_group_blocks t)" and ?e = "scale_at mem t"
  have "pair_inv mem t pair m0 0 (m0, None, None)"
    by (simp add: pair_inv_def written_of_def pending_ok_def)
  then have "pair_inv mem t pair m0 ?G (fold (scale_block mem t pair) [0..<?G] (m0, None, None))"
    by (intro fold_upt_invariant[where P = "pair_inv mem t pair m0"] pair_inv_step) auto
  then obtain m pe po where f: "fold (scale_block mem t pair) [0..<?G] (m0, None, None) = (m, pe, po)"
    and inv: "pair_inv mem t pair m0 ?G (m, pe, po)"
    by (metis prod_cases3)
  have none: "pe = None" "po = None"
    using inv by (auto simp: pair_inv_def pending_ok_def split: option.splits)
  have m: "m = lay (2 * pair * ?G) ?G ?e (lay ((2 * pair + 1) * ?G) (if odd_exists t pair then ?G else 0) ?e m0)"
    using inv none by (simp add: pair_inv_def written_of_def split: if_splits)
  have rb: "rows_before t pair = 2 * pair" using pair by (simp add: rows_before_def)
  have "rows_before t (Suc pair) - rows_before t pair = (if odd_exists t pair then 2 else 1)"
    using pair unfolding rows_before_def odd_exists_def min_def by auto
  then have "(rows_before t (Suc pair) - rows_before t pair) * ?G = ?G + (if odd_exists t pair then ?G else 0)"
    by simp
  then have "m = lay (rows_before t pair * ?G) ((rows_before t (Suc pair) - rows_before t pair) * ?G) ?e m0"
    using m lay_join[of "2 * pair * ?G" ?G ?e] by (simp add: rb add.commute[of ?G])
  then show ?thesis using f none by simp
qed

lemma fold_product:
  "fold (\<lambda>x (a, b). (f x a, g x b)) xs (a, b) = (fold f xs a, fold g xs b)"
  by (induction xs arbitrary: a b) auto

lemma fused_pair_value:
  assumes "0 < nat (pt_group_blocks t)" and "2 * pair < nat (pt_rows t)"
  shows "fused_pair mem t pair (ws, sm) = Some (fold (pack_block mem t pair) [0..<nat (pt_group_blocks t)] ws,
     lay (rows_before t pair * nat (pt_group_blocks t))
       ((rows_before t (Suc pair) - rows_before t pair) * nat (pt_group_blocks t)) (scale_at mem t) sm)"
  using scale_pair_value[OF assms, of mem sm] by (simp add: fused_pair_def fold_product)

lemma rows_before_mono: "a \<le> b \<Longrightarrow> rows_before t a \<le> rows_before t b"
  by (auto simp: rows_before_def min_def)

lemma fused_range_value:
  assumes G: "0 < nat (pt_group_blocks t)" and "a \<le> b" and "b \<le> (nat (pt_rows t) + 1) div 2"
  shows "fold_opt (fused_pair mem t) [a..<b] (ws, sm)
    = Some (fold (\<lambda>pair. fold (pack_block mem t pair) [0..<nat (pt_group_blocks t)]) [a..<b] ws,
        lay (rows_before t a * nat (pt_group_blocks t))
          ((rows_before t b - rows_before t a) * nat (pt_group_blocks t)) (scale_at mem t) sm)"
  using assms(2,3)
proof (induction b rule: dec_induct)
  case base
  then show ?case by simp
next
  case (step n)
  let ?G = "nat (pt_group_blocks t)" and ?e = "scale_at mem t"
  have n: "2 * n < nat (pt_rows t)" using step.prems by auto
  have ra: "rows_before t a \<le> rows_before t n" "rows_before t n \<le> rows_before t (Suc n)"
    using step.hyps by (auto intro: rows_before_mono)
  define x where "x = rows_before t a * ?G"
  define k where "k = (rows_before t n - rows_before t a) * ?G"
  define l where "l = (rows_before t (Suc n) - rows_before t n) * ?G"
  have xk: "rows_before t n * ?G = x + k" "(rows_before t (Suc n) - rows_before t a) * ?G = k + l"
    using ra by (simp_all add: x_def k_def l_def add_mult_distrib[symmetric])
  have "lay (x + k) l ?e (lay x k ?e sm) = lay x (k + l) ?e sm"
    by (subst lay_swap) (rule lay_join)
  then show ?case
    using step.IH step.prems step.hyps(1) fused_pair_value[OF G n]
    by (simp add: fold_opt_append upt_Suc_append xk flip: x_def k_def l_def)
qed

definition scale_window :: "(int \<Rightarrow> u8) \<Rightarrow> pack_task \<Rightarrow> (nat \<Rightarrow> u32) \<Rightarrow> nat \<Rightarrow> u32" where
  "scale_window mem t dst = lay (rows_before t (pt_pair_begin t) * nat (pt_group_blocks t))
     ((rows_before t (pt_pair_end t) - rows_before t (pt_pair_begin t)) * nat (pt_group_blocks t))
     (scale_at mem t) dst"

definition fused_admissible :: "pack_task \<Rightarrow> bool" where
  "fused_admissible t \<longleftrightarrow> pack_admissible t \<and> pt_scale_words t \<noteq> 0 \<and> pt_scale_words t mod 4 = 0
     \<and> pt_activation_data_base t \<noteq> 0 \<and> 0 \<le> pt_row0 t \<and> pt_row0 t \<le> INT64_MAX - pt_rows t
     \<and> 0 \<le> pt_k_block0 t \<and> pt_k_block0 t \<le> INT64_MAX - pt_group_blocks t"

lemma fused_guard_admissible: "fused_admissible t \<Longrightarrow> fused_guard t"
  by (auto simp: fused_admissible_def pack_admissible_def fused_guard_def)

lemma fused_sizes:
  assumes "fused_admissible t"
  shows "\<not> nat (pt_rows t) > unat SIZE_MAX div nat (pt_group_blocks t)"
    and "x \<le> nat (pt_rows t) \<Longrightarrow> \<not> x > unat SIZE_MAX div nat (pt_group_blocks t)"
    and "pt_pair_begin t < pt_pair_end t \<Longrightarrow> \<not> pt_pair_begin t * 2 > nat (pt_rows t) * nat (pt_group_blocks t)"
proof -
  have g: "0 < nat (pt_group_blocks t)" "nat (pt_group_blocks t) \<le> 1073741823" "nat (pt_rows t) \<le> 2147483647"
    using assms by (auto simp: fused_admissible_def pack_admissible_def)
  then have "nat (pt_rows t) * nat (pt_group_blocks t) \<le> 2147483647 * 1073741823"
    by (intro mult_le_mono) auto
  then have r: "nat (pt_rows t) \<le> unat SIZE_MAX div nat (pt_group_blocks t)"
    using g(1) by (simp add: less_eq_div_iff_mult_less_eq)
  then show "\<not> nat (pt_rows t) > unat SIZE_MAX div nat (pt_group_blocks t)"
    and "x \<le> nat (pt_rows t) \<Longrightarrow> \<not> x > unat SIZE_MAX div nat (pt_group_blocks t)" by linarith+
  assume "pt_pair_begin t < pt_pair_end t"
  then have "pt_pair_begin t * 2 \<le> nat (pt_rows t) * 1"
    using assms by (auto simp: fused_admissible_def pack_admissible_def)
  also have "nat (pt_rows t) * 1 \<le> nat (pt_rows t) * nat (pt_group_blocks t)"
    using g(1) by (intro mult_le_mono2) linarith
  finally show "\<not> pt_pair_begin t * 2 > nat (pt_rows t) * nat (pt_group_blocks t)" by linarith
qed

lemma empty_range_windows:
  "pt_pair_begin t = pt_pair_end t \<Longrightarrow> packed_window mem t dst = dst \<and> scale_window mem t sdst = sdst"
  by (auto simp: packed_window_def scale_window_def fun_eq_iff)

text \<open>The rows of the range as the code computes them, \<open>last_row - first_row\<close>.\<close>

lemma range_rows:
  assumes "fused_admissible t"
  shows "(if pt_pair_end t * 2 < nat (pt_rows t) then pt_pair_end t * 2 else nat (pt_rows t)) = rows_before t (pt_pair_end t)"
    and "pt_pair_begin t < pt_pair_end t \<Longrightarrow> pt_pair_begin t * 2 = rows_before t (pt_pair_begin t)"
    and "rows_before t (pt_pair_end t) \<le> nat (pt_rows t)"
    and "rows_before t (pt_pair_begin t) \<le> rows_before t (pt_pair_end t)"
  using assms by (auto simp: rows_before_def fused_admissible_def pack_admissible_def intro: min.mono)

lemma fused_value:
  assumes ok: "fused_admissible t"
  shows "fpga_pack_direct_weight_scale_pair_range mem t dst sdst
    = Some (packed_window mem t dst, scale_window mem t sdst,
        (pt_pair_end t - pt_pair_begin t) * pt_words_per_pair t,
        (rows_before t (pt_pair_end t) - rows_before t (pt_pair_begin t)) * nat (pt_group_blocks t))"
proof -
  have pack: "pack_admissible t" using ok by (simp add: fused_admissible_def)
  note b = pack_words_bounds[OF pack] and sz = fused_sizes[OF ok] and rr = range_rows[OF ok]
  have W: "pt_words_per_pair t \<noteq> 0" using b(1) by simp
  show ?thesis
  proof (cases "pt_pair_begin t = pt_pair_end t")
    case True
    then show ?thesis
      unfolding fpga_pack_direct_weight_scale_pair_range_def Let_def
      using fused_guard_admissible[OF ok] W b(3,4) sz(1) empty_range_windows[OF True, of mem dst sdst] by simp
  next
    case False
    then have lt: "pt_pair_begin t < pt_pair_end t" using pack by (simp add: pack_admissible_def)
    have G: "0 < nat (pt_group_blocks t)" and e: "pt_pair_end t \<le> (nat (pt_rows t) + 1) div 2"
      using pack by (auto simp: pack_admissible_def)
    have d: "\<not> rows_before t (pt_pair_end t) - rows_before t (pt_pair_begin t) > unat SIZE_MAX div nat (pt_group_blocks t)"
      by (rule sz(2)) (use rr(3) in linarith)
    note run = fused_range_value[OF G less_imp_le[OF lt] e, of mem "(dst, pt_pair_begin t * pt_words_per_pair t, 0)" sdst]
    show ?thesis
      unfolding fpga_pack_direct_weight_scale_pair_range_def Let_def rr(1) rr(2)[OF lt] run fold_pairs_value[OF pack]
      using fused_guard_admissible[OF ok] W b(3,4) sz(1) sz(3)[OF lt, unfolded rr(2)[OF lt]] d rr(4) False
      by (simp add: scale_window_def)
  qed
qed

subsection \<open>Bytes of a window, and acceptance\<close>

text \<open>The byte the accelerator sees at byte offset \<open>k\<close> of a window of little-endian words.\<close>

definition window_byte :: "(nat \<Rightarrow> u32) \<Rightarrow> nat \<Rightarrow> u8" where
  "window_byte win k = ucast (drop_bit (8 * (k mod 4)) (win (k div 4)))"

lemma no_high_bit: "8 \<le> k \<Longrightarrow> \<not> bit x k" for x :: u8
  using bit_imp_le_length[of x k] by auto

lemma pack_i8x4_le_byte:
  assumes "j < 4"
  shows "ucast (drop_bit (8 * j) (pack_i8x4_le lanes)) = lanes j"
proof -
  consider "j = 0" | "j = 1" | "j = 2" | "j = 3" using assms by linarith
  then show ?thesis
    by cases (auto intro!: bit_word_eqI simp: pack_i8x4_le_def bit_simps no_high_bit)
qed

lemma beat_word_byte: "j < 4 \<Longrightarrow> ucast (drop_bit (8 * j) (beat_word lanes w)) = lanes (4 * w + j)"
  by (simp add: beat_word_def pack_i8x4_le_byte)

lemma window_byte_tile:
  assumes "b < nat (pt_group_beats t)" and "c < 16"
    and "\<And>w. w < 4 \<Longrightarrow> win (4 * layout_index (nat (pt_group_beats t)) r b + w)
      = tile_word mem t (4 * layout_index (nat (pt_group_beats t)) r b + w)"
  shows "window_byte win (16 * layout_index (nat (pt_group_beats t)) r b + c) = tile_lanes mem t r b c"
proof -
  let ?i = "layout_index (nat (pt_group_beats t)) r b"
  have d: "(16 * ?i + c) div 4 = 4 * ?i + c div 4" "(16 * ?i + c) mod 4 = c mod 4"
    using div_mod_4[of "4 * ?i" c] by simp_all
  have w: "c div 4 < 4" using assms(2) by auto
  have "win (4 * ?i + c div 4) = beat_word (tile_lanes mem t r b) (c div 4)"
    using assms(3)[OF w] tile_word_at[OF assms(1) w] by simp
  then show ?thesis by (simp add: window_byte_def d beat_word_byte)
qed

lemma word_bounds_arith:
  "i = 2 * (q + b) + m \<Longrightarrow> m < 2 \<Longrightarrow> p \<le> q \<Longrightarrow> q + n \<le> e \<Longrightarrow> b < n \<Longrightarrow> w < 4
    \<Longrightarrow> 8 * p \<le> 4 * i + w \<and> 4 * i + w < 8 * (e :: nat)"
  by simp

lemma packed_window_at:
  assumes ok: "pack_admissible t" and b: "b < nat (pt_group_beats t)" and w: "w < 4"
    and r: "2 * pt_pair_begin t \<le> r" "r < 2 * pt_pair_end t"
  shows "packed_window mem t dst (4 * layout_index (nat (pt_group_beats t)) r b + w)
    = tile_word mem t (4 * layout_index (nat (pt_group_beats t)) r b + w)"
proof -
  let ?B = "nat (pt_group_beats t)"
  have W: "pt_words_per_pair t = 8 * ?B" by (simp add: pt_words_per_pair_def)
  have lo: "pt_pair_begin t * ?B \<le> r div 2 * ?B" using r(1) by (intro mult_le_mono1) auto
  have "(r div 2 + 1) * ?B \<le> pt_pair_end t * ?B" using r(2) by (intro mult_le_mono1) auto
  then have hi: "r div 2 * ?B + ?B \<le> pt_pair_end t * ?B" by simp
  have "layout_index ?B r b = 2 * (r div 2 * ?B + b) + r mod 2" by (simp add: layout_index_def)
  moreover have "r mod 2 < 2" by simp
  ultimately have "8 * (pt_pair_begin t * ?B) \<le> 4 * layout_index ?B r b + w
      \<and> 4 * layout_index ?B r b + w < 8 * (pt_pair_end t * ?B)"
    using lo hi b w by (rule word_bounds_arith)
  then show ?thesis by (simp add: packed_window_def W mult.left_commute[of _ 8])
qed

lemma pack_accepted_admissible:
  assumes "pt_rows t \<le> INT_MAX" and "pt_group_beats t \<le> INT_MAX"
    and "fpga_pack_direct_weight_pair_range mem t dst \<noteq> None"
  shows "pack_admissible t"
  using assms by (auto simp: fpga_pack_direct_weight_pair_range_def pack_admissible_def not_le split: if_splits)

lemma fused_accepted_admissible:
  assumes "pt_rows t \<le> INT_MAX" and "pt_group_beats t \<le> INT_MAX"
    and "fpga_pack_direct_weight_scale_pair_range mem t dst sdst \<noteq> None"
  shows "fused_admissible t"
proof -
  have "fused_guard t"
    using assms(3) unfolding fpga_pack_direct_weight_scale_pair_range_def Let_def by (rule contrapos_np) simp
  then show ?thesis
    using assms(1,2) by (auto simp: fused_guard_def fused_admissible_def pack_admissible_def)
qed

text \<open>Two adjacent ranges of one tile.\<close>

lemma packed_window_cong:
  "packed_window mem (t\<lparr>pt_pair_begin := a, pt_pair_end := b\<rparr>) dst =
     lay (a * pt_words_per_pair t) ((b - a) * pt_words_per_pair t) (tile_word mem t) dst" if "a \<le> b"
proof -
  have "b * pt_words_per_pair t = a * pt_words_per_pair t + (b - a) * pt_words_per_pair t"
    using that by (metis add_mult_distrib le_add_diff_inverse)
  moreover have "tile_word mem (t\<lparr>pt_pair_begin := a, pt_pair_end := b\<rparr>) = tile_word mem t"
  proof (rule ext)
    show "tile_word mem (t\<lparr>pt_pair_begin := a, pt_pair_end := b\<rparr>) i = tile_word mem t i" for i
      by (simp add: tile_word_def tile_lanes_def odd_lanes_def row_lanes_def[abs_def] Let_def)
  qed
  ultimately show ?thesis
    by (simp add: packed_window_def lay_def pt_words_per_pair_def cong: if_cong)
qed

lemma packed_window_split:
  assumes "a \<le> b" and "b \<le> c"
  shows "packed_window mem (t\<lparr>pt_pair_begin := a, pt_pair_end := b\<rparr>)
      (packed_window mem (t\<lparr>pt_pair_begin := b, pt_pair_end := c\<rparr>) dst)
    = packed_window mem (t\<lparr>pt_pair_begin := a, pt_pair_end := c\<rparr>) dst"
    (is ?A)
    and "packed_window mem (t\<lparr>pt_pair_begin := b, pt_pair_end := c\<rparr>)
      (packed_window mem (t\<lparr>pt_pair_begin := a, pt_pair_end := b\<rparr>) dst)
    = packed_window mem (t\<lparr>pt_pair_begin := a, pt_pair_end := c\<rparr>) dst"
    (is ?B)
proof -
  let ?W = "pt_words_per_pair t"
  have j: "b * ?W = a * ?W + (b - a) * ?W" "(c - a) * ?W = (b - a) * ?W + (c - b) * ?W"
    using assms by (simp_all add: add_mult_distrib[symmetric])
  show ?A using assms by (simp add: packed_window_cong j lay_join)
  then show ?B using assms by (simp add: packed_window_cong lay_swap[of "b * ?W"])
qed

lemma admissible_subrange:
  "pack_admissible t \<Longrightarrow> pt_pair_begin t \<le> a \<Longrightarrow> a \<le> b \<Longrightarrow> b \<le> pt_pair_end t
    \<Longrightarrow> pack_admissible (t\<lparr>pt_pair_begin := a, pt_pair_end := b\<rparr>)"
  by (simp add: pack_admissible_def)

lemma scale_window_at:
  assumes "gb < nat (pt_group_blocks t)"
  shows "scale_window mem t sdst (r * nat (pt_group_blocks t) + gb) =
    (if rows_before t (pt_pair_begin t) \<le> r \<and> r < rows_before t (pt_pair_end t)
     then scale_entry mem t r gb else sdst (r * nat (pt_group_blocks t) + gb))"
proof -
  let ?G = "nat (pt_group_blocks t)" and ?a = "rows_before t (pt_pair_begin t)"
    and ?b = "rows_before t (pt_pair_end t)"
  have lo: "?a * ?G \<le> r * ?G + gb \<longleftrightarrow> ?a \<le> r"
  proof
    assume "?a * ?G \<le> r * ?G + gb"
    then have "?a * ?G < Suc r * ?G" using assms by simp
    then show "?a \<le> r" by (simp only: mult_less_cancel2) simp
  qed (simp add: trans_le_add1)
  have hi: "r * ?G + gb < ?b * ?G \<longleftrightarrow> r < ?b"
  proof
    assume "r * ?G + gb < ?b * ?G"
    then have "r * ?G < ?b * ?G" by linarith
    then show "r < ?b" by simp
  next
    assume "r < ?b"
    then have "Suc r * ?G \<le> ?b * ?G" by (intro mult_le_mono1) simp
    then show "r * ?G + gb < ?b * ?G" using assms by simp
  qed
  have end_: "?a * ?G + (?b - ?a) * ?G = max ?a ?b * ?G"
    by (simp add: max_def flip: add_mult_distrib)
  show ?thesis
    using lo hi by (auto simp: scale_window_def lay_def end_ max_def scale_at_row[OF assms])
qed

subsection \<open>Correctness of the packers\<close>

text \<open>A concrete tile: three rows of two blocks, all pairs, wide stores.\<close>

definition sample_task :: pack_task where
  "sample_task = \<lparr>pt_dst_words = 4096, pt_scale_words = 8196, pt_nb1 = 68, pt_weight_data_base = 16384,
     pt_activation_data_base = 32768, pt_row0 = 5, pt_k_block0 = 1, pt_rows = 3, pt_group_blocks = 2,
     pt_group_beats = 4, pt_pair_begin = 0, pt_pair_end = 2, pt_wide_stores = True\<rparr>"

lemma sample_task_ok: "fused_admissible sample_task" "pack_admissible sample_task"
  by (simp_all add: fused_admissible_def pack_admissible_def sample_task_def)

lemma tile_lanes_block:
  assumes "r \<ge> 0" and "b \<ge> 0"
  shows "tile_lanes mem t (nat r) (nat b) c =
    (if r < pt_rows t
     then q8_qs mem (weight_block_from_base (pt_nb1 t) (pt_weight_data_base t) (pt_row0 t + r) (pt_k_block0 t + b div 2))
       (nat (b mod 2) * 16 + c)
     else 0)"
  using assms by (simp add: tile_lanes_def odd_lanes_def row_lanes_def zero_i8x16_def nat_mod_distrib zdiv_int)

text \<open>
  Property C30. The bytes the packer leaves at the layout index of a stored row and beat are the
  16 quants of that beat, in order, of block \<open>k_block0 + b div 2\<close> of tensor row \<open>row0 + r\<close>, and zeros
  for the padding row; the count written back is the number of words of the range.
\<close>

theorem pack_writes_layout:
  assumes ok: "pack_admissible t"
    and idx: "fpga_weight_layout_word_index (pt_rows t) (pt_group_beats t) r b = Some i"
    and r: "2 * int (pt_pair_begin t) \<le> r" "r < 2 * int (pt_pair_end t)" and c: "c < 16"
  shows "\<exists>win n. fpga_pack_direct_weight_pair_range mem t dst = Some (win, n)
    \<and> n = (pt_pair_end t - pt_pair_begin t) * pt_words_per_pair t
    \<and> window_byte win (16 * unat i + c) =
       (if r < pt_rows t
        then q8_qs mem (weight_block_from_base (pt_nb1 t) (pt_weight_data_base t) (pt_row0 t + r)
               (pt_k_block0 t + b div 2)) (nat (b mod 2) * 16 + c)
        else 0)"
proof -
  have dims: "0 < pt_rows t" "pt_rows t \<le> INT_MAX" "0 < pt_group_beats t" "pt_group_beats t \<le> INT_MAX"
    using ok by (auto simp: pack_admissible_def)
  have "r \<le> INT_MAX" using r(2) ok by (auto simp: pack_admissible_def)
  then have "map_option unat (fpga_weight_layout_word_index (pt_rows t) (pt_group_beats t) r b) =
      (if 0 \<le> r \<and> nat r < padded_rows (nat (pt_rows t)) \<and> 0 \<le> b \<and> b < pt_group_beats t
       then Some (layout_index (nat (pt_group_beats t)) (nat r) (nat b)) else None)"
    by (rule word_index_cases[OF dims])
  then have v: "0 \<le> r" "0 \<le> b" "b < pt_group_beats t"
    and i: "unat i = layout_index (nat (pt_group_beats t)) (nat r) (nat b)"
    by (auto simp: idx split: if_splits)
  have "window_byte (packed_window mem t dst) (16 * unat i + c) = tile_lanes mem t (nat r) (nat b) c"
    unfolding i using v r c by (intro window_byte_tile packed_window_at[OF ok]) auto
  then show ?thesis unfolding pack_value[OF ok] tile_lanes_block[OF v(1,2)] by blast
qed

lemma pack_writes_layout_witness:
  "\<exists>win n. fpga_pack_direct_weight_pair_range (\<lambda>a. word_of_int a) sample_task (\<lambda>_. 7) = Some (win, n)
    \<and> n = 64 \<and> window_byte win (16 * 4 + 3) = word_of_int (16384 + 5 * 68 + 2 * 34 + 2 + 3)"
proof -
  have "fpga_weight_layout_word_index 3 4 0 2 = Some 4"
    by (simp add: fpga_weight_layout_word_index_def fpga_weight_layout_payload_words_def word_le_nat_alt)
  then have "fpga_weight_layout_word_index (pt_rows sample_task) (pt_group_beats sample_task) 0 2 = Some 4"
    by (simp add: sample_task_def)
  from pack_writes_layout[OF sample_task_ok(2) this, of 3 "\<lambda>a. word_of_int a" "\<lambda>_. 7"]
  show ?thesis by (simp add: sample_task_def pt_words_per_pair_def q8_qs_def weight_block_from_base_def)
qed

text \<open>
  The packer accepts exactly the well-formed tasks, and an accepted call changes no
  word outside the pair range.
\<close>

theorem pack_accepts_exactly:
  assumes "pt_rows t \<le> INT_MAX" and "pt_group_beats t \<le> INT_MAX"
  shows "(fpga_pack_direct_weight_pair_range mem t dst \<noteq> None) = pack_admissible t
    \<and> (\<forall>win n i. fpga_pack_direct_weight_pair_range mem t dst = Some (win, n)
         \<and> (i < pt_pair_begin t * pt_words_per_pair t \<or> pt_pair_end t * pt_words_per_pair t \<le> i)
         \<longrightarrow> win i = dst i)"
proof (cases "pack_admissible t")
  case True
  then show ?thesis by (auto simp: pack_value packed_window_def)
next
  case False
  then show ?thesis using pack_accepted_admissible[OF assms, of mem dst] by auto
qed

lemma pack_accepts_exactly_witness:
  "fpga_pack_direct_weight_pair_range (\<lambda>_. 1) (sample_task\<lparr>pt_pair_end := 3\<rparr>) (\<lambda>_. 0) = None
   \<and> (\<exists>win n. fpga_pack_direct_weight_pair_range (\<lambda>_. 1) sample_task (\<lambda>_. 5) = Some (win, n) \<and> win 64 = 5)"
proof -
  have "\<not> pack_admissible (sample_task\<lparr>pt_pair_end := 3\<rparr>)" by (simp add: sample_task_def pack_admissible_def)
  moreover have "pt_rows sample_task = 3" "pt_group_beats sample_task = 4" "pt_pair_end sample_task * pt_words_per_pair sample_task = 64"
    by (simp_all add: sample_task_def pt_words_per_pair_def)
  moreover have "pt_rows (sample_task\<lparr>pt_pair_end := 3\<rparr>) = 3" "pt_group_beats (sample_task\<lparr>pt_pair_end := 3\<rparr>) = 4"
    by (simp_all add: sample_task_def)
  ultimately have
    bad: "fpga_pack_direct_weight_pair_range (\<lambda>_. 1) (sample_task\<lparr>pt_pair_end := 3\<rparr>) (\<lambda>_. 0) = None"
    and good: "fpga_pack_direct_weight_pair_range (\<lambda>_. 1) sample_task (\<lambda>_. 5) \<noteq> None"
    and frame: "\<And>win n. fpga_pack_direct_weight_pair_range (\<lambda>_. 1) sample_task (\<lambda>_. 5) = Some (win, n) \<Longrightarrow> win 64 = 5"
    using pack_accepts_exactly[of "sample_task\<lparr>pt_pair_end := 3\<rparr>" "\<lambda>_. 1" "\<lambda>_. 0"]
      pack_accepts_exactly[of sample_task "\<lambda>_. 1" "\<lambda>_. 5"] sample_task_ok(2)
    by (simp_all del: not_None_eq)
  show ?thesis using bad good frame by auto
qed

text \<open>
  Work splitting: packing two adjacent pair ranges one after the other, in either
  order, gives the window and the total count of packing them at once.
\<close>

theorem pack_split_any_order:
  assumes ok: "pack_admissible t" and m: "pt_pair_begin t \<le> m" "m \<le> pt_pair_end t"
  defines "lo \<equiv> t\<lparr>pt_pair_end := m\<rparr>" and "hi \<equiv> t\<lparr>pt_pair_begin := m\<rparr>"
  shows "\<exists>w1 n1 w2 n2 w n.
      fpga_pack_direct_weight_pair_range mem lo dst = Some (w1, n1)
    \<and> fpga_pack_direct_weight_pair_range mem hi w1 = Some (w, n2)
    \<and> fpga_pack_direct_weight_pair_range mem hi dst = Some (w2, n2)
    \<and> fpga_pack_direct_weight_pair_range mem lo w2 = Some (w, n1)
    \<and> fpga_pack_direct_weight_pair_range mem t dst = Some (w, n)
    \<and> n = n1 + n2"
proof -
  have eq: "lo = t\<lparr>pt_pair_begin := pt_pair_begin t, pt_pair_end := m\<rparr>"
    "hi = t\<lparr>pt_pair_begin := m, pt_pair_end := pt_pair_end t\<rparr>"
    "t = t\<lparr>pt_pair_begin := pt_pair_begin t, pt_pair_end := pt_pair_end t\<rparr>"
    by (simp_all add: lo_def hi_def)
  have "pack_admissible lo" "pack_admissible hi"
    using admissible_subrange[OF ok, of "pt_pair_begin t" m] admissible_subrange[OF ok, of m "pt_pair_end t"] m
    unfolding eq(1,2) by simp_all
  moreover have "packed_window mem hi (packed_window mem lo dst) = packed_window mem t dst"
    "packed_window mem lo (packed_window mem hi dst) = packed_window mem t dst"
    using packed_window_split[OF m, of mem t dst] unfolding eq(1,2) by simp_all
  moreover have "pt_words_per_pair lo = pt_words_per_pair t" "pt_words_per_pair hi = pt_words_per_pair t"
    by (simp_all add: lo_def hi_def pt_words_per_pair_def)
  moreover have "(pt_pair_end t - pt_pair_begin t) * pt_words_per_pair t
      = (m - pt_pair_begin t) * pt_words_per_pair t + (pt_pair_end t - m) * pt_words_per_pair t"
    using m by (simp flip: add_mult_distrib)
  ultimately show ?thesis
    using ok by (simp add: pack_value) (simp add: lo_def hi_def)
qed

lemma pack_split_any_order_witness:
  "\<exists>w1 n1 w n2. fpga_pack_direct_weight_pair_range (\<lambda>a. word_of_int a) (sample_task\<lparr>pt_pair_end := 1\<rparr>) (\<lambda>_. 0) = Some (w1, n1)
    \<and> fpga_pack_direct_weight_pair_range (\<lambda>a. word_of_int a) (sample_task\<lparr>pt_pair_begin := 1\<rparr>) w1 = Some (w, n2)
    \<and> fpga_pack_direct_weight_pair_range (\<lambda>a. word_of_int a) sample_task (\<lambda>_. 0) = Some (w, n1 + n2)"
  using pack_split_any_order[OF sample_task_ok(2), of 1 "\<lambda>a. word_of_int a" "\<lambda>_. 0"]
  by (fastforce simp: sample_task_def)

text \<open>
  Property C31. The fused packer writes the same weight window as the weight packer and, for every
  logical row of the range and block of the group, the scale entry \<open>row * group_blocks + gb\<close>:
  activation fp16 in the low half, weight fp16 in the high half. The entries of the other rows are
  not touched, whatever the store width and the alignment of the table, and no kept back entry is
  lost at the end of a row.
\<close>

theorem fused_scale_table:
  assumes ok: "fused_admissible t"
  shows "\<exists>win swin n k.
      fpga_pack_direct_weight_scale_pair_range mem t dst sdst = Some (win, swin, n, k)
    \<and> fpga_pack_direct_weight_pair_range mem t dst = Some (win, n)
    \<and> k = (min (2 * pt_pair_end t) (nat (pt_rows t)) - min (2 * pt_pair_begin t) (nat (pt_rows t))) * nat (pt_group_blocks t)
    \<and> (\<forall>r. \<forall>gb < nat (pt_group_blocks t).
         swin (r * nat (pt_group_blocks t) + gb) =
         (if 2 * pt_pair_begin t \<le> r \<and> r < 2 * pt_pair_end t \<and> int r < pt_rows t
          then ucast (q8_d mem (pt_activation_data_base t + int gb * 34))
               OR push_bit 16 (ucast (q8_d mem (weight_block_from_base (pt_nb1 t) (pt_weight_data_base t)
                    (pt_row0 t + int r) (pt_k_block0 t + int gb))))
          else sdst (r * nat (pt_group_blocks t) + gb)))"
proof -
  have pack: "pack_admissible t" using ok by (simp add: fused_admissible_def)
  have rows: "(rows_before t (pt_pair_begin t) \<le> r \<and> r < rows_before t (pt_pair_end t))
      = (2 * pt_pair_begin t \<le> r \<and> r < 2 * pt_pair_end t \<and> int r < pt_rows t)" for r
    using pack by (auto simp: rows_before_def pack_admissible_def min_def)
  show ?thesis
    unfolding fused_value[OF ok] pack_value[OF pack] scale_entry_def[symmetric]
    by (auto simp: scale_window_at rows) (simp add: rows_before_def)
qed

lemma fused_scale_table_witness:
  "\<exists>win swin n. fpga_pack_direct_weight_scale_pair_range (\<lambda>a. word_of_int a) sample_task (\<lambda>_. 0) (\<lambda>_. 9) = Some (win, swin, n, 6)
    \<and> swin 4 = ucast (q8_d (\<lambda>a. word_of_int a) 32768) OR push_bit 16 (ucast (q8_d (\<lambda>a. word_of_int a) (16384 + 7 * 68 + 34)))
    \<and> swin 6 = 9"
proof -
  have v: "pt_rows sample_task = 3" "pt_group_blocks sample_task = 2" "pt_pair_begin sample_task = 0"
    "pt_pair_end sample_task = 2" "pt_activation_data_base sample_task = 32768" "pt_row0 sample_task = 5"
    "pt_k_block0 sample_task = 1" "pt_weight_data_base sample_task = 16384" "pt_nb1 sample_task = 68"
    by (simp_all add: sample_task_def)
  obtain win swin n k where
    r: "fpga_pack_direct_weight_scale_pair_range (\<lambda>a. word_of_int a) sample_task (\<lambda>_. 0) (\<lambda>_. 9) = Some (win, swin, n, k)"
    and k: "k = (min (2 * 2) (nat 3) - min (2 * 0) (nat 3)) * nat 2"
    and e: "\<forall>r. \<forall>gb < nat 2. swin (r * nat 2 + gb) =
      (if 2 * 0 \<le> r \<and> r < 2 * 2 \<and> int r < 3
       then ucast (q8_d (\<lambda>a. word_of_int a) (32768 + int gb * 34))
            OR push_bit 16 (ucast (q8_d (\<lambda>a. word_of_int a) (weight_block_from_base 68 16384 (5 + int r) (1 + int gb))))
       else 9)"
    using fused_scale_table[OF sample_task_ok(1), of "\<lambda>a. word_of_int a" "\<lambda>_. 0" "\<lambda>_. 9", unfolded v] by blast
  show ?thesis
    using r k e[rule_format, of 0 2] e[rule_format, of 0 3] by (auto simp: weight_block_from_base_def)
qed

end
