(* ===== verification/Fpga_Ddr.thy ===== *)
theory Fpga_Ddr
  imports Q8_Pack
begin

text \<open>
  The staging DDR of the accelerator as the host sees it
  (\<^verbatim>\<open>ggml/src/ggml-cpu/fpga_host.cpp\<close>): the mapped byte window with its range checks and
  little-endian 32-bit accesses, the CRC-32 of cached payloads, the weight-cache header, the rows the
  SPU returns, and the checked address arithmetic of tensors. The mapping is a list of bytes at a
  virtual address; \<open>fpga_fatal\<close>, which aborts, is \<open>None\<close>. Volatile accesses and fences have no
  counterpart in this single-threaded model of memory.
\<close>

subsection \<open>Constants\<close>

abbreviation (input) DDR_BASE_PHYS :: u64 where "DDR_BASE_PHYS \<equiv> 0x70000000"
abbreviation (input) DDR_REGION_SIZE :: u64 where "DDR_REGION_SIZE \<equiv> 0x10000000"
abbreviation (input) DDR_END_EXCLUSIVE :: u64 where "DDR_END_EXCLUSIVE \<equiv> 0x80000000"
abbreviation (input) VPU_RESULT_PACK_LANES :: u64 where "VPU_RESULT_PACK_LANES \<equiv> 4"

subsection \<open>The mapped window\<close>

record ddr_map =
  dm_mapped :: bool
  dm_base :: u64
  dm_bytes :: "u8 list"

definition ddr_map_size :: "ddr_map \<Rightarrow> u64" where
  "ddr_map_size d = of_nat (length (dm_bytes d))"

definition align_up_size :: "u64 \<Rightarrow> u64 \<Rightarrow> u64" where
  "align_up_size value alignment = (value + alignment - 1) AND NOT (alignment - 1)"

definition range_fits :: "u32 \<Rightarrow> u64 \<Rightarrow> u32 \<Rightarrow> u32 \<Rightarrow> bool" where
  "range_fits off bytes begin_off end_off \<longleftrightarrow>
     bytes > 0 \<and> off \<ge> begin_off \<and> off < end_off \<and> bytes \<le> ucast (end_off - off)"

definition ddr_range_fits :: "u32 \<Rightarrow> u64 \<Rightarrow> ddr_map \<Rightarrow> bool" where
  "ddr_range_fits off bytes d =
     (if \<not> dm_mapped d \<or> bytes = 0 then False
      else let offset = ucast off in offset \<le> ddr_map_size d \<and> bytes \<le> ddr_map_size d - offset)"

text \<open>The pointer \<open>g_ddr + off\<close> is the index of its byte.\<close>

definition ddr_ptr :: "u32 \<Rightarrow> u64 \<Rightarrow> ddr_map \<Rightarrow> nat option" where
  "ddr_ptr off bytes d = (if \<not> ddr_range_fits off bytes d then None else Some (unat off))"

definition ddr_checked_u32_ptr :: "u32 \<Rightarrow> u64 \<Rightarrow> ddr_map \<Rightarrow> nat option" where
  "ddr_checked_u32_ptr off bytes d =
     (if off = 0 \<or> bytes = 0 \<or> off AND 3 \<noteq> 0 \<or> bytes AND 3 \<noteq> 0 \<or> \<not> ddr_range_fits off bytes d then None
      else case ddr_ptr off bytes d of None \<Rightarrow> None
      | Some raw \<Rightarrow> if (dm_base d + of_nat raw) mod 4 \<noteq> 0 then None else Some raw)"

definition phys_to_ddr_offset :: "u64 \<Rightarrow> u64 \<Rightarrow> ddr_map \<Rightarrow> u32 option" where
  "phys_to_ddr_offset phys bytes d =
     (if bytes = 0 \<or> phys < DDR_BASE_PHYS then None
      else let delta = phys - DDR_BASE_PHYS in
        if delta > 4294967295 \<or> delta > ddr_map_size d \<or> bytes > ddr_map_size d - delta then None
        else Some (ucast delta))"

definition phys_range_fits :: "u64 \<Rightarrow> u64 \<Rightarrow> u64 \<Rightarrow> u64 \<Rightarrow> bool" where
  "phys_range_fits phys bytes base mapped_size =
     (if bytes = 0 \<or> phys < base then False
      else let delta = phys - base in delta \<le> mapped_size \<and> bytes \<le> mapped_size - delta)"

subsection \<open>Accesses\<close>

definition load32 :: "nat \<Rightarrow> u8 list \<Rightarrow> u32" where
  "load32 p m = pack_i8x4_le (\<lambda>i. m ! (p + i))"

definition store32 :: "nat \<Rightarrow> u32 \<Rightarrow> u8 list \<Rightarrow> u8 list" where
  "store32 p v m = m[p := ucast v, p + 1 := ucast (drop_bit 8 v), p + 2 := ucast (drop_bit 16 v),
     p + 3 := ucast (drop_bit 24 v)]"

fun store_words :: "nat \<Rightarrow> u32 list \<Rightarrow> u8 list \<Rightarrow> u8 list" where
  "store_words p [] m = m"
| "store_words p (w # ws) m = store_words (p + 4) ws (store32 p w m)"

definition load_words :: "nat \<Rightarrow> nat \<Rightarrow> u8 list \<Rightarrow> u32 list" where
  "load_words p n m = map (\<lambda>w. load32 (p + 4 * w) m) [0..<n]"

definition ddr_pack_i8x4_le :: "(nat \<Rightarrow> u8) \<Rightarrow> u32" where
  "ddr_pack_i8x4_le lanes = (let b0 = lanes 0; b1 = lanes 1; b2 = lanes 2; b3 = lanes 3 in
     ucast b0 OR push_bit 8 (ucast b1) OR push_bit 16 (ucast b2) OR push_bit 24 (ucast b3))"

definition ddr_store_i8x16_words :: "nat \<Rightarrow> (nat \<Rightarrow> u8) \<Rightarrow> u8 list \<Rightarrow> u8 list" where
  "ddr_store_i8x16_words dst lanes m = fold (\<lambda>w. store32 (dst + 4 * w) (ddr_pack_i8x4_le (\<lambda>i. lanes (4 * w + i)))) [0..<4] m"

definition ddr_zero_range32 :: "u32 \<Rightarrow> u64 \<Rightarrow> ddr_map \<Rightarrow> ddr_map option" where
  "ddr_zero_range32 off bytes d =
     (if off AND 3 \<noteq> 0 \<or> bytes AND 3 \<noteq> 0 then None
      else do { dst \<leftarrow> ddr_ptr off bytes d;
        Some (d\<lparr>dm_bytes := store_words dst (replicate (unat (bytes div 4)) 0) (dm_bytes d)\<rparr>) })"

definition ddr_write_i8x16 :: "u32 \<Rightarrow> (nat \<Rightarrow> u8) \<Rightarrow> ddr_map \<Rightarrow> ddr_map option" where
  "ddr_write_i8x16 off lanes d =
     (if off AND 3 \<noteq> 0 then None
      else do { dst \<leftarrow> ddr_ptr off 16 d; Some (d\<lparr>dm_bytes := ddr_store_i8x16_words dst lanes (dm_bytes d)\<rparr>) })"

definition ddr_write_u32 :: "u32 \<Rightarrow> u32 \<Rightarrow> ddr_map \<Rightarrow> ddr_map option" where
  "ddr_write_u32 off v d =
     (if off AND 3 \<noteq> 0 then None
      else do { dst \<leftarrow> ddr_ptr off 4 d; Some (d\<lparr>dm_bytes := store32 dst v (dm_bytes d)\<rparr>) })"

definition ddr_read_i32x4 :: "u32 \<Rightarrow> ddr_map \<Rightarrow> int list option" where
  "ddr_read_i32x4 off d =
     (if off AND 3 \<noteq> 0 then None
      else do { src \<leftarrow> ddr_ptr off 16 d; Some (map sint (load_words src 4 (dm_bytes d))) })"

text \<open>A 64-bit load on the little-endian host.\<close>

definition load64 :: "nat \<Rightarrow> u8 list \<Rightarrow> u64" where
  "load64 p m = ucast (load32 p m) OR push_bit 32 (ucast (load32 (p + 4) m))"

text \<open>A row of the SPU: row id and signed Q16.16 accumulator. The aligned path uses two 64-bit loads.\<close>

definition ddr_read_spu_q16_row :: "u32 \<Rightarrow> bool \<Rightarrow> ddr_map \<Rightarrow> (u16 \<times> int) option" where
  "ddr_read_spu_q16_row off trace d =
     (if off AND 3 \<noteq> 0 then None
      else do { src \<leftarrow> ddr_ptr off 16 d;
        let m = dm_bytes d in
        if \<not> trace \<and> (dm_base d + of_nat src) AND 7 = 0 then
          let low = load64 src m; high = load64 (src + 8) m;
              accum_bits = drop_bit 16 low OR push_bit 48 high
          in Some (ucast (low AND 0xffff), sint accum_bits)
        else
          let word0 = load32 src m; word1 = load32 (src + 4) m; word2 = load32 (src + 8) m;
              accum_u = (ucast (drop_bit 16 word0) :: u64) OR push_bit 16 (ucast word1)
                OR push_bit 48 (ucast (word2 AND 0xffff))
          in Some (ucast (word0 AND 0xffff), sint accum_u) })"

subsection \<open>CRC-32\<close>

definition crc_bit :: "u32 \<Rightarrow> u32" where
  "crc_bit v = drop_bit 1 v XOR (if v AND 1 \<noteq> 0 then 0xEDB88320 else 0)"

definition fpga_crc32_table :: "u32 list" where
  "fpga_crc32_table = map (\<lambda>byte. (crc_bit ^^ 8) (of_nat byte)) [0..<256]"

definition crc32_byte :: "u8 \<Rightarrow> u32 \<Rightarrow> u32" where
  "crc32_byte b crc = (fpga_crc32_table ! unat ((crc XOR ucast b) AND 0xFF)) XOR drop_bit 8 crc"

definition fpga_crc32_update :: "u32 \<Rightarrow> u8 list \<Rightarrow> u32" where
  "fpga_crc32_update crc data = fold crc32_byte data crc"

function fpga_crc32_update_zeros :: "u32 \<Rightarrow> nat \<Rightarrow> u32" where
  "fpga_crc32_update_zeros crc bytes =
     (if bytes = 0 then crc
      else let chunk = min bytes 256 in fpga_crc32_update_zeros (fpga_crc32_update crc (replicate chunk 0)) (bytes - chunk))"
  by pat_completeness auto
termination by (relation "measure snd") auto

declare fpga_crc32_update_zeros.simps [simp del]

definition fpga_crc32_ddr :: "u32 \<Rightarrow> u64 \<Rightarrow> ddr_map \<Rightarrow> u32 option" where
  "fpga_crc32_ddr off bytes d = do { data \<leftarrow> ddr_ptr off bytes d;
     Some (NOT (fold (\<lambda>i. crc32_byte (dm_bytes d ! (data + i))) [0..<unat bytes] 0xFFFFFFFF)) }"

definition fpga_p2_residency_scale_bits_crc32 :: "u16 list \<Rightarrow> u32" where
  "fpga_p2_residency_scale_bits_crc32 scale_bits =
     NOT (fold (\<lambda>bits crc. fpga_crc32_update crc [ucast (bits AND 0xff), ucast (drop_bit 8 bits AND 0xff)]) scale_bits 0xFFFFFFFF)"

subsection \<open>The weight-cache header\<close>

record weight_cache_header =
  wh_magic :: u32
  wh_format_version :: u32
  wh_tensor_hash :: u32
  wh_tile_shape :: u32
  wh_ddr_offset :: u32
  wh_byte_length :: u32
  wh_crc32 :: u32
  wh_valid :: u32

definition header_words :: "weight_cache_header \<Rightarrow> u32 list" where
  "header_words h = [wh_magic h, wh_format_version h, wh_tensor_hash h, wh_tile_shape h, wh_ddr_offset h,
     wh_byte_length h, wh_crc32 h, wh_valid h]"

definition words_header :: "u32 list \<Rightarrow> weight_cache_header" where
  "words_header ws = \<lparr>wh_magic = ws ! 0, wh_format_version = ws ! 1, wh_tensor_hash = ws ! 2, wh_tile_shape = ws ! 3,
     wh_ddr_offset = ws ! 4, wh_byte_length = ws ! 5, wh_crc32 = ws ! 6, wh_valid = ws ! 7\<rparr>"

definition ddr_write_weight_cache_header :: "u32 \<Rightarrow> weight_cache_header \<Rightarrow> ddr_map \<Rightarrow> ddr_map option" where
  "ddr_write_weight_cache_header off h d =
     (if off AND 3 \<noteq> 0 then None
      else do { dst \<leftarrow> ddr_ptr off 32 d; Some (d\<lparr>dm_bytes := store_words dst (header_words h) (dm_bytes d)\<rparr>) })"

definition ddr_read_weight_cache_header :: "u32 \<Rightarrow> ddr_map \<Rightarrow> weight_cache_header option" where
  "ddr_read_weight_cache_header off d =
     (if off AND 3 \<noteq> 0 then Some (words_header (replicate 8 0))
      else do { src \<leftarrow> ddr_ptr off 32 d; Some (words_header (load_words src 8 (dm_bytes d))) })"

subsection \<open>Shapes and tensor ranges\<close>

record scale_shape =
  ss_entries :: u64
  ss_words :: u64
  ss_bytes :: u64
  ss_tail_entries :: u64

definition fpga_p2_pack_scale_entry :: "u16 \<Rightarrow> u16 \<Rightarrow> u32" where
  "fpga_p2_pack_scale_entry activation_scale weight_scale = ucast activation_scale OR push_bit 16 (ucast weight_scale)"

definition fpga_p2_checked_scale_shape :: "int \<Rightarrow> int \<Rightarrow> u32 \<Rightarrow> u32 \<Rightarrow> u64 \<Rightarrow> u32 \<Rightarrow> scale_shape option" where
  "fpga_p2_checked_scale_shape rows group_blocks job_result_values job_result_words job_scale_bytes scale_off =
     (if rows \<le> 0 \<or> group_blocks \<le> 0 \<or> scale_off AND 0xF \<noteq> 0 then None
      else let rows_size = size_of_int rows; group_blocks_size = size_of_int group_blocks in
        if rows_size > SIZE_MAX div group_blocks_size then None
        else let entries = rows_size * group_blocks_size in
          if entries > 4294967295 \<or> entries > SIZE_MAX - (VPU_RESULT_PACK_LANES - 1) then None
          else let words = (entries + VPU_RESULT_PACK_LANES - 1) div VPU_RESULT_PACK_LANES in
            if words = 0 \<or> words > 4294967295 \<or> words > SIZE_MAX div 16 then None
            else let bytes = words * 16 in
              if bytes AND 0xF \<noteq> 0 \<or> job_result_values \<noteq> ucast entries \<or> job_result_words \<noteq> ucast words
                 \<or> job_scale_bytes \<noteq> bytes then None
              else if words > SIZE_MAX div VPU_RESULT_PACK_LANES then None
              else let covered_entries = words * VPU_RESULT_PACK_LANES; tail_entries = covered_entries - entries in
                if tail_entries > VPU_RESULT_PACK_LANES - 1 then None
                else Some \<lparr>ss_entries = entries, ss_words = words, ss_bytes = bytes, ss_tail_entries = tail_entries\<rparr>)"

definition checked_size_add :: "u64 \<Rightarrow> u64 \<Rightarrow> u64 option" where
  "checked_size_add lhs rhs = (if lhs > SIZE_MAX - rhs then None else Some (lhs + rhs))"

definition checked_size_mul :: "u64 \<Rightarrow> u64 \<Rightarrow> u64 option" where
  "checked_size_mul lhs rhs = (if lhs \<noteq> 0 \<and> rhs > SIZE_MAX div lhs then None else Some (lhs * rhs))"

record access_range =
  ar_begin :: u64
  ar_end :: u64
  ar_bytes :: u64

text \<open>The tensor is its data pointer (null is 0) and its first two strides.\<close>

definition fpga_tensor_access_range :: "u64 \<Rightarrow> u64 \<Rightarrow> u64 \<Rightarrow> int \<Rightarrow> int \<Rightarrow> u64 \<Rightarrow> access_range option" where
  "fpga_tensor_access_range data nb0 nb1 dim0 dim1 element_bytes =
     (if data = 0 \<or> dim0 \<le> 0 \<or> dim1 \<le> 0 then None
      else do {
        dim0_offset \<leftarrow> checked_size_mul (size_of_int (dim0 - 1)) nb0;
        dim1_offset \<leftarrow> checked_size_mul (size_of_int (dim1 - 1)) nb1;
        last_offset \<leftarrow> checked_size_add dim0_offset dim1_offset;
        required_bytes \<leftarrow> checked_size_add last_offset element_bytes;
        if data > SIZE_MAX - required_bytes then None
        else Some \<lparr>ar_begin = data, ar_end = data + required_bytes, ar_bytes = required_bytes\<rparr> })"

definition fpga_tensor_ranges_overlap :: "access_range \<Rightarrow> access_range \<Rightarrow> bool" where
  "fpga_tensor_ranges_overlap lhs rhs \<longleftrightarrow> ar_begin lhs < ar_end rhs \<and> ar_begin rhs < ar_end lhs"

definition matrix_mac_count :: "int \<Rightarrow> int \<Rightarrow> int \<Rightarrow> int" where
  "matrix_mac_count k n m =
     (if k \<le> 0 \<or> n \<le> 0 \<or> m \<le> 0 then 0
      else if k > 9223372036854775807 div n \<or> k * n > 9223372036854775807 div m then 9223372036854775807
      else k * n * m)"

definition fpga_weight_layout_zero_padded_companion :: "u32 \<Rightarrow> int \<Rightarrow> int \<Rightarrow> ddr_map \<Rightarrow> ddr_map option" where
  "fpga_weight_layout_zero_padded_companion base rows group_beats d =
     (if rows AND 1 = 0 then Some d
      else fold_opt (\<lambda>beat d. case fpga_weight_layout_word_offset base rows group_beats rows (int beat) of
             None \<Rightarrow> None | Some off \<Rightarrow> ddr_zero_range32 off 16 d) [0..<nat group_beats] d)"

subsection \<open>CRC-32: the table and the polynomial\<close>

text \<open>The byte step of the reference definition: eight bit steps of the reflected polynomial.\<close>

definition crc_step :: "u32 \<Rightarrow> u32" where
  "crc_step x = (crc_bit ^^ 8) x"

definition crc32_spec :: "u32 \<Rightarrow> u8 list \<Rightarrow> u32" where
  "crc32_spec crc data = fold (\<lambda>b c. crc_step (c XOR ucast b)) data crc"

lemma odd_and_1: "v AND 1 \<noteq> 0 \<longleftrightarrow> bit v 0" for v :: u32
  by (simp add: and_one_eq odd_iff_mod_2_eq_one bit_0)

lemma crc_bit_xor: "crc_bit (x XOR y) = crc_bit x XOR crc_bit y"
  unfolding crc_bit_def odd_and_1
  by (cases "bit x 0"; cases "bit y 0") (simp_all add: bit_xor_iff drop_bit_xor ac_simps)

lemma crc_step_xor: "crc_step (x XOR y) = crc_step x XOR crc_step y"
  by (simp add: crc_step_def eval_nat_numeral crc_bit_xor)

lemma poly_bits: "bit (0xEDB88320 :: u32) 31" "\<not> bit (drop_bit 1 x :: u32) 31"
  by (auto simp: bit_simps dest: bit_imp_le_length)

lemma crc_bit_zero: "crc_bit x = 0 \<Longrightarrow> x = 0"
proof -
  assume z: "crc_bit x = 0"
  have "\<not> bit x 0"
  proof
    assume "bit x 0"
    then have "bit (crc_bit x) 31" using poly_bits unfolding crc_bit_def odd_and_1 by (simp add: bit_xor_iff)
    then show False using z by simp
  qed
  then have "drop_bit 1 x = 0" and e: "\<not> bit x 0" using z unfolding crc_bit_def odd_and_1 by simp_all
  show "x = 0"
  proof (rule bit_word_eqI)
    fix n
    show "bit x n = bit (0 :: u32) n"
    proof (cases n)
      case (Suc m)
      have "bit (drop_bit 1 x) m = bit x (Suc m)" by (simp add: bit_drop_bit_eq)
      then show ?thesis using \<open>drop_bit 1 x = 0\<close> Suc by simp
    qed (use e in simp)
  qed
qed

lemma xor_cancel: "x XOR z = y XOR z \<Longrightarrow> x = y" for x y z :: "'a :: len word"
  by (metis xor.assoc xor.right_neutral xor_self_eq)

lemma crc_step_inj: "crc_step x = crc_step y \<longleftrightarrow> x = y"
proof
  assume "crc_step x = crc_step y"
  then have z: "crc_step (x XOR y) = 0" by (simp add: crc_step_xor)
  have "(crc_bit ^^ k) v = 0 \<Longrightarrow> v = 0" for k v
    by (induction k) (auto dest: crc_bit_zero)
  then have "x XOR y = 0" using z unfolding crc_step_def by blast
  then show "x = y" by (intro xor_cancel[of x y y]) simp
qed simp

lemma crc_bit_push: "m < 8 \<Longrightarrow> drop_bit 24 y = 0 \<Longrightarrow> crc_bit (push_bit (Suc m) y) = push_bit m y"
proof -
  assume m: "m < 8" and y: "drop_bit 24 y = 0"
  have high: "\<not> bit y n" if "24 \<le> n" for n
  proof -
    have "bit (drop_bit 24 y) (n - 24) = bit y n" using that by (simp add: bit_drop_bit_eq)
    then show ?thesis using y by simp
  qed
  have "\<not> bit (push_bit (Suc m) y) 0" unfolding bit_push_bit_iff by simp
  then have "crc_bit (push_bit (Suc m) y) = drop_bit 1 (push_bit (Suc m) y)" unfolding crc_bit_def odd_and_1 by simp
  also have "\<dots> = push_bit m y"
  proof (rule bit_word_eqI)
    fix n assume n: "n < LENGTH(32)"
    have "\<not> bit y (31 - m)" by (rule high) (use m in simp)
    then show "bit (drop_bit 1 (push_bit (Suc m) y)) n = bit (push_bit m y) n"
      unfolding bit_drop_bit_eq bit_push_bit_iff o_def using n by (cases "n = 31") auto
  qed
  finally show ?thesis .
qed

lemma crc_step_push: "drop_bit 24 y = 0 \<Longrightarrow> crc_step (push_bit 8 y) = y"
proof -
  assume y: "drop_bit 24 y = 0"
  have "k \<le> 8 \<Longrightarrow> (crc_bit ^^ k) (push_bit k y) = y" for k
  proof (induction k)
    case (Suc k)
    then have "crc_bit (push_bit (Suc k) y) = push_bit k y" by (intro crc_bit_push[OF _ y]) simp
    then have "(crc_bit ^^ Suc k) (push_bit (Suc k) y) = (crc_bit ^^ k) (push_bit k y)"
      by (simp only: funpow_Suc_right o_apply)
    then show ?case using Suc by simp
  qed simp
  from this[of 8] show ?thesis by (simp only: crc_step_def)
qed

lemma byte_split: "x = (x AND mask 8) XOR push_bit 8 (drop_bit 8 x)" for x :: u32
  by (rule bit_word_eqI) (auto simp: bit_simps)

lemma crc32_byte_step: "crc32_byte b crc = crc_step (crc XOR ucast b)"
proof -
  let ?x = "crc XOR ucast b"
  have "unat (?x AND 0xFF) < 256"
    using word_and_le1[of ?x "0xFF"] by (simp add: word_le_nat_alt)
  then have t: "fpga_crc32_table ! unat (?x AND 0xFF) = crc_step (?x AND 0xFF)"
    by (simp add: fpga_crc32_table_def crc_step_def)
  have s: "drop_bit 8 crc = drop_bit 8 ?x"
    by (rule bit_word_eqI) (auto simp: bit_simps dest: bit_imp_le_length)
  have m: "(0xFF :: u32) = mask 8" by (simp add: mask_eq_exp_minus_1)
  have "?x = (?x AND 0xFF) XOR push_bit 8 (drop_bit 8 ?x)" unfolding m by (rule byte_split)
  moreover have "crc_step (push_bit 8 (drop_bit 8 ?x)) = drop_bit 8 ?x"
    by (rule crc_step_push) (rule bit_word_eqI, auto simp: bit_simps dest: bit_imp_le_length)
  ultimately show ?thesis unfolding crc32_byte_def t s by (metis crc_step_xor)
qed

lemma crc32_update_spec: "fpga_crc32_update crc data = crc32_spec crc data"
proof -
  have "crc32_byte = (\<lambda>b c. crc_step (c XOR ucast b))" by (intro ext) (rule crc32_byte_step)
  then show ?thesis by (simp only: fpga_crc32_update_def crc32_spec_def)
qed

lemma crc32_spec_append: "crc32_spec crc (xs @ ys) = crc32_spec (crc32_spec crc xs) ys"
  by (simp add: crc32_spec_def)

lemma crc32_spec_inj: "crc32_spec c xs = crc32_spec c' xs \<Longrightarrow> c = c'"
proof (induction xs arbitrary: c c')
  case Nil
  then show ?case by (simp add: crc32_spec_def)
next
  case (Cons x xs)
  then have "crc_step (c XOR ucast x) = crc_step (c' XOR ucast x)" by (simp add: crc32_spec_def)
  then have "c XOR ucast x = c' XOR ucast x" by (simp only: crc_step_inj)
  then show ?case by (rule xor_cancel)
qed

lemma crc32_four:
  "crc32_spec c [b0, b1, b2, b3] = (crc_step ^^ 4) (c XOR (ucast b0 XOR push_bit 8 (ucast b1) XOR push_bit 16 (ucast b2) XOR push_bit 24 (ucast b3)))"
proof -
  have up: "ucast b = crc_step (push_bit 8 (ucast b))" "push_bit 8 (ucast b) = crc_step (push_bit 16 (ucast b))"
    "push_bit 16 (ucast b) = crc_step (push_bit 24 (ucast b))" for b :: u8
  proof -
    have h: "drop_bit 24 (push_bit k (ucast b :: u32)) = 0" if "k \<le> 16" for k
      by (rule bit_word_eqI) (use that in \<open>auto simp: bit_simps no_high_bit\<close>)
    show "ucast b = crc_step (push_bit 8 (ucast b))" using crc_step_push[OF h[of 0, simplified]] by simp
    show "push_bit 8 (ucast b) = crc_step (push_bit 16 (ucast b))" using crc_step_push[OF h[of 8]] by (simp add: push_bit_push_bit)
    show "push_bit 16 (ucast b) = crc_step (push_bit 24 (ucast b))" using crc_step_push[OF h[of 16]] by (simp add: push_bit_push_bit)
  qed
  have "crc32_spec c [b0, b1, b2, b3] = crc_step (crc_step (crc_step (crc_step (c XOR ucast b0) XOR ucast b1) XOR ucast b2) XOR ucast b3)"
    by (simp add: crc32_spec_def)
  also have "\<dots> = crc_step (crc_step (crc_step (crc_step (c XOR ucast b0) XOR crc_step (push_bit 8 (ucast b1)))
      XOR crc_step (crc_step (push_bit 16 (ucast b2)))) XOR crc_step (crc_step (crc_step (push_bit 24 (ucast b3)))))"
    by (simp only: up[symmetric])
  also have "\<dots> = (crc_step ^^ 4) (c XOR (ucast b0 XOR push_bit 8 (ucast b1) XOR push_bit 16 (ucast b2) XOR push_bit 24 (ucast b3)))"
    by (simp add: eval_nat_numeral crc_step_xor xor.assoc)
  finally show ?thesis .
qed

lemma xor_bytes_inj:
  assumes "(ucast a0 XOR push_bit 8 (ucast a1) XOR push_bit 16 (ucast a2) XOR push_bit 24 (ucast a3) :: u32)
    = ucast b0 XOR push_bit 8 (ucast b1) XOR push_bit 16 (ucast b2) XOR push_bit 24 (ucast b3)"
  shows "a0 = (b0 :: u8) \<and> a1 = (b1 :: u8) \<and> a2 = (b2 :: u8) \<and> a3 = (b3 :: u8)"
proof -
  let ?w = "\<lambda>(c0 :: u8) (c1 :: u8) (c2 :: u8) (c3 :: u8). (ucast c0 XOR push_bit 8 (ucast c1) XOR push_bit 16 (ucast c2) XOR push_bit 24 (ucast c3) :: u32)"
  have get: "ucast (?w c0 c1 c2 c3) = c0" "ucast (drop_bit 8 (?w c0 c1 c2 c3)) = c1"
    "ucast (drop_bit 16 (?w c0 c1 c2 c3)) = c2" "ucast (drop_bit 24 (?w c0 c1 c2 c3)) = c3" for c0 c1 c2 c3 :: u8
    by (rule bit_word_eqI, simp only: bit_unsigned_iff bit_xor_iff bit_push_bit_iff bit_drop_bit_eq o_def, simp add: no_high_bit)+
  have "b0 = a0" using get(1)[of a0 a1 a2 a3] unfolding assms get(1) .
  moreover have "b1 = a1" using get(2)[of a0 a1 a2 a3] unfolding assms get(2) .
  moreover have "b2 = a2" using get(3)[of a0 a1 a2 a3] unfolding assms get(3) .
  moreover have "b3 = a3" using get(4)[of a0 a1 a2 a3] unfolding assms get(4) .
  ultimately show ?thesis by blast
qed

lemma xor_cancel_left: "z XOR x = z XOR y \<Longrightarrow> x = y" for x y z :: "'a :: len word"
  by (intro xor_cancel[of x z y]) (simp only: xor.commute)

lemma four_elements: "length w = 4 \<Longrightarrow> \<exists>a b c d. w = [a, b, c, d]"
  by (auto simp: length_Suc_conv numeral_eq_Suc)

lemma crc32_four_inj:
  assumes "length w = 4" and "length w' = 4" and "crc32_spec c w = crc32_spec c w'"
  shows "w = w'"
proof -
  obtain a0 a1 a2 a3 where w: "w = [a0, a1, a2, a3]" using four_elements[OF assms(1)] by blast
  obtain b0 b1 b2 b3 where w': "w' = [b0, b1, b2, b3]" using four_elements[OF assms(2)] by blast
  have inj: "(crc_step ^^ k) x = (crc_step ^^ k) y \<Longrightarrow> x = y" for k x y
    by (induction k) (auto simp: crc_step_inj)
  have "c XOR (ucast a0 XOR push_bit 8 (ucast a1) XOR push_bit 16 (ucast a2) XOR push_bit 24 (ucast a3))
      = c XOR (ucast b0 XOR push_bit 8 (ucast b1) XOR push_bit 16 (ucast b2) XOR push_bit 24 (ucast b3))"
    by (rule inj[of 4]) (use assms(3) in \<open>simp only: w w' crc32_four\<close>)
  then have "a0 = b0 \<and> a1 = b1 \<and> a2 = b2 \<and> a3 = b3"
    by (intro xor_bytes_inj) (rule xor_cancel_left)
  then show ?thesis by (simp only: w w')
qed

lemma crc32_update_zeros: "fpga_crc32_update_zeros crc n = fpga_crc32_update crc (replicate n 0)"
proof (induction crc n rule: fpga_crc32_update_zeros.induct)
  case (1 crc n)
  show ?case
  proof (cases "n = 0")
    case False
    have r: "replicate n (0 :: u8) = replicate (min n 256) 0 @ replicate (n - min n 256) 0"
      by (simp add: replicate_add[symmetric])
    show ?thesis using False 1
      by (subst fpga_crc32_update_zeros.simps) (simp add: Let_def r crc32_update_spec crc32_spec_append)
  qed (simp add: fpga_crc32_update_zeros.simps fpga_crc32_update_def)
qed

subsection \<open>The mapped bytes as a memory of words\<close>

lemma length_store32 [simp]: "length (store32 p v m) = length m"
  by (simp add: store32_def)

lemma bytes_of_word:
  "ucast (ucast v :: u8) OR push_bit 8 (ucast (ucast (drop_bit 8 v) :: u8)) OR push_bit 16 (ucast (ucast (drop_bit 16 v) :: u8))
     OR push_bit 24 (ucast (ucast (drop_bit 24 v) :: u8)) = (v :: u32)"
proof (rule bit_word_eqI)
  fix n assume "n < LENGTH(32)"
  then consider "n < 8" | "8 \<le> n" "n < 16" | "16 \<le> n" "n < 24" | "24 \<le> n" "n < 32" by fastforce
  then show "bit (ucast (ucast v :: u8) OR push_bit 8 (ucast (ucast (drop_bit 8 v) :: u8)) OR push_bit 16 (ucast (ucast (drop_bit 16 v) :: u8))
     OR push_bit 24 (ucast (ucast (drop_bit 24 v) :: u8)) :: u32) n = bit v n"
    by cases (auto simp: bit_simps)
qed

lemma load_store32: "p + 4 \<le> length m \<Longrightarrow> load32 p (store32 p v m) = v"
proof -
  assume "p + 4 \<le> length m"
  then have "store32 p v m ! p = ucast v" "store32 p v m ! (p + 1) = ucast (drop_bit 8 v)"
    "store32 p v m ! (p + 2) = ucast (drop_bit 16 v)" "store32 p v m ! (p + 3) = ucast (drop_bit 24 v)"
    by (simp_all add: store32_def)
  then show ?thesis by (simp add: load32_def pack_i8x4_le_def bytes_of_word)
qed

lemma store32_other: "j < p \<or> p + 4 \<le> j \<Longrightarrow> store32 p v m ! j = m ! j"
  by (auto simp: store32_def)

lemma load_store32_other: "q + 4 \<le> p \<or> p + 4 \<le> q \<Longrightarrow> load32 q (store32 p v m) = load32 q m"
  by (auto simp: load32_def pack_i8x4_le_def store32_other)

lemma length_store_words [simp]: "length (store_words p ws m) = length m"
  by (induction ws arbitrary: p m) auto

lemma store_words_other: "j < p \<or> p + 4 * length ws \<le> j \<Longrightarrow> store_words p ws m ! j = m ! j"
  by (induction ws arbitrary: p m) (auto simp: store32_other)

lemma load_store_words_other: "q + 4 \<le> p \<or> p + 4 * length ws \<le> q \<Longrightarrow> load32 q (store_words p ws m) = load32 q m"
  by (auto simp: load32_def pack_i8x4_le_def store_words_other)

lemma load_store_words:
  "p + 4 * length ws \<le> length m \<Longrightarrow> w < length ws \<Longrightarrow> load32 (p + 4 * w) (store_words p ws m) = ws ! w"
proof (induction ws arbitrary: p m w)
  case (Cons x ws)
  show ?case
  proof (cases w)
    case 0
    then show ?thesis using Cons.prems by (simp add: load_store_words_other load_store32)
  next
    case (Suc v)
    then have "load32 (p + 4 + 4 * v) (store_words (p + 4) ws (store32 p x m)) = ws ! v"
      using Cons.prems by (intro Cons.IH) auto
    then show ?thesis using Suc by (simp add: add.assoc)
  qed
qed simp

lemma load_words_store: "p + 4 * length ws \<le> length m \<Longrightarrow> load_words p (length ws) (store_words p ws m) = ws"
  by (rule nth_equalityI) (simp_all add: load_words_def load_store_words)

text \<open>A mapping that fits the address space; the range check is then exact over the naturals.\<close>

definition ddr_ok :: "ddr_map \<Rightarrow> bool" where
  "ddr_ok d \<longleftrightarrow> length (dm_bytes d) < 2 ^ 64"

lemma ddr_map_size_value: "ddr_ok d \<Longrightarrow> unat (ddr_map_size d) = length (dm_bytes d)"
  by (simp add: ddr_map_size_def ddr_ok_def unsigned_of_nat take_bit_nat_eq_self)

lemma window_check:
  fixes off bytes size :: u64
  shows "off \<le> size \<and> bytes \<le> size - off \<longleftrightarrow> unat off + unat bytes \<le> unat size"
proof (cases "off \<le> size")
  case True
  then have "unat (size - off) = unat size - unat off" by (simp add: unat_sub)
  then show ?thesis using True by (auto simp: word_le_nat_alt)
next
  case False
  then show ?thesis by (auto simp: word_le_nat_alt)
qed

lemma ddr_range_fits_value:
  assumes "ddr_ok d"
  shows "ddr_range_fits off bytes d \<longleftrightarrow> dm_mapped d \<and> 0 < unat bytes \<and> unat off + unat bytes \<le> length (dm_bytes d)"
proof -
  have "bytes = 0 \<longleftrightarrow> unat bytes = 0" by (simp add: unat_eq_0)
  then show ?thesis
    using window_check[of "ucast off" "ddr_map_size d" bytes] ddr_map_size_value[OF assms]
    by (auto simp: ddr_range_fits_def Let_def unat_ucast_wide)
qed

subsection \<open>Properties\<close>

text \<open>
  Property C34. The table-driven CRC is the bit-by-bit CRC-32 of the reflected polynomial, the chunked
  update by zeros is the update by that many zero bytes, and corrupting up to four adjacent bytes of
  a payload always changes the CRC.
\<close>

theorem crc32_detects_burst:
  assumes "length w = length w'" and "length w \<le> 4" and "w \<noteq> w'"
  shows "fpga_crc32_update crc (pre @ w @ post) \<noteq> fpga_crc32_update crc (pre @ w' @ post)
    \<and> fpga_crc32_update crc pre = crc32_spec crc pre
    \<and> fpga_crc32_update_zeros crc n = crc32_spec crc (replicate n 0)"
proof -
  let ?c = "crc32_spec crc pre" and ?z = "replicate (4 - length w) (0 :: u8)"
  have "crc32_spec ?c w \<noteq> crc32_spec ?c w'"
  proof
    assume "crc32_spec ?c w = crc32_spec ?c w'"
    then have "crc32_spec ?c (w @ ?z) = crc32_spec ?c (w' @ ?z)" by (simp only: crc32_spec_append)
    then have "w @ ?z = w' @ ?z" using assms(1,2) by (intro crc32_four_inj) auto
    then show False using assms(3) by simp
  qed
  then have "crc32_spec crc (pre @ w @ post) \<noteq> crc32_spec crc (pre @ w' @ post)"
    using crc32_spec_inj unfolding crc32_spec_append by blast
  then show ?thesis by (simp add: crc32_update_spec crc32_update_zeros)
qed

lemma crc32_detects_burst_witness:
  "fpga_crc32_update 0xFFFFFFFF [1, 2, 3, 4] \<noteq> fpga_crc32_update 0xFFFFFFFF [1, 7, 8, 4]"
  using crc32_detects_burst[of "[2, 3]" "[7, 8]" "0xFFFFFFFF" "[1]" "[4]"] by simp

lemma phys_to_ddr_offset_value:
  assumes "ddr_ok d"
  shows "phys_to_ddr_offset phys bytes d = Some o2 \<longleftrightarrow> 0 < unat bytes \<and> unat phys = 0x70000000 + unat o2
    \<and> unat o2 + unat bytes \<le> length (dm_bytes d)"
proof (cases "bytes = 0 \<or> phys < DDR_BASE_PHYS")
  case True
  then show ?thesis by (auto simp: phys_to_ddr_offset_def word_less_nat_alt)
next
  case False
  let ?delta = "phys - DDR_BASE_PHYS"
  have b: "0 < unat bytes" using False by (simp add: unat_gt_0)
  have ge: "DDR_BASE_PHYS \<le> phys" using False by (simp add: not_less)
  then have u: "unat ?delta = unat phys - 0x70000000" by (simp add: unat_sub)
  have p: "0x70000000 \<le> unat phys" using ge by (simp add: word_le_nat_alt)
  note fit = window_check[of ?delta "ddr_map_size d" bytes, unfolded ddr_map_size_value[OF assms]]
  have run: "phys_to_ddr_offset phys bytes d = (if unat ?delta \<le> U32_MAX \<and> unat ?delta + unat bytes \<le> length (dm_bytes d)
      then Some (ucast ?delta) else None)"
    using False fit by (auto simp: phys_to_ddr_offset_def Let_def word_le_nat_alt not_le word_less_nat_alt)
  have c: "unat (ucast ?delta :: u32) = unat ?delta" if "unat ?delta \<le> U32_MAX"
    using that by (simp add: unat_ucast_mod)
  have "unat o2 < 2 ^ LENGTH(32)" by (rule unsigned_less)
  then have lt: "unat o2 \<le> U32_MAX" by simp
  show ?thesis
  proof
    assume "phys_to_ddr_offset phys bytes d = Some o2"
    then have d: "unat ?delta \<le> U32_MAX" "unat ?delta + unat bytes \<le> length (dm_bytes d)" "o2 = ucast ?delta"
      unfolding run by (auto split: if_splits)
    then have "unat o2 = unat ?delta" using c by simp
    then show "0 < unat bytes \<and> unat phys = 0x70000000 + unat o2 \<and> unat o2 + unat bytes \<le> length (dm_bytes d)"
      using b d(2) u p by simp
  next
    assume r: "0 < unat bytes \<and> unat phys = 0x70000000 + unat o2 \<and> unat o2 + unat bytes \<le> length (dm_bytes d)"
    then have e: "unat ?delta = unat o2" using u by simp
    then have "o2 = ucast ?delta" using c lt by (simp add: word_unat_eq_iff)
    then show "phys_to_ddr_offset phys bytes d = Some o2" unfolding run using e lt r by simp
  qed
qed

lemma range_fits_value:
  "range_fits off bytes b e \<longleftrightarrow> 0 < unat bytes \<and> unat b \<le> unat off \<and> unat off + unat bytes \<le> unat e"
proof (cases "off < e")
  case True
  then have "unat (e - off) = unat e - unat off" by (simp add: unat_sub)
  then have "unat (ucast (e - off) :: u64) = unat e - unat off" by (simp add: unat_ucast_wide)
  then have "bytes \<le> ucast (e - off) \<longleftrightarrow> unat off + unat bytes \<le> unat e"
    using True by (simp only: word_le_nat_alt word_less_nat_alt) linarith
  then show ?thesis using True by (simp add: range_fits_def word_le_nat_alt unat_gt_0 word_gt_0)
next
  case False
  then show ?thesis by (auto simp: range_fits_def word_less_nat_alt)
qed

text \<open>
  A checked pointer into the window exists exactly when the window is mapped and the
  bytes lie in it; a physical range is accepted exactly when it lies in the carveout's mapping, at the
  offset returned.
\<close>

theorem ddr_checks_exact:
  assumes "ddr_ok d"
  shows "ddr_ptr off bytes d = (if dm_mapped d \<and> 0 < unat bytes \<and> unat off + unat bytes \<le> length (dm_bytes d)
      then Some (unat off) else None)
    \<and> (phys_to_ddr_offset phys bytes d = Some o2 \<longleftrightarrow> 0 < unat bytes \<and> unat phys = 0x70000000 + unat o2
      \<and> unat o2 + unat bytes \<le> length (dm_bytes d))
    \<and> (range_fits off bytes b e \<longleftrightarrow> 0 < unat bytes \<and> unat b \<le> unat off \<and> unat off + unat bytes \<le> unat e)"
proof (intro conjI)
  show "ddr_ptr off bytes d = (if dm_mapped d \<and> 0 < unat bytes \<and> unat off + unat bytes \<le> length (dm_bytes d)
      then Some (unat off) else None)"
    using ddr_range_fits_value[OF assms, of off bytes] by (simp add: ddr_ptr_def)
  show "phys_to_ddr_offset phys bytes d = Some o2 \<longleftrightarrow> 0 < unat bytes \<and> unat phys = 0x70000000 + unat o2
      \<and> unat o2 + unat bytes \<le> length (dm_bytes d)"
    by (rule phys_to_ddr_offset_value[OF assms])
  show "range_fits off bytes b e \<longleftrightarrow> 0 < unat bytes \<and> unat b \<le> unat off \<and> unat off + unat bytes \<le> unat e"
    by (rule range_fits_value)
qed

definition sample_ddr :: ddr_map where
  "sample_ddr = \<lparr>dm_mapped = True, dm_base = 0x7f0000000000, dm_bytes = map (\<lambda>i. of_nat i) [0..<64]\<rparr>"

lemma sample_ddr_ok: "ddr_ok sample_ddr" "dm_mapped sample_ddr" "length (dm_bytes sample_ddr) = 64"
  by (simp_all add: ddr_ok_def sample_ddr_def)

lemma ddr_checks_exact_witness: "ddr_ptr 48 16 sample_ddr = Some 48 \<and> ddr_ptr 49 16 sample_ddr = None
    \<and> phys_to_ddr_offset 0x70000020 32 sample_ddr = Some 32"
  using ddr_checks_exact[OF sample_ddr_ok(1), of 48 16]
    ddr_checks_exact[OF sample_ddr_ok(1), of 49 16]
    ddr_checks_exact[OF sample_ddr_ok(1), of 0 32 "0x70000020" 32]
  by (simp add: sample_ddr_ok)

text \<open>
  A weight-cache header written to the window is read back unchanged, and writing it
  changes no byte outside its 32.
\<close>

theorem header_roundtrip:
  assumes "ddr_ok d" and "ddr_write_weight_cache_header off h d = Some d'"
  shows "ddr_read_weight_cache_header off d' = Some h
    \<and> (\<forall>j. j < unat off \<or> unat off + 32 \<le> j \<longrightarrow> dm_bytes d' ! j = dm_bytes d ! j)"
proof -
  have al: "off AND 3 = 0" and fit: "ddr_range_fits off 32 d" and d': "d' = d\<lparr>dm_bytes := store_words (unat off) (header_words h) (dm_bytes d)\<rparr>"
    using assms by (auto simp: ddr_write_weight_cache_header_def ddr_ptr_def bind_eq_Some_conv split: if_splits)
  have len: "length (header_words h) = 8" by (simp add: header_words_def)
  have room: "unat off + 32 \<le> length (dm_bytes d)"
    using fit ddr_range_fits_value[OF assms(1), of off 32] by simp
  have "load_words (unat off) 8 (dm_bytes d') = header_words h"
    using load_words_store[of "unat off" "header_words h" "dm_bytes d"] len room d' by simp
  moreover have "words_header (header_words h) = h" by (simp add: words_header_def header_words_def)
  moreover have "ddr_range_fits off 32 d'" using fit d' by (auto simp: ddr_range_fits_def ddr_map_size_def split: if_splits)
  ultimately have "ddr_read_weight_cache_header off d' = Some h"
    using al by (simp add: ddr_read_weight_cache_header_def ddr_ptr_def)
  moreover have "dm_bytes d' ! j = dm_bytes d ! j" if "j < unat off \<or> unat off + 32 \<le> j" for j
    using that d' len by (simp add: store_words_other)
  ultimately show ?thesis by blast
qed

lemma low_16: "(0xffff :: 'a :: len word) = mask 16"
  by (simp add: mask_eq_exp_minus_1)

lemma spu_narrow_row: "(ucast (w AND 0xffff) :: u16) = ucast (w :: u32)"
  unfolding low_16 by (rule bit_word_eqI) (auto simp: bit_simps)

lemma spu_low_row: "(ucast ((ucast (w :: u32) OR push_bit 32 x :: u64) AND 0xffff) :: u16) = ucast w"
  unfolding low_16 by (rule bit_word_eqI) (auto simp: bit_simps)

lemma spu_narrow_accum: "(push_bit 48 (ucast ((w :: u32) AND 0xffff)) :: u64) = push_bit 48 (ucast w)"
  unfolding low_16 by (rule bit_word_eqI) (auto simp: bit_simps)

lemma no_high_bit_32: "32 \<le> k \<Longrightarrow> \<not> bit x k" for x :: u32
  using bit_imp_le_length[of x k] by auto

lemma spu_wide_accum:
  "(drop_bit 16 (ucast (w0 :: u32) OR push_bit 32 (ucast (w1 :: u32))) OR push_bit 48 (ucast (w2 :: u32) OR push_bit 32 x) :: u64)
    = ucast (drop_bit 16 w0) OR push_bit 16 (ucast w1) OR push_bit 48 (ucast w2)"
proof (rule bit_word_eqI)
  fix n assume n: "n < LENGTH(64)"
  have "16 \<le> n \<Longrightarrow> \<not> bit w0 (16 + n)" "48 \<le> n \<Longrightarrow> \<not> bit w1 (n - 16)"
    by (rule no_high_bit_32, simp)+
  then show "bit (drop_bit 16 (ucast w0 OR push_bit 32 (ucast w1)) OR push_bit 48 (ucast w2 OR push_bit 32 x) :: u64) n
      = bit (ucast (drop_bit 16 w0) OR push_bit 16 (ucast w1) OR push_bit 48 (ucast w2) :: u64) n"
    using n by (cases "n < 16"; cases "n < 48") (auto simp: bit_simps)
qed

lemma header_roundtrip_witness:
  "\<exists>d'. ddr_write_weight_cache_header 16 (words_header [1, 2, 3, 4, 5, 6, 7, 8]) sample_ddr = Some d'
    \<and> ddr_read_weight_cache_header 16 d' = Some (words_header [1, 2, 3, 4, 5, 6, 7, 8]) \<and> dm_bytes d' ! 15 = 15"
proof -
  let ?h = "words_header [1, 2, 3, 4, 5, 6, 7, 8]"
  have "ddr_ptr 16 32 sample_ddr = Some 16"
    using ddr_range_fits_value[OF sample_ddr_ok(1), of 16 32] by (simp add: ddr_ptr_def sample_ddr_ok)
  then obtain d' where d': "ddr_write_weight_cache_header 16 ?h sample_ddr = Some d'"
    by (simp add: ddr_write_weight_cache_header_def)
  note r = header_roundtrip[OF sample_ddr_ok(1) d']
  have "dm_bytes sample_ddr ! 15 = 15" by (simp add: sample_ddr_def)
  then have "dm_bytes d' ! 15 = 15" using r by simp
  then show ?thesis using d' r by blast
qed

text \<open>
  Both ways of reading an SPU row agree, wherever the window is mapped: the row id is the
  low half of word 0 and the accumulator the signed 64-bit number in bits 16 to 79.
\<close>

theorem spu_row_exact:
  assumes "ddr_ok d" and "dm_mapped d" and "off AND 3 = 0" and "unat off + 16 \<le> length (dm_bytes d)"
    and "load_words (unat off) 3 (dm_bytes d) = [w0, w1, w2]"
  shows "ddr_read_spu_q16_row off trace d
    = Some (ucast w0, sint (ucast (drop_bit 16 w0) OR push_bit 16 (ucast w1) OR push_bit 48 (ucast w2) :: u64))"
proof -
  have w: "load32 (unat off) (dm_bytes d) = w0" "load32 (unat off + 4) (dm_bytes d) = w1" "load32 (unat off + 8) (dm_bytes d) = w2"
    using assms(5) by (simp_all add: load_words_def numeral_3_eq_3)
  have ptr: "ddr_ptr off 16 d = Some (unat off)"
    using assms(2,4) ddr_range_fits_value[OF assms(1), of off 16] by (simp add: ddr_ptr_def)
  note rd = spu_low_row spu_narrow_row spu_wide_accum spu_narrow_accum
  show ?thesis
    unfolding ddr_read_spu_q16_row_def ptr load64_def w Let_def using assms(3) by (simp only: bind.bind_lunit w rd Let_def if_cancel) simp
qed

definition sample_row_ddr :: ddr_map where
  "sample_row_ddr = \<lparr>dm_mapped = True, dm_base = 0x7f0000000000,
     dm_bytes = [5, 0, 0xfe, 0xff, 0xff, 0xff, 0xff, 0xff, 0xff, 0xff, 0xad, 0xde, 0, 0, 0, 0]\<rparr>"

lemma spu_row_exact_witness: "ddr_read_spu_q16_row 0 False sample_row_ddr = Some (5, - 2)"
proof -
  have "ddr_read_spu_q16_row 0 False sample_row_ddr = Some (ucast (0xfffe0005 :: u32),
      sint (ucast (drop_bit 16 (0xfffe0005 :: u32)) OR push_bit 16 (ucast (0xffffffff :: u32)) OR push_bit 48 (ucast (0xdeadffff :: u32)) :: u64))"
    by (rule spu_row_exact) (simp_all add: sample_row_ddr_def ddr_ok_def load_words_def load32_def pack_i8x4_le_def numeral_3_eq_3)
  then show ?thesis by simp
qed

subsection \<open>Checked sizes\<close>

lemma unat_less_64: "unat x < 18446744073709551616" for x :: u64
proof -
  have "unat x < 2 ^ LENGTH(64)" by (rule unsigned_less)
  then show ?thesis by simp
qed

lemma checked_size_add_value: "checked_size_add a b = Some c \<longleftrightarrow> unat a + unat b < 2 ^ 64 \<and> c = a + b"
proof -
  have "b \<le> SIZE_MAX" using unat_less_64[of b] by (simp add: word_le_nat_alt)
  then have "unat (SIZE_MAX - b) = 18446744073709551615 - unat b" by (simp add: unat_sub)
  then show ?thesis using unat_less_64[of b] by (auto simp: checked_size_add_def word_less_nat_alt)
qed

lemma checked_size_mul_value: "checked_size_mul a b = Some c \<longleftrightarrow> unat a * unat b < 2 ^ 64 \<and> c = a * b"
proof (cases "a = 0")
  case False
  then have pos: "0 < unat a" by (simp add: unat_gt_0)
  have "SIZE_MAX div a < b \<longleftrightarrow> 18446744073709551615 div unat a < unat b"
    by (simp add: word_less_nat_alt unat_div)
  also have "\<dots> \<longleftrightarrow> 18446744073709551615 < unat b * unat a"
    using pos by (rule div_less_iff_less_mult)
  finally show ?thesis using False by (auto simp: checked_size_mul_def mult.commute)
qed (auto simp: checked_size_mul_def)

text \<open>The total bytes a strided access of \<open>dim0\<close> by \<open>dim1\<close> elements spans.\<close>

definition access_span :: "nat \<Rightarrow> nat \<Rightarrow> nat \<Rightarrow> nat \<Rightarrow> nat \<Rightarrow> nat" where
  "access_span nb0 nb1 dim0 dim1 eb = (dim0 - 1) * nb0 + (dim1 - 1) * nb1 + eb"

lemma access_range_value:
  assumes "fpga_tensor_access_range data nb0 nb1 dim0 dim1 eb = Some r" and "dim0 < 2 ^ 63" and "dim1 < 2 ^ 63"
  defines "span \<equiv> access_span (unat nb0) (unat nb1) (nat dim0) (nat dim1) (unat eb)"
  shows "0 < dim0 \<and> 0 < dim1 \<and> unat (ar_begin r) = unat data \<and> unat (ar_end r) = unat data + span \<and> unat (ar_bytes r) = span"
proof -
  have d: "0 < dim0" "0 < dim1" using assms(1) by (auto simp: fpga_tensor_access_range_def split: if_splits)
  let ?d0 = "size_of_int (dim0 - 1)" and ?d1 = "size_of_int (dim1 - 1)"
  have "unat (size_of_int (x - 1)) = nat x - 1" if "0 < x" "x < 2 ^ 63" for x
  proof -
    have "unat (size_of_int (x - 1)) = nat (x - 1)" by (rule unat_size_of_int) (use that in simp_all)
    then show ?thesis using that(1) by (simp only: nat_diff_distrib)
  qed
  then have u: "unat ?d0 = nat dim0 - 1" "unat ?d1 = nat dim1 - 1" using d assms(2,3) by blast+
  obtain o0 o1 l q where s: "checked_size_mul ?d0 nb0 = Some o0" "checked_size_mul ?d1 nb1 = Some o1"
    "checked_size_add o0 o1 = Some l" "checked_size_add l eb = Some q" "\<not> data > SIZE_MAX - q"
    "r = \<lparr>ar_begin = data, ar_end = data + q, ar_bytes = q\<rparr>"
    using assms(1) by (auto simp: fpga_tensor_access_range_def bind_eq_Some_conv split: if_splits)
  have "unat o0 = (nat dim0 - 1) * unat nb0" "unat o1 = (nat dim1 - 1) * unat nb1"
    using s(1,2) u by (auto simp: checked_size_mul_value unat_mult_no_overflow)
  moreover have "unat l = unat o0 + unat o1" "unat q = unat l + unat eb"
    using s(3,4) by (auto simp: checked_size_add_value unat_add_no_overflow)
  ultimately have q: "unat q = span" by (simp add: span_def access_span_def)
  have "checked_size_add data q = Some (data + q)" using s(5) by (simp add: checked_size_add_def)
  then have "unat (data + q) = unat data + unat q" by (auto simp: checked_size_add_value unat_add_no_overflow)
  then show ?thesis using d q s(6) by simp
qed

definition element_at :: "u64 \<Rightarrow> u64 \<Rightarrow> u64 \<Rightarrow> nat \<Rightarrow> nat \<Rightarrow> nat" where
  "element_at data nb0 nb1 i j = unat data + i * unat nb0 + j * unat nb1"

text \<open>
  Two tensors whose access ranges are accepted and do not overlap never share a byte:
  the bytes of an element of one and of an element of the other have different addresses, and neither
  access wraps around the address space.
\<close>

theorem access_ranges_disjoint:
  assumes r: "fpga_tensor_access_range data nb0 nb1 dim0 dim1 eb = Some r" "dim0 < 2 ^ 63" "dim1 < 2 ^ 63"
    and r': "fpga_tensor_access_range data' nb0' nb1' dim0' dim1' eb' = Some r'" "dim0' < 2 ^ 63" "dim1' < 2 ^ 63"
    and apart: "\<not> fpga_tensor_ranges_overlap r r'"
    and i: "i < nat dim0" "j < nat dim1" "x < unat eb" and i': "i' < nat dim0'" "j' < nat dim1'" "x' < unat eb'"
  shows "element_at data nb0 nb1 i j + x \<noteq> element_at data' nb0' nb1' i' j' + x'
    \<and> element_at data nb0 nb1 i j + x < 2 ^ 64"
proof -
  have inside: "unat (ar_begin r) \<le> element_at data nb0 nb1 i j \<and> element_at data nb0 nb1 i j + x < unat (ar_end r)"
    if "fpga_tensor_access_range data nb0 nb1 dim0 dim1 eb = Some r" "dim0 < 2 ^ 63" "dim1 < 2 ^ 63"
      "i < nat dim0" "j < nat dim1" "x < unat eb"
    for data nb0 nb1 dim0 dim1 eb r i j x
  proof -
    have p: "i * unat nb0 \<le> (nat dim0 - 1) * unat nb0" "j * unat nb1 \<le> (nat dim1 - 1) * unat nb1"
      using that(4,5) by (intro mult_le_mono1; simp)+
    note v = access_range_value[OF that(1-3), unfolded access_span_def]
    show ?thesis unfolding element_at_def using p v that(6) by linarith
  qed
  note a = inside[OF r i] and b = inside[OF r' i']
  have "unat (ar_end r') \<le> unat (ar_begin r) \<or> unat (ar_end r) \<le> unat (ar_begin r')"
    using apart by (auto simp: fpga_tensor_ranges_overlap_def word_less_nat_alt)
  then have "element_at data nb0 nb1 i j + x \<noteq> element_at data' nb0' nb1' i' j' + x'" using a b by linarith
  moreover have "element_at data nb0 nb1 i j + x < 2 ^ 64" using a unat_less_64[of "ar_end r"] by simp
  ultimately show ?thesis by blast
qed

lemma access_ranges_disjoint_witness: "element_at 0x1000 4 16 3 1 + 3 \<noteq> element_at 0x1020 4 16 0 0 + 0 \<and> element_at 0x1000 4 16 3 1 + 3 < 2 ^ 64"
  by (rule access_ranges_disjoint[of _ 4 16 4 2 4 "\<lparr>ar_begin = 0x1000, ar_end = 0x1020, ar_bytes = 0x20\<rparr>" _ 4 16 4 1 4 "\<lparr>ar_begin = 0x1020, ar_end = 0x1030, ar_bytes = 0x10\<rparr>"])
    (simp_all add: fpga_tensor_access_range_def checked_size_mul_def checked_size_add_def fpga_tensor_ranges_overlap_def)

lemma and_15: "unat x = 16 * k \<Longrightarrow> x AND 15 = 0" for x :: u64
proof -
  assume x: "unat x = 16 * k"
  have "x AND 15 = take_bit 4 x" by (simp add: take_bit_eq_mask mask_eq_exp_minus_1)
  moreover have "unat (take_bit 4 x) = 0" unfolding unsigned_take_bit_eq by (simp add: take_bit_eq_mod x)
  ultimately show ?thesis by (simp add: unat_eq_0)
qed

text \<open>
  The scale shape of a job is accepted exactly when rows and blocks are positive, their
  product fits 32 bits, the offset is 16-byte aligned and the job's own counts are the number of
  scale pairs, of 128-bit words of four pairs and of their bytes; at most three entries pad the last word.
\<close>

theorem scale_shape_exact:
  assumes "rows \<le> INT_MAX" and "gb \<le> INT_MAX"
  defines "n \<equiv> nat rows * nat gb"
  shows "fpga_p2_checked_scale_shape rows gb values words bytes off = Some s \<longleftrightarrow>
    0 < rows \<and> 0 < gb \<and> off AND 15 = 0 \<and> n < 2 ^ 32 \<and> unat values = n
    \<and> unat words = (n + 3) div 4 \<and> unat bytes = 16 * ((n + 3) div 4)
    \<and> s = \<lparr>ss_entries = of_nat n, ss_words = of_nat ((n + 3) div 4), ss_bytes = of_nat (16 * ((n + 3) div 4)),
         ss_tail_entries = of_nat (4 * ((n + 3) div 4) - n)\<rparr>"
proof (cases "0 < rows \<and> 0 < gb \<and> off AND 15 = 0")
  case False
  then show ?thesis by (auto simp: fpga_p2_checked_scale_shape_def)
next
  case True
  have u: "unat (size_of_int rows) = nat rows" "unat (size_of_int gb) = nat gb"
    using True assms(1,2) by (simp_all add: unat_size_of_int)
  have n64: "n < 2 ^ 64"
  proof -
    have "nat rows \<le> 2147483647" "nat gb \<le> 2147483647" using assms(1,2) by simp_all
    then have "n \<le> 2147483647 * 2147483647" unfolding n_def by (rule mult_le_mono)
    then show ?thesis by simp
  qed
  have npos: "0 < n" using True by (simp add: n_def)
  let ?e = "size_of_int rows * size_of_int gb"
  have e: "unat ?e = n" using n64 by (simp add: unat_mult_no_overflow u n_def)
  have mul: "checked_size_mul (size_of_int gb) (size_of_int rows) = Some ?e"
    using n64 by (simp add: checked_size_mul_value u n_def mult.commute)
  have gb0: "size_of_int gb \<noteq> 0" using True u(2) by (metis nat_0_iff not_le unat_0)
  have nowrap: "\<not> size_of_int rows > SIZE_MAX div size_of_int gb"
    using mul gb0 by (auto simp: checked_size_mul_def split: if_splits)
  have e_eq: "?e = of_nat n"
    using n64 by (simp only: word_unat_eq_iff e unsigned_of_nat) (simp add: take_bit_nat_eq_self)
  show ?thesis
  proof (cases "n < 2 ^ 32")
    case False
    then have "?e > 4294967295" by (simp add: word_less_nat_alt e)
    then show ?thesis using True False nowrap by (simp add: fpga_p2_checked_scale_shape_def Let_def)
  next
    case n32: True
    let ?w = "(?e + 3) div 4"
    have "unat (?e + 3) = n + 3" using n32 e by (subst unat_add_no_overflow) simp_all
    then have w: "unat ?w = (n + 3) div 4" by (simp add: unat_div)
    have wn: "(n + 3) div 4 < 2 ^ 31" "0 < (n + 3) div 4" using n32 npos by auto
    have w16: "unat (?w * 16) = 16 * ((n + 3) div 4)" using w wn by (subst unat_mult_no_overflow) simp_all
    have w4: "unat (?w * 4) = 4 * ((n + 3) div 4)" using w wn by (subst unat_mult_no_overflow) simp_all
    have ge: "n \<le> 4 * ((n + 3) div 4)" "4 * ((n + 3) div 4) - n \<le> 3" by presburger+
    then have t: "unat (?w * 4 - ?e) = 4 * ((n + 3) div 4) - n" using w4 e by (simp add: unat_sub word_le_nat_alt)
    have guards: "\<not> ?e > 4294967295" "\<not> ?e > SIZE_MAX - 3" "?w \<noteq> 0" "\<not> ?w > 4294967295" "\<not> ?w > SIZE_MAX div 16"
      "\<not> ?w > SIZE_MAX div 4" "\<not> ?w * 4 - ?e > 3"
      using n32 wn ge(2) by (simp_all only: word_less_nat_alt e w t word_unat_eq_iff) simp_all
    have low: "?w * 16 AND 15 = 0" by (rule and_15) (rule w16)
    have eqs: "values = ucast ?e \<longleftrightarrow> unat values = n" "words = ucast ?w \<longleftrightarrow> unat words = (n + 3) div 4"
      "bytes = ?w * 16 \<longleftrightarrow> unat bytes = 16 * ((n + 3) div 4)"
      using n32 wn by (simp_all only: word_unat_eq_iff unat_ucast_mod e w w16) simp_all
    have nats: "?w = of_nat ((n + 3) div 4)" "?w * 16 = of_nat (16 * ((n + 3) div 4))"
      "?w * 4 - ?e = of_nat (4 * ((n + 3) div 4) - n)"
      using wn ge by (simp_all only: word_unat_eq_iff w w16 t unsigned_of_nat) (simp_all add: take_bit_nat_eq_self)
    have nonpos: "\<not> rows \<le> 0" "\<not> gb \<le> 0" using True by simp_all
    have step: "?e + 4 - 1 = ?e + 3" "(4 :: u64) - 1 = 3" by simp_all
    have run: "fpga_p2_checked_scale_shape rows gb values words bytes off =
      (if values \<noteq> ucast ?e \<or> words \<noteq> ucast ?w \<or> bytes \<noteq> ?w * 16 then None
       else Some \<lparr>ss_entries = ?e, ss_words = ?w, ss_bytes = ?w * 16, ss_tail_entries = ?w * 4 - ?e\<rparr>)"
      unfolding fpga_p2_checked_scale_shape_def Let_def step
      using True nowrap guards low nonpos by (simp only: if_False if_True simp_thms)
    have rec: "\<lparr>ss_entries = of_nat n, ss_words = of_nat ((n + 3) div 4), ss_bytes = of_nat (16 * ((n + 3) div 4)),
         ss_tail_entries = of_nat (4 * ((n + 3) div 4) - n)\<rparr>
      = \<lparr>ss_entries = ?e, ss_words = ?w, ss_bytes = ?w * 16, ss_tail_entries = ?w * 4 - ?e\<rparr>"
      by (simp only: nats[symmetric] e_eq[symmetric])
    show ?thesis unfolding run eqs rec using True n32 by (auto split: if_splits)
  qed
qed

lemma scale_shape_exact_witness:
  "fpga_p2_checked_scale_shape 3 2 6 2 32 0x380000
    = Some \<lparr>ss_entries = 6, ss_words = 2, ss_bytes = 32, ss_tail_entries = 2\<rparr>"
  using scale_shape_exact[of 3 2 6 2 32 "0x380000" "\<lparr>ss_entries = 6, ss_words = 2, ss_bytes = 32, ss_tail_entries = 2\<rparr>"]
  by simp

end
