(* ===== verification/Fpga_Device.thy ===== *)
theory Fpga_Device
  imports Q8_Pack
begin

text \<open>
  The register interface of the accelerator (\<^verbatim>\<open>ggml/src/ggml-cpu/fpga_host.cpp\<close>): job ids, slot
  states, bank selection, the tile descriptor and the checks that read it back. The registers are a
  map from offsets to words; what the device does to them is the parameter \<open>hw\<close>, applied at each
  fence, so a faithful device is \<open>hw = id\<close> on the descriptor and a faulty one anything else. Breadcrumb
  and error logging has no counterpart.
\<close>

subsection \<open>Registers\<close>

abbreviation (input) REG_BANK :: u32 where "REG_BANK \<equiv> 0x100"
abbreviation (input) REG_JOB_ID :: u32 where "REG_JOB_ID \<equiv> 0x110"
abbreviation (input) REG_BANK_STAT :: u32 where "REG_BANK_STAT \<equiv> 0x120"
abbreviation (input) REG_DONE_JOB :: u32 where "REG_DONE_JOB \<equiv> 0x140"
abbreviation (input) REG_SLOT_STATE :: u32 where "REG_SLOT_STATE \<equiv> 0x150"
abbreviation (input) REG_TENSOR_ID :: u32 where "REG_TENSOR_ID \<equiv> 0x160"
abbreviation (input) REG_ROW0 :: u32 where "REG_ROW0 \<equiv> 0x170"
abbreviation (input) REG_K_BLOCK0 :: u32 where "REG_K_BLOCK0 \<equiv> 0x180"
abbreviation (input) REG_GROUP_BLOCKS :: u32 where "REG_GROUP_BLOCKS \<equiv> 0x190"
abbreviation (input) REG_TOKEN_ID :: u32 where "REG_TOKEN_ID \<equiv> 0x1A0"
abbreviation (input) REG_DESC_FLAGS :: u32 where "REG_DESC_FLAGS \<equiv> 0x1B0"
abbreviation (input) STATUS_BUSY :: u32 where "STATUS_BUSY \<equiv> 2"
abbreviation (input) BANK_STAT_BUSY :: u32 where "BANK_STAT_BUSY \<equiv> 0x10000"

datatype slot_state = SLOT_FREE | SLOT_CPU_PACKING | SLOT_DMA_FILLING | SLOT_READY | SLOT_COMPUTING
  | SLOT_RESULT_READY | SLOT_DMA_DRAINING | SLOT_HOST_CONSUMING

fun slot_state_code :: "slot_state \<Rightarrow> u32" where
  "slot_state_code SLOT_FREE = 0"
| "slot_state_code SLOT_CPU_PACKING = 1"
| "slot_state_code SLOT_DMA_FILLING = 2"
| "slot_state_code SLOT_READY = 3"
| "slot_state_code SLOT_COMPUTING = 4"
| "slot_state_code SLOT_RESULT_READY = 5"
| "slot_state_code SLOT_DMA_DRAINING = 6"
| "slot_state_code SLOT_HOST_CONSUMING = 7"

text \<open>A tensor: its address, data pointer, type, sizes and strides, as the words they are compared as.\<close>

record tensor =
  gt_ptr :: u64
  gt_data :: u64
  gt_type :: u64
  gt_ne :: "u64 list"
  gt_nb :: "u64 list"

text \<open>The part of \<open>fpga_tile_job_t\<close> that identifies a tile; timing and diagnostic fields are left out.\<close>

record tile_job =
  tj_bank :: int
  tj_job_id :: u32
  tj_tensor_id :: u32
  tj_row0 :: int
  tj_rows :: int
  tj_k_block0 :: int
  tj_group_blocks :: int
  tj_group_beats :: int
  tj_weight_bytes :: u64
  tj_weight_src_off :: u32
  tj_p2_residency_hit :: bool
  tj_p2_residency_slot :: u32
  tj_p2_residency_epoch :: u64
  tj_p2_residency_seal :: u32
  tj_src0 :: tensor

record device =
  dv_regs :: "u32 \<Rightarrow> u32"
  dv_next_job_id :: u32
  dv_pingpong_supported :: bool
  dv_descriptor_supported :: bool
  dv_p2_init_requested :: bool
  dv_boundary_diagnostics :: bool
  dv_seq_pos :: int

subsection \<open>Operations\<close>

definition vpu_rd32 :: "u32 \<Rightarrow> device \<Rightarrow> u32" where
  "vpu_rd32 off dv = dv_regs dv off"

definition vpu_wr32 :: "u32 \<Rightarrow> u32 \<Rightarrow> device \<Rightarrow> device" where
  "vpu_wr32 off val dv = dv\<lparr>dv_regs := (dv_regs dv)(off := val)\<rparr>"

definition mmio_fence :: "((u32 \<Rightarrow> u32) \<Rightarrow> u32 \<Rightarrow> u32) \<Rightarrow> device \<Rightarrow> device" where
  "mmio_fence hw dv = dv\<lparr>dv_regs := hw (dv_regs dv)\<rparr>"

definition fpga_next_job_id :: "device \<Rightarrow> u32 \<times> device" where
  "fpga_next_job_id dv =
     (let job = dv_next_job_id dv; dv = dv\<lparr>dv_next_job_id := job + 1\<rparr> in
      if job = 0 then let job = dv_next_job_id dv in (job, dv\<lparr>dv_next_job_id := job + 1\<rparr>) else (job, dv))"

definition fpga_tensor_id_from_ptr :: "u64 \<Rightarrow> u32" where
  "fpga_tensor_id_from_ptr ptr =
     (let v = ptr; v = v XOR drop_bit 32 v; v = v XOR drop_bit 16 v in ucast v)"

definition fpga_slot_state_word :: "int \<Rightarrow> slot_state \<Rightarrow> slot_state \<Rightarrow> u32" where
  "fpga_slot_state_word bank input_state output_state =
     (let b = nat (bank AND 1) in
      push_bit (4 * b) (slot_state_code input_state) OR push_bit (16 + 4 * b) (slot_state_code output_state))"

definition vpu_select_banks :: "int \<Rightarrow> int \<Rightarrow> device \<Rightarrow> device" where
  "vpu_select_banks wr_bank rd_bank dv =
     (if \<not> dv_pingpong_supported dv then dv
      else vpu_wr32 REG_BANK (word_of_int (wr_bank AND 1) OR push_bit 1 (word_of_int (rd_bank AND 1))) dv)"

definition vpu_write_tile_descriptor :: "tile_job \<Rightarrow> slot_state \<Rightarrow> slot_state \<Rightarrow> u32 \<Rightarrow> device \<Rightarrow> device" where
  "vpu_write_tile_descriptor job input_state output_state flags dv =
     (if \<not> dv_descriptor_supported dv then dv
      else vpu_wr32 REG_DESC_FLAGS flags
        (vpu_wr32 REG_TOKEN_ID (word_of_int (dv_seq_pos dv))
        (vpu_wr32 REG_GROUP_BLOCKS (word_of_int (tj_group_blocks job))
        (vpu_wr32 REG_K_BLOCK0 (word_of_int (tj_k_block0 job))
        (vpu_wr32 REG_ROW0 (word_of_int (tj_row0 job))
        (vpu_wr32 REG_TENSOR_ID (tj_tensor_id job)
        (vpu_wr32 REG_SLOT_STATE (fpga_slot_state_word (tj_bank job) input_state output_state)
        (vpu_wr32 REG_JOB_ID (tj_job_id job) dv))))))))"

definition post_spu_descriptor_write_word :: "((u32 \<Rightarrow> u32) \<Rightarrow> u32 \<Rightarrow> u32) \<Rightarrow> u32 \<Rightarrow> u32 \<Rightarrow> device \<Rightarrow> device" where
  "post_spu_descriptor_write_word hw off val dv = mmio_fence hw (vpu_wr32 off val dv)"

record descriptor_words =
  dw_bank :: u32
  dw_bank_stat :: u32
  dw_job_id :: u32
  dw_slot_state :: u32
  dw_tensor_id :: u32
  dw_row0 :: u32
  dw_k_block0 :: u32
  dw_group_blocks :: u32
  dw_token_id :: u32
  dw_desc_flags :: u32

definition read_descriptor :: "device \<Rightarrow> descriptor_words" where
  "read_descriptor dv = \<lparr>dw_bank = vpu_rd32 REG_BANK dv, dw_bank_stat = vpu_rd32 REG_BANK_STAT dv,
     dw_job_id = vpu_rd32 REG_JOB_ID dv, dw_slot_state = vpu_rd32 REG_SLOT_STATE dv,
     dw_tensor_id = vpu_rd32 REG_TENSOR_ID dv, dw_row0 = vpu_rd32 REG_ROW0 dv,
     dw_k_block0 = vpu_rd32 REG_K_BLOCK0 dv, dw_group_blocks = vpu_rd32 REG_GROUP_BLOCKS dv,
     dw_token_id = vpu_rd32 REG_TOKEN_ID dv, dw_desc_flags = vpu_rd32 REG_DESC_FLAGS dv\<rparr>"

definition expected_bank_word :: "int \<Rightarrow> u32" where
  "expected_bank_word bank = (let b = word_of_int (bank AND 1) in b OR push_bit 1 b)"

definition expected_descriptor :: "tile_job \<Rightarrow> slot_state \<Rightarrow> slot_state \<Rightarrow> u32 \<Rightarrow> device \<Rightarrow> descriptor_words" where
  "expected_descriptor job input_state output_state flags dv = \<lparr>dw_bank = expected_bank_word (tj_bank job),
     dw_bank_stat = expected_bank_word (tj_bank job), dw_job_id = tj_job_id job,
     dw_slot_state = fpga_slot_state_word (tj_bank job) input_state output_state, dw_tensor_id = tj_tensor_id job,
     dw_row0 = word_of_int (tj_row0 job), dw_k_block0 = word_of_int (tj_k_block0 job),
     dw_group_blocks = word_of_int (tj_group_blocks job), dw_token_id = word_of_int (dv_seq_pos dv),
     dw_desc_flags = flags\<rparr>"

definition descriptor_matches :: "descriptor_words \<Rightarrow> descriptor_words \<Rightarrow> bool" where
  "descriptor_matches actual expected \<longleftrightarrow>
     dw_bank actual AND 3 = dw_bank expected \<and> dw_bank_stat actual AND 3 = dw_bank_stat expected
     \<and> dw_job_id actual = dw_job_id expected \<and> dw_slot_state actual = dw_slot_state expected
     \<and> dw_tensor_id actual = dw_tensor_id expected \<and> dw_row0 actual = dw_row0 expected
     \<and> dw_k_block0 actual = dw_k_block0 expected \<and> dw_group_blocks actual = dw_group_blocks expected
     \<and> dw_token_id actual = dw_token_id expected \<and> dw_desc_flags actual = dw_desc_flags expected"

definition fpga_write_post_spu_descriptor ::
    "((u32 \<Rightarrow> u32) \<Rightarrow> u32 \<Rightarrow> u32) \<Rightarrow> tile_job \<Rightarrow> slot_state \<Rightarrow> slot_state \<Rightarrow> u32 \<Rightarrow> bool \<Rightarrow> bool \<Rightarrow> device \<Rightarrow> bool \<times> device" where
  "fpga_write_post_spu_descriptor hw job input_state output_state flags final_free_free force_readback dv =
     (if \<not> dv_descriptor_supported dv then (True, dv)
      else if \<not> dv_boundary_diagnostics dv \<and> \<not> (final_free_free \<and> force_readback)
      then (True, vpu_write_tile_descriptor job input_state output_state flags dv)
      else let dv = fold (\<lambda>(off, val). post_spu_descriptor_write_word hw off val)
               [(REG_JOB_ID, tj_job_id job), (REG_SLOT_STATE, fpga_slot_state_word (tj_bank job) input_state output_state),
                (REG_TENSOR_ID, tj_tensor_id job), (REG_ROW0, word_of_int (tj_row0 job)),
                (REG_K_BLOCK0, word_of_int (tj_k_block0 job)), (REG_GROUP_BLOCKS, word_of_int (tj_group_blocks job)),
                (REG_TOKEN_ID, word_of_int (dv_seq_pos dv)), (REG_DESC_FLAGS, flags)] dv
        in if \<not> final_free_free then (True, dv)
           else let dv = mmio_fence hw dv in
             (descriptor_matches (read_descriptor dv) (expected_descriptor job input_state output_state flags dv), dv))"

definition fpga_commit_p2_dma_filling_descriptor :: "((u32 \<Rightarrow> u32) \<Rightarrow> u32 \<Rightarrow> u32) \<Rightarrow> tile_job \<Rightarrow> device \<Rightarrow> bool \<times> device" where
  "fpga_commit_p2_dma_filling_descriptor hw job dv =
     (if \<not> dv_p2_init_requested dv then (True, dv)
      else let expected = expected_descriptor job SLOT_DMA_FILLING SLOT_FREE 0x101 dv; dv = mmio_fence hw dv in
        (descriptor_matches (read_descriptor dv) expected, dv))"

definition vpu_verify_done_job :: "tile_job \<Rightarrow> device \<Rightarrow> bool" where
  "vpu_verify_done_job job dv =
     (if \<not> dv_pingpong_supported dv then True
      else let bank_stat = vpu_rd32 REG_BANK_STAT dv;
               done_job = (if dv_descriptor_supported dv then vpu_rd32 REG_DONE_JOB dv else tj_job_id job);
               done_bank = uint (drop_bit 9 bank_stat AND 1)
        in if done_bank \<noteq> tj_bank job AND 1 then False
           else if dv_descriptor_supported dv \<and> done_job \<noteq> tj_job_id job then False
           else True)"

subsection \<open>Properties\<close>

lemma bank_bit: "bank AND 1 = 0 \<or> bank AND 1 = (1 :: int)"
  by (simp add: and_one_eq) presburger

lemma bank_words:
  "expected_bank_word b = expected_bank_word b' \<longleftrightarrow> b AND 1 = b' AND 1"
  "expected_bank_word b AND 3 = expected_bank_word b"
  using bank_bit[of b] bank_bit[of b'] by (auto simp: expected_bank_word_def Let_def)

text \<open>A device that keeps what is written to its descriptor and reports the selected banks.\<close>

definition faithful_device :: "((u32 \<Rightarrow> u32) \<Rightarrow> u32 \<Rightarrow> u32) \<Rightarrow> bool" where
  "faithful_device hw \<longleftrightarrow> (\<forall>r. \<forall>off \<in> {REG_BANK, REG_JOB_ID, REG_SLOT_STATE, REG_TENSOR_ID, REG_ROW0, REG_K_BLOCK0,
     REG_GROUP_BLOCKS, REG_TOKEN_ID, REG_DESC_FLAGS}. hw r off = r off) \<and> (\<forall>r. hw r REG_BANK_STAT AND 3 = r REG_BANK AND 3)"

text \<open>
  On a device that keeps its descriptor registers, the read-back check that precedes the
  input DMA accepts the tile whose descriptor was written, and of all other jobs only those with the
  same bank, job, tensor, row, block and block count.
\<close>

theorem commit_accepts_owner:
  assumes "faithful_device hw" and "dv_p2_init_requested dv" "dv_descriptor_supported dv" "dv_pingpong_supported dv"
  shows "fst (fpga_commit_p2_dma_filling_descriptor hw job'
      (vpu_write_tile_descriptor job SLOT_DMA_FILLING SLOT_FREE 0x101 (vpu_select_banks (tj_bank job) (tj_bank job) dv)))
    \<longleftrightarrow> tj_bank job' AND 1 = tj_bank job AND 1 \<and> tj_job_id job' = tj_job_id job \<and> tj_tensor_id job' = tj_tensor_id job
      \<and> (word_of_int (tj_row0 job') :: u32) = word_of_int (tj_row0 job)
      \<and> (word_of_int (tj_k_block0 job') :: u32) = word_of_int (tj_k_block0 job)
      \<and> (word_of_int (tj_group_blocks job') :: u32) = word_of_int (tj_group_blocks job)"
proof -
  let ?dv = "vpu_write_tile_descriptor job SLOT_DMA_FILLING SLOT_FREE 0x101 (vpu_select_banks (tj_bank job) (tj_bank job) dv)"
  let ?a = "read_descriptor (mmio_fence hw ?dv)"
  have keep: "hw r REG_BANK = r REG_BANK" "hw r REG_JOB_ID = r REG_JOB_ID" "hw r REG_SLOT_STATE = r REG_SLOT_STATE"
    "hw r REG_TENSOR_ID = r REG_TENSOR_ID" "hw r REG_ROW0 = r REG_ROW0" "hw r REG_K_BLOCK0 = r REG_K_BLOCK0"
    "hw r REG_GROUP_BLOCKS = r REG_GROUP_BLOCKS" "hw r REG_TOKEN_ID = r REG_TOKEN_ID" "hw r REG_DESC_FLAGS = r REG_DESC_FLAGS"
    "hw r REG_BANK_STAT AND 3 = r REG_BANK AND 3" for r
    using assms(1) by (simp_all add: faithful_device_def)
  have bank: "dv_regs ?dv REG_BANK = expected_bank_word (tj_bank job)"
    using assms(3,4) by (simp add: vpu_write_tile_descriptor_def vpu_select_banks_def vpu_wr32_def expected_bank_word_def Let_def)
  have regs: "dw_bank ?a AND 3 = expected_bank_word (tj_bank job)" "dw_bank_stat ?a AND 3 = expected_bank_word (tj_bank job)"
    by (simp_all add: read_descriptor_def vpu_rd32_def mmio_fence_def keep bank bank_words(2))
  have fields: "dw_job_id ?a = tj_job_id job" "dw_slot_state ?a = fpga_slot_state_word (tj_bank job) SLOT_DMA_FILLING SLOT_FREE"
    "dw_tensor_id ?a = tj_tensor_id job" "dw_row0 ?a = word_of_int (tj_row0 job)" "dw_k_block0 ?a = word_of_int (tj_k_block0 job)"
    "dw_group_blocks ?a = word_of_int (tj_group_blocks job)" "dw_token_id ?a = word_of_int (dv_seq_pos dv)" "dw_desc_flags ?a = 0x101"
    using assms(3) by (simp_all add: read_descriptor_def vpu_rd32_def mmio_fence_def keep vpu_write_tile_descriptor_def
      vpu_select_banks_def vpu_wr32_def)
  have p2: "dv_p2_init_requested ?dv" "dv_seq_pos ?dv = dv_seq_pos dv"
    using assms(2) by (simp_all add: vpu_write_tile_descriptor_def vpu_select_banks_def vpu_wr32_def)
  have slot: "tj_bank job' AND 1 = tj_bank job AND 1 \<Longrightarrow>
      fpga_slot_state_word (tj_bank job') s t = fpga_slot_state_word (tj_bank job) s t" for s t
    by (simp add: fpga_slot_state_word_def)
  have "fst (fpga_commit_p2_dma_filling_descriptor hw job' ?dv)
      \<longleftrightarrow> descriptor_matches ?a (expected_descriptor job' SLOT_DMA_FILLING SLOT_FREE 0x101 ?dv)"
    using p2(1) by (simp add: fpga_commit_p2_dma_filling_descriptor_def Let_def)
  then have fst_iff: "fst (fpga_commit_p2_dma_filling_descriptor hw job' ?dv) \<longleftrightarrow> tj_bank job AND 1 = tj_bank job' AND 1
      \<and> tj_job_id job = tj_job_id job' \<and> fpga_slot_state_word (tj_bank job) SLOT_DMA_FILLING SLOT_FREE
          = fpga_slot_state_word (tj_bank job') SLOT_DMA_FILLING SLOT_FREE
      \<and> tj_tensor_id job = tj_tensor_id job' \<and> (word_of_int (tj_row0 job) :: u32) = word_of_int (tj_row0 job')
      \<and> (word_of_int (tj_k_block0 job) :: u32) = word_of_int (tj_k_block0 job')
      \<and> (word_of_int (tj_group_blocks job) :: u32) = word_of_int (tj_group_blocks job')"
    unfolding descriptor_matches_def regs fields expected_descriptor_def descriptor_words.simps p2(2) bank_words(1) by blast
  show ?thesis
  proof (cases "tj_bank job' AND 1 = tj_bank job AND 1")
    case True
    show ?thesis unfolding fst_iff slot[OF True] True by (simp only: eq_commute simp_thms)
  next
    case False
    then show ?thesis unfolding fst_iff by (metis False)
  qed
qed

definition sample_device :: device where
  "sample_device = \<lparr>dv_regs = (\<lambda>_. 0), dv_next_job_id = 1, dv_pingpong_supported = True, dv_descriptor_supported = True,
     dv_p2_init_requested = True, dv_boundary_diagnostics = False, dv_seq_pos = 3\<rparr>"

definition sample_job :: tile_job where
  "sample_job = \<lparr>tj_bank = 1, tj_job_id = 7, tj_tensor_id = 99, tj_row0 = 256, tj_rows = 16, tj_k_block0 = 0, tj_group_blocks = 4,
     tj_group_beats = 8, tj_weight_bytes = 2048, tj_weight_src_off = 0x100000, tj_p2_residency_hit = False,
     tj_p2_residency_slot = 0, tj_p2_residency_epoch = 0, tj_p2_residency_seal = 0,
     tj_src0 = \<lparr>gt_ptr = 1, gt_data = 2, gt_type = 8, gt_ne = [], gt_nb = []\<rparr>\<rparr>"

definition mirror_banks :: "(u32 \<Rightarrow> u32) \<Rightarrow> u32 \<Rightarrow> u32" where
  "mirror_banks r = r(REG_BANK_STAT := r REG_BANK)"

lemma commit_accepts_owner_witness:
  "fst (fpga_commit_p2_dma_filling_descriptor mirror_banks sample_job
      (vpu_write_tile_descriptor sample_job SLOT_DMA_FILLING SLOT_FREE 0x101 (vpu_select_banks 1 1 sample_device)))
   \<and> \<not> fst (fpga_commit_p2_dma_filling_descriptor mirror_banks (sample_job\<lparr>tj_job_id := 6\<rparr>)
      (vpu_write_tile_descriptor sample_job SLOT_DMA_FILLING SLOT_FREE 0x101 (vpu_select_banks 1 1 sample_device)))"
proof -
  have f: "faithful_device mirror_banks" by (simp add: faithful_device_def mirror_banks_def)
  have d: "dv_p2_init_requested sample_device" "dv_descriptor_supported sample_device" "dv_pingpong_supported sample_device"
    by (simp_all add: sample_device_def)
  show ?thesis
    using commit_accepts_owner[OF f d, of sample_job sample_job]
      commit_accepts_owner[OF f d, of "sample_job\<lparr>tj_job_id := 6\<rparr>" sample_job]
    by (simp add: sample_job_def)
qed

end
