(* ===== verification/Fpga_Residency.thy ===== *)
theory Fpga_Residency
  imports Fpga_Ddr Fpga_Device
begin

text \<open>
  The directory of weight tiles that stay in the staging DDR
  (\<^verbatim>\<open>ggml/src/ggml-cpu/fpga_host.cpp\<close>, \<open>fpga_p2_residency_*\<close>): 128 slots that are filled once and
  never evicted, an index of 1024 buckets probed at most eight times, and the build of a tile: reserve,
  write, read back, checksum, seal. What the hardware decides is an argument: the register values at
  the quiescence gate, whether the syncs succeed, and what the DDR holds after the writes
  (\<open>be_settle\<close>). Timers and log lines are left out; the counters are kept.
\<close>

subsection \<open>State\<close>

abbreviation (input) WEIGHT_CACHE_BASE :: u32 where "WEIGHT_CACHE_BASE \<equiv> 0x01000000"
abbreviation (input) P2_WEIGHT_RESIDENCY_END :: u64 where "P2_WEIGHT_RESIDENCY_END \<equiv> 0x03000000"
abbreviation (input) WEIGHT_CACHE_ALIGN :: u64 where "WEIGHT_CACHE_ALIGN \<equiv> 4096"
abbreviation (input) LAYOUT_V2 :: u32 where "LAYOUT_V2 \<equiv> 2"
abbreviation (input) INDEX_BUCKETS :: nat where "INDEX_BUCKETS \<equiv> 1024"
abbreviation (input) INDEX_MAX_PROBES :: nat where "INDEX_MAX_PROBES \<equiv> 8"
abbreviation (input) NO_SLOT :: u32 where "NO_SLOT \<equiv> 0xFFFFFFFF"
abbreviation (input) INVALID_SLOT :: u32 where "INVALID_SLOT \<equiv> 0xFFFFFFFE"

record resident_tile =
  rt_enabled :: bool
  rt_building :: bool
  rt_sealed :: bool
  rt_poisoned :: bool
  rt_tensor :: u64
  rt_data :: u64
  rt_type :: u64
  rt_ne :: "u64 list"
  rt_nb :: "u64 list"
  rt_layout_version :: u32
  rt_row0 :: int
  rt_rows :: int
  rt_k_block0 :: int
  rt_group_blocks :: int
  rt_group_beats :: int
  rt_qs_bytes :: u64
  rt_scale_bytes :: u64
  rt_allocation_bytes :: u64
  rt_qs_off :: u32
  rt_scale_off :: u32
  rt_crc32 :: u32
  rt_seal :: u32
  rt_epoch :: u64
  rt_stream_protocol :: u32
  rt_bitstream_id :: u32
  rt_p2_abi :: u32
  rt_key_hash :: u64
  rt_scale_bits :: "u16 list"
  rt_scale_count :: u64
  rt_scale_crc32 :: u32
  rt_metadata_seal :: u32
  rt_metadata_validated_epoch :: u64

definition blank_tile :: resident_tile where
  "blank_tile = \<lparr>rt_enabled = False, rt_building = False, rt_sealed = False, rt_poisoned = False, rt_tensor = 0,
     rt_data = 0, rt_type = 0, rt_ne = replicate 4 0, rt_nb = replicate 4 0, rt_layout_version = 0, rt_row0 = 0,
     rt_rows = 0, rt_k_block0 = 0, rt_group_blocks = 0, rt_group_beats = 0, rt_qs_bytes = 0, rt_scale_bytes = 0,
     rt_allocation_bytes = 0, rt_qs_off = 0, rt_scale_off = 0, rt_crc32 = 0, rt_seal = 0, rt_epoch = 0,
     rt_stream_protocol = 0, rt_bitstream_id = 0, rt_p2_abi = 0, rt_key_hash = 0, rt_scale_bits = [],
     rt_scale_count = 0, rt_scale_crc32 = 0, rt_metadata_seal = 0, rt_metadata_validated_epoch = 0\<rparr>"

text \<open>A tile as it is asked for.\<close>

record tile_request =
  rq_src :: tensor
  rq_row0 :: int
  rq_rows :: int
  rq_k_block0 :: int
  rq_group_blocks :: int
  rq_group_beats :: int

datatype residency_stat = MISSES | HITS | BUILDS | BUILD_FAILURES | MISS_ALIGNMENT | MISS_SHAPE | MISS_COLLISION
  | MISS_POISON | MISS_STALE | MISS_MISMATCH | MISS_CAPACITY | MISS_QUIESCENCE | MISS_RANGE | MISS_VERIFY
  | PROBE_COUNT | PROBE_EXHAUSTED | HOST_METADATA_HITS | HOST_METADATA_INVALIDATIONS

record residency =
  rs_enabled :: bool
  rs_verify_metadata :: bool
  rs_pingpong :: bool
  rs_budget_mb :: int
  rs_epoch :: u64
  rs_protocol :: u32
  rs_bitstream :: u32
  rs_abi :: u32
  rs_tiles :: "resident_tile list"
  rs_index :: "u32 list"
  rs_tile_count :: nat
  rs_next_slot :: nat
  rs_next_off :: u32
  rs_logical_bytes :: int
  rs_stats :: "residency_stat \<Rightarrow> nat"

definition count :: "residency_stat list \<Rightarrow> residency \<Rightarrow> residency" where
  "count xs rs = rs\<lparr>rs_stats := fold (\<lambda>x f. f(x := f x + 1)) xs (rs_stats rs)\<rparr>"

text \<open>The reset at initialisation: \<open>None\<close> when the epoch is exhausted, which aborts.\<close>

definition residency_reset :: "residency \<Rightarrow> residency option" where
  "residency_reset rs =
     (let rs = rs\<lparr>rs_enabled := False, rs_tiles := replicate 128 blank_tile, rs_index := replicate INDEX_BUCKETS NO_SLOT,
        rs_tile_count := 0, rs_next_slot := 0, rs_next_off := WEIGHT_CACHE_BASE, rs_logical_bytes := 0,
        rs_stats := (\<lambda>_. 0), rs_epoch := rs_epoch rs + 1\<rparr>
      in if rs_epoch rs = 0 then None else Some rs)"

subsection \<open>Identity of a tile\<close>

definition residency_hash_mix :: "u64 \<Rightarrow> u64 \<Rightarrow> u64" where
  "residency_hash_mix hash v = hash XOR (v + 0x9e3779b97f4a7c15 + push_bit 6 hash + drop_bit 2 hash)"

definition residency_key_hash :: "tile_request \<Rightarrow> u64 \<Rightarrow> u64 \<Rightarrow> residency \<Rightarrow> u64" where
  "residency_key_hash rq qs_bytes scale_bytes rs =
     (let src0 = rq_src rq;
          hash = fold (\<lambda>v h. residency_hash_mix h v)
            [gt_ptr src0, gt_data src0, gt_type src0, ucast LAYOUT_V2, word_of_int (rq_row0 rq), word_of_int (rq_rows rq),
             word_of_int (rq_k_block0 rq), word_of_int (rq_group_blocks rq), word_of_int (rq_group_beats rq),
             qs_bytes, scale_bytes, rs_epoch rs, ucast (rs_protocol rs), ucast (rs_bitstream rs), ucast (rs_abi rs)]
            0x84222325cbf29ce4
      in fold (\<lambda>i h. residency_hash_mix (residency_hash_mix h (gt_ne src0 ! i)) (gt_nb src0 ! i)) [0..<4] hash)"

definition residency_bucket :: "u64 \<Rightarrow> nat" where
  "residency_bucket key_hash = unat (key_hash AND 1023)"

definition residency_metadata_seal :: "u32 \<Rightarrow> u32 \<Rightarrow> u64 \<Rightarrow> u64 \<Rightarrow> u32" where
  "residency_metadata_seal tile_seal scale_crc32 scale_count validated_epoch =
     (let mix = push_bit 32 (ucast tile_seal) OR ucast scale_crc32;
          mix = residency_hash_mix mix scale_count;
          mix = residency_hash_mix mix validated_epoch;
          mix = mix XOR 0x4d4554415343414c;
          seal = ucast mix XOR ucast (drop_bit 32 mix)
      in if seal = 0 then 1 else seal)"

definition residency_align_up :: "u64 \<Rightarrow> u64 \<Rightarrow> u64 option" where
  "residency_align_up v alignment =
     (if alignment = 0 \<or> alignment AND (alignment - 1) \<noteq> 0 \<or> v > SIZE_MAX - (alignment - 1) then None
      else Some ((v + alignment - 1) AND NOT (alignment - 1)))"

definition residency_range_end :: "u32 \<Rightarrow> u64 \<Rightarrow> u32 \<Rightarrow> u32 option" where
  "residency_range_end begin_off bytes limit =
     (if begin_off < WEIGHT_CACHE_BASE \<or> begin_off > limit \<or> bytes = 0 \<or> bytes > 4294967295 then None
      else let end64 = ucast begin_off + bytes in
        if end64 > ucast limit \<or> end64 > P2_WEIGHT_RESIDENCY_END \<or> end64 > DDR_REGION_SIZE then None
        else Some (ucast end64))"

definition host_metadata_shape_valid :: "resident_tile \<Rightarrow> bool" where
  "host_metadata_shape_valid t \<longleftrightarrow> rt_sealed t \<and> \<not> rt_poisoned t \<and> rt_scale_count t \<noteq> 0
     \<and> rt_scale_count t = of_nat (length (rt_scale_bits t)) \<and> rt_scale_count t = rt_scale_bytes t div 2"

definition host_metadata_valid :: "residency \<Rightarrow> resident_tile \<Rightarrow> bool" where
  "host_metadata_valid rs t =
     (if \<not> host_metadata_shape_valid t \<or> rt_metadata_validated_epoch t = 0
        \<or> rt_metadata_validated_epoch t \<noteq> rt_epoch t \<or> rt_metadata_validated_epoch t \<noteq> rs_epoch rs then False
      else if rt_metadata_seal t = 0 \<or> rt_metadata_seal t \<noteq> residency_metadata_seal (rt_seal t) (rt_scale_crc32 t)
        (rt_scale_count t) (rt_metadata_validated_epoch t) then False
      else \<not> rs_verify_metadata rs \<or> fpga_p2_residency_scale_bits_crc32 (rt_scale_bits t) = rt_scale_crc32 t)"

definition residency_identity_matches :: "residency \<Rightarrow> ddr_map \<Rightarrow> resident_tile \<Rightarrow> tile_request \<Rightarrow> u64 \<Rightarrow> u64 \<Rightarrow> bool" where
  "residency_identity_matches rs d t rq qs_bytes scale_bytes =
     (case (residency_align_up qs_bytes WEIGHT_CACHE_ALIGN, residency_align_up scale_bytes WEIGHT_CACHE_ALIGN) of
        (Some qs_padded, Some scale_padded) \<Rightarrow>
          if qs_padded > SIZE_MAX - scale_padded then False
          else let src0 = rq_src rq in
            if \<not> rt_sealed t \<or> rt_poisoned t \<or> rt_tensor t \<noteq> gt_ptr src0 \<or> rt_data t \<noteq> gt_data src0
              \<or> rt_type t \<noteq> gt_type src0 \<or> rt_layout_version t \<noteq> LAYOUT_V2 \<or> rt_row0 t \<noteq> rq_row0 rq
              \<or> rt_rows t \<noteq> rq_rows rq \<or> rt_k_block0 t \<noteq> rq_k_block0 rq \<or> rt_group_blocks t \<noteq> rq_group_blocks rq
              \<or> rt_group_beats t \<noteq> rq_group_beats rq \<or> rt_qs_bytes t \<noteq> qs_bytes \<or> rt_scale_bytes t \<noteq> scale_bytes
              \<or> rt_epoch t \<noteq> rs_epoch rs \<or> rt_stream_protocol t \<noteq> rs_protocol rs \<or> rt_bitstream_id t \<noteq> rs_bitstream rs
              \<or> rt_p2_abi t \<noteq> rs_abi rs \<or> rt_seal t = 0 \<or> rt_qs_off t AND 4095 \<noteq> 0 \<or> rt_scale_off t AND 4095 \<noteq> 0
              \<or> (ucast (rt_scale_off t) :: u64) \<noteq> ucast (rt_qs_off t) + qs_padded
              \<or> rt_allocation_bytes t \<noteq> qs_padded + scale_padded
            then False
            else if \<exists>i \<in> set [0..<4]. rt_ne t ! i \<noteq> gt_ne src0 ! i \<or> rt_nb t ! i \<noteq> gt_nb src0 ! i then False
            else let phys_begin = DDR_BASE_PHYS + ucast (rt_qs_off t); phys_end = phys_begin + rt_allocation_bytes t in
              rt_qs_off t \<ge> WEIGHT_CACHE_BASE \<and> ucast (rt_qs_off t) + rt_allocation_bytes t \<le> P2_WEIGHT_RESIDENCY_END
              \<and> phys_begin \<ge> DDR_BASE_PHYS \<and> phys_end \<ge> phys_begin \<and> phys_end \<le> DDR_END_EXCLUSIVE
              \<and> rt_allocation_bytes t \<noteq> 0 \<and> ddr_range_fits (rt_qs_off t) (rt_qs_bytes t) d
              \<and> ddr_range_fits (rt_scale_off t) (rt_scale_bytes t) d
      | _ \<Rightarrow> False)"

definition residency_poison_slot :: "u32 \<Rightarrow> residency \<Rightarrow> residency" where
  "residency_poison_slot slot rs =
     (if unat slot \<ge> length (rs_tiles rs) then rs
      else count [HOST_METADATA_INVALIDATIONS] (rs\<lparr>rs_tiles := (rs_tiles rs)[unat slot :=
        (rs_tiles rs ! unat slot)\<lparr>rt_sealed := False, rt_building := False, rt_poisoned := True\<rparr>]\<rparr>))"

definition resident_scale_bits :: "u32 \<Rightarrow> nat \<Rightarrow> residency \<Rightarrow> u16 option" where
  "resident_scale_bits slot i rs =
     (if unat slot \<ge> length (rs_tiles rs) then None
      else let t = rs_tiles rs ! unat slot in
        if \<not> host_metadata_shape_valid t \<or> i \<ge> unat (rt_scale_count t) then None
        else Some (rt_scale_bits t ! i))"

subsection \<open>Looking a tile up\<close>

text \<open>
  The probe loop: the result is a slot number for the caller, or the free bucket found, if any. A
  poisoned or stale slot ends the probe; a slot with the right hash but wrong contents is poisoned.
\<close>

fun residency_probe :: "tile_request \<Rightarrow> u64 \<Rightarrow> u64 \<Rightarrow> u64 \<Rightarrow> ddr_map \<Rightarrow> nat list \<Rightarrow> residency
    \<Rightarrow> (u32 + nat option) \<times> residency" where
  "residency_probe rq qs_bytes scale_bytes key_hash d [] rs = (Inr None, rs)"
| "residency_probe rq qs_bytes scale_bytes key_hash d (probe # probes) rs =
    (let index_bucket = (residency_bucket key_hash + probe) AND (INDEX_BUCKETS - 1);
         rs = count [PROBE_COUNT] rs;
         indexed_slot = rs_index rs ! index_bucket
     in if indexed_slot = NO_SLOT then (Inr (Some index_bucket), rs)
        else if unat indexed_slot \<ge> length (rs_tiles rs) then (Inl NO_SLOT, count [MISSES, MISS_POISON] rs)
        else let t = rs_tiles rs ! unat indexed_slot in
          if rt_poisoned t \<or> rt_building t \<or> \<not> rt_sealed t \<or> \<not> rt_enabled t
          then (Inl NO_SLOT, count [MISSES, MISS_POISON, HOST_METADATA_INVALIDATIONS] rs)
          else if rt_key_hash t \<noteq> key_hash
          then residency_probe rq qs_bytes scale_bytes key_hash d probes (count [MISS_COLLISION] rs)
          else if rt_epoch t \<noteq> rs_epoch rs \<or> rt_stream_protocol t \<noteq> rs_protocol rs
            \<or> rt_bitstream_id t \<noteq> rs_bitstream rs \<or> rt_p2_abi t \<noteq> rs_abi rs
          then (Inl NO_SLOT, count [MISSES, MISS_STALE] rs)
          else if \<not> host_metadata_valid rs t
          then (Inl INVALID_SLOT, residency_poison_slot indexed_slot (count [MISSES, MISS_MISMATCH] rs))
          else if \<not> residency_identity_matches rs d t rq qs_bytes scale_bytes
          then (Inl INVALID_SLOT, residency_poison_slot indexed_slot (count [MISSES, MISS_MISMATCH] rs))
          else (Inl indexed_slot, count [HITS, HOST_METADATA_HITS] rs))"

subsection \<open>Building a tile\<close>

text \<open>What the hardware and the source tensor's memory contribute to one call.\<close>

record build_env =
  be_status_before :: u32
  be_bank_stat :: u32
  be_slot_state :: u32
  be_desc_flags :: u32
  be_status_after :: u32
  be_zdma_disabled :: bool
  be_spu_quiescent :: bool
  be_final_slot_state :: u32
  be_final_desc_flags :: u32
  be_sync_qs :: bool
  be_sync_scales :: bool
  be_settle :: "u8 list \<Rightarrow> u8 list"
  be_mem :: "int \<Rightarrow> u8"
  be_weight_base :: int

definition scheduler_registers_idle :: "build_env \<Rightarrow> bool" where
  "scheduler_registers_idle env \<longleftrightarrow> be_status_before env = be_status_after env \<and> be_status_before env AND STATUS_BUSY = 0
     \<and> be_bank_stat env AND BANK_STAT_BUSY = 0 \<and> be_slot_state env = fpga_slot_state_word 0 SLOT_FREE SLOT_FREE
     \<and> be_desc_flags env = 0"

definition residency_quiescent :: "build_env \<Rightarrow> residency \<Rightarrow> bool" where
  "residency_quiescent env rs \<longleftrightarrow> (rs_pingpong rs \<longrightarrow> scheduler_registers_idle env)
     \<and> be_zdma_disabled env \<and> be_spu_quiescent env
     \<and> be_final_slot_state env = fpga_slot_state_word 0 SLOT_FREE SLOT_FREE \<and> be_final_desc_flags env = 0"

text \<open>The payload of one block: its scale bits, their two bytes, and its quants at their layout words.\<close>

record payload =
  pl_qs :: "u8 list"
  pl_scales :: "u8 list"
  pl_scale_bits :: "u16 list"

definition payload_beat :: "tile_request \<Rightarrow> build_env \<Rightarrow> int \<Rightarrow> nat \<Rightarrow> nat \<Rightarrow> nat \<Rightarrow> payload \<Rightarrow> payload option" where
  "payload_beat rq env wb row gb beat p =
     (case fpga_weight_layout_word_index (rq_rows rq) (rq_group_beats rq) (int row) (int (gb * 2 + beat)) of
        None \<Rightarrow> None
      | Some word \<Rightarrow> Some (p\<lparr>pl_qs := put_bytes (unat word * 16) (map (\<lambda>i. q8_qs (be_mem env) wb (beat * 16 + i)) [0..<16]) (pl_qs p)\<rparr>))"

definition payload_block :: "tile_request \<Rightarrow> build_env \<Rightarrow> nat \<Rightarrow> nat \<Rightarrow> payload \<Rightarrow> payload option" where
  "payload_block rq env row gb p =
     (let wb = weight_block_from_base (uint (gt_nb (rq_src rq) ! 1)) (be_weight_base env) (rq_row0 rq + int row) (rq_k_block0 rq + int gb);
          scale_index = row * nat (rq_group_blocks rq) + gb;
          bits = q8_d (be_mem env) wb;
          p = p\<lparr>pl_scale_bits := (pl_scale_bits p)[scale_index := bits],
                pl_scales := (pl_scales p)[scale_index * 2 := ucast (bits AND 0xff), scale_index * 2 + 1 := ucast (drop_bit 8 bits AND 0xff)]\<rparr>
      in fold_opt (payload_beat rq env wb row gb) [0..<2] p)"

definition residency_payload :: "tile_request \<Rightarrow> u64 \<Rightarrow> u64 \<Rightarrow> build_env \<Rightarrow> payload option" where
  "residency_payload rq qs_bytes scale_bytes env =
     fold_opt (\<lambda>row. fold_opt (payload_block rq env row) [0..<nat (rq_group_blocks rq)]) [0..<nat (rq_rows rq)]
       \<lparr>pl_qs = replicate (unat qs_bytes) 0, pl_scales = replicate (unat scale_bytes) 0,
        pl_scale_bits = replicate (unat (scale_bytes div 2)) 0\<rparr>"

definition pending_tile :: "tile_request \<Rightarrow> u64 \<Rightarrow> u64 \<Rightarrow> u64 \<Rightarrow> u64 \<Rightarrow> u64 \<Rightarrow> residency \<Rightarrow> resident_tile" where
  "pending_tile rq qs_bytes scale_bytes qs_padded payload_bytes key_hash rs = blank_tile\<lparr>
     rt_enabled := True, rt_building := True, rt_tensor := gt_ptr (rq_src rq), rt_data := gt_data (rq_src rq),
     rt_type := gt_type (rq_src rq), rt_layout_version := LAYOUT_V2, rt_row0 := rq_row0 rq, rt_rows := rq_rows rq,
     rt_k_block0 := rq_k_block0 rq, rt_group_blocks := rq_group_blocks rq, rt_group_beats := rq_group_beats rq,
     rt_qs_bytes := qs_bytes, rt_scale_bytes := scale_bytes, rt_allocation_bytes := payload_bytes,
     rt_qs_off := rs_next_off rs, rt_scale_off := ucast (ucast (rs_next_off rs) + qs_padded), rt_epoch := rs_epoch rs,
     rt_stream_protocol := rs_protocol rs, rt_bitstream_id := rs_bitstream rs, rt_p2_abi := rs_abi rs,
     rt_key_hash := key_hash, rt_ne := gt_ne (rq_src rq), rt_nb := gt_nb (rq_src rq)\<rparr>"

definition write_payload :: "resident_tile \<Rightarrow> payload \<Rightarrow> ddr_map \<Rightarrow> ddr_map option" where
  "write_payload t p d = do {
     dst_qs \<leftarrow> ddr_ptr (rt_qs_off t) (rt_qs_bytes t) d;
     dst_scales \<leftarrow> ddr_ptr (rt_scale_off t) (rt_scale_bytes t) d;
     fpga_weight_layout_zero_padded_companion (rt_qs_off t) (rt_rows t) (rt_group_beats t)
       (d\<lparr>dm_bytes := put_bytes dst_scales (pl_scales p) (put_bytes dst_qs (pl_qs p) (dm_bytes d))\<rparr>) }"

definition read_bytes :: "nat \<Rightarrow> nat \<Rightarrow> ddr_map \<Rightarrow> u8 list" where
  "read_bytes p n d = take n (drop p (dm_bytes d))"

definition seal_tile :: "resident_tile \<Rightarrow> payload \<Rightarrow> resident_tile" where
  "seal_tile t p =
     (let crc = NOT (fpga_crc32_update (fpga_crc32_update 0xFFFFFFFF (pl_qs p)) (pl_scales p));
          scale_crc = NOT (fpga_crc32_update 0xFFFFFFFF (pl_scales p));
          scale_count = of_nat (length (pl_scale_bits p));
          seal = crc XOR 0xA5C35A3C; seal = (if seal = 0 then 1 else seal)
      in t\<lparr>rt_scale_bits := pl_scale_bits p, rt_crc32 := crc, rt_scale_count := scale_count, rt_scale_crc32 := scale_crc,
           rt_seal := seal, rt_building := False, rt_sealed := True, rt_metadata_validated_epoch := rt_epoch t,
           rt_metadata_seal := residency_metadata_seal seal scale_crc scale_count (rt_epoch t)\<rparr>)"

text \<open>A failed verification poisons the reserved slot; the range stays reserved.\<close>

definition build_failed :: "u32 \<Rightarrow> residency \<Rightarrow> residency" where
  "build_failed slot rs = count [BUILD_FAILURES, MISSES, MISS_VERIFY] (residency_poison_slot slot rs)"

definition publish_tile :: "u32 \<Rightarrow> nat \<Rightarrow> resident_tile \<Rightarrow> residency \<Rightarrow> residency" where
  "publish_tile slot insertion_bucket t rs =
     count [BUILDS] (rs\<lparr>rs_tiles := (rs_tiles rs)[unat slot := t], rs_index := (rs_index rs)[insertion_bucket := slot],
       rs_tile_count := rs_tile_count rs + 1,
       rs_logical_bytes := rs_logical_bytes rs + uint (rt_qs_bytes t + rt_scale_bytes t)\<rparr>)"

definition residency_build :: "tile_request \<Rightarrow> u64 \<Rightarrow> u64 \<Rightarrow> u64 \<Rightarrow> u64 \<Rightarrow> u64 \<Rightarrow> u32 \<Rightarrow> nat \<Rightarrow> build_env \<Rightarrow> ddr_map \<Rightarrow> residency
    \<Rightarrow> (u32 \<times> ddr_map \<times> residency) option" where
  "residency_build rq qs_bytes scale_bytes qs_padded payload_bytes key_hash allocation_end insertion_bucket env d rs =
     (let slot = of_nat (rs_next_slot rs);
          rs = rs\<lparr>rs_next_slot := rs_next_slot rs + 1\<rparr>;
          t = pending_tile rq qs_bytes scale_bytes qs_padded payload_bytes key_hash rs
      in if ucast (rt_qs_off t) + qs_padded > 4294967295 then Some (NO_SLOT, d, count [MISSES, MISS_RANGE] rs)
         else if \<not> ddr_range_fits (rt_qs_off t) (rt_qs_bytes t) d \<or> \<not> ddr_range_fits (rt_scale_off t) (rt_scale_bytes t) d
           \<or> ucast allocation_end > P2_WEIGHT_RESIDENCY_END \<or> ucast allocation_end > DDR_REGION_SIZE
           \<or> DDR_BASE_PHYS > SIZE_MAX - ucast allocation_end \<or> DDR_BASE_PHYS + ucast allocation_end > DDR_END_EXCLUSIVE
         then Some (NO_SLOT, d, count [MISSES, MISS_RANGE] rs)
         else let rs = rs\<lparr>rs_next_off := allocation_end\<rparr> in
           case residency_payload rq qs_bytes scale_bytes env of
             None \<Rightarrow> Some (NO_SLOT, d, count [MISSES, MISS_RANGE] rs)
           | Some p \<Rightarrow> (case write_payload t p d of
               None \<Rightarrow> None
             | Some d \<Rightarrow> let d = d\<lparr>dm_bytes := be_settle env (dm_bytes d)\<rparr> in
                 if \<not> be_sync_qs env \<or> \<not> be_sync_scales env then Some (NO_SLOT, d, build_failed slot rs)
                 else if read_bytes (unat (rt_qs_off t)) (unat qs_bytes) d \<noteq> pl_qs p then Some (NO_SLOT, d, build_failed slot rs)
                 else if read_bytes (unat (rt_scale_off t)) (unat scale_bytes) d \<noteq> pl_scales p then Some (NO_SLOT, d, build_failed slot rs)
                 else Some (slot, d, publish_tile slot insertion_bucket (seal_tile t p) rs)))"

text \<open>Probe, then build in the free bucket if range, quiescence and directory allow it.\<close>

definition residency_find :: "tile_request \<Rightarrow> u64 \<Rightarrow> u64 \<Rightarrow> u64 \<Rightarrow> u64 \<Rightarrow> build_env \<Rightarrow> ddr_map \<Rightarrow> residency
    \<Rightarrow> (u32 \<times> ddr_map \<times> residency) option" where
  "residency_find rq qs_bytes scale_bytes qs_padded payload_bytes env d rs =
     (let key_hash = residency_key_hash rq qs_bytes scale_bytes rs in
      case residency_probe rq qs_bytes scale_bytes key_hash d [0..<INDEX_MAX_PROBES] rs of
        (Inl slot, rs) \<Rightarrow> Some (slot, d, rs)
      | (Inr None, rs) \<Rightarrow> Some (NO_SLOT, d, count [MISSES, PROBE_EXHAUSTED] rs)
      | (Inr (Some insertion_bucket), rs) \<Rightarrow>
          let budget_bytes = word_of_int (rs_budget_mb rs) * 1024 * 1024;
              budget_end64 = ucast WEIGHT_CACHE_BASE + budget_bytes
          in case (if budget_end64 > P2_WEIGHT_RESIDENCY_END then None
                   else residency_range_end (rs_next_off rs) payload_bytes (ucast budget_end64)) of
            None \<Rightarrow> Some (NO_SLOT, d, count [MISSES, MISS_CAPACITY] rs)
          | Some allocation_end \<Rightarrow>
              if \<not> residency_quiescent env rs then Some (NO_SLOT, d, count [MISSES, MISS_QUIESCENCE] rs)
              else if rs_next_slot rs \<ge> length (rs_tiles rs) then Some (NO_SLOT, d, count [MISSES, MISS_CAPACITY] rs)
              else residency_build rq qs_bytes scale_bytes qs_padded payload_bytes key_hash allocation_end
                insertion_bucket env d rs)"

definition residency_select_or_build :: "tile_request \<Rightarrow> build_env \<Rightarrow> ddr_map \<Rightarrow> residency \<Rightarrow> (u32 \<times> ddr_map \<times> residency) option" where
  "residency_select_or_build rq env d rs =
     (if \<not> rs_enabled rs then Some (NO_SLOT, d, rs)
      else let qs_bytes = weight_window_bytes_for_rows (rq_rows rq) (rq_group_beats rq);
               scale_bytes = word_of_int (rq_rows rq) * word_of_int (rq_group_blocks rq) * 2
        in case (residency_align_up qs_bytes WEIGHT_CACHE_ALIGN, residency_align_up scale_bytes WEIGHT_CACHE_ALIGN) of
          (Some qs_padded, Some scale_padded) \<Rightarrow>
            if qs_padded > SIZE_MAX - scale_padded then Some (NO_SLOT, d, count [MISSES, MISS_ALIGNMENT] rs)
            else if qs_bytes = 0 \<or> scale_bytes = 0 then Some (NO_SLOT, d, count [MISSES, MISS_SHAPE] rs)
            else residency_find rq qs_bytes scale_bytes qs_padded (qs_padded + scale_padded) env d rs
        | _ \<Rightarrow> Some (NO_SLOT, d, count [MISSES, MISS_ALIGNMENT] rs))"

subsection \<open>Later use of a slot\<close>

definition residency_contains :: "tile_request \<Rightarrow> u64 \<Rightarrow> ddr_map \<Rightarrow> residency \<Rightarrow> bool" where
  "residency_contains rq weight_bytes d rs =
     (if \<not> rs_enabled rs \<or> rq_rows rq \<le> 0 \<or> rq_group_blocks rq \<le> 0 \<or> rq_group_beats rq \<le> 0 then False
      else let scale_bytes = word_of_int (rq_rows rq) * word_of_int (rq_group_blocks rq) * 2 in
        \<exists>t \<in> set (rs_tiles rs). rt_enabled t \<and> \<not> rt_building t \<and> rt_sealed t \<and> \<not> rt_poisoned t
          \<and> rt_epoch t = rs_epoch rs \<and> rt_stream_protocol t = rs_protocol rs \<and> rt_bitstream_id t = rs_bitstream rs
          \<and> rt_p2_abi t = rs_abi rs \<and> residency_identity_matches rs d t rq weight_bytes scale_bytes)"

definition job_request :: "tile_job \<Rightarrow> tile_request" where
  "job_request job = \<lparr>rq_src = tj_src0 job, rq_row0 = tj_row0 job, rq_rows = tj_rows job, rq_k_block0 = tj_k_block0 job,
     rq_group_blocks = tj_group_blocks job, rq_group_beats = tj_group_beats job\<rparr>"

definition residency_job_still_valid :: "tile_job \<Rightarrow> ddr_map \<Rightarrow> residency \<Rightarrow> bool \<times> residency" where
  "residency_job_still_valid job d rs =
     (if \<not> tj_p2_residency_hit job then (True, rs)
      else let slot = tj_p2_residency_slot job;
               t = rs_tiles rs ! unat slot;
               ok = rs_enabled rs \<and> unat slot < length (rs_tiles rs) \<and> tj_weight_src_off job = rt_qs_off t
                 \<and> tj_weight_bytes job = rt_qs_bytes t \<and> tj_p2_residency_epoch job = rt_epoch t
                 \<and> tj_p2_residency_seal job = rt_seal t \<and> host_metadata_valid rs t
                 \<and> residency_identity_matches rs d t (job_request job) (tj_weight_bytes job)
                     (word_of_int (tj_rows job) * word_of_int (tj_group_blocks job) * 2)
        in (ok, if ok then rs else residency_poison_slot slot rs))"

subsection \<open>Sizes and alignment\<close>

definition pad4096 :: "nat \<Rightarrow> nat" where
  "pad4096 n = (n + 4095) div 4096 * 4096"

lemma pad4096_facts: "n \<le> pad4096 n" "4096 dvd pad4096 n" "0 < n \<Longrightarrow> 0 < pad4096 n"
proof -
  have "n + 4095 = (n + 4095) div 4096 * 4096 + (n + 4095) mod 4096" by (rule div_mult_mod_eq[symmetric])
  moreover have "(n + 4095) mod 4096 \<le> 4095" by simp
  ultimately show "n \<le> pad4096 n" unfolding pad4096_def by linarith
  then show "0 < n \<Longrightarrow> 0 < pad4096 n" by linarith
qed (simp add: pad4096_def)

lemma align_4096:
  assumes "residency_align_up v WEIGHT_CACHE_ALIGN = Some p"
  shows "unat p = pad4096 (unat v)"
proof -
  have v: "\<not> v > SIZE_MAX - 4095" and p: "p = (v + 4096 - 1) AND NOT (4096 - 1)"
    using assms by (auto simp: residency_align_up_def split: if_splits)
  have "unat v \<le> unat (SIZE_MAX - 4095)" using v by (simp add: word_le_nat_alt not_less)
  then have u: "unat (v + 4095) = unat v + 4095" by (subst unat_add_no_overflow) simp_all
  have m: "(4095 :: u64) = mask 12" by (simp add: mask_eq_exp_minus_1)
  have s: "v + 4096 - 1 = v + 4095" "(4096 :: u64) - 1 = 4095" by simp_all
  have "unat p = unat (v + 4095) div 2 ^ 12 * 2 ^ 12" unfolding p s m by (rule unat_and_not_mask)
  then show ?thesis by (simp add: u pad4096_def)
qed

lemma range_end_value:
  assumes "residency_range_end b bytes limit = Some e"
  shows "unat e = unat b + unat bytes" and "0x01000000 \<le> unat b" and "unat e \<le> 0x03000000" and "0 < unat bytes"
proof -
  have r: "\<not> b < WEIGHT_CACHE_BASE" "bytes \<noteq> 0" "\<not> bytes > 4294967295" "\<not> ucast b + bytes > P2_WEIGHT_RESIDENCY_END"
    "e = ucast (ucast b + bytes)"
    using assms by (auto simp: residency_range_end_def Let_def split: if_splits)
  have ub: "unat (ucast b :: u64) = unat b" by (rule unat_ucast_wide) simp
  have "unat b < 2 ^ LENGTH(32)" by (rule unsigned_less)
  moreover have "unat bytes \<le> 4294967295" using r(3) by (simp add: word_less_nat_alt)
  ultimately have s: "unat (ucast b + bytes) = unat b + unat bytes" using ub by (subst unat_add_no_overflow) simp_all
  then have le: "unat b + unat bytes \<le> 0x03000000" using r(4) by (simp add: word_less_nat_alt)
  then show "unat e = unat b + unat bytes" using s r(5) by (simp add: unat_ucast_mod)
  then show "unat e \<le> 0x03000000" using le by simp
  show "0x01000000 \<le> unat b" using r(1) by (simp add: word_less_nat_alt)
  show "0 < unat bytes" using r(2) by (simp add: unat_gt_0)
qed

subsection \<open>Writes stay above the reserved range\<close>

lemma zero_range_frame:
  assumes "ddr_zero_range32 off bytes d = Some d'" and "j < unat off"
  shows "dm_bytes d' ! j = dm_bytes d ! j \<and> length (dm_bytes d') = length (dm_bytes d) \<and> dm_mapped d' = dm_mapped d"
  using assms by (auto simp: ddr_zero_range32_def ddr_ptr_def bind_eq_Some_conv store_words_other split: if_splits)

text \<open>Everything below \<open>lo\<close> and the mapping itself are untouched.\<close>

definition above :: "nat \<Rightarrow> ddr_map \<Rightarrow> ddr_map \<Rightarrow> bool" where
  "above lo d d' \<longleftrightarrow> length (dm_bytes d') = length (dm_bytes d) \<and> dm_mapped d' = dm_mapped d
     \<and> (\<forall>j < lo. dm_bytes d' ! j = dm_bytes d ! j)"

lemma above_refl [simp]: "above lo d d"
  by (simp add: above_def)

lemma above_trans: "above lo d d' \<Longrightarrow> above lo d' d'' \<Longrightarrow> above lo d d''"
  by (simp add: above_def)

lemma above_ddr_ok: "above lo d d' \<Longrightarrow> ddr_ok d \<Longrightarrow> ddr_ok d'"
  by (simp add: above_def ddr_ok_def)

lemma above_fits: "above lo d d' \<Longrightarrow> ddr_range_fits off bytes d' = ddr_range_fits off bytes d"
  by (simp add: above_def ddr_range_fits_def ddr_map_size_def)

definition request_ok :: "tile_request \<Rightarrow> bool" where
  "request_ok rq \<longleftrightarrow> rq_rows rq \<le> INT_MAX \<and> rq_group_blocks rq \<le> INT_MAX \<and> rq_group_beats rq \<le> INT_MAX"

lemma companion_above:
  assumes "fpga_weight_layout_zero_padded_companion base rows beats d = Some d'"
    and "0 < rows" "rows \<le> INT_MAX" "0 < beats" "beats \<le> INT_MAX" and "lo \<le> unat base"
  shows "above lo d d'"
proof (cases "rows AND 1 = 0")
  case True
  then show ?thesis using assms(1) by (simp add: fpga_weight_layout_zero_padded_companion_def)
next
  case False
  then have run: "fold_opt (\<lambda>beat d. case fpga_weight_layout_word_offset base rows beats rows (int beat) of
      None \<Rightarrow> None | Some off \<Rightarrow> ddr_zero_range32 off 16 d) [0..<nat beats] d = Some d'"
    using assms(1) by (simp add: fpga_weight_layout_zero_padded_companion_def)
  show ?thesis
  proof (rule fold_opt_invariant[OF run, where P = "\<lambda>x. above lo d x"])
    fix beat d1 d2
    assume ih: "above lo d d1"
      and st: "(case fpga_weight_layout_word_offset base rows beats rows (int beat) of
        None \<Rightarrow> None | Some off \<Rightarrow> ddr_zero_range32 off 16 d1) = Some d2"
    then obtain off where off: "fpga_weight_layout_word_offset base rows beats rows (int beat) = Some off"
      "ddr_zero_range32 off 16 d1 = Some d2" by (auto split: option.splits)
    have "lo \<le> unat off" using word_offset_value[OF assms(2-5) assms(3) off(1)] assms(6) by simp
    moreover have "length (dm_bytes d2) = length (dm_bytes d1) \<and> dm_mapped d2 = dm_mapped d1"
      using off(2) by (auto simp: ddr_zero_range32_def bind_eq_Some_conv split: if_splits)
    ultimately have "above lo d1 d2" using zero_range_frame[OF off(2)] by (simp add: above_def)
    then show "above lo d d2" using ih above_trans by blast
  qed simp
qed

subsection \<open>The payload\<close>

definition payload_ok :: "nat \<Rightarrow> nat \<Rightarrow> payload \<Rightarrow> bool" where
  "payload_ok nq ns p \<longleftrightarrow> length (pl_qs p) = nq \<and> length (pl_scales p) = 2 * ns \<and> length (pl_scale_bits p) = ns
     \<and> (\<forall>i < ns. pl_scales p ! (2 * i) = ucast (pl_scale_bits p ! i AND 0xff)
          \<and> pl_scales p ! (2 * i + 1) = ucast (drop_bit 8 (pl_scale_bits p ! i) AND 0xff))"

lemma word_index_bound:
  assumes "0 < rows" "rows \<le> INT_MAX" "0 < beats" "beats \<le> INT_MAX" "r \<le> INT_MAX"
    and "fpga_weight_layout_word_index rows beats r b = Some i"
  shows "0 \<le> r" "nat r < padded_rows (nat rows)" "0 \<le> b" "b < beats" "unat i = layout_index (nat beats) (nat r) (nat b)"
    "unat i < padded_rows (nat rows) * nat beats"
proof -
  have g: "\<not> (r < 0 \<or> nat r \<ge> padded_rows (nat rows) \<or> b < 0 \<or> b \<ge> beats)"
    using word_index_rejects[OF assms(1-5)] assms(6) by (metis option.distinct(1))
  then show "0 \<le> r" "nat r < padded_rows (nat rows)" "0 \<le> b" "b < beats" by linarith+
  then obtain k where k: "fpga_weight_layout_word_index rows beats r b = Some k" "unat k = layout_index (nat beats) (nat r) (nat b)"
    using word_index_value[OF assms(1-4), of r b] by blast
  then show v: "unat i = layout_index (nat beats) (nat r) (nat b)" using assms(6) by simp
  show "unat i < padded_rows (nat rows) * nat beats"
    unfolding v by (rule layout_index_less) (use g in linarith)+
qed

lemma payload_beat_ok:
  assumes rq: "0 < rq_rows rq" "0 < rq_group_beats rq" "request_ok rq" and row: "int row \<le> INT_MAX"
    and nq: "nq = padded_rows (nat (rq_rows rq)) * nat (rq_group_beats rq) * 16"
    and p: "payload_ok nq ns p" and run: "payload_beat rq env wb row gb beat p = Some p'"
  shows "payload_ok nq ns p'"
proof -
  obtain word where w: "fpga_weight_layout_word_index (rq_rows rq) (rq_group_beats rq) (int row) (int (gb * 2 + beat)) = Some word"
    "p' = p\<lparr>pl_qs := put_bytes (unat word * 16) (map (\<lambda>i. q8_qs (be_mem env) wb (beat * 16 + i)) [0..<16]) (pl_qs p)\<rparr>"
    using run by (auto simp: payload_beat_def split: option.splits)
  have ints: "rq_rows rq \<le> INT_MAX" "rq_group_beats rq \<le> INT_MAX" using rq(3) by (simp_all add: request_ok_def)
  have "unat word < padded_rows (nat (rq_rows rq)) * nat (rq_group_beats rq)"
    using word_index_bound(6)[OF rq(1) ints(1) rq(2) ints(2) row w(1)] .
  then have "(unat word + 1) * 16 \<le> nq" unfolding nq by (intro mult_le_mono1) simp
  then have "unat word * 16 + 16 \<le> length (pl_qs p)" using p by (simp add: payload_ok_def)
  then show ?thesis using p w(2) by (simp add: payload_ok_def length_put_bytes)
qed

lemma put_scale_pair:
  fixes b :: u16 and k :: nat
  assumes "length xs = 2 * ns" and "length bs = ns"
    and "\<forall>i < ns. xs ! (2 * i) = ucast (bs ! i AND 0xff :: u16) \<and> xs ! (2 * i + 1) = ucast (drop_bit 8 (bs ! i) AND 0xff)"
  defines "xs' \<equiv> xs[k * 2 := (ucast (b AND 0xff) :: u8), k * 2 + 1 := ucast (drop_bit 8 b AND 0xff)]" and "bs' \<equiv> bs[k := b]"
  shows "\<forall>i < ns. xs' ! (2 * i) = ucast (bs' ! i AND 0xff) \<and> xs' ! (2 * i + 1) = ucast (drop_bit 8 (bs' ! i) AND 0xff)"
proof (intro allI impI)
  fix i assume i: "i < ns"
  show "xs' ! (2 * i) = ucast (bs' ! i AND 0xff) \<and> xs' ! (2 * i + 1) = ucast (drop_bit 8 (bs' ! i) AND 0xff)"
  proof (cases "i = k")
    case True
    have "xs' ! (k * 2) = ucast (b AND 0xff)" "xs' ! (k * 2 + 1) = ucast (drop_bit 8 b AND 0xff)" "bs' ! k = b"
      using i assms(1,2) unfolding xs'_def bs'_def True by simp_all
    then show ?thesis by (simp only: True mult.commute)
  next
    case False
    then have "2 * i \<noteq> k * 2" "2 * i \<noteq> k * 2 + 1" "2 * i + 1 \<noteq> k * 2" "2 * i + 1 \<noteq> k * 2 + 1" by presburger+
    then have "xs' ! (2 * i) = xs ! (2 * i)" "xs' ! (2 * i + 1) = xs ! (2 * i + 1)" "bs' ! i = bs ! i"
      unfolding xs'_def bs'_def using False by (simp_all only: nth_list_update_neq)
    then show ?thesis using assms(3) i by simp
  qed
qed

lemma payload_block_ok:
  assumes rq: "0 < rq_rows rq" "0 < rq_group_beats rq" "request_ok rq" and row: "int row \<le> INT_MAX"
    and nq: "nq = padded_rows (nat (rq_rows rq)) * nat (rq_group_beats rq) * 16"
    and p: "payload_ok nq ns p" and run: "payload_block rq env row gb p = Some p'"
  shows "payload_ok nq ns p'"
proof -
  let ?wb = "weight_block_from_base (uint (gt_nb (rq_src rq) ! 1)) (be_weight_base env) (rq_row0 rq + int row) (rq_k_block0 rq + int gb)"
  let ?i = "row * nat (rq_group_blocks rq) + gb" and ?b = "q8_d (be_mem env) ?wb"
  let ?p = "p\<lparr>pl_scale_bits := (pl_scale_bits p)[?i := ?b],
    pl_scales := (pl_scales p)[?i * 2 := ucast (?b AND 0xff), ?i * 2 + 1 := ucast (drop_bit 8 ?b AND 0xff)]\<rparr>"
  have "payload_ok nq ns ?p" using p put_scale_pair[of "pl_scales p" ns "pl_scale_bits p" ?i ?b]
    by (simp add: payload_ok_def)
  moreover have "fold_opt (payload_beat rq env ?wb row gb) [0..<2] ?p = Some p'"
    using run by (simp only: payload_block_def Let_def)
  ultimately show ?thesis
    using fold_opt_invariant[where P = "payload_ok nq ns"] payload_beat_ok[OF rq row nq] by blast
qed

lemma even_bytes: "scale_bytes = n * 2 \<Longrightarrow> 2 * (unat scale_bytes div 2) = unat scale_bytes" for n :: u64
proof -
  assume "scale_bytes = n * 2"
  then have "unat scale_bytes = (unat n * 2) mod 2 ^ 64" by (simp add: unat_word_ariths)
  then have "2 dvd unat scale_bytes" by (simp only:) (rule dvd_mod, simp_all)
  then show ?thesis by (rule dvd_mult_div_cancel)
qed

lemma residency_payload_ok:
  assumes rq: "0 < rq_rows rq" "0 < rq_group_beats rq" "request_ok rq"
    and nq: "unat qs_bytes = padded_rows (nat (rq_rows rq)) * nat (rq_group_beats rq) * 16"
    and sc: "scale_bytes = n * 2" and run: "residency_payload rq qs_bytes scale_bytes env = Some p"
  shows "payload_ok (unat qs_bytes) (unat scale_bytes div 2) p"
proof -
  let ?P = "payload_ok (unat qs_bytes) (unat scale_bytes div 2)"
  note even = even_bytes[OF sc]
  have div2: "unat (scale_bytes div 2) = unat scale_bytes div 2" by (simp add: unat_div)
  have init: "?P \<lparr>pl_qs = replicate (unat qs_bytes) 0, pl_scales = replicate (unat scale_bytes) 0,
        pl_scale_bits = replicate (unat (scale_bytes div 2)) 0\<rparr>"
    using even by (auto simp: payload_ok_def div2)
  show ?thesis
  proof (rule fold_opt_invariant[OF run[unfolded residency_payload_def], where P = ?P])
    fix row p1 p2
    assume "row \<in> set [0..<nat (rq_rows rq)]" and p1: "?P p1"
      and st: "fold_opt (payload_block rq env row) [0..<nat (rq_group_blocks rq)] p1 = Some p2"
    then have row: "int row \<le> INT_MAX" using rq(1,3) by (auto simp: request_ok_def)
    show "?P p2"
      by (rule fold_opt_invariant[OF st, where P = ?P]) (use p1 payload_block_ok[OF rq row nq] in blast)+
  qed (rule init)
qed

subsection \<open>The invariant of the directory\<close>

definition payload_crc :: "u8 list \<Rightarrow> u8 list \<Rightarrow> u32" where
  "payload_crc qs scales = NOT (crc32_spec 0xFFFFFFFF (qs @ scales))"

definition tile_qs :: "ddr_map \<Rightarrow> resident_tile \<Rightarrow> u8 list" where
  "tile_qs d t = read_bytes (unat (rt_qs_off t)) (unat (rt_qs_bytes t)) d"

definition tile_scales :: "ddr_map \<Rightarrow> resident_tile \<Rightarrow> u8 list" where
  "tile_scales d t = read_bytes (unat (rt_scale_off t)) (unat (rt_scale_bytes t)) d"

definition tile_end :: "resident_tile \<Rightarrow> nat" where
  "tile_end t = unat (rt_qs_off t) + unat (rt_allocation_bytes t)"

text \<open>Where a sealed tile lies, and that the DDR still holds what its checksum was taken of.\<close>

definition tile_intact :: "ddr_map \<Rightarrow> nat \<Rightarrow> resident_tile \<Rightarrow> bool" where
  "tile_intact d lim t \<longleftrightarrow> 0x01000000 \<le> unat (rt_qs_off t) \<and> 4096 dvd unat (rt_qs_off t)
     \<and> unat (rt_scale_off t) = unat (rt_qs_off t) + pad4096 (unat (rt_qs_bytes t))
     \<and> unat (rt_allocation_bytes t) = pad4096 (unat (rt_qs_bytes t)) + pad4096 (unat (rt_scale_bytes t))
     \<and> tile_end t \<le> lim \<and> rt_crc32 t = payload_crc (tile_qs d t) (tile_scales d t)"

definition residency_ok :: "ddr_map \<Rightarrow> residency \<Rightarrow> bool" where
  "residency_ok d rs \<longleftrightarrow> ddr_ok d \<and> length (rs_tiles rs) = 128 \<and> length (rs_index rs) = INDEX_BUCKETS
     \<and> rs_next_slot rs \<le> 128 \<and> 0x01000000 \<le> unat (rs_next_off rs) \<and> unat (rs_next_off rs) \<le> 0x03000000
     \<and> 4096 dvd unat (rs_next_off rs)
     \<and> (\<forall>s < 128. rt_sealed (rs_tiles rs ! s) \<longrightarrow> s < rs_next_slot rs \<and> tile_intact d (unat (rs_next_off rs)) (rs_tiles rs ! s))
     \<and> (\<forall>s < 128. \<forall>s' < s. rt_sealed (rs_tiles rs ! s) \<longrightarrow> rt_sealed (rs_tiles rs ! s')
          \<longrightarrow> tile_end (rs_tiles rs ! s') \<le> unat (rt_qs_off (rs_tiles rs ! s)))"

lemma read_bytes_above: "above lo d d' \<Longrightarrow> p + n \<le> lo \<Longrightarrow> read_bytes p n d' = read_bytes p n d"
  by (rule nth_equalityI) (auto simp: above_def read_bytes_def)

lemma tile_intact_above:
  assumes "above lo d d'" and "tile_intact d lim t" and "lim \<le> lo" and "lim \<le> lim'"
  shows "tile_intact d' lim' t"
proof -
  have t: "unat (rt_scale_off t) = unat (rt_qs_off t) + pad4096 (unat (rt_qs_bytes t))"
    "unat (rt_allocation_bytes t) = pad4096 (unat (rt_qs_bytes t)) + pad4096 (unat (rt_scale_bytes t))" "tile_end t \<le> lim"
    using assms(2) by (auto simp: tile_intact_def)
  note pad = pad4096_facts(1)[of "unat (rt_qs_bytes t)"] pad4096_facts(1)[of "unat (rt_scale_bytes t)"]
  have "unat (rt_qs_off t) + unat (rt_qs_bytes t) \<le> lo" "unat (rt_scale_off t) + unat (rt_scale_bytes t) \<le> lo"
    using t pad assms(3) by (simp_all add: tile_end_def)
  then have "tile_qs d' t = tile_qs d t" "tile_scales d' t = tile_scales d t"
    using read_bytes_above[OF assms(1)] by (simp_all add: tile_qs_def tile_scales_def)
  then show ?thesis using assms(2,4) by (simp add: tile_intact_def)
qed

lemma residency_ok_above:
  assumes "residency_ok d rs" and "above (unat (rs_next_off rs)) d d'"
  shows "residency_ok d' rs"
proof -
  have "tile_intact d' (unat (rs_next_off rs)) t" if "tile_intact d (unat (rs_next_off rs)) t" for t
    by (rule tile_intact_above[OF assms(2) that order_refl order_refl])
  then show ?thesis using assms(1) above_ddr_ok[OF assms(2)] unfolding residency_ok_def by blast
qed

text \<open>Counting and the fields the invariant does not mention.\<close>

lemma count_fields [simp]:
  "rs_enabled (count xs rs) = rs_enabled rs" "rs_epoch (count xs rs) = rs_epoch rs" "rs_protocol (count xs rs) = rs_protocol rs"
  "rs_bitstream (count xs rs) = rs_bitstream rs" "rs_abi (count xs rs) = rs_abi rs" "rs_tiles (count xs rs) = rs_tiles rs"
  "rs_index (count xs rs) = rs_index rs" "rs_next_slot (count xs rs) = rs_next_slot rs"
  "rs_next_off (count xs rs) = rs_next_off rs" "rs_verify_metadata (count xs rs) = rs_verify_metadata rs"
  "rs_budget_mb (count xs rs) = rs_budget_mb rs" "rs_pingpong (count xs rs) = rs_pingpong rs"
  by (simp_all add: count_def)

lemma residency_ok_count [simp]: "residency_ok d (count xs rs) = residency_ok d rs"
  by (simp add: residency_ok_def)

lemma poison_fields [simp]:
  "rs_epoch (residency_poison_slot slot rs) = rs_epoch rs" "rs_next_slot (residency_poison_slot slot rs) = rs_next_slot rs"
  "rs_next_off (residency_poison_slot slot rs) = rs_next_off rs" "rs_index (residency_poison_slot slot rs) = rs_index rs"
  "length (rs_tiles (residency_poison_slot slot rs)) = length (rs_tiles rs)"
  by (simp_all add: residency_poison_slot_def)

lemma poison_sealed:
  assumes "s < length (rs_tiles rs)"
  shows "rt_sealed (rs_tiles (residency_poison_slot slot rs) ! s) \<longleftrightarrow> rt_sealed (rs_tiles rs ! s) \<and> s \<noteq> unat slot"
    and "s \<noteq> unat slot \<Longrightarrow> rs_tiles (residency_poison_slot slot rs) ! s = rs_tiles rs ! s"
  using assms by (auto simp: residency_poison_slot_def nth_list_update)

lemma residency_ok_poison: "residency_ok d rs \<Longrightarrow> residency_ok d (residency_poison_slot slot rs)"
  by (simp add: residency_ok_def poison_sealed cong: conj_cong)

text \<open>Reserving a slot and a range keeps the invariant, whatever becomes of the slot.\<close>

lemma residency_ok_reserve:
  assumes "residency_ok d rs" and "unat (rs_next_off rs) \<le> unat e" and "unat e \<le> 0x03000000" and "4096 dvd unat e"
    and "rs_next_slot rs < 128"
  shows "residency_ok d (rs\<lparr>rs_next_slot := rs_next_slot rs + 1, rs_next_off := e\<rparr>)"
  using assms tile_intact_above[OF above_refl _ order_refl assms(2)]
  by (auto simp: residency_ok_def less_Suc_eq)

lemma residency_ok_reserve_slot:
  assumes "residency_ok d rs" and "rs_next_slot rs < 128"
  shows "residency_ok d (rs\<lparr>rs_next_slot := rs_next_slot rs + 1\<rparr>)"
  using assms by (auto simp: residency_ok_def less_Suc_eq)

text \<open>Publishing an intact tile in the slot and range just reserved.\<close>

lemma residency_ok_publish:
  assumes ok: "residency_ok d rs" and lo: "\<And>s. s < 128 \<Longrightarrow> rt_sealed (rs_tiles rs ! s) \<Longrightarrow> tile_end (rs_tiles rs ! s) \<le> unat (rt_qs_off t)"
    and slot: "unat slot < rs_next_slot rs" "\<And>s. unat slot < s \<Longrightarrow> s < 128 \<Longrightarrow> \<not> rt_sealed (rs_tiles rs ! s)"
    and t: "tile_intact d (unat (rs_next_off rs)) t" and b: "b < INDEX_BUCKETS"
  shows "residency_ok d (publish_tile slot b t rs)"
proof -
  have len: "length (rs_tiles rs) = 128" "unat slot < 128" using ok slot(1) by (auto simp: residency_ok_def)
  let ?T = "(rs_tiles rs)[unat slot := t]"
  have at: "?T ! s = (if s = unat slot then t else rs_tiles rs ! s)" if "s < 128" for s
    using that len by (simp add: nth_list_update)
  have tiles: "\<forall>s < 128. rt_sealed (?T ! s) \<longrightarrow> s < rs_next_slot rs \<and> tile_intact d (unat (rs_next_off rs)) (?T ! s)"
  proof (intro allI impI)
    fix s :: nat assume s: "s < 128" "rt_sealed (?T ! s)"
    show "s < rs_next_slot rs \<and> tile_intact d (unat (rs_next_off rs)) (?T ! s)"
    proof (cases "s = unat slot")
      case False
      then show ?thesis using ok s at[of s] by (simp add: residency_ok_def)
    qed (use slot(1) t at s in simp)
  qed
  have order: "tile_end (?T ! s') \<le> unat (rt_qs_off (?T ! s))"
    if s: "s < 128" "s' < s" "rt_sealed (?T ! s)" "rt_sealed (?T ! s')" for s s'
  proof -
    consider "s = unat slot" | "s' = unat slot" "s \<noteq> unat slot" | "s \<noteq> unat slot" "s' \<noteq> unat slot" by blast
    then show ?thesis
    proof cases
      case 1
      then show ?thesis using lo[of s'] s at[of s] at[of s'] by simp
    next
      case 2
      then show ?thesis using slot(2)[of s] s at[of s] by simp
    next
      case 3
      then show ?thesis using ok s at[of s] at[of s'] by (simp add: residency_ok_def)
    qed
  qed
  show ?thesis
    using ok len tiles order b unfolding publish_tile_def residency_ok_count by (simp add: residency_ok_def)
qed

subsection \<open>One build\<close>

text \<open>The device disturbs nothing below the range being built.\<close>

definition settles_above :: "nat \<Rightarrow> build_env \<Rightarrow> bool" where
  "settles_above lo env \<longleftrightarrow> (\<forall>d. above lo d (d\<lparr>dm_bytes := be_settle env (dm_bytes d)\<rparr>))"

lemma seal_tile_fields [simp]:
  "rt_sealed (seal_tile t p)" "rt_poisoned (seal_tile t p) = rt_poisoned t" "rt_enabled (seal_tile t p) = rt_enabled t"
  "\<not> rt_building (seal_tile t p)" "rt_qs_off (seal_tile t p) = rt_qs_off t" "rt_scale_off (seal_tile t p) = rt_scale_off t"
  "rt_qs_bytes (seal_tile t p) = rt_qs_bytes t" "rt_scale_bytes (seal_tile t p) = rt_scale_bytes t"
  "rt_allocation_bytes (seal_tile t p) = rt_allocation_bytes t" "rt_tensor (seal_tile t p) = rt_tensor t"
  "rt_data (seal_tile t p) = rt_data t" "rt_type (seal_tile t p) = rt_type t" "rt_ne (seal_tile t p) = rt_ne t"
  "rt_nb (seal_tile t p) = rt_nb t" "rt_layout_version (seal_tile t p) = rt_layout_version t"
  "rt_row0 (seal_tile t p) = rt_row0 t" "rt_rows (seal_tile t p) = rt_rows t" "rt_k_block0 (seal_tile t p) = rt_k_block0 t"
  "rt_group_blocks (seal_tile t p) = rt_group_blocks t" "rt_group_beats (seal_tile t p) = rt_group_beats t"
  "rt_epoch (seal_tile t p) = rt_epoch t" "rt_stream_protocol (seal_tile t p) = rt_stream_protocol t"
  "rt_bitstream_id (seal_tile t p) = rt_bitstream_id t" "rt_p2_abi (seal_tile t p) = rt_p2_abi t"
  "rt_key_hash (seal_tile t p) = rt_key_hash t" "rt_scale_bits (seal_tile t p) = pl_scale_bits p"
  "rt_scale_count (seal_tile t p) = of_nat (length (pl_scale_bits p))" "rt_metadata_validated_epoch (seal_tile t p) = rt_epoch t"
  by (simp_all add: seal_tile_def Let_def)

lemma seal_tile_crc: "rt_crc32 (seal_tile t p) = payload_crc (pl_qs p) (pl_scales p)"
  by (simp add: seal_tile_def Let_def payload_crc_def crc32_update_spec crc32_spec_append)

lemma seal_tile_seals:
  "rt_seal (seal_tile t p) \<noteq> 0" "rt_scale_crc32 (seal_tile t p) = NOT (fpga_crc32_update 0xFFFFFFFF (pl_scales p))"
  "rt_metadata_seal (seal_tile t p) = residency_metadata_seal (rt_seal (seal_tile t p)) (rt_scale_crc32 (seal_tile t p))
     (rt_scale_count (seal_tile t p)) (rt_epoch t)" "rt_metadata_seal (seal_tile t p) \<noteq> 0"
  by (simp_all add: seal_tile_def residency_metadata_seal_def Let_def)

lemma metadata_seal_nonzero [simp]: "residency_metadata_seal a b c d \<noteq> 0"
  by (simp add: residency_metadata_seal_def Let_def)

lemma pending_fields [simp]:
  "rt_enabled (pending_tile rq qb sb qp pb kh rs)" "\<not> rt_poisoned (pending_tile rq qb sb qp pb kh rs)"
  "rt_qs_off (pending_tile rq qb sb qp pb kh rs) = rs_next_off rs"
  "rt_scale_off (pending_tile rq qb sb qp pb kh rs) = ucast (ucast (rs_next_off rs) + qp)"
  "rt_qs_bytes (pending_tile rq qb sb qp pb kh rs) = qb" "rt_scale_bytes (pending_tile rq qb sb qp pb kh rs) = sb"
  "rt_allocation_bytes (pending_tile rq qb sb qp pb kh rs) = pb" "rt_rows (pending_tile rq qb sb qp pb kh rs) = rq_rows rq"
  "rt_group_beats (pending_tile rq qb sb qp pb kh rs) = rq_group_beats rq" "rt_epoch (pending_tile rq qb sb qp pb kh rs) = rs_epoch rs"
  "rt_tensor (pending_tile rq qb sb qp pb kh rs) = gt_ptr (rq_src rq)" "rt_data (pending_tile rq qb sb qp pb kh rs) = gt_data (rq_src rq)"
  "rt_type (pending_tile rq qb sb qp pb kh rs) = gt_type (rq_src rq)" "rt_ne (pending_tile rq qb sb qp pb kh rs) = gt_ne (rq_src rq)"
  "rt_nb (pending_tile rq qb sb qp pb kh rs) = gt_nb (rq_src rq)" "rt_layout_version (pending_tile rq qb sb qp pb kh rs) = LAYOUT_V2"
  "rt_row0 (pending_tile rq qb sb qp pb kh rs) = rq_row0 rq" "rt_k_block0 (pending_tile rq qb sb qp pb kh rs) = rq_k_block0 rq"
  "rt_group_blocks (pending_tile rq qb sb qp pb kh rs) = rq_group_blocks rq" "rt_stream_protocol (pending_tile rq qb sb qp pb kh rs) = rs_protocol rs"
  "rt_bitstream_id (pending_tile rq qb sb qp pb kh rs) = rs_bitstream rs" "rt_p2_abi (pending_tile rq qb sb qp pb kh rs) = rs_abi rs"
  "rt_key_hash (pending_tile rq qb sb qp pb kh rs) = kh"
  by (simp_all add: pending_tile_def blank_tile_def)

lemma write_payload_above:
  assumes run: "write_payload t p d = Some d'" and d: "ddr_ok d"
    and len: "length (pl_qs p) = unat (rt_qs_bytes t)" "length (pl_scales p) = unat (rt_scale_bytes t)"
    and off: "unat (rt_qs_off t) \<le> unat (rt_scale_off t)"
    and dims: "0 < rt_rows t" "rt_rows t \<le> INT_MAX" "0 < rt_group_beats t" "rt_group_beats t \<le> INT_MAX"
  shows "above (unat (rt_qs_off t)) d d'"
proof -
  have fit: "ddr_range_fits (rt_qs_off t) (rt_qs_bytes t) d" "ddr_range_fits (rt_scale_off t) (rt_scale_bytes t) d"
    and zero: "fpga_weight_layout_zero_padded_companion (rt_qs_off t) (rt_rows t) (rt_group_beats t)
       (d\<lparr>dm_bytes := put_bytes (unat (rt_scale_off t)) (pl_scales p) (put_bytes (unat (rt_qs_off t)) (pl_qs p) (dm_bytes d))\<rparr>) = Some d'"
    using run by (auto simp: write_payload_def ddr_ptr_def bind_eq_Some_conv split: if_splits)
  have room: "unat (rt_qs_off t) + length (pl_qs p) \<le> length (dm_bytes d)"
    "unat (rt_scale_off t) + length (pl_scales p) \<le> length (dm_bytes d)"
    using fit len by (simp_all add: ddr_range_fits_value[OF d])
  have "above (unat (rt_qs_off t)) d
      (d\<lparr>dm_bytes := put_bytes (unat (rt_scale_off t)) (pl_scales p) (put_bytes (unat (rt_qs_off t)) (pl_qs p) (dm_bytes d))\<rparr>)"
    using room off by (simp add: above_def length_put_bytes put_bytes_below)
  then show ?thesis using companion_above[OF zero dims order_refl] above_trans by blast
qed

text \<open>What a successful build publishes.\<close>

definition built :: "tile_request \<Rightarrow> u64 \<Rightarrow> u64 \<Rightarrow> u64 \<Rightarrow> u64 \<Rightarrow> u64 \<Rightarrow> build_env \<Rightarrow> nat \<Rightarrow> residency \<Rightarrow> resident_tile \<Rightarrow> ddr_map \<Rightarrow> bool" where
  "built rq qs_bytes scale_bytes qs_padded payload_bytes key_hash env b rs t d' \<longleftrightarrow>
     (\<exists>p. residency_payload rq qs_bytes scale_bytes env = Some p
        \<and> t = seal_tile (pending_tile rq qs_bytes scale_bytes qs_padded payload_bytes key_hash rs) p
        \<and> tile_qs d' t = pl_qs p \<and> tile_scales d' t = pl_scales p
        \<and> ddr_range_fits (rt_qs_off t) qs_bytes d' \<and> ddr_range_fits (rt_scale_off t) scale_bytes d')"

lemma residency_build_ok:
  assumes run: "residency_build rq qs_bytes scale_bytes qs_padded payload_bytes key_hash e b env d rs = Some (slot, d', rs')"
    and ok: "residency_ok d rs" and next_slot: "rs_next_slot rs < 128" and b: "b < INDEX_BUCKETS"
    and rq: "0 < rq_rows rq" "0 < rq_group_beats rq" "request_ok rq"
    and qb: "unat qs_bytes = padded_rows (nat (rq_rows rq)) * nat (rq_group_beats rq) * 16" and sb: "scale_bytes = n * 2"
    and pad: "unat qs_padded = pad4096 (unat qs_bytes)" "unat payload_bytes = pad4096 (unat qs_bytes) + pad4096 (unat scale_bytes)"
    and e: "unat e = unat (rs_next_off rs) + unat payload_bytes" "unat e \<le> 0x03000000"
    and env: "settles_above (unat (rs_next_off rs)) env"
  shows "residency_ok d' rs' \<and> above (unat (rs_next_off rs)) d d'
    \<and> (slot = NO_SLOT \<or> unat slot = rs_next_slot rs \<and> (\<exists>t r. built rq qs_bytes scale_bytes qs_padded payload_bytes key_hash env b
           (rs\<lparr>rs_next_slot := rs_next_slot rs + 1\<rparr>) t d' \<and> rs' = publish_tile slot b t r
           \<and> r = rs\<lparr>rs_next_slot := rs_next_slot rs + 1, rs_next_off := e\<rparr>))"
proof -
  let ?rs1 = "rs\<lparr>rs_next_slot := rs_next_slot rs + 1\<rparr>"
  let ?rs2 = "rs\<lparr>rs_next_slot := rs_next_slot rs + 1, rs_next_off := e\<rparr>"
  let ?t = "pending_tile rq qs_bytes scale_bytes qs_padded payload_bytes key_hash ?rs1"
  let ?slot = "of_nat (rs_next_slot rs) :: u32" and ?lo = "unat (rs_next_off rs)"
  have ok1: "residency_ok d ?rs1" by (rule residency_ok_reserve_slot[OF ok next_slot])
  have geo: "0x01000000 \<le> ?lo" "4096 dvd ?lo" "ddr_ok d" using ok by (auto simp: residency_ok_def)
  have dvd: "4096 dvd unat e" using geo(2) pad4096_facts(2) unfolding e(1) pad(2) by simp
  have ok2: "residency_ok d ?rs2"
    by (rule residency_ok_reserve[OF ok _ e(2) dvd next_slot]) (simp add: e(1))
  have us: "unat ?slot = rs_next_slot rs" using next_slot by (simp add: unsigned_of_nat take_bit_nat_eq_self)
  have fail: "residency_ok x (build_failed ?slot ?rs2)" if "residency_ok x ?rs2" for x
    using residency_ok_poison[OF that] by (simp add: build_failed_def)
  have up: "residency_ok x ?rs2" if "above ?lo d x" for x
  proof -
    have "residency_ok x rs" by (rule residency_ok_above[OF ok that])
    then show ?thesis by (rule residency_ok_reserve[OF _ _ e(2) dvd next_slot]) (simp add: e(1))
  qed
  show ?thesis
  proof (cases "ucast (rs_next_off rs) + qs_padded > 4294967295 \<or> \<not> ddr_range_fits (rt_qs_off ?t) (rt_qs_bytes ?t) d
      \<or> \<not> ddr_range_fits (rt_scale_off ?t) (rt_scale_bytes ?t) d
      \<or> ucast e > P2_WEIGHT_RESIDENCY_END \<or> ucast e > DDR_REGION_SIZE
      \<or> DDR_BASE_PHYS > SIZE_MAX - ucast e \<or> DDR_BASE_PHYS + ucast e > DDR_END_EXCLUSIVE")
    case True
    then have "slot = NO_SLOT \<and> d' = d \<and> rs' = count [MISSES, MISS_RANGE] ?rs1"
      using run by (auto simp: residency_build_def Let_def split: if_splits)
    then show ?thesis using ok1 by simp
  next
    case False
    show ?thesis
    proof (cases "residency_payload rq qs_bytes scale_bytes env")
      case None
      then have "slot = NO_SLOT \<and> d' = d \<and> rs' = count [MISSES, MISS_RANGE] ?rs2"
        using run False by (auto simp: residency_build_def Let_def split: if_splits)
      then show ?thesis using ok2 by simp
    next
      case (Some p)
      obtain d1 where d1: "write_payload ?t p d = Some d1"
        using run False Some by (auto simp: residency_build_def Let_def split: if_splits option.splits)
      let ?d2 = "d1\<lparr>dm_bytes := be_settle env (dm_bytes d1)\<rparr>"
      have "payload_ok (unat qs_bytes) (unat scale_bytes div 2) p"
        by (rule residency_payload_ok[OF rq qb sb Some])
      then have len: "length (pl_qs p) = unat (rt_qs_bytes ?t)" "length (pl_scales p) = unat (rt_scale_bytes ?t)"
        using even_bytes[OF sb] by (simp_all add: payload_ok_def)
      have ub: "unat (ucast (rs_next_off rs) :: u64) = ?lo" by (rule unat_ucast_wide) simp
      have "unat (ucast (rs_next_off rs) + qs_padded) = ?lo + unat qs_padded"
        using e pad by (subst unat_add_no_overflow) (simp_all add: ub)
      moreover have "?lo + unat qs_padded \<le> 0x03000000" using e pad by simp
      ultimately have so: "unat (rt_scale_off ?t) = ?lo + pad4096 (unat qs_bytes)" using pad(1) by (simp add: unat_ucast_mod)
      have "above ?lo d d1"
        using write_payload_above[OF d1 geo(3) len] so rq by (simp add: request_ok_def)
      then have ab: "above ?lo d ?d2" using env above_trans unfolding settles_above_def by blast
      have ok3: "residency_ok ?d2 ?rs2" by (rule up[OF ab])
      have res: "residency_build rq qs_bytes scale_bytes qs_padded payload_bytes key_hash e b env d rs = Some
         (if \<not> be_sync_qs env \<or> \<not> be_sync_scales env then (NO_SLOT, ?d2, build_failed ?slot ?rs2)
          else if read_bytes (unat (rt_qs_off ?t)) (unat qs_bytes) ?d2 \<noteq> pl_qs p then (NO_SLOT, ?d2, build_failed ?slot ?rs2)
          else if read_bytes (unat (rt_scale_off ?t)) (unat scale_bytes) ?d2 \<noteq> pl_scales p then (NO_SLOT, ?d2, build_failed ?slot ?rs2)
          else (?slot, ?d2, publish_tile ?slot b (seal_tile ?t p) ?rs2))"
        using False Some d1 by (simp add: residency_build_def Let_def)
      have runs: "(if \<not> be_sync_qs env \<or> \<not> be_sync_scales env then (NO_SLOT, ?d2, build_failed ?slot ?rs2)
          else if read_bytes (unat (rt_qs_off ?t)) (unat qs_bytes) ?d2 \<noteq> pl_qs p then (NO_SLOT, ?d2, build_failed ?slot ?rs2)
          else if read_bytes (unat (rt_scale_off ?t)) (unat scale_bytes) ?d2 \<noteq> pl_scales p then (NO_SLOT, ?d2, build_failed ?slot ?rs2)
          else (?slot, ?d2, publish_tile ?slot b (seal_tile ?t p) ?rs2)) = (slot, d', rs')"
        using run unfolding res option.inject .
      show ?thesis
      proof (cases "(\<not> be_sync_qs env \<or> \<not> be_sync_scales env) \<or> read_bytes (unat (rt_qs_off ?t)) (unat qs_bytes) ?d2 \<noteq> pl_qs p
          \<or> read_bytes (unat (rt_scale_off ?t)) (unat scale_bytes) ?d2 \<noteq> pl_scales p")
        case True
        then have "slot = NO_SLOT \<and> d' = ?d2 \<and> rs' = build_failed ?slot ?rs2" using runs by (auto split: if_splits)
        then show ?thesis using fail[OF ok3] ab by simp
      next
        case good: False
        let ?s = "seal_tile ?t p"
        have "(?slot, ?d2, publish_tile ?slot b ?s ?rs2) = (slot, d', rs')"
          using runs good by (simp only: simp_thms if_False if_True de_Morgan_disj not_not)
        then have r: "slot = ?slot" "d' = ?d2" "rs' = publish_tile ?slot b ?s ?rs2" unfolding prod.inject by blast+
        have q: "tile_qs ?d2 ?s = pl_qs p" "tile_scales ?d2 ?s = pl_scales p"
          using good by (simp_all add: tile_qs_def tile_scales_def)
        have intact: "tile_intact ?d2 (unat (rs_next_off ?rs2)) ?s"
          using geo so pad e q by (simp add: tile_intact_def seal_tile_crc tile_end_def)
        have "residency_ok ?d2 (publish_tile ?slot b ?s ?rs2)"
        proof (rule residency_ok_publish[OF ok3 _ _ _ intact b])
          fix s :: nat assume s: "s < 128" "rt_sealed (rs_tiles ?rs2 ! s)"
          then show "tile_end (rs_tiles ?rs2 ! s) \<le> unat (rt_qs_off ?s)" using ok by (simp add: residency_ok_def tile_intact_def)
        next
          show "unat ?slot < rs_next_slot ?rs2" by (simp add: us)
        next
          fix s :: nat assume "unat ?slot < s" "s < 128"
          then show "\<not> rt_sealed (rs_tiles ?rs2 ! s)" using ok us by (fastforce simp: residency_ok_def)
        qed
        moreover have "built rq qs_bytes scale_bytes qs_padded payload_bytes key_hash env b ?rs1 ?s ?d2"
          using Some q False above_fits[OF ab] by (simp add: built_def)
        ultimately show ?thesis using r ab us by blast
      qed
    qed
  qed
qed

subsection \<open>A built tile serves its request\<close>

definition scale_bytes_le :: "u16 \<Rightarrow> u8 list" where
  "scale_bytes_le b = [ucast (b AND 0xff), ucast (drop_bit 8 b AND 0xff)]"

lemma scale_bits_crc32: "fpga_p2_residency_scale_bits_crc32 bs = NOT (crc32_spec 0xFFFFFFFF (concat (map scale_bytes_le bs)))"
proof -
  have "fold (\<lambda>bits crc. fpga_crc32_update crc [ucast (bits AND 0xff), ucast (drop_bit 8 bits AND 0xff)]) bs c
      = crc32_spec c (concat (map scale_bytes_le bs))" for c
    by (induction bs arbitrary: c) (simp_all add: crc32_update_spec scale_bytes_le_def crc32_spec_def)
  then show ?thesis by (simp only: fpga_p2_residency_scale_bits_crc32_def)
qed

lemma payload_scales: "payload_ok nq ns p \<Longrightarrow> pl_scales p = concat (map scale_bytes_le (pl_scale_bits p))"
proof -
  assume p: "payload_ok nq ns p"
  have l2: "length (scale_bytes_le b) = 2" for b by (simp add: scale_bytes_le_def)
  have len: "length (concat (map scale_bytes_le (pl_scale_bits p))) = ns * 2"
    using p length_concat_uniform[of "pl_scale_bits p" scale_bytes_le 2] l2 by (simp add: payload_ok_def)
  show ?thesis
  proof (rule nth_equalityI)
    show "length (pl_scales p) = length (concat (map scale_bytes_le (pl_scale_bits p)))" using p len by (simp add: payload_ok_def)
    fix i assume "i < length (pl_scales p)"
    then have i: "i < length (pl_scale_bits p) * 2" "i div 2 < ns" using p by (auto simp: payload_ok_def)
    have c: "concat (map scale_bytes_le (pl_scale_bits p)) ! i = scale_bytes_le (pl_scale_bits p ! (i div 2)) ! (i mod 2)"
      by (rule nth_concat_uniform[OF _ i(1)]) (rule l2)
    have s: "pl_scales p ! (2 * (i div 2)) = ucast (pl_scale_bits p ! (i div 2) AND 0xff)"
      "pl_scales p ! (2 * (i div 2) + 1) = ucast (drop_bit 8 (pl_scale_bits p ! (i div 2)) AND 0xff)"
      using p i(2) unfolding payload_ok_def by blast+
    show "pl_scales p ! i = concat (map scale_bytes_le (pl_scale_bits p)) ! i"
    proof (cases "i mod 2 = 0")
      case True
      then have "2 * (i div 2) = i" by presburger
      then show ?thesis using c s(1) True by (simp add: scale_bytes_le_def)
    next
      case False
      then have "2 * (i div 2) + 1 = i" "i mod 2 = 1" by presburger+
      then show ?thesis using c s(2) by (simp add: scale_bytes_le_def)
    qed
  qed
qed

lemma and_4095: "4096 dvd unat x \<Longrightarrow> x AND 4095 = 0" for x :: u32
proof -
  assume d: "4096 dvd unat x"
  have m: "(4095 :: u32) = mask 12" by (simp add: mask_eq_exp_minus_1)
  have "unat (x AND 4095) = unat x mod 2 ^ 12" unfolding m by (rule unat_and_mask)
  then show ?thesis using d by (simp add: unat_eq_0 dvd_imp_mod_0)
qed

lemma built_serves:
  assumes built: "built rq qs_bytes scale_bytes qs_padded payload_bytes key_hash env b rs t d'"
    and rq: "0 < rq_rows rq" "0 < rq_group_beats rq" "request_ok rq"
    and qb: "unat qs_bytes = padded_rows (nat (rq_rows rq)) * nat (rq_group_beats rq) * 16" and sb: "scale_bytes = n * 2" "scale_bytes \<noteq> 0"
    and al: "residency_align_up qs_bytes WEIGHT_CACHE_ALIGN = Some qs_padded" "residency_align_up scale_bytes WEIGHT_CACHE_ALIGN = Some scale_padded"
    and nw: "\<not> qs_padded > SIZE_MAX - scale_padded" and pb: "payload_bytes = qs_padded + scale_padded"
    and lo: "0x01000000 \<le> unat (rs_next_off rs)" "4096 dvd unat (rs_next_off rs)"
    and e: "unat (rs_next_off rs) + unat payload_bytes \<le> 0x03000000" and epoch: "rs_epoch rs \<noteq> 0"
  shows "host_metadata_valid rs t \<and> residency_identity_matches rs d' t rq qs_bytes scale_bytes"
proof -
  obtain p where p: "residency_payload rq qs_bytes scale_bytes env = Some p"
    and t: "t = seal_tile (pending_tile rq qs_bytes scale_bytes qs_padded payload_bytes key_hash rs) p"
    and fits: "ddr_range_fits (rt_qs_off t) qs_bytes d'" "ddr_range_fits (rt_scale_off t) scale_bytes d'"
    using built by (auto simp: built_def)
  have pok: "payload_ok (unat qs_bytes) (unat scale_bytes div 2) p" by (rule residency_payload_ok[OF rq qb sb(1) p])
  then have len: "length (pl_scale_bits p) = unat scale_bytes div 2" by (simp add: payload_ok_def)
  have small: "unat scale_bytes div 2 < 2 ^ 64" using unat_less_64[of scale_bytes] by simp
  have cnt: "of_nat (length (pl_scale_bits p)) = scale_bytes div 2"
    using small by (simp only: word_unat_eq_iff unat_div unsigned_of_nat len) (simp add: take_bit_nat_eq_self)
  have "0 < unat scale_bytes div 2"
    using even_bytes[OF sb(1)] sb(2) by (metis mult_0_right neq0_conv unat_eq_0)
  then have nz: "scale_bytes div 2 \<noteq> 0" by (simp add: word_unat_eq_iff unat_div)
  have "fpga_p2_residency_scale_bits_crc32 (pl_scale_bits p) = rt_scale_crc32 t"
    unfolding t seal_tile_seals(2) scale_bits_crc32 payload_scales[OF pok, symmetric] crc32_update_spec by (rule refl)
  then have meta: "host_metadata_valid rs t"
    using cnt nz epoch seal_tile_seals(3)
    by (simp add: host_metadata_valid_def host_metadata_shape_valid_def t)
  have pads: "unat qs_padded = pad4096 (unat qs_bytes)" "unat scale_padded = pad4096 (unat scale_bytes)"
    using align_4096[OF al(1)] align_4096[OF al(2)] by simp_all
  have "checked_size_add qs_padded scale_padded = Some payload_bytes" using nw pb by (simp add: checked_size_add_def)
  then have upb: "unat payload_bytes = unat qs_padded + unat scale_padded"
    using pb by (auto simp: checked_size_add_value unat_add_no_overflow)
  let ?off = "rs_next_off rs"
  have uo: "unat (ucast ?off :: u64) = unat ?off" by (rule unat_ucast_wide) simp
  have q: "unat (ucast ?off + qs_padded) = unat ?off + unat qs_padded"
    using e upb by (subst unat_add_no_overflow) (simp_all add: uo)
  have so: "unat (ucast (ucast ?off + qs_padded) :: u32) = unat ?off + unat qs_padded"
    using q e upb by (simp add: unat_ucast_mod)
  have al1: "?off AND 4095 = 0" by (rule and_4095[OF lo(2)])
  have al2: "(ucast (ucast ?off + qs_padded) :: u32) AND 4095 = 0"
    by (rule and_4095) (simp add: so pads(1) lo(2) pad4096_facts(2))
  have so64: "(ucast (ucast (ucast ?off + qs_padded) :: u32) :: u64) = ucast ?off + qs_padded"
    by (simp only: word_unat_eq_iff unat_ucast_wide[of "ucast (ucast ?off + qs_padded) :: u32" ] so q) (simp add: unat_ucast_wide so)
  have base: "WEIGHT_CACHE_BASE \<le> ?off" using lo(1) by (simp add: word_le_nat_alt)
  have a: "unat (ucast ?off + payload_bytes) = unat ?off + unat payload_bytes"
    using e by (subst unat_add_no_overflow) (simp_all add: uo)
  have end_ok: "ucast ?off + payload_bytes \<le> P2_WEIGHT_RESIDENCY_END" using a e by (simp add: word_le_nat_alt)
  have pbeg: "unat (DDR_BASE_PHYS + ucast ?off) = 0x70000000 + unat ?off"
    using e by (subst unat_add_no_overflow) (simp_all add: uo)
  have pend: "unat (DDR_BASE_PHYS + ucast ?off + payload_bytes) = 0x70000000 + unat ?off + unat payload_bytes"
    using e by (subst unat_add_no_overflow) (simp_all add: pbeg)
  have phys: "DDR_BASE_PHYS \<le> DDR_BASE_PHYS + ucast ?off" "DDR_BASE_PHYS + ucast ?off \<le> DDR_BASE_PHYS + ucast ?off + payload_bytes"
    "DDR_BASE_PHYS + ucast ?off + payload_bytes \<le> DDR_END_EXCLUSIVE"
    using e by (simp_all only: word_le_nat_alt pbeg pend) simp_all
  have "0 < unat payload_bytes"
    using upb pads(2) pad4096_facts(3)[of "unat scale_bytes"] sb(2) by (simp add: unat_gt_0)
  then have anz: "payload_bytes \<noteq> 0" by (simp add: unat_gt_0)
  have "residency_identity_matches rs d' t rq qs_bytes scale_bytes"
    using nw al1 al2 so64 base end_ok phys anz fits seal_tile_seals(1)
    by (simp add: residency_identity_matches_def al Let_def t pb)
  then show ?thesis using meta by blast
qed

subsection \<open>One call\<close>

definition stats_only :: "residency \<Rightarrow> residency \<Rightarrow> bool" where
  "stats_only rs rs' \<longleftrightarrow> (\<exists>f. rs' = rs\<lparr>rs_stats := f\<rparr>)"

lemma stats_only_count [simp]: "stats_only rs (count xs rs)" "stats_only rs (count xs (count ys rs))"
  "stats_only rs (count xs (count ys (count zs rs)))"
  by (auto simp: stats_only_def count_def)

lemma stats_only_trans: "stats_only a b \<Longrightarrow> stats_only b c \<Longrightarrow> stats_only a c"
  by (auto simp: stats_only_def)

lemma stats_only_refl [simp]: "stats_only rs rs"
  unfolding stats_only_def by (rule exI[of _ "rs_stats rs"]) simp

lemma valid_cong:
  "rs_epoch a = rs_epoch b \<Longrightarrow> rs_verify_metadata a = rs_verify_metadata b \<Longrightarrow> host_metadata_valid a t = host_metadata_valid b t"
  by (simp only: host_metadata_valid_def)

lemma identity_cong:
  "rs_epoch a = rs_epoch b \<Longrightarrow> rs_protocol a = rs_protocol b \<Longrightarrow> rs_bitstream a = rs_bitstream b \<Longrightarrow> rs_abi a = rs_abi b
    \<Longrightarrow> residency_identity_matches a d t rq qb sb = residency_identity_matches b d t rq qb sb"
  by (simp only: residency_identity_matches_def)

lemma valid_count [simp]: "host_metadata_valid (count xs rs) t = host_metadata_valid rs t"
  "residency_identity_matches (count xs rs) d t rq qb sb = residency_identity_matches rs d t rq qb sb"
  by (rule valid_cong, simp_all) (rule identity_cong, simp_all)

lemma stats_only_fields:
  assumes "stats_only rs rs'"
  shows "rs_tiles rs' = rs_tiles rs" "rs_next_off rs' = rs_next_off rs" "rs_next_slot rs' = rs_next_slot rs" "rs_epoch rs' = rs_epoch rs"
    "residency_ok d rs' = residency_ok d rs" "host_metadata_valid rs' t = host_metadata_valid rs t"
    "residency_identity_matches rs' d t rq qb sb = residency_identity_matches rs d t rq qb sb"
proof -
  obtain f where f: "rs' = rs\<lparr>rs_stats := f\<rparr>" using assms by (auto simp: stats_only_def)
  then show "rs_tiles rs' = rs_tiles rs" "rs_next_off rs' = rs_next_off rs" "rs_next_slot rs' = rs_next_slot rs" "rs_epoch rs' = rs_epoch rs"
    by simp_all
  show "residency_ok d rs' = residency_ok d rs" by (simp add: f residency_ok_def)
  show "host_metadata_valid rs' t = host_metadata_valid rs t" by (rule valid_cong) (simp_all add: f)
  show "residency_identity_matches rs' d t rq qb sb = residency_identity_matches rs d t rq qb sb"
    by (rule identity_cong) (simp_all add: f)
qed

text \<open>A tile that serves a request: sealed, valid on the host side, of the request's identity.\<close>

definition serves :: "residency \<Rightarrow> ddr_map \<Rightarrow> u32 \<Rightarrow> tile_request \<Rightarrow> u64 \<Rightarrow> u64 \<Rightarrow> bool" where
  "serves rs d slot rq qs_bytes scale_bytes \<longleftrightarrow> unat slot < length (rs_tiles rs)
     \<and> host_metadata_valid rs (rs_tiles rs ! unat slot)
     \<and> residency_identity_matches rs d (rs_tiles rs ! unat slot) rq qs_bytes scale_bytes"

lemma serves_stats: "stats_only rs rs' \<Longrightarrow> serves rs' d slot rq qb sb = serves rs d slot rq qb sb"
  by (simp add: serves_def stats_only_fields)

lemma and_1023: "x AND 1023 < (1024 :: nat)"
proof -
  have "(1023 :: nat) = mask 10" by (simp add: mask_eq_exp_minus_1)
  then have "x AND 1023 = x mod 2 ^ 10" by (metis take_bit_eq_mask take_bit_eq_mod)
  then show ?thesis by simp
qed

lemma residency_probe_result:
  assumes "residency_probe rq qs_bytes scale_bytes key_hash d probes rs = (res, rs')"
  shows "(\<exists>b. res = Inr b \<and> stats_only rs rs' \<and> (\<forall>i. b = Some i \<longrightarrow> i < INDEX_BUCKETS))
    \<or> (res = Inl NO_SLOT \<and> stats_only rs rs')
    \<or> (res = Inl INVALID_SLOT \<and> (\<exists>slot r. stats_only rs r \<and> rs' = residency_poison_slot slot r))
    \<or> (\<exists>slot. res = Inl slot \<and> stats_only rs rs' \<and> serves rs d slot rq qs_bytes scale_bytes)"
  using assms
proof (induction probes arbitrary: rs)
  case Nil
  then have "res = Inr None" "rs' = rs" by simp_all
  then show ?case by simp
next
  case (Cons probe probes)
  let ?b = "(residency_bucket key_hash + probe) AND (INDEX_BUCKETS - 1)"
  let ?r = "count [PROBE_COUNT] rs" and ?slot = "rs_index rs ! ?b"
  let ?t = "rs_tiles rs ! unat ?slot"
  have b: "?b < INDEX_BUCKETS" using and_1023 by simp
  consider (free) "?slot = NO_SLOT" | (bad) "?slot \<noteq> NO_SLOT" "length (rs_tiles rs) \<le> unat ?slot"
    | (dead) "?slot \<noteq> NO_SLOT" "\<not> length (rs_tiles rs) \<le> unat ?slot" "rt_poisoned ?t \<or> rt_building ?t \<or> \<not> rt_sealed ?t \<or> \<not> rt_enabled ?t"
    | (other) "?slot \<noteq> NO_SLOT" "\<not> length (rs_tiles rs) \<le> unat ?slot" "\<not> (rt_poisoned ?t \<or> rt_building ?t \<or> \<not> rt_sealed ?t \<or> \<not> rt_enabled ?t)"
        "rt_key_hash ?t \<noteq> key_hash"
    | (same) "?slot \<noteq> NO_SLOT" "\<not> length (rs_tiles rs) \<le> unat ?slot" "\<not> (rt_poisoned ?t \<or> rt_building ?t \<or> \<not> rt_sealed ?t \<or> \<not> rt_enabled ?t)"
        "\<not> rt_key_hash ?t \<noteq> key_hash" by blast
  then show ?case
  proof cases
    case free
    then show ?thesis using Cons.prems b by (auto simp: Let_def)
  next
    case bad
    then show ?thesis using Cons.prems by (auto simp: Let_def)
  next
    case dead
    then have "(res, rs') = (Inl NO_SLOT, count [MISSES, MISS_POISON, HOST_METADATA_INVALIDATIONS] ?r)"
      using Cons.prems by (simp add: Let_def del: de_Morgan_disj)
    then show ?thesis by simp
  next
    case other
    then have "residency_probe rq qs_bytes scale_bytes key_hash d probes (count [MISS_COLLISION] ?r) = (res, rs')"
      using Cons.prems by (simp add: Let_def)
    from Cons.IH[OF this] show ?thesis
      using stats_only_trans[OF stats_only_count(2)[of rs "[MISS_COLLISION]" "[PROBE_COUNT]"]]
        serves_stats[OF stats_only_count(2)[of rs "[MISS_COLLISION]" "[PROBE_COUNT]"]] by blast
  next
    case same
    note live = same
    let ?stale = "rt_epoch ?t \<noteq> rs_epoch rs \<or> rt_stream_protocol ?t \<noteq> rs_protocol rs
      \<or> rt_bitstream_id ?t \<noteq> rs_bitstream rs \<or> rt_p2_abi ?t \<noteq> rs_abi rs"
    consider ?stale | "\<not> ?stale" "\<not> host_metadata_valid rs ?t"
      | "\<not> ?stale" "host_metadata_valid rs ?t" "\<not> residency_identity_matches rs d ?t rq qs_bytes scale_bytes"
      | "\<not> ?stale" "host_metadata_valid rs ?t" "residency_identity_matches rs d ?t rq qs_bytes scale_bytes" by blast
    then show ?thesis
    proof cases
      case 1
      then have "(res, rs') = (Inl NO_SLOT, count [MISSES, MISS_STALE] ?r)"
        using Cons.prems live unfolding residency_probe.simps Let_def count_fields valid_count by (simp only: if_True if_False simp_thms)
      then show ?thesis by simp
    next
      case 2
      then have "(res, rs') = (Inl INVALID_SLOT, residency_poison_slot ?slot (count [MISSES, MISS_MISMATCH] ?r))"
        using Cons.prems live unfolding residency_probe.simps Let_def count_fields valid_count by (simp only: if_True if_False simp_thms)
      then show ?thesis using stats_only_count(2) by blast
    next
      case 3
      then have "(res, rs') = (Inl INVALID_SLOT, residency_poison_slot ?slot (count [MISSES, MISS_MISMATCH] ?r))"
        using Cons.prems live unfolding residency_probe.simps Let_def count_fields valid_count by (simp only: if_True if_False simp_thms)
      then show ?thesis using stats_only_count(2) by blast
    next
      case 4
      then have "(res, rs') = (Inl ?slot, count [HITS, HOST_METADATA_HITS] ?r)"
        using Cons.prems live unfolding residency_probe.simps Let_def count_fields valid_count by (simp only: if_True if_False simp_thms)
      moreover have "serves rs d ?slot rq qs_bytes scale_bytes" using live(2) 4 by (simp add: serves_def)
      ultimately show ?thesis by auto
    qed
  qed
qed

lemma window_zero: "rows \<le> 0 \<or> beats \<le> 0 \<Longrightarrow> weight_window_bytes_for_rows rows beats = 0"
  by (simp add: weight_window_bytes_for_rows_def fpga_weight_layout_payload_bytes_def payload_words_bad)

lemma residency_find_result:
  assumes run: "residency_find rq qb sb qp (qp + sp) env d rs = Some (slot, d', rs')"
    and ok: "residency_ok d rs" and rq: "0 < rq_rows rq" "0 < rq_group_beats rq" "request_ok rq"
    and qb: "unat qb = padded_rows (nat (rq_rows rq)) * nat (rq_group_beats rq) * 16" and sb: "sb = n * 2" "sb \<noteq> 0"
    and al: "residency_align_up qb WEIGHT_CACHE_ALIGN = Some qp" "residency_align_up sb WEIGHT_CACHE_ALIGN = Some sp"
    and nw: "\<not> qp > SIZE_MAX - sp" and env: "settles_above (unat (rs_next_off rs)) env" and epoch: "rs_epoch rs \<noteq> 0"
  shows "residency_ok d' rs' \<and> (slot = NO_SLOT \<or> slot = INVALID_SLOT \<or> serves rs' d' slot rq qb sb)"
proof -
  let ?kh = "residency_key_hash rq qb sb rs"
  obtain res rs1 where probe: "residency_probe rq qb sb ?kh d [0..<INDEX_MAX_PROBES] rs = (res, rs1)" by fastforce
  from residency_probe_result[OF probe] consider
      (free) b where "res = Inr b" "stats_only rs rs1" "\<forall>i. b = Some i \<longrightarrow> i < INDEX_BUCKETS"
    | (miss) "res = Inl NO_SLOT" "stats_only rs rs1"
    | (invalid) bad r where "res = Inl INVALID_SLOT" "stats_only rs r" "rs1 = residency_poison_slot bad r"
    | (hit) s where "res = Inl s" "stats_only rs rs1" "serves rs d s rq qb sb" by blast
  then show ?thesis
  proof cases
    case miss
    then have "slot = NO_SLOT \<and> d' = d \<and> rs' = rs1" using run probe by (simp add: residency_find_def Let_def)
    then show ?thesis using ok miss(2) by (simp add: stats_only_fields)
  next
    case invalid
    then have "slot = INVALID_SLOT \<and> d' = d \<and> rs' = rs1" using run probe by (simp add: residency_find_def Let_def)
    then show ?thesis using ok invalid(2,3) residency_ok_poison[of d r bad] by (simp add: stats_only_fields)
  next
    case hit
    then have "slot = s \<and> d' = d \<and> rs' = rs1" using run probe by (simp add: residency_find_def Let_def)
    then show ?thesis using ok hit(2,3) serves_stats[OF hit(2)] by (simp add: stats_only_fields)
  next
    case free
    have ok1: "residency_ok d rs1" using ok by (simp add: stats_only_fields(5)[OF free(2)])
    show ?thesis
    proof (cases "\<exists>xs. slot = NO_SLOT \<and> d' = d \<and> rs' = count xs rs1")
      case True
      then show ?thesis using ok1 by auto
    next
      case False
      obtain i e where i: "b = Some i" and e: "residency_range_end (rs_next_off rs1) (qp + sp) (ucast (ucast WEIGHT_CACHE_BASE + word_of_int (rs_budget_mb rs1) * 1024 * 1024 :: u64)) = Some e"
        and room: "rs_next_slot rs1 < length (rs_tiles rs1)"
        and bld: "residency_build rq qb sb qp (qp + sp) ?kh e i env d rs1 = Some (slot, d', rs')"
        using run probe free(1) False
        by (auto simp: residency_find_def Let_def split: option.splits if_splits)
      note ev = range_end_value[OF e]
      have "checked_size_add qp sp = Some (qp + sp)" using nw by (simp add: checked_size_add_def)
      then have upb: "unat (qp + sp) = pad4096 (unat qb) + pad4096 (unat sb)"
        using align_4096[OF al(1)] align_4096[OF al(2)] by (auto simp: checked_size_add_value unat_add_no_overflow)
      have len: "length (rs_tiles rs1) = 128" using ok1 by (simp add: residency_ok_def)
      have i': "i < INDEX_BUCKETS" using free(3) i by blast
      have env': "settles_above (unat (rs_next_off rs1)) env" using env by (simp add: stats_only_fields(2)[OF free(2)])
      have room': "rs_next_slot rs1 < 128" using room len by simp
      note res = residency_build_ok[OF bld ok1 room' i' rq qb sb(1) align_4096[OF al(1)] upb ev(1,3) env']
      show ?thesis
      proof (cases "slot = NO_SLOT")
        case True
        then show ?thesis using res by blast
      next
        case False
        let ?r = "rs1\<lparr>rs_next_slot := rs_next_slot rs1 + 1\<rparr>"
        obtain t where t: "unat slot = rs_next_slot rs1" "built rq qb sb qp (qp + sp) ?kh env i ?r t d'"
          "rs' = publish_tile slot i t (rs1\<lparr>rs_next_slot := rs_next_slot rs1 + 1, rs_next_off := e\<rparr>)"
          using res False by blast
        have lo: "0x01000000 \<le> unat (rs_next_off ?r)" "4096 dvd unat (rs_next_off ?r)" using ok1 by (simp_all add: residency_ok_def)
        have le: "unat (rs_next_off ?r) + unat (qp + sp) \<le> 0x03000000" using ev(1,3) by simp
        have ep: "rs_epoch ?r \<noteq> 0" using epoch by (simp add: stats_only_fields(4)[OF free(2)])
        have good: "host_metadata_valid ?r t \<and> residency_identity_matches ?r d' t rq qb sb"
          by (rule built_serves[OF t(2) rq qb sb al nw refl lo le ep])
        have "host_metadata_valid rs' t = host_metadata_valid ?r t" by (rule valid_cong) (simp_all add: t(3) publish_tile_def)
        moreover have "residency_identity_matches rs' d' t rq qb sb = residency_identity_matches ?r d' t rq qb sb"
          by (rule identity_cong) (simp_all add: t(3) publish_tile_def)
        moreover have "rs_tiles rs' ! unat slot = t" "unat slot < length (rs_tiles rs')"
          using room len t(1) by (simp_all add: t(3) publish_tile_def)
        ultimately have "serves rs' d' slot rq qb sb" using good by (simp add: serves_def)
        then show ?thesis using res by blast
      qed
    qed
  qed
qed

lemma residency_select_result:
  assumes run: "residency_select_or_build rq env d rs = Some (slot, d', rs')"
    and ok: "residency_ok d rs" and rq: "request_ok rq" and env: "settles_above (unat (rs_next_off rs)) env" and epoch: "rs_epoch rs \<noteq> 0"
  defines "qb \<equiv> weight_window_bytes_for_rows (rq_rows rq) (rq_group_beats rq)"
    and "sb \<equiv> word_of_int (rq_rows rq) * word_of_int (rq_group_blocks rq) * 2"
  shows "residency_ok d' rs' \<and> (slot = NO_SLOT \<or> slot = INVALID_SLOT \<or> serves rs' d' slot rq qb sb)"
proof (cases "(\<exists>xs. slot = NO_SLOT \<and> d' = d \<and> rs' = count xs rs) \<or> slot = NO_SLOT \<and> d' = d \<and> rs' = rs")
  case True
  then show ?thesis using ok by auto
next
  case False
  have en: "rs_enabled rs"
  proof (rule ccontr)
    assume "\<not> rs_enabled rs"
    then have "residency_select_or_build rq env d rs = Some (NO_SLOT, d, rs)" by (simp add: residency_select_or_build_def)
    then show False using run False by simp
  qed
  obtain qp sp where al: "residency_align_up qb WEIGHT_CACHE_ALIGN = Some qp" "residency_align_up sb WEIGHT_CACHE_ALIGN = Some sp"
    and nw: "\<not> qp > SIZE_MAX - sp" and nz: "qb \<noteq> 0" "sb \<noteq> 0" and find: "residency_find rq qb sb qp (qp + sp) env d rs = Some (slot, d', rs')"
    using run False en unfolding residency_select_or_build_def qb_def[symmetric] sb_def[symmetric] Let_def
    by (auto split: if_splits option.splits)
  have dims: "0 < rq_rows rq" "0 < rq_group_beats rq" using nz(1) window_zero unfolding qb_def by (metis not_le)+
  have qv: "unat qb = padded_rows (nat (rq_rows rq)) * nat (rq_group_beats rq) * 16"
    unfolding qb_def by (rule window_bytes_value) (use dims rq nz(1) in \<open>auto simp: request_ok_def qb_def\<close>)
  show ?thesis
    by (rule residency_find_result[OF find ok dims rq qv sb_def[THEN meta_eq_to_obj_eq] nz(2) al nw env epoch])
qed

subsection \<open>Runs of the directory\<close>

text \<open>
  What happens to the directory and to the DDR after the reset: it is enabled, tiles are looked up or
  built, slots are poisoned, jobs validated, and the staging windows below the cache base are written.
\<close>

inductive residency_step :: "ddr_map \<times> residency \<Rightarrow> ddr_map \<times> residency \<Rightarrow> bool" where
  enable: "residency_step (d, rs) (d, rs\<lparr>rs_enabled := True\<rparr>)"
| select: "request_ok rq \<Longrightarrow> settles_above (unat (rs_next_off rs)) env
    \<Longrightarrow> residency_select_or_build rq env d rs = Some (slot, d', rs') \<Longrightarrow> residency_step (d, rs) (d', rs')"
| poison: "residency_step (d, rs) (d, residency_poison_slot slot rs)"
| validate: "residency_job_still_valid job d rs = (ok, rs') \<Longrightarrow> residency_step (d, rs) (d, rs')"
| staging: "length (dm_bytes d') = length (dm_bytes d) \<Longrightarrow> (\<And>j. 0x01000000 \<le> j \<Longrightarrow> dm_bytes d' ! j = dm_bytes d ! j)
    \<Longrightarrow> residency_step (d, rs) (d', rs)"

definition residency_init :: "ddr_map \<times> residency \<Rightarrow> bool" where
  "residency_init s \<longleftrightarrow> ddr_ok (fst s) \<and> (\<exists>rs. residency_reset rs = Some (snd s))"

definition residency_inv :: "ddr_map \<times> residency \<Rightarrow> bool" where
  "residency_inv s \<longleftrightarrow> residency_ok (fst s) (snd s) \<and> rs_epoch (snd s) \<noteq> 0"

lemma reset_ok: "residency_reset rs0 = Some rs \<Longrightarrow> ddr_ok d \<Longrightarrow> residency_ok d rs \<and> rs_epoch rs \<noteq> 0"
proof -
  assume run: "residency_reset rs0 = Some rs" and d: "ddr_ok d"
  have blank: "\<not> rt_sealed blank_tile" by (simp add: blank_tile_def)
  have "rs_tiles rs = replicate 128 blank_tile" "rs_index rs = replicate INDEX_BUCKETS NO_SLOT" "rs_next_slot rs = 0"
    "rs_next_off rs = WEIGHT_CACHE_BASE" "rs_epoch rs \<noteq> 0"
    using run by (auto simp: residency_reset_def Let_def split: if_splits)
  then show ?thesis using d blank by (simp add: residency_ok_def)
qed

lemma residency_init_inv: "residency_init s \<Longrightarrow> residency_inv s"
  using reset_ok by (auto simp: residency_init_def residency_inv_def)

lemma build_epoch: "residency_build rq qb sb qp pb kh e i env d rs = Some (slot, d', rs') \<Longrightarrow> rs_epoch rs' = rs_epoch rs"
  by (auto simp: residency_build_def Let_def build_failed_def publish_tile_def split: if_splits option.splits)

lemma find_epoch: "residency_find rq qb sb qp pb env d rs = Some (slot, d', rs') \<Longrightarrow> rs_epoch rs' = rs_epoch rs"
proof -
  assume run: "residency_find rq qb sb qp pb env d rs = Some (slot, d', rs')"
  obtain res rs1 where probe: "residency_probe rq qb sb (residency_key_hash rq qb sb rs) d [0..<INDEX_MAX_PROBES] rs = (res, rs1)" by fastforce
  have e1: "rs_epoch rs1 = rs_epoch rs"
    using residency_probe_result[OF probe] by (auto simp: stats_only_fields(4))
  have "rs_epoch rs' = rs_epoch rs1"
    using run probe by (auto simp: residency_find_def Let_def dest: build_epoch split: sum.splits option.splits if_splits)
  then show ?thesis using e1 by simp
qed

lemma select_epoch: "residency_select_or_build rq env d rs = Some (slot, d', rs') \<Longrightarrow> rs_epoch rs' = rs_epoch rs"
  by (auto simp: residency_select_or_build_def Let_def dest: find_epoch split: option.splits if_splits)

lemma tile_intact_staging:
  assumes "length (dm_bytes d') = length (dm_bytes d)" and "\<And>j. 0x01000000 \<le> j \<Longrightarrow> dm_bytes d' ! j = dm_bytes d ! j"
    and "tile_intact d lim t"
  shows "tile_intact d' lim t"
proof -
  have "read_bytes p n d' = read_bytes p n d" if "0x01000000 \<le> p" for p n
    by (rule nth_equalityI) (use that assms(1,2) in \<open>auto simp: read_bytes_def\<close>)
  then have "tile_qs d' t = tile_qs d t" "tile_scales d' t = tile_scales d t"
    using assms(3) by (auto simp: tile_qs_def tile_scales_def tile_intact_def)
  then show ?thesis using assms(3) by (simp add: tile_intact_def)
qed

lemma residency_step_inv: "residency_step s s' \<Longrightarrow> residency_inv s \<Longrightarrow> residency_inv s'"
proof (induction rule: residency_step.induct)
  case (enable d rs)
  then show ?case by (simp add: residency_inv_def residency_ok_def)
next
  case (select rq rs env d slot d' rs')
  then show ?case using residency_select_result[OF select(3)] select_epoch[OF select(3)] by (simp add: residency_inv_def)
next
  case (poison d rs slot)
  then show ?case using residency_ok_poison by (simp add: residency_inv_def)
next
  case (validate job d rs ok rs')
  then have "rs' = rs \<or> rs' = residency_poison_slot (tj_p2_residency_slot job) rs"
    by (auto simp: residency_job_still_valid_def Let_def split: if_splits)
  then show ?case using validate.prems residency_ok_poison by (auto simp: residency_inv_def)
next
  case (staging d' d rs)
  then show ?case using tile_intact_staging[of d' d] by (simp add: residency_inv_def residency_ok_def ddr_ok_def)
qed

interpretation residency: transition_system residency_init residency_step residency_inv
  by unfold_locales (auto intro: residency_init_inv residency_step_inv)

end
