(* ===== verification/Fpga_Build.thy ===== *)
theory Fpga_Build
  imports Fpga_Residency
begin

text \<open>
  What the tile directory builds: the payload of a tile holds every quant of its rows at its layout
  word and every scale at its index, a build in a free bucket succeeds when the device settles the
  writes, and the directory's invariant as properties of whole runs.
\<close>

subsection \<open>The payload is the tile's blocks\<close>

text \<open>The block of a row, and the quant the layout asks for at a beat.\<close>

definition request_block :: "tile_request \<Rightarrow> build_env \<Rightarrow> nat \<Rightarrow> nat \<Rightarrow> int" where
  "request_block rq env row gb = weight_block_from_base (uint (gt_nb (rq_src rq) ! 1)) (be_weight_base env)
     (rq_row0 rq + int row) (rq_k_block0 rq + int gb)"

definition request_lane :: "tile_request \<Rightarrow> build_env \<Rightarrow> nat \<Rightarrow> nat \<Rightarrow> nat \<Rightarrow> u8" where
  "request_lane rq env row b i = q8_qs (be_mem env) (request_block rq env row (b div 2)) (b mod 2 * 16 + i)"

text \<open>A request whose beats are the two halves of its blocks.\<close>

definition request_full :: "tile_request \<Rightarrow> bool" where
  "request_full rq \<longleftrightarrow> request_ok rq \<and> 0 < rq_rows rq \<and> 0 < rq_group_blocks rq \<and> rq_group_beats rq = 2 * rq_group_blocks rq"

text \<open>The payload is written up to beat \<open>kb\<close> and scale \<open>kg\<close> of row \<open>row\<close>, and zero elsewhere.\<close>

definition payload_upto :: "tile_request \<Rightarrow> build_env \<Rightarrow> nat \<Rightarrow> nat \<Rightarrow> nat \<Rightarrow> payload \<Rightarrow> bool" where
  "payload_upto rq env row kb kg p \<longleftrightarrow>
     (\<forall>r < padded_rows (nat (rq_rows rq)). \<forall>b < nat (rq_group_beats rq). \<forall>i < 16.
        pl_qs p ! (layout_index (nat (rq_group_beats rq)) r b * 16 + i)
          = (if r < row \<or> r = row \<and> b < kb then request_lane rq env r b i else 0))
     \<and> (\<forall>r < nat (rq_rows rq). \<forall>g < nat (rq_group_blocks rq). r < row \<or> r = row \<and> g < kg
          \<longrightarrow> pl_scale_bits p ! (r * nat (rq_group_blocks rq) + g) = q8_d (be_mem env) (request_block rq env r g))"

abbreviation request_nq :: "tile_request \<Rightarrow> nat" where
  "request_nq rq \<equiv> padded_rows (nat (rq_rows rq)) * nat (rq_group_beats rq) * 16"

lemma payload_beat_upto:
  assumes full: "request_full rq" and row: "row < nat (rq_rows rq)" and gb: "gb < nat (rq_group_blocks rq)" and beat: "beat < 2"
    and wb: "wb = request_block rq env row gb" and p: "payload_ok (request_nq rq) ns p" "payload_upto rq env row (gb * 2 + beat) kg p"
  shows "\<exists>p'. payload_beat rq env wb row gb beat p = Some p' \<and> payload_ok (request_nq rq) ns p'
    \<and> payload_upto rq env row (gb * 2 + Suc beat) kg p'"
proof -
  let ?B = "nat (rq_group_beats rq)" and ?k = "gb * 2 + beat"
  have rq: "0 < rq_rows rq" "0 < rq_group_beats rq" "rq_rows rq \<le> INT_MAX" "rq_group_beats rq \<le> INT_MAX" "request_ok rq"
    using full by (auto simp: request_full_def request_ok_def)
  have k: "?k < ?B" using full gb beat by (auto simp: request_full_def)
  have rp: "row < padded_rows (nat (rq_rows rq))" using row padded_rows_bounds(1)[of "nat (rq_rows rq)"] by linarith
  have ints: "0 \<le> int row" "0 \<le> int ?k" "int ?k < rq_group_beats rq" using k rq(2) by simp_all
  obtain w where w: "fpga_weight_layout_word_index (rq_rows rq) (rq_group_beats rq) (int row) (int ?k) = Some w"
    "unat w = layout_index ?B row ?k"
    using word_index_value[OF rq(1,3,2,4) ints(1) _ ints(2,3)] rp unfolding nat_int by blast
  let ?lanes = "map (\<lambda>i. q8_qs (be_mem env) wb (beat * 16 + i)) [0..<16]"
  let ?p = "p\<lparr>pl_qs := put_bytes (unat w * 16) ?lanes (pl_qs p)\<rparr>"
  have run: "payload_beat rq env wb row gb beat p = Some ?p" using w by (simp add: payload_beat_def)
  have ok: "payload_ok (request_nq rq) ns ?p"
    by (rule payload_beat_ok[OF rq(1,2,5) _ refl p(1) run]) (use row rq(3) in linarith)
  have less: "layout_index ?B row ?k < padded_rows (nat (rq_rows rq)) * ?B" by (rule layout_index_less[OF rp k])
  then have "(layout_index ?B row ?k + 1) * 16 \<le> request_nq rq" by (intro mult_le_mono1) simp
  then have room: "layout_index ?B row ?k * 16 + length ?lanes \<le> length (pl_qs p)" using p(1) by (simp add: payload_ok_def)
  have lane: "q8_qs (be_mem env) wb (beat * 16 + i) = request_lane rq env row ?k i" for i
    using beat by (simp add: request_lane_def wb)
  have "pl_qs ?p ! (layout_index ?B r b * 16 + i) = (if r < row \<or> r = row \<and> b < gb * 2 + Suc beat then request_lane rq env r b i else 0)"
    if r: "r < padded_rows (nat (rq_rows rq))" "b < ?B" "i < 16" for r b i
  proof (cases "r = row \<and> b = ?k")
    case True
    then show ?thesis using put_bytes_at[OF room, of i] r(3) lane by (simp add: w(2))
  next
    case False
    then have ne: "layout_index ?B r b \<noteq> layout_index ?B row ?k" using layout_index_inj r(2) k by blast
    then have out: "layout_index ?B r b * 16 + i < layout_index ?B row ?k * 16
        \<or> layout_index ?B row ?k * 16 + length ?lanes \<le> layout_index ?B r b * 16 + i"
      using r(3) by (simp add: nat_neq_iff) linarith
    have "(layout_index ?B r b + 1) * 16 \<le> request_nq rq" using layout_index_less[OF r(1,2)] by (intro mult_le_mono1) simp
    then have "layout_index ?B r b * 16 + i < length (pl_qs p)" using r(3) p(1) by (simp add: payload_ok_def)
    then have "pl_qs ?p ! (layout_index ?B r b * 16 + i) = pl_qs p ! (layout_index ?B r b * 16 + i)"
      using put_bytes_outside[OF room out] by (simp add: w(2))
    also have "\<dots> = (if r < row \<or> r = row \<and> b < ?k then request_lane rq env r b i else 0)"
      using p(2) r by (simp add: payload_upto_def)
    also have "(r < row \<or> r = row \<and> b < ?k) = (r < row \<or> r = row \<and> b < gb * 2 + Suc beat)" using False by auto
    finally show ?thesis .
  qed
  moreover have "pl_scale_bits ?p = pl_scale_bits p" by simp
  ultimately have "payload_upto rq env row (gb * 2 + Suc beat) kg ?p" using p(2) by (simp add: payload_upto_def)
  then show ?thesis using run ok by blast
qed

lemma pair_index_inj:
  assumes "r * k + g = r' * k + g'" and "g < k" and "g' < (k :: nat)"
  shows "r = r' \<and> g = g'"
proof -
  have "(r * k + g) div k = r" "(r' * k + g') div k = r'" using assms(2,3) by simp_all
  then show ?thesis using assms by simp
qed

lemma payload_block_upto:
  assumes full: "request_full rq" and row: "row < nat (rq_rows rq)" and gb: "gb < nat (rq_group_blocks rq)"
    and ns: "ns = nat (rq_rows rq) * nat (rq_group_blocks rq)"
    and p: "payload_ok (request_nq rq) ns p" "payload_upto rq env row (gb * 2) gb p"
  shows "\<exists>p'. payload_block rq env row gb p = Some p' \<and> payload_ok (request_nq rq) ns p'
    \<and> payload_upto rq env row (Suc gb * 2) (Suc gb) p'"
proof -
  let ?G = "nat (rq_group_blocks rq)" and ?wb = "request_block rq env row gb"
  let ?i = "row * ?G + gb" and ?b = "q8_d (be_mem env) ?wb"
  let ?p = "p\<lparr>pl_scale_bits := (pl_scale_bits p)[?i := ?b],
    pl_scales := (pl_scales p)[?i * 2 := ucast (?b AND 0xff), ?i * 2 + 1 := ucast (drop_bit 8 ?b AND 0xff)]\<rparr>"
  have ok: "payload_ok (request_nq rq) ns ?p"
    using p(1) put_scale_pair[of "pl_scales p" ns "pl_scale_bits p" ?i ?b] by (simp add: payload_ok_def)
  have "(row + 1) * ?G \<le> ns" unfolding ns by (intro mult_le_mono1) (use row in simp)
  then have i: "?i < length (pl_scale_bits p)" using gb p(1) by (simp add: payload_ok_def)
  have upto: "payload_upto rq env row (gb * 2 + 0) (Suc gb) ?p"
  proof -
    have "(pl_scale_bits p)[?i := ?b] ! (r * ?G + g) = q8_d (be_mem env) (request_block rq env r g)"
      if "r < nat (rq_rows rq)" "g < ?G" "r < row \<or> r = row \<and> g < Suc gb" for r g
    proof (cases "r = row \<and> g = gb")
      case True
      then show ?thesis using i by simp
    next
      case False
      then have "r * ?G + g \<noteq> ?i" using pair_index_inj[OF _ that(2) gb] by blast
      moreover have "r < row \<or> r = row \<and> g < gb" using False that(3) by auto
      ultimately show ?thesis using p(2) that(1,2) unfolding payload_upto_def by (simp only: nth_list_update_neq)
    qed
    then show ?thesis using p(2) by (simp add: payload_upto_def)
  qed
  have "\<exists>t. fold_opt (payload_beat rq env ?wb row gb) [0..<2] ?p = Some t
      \<and> (payload_ok (request_nq rq) ns t \<and> payload_upto rq env row (gb * 2 + 2) (Suc gb) t)"
    by (rule fold_opt_upt_total[where P = "\<lambda>k t. payload_ok (request_nq rq) ns t \<and> payload_upto rq env row (gb * 2 + k) (Suc gb) t"])
      (use ok upto payload_beat_upto[OF full row gb _ refl] in auto)
  moreover have "gb * 2 + 2 = Suc gb * 2" by simp
  ultimately show ?thesis unfolding payload_block_def Let_def request_block_def[symmetric] by metis
qed

lemma residency_payload_blocks:
  assumes full: "request_full rq" and qs: "unat qs_bytes = request_nq rq"
    and sc: "scale_bytes = n * 2" "unat scale_bytes = nat (rq_rows rq) * nat (rq_group_blocks rq) * 2"
  shows "\<exists>p. residency_payload rq qs_bytes scale_bytes env = Some p
    \<and> payload_ok (request_nq rq) (nat (rq_rows rq) * nat (rq_group_blocks rq)) p \<and> payload_upto rq env (nat (rq_rows rq)) 0 0 p"
proof -
  let ?R = "nat (rq_rows rq)" and ?G = "nat (rq_group_blocks rq)" and ?B = "nat (rq_group_beats rq)"
  let ?ns = "?R * ?G"
  let ?init = "\<lparr>pl_qs = replicate (unat qs_bytes) 0, pl_scales = replicate (unat scale_bytes) 0,
        pl_scale_bits = replicate (unat (scale_bytes div 2)) 0\<rparr> :: payload"
  let ?P = "\<lambda>row p. payload_ok (request_nq rq) ?ns p \<and> payload_upto rq env row 0 0 p"
  have div2: "unat (scale_bytes div 2) = ?ns" by (simp add: unat_div sc(2))
  have B: "?B = ?G * 2" using full by (auto simp: request_full_def)
  have init: "?P 0 ?init"
  proof -
    have "(layout_index ?B r b + 1) * 16 \<le> request_nq rq" if "r < padded_rows ?R" "b < ?B" for r b
      using layout_index_less[OF that] by (intro mult_le_mono1) simp
    then have "layout_index ?B r b * 16 + i < request_nq rq" if "r < padded_rows ?R" "b < ?B" "i < 16" for r b i
      using that by fastforce
    then show ?thesis by (auto simp: payload_ok_def payload_upto_def qs sc(2) div2)
  qed
  have step: "\<exists>p'. fold_opt (payload_block rq env row) [0..<?G] p = Some p' \<and> ?P (Suc row) p'"
    if row: "row < ?R" and p: "?P row p" for row p
  proof -
    have "\<exists>t. fold_opt (payload_block rq env row) [0..<?G] p = Some t
        \<and> (payload_ok (request_nq rq) ?ns t \<and> payload_upto rq env row (?G * 2) ?G t)"
      by (rule fold_opt_upt_total[where P = "\<lambda>k t. payload_ok (request_nq rq) ?ns t \<and> payload_upto rq env row (k * 2) k t"])
        (use p payload_block_upto[OF full row _ refl] in auto)
    moreover have "payload_upto rq env (Suc row) 0 0 t" if "payload_upto rq env row (?G * 2) ?G t" for t
      using that B by (auto simp: payload_upto_def less_Suc_eq)
    ultimately show ?thesis by blast
  qed
  show ?thesis unfolding residency_payload_def
    by (rule fold_opt_upt_total[where P = ?P]) (use init step in auto)
qed

subsection \<open>The padded companion row is already zero\<close>

lemma store_zero_id:
  "p + 4 * n \<le> length m \<Longrightarrow> (\<And>i. i < 4 * n \<Longrightarrow> m ! (p + i) = 0) \<Longrightarrow> store_words p (replicate n 0) m = m"
proof (induction n arbitrary: p)
  case 0
  then show ?case by simp
next
  case (Suc n)
  have z: "m ! p = 0" "m ! (p + 1) = 0" "m ! (p + 2) = 0" "m ! (p + 3) = 0"
    using Suc.prems(2)[of 0] Suc.prems(2)[of 1] Suc.prems(2)[of 2] Suc.prems(2)[of 3] by simp_all
  have "store32 p 0 m = m[p := m ! p, p + 1 := m ! (p + 1), p + 2 := m ! (p + 2), p + 3 := m ! (p + 3)]"
    unfolding z store32_def by simp
  then have "store32 p 0 m = m" by (simp only: list_update_id)
  moreover have "store_words (p + 4) (replicate n 0) m = m"
  proof (rule Suc.IH)
    show "p + 4 + 4 * n \<le> length m" using Suc.prems(1) by simp
    fix i assume "i < 4 * n"
    then show "m ! (p + 4 + i) = 0" using Suc.prems(2)[of "4 + i"] by (simp add: add.assoc)
  qed
  ultimately show ?case by simp
qed

lemma word_offset_exists:
  assumes dims: "0 < rows" "rows \<le> INT_MAX" "0 < beats" "beats \<le> INT_MAX"
    and r: "0 \<le> r" "nat r < padded_rows (nat rows)" "0 \<le> b" "b < beats"
    and fit: "unat base + layout_index (nat beats) (nat r) (nat b) * 16 \<le> U32_MAX"
  shows "\<exists>off. fpga_weight_layout_word_offset base rows beats r b = Some off
    \<and> unat off = unat base + layout_index (nat beats) (nat r) (nat b) * 16"
proof -
  obtain i where i: "fpga_weight_layout_word_index rows beats r b = Some i"
    "unat i = layout_index (nat beats) (nat r) (nat b)" using word_index_value[OF dims r] by blast
  have m: "unat (i * 16) = unat i * 16" using fit i(2) by (subst unat_mult_no_overflow) auto
  have ub: "unat (ucast base :: u64) = unat base" by (rule unat_ucast_wide) simp
  have s: "unat ((ucast base :: u64) + i * 16) = unat base + unat i * 16"
    using fit i(2) m ub by (subst unat_add_no_overflow) auto
  have small: "\<not> i > SIZE_MAX div 16" using fit i(2) by (simp add: word_less_nat_alt unat_div)
  have le: "\<not> i * 16 > 4294967295" "\<not> (ucast base :: u64) + i * 16 > 4294967295"
    using fit i(2) m s by (simp_all add: word_less_nat_alt)
  have u: "unat (ucast (i * 16) :: u32) = unat i * 16" using m fit i(2) by (simp add: unat_ucast_mod)
  have "unat (base + ucast (i * 16)) = unat base + unat i * 16"
    using fit i(2) u by (subst unat_add_no_overflow) auto
  then show ?thesis using i small le by (simp add: fpga_weight_layout_word_offset_def Let_def)
qed

lemma and_3: "4 dvd unat x \<Longrightarrow> x AND 3 = 0" for x :: u32
proof -
  assume d: "4 dvd unat x"
  have m: "(3 :: u32) = mask 2" by (simp add: mask_eq_exp_minus_1)
  have "unat (x AND 3) = unat x mod 2 ^ 2" unfolding m by (rule unat_and_mask)
  then show ?thesis using d by (simp add: unat_eq_0 dvd_imp_mod_0)
qed

lemma odd_below_padded: "n mod 2 = 1 \<Longrightarrow> n < padded_rows n"
  unfolding padded_rows_def by presburger

lemma odd_padded: "rows AND 1 \<noteq> 0 \<Longrightarrow> 0 < rows \<Longrightarrow> nat rows < padded_rows (nat rows)" for rows :: int
proof -
  assume o: "rows AND 1 \<noteq> 0" and p: "0 < rows"
  then have "rows mod 2 = 1" by (simp add: and_one_eq)
  then have "int (nat rows) mod 2 = 1" using p by simp
  then have "nat rows mod 2 = 1" by presburger
  then show ?thesis by (rule odd_below_padded)
qed

lemma companion_id:
  assumes dims: "0 < rows" "rows \<le> INT_MAX" "0 < beats" "beats \<le> INT_MAX" and d: "ddr_ok d" "dm_mapped d"
    and al: "4 dvd unat base" and room: "unat base + padded_rows (nat rows) * nat beats * 16 \<le> length (dm_bytes d)"
    and small: "unat base + padded_rows (nat rows) * nat beats * 16 \<le> U32_MAX"
    and zero: "\<And>b i. nat rows < padded_rows (nat rows) \<Longrightarrow> b < nat beats \<Longrightarrow> i < 16
        \<Longrightarrow> dm_bytes d ! (unat base + layout_index (nat beats) (nat rows) b * 16 + i) = 0"
  shows "fpga_weight_layout_zero_padded_companion base rows beats d = Some d"
proof (cases "rows AND 1 = 0")
  case True
  then show ?thesis by (simp add: fpga_weight_layout_zero_padded_companion_def)
next
  case False
  note odd = odd_padded[OF False dims(1)]
  let ?f = "\<lambda>beat d. case fpga_weight_layout_word_offset base rows beats rows (int beat) of
             None \<Rightarrow> None | Some off \<Rightarrow> ddr_zero_range32 off 16 d"
  have step: "?f b d = Some d" if b: "b < nat beats" for b
  proof -
    let ?l = "layout_index (nat beats) (nat rows) b"
    have "(?l + 1) * 16 \<le> padded_rows (nat rows) * nat beats * 16"
      using layout_index_less[OF odd b] by (intro mult_le_mono1) simp
    then have l: "unat base + ?l * 16 + 16 \<le> length (dm_bytes d)" "unat base + ?l * 16 \<le> U32_MAX"
      using room small by simp_all
    have ints: "0 \<le> rows" "0 \<le> int b" "int b < beats" using dims(1) b by simp_all
    obtain off where off: "fpga_weight_layout_word_offset base rows beats rows (int b) = Some off" "unat off = unat base + ?l * 16"
      using word_offset_exists[OF dims ints(1) odd ints(2,3)] l(2) unfolding nat_int by blast
    have "off AND 3 = 0" by (rule and_3) (use al off(2) in simp)
    moreover have "ddr_range_fits off 16 d" using l(1) d off(2) by (simp add: ddr_range_fits_value)
    moreover have "store_words (unat off) (replicate 4 0) (dm_bytes d) = dm_bytes d"
      by (rule store_zero_id) (use l(1) off(2) zero[OF odd b] in simp_all)
    ultimately show ?thesis by (simp add: off(1) ddr_zero_range32_def ddr_ptr_def)
  qed
  have "fold_opt ?f [0..<k] d = Some d" if "k \<le> nat beats" for k
    using that step by (induction k) (simp_all add: upt_Suc_append fold_opt_append)
  then show ?thesis using False by (simp add: fpga_weight_layout_zero_padded_companion_def)
qed

lemma padded_rows_pos: "0 < n \<Longrightarrow> 0 < padded_rows n"
  using padded_rows_bounds(1)[of n] by linarith

subsection \<open>A build on a device that settles the writes succeeds\<close>

definition device_settles :: "build_env \<Rightarrow> residency \<Rightarrow> bool" where
  "device_settles env rs \<longleftrightarrow> residency_quiescent env rs \<and> be_sync_qs env \<and> be_sync_scales env \<and> (\<forall>m. be_settle env m = m)"

lemma build_run:
  fixes kh :: u64
  assumes full: "request_full rq" and ok: "ddr_ok d" "dm_mapped d" "0x03000000 \<le> length (dm_bytes d)"
    and lo: "4096 dvd unat (rs_next_off rs)" and dev: "device_settles env rs0"
    and qb: "unat qb = request_nq rq" and sb: "sb = n * 2" "unat sb = nat (rq_rows rq) * nat (rq_group_blocks rq) * 2"
    and pad: "unat qp = pad4096 (unat qb)" "unat pb = pad4096 (unat qb) + pad4096 (unat sb)"
    and e: "unat e = unat (rs_next_off rs) + unat pb" "unat e \<le> 0x03000000"
  defines "t \<equiv> pending_tile rq qb sb qp pb kh (rs\<lparr>rs_next_slot := rs_next_slot rs + 1\<rparr>)"
  shows "\<exists>p d'. residency_build rq qb sb qp pb kh e b env d rs = Some (of_nat (rs_next_slot rs), d',
        publish_tile (of_nat (rs_next_slot rs)) b (seal_tile t p) (rs\<lparr>rs_next_slot := rs_next_slot rs + 1, rs_next_off := e\<rparr>))
      \<and> residency_payload rq qb sb env = Some p \<and> payload_upto rq env (nat (rq_rows rq)) 0 0 p
      \<and> read_bytes (unat (rs_next_off rs)) (request_nq rq) d' = pl_qs p \<and> length (dm_bytes d') = length (dm_bytes d)
      \<and> length (pl_scale_bits p) = nat (rq_rows rq) * nat (rq_group_blocks rq)"
proof -
  let ?R = "nat (rq_rows rq)" and ?B = "nat (rq_group_beats rq)" and ?lo = "unat (rs_next_off rs)"
  have rq: "0 < rq_rows rq" "rq_rows rq \<le> INT_MAX" "0 < rq_group_beats rq" "rq_group_beats rq \<le> INT_MAX"
    "0 < nat (rq_group_blocks rq)" "0 < ?R"
    using full by (auto simp: request_full_def request_ok_def)
  obtain p where p: "residency_payload rq qb sb env = Some p" "payload_ok (request_nq rq) (?R * nat (rq_group_blocks rq)) p"
    "payload_upto rq env ?R 0 0 p"
    using residency_payload_blocks[OF full qb sb] by blast
  have "0 < padded_rows ?R" by (rule padded_rows_pos[OF rq(6)])
  then have pos: "0 < unat qb" "0 < unat sb" using rq(3,5,6) unfolding qb sb(2) by simp_all
  have u64: "unat (ucast (rs_next_off rs) :: u64) = ?lo" "unat (ucast e :: u64) = unat e" by (rule unat_ucast_wide, simp)+
  have q: "unat (ucast (rs_next_off rs) + qp) = ?lo + unat qp" using e pad by (subst unat_add_no_overflow) (simp_all add: u64)
  have qle: "?lo + unat qp \<le> 0x03000000" using e pad by simp
  have so: "unat (rt_scale_off t) = ?lo + unat qp" using q qle by (simp add: t_def unat_ucast_mod)
  have pads: "unat qb \<le> unat qp" "unat sb \<le> pad4096 (unat sb)" unfolding pad(1) by (rule pad4096_facts)+
  have len: "length (pl_qs p) = unat qb" "length (pl_scales p) = unat sb" using p(2) qb sb(2) by (simp_all add: payload_ok_def)
  have room: "?lo + length (pl_qs p) \<le> length (dm_bytes d)" "?lo + unat qp + length (pl_scales p) \<le> length (dm_bytes d)"
    using len pads pad e ok(3) by simp_all
  let ?m1 = "put_bytes ?lo (pl_qs p) (dm_bytes d)"
  let ?m = "put_bytes (?lo + unat qp) (pl_scales p) ?m1"
  have l1: "length ?m1 = length (dm_bytes d)" by (rule length_put_bytes[OF room(1)])
  then have l2: "length ?m = length (dm_bytes d)" using length_put_bytes[of "?lo + unat qp" "pl_scales p" ?m1] room(2) by simp
  have rd: "take (unat qb) (drop ?lo ?m) = pl_qs p" "take (unat sb) (drop (?lo + unat qp) ?m) = pl_scales p"
    using read_put_above[of "?lo + unat qp" "pl_scales p" ?m1 ?lo "unat qb"] read_put_same[OF room(1)]
      read_put_same[of "?lo + unat qp" "pl_scales p" ?m1] l1 room(2) pads(1) len by simp_all
  let ?d = "d\<lparr>dm_bytes := ?m\<rparr>"
  have "fpga_weight_layout_zero_padded_companion (rs_next_off rs) (rq_rows rq) (rq_group_beats rq) ?d = Some ?d"
  proof (rule companion_id[OF rq(1-4)])
    show "ddr_ok ?d" "dm_mapped ?d" using ok l2 by (simp_all add: ddr_ok_def)
    show "4 dvd unat (rs_next_off rs)" using lo by (rule dvd_trans[rotated]) simp
    show "unat (rs_next_off rs) + padded_rows ?R * ?B * 16 \<le> length (dm_bytes ?d)" using l2 room(1) len qb by simp
    show "unat (rs_next_off rs) + padded_rows ?R * ?B * 16 \<le> U32_MAX" using qle pads(1) qb by simp
    fix b i assume b: "?R < padded_rows ?R" "b < ?B" "i < (16 :: nat)"
    let ?k = "layout_index ?B ?R b * 16 + i"
    have "(layout_index ?B ?R b + 1) * 16 \<le> request_nq rq" using layout_index_less[OF b(1,2)] by (intro mult_le_mono1) simp
    then have k: "?k < unat qb" using b(3) qb by simp
    have "?lo + ?k \<le> length ?m" using k l2 room(1) len by linarith
    then have "take (unat qb) (drop ?lo ?m) ! ?k = ?m ! (?lo + ?k)" using k by (simp only: nth_take nth_drop)
    then have "?m ! (?lo + ?k) = pl_qs p ! ?k" unfolding rd(1) by (rule sym)
    also have "\<dots> = 0" using p(3) b by (simp add: payload_upto_def)
    finally show "dm_bytes ?d ! (unat (rs_next_off rs) + layout_index ?B ?R b * 16 + i) = 0" by (simp add: add.assoc)
  qed
  moreover have fits: "ddr_range_fits (rt_qs_off t) (rt_qs_bytes t) d" "ddr_range_fits (rt_scale_off t) (rt_scale_bytes t) d"
    using ok pos room len so by (simp_all add: ddr_range_fits_value[OF ok(1)]) (simp_all add: t_def)
  ultimately have w: "write_payload t p d = Some ?d"
    using so by (simp add: write_payload_def ddr_ptr_def) (simp add: t_def)
  have big: "\<not> ucast (rt_qs_off t) + qp > 4294967295" using q qle by (simp add: t_def word_less_nat_alt)
  have le: "\<not> ucast e > P2_WEIGHT_RESIDENCY_END" "\<not> ucast e > DDR_REGION_SIZE" "\<not> DDR_BASE_PHYS > SIZE_MAX - ucast e"
    using e(2) u64(2) by (simp_all add: word_less_nat_alt unat_sub word_le_nat_alt)
  have "unat (DDR_BASE_PHYS + ucast e) = 0x70000000 + unat e" using e(2) u64(2) by (subst unat_add_no_overflow) simp_all
  then have phys: "\<not> DDR_BASE_PHYS + ucast e > DDR_END_EXCLUSIVE" using e(2) by (simp add: word_less_nat_alt)
  have sync: "be_sync_qs env" "be_sync_scales env" "be_settle env ?m = ?m" using dev by (simp_all add: device_settles_def)
  have rback: "read_bytes (unat (rt_qs_off t)) (unat qb) ?d = pl_qs p" "read_bytes (unat (rt_scale_off t)) (unat sb) ?d = pl_scales p"
    unfolding read_bytes_def so using rd by (simp_all add: t_def)
  have d2: "?d\<lparr>dm_bytes := be_settle env (dm_bytes ?d)\<rparr> = ?d" using sync(3) by simp
  have "residency_build rq qb sb qp pb kh e b env d rs = Some (of_nat (rs_next_slot rs), ?d,
        publish_tile (of_nat (rs_next_slot rs)) b (seal_tile t p) (rs\<lparr>rs_next_slot := rs_next_slot rs + 1, rs_next_off := e\<rparr>))"
    unfolding residency_build_def Let_def t_def[symmetric]
    using big fits le phys p(1) w d2 sync(1,2) rback by simp
  moreover have "read_bytes ?lo (request_nq rq) ?d = pl_qs p" using rd(1) qb by (simp add: read_bytes_def)
  moreover have "length (pl_scale_bits p) = ?R * nat (rq_group_blocks rq)" using p(2) by (simp add: payload_ok_def)
  ultimately show ?thesis using p(1,3) l2 by fastforce
qed

subsection \<open>A lookup that builds\<close>

abbreviation request_qb :: "tile_request \<Rightarrow> u64" where
  "request_qb rq \<equiv> weight_window_bytes_for_rows (rq_rows rq) (rq_group_beats rq)"

abbreviation request_sb :: "tile_request \<Rightarrow> u64" where
  "request_sb rq \<equiv> word_of_int (rq_rows rq) * word_of_int (rq_group_blocks rq) * 2"

abbreviation request_hash :: "tile_request \<Rightarrow> residency \<Rightarrow> u64" where
  "request_hash rq rs \<equiv> residency_key_hash rq (request_qb rq) (request_sb rq) rs"

text \<open>The bytes a tile occupies: its quants and its scales, each padded to pages.\<close>

definition request_bytes :: "tile_request \<Rightarrow> nat" where
  "request_bytes rq = pad4096 (request_nq rq) + pad4096 (nat (rq_rows rq) * nat (rq_group_blocks rq) * 2)"

definition room_for :: "tile_request \<Rightarrow> ddr_map \<Rightarrow> residency \<Rightarrow> bool" where
  "room_for rq d rs \<longleftrightarrow> dm_mapped d \<and> 0x03000000 \<le> length (dm_bytes d) \<and> rs_next_slot rs < 128
     \<and> 0 \<le> rs_budget_mb rs \<and> rs_budget_mb rs \<le> 32
     \<and> unat (rs_next_off rs) + request_bytes rq \<le> 0x01000000 + nat (rs_budget_mb rs) * 0x100000"

lemma window_bytes_small:
  assumes dims: "0 < rows" "rows \<le> INT_MAX" "0 < beats" "beats \<le> INT_MAX"
    and small: "padded_rows (nat rows) * nat beats * 16 \<le> 0x03000000"
  shows "unat (weight_window_bytes_for_rows rows beats) = padded_rows (nat rows) * nat beats * 16"
proof (rule window_bytes_value[OF dims])
  obtain w where w: "fpga_weight_layout_payload_words rows beats = Some w"
    "unat w = padded_rows (nat rows) * nat beats" using payload_words_value[OF dims] by blast
  have "unat w \<le> 0x03000000" using small unfolding w(2) by linarith
  then have "\<not> w > SIZE_MAX div 16" by (simp add: word_less_nat_alt unat_div)
  then have eq: "weight_window_bytes_for_rows rows beats = w * 16"
    using w(1) by (simp add: weight_window_bytes_for_rows_def fpga_weight_layout_payload_bytes_def)
  have "unat (w * 16) = unat w * 16" using small w(2) by (subst unat_mult_no_overflow) auto
  moreover have "0 < padded_rows (nat rows)" by (rule padded_rows_pos) (use dims(1) in simp)
  then have "0 < unat w" unfolding w(2) using dims by simp
  ultimately show "weight_window_bytes_for_rows rows beats \<noteq> 0" using eq by (auto simp: unat_eq_0[symmetric])
qed

lemma scale_bytes_value:
  assumes "0 \<le> rows" "0 \<le> blocks" and "nat rows * nat blocks * 2 \<le> 0x03000000" and "0 < blocks" "rows \<le> INT_MAX" "blocks \<le> INT_MAX"
  shows "unat (word_of_int rows * word_of_int blocks * 2 :: u64) = nat rows * nat blocks * 2"
proof -
  have u: "unat (word_of_int rows :: u64) = nat rows" "unat (word_of_int blocks :: u64) = nat blocks"
    using assms by (simp_all add: unsigned_of_int take_bit_int_eq_self nat_take_bit_eq)
  have m: "unat (word_of_int rows * word_of_int blocks :: u64) = nat rows * nat blocks"
    using assms(3) u by (subst unat_mult_no_overflow) (simp_all add: mult.commute)
  show ?thesis using assms(3) m by (subst unat_mult_no_overflow) simp_all
qed

lemma align_exists: "unat v \<le> 0x03000000 \<Longrightarrow> \<exists>p. residency_align_up v WEIGHT_CACHE_ALIGN = Some p"
  by (auto simp: residency_align_up_def word_less_nat_alt)

lemma range_end_exists:
  assumes "0x01000000 \<le> unat b" and "0 < unat bytes" and "unat b + unat bytes \<le> unat limit" and "unat limit \<le> 0x03000000"
  shows "\<exists>e. residency_range_end b bytes limit = Some e \<and> unat e = unat b + unat bytes"
proof -
  have ub: "unat (ucast b :: u64) = unat b" "unat (ucast limit :: u64) = unat limit" by (rule unat_ucast_wide, simp)+
  have s: "unat (ucast b + bytes) = unat b + unat bytes"
    using assms by (subst unat_add_no_overflow) (simp_all add: ub)
  have "residency_range_end b bytes limit = Some (ucast (ucast b + bytes))"
    using assms s ub by (simp add: residency_range_end_def Let_def word_less_nat_alt unat_gt_0[symmetric])
  moreover have "unat (ucast (ucast b + bytes) :: u32) = unat b + unat bytes" using assms s by (simp add: unat_ucast_mod)
  ultimately show ?thesis by blast
qed

lemma budget_end:
  assumes "0 \<le> mb" and "mb \<le> 32"
  defines "x \<equiv> ucast WEIGHT_CACHE_BASE + word_of_int mb * 1024 * 1024 :: u64"
  shows "\<not> x > P2_WEIGHT_RESIDENCY_END" and "unat (ucast x :: u32) = 0x01000000 + nat mb * 0x100000"
proof -
  have u: "unat (word_of_int mb :: u64) = nat mb" using assms by (simp add: unsigned_of_int take_bit_int_eq_self nat_take_bit_eq)
  have m: "unat (word_of_int mb * 1024 * 1024 :: u64) = nat mb * 0x100000"
    using assms u by (simp add: mult.assoc) (subst unat_mult_no_overflow, simp_all)
  have b: "unat (ucast WEIGHT_CACHE_BASE :: u64) = 0x01000000" by simp
  have x: "unat x = 0x01000000 + nat mb * 0x100000"
    unfolding x_def using assms m by (subst unat_add_no_overflow) simp_all
  show "\<not> x > P2_WEIGHT_RESIDENCY_END" using x assms by (simp add: word_less_nat_alt)
  show "unat (ucast x :: u32) = 0x01000000 + nat mb * 0x100000" using x assms by (simp add: unat_ucast_mod)
qed

lemma probe_first_free:
  "rs_index rs ! residency_bucket kh = NO_SLOT
    \<Longrightarrow> residency_probe rq qb sb kh d [0..<INDEX_MAX_PROBES] rs = (Inr (Some (residency_bucket kh)), count [PROBE_COUNT] rs)"
proof -
  assume free: "rs_index rs ! residency_bucket kh = NO_SLOT"
  have b: "residency_bucket kh < 1024"
    using and_1023[of "unat kh"] by (simp add: residency_bucket_def unsigned_and_eq)
  have m: "(1023 :: nat) = mask 10" by (simp add: mask_eq_exp_minus_1)
  have "residency_bucket kh AND 1023 = residency_bucket kh"
    using b unfolding m by (simp add: take_bit_eq_mask[symmetric] take_bit_nat_eq_self)
  then show ?thesis using free by (simp add: upt_conv_Cons Let_def)
qed

lemma select_finds:
  assumes full: "request_full rq" and tot: "request_bytes rq \<le> 0x03000000"
  shows "unat (request_qb rq) = request_nq rq" and "unat (request_sb rq) = nat (rq_rows rq) * nat (rq_group_blocks rq) * 2"
    and "\<exists>qp sp. (\<forall>env d rs. rs_enabled rs \<longrightarrow> residency_select_or_build rq env d rs
           = residency_find rq (request_qb rq) (request_sb rq) qp (qp + sp) env d rs)
         \<and> unat qp = pad4096 (unat (request_qb rq)) \<and> unat (qp + sp) = request_bytes rq \<and> 0 < unat (qp + sp)"
proof -
  let ?R = "nat (rq_rows rq)" and ?G = "nat (rq_group_blocks rq)"
  let ?qb = "request_qb rq" and ?sb = "request_sb rq"
  have rq: "0 < rq_rows rq" "rq_rows rq \<le> INT_MAX" "0 < rq_group_beats rq" "rq_group_beats rq \<le> INT_MAX"
    "0 < rq_group_blocks rq" "rq_group_blocks rq \<le> INT_MAX"
    using full by (auto simp: request_full_def request_ok_def)
  have nq: "request_nq rq \<le> 0x03000000" "?R * ?G * 2 \<le> 0x03000000"
    using tot pad4096_facts(1)[of "request_nq rq"] pad4096_facts(1)[of "?R * ?G * 2"] unfolding request_bytes_def by linarith+
  show qb: "unat ?qb = request_nq rq" by (rule window_bytes_small[OF rq(1-4) nq(1)])
  show sb: "unat ?sb = ?R * ?G * 2" by (rule scale_bytes_value) (use rq nq(2) in simp_all)
  obtain qp sp where al: "residency_align_up ?qb WEIGHT_CACHE_ALIGN = Some qp" "residency_align_up ?sb WEIGHT_CACHE_ALIGN = Some sp"
    using align_exists[of ?qb] align_exists[of ?sb] nq qb sb by auto
  have pad: "unat qp = pad4096 (unat ?qb)" "unat sp = pad4096 (unat ?sb)" using align_4096[OF al(1)] align_4096[OF al(2)] by simp_all
  have sum: "unat qp + unat sp = request_bytes rq" unfolding pad qb sb request_bytes_def by (rule refl)
  have pb: "unat (qp + sp) = request_bytes rq" using tot sum by (subst unat_add_no_overflow) simp_all
  have nw: "\<not> qp > SIZE_MAX - sp" using tot sum by (simp add: word_less_nat_alt unat_sub word_le_nat_alt)
  have "0 < ?R" "0 < ?G" "0 < nat (rq_group_beats rq)" using rq by simp_all
  moreover have "0 < padded_rows ?R" using calculation by (simp only: padded_rows_pos)
  ultimately have pos: "0 < unat ?qb" "0 < unat ?sb" unfolding qb sb by simp_all
  then have nz: "?qb \<noteq> 0" "?sb \<noteq> 0" by (auto simp only: unat_0 less_irrefl)
  have bpos: "0 < unat (qp + sp)" using pad4096_facts(3)[OF pos(1)] sum pad pb by linarith
  have "residency_select_or_build rq env d rs = residency_find rq ?qb ?sb qp (qp + sp) env d rs" if "rs_enabled rs" for env d rs
    unfolding residency_select_or_build_def Let_def using that al nw nz by simp
  then show "\<exists>qp sp. (\<forall>env d rs. rs_enabled rs \<longrightarrow> residency_select_or_build rq env d rs
           = residency_find rq ?qb ?sb qp (qp + sp) env d rs)
         \<and> unat qp = pad4096 (unat ?qb) \<and> unat (qp + sp) = request_bytes rq \<and> 0 < unat (qp + sp)"
    using pad(1) pb bpos by blast
qed

lemma room_facts:
  assumes "room_for rq d rs"
  shows "unat (rs_next_off rs) + request_bytes rq \<le> 0x03000000" and "request_bytes rq \<le> 0x03000000"
    and "dm_mapped d" and "0x03000000 \<le> length (dm_bytes d)" and "rs_next_slot rs < 128"
    and "0 \<le> rs_budget_mb rs" and "rs_budget_mb rs \<le> 32"
    and "unat (rs_next_off rs) + request_bytes rq \<le> 0x01000000 + nat (rs_budget_mb rs) * 0x100000"
    and "nat (rs_budget_mb rs) * 0x100000 \<le> 0x02000000"
  using assms unfolding room_for_def by linarith+

text \<open>A lookup whose first bucket is free builds the tile there.\<close>

lemma select_builds:
  assumes full: "request_full rq" and ok: "residency_ok d rs" and en: "rs_enabled rs" and room: "room_for rq d rs"
    and dev: "device_settles env rs" and free: "rs_index rs ! residency_bucket (request_hash rq rs) = NO_SLOT"
  shows "\<exists>p d' qp pb e rs1. residency_select_or_build rq env d rs = Some (of_nat (rs_next_slot rs), d',
        publish_tile (of_nat (rs_next_slot rs)) (residency_bucket (request_hash rq rs))
          (seal_tile (pending_tile rq (request_qb rq) (request_sb rq) qp pb (request_hash rq rs) rs1) p) (rs1\<lparr>rs_next_off := e\<rparr>))
      \<and> rs1 = (count [PROBE_COUNT] rs)\<lparr>rs_next_slot := rs_next_slot rs + 1\<rparr>
      \<and> payload_upto rq env (nat (rq_rows rq)) 0 0 p
      \<and> read_bytes (unat (rs_next_off rs)) (request_nq rq) d' = pl_qs p \<and> length (dm_bytes d') = length (dm_bytes d)
      \<and> length (pl_scale_bits p) = nat (rq_rows rq) * nat (rq_group_blocks rq)"
proof -
  let ?qb = "request_qb rq" and ?sb = "request_sb rq" and ?rs = "count [PROBE_COUNT] rs"
  have geo: "0x01000000 \<le> unat (rs_next_off rs)" "4096 dvd unat (rs_next_off rs)" "ddr_ok d" using ok by (auto simp: residency_ok_def)
  note room = room_facts[OF room]
  note size = select_finds[OF full room(2)]
  obtain qp sp where sel: "residency_select_or_build rq env d rs = residency_find rq ?qb ?sb qp (qp + sp) env d rs"
    and pad: "unat qp = pad4096 (unat ?qb)" "unat (qp + sp) = request_bytes rq" "0 < unat (qp + sp)"
    using size(3) en by blast
  note bud = budget_end[OF room(6,7)]
  obtain e where e: "residency_range_end (rs_next_off rs) (qp + sp)
        (ucast (ucast WEIGHT_CACHE_BASE + word_of_int (rs_budget_mb rs) * 1024 * 1024 :: u64)) = Some e"
      "unat e = unat (rs_next_off rs) + unat (qp + sp)"
    using range_end_exists[OF geo(1) pad(3), of "ucast (ucast WEIGHT_CACHE_BASE + word_of_int (rs_budget_mb rs) * 1024 * 1024 :: u64)"]
      bud(2) room(8,9) pad(2) by auto
  have dev': "device_settles env ?rs" using dev by (simp add: device_settles_def residency_quiescent_def)
  have slot: "rs_next_slot rs < length (rs_tiles rs)" using ok room(5) by (simp add: residency_ok_def)
  let ?kh = "request_hash rq rs"
  let ?b = "residency_bucket ?kh"
  have find: "residency_find rq ?qb ?sb qp (qp + sp) env d rs = residency_build rq ?qb ?sb qp (qp + sp) ?kh e ?b env d ?rs"
    using bud(1) e(1) dev' slot unfolding residency_find_def Let_def probe_first_free[OF free] device_settles_def by simp
  have both: "unat (qp + sp) = pad4096 (unat ?qb) + pad4096 (unat ?sb)" using pad(2) size(1,2) by (simp add: request_bytes_def)
  have le: "unat e \<le> 0x03000000" using e(2) pad(2) room(1) by simp
  have c: "rs_next_off ?rs = rs_next_off rs" "rs_next_slot ?rs = rs_next_slot rs" by simp_all
  note run = build_run[OF full geo(3) room(3,4) _ dev' size(1) refl size(2) pad(1) both, of ?rs e ?kh ?b, unfolded c, OF geo(2) e(2) le]
  show ?thesis unfolding sel find using run by blast
qed

text \<open>What the published tile then serves, and that the next lookup finds it.\<close>

lemma request_hash_cong:
  "rs_epoch a = rs_epoch b \<Longrightarrow> rs_protocol a = rs_protocol b \<Longrightarrow> rs_bitstream a = rs_bitstream b \<Longrightarrow> rs_abi a = rs_abi b
    \<Longrightarrow> residency_key_hash rq qb sb a = residency_key_hash rq qb sb b"
  by (simp only: residency_key_hash_def)

lemma publish_fields [simp]:
  "rs_epoch (publish_tile slot b t rs) = rs_epoch rs" "rs_protocol (publish_tile slot b t rs) = rs_protocol rs"
  "rs_bitstream (publish_tile slot b t rs) = rs_bitstream rs" "rs_abi (publish_tile slot b t rs) = rs_abi rs"
  "rs_enabled (publish_tile slot b t rs) = rs_enabled rs" "rs_tiles (publish_tile slot b t rs) = (rs_tiles rs)[unat slot := t]"
  "rs_index (publish_tile slot b t rs) = (rs_index rs)[b := slot]"
  by (simp_all add: publish_tile_def)

lemma probe_hit:
  assumes "serves rs d (rs_index rs ! residency_bucket kh) rq qb sb" and "rs_index rs ! residency_bucket kh \<noteq> NO_SLOT"
    and "rt_key_hash (rs_tiles rs ! unat (rs_index rs ! residency_bucket kh)) = kh"
    and "rt_enabled (rs_tiles rs ! unat (rs_index rs ! residency_bucket kh))"
    and "\<not> rt_building (rs_tiles rs ! unat (rs_index rs ! residency_bucket kh))"
  shows "residency_probe rq qb sb kh d [0..<INDEX_MAX_PROBES] rs
    = (Inl (rs_index rs ! residency_bucket kh), count [HITS, HOST_METADATA_HITS] (count [PROBE_COUNT] rs))"
proof -
  let ?t = "rs_tiles rs ! unat (rs_index rs ! residency_bucket kh)"
  have b: "residency_bucket kh < 1024"
    using and_1023[of "unat kh"] by (simp add: residency_bucket_def unsigned_and_eq)
  have m: "(1023 :: nat) = mask 10" by (simp add: mask_eq_exp_minus_1)
  have at: "residency_bucket kh AND 1023 = residency_bucket kh"
    using b unfolding m by (simp add: take_bit_eq_mask[symmetric] take_bit_nat_eq_self)
  have v: "host_metadata_valid rs ?t" "residency_identity_matches rs d ?t rq qb sb"
    "unat (rs_index rs ! residency_bucket kh) < length (rs_tiles rs)" using assms(1) by (simp_all add: serves_def)
  then have "rt_sealed ?t" "\<not> rt_poisoned ?t" "rt_epoch ?t = rs_epoch rs" "rt_stream_protocol ?t = rs_protocol rs"
    "rt_bitstream_id ?t = rs_bitstream rs" "rt_p2_abi ?t = rs_abi rs"
    by (auto simp: residency_identity_matches_def Let_def split: option.splits if_splits)
  then show ?thesis using assms(2-5) v at by (simp add: upt_conv_Cons Let_def)
qed

text \<open>The state after such a lookup: the invariant, the published tile, and that it serves the request.\<close>

lemma select_builds_state:
  assumes full: "request_full rq" and inv: "residency_inv (d, rs)" and en: "rs_enabled rs" and room: "room_for rq d rs"
    and dev: "device_settles env rs" and free: "rs_index rs ! residency_bucket (request_hash rq rs) = NO_SLOT"
  defines "slot \<equiv> of_nat (rs_next_slot rs) :: u32"
  shows "\<exists>p d' rs' t. residency_select_or_build rq env d rs = Some (slot, d', rs') \<and> residency_inv (d', rs')
    \<and> slot \<noteq> NO_SLOT \<and> slot \<noteq> INVALID_SLOT
    \<and> rs_tiles rs' ! unat slot = t \<and> unat slot < length (rs_tiles rs') \<and> rt_sealed t \<and> rt_scale_bits t = pl_scale_bits p
    \<and> rt_key_hash t = request_hash rq rs' \<and> rt_enabled t \<and> \<not> rt_building t
    \<and> rs_index rs' ! residency_bucket (request_hash rq rs') = slot \<and> rs_enabled rs'
    \<and> serves rs' d' slot rq (request_qb rq) (request_sb rq) \<and> payload_upto rq env (nat (rq_rows rq)) 0 0 p
    \<and> read_bytes (unat (rs_next_off rs)) (request_nq rq) d' = pl_qs p
    \<and> length (pl_scale_bits p) = nat (rq_rows rq) * nat (rq_group_blocks rq) \<and> length (dm_bytes d') = length (dm_bytes d)"
proof -
  have ok: "residency_ok d rs" and ep: "rs_epoch rs \<noteq> 0" using inv by (simp_all add: residency_inv_def)
  obtain p d' qp pb e rs1 where run: "residency_select_or_build rq env d rs = Some (slot, d',
        publish_tile slot (residency_bucket (request_hash rq rs))
          (seal_tile (pending_tile rq (request_qb rq) (request_sb rq) qp pb (request_hash rq rs) rs1) p) (rs1\<lparr>rs_next_off := e\<rparr>))"
      and rs1: "rs1 = (count [PROBE_COUNT] rs)\<lparr>rs_next_slot := rs_next_slot rs + 1\<rparr>"
      and p: "payload_upto rq env (nat (rq_rows rq)) 0 0 p" "read_bytes (unat (rs_next_off rs)) (request_nq rq) d' = pl_qs p"
        "length (pl_scale_bits p) = nat (rq_rows rq) * nat (rq_group_blocks rq)" "length (dm_bytes d') = length (dm_bytes d)"
    using select_builds[OF full ok en room dev free] unfolding slot_def by blast
  let ?t = "seal_tile (pending_tile rq (request_qb rq) (request_sb rq) qp pb (request_hash rq rs) rs1) p"
  let ?rs' = "publish_tile slot (residency_bucket (request_hash rq rs)) ?t (rs1\<lparr>rs_next_off := e\<rparr>)"
  note room = room_facts[OF room]
  have us: "unat slot = rs_next_slot rs" using room(5) by (simp add: slot_def unsigned_of_nat take_bit_nat_eq_self)
  have len: "length (rs_tiles rs) = 128" "length (rs_index rs) = INDEX_BUCKETS" using ok by (simp_all add: residency_ok_def)
  have ne: "slot \<noteq> NO_SLOT" "slot \<noteq> INVALID_SLOT" using us room(5) by (auto simp: word_unat_eq_iff)
  have env: "settles_above (unat (rs_next_off rs)) env" using dev by (simp add: settles_above_def device_settles_def)
  have rqok: "request_ok rq" using full by (simp add: request_full_def)
  have res: "residency_ok d' ?rs'" "serves ?rs' d' slot rq (request_qb rq) (request_sb rq)"
    using residency_select_result[OF run ok rqok env ep] ne by blast+
  have hash: "request_hash rq ?rs' = request_hash rq rs" by (rule request_hash_cong) (simp_all add: rs1)
  have b: "residency_bucket (request_hash rq rs) < INDEX_BUCKETS"
    using and_1023[of "unat (request_hash rq rs)"] by (simp add: residency_bucket_def unsigned_and_eq)
  have tile: "rs_tiles ?rs' ! unat slot = ?t" "unat slot < length (rs_tiles ?rs')" using us len room(5) by (simp_all add: rs1)
  have idx: "rs_index ?rs' ! residency_bucket (request_hash rq ?rs') = slot" using b len unfolding hash by (simp add: rs1)
  have t: "rt_sealed ?t" "rt_scale_bits ?t = pl_scale_bits p" "rt_key_hash ?t = request_hash rq ?rs'" "rt_enabled ?t" "\<not> rt_building ?t"
    unfolding hash by simp_all
  have inv': "residency_inv (d', ?rs')" using res(1) ep by (simp add: residency_inv_def rs1)
  have en': "rs_enabled ?rs'" using en by (simp add: rs1)
  show ?thesis
    by (intro exI conjI; (rule run inv' ne tile t idx en' res(2) p refl)?)
qed

subsection \<open>A sample directory\<close>

definition sample_store :: ddr_map where
  "sample_store = \<lparr>dm_mapped = True, dm_base = 0x7f0000000000, dm_bytes = replicate 0x10000000 0\<rparr>"

definition sample_directory :: residency where
  "sample_directory = \<lparr>rs_enabled = True, rs_verify_metadata = True, rs_pingpong = True, rs_budget_mb = 16, rs_epoch = 1,
     rs_protocol = 2, rs_bitstream = 3, rs_abi = 4, rs_tiles = replicate 128 blank_tile, rs_index = replicate 1024 NO_SLOT,
     rs_tile_count = 0, rs_next_slot = 0, rs_next_off = WEIGHT_CACHE_BASE, rs_logical_bytes = 0, rs_stats = (\<lambda>_. 0)\<rparr>"

definition sample_request :: tile_request where
  "sample_request = \<lparr>rq_src = \<lparr>gt_ptr = 0x5000, gt_data = 0x6000, gt_type = 8, gt_ne = [64, 3, 1, 1], gt_nb = [34, 68, 204, 204]\<rparr>,
     rq_row0 = 0, rq_rows = 3, rq_k_block0 = 0, rq_group_blocks = 2, rq_group_beats = 4\<rparr>"

definition sample_env :: build_env where
  "sample_env = \<lparr>be_status_before = 0, be_bank_stat = 0, be_slot_state = fpga_slot_state_word 0 SLOT_FREE SLOT_FREE, be_desc_flags = 0,
     be_status_after = 0, be_zdma_disabled = True, be_spu_quiescent = True,
     be_final_slot_state = fpga_slot_state_word 0 SLOT_FREE SLOT_FREE, be_final_desc_flags = 0, be_sync_qs = True,
     be_sync_scales = True, be_settle = (\<lambda>m. m), be_mem = (\<lambda>p. word_of_int p), be_weight_base = 0x6000\<rparr>"

lemma sample_reachable:
  "residency_init (sample_store, sample_directory\<lparr>rs_enabled := False\<rparr>)"
  "residency_step\<^sup>*\<^sup>* (sample_store, sample_directory\<lparr>rs_enabled := False\<rparr>) (sample_store, sample_directory)"
  "residency_inv (sample_store, sample_directory)"
proof -
  have r: "residency_reset (sample_directory\<lparr>rs_epoch := 0\<rparr>) = Some (sample_directory\<lparr>rs_enabled := False\<rparr>)"
    by (simp add: residency_reset_def sample_directory_def)
  show i: "residency_init (sample_store, sample_directory\<lparr>rs_enabled := False\<rparr>)"
    unfolding residency_init_def fst_conv snd_conv using r by (auto simp: ddr_ok_def sample_store_def)
  have "(sample_directory\<lparr>rs_enabled := False\<rparr>)\<lparr>rs_enabled := True\<rparr> = sample_directory" by (simp add: sample_directory_def)
  then have "residency_step (sample_store, sample_directory\<lparr>rs_enabled := False\<rparr>) (sample_store, sample_directory)"
    by (metis residency_step.enable)
  then show s: "residency_step\<^sup>*\<^sup>* (sample_store, sample_directory\<lparr>rs_enabled := False\<rparr>) (sample_store, sample_directory)" by blast
  show "residency_inv (sample_store, sample_directory)" by (rule residency.reachable_inv[OF i s])
qed

lemma sample_fits:
  "request_full sample_request" "rs_enabled sample_directory" "room_for sample_request sample_store sample_directory"
  "device_settles sample_env sample_directory"
  "rs_index sample_directory ! residency_bucket (request_hash sample_request sample_directory) = NO_SLOT"
  "rs_next_slot sample_directory = 0" "rs_next_off sample_directory = WEIGHT_CACHE_BASE"
proof -
  show "request_full sample_request" by (simp add: request_full_def request_ok_def sample_request_def)
  show "rs_enabled sample_directory" "rs_next_slot sample_directory = 0" "rs_next_off sample_directory = WEIGHT_CACHE_BASE"
    by (simp_all add: sample_directory_def)
  show "room_for sample_request sample_store sample_directory"
    by (simp add: room_for_def request_bytes_def sample_request_def sample_store_def sample_directory_def pad4096_def padded_rows_def)
  show "device_settles sample_env sample_directory"
    by (simp add: device_settles_def residency_quiescent_def scheduler_registers_idle_def sample_env_def sample_directory_def)
  have "residency_bucket h < 1024" for h using and_1023[of "unat h"] by (simp add: residency_bucket_def unsigned_and_eq)
  then show "rs_index sample_directory ! residency_bucket (request_hash sample_request sample_directory) = NO_SLOT"
    by (simp only: sample_directory_def residency.select_convs nth_replicate)
qed

lemma read_bytes_lane:
  assumes "read_bytes p (request_nq rq) d = qs" and "p + request_bytes rq \<le> 0x03000000" and "0x03000000 \<le> length m"
    and "length (dm_bytes d) = length m"
    and "r < padded_rows (nat (rq_rows rq))" "b < nat (rq_group_beats rq)" "i < 16"
  shows "dm_bytes d ! (p + layout_index (nat (rq_group_beats rq)) r b * 16 + i) = qs ! (layout_index (nat (rq_group_beats rq)) r b * 16 + i)"
proof -
  let ?k = "layout_index (nat (rq_group_beats rq)) r b * 16 + i"
  have "(layout_index (nat (rq_group_beats rq)) r b + 1) * 16 \<le> request_nq rq"
    using layout_index_less[OF assms(5,6)] by (intro mult_le_mono1) simp
  then have k: "?k < request_nq rq" using assms(7) by simp
  have "request_nq rq \<le> request_bytes rq" using pad4096_facts(1)[of "request_nq rq"] by (simp add: request_bytes_def)
  then have "p + ?k \<le> length (dm_bytes d)" using k assms(2,3,4) by linarith
  then have "take (request_nq rq) (drop p (dm_bytes d)) ! ?k = dm_bytes d ! (p + ?k)" using k by (simp only: nth_take nth_drop)
  then show ?thesis using assms(1) by (simp add: read_bytes_def add.assoc)
qed

lemma resident_scale_lane:
  assumes "serves rs d slot rq qb sb" and "rs_tiles rs ! unat slot = t" and "unat slot < length (rs_tiles rs)"
    and "i < length (rt_scale_bits t)"  and "length (rt_scale_bits t) < 2 ^ 64"
  shows "resident_scale_bits slot i rs = Some (rt_scale_bits t ! i)"
proof -
  have v: "host_metadata_shape_valid t" using assms(1,2) by (auto simp: serves_def host_metadata_valid_def split: if_splits)
  then have "unat (rt_scale_count t) = length (rt_scale_bits t)"
    using assms(5) by (simp add: host_metadata_shape_valid_def unsigned_of_nat take_bit_nat_eq_self)
  then show ?thesis using v assms(2-4) by (simp add: resident_scale_bits_def)
qed

subsection \<open>Properties\<close>

text \<open>
  Property C36. However tiles are built, poisoned and used after the reset, the sealed tiles lie in the
  cache region without overlap, and the DDR still holds, for each of them, the payload its checksum
  was computed from.
\<close>

theorem resident_tiles_intact:
  assumes "residency_init s" and "residency_step\<^sup>*\<^sup>* s (d, rs)" and "i < 128" and "rt_sealed (rs_tiles rs ! i)"
  shows "0x01000000 \<le> unat (rt_qs_off (rs_tiles rs ! i)) \<and> tile_end (rs_tiles rs ! i) \<le> 0x03000000
    \<and> rt_crc32 (rs_tiles rs ! i) = payload_crc (tile_qs d (rs_tiles rs ! i)) (tile_scales d (rs_tiles rs ! i))
    \<and> (\<forall>j < 128. j \<noteq> i \<longrightarrow> rt_sealed (rs_tiles rs ! j) \<longrightarrow> tile_end (rs_tiles rs ! i) \<le> unat (rt_qs_off (rs_tiles rs ! j))
         \<or> tile_end (rs_tiles rs ! j) \<le> unat (rt_qs_off (rs_tiles rs ! i)))"
proof -
  have ok: "residency_ok d rs" using residency.reachable_inv[OF assms(1,2)] by (simp add: residency_inv_def)
  then have t: "tile_intact d (unat (rs_next_off rs)) (rs_tiles rs ! i)" "unat (rs_next_off rs) \<le> 0x03000000"
    using assms(3,4) by (auto simp: residency_ok_def)
  have "tile_end (rs_tiles rs ! i) \<le> unat (rt_qs_off (rs_tiles rs ! j)) \<or> tile_end (rs_tiles rs ! j) \<le> unat (rt_qs_off (rs_tiles rs ! i))"
    if "j < 128" "j \<noteq> i" "rt_sealed (rs_tiles rs ! j)" for j
    using ok that assms(3,4) by (cases "j < i") (auto simp: residency_ok_def)
  then show ?thesis using t by (auto simp: tile_intact_def)
qed

lemma sample_built:
  "\<exists>d' rs'. residency_select_or_build sample_request sample_env sample_store sample_directory = Some (0, d', rs')
     \<and> rt_sealed (rs_tiles rs' ! 0) \<and> residency_step\<^sup>*\<^sup>* (sample_store, sample_directory\<lparr>rs_enabled := False\<rparr>) (d', rs')"
proof -
  have rqok: "request_ok sample_request" using sample_fits(1) by (simp add: request_full_def)
  have env: "settles_above (unat (rs_next_off sample_directory)) sample_env"
    using sample_fits(4) by (simp add: settles_above_def device_settles_def)
  obtain d' rs' where r: "residency_select_or_build sample_request sample_env sample_store sample_directory = Some (0, d', rs')"
    "rt_sealed (rs_tiles rs' ! 0)"
    using select_builds_state[OF sample_fits(1) sample_reachable(3) sample_fits(2,3,4,5)] unfolding sample_fits(6) by auto
  have "residency_step (sample_store, sample_directory) (d', rs')" by (rule residency_step.select[OF rqok env r(1)])
  then have "residency_step\<^sup>*\<^sup>* (sample_store, sample_directory\<lparr>rs_enabled := False\<rparr>) (d', rs')"
    by (rule rtranclp.rtrancl_into_rtrancl[OF sample_reachable(2)])
  then show ?thesis using r by blast
qed

lemma resident_tiles_intact_witness:
  "\<exists>d (rs :: residency). rt_sealed (rs_tiles rs ! 0) \<and> 0x01000000 \<le> unat (rt_qs_off (rs_tiles rs ! 0))
     \<and> rt_crc32 (rs_tiles rs ! 0) = payload_crc (tile_qs d (rs_tiles rs ! 0)) (tile_scales d (rs_tiles rs ! 0))"
proof -
  obtain d rs where r: "rt_sealed (rs_tiles rs ! 0)"
    "residency_step\<^sup>*\<^sup>* (sample_store, sample_directory\<lparr>rs_enabled := False\<rparr>) (d, rs)" using sample_built by blast
  have "0x01000000 \<le> unat (rt_qs_off (rs_tiles rs ! 0))
      \<and> rt_crc32 (rs_tiles rs ! 0) = payload_crc (tile_qs d (rs_tiles rs ! 0)) (tile_scales d (rs_tiles rs ! 0))"
    using resident_tiles_intact[OF sample_reachable(1) r(2) _ r(1)] by simp
  then show ?thesis using r(1) by blast
qed

text \<open>
  Property C37. When a lookup or build returns a slot, the slot's tile is sealed and is exactly the tile
  asked for (tensor, data, shape, layout, epoch), never one that merely shares its hash or bucket.
\<close>

theorem select_returns_requested_tile:
  assumes "residency_init s" and "residency_step\<^sup>*\<^sup>* s (d, rs)"
    and "residency_select_or_build rq env d rs = Some (slot, d', rs')" and "slot \<noteq> NO_SLOT" and "slot \<noteq> INVALID_SLOT"
    and "request_ok rq" and "settles_above (unat (rs_next_off rs)) env"
  defines "t \<equiv> rs_tiles rs' ! unat slot"
  shows "unat slot < 128 \<and> rt_sealed t \<and> \<not> rt_poisoned t \<and> rt_tensor t = gt_ptr (rq_src rq) \<and> rt_data t = gt_data (rq_src rq)
    \<and> rt_row0 t = rq_row0 rq \<and> rt_rows t = rq_rows rq \<and> rt_k_block0 t = rq_k_block0 rq
    \<and> rt_group_blocks t = rq_group_blocks rq \<and> rt_group_beats t = rq_group_beats rq \<and> rt_layout_version t = 2
    \<and> rt_epoch t = rs_epoch rs' \<and> rt_crc32 t = payload_crc (tile_qs d' t) (tile_scales d' t)"
proof -
  have inv: "residency_inv (d, rs)" by (rule residency.reachable_inv[OF assms(1,2)])
  note res = residency_select_result[OF assms(3) _ assms(6,7)]
  have ok: "residency_ok d' rs'" and "serves rs' d' slot rq (weight_window_bytes_for_rows (rq_rows rq) (rq_group_beats rq))
      (word_of_int (rq_rows rq) * word_of_int (rq_group_blocks rq) * 2)"
    using res inv assms(4,5) by (auto simp: residency_inv_def)
  then have sv: "unat slot < length (rs_tiles rs')" "residency_identity_matches rs' d' t rq
      (weight_window_bytes_for_rows (rq_rows rq) (rq_group_beats rq)) (word_of_int (rq_rows rq) * word_of_int (rq_group_blocks rq) * 2)"
    by (simp_all add: serves_def t_def)
  have len: "length (rs_tiles rs') = 128" using ok by (simp add: residency_ok_def)
  have ids: "rt_sealed t \<and> \<not> rt_poisoned t \<and> rt_tensor t = gt_ptr (rq_src rq) \<and> rt_data t = gt_data (rq_src rq)
    \<and> rt_row0 t = rq_row0 rq \<and> rt_rows t = rq_rows rq \<and> rt_k_block0 t = rq_k_block0 rq
    \<and> rt_group_blocks t = rq_group_blocks rq \<and> rt_group_beats t = rq_group_beats rq \<and> rt_layout_version t = 2 \<and> rt_epoch t = rs_epoch rs'"
    using sv(2) by (auto simp: residency_identity_matches_def Let_def split: option.splits if_splits)
  then have "tile_intact d' (unat (rs_next_off rs')) t" using ok sv(1) len by (simp add: residency_ok_def t_def)
  then show ?thesis using ids sv(1) len by (simp add: tile_intact_def)
qed

lemma select_returns_requested_tile_witness:
  "\<exists>d' rs'. residency_select_or_build sample_request sample_env sample_store sample_directory = Some (0, d', rs')
     \<and> rt_tensor (rs_tiles rs' ! 0) = 0x5000 \<and> rt_rows (rs_tiles rs' ! 0) = 3 \<and> rt_group_blocks (rs_tiles rs' ! 0) = 2"
proof -
  obtain d' rs' where r: "residency_select_or_build sample_request sample_env sample_store sample_directory = Some (0, d', rs')"
    using sample_built by blast
  have rqok: "request_ok sample_request" using sample_fits(1) by (simp add: request_full_def)
  have env: "settles_above (unat (rs_next_off sample_directory)) sample_env"
    using sample_fits(4) by (simp add: settles_above_def device_settles_def)
  note f = select_returns_requested_tile[OF sample_reachable(1,2) r _ _ rqok env]
  show ?thesis using f r by (intro exI[of _ d'] exI[of _ rs']) (simp add: sample_request_def)
qed

text \<open>
  Property C35. On a device that settles the writes, a lookup whose bucket is free and for which the
  cache has room always builds the tile: the DDR then holds every quant of every requested row at its
  layout word and zeros in the padding row, and the host copy holds every scale.
\<close>

theorem free_bucket_builds_tile:
  assumes "residency_init s" and "residency_step\<^sup>*\<^sup>* s (d, rs)" and "rs_enabled rs" and "request_full rq" and "room_for rq d rs"
    and "device_settles env rs" and "rs_index rs ! residency_bucket (request_hash rq rs) = NO_SLOT"
  shows "\<exists>d' rs'. residency_select_or_build rq env d rs = Some (of_nat (rs_next_slot rs), d', rs')
    \<and> (\<forall>r < padded_rows (nat (rq_rows rq)). \<forall>b < nat (rq_group_beats rq). \<forall>i < 16.
         dm_bytes d' ! (unat (rs_next_off rs) + layout_index (nat (rq_group_beats rq)) r b * 16 + i)
           = (if r < nat (rq_rows rq) then request_lane rq env r b i else 0))
    \<and> (\<forall>r < nat (rq_rows rq). \<forall>g < nat (rq_group_blocks rq).
         resident_scale_bits (of_nat (rs_next_slot rs)) (r * nat (rq_group_blocks rq) + g) rs'
           = Some (q8_d (be_mem env) (request_block rq env r g)))"
proof -
  have inv: "residency_inv (d, rs)" by (rule residency.reachable_inv[OF assms(1,2)])
  let ?slot = "of_nat (rs_next_slot rs) :: u32" and ?R = "nat (rq_rows rq)" and ?G = "nat (rq_group_blocks rq)" and ?B = "nat (rq_group_beats rq)"
  obtain p d' rs' t where run: "residency_select_or_build rq env d rs = Some (?slot, d', rs')" and inv': "residency_inv (d', rs')"
    and t: "rs_tiles rs' ! unat ?slot = t" "unat ?slot < length (rs_tiles rs')" "rt_scale_bits t = pl_scale_bits p"
    and sv: "serves rs' d' ?slot rq (request_qb rq) (request_sb rq)" and p: "payload_upto rq env ?R 0 0 p"
    and rd: "read_bytes (unat (rs_next_off rs)) (request_nq rq) d' = pl_qs p" and len: "length (pl_scale_bits p) = ?R * ?G"
    and same: "length (dm_bytes d') = length (dm_bytes d)"
    using select_builds_state[OF assms(4) inv assms(3,5,6,7)] by blast
  note room = room_facts[OF assms(5)]
  have lanes: "dm_bytes d' ! (unat (rs_next_off rs) + layout_index ?B r b * 16 + i) = (if r < ?R then request_lane rq env r b i else 0)"
    if r: "r < padded_rows ?R" "b < ?B" "i < 16" for r b i
    unfolding read_bytes_lane[OF rd room(1,4) same r] using p r by (simp add: payload_upto_def)
  have small: "length (pl_scale_bits p) < 2 ^ 64"
    using room(2) pad4096_facts(1)[of "?R * ?G * 2"] unfolding len request_bytes_def by simp
  have scales: "resident_scale_bits ?slot (r * ?G + g) rs' = Some (q8_d (be_mem env) (request_block rq env r g))"
    if r: "r < ?R" "g < ?G" for r g
  proof -
    have "(r + 1) * ?G \<le> ?R * ?G" by (intro mult_le_mono1) (use r in simp)
    then have i: "r * ?G + g < length (pl_scale_bits p)" using r(2) len by simp
    have "pl_scale_bits p ! (r * ?G + g) = q8_d (be_mem env) (request_block rq env r g)" using p r by (simp add: payload_upto_def)
    then show ?thesis using resident_scale_lane[OF sv t(1,2)] i small t(3) by simp
  qed
  show ?thesis using run lanes scales by blast
qed

lemma free_bucket_builds_tile_witness:
  "\<exists>d' rs'. residency_select_or_build sample_request sample_env sample_store sample_directory = Some (0, d', rs')
     \<and> dm_bytes d' ! (0x01000000 + 16) = request_lane sample_request sample_env 1 0 0
     \<and> resident_scale_bits 0 5 rs' = Some (q8_d (be_mem sample_env) (request_block sample_request sample_env 2 1))"
proof -
  have dims: "rq_rows sample_request = 3" "rq_group_beats sample_request = 4" "rq_group_blocks sample_request = 2"
    by (simp_all add: sample_request_def)
  obtain d' rs' where r: "residency_select_or_build sample_request sample_env sample_store sample_directory = Some (0, d', rs')"
    and qs: "\<forall>r < padded_rows 3. \<forall>b < 4. \<forall>i < 16. dm_bytes d' ! (0x01000000 + layout_index 4 r b * 16 + i)
        = (if r < 3 then request_lane sample_request sample_env r b i else 0)"
    and sc: "\<forall>r < 3. \<forall>g < 2. resident_scale_bits 0 (r * 2 + g) rs'
        = Some (q8_d (be_mem sample_env) (request_block sample_request sample_env r g))"
    using free_bucket_builds_tile[OF sample_reachable(1,2) sample_fits(2,1,3,4,5)] unfolding sample_fits(6,7) dims by auto
  have "dm_bytes d' ! (0x01000000 + 16) = request_lane sample_request sample_env 1 0 0"
    using qs[rule_format, of 1 0 0] by (simp add: padded_rows_def layout_index_def)
  moreover have "resident_scale_bits 0 5 rs' = Some (q8_d (be_mem sample_env) (request_block sample_request sample_env 2 1))"
    using sc[rule_format, of 2 1] by simp
  ultimately show ?thesis using r by blast
qed

text \<open>
  Property C38. A tile once built is found again: the next lookup for it returns the same slot whatever
  the device does, counts a hit, and touches neither the DDR nor the directory.
\<close>

theorem built_tile_is_found:
  assumes "residency_init s" and "residency_step\<^sup>*\<^sup>* s (d, rs)" and "rs_enabled rs" and "request_full rq" and "room_for rq d rs"
    and "device_settles env rs" and "rs_index rs ! residency_bucket (request_hash rq rs) = NO_SLOT"
    and "residency_select_or_build rq env d rs = Some (slot, d', rs')"
  shows "residency_select_or_build rq env2 d' rs'
    = Some (slot, d', count [HITS, HOST_METADATA_HITS] (count [PROBE_COUNT] rs'))"
proof -
  have inv: "residency_inv (d, rs)" by (rule residency.reachable_inv[OF assms(1,2)])
  let ?kh = "request_hash rq rs'"
  have sl: "rs_tiles rs' ! unat slot = rs_tiles rs' ! unat slot \<and> slot \<noteq> NO_SLOT \<and> rs_enabled rs' \<and> rs_index rs' ! residency_bucket ?kh = slot
      \<and> rt_key_hash (rs_tiles rs' ! unat slot) = ?kh \<and> rt_enabled (rs_tiles rs' ! unat slot) \<and> \<not> rt_building (rs_tiles rs' ! unat slot)
      \<and> serves rs' d' slot rq (request_qb rq) (request_sb rq)"
    using select_builds_state[OF assms(4) inv assms(3,5,6,7)] assms(8) by auto
  have probe: "residency_probe rq (request_qb rq) (request_sb rq) ?kh d' [0..<INDEX_MAX_PROBES] rs'
    = (Inl slot, count [HITS, HOST_METADATA_HITS] (count [PROBE_COUNT] rs'))"
    using probe_hit[of rs' d' ?kh rq "request_qb rq" "request_sb rq"] sl by simp
  show ?thesis using select_finds(3)[OF assms(4) room_facts(2)[OF assms(5)]] sl
    by (auto simp: residency_find_def probe Let_def)
qed

lemma built_tile_is_found_witness:
  "\<exists>d' rs'. residency_select_or_build sample_request sample_env sample_store sample_directory = Some (0, d', rs')
     \<and> residency_select_or_build sample_request (sample_env\<lparr>be_sync_qs := False\<rparr>) d' rs'
         = Some (0, d', count [HITS, HOST_METADATA_HITS] (count [PROBE_COUNT] rs'))"
proof -
  obtain d' rs' where r: "residency_select_or_build sample_request sample_env sample_store sample_directory = Some (0, d', rs')"
    using sample_built by blast
  then show ?thesis using built_tile_is_found[OF sample_reachable(1,2) sample_fits(2,1,3,4,5) r] by blast
qed

end
