(* ===== verification/Fpga_Tiles.thy ===== *)
theory Fpga_Tiles
  imports Prelude
begin

text \<open>
  How a matrix product is cut into tiles (\<^verbatim>\<open>ggml/src/ggml-cpu/fpga_host.cpp\<close>): the group of K blocks a job
  takes, the loops over row tiles and groups that the schedulers share, and the number of jobs. The limits
  come from the device's capability registers.
\<close>

subsection \<open>Tiles\<close>

record vpu_limits =
  vl_max_rows :: int
  vl_max_beats :: int
  vl_max_blocks :: int
  vl_result_words :: int

definition packed_q8_group_blocks_for_rows :: "vpu_limits \<Rightarrow> int \<Rightarrow> int \<Rightarrow> int" where
  "packed_q8_group_blocks_for_rows lim rows remaining_blocks =
     (let beat_limited_blocks = max 1 (vl_max_beats lim div 2);
          result_limited_blocks = max 1 ((vl_result_words lim * 4) div max 1 rows);
          blocks = min (vl_max_blocks lim) beat_limited_blocks;
          blocks = min blocks result_limited_blocks;
          blocks = min blocks remaining_blocks
      in max 1 blocks)"

lemma group_blocks_pos: "0 < packed_q8_group_blocks_for_rows lim rows rest"
  by (simp add: packed_q8_group_blocks_for_rows_def Let_def)

text \<open>
  The iterations of the loop over row tiles, as the values of \<open>row0\<close> and \<open>rows\<close>, and of the loop over K groups,
  as the values of \<open>ib0\<close> and \<open>group_blocks\<close>. The limits are positive; the guard on them makes the recursion
  total.
\<close>

function row_tiles :: "vpu_limits \<Rightarrow> int \<Rightarrow> int \<Rightarrow> (int \<times> int) list" where
  "row_tiles lim n row0 =
     (if row0 < n \<and> 0 < vl_max_rows lim
      then (row0, min (vl_max_rows lim) (n - row0)) # row_tiles lim n (row0 + vl_max_rows lim) else [])"
  by pat_completeness auto
termination by (relation "measure (\<lambda>(lim, n, row0). nat (n - row0))") auto

function k_groups :: "vpu_limits \<Rightarrow> int \<Rightarrow> int \<Rightarrow> int \<Rightarrow> (int \<times> int) list" where
  "k_groups lim rows nb ib0 =
     (if ib0 < nb then let group_blocks = packed_q8_group_blocks_for_rows lim rows (nb - ib0) in
        (ib0, group_blocks) # k_groups lim rows nb (ib0 + group_blocks) else [])"
  by pat_completeness auto
termination by (relation "measure (\<lambda>(lim, rows, nb, ib0). nat (nb - ib0))") (auto simp: group_blocks_pos)

declare row_tiles.simps [simp del] k_groups.simps [simp del]

definition estimate_vpu_runs :: "vpu_limits \<Rightarrow> int \<Rightarrow> int \<Rightarrow> int \<Rightarrow> int" where
  "estimate_vpu_runs lim k n m =
     fold (\<lambda>(row0, rows) runs. fold (\<lambda>g runs. runs + 1) (k_groups lim rows (k div 32) 0) runs) (row_tiles lim n 0) 0 * m"

subsection \<open>The tiles cover the matrix\<close>

text \<open>Limits as the initialisation leaves them: room for one block of a full tile at least.\<close>

definition limits_ok :: "vpu_limits \<Rightarrow> bool" where
  "limits_ok lim \<longleftrightarrow> 0 < vl_max_rows lim \<and> vl_max_rows lim \<le> 256 \<and> 2 \<le> vl_max_beats lim \<and> vl_max_beats lim \<le> 128
     \<and> 0 < vl_max_blocks lim \<and> vl_max_blocks lim \<le> 64 \<and> vl_max_rows lim \<le> vl_result_words lim * 4
     \<and> vl_result_words lim \<le> 4096"

lemma group_blocks_fit:
  assumes "limits_ok lim" and "0 < rows" "rows \<le> vl_max_rows lim" "0 < rest"
  defines "g \<equiv> packed_q8_group_blocks_for_rows lim rows rest"
  shows "0 < g" "g \<le> rest" "g \<le> 64" "2 * g \<le> vl_max_beats lim" "rows * g \<le> vl_result_words lim * 4"
proof -
  have one: "1 \<le> vl_result_words lim * 4 div rows" "1 \<le> vl_max_beats lim div 2"
    using assms(1,2,3) by (simp_all add: limits_ok_def int_one_le_iff_zero_less pos_imp_zdiv_pos_iff)
  then have g: "g = min (min (min (vl_max_blocks lim) (vl_max_beats lim div 2)) (vl_result_words lim * 4 div rows)) rest"
    using assms(1,2,4) by (simp add: g_def packed_q8_group_blocks_for_rows_def Let_def limits_ok_def)
  show "0 < g" unfolding g_def by (rule group_blocks_pos)
  show "g \<le> rest" by (simp add: g)
  have "g \<le> vl_max_blocks lim" unfolding g by (intro min.coboundedI1 order.refl)
  then show "g \<le> 64" using assms(1) by (simp add: limits_ok_def)
  have "g \<le> vl_max_beats lim div 2" by (simp add: g)
  then show "2 * g \<le> vl_max_beats lim" by linarith
  have "rows * g \<le> rows * (vl_result_words lim * 4 div rows)" using assms(2) by (simp add: g)
  also have "\<dots> \<le> vl_result_words lim * 4" using assms(2) mult_div_mod_eq[of rows "vl_result_words lim * 4"] pos_mod_sign[of rows "vl_result_words lim * 4"]
    by linarith
  finally show "rows * g \<le> vl_result_words lim * 4" .
qed

text \<open>Consecutive pieces that start at \<open>a\<close> and end at \<open>b\<close>.\<close>

fun pieces :: "int \<Rightarrow> int \<Rightarrow> (int \<times> int) list \<Rightarrow> bool" where
  "pieces a b [] \<longleftrightarrow> a = b"
| "pieces a b ((start, len) # ps) \<longleftrightarrow> start = a \<and> 0 < len \<and> pieces (a + len) b ps"

lemma row_tiles_pieces:
  assumes "0 < vl_max_rows lim" and "row0 \<le> n"
  shows "pieces row0 n (row_tiles lim n row0) \<and> (\<forall>(r, rows) \<in> set (row_tiles lim n row0). rows \<le> vl_max_rows lim)"
  using assms
proof (induction lim n row0 rule: row_tiles.induct)
  case (1 lim n row0)
  show ?case
  proof (cases "row0 < n")
    case True
    show ?thesis
    proof (cases "row0 + vl_max_rows lim \<le> n")
      case True
      then show ?thesis using 1 \<open>row0 < n\<close> by (subst (1 2) row_tiles.simps) auto
    next
      case False
      then have "row_tiles lim n (row0 + vl_max_rows lim) = []" by (subst row_tiles.simps) simp
      then show ?thesis using 1 False \<open>row0 < n\<close> by (subst (1 2) row_tiles.simps) auto
    qed
  next
    case False
    then have "row_tiles lim n row0 = []" by (subst row_tiles.simps) simp
    then show ?thesis using False 1 by simp
  qed
qed

lemma k_groups_pieces:
  assumes "limits_ok lim" and "0 < rows" "rows \<le> vl_max_rows lim" "ib0 \<le> nb"
  shows "pieces ib0 nb (k_groups lim rows nb ib0) \<and> (\<forall>(ib, g) \<in> set (k_groups lim rows nb ib0). g \<le> 64
    \<and> 2 * g \<le> vl_max_beats lim \<and> rows * g \<le> vl_result_words lim * 4)"
  using assms
proof (induction lim rows nb ib0 rule: k_groups.induct)
  case (1 lim rows nb ib0)
  show ?case
  proof (cases "ib0 < nb")
    case True
    note fit = group_blocks_fit[OF 1(2-4), of "nb - ib0"]
    show ?thesis using True fit 1 by (subst (1 2) k_groups.simps) (auto simp: Let_def)
  next
    case False
    then have "k_groups lim rows nb ib0 = []" by (subst k_groups.simps) simp
    then show ?thesis using False 1 by simp
  qed
qed

lemma pieces_le: "pieces a b ps \<Longrightarrow> a \<le> b"
  by (induction a b ps rule: pieces.induct) auto

lemma pieces_within: "pieces a b ps \<Longrightarrow> (s, l) \<in> set ps \<Longrightarrow> a \<le> s \<and> 0 < l \<and> s + l \<le> b"
proof (induction a b ps rule: pieces.induct)
  case (2 a b start len ps)
  then show ?case using pieces_le[of "a + len" b ps] by auto
qed simp

lemma pieces_unique: "pieces a b ps \<Longrightarrow> a \<le> i \<Longrightarrow> i < b \<Longrightarrow> \<exists>!(s, l). (s, l) \<in> set ps \<and> s \<le> i \<and> i < s + l"
proof (induction a b ps rule: pieces.induct)
  case (2 a b start len ps)
  show ?case
  proof (cases "i < a + len")
    case True
    have "s \<le> i \<Longrightarrow> (s, l) \<notin> set ps" for s l using True 2(2) pieces_within[of "a + len" b ps s l] by auto
    then show ?thesis using True 2 by (intro ex1I[of _ "(start, len)"]) auto
  next
    case False
    then have "\<exists>!(s, l). (s, l) \<in> set ps \<and> s \<le> i \<and> i < s + l" using 2 by auto
    then show ?thesis using False 2 by auto
  qed
qed simp

lemma fold_count: "fold (\<lambda>g runs. runs + 1) xs (c :: int) = c + int (length xs)"
  by (induction xs arbitrary: c) auto

lemma estimate_length:
  "estimate_vpu_runs lim k n m = (\<Sum>(row0, rows) \<leftarrow> row_tiles lim n 0. int (length (k_groups lim rows (k div 32) 0))) * m"
proof -
  have "fold (\<lambda>(row0, rows) runs. fold (\<lambda>g runs. runs + 1) (k_groups lim rows nb 0) runs) xs c
      = c + (\<Sum>(row0, rows) \<leftarrow> xs. int (length (k_groups lim rows nb 0)))" for xs nb c
    by (induction xs arbitrary: c) (auto simp: fold_count)
  from this[of "k div 32" "row_tiles lim n 0" 0] show ?thesis unfolding estimate_vpu_runs_def by simp
qed

end
