(* ===== verification/Hls_Float.thy ===== *)
theory Hls_Float
  imports Complex_Main Prelude
begin

text \<open>
  The number formats of the accelerator kernel (\<^verbatim>\<open>hls_accelerator/kernel_forward.h\<close>): the conversion of a
  half precision scale to the bits of a single precision number and back, bit for bit, and what the
  conversions do to the values the bits stand for.
\<close>

subsection \<open>The conversions\<close>

text \<open>Half to single: a zero exponent gives a zero, the largest one an infinity or a NaN.\<close>

definition f16_to_f32 :: "u16 \<Rightarrow> u32" where
  "f16_to_f32 h = (let s = drop_bit 15 (ucast h) AND 1; e = drop_bit 10 (ucast h) AND 0x1F; m = ucast h AND 0x3FF in
     if e = 0 then push_bit 31 s
     else if e = 31 then push_bit 31 s OR 0x7F800000 OR push_bit 13 m
     else push_bit 31 s OR push_bit 23 (e + 112) OR push_bit 13 m)"

text \<open>Single to half: the exponent is a signed 32-bit number, the mantissa is cut off.\<close>

definition f32_to_f16 :: "u32 \<Rightarrow> u16" where
  "f32_to_f16 b = (let s = drop_bit 31 b AND 1; e = sint (drop_bit 23 b AND 0xFF) - 127 + 15; m = drop_bit 13 b AND 0x3FF in
     if e \<le> 0 then ucast (push_bit 15 s)
     else if e \<ge> 31 then ucast (push_bit 15 s OR 0x7C00)
     else ucast (push_bit 15 s OR push_bit 10 (word_of_int e) OR m))"

subsection \<open>The values of the bits\<close>

definition f16_sign :: "u16 \<Rightarrow> nat" where "f16_sign h = unat h div 2 ^ 15"
definition f16_exp :: "u16 \<Rightarrow> nat" where "f16_exp h = unat h div 2 ^ 10 mod 2 ^ 5"
definition f16_man :: "u16 \<Rightarrow> nat" where "f16_man h = unat h mod 2 ^ 10"
definition f32_sign :: "u32 \<Rightarrow> nat" where "f32_sign b = unat b div 2 ^ 31"
definition f32_exp :: "u32 \<Rightarrow> nat" where "f32_exp b = unat b div 2 ^ 23 mod 2 ^ 8"
definition f32_man :: "u32 \<Rightarrow> nat" where "f32_man b = unat b mod 2 ^ 23"

text \<open>The IEEE value of a finite number, subnormal ones included.\<close>

definition f16_value :: "u16 \<Rightarrow> real" where
  "f16_value h = (- 1) ^ f16_sign h * (if f16_exp h = 0 then real (f16_man h) / 2 ^ 24
     else (1 + real (f16_man h) / 2 ^ 10) * 2 powi (int (f16_exp h) - 15))"

definition f32_value :: "u32 \<Rightarrow> real" where
  "f32_value b = (- 1) ^ f32_sign b * (if f32_exp b = 0 then real (f32_man b) / 2 ^ 149
     else (1 + real (f32_man b) / 2 ^ 23) * 2 powi (int (f32_exp b) - 127))"

subsection \<open>Fields\<close>

lemma unat_push_bit_exact: "unat b * 2 ^ k < 2 ^ LENGTH('a) \<Longrightarrow> unat (push_bit k b) = unat b * 2 ^ k"
  for b :: "'a :: len word"
  by (simp only: unsigned_push_bit_eq) (simp add: push_bit_eq_mult take_bit_nat_eq_self)

lemma unat_or_fields:
  fixes a b :: "'a :: len word"
  assumes "unat a < 2 ^ k" and "unat b * 2 ^ k + unat a < 2 ^ LENGTH('a)"
  shows "unat (push_bit k b OR a) = unat b * 2 ^ k + unat a"
proof -
  have u: "unat (push_bit k b) = unat b * 2 ^ k"
    using assms(2) by (intro unat_push_bit_exact) simp
  have "take_bit k (unat a) = unat a" using assms(1) by (rule take_bit_nat_eq_self)
  then have "a = take_bit k a" by (metis unsigned_take_bit_eq unsigned_word_eqI)
  then have "push_bit k b AND a = 0"
    by (metis (no_types, opaque_lifting) bit_eq_iff bit_and_iff bit_push_bit_iff bit_take_bit_iff bit_0_eq bot_apply linorder_not_le bot_bool_def)
  then have "push_bit k b OR a = push_bit k b + a" by (rule disjunctive_add_eq_or[symmetric])
  then show ?thesis using u assms(2) by (simp add: unat_add_no_overflow)
qed

lemma f16_field_bounds: "f16_sign h < 2" "f16_exp h < 32" "f16_man h < 1024"
proof -
  have l: "unat h < 2 ^ 16" using unsigned_less[of h] by simp
  show "f16_sign h < 2" using l by (simp add: f16_sign_def less_mult_imp_div_less)
  show "f16_exp h < 32" "f16_man h < 1024" by (simp_all add: f16_exp_def f16_man_def)
qed

text \<open>The fields the code extracts.\<close>

lemma f16_fields:
  "unat (drop_bit 15 (ucast h :: u32) AND 1) = f16_sign h"
  "unat (drop_bit 10 (ucast h :: u32) AND 0x1F) = f16_exp h"
  "unat ((ucast h :: u32) AND 0x3FF) = f16_man h"
proof -
  have m: "(1 :: u32) = mask 1" "(0x1F :: u32) = mask 5" "(0x3FF :: u32) = mask 10" by (simp_all add: mask_eq_exp_minus_1)
  have u: "unat (ucast h :: u32) = unat h" by (simp add: unat_ucast_wide)
  have "unat h div 2 ^ 15 mod 2 = unat h div 2 ^ 15" using f16_field_bounds(1)[of h] by (simp add: f16_sign_def)
  then show "unat (drop_bit 15 (ucast h :: u32) AND 1) = f16_sign h"
    unfolding m(1) unat_and_mask unat_drop_bit u by (simp add: f16_sign_def)
  show "unat (drop_bit 10 (ucast h :: u32) AND 0x1F) = f16_exp h"
    unfolding m(2) unat_and_mask unat_drop_bit u f16_exp_def ..
  show "unat ((ucast h :: u32) AND 0x3FF) = f16_man h"
    unfolding m(3) unat_and_mask u f16_man_def ..
qed

text \<open>A single precision number put together from its fields, and read back.\<close>

lemma f32_assembled:
  assumes "s < 2" and "e < 256" and "m < 2 ^ 23" and "unat b = s * 2 ^ 31 + e * 2 ^ 23 + m"
  shows "f32_sign b = s" "f32_exp b = e" "f32_man b = m"
proof -
  have b: "unat b = (s * 256 + e) * 2 ^ 23 + m" using assms(4) by simp
  show "f32_man b = m" unfolding f32_man_def b using assms(3) by (metis mod_less mod_mult_self3)
  have d: "unat b div 2 ^ 23 = s * 256 + e" unfolding b using assms(3) by (simp only: div_mult_self3) simp
  show "f32_exp b = e" unfolding f32_exp_def d using assms(2) by simp
  have "unat b div 2 ^ 31 = unat b div 2 ^ 23 div 2 ^ 8" by (simp add: div_mult2_eq[symmetric])
  then show "f32_sign b = s" using assms(2) unfolding d by (simp add: f32_sign_def)
qed

lemma unat_assembled:
  fixes s x m :: u32
  assumes "unat s < 2" and "unat x < 256" and "unat m < 1024"
  shows "unat (push_bit 31 s) = unat s * 2 ^ 31"
    "unat (push_bit 31 s OR push_bit 23 x OR push_bit 13 m) = unat s * 2 ^ 31 + unat x * 2 ^ 23 + unat m * 2 ^ 13"
proof -
  show "unat (push_bit 31 s) = unat s * 2 ^ 31" using assms(1) by (subst unat_push_bit_exact) auto
  have man: "unat (push_bit 13 m) = unat m * 2 ^ 13" using assms(3) by (subst unat_push_bit_exact) simp_all
  have i: "unat (push_bit 23 x OR push_bit 13 m) = unat x * 2 ^ 23 + unat m * 2 ^ 13"
    using assms(2,3) by (subst unat_or_fields) (simp_all add: man)
  have "unat (push_bit 31 s OR (push_bit 23 x OR push_bit 13 m)) = unat s * 2 ^ 31 + unat (push_bit 23 x OR push_bit 13 m)"
    using assms by (intro unat_or_fields) (simp_all add: i)
  then show "unat (push_bit 31 s OR push_bit 23 x OR push_bit 13 m) = unat s * 2 ^ 31 + unat x * 2 ^ 23 + unat m * 2 ^ 13"
    by (simp add: or.assoc i)
qed

lemma unat_f16_to_f32:
  "unat (f16_to_f32 h) = (if f16_exp h = 0 then f16_sign h * 2 ^ 31
     else f16_sign h * 2 ^ 31 + (if f16_exp h = 31 then 255 else f16_exp h + 112) * 2 ^ 23 + f16_man h * 2 ^ 13)"
proof -
  obtain s e m where w: "s = drop_bit 15 (ucast h :: u32) AND 1" "e = drop_bit 10 (ucast h :: u32) AND 0x1F" "m = (ucast h :: u32) AND 0x3FF" by blast
  note l = f16_field_bounds[of h]
  have f: "unat s = f16_sign h" "unat e = f16_exp h" "unat m = f16_man h" unfolding w by (rule f16_fields)+
  have z: "e = 0 \<longleftrightarrow> f16_exp h = 0" "e = 31 \<longleftrightarrow> f16_exp h = 31" by (simp_all flip: f(2) add: word_unat_eq_iff)
  have x: "f16_to_f32 h = (if e = 0 then push_bit 31 s else if e = 31 then push_bit 31 s OR push_bit 23 255 OR push_bit 13 m
      else push_bit 31 s OR push_bit 23 (e + 112) OR push_bit 13 m)"
    by (simp add: f16_to_f32_def Let_def w(1,2,3) push_bit_eq_mult[of 23 255])
  have e: "unat (e + 112) = f16_exp h + 112" using l(2) by (subst unat_add_no_overflow) (simp_all add: f)
  note u = unat_assembled[of s _ m, unfolded f, OF l(1) _ l(3)]
  show ?thesis using u[of 255] u[of "e + 112"] l(2) by (simp add: x z e)
qed

lemma f16_to_f32_fields:
  "f32_sign (f16_to_f32 h) = f16_sign h"
  "f32_exp (f16_to_f32 h) = (if f16_exp h = 0 then 0 else if f16_exp h = 31 then 255 else f16_exp h + 112)"
  "f32_man (f16_to_f32 h) = (if f16_exp h = 0 then 0 else f16_man h * 2 ^ 13)"
proof -
  note l = f16_field_bounds[of h]
  let ?e = "if f16_exp h = 0 then 0 else if f16_exp h = 31 then 255 else f16_exp h + 112"
  let ?m = "if f16_exp h = 0 then 0 else f16_man h * 2 ^ 13"
  have b: "f16_sign h < 2" "?e < 256" "?m < 2 ^ 23" using l by auto
  have u: "unat (f16_to_f32 h) = f16_sign h * 2 ^ 31 + ?e * 2 ^ 23 + ?m" unfolding unat_f16_to_f32 by auto
  show "f32_sign (f16_to_f32 h) = f16_sign h" "f32_exp (f16_to_f32 h) = ?e" "f32_man (f16_to_f32 h) = ?m"
    by (rule f32_assembled[OF b u])+
qed

lemma f32_field_bounds: "f32_sign b < 2" "f32_exp b < 256" "f32_man b < 8388608"
proof -
  have l: "unat b < 2 ^ 32" using unsigned_less[of b] by simp
  show "f32_sign b < 2" using l by (simp add: f32_sign_def less_mult_imp_div_less)
  show "f32_exp b < 256" "f32_man b < 8388608" by (simp_all add: f32_exp_def f32_man_def)
qed

lemma f32_fields:
  "unat (drop_bit 31 b AND 1) = f32_sign b"
  "unat (drop_bit 23 b AND 0xFF) = f32_exp b"
  "unat (drop_bit 13 b AND 0x3FF) = f32_man b div 2 ^ 13"
proof -
  have m: "(1 :: u32) = mask 1" "(0xFF :: u32) = mask 8" "(0x3FF :: u32) = mask 10" by (simp_all add: mask_eq_exp_minus_1)
  have "unat b div 2 ^ 31 mod 2 = unat b div 2 ^ 31" using f32_field_bounds(1)[of b] by (simp add: f32_sign_def)
  then show "unat (drop_bit 31 b AND 1) = f32_sign b"
    unfolding m(1) unat_and_mask unat_drop_bit by (simp add: f32_sign_def)
  show "unat (drop_bit 23 b AND 0xFF) = f32_exp b"
    unfolding m(2) unat_and_mask unat_drop_bit f32_exp_def ..
  have "unat b div 2 ^ 13 mod 2 ^ 10 = unat b mod 2 ^ 23 div 2 ^ 13"
    using mod_mult2_eq[of "unat b" "2 ^ 13" "2 ^ 10"] by simp
  then show "unat (drop_bit 13 b AND 0x3FF) = f32_man b div 2 ^ 13"
    unfolding m(3) unat_and_mask unat_drop_bit f32_man_def .
qed

lemma unat_f32_to_f16:
  "unat (f32_to_f16 b) = f32_sign b * 2 ^ 15 + (if f32_exp b \<le> 112 then 0 else if f32_exp b \<ge> 143 then 31 * 2 ^ 10
     else (f32_exp b - 112) * 2 ^ 10 + f32_man b div 2 ^ 13)"
proof -
  obtain s x m where w: "s = drop_bit 31 b AND 1" "x = drop_bit 23 b AND 0xFF" "m = drop_bit 13 b AND 0x3FF" by blast
  note l = f32_field_bounds[of b]
  have f: "unat s = f32_sign b" "unat x = f32_exp b" "unat m = f32_man b div 2 ^ 13" unfolding w by (rule f32_fields)+
  have "uint x = int (f32_exp b)" using f(2) by (metis uint_nat)
  then have sx: "sint x = int (f32_exp b)" using l(2) by (simp add: sint_uint signed_take_bit_int_eq_self)
  have zero: "unat (push_bit 15 s) = f32_sign b * 2 ^ 15" using l(1) f(1) by (subst unat_push_bit_exact) auto
  have top: "unat (push_bit 15 s OR 0x7C00) = f32_sign b * 2 ^ 15 + 31 * 2 ^ 10"
    using l(1) f(1) by (subst unat_or_fields) auto
  have mid: "unat (push_bit 15 s OR push_bit 10 y OR m) = f32_sign b * 2 ^ 15 + unat y * 2 ^ 10 + f32_man b div 2 ^ 13"
    if "unat y < 31" for y
  proof -
    have man: "f32_man b div 2 ^ 13 < 1024" using l(3) by simp
    have i: "unat (push_bit 10 y OR m) = unat y * 2 ^ 10 + f32_man b div 2 ^ 13"
      using that man by (subst unat_or_fields) (simp_all add: f)
    have "unat (push_bit 15 s OR (push_bit 10 y OR m)) = f32_sign b * 2 ^ 15 + (unat y * 2 ^ 10 + f32_man b div 2 ^ 13)"
      using that man l(1) by (subst unat_or_fields) (simp_all add: i f)
    then show ?thesis by (simp add: or.assoc)
  qed
  obtain y :: u32 where y: "y = word_of_int (int (f32_exp b - 112))" by blast
  have uy: "unat y = f32_exp b - 112" using l(2) by (simp add: y unat_of_nat take_bit_nat_eq_self)
  have e: "word_of_int (int (f32_exp b) - 112) = (word_of_int (int (f32_exp b - 112)) :: u32)" if "112 \<le> f32_exp b"
    using that by (simp add: of_nat_diff)
  have d: "f32_to_f16 b = (if f32_exp b \<le> 112 then ucast (push_bit 15 s) else if f32_exp b \<ge> 143 then ucast (push_bit 15 s OR 0x7C00)
      else ucast (push_bit 15 s OR push_bit 10 y OR m))"
    using sx e by (auto simp: f32_to_f16_def Let_def w(1,3) w(2)[symmetric] y)
  have "f32_man b div 2 ^ 13 < 1024" using l(3) by simp
  then show ?thesis using l(1) mid[of y] uy by (auto simp: d unat_ucast_mod zero top)
qed

lemma f16_normal_value: "0 < f16_exp h \<Longrightarrow> f16_exp h < 31 \<Longrightarrow> f32_value (f16_to_f32 h) = f16_value h"
  by (simp add: f32_value_def f16_value_def f16_to_f32_fields)

text \<open>
  Property C18. The kernel's half to single conversion is exact for normal numbers and keeps signs,
  infinities and NaNs, and every subnormal number, whatever its value, becomes a zero.
\<close>

theorem f16_to_f32_value:
  "(0 < f16_exp h \<and> f16_exp h < 31 \<longrightarrow> f32_value (f16_to_f32 h) = f16_value h)
   \<and> (f16_exp h = 0 \<longrightarrow> f32_value (f16_to_f32 h) = 0)
   \<and> (f16_exp h = 31 \<longrightarrow> f32_exp (f16_to_f32 h) = 255 \<and> (f32_man (f16_to_f32 h) = 0 \<longleftrightarrow> f16_man h = 0))
   \<and> f32_sign (f16_to_f32 h) = f16_sign h"
  using f16_normal_value[of h] by (simp add: f16_to_f32_fields f32_value_def)

lemma half_fields:
  "f16_exp 0x03FF = 0" "f16_exp 0x3C00 = 15" "f16_man 0x03FF = 1023" "f16_sign 0x03FF = 0" "f16_man 0x3C00 = 0" "f16_sign 0x3C00 = 0"
  by (simp_all add: f16_exp_def f16_man_def f16_sign_def)

text \<open>A block scale below \<open>2 ^ - 14\<close>: its value is positive, and the kernel multiplies by zero.\<close>

lemma f16_to_f32_value_witness:
  "f16_value 0x03FF = 1023 / 2 ^ 24 \<and> f32_value (f16_to_f32 0x03FF) = 0 \<and> f32_value (f16_to_f32 0x3C00) = 1"
proof -
  have "f32_value (f16_to_f32 0x03FF) = 0" "f32_value (f16_to_f32 0x3C00) = f16_value 0x3C00"
    using f16_to_f32_value[of "0x03FF"] f16_to_f32_value[of "0x3C00"] by (simp_all add: half_fields)
  then show ?thesis using half_fields by (simp add: f16_value_def)
qed

lemma fields_split: "n = n div 32768 * 32768 + n div 1024 mod 32 * 1024 + n mod 1024" for n :: nat
proof -
  have "n div 32768 = n div 1024 div 32" by (simp add: div_mult2_eq[symmetric])
  then have "n div 32768 * 32768 + n div 1024 mod 32 * 1024 = n div 1024 * 1024"
    using div_mult_mod_eq[of "n div 1024" 32] by linarith
  then show ?thesis using div_mult_mod_eq[of n 1024] by linarith
qed

text \<open>
  Converting a half precision number to single precision and back gives it back, unless it is
  subnormal or a NaN: a subnormal comes back as a zero and a NaN as an infinity of the same sign.
\<close>

theorem f16_roundtrip:
  "(0 < f16_exp h \<and> f16_exp h < 31 \<longrightarrow> f32_to_f16 (f16_to_f32 h) = h)
   \<and> (f16_exp h = 0 \<longrightarrow> unat (f32_to_f16 (f16_to_f32 h)) = f16_sign h * 2 ^ 15)
   \<and> (f16_exp h = 31 \<longrightarrow> unat (f32_to_f16 (f16_to_f32 h)) = f16_sign h * 2 ^ 15 + 0x7C00)"
proof -
  have "unat h = f16_sign h * 2 ^ 15 + f16_exp h * 2 ^ 10 + f16_man h"
    using fields_split[of "unat h"] by (simp add: f16_sign_def f16_exp_def f16_man_def)
  then show ?thesis by (simp add: word_unat_eq_iff unat_f32_to_f16 f16_to_f32_fields)
qed

lemma f16_roundtrip_witness:
  "f32_to_f16 (f16_to_f32 0x3C00) = 0x3C00 \<and> unat (f32_to_f16 (f16_to_f32 0x03FF)) = 0"
  using f16_roundtrip[of "0x3C00"] f16_roundtrip[of "0x03FF"] by (simp add: half_fields)

end
