(* ===== verification/Hls_Kernel.thy ===== *)
theory Hls_Kernel
  imports Hls_Float
begin

text \<open>
  The matrix product of the accelerator kernel (\<^verbatim>\<open>hls_accelerator/kernel_forward.cpp\<close>, the branch
  \<open>is_attn == 0\<close>): activations times a Q8_0 weight matrix, tile by tile. The arithmetic of the synthesized
  \<open>float\<close> units is a parameter, so that the order of the operations is that of the code; a read or write
  outside the memory behind a port and a signed overflow are \<open>None\<close>. The HLS pragmas do not change results.
\<close>

subsection \<open>Arithmetic and memories\<close>

record 'f float_ops =
  fl_bits :: "u32 \<Rightarrow> 'f"
  fl_int :: "int \<Rightarrow> 'f"
  fl_add :: "'f \<Rightarrow> 'f \<Rightarrow> 'f"
  fl_sub :: "'f \<Rightarrow> 'f \<Rightarrow> 'f"
  fl_mul :: "'f \<Rightarrow> 'f \<Rightarrow> 'f"
  fl_div :: "'f \<Rightarrow> 'f \<Rightarrow> 'f"
  fl_gt :: "'f \<Rightarrow> 'f \<Rightarrow> bool"
  fl_tanh :: "'f \<Rightarrow> 'f"
  fl_exp :: "'f \<Rightarrow> 'f"

abbreviation fl_zero :: "'f float_ops \<Rightarrow> 'f" where "fl_zero fl \<equiv> fl_bits fl 0"

text \<open>Exact arithmetic, on the values of the bits.\<close>

definition real_ops :: "real float_ops" where
  "real_ops = \<lparr>fl_bits = f32_value, fl_int = real_of_int, fl_add = (+), fl_sub = (-), fl_mul = (*), fl_div = (/),
     fl_gt = (>), fl_tanh = tanh, fl_exp = exp\<rparr>"

lemma real_ops_simps [simp]:
  "fl_bits real_ops = f32_value" "fl_int real_ops = real_of_int" "fl_add real_ops = (+)" "fl_sub real_ops = (-)"
  "fl_mul real_ops = (*)" "fl_div real_ops = (/)" "fl_gt real_ops = (>)" "fl_tanh real_ops = tanh" "fl_exp real_ops = exp"
  by (simp_all add: real_ops_def)

lemma f32_value_0 [simp]: "f32_value 0 = 0"
  by (simp add: f32_value_def f32_exp_def f32_man_def)

definition f16_safe :: "'f float_ops \<Rightarrow> u16 \<Rightarrow> 'f" where
  "f16_safe fl h = fl_bits fl (f16_to_f32 h)"

definition port_read :: "'a list \<Rightarrow> int \<Rightarrow> 'a option" where
  "port_read xs i = require (0 \<le> i) (read_at (nat i) xs)"

definition port_write :: "'a list \<Rightarrow> int \<Rightarrow> 'a \<Rightarrow> 'a list option" where
  "port_write xs i x = require (0 \<le> i \<and> nat i < length xs) (Some (xs[nat i := x]))"

text \<open>The element \<open>row * width + col\<close> of a matrix behind a port.\<close>

definition elem_index :: "int \<Rightarrow> int \<Rightarrow> int \<Rightarrow> int option" where
  "elem_index width row col = require (i32_ok (row * width) \<and> i32_ok (row * width + col)) (Some (row * width + col))"

definition elem_read :: "'a list \<Rightarrow> int \<Rightarrow> int \<Rightarrow> int \<Rightarrow> 'a option" where
  "elem_read xs width row col = do { i \<leftarrow> elem_index width row col; port_read xs i }"

subsection \<open>Loading the tiles\<close>

abbreviation (input) TILE_M :: nat where "TILE_M \<equiv> 16"
abbreviation (input) TILE_K :: nat where "TILE_K \<equiv> 64"
abbreviation (input) TILE_N :: nat where "TILE_N \<equiv> 64"
abbreviation (input) HLS_QK8_0 :: nat where "HLS_QK8_0 \<equiv> 32"

definition load_tile :: "nat \<Rightarrow> nat \<Rightarrow> (nat \<Rightarrow> nat \<Rightarrow> 'a option) \<Rightarrow> 'a list list option" where
  "load_tile rows cols f = gather (\<lambda>i. gather (f i) [0..<cols]) [0..<rows]"

definition load_A :: "'f float_ops \<Rightarrow> 'f list \<Rightarrow> int \<Rightarrow> int \<Rightarrow> int \<Rightarrow> int \<Rightarrow> 'f list list option" where
  "load_A fl A M K m0 k0 = load_tile TILE_M TILE_K (\<lambda>tm tk. let gr = m0 + int tm; gc = k0 + int tk in
     if gr < M \<and> gc < K then elem_read A K gr gc else Some (fl_zero fl))"

definition load_Bqs :: "int list \<Rightarrow> int \<Rightarrow> int \<Rightarrow> int \<Rightarrow> int \<Rightarrow> int list list option" where
  "load_Bqs B_qs K N n0 k0 = load_tile TILE_N TILE_K (\<lambda>tn tk. let gn = n0 + int tn; gk = k0 + int tk in
     if gn < N \<and> gk < K then elem_read B_qs K gn gk else Some 0)"

definition load_Bd :: "u16 list \<Rightarrow> int \<Rightarrow> int \<Rightarrow> int \<Rightarrow> int \<Rightarrow> u16 list list option" where
  "load_Bd B_d K N n0 k0 = load_tile TILE_N (TILE_K div HLS_QK8_0) (\<lambda>tn t_blk. let gn = n0 + int tn; gkb = k0 div 32 + int t_blk in
     if gn < N then elem_read B_d (K div 32) gn gkb else Some 0)"

subsection \<open>The product of two tiles\<close>

definition tile_dot :: "'f float_ops \<Rightarrow> 'f list \<Rightarrow> int list \<Rightarrow> u16 list \<Rightarrow> 'f" where
  "tile_dot fl a q d = fold (\<lambda>tk sum. let scale = f16_safe fl (d ! (tk div HLS_QK8_0)); b_val = fl_mul fl (fl_int fl (q ! tk)) scale in
     fl_add fl sum (fl_mul fl (a ! tk) b_val)) [0..<TILE_K] (fl_zero fl)"

definition tile_step ::
    "'f float_ops \<Rightarrow> 'f list \<Rightarrow> u16 list \<Rightarrow> int list \<Rightarrow> int \<Rightarrow> int \<Rightarrow> int \<Rightarrow> int \<Rightarrow> int \<Rightarrow> int \<Rightarrow> 'f list list \<Rightarrow> 'f list list option" where
  "tile_step fl A B_d B_qs M K N m0 n0 k0 C_tile = do {
     A_tile \<leftarrow> load_A fl A M K m0 k0;
     B_qs_tile \<leftarrow> load_Bqs B_qs K N n0 k0;
     B_d_tile \<leftarrow> load_Bd B_d K N n0 k0;
     Some (map (\<lambda>tm. map (\<lambda>tn. fl_add fl (C_tile ! tm ! tn) (tile_dot fl (A_tile ! tm) (B_qs_tile ! tn) (B_d_tile ! tn)))
       [0..<TILE_N]) [0..<TILE_M]) }"

definition zero_tile :: "'f float_ops \<Rightarrow> 'f list list" where
  "zero_tile fl = replicate TILE_M (replicate TILE_N (fl_zero fl))"

definition store_C :: "int \<Rightarrow> int \<Rightarrow> int \<Rightarrow> int \<Rightarrow> 'f list list \<Rightarrow> 'f list \<Rightarrow> 'f list option" where
  "store_C M N m0 n0 C_tile = fold_opt (\<lambda>tm C. let gr = m0 + int tm in
     if gr \<ge> M then Some C
     else fold_opt (\<lambda>tn C. let gc = n0 + int tn in
       if gc < N then do { i \<leftarrow> elem_index N gr gc; port_write C i (C_tile ! tm ! tn) } else Some C) [0..<TILE_N] C) [0..<TILE_M]"

subsection \<open>The loops over the tiles\<close>

text \<open>\<open>for (i = i0; i < bound; i += step)\<close>, for a positive step.\<close>

function for_tiles :: "nat \<Rightarrow> int \<Rightarrow> (int \<Rightarrow> 's \<Rightarrow> 's option) \<Rightarrow> int \<Rightarrow> 's \<Rightarrow> 's option" where
  "for_tiles step bound body i st =
    (if i < bound \<and> 0 < step then do {
       st \<leftarrow> body i st;
       require (i32_ok (i + int step)) (for_tiles step bound body (i + int step) st) }
     else Some st)"
  by pat_completeness auto
termination by (relation "measure (\<lambda>(step, bound, body, i, st). nat (bound - i))") auto

declare for_tiles.simps [simp del]

definition hls_matmul ::
    "'f float_ops \<Rightarrow> 'f list \<Rightarrow> u16 list \<Rightarrow> int list \<Rightarrow> int \<Rightarrow> int \<Rightarrow> int \<Rightarrow> 'f list \<Rightarrow> 'f list option" where
  "hls_matmul fl A B_d B_qs M K N = for_tiles TILE_M M (\<lambda>m0. for_tiles TILE_N N (\<lambda>n0 C. do {
     C_tile \<leftarrow> for_tiles TILE_K K (tile_step fl A B_d B_qs M K N m0 n0) 0 (zero_tile fl);
     store_C M N m0 n0 C_tile C }) 0) 0"

text \<open>The reference of the test bench: one sum per element.\<close>

definition matmul_cpu_golden ::
    "'f float_ops \<Rightarrow> 'f list \<Rightarrow> u16 list \<Rightarrow> int list \<Rightarrow> int \<Rightarrow> int \<Rightarrow> int \<Rightarrow> 'f list \<Rightarrow> 'f list option" where
  "matmul_cpu_golden fl A B_d B_qs M K N = fold_opt (\<lambda>m. fold_opt (\<lambda>n C. do {
       sum \<leftarrow> fold_opt (\<lambda>k sum. do {
           scale \<leftarrow> elem_read B_d (K div 32) (int n) (int (k div HLS_QK8_0));
           a \<leftarrow> elem_read A K (int m) (int k);
           q \<leftarrow> elem_read B_qs K (int n) (int k);
           Some (fl_add fl sum (fl_mul fl (fl_mul fl a (fl_int fl q)) (f16_safe fl scale))) }) [0..<nat K] (fl_zero fl);
       i \<leftarrow> elem_index N (int m) (int n);
       port_write C i sum }) [0..<nat N]) [0..<nat M]"

subsection \<open>Tiles in range\<close>

lemma for_tiles_fold:
  assumes "0 < step" and "bound - i \<le> int (n * step)" and "n \<noteq> 0 \<longrightarrow> int ((n - 1) * step) < bound - i"
    and "i + int (n * step) \<le> INT_MAX" and "INT_MIN \<le> i"
  shows "for_tiles step bound body i st = fold_opt (\<lambda>k. body (i + int (k * step))) [0..<n] st"
  using assms(2-5)
proof (induction n arbitrary: i st)
  case 0
  then show ?case by (simp add: for_tiles.simps)
next
  case (Suc n)
  have "int (n * step) < bound - i" using Suc.prems(2) by simp
  then have lt: "i < bound" using of_nat_0_le_iff[of "n * step", where 'a = int] by linarith
  have "int (Suc n * step) = int step + int (n * step)" by simp
  then have "i + int step \<le> INT_MAX" using Suc.prems(3) of_nat_0_le_iff[of "n * step", where 'a = int] by linarith
  then have ok: "i32_ok (i + int step)" using Suc.prems(4) by (simp add: i32_ok_def)
  have p: "bound - (i + int step) \<le> int (n * step)" "n \<noteq> 0 \<longrightarrow> int ((n - 1) * step) < bound - (i + int step)"
    "i + int step + int (n * step) \<le> INT_MAX" "INT_MIN \<le> i + int step"
    using Suc.prems by (cases n; simp add: algebra_simps)+
  have "i + int step + int (k * step) = i + int (Suc k * step)" for k by simp
  then have rest: "for_tiles step bound body (i + int step) s = fold_opt (\<lambda>k. body (i + int (Suc k * step))) [0..<n] s" for s
    unfolding Suc.IH[OF p] by presburger
  have "[0..<Suc n] = 0 # map Suc [0..<n]" by (simp add: upt_conv_Cons map_Suc_upt del: upt_Suc)
  then have "fold_opt (\<lambda>k. body (i + int (k * step))) [0..<Suc n] st
      = (case body i st of None \<Rightarrow> None | Some s \<Rightarrow> fold_opt (\<lambda>k. body (i + int (Suc k * step))) [0..<n] s)"
    by (simp add: fold_opt_map distrib_right cong: option.case_cong)
  then show ?case using lt ok assms(1) by (subst for_tiles.simps) (auto simp: rest split: option.splits)
qed

lemma tiles_fold:
  assumes "0 < step" and "bound + step \<le> 2147483648"
  shows "for_tiles step (int bound) body 0 st = fold_opt (\<lambda>k. body (int (k * step))) [0..<(bound + (step - 1)) div step] st"
proof -
  let ?n = "(bound + (step - 1)) div step"
  have "bound \<le> ?n * step" and "?n \<noteq> 0 \<longrightarrow> (?n - 1) * step < bound" and "?n * step \<le> bound + (step - 1)"
  proof -
    have e: "?n * step + (bound + (step - 1)) mod step = bound + (step - 1)" by (rule div_mult_mod_eq)
    have m: "(bound + (step - 1)) mod step < step" using assms(1) by simp
    show "bound \<le> ?n * step" "?n * step \<le> bound + (step - 1)" using e m by linarith+
    have "(?n - 1) * step = ?n * step - step" by (simp add: diff_mult_distrib)
    moreover have "?n \<noteq> 0 \<longrightarrow> step \<le> ?n * step" by (cases ?n) auto
    ultimately show "?n \<noteq> 0 \<longrightarrow> (?n - 1) * step < bound" using e m assms(1) by linarith
  qed
  moreover have "bound + (step - 1) \<le> 2147483647" using assms by linarith
  ultimately have n: "int bound - 0 \<le> int (?n * step)" "?n \<noteq> 0 \<longrightarrow> int ((?n - 1) * step) < int bound - 0" "0 + int (?n * step) \<le> INT_MAX"
    by linarith+
  show ?thesis unfolding for_tiles_fold[OF assms(1) n, simplified] by simp
qed

text \<open>The memories behind the ports hold the matrices.\<close>

definition ports_fit :: "nat \<Rightarrow> nat \<Rightarrow> nat \<Rightarrow> 'f list \<Rightarrow> u16 list \<Rightarrow> int list \<Rightarrow> 'f list \<Rightarrow> bool" where
  "ports_fit M K N A B_d B_qs C \<longleftrightarrow> M + TILE_M \<le> 2147483648 \<and> K + TILE_K \<le> 2147483648 \<and> N + TILE_N \<le> 2147483648
     \<and> M * K \<le> 2147483647 \<and> N * K \<le> 2147483647 \<and> M * N \<le> 2147483647
     \<and> M * K \<le> length A \<and> N * (K div HLS_QK8_0) \<le> length B_d \<and> N * K \<le> length B_qs \<and> M * N \<le> length C"

lemma elem_in_matrix: "r < R \<Longrightarrow> c < W \<Longrightarrow> r * W + c < R * W" for r R c W :: nat
proof -
  assume "r < R" "c < W"
  then have "r * W + c < Suc r * W" by simp
  also have "\<dots> \<le> R * W" using \<open>r < R\<close> by (intro mult_le_mono1) simp
  finally show ?thesis .
qed

lemma elem_index_Some:
  assumes "r < R" and "c < W" and "R * W \<le> 2147483647"
  shows "elem_index (int W) (int r) (int c) = Some (int (r * W + c))"
proof -
  have "r * W + c < R * W" by (rule elem_in_matrix[OF assms(1,2)])
  then have "r * W + c \<le> 2147483647" using assms(3) by simp
  then have "int (r * W) \<le> 2147483647" "int (r * W + c) \<le> 2147483647" by linarith+
  moreover have "INT_MIN \<le> int r * int W" using mult_nonneg_nonneg[of "int r" "int W"] by linarith
  ultimately show ?thesis by (simp add: elem_index_def i32_ok_def)
qed

lemma elem_read_Some:
  assumes "r < R" and "c < W" and "R * W \<le> 2147483647" and "R * W \<le> length xs"
  shows "elem_read xs (int W) (int r) (int c) = Some (xs ! (r * W + c))"
  using elem_in_matrix[OF assms(1,2)] assms(4)
  by (simp add: elem_read_def elem_index_Some[OF assms(1-3)] port_read_def del: of_nat_add of_nat_mult)

lemma load_tile_Some:
  "(\<And>i j. i < rows \<Longrightarrow> j < cols \<Longrightarrow> f i j = Some (g i j)) \<Longrightarrow> load_tile rows cols f = Some (map (\<lambda>i. map (g i) [0..<cols]) [0..<rows])"
  unfolding load_tile_def by (intro gather_Some) simp

text \<open>A tile dot product and an element of the product, over the matrices.\<close>

definition block_dot :: "'f float_ops \<Rightarrow> 'f list \<Rightarrow> u16 list \<Rightarrow> int list \<Rightarrow> nat \<Rightarrow> nat \<Rightarrow> nat \<Rightarrow> nat \<Rightarrow> 'f" where
  "block_dot fl A B_d B_qs K m n t = fold (\<lambda>tk sum. let k = t * TILE_K + tk in
     fl_add fl sum (fl_mul fl (A ! (m * K + k)) (fl_mul fl (fl_int fl (B_qs ! (n * K + k)))
       (f16_safe fl (B_d ! (n * (K div HLS_QK8_0) + k div HLS_QK8_0)))))) [0..<TILE_K] (fl_zero fl)"

definition matmul_elem :: "'f float_ops \<Rightarrow> 'f list \<Rightarrow> u16 list \<Rightarrow> int list \<Rightarrow> nat \<Rightarrow> nat \<Rightarrow> nat \<Rightarrow> nat \<Rightarrow> 'f" where
  "matmul_elem fl A B_d B_qs K m n tiles = fold (\<lambda>t acc. fl_add fl acc (block_dot fl A B_d B_qs K m n t)) [0..<tiles] (fl_zero fl)"

lemma fold_cong_upt: "(\<And>i s. i < n \<Longrightarrow> f i s = g i s) \<Longrightarrow> fold f [0..<n] s = fold g [0..<n] s"
  by (intro fold_cong) auto

lemma load_A_Some:
  assumes "M * K \<le> 2147483647" and "M * K \<le> length A" and "k0 + 64 \<le> K"
  shows "load_A fl A (int M) (int K) (int m0) (int k0)
    = Some (map (\<lambda>tm. map (\<lambda>tk. if m0 + tm < M then A ! ((m0 + tm) * K + (k0 + tk)) else fl_zero fl) [0..<64]) [0..<16])"
  unfolding load_A_def
proof (rule load_tile_Some)
  fix tm tk :: nat assume "tm < 16" "tk < 64"
  then have k: "k0 + tk < K" using assms(3) by simp
  have "m0 + tm < M \<Longrightarrow> elem_read A (int K) (int (m0 + tm)) (int (k0 + tk)) = Some (A ! ((m0 + tm) * K + (k0 + tk)))"
    using elem_read_Some[OF _ k assms(1,2)] by blast
  then show "(let gr = int m0 + int tm; gc = int k0 + int tk in if gr < int M \<and> gc < int K then elem_read A (int K) gr gc else Some (fl_zero fl))
      = Some (if m0 + tm < M then A ! ((m0 + tm) * K + (k0 + tk)) else fl_zero fl)"
    using k by (simp add: Let_def)
qed

lemma load_Bqs_Some:
  assumes "N * K \<le> 2147483647" and "N * K \<le> length B_qs" and "k0 + 64 \<le> K"
  shows "load_Bqs B_qs (int K) (int N) (int n0) (int k0)
    = Some (map (\<lambda>tn. map (\<lambda>tk. if n0 + tn < N then B_qs ! ((n0 + tn) * K + (k0 + tk)) else 0) [0..<64]) [0..<64])"
  unfolding load_Bqs_def
proof (rule load_tile_Some)
  fix tn tk :: nat assume "tn < 64" "tk < 64"
  then have k: "k0 + tk < K" using assms(3) by simp
  have "n0 + tn < N \<Longrightarrow> elem_read B_qs (int K) (int (n0 + tn)) (int (k0 + tk)) = Some (B_qs ! ((n0 + tn) * K + (k0 + tk)))"
    using elem_read_Some[OF _ k assms(1,2)] by blast
  then show "(let gn = int n0 + int tn; gk = int k0 + int tk in if gn < int N \<and> gk < int K then elem_read B_qs (int K) gn gk else Some 0)
      = Some (if n0 + tn < N then B_qs ! ((n0 + tn) * K + (k0 + tk)) else 0)"
    using k by (simp add: Let_def)
qed

lemma load_Bd_Some:
  assumes "N * (K div 32) \<le> 2147483647" and "N * (K div 32) \<le> length B_d" and "k0 div 32 + 2 \<le> K div 32"
  shows "load_Bd B_d (int K) (int N) (int n0) (int k0)
    = Some (map (\<lambda>tn. map (\<lambda>b. if n0 + tn < N then B_d ! ((n0 + tn) * (K div 32) + (k0 div 32 + b)) else 0) [0..<2]) [0..<64])"
proof -
  have "load_Bd B_d (int K) (int N) (int n0) (int k0)
    = Some (map (\<lambda>tn. map (\<lambda>b. if n0 + tn < N then B_d ! ((n0 + tn) * (K div 32) + (k0 div 32 + b)) else 0) [0..<64 div 32]) [0..<64])"
    unfolding load_Bd_def
  proof (rule load_tile_Some)
    fix tn b :: nat assume "tn < 64" "b < 64 div 32"
    then have k: "k0 div 32 + b < K div 32" using assms(3) by simp
    have "n0 + tn < N \<Longrightarrow> elem_read B_d (int (K div 32)) (int (n0 + tn)) (int (k0 div 32 + b)) = Some (B_d ! ((n0 + tn) * (K div 32) + (k0 div 32 + b)))"
      using elem_read_Some[OF _ k assms(1,2)] by blast
    then show "(let gn = int n0 + int tn; gkb = int k0 div 32 + int b in if gn < int N then elem_read B_d (int K div 32) gn gkb else Some 0)
        = Some (if n0 + tn < N then B_d ! ((n0 + tn) * (K div 32) + (k0 div 32 + b)) else 0)"
      by (simp add: Let_def zdiv_int)
  qed
  then show ?thesis by simp
qed

lemma tile_step_value:
  assumes "ports_fit M K N A B_d B_qs C" and "K = kt * TILE_K" and "t < kt"
  shows "\<exists>T'. tile_step fl A B_d B_qs (int M) (int K) (int N) (int m0) (int n0) (int (t * TILE_K)) T = Some T'
    \<and> (\<forall>i < TILE_M. \<forall>j < TILE_N. m0 + i < M \<longrightarrow> n0 + j < N \<longrightarrow>
         T' ! i ! j = fl_add fl (T ! i ! j) (block_dot fl A B_d B_qs K (m0 + i) (n0 + j) t))"
proof -
  have p: "M * K \<le> 2147483647" "M * K \<le> length A" "N * K \<le> 2147483647" "N * K \<le> length B_qs" "N * (K div 32) \<le> length B_d"
    using assms(1) by (simp_all add: ports_fit_def)
  have "Suc t * 64 \<le> kt * 64" using assms(3) by (intro mult_le_mono1) simp
  then have k: "t * 64 + 64 \<le> K" using assms(2) by simp
  have kd: "t * 64 div 32 + 2 \<le> K div 32" using div_le_mono[OF k, of 32] by simp
  have "N * (K div 32) \<le> N * K" by simp
  then have p': "N * (K div 32) \<le> 2147483647" using p(3) by linarith
  note loads = load_A_Some[OF p(1,2) k, of fl m0] load_Bqs_Some[OF p(3,4) k, of n0] load_Bd_Some[OF p' p(5) kd, of n0]
  let ?a = "map (\<lambda>tm. map (\<lambda>tk. if m0 + tm < M then A ! ((m0 + tm) * K + (t * 64 + tk)) else fl_zero fl) [0..<64]) [0..<16]"
  let ?q = "map (\<lambda>tn. map (\<lambda>tk. if n0 + tn < N then B_qs ! ((n0 + tn) * K + (t * 64 + tk)) else 0) [0..<64]) [0..<64]"
  let ?d = "map (\<lambda>tn. map (\<lambda>b. if n0 + tn < N then B_d ! ((n0 + tn) * (K div 32) + (t * 64 div 32 + b)) else 0) [0..<2]) [0..<64]"
  have dot: "tile_dot fl (?a ! i) (?q ! j) (?d ! j) = block_dot fl A B_d B_qs K (m0 + i) (n0 + j) t"
    if ij: "i < 16" "j < 64" "m0 + i < M" "n0 + j < N" for i j
    unfolding tile_dot_def block_dot_def
  proof (rule fold_cong_upt)
    fix tk s assume tk: "tk < (64 :: nat)"
    then have "tk div 32 < 2" by simp
    moreover have "(t * 64 + tk) div 32 = t * 64 div 32 + tk div 32" by (simp add: div_add1_eq[of "t * 64" tk 32])
    ultimately show "(let scale = f16_safe fl (?d ! j ! (tk div 32)); b_val = fl_mul fl (fl_int fl (?q ! j ! tk)) scale in
        fl_add fl s (fl_mul fl (?a ! i ! tk) b_val)) =
      (let k = t * 64 + tk in fl_add fl s (fl_mul fl (A ! ((m0 + i) * K + k)) (fl_mul fl (fl_int fl (B_qs ! ((n0 + j) * K + k)))
        (f16_safe fl (B_d ! ((n0 + j) * (K div 32) + k div 32))))))"
      using ij tk by (simp add: Let_def del: upt_Suc)
  qed
  let ?T = "map (\<lambda>tm. map (\<lambda>tn. fl_add fl (T ! tm ! tn) (tile_dot fl (?a ! tm) (?q ! tn) (?d ! tn))) [0..<64]) [0..<16]"
  have "tile_step fl A B_d B_qs (int M) (int K) (int N) (int m0) (int n0) (int (t * 64)) T = Some ?T"
    unfolding tile_step_def loads by (simp only: Option.bind.bind_lunit)
  moreover have "?T ! i ! j = fl_add fl (T ! i ! j) (tile_dot fl (?a ! i) (?q ! j) (?d ! j))" if "i < 16" "j < 64" for i j
    using that by (simp del: upt_Suc)
  ultimately show ?thesis by (intro exI conjI allI impI) (auto simp only: dot)
qed

lemma tile_sum_value:
  assumes "ports_fit M K N A B_d B_qs C" and "K = kt * TILE_K"
  shows "\<exists>T. for_tiles TILE_K (int K) (tile_step fl A B_d B_qs (int M) (int K) (int N) (int m0) (int n0)) 0 (zero_tile fl) = Some T
    \<and> (\<forall>i < TILE_M. \<forall>j < TILE_N. m0 + i < M \<longrightarrow> n0 + j < N \<longrightarrow> T ! i ! j = matmul_elem fl A B_d B_qs K (m0 + i) (n0 + j) kt)"
proof -
  let ?P = "\<lambda>t T. \<forall>i < 16. \<forall>j < 64. m0 + i < M \<longrightarrow> n0 + j < N \<longrightarrow> T ! i ! j = matmul_elem fl A B_d B_qs K (m0 + i) (n0 + j) t"
  have "(K + (64 - 1)) div 64 = kt" using assms(2) by simp
  then have f: "for_tiles TILE_K (int K) (tile_step fl A B_d B_qs (int M) (int K) (int N) (int m0) (int n0)) 0 (zero_tile fl)
      = fold_opt (\<lambda>k. tile_step fl A B_d B_qs (int M) (int K) (int N) (int m0) (int n0) (int (k * 64))) [0..<kt] (zero_tile fl)"
    using assms(1) tiles_fold[of 64 K] by (simp add: ports_fit_def)
  show ?thesis unfolding f
  proof (rule fold_opt_upt_total[where P = ?P])
    show "?P 0 (zero_tile fl)" by (simp add: zero_tile_def matmul_elem_def)
    fix t T assume t: "t < kt" and T: "?P t T"
    obtain T' where T': "tile_step fl A B_d B_qs (int M) (int K) (int N) (int m0) (int n0) (int (t * 64)) T = Some T'"
      "\<forall>i < 16. \<forall>j < 64. m0 + i < M \<longrightarrow> n0 + j < N \<longrightarrow> T' ! i ! j = fl_add fl (T ! i ! j) (block_dot fl A B_d B_qs K (m0 + i) (n0 + j) t)"
      using tile_step_value[OF assms t] by blast
    then have "?P (Suc t) T'" using T by (simp add: matmul_elem_def)
    with T'(1) show "\<exists>T'. tile_step fl A B_d B_qs (int M) (int K) (int N) (int m0) (int n0) (int (t * 64)) T = Some T' \<and> ?P (Suc t) T'"
      by blast
  qed simp
qed

subsection \<open>Storing the tiles\<close>

text \<open>The elements of a set are the product's, the others and the rest of the memory are as before.\<close>

definition product_at :: "(nat \<Rightarrow> nat \<Rightarrow> 'f) \<Rightarrow> nat \<Rightarrow> nat \<Rightarrow> 'f list \<Rightarrow> (nat \<times> nat) set \<Rightarrow> 'f list \<Rightarrow> bool" where
  "product_at v M N C0 W C \<longleftrightarrow> length C = length C0
     \<and> (\<forall>m < M. \<forall>n < N. C ! (m * N + n) = (if (m, n) \<in> W then v m n else C0 ! (m * N + n)))
     \<and> (\<forall>i \<ge> M * N. i < length C0 \<longrightarrow> C ! i = C0 ! i)"

lemma elem_inj: "m * N + n = m' * N + n' \<Longrightarrow> n < N \<Longrightarrow> n' < N \<Longrightarrow> m = m' \<and> n = n'" for m n m' n' N :: nat
proof -
  assume e: "m * N + n = m' * N + n'" and b: "n < N" "n' < N"
  have "m = (m * N + n) div N" "m' = (m' * N + n') div N" using b by simp_all
  then show ?thesis using e by simp
qed

lemma product_at_write:
  assumes "product_at v M N C0 W C" and "m < M" and "n < N" and "M * N \<le> length C0"
  shows "m * N + n < length C \<and> product_at v M N C0 (insert (m, n) W) (C[m * N + n := v m n])"
proof -
  have l: "m * N + n < M * N" by (rule elem_in_matrix[OF assms(2,3)])
  then have "m * N + n < length C" using assms(1,4) by (simp add: product_at_def)
  moreover have "C[m * N + n := v m n] ! (a * N + b) = (if (a, b) \<in> insert (m, n) W then v a b else C0 ! (a * N + b))"
    if "a < M" "b < N" for a b
    using assms(1) that calculation elem_inj[of m N n a b] assms(3)
    by (cases "m * N + n = a * N + b") (auto simp: product_at_def)
  ultimately show ?thesis using assms(1) l by (auto simp: product_at_def)
qed

lemma store_row:
  assumes "product_at v M N C0 W C" and "m < M" and "M * N \<le> length C0" and "M * N \<le> 2147483647"
    and "\<forall>j < TILE_N. n0 + j < N \<longrightarrow> row ! j = v m (n0 + j)"
  shows "\<exists>C'. fold_opt (\<lambda>tn C. let gc = int n0 + int tn in
       if gc < int N then do { i \<leftarrow> elem_index (int N) (int m) gc; port_write C i (row ! tn) } else Some C) [0..<TILE_N] C = Some C'
    \<and> product_at v M N C0 (W \<union> {(m, n) | n. n0 \<le> n \<and> n < n0 + TILE_N}) C'"
proof -
  have "\<exists>C'. fold_opt (\<lambda>tn C. let gc = int n0 + int tn in
       if gc < int N then do { i \<leftarrow> elem_index (int N) (int m) gc; port_write C i (row ! tn) } else Some C) [0..<64] C = Some C'
    \<and> product_at v M N C0 (W \<union> {(m, n) | n. n0 \<le> n \<and> n < n0 + 64}) C'"
  proof (rule fold_opt_upt_total[where P = "\<lambda>k. product_at v M N C0 (W \<union> {(m, n) | n. n0 \<le> n \<and> n < n0 + k})"])
    fix j D assume j: "j < (64 :: nat)" and D: "product_at v M N C0 (W \<union> {(m, n) | n. n0 \<le> n \<and> n < n0 + j}) D"
    let ?W = "W \<union> {(m, n) | n. n0 \<le> n \<and> n < n0 + j}"
    have ins: "W \<union> {(m, n) | n. n0 \<le> n \<and> n < n0 + Suc j} = insert (m, n0 + j) ?W" by auto
    show "\<exists>D'. (let gc = int n0 + int j in
       if gc < int N then do { i \<leftarrow> elem_index (int N) (int m) gc; port_write D i (row ! j) } else Some D) = Some D'
       \<and> product_at v M N C0 (W \<union> {(m, n) | n. n0 \<le> n \<and> n < n0 + Suc j}) D'"
    proof (cases "n0 + j < N")
      case True
      note w = product_at_write[OF D assms(2) True assms(3)]
      have "elem_index (int N) (int m) (int n0 + int j) = Some (int (m * N + (n0 + j)))"
        using elem_index_Some[OF assms(2) True assms(4)] by simp
      then show ?thesis using True w j assms(5) unfolding ins by (simp add: Let_def port_write_def del: of_nat_add of_nat_mult)
    next
      case False
      then show ?thesis using D unfolding ins by (auto simp: Let_def product_at_def)
    qed
  next
    have "W \<union> {(m, n) | n. n0 \<le> n \<and> n < n0 + 0} = W" by auto
    then show "product_at v M N C0 (W \<union> {(m, n) | n. n0 \<le> n \<and> n < n0 + 0}) C" using assms(1) by metis
  qed simp
  then show ?thesis .
qed

lemma store_C_value:
  assumes "product_at v M N C0 W C" and "M * N \<le> length C0" and "M * N \<le> 2147483647"
    and "\<forall>i < TILE_M. \<forall>j < TILE_N. m0 + i < M \<longrightarrow> n0 + j < N \<longrightarrow> T ! i ! j = v (m0 + i) (n0 + j)"
  shows "\<exists>C'. store_C (int M) (int N) (int m0) (int n0) T C = Some C'
    \<and> product_at v M N C0 (W \<union> {(m, n). m0 \<le> m \<and> m < m0 + TILE_M \<and> n0 \<le> n \<and> n < n0 + TILE_N}) C'"
proof -
  let ?W = "\<lambda>k. W \<union> {(m, n). m0 \<le> m \<and> m < m0 + k \<and> n0 \<le> n \<and> n < n0 + 64}"
  show ?thesis unfolding store_C_def
  proof (rule fold_opt_upt_total[where P = "\<lambda>k. product_at v M N C0 (?W k)"])
    have "?W 0 = W" by auto
    then show "product_at v M N C0 (?W 0) C" using assms(1) by metis
    fix i D assume i: "i < (16 :: nat)" and D: "product_at v M N C0 (?W i) D"
    have w: "?W (Suc i) = ?W i \<union> {(m0 + i, n) | n. n0 \<le> n \<and> n < n0 + 64}" by auto
    show "\<exists>D'. (let gr = int m0 + int i in if gr \<ge> int M then Some D
        else fold_opt (\<lambda>tn C. let gc = int n0 + int tn in
          if gc < int N then do { k \<leftarrow> elem_index (int N) gr gc; port_write C k (T ! i ! tn) } else Some C) [0..<64] D) = Some D'
        \<and> product_at v M N C0 (?W (Suc i)) D'"
    proof (cases "m0 + i < M")
      case True
      have "\<forall>j < 64. n0 + j < N \<longrightarrow> T ! i ! j = v (m0 + i) (n0 + j)" using assms(4) i True by blast
      from store_row[OF D True assms(2,3) this] have "\<exists>D'. fold_opt (\<lambda>tn C. let gc = int n0 + int tn in
          if gc < int N then do { k \<leftarrow> elem_index (int N) (int m0 + int i) gc; port_write C k (T ! i ! tn) } else Some C) [0..<64] D = Some D'
        \<and> product_at v M N C0 (?W (Suc i)) D'"
        unfolding w of_nat_add .
      then show ?thesis using True by (simp add: Let_def)
    next
      case False
      then have "product_at v M N C0 (?W (Suc i)) D" using D unfolding w by (auto simp: product_at_def)
      then show ?thesis using False by (simp add: Let_def)
    qed
  qed simp
qed

lemma tile_loops:
  fixes fl :: "'f float_ops" and kt :: nat
  assumes fit: "ports_fit M K N A B_d B_qs C0" and K: "K = kt * TILE_K"
  defines "v \<equiv> \<lambda>m n. matmul_elem fl A B_d B_qs K m n kt"
  shows "\<exists>C'. hls_matmul fl A B_d B_qs (int M) (int K) (int N) C0 = Some C' \<and> product_at v M N C0 UNIV C'"
proof -
  let ?body = "\<lambda>m0 n0 C. do {
     C_tile \<leftarrow> for_tiles TILE_K (int K) (tile_step fl A B_d B_qs (int M) (int K) (int N) m0 n0) 0 (zero_tile fl);
     store_C (int M) (int N) m0 n0 C_tile C }"
  let ?mt = "(M + (16 - 1)) div 16" and ?nt = "(N + (64 - 1)) div 64"
  have sz: "M + 16 \<le> 2147483648" "N + 64 \<le> 2147483648" "M * N \<le> length C0" "M * N \<le> 2147483647" using fit by (simp_all add: ports_fit_def)
  have one: "\<exists>C'. ?body (int m0) (int n0) C = Some C' \<and> product_at v M N C0 (W \<union> {(m, n). m0 \<le> m \<and> m < m0 + 16 \<and> n0 \<le> n \<and> n < n0 + 64}) C'"
    if "product_at v M N C0 W C" for m0 n0 C W
  proof -
    obtain T where T: "for_tiles TILE_K (int K) (tile_step fl A B_d B_qs (int M) (int K) (int N) (int m0) (int n0)) 0 (zero_tile fl) = Some T"
      "\<forall>i < 16. \<forall>j < 64. m0 + i < M \<longrightarrow> n0 + j < N \<longrightarrow> T ! i ! j = v (m0 + i) (n0 + j)"
      using tile_sum_value[OF fit K] unfolding v_def by blast
    then show ?thesis using store_C_value[OF that sz(3,4) T(2)] by simp
  qed
  have row: "\<exists>C'. for_tiles TILE_N (int N) (?body (int m0)) 0 C = Some C' \<and> product_at v M N C0 (W \<union> {(m, n). m0 \<le> m \<and> m < m0 + 16 \<and> n < N}) C'"
    if C: "product_at v M N C0 W C" for m0 C W
  proof -
    let ?W = "\<lambda>k. W \<union> {(m, n). m0 \<le> m \<and> m < m0 + 16 \<and> n < k * 64}"
    have "\<exists>C'. fold_opt (\<lambda>k. ?body (int m0) (int (k * 64))) [0..<?nt] C = Some C' \<and> product_at v M N C0 (?W ?nt) C'"
    proof (rule fold_opt_upt_total[where P = "\<lambda>k. product_at v M N C0 (?W k)"])
      have "?W 0 = W" by auto
      then show "product_at v M N C0 (?W 0) C" using C by metis
      fix k D assume D: "product_at v M N C0 (?W k) D"
      have w: "?W (Suc k) = ?W k \<union> {(m, n). m0 \<le> m \<and> m < m0 + 16 \<and> k * 64 \<le> n \<and> n < k * 64 + 64}" by auto
      show "\<exists>D'. ?body (int m0) (int (k * 64)) D = Some D' \<and> product_at v M N C0 (?W (Suc k)) D'" unfolding w by (rule one[OF D])
    qed simp
    moreover have "product_at v M N C0 (W \<union> {(m, n). m0 \<le> m \<and> m < m0 + 16 \<and> n < N}) C'" if "product_at v M N C0 (?W ?nt) C'" for C'
    proof -
      have "n < ?nt * 64" if "n < N" for n using that by linarith
      then show ?thesis using that by (auto simp: product_at_def)
    qed
    ultimately show ?thesis using tiles_fold[of 64 N "?body (int m0)" C] sz(2) by auto
  qed
  let ?W = "\<lambda>k. {(m, n). m < k * 16 \<and> n < N}"
  have "\<exists>C'. fold_opt (\<lambda>k. for_tiles TILE_N (int N) (?body (int (k * 16))) 0) [0..<?mt] C0 = Some C' \<and> product_at v M N C0 (?W ?mt) C'"
  proof (rule fold_opt_upt_total[where P = "\<lambda>k. product_at v M N C0 (?W k)"])
    show "product_at v M N C0 (?W 0) C0" by (simp add: product_at_def)
    fix k D assume D: "product_at v M N C0 (?W k) D"
    have w: "?W (Suc k) = ?W k \<union> {(m, n). k * 16 \<le> m \<and> m < k * 16 + 16 \<and> n < N}" by auto
    show "\<exists>D'. for_tiles TILE_N (int N) (?body (int (k * 16))) 0 D = Some D' \<and> product_at v M N C0 (?W (Suc k)) D'" unfolding w by (rule row[OF D])
  qed simp
  moreover have "product_at v M N C0 UNIV C'" if "product_at v M N C0 (?W ?mt) C'" for C'
  proof -
    have "m < ?mt * 16" if "m < M" for m using that by linarith
    then show ?thesis using that by (auto simp: product_at_def)
  qed
  moreover have z: "(0 :: nat) < 16" by simp
  ultimately show ?thesis unfolding hls_matmul_def tiles_fold[OF z sz(1)] by blast
qed

text \<open>
  Property C15. For every shape whose matrices fit their ports and whose depth is a multiple of 64, the tiled
  kernel returns and leaves at \<open>C[m * N + n]\<close>, for every row and column, partial tiles included, the sum of
  its 64-element tile products in the order of the tiles, whatever the memory held before, and writes
  nothing else.
\<close>

theorem hls_matmul_exact:
  assumes "ports_fit M K N A B_d B_qs C" and "K mod TILE_K = 0"
  shows "\<exists>C'. hls_matmul fl A B_d B_qs (int M) (int K) (int N) C = Some C' \<and> length C' = length C
    \<and> (\<forall>m < M. \<forall>n < N. C' ! (m * N + n) = matmul_elem fl A B_d B_qs K m n (K div TILE_K))
    \<and> (\<forall>i. M * N \<le> i \<and> i < length C \<longrightarrow> C' ! i = C ! i)"
proof -
  have "K = K div 64 * 64" using assms(2) div_mult_mod_eq[of K 64] by simp
  from tile_loops[OF assms(1) this, of fl] show ?thesis by (auto simp: product_at_def)
qed

lemma hls_matmul_exact_witness:
  "\<exists>C'. hls_matmul real_ops (replicate 64 1) (replicate 2 0x3C00) (replicate 64 3) 1 64 1 [5, 7] = Some C'
    \<and> C' ! 0 = matmul_elem real_ops (replicate 64 1) (replicate 2 0x3C00) (replicate 64 3) 64 0 0 1 \<and> C' ! 1 = 7"
proof -
  have fit: "ports_fit 1 64 1 (replicate 64 1) (replicate 2 0x3C00) (replicate 64 3) [5, 7]" by (simp add: ports_fit_def)
  obtain C' where c: "hls_matmul real_ops (replicate 64 1) (replicate 2 0x3C00) (replicate 64 3) (int 1) (int 64) (int 1) [5, 7] = Some C'"
    "\<forall>m < 1. \<forall>n < 1. C' ! (m * 1 + n) = matmul_elem real_ops (replicate 64 1) (replicate 2 0x3C00) (replicate 64 3) 64 m n (64 div 64)"
    "\<forall>i. 1 * 1 \<le> i \<and> i < length [5, 7] \<longrightarrow> C' ! i = [5, 7] ! i"
    using hls_matmul_exact[OF fit, of real_ops] by auto
  have "C' ! 0 = matmul_elem real_ops (replicate 64 1) (replicate 2 0x3C00) (replicate 64 3) 64 0 0 1" using c(2) by simp
  moreover have "C' ! 1 = 7" using spec[OF c(3), of 1] by simp
  ultimately show ?thesis using c(1) by auto
qed

end
