(* ===== verification/Fpga_Job.thy ===== *)
theory Fpga_Job
  imports Fpga_Residency Fpga_Tiles Hls_Kernel
begin

text \<open>
  One tile job of the accelerator from the host's side (\<^verbatim>\<open>ggml/src/ggml-cpu/fpga_host.cpp\<close>): the DMA copies,
  preparing the inputs in the staging DDR, submitting, draining, releasing and accumulating. The state is
  one record, with the two job slots of the schedulers; a step returns whether the code returned true, and
  \<open>None\<close> when it aborts.

  What the hardware does is a parameter (\<open>hardware\<close>): how its registers move on whenever the host waits or
  fences, whether a DMA descriptor completes, and the result rows as a function of the inputs. The inputs are
  those in the windows at START and those at the time the results are read, so a host that overwrites
  the windows of a running job gets whatever the hardware makes of both. The memory of the device has two
  banks of the ACT and WEIGHT windows, selected by REG_BANK, and one copy of the others. Timers and traces are
  left out, and so is the packing of the next tile during the DMA of a single-column product
  (\<^verbatim>\<open>FPGA_P2_PACK_DMA_PIPELINE\<close>); with more columns the code does not use it.
\<close>

subsection \<open>State\<close>

abbreviation (input) LMM_BASE_PHYS :: u64 where "LMM_BASE_PHYS \<equiv> 0xA0000000"
abbreviation (input) ACT_BASE :: u32 where "ACT_BASE \<equiv> 0x10000"
abbreviation (input) ACT_END :: u32 where "ACT_END \<equiv> 0x20000"
abbreviation (input) WEIGHT_BASE :: u32 where "WEIGHT_BASE \<equiv> 0x100000"
abbreviation (input) WEIGHT_END :: u32 where "WEIGHT_END \<equiv> 0x200000"
abbreviation (input) RESULT_BASE :: u32 where "RESULT_BASE \<equiv> 0x200000"
abbreviation (input) RESULT_END :: u32 where "RESULT_END \<equiv> 0x210000"
abbreviation (input) SPU_OUT_BASE :: u32 where "SPU_OUT_BASE \<equiv> 0x340000"
abbreviation (input) SPU_OUT_END :: u32 where "SPU_OUT_END \<equiv> 0x380000"
abbreviation (input) SPU_PARAM_BASE :: u32 where "SPU_PARAM_BASE \<equiv> 0x380000"
abbreviation (input) SPU_PARAM_END :: u32 where "SPU_PARAM_END \<equiv> 0x3C0000"

abbreviation (input) REG_CTRL :: u32 where "REG_CTRL \<equiv> 0"
abbreviation (input) REG_STATUS :: u32 where "REG_STATUS \<equiv> 0x10"
abbreviation (input) REG_ROWS :: u32 where "REG_ROWS \<equiv> 0x20"
abbreviation (input) REG_COLS :: u32 where "REG_COLS \<equiv> 0x30"
abbreviation (input) REG_COL_BEATS :: u32 where "REG_COL_BEATS \<equiv> 0x40"
abbreviation (input) REG_SCALE :: u32 where "REG_SCALE \<equiv> 0x50"
abbreviation (input) REG_MODE :: u32 where "REG_MODE \<equiv> 0x60"
abbreviation (input) REG_SPU_STREAM_COUNT :: u32 where "REG_SPU_STREAM_COUNT \<equiv> 0x1C0"
abbreviation (input) REG_SPU_STREAM_DONE :: u32 where "REG_SPU_STREAM_DONE \<equiv> 0x1C4"
abbreviation (input) REG_SPU_STREAM_DROP :: u32 where "REG_SPU_STREAM_DROP \<equiv> 0x1D0"
abbreviation (input) REG_SPU_STREAM_OUT :: u32 where "REG_SPU_STREAM_OUT \<equiv> 0x1D4"
abbreviation (input) REG_SPU_STREAM_ERROR :: u32 where "REG_SPU_STREAM_ERROR \<equiv> 0x1D8"
abbreviation (input) REG_SPU_STREAM_LAST_JOB :: u32 where "REG_SPU_STREAM_LAST_JOB \<equiv> 0x1E8"
abbreviation (input) REG_SPU_STREAM_LAST_BANK :: u32 where "REG_SPU_STREAM_LAST_BANK \<equiv> 0x1EC"
abbreviation (input) REG_SPU_STREAM_STATUS :: u32 where "REG_SPU_STREAM_STATUS \<equiv> 0x1F8"
abbreviation (input) REG_STREAM_MODE :: u32 where "REG_STREAM_MODE \<equiv> 0x1FC"
abbreviation (input) REG_SPU_CTRL :: u32 where "REG_SPU_CTRL \<equiv> 0xA0"
abbreviation (input) CTRL_START :: u32 where "CTRL_START \<equiv> 1"
abbreviation (input) CTRL_CLEAR_DONE :: u32 where "CTRL_CLEAR_DONE \<equiv> 2"

text \<open>The rest of \<open>fpga_tile_job_t\<close> (the identity is \<open>tile_job\<close> of theory \<open>Fpga_Device\<close>).\<close>

record q8_job = tile_job +
  qj_tile_id :: u32
  qj_col :: int
  qj_act_bytes :: u64
  qj_scale_bytes :: u64
  qj_spu_result_bytes :: u64
  qj_result_bytes :: u64
  qj_result_values :: u32
  qj_result_words :: u32
  qj_scale_src_off :: u32
  qj_act_group :: int
  qj_weight_cache_hit :: bool
  qj_weight_bank_reused :: bool
  qj_output_dma_ready :: bool
  qj_hardware_released :: bool
  qj_result_consumed :: bool
  qj_count_before :: u32
  qj_done_before :: u32
  qj_out_before :: u32
  qj_drop_before :: u32
  qj_error_before :: u32

definition blank_job :: q8_job where
  "blank_job = \<lparr>tj_bank = 0, tj_job_id = 0, tj_tensor_id = 0, tj_row0 = 0, tj_rows = 0, tj_k_block0 = 0, tj_group_blocks = 0,
     tj_group_beats = 0, tj_weight_bytes = 0, tj_weight_src_off = 0, tj_p2_residency_hit = False, tj_p2_residency_slot = 0,
     tj_p2_residency_epoch = 0, tj_p2_residency_seal = 0,
     tj_src0 = \<lparr>gt_ptr = 0, gt_data = 0, gt_type = 0, gt_ne = [], gt_nb = []\<rparr>,
     qj_tile_id = 0, qj_col = 0, qj_act_bytes = 0, qj_scale_bytes = 0, qj_spu_result_bytes = 0, qj_result_bytes = 0,
     qj_result_values = 0, qj_result_words = 0, qj_scale_src_off = 0, qj_act_group = 0, qj_weight_cache_hit = False,
     qj_weight_bank_reused = False, qj_output_dma_ready = False, qj_hardware_released = False, qj_result_consumed = False,
     qj_count_before = 0, qj_done_before = 0, qj_out_before = 0, qj_drop_before = 0, qj_error_before = 0\<rparr>"

text \<open>\<open>fpga_prompt_weight_staging_t\<close>: what the direct WEIGHT window of the staging DDR holds.\<close>

record weight_staging =
  ws_valid :: bool
  ws_src0 :: u64
  ws_data :: int
  ws_ddr :: u64
  ws_row0 :: int
  ws_rows :: int
  ws_k_block0 :: int
  ws_group_blocks :: int
  ws_bytes :: u64
  ws_epoch :: u64
  ws_weight_off :: u32
  ws_scale_off :: u32

definition no_staging :: weight_staging where
  "no_staging = \<lparr>ws_valid = False, ws_src0 = 0, ws_data = 0, ws_ddr = 0, ws_row0 = 0, ws_rows = 0, ws_k_block0 = 0,
     ws_group_blocks = 0, ws_bytes = 0, ws_epoch = 0, ws_weight_off = WEIGHT_BASE, ws_scale_off = SPU_PARAM_BASE\<rparr>"

text \<open>The inputs of a tile in the windows of the device.\<close>

record tile_input =
  ti_rows :: nat
  ti_beats :: nat
  ti_act :: "u8 list"
  ti_weight :: "u8 list"
  ti_scale :: "u8 list"

record hardware =
  hw_regs :: "(u32 \<Rightarrow> u32) \<Rightarrow> u32 \<Rightarrow> u32"
  hw_dma_ok :: "nat \<Rightarrow> bool"
  hw_spu :: "tile_input \<Rightarrow> tile_input \<Rightarrow> nat \<Rightarrow> u8"
  hw_polls :: nat
  hw_timer_ok :: bool
  hw_worker_ok :: bool
  hw_map_size :: u64
  hw_env :: "u32 \<Rightarrow> build_env"

record run_config =
  rc_limits :: vpu_limits
  rc_max_transfer :: u64
  rc_clear_result :: bool
  rc_scale_stream :: bool
  rc_result_overlap :: bool
  rc_pingpong :: bool
  rc_pack_workers :: int

text \<open>A tile of the legacy weight cache, which the schedulers get as an argument (\<open>None\<close> when it is off).\<close>

record cached_tile =
  ct_row0 :: int
  ct_rows :: int
  ct_k_block0 :: int
  ct_group_blocks :: int
  ct_group_beats :: int
  ct_ddr_off :: u32
  ct_bytes :: u64

text \<open>Host memory with the weights and the quantized activation columns, and the strides of the result.\<close>

record operands =
  op_mem :: "int \<Rightarrow> u8"
  op_src0 :: tensor
  op_weight_base :: int
  op_act_base :: int
  op_nb0 :: nat
  op_nb1 :: nat

text \<open>
  The state of a matrix product. \<open>en_dst\<close> is the result tensor, a float per byte offset; \<open>en_mem\<close> the device's
  memory by bank and offset; \<open>en_job\<close> the bank and the inputs of the job last started; \<open>en_stream_mode\<close> the stream
  mode the host committed last, -1 when unknown.
\<close>

record 'f engine =
  en_ddr :: ddr_map
  en_dir :: residency
  en_dev :: device
  en_mem :: "nat \<Rightarrow> nat \<Rightarrow> u8"
  en_job :: "(nat \<times> tile_input) option"
  en_transfers :: nat
  en_slots :: "q8_job list"
  en_staging :: weight_staging
  en_accum :: "'f list"
  en_dst :: "nat \<Rightarrow> 'f"
  en_tile_id :: u32
  en_tile_index :: u32
  en_running :: "nat option"
  en_loaded :: "bool list"
  en_stream_mode :: int

type_synonym 'f step = "'f engine \<Rightarrow> (bool \<times> 'f engine) option"

subsection \<open>Steps\<close>

text \<open>Sequencing with early return: the second step runs only when the first returns true.\<close>

definition and_then :: "'f step \<Rightarrow> 'f step \<Rightarrow> 'f step" where
  "and_then f g s = (case f s of None \<Rightarrow> None | Some (ok, s') \<Rightarrow> if ok then g s' else Some (False, s'))"

fun all_steps :: "'f step list \<Rightarrow> 'f step" where
  "all_steps [] s = Some (True, s)"
| "all_steps (f # fs) s = and_then f (all_steps fs) s"

definition check_that :: "('f engine \<Rightarrow> bool) \<Rightarrow> 'f step" where
  "check_that P s = Some (P s, s)"

definition abort_unless :: "('f engine \<Rightarrow> bool) \<Rightarrow> 'f step" where
  "abort_unless P s = require (P s) (Some (True, s))"

definition modify :: "('f engine \<Rightarrow> 'f engine) \<Rightarrow> 'f step" where
  "modify f s = Some (True, f s)"

definition on_device :: "(device \<Rightarrow> device) \<Rightarrow> 'f step" where
  "on_device f s = Some (True, s\<lparr>en_dev := f (en_dev s)\<rparr>)"

definition ask_device :: "(device \<Rightarrow> bool \<times> device) \<Rightarrow> 'f step" where
  "ask_device f s = (let (ok, dv) = f (en_dev s) in Some (ok, s\<lparr>en_dev := dv\<rparr>))"

definition on_ddr :: "(ddr_map \<Rightarrow> ddr_map option) \<Rightarrow> 'f step" where
  "on_ddr f s = do { d \<leftarrow> f (en_ddr s); Some (True, s\<lparr>en_ddr := d\<rparr>) }"

definition job_at :: "nat \<Rightarrow> 'f engine \<Rightarrow> q8_job" where
  "job_at i s = en_slots s ! i"

definition set_job :: "nat \<Rightarrow> (q8_job \<Rightarrow> q8_job) \<Rightarrow> 'f engine \<Rightarrow> 'f engine" where
  "set_job i f s = s\<lparr>en_slots := (en_slots s)[i := f (job_at i s)]\<rparr>"

abbreviation tile_of :: "q8_job \<Rightarrow> tile_job" where "tile_of \<equiv> tile_job.truncate"

subsection \<open>DMA\<close>

definition device_bank :: "(u32 \<Rightarrow> u32) \<Rightarrow> nat \<Rightarrow> nat" where
  "device_bank regs off =
     (if (unat ACT_BASE \<le> off \<and> off < unat ACT_END) \<or> (unat WEIGHT_BASE \<le> off \<and> off < unat WEIGHT_END)
      then unat (regs REG_BANK AND 1) else 0)"

definition window :: "(nat \<Rightarrow> u8) \<Rightarrow> u32 \<Rightarrow> nat \<Rightarrow> u8 list" where
  "window m base n = map (\<lambda>i. m (unat base + i)) [0..<n]"

definition tile_snapshot :: "nat \<Rightarrow> nat \<Rightarrow> nat \<Rightarrow> (nat \<Rightarrow> nat \<Rightarrow> u8) \<Rightarrow> tile_input" where
  "tile_snapshot bank rows beats m = \<lparr>ti_rows = rows, ti_beats = beats, ti_act = window (m bank) ACT_BASE (beats * 16),
     ti_weight = window (m bank) WEIGHT_BASE ((rows + 1) div 2 * 2 * beats * 16),
     ti_scale = window (m 0) SPU_PARAM_BASE (rows * (beats div 2) * 4)\<rparr>"

text \<open>A byte as the DMA engine reads it from the device: a result row comes from the job last started.\<close>

definition device_byte :: "hardware \<Rightarrow> 'f engine \<Rightarrow> nat \<Rightarrow> u8" where
  "device_byte hw s off =
     (case en_job s of
        Some (bank, started) \<Rightarrow>
          if unat SPU_OUT_BASE \<le> off \<and> off < unat SPU_OUT_END
          then hw_spu hw started (tile_snapshot bank (ti_rows started) (ti_beats started) (en_mem s)) (off - unat SPU_OUT_BASE)
          else en_mem s (device_bank (dv_regs (en_dev s)) off) off
      | None \<Rightarrow> en_mem s (device_bank (dv_regs (en_dev s)) off) off)"

text \<open>One descriptor (\<open>fpga_dma_copy_one\<close>), from the staging DDR to the device or back.\<close>

definition dma_into_device :: "nat \<Rightarrow> nat \<Rightarrow> nat \<Rightarrow> 'f engine \<Rightarrow> 'f engine" where
  "dma_into_device src dst bytes s = s\<lparr>en_mem := (\<lambda>bank off.
     if dst \<le> off \<and> off < dst + bytes \<and> bank = device_bank (dv_regs (en_dev s)) off
     then dm_bytes (en_ddr s) ! (src + (off - dst)) else en_mem s bank off)\<rparr>"

definition dma_from_device :: "hardware \<Rightarrow> nat \<Rightarrow> nat \<Rightarrow> nat \<Rightarrow> 'f engine \<Rightarrow> 'f engine" where
  "dma_from_device hw src dst bytes s = s\<lparr>en_ddr := (en_ddr s)\<lparr>dm_bytes :=
     put_bytes dst (map (\<lambda>i. device_byte hw s (src + i)) [0..<bytes]) (dm_bytes (en_ddr s))\<rparr>\<rparr>"

definition fpga_dma_copy_one :: "hardware \<Rightarrow> bool \<Rightarrow> nat \<Rightarrow> nat \<Rightarrow> nat \<Rightarrow> 'f step" where
  "fpga_dma_copy_one hw ddr_to_ip src dst bytes s =
     (let ok = hw_dma_ok hw (en_transfers s); s = s\<lparr>en_transfers := en_transfers s + 1\<rparr>
      in Some (ok, if \<not> ok then s else if ddr_to_ip then dma_into_device src dst bytes s else dma_from_device hw src dst bytes s))"

definition fpga_dma_copy :: "hardware \<Rightarrow> run_config \<Rightarrow> u64 \<Rightarrow> u64 \<Rightarrow> u64 \<Rightarrow> 'f step" where
  "fpga_dma_copy hw cfg src_phys dst_phys bytes s =
     (if bytes = 0 \<or> bytes > 4294967295 then Some (False, s)
      else let ddr_to_ip = phys_range_fits src_phys bytes DDR_BASE_PHYS (ddr_map_size (en_ddr s))
                 \<and> phys_range_fits dst_phys bytes LMM_BASE_PHYS (hw_map_size hw);
               ip_to_ddr = phys_range_fits src_phys bytes LMM_BASE_PHYS (hw_map_size hw)
                 \<and> phys_range_fits dst_phys bytes DDR_BASE_PHYS (ddr_map_size (en_ddr s))
        in if \<not> ddr_to_ip \<and> \<not> ip_to_ddr then Some (False, s)
           else if rc_max_transfer cfg < 16 \<or> rc_max_transfer cfg AND 0xF \<noteq> 0 then Some (False, s)
           else let chunk_bytes = min bytes (rc_max_transfer cfg);
                    chunk_count = bytes div chunk_bytes + (if bytes mod chunk_bytes \<noteq> 0 then 1 else 0);
                    src = unat (src_phys - (if ddr_to_ip then DDR_BASE_PHYS else LMM_BASE_PHYS));
                    dst = unat (dst_phys - (if ddr_to_ip then LMM_BASE_PHYS else DDR_BASE_PHYS))
             in all_steps (map (\<lambda>chunk. let offset = of_nat chunk * chunk_bytes; this_bytes = min chunk_bytes (bytes - offset)
                  in fpga_dma_copy_one hw ddr_to_ip (src + unat offset) (dst + unat offset) (unat this_bytes)) [0..<unat chunk_count]) s)"

definition fpga_dma_write_to_ip :: "hardware \<Rightarrow> run_config \<Rightarrow> u32 \<Rightarrow> u64 \<Rightarrow> 'f step" where
  "fpga_dma_write_to_ip hw cfg off bytes = fpga_dma_copy hw cfg (DDR_BASE_PHYS + ucast off) (LMM_BASE_PHYS + ucast off) bytes"

definition fpga_dma_read_from_ip :: "hardware \<Rightarrow> run_config \<Rightarrow> u32 \<Rightarrow> u64 \<Rightarrow> 'f step" where
  "fpga_dma_read_from_ip hw cfg off bytes = fpga_dma_copy hw cfg (LMM_BASE_PHYS + ucast off) (DDR_BASE_PHYS + ucast off) bytes"

end
