(* ===== verification/Fpga_Prepare.thy ===== *)
theory Fpga_Prepare
  imports Fpga_Job
begin

text \<open>
  Preparing a tile job (\<^verbatim>\<open>ggml/src/ggml-cpu/fpga_host.cpp\<close>, \<open>fpga_prepare_q8_tile_job\<close>): the checks of its
  shape, the choice of the weight source, and the three inputs written to the staging DDR. The helper thread
  of the packer writes the second half of the row pairs; its range is disjoint from the main range, so the
  model runs it after the main range.
\<close>

subsection \<open>Words of the staging DDR\<close>

definition ddr_words :: "nat \<Rightarrow> ddr_map \<Rightarrow> nat \<Rightarrow> u32" where
  "ddr_words p d i = load32 (p + 4 * i) (dm_bytes d)"

definition put_words :: "nat \<Rightarrow> nat \<Rightarrow> (nat \<Rightarrow> u32) \<Rightarrow> ddr_map \<Rightarrow> ddr_map" where
  "put_words p n w d = d\<lparr>dm_bytes := store_words p (map w [0..<n]) (dm_bytes d)\<rparr>"

subsection \<open>The job\<close>

text \<open>The shape checks that come before any state changes, with the sizes of the windows.\<close>

record tile_sizes =
  sz_group_beats :: int
  sz_result_values :: u32
  sz_result_words :: u32
  sz_act_bytes :: u64
  sz_weight_bytes :: u64
  sz_result_bytes :: u64
  sz_spu_result_bytes :: u64

definition tile_sizes_of :: "run_config \<Rightarrow> int \<Rightarrow> int \<Rightarrow> ddr_map \<Rightarrow> tile_sizes option" where
  "tile_sizes_of cfg rows group_blocks d =
     (if rows \<le> 0 \<or> rows > vl_max_rows (rc_limits cfg) \<or> group_blocks \<le> 0 then None
      else let group_beats = group_blocks * 2 in
        if group_beats > vl_max_beats (rc_limits cfg) then None
        else let result_values = word_of_int rows * word_of_int group_blocks :: u32;
                 result_words = (result_values + 3) div 4
          in if result_words > word_of_int (vl_result_words (rc_limits cfg)) then None
             else let act_bytes = size_of_int group_beats * 16;
                      weight_bytes = weight_window_bytes_for_rows rows group_beats;
                      result_bytes = ucast result_words * 16;
                      spu_result_bytes = size_of_int rows * 16
               in if \<not> range_fits ACT_BASE act_bytes ACT_BASE ACT_END \<or> \<not> range_fits WEIGHT_BASE weight_bytes WEIGHT_BASE WEIGHT_END
                    \<or> \<not> range_fits RESULT_BASE result_bytes RESULT_BASE RESULT_END
                    \<or> \<not> range_fits SPU_OUT_BASE spu_result_bytes SPU_OUT_BASE SPU_OUT_END
                    \<or> \<not> ddr_range_fits ACT_BASE act_bytes d \<or> \<not> ddr_range_fits WEIGHT_BASE weight_bytes d
                    \<or> \<not> ddr_range_fits RESULT_BASE result_bytes d \<or> \<not> ddr_range_fits SPU_OUT_BASE spu_result_bytes d
                  then None
                  else Some \<lparr>sz_group_beats = group_beats, sz_result_values = result_values, sz_result_words = result_words,
                    sz_act_bytes = act_bytes, sz_weight_bytes = weight_bytes, sz_result_bytes = result_bytes,
                    sz_spu_result_bytes = spu_result_bytes\<rparr>)"

text \<open>Where a tile sits: its rows, K blocks, activation column and number.\<close>

record tile_place =
  tp_row0 :: int
  tp_rows :: int
  tp_k_block0 :: int
  tp_group_blocks :: int
  tp_col :: int
  tp_act_group :: int

definition new_job :: "operands \<Rightarrow> tile_place \<Rightarrow> tile_sizes \<Rightarrow> u32 \<Rightarrow> int \<Rightarrow> u32 \<Rightarrow> u32 \<Rightarrow> u32 \<Rightarrow> q8_job" where
  "new_job ops tp sz tile_id bank weight_off scale_off job_id = blank_job\<lparr>tj_bank := bank AND 1, tj_job_id := job_id,
     tj_tensor_id := fpga_tensor_id_from_ptr (gt_ptr (op_src0 ops)), tj_row0 := tp_row0 tp, tj_rows := tp_rows tp,
     tj_k_block0 := tp_k_block0 tp, tj_group_blocks := tp_group_blocks tp, tj_group_beats := sz_group_beats sz,
     tj_weight_bytes := sz_weight_bytes sz, tj_weight_src_off := weight_off, tj_p2_residency_slot := NO_SLOT,
     tj_src0 := op_src0 ops, qj_tile_id := tile_id, qj_col := tp_col tp, qj_act_bytes := sz_act_bytes sz,
     qj_scale_bytes := sz_result_bytes sz, qj_spu_result_bytes := sz_spu_result_bytes sz, qj_result_bytes := sz_result_bytes sz,
     qj_result_values := sz_result_values sz, qj_result_words := sz_result_words sz, qj_scale_src_off := scale_off,
     qj_act_group := tp_act_group tp\<rparr>"

subsection \<open>The weight source\<close>

definition staging_holds :: "operands \<Rightarrow> tile_place \<Rightarrow> u32 \<Rightarrow> u32 \<Rightarrow> 'f engine \<Rightarrow> bool" where
  "staging_holds ops tp weight_off scale_off s \<longleftrightarrow> (let ws = en_staging s in
     ws_valid ws \<and> ws_src0 ws = gt_ptr (op_src0 ops) \<and> ws_data ws = op_weight_base ops \<and> ws_ddr ws = dm_base (en_ddr s)
     \<and> ws_row0 ws = tp_row0 tp \<and> ws_rows ws = tp_rows tp \<and> ws_k_block0 ws = tp_k_block0 tp
     \<and> ws_group_blocks ws = tp_group_blocks tp \<and> ws_epoch ws = rs_epoch (en_dir s)
     \<and> ws_weight_off ws = weight_off \<and> ws_scale_off ws = scale_off)"

definition tile_request_of :: "operands \<Rightarrow> tile_place \<Rightarrow> tile_request" where
  "tile_request_of ops tp = \<lparr>rq_src = op_src0 ops, rq_row0 = tp_row0 tp, rq_rows = tp_rows tp, rq_k_block0 = tp_k_block0 tp,
     rq_group_blocks = tp_group_blocks tp, rq_group_beats = tp_group_blocks tp * 2\<rparr>"

definition use_cached_tile :: "cached_tile list option \<Rightarrow> u32 \<Rightarrow> tile_place \<Rightarrow> u64 \<Rightarrow> q8_job \<Rightarrow> q8_job" where
  "use_cached_tile weight_cache tile_index tp weight_bytes job =
     (case weight_cache of None \<Rightarrow> job
      | Some tiles \<Rightarrow> if unat tile_index \<ge> length tiles then job
          else let t = tiles ! unat tile_index in
            if ct_row0 t = tp_row0 tp \<and> ct_rows t = tp_rows tp \<and> ct_k_block0 t = tp_k_block0 tp
              \<and> ct_group_blocks t = tp_group_blocks tp \<and> ct_group_beats t = tp_group_blocks tp * 2 \<and> ct_bytes t = weight_bytes
            then job\<lparr>tj_weight_src_off := ct_ddr_off t, qj_weight_cache_hit := True\<rparr> else job)"

text \<open>The resident tile of the directory, looked up or built, becomes the source of the job.\<close>

definition use_resident_tile :: "hardware \<Rightarrow> operands \<Rightarrow> tile_place \<Rightarrow> nat \<Rightarrow> 'f step" where
  "use_resident_tile hw ops tp i s =
     (let rq = tile_request_of ops tp; job = job_at i s;
          env = (hw_env hw (qj_tile_id job))\<lparr>be_mem := op_mem ops, be_weight_base := op_weight_base ops\<rparr>
      in case residency_select_or_build rq env (en_ddr s) (en_dir s) of
        None \<Rightarrow> None
      | Some (slot, d, dir) \<Rightarrow>
          let s = s\<lparr>en_ddr := d, en_dir := dir\<rparr> in
            if slot = INVALID_SLOT then Some (False, s)
            else if slot = NO_SLOT then Some (True, s)
            else let t = rs_tiles dir ! unat slot in
              if \<not> residency_identity_matches dir d t rq (tj_weight_bytes job) (word_of_int (tp_rows tp) * word_of_int (tp_group_blocks tp) * 2)
              then Some (False, s\<lparr>en_dir := residency_poison_slot slot dir\<rparr>)
              else Some (True, set_job i (\<lambda>job. job\<lparr>tj_weight_src_off := rt_qs_off t, tj_p2_residency_hit := True,
                tj_p2_residency_slot := slot, tj_p2_residency_epoch := rt_epoch t, tj_p2_residency_seal := rt_seal t\<rparr>) s))"

subsection \<open>Packing weights and scales\<close>

definition pack_task_of :: "operands \<Rightarrow> tile_place \<Rightarrow> u32 \<Rightarrow> u32 \<Rightarrow> nat \<Rightarrow> nat \<Rightarrow> ddr_map \<Rightarrow> pack_task" where
  "pack_task_of ops tp weight_off scale_off pair_begin pair_end d = \<lparr>pt_dst_words = uint (dm_base d) + uint weight_off,
     pt_scale_words = uint (dm_base d) + uint scale_off, pt_nb1 = uint (gt_nb (op_src0 ops) ! 1),
     pt_weight_data_base = op_weight_base ops, pt_activation_data_base = tp_act_group tp, pt_row0 = tp_row0 tp,
     pt_k_block0 = tp_k_block0 tp, pt_rows = tp_rows tp, pt_group_blocks = tp_group_blocks tp,
     pt_group_beats = tp_group_blocks tp * 2, pt_pair_begin = pair_begin, pt_pair_end = pair_end, pt_wide_stores = True\<rparr>"

definition direct_pack_admitted :: "tile_place \<Rightarrow> u32 \<Rightarrow> u64 \<Rightarrow> ddr_map \<Rightarrow> bool" where
  "direct_pack_admitted tp weight_off weight_bytes d =
     (let pair_count = (size_of_int (tp_rows tp) + 1) div 2; beats = size_of_int (tp_group_blocks tp * 2)
      in \<not> (pair_count > 1073741823 \<or> beats > SIZE_MAX div pair_count \<or> pair_count * beats > SIZE_MAX div 32
         \<or> tp_row0 tp < 0 \<or> tp_row0 tp > INT64_MAX - tp_rows tp \<or> tp_k_block0 tp < 0 \<or> tp_k_block0 tp > INT64_MAX - tp_group_blocks tp
         \<or> fpga_weight_layout_payload_bytes (tp_rows tp) (tp_group_blocks tp * 2) \<noteq> Some weight_bytes
         \<or> weight_bytes \<noteq> pair_count * beats * 32 \<or> weight_bytes > 4294967295 - ucast weight_off
         \<or> \<not> range_fits weight_off weight_bytes WEIGHT_BASE WEIGHT_END \<or> \<not> ddr_range_fits weight_off weight_bytes d))"

text \<open>One range packed with its scales, as the main thread and the helper do; the counts must be the expected ones.\<close>

definition fused_range :: "operands \<Rightarrow> tile_place \<Rightarrow> u32 \<Rightarrow> u32 \<Rightarrow> nat \<Rightarrow> nat \<Rightarrow> nat \<Rightarrow> nat \<Rightarrow> ddr_map \<Rightarrow> ddr_map option" where
  "fused_range ops tp weight_off scale_off words entries pair_begin pair_end d =
     (let t = pack_task_of ops tp weight_off scale_off pair_begin pair_end d;
          last_row = min (pair_end * 2) (nat (tp_rows tp))
      in do { (w, sc, written_words, written_entries) \<leftarrow> fpga_pack_direct_weight_scale_pair_range (op_mem ops) t
               (ddr_words (unat weight_off) d) (ddr_words (unat scale_off) d);
              require (written_words = (pair_end - pair_begin) * pt_words_per_pair t
                \<and> written_entries = (last_row - pair_begin * 2) * nat (tp_group_blocks tp))
                (Some (put_words (unat scale_off) entries sc (put_words (unat weight_off) words w d))) })"

definition direct_pack :: "hardware \<Rightarrow> run_config \<Rightarrow> operands \<Rightarrow> tile_place \<Rightarrow> u32 \<Rightarrow> u32 \<Rightarrow> nat \<Rightarrow> u64 \<Rightarrow> ddr_map \<Rightarrow> (bool \<times> ddr_map) option" where
  "direct_pack hw cfg ops tp weight_off scale_off entries weight_bytes d =
     (let pair_count = (nat (tp_rows tp) + 1) div 2; words_per_pair = nat (tp_group_blocks tp) * 16;
          expected_words = unat (weight_bytes div 4)
      in do { raw \<leftarrow> ddr_checked_u32_ptr weight_off weight_bytes d;
           require (words_per_pair \<noteq> 0 \<and> pair_count * words_per_pair = expected_words)
             (if rc_pack_workers cfg = 2 \<and> pair_count \<ge> 2 \<and> weight_bytes \<ge> 262144
              then let main_pair_end = pair_count div 2 in
                require (hw_worker_ok hw)
                  (do { d \<leftarrow> fused_range ops tp weight_off scale_off expected_words entries 0 main_pair_end d;
                        d \<leftarrow> fused_range ops tp weight_off scale_off expected_words entries main_pair_end pair_count d;
                        Some (True, d) })
              else do { (w, written_words) \<leftarrow> fpga_pack_direct_weight_pair_range (op_mem ops)
                          (pack_task_of ops tp weight_off scale_off 0 pair_count d) (ddr_words (unat weight_off) d);
                        require (written_words = expected_words) (Some (False, put_words (unat weight_off) expected_words w d)) }) })"

text \<open>A row of the scale table: single entries until the address is 8-byte aligned, then pairs.\<close>

function scale_pairs :: "(nat \<Rightarrow> u32) \<Rightarrow> nat \<Rightarrow> nat \<Rightarrow> nat \<Rightarrow> (nat \<Rightarrow> u32) \<Rightarrow> nat \<Rightarrow> u32" where
  "scale_pairs entry blocks out gb m =
     (if gb + 1 < blocks then scale_pairs entry blocks (out + 2) (gb + 2) (store_scale_pair_words out (entry gb) (entry (gb + 1)) m)
      else if gb < blocks then m(out := entry gb) else m)"
  by pat_completeness auto
termination by (relation "measure (\<lambda>(entry, blocks, out, gb, m). blocks - gb)") auto

declare scale_pairs.simps [simp del]

definition scale_row :: "int \<Rightarrow> (nat \<Rightarrow> u32) \<Rightarrow> nat \<Rightarrow> nat \<Rightarrow> (nat \<Rightarrow> u32) \<Rightarrow> nat \<Rightarrow> u32" where
  "scale_row addr entry blocks out m =
     (if (addr + 4 * int out) mod 8 \<noteq> 0 then scale_pairs entry blocks (out + 1) 1 (m(out := entry 0))
      else scale_pairs entry blocks out 0 m)"

definition weight_scale_bits :: "operands \<Rightarrow> tile_place \<Rightarrow> nat \<Rightarrow> nat \<Rightarrow> u16" where
  "weight_scale_bits ops tp row gb = q8_d (op_mem ops) (weight_block_from_base (uint (gt_nb (op_src0 ops) ! 1)) (op_weight_base ops)
     (tp_row0 tp + int row) (tp_k_block0 tp + int gb))"

definition act_scale_bits :: "operands \<Rightarrow> tile_place \<Rightarrow> nat \<Rightarrow> u16" where
  "act_scale_bits ops tp gb = q8_d (op_mem ops) (tp_act_group tp + int gb * Q8_BLOCK_BYTES)"

text \<open>The whole table: the weight scales come from the directory for a resident tile, from the tensor otherwise.\<close>

definition scale_table :: "operands \<Rightarrow> tile_place \<Rightarrow> (nat \<Rightarrow> nat \<Rightarrow> u16) \<Rightarrow> int \<Rightarrow> (nat \<Rightarrow> u32) \<Rightarrow> nat \<Rightarrow> u32" where
  "scale_table ops tp weight_bits addr m =
     fold (\<lambda>row. scale_row addr (\<lambda>gb. fpga_p2_pack_scale_entry (act_scale_bits ops tp gb) (weight_bits row gb))
       (nat (tp_group_blocks tp)) (row * nat (tp_group_blocks tp))) [0..<nat (tp_rows tp)] m"

definition write_scales :: "operands \<Rightarrow> tile_place \<Rightarrow> u32 \<Rightarrow> scale_shape \<Rightarrow> bool \<Rightarrow> nat \<Rightarrow> 'f step" where
  "write_scales ops tp scale_off sh fused i s =
     (let job = job_at i s; covered = unat (ss_words sh) * 4; p = unat scale_off; d = en_ddr s;
          addr = uint (dm_base d) + uint scale_off;
          tail = (\<lambda>w. fold (\<lambda>k w. w(k := 0)) [unat (ss_entries sh)..<covered] w);
          table = (\<lambda>bits. Some (True, s\<lparr>en_ddr := put_words p covered (tail (scale_table ops tp bits addr (ddr_words p d))) d\<rparr>))
      in if fused then Some (True, s\<lparr>en_ddr := put_words p covered (tail (ddr_words p d)) d\<rparr>)
         else if tj_p2_residency_hit job then
           let slot = tj_p2_residency_slot job; t = rs_tiles (en_dir s) ! unat slot in
             if unat slot \<ge> length (rs_tiles (en_dir s)) \<or> \<not> host_metadata_shape_valid t \<or> rt_scale_count t \<noteq> ss_entries sh
             then Some (False, s\<lparr>en_dir := residency_poison_slot slot (en_dir s)\<rparr>)
             else table (\<lambda>row gb. rt_scale_bits t ! (row * nat (tp_group_blocks tp) + gb))
         else table (weight_scale_bits ops tp))"

text \<open>The quants of the activation blocks, beat by beat.\<close>

definition write_activation :: "operands \<Rightarrow> tile_place \<Rightarrow> ddr_map \<Rightarrow> ddr_map option" where
  "write_activation ops tp d =
     fold_opt (\<lambda>gb. fold_opt (\<lambda>beat. ddr_write_i8x16 (ACT_BASE + of_nat (gb * 2 + beat) * 16)
         (\<lambda>i. q8_qs (op_mem ops) (tp_act_group tp + int gb * Q8_BLOCK_BYTES) (beat * 16 + i))) [0..<2])
       [0..<nat (tp_group_blocks tp)] d"

subsection \<open>The handler\<close>

text \<open>The weights of the direct path: reused when the window already holds them, packed otherwise.\<close>

definition stage_weights :: "hardware \<Rightarrow> run_config \<Rightarrow> operands \<Rightarrow> tile_place \<Rightarrow> u32 \<Rightarrow> u32 \<Rightarrow> scale_shape \<Rightarrow> bool \<Rightarrow> nat \<Rightarrow> 'f step" where
  "stage_weights hw cfg ops tp weight_off scale_off sh reuse i s =
     (let job = job_at i s; weight_bytes = tj_weight_bytes job;
          direct_source = \<not> qj_weight_cache_hit job \<and> \<not> tj_p2_residency_hit job;
          direct_reused = direct_source \<and> reuse \<and> ws_bytes (en_staging s) = weight_bytes
      in if direct_source \<and> \<not> direct_reused then
           if \<not> direct_pack_admitted tp weight_off weight_bytes (en_ddr s) then Some (False, s)
           else (case direct_pack hw cfg ops tp weight_off scale_off (unat (ss_entries sh)) weight_bytes (en_ddr s) of
               None \<Rightarrow> None
             | Some (fused, d) \<Rightarrow> write_scales ops tp scale_off sh fused i (s\<lparr>en_ddr := d\<rparr>))
         else write_scales ops tp scale_off sh False i s)"

definition publish_staging :: "operands \<Rightarrow> tile_place \<Rightarrow> bool \<Rightarrow> nat \<Rightarrow> 'f engine \<Rightarrow> 'f engine" where
  "publish_staging ops tp use_staging i s =
     (let job = job_at i s in
      if use_staging \<and> \<not> qj_weight_cache_hit job \<and> \<not> tj_p2_residency_hit job
      then s\<lparr>en_staging := \<lparr>ws_valid = True, ws_src0 = gt_ptr (op_src0 ops), ws_data = op_weight_base ops, ws_ddr = dm_base (en_ddr s),
        ws_row0 = tp_row0 tp, ws_rows = tp_rows tp, ws_k_block0 = tp_k_block0 tp, ws_group_blocks = tp_group_blocks tp,
        ws_bytes = tj_weight_bytes job, ws_epoch = rs_epoch (en_dir s), ws_weight_off = tj_weight_src_off job,
        ws_scale_off = qj_scale_src_off job\<rparr>\<rparr>
      else s)"

definition fpga_prepare_q8_tile_job :: "hardware \<Rightarrow> run_config \<Rightarrow> operands \<Rightarrow> cached_tile list option \<Rightarrow> tile_place \<Rightarrow> int
    \<Rightarrow> bool \<Rightarrow> u32 \<Rightarrow> u32 \<Rightarrow> nat \<Rightarrow> 'f step" where
  "fpga_prepare_q8_tile_job hw cfg ops weight_cache tp bank use_staging weight_off scale_off i s =
     (let reuse = use_staging \<and> staging_holds ops tp weight_off scale_off s;
          s = (if use_staging then s\<lparr>en_staging := (en_staging s)\<lparr>ws_valid := False\<rparr>\<rparr> else s)
      in case tile_sizes_of cfg (tp_rows tp) (tp_group_blocks tp) (en_ddr s) of
        None \<Rightarrow> Some (False, s)
      | Some sz \<Rightarrow>
          let (job_id, dev) = fpga_next_job_id (en_dev s);
              s = set_job i (\<lambda>_. new_job ops tp sz (en_tile_id s) bank weight_off scale_off job_id) (s\<lparr>en_dev := dev\<rparr>);
              scale_bytes = sz_result_bytes sz
          in if \<not> range_fits scale_off scale_bytes SPU_PARAM_BASE SPU_PARAM_END \<or> \<not> ddr_range_fits scale_off scale_bytes (en_ddr s)
             then Some (False, s)
             else (case fpga_p2_checked_scale_shape (tp_rows tp) (tp_group_blocks tp) (sz_result_values sz) (sz_result_words sz)
                     scale_bytes scale_off of
                 None \<Rightarrow> Some (False, s)
               | Some sh \<Rightarrow> all_steps
                   [abort_unless (\<lambda>s. ddr_checked_u32_ptr scale_off scale_bytes (en_ddr s) \<noteq> None),
                    modify (set_job i (use_cached_tile weight_cache (en_tile_index s) tp (sz_weight_bytes sz))),
                    use_resident_tile hw ops tp i,
                    stage_weights hw cfg ops tp weight_off scale_off sh reuse i,
                    on_device (mmio_fence (hw_regs hw)),
                    on_ddr (write_activation ops tp),
                    on_device (mmio_fence (hw_regs hw)),
                    modify (publish_staging ops tp use_staging i)] s))"

end
