(* ===== verification/Fpga_Launch.thy ===== *)
theory Fpga_Launch
  imports Fpga_Prepare
begin

text \<open>
  Running a prepared job (\<^verbatim>\<open>ggml/src/ggml-cpu/fpga_host.cpp\<close>): the bounded waits on the device, submitting with
  its three input copies, draining the result rows, releasing the hardware and accumulating the rows. A wait
  polls the registers, which move on between two polls (\<open>mmio_fence\<close>); after \<open>hw_polls\<close> polls it times out. The
  completion watcher runs its waits when they are collected.
\<close>

subsection \<open>Waits\<close>

fun wait_vpu_done :: "hardware \<Rightarrow> nat \<Rightarrow> device \<Rightarrow> u32 option \<times> device" where
  "wait_vpu_done hw polls dv =
     (let status = vpu_rd32 REG_STATUS dv in
      if status AND 4 \<noteq> 0 then (None, dv)
      else if status AND 1 \<noteq> 0 then (Some status, dv)
      else case polls of 0 \<Rightarrow> (None, dv) | Suc n \<Rightarrow> wait_vpu_done hw n (mmio_fence (hw_regs hw) dv))"

fun wait_spu_stream_quiescent :: "hardware \<Rightarrow> nat \<Rightarrow> device \<Rightarrow> bool \<times> device" where
  "wait_spu_stream_quiescent hw polls dv =
     (if vpu_rd32 REG_SPU_STREAM_STATUS dv AND 0x10 \<noteq> 0 then (True, dv)
      else case polls of 0 \<Rightarrow> (False, dv) | Suc n \<Rightarrow> wait_spu_stream_quiescent hw n (mmio_fence (hw_regs hw) dv))"

fun wait_spu_stream_outputs :: "hardware \<Rightarrow> q8_job \<Rightarrow> nat \<Rightarrow> device \<Rightarrow> bool \<times> device" where
  "wait_spu_stream_outputs hw job polls dv =
     (let rd = (\<lambda>off. vpu_rd32 off dv);
          target_out = qj_out_before job + word_of_int (tj_rows job);
          expected_raw = qj_count_before job + word_of_int (tj_rows job) * word_of_int (tj_group_blocks job);
          expected_done = qj_done_before job + 1
      in if rd REG_SPU_STREAM_DROP \<noteq> qj_drop_before job \<or> rd REG_SPU_STREAM_ERROR \<noteq> qj_error_before job then (False, dv)
         else if rd REG_SPU_STREAM_DONE \<ge> expected_done \<and> rd REG_SPU_STREAM_COUNT \<noteq> expected_raw then (False, dv)
         else if rd REG_SPU_STREAM_OUT \<ge> target_out then
           if rd REG_SPU_STREAM_COUNT \<noteq> expected_raw \<or> rd REG_SPU_STREAM_DONE \<noteq> expected_done
             \<or> rd REG_SPU_STREAM_LAST_JOB \<noteq> tj_job_id job
             \<or> rd REG_SPU_STREAM_LAST_BANK AND 1 \<noteq> word_of_int (tj_bank job AND 1)
           then (False, dv) else wait_spu_stream_quiescent hw (hw_polls hw) dv
         else case polls of 0 \<Rightarrow> (False, dv) | Suc n \<Rightarrow> wait_spu_stream_outputs hw job n (mmio_fence (hw_regs hw) dv))"

declare wait_vpu_done.simps [simp del] wait_spu_stream_quiescent.simps [simp del] wait_spu_stream_outputs.simps [simp del]

definition vpu_finished :: "hardware \<Rightarrow> device \<Rightarrow> bool \<times> device" where
  "vpu_finished hw dv = (case wait_vpu_done hw (hw_polls hw) dv of (status, dv) \<Rightarrow> (status \<noteq> None, dv))"

definition fpga_measure_q8_compute_completion :: "hardware \<Rightarrow> q8_job \<Rightarrow> device \<Rightarrow> bool \<times> device" where
  "fpga_measure_q8_compute_completion hw job dv =
     (let (done, dv) = vpu_finished hw dv in
      if \<not> done then (False, dv)
      else let (ok, dv) = wait_spu_stream_outputs hw job (hw_polls hw) dv in (ok \<and> hw_timer_ok hw, dv))"

text \<open>The stream mode is written and read back unless it is known to be committed.\<close>

definition fpga_enforce_p2_stream_mode :: "hardware \<Rightarrow> 'f step" where
  "fpga_enforce_p2_stream_mode hw s =
     (if en_stream_mode s = 0 then Some (True, s)
      else all_steps
        [modify (\<lambda>s. s\<lparr>en_stream_mode := - 1\<rparr>),
         check_that (\<lambda>s. vpu_rd32 REG_SPU_STREAM_STATUS (en_dev s) AND 0x10 \<noteq> 0 \<and> vpu_rd32 REG_SPU_CTRL (en_dev s) AND 1 = 0),
         on_device (\<lambda>dv. mmio_fence (hw_regs hw) (vpu_wr32 REG_STREAM_MODE 0 (mmio_fence (hw_regs hw) dv))),
         check_that (\<lambda>s. vpu_rd32 REG_STREAM_MODE (en_dev s) AND 1 = 0 \<and> vpu_rd32 REG_SPU_STREAM_STATUS (en_dev s) AND 0x10 \<noteq> 0),
         modify (\<lambda>s. s\<lparr>en_stream_mode := 0\<rparr>)] s)"

subsection \<open>Submitting\<close>

definition configure_vpu :: "hardware \<Rightarrow> int \<Rightarrow> int \<Rightarrow> u32 \<Rightarrow> device \<Rightarrow> device" where
  "configure_vpu hw rows col_beats mode dv =
     mmio_fence (hw_regs hw) (vpu_wr32 REG_MODE mode (vpu_wr32 REG_SCALE 0x3C00 (vpu_wr32 REG_COL_BEATS (word_of_int col_beats)
       (vpu_wr32 REG_COLS (word_of_int (col_beats * 16)) (vpu_wr32 REG_ROWS (word_of_int rows) dv)))))"

text \<open>The write of START: the device takes the inputs in the selected bank.\<close>

definition start_device :: "'f engine \<Rightarrow> 'f engine" where
  "start_device s =
     (let regs = dv_regs (en_dev s); bank = unat (regs REG_BANK AND 1)
      in s\<lparr>en_dev := vpu_wr32 REG_CTRL CTRL_START (en_dev s),
           en_job := Some (bank, tile_snapshot bank (unat (regs REG_ROWS)) (unat (regs REG_COL_BEATS)) (en_mem s))\<rparr>)"

definition record_counters :: "nat \<Rightarrow> 'f engine \<Rightarrow> 'f engine" where
  "record_counters i s =
     (let rd = (\<lambda>off. vpu_rd32 off (en_dev s))
      in set_job i (\<lambda>job. job\<lparr>qj_count_before := rd REG_SPU_STREAM_COUNT, qj_done_before := rd REG_SPU_STREAM_DONE,
           qj_out_before := rd REG_SPU_STREAM_OUT, qj_drop_before := rd REG_SPU_STREAM_DROP,
           qj_error_before := rd REG_SPU_STREAM_ERROR\<rparr>) s)"

definition job_still_valid :: "nat \<Rightarrow> 'f step" where
  "job_still_valid i s = (let (ok, dir) = residency_job_still_valid (tile_of (job_at i s)) (en_ddr s) (en_dir s)
     in Some (ok, s\<lparr>en_dir := dir\<rparr>))"

definition clear_result :: "hardware \<Rightarrow> run_config \<Rightarrow> nat \<Rightarrow> 'f step" where
  "clear_result hw cfg i s =
     (let job = job_at i s in
      if rc_clear_result cfg \<and> \<not> rc_scale_stream cfg
      then all_steps [on_ddr (ddr_zero_range32 RESULT_BASE (qj_result_bytes job)),
             on_device (vpu_select_banks (tj_bank job) (tj_bank job)),
             fpga_dma_write_to_ip hw cfg RESULT_BASE (qj_result_bytes job)] s
      else Some (True, s))"

definition copy_weights :: "hardware \<Rightarrow> run_config \<Rightarrow> nat \<Rightarrow> 'f step" where
  "copy_weights hw cfg i s =
     (let job = job_at i s in
      if qj_weight_bank_reused job then Some (True, s)
      else fpga_dma_copy hw cfg (DDR_BASE_PHYS + ucast (tj_weight_src_off job)) (LMM_BASE_PHYS + ucast WEIGHT_BASE) (tj_weight_bytes job) s)"

definition fpga_submit_q8_tile_job :: "hardware \<Rightarrow> run_config \<Rightarrow> nat \<Rightarrow> 'f step" where
  "fpga_submit_q8_tile_job hw cfg i s =
     (let job = job_at i s; bank = tj_bank job;
          mode = 1 OR (if rc_scale_stream cfg then 0x10 else 0)
      in all_steps
        [job_still_valid i,
         on_device (\<lambda>dv. vpu_write_tile_descriptor (tile_of job) SLOT_DMA_FILLING SLOT_FREE 0x101
           (configure_vpu hw (tj_rows job) (tj_group_beats job) mode (vpu_wr32 REG_CTRL CTRL_CLEAR_DONE (vpu_select_banks bank bank dv)))),
         ask_device (fpga_commit_p2_dma_filling_descriptor (hw_regs hw) (tile_of job)),
         clear_result hw cfg i,
         on_device (vpu_select_banks bank bank),
         fpga_dma_write_to_ip hw cfg ACT_BASE (qj_act_bytes job),
         on_device (vpu_select_banks bank bank),
         copy_weights hw cfg i,
         ask_device (\<lambda>dv. if rc_scale_stream cfg then wait_spu_stream_quiescent hw (hw_polls hw) dv else (True, dv)),
         fpga_dma_copy hw cfg (DDR_BASE_PHYS + ucast (qj_scale_src_off job)) (LMM_BASE_PHYS + ucast SPU_PARAM_BASE) (qj_scale_bytes job),
         modify (record_counters i),
         on_device (vpu_write_tile_descriptor (tile_of job) SLOT_COMPUTING SLOT_FREE 0x101),
         on_device (mmio_fence (hw_regs hw)),
         check_that (\<lambda>_. hw_worker_ok hw),
         modify start_device,
         on_device (mmio_fence (hw_regs hw))] s)"

subsection \<open>Draining, releasing and accumulating\<close>

definition fpga_wait_and_drain_q8_tile_job :: "hardware \<Rightarrow> run_config \<Rightarrow> nat \<Rightarrow> 'f step" where
  "fpga_wait_and_drain_q8_tile_job hw cfg i s =
     (let job = job_at i s; t = tile_of job in all_steps
        [check_that (\<lambda>_. \<not> (qj_output_dma_ready job \<or> qj_hardware_released job \<or> qj_result_consumed job)),
         ask_device (fpga_measure_q8_compute_completion hw job),
         ask_device (vpu_finished hw),
         check_that (\<lambda>s. vpu_verify_done_job t (en_dev s)),
         ask_device (wait_spu_stream_outputs hw job (hw_polls hw)),
         ask_device (fpga_write_post_spu_descriptor (hw_regs hw) t SLOT_FREE SLOT_DMA_DRAINING 0x101 False False),
         on_device (vpu_select_banks (tj_bank job) (tj_bank job)),
         fpga_dma_read_from_ip hw cfg SPU_OUT_BASE (qj_spu_result_bytes job),
         ask_device (fpga_write_post_spu_descriptor (hw_regs hw) t SLOT_FREE SLOT_HOST_CONSUMING 0x101 False False),
         modify (set_job i (\<lambda>job. job\<lparr>qj_output_dma_ready := True\<rparr>))] s)"

definition fpga_release_pl_scaled_q8_tile_job :: "hardware \<Rightarrow> nat \<Rightarrow> bool \<Rightarrow> 'f step" where
  "fpga_release_pl_scaled_q8_tile_job hw i pending_host_read s =
     (let job = job_at i s in all_steps
        [check_that (\<lambda>_. \<not> (\<not> qj_output_dma_ready job \<or> qj_hardware_released job \<or> (\<not> qj_result_consumed job \<and> \<not> pending_host_read))),
         ask_device (fpga_write_post_spu_descriptor (hw_regs hw) (tile_of job) SLOT_FREE SLOT_FREE 0 True pending_host_read),
         modify (set_job i (\<lambda>job. job\<lparr>qj_hardware_released := True\<rparr>))] s)"

text \<open>A row read back, checked and added to its accumulator; \<open>0x37800000\<close> is \<open>1.0f / 65536.0f\<close>.\<close>

definition accumulate_row :: "'f float_ops \<Rightarrow> nat \<Rightarrow> nat \<Rightarrow> 'f step" where
  "accumulate_row fl i row s =
     (let job = job_at i s; k = nat (qj_col job * tj_rows job) + row in
      do { (row_id, q16) \<leftarrow> ddr_read_spu_q16_row (SPU_OUT_BASE + of_nat row * 16) False (en_ddr s);
           if row_id \<noteq> of_nat row then Some (False, s)
           else do { a \<leftarrow> read_at k (en_accum s);
             Some (True, s\<lparr>en_accum := (en_accum s)[k := fl_add fl a (fl_mul fl (fl_int fl q16) (fl_bits fl 0x37800000))]\<rparr>) } })"

definition fpga_accumulate_pl_scaled_q8_tile_job :: "'f float_ops \<Rightarrow> hardware \<Rightarrow> nat \<Rightarrow> bool \<Rightarrow> 'f step" where
  "fpga_accumulate_pl_scaled_q8_tile_job fl hw i release_after_read s =
     (let job = job_at i s in all_steps
        [check_that (\<lambda>_. \<not> (\<not> qj_output_dma_ready job \<or> qj_result_consumed job \<or> qj_hardware_released job = release_after_read)),
         all_steps (map (accumulate_row fl i) [0..<nat (tj_rows job)]),
         modify (set_job i (\<lambda>job. job\<lparr>qj_result_consumed := True\<rparr>)),
         (if release_after_read then fpga_release_pl_scaled_q8_tile_job hw i False else (\<lambda>s. Some (True, s)))] s)"

end
