(* ===== verification/Fpga_Steps.thy ===== *)
theory Fpga_Steps
  imports Fpga_Launch
begin

text \<open>
  A calculus for the steps of the engine: \<open>wp T f Q s\<close> says that \<open>Q\<close> holds after the step \<open>f\<close> from \<open>s\<close>
  whenever it returns true, and with \<open>T\<close> that it does. The rules are equations, so the simplifier runs a
  handler; one proof gives safety on any device (\<open>T = False\<close>) and progress on a device that answers.
\<close>

subsection \<open>Weakest preconditions\<close>

definition wp :: "bool \<Rightarrow> 'f step \<Rightarrow> ('f engine \<Rightarrow> bool) \<Rightarrow> 'f engine \<Rightarrow> bool" where
  "wp T f Q s = (case f s of None \<Rightarrow> \<not> T | Some (ok, s') \<Rightarrow> if ok then Q s' else \<not> T)"

named_theorems wp_rules

lemma wp_mono: "wp T f Q s \<Longrightarrow> (\<And>t. Q t \<Longrightarrow> R t) \<Longrightarrow> wp T f R s"
  by (auto simp: wp_def split: option.splits prod.splits if_splits)

lemma wp_cong: "f s = g s \<Longrightarrow> wp T f Q s = wp T g Q s"
  by (simp add: wp_def)

lemma wp_partial: "wp False f Q s \<longleftrightarrow> (\<forall>t. f s = Some (True, t) \<longrightarrow> Q t)"
  by (auto simp: wp_def split: option.splits prod.splits)

lemma wp_total: "wp True f Q s \<longleftrightarrow> (\<exists>t. f s = Some (True, t) \<and> Q t)"
  by (auto simp: wp_def split: option.splits prod.splits if_splits)

lemma wp_and_then [wp_rules]: "wp T (and_then f g) Q s = wp T f (wp T g Q) s"
  by (auto simp: wp_def and_then_def split: option.splits prod.splits)

lemma wp_steps_Nil [wp_rules]: "wp T (all_steps []) Q s = Q s"
  by (simp add: wp_def)

lemma wp_steps_Cons [wp_rules]: "wp T (all_steps (f # fs)) Q s = wp T f (wp T (all_steps fs) Q) s"
  by (auto simp: wp_def and_then_def split: option.splits prod.splits)

lemma wp_check [wp_rules]: "wp T (check_that P) Q s \<longleftrightarrow> (if P s then Q s else \<not> T)"
  by (simp add: wp_def check_that_def)

lemma wp_abort [wp_rules]: "wp T (abort_unless P) Q s \<longleftrightarrow> (if P s then Q s else \<not> T)"
  by (simp add: wp_def abort_unless_def)

lemma wp_modify [wp_rules]: "wp T (modify f) Q s = Q (f s)"
  by (simp add: wp_def modify_def)

lemma wp_skip [wp_rules]: "wp T (\<lambda>s. Some (True, s)) Q s = Q s"
  by (simp add: wp_def)

lemma wp_on_device [wp_rules]: "wp T (on_device f) Q s = Q (s\<lparr>en_dev := f (en_dev s)\<rparr>)"
  by (simp add: wp_def on_device_def)

lemma wp_ask_device: "wp T (ask_device f) Q s \<longleftrightarrow> (if fst (f (en_dev s)) then Q (s\<lparr>en_dev := snd (f (en_dev s))\<rparr>) else \<not> T)"
  by (simp add: wp_def ask_device_def split: prod.splits)

lemma wp_on_ddr: "wp T (on_ddr f) Q s \<longleftrightarrow> (case f (en_ddr s) of None \<Rightarrow> \<not> T | Some d \<Rightarrow> Q (s\<lparr>en_ddr := d\<rparr>))"
  by (simp add: wp_def on_ddr_def split: option.splits)

lemma wp_if: "wp T (if b then f else g) Q s = (if b then wp T f Q s else wp T g Q s)"
  by simp

text \<open>Loops, with an invariant indexed by the iterations done.\<close>

lemma wp_loop:
  assumes "I 0 s" and "\<And>k t. k < n \<Longrightarrow> I k t \<Longrightarrow> wp T (f k) (I (Suc k)) t" and "\<And>t. I n t \<Longrightarrow> Q t"
  shows "wp T (all_steps (map f [0..<n])) Q s"
proof -
  have "wp T (all_steps (map f [k..<n])) Q t" if "k \<le> n" "I k t" for k t
    using that
  proof (induction "n - k" arbitrary: k t)
    case 0
    then show ?case using assms(3) by (simp add: wp_rules)
  next
    case (Suc d)
    then have "k < n" by simp
    then have "map f [k..<n] = f k # map f [Suc k..<n]" by (simp add: upt_conv_Cons)
    moreover have "wp T (f k) (wp T (all_steps (map f [Suc k..<n])) Q) t"
      using assms(2)[OF \<open>k < n\<close> Suc.prems(2)] by (rule wp_mono) (use Suc \<open>k < n\<close> in auto)
    ultimately show ?case by (simp add: wp_rules)
  qed
  from this[of 0 s] show ?thesis using assms(1) by simp
qed

text \<open>The same over a list, with the part already done as the index.\<close>

lemma wp_list:
  assumes "I [] s" and "\<And>ys x zs t. xs = ys @ x # zs \<Longrightarrow> I ys t \<Longrightarrow> wp T (f x) (I (ys @ [x])) t" and "\<And>t. I xs t \<Longrightarrow> Q t"
  shows "wp T (all_steps (map f xs)) Q s"
proof -
  have "wp T (all_steps (map f zs)) Q t" if "xs = ys @ zs" "I ys t" for ys zs t
    using that
  proof (induction zs arbitrary: ys t)
    case Nil
    then show ?case using assms(3) by (simp add: wp_rules)
  next
    case (Cons z zs)
    have "wp T (f z) (wp T (all_steps (map f zs)) Q) t"
      using assms(2)[OF Cons.prems] by (rule wp_mono) (use Cons in auto)
    then show ?case by (simp add: wp_rules)
  qed
  from this[of "[]" xs s] show ?thesis using assms(1) by simp
qed

subsection \<open>Job slots\<close>

lemma set_job_fields [simp]:
  "en_ddr (set_job i f s) = en_ddr s" "en_dir (set_job i f s) = en_dir s" "en_dev (set_job i f s) = en_dev s"
  "en_mem (set_job i f s) = en_mem s" "en_job (set_job i f s) = en_job s" "en_transfers (set_job i f s) = en_transfers s"
  "en_staging (set_job i f s) = en_staging s" "en_accum (set_job i f s) = en_accum s" "en_dst (set_job i f s) = en_dst s"
  "en_tile_id (set_job i f s) = en_tile_id s" "en_tile_index (set_job i f s) = en_tile_index s"
  "en_running (set_job i f s) = en_running s" "en_loaded (set_job i f s) = en_loaded s"
  "en_stream_mode (set_job i f s) = en_stream_mode s" "length (en_slots (set_job i f s)) = length (en_slots s)"
  by (simp_all add: set_job_def)

lemma job_at_set_job [simp]: "i < length (en_slots s) \<Longrightarrow> job_at j (set_job i f s) = (if i = j then f (job_at i s) else job_at j s)"
  by (auto simp: set_job_def job_at_def)

lemma job_at_update [simp]:
  "job_at i (s\<lparr>en_dev := x1\<rparr>) = job_at i s" "job_at i (s\<lparr>en_ddr := x2\<rparr>) = job_at i s" "job_at i (s\<lparr>en_dir := x3\<rparr>) = job_at i s"
  "job_at i (s\<lparr>en_mem := x4\<rparr>) = job_at i s" "job_at i (s\<lparr>en_job := x5\<rparr>) = job_at i s"
  "job_at i (s\<lparr>en_transfers := x6\<rparr>) = job_at i s" "job_at i (s\<lparr>en_staging := x7\<rparr>) = job_at i s"
  "job_at i (s\<lparr>en_accum := x8\<rparr>) = job_at i s" "job_at i (s\<lparr>en_dst := x9\<rparr>) = job_at i s"
  "job_at i (s\<lparr>en_stream_mode := x10\<rparr>) = job_at i s" "job_at i (s\<lparr>en_running := x11\<rparr>) = job_at i s"
  "job_at i (s\<lparr>en_loaded := x12\<rparr>) = job_at i s" "job_at i (s\<lparr>en_tile_id := x13\<rparr>) = job_at i s"
  "job_at i (s\<lparr>en_tile_index := x14\<rparr>) = job_at i s"
  by (simp_all add: job_at_def)

subsection \<open>DMA\<close>

text \<open>The staging DDR as the driver maps it.\<close>

definition ddr_ready :: "ddr_map \<Rightarrow> bool" where
  "ddr_ready d \<longleftrightarrow> dm_mapped d \<and> uint (dm_base d) mod 8 = 0 \<and> 0x3C0000 \<le> length (dm_bytes d) \<and> length (dm_bytes d) \<le> 0x10000000"

lemma ddr_ready_facts:
  assumes "ddr_ready d"
  shows "dm_mapped d" "ddr_ok d" "unat (ddr_map_size d) = length (dm_bytes d)" "0x3C0000 \<le> length (dm_bytes d)"
    "length (dm_bytes d) \<le> 0x10000000" "uint (dm_base d) mod 8 = 0"
proof -
  show ok: "ddr_ok d" using assms by (simp add: ddr_ready_def ddr_ok_def)
  show "unat (ddr_map_size d) = length (dm_bytes d)" by (rule ddr_map_size_value[OF ok])
qed (use assms in \<open>simp_all add: ddr_ready_def\<close>)

definition dma_responds :: "hardware \<Rightarrow> run_config \<Rightarrow> bool" where
  "dma_responds hw cfg \<longleftrightarrow> (\<forall>k. hw_dma_ok hw k) \<and> 0x3C0000 \<le> hw_map_size hw \<and> 16 \<le> rc_max_transfer cfg \<and> rc_max_transfer cfg AND 0xF = 0"

lemma into_device_join:
  "dma_into_device (src + a) (dst + a) b (dma_into_device src dst a s) = dma_into_device src dst (a + b) s"
proof -
  have "(\<lambda>bank off. if dst + a \<le> off \<and> off < dst + a + b \<and> bank = device_bank (dv_regs (en_dev s)) off
      then dm_bytes (en_ddr s) ! (src + a + (off - (dst + a)))
      else if dst \<le> off \<and> off < dst + a \<and> bank = device_bank (dv_regs (en_dev s)) off then dm_bytes (en_ddr s) ! (src + (off - dst))
      else en_mem s bank off)
    = (\<lambda>bank off. if dst \<le> off \<and> off < dst + (a + b) \<and> bank = device_bank (dv_regs (en_dev s)) off
      then dm_bytes (en_ddr s) ! (src + (off - dst)) else en_mem s bank off)"
    by (intro ext) (auto simp: not_le)
  then show ?thesis by (simp add: dma_into_device_def cong: if_cong)
qed

lemma into_device_none [simp]: "dma_into_device src dst 0 s = s"
proof -
  have "(\<lambda>bank off. if dst \<le> off \<and> off < dst + 0 \<and> bank = device_bank (dv_regs (en_dev s)) off
      then dm_bytes (en_ddr s) ! (src + (off - dst)) else en_mem s bank off) = en_mem s" by (intro ext) auto
  then show ?thesis by (simp add: dma_into_device_def)
qed

lemma device_byte_cong:
  "en_job s = en_job t \<Longrightarrow> en_mem s = en_mem t \<Longrightarrow> en_dev s = en_dev t \<Longrightarrow> device_byte hw s off = device_byte hw t off"
  by (simp add: device_byte_def cong: option.case_cong if_cong prod.case_cong)

lemma put_bytes_join:
  assumes "p + length xs + length ys \<le> length m"
  shows "put_bytes (p + length xs) ys (put_bytes p xs m) = put_bytes p (xs @ ys) m"
  proof -
  have "take (p + length xs) (take p m @ xs @ drop (p + length xs) m) = take p m @ xs" using assms by simp
  then show ?thesis using assms by (simp add: put_bytes_def ac_simps)
qed

lemma from_device_join:
  assumes "dst + a + b \<le> length (dm_bytes (en_ddr s))"
  shows "dma_from_device hw (src + a) (dst + a) b (dma_from_device hw src dst a s) = dma_from_device hw src dst (a + b) s"
proof -
  let ?s = "dma_from_device hw src dst a s"
  have byte: "device_byte hw ?s off = device_byte hw s off" for off
    by (rule device_byte_cong) (simp_all add: dma_from_device_def)
  let ?f = "\<lambda>i. device_byte hw s (src + i)"
  have "map (\<lambda>i. device_byte hw s (src + a + i)) [0..<b] = map ?f [a..<a + b]"
    by (intro nth_equalityI) (simp_all add: ac_simps)
  moreover have "map ?f [0..<a] @ map ?f [a..<a + b] = map ?f [0..<a + b]"
    by (simp flip: map_append upt_add_eq_append[of 0 a b, simplified])
  ultimately show ?thesis
    using put_bytes_join[of dst "map ?f [0..<a]" "map (\<lambda>i. device_byte hw s (src + a + i)) [0..<b]" "dm_bytes (en_ddr s)"] assms
    by (simp add: dma_from_device_def[of _ _ _ _ ?s] byte) (simp add: dma_from_device_def)
qed

lemma from_device_none [simp]: "dma_from_device hw src dst 0 s = s"
  by (simp add: dma_from_device_def put_bytes_def)

lemma map_upt_split: "map f [0..<a] @ map f [a..<a + b] = map f [0..<a + b]"
  by (simp flip: map_append upt_add_eq_append[of 0 a b, simplified])

text \<open>A copy in chunks moves the whole range.\<close>

lemma chunk_words:
  fixes bytes chunk_bytes :: u64
  assumes "unat bytes \<le> 4294967295" and "k * unat chunk_bytes \<le> unat bytes"
  shows "unat (of_nat k * chunk_bytes) = k * unat chunk_bytes"
    "unat (min chunk_bytes (bytes - of_nat k * chunk_bytes)) = min (unat chunk_bytes) (unat bytes - k * unat chunk_bytes)"
proof -
  show k: "unat (of_nat k * chunk_bytes) = k * unat chunk_bytes"
  proof (cases "unat chunk_bytes = 0")
    case True
    then have "chunk_bytes = 0" by (simp add: unat_eq_0)
    then show ?thesis by simp
  next
    case False
    then have "k \<le> k * unat chunk_bytes" by simp
    then have "k \<le> 4294967295" using assms by linarith
    then have "unat (of_nat k :: u64) = k" by (simp add: unsigned_of_nat take_bit_nat_eq_self)
    then show ?thesis using assms by (subst unat_mult_no_overflow) simp_all
  qed
  have "unat (bytes - of_nat k * chunk_bytes) = unat bytes - k * unat chunk_bytes"
    using assms(2) k by (simp add: unat_sub word_le_nat_alt)
  then show "unat (min chunk_bytes (bytes - of_nat k * chunk_bytes)) = min (unat chunk_bytes) (unat bytes - k * unat chunk_bytes)"
    by (simp add: min_def word_le_nat_alt)
qed

lemma chunk_count_value:
  fixes bytes c :: u64
  assumes "c \<noteq> 0" and "unat bytes \<le> 4294967295"
  defines "n \<equiv> unat (bytes div c + (if bytes mod c \<noteq> 0 then 1 else 0))"
  shows "unat bytes \<le> n * unat c" "\<And>k. k < n \<Longrightarrow> k * unat c \<le> unat bytes"
proof -
  have c: "0 < unat c" using assms(1) by (simp add: unat_gt_0)
  have m: "bytes mod c \<noteq> 0 \<longleftrightarrow> unat bytes mod unat c \<noteq> 0" by (simp add: unat_eq_0[symmetric] unat_mod)
  have d: "unat (bytes div c) = unat bytes div unat c" by (simp add: unat_div)
  have "unat bytes div unat c \<le> 4294967295" using assms(2) div_le_dividend le_trans by blast
  then have "unat (bytes div c + 1) = unat bytes div unat c + 1"
    using assms(2) d by (subst unat_add_no_overflow) simp_all
  then have n: "n = unat bytes div unat c + (if unat bytes mod unat c \<noteq> 0 then 1 else 0)"
    unfolding n_def m using d by simp
  have e: "unat bytes = unat bytes div unat c * unat c + unat bytes mod unat c" by simp
  have r: "unat bytes mod unat c < unat c" using c by simp
  show "unat bytes \<le> n * unat c"
  proof (cases "unat bytes mod unat c = 0")
    case False
    then have "n * unat c = unat bytes div unat c * unat c + unat c" by (simp add: n)
    then show ?thesis using e r by linarith
  qed (use e in \<open>simp add: n\<close>)
  fix k assume "k < n"
  then have "k \<le> unat bytes div unat c" by (simp add: n split: if_splits)
  then have "k * unat c \<le> unat bytes div unat c * unat c" by (rule mult_le_mono1)
  then show "k * unat c \<le> unat bytes" using e by linarith
qed

lemma chunk_next:
  fixes k c n :: nat
  assumes "k * c \<le> n"
  shows "min (k * c) n + min c (n - k * c) = min (Suc k * c) n" "min (k * c) n = k * c"
  using assms by auto

lemma phys_offset:
  fixes off :: u32
  shows "unat (DDR_BASE_PHYS + ucast off) = 0x70000000 + unat off" "unat (LMM_BASE_PHYS + ucast off) = 0xA0000000 + unat off"
    "DDR_BASE_PHYS + ucast off - DDR_BASE_PHYS = ucast off" "LMM_BASE_PHYS + ucast off - LMM_BASE_PHYS = ucast off"
proof -
  have "unat off < 2 ^ 32" using unsigned_less[of off] by simp
  then show "unat (DDR_BASE_PHYS + ucast off) = 0x70000000 + unat off" "unat (LMM_BASE_PHYS + ucast off) = 0xA0000000 + unat off"
    by (subst unat_add_no_overflow; simp add: unat_ucast_wide)+
qed simp_all

lemma phys_fits:
  fixes off :: u32
  shows "phys_range_fits (DDR_BASE_PHYS + ucast off) bytes DDR_BASE_PHYS sz \<longleftrightarrow> bytes \<noteq> 0 \<and> unat off + unat bytes \<le> unat sz"
    "phys_range_fits (LMM_BASE_PHYS + ucast off) bytes LMM_BASE_PHYS sz \<longleftrightarrow> bytes \<noteq> 0 \<and> unat off + unat bytes \<le> unat sz"
proof -
  have "\<not> DDR_BASE_PHYS + ucast off < DDR_BASE_PHYS" "\<not> LMM_BASE_PHYS + ucast off < LMM_BASE_PHYS"
    by (simp_all add: word_less_nat_alt phys_offset)
  then show "phys_range_fits (DDR_BASE_PHYS + ucast off) bytes DDR_BASE_PHYS sz \<longleftrightarrow> bytes \<noteq> 0 \<and> unat off + unat bytes \<le> unat sz"
    "phys_range_fits (LMM_BASE_PHYS + ucast off) bytes LMM_BASE_PHYS sz \<longleftrightarrow> bytes \<noteq> 0 \<and> unat off + unat bytes \<le> unat sz"
    unfolding phys_range_fits_def Let_def phys_offset(3,4) window_check by (simp_all add: unat_ucast_wide)
qed

lemma device_not_ddr:
  fixes off :: u32
  assumes "ddr_ready d"
  shows "phys_range_fits (LMM_BASE_PHYS + ucast off) bytes DDR_BASE_PHYS (ddr_map_size d) = False"
proof -
  have "unat (LMM_BASE_PHYS + ucast off - DDR_BASE_PHYS) = 0x30000000 + unat off"
    using phys_offset(2)[of off] by (subst unat_sub) (simp_all add: word_le_nat_alt)
  then show ?thesis
    unfolding phys_range_fits_def Let_def window_check ddr_ready_facts(3)[OF assms] using ddr_ready_facts(5)[OF assms] by simp
qed

lemma copy_chunks:
  assumes "rc_max_transfer cfg \<ge> 16" "rc_max_transfer cfg AND 0xF = 0" "bytes \<noteq> 0" "unat bytes \<le> 4294967295"
    and "\<And>k. I 0 s" and "\<And>t. I (unat bytes) t \<Longrightarrow> Q t"
    and step: "\<And>m len t. m + len \<le> unat bytes \<Longrightarrow> I m t \<Longrightarrow> wp T (fpga_dma_copy_one hw dir (src + m) (dst + m) len) (I (m + len)) t"
  defines "c \<equiv> min bytes (rc_max_transfer cfg)"
  shows "wp T (all_steps (map (\<lambda>chunk. let offset = of_nat chunk * c; this_bytes = min c (bytes - offset)
      in fpga_dma_copy_one hw dir (src + unat offset) (dst + unat offset) (unat this_bytes))
      [0..<unat (bytes div c + (if bytes mod c \<noteq> 0 then 1 else 0))])) Q s"
proof -
  have "0 < unat (rc_max_transfer cfg)" using assms(1) by (simp add: word_le_nat_alt)
  then have c0: "c \<noteq> 0" using assms(3) by (auto simp: c_def min_def)
  note n = chunk_count_value[OF c0 assms(4)]
  show ?thesis
  proof (rule wp_loop[where I = "\<lambda>k. I (min (k * unat c) (unat bytes))"])
    show "I (min (0 * unat c) (unat bytes)) s" using assms(5) by simp
  next
    fix k t
    assume k: "k < unat (bytes div c + (if bytes mod c \<noteq> 0 then 1 else 0))" and I: "I (min (k * unat c) (unat bytes)) t"
    have kc: "k * unat c \<le> unat bytes" by (rule n(2)[OF k])
    let ?len = "min (unat c) (unat bytes - k * unat c)"
    note nx = chunk_next[OF kc]
    have room: "k * unat c + ?len \<le> unat bytes" using kc by simp
    have eq: "k * unat c + ?len = min (Suc k * unat c) (unat bytes)" using nx by linarith
    have "wp T (fpga_dma_copy_one hw dir (src + k * unat c) (dst + k * unat c) ?len) (I (k * unat c + ?len)) t"
      by (rule step[OF room]) (use I nx(2) in simp)
    then show "wp T (let offset = of_nat k * c; this_bytes = min c (bytes - offset)
        in fpga_dma_copy_one hw dir (src + unat offset) (dst + unat offset) (unat this_bytes))
      (I (min (Suc k * unat c) (unat bytes))) t"
      unfolding Let_def chunk_words(2)[OF assms(4) kc] chunk_words(1)[OF assms(4) kc] eq .
  next
    fix t
    assume "I (min (unat (bytes div c + (if bytes mod c \<noteq> 0 then 1 else 0)) * unat c) (unat bytes)) t"
    then show "Q t" using n(1) assms(6) by (simp add: min_absorb2)
  qed
qed

definition copy_admitted :: "hardware \<Rightarrow> run_config \<Rightarrow> ddr_map \<Rightarrow> u32 \<Rightarrow> u32 \<Rightarrow> u64 \<Rightarrow> bool" where
  "copy_admitted hw cfg d ddr_off dev_off bytes \<longleftrightarrow> bytes \<noteq> 0 \<and> unat bytes \<le> 4294967295 \<and> unat ddr_off + unat bytes \<le> length (dm_bytes d)
     \<and> unat dev_off + unat bytes \<le> unat (hw_map_size hw) \<and> 16 \<le> rc_max_transfer cfg \<and> rc_max_transfer cfg AND 0xF = 0"

definition copy_steps :: "hardware \<Rightarrow> run_config \<Rightarrow> bool \<Rightarrow> nat \<Rightarrow> nat \<Rightarrow> u64 \<Rightarrow> 'f step" where
  "copy_steps hw cfg dir src dst bytes = (let c = min bytes (rc_max_transfer cfg) in
     all_steps (map (\<lambda>chunk. let offset = of_nat chunk * c; this_bytes = min c (bytes - offset)
      in fpga_dma_copy_one hw dir (src + unat offset) (dst + unat offset) (unat this_bytes))
      [0..<unat (bytes div c + (if bytes mod c \<noteq> 0 then 1 else 0))]))"

lemma copy_cases:
  fixes src dst :: u32
  assumes ddr: "ddr_ready (en_ddr s)"
  shows "fpga_dma_copy hw cfg (DDR_BASE_PHYS + ucast src) (LMM_BASE_PHYS + ucast dst) bytes s
      = (if copy_admitted hw cfg (en_ddr s) src dst bytes then copy_steps hw cfg True (unat src) (unat dst) bytes s else Some (False, s))"
    "fpga_dma_copy hw cfg (LMM_BASE_PHYS + ucast src) (DDR_BASE_PHYS + ucast dst) bytes s
      = (if copy_admitted hw cfg (en_ddr s) dst src bytes then copy_steps hw cfg False (unat src) (unat dst) bytes s else Some (False, s))"
proof -
  have big: "bytes > 4294967295 \<longleftrightarrow> \<not> unat bytes \<le> 4294967295" by (simp add: word_less_nat_alt not_le)
  have small: "rc_max_transfer cfg < 16 \<longleftrightarrow> \<not> 16 \<le> rc_max_transfer cfg" by (simp add: not_le)
  have u: "unat (ucast off :: u64) = unat off" for off :: u32 by (simp add: unat_ucast_wide)
  note simps = fpga_dma_copy_def Let_def phys_offset(3,4) big small phys_fits ddr_ready_facts(3)[OF ddr]
    device_not_ddr[OF ddr] copy_admitted_def copy_steps_def u
  show "fpga_dma_copy hw cfg (DDR_BASE_PHYS + ucast src) (LMM_BASE_PHYS + ucast dst) bytes s
      = (if copy_admitted hw cfg (en_ddr s) src dst bytes then copy_steps hw cfg True (unat src) (unat dst) bytes s else Some (False, s))"
    unfolding simps by (simp only: simp_thms if_True if_False split: if_split) (auto simp: u)
  show "fpga_dma_copy hw cfg (LMM_BASE_PHYS + ucast src) (DDR_BASE_PHYS + ucast dst) bytes s
      = (if copy_admitted hw cfg (en_ddr s) dst src bytes then copy_steps hw cfg False (unat src) (unat dst) bytes s else Some (False, s))"
    unfolding simps by (simp only: simp_thms if_True if_False split: if_split) (auto simp: u)
qed

lemma copy_admitted_live:
  assumes "ddr_ready d" "dma_responds hw cfg" "bytes \<noteq> 0" "unat ddr_off + unat bytes \<le> 0x3C0000" "unat dev_off + unat bytes \<le> 0x3C0000"
  shows "copy_admitted hw cfg d ddr_off dev_off bytes"
proof -
  have "0x3C0000 \<le> unat (hw_map_size hw)" using assms(2) by (simp add: dma_responds_def word_le_nat_alt)
  then show ?thesis using assms ddr_ready_facts(4)[OF assms(1)] by (simp add: copy_admitted_def dma_responds_def)
qed

lemma wp_copy_in:
  fixes src dst :: u32
  assumes ddr: "ddr_ready (en_ddr s)"
    and live: "T \<Longrightarrow> dma_responds hw cfg \<and> bytes \<noteq> 0 \<and> unat src + unat bytes \<le> 0x3C0000 \<and> unat dst + unat bytes \<le> 0x3C0000"
    and Q: "\<And>n. Q (dma_into_device (unat src) (unat dst) (unat bytes) (s\<lparr>en_transfers := n\<rparr>))"
  shows "wp T (fpga_dma_copy hw cfg (DDR_BASE_PHYS + ucast src) (LMM_BASE_PHYS + ucast dst) bytes) Q s"
proof (cases "copy_admitted hw cfg (en_ddr s) src dst bytes")
  case False
  then have "\<not> T" using live copy_admitted_live[OF ddr] by blast
  then show ?thesis using False by (simp add: wp_def copy_cases(1)[OF ddr])
next
  case True
  then have g: "rc_max_transfer cfg \<ge> 16" "rc_max_transfer cfg AND 0xF = 0" "bytes \<noteq> 0" "unat bytes \<le> 4294967295"
    by (simp_all add: copy_admitted_def)
  let ?I = "\<lambda>m t. \<exists>n. t = dma_into_device (unat src) (unat dst) m (s\<lparr>en_transfers := n\<rparr>)"
  have "wp T (copy_steps hw cfg True (unat src) (unat dst) bytes) Q s"
    unfolding copy_steps_def Let_def
  proof (rule copy_chunks[OF g, where I = ?I, unfolded Let_def])
    have "s = dma_into_device (unat src) (unat dst) 0 (s\<lparr>en_transfers := en_transfers s\<rparr>)" by simp
    then show "?I 0 s" by blast
    show "Q t" if "?I (unat bytes) t" for t using that Q by blast
    show "wp T (fpga_dma_copy_one hw True (unat src + m) (unat dst + m) len) (?I (m + len)) t" if t: "?I m t" for m len t
    proof -
      obtain n where n: "t = dma_into_device (unat src) (unat dst) m (s\<lparr>en_transfers := n\<rparr>)" using t by blast
      have ok: "T \<Longrightarrow> hw_dma_ok hw k" for k using live by (simp add: dma_responds_def)
      have u: "t\<lparr>en_transfers := en_transfers t + 1\<rparr> = dma_into_device (unat src) (unat dst) m (s\<lparr>en_transfers := n + 1\<rparr>)"
        by (simp add: n dma_into_device_def cong: if_cong)
      have "dma_into_device (unat src + m) (unat dst + m) len (t\<lparr>en_transfers := en_transfers t + 1\<rparr>)
          = dma_into_device (unat src) (unat dst) (m + len) (s\<lparr>en_transfers := n + 1\<rparr>)"
        unfolding u by (rule into_device_join)
      then show ?thesis using ok by (auto simp: wp_def fpga_dma_copy_one_def Let_def)
    qed
  qed
  then show ?thesis using True by (simp add: wp_def copy_cases(1)[OF ddr])
qed

lemma wp_copy_out:
  fixes src dst :: u32
  assumes ddr: "ddr_ready (en_ddr s)"
    and live: "T \<Longrightarrow> dma_responds hw cfg \<and> bytes \<noteq> 0 \<and> unat src + unat bytes \<le> 0x3C0000 \<and> unat dst + unat bytes \<le> 0x3C0000"
    and Q: "\<And>n. unat dst + unat bytes \<le> length (dm_bytes (en_ddr s))
      \<Longrightarrow> Q (dma_from_device hw (unat src) (unat dst) (unat bytes) (s\<lparr>en_transfers := n\<rparr>))"
  shows "wp T (fpga_dma_copy hw cfg (LMM_BASE_PHYS + ucast src) (DDR_BASE_PHYS + ucast dst) bytes) Q s"
proof (cases "copy_admitted hw cfg (en_ddr s) dst src bytes")
  case False
  then have "\<not> T" using live copy_admitted_live[OF ddr] by blast
  then show ?thesis using False by (simp add: wp_def copy_cases(2)[OF ddr])
next
  case True
  then have g: "rc_max_transfer cfg \<ge> 16" "rc_max_transfer cfg AND 0xF = 0" "bytes \<noteq> 0" "unat bytes \<le> 4294967295"
    and room: "unat dst + unat bytes \<le> length (dm_bytes (en_ddr s))"
    by (simp_all add: copy_admitted_def)
  let ?I = "\<lambda>m t. \<exists>n. t = dma_from_device hw (unat src) (unat dst) m (s\<lparr>en_transfers := n\<rparr>)"
  have "wp T (copy_steps hw cfg False (unat src) (unat dst) bytes) Q s"
    unfolding copy_steps_def Let_def
  proof (rule copy_chunks[OF g, where I = ?I, unfolded Let_def])
    have "s = dma_from_device hw (unat src) (unat dst) 0 (s\<lparr>en_transfers := en_transfers s\<rparr>)" by simp
    then show "?I 0 s" by blast
    show "Q t" if "?I (unat bytes) t" for t using that Q[OF room] by blast
    show "wp T (fpga_dma_copy_one hw False (unat src + m) (unat dst + m) len) (?I (m + len)) t"
      if m: "m + len \<le> unat bytes" and t: "?I m t" for m len t
    proof -
      obtain n where n: "t = dma_from_device hw (unat src) (unat dst) m (s\<lparr>en_transfers := n\<rparr>)" using t by blast
      have ok: "T \<Longrightarrow> hw_dma_ok hw k" for k using live by (simp add: dma_responds_def)
      have u: "t\<lparr>en_transfers := en_transfers t + 1\<rparr> = dma_from_device hw (unat src) (unat dst) m (s\<lparr>en_transfers := n + 1\<rparr>)"
      proof -
        have "device_byte hw (s\<lparr>en_transfers := n\<rparr>) off = device_byte hw (s\<lparr>en_transfers := n + 1\<rparr>) off" for off
          by (rule device_byte_cong) simp_all
        then show ?thesis by (simp add: n dma_from_device_def)
      qed
      have "dma_from_device hw (unat src + m) (unat dst + m) len (t\<lparr>en_transfers := en_transfers t + 1\<rparr>)
          = dma_from_device hw (unat src) (unat dst) (m + len) (s\<lparr>en_transfers := n + 1\<rparr>)"
        unfolding u by (rule from_device_join) (use room m in simp)
      then show ?thesis using ok by (auto simp: wp_def fpga_dma_copy_one_def Let_def)
    qed
  qed
  then show ?thesis using True by (simp add: wp_def copy_cases(2)[OF ddr])
qed

end
