(* ===== verification/Fpga_Window.thy ===== *)
theory Fpga_Window
  imports Fpga_Steps
begin

text \<open>
  The windows of the staging DDR as ranges of bytes, the bytes of a tile's activations, weights and scales as
  the device reads them, and what a range of the packers writes, with the layout of theory \<open>Q8_Pack\<close>.
\<close>

subsection \<open>Windows of the DDR\<close>

definition ddr_put :: "nat \<Rightarrow> nat \<Rightarrow> (nat \<Rightarrow> u8) \<Rightarrow> ddr_map \<Rightarrow> ddr_map" where
  "ddr_put p n f d = d\<lparr>dm_bytes := map (\<lambda>j. if p \<le> j \<and> j < p + n then f (j - p) else dm_bytes d ! j) [0..<length (dm_bytes d)]\<rparr>"

definition staged :: "nat \<Rightarrow> nat \<Rightarrow> ddr_map \<Rightarrow> u8 list" where
  "staged p n d = map (\<lambda>i. dm_bytes d ! (p + i)) [0..<n]"

lemma ddr_put_fields [simp]:
  "dm_mapped (ddr_put p n f d) = dm_mapped d" "dm_base (ddr_put p n f d) = dm_base d"
  "length (dm_bytes (ddr_put p n f d)) = length (dm_bytes d)"
  "j < length (dm_bytes d) \<Longrightarrow> dm_bytes (ddr_put p n f d) ! j = (if p \<le> j \<and> j < p + n then f (j - p) else dm_bytes d ! j)"
  by (simp_all add: ddr_put_def)

lemma ddr_put_ready [simp]: "ddr_ready (ddr_put p n f d) = ddr_ready d"
  by (simp add: ddr_ready_def)

lemma ddr_put_size [simp]: "ddr_map_size (ddr_put p n f d) = ddr_map_size d" "ddr_range_fits off b (ddr_put p n f d) = ddr_range_fits off b d"
  by (simp_all add: ddr_map_size_def ddr_range_fits_def)

lemma ddr_eqI:
  assumes "dm_mapped d = dm_mapped e" "dm_base d = dm_base e" "length (dm_bytes d) = length (dm_bytes e)"
    and "\<And>j. j < length (dm_bytes e) \<Longrightarrow> dm_bytes d ! j = dm_bytes e ! j"
  shows "d = (e :: ddr_map)"
  using assms by (intro ddr_map.equality nth_equalityI) auto

lemma staged_put:
  assumes "p + n \<le> length (dm_bytes d)"
  shows "staged p n (ddr_put p n f d) = map f [0..<n]"
    "q + m \<le> p \<or> p + n \<le> q \<Longrightarrow> q + m \<le> length (dm_bytes d) \<Longrightarrow> staged q m (ddr_put p n f d) = staged q m d"
  using assms by (auto simp: staged_def)

lemma ddr_put_none [simp]: "ddr_put p 0 f d = d"
  by (rule ddr_eqI) auto

lemma ddr_put_join: "ddr_put (p + a) b (\<lambda>k. f (a + k)) (ddr_put p a f d) = ddr_put p (a + b) f d"
  by (rule ddr_eqI) (auto simp: not_le not_less)

lemma ddr_put_swap: "p + a \<le> q \<or> q + b \<le> p \<Longrightarrow> ddr_put p a f (ddr_put q b g d) = ddr_put q b g (ddr_put p a f d)"
  by (rule ddr_eqI) auto

lemma ddr_put_over: "ddr_put p a f (ddr_put p a g d) = ddr_put p a f d"
  by (rule ddr_eqI) auto

text \<open>Words written into a window.\<close>

lemma store_words_byte:
  assumes "p + 4 * length ws \<le> length m" and "p \<le> j" "j < p + 4 * length ws"
  shows "store_words p ws m ! j = window_byte ((!) ws) (j - p)"
proof -
  let ?k = "j - p"
  let ?m = "store_words p ws m"
  have k: "?k div 4 < length ws" and j: "j = p + 4 * (?k div 4) + ?k mod 4" using assms by auto
  have "load32 (p + 4 * (?k div 4)) ?m = ws ! (?k div 4)" by (rule load_store_words[OF assms(1) k])
  then have "ucast (drop_bit (8 * (?k mod 4)) (ws ! (?k div 4))) = ?m ! (p + 4 * (?k div 4) + ?k mod 4)"
    unfolding load32_def by (metis mod_less_divisor pack_i8x4_le_byte zero_less_numeral)
  then show ?thesis using j by (simp add: window_byte_def)
qed

lemma put_words_put:
  assumes "p + 4 * n \<le> length (dm_bytes d)"
  shows "put_words p n w d = ddr_put p (4 * n) (window_byte w) d"
proof (rule ddr_eqI)
  fix j assume j: "j < length (dm_bytes (ddr_put p (4 * n) (window_byte w) d))"
  show "dm_bytes (put_words p n w d) ! j = dm_bytes (ddr_put p (4 * n) (window_byte w) d) ! j"
  proof (cases "p \<le> j \<and> j < p + 4 * n")
    case True
    then have "(j - p) div 4 < n" by auto
    then have "window_byte ((!) (map w [0..<n])) (j - p) = window_byte w (j - p)" by (simp add: window_byte_def)
    then show ?thesis using True j store_words_byte[of p "map w [0..<n]" "dm_bytes d" j] assms by (simp add: put_words_def)
  next
    case False
    then have "store_words p (map w [0..<n]) (dm_bytes d) ! j = dm_bytes d ! j" by (intro store_words_other) auto
    then show ?thesis using False j by (auto simp: put_words_def)
  qed
qed (simp_all add: put_words_def)

lemma window_byte_words: "window_byte (ddr_words p d) k = dm_bytes d ! (p + k)"
proof -
  have "4 * (k div 4) + k mod 4 = k" by simp
  moreover have "window_byte (ddr_words p d) k = dm_bytes d ! (p + 4 * (k div 4) + k mod 4)"
    unfolding window_byte_def ddr_words_def load32_def by (rule pack_i8x4_le_byte) simp
  ultimately show ?thesis by (metis add.assoc)
qed

lemma ddr_words_put:
  assumes "p + 4 * n \<le> q \<or> q + m \<le> p" and "i < n" "p + 4 * n \<le> length (dm_bytes d)"
  shows "ddr_words p (ddr_put q m f d) i = ddr_words p d i"
  using assms by (auto simp: ddr_words_def load32_def pack_i8x4_le_def)

text \<open>A window that is filled in part from \<open>e\<close> and otherwise kept.\<close>

lemma put_words_lay:
  assumes "a + m \<le> n" and "p + 4 * n \<le> length (dm_bytes d)"
    and w: "\<And>i. i < n \<Longrightarrow> w i = lay a m e (ddr_words p d) i"
  shows "put_words p n w d = ddr_put (p + 4 * a) (4 * m) (\<lambda>k. window_byte e (4 * a + k)) d"
proof -
  have "dm_bytes (ddr_put p (4 * n) (window_byte w) d) ! j = dm_bytes (ddr_put (p + 4 * a) (4 * m) (\<lambda>k. window_byte e (4 * a + k)) d) ! j"
    if j: "j < length (dm_bytes d)" for j
  proof (cases "p \<le> j \<and> j < p + 4 * n")
    case True
    then have k: "(j - p) div 4 < n" by auto
    have b: "window_byte w (j - p) = window_byte (lay a m e (ddr_words p d)) (j - p)" using w[OF k] by (simp add: window_byte_def)
    show ?thesis
    proof (cases "a \<le> (j - p) div 4 \<and> (j - p) div 4 < a + m")
      case in_range: True
      then have r: "p + 4 * a \<le> j" "j < p + 4 * a + 4 * m" "4 * a + (j - (p + 4 * a)) = j - p" using True by auto
      have "window_byte w (j - p) = window_byte e (j - p)" using b in_range by (simp add: window_byte_def lay_def)
      then show ?thesis using True j r(1,2) by (simp only: ddr_put_fields r(3) if_True simp_thms)
    next
      case False
      then have "\<not> (p + 4 * a \<le> j \<and> j < p + 4 * a + 4 * m)" using True by auto
      moreover have "window_byte w (j - p) = dm_bytes d ! j"
        using b False window_byte_words[of p d "j - p"] True by (simp add: window_byte_def lay_def)
      ultimately show ?thesis using True j by auto
    qed
  next
    case False
    then have "\<not> (p + 4 * a \<le> j \<and> j < p + 4 * a + 4 * m)" using assms(1) by auto
    then show ?thesis using False j by auto
  qed
  then show ?thesis unfolding put_words_put[OF assms(2)] by (intro ddr_eqI) simp_all
qed

subsection \<open>The inputs of a tile\<close>

definition tile_ok :: "vpu_limits \<Rightarrow> operands \<Rightarrow> tile_place \<Rightarrow> bool" where
  "tile_ok vl ops tp \<longleftrightarrow> 0 < tp_rows tp \<and> tp_rows tp \<le> 256 \<and> tp_rows tp \<le> vl_max_rows vl \<and> 0 < tp_group_blocks tp
     \<and> tp_group_blocks tp \<le> 64 \<and> tp_group_blocks tp * 2 \<le> vl_max_beats vl
     \<and> tp_rows tp * tp_group_blocks tp \<le> vl_result_words vl * 4 \<and> vl_result_words vl \<le> 4096
     \<and> 0 \<le> tp_row0 tp \<and> tp_row0 tp \<le> INT_MAX \<and> 0 \<le> tp_k_block0 tp \<and> tp_k_block0 tp \<le> INT_MAX
     \<and> tp_act_group tp \<noteq> 0 \<and> op_weight_base ops \<noteq> 0"

definition whole_tile :: "operands \<Rightarrow> tile_place \<Rightarrow> pack_task" where
  "whole_tile ops tp = pack_task_of ops tp WEIGHT_BASE SPU_PARAM_BASE 0 ((nat (tp_rows tp) + 1) div 2)
     \<lparr>dm_mapped = True, dm_base = 0, dm_bytes = []\<rparr>"

definition weight_image :: "operands \<Rightarrow> tile_place \<Rightarrow> nat \<Rightarrow> u8" where
  "weight_image ops tp = window_byte (tile_word (op_mem ops) (whole_tile ops tp))"

definition scale_image :: "operands \<Rightarrow> tile_place \<Rightarrow> nat \<Rightarrow> u8" where
  "scale_image ops tp = window_byte (scale_at (op_mem ops) (whole_tile ops tp))"

definition act_image :: "operands \<Rightarrow> tile_place \<Rightarrow> nat \<Rightarrow> u8" where
  "act_image ops tp k = q8_qs (op_mem ops) (tp_act_group tp + int (k div 32) * Q8_BLOCK_BYTES) (k mod 32)"

definition act_len :: "tile_place \<Rightarrow> nat" where "act_len tp = nat (tp_group_blocks tp) * 32"
definition weight_len :: "tile_place \<Rightarrow> nat" where
  "weight_len tp = padded_rows (nat (tp_rows tp)) * (nat (tp_group_blocks tp) * 2) * 16"
definition scale_len :: "tile_place \<Rightarrow> nat" where "scale_len tp = nat (tp_rows tp) * nat (tp_group_blocks tp) * 4"

definition place_input :: "operands \<Rightarrow> tile_place \<Rightarrow> tile_input" where
  "place_input ops tp = \<lparr>ti_rows = nat (tp_rows tp), ti_beats = nat (tp_group_blocks tp) * 2,
     ti_act = map (act_image ops tp) [0..<act_len tp], ti_weight = map (weight_image ops tp) [0..<weight_len tp],
     ti_scale = map (scale_image ops tp) [0..<scale_len tp]\<rparr>"

lemma task_images:
  "tile_word (op_mem ops) (pack_task_of ops tp wo so a b d) = tile_word (op_mem ops) (whole_tile ops tp)"
  "scale_at (op_mem ops) (pack_task_of ops tp wo so a b d) = scale_at (op_mem ops) (whole_tile ops tp)"
  by (simp_all add: fun_eq_iff tile_word_def scale_at_def scale_entry_def tile_lanes_def odd_lanes_def row_lanes_def
      whole_tile_def pack_task_of_def Let_def beat_word_def pack_i8x4_le_def)

lemma tile_sizes_nat:
  assumes "tile_ok vl ops tp"
  defines "R \<equiv> nat (tp_rows tp)" and "G \<equiv> nat (tp_group_blocks tp)"
  shows "0 < R" "R \<le> 256" "0 < G" "G \<le> 64" "R * G \<le> 16384" "0 < R * G" "tp_rows tp = int R" "tp_group_blocks tp = int G"
    "act_len tp \<le> 2048" "0 < act_len tp" "weight_len tp \<le> 524288" "0 < weight_len tp" "scale_len tp \<le> 65536"
    "weight_len tp = 4 * ((R + 1) div 2 * (G * 16))" "scale_len tp = 4 * (R * G)"
proof -
  show a: "0 < R" "R \<le> 256" "0 < G" "G \<le> 64" "tp_rows tp = int R" "tp_group_blocks tp = int G"
    using assms(1) by (auto simp: tile_ok_def R_def G_def)
  have "R * G \<le> 256 * 64" using a(2,4) by (rule mult_le_mono)
  then show rg: "R * G \<le> 16384" by simp
  show "0 < R * G" using a(1,3) by simp
  show "act_len tp \<le> 2048" "0 < act_len tp" using a(3,4) by (simp_all add: act_len_def G_def)
  have p: "padded_rows R \<le> 256" "0 < padded_rows R" using a(1,2) by (auto simp: padded_rows_def)
  then have "padded_rows R * (G * 2) \<le> 256 * 128" using a(4) by (intro mult_le_mono) simp_all
  then show "weight_len tp \<le> 524288" by (simp add: weight_len_def R_def G_def)
  show "0 < weight_len tp" using p a(3) by (simp add: weight_len_def R_def G_def)
  show "scale_len tp \<le> 65536" using rg by (simp add: scale_len_def R_def G_def mult.commute)
  show "weight_len tp = 4 * ((R + 1) div 2 * (G * 16))" by (simp add: weight_len_def R_def G_def padded_rows_def)
  show "scale_len tp = 4 * (R * G)" by (simp add: scale_len_def R_def G_def)
qed

text \<open>A task of the packers for part of the rows is one they accept.\<close>

lemma part_admissible:
  assumes ok: "tile_ok vl ops tp" and d: "ddr_ready d" and ab: "a \<le> b" "b \<le> (nat (tp_rows tp) + 1) div 2"
  shows "fused_admissible (pack_task_of ops tp WEIGHT_BASE SPU_PARAM_BASE a b d)"
proof -
  have b: "0 \<le> uint (dm_base d)" "uint (dm_base d) mod 8 = 0" using ddr_ready_facts(6)[OF d] by simp_all
  then have m: "(uint (dm_base d) + 0x100000) mod 8 = 0" "(uint (dm_base d) + 0x380000) mod 4 = 0" by presburger+
  have nz: "uint (dm_base d) + 0x100000 \<noteq> 0" "uint (dm_base d) + 0x380000 \<noteq> 0" using b(1) by linarith+
  show ?thesis
    using ok ab nz m by (simp add: fused_admissible_def pack_admissible_def pack_task_of_def tile_ok_def)
qed

subsection \<open>Packing\<close>

text \<open>The pieces of the WEIGHT and the scale window that the row pairs \<open>a\<close> to \<open>b\<close> fill.\<close>

definition put_weights :: "operands \<Rightarrow> tile_place \<Rightarrow> nat \<Rightarrow> nat \<Rightarrow> ddr_map \<Rightarrow> ddr_map" where
  "put_weights ops tp a b = ddr_put (0x100000 + 4 * (a * (nat (tp_group_blocks tp) * 16)))
     (4 * ((b - a) * (nat (tp_group_blocks tp) * 16))) (\<lambda>k. weight_image ops tp (4 * (a * (nat (tp_group_blocks tp) * 16)) + k))"

definition put_scales :: "operands \<Rightarrow> tile_place \<Rightarrow> nat \<Rightarrow> nat \<Rightarrow> ddr_map \<Rightarrow> ddr_map" where
  "put_scales ops tp r r' = ddr_put (0x380000 + 4 * (r * nat (tp_group_blocks tp)))
     (4 * ((r' - r) * nat (tp_group_blocks tp))) (\<lambda>k. scale_image ops tp (4 * (r * nat (tp_group_blocks tp)) + k))"

lemma put_pieces_fields [simp]:
  "ddr_ready (put_weights ops tp a b d) = ddr_ready d" "ddr_ready (put_scales ops tp r r' d) = ddr_ready d"
  "length (dm_bytes (put_weights ops tp a b d)) = length (dm_bytes d)" "length (dm_bytes (put_scales ops tp r r' d)) = length (dm_bytes d)"
  "dm_base (put_weights ops tp a b d) = dm_base d" "dm_base (put_scales ops tp r r' d) = dm_base d"
  "ddr_range_fits off n (put_weights ops tp a b d) = ddr_range_fits off n d" "ddr_range_fits off n (put_scales ops tp r r' d) = ddr_range_fits off n d"
  by (simp_all add: put_weights_def put_scales_def)

lemma put_pieces_join:
  assumes "a \<le> b" "b \<le> c"
  shows "put_weights ops tp b c (put_weights ops tp a b d) = put_weights ops tp a c d"
    "put_scales ops tp b c (put_scales ops tp a b d) = put_scales ops tp a c d"
proof -
  have e: "4 * (b * n) = 4 * (a * n) + 4 * ((b - a) * n)" "4 * ((b - a) * n) + 4 * ((c - b) * n) = 4 * ((c - a) * n)" for n :: nat
    using assms by (auto simp flip: add_mult_distrib add_mult_distrib2)
  show "put_weights ops tp b c (put_weights ops tp a b d) = put_weights ops tp a c d"
    using ddr_put_join[of "0x100000 + 4 * (a * (nat (tp_group_blocks tp) * 16))" "4 * ((b - a) * (nat (tp_group_blocks tp) * 16))"
        "4 * ((c - b) * (nat (tp_group_blocks tp) * 16))" "\<lambda>k. weight_image ops tp (4 * (a * (nat (tp_group_blocks tp) * 16)) + k)" d]
    unfolding put_weights_def e(1)[of "nat (tp_group_blocks tp) * 16"] e(2) by (simp only: add.assoc)
  show "put_scales ops tp b c (put_scales ops tp a b d) = put_scales ops tp a c d"
    using ddr_put_join[of "0x380000 + 4 * (a * nat (tp_group_blocks tp))" "4 * ((b - a) * nat (tp_group_blocks tp))"
        "4 * ((c - b) * nat (tp_group_blocks tp))" "\<lambda>k. scale_image ops tp (4 * (a * nat (tp_group_blocks tp)) + k)" d]
    unfolding put_scales_def e(1)[of "nat (tp_group_blocks tp)"] e(2) by (simp only: add.assoc)
qed

lemma packed_window_lay:
  assumes "pt_pair_begin t \<le> pt_pair_end t"
  shows "packed_window mem t dst
    = lay (pt_pair_begin t * pt_words_per_pair t) ((pt_pair_end t - pt_pair_begin t) * pt_words_per_pair t) (tile_word mem t) dst"
proof -
  have "pt_pair_end t * pt_words_per_pair t = pt_pair_begin t * pt_words_per_pair t + (pt_pair_end t - pt_pair_begin t) * pt_words_per_pair t"
    using assms by (simp flip: add_mult_distrib)
  then show ?thesis by (simp add: packed_window_def lay_def)
qed

lemma weight_words_put:
  assumes ok: "tile_ok vl ops tp" and d: "ddr_ready d" and ab: "a \<le> b" "b \<le> (nat (tp_rows tp) + 1) div 2"
  defines "t \<equiv> pack_task_of ops tp WEIGHT_BASE SPU_PARAM_BASE a b d"
  shows "put_words (unat WEIGHT_BASE) ((nat (tp_rows tp) + 1) div 2 * (nat (tp_group_blocks tp) * 16))
      (packed_window (op_mem ops) t (ddr_words (unat WEIGHT_BASE) d)) d = put_weights ops tp a b d"
proof -
  note n = tile_sizes_nat[OF ok]
  have W: "pt_words_per_pair t = nat (tp_group_blocks tp) * 16" "pt_pair_begin t = a" "pt_pair_end t = b"
    using n(8) by (simp_all add: t_def pack_task_of_def pt_words_per_pair_def nat_mult_distrib)
  have le: "a * (nat (tp_group_blocks tp) * 16) + (b - a) * (nat (tp_group_blocks tp) * 16)
      \<le> (nat (tp_rows tp) + 1) div 2 * (nat (tp_group_blocks tp) * 16)"
    using ab by (simp flip: add_mult_distrib)
  have room: "unat WEIGHT_BASE + 4 * ((nat (tp_rows tp) + 1) div 2 * (nat (tp_group_blocks tp) * 16)) \<le> length (dm_bytes d)"
    using n(11) ddr_ready_facts(4)[OF d] unfolding n(14)[symmetric] by simp
  have key: "packed_window (op_mem ops) t (ddr_words (unat WEIGHT_BASE) d) i
      = lay (a * (nat (tp_group_blocks tp) * 16)) ((b - a) * (nat (tp_group_blocks tp) * 16)) (tile_word (op_mem ops) (whole_tile ops tp))
        (ddr_words (unat WEIGHT_BASE) d) i" for i
    using packed_window_lay[of t "op_mem ops"] ab unfolding W by (simp add: t_def task_images)
  have u: "unat WEIGHT_BASE = 0x100000" by simp
  show ?thesis unfolding put_weights_def weight_image_def u by (rule put_words_lay[OF le room key, unfolded u])
qed

text \<open>One range of the fused packer.\<close>

lemma fused_range_put:
  assumes ok: "tile_ok vl ops tp" and d: "ddr_ready d" and ab: "a \<le> b" "b \<le> (nat (tp_rows tp) + 1) div 2" "2 * a \<le> nat (tp_rows tp)"
  shows "fused_range ops tp WEIGHT_BASE SPU_PARAM_BASE ((nat (tp_rows tp) + 1) div 2 * (nat (tp_group_blocks tp) * 16))
      (nat (tp_rows tp) * nat (tp_group_blocks tp)) a b d
    = Some (put_scales ops tp (2 * a) (min (2 * b) (nat (tp_rows tp))) (put_weights ops tp a b d))"
proof -
  let ?t = "pack_task_of ops tp WEIGHT_BASE SPU_PARAM_BASE a b d" and ?G = "nat (tp_group_blocks tp)" and ?R = "nat (tp_rows tp)"
  note n = tile_sizes_nat[OF ok]
  note v = fused_value[OF part_admissible[OF ok d ab(1,2)], of "op_mem ops" "ddr_words (unat WEIGHT_BASE) d" "ddr_words (unat SPU_PARAM_BASE) d"]
  have t: "pt_pair_begin ?t = a" "pt_pair_end ?t = b" "nat (pt_group_blocks ?t) = ?G" "nat (pt_rows ?t) = ?R"
    "rows_before ?t a = 2 * a" "rows_before ?t b = min (2 * b) ?R"
    using ab(3) by (simp_all add: pack_task_of_def rows_before_def)
  have counts: "(b - a) * pt_words_per_pair ?t = (b - a) * pt_words_per_pair ?t
      \<and> (rows_before ?t b - rows_before ?t a) * ?G = (min (b * 2) ?R - a * 2) * ?G"
    by (simp add: t mult.commute)
  have le: "2 * a * ?G + (min (2 * b) ?R - 2 * a) * ?G \<le> ?R * ?G"
    using ab by (simp flip: add_mult_distrib)
  have room: "unat SPU_PARAM_BASE + 4 * (?R * ?G) \<le> length (dm_bytes (put_weights ops tp a b d))"
    using n(13) ddr_ready_facts(4)[OF d] unfolding n(15)[symmetric] by simp
  have below: "0x100000 + 4 * (a * (?G * 16)) + 4 * ((b - a) * (?G * 16)) \<le> 0x380000"
  proof -
    have "a * (?G * 16) + (b - a) * (?G * 16) \<le> (?R + 1) div 2 * (?G * 16)" using ab(1,2) by (simp flip: add_mult_distrib)
    then show ?thesis using n(11,14) by linarith
  qed
  have key: "scale_window (op_mem ops) ?t (ddr_words (unat SPU_PARAM_BASE) d) i
      = lay (2 * a * ?G) ((min (2 * b) ?R - 2 * a) * ?G) (scale_at (op_mem ops) (whole_tile ops tp))
        (ddr_words (unat SPU_PARAM_BASE) (put_weights ops tp a b d)) i" if i: "i < ?R * ?G" for i
  proof -
    have "ddr_words (unat SPU_PARAM_BASE) (put_weights ops tp a b d) i = ddr_words (unat SPU_PARAM_BASE) d i"
      unfolding put_weights_def by (rule ddr_words_put[OF _ i]) (use room below in simp_all)
    then show ?thesis by (simp add: scale_window_def t task_images lay_def)
  qed
  have scales: "put_words (unat SPU_PARAM_BASE) (?R * ?G) (scale_window (op_mem ops) ?t (ddr_words (unat SPU_PARAM_BASE) d)) (put_weights ops tp a b d)
      = put_scales ops tp (2 * a) (min (2 * b) ?R) (put_weights ops tp a b d)"
  proof -
    have u: "unat SPU_PARAM_BASE = 0x380000" by simp
    show ?thesis unfolding put_scales_def scale_image_def u by (rule put_words_lay[OF le room key, unfolded u])
  qed
  show ?thesis
    unfolding fused_range_def Let_def v bind.bind_lunit prod.case t counts
    using scales weight_words_put[OF ok d ab(1,2)] counts by (simp add: t)
qed

end
