(* ===== verification/Fpga_Staging.thy ===== *)
theory Fpga_Staging
  imports Fpga_Window
begin

text \<open>
  What preparing a tile leaves in the staging DDR: its activations, weights and scales, each in its window, and
  nothing else moved; for the fused and the serial packer and for weights already staged.
\<close>

subsection \<open>Packing a whole tile\<close>

lemma low_bits_clear: "unat x = 4 * k \<Longrightarrow> x AND 3 = 0" for x :: "'a :: len word"
proof -
  assume x: "unat x = 4 * k"
  have "x AND 3 = take_bit 2 x" by (simp add: take_bit_eq_mask mask_eq_exp_minus_1)
  moreover have "unat (take_bit 2 x) = 0" unfolding unsigned_take_bit_eq by (simp add: take_bit_eq_mod x)
  ultimately show ?thesis by (simp add: unat_eq_0)
qed

lemma checked_ptr:
  assumes d: "ddr_ready d" and "off \<noteq> 0" "unat off = 4 * k" "unat bytes = 4 * n" "0 < n" "unat off + unat bytes \<le> 0x3C0000"
  shows "ddr_checked_u32_ptr off bytes d = Some (unat off)"
proof -
  have fits: "ddr_range_fits off bytes d"
    using assms(4-6) ddr_ready_facts(1,4)[OF d] ddr_range_fits_value[OF ddr_ready_facts(2)[OF d]] by simp
  have b: "unat (dm_base d) mod 4 = 0"
  proof -
    have m: "uint (dm_base d) mod 8 mod 4 = uint (dm_base d) mod 4" by (rule mod_mod_cancel) simp
    have "uint (dm_base d) mod 4 = 0" by (simp only: m[symmetric] ddr_ready_facts(6)[OF d] mod_0)
    then have "int (unat (dm_base d) mod 4) = 0" by (simp only: uint_nat zmod_int of_nat_numeral)
    then show ?thesis by (simp only: of_nat_eq_0_iff)
  qed
  have u: "unat (of_nat (unat off) :: u64) = unat off" using unat_ucast_wide[of off, where ?'b = 64] by simp
  have "unat ((dm_base d + of_nat (unat off)) mod 4) = (unat (dm_base d) + unat off) mod 2 ^ 64 mod 4"
    unfolding unat_mod unat_word_ariths(1) u by simp
  also have "\<dots> = (unat (dm_base d) + unat off) mod 4" by (simp add: mod_mod_cancel)
  also have "\<dots> = 0" using b assms(3) by (simp add: mod_add_eq[symmetric, of "unat (dm_base d)"])
  finally have "(dm_base d + of_nat (unat off)) mod 4 = 0" by (simp add: unat_eq_0)
  moreover have "bytes \<noteq> 0" using assms(4,5) by auto
  ultimately show ?thesis using assms(2) low_bits_clear[OF assms(3)] low_bits_clear[OF assms(4)] fits
    by (simp add: ddr_checked_u32_ptr_def ddr_ptr_def)
qed

lemma whole_pieces:
  assumes "tile_ok vl ops tp"
  shows "put_weights ops tp 0 ((nat (tp_rows tp) + 1) div 2) d = ddr_put 0x100000 (weight_len tp) (weight_image ops tp) d"
    "put_scales ops tp 0 (nat (tp_rows tp)) d = ddr_put 0x380000 (scale_len tp) (scale_image ops tp) d"
  using tile_sizes_nat(14,15)[OF assms] by (simp_all add: put_weights_def put_scales_def)

definition tile_staged :: "operands \<Rightarrow> tile_place \<Rightarrow> bool \<Rightarrow> ddr_map \<Rightarrow> ddr_map" where
  "tile_staged ops tp scales d =
     (let d = ddr_put 0x100000 (weight_len tp) (weight_image ops tp) d
      in if scales then ddr_put 0x380000 (scale_len tp) (scale_image ops tp) d else d)"

definition packs_in_parallel :: "run_config \<Rightarrow> tile_place \<Rightarrow> bool" where
  "packs_in_parallel cfg tp \<longleftrightarrow> rc_pack_workers cfg = 2 \<and> 2 \<le> (nat (tp_rows tp) + 1) div 2 \<and> 262144 \<le> weight_len tp"

lemma direct_pack_value:
  assumes ok: "tile_ok vl ops tp" and d: "ddr_ready d" and wb: "unat wb = weight_len tp" and worker: "packs_in_parallel cfg tp \<Longrightarrow> hw_worker_ok hw"
  shows "direct_pack hw cfg ops tp WEIGHT_BASE SPU_PARAM_BASE (nat (tp_rows tp) * nat (tp_group_blocks tp)) wb d
    = Some (packs_in_parallel cfg tp, tile_staged ops tp (packs_in_parallel cfg tp) d)"
proof -
  let ?G = "nat (tp_group_blocks tp)" and ?R = "nat (tp_rows tp)"
  let ?P = "(?R + 1) div 2"
  note n = tile_sizes_nat[OF ok]
  have ptr: "ddr_checked_u32_ptr WEIGHT_BASE wb d = Some 0x100000"
    using checked_ptr[OF d, of WEIGHT_BASE "0x40000" wb "?P * (?G * 16)"] n(11,12,14) wb by simp
  have words: "unat (wb div 4) = ?P * (?G * 16)" using n(14) by (simp add: unat_div wb)
  have par: "rc_pack_workers cfg = 2 \<and> ?P \<ge> 2 \<and> wb \<ge> 262144 \<longleftrightarrow> packs_in_parallel cfg tp"
    by (simp add: packs_in_parallel_def word_le_nat_alt wb)
  have guard: "?G * 16 \<noteq> 0" using n(3) by simp
  show ?thesis
  proof (cases "packs_in_parallel cfg tp")
    case True
    define h where "h = ?P div 2"
    have h: "2 * h \<le> ?R" "h \<le> ?P" "min (2 * h) ?R = 2 * h" "min (2 * ?P) ?R = ?R" unfolding h_def by auto
    let ?d1 = "put_scales ops tp 0 (2 * h) (put_weights ops tp 0 h d)"
    have d1: "ddr_ready ?d1" using d by simp
    have r1: "fused_range ops tp WEIGHT_BASE SPU_PARAM_BASE (?P * (?G * 16)) (?R * ?G) 0 h d = Some ?d1"
      using fused_range_put[OF ok d le0 h(2), unfolded h(3) mult_0_right, OF le0] .
    have r2: "fused_range ops tp WEIGHT_BASE SPU_PARAM_BASE (?P * (?G * 16)) (?R * ?G) h ?P ?d1
        = Some (put_scales ops tp (2 * h) ?R (put_weights ops tp h ?P ?d1))"
      using fused_range_put[OF ok d1 h(2) order.refl h(1)] unfolding h(4) .
    have "h * (?G * 16) + (?P - h) * (?G * 16) = ?P * (?G * 16)" using h(2) by (simp flip: add_mult_distrib)
    then have "0x100000 + 4 * (h * (?G * 16)) + 4 * ((?P - h) * (?G * 16)) \<le> 0x380000" using n(11,14) by linarith
    then have swap: "put_weights ops tp h ?P ?d1 = put_scales ops tp 0 (2 * h) (put_weights ops tp h ?P (put_weights ops tp 0 h d))"
      unfolding put_weights_def[of ops tp h] put_scales_def by (intro ddr_put_swap) simp
    have all: "put_scales ops tp (2 * h) ?R (put_weights ops tp h ?P ?d1) = tile_staged ops tp True d"
      unfolding swap put_pieces_join(1)[OF le0 h(2)] put_pieces_join(2)[OF le0 h(1)]
      by (simp only: whole_pieces[OF ok] tile_staged_def Let_def if_True)
    have "direct_pack hw cfg ops tp WEIGHT_BASE SPU_PARAM_BASE (?R * ?G) wb d = (if hw_worker_ok hw then
        do { d \<leftarrow> fused_range ops tp WEIGHT_BASE SPU_PARAM_BASE (?P * (?G * 16)) (?R * ?G) 0 h d;
             d \<leftarrow> fused_range ops tp WEIGHT_BASE SPU_PARAM_BASE (?P * (?G * 16)) (?R * ?G) h ?P d; Some (True, d) } else None)"
      unfolding direct_pack_def Let_def ptr words bind.bind_lunit par h_def using guard True by (simp only: if_True simp_thms)
    then show ?thesis using True worker r2 all by (simp only: r1 bind.bind_lunit if_True)
  next
    case False
    have "fused_admissible (pack_task_of ops tp WEIGHT_BASE SPU_PARAM_BASE 0 ?P d)" by (rule part_admissible[OF ok d]) simp_all
    then have adm: "pack_admissible (pack_task_of ops tp WEIGHT_BASE SPU_PARAM_BASE 0 ?P d)" by (simp add: fused_admissible_def)
    have W: "(pt_pair_end (pack_task_of ops tp WEIGHT_BASE SPU_PARAM_BASE 0 ?P d) - pt_pair_begin (pack_task_of ops tp WEIGHT_BASE SPU_PARAM_BASE 0 ?P d))
        * pt_words_per_pair (pack_task_of ops tp WEIGHT_BASE SPU_PARAM_BASE 0 ?P d) = ?P * (?G * 16)"
      using ok by (simp add: pack_task_of_def pt_words_per_pair_def nat_mult_distrib tile_ok_def)
    show ?thesis
      unfolding direct_pack_def Let_def ptr words bind.bind_lunit par pack_value[OF adm] prod.case W
      using False guard by (simp only: weight_words_put[OF ok d le0 order.refl] whole_pieces[OF ok] tile_staged_def Let_def
          if_True if_False simp_thms)
  qed
qed

subsection \<open>Scales and activations\<close>

lemma scale_pairs_value:
  "scale_pairs entry blocks out gb m = lay out (blocks - gb) (\<lambda>i. entry (gb + (i - out))) m"
proof (induction entry blocks out gb m rule: scale_pairs.induct)
  case (1 entry blocks out gb m)
  show ?case
  proof (cases "gb + 1 < blocks")
    case True
    have "lay (out + 2) (blocks - (gb + 2)) (\<lambda>i. entry (gb + 2 + (i - (out + 2)))) (m(out := entry gb, out + 1 := entry (gb + 1)))
        = lay out (blocks - gb) (\<lambda>i. entry (gb + (i - out))) m"
    proof (rule ext)
      fix i
      consider "i < out" | "i = out" | "i = out + 1" | "out + 2 \<le> i" by linarith
      then show "lay (out + 2) (blocks - (gb + 2)) (\<lambda>i. entry (gb + 2 + (i - (out + 2)))) (m(out := entry gb, out + 1 := entry (gb + 1))) i
          = lay out (blocks - gb) (\<lambda>i. entry (gb + (i - out))) m i"
      proof cases
        case 4
        then have "gb + 2 + (i - (out + 2)) = gb + (i - out)" by simp
        then show ?thesis using True 4 unfolding lay_def by (simp only: fun_upd_apply) auto
      qed (use True in \<open>auto simp: lay_def\<close>)
    qed
    moreover have "scale_pairs entry blocks out gb m = scale_pairs entry blocks (out + 2) (gb + 2) (m(out := entry gb, out + 1 := entry (gb + 1)))"
      by (subst scale_pairs.simps) (simp only: True if_True store_scale_pair_words_eq)
    ultimately show ?thesis using 1(1)[OF True] by (simp only: store_scale_pair_words_eq)
  next
    case False
    then show ?thesis by (subst scale_pairs.simps) (auto simp: lay_def fun_eq_iff)
  qed
qed

lemma scale_row_value: "0 < blocks \<Longrightarrow> scale_row addr entry blocks out m = lay out blocks (\<lambda>i. entry (i - out)) m"
  by (auto simp: scale_row_def scale_pairs_value lay_def fun_eq_iff Suc_diff_Suc)

lemma scale_table_value:
  assumes "0 < nat (tp_group_blocks tp)"
  shows "scale_table ops tp (weight_scale_bits ops tp) addr m
    = lay 0 (nat (tp_rows tp) * nat (tp_group_blocks tp)) (scale_at (op_mem ops) (whole_tile ops tp)) m"
proof -
  let ?G = "nat (tp_group_blocks tp)" and ?e = "scale_at (op_mem ops) (whole_tile ops tp)"
  have entry: "scale_row addr (\<lambda>gb. fpga_p2_pack_scale_entry (act_scale_bits ops tp gb) (weight_scale_bits ops tp row gb)) ?G (row * ?G) w
      = lay (row * ?G) ?G ?e w" for row w
  proof -
    have "scale_at (op_mem ops) (whole_tile ops tp) (row * ?G + gb)
        = fpga_p2_pack_scale_entry (act_scale_bits ops tp gb) (weight_scale_bits ops tp row gb)" if "gb < ?G" for gb
      using that by (simp add: scale_at_def scale_entry_def whole_tile_def pack_task_of_def fpga_p2_pack_scale_entry_def
          act_scale_bits_def weight_scale_bits_def)
    then have "lay (row * ?G) ?G (\<lambda>i. fpga_p2_pack_scale_entry (act_scale_bits ops tp (i - row * ?G)) (weight_scale_bits ops tp row (i - row * ?G))) w
        = lay (row * ?G) ?G ?e w"
      by (intro ext) (auto simp: lay_def le_iff_add)
    then show ?thesis using scale_row_value[OF assms] by simp
  qed
  have "fold (\<lambda>row. lay (row * ?G) ?G ?e) [0..<n] m = lay 0 (n * ?G) ?e m" for n
    by (induction n) (auto simp: lay_def fun_eq_iff)
  moreover have "scale_row addr (\<lambda>gb. fpga_p2_pack_scale_entry (act_scale_bits ops tp gb) (weight_scale_bits ops tp row gb)) ?G (row * ?G)
      = lay (row * ?G) ?G ?e" for row by (rule ext) (rule entry)
  ultimately show ?thesis by (simp add: scale_table_def)
qed

lemma fold_zero_tail: "fold (\<lambda>k w. w(k := 0)) [a..<b] w = (\<lambda>i. if a \<le> i \<and> i < b then 0 else w i)"
proof (induction b)
  case (Suc b)
  then show ?case by (cases "a \<le> b") (auto simp: fun_eq_iff less_Suc_eq)
qed simp

text \<open>One beat of activations, then all of them.\<close>

lemma write_beat:
  assumes d: "ddr_ready d" and off: "unat off = 4 * k" "unat off + 16 \<le> 0x3C0000"
  shows "ddr_write_i8x16 off lanes d = Some (ddr_put (unat off) 16 lanes d)"
proof -
  have fits: "ddr_range_fits off 16 d"
    using off ddr_ready_facts(1,4)[OF d] ddr_range_fits_value[OF ddr_ready_facts(2)[OF d]] by simp
  let ?ws = "map (\<lambda>w. ddr_pack_i8x4_le (\<lambda>i. lanes (4 * w + i))) [0..<4]"
  have room: "unat off + 4 * length ?ws \<le> length (dm_bytes d)" using off(2) ddr_ready_facts(4)[OF d] by simp
  have st: "ddr_store_i8x16_words (unat off) lanes (dm_bytes d) = store_words (unat off) ?ws (dm_bytes d)"
    by (simp add: ddr_store_i8x16_words_def upt_rec[of _ 4] ac_simps)
  have "d\<lparr>dm_bytes := ddr_store_i8x16_words (unat off) lanes (dm_bytes d)\<rparr> = ddr_put (unat off) 16 lanes d"
  proof (rule ddr_eqI)
    fix j assume j: "j < length (dm_bytes (ddr_put (unat off) 16 lanes d))"
    show "dm_bytes (d\<lparr>dm_bytes := ddr_store_i8x16_words (unat off) lanes (dm_bytes d)\<rparr>) ! j = dm_bytes (ddr_put (unat off) 16 lanes d) ! j"
    proof (cases "unat off \<le> j \<and> j < unat off + 16")
      case True
      then have w: "(j - unat off) div 4 < 4" and i: "4 * ((j - unat off) div 4) + (j - unat off) mod 4 = j - unat off" by auto
      have "store_words (unat off) ?ws (dm_bytes d) ! j = window_byte ((!) ?ws) (j - unat off)"
        by (rule store_words_byte[OF room]) (use True in simp_all)
      also have "\<dots> = lanes (4 * ((j - unat off) div 4) + (j - unat off) mod 4)"
        using w pack_i8x4_le_byte[of "(j - unat off) mod 4" "\<lambda>i. lanes (4 * ((j - unat off) div 4) + i)"]
        by (simp add: window_byte_def ddr_pack_i8x4_le_def pack_i8x4_le_def Let_def)
      finally show ?thesis using True j unfolding i by (simp add: st)
    next
      case False
      then show ?thesis using j by (auto simp: st store_words_other)
    qed
  qed (simp_all add: st)
  then show ?thesis using low_bits_clear[OF off(1)] fits by (simp add: ddr_write_i8x16_def ddr_ptr_def)
qed

lemma ddr_put_cong: "(\<And>k. k < n \<Longrightarrow> f k = g k) \<Longrightarrow> ddr_put p n f d = ddr_put p n g d"
  by (rule ddr_eqI) auto

lemma act_word:
  assumes "x < 128"
  shows "unat (ACT_BASE + of_nat x * 16 :: u32) = 4 * (0x4000 + 4 * x)"
proof -
  have x: "unat (of_nat x :: u32) = x" using assms by (simp add: unsigned_of_nat take_bit_nat_eq_self)
  then have m: "unat (of_nat x * 16 :: u32) = x * 16" using assms by (subst unat_mult_no_overflow) simp_all
  have "unat (ACT_BASE + of_nat x * 16 :: u32) = unat ACT_BASE + unat (of_nat x * 16 :: u32)"
    using assms m by (subst unat_add_no_overflow) simp_all
  then show ?thesis unfolding m by simp
qed

lemma write_activation_value:
  assumes ok: "tile_ok vl ops tp" and d: "ddr_ready d"
  shows "write_activation ops tp d = Some (ddr_put 0x10000 (act_len tp) (act_image ops tp) d)"
proof -
  note n = tile_sizes_nat[OF ok]
  let ?put = "\<lambda>k. ddr_put 0x10000 (32 * k) (act_image ops tp) d"
  let ?lanes = "\<lambda>gb beat i. q8_qs (op_mem ops) (tp_act_group tp + int gb * Q8_BLOCK_BYTES) (beat * 16 + i)"
  have beat: "ddr_write_i8x16 (ACT_BASE + of_nat (gb * 2 + b) * 16) (?lanes gb b) (ddr_put 0x10000 (32 * gb + 16 * b) (act_image ops tp) d)
      = Some (ddr_put 0x10000 (32 * gb + 16 * b + 16) (act_image ops tp) d)" if gb: "gb < 64" and b: "b < 2" for gb b
  proof -
    have x: "gb * 2 + b < 128" using gb b by linarith
    have at: "unat (ACT_BASE + of_nat (gb * 2 + b) * 16 :: u32) = 0x10000 + (32 * gb + 16 * b)" unfolding act_word[OF x] by simp
    have lanes: "?lanes gb b i = act_image ops tp (32 * gb + 16 * b + i)" if i: "i < 16" for i
    proof -
      have "16 * b + i < 32" using b i by linarith
      then have "(32 * gb + (16 * b + i)) div 32 = gb" "(32 * gb + (16 * b + i)) mod 32 = 16 * b + i" by simp_all
      then show ?thesis by (simp only: act_image_def add.assoc mult.commute[of b 16])
    qed
    have "ddr_write_i8x16 (ACT_BASE + of_nat (gb * 2 + b) * 16) (?lanes gb b) (ddr_put 0x10000 (32 * gb + 16 * b) (act_image ops tp) d)
        = Some (ddr_put (0x10000 + (32 * gb + 16 * b)) 16 (?lanes gb b) (ddr_put 0x10000 (32 * gb + 16 * b) (act_image ops tp) d))"
      using write_beat[of "ddr_put 0x10000 (32 * gb + 16 * b) (act_image ops tp) d", OF _ act_word[OF x]] d gb b unfolding at by simp
    also have "\<dots> = Some (ddr_put 0x10000 (32 * gb + 16 * b + 16) (act_image ops tp) d)"
      by (simp only: ddr_put_cong[of 16 "?lanes gb b" "\<lambda>k. act_image ops tp (32 * gb + 16 * b + k)", OF lanes] ddr_put_join)
    finally show ?thesis .
  qed
  have block: "fold_opt (\<lambda>b. ddr_write_i8x16 (ACT_BASE + of_nat (gb * 2 + b) * 16) (?lanes gb b)) [0..<2] (?put gb) = Some (?put (Suc gb))"
    if "gb < 64" for gb
  proof -
    have l: "[0..<2] = [0, Suc 0]" by (simp add: upt_rec)
    show ?thesis using beat[OF that, of 0] beat[OF that, of 1] unfolding l by (simp add: add.commute add.left_commute)
  qed
  have "\<exists>t. fold_opt (\<lambda>gb. fold_opt (\<lambda>b. ddr_write_i8x16 (ACT_BASE + of_nat (gb * 2 + b) * 16) (?lanes gb b)) [0..<2])
      [0..<nat (tp_group_blocks tp)] d = Some t \<and> t = ?put (nat (tp_group_blocks tp))"
    by (rule fold_opt_upt_total) (use block n(4) in auto)
  then show ?thesis by (simp add: write_activation_def act_len_def mult.commute)
qed

subsection \<open>Sizes\<close>

definition sizes_of :: "tile_place \<Rightarrow> tile_sizes" where
  "sizes_of tp = (let n = nat (tp_rows tp) * nat (tp_group_blocks tp) in
     \<lparr>sz_group_beats = tp_group_blocks tp * 2, sz_result_values = of_nat n, sz_result_words = of_nat ((n + 3) div 4),
       sz_act_bytes = of_nat (act_len tp), sz_weight_bytes = of_nat (weight_len tp), sz_result_bytes = of_nat (16 * ((n + 3) div 4)),
       sz_spu_result_bytes = of_nat (nat (tp_rows tp) * 16)\<rparr>)"

lemma small_words:
  "n < 2 ^ 32 \<Longrightarrow> unat (of_nat n :: u32) = n" "n < 2 ^ 32 \<Longrightarrow> unat (of_nat n :: u64) = n"
  by (simp_all add: unsigned_of_nat take_bit_nat_eq_self)

lemma sizes_unat:
  assumes "tile_ok vl ops tp"
  defines "n \<equiv> nat (tp_rows tp) * nat (tp_group_blocks tp)"
  shows "unat (sz_result_values (sizes_of tp)) = n" "unat (sz_result_words (sizes_of tp)) = (n + 3) div 4"
    "unat (sz_act_bytes (sizes_of tp)) = act_len tp" "unat (sz_weight_bytes (sizes_of tp)) = weight_len tp"
    "unat (sz_result_bytes (sizes_of tp)) = 16 * ((n + 3) div 4)" "unat (sz_spu_result_bytes (sizes_of tp)) = nat (tp_rows tp) * 16"
proof -
  note s = tile_sizes_nat[OF assms(1), folded n_def]
  have m: "(n + 3) div 4 \<le> 4096" using s(5) by linarith
  have b: "n < 2 ^ 32" "(n + 3) div 4 < 2 ^ 32" "act_len tp < 2 ^ 32" "weight_len tp < 2 ^ 32" "16 * ((n + 3) div 4) < 2 ^ 32"
    "nat (tp_rows tp) * 16 < 2 ^ 32" using m s(2,5,9,11) by simp_all
  show "unat (sz_result_values (sizes_of tp)) = n" "unat (sz_result_words (sizes_of tp)) = (n + 3) div 4"
    "unat (sz_act_bytes (sizes_of tp)) = act_len tp" "unat (sz_weight_bytes (sizes_of tp)) = weight_len tp"
    "unat (sz_result_bytes (sizes_of tp)) = 16 * ((n + 3) div 4)" "unat (sz_spu_result_bytes (sizes_of tp)) = nat (tp_rows tp) * 16"
    by (simp_all only: sizes_of_def Let_def tile_sizes.simps n_def[symmetric] small_words[OF b(1)] small_words[OF b(2)]
        small_words[OF b(3)] small_words[OF b(4)] small_words[OF b(5)] small_words[OF b(6)])
qed

lemma word_of_nat_int: "(word_of_int (int k) :: 'a :: len word) = of_nat k"
  by simp

lemma padded_words:
  assumes "n < 2 ^ 31"
  shows "((of_nat n :: u32) + 3) div 4 = of_nat ((n + 3) div 4)"
proof -
  have n: "unat (of_nat n :: u32) = n" using assms by (intro small_words) simp
  have "unat ((of_nat n :: u32) + 3) = n + 3" using assms n by (subst unat_add_no_overflow) simp_all
  then have "unat (((of_nat n :: u32) + 3) div 4) = (n + 3) div 4" by (simp add: unat_div)
  moreover have "unat (of_nat ((n + 3) div 4) :: u32) = (n + 3) div 4" using assms by (intro small_words) simp
  ultimately show ?thesis by (simp only: word_unat_eq_iff)
qed

lemma window_bytes_tile:
  assumes "0 < r" "r \<le> 256" "0 < g" "g \<le> 64"
  shows "unat (weight_window_bytes_for_rows (int r) (int g * 2)) = padded_rows r * (g * 2) * 16"
    "fpga_weight_layout_payload_bytes (int r) (int g * 2) = Some (weight_window_bytes_for_rows (int r) (int g * 2))"
proof -
  have dims: "0 < int r" "int r \<le> INT_MAX" "0 < int g * 2" "int g * 2 \<le> INT_MAX" using assms by simp_all
  obtain w where w: "fpga_weight_layout_payload_words (int r) (int g * 2) = Some w"
    "unat w = padded_rows (nat (int r)) * nat (int g * 2)" using payload_words_value[OF dims] by blast
  have g: "nat (int g * 2) = g * 2" by (simp add: nat_mult_distrib)
  have uw: "unat w = padded_rows r * (g * 2)" using w(2) unfolding g nat_int .
  have "padded_rows r \<le> 256" using assms(2) by (auto simp: padded_rows_def)
  then have "padded_rows r * (g * 2) \<le> 256 * 128" using assms(4) by (intro mult_le_mono) simp_all
  then have small: "unat w \<le> 32768" unfolding uw by simp
  then have le: "\<not> w > SIZE_MAX div 16" by (simp add: word_less_nat_alt unat_div)
  then show "fpga_weight_layout_payload_bytes (int r) (int g * 2) = Some (weight_window_bytes_for_rows (int r) (int g * 2))"
    using w(1) by (simp add: weight_window_bytes_for_rows_def fpga_weight_layout_payload_bytes_def)
  have "unat (w * 16) = unat w * 16" using small by (subst unat_mult_no_overflow) simp_all
  then show "unat (weight_window_bytes_for_rows (int r) (int g * 2)) = padded_rows r * (g * 2) * 16"
    using w(1) le by (simp add: weight_window_bytes_for_rows_def fpga_weight_layout_payload_bytes_def uw)
qed

lemma tile_sizes_value:
  assumes ok: "tile_ok (rc_limits cfg) ops tp" and d: "ddr_ready d"
  shows "tile_sizes_of cfg (tp_rows tp) (tp_group_blocks tp) d = Some (sizes_of tp)"
proof -
  let ?w = "vl_result_words (rc_limits cfg)"
  note n = tile_sizes_nat[OF ok] and u = sizes_unat[OF ok]
  obtain r g where rg: "tp_rows tp = int r" "tp_group_blocks tp = int g" using n(7,8) by blast
  have b: "0 < r" "r \<le> 256" "0 < g" "g \<le> 64" "r * g \<le> 16384" "act_len tp \<le> 2048" "weight_len tp \<le> 524288" "0 < act_len tp" "0 < weight_len tp" "0 < r * g"
    using n by (simp_all add: rg)
  have words: "((of_nat (r * g) :: u32) + 3) div 4 = of_nat ((r * g + 3) div 4)"
    by (rule padded_words) (use b(5) in simp)
  have values_: "(word_of_int (int r) * word_of_int (int g) :: u32) = of_nat (r * g)" by simp
  have fits: "\<not> (of_nat ((r * g + 3) div 4) :: u32) > word_of_int ?w"
  proof -
    have "int (r * g) \<le> ?w * 4" "?w \<le> 4096" using ok by (simp_all add: tile_ok_def rg)
    then have w: "(r * g + 3) div 4 \<le> nat ?w" "nat ?w \<le> 4096" "0 \<le> ?w" by linarith+
    then have wn: "(word_of_int ?w :: u32) = of_nat (nat ?w)" using word_of_nat_int[of "nat ?w"] by simp
    have "unat (of_nat ((r * g + 3) div 4) :: u32) \<le> unat (of_nat (nat ?w) :: u32)"
      using w b(5) by (subst (1 2) small_words(1)) simp_all
    then show ?thesis unfolding wn by (simp add: word_less_nat_alt not_less)
  qed
  have sz: "sz_group_beats (sizes_of tp) = int g * 2" "sz_result_values (sizes_of tp) = of_nat (r * g)"
    "sz_result_words (sizes_of tp) = of_nat ((r * g + 3) div 4)" by (simp_all add: sizes_of_def Let_def rg)
  have by16: "size_of_int (int k) * 16 = of_nat (k * 16)" for k by simp
  have sa: "size_of_int (int g * 2) * 16 = sz_act_bytes (sizes_of tp)"
  proof -
    have "size_of_int (int (g * 2)) * 16 = of_nat (g * 2 * 16)" by (rule by16)
    then show ?thesis by (simp add: sizes_of_def act_len_def Let_def rg)
  qed
  have ss: "size_of_int (int r) * 16 = sz_spu_result_bytes (sizes_of tp)" unfolding by16 by (simp add: sizes_of_def Let_def rg)
  have sw: "weight_window_bytes_for_rows (int r) (int g * 2) = sz_weight_bytes (sizes_of tp)"
    using window_bytes_tile(1)[OF b(1-4)] u(4) by (simp only: word_unat_eq_iff weight_len_def rg nat_int)
  have sr: "ucast (of_nat ((r * g + 3) div 4) :: u32) * 16 = sz_result_bytes (sizes_of tp)"
  proof -
    have "unat (of_nat ((r * g + 3) div 4) :: u32) = (r * g + 3) div 4" using b(5) by (intro small_words) simp
    then have c: "unat (ucast (of_nat ((r * g + 3) div 4) :: u32) :: u64) = (r * g + 3) div 4"
      by (subst unat_ucast_wide) simp_all
    have "unat (ucast (of_nat ((r * g + 3) div 4) :: u32) * 16 :: u64) = (r * g + 3) div 4 * 16"
      using b(5) c by (subst unat_mult_no_overflow) simp_all
    then show ?thesis using u(5) by (simp only: word_unat_eq_iff rg nat_int mult.commute[of 16])
  qed
  have room: "(r * g + 3) div 4 * 16 \<le> 65536" "0 < (r * g + 3) div 4"
  proof -
    have "4 \<le> r * g + 3" using b(10) by linarith
    then show "0 < (r * g + 3) div 4" by (simp only: div_greater_zero_iff) simp
    have "r * g + 3 \<le> 16387" using b(5) by linarith
    then have "(r * g + 3) div 4 \<le> 16387 div 4" by (rule div_le_mono)
    then show "(r * g + 3) div 4 * 16 \<le> 65536" by simp
  qed
  note dr = ddr_range_fits_value[OF ddr_ready_facts(2)[OF d]] ddr_ready_facts(1,4)[OF d]
  have ranges: "range_fits ACT_BASE (sz_act_bytes (sizes_of tp)) ACT_BASE ACT_END" "range_fits WEIGHT_BASE (sz_weight_bytes (sizes_of tp)) WEIGHT_BASE WEIGHT_END"
    "range_fits RESULT_BASE (sz_result_bytes (sizes_of tp)) RESULT_BASE RESULT_END" "range_fits SPU_OUT_BASE (sz_spu_result_bytes (sizes_of tp)) SPU_OUT_BASE SPU_OUT_END"
    "ddr_range_fits ACT_BASE (sz_act_bytes (sizes_of tp)) d" "ddr_range_fits WEIGHT_BASE (sz_weight_bytes (sizes_of tp)) d"
    "ddr_range_fits RESULT_BASE (sz_result_bytes (sizes_of tp)) d" "ddr_range_fits SPU_OUT_BASE (sz_spu_result_bytes (sizes_of tp)) d"
    using b(1,2,6-9) room dr(2,3) unfolding range_fits_value dr(1) u rg nat_int by simp_all
  have lim: "\<not> int r \<le> 0" "\<not> int r > vl_max_rows (rc_limits cfg)" "\<not> int g \<le> 0" "\<not> int g * 2 > vl_max_beats (rc_limits cfg)"
    using ok b(1,3) by (simp_all add: tile_ok_def rg)
  have whole: "\<lparr>sz_group_beats = int g * 2, sz_result_values = of_nat (r * g), sz_result_words = of_nat ((r * g + 3) div 4),
      sz_act_bytes = sz_act_bytes (sizes_of tp), sz_weight_bytes = sz_weight_bytes (sizes_of tp),
      sz_result_bytes = sz_result_bytes (sizes_of tp), sz_spu_result_bytes = sz_spu_result_bytes (sizes_of tp)\<rparr> = sizes_of tp"
    by (cases "sizes_of tp") (use sz in simp)
  show ?thesis
    unfolding tile_sizes_of_def rg Let_def values_ words sa ss sw sr using lim fits ranges
    by (simp only: if_False if_True simp_thms option.inject whole)
qed

subsection \<open>Staging a tile\<close>

definition shape_of :: "tile_place \<Rightarrow> scale_shape" where
  "shape_of tp = (let n = nat (tp_rows tp) * nat (tp_group_blocks tp) in
     \<lparr>ss_entries = of_nat n, ss_words = of_nat ((n + 3) div 4), ss_bytes = of_nat (16 * ((n + 3) div 4)),
       ss_tail_entries = of_nat (4 * ((n + 3) div 4) - n)\<rparr>)"

lemma scale_shape_of_tile:
  assumes ok: "tile_ok vl ops tp"
  shows "fpga_p2_checked_scale_shape (tp_rows tp) (tp_group_blocks tp) (sz_result_values (sizes_of tp)) (sz_result_words (sizes_of tp))
    (sz_result_bytes (sizes_of tp)) SPU_PARAM_BASE = Some (shape_of tp)"
proof -
  note n = tile_sizes_nat[OF ok] and u = sizes_unat[OF ok]
  have b: "tp_rows tp \<le> INT_MAX" "tp_group_blocks tp \<le> INT_MAX" "0 < tp_rows tp" "0 < tp_group_blocks tp" using ok by (simp_all add: tile_ok_def)
  have "nat (tp_rows tp) * nat (tp_group_blocks tp) < 2 ^ 32" using n(5) by (rule le_less_trans) simp
  moreover have "SPU_PARAM_BASE AND 15 = 0" by simp
  ultimately show ?thesis
    unfolding scale_shape_exact[OF b(1,2)] shape_of_def Let_def using b(3,4) u by (simp only: simp_thms)
qed

text \<open>The scale window, the padding of the last word included.\<close>

definition padded_scale_len :: "tile_place \<Rightarrow> nat" where
  "padded_scale_len tp = 16 * ((nat (tp_rows tp) * nat (tp_group_blocks tp) + 3) div 4)"

lemma padded_scale_facts:
  assumes "tile_ok vl ops tp"
  shows "scale_len tp \<le> padded_scale_len tp" "padded_scale_len tp \<le> 65536" "0 < padded_scale_len tp"
    "4 * (unat (ss_words (shape_of tp)) * 4) = padded_scale_len tp" "unat (ss_entries (shape_of tp)) = nat (tp_rows tp) * nat (tp_group_blocks tp)"
    "unat (sz_result_bytes (sizes_of tp)) = padded_scale_len tp"
proof -
  define n where "n = nat (tp_rows tp) * nat (tp_group_blocks tp)"
  have n: "0 < n" "n \<le> 16384" using tile_sizes_nat(5,6)[OF assms] by (simp_all add: n_def)
  have "scale_len tp = 4 * n" by (simp add: scale_len_def n_def)
  moreover have p: "padded_scale_len tp = 16 * ((n + 3) div 4)" by (simp add: padded_scale_len_def n_def)
  moreover have "(n + 3) div 4 \<le> 16387 div 4" using n(2) by (intro div_le_mono) simp
  moreover have "0 < (n + 3) div 4" using n(1) by (simp add: div_greater_zero_iff)
  ultimately show "scale_len tp \<le> padded_scale_len tp" "padded_scale_len tp \<le> 65536" "0 < padded_scale_len tp" by auto
  have "unat (of_nat ((n + 3) div 4) :: u64) = (n + 3) div 4" using n by (intro small_words) simp
  then show "4 * (unat (ss_words (shape_of tp)) * 4) = padded_scale_len tp" by (simp add: shape_of_def Let_def p flip: n_def)
  show "unat (ss_entries (shape_of tp)) = nat (tp_rows tp) * nat (tp_group_blocks tp)"
    using n(2) small_words(2)[of n] by (simp add: shape_of_def Let_def flip: n_def)
  show "unat (sz_result_bytes (sizes_of tp)) = padded_scale_len tp" by (simp only: sizes_unat(5)[OF assms] p n_def)
qed

lemma write_scales_put:
  assumes ok: "tile_ok vl ops tp" and d: "ddr_ready (en_ddr s)" and job: "\<not> tj_p2_residency_hit (job_at i s)"
    and fused: "fused \<Longrightarrow> staged 0x380000 (scale_len tp) (en_ddr s) = map (scale_image ops tp) [0..<scale_len tp]"
  shows "\<exists>f. write_scales ops tp SPU_PARAM_BASE (shape_of tp) fused i s
      = Some (True, s\<lparr>en_ddr := ddr_put 0x380000 (padded_scale_len tp) f (en_ddr s)\<rparr>) \<and> (\<forall>k < scale_len tp. f k = scale_image ops tp k)"
proof -
  define n where "n = nat (tp_rows tp) * nat (tp_group_blocks tp)"
  define c where "c = unat (ss_words (shape_of tp)) * 4"
  note p = padded_scale_facts[OF ok, folded n_def c_def] and t = tile_sizes_nat[OF ok, folded n_def]
  let ?tail = "\<lambda>w. fold (\<lambda>k w. w(k := 0)) [unat (ss_entries (shape_of tp))..<c] w"
  have room: "0x380000 + 4 * c \<le> length (dm_bytes (en_ddr s))" unfolding p(4) using p(2) ddr_ready_facts(4)[OF d] by linarith
  have tail: "window_byte (?tail w) k = window_byte w k" if "k < scale_len tp" for w k
  proof -
    have "k div 4 < n" using that t(15) by auto
    then show ?thesis unfolding p(5) fold_zero_tail by (simp add: window_byte_def)
  qed
  have put: "put_words 0x380000 c w (en_ddr s) = ddr_put 0x380000 (padded_scale_len tp) (window_byte w) (en_ddr s)" for w
    unfolding put_words_put[OF room] p(4) ..
  have base: "unat SPU_PARAM_BASE = 0x380000" by simp
  show ?thesis
  proof (cases fused)
    case True
    have "window_byte (ddr_words 0x380000 (en_ddr s)) k = scale_image ops tp k" if k: "k < scale_len tp" for k
    proof -
      have "staged 0x380000 (scale_len tp) (en_ddr s) ! k = scale_image ops tp k" unfolding fused[OF True] using k by simp
      then show ?thesis unfolding window_byte_words using k by (simp add: staged_def)
    qed
    then have "\<forall>k < scale_len tp. window_byte (?tail (ddr_words 0x380000 (en_ddr s))) k = scale_image ops tp k" using tail by simp
    moreover have "write_scales ops tp SPU_PARAM_BASE (shape_of tp) fused i s
        = Some (True, s\<lparr>en_ddr := ddr_put 0x380000 (padded_scale_len tp) (window_byte (?tail (ddr_words 0x380000 (en_ddr s)))) (en_ddr s)\<rparr>)"
      unfolding write_scales_def Let_def base c_def[symmetric] put using True by simp
    ultimately show ?thesis by blast
  next
    case False
    let ?w = "scale_table ops tp (weight_scale_bits ops tp) (uint (dm_base (en_ddr s)) + uint SPU_PARAM_BASE) (ddr_words 0x380000 (en_ddr s))"
    have "window_byte ?w k = scale_image ops tp k" if "k < scale_len tp" for k
    proof -
      have "k div 4 < n" using that t(15) by auto
      then show ?thesis unfolding scale_table_value[OF t(3)] scale_image_def n_def by (simp add: window_byte_def lay_def)
    qed
    then have "\<forall>k < scale_len tp. window_byte (?tail ?w) k = scale_image ops tp k" using tail by simp
    moreover have "write_scales ops tp SPU_PARAM_BASE (shape_of tp) fused i s
        = Some (True, s\<lparr>en_ddr := ddr_put 0x380000 (padded_scale_len tp) (window_byte (?tail ?w)) (en_ddr s)\<rparr>)"
      unfolding write_scales_def Let_def base c_def[symmetric] put using False job by simp
    ultimately show ?thesis by blast
  qed
qed

lemma pack_admitted:
  assumes ok: "tile_ok vl ops tp" and d: "ddr_ready d"
  shows "direct_pack_admitted tp WEIGHT_BASE (sz_weight_bytes (sizes_of tp)) d"
proof -
  note n = tile_sizes_nat[OF ok] and u = sizes_unat[OF ok]
  obtain r g where rg: "tp_rows tp = int r" "tp_group_blocks tp = int g" using n(7,8) by blast
  have b: "0 < r" "r \<le> 256" "0 < g" "g \<le> 64" "weight_len tp \<le> 524288" "0 < weight_len tp"
    "weight_len tp = 4 * ((r + 1) div 2 * (g * 16))" using n by (simp_all add: rg)
  have r1: "(size_of_int (int r) + 1) div 2 = (of_nat ((r + 1) div 2) :: u64)"
  proof -
    have "unat (of_nat r :: u64) = r" using b(2) by (intro small_words) simp
    then have "unat ((of_nat r :: u64) + 1) = r + 1" using b(2) by (subst unat_add_no_overflow) simp_all
    then have "unat (((of_nat r :: u64) + 1) div 2) = (r + 1) div 2" by (simp add: unat_div)
    moreover have "unat (of_nat ((r + 1) div 2) :: u64) = (r + 1) div 2" using b(2) by (intro small_words) simp
    ultimately show ?thesis by (simp only: word_unat_eq_iff word_of_nat_int)
  qed
  define p where "p = (r + 1) div 2"
  have p: "0 < p" "p \<le> 128" using b(1,2) by (auto simp: p_def)
  have g2: "size_of_int (int g * 2) = of_nat (g * 2)" by simp
  have up: "unat (of_nat p :: u64) = p" "unat (of_nat (g * 2) :: u64) = g * 2" using p b(4) by (intro small_words; simp)+
  have pg: "p * (g * 2) \<le> 16384" using mult_le_mono[of p 128 "g * 2" 128] p b(4) by simp
  have um: "unat (of_nat p * of_nat (g * 2) :: u64) = p * (g * 2)" using pg up by (subst unat_mult_no_overflow) simp_all
  have um32: "unat (of_nat p * of_nat (g * 2) * 32 :: u64) = p * (g * 2) * 32" using pg um by (subst unat_mult_no_overflow) simp_all
  have "g * 2 * p \<le> 18446744073709551615" using pg by (simp only: mult.commute[of _ p])
  then have "g * 2 \<le> 18446744073709551615 div p" using p(1) by (simp only: less_eq_div_iff_mult_less_eq)
  then have c1: "\<not> (of_nat (g * 2) :: u64) > SIZE_MAX div of_nat p" by (simp add: word_less_nat_alt unat_div up del: of_nat_mult)
  have c0: "\<not> (of_nat p :: u64) > 1073741823" using p by (simp add: word_less_nat_alt up)
  have c2: "\<not> (of_nat p * of_nat (g * 2) :: u64) > SIZE_MAX div 32" proof -
    have "\<not> 576460752303423487 < p * (g * 2)" using pg by linarith
    then show ?thesis by (simp add: word_less_nat_alt unat_div um del: of_nat_mult mult_less_cancel2)
  qed
  have sw: "weight_window_bytes_for_rows (int r) (int g * 2) = sz_weight_bytes (sizes_of tp)"
    using window_bytes_tile(1)[OF b(1-4)] u(4) by (simp only: word_unat_eq_iff weight_len_def rg nat_int)
  have c3: "fpga_weight_layout_payload_bytes (int r) (int g * 2) = Some (sz_weight_bytes (sizes_of tp))"
    using window_bytes_tile(2)[OF b(1-4)] sw by simp
  have c4: "sz_weight_bytes (sizes_of tp) = of_nat p * of_nat (g * 2) * 32"
    unfolding word_unat_eq_iff u(4) um32 b(7) p_def[symmetric] by simp
  have c5: "\<not> sz_weight_bytes (sizes_of tp) > 4294967295 - ucast WEIGHT_BASE" using b(5) by (simp add: word_less_nat_alt u(4))
  have c6: "range_fits WEIGHT_BASE (sz_weight_bytes (sizes_of tp)) WEIGHT_BASE WEIGHT_END" "ddr_range_fits WEIGHT_BASE (sz_weight_bytes (sizes_of tp)) d"
    using b(5,6) ddr_ready_facts(1,4)[OF d] unfolding range_fits_value ddr_range_fits_value[OF ddr_ready_facts(2)[OF d]] u(4) by simp_all
  have c7: "\<not> tp_row0 tp < 0" "\<not> tp_row0 tp > INT64_MAX - int r" "\<not> tp_k_block0 tp < 0" "\<not> tp_k_block0 tp > INT64_MAX - int g"
    using ok b(2,4) by (auto simp: tile_ok_def)
  show ?thesis
    unfolding direct_pack_admitted_def Let_def rg r1 g2 c3 p_def[symmetric] using c0 c1 c2 c4 c5 c6 c7 by (simp only: simp_thms)
qed

lemma stage_weights_put:
  assumes ok: "tile_ok vl ops tp" and d: "ddr_ready (en_ddr s)"
    and job: "\<not> tj_p2_residency_hit (job_at i s)" "\<not> qj_weight_cache_hit (job_at i s)" "tj_weight_bytes (job_at i s) = sz_weight_bytes (sizes_of tp)"
    and worker: "packs_in_parallel cfg tp \<Longrightarrow> \<not> (reuse \<and> ws_bytes (en_staging s) = sz_weight_bytes (sizes_of tp)) \<Longrightarrow> hw_worker_ok hw"
    and kept: "reuse \<Longrightarrow> staged 0x100000 (weight_len tp) (en_ddr s) = map (weight_image ops tp) [0..<weight_len tp]"
  shows "\<exists>d'. stage_weights hw cfg ops tp WEIGHT_BASE SPU_PARAM_BASE (shape_of tp) reuse i s = Some (True, s\<lparr>en_ddr := d'\<rparr>)
    \<and> ddr_ready d' \<and> dm_base d' = dm_base (en_ddr s)
    \<and> staged 0x100000 (weight_len tp) d' = map (weight_image ops tp) [0..<weight_len tp]
    \<and> staged 0x380000 (scale_len tp) d' = map (scale_image ops tp) [0..<scale_len tp]"
proof -
  note n = tile_sizes_nat[OF ok] and p = padded_scale_facts[OF ok] and u = sizes_unat[OF ok]
  let ?put = "\<lambda>f d. ddr_put 0x380000 (padded_scale_len tp) f d"
  have last_step: "ddr_ready (?put f e) \<and> dm_base (?put f e) = dm_base e
      \<and> staged 0x100000 (weight_len tp) (?put f e) = map (weight_image ops tp) [0..<weight_len tp]
      \<and> staged 0x380000 (scale_len tp) (?put f e) = map (scale_image ops tp) [0..<scale_len tp]"
    if e: "ddr_ready e" "staged 0x100000 (weight_len tp) e = map (weight_image ops tp) [0..<weight_len tp]"
      and f: "\<forall>k < scale_len tp. f k = scale_image ops tp k" for e f
  proof -
    have room: "0x380000 + padded_scale_len tp \<le> length (dm_bytes e)" using p(2) ddr_ready_facts(4)[OF e(1)] by linarith
    have w: "staged 0x100000 (weight_len tp) (?put f e) = staged 0x100000 (weight_len tp) e"
      by (rule staged_put(2)[OF room]) (use n(11) ddr_ready_facts(4)[OF e(1)] in simp_all)
    have "staged 0x380000 (scale_len tp) (?put f e) = map (scale_image ops tp) [0..<scale_len tp]"
      using f p(1) room by (auto simp: staged_def)
    then show ?thesis using e w by simp
  qed
  show ?thesis
  proof (cases "reuse \<and> ws_bytes (en_staging s) = sz_weight_bytes (sizes_of tp)")
    case True
    have run: "stage_weights hw cfg ops tp WEIGHT_BASE SPU_PARAM_BASE (shape_of tp) reuse i s = write_scales ops tp SPU_PARAM_BASE (shape_of tp) False i s"
      unfolding stage_weights_def Let_def using job True by simp
    obtain f where f: "write_scales ops tp SPU_PARAM_BASE (shape_of tp) False i s = Some (True, s\<lparr>en_ddr := ?put f (en_ddr s)\<rparr>)"
      "\<forall>k < scale_len tp. f k = scale_image ops tp k" using write_scales_put[OF ok d job(1), of False] by blast
    show ?thesis using run f last_step[OF d kept f(2)] True by auto
  next
    case False
    have pv: "direct_pack hw cfg ops tp WEIGHT_BASE SPU_PARAM_BASE (nat (tp_rows tp) * nat (tp_group_blocks tp)) (sz_weight_bytes (sizes_of tp)) (en_ddr s)
        = Some (packs_in_parallel cfg tp, tile_staged ops tp (packs_in_parallel cfg tp) (en_ddr s))"
      by (rule direct_pack_value[OF ok d u(4)]) (rule worker[OF _ False])
    have par: "(case direct_pack hw cfg ops tp WEIGHT_BASE SPU_PARAM_BASE (unat (ss_entries (shape_of tp))) (sz_weight_bytes (sizes_of tp)) (en_ddr s) of
        None \<Rightarrow> None | Some (fused, d) \<Rightarrow> write_scales ops tp SPU_PARAM_BASE (shape_of tp) fused i (s\<lparr>en_ddr := d\<rparr>))
      = write_scales ops tp SPU_PARAM_BASE (shape_of tp) (packs_in_parallel cfg tp) i
          (s\<lparr>en_ddr := tile_staged ops tp (packs_in_parallel cfg tp) (en_ddr s)\<rparr>)"
      unfolding p(5) pv by simp
    let ?e = "tile_staged ops tp (packs_in_parallel cfg tp) (en_ddr s)"
    have e: "ddr_ready ?e" "dm_base ?e = dm_base (en_ddr s)" using d by (simp_all add: tile_staged_def Let_def)
    have room: "0x100000 + weight_len tp \<le> length (dm_bytes (en_ddr s))" "0x380000 + scale_len tp \<le> length (dm_bytes (en_ddr s))"
      using n(11,13) ddr_ready_facts(4)[OF d] by linarith+
    have es: "packs_in_parallel cfg tp \<Longrightarrow> staged 0x380000 (scale_len tp) ?e = map (scale_image ops tp) [0..<scale_len tp]"
      using staged_put(1)[where p = "0x380000" and n = "scale_len tp" and d = "ddr_put 0x100000 (weight_len tp) (weight_image ops tp) (en_ddr s)"] room
      by (simp add: tile_staged_def Let_def)
    have ew: "staged 0x100000 (weight_len tp) ?e = map (weight_image ops tp) [0..<weight_len tp]"
      using staged_put(1)[OF room(1), where f = "weight_image ops tp"] room n(11)
        staged_put(2)[where p = "0x380000" and n = "scale_len tp" and d = "ddr_put 0x100000 (weight_len tp) (weight_image ops tp) (en_ddr s)"
          and q = "0x100000" and m = "weight_len tp"]
      by (simp add: tile_staged_def Let_def)
    have run: "stage_weights hw cfg ops tp WEIGHT_BASE SPU_PARAM_BASE (shape_of tp) reuse i s
        = write_scales ops tp SPU_PARAM_BASE (shape_of tp) (packs_in_parallel cfg tp) i (s\<lparr>en_ddr := ?e\<rparr>)"
      unfolding stage_weights_def Let_def job(3) par using job(1,2) False pack_admitted[OF ok d] by simp
    have e': "ddr_ready (en_ddr (s\<lparr>en_ddr := ?e\<rparr>))" "\<not> tj_p2_residency_hit (job_at i (s\<lparr>en_ddr := ?e\<rparr>))" using e job(1) by simp_all
    obtain f where f: "write_scales ops tp SPU_PARAM_BASE (shape_of tp) (packs_in_parallel cfg tp) i (s\<lparr>en_ddr := ?e\<rparr>)
        = Some (True, s\<lparr>en_ddr := ?e, en_ddr := ?put f (en_ddr (s\<lparr>en_ddr := ?e\<rparr>))\<rparr>)"
      "\<forall>k < scale_len tp. f k = scale_image ops tp k"
      using write_scales_put[OF ok e', of "packs_in_parallel cfg tp"] es by auto
    show ?thesis using run f last_step[OF e(1) ew f(2)] e(2) by auto
  qed
qed

end
