(* ===== verification/Fpga_Answer.thy ===== *)
theory Fpga_Answer
  imports Fpga_Steps
begin

text \<open>
  The device under the steps of a job: which bank a job uses, what waits and descriptor writes leave alone on
  any device that keeps its BANK, ROWS and COL_BEATS registers, and a device that answers, on which every wait
  and every read-back succeeds.
\<close>

subsection \<open>Any device\<close>

definition keeps :: "hardware \<Rightarrow> bool" where
  "keeps hw \<longleftrightarrow> (\<forall>r. \<forall>off \<in> {REG_BANK, REG_ROWS, REG_COL_BEATS}. hw_regs hw r off = r off)"

text \<open>The bank in effect after job bank \<open>b\<close> was selected.\<close>

definition sel :: "device \<Rightarrow> int \<Rightarrow> nat" where
  "sel dv b = (if dv_pingpong_supported dv then nat (b AND 1) else unat (dv_regs dv REG_BANK AND 1))"

lemma keeps_regs:
  assumes "keeps hw"
  shows "hw_regs hw r REG_BANK = r REG_BANK" "hw_regs hw r REG_ROWS = r REG_ROWS" "hw_regs hw r REG_COL_BEATS = r REG_COL_BEATS"
  using assms by (simp_all add: keeps_def)

definition calm :: "device \<Rightarrow> device \<Rightarrow> bool" where
  "calm dv dv' \<longleftrightarrow> dv_pingpong_supported dv' = dv_pingpong_supported dv \<and> dv_descriptor_supported dv' = dv_descriptor_supported dv
     \<and> (\<forall>off \<in> {REG_BANK, REG_ROWS, REG_COL_BEATS}. dv_regs dv' off = dv_regs dv off)"

lemma calm_refl [simp]: "calm dv dv"
  by (simp add: calm_def)

lemma calm_trans: "calm a b \<Longrightarrow> calm b c \<Longrightarrow> calm a c"
  by (simp add: calm_def)

lemma calm_fence: "keeps hw \<Longrightarrow> calm dv dv' \<Longrightarrow> calm dv (mmio_fence (hw_regs hw) dv')"
  by (simp add: calm_def mmio_fence_def keeps_regs)

lemma calm_write: "off \<notin> {REG_BANK, REG_ROWS, REG_COL_BEATS} \<Longrightarrow> calm dv dv' \<Longrightarrow> calm dv (vpu_wr32 off v dv')"
  by (auto simp: calm_def vpu_wr32_def)

lemma calm_job_id: "calm dv dv' \<Longrightarrow> calm dv (snd (fpga_next_job_id dv'))"
  by (simp add: calm_def fpga_next_job_id_def Let_def)

lemma calm_descriptor: "calm dv dv' \<Longrightarrow> calm dv (vpu_write_tile_descriptor t a b f dv')"
  by (simp add: vpu_write_tile_descriptor_def calm_write)

lemma calm_wait_done: "keeps hw \<Longrightarrow> calm dv dv' \<Longrightarrow> calm dv (snd (wait_vpu_done hw n dv'))"
  by (induction hw n dv' rule: wait_vpu_done.induct) (subst wait_vpu_done.simps, auto simp: Let_def calm_fence split: nat.splits)

lemma calm_wait_quiet: "keeps hw \<Longrightarrow> calm dv dv' \<Longrightarrow> calm dv (snd (wait_spu_stream_quiescent hw n dv'))"
  by (induction hw n dv' rule: wait_spu_stream_quiescent.induct)
    (subst wait_spu_stream_quiescent.simps, auto simp: Let_def calm_fence split: nat.splits)

lemma calm_wait_outputs: "keeps hw \<Longrightarrow> calm dv dv' \<Longrightarrow> calm dv (snd (wait_spu_stream_outputs hw job n dv'))"
  by (induction hw job n dv' rule: wait_spu_stream_outputs.induct)
    (subst wait_spu_stream_outputs.simps, auto simp: Let_def calm_fence calm_wait_quiet split: nat.splits)

lemma calm_finished: "keeps hw \<Longrightarrow> calm dv dv' \<Longrightarrow> calm dv (snd (vpu_finished hw dv'))"
  using calm_wait_done[of hw dv dv' "hw_polls hw"] by (cases "wait_vpu_done hw (hw_polls hw) dv'") (auto simp: vpu_finished_def)

lemma calm_measure: "keeps hw \<Longrightarrow> calm dv dv' \<Longrightarrow> calm dv (snd (fpga_measure_q8_compute_completion hw job dv'))"
  using calm_finished[of hw dv dv'] calm_wait_outputs[of hw dv "snd (vpu_finished hw dv')" job "hw_polls hw"]
  by (auto simp: fpga_measure_q8_compute_completion_def split: prod.splits)

lemma calm_commit: "keeps hw \<Longrightarrow> calm dv dv' \<Longrightarrow> calm dv (snd (fpga_commit_p2_dma_filling_descriptor (hw_regs hw) t dv'))"
  by (simp add: fpga_commit_p2_dma_filling_descriptor_def Let_def calm_fence)

lemma calm_post: "keeps hw \<Longrightarrow> calm dv dv' \<Longrightarrow> calm dv (snd (fpga_write_post_spu_descriptor (hw_regs hw) t a b f x y dv'))"
  by (simp add: fpga_write_post_spu_descriptor_def Let_def post_spu_descriptor_write_word_def calm_fence calm_write calm_descriptor)

lemmas calm_rules = calm_fence calm_write calm_job_id calm_descriptor calm_finished calm_measure calm_commit calm_post
  calm_wait_quiet calm_wait_outputs

lemma sel_calm: "calm dv dv' \<Longrightarrow> sel dv' = sel dv"
  by (simp add: fun_eq_iff sel_def calm_def)

lemma sel_bank: "sel dv b < 2"
proof -
  have "unat (w AND 1) \<le> unat (1 :: u32)" for w :: u32 unfolding word_le_nat_alt[symmetric] by (rule word_and_le1)
  then have "unat (w AND 1) < 2" for w :: u32 by (simp add: less_Suc_eq_le numeral_2_eq_2)
  then show ?thesis using bank_bit[of b] by (auto simp: sel_def)
qed

text \<open>After the selection of a bank the windows of the device are those of that bank.\<close>

lemma bank_selected: "unat (dv_regs (vpu_select_banks b b dv) REG_BANK AND 1) = sel dv b"
proof (cases "dv_pingpong_supported dv")
  case True
  have "(word_of_int c OR push_bit 1 (word_of_int c) :: u32) AND 1 = word_of_int c" if "c = 0 \<or> c = 1" for c :: int
    using that by auto
  then have "dv_regs (vpu_select_banks b b dv) REG_BANK AND 1 = word_of_int (b AND 1)"
    using True bank_bit[of b] by (simp add: vpu_select_banks_def vpu_wr32_def)
  then show ?thesis using True bank_bit[of b] by (auto simp: sel_def)
qed (simp add: vpu_select_banks_def sel_def)

lemma sel_select [simp]: "sel (vpu_select_banks a c dv) = sel dv"
  by (auto simp: fun_eq_iff sel_def vpu_select_banks_def vpu_wr32_def)

lemma select_fields [simp]:
  "dv_pingpong_supported (vpu_select_banks a c dv) = dv_pingpong_supported dv"
  "dv_descriptor_supported (vpu_select_banks a c dv) = dv_descriptor_supported dv"
  "off \<noteq> REG_BANK \<Longrightarrow> dv_regs (vpu_select_banks a c dv) off = dv_regs dv off"
  by (simp_all add: vpu_select_banks_def vpu_wr32_def)

subsection \<open>A device that answers\<close>

text \<open>
  At the fence after START such a device finishes the job: the status shows it done in its bank, the counters of
  the stream advance by its rows and blocks and name it. Otherwise its registers rest.
\<close>

abbreviation (input) descriptor_regs :: "u32 set" where
  "descriptor_regs \<equiv> {REG_BANK, REG_JOB_ID, REG_SLOT_STATE, REG_TENSOR_ID, REG_ROW0, REG_K_BLOCK0, REG_GROUP_BLOCKS,
     REG_TOKEN_ID, REG_DESC_FLAGS, REG_ROWS, REG_COL_BEATS, REG_STREAM_MODE, REG_SPU_CTRL, REG_SPU_STREAM_DROP, REG_SPU_STREAM_ERROR}"

definition answers_start :: "(u32 \<Rightarrow> u32) \<Rightarrow> (u32 \<Rightarrow> u32) \<Rightarrow> bool" where
  "answers_start r r' \<longleftrightarrow> r' REG_STATUS AND 5 = 1 \<and> drop_bit 9 (r' REG_BANK_STAT) AND 1 = r REG_BANK AND 1
     \<and> r' REG_DONE_JOB = r REG_JOB_ID \<and> r' REG_SPU_STREAM_OUT = r REG_SPU_STREAM_OUT + r REG_ROWS
     \<and> r' REG_SPU_STREAM_COUNT = r REG_SPU_STREAM_COUNT + r REG_ROWS * r REG_GROUP_BLOCKS
     \<and> r' REG_SPU_STREAM_DONE = r REG_SPU_STREAM_DONE + 1 \<and> r' REG_SPU_STREAM_LAST_JOB = r REG_JOB_ID
     \<and> r' REG_SPU_STREAM_LAST_BANK AND 1 = r REG_BANK AND 1"

definition rests :: "(u32 \<Rightarrow> u32) \<Rightarrow> (u32 \<Rightarrow> u32) \<Rightarrow> bool" where
  "rests r r' \<longleftrightarrow> r' REG_STATUS = r REG_STATUS \<and> drop_bit 9 (r' REG_BANK_STAT) AND 1 = drop_bit 9 (r REG_BANK_STAT) AND 1
     \<and> r' REG_DONE_JOB = r REG_DONE_JOB \<and> r' REG_SPU_STREAM_OUT = r REG_SPU_STREAM_OUT
     \<and> r' REG_SPU_STREAM_COUNT = r REG_SPU_STREAM_COUNT \<and> r' REG_SPU_STREAM_DONE = r REG_SPU_STREAM_DONE
     \<and> r' REG_SPU_STREAM_LAST_JOB = r REG_SPU_STREAM_LAST_JOB \<and> r' REG_SPU_STREAM_LAST_BANK = r REG_SPU_STREAM_LAST_BANK"

definition answers :: "hardware \<Rightarrow> bool" where
  "answers hw \<longleftrightarrow> hw_timer_ok hw \<and> hw_worker_ok hw \<and> (\<forall>r. let r' = hw_regs hw r in
     (\<forall>off \<in> descriptor_regs. r' off = r off) \<and> r' REG_BANK_STAT AND 3 = r REG_BANK AND 3
     \<and> r' REG_SPU_STREAM_STATUS AND 0x10 \<noteq> 0 \<and> r' REG_CTRL = 0
     \<and> (r REG_CTRL = CTRL_START \<longrightarrow> answers_start r r') \<and> (r REG_CTRL = 0 \<longrightarrow> rests r r'))"

text \<open>The device between jobs.\<close>

definition up :: "device \<Rightarrow> bool" where
  "up dv \<longleftrightarrow> dv_pingpong_supported dv \<and> dv_descriptor_supported dv \<and> dv_regs dv REG_SPU_STREAM_STATUS AND 0x10 \<noteq> 0"

text \<open>The device with a finished job whose results were not collected yet.\<close>

definition finished :: "q8_job \<Rightarrow> device \<Rightarrow> bool" where
  "finished job dv \<longleftrightarrow> up dv \<and> dv_regs dv REG_CTRL = 0 \<and> dv_regs dv REG_STATUS AND 5 = 1
     \<and> drop_bit 9 (dv_regs dv REG_BANK_STAT) AND 1 = word_of_int (tj_bank job AND 1) \<and> dv_regs dv REG_DONE_JOB = tj_job_id job
     \<and> dv_regs dv REG_SPU_STREAM_OUT = qj_out_before job + word_of_int (tj_rows job)
     \<and> dv_regs dv REG_SPU_STREAM_COUNT = qj_count_before job + word_of_int (tj_rows job) * word_of_int (tj_group_blocks job)
     \<and> dv_regs dv REG_SPU_STREAM_DONE = qj_done_before job + 1 \<and> dv_regs dv REG_SPU_STREAM_LAST_JOB = tj_job_id job
     \<and> dv_regs dv REG_SPU_STREAM_LAST_BANK AND 1 = word_of_int (tj_bank job AND 1)
     \<and> dv_regs dv REG_SPU_STREAM_DROP = qj_drop_before job \<and> dv_regs dv REG_SPU_STREAM_ERROR = qj_error_before job"

lemma answers_regs:
  assumes "answers hw"
  shows "off \<in> descriptor_regs \<Longrightarrow> hw_regs hw r off = r off" "hw_regs hw r REG_BANK_STAT AND 3 = r REG_BANK AND 3"
    "hw_regs hw r REG_SPU_STREAM_STATUS AND 0x10 \<noteq> 0" "hw_regs hw r REG_CTRL = 0"
    "r REG_CTRL = CTRL_START \<Longrightarrow> answers_start r (hw_regs hw r)" "r REG_CTRL = 0 \<Longrightarrow> rests r (hw_regs hw r)"
    "hw_timer_ok hw" "hw_worker_ok hw" "keeps hw"
proof -
  show "off \<in> descriptor_regs \<Longrightarrow> hw_regs hw r off = r off" using assms unfolding answers_def Let_def by blast
qed (use assms in \<open>simp_all add: answers_def keeps_def Let_def\<close>)

lemma up_fence: "answers hw \<Longrightarrow> up dv \<Longrightarrow> up (mmio_fence (hw_regs hw) dv)"
  by (simp add: up_def mmio_fence_def answers_regs)

lemma up_write: "off \<noteq> REG_SPU_STREAM_STATUS \<Longrightarrow> up dv \<Longrightarrow> up (vpu_wr32 off v dv)"
  by (simp add: up_def vpu_wr32_def)

lemma up_select: "up dv \<Longrightarrow> up (vpu_select_banks a b dv)"
  by (simp add: up_def)

lemma up_job_id: "up dv \<Longrightarrow> up (snd (fpga_next_job_id dv))"
  by (simp add: up_def fpga_next_job_id_def Let_def)

lemma up_descriptor: "up dv \<Longrightarrow> up (vpu_write_tile_descriptor t a b f dv)"
  by (simp add: vpu_write_tile_descriptor_def up_write)

lemma up_post: "answers hw \<Longrightarrow> up dv \<Longrightarrow> up (snd (fpga_write_post_spu_descriptor (hw_regs hw) t a b f x y dv))"
  by (simp add: fpga_write_post_spu_descriptor_def Let_def post_spu_descriptor_write_word_def up_fence up_write up_descriptor)

lemma up_commit: "answers hw \<Longrightarrow> up dv \<Longrightarrow> up (snd (fpga_commit_p2_dma_filling_descriptor (hw_regs hw) t dv))"
  by (simp add: fpga_commit_p2_dma_filling_descriptor_def Let_def up_fence)

lemmas up_rules = up_fence up_write up_select up_job_id up_descriptor up_post up_commit

lemma quiet: "up dv \<Longrightarrow> wait_spu_stream_quiescent hw n dv = (True, dv)"
  by (subst wait_spu_stream_quiescent.simps) (simp add: up_def vpu_rd32_def)

lemma finished_fence: "answers hw \<Longrightarrow> finished job dv \<Longrightarrow> finished job (mmio_fence (hw_regs hw) dv)"
  using answers_regs(6)[of hw "dv_regs dv"] by (simp add: finished_def up_def mmio_fence_def answers_regs rests_def)

lemma finished_job_id: "finished job dv \<Longrightarrow> finished job (snd (fpga_next_job_id dv))"
  by (simp add: finished_def up_def fpga_next_job_id_def Let_def)

lemma status_bits:
  fixes w :: u32
  assumes "w AND 5 = 1"
  shows "w AND 4 = 0" "w AND 1 \<noteq> 0"
proof -
  have "w AND 4 = (w AND 5) AND 4" "w AND 1 = (w AND 5) AND 1" by (simp_all add: and.assoc)
  then show "w AND 4 = 0" "w AND 1 \<noteq> 0" unfolding assms by simp_all
qed

lemma finished_waits:
  assumes "answers hw" "finished job dv"
  shows "fpga_measure_q8_compute_completion hw job dv = (True, dv)" "vpu_finished hw dv = (True, dv)"
    "vpu_verify_done_job (tile_of job) dv" "wait_spu_stream_outputs hw job n dv = (True, dv)"
proof -
  have f: "up dv" "dv_regs dv REG_STATUS AND 5 = 1" using assms(2) by (simp_all add: finished_def)
  have d: "wait_vpu_done hw k dv = (Some (dv_regs dv REG_STATUS), dv)" for k
    by (subst wait_vpu_done.simps) (simp add: vpu_rd32_def status_bits[OF f(2)])
  then show v: "vpu_finished hw dv = (True, dv)" by (simp add: vpu_finished_def)
  have w: "wait_spu_stream_outputs hw job k dv = (True, dv)" for k
    using assms(2) by (subst wait_spu_stream_outputs.simps) (simp add: finished_def vpu_rd32_def quiet[OF f(1)])
  then show "wait_spu_stream_outputs hw job n dv = (True, dv)" .
  show "fpga_measure_q8_compute_completion hw job dv = (True, dv)"
    by (simp add: fpga_measure_q8_compute_completion_def v w answers_regs[OF assms(1)])
  have "uint (word_of_int (tj_bank job AND 1) :: u32) = tj_bank job AND 1" using bank_bit[of "tj_bank job"] by auto
  then show "vpu_verify_done_job (tile_of job) dv"
    using assms(2) by (simp add: vpu_verify_done_job_def finished_def vpu_rd32_def Let_def tile_job.defs)
qed

text \<open>The read-backs: before the input copies, and when the hardware is released.\<close>

lemma commit_passes:
  assumes "answers hw" "up dv" "dv_regs dv REG_BANK = expected_bank_word (tj_bank t)"
  shows "fst (fpga_commit_p2_dma_filling_descriptor (hw_regs hw) t (vpu_write_tile_descriptor t SLOT_DMA_FILLING SLOT_FREE 0x101 dv))"
  using assms(2,3) answers_regs(1,2)[OF assms(1)]
  by (simp add: fpga_commit_p2_dma_filling_descriptor_def Let_def vpu_write_tile_descriptor_def vpu_wr32_def mmio_fence_def
      descriptor_matches_def read_descriptor_def expected_descriptor_def vpu_rd32_def up_def bank_words(2))

lemma release_passes:
  assumes "answers hw" "dv_regs dv REG_BANK = expected_bank_word (tj_bank t)"
  shows "fst (fpga_write_post_spu_descriptor (hw_regs hw) t a b f x y dv)"
  using assms(2) answers_regs(1,2)[OF assms(1)]
  by (simp add: fpga_write_post_spu_descriptor_def Let_def post_spu_descriptor_write_word_def vpu_wr32_def mmio_fence_def
      descriptor_matches_def read_descriptor_def expected_descriptor_def vpu_rd32_def bank_words(2))

lemma selected_word: "dv_pingpong_supported dv \<Longrightarrow> dv_regs (vpu_select_banks b b dv) REG_BANK = expected_bank_word b"
  by (simp add: vpu_select_banks_def vpu_wr32_def expected_bank_word_def Let_def)

end
