(* ===== verification/Fpga_Run.thy ===== *)
theory Fpga_Run
  imports Fpga_Staging Fpga_Answer
begin

text \<open>
  The steps of one job, each with what it leaves behind: preparing stages the inputs, submitting brings them
  into the windows of the selected bank and starts the device on them, draining brings the result rows back,
  accumulating adds them. The staging and the windows are those of theory \<open>Fpga_Window\<close>.
\<close>

subsection \<open>Preparing\<close>

definition holds_inputs :: "operands \<Rightarrow> tile_place \<Rightarrow> ddr_map \<Rightarrow> bool" where
  "holds_inputs ops tp d \<longleftrightarrow> staged 0x10000 (act_len tp) d = ti_act (place_input ops tp)
     \<and> staged 0x100000 (weight_len tp) d = ti_weight (place_input ops tp) \<and> staged 0x380000 (scale_len tp) d = ti_scale (place_input ops tp)"

text \<open>The note on the staged weights is true: what it describes is in the window.\<close>

definition staging_ok :: "operands \<Rightarrow> 'f engine \<Rightarrow> bool" where
  "staging_ok ops s \<longleftrightarrow> (\<forall>vl tp. tile_ok vl ops tp \<longrightarrow> staging_holds ops tp WEIGHT_BASE SPU_PARAM_BASE s
     \<longrightarrow> staged 0x100000 (weight_len tp) (en_ddr s) = map (weight_image ops tp) [0..<weight_len tp])"

text \<open>What a preparation does to the device: it lets it run.\<close>

definition runs_on :: "bool \<Rightarrow> device \<Rightarrow> device \<Rightarrow> bool" where
  "runs_on T dv dv' \<longleftrightarrow> calm dv dv' \<and> (T \<longrightarrow> (up dv \<longrightarrow> up dv') \<and> (\<forall>job. finished job dv \<longrightarrow> finished job dv'))"

lemma runs_on_fence: "keeps hw \<Longrightarrow> (T \<Longrightarrow> answers hw) \<Longrightarrow> runs_on T dv dv' \<Longrightarrow> runs_on T dv (mmio_fence (hw_regs hw) dv')"
  by (auto simp: runs_on_def calm_fence up_fence finished_fence)

lemma runs_on_job_id: "runs_on T dv (snd (fpga_next_job_id dv))"
  by (simp add: runs_on_def calm_job_id up_job_id finished_job_id)

lemma weight_image_same:
  assumes "tp_row0 tp = tp_row0 tp'" "tp_rows tp = tp_rows tp'" "tp_k_block0 tp = tp_k_block0 tp'" "tp_group_blocks tp = tp_group_blocks tp'"
  shows "weight_image ops tp = weight_image ops tp'" "weight_len tp = weight_len tp'"
  using assms by (simp_all add: fun_eq_iff weight_image_def window_byte_def tile_word_def tile_lanes_def odd_lanes_def row_lanes_def
      whole_tile_def pack_task_of_def Let_def beat_word_def pack_i8x4_le_def weight_len_def)

lemma staging_published:
  assumes "staged 0x100000 (weight_len tp) (en_ddr s) = map (weight_image ops tp) [0..<weight_len tp]"
    and "ws_row0 (en_staging s) = tp_row0 tp" "ws_rows (en_staging s) = tp_rows tp"
      "ws_k_block0 (en_staging s) = tp_k_block0 tp" "ws_group_blocks (en_staging s) = tp_group_blocks tp"
  shows "staging_ok ops s"
  unfolding staging_ok_def
proof (intro allI impI)
  fix vl tp' assume "staging_holds ops tp' WEIGHT_BASE SPU_PARAM_BASE s"
  then have "tp_row0 tp' = tp_row0 tp" "tp_rows tp' = tp_rows tp" "tp_k_block0 tp' = tp_k_block0 tp" "tp_group_blocks tp' = tp_group_blocks tp"
    using assms(2-5) by (simp_all add: staging_holds_def Let_def)
  note e = weight_image_same[OF this]
  show "staged 0x100000 (weight_len tp') (en_ddr s) = map (weight_image ops tp') [0..<weight_len tp']" unfolding e by (rule assms(1))
qed

lemma direct_pack_stuck:
  assumes ok: "tile_ok vl ops tp" and "unat wb = weight_len tp" and "packs_in_parallel cfg tp" "\<not> hw_worker_ok hw"
  shows "direct_pack hw cfg ops tp WEIGHT_BASE SPU_PARAM_BASE entries wb d = None"
proof -
  have "262144 \<le> wb" using assms(2,3) by (simp add: packs_in_parallel_def word_le_nat_alt)
  then show ?thesis using assms(3,4)
    by (cases "ddr_checked_u32_ptr WEIGHT_BASE wb d") (simp_all add: direct_pack_def packs_in_parallel_def Let_def)
qed

lemma wp_stage_weights:
  assumes ok: "tile_ok vl ops tp" and d: "ddr_ready (en_ddr s)"
    and job: "\<not> tj_p2_residency_hit (job_at i s)" "\<not> qj_weight_cache_hit (job_at i s)" "tj_weight_bytes (job_at i s) = sz_weight_bytes (sizes_of tp)"
    and kept: "reuse \<Longrightarrow> staged 0x100000 (weight_len tp) (en_ddr s) = map (weight_image ops tp) [0..<weight_len tp]"
    and T: "T \<Longrightarrow> answers hw"
    and Q: "\<And>d'. ddr_ready d' \<Longrightarrow> dm_base d' = dm_base (en_ddr s) \<Longrightarrow> staged 0x100000 (weight_len tp) d' = map (weight_image ops tp) [0..<weight_len tp]
      \<Longrightarrow> staged 0x380000 (scale_len tp) d' = map (scale_image ops tp) [0..<scale_len tp] \<Longrightarrow> Q (s\<lparr>en_ddr := d'\<rparr>)"
  shows "wp T (stage_weights hw cfg ops tp WEIGHT_BASE SPU_PARAM_BASE (shape_of tp) reuse i) Q s"
proof (cases "packs_in_parallel cfg tp \<and> \<not> hw_worker_ok hw \<and> \<not> (reuse \<and> ws_bytes (en_staging s) = sz_weight_bytes (sizes_of tp))")
  case True
  then have "stage_weights hw cfg ops tp WEIGHT_BASE SPU_PARAM_BASE (shape_of tp) reuse i s \<in> {None, Some (False, s)}"
    using direct_pack_stuck[OF ok sizes_unat(4)[OF ok]] job by (auto simp: stage_weights_def Let_def)
  moreover have "\<not> T" using T True answers_regs(8) by blast
  ultimately show ?thesis by (auto simp: wp_def)
next
  case False
  then have "\<exists>d'. stage_weights hw cfg ops tp WEIGHT_BASE SPU_PARAM_BASE (shape_of tp) reuse i s = Some (True, s\<lparr>en_ddr := d'\<rparr>)
      \<and> ddr_ready d' \<and> dm_base d' = dm_base (en_ddr s)
      \<and> staged 0x100000 (weight_len tp) d' = map (weight_image ops tp) [0..<weight_len tp]
      \<and> staged 0x380000 (scale_len tp) d' = map (scale_image ops tp) [0..<scale_len tp]"
    by (intro stage_weights_put[OF ok d job]) (use kept in blast)+
  then show ?thesis using Q by (auto simp: wp_def)
qed

lemma wp_prepare:
  assumes ok: "tile_ok (rc_limits cfg) ops tp" and d: "ddr_ready (en_ddr s)" and dir: "rs_enabled (en_dir s) = False"
    and i: "i < length (en_slots s)" and keeps: "keeps hw" and T: "T \<Longrightarrow> answers hw" and st: "use \<Longrightarrow> staging_ok ops s"
    and Q: "\<And>d' dv' ws jid. ddr_ready d' \<Longrightarrow> holds_inputs ops tp d' \<Longrightarrow> runs_on T (en_dev s) dv'
      \<Longrightarrow> (use \<Longrightarrow> staging_ok ops (s\<lparr>en_ddr := d', en_staging := ws\<rparr>))
      \<Longrightarrow> Q (s\<lparr>en_ddr := d', en_dev := dv', en_staging := ws,
        en_slots := (en_slots s)[i := new_job ops tp (sizes_of tp) (en_tile_id s) bank WEIGHT_BASE SPU_PARAM_BASE jid]\<rparr>)"
  shows "wp T (fpga_prepare_q8_tile_job hw cfg ops None tp bank use WEIGHT_BASE SPU_PARAM_BASE i) Q s"
proof -
  note n = tile_sizes_nat[OF ok] and p = padded_scale_facts[OF ok]
  let ?jid = "fst (fpga_next_job_id (en_dev s))"
  let ?job = "new_job ops tp (sizes_of tp) (en_tile_id s) bank WEIGHT_BASE SPU_PARAM_BASE ?jid"
  let ?reuse = "use \<and> staging_holds ops tp WEIGHT_BASE SPU_PARAM_BASE s"
  define s1 where "s1 = (if use then s\<lparr>en_staging := (en_staging s)\<lparr>ws_valid := False\<rparr>\<rparr> else s)"
  define s2 where "s2 = set_job i (\<lambda>_. ?job) (s1\<lparr>en_dev := snd (fpga_next_job_id (en_dev s))\<rparr>)"
  have s1: "en_ddr s1 = en_ddr s" "en_dev s1 = en_dev s" "en_dir s1 = en_dir s" "en_tile_id s1 = en_tile_id s"
    "en_slots s1 = en_slots s" "ws_bytes (en_staging s1) = ws_bytes (en_staging s)" by (simp_all add: s1_def)
  have job: "job_at i s2 = ?job" using i by (simp add: s2_def s1)
  have s2: "en_ddr s2 = en_ddr s" "en_dir s2 = en_dir s" "en_dev s2 = snd (fpga_next_job_id (en_dev s))" "i < length (en_slots s2)"
    using i by (simp_all add: s2_def s1)
  have fits: "range_fits SPU_PARAM_BASE (sz_result_bytes (sizes_of tp)) SPU_PARAM_BASE SPU_PARAM_END"
    "ddr_range_fits SPU_PARAM_BASE (sz_result_bytes (sizes_of tp)) (en_ddr s)"
    using p(2,3) ddr_ready_facts(1,4)[OF d]
    unfolding range_fits_value ddr_range_fits_value[OF ddr_ready_facts(2)[OF d]] p(6) by simp_all
  have ptr: "ddr_checked_u32_ptr SPU_PARAM_BASE (sz_result_bytes (sizes_of tp)) (en_ddr s2) = Some 0x380000"
    using checked_ptr[OF d, of SPU_PARAM_BASE "0xE0000" "sz_result_bytes (sizes_of tp)" "padded_scale_len tp div 4"] p(2,3) s2(1)
    unfolding p(6) by (simp add: padded_scale_len_def)
  have run: "fpga_prepare_q8_tile_job hw cfg ops None tp bank use WEIGHT_BASE SPU_PARAM_BASE i s = all_steps
     [abort_unless (\<lambda>s. ddr_checked_u32_ptr SPU_PARAM_BASE (sz_result_bytes (sizes_of tp)) (en_ddr s) \<noteq> None),
      modify (set_job i (use_cached_tile None (en_tile_index s1) tp (sz_weight_bytes (sizes_of tp)))),
      use_resident_tile hw ops tp i,
      stage_weights hw cfg ops tp WEIGHT_BASE SPU_PARAM_BASE (shape_of tp) ?reuse i,
      on_device (mmio_fence (hw_regs hw)), on_ddr (write_activation ops tp), on_device (mmio_fence (hw_regs hw)),
      modify (publish_staging ops tp use i)] s2"
    unfolding fpga_prepare_q8_tile_job_def s1_def[symmetric] Let_def s1(1,2,4)
    by (simp add: tile_sizes_value[OF ok d] fits scale_shape_of_tile[OF ok] s1 split_beta flip: s2_def)
  have run: "wp T (fpga_prepare_q8_tile_job hw cfg ops None tp bank use WEIGHT_BASE SPU_PARAM_BASE i) Q s = wp T (all_steps
       [abort_unless (\<lambda>s. ddr_checked_u32_ptr SPU_PARAM_BASE (sz_result_bytes (sizes_of tp)) (en_ddr s) \<noteq> None),
        modify (set_job i (use_cached_tile None (en_tile_index s1) tp (sz_weight_bytes (sizes_of tp)))),
        use_resident_tile hw ops tp i,
        stage_weights hw cfg ops tp WEIGHT_BASE SPU_PARAM_BASE (shape_of tp) ?reuse i,
        on_device (mmio_fence (hw_regs hw)), on_ddr (write_activation ops tp), on_device (mmio_fence (hw_regs hw)),
        modify (publish_staging ops tp use i)]) Q s2"
    unfolding wp_def run ..
  have cached: "set_job i (use_cached_tile None k tp b) s2 = s2" for k b
    using i by (simp add: s2_def use_cached_tile_def set_job_def job_at_def s1)
  have resident: "wp T (use_resident_tile hw ops tp i) R s2 = R s2" for R
    using dir by (simp add: wp_def use_resident_tile_def Let_def residency_select_or_build_def flip: s2(2))
  have fields: "tj_p2_residency_hit ?job = False" "qj_weight_cache_hit ?job = False" "tj_weight_bytes ?job = sz_weight_bytes (sizes_of tp)"
    "tj_weight_src_off ?job = WEIGHT_BASE" "qj_scale_src_off ?job = SPU_PARAM_BASE"
    by (simp_all add: new_job_def blank_job_def)
  let ?rest = "all_steps [on_device (mmio_fence (hw_regs hw)), on_ddr (write_activation ops tp), on_device (mmio_fence (hw_regs hw)),
    modify (publish_staging ops tp use i)]"
  have "wp T (stage_weights hw cfg ops tp WEIGHT_BASE SPU_PARAM_BASE (shape_of tp) ?reuse i) (wp T ?rest Q) s2"
  proof (rule wp_stage_weights[OF ok])
    show "ddr_ready (en_ddr s2)" by (simp add: s2(1) d)
    show "\<not> tj_p2_residency_hit (job_at i s2)" "\<not> qj_weight_cache_hit (job_at i s2)" "tj_weight_bytes (job_at i s2) = sz_weight_bytes (sizes_of tp)"
      by (simp_all only: job fields not_False_eq_True)
    show "staged 0x100000 (weight_len tp) (en_ddr s2) = map (weight_image ops tp) [0..<weight_len tp]" if ?reuse
      using st ok that by (simp add: staging_ok_def s2(1))
    show "T \<Longrightarrow> answers hw" by (rule T)
    fix d' assume d': "ddr_ready d'" "dm_base d' = dm_base (en_ddr s2)"
      and w: "staged 0x100000 (weight_len tp) d' = map (weight_image ops tp) [0..<weight_len tp]"
      and sc: "staged 0x380000 (scale_len tp) d' = map (scale_image ops tp) [0..<scale_len tp]"
    let ?e = "ddr_put 0x10000 (act_len tp) (act_image ops tp) d'"
    let ?dv = "mmio_fence (hw_regs hw) (mmio_fence (hw_regs hw) (snd (fpga_next_job_id (en_dev s))))"
    have room: "0x10000 + act_len tp \<le> length (dm_bytes d')" "0x100000 + weight_len tp \<le> length (dm_bytes d')"
      "0x380000 + scale_len tp \<le> length (dm_bytes d')" using n(9,11,13) ddr_ready_facts(4)[OF d'(1)] by linarith+
    have we: "staged 0x100000 (weight_len tp) ?e = map (weight_image ops tp) [0..<weight_len tp]"
      using staged_put(2)[OF room(1), of "0x100000" "weight_len tp"] room(2) n(9) w by simp
    have se: "staged 0x380000 (scale_len tp) ?e = map (scale_image ops tp) [0..<scale_len tp]"
      using staged_put(2)[OF room(1), of "0x380000" "scale_len tp"] room(3) n(9) sc by simp
    have inputs: "holds_inputs ops tp ?e"
      using staged_put(1)[OF room(1)] we se by (simp add: holds_inputs_def place_input_def)
    have runs: "runs_on T (en_dev s) ?dv" using keeps T by (intro runs_on_fence runs_on_job_id)
    define r where "r = publish_staging ops tp use i (s2\<lparr>en_ddr := ?e, en_dev := ?dv\<rparr>)"
    define ws where "ws = en_staging r"
    have r: "r = s\<lparr>en_ddr := ?e, en_dev := ?dv, en_staging := ws, en_slots := (en_slots s)[i := ?job]\<rparr>"
      by (rule engine.equality; cases use; simp add: ws_def r_def publish_staging_def Let_def job fields; simp add: s2_def s1_def set_job_def)
    have ws: "use \<Longrightarrow> ws_row0 ws = tp_row0 tp \<and> ws_rows ws = tp_rows tp \<and> ws_k_block0 ws = tp_k_block0 tp \<and> ws_group_blocks ws = tp_group_blocks tp"
      by (simp add: ws_def r_def publish_staging_def Let_def job fields)
    have "use \<Longrightarrow> staging_ok ops (s\<lparr>en_ddr := ?e, en_staging := ws\<rparr>)"
      using ws we by (intro staging_published[where tp = tp]) simp_all
    then have "Q (publish_staging ops tp use i (s2\<lparr>en_ddr := ?e, en_dev := ?dv\<rparr>))"
      unfolding r_def[symmetric] r by (intro Q inputs runs) (use d' in simp_all)
    then show "wp T ?rest Q (s2\<lparr>en_ddr := d'\<rparr>)"
      by (simp add: wp_rules wp_on_ddr write_activation_value[OF ok d'(1)] s2 cong: if_cong)
  qed
  then show ?thesis unfolding run by (simp add: wp_rules ptr cached resident)
qed

subsection \<open>Submitting\<close>

text \<open>Memory of the device after a copy into one bank; a copy within a window is of this form.\<close>

definition load_bank :: "nat \<Rightarrow> nat \<Rightarrow> nat \<Rightarrow> (nat \<Rightarrow> u8) \<Rightarrow> (nat \<Rightarrow> nat \<Rightarrow> u8) \<Rightarrow> nat \<Rightarrow> nat \<Rightarrow> u8" where
  "load_bank b p n f m = (\<lambda>bank off. if p \<le> off \<and> off < p + n \<and> bank = b then f (off - p) else m bank off)"

lemma load_bank_at [simp]: "load_bank b p n f m bank off = (if p \<le> off \<and> off < p + n \<and> bank = b then f (off - p) else m bank off)"
  by (simp add: load_bank_def)

lemma into_bank:
  assumes "\<And>k. k < n \<Longrightarrow> device_bank (dv_regs (en_dev s)) (dst + k) = b"
  shows "dma_into_device src dst n s = s\<lparr>en_mem := load_bank b dst n (\<lambda>k. dm_bytes (en_ddr s) ! (src + k)) (en_mem s)\<rparr>"
proof -
  have "(\<lambda>bank off. if dst \<le> off \<and> off < dst + n \<and> bank = device_bank (dv_regs (en_dev s)) off
      then dm_bytes (en_ddr s) ! (src + (off - dst)) else en_mem s bank off)
    = load_bank b dst n (\<lambda>k. dm_bytes (en_ddr s) ! (src + k)) (en_mem s)"
  proof (intro ext)
    fix bank off
    have "device_bank (dv_regs (en_dev s)) off = b" if "dst \<le> off" "off < dst + n" using assms[of "off - dst"] that by simp
    then show "(if dst \<le> off \<and> off < dst + n \<and> bank = device_bank (dv_regs (en_dev s)) off
      then dm_bytes (en_ddr s) ! (src + (off - dst)) else en_mem s bank off)
      = load_bank b dst n (\<lambda>k. dm_bytes (en_ddr s) ! (src + k)) (en_mem s) bank off" by auto
  qed
  then show ?thesis by (simp add: dma_into_device_def)
qed

lemma banks_of_windows:
  "0x10000 \<le> off \<Longrightarrow> off < 0x20000 \<Longrightarrow> device_bank regs off = unat (regs REG_BANK AND 1)"
  "0x100000 \<le> off \<Longrightarrow> off < 0x200000 \<Longrightarrow> device_bank regs off = unat (regs REG_BANK AND 1)"
  "0x200000 \<le> off \<Longrightarrow> device_bank regs off = 0"
  by (simp_all add: device_bank_def)

text \<open>What the steps of submitting read of a job.\<close>

definition job_for :: "tile_place \<Rightarrow> int \<Rightarrow> q8_job \<Rightarrow> bool" where
  "job_for tp b job \<longleftrightarrow> tj_bank job = b \<and> tj_row0 job = tp_row0 tp \<and> tj_rows job = tp_rows tp
     \<and> tj_group_blocks job = tp_group_blocks tp \<and> tj_group_beats job = tp_group_blocks tp * 2
     \<and> tj_weight_bytes job = sz_weight_bytes (sizes_of tp) \<and> tj_weight_src_off job = WEIGHT_BASE \<and> tj_p2_residency_hit job = False
     \<and> qj_col job = tp_col tp \<and> qj_act_bytes job = sz_act_bytes (sizes_of tp) \<and> qj_scale_bytes job = sz_result_bytes (sizes_of tp)
     \<and> qj_result_bytes job = sz_result_bytes (sizes_of tp) \<and> qj_spu_result_bytes job = sz_spu_result_bytes (sizes_of tp)
     \<and> qj_scale_src_off job = SPU_PARAM_BASE \<and> qj_output_dma_ready job = False \<and> qj_hardware_released job = False
     \<and> qj_result_consumed job = False"

lemma new_job_for: "job_for tp (bank AND 1) (new_job ops tp (sizes_of tp) tid bank WEIGHT_BASE SPU_PARAM_BASE jid)"
  by (simp add: job_for_def new_job_def blank_job_def sizes_of_def Let_def)

text \<open>A window of the staging DDR was changed, and nothing else.\<close>

definition same_outside :: "nat \<Rightarrow> nat \<Rightarrow> ddr_map \<Rightarrow> ddr_map \<Rightarrow> bool" where
  "same_outside a e d d' \<longleftrightarrow> dm_mapped d' = dm_mapped d \<and> dm_base d' = dm_base d \<and> length (dm_bytes d') = length (dm_bytes d)
     \<and> (\<forall>j. j < a \<or> e \<le> j \<longrightarrow> dm_bytes d' ! j = dm_bytes d ! j)"

lemma same_outside_refl [simp]: "same_outside a e d d"
  by (simp add: same_outside_def)

lemma same_outside_facts:
  assumes "same_outside a e d d'"
  shows "ddr_ready d' = ddr_ready d" "dm_base d' = dm_base d" "p + n \<le> a \<or> e \<le> p \<Longrightarrow> staged p n d' = staged p n d"
  using assms by (auto simp: same_outside_def ddr_ready_def staged_def)

lemma inputs_same_outside:
  assumes "tile_ok vl ops tp" "same_outside a e d d'" "0x200000 \<le> a" "e \<le> 0x380000"
  shows "holds_inputs ops tp d' = holds_inputs ops tp d"
  using same_outside_facts(3)[OF assms(2)] assms(3,4) tile_sizes_nat(9,11)[OF assms(1)] by (simp add: holds_inputs_def)

lemma zero_range:
  assumes "ddr_zero_range32 off bytes d = Some d'" "unat off + unat bytes \<le> e"
  shows "same_outside (unat off) e d d'"
proof -
  have n: "4 * unat (bytes div 4) \<le> unat bytes" by (simp add: unat_div)
  have "store_words (unat off) (replicate (unat (bytes div 4)) 0) m ! j = m ! j" if "j < unat off \<or> e \<le> j" for j m
    by (rule store_words_other) (use that n assms(2) in auto)
  then show ?thesis using assms(1)
    by (auto simp: same_outside_def ddr_zero_range32_def ddr_ptr_def bind_eq_Some_conv split: if_splits)
qed

end
