(* ===== verification/Fpga_Submit.thy ===== *)
theory Fpga_Submit
  imports Fpga_Run
begin

text \<open>
  Submitting a prepared job: the inputs of the tile reach the windows of the job's bank, the device is started
  on exactly these, and a device that answers is found finished.
\<close>

subsection \<open>Starting\<close>

definition start_steps :: "hardware \<Rightarrow> nat \<Rightarrow> q8_job \<Rightarrow> 'f step" where
  "start_steps hw i job = all_steps [modify (record_counters i), on_device (vpu_write_tile_descriptor (tile_of job) SLOT_COMPUTING SLOT_FREE 0x101),
     on_device (mmio_fence (hw_regs hw)), check_that (\<lambda>_. hw_worker_ok hw), modify start_device, on_device (mmio_fence (hw_regs hw))]"

text \<open>The registers are set for the job.\<close>

definition configured :: "bool \<Rightarrow> tile_place \<Rightarrow> int \<Rightarrow> device \<Rightarrow> bool" where
  "configured T tp b dv \<longleftrightarrow> dv_regs dv REG_ROWS = word_of_int (tp_rows tp) \<and> dv_regs dv REG_COL_BEATS = word_of_int (tp_group_blocks tp * 2)
     \<and> (T \<longrightarrow> up dv \<and> dv_regs dv REG_CTRL = 0)"

lemma counters_for [simp]:
  "job_for tp b (job\<lparr>qj_count_before := a1, qj_done_before := a2, qj_out_before := a3, qj_drop_before := a4, qj_error_before := a5\<rparr>) = job_for tp b job"
  "job_for tp b (job\<lparr>qj_weight_bank_reused := r\<rparr>) = job_for tp b job"
  by (simp_all add: job_for_def)

lemma started_finishes:
  fixes job :: q8_job
  assumes "answers hw" "up dv" "dv_regs dv REG_CTRL = 0" "dv_regs dv REG_ROWS = word_of_int (tj_rows job)"
    and "dv_regs dv REG_BANK AND 1 = word_of_int (tj_bank job AND 1)"
  defines "job' \<equiv> job\<lparr>qj_count_before := vpu_rd32 REG_SPU_STREAM_COUNT dv, qj_done_before := vpu_rd32 REG_SPU_STREAM_DONE dv,
      qj_out_before := vpu_rd32 REG_SPU_STREAM_OUT dv, qj_drop_before := vpu_rd32 REG_SPU_STREAM_DROP dv,
      qj_error_before := vpu_rd32 REG_SPU_STREAM_ERROR dv\<rparr>"
    and "w \<equiv> vpu_write_tile_descriptor (tile_of job) SLOT_COMPUTING SLOT_FREE 0x101 dv"
  shows "finished job' (mmio_fence (hw_regs hw) (vpu_wr32 REG_CTRL CTRL_START (mmio_fence (hw_regs hw) w)))"
proof -
  let ?r = "dv_regs w" and ?s = "(hw_regs hw (dv_regs w))(REG_CTRL := CTRL_START)"
  have d: "dv_descriptor_supported dv" "dv_pingpong_supported dv" using assms(2) by (simp_all add: up_def)
  have w: "?r REG_JOB_ID = tj_job_id job" "?r REG_GROUP_BLOCKS = word_of_int (tj_group_blocks job)" "?r REG_CTRL = 0"
    "?r REG_ROWS = word_of_int (tj_rows job)" "?r REG_BANK AND 1 = word_of_int (tj_bank job AND 1)"
    "?r REG_SPU_STREAM_COUNT = dv_regs dv REG_SPU_STREAM_COUNT" "?r REG_SPU_STREAM_DONE = dv_regs dv REG_SPU_STREAM_DONE"
    "?r REG_SPU_STREAM_OUT = dv_regs dv REG_SPU_STREAM_OUT" "?r REG_SPU_STREAM_DROP = dv_regs dv REG_SPU_STREAM_DROP"
    "?r REG_SPU_STREAM_ERROR = dv_regs dv REG_SPU_STREAM_ERROR"
    using assms(3-5) d by (simp_all add: w_def vpu_write_tile_descriptor_def vpu_wr32_def tile_job.defs)
  have rest: "rests ?r (hw_regs hw ?r)" using answers_regs(6)[OF assms(1), of ?r] w(3) by simp
  have start: "answers_start ?s (hw_regs hw ?s)" using answers_regs(5)[OF assms(1), of ?s] by simp
  have up: "up (mmio_fence (hw_regs hw) (vpu_wr32 REG_CTRL CTRL_START (mmio_fence (hw_regs hw) w)))"
    using assms(1,2) by (simp add: w_def up_rules)
  then show ?thesis
    using start rest by (simp add: finished_def mmio_fence_def vpu_wr32_def answers_start_def rests_def answers_regs[OF assms(1)] w job'_def
      vpu_rd32_def)
qed

lemma wp_start:
  assumes job: "job_for tp b (job_at i s)" and i: "i < length (en_slots s)" and keeps: "keeps hw" and T: "T \<Longrightarrow> answers hw"
    and conf: "configured T tp b (en_dev s)" and bank: "dv_regs (en_dev s) REG_BANK AND 1 = dv_regs (vpu_select_banks b b dvi) REG_BANK AND 1"
    and same: "sel (en_dev s) = sel dvi" "dv_pingpong_supported (en_dev s) = dv_pingpong_supported dvi"
    and rows: "unat (word_of_int (tp_rows tp) :: u32) = nat (tp_rows tp)" "unat (word_of_int (tp_group_blocks tp * 2) :: u32) = nat (tp_group_blocks tp) * 2"
    and inp: "tile_snapshot (sel dvi b) (nat (tp_rows tp)) (nat (tp_group_blocks tp) * 2) (en_mem s) = place_input ops tp"
    and Q: "\<And>dv' job'. sel dv' = sel dvi \<Longrightarrow> job_for tp b job' \<Longrightarrow> (T \<Longrightarrow> finished job' dv')
      \<Longrightarrow> Q (s\<lparr>en_dev := dv', en_job := Some (sel dvi b, place_input ops tp), en_slots := (en_slots s)[i := job']\<rparr>)"
  shows "wp T (start_steps hw i (job_at i s)) Q s"
proof -
  let ?w = "vpu_write_tile_descriptor (tile_of (job_at i s)) SLOT_COMPUTING SLOT_FREE 0x101 (en_dev s)"
  let ?f = "mmio_fence (hw_regs hw) ?w"
  let ?dv = "mmio_fence (hw_regs hw) (vpu_wr32 REG_CTRL CTRL_START ?f)"
  have cf: "calm (en_dev s) ?f" and c: "calm (en_dev s) ?dv" using keeps by (simp_all add: calm_rules)
  have regs: "dv_regs ?f REG_ROWS = word_of_int (tp_rows tp)" "dv_regs ?f REG_COL_BEATS = word_of_int (tp_group_blocks tp * 2)"
    "unat (dv_regs ?f REG_BANK AND 1) = sel dvi b"
    using cf conf bank bank_selected[of b dvi] by (simp_all add: calm_def configured_def)
  have sizes: "unat (dv_regs ?f REG_ROWS) = nat (tp_rows tp)" "unat (dv_regs ?f REG_COL_BEATS) = nat (tp_group_blocks tp) * 2"
    by (simp_all only: regs rows)
  have fin: "T \<Longrightarrow> finished ((job_at i s)\<lparr>qj_count_before := vpu_rd32 REG_SPU_STREAM_COUNT (en_dev s), qj_done_before := vpu_rd32 REG_SPU_STREAM_DONE (en_dev s),
      qj_out_before := vpu_rd32 REG_SPU_STREAM_OUT (en_dev s), qj_drop_before := vpu_rd32 REG_SPU_STREAM_DROP (en_dev s),
      qj_error_before := vpu_rd32 REG_SPU_STREAM_ERROR (en_dev s)\<rparr>) ?dv"
  proof (rule started_finishes)
    assume t: T
    have u: "up (en_dev s)" using conf t by (simp add: configured_def)
    then have "dv_pingpong_supported dvi" using same by (simp add: up_def)
    then have "dv_regs (vpu_select_banks b b dvi) REG_BANK AND 1 = word_of_int (b AND 1)"
      using selected_word[of dvi b] bank_bit[of b] by (auto simp: expected_bank_word_def Let_def)
    then show "dv_regs (en_dev s) REG_BANK AND 1 = word_of_int (tj_bank (job_at i s) AND 1)" using bank job by (simp add: job_for_def)
  qed (use conf job T in \<open>simp_all add: configured_def job_for_def\<close>)
  have start: "start_device (s\<lparr>en_slots := l, en_dev := ?f\<rparr>) = s\<lparr>en_dev := vpu_wr32 REG_CTRL CTRL_START ?f,
      en_job := Some (sel dvi b, place_input ops tp), en_slots := l\<rparr>" for l
    by (simp add: start_device_def Let_def regs(3) sizes inp)
  have reached: "Q (s\<lparr>en_dev := ?dv, en_job := Some (sel dvi b, place_input ops tp), en_slots := (en_slots s)[i := (job_at i s)
      \<lparr>qj_count_before := vpu_rd32 REG_SPU_STREAM_COUNT (en_dev s), qj_done_before := vpu_rd32 REG_SPU_STREAM_DONE (en_dev s),
       qj_out_before := vpu_rd32 REG_SPU_STREAM_OUT (en_dev s), qj_drop_before := vpu_rd32 REG_SPU_STREAM_DROP (en_dev s),
       qj_error_before := vpu_rd32 REG_SPU_STREAM_ERROR (en_dev s)\<rparr>]\<rparr>)"
    by (rule Q) (use job fin sel_calm[OF c] same in simp_all)
  have order: "s\<lparr>en_dev := x, en_job := y, en_slots := z\<rparr> = s\<lparr>en_job := y, en_slots := z, en_dev := x\<rparr>" for x y z
    by simp
  show ?thesis
    using T[THEN answers_regs(8)] reached by (auto simp add: order start_steps_def wp_rules record_counters_def Let_def set_job_def start)
qed

subsection \<open>Loading\<close>

text \<open>The device once the registers are set and the bank is selected, as it stays up to START.\<close>

definition set_for :: "bool \<Rightarrow> tile_place \<Rightarrow> int \<Rightarrow> device \<Rightarrow> device \<Rightarrow> bool" where
  "set_for T tp b dvi dv \<longleftrightarrow> configured T tp b dv \<and> sel dv = sel dvi \<and> dv_pingpong_supported dv = dv_pingpong_supported dvi
     \<and> dv_regs dv REG_BANK = dv_regs (vpu_select_banks b b dvi) REG_BANK"

lemma set_for_bank: "set_for T tp b dvi dv \<Longrightarrow> unat (dv_regs dv REG_BANK AND 1) = sel dvi b"
  by (simp add: set_for_def bank_selected)

lemma set_for_select: "set_for T tp b dvi dv \<Longrightarrow> set_for T tp b dvi (vpu_select_banks b b dv)"
  by (simp add: set_for_def configured_def up_select) (auto simp: vpu_select_banks_def vpu_wr32_def)

lemma set_for_fence:
  assumes "keeps hw" "T \<Longrightarrow> answers hw" "set_for T tp b dvi dv"
  shows "set_for T tp b dvi (mmio_fence (hw_regs hw) dv)"
proof -
  have "sel (mmio_fence (hw_regs hw) dv) = sel dv" using assms(1) by (intro sel_calm calm_fence) simp_all
  then show ?thesis using assms by (auto simp: set_for_def configured_def up_fence mmio_fence_def keeps_regs answers_regs(4) up_def answers_regs(3))
qed

lemma set_for_commit:
  assumes "keeps hw" "T \<Longrightarrow> answers hw" "set_for T tp b dvi dv"
  shows "set_for T tp b dvi (snd (fpga_commit_p2_dma_filling_descriptor (hw_regs hw) t dv))"
  using assms set_for_fence[OF assms] by (simp add: fpga_commit_p2_dma_filling_descriptor_def Let_def)

lemma set_for_quiet:
  "keeps hw \<Longrightarrow> (T \<Longrightarrow> answers hw) \<Longrightarrow> set_for T tp b dvi dv \<Longrightarrow> set_for T tp b dvi (snd (wait_spu_stream_quiescent hw n dv))"
  by (induction hw n dv rule: wait_spu_stream_quiescent.induct)
    (subst wait_spu_stream_quiescent.simps, auto simp: Let_def set_for_fence split: nat.splits)

lemma configure_sets:
  fixes mode :: u32
  assumes keeps: "keeps hw" and T: "T \<Longrightarrow> answers hw \<and> up dv" and job: "job_for tp b job"
  defines "dv1 \<equiv> vpu_write_tile_descriptor (tile_of job) SLOT_DMA_FILLING SLOT_FREE 0x101
      (configure_vpu hw (tj_rows job) (tj_group_beats job) mode (vpu_wr32 REG_CTRL CTRL_CLEAR_DONE (vpu_select_banks b b dv)))"
  shows "set_for T tp b dv dv1"
proof -
  let ?c = "configure_vpu hw (tj_rows job) (tj_group_beats job) mode (vpu_wr32 REG_CTRL CTRL_CLEAR_DONE (vpu_select_banks b b dv))"
  have c: "calm ?c dv1" by (simp add: dv1_def calm_descriptor)
  have bank: "dv_regs ?c REG_BANK = dv_regs (vpu_select_banks b b dv) REG_BANK" "dv_pingpong_supported ?c = dv_pingpong_supported dv"
    "dv_regs ?c REG_ROWS = word_of_int (tp_rows tp)" "dv_regs ?c REG_COL_BEATS = word_of_int (tp_group_blocks tp * 2)"
    using job by (simp_all add: configure_vpu_def mmio_fence_def keeps_regs[OF keeps] vpu_wr32_def job_for_def)
  have "sel ?c = sel (vpu_select_banks b b dv)" unfolding fun_eq_iff sel_def bank by simp
  then have sel: "sel dv1 = sel dv" using sel_calm[OF c] by simp
  have "T \<Longrightarrow> up ?c \<and> dv_regs ?c REG_CTRL = 0" using T by (simp add: configure_vpu_def up_rules) (simp add: mmio_fence_def answers_regs(4))
  then have "T \<Longrightarrow> up dv1 \<and> dv_regs dv1 REG_CTRL = 0" by (simp add: dv1_def up_descriptor) (simp add: vpu_write_tile_descriptor_def vpu_wr32_def)
  then show ?thesis using c bank sel by (simp add: set_for_def configured_def calm_def)
qed

subsection \<open>The handler\<close>

lemma wp_steps: "wp T (all_steps []) Q = Q" "wp T (all_steps (f # fs)) Q = wp T f (wp T (all_steps fs) Q)"
  by (rule ext, simp add: wp_rules)+

lemma snapshot_windows:
  assumes "tile_ok vl ops tp" and "window (m b) ACT_BASE (act_len tp) = ti_act (place_input ops tp)"
    "window (m b) WEIGHT_BASE (weight_len tp) = ti_weight (place_input ops tp)" "window (m 0) SPU_PARAM_BASE (scale_len tp) = ti_scale (place_input ops tp)"
  shows "tile_snapshot b (nat (tp_rows tp)) (nat (tp_group_blocks tp) * 2) m = place_input ops tp"
proof -
  have "nat (tp_group_blocks tp) * 2 * 16 = act_len tp" "(nat (tp_rows tp) + 1) div 2 * 2 * (nat (tp_group_blocks tp) * 2) * 16 = weight_len tp"
    "nat (tp_rows tp) * (nat (tp_group_blocks tp) * 2 div 2) * 4 = scale_len tp"
    using tile_sizes_nat(14)[OF assms(1)] by (simp_all add: act_len_def scale_len_def)
  then show ?thesis unfolding tile_snapshot_def using assms(2-4) by (simp only:) (simp add: place_input_def)
qed

lemma window_loaded:
  assumes "n \<le> n'"
  shows "window (load_bank b (unat base) n' f m b) base n = map f [0..<n]"
  using assms by (simp add: window_def)

lemma window_other:
  assumes "unat base + n \<le> p \<or> p + n' \<le> unat base \<or> b' \<noteq> b"
  shows "window (load_bank b' p n' f m b) base n = window (m b) base n"
  using assms by (auto simp: window_def)

lemma wp_clear_result:
  fixes s :: "'a engine"
  shows "wp T (clear_result hw cfg i) Q s = (if rc_clear_result cfg \<and> \<not> rc_scale_stream cfg
     then wp T (on_ddr (ddr_zero_range32 RESULT_BASE (qj_result_bytes (job_at i s))))
       (wp T (on_device (vpu_select_banks (tj_bank (job_at i s)) (tj_bank (job_at i s))))
         (wp T (fpga_dma_write_to_ip hw cfg RESULT_BASE (qj_result_bytes (job_at i s))) Q)) s
     else Q s)"
proof (cases "rc_clear_result cfg \<and> \<not> rc_scale_stream cfg")
  case True
  define l :: "'a step list" where "l = [on_ddr (ddr_zero_range32 RESULT_BASE (qj_result_bytes (job_at i s))),
      on_device (vpu_select_banks (tj_bank (job_at i s)) (tj_bank (job_at i s))),
      fpga_dma_write_to_ip hw cfg RESULT_BASE (qj_result_bytes (job_at i s))]"
  have "clear_result hw cfg i s = all_steps l s" using True by (simp only: clear_result_def Let_def if_True simp_thms l_def)
  then have "wp T (clear_result hw cfg i) Q s = wp T (all_steps l) Q s" by (simp only: wp_def)
  then show ?thesis using True by (simp only: wp_steps if_True simp_thms l_def)
next
  case False
  then have "clear_result hw cfg i s = Some (True, s)" by (auto simp: clear_result_def Let_def)
  then have "wp T (clear_result hw cfg i) Q s = Q s" by (simp add: wp_def)
  then show ?thesis using False by auto
qed

text \<open>A copy of a staged window into its place in a bank.\<close>

lemma wp_load:
  fixes base :: u32
  assumes d: "ddr_ready d" and live: "T \<Longrightarrow> dma_responds hw cfg \<and> bytes \<noteq> 0 \<and> unat base + unat bytes \<le> 0x3C0000"
    and bank: "\<And>k. k < unat bytes \<Longrightarrow> device_bank (dv_regs dv) (unat base + k) = bk"
    and Q: "\<And>n. Q (s\<lparr>en_ddr := d, en_dev := dv, en_mem := load_bank bk (unat base) (unat bytes) (\<lambda>k. dm_bytes d ! (unat base + k)) m, en_transfers := n\<rparr>)"
  shows "wp T (fpga_dma_copy hw cfg (DDR_BASE_PHYS + ucast base) (LMM_BASE_PHYS + ucast base) bytes) Q
    (s\<lparr>en_ddr := d, en_dev := dv, en_mem := m, en_transfers := k\<rparr>)"
proof (rule wp_copy_in)
  fix n
  have "dma_into_device (unat base) (unat base) (unat bytes) (s\<lparr>en_ddr := d, en_dev := dv, en_mem := m, en_transfers := k, en_transfers := n\<rparr>)
    = s\<lparr>en_ddr := d, en_dev := dv, en_mem := load_bank bk (unat base) (unat bytes) (\<lambda>k. dm_bytes d ! (unat base + k)) m, en_transfers := n\<rparr>"
    by (subst into_bank[where b = bk]) (use bank in simp_all)
  then show "Q (dma_into_device (unat base) (unat base) (unat bytes) (s\<lparr>en_ddr := d, en_dev := dv, en_mem := m, en_transfers := k, en_transfers := n\<rparr>))"
    using Q by simp
qed (use d live in simp_all)

lemma tile_words:
  assumes "tile_ok vl ops tp"
  shows "unat (word_of_int (tp_rows tp) :: u32) = nat (tp_rows tp)"
    "unat (word_of_int (tp_group_blocks tp * 2) :: u32) = nat (tp_group_blocks tp) * 2"
proof -
  note n = tile_sizes_nat[OF assms]
  have "(word_of_int (tp_rows tp) :: u32) = of_nat (nat (tp_rows tp))" "(word_of_int (tp_group_blocks tp * 2) :: u32) = of_nat (nat (tp_group_blocks tp) * 2)"
    using n(1,3) by (simp_all add: nat_mult_distrib)
  moreover have "unat (of_nat (nat (tp_rows tp)) :: u32) = nat (tp_rows tp)"
    "unat (of_nat (nat (tp_group_blocks tp) * 2) :: u32) = nat (tp_group_blocks tp) * 2" using n(2,4) by (intro small_words; simp)+
  ultimately show "unat (word_of_int (tp_rows tp) :: u32) = nat (tp_rows tp)"
    "unat (word_of_int (tp_group_blocks tp * 2) :: u32) = nat (tp_group_blocks tp) * 2" by (simp_all only:)
qed

text \<open>The memory after the copies: the inputs in the bank, the weights of the other bank as before.\<close>

definition keeps_other_weights :: "nat \<Rightarrow> (nat \<Rightarrow> nat \<Rightarrow> u8) \<Rightarrow> (nat \<Rightarrow> nat \<Rightarrow> u8) \<Rightarrow> bool" where
  "keeps_other_weights b m m' \<longleftrightarrow> (\<forall>bank off. 0x100000 \<le> off \<and> off < 0x200000 \<and> bank \<noteq> b \<longrightarrow> m' bank off = m bank off)"

lemma staged_window: "n \<le> n' \<Longrightarrow> window (load_bank b (unat base) n' (\<lambda>k. dm_bytes d ! (unat base + k)) m b) base n = staged (unat base) n d"
  by (simp add: window_loaded staged_def)

lemma wp_submit:
  fixes s :: "'a engine"
  assumes ok: "tile_ok vl ops tp" and d: "ddr_ready (en_ddr s)" and inputs: "holds_inputs ops tp (en_ddr s)"
    and job: "job_for tp b (job_at i s)" and i: "i < length (en_slots s)" and keeps: "keeps hw"
    and T: "T \<Longrightarrow> answers hw \<and> dma_responds hw cfg \<and> up (en_dev s)"
    and reused: "qj_weight_bank_reused (job_at i s)
      \<Longrightarrow> window (en_mem s (sel (en_dev s) b)) WEIGHT_BASE (weight_len tp) = ti_weight (place_input ops tp)"
    and Q: "\<And>d' dv' m' n' job'. same_outside 0x200000 0x210000 (en_ddr s) d' \<Longrightarrow> sel dv' = sel (en_dev s) \<Longrightarrow> job_for tp b job'
      \<Longrightarrow> (T \<Longrightarrow> finished job' dv')
      \<Longrightarrow> tile_snapshot (sel (en_dev s) b) (nat (tp_rows tp)) (nat (tp_group_blocks tp) * 2) m' = place_input ops tp
      \<Longrightarrow> keeps_other_weights (sel (en_dev s) b) (en_mem s) m'
      \<Longrightarrow> Q (s\<lparr>en_ddr := d', en_dev := dv', en_mem := m', en_transfers := n',
        en_job := Some (sel (en_dev s) b, place_input ops tp), en_slots := (en_slots s)[i := job']\<rparr>)"
  shows "wp T (fpga_submit_q8_tile_job hw cfg i) Q s"
proof -
  note n = tile_sizes_nat[OF ok] and u = sizes_unat[OF ok] and p = padded_scale_facts[OF ok]
  let ?job = "job_at i s" and ?B = "sel (en_dev s) b" and ?set = "set_for T tp b (en_dev s)"
  define st where "st d dv m n = s\<lparr>en_ddr := d, en_dev := dv, en_mem := m, en_transfers := n\<rparr>" for d dv m n
  have st: "en_ddr (st d dv m n) = d" "en_dev (st d dv m n) = dv" "en_mem (st d dv m n) = m" "job_at j (st d dv m n) = job_at j s"
    "length (en_slots (st d dv m n)) = length (en_slots s)" "(st d dv m n)\<lparr>en_dev := dv'\<rparr> = st d dv' m n" "(st d dv m n)\<lparr>en_ddr := d'\<rparr> = st d' dv m n"
    for d dv m n dv' d' j by (simp_all add: st_def)
  have self: "st (en_ddr s) (en_dev s) (en_mem s) (en_transfers s) = s" by (simp add: st_def)
  have jf: "tj_rows ?job = tp_rows tp" "tj_bank ?job = b" "tj_weight_src_off ?job = WEIGHT_BASE" "qj_scale_src_off ?job = SPU_PARAM_BASE"
    "tj_weight_bytes ?job = sz_weight_bytes (sizes_of tp)" "qj_act_bytes ?job = sz_act_bytes (sizes_of tp)"
    "qj_scale_bytes ?job = sz_result_bytes (sizes_of tp)" "qj_result_bytes ?job = sz_result_bytes (sizes_of tp)" "tj_p2_residency_hit ?job = False"
    using job by (simp_all add: job_for_def)
  have ans: "T \<Longrightarrow> answers hw" using T by simp
  let ?start = "start_steps hw i ?job"
  let ?scales = "fpga_dma_copy hw cfg (DDR_BASE_PHYS + ucast SPU_PARAM_BASE) (LMM_BASE_PHYS + ucast SPU_PARAM_BASE) (sz_result_bytes (sizes_of tp))"
  let ?quiet = "ask_device (\<lambda>dv. if rc_scale_stream cfg then wait_spu_stream_quiescent hw (hw_polls hw) dv else (True, dv))"
  have started: "wp T ?start Q (st d' dv m k)"
    if d': "same_outside 0x200000 0x210000 (en_ddr s) d'" and dv: "?set dv" and m: "keeps_other_weights ?B (en_mem s) m"
      and inp: "tile_snapshot ?B (nat (tp_rows tp)) (nat (tp_group_blocks tp) * 2) m = place_input ops tp" for d' dv m k
  proof -
    let ?s = "st d' dv m k"
    have "wp T (start_steps hw i (job_at i ?s)) Q ?s"
    proof (rule wp_start[where dvi = "en_dev s" and b = b and tp = tp and ops = ops])
      fix dv' job'
      assume x: "sel dv' = sel (en_dev s)" "job_for tp b job'" "T \<Longrightarrow> finished job' dv'"
      have "?s\<lparr>en_dev := dv', en_job := Some (?B, place_input ops tp), en_slots := (en_slots ?s)[i := job']\<rparr>
        = s\<lparr>en_ddr := d', en_dev := dv', en_mem := m, en_transfers := k, en_job := Some (?B, place_input ops tp), en_slots := (en_slots s)[i := job']\<rparr>"
        by (simp add: st_def)
      then show "Q (?s\<lparr>en_dev := dv', en_job := Some (?B, place_input ops tp), en_slots := (en_slots ?s)[i := job']\<rparr>)"
        using Q[OF d' x(1,2) _ inp m] x(3) by simp
    qed (use dv job i keeps ans inp tile_words[OF ok] in \<open>simp_all add: st set_for_def\<close>)
    then show ?thesis by (simp only: st)
  qed
  have scaled: "wp T (all_steps [?quiet, ?scales, ?start]) Q (st d' dv m k)"
    if d': "same_outside 0x200000 0x210000 (en_ddr s) d'" and dv: "?set dv" and m: "keeps_other_weights ?B (en_mem s) m"
      and inp: "window (m ?B) ACT_BASE (act_len tp) = ti_act (place_input ops tp)" "window (m ?B) WEIGHT_BASE (weight_len tp) = ti_weight (place_input ops tp)"
    for d' dv m k
  proof -
    have set': "?set (snd (if rc_scale_stream cfg then wait_spu_stream_quiescent hw (hw_polls hw) dv else (True, dv)))"
      using set_for_quiet[OF keeps ans dv] dv by simp
    have ok': "T \<Longrightarrow> fst (if rc_scale_stream cfg then wait_spu_stream_quiescent hw (hw_polls hw) dv else (True, dv))"
      using dv by (simp add: set_for_def configured_def quiet)
    have "wp T ?scales (wp T ?start Q) (st d' dv' m k)" if dv': "?set dv'" for dv'
      unfolding st_def
    proof (rule wp_load[where bk = 0])
      show "ddr_ready d'" using same_outside_facts(1)[OF d'] d by simp
      show "dma_responds hw cfg \<and> sz_result_bytes (sizes_of tp) \<noteq> 0 \<and> unat SPU_PARAM_BASE + unat (sz_result_bytes (sizes_of tp)) \<le> 0x3C0000" if T
        using T[OF that] p(2,3,6) by (auto simp: unat_eq_0)
      show "device_bank (dv_regs dv') (unat SPU_PARAM_BASE + k) = 0" for k by (simp add: device_bank_def)
      fix k'
      let ?m = "load_bank 0 (unat SPU_PARAM_BASE) (unat (sz_result_bytes (sizes_of tp))) (\<lambda>k. dm_bytes d' ! (unat SPU_PARAM_BASE + k)) m"
      have "window (?m 0) SPU_PARAM_BASE (scale_len tp) = staged 0x380000 (scale_len tp) d'" using p(1,6) by (subst staged_window) simp_all
      also have "\<dots> = ti_scale (place_input ops tp)" using inputs inputs_same_outside[OF ok d'] by (simp add: holds_inputs_def)
      finally have sc: "window (?m 0) SPU_PARAM_BASE (scale_len tp) = ti_scale (place_input ops tp)" .
      have "window (?m ?B) ACT_BASE (act_len tp) = ti_act (place_input ops tp)" "window (?m ?B) WEIGHT_BASE (weight_len tp) = ti_weight (place_input ops tp)"
        using inp n(9,11) by (subst window_other; simp)+
      from snapshot_windows[OF ok this sc] have "tile_snapshot ?B (nat (tp_rows tp)) (nat (tp_group_blocks tp) * 2) ?m = place_input ops tp" .
      moreover have "keeps_other_weights ?B (en_mem s) ?m" using m by (simp add: keeps_other_weights_def)
      ultimately show "wp T ?start Q (s\<lparr>en_ddr := d', en_dev := dv', en_mem := ?m, en_transfers := k'\<rparr>)"
        using started[OF d' dv'] unfolding st_def by blast
    qed
    from this[OF set'] show ?thesis using ok' by (cases "rc_scale_stream cfg") (auto simp: wp_steps wp_ask_device st)
  qed
  have weighed: "wp T (all_steps [on_device (vpu_select_banks b b), copy_weights hw cfg i, ?quiet, ?scales, ?start]) Q (st d' dv m k)"
    if d': "same_outside 0x200000 0x210000 (en_ddr s) d'" and dv: "?set dv" and m: "keeps_other_weights ?B (en_mem s) m"
      and inp: "window (m ?B) ACT_BASE (act_len tp) = ti_act (place_input ops tp)"
      and w: "window (m ?B) WEIGHT_BASE (weight_len tp) = window (en_mem s ?B) WEIGHT_BASE (weight_len tp)"
    for d' dv m k
  proof -
    let ?dv = "vpu_select_banks b b dv"
    have dv': "?set ?dv" by (rule set_for_select[OF dv])
    have "wp T (copy_weights hw cfg i) (wp T (all_steps [?quiet, ?scales, ?start]) Q) (st d' ?dv m k)"
    proof (cases "qj_weight_bank_reused ?job")
      case True
      then have "wp T (copy_weights hw cfg i) (wp T (all_steps [?quiet, ?scales, ?start]) Q) (st d' ?dv m k)
        = wp T (all_steps [?quiet, ?scales, ?start]) Q (st d' ?dv m k)" by (simp add: wp_def[of T "copy_weights _ _ _"] copy_weights_def st)
      then show ?thesis using scaled[OF d' dv' m inp] reused[OF True] w by simp
    next
      case False
      then have "copy_weights hw cfg i (st d' ?dv m k)
        = fpga_dma_copy hw cfg (DDR_BASE_PHYS + ucast WEIGHT_BASE) (LMM_BASE_PHYS + ucast WEIGHT_BASE) (sz_weight_bytes (sizes_of tp)) (st d' ?dv m k)"
        by (simp add: copy_weights_def Let_def st jf)
      moreover have "wp T (fpga_dma_copy hw cfg (DDR_BASE_PHYS + ucast WEIGHT_BASE) (LMM_BASE_PHYS + ucast WEIGHT_BASE) (sz_weight_bytes (sizes_of tp)))
          (wp T (all_steps [?quiet, ?scales, ?start]) Q) (st d' ?dv m k)"
        unfolding st_def
      proof (rule wp_load[where bk = ?B])
        show "ddr_ready d'" using same_outside_facts(1)[OF d'] d by simp
        show "dma_responds hw cfg \<and> sz_weight_bytes (sizes_of tp) \<noteq> 0 \<and> unat WEIGHT_BASE + unat (sz_weight_bytes (sizes_of tp)) \<le> 0x3C0000" if T
          using T[OF that] n(11,12) u(4) by (auto simp: unat_eq_0)
        show "device_bank (dv_regs ?dv) (unat WEIGHT_BASE + k) = ?B" if "k < unat (sz_weight_bytes (sizes_of tp))" for k
          using that n(11) u(4) set_for_bank[OF dv'] by (simp add: device_bank_def)
        fix k'
        let ?m = "load_bank ?B (unat WEIGHT_BASE) (unat (sz_weight_bytes (sizes_of tp))) (\<lambda>k. dm_bytes d' ! (unat WEIGHT_BASE + k)) m"
        have "window (?m ?B) WEIGHT_BASE (weight_len tp) = staged 0x100000 (weight_len tp) d'" using u(4) by (subst staged_window) simp_all
        also have "\<dots> = ti_weight (place_input ops tp)" using inputs inputs_same_outside[OF ok d'] by (simp add: holds_inputs_def)
        finally have wt: "window (?m ?B) WEIGHT_BASE (weight_len tp) = ti_weight (place_input ops tp)" .
        have act: "window (?m ?B) ACT_BASE (act_len tp) = ti_act (place_input ops tp)" using inp n(9) by (subst window_other) simp_all
        have "keeps_other_weights ?B (en_mem s) ?m" using m by (simp add: keeps_other_weights_def)
        from scaled[OF d' dv' this act wt] show "wp T (all_steps [?quiet, ?scales, ?start]) Q (s\<lparr>en_ddr := d', en_dev := ?dv, en_mem := ?m, en_transfers := k'\<rparr>)"
          unfolding st_def .
      qed
      ultimately show ?thesis by (simp add: wp_def)
    qed
    then show ?thesis by (simp add: wp_steps wp_rules st)
  qed
  have acted: "wp T (all_steps [on_device (vpu_select_banks b b), fpga_dma_write_to_ip hw cfg ACT_BASE (sz_act_bytes (sizes_of tp)),
      on_device (vpu_select_banks b b), copy_weights hw cfg i, ?quiet, ?scales, ?start]) Q (st d' dv m k)"
    if d': "same_outside 0x200000 0x210000 (en_ddr s) d'" and dv: "?set dv" and m: "keeps_other_weights ?B (en_mem s) m"
      and w: "window (m ?B) WEIGHT_BASE (weight_len tp) = window (en_mem s ?B) WEIGHT_BASE (weight_len tp)" for d' dv m k
  proof -
    let ?dv = "vpu_select_banks b b dv" and ?rest = "all_steps [on_device (vpu_select_banks b b), copy_weights hw cfg i, ?quiet, ?scales, ?start]"
    have dv': "?set ?dv" by (rule set_for_select[OF dv])
    have "wp T (fpga_dma_copy hw cfg (DDR_BASE_PHYS + ucast ACT_BASE) (LMM_BASE_PHYS + ucast ACT_BASE) (sz_act_bytes (sizes_of tp))) (wp T ?rest Q)
        (st d' ?dv m k)"
      unfolding st_def
    proof (rule wp_load[where bk = ?B])
      show "ddr_ready d'" using same_outside_facts(1)[OF d'] d by simp
      show "dma_responds hw cfg \<and> sz_act_bytes (sizes_of tp) \<noteq> 0 \<and> unat ACT_BASE + unat (sz_act_bytes (sizes_of tp)) \<le> 0x3C0000" if T
        using T[OF that] n(9,10) u(3) by (auto simp: unat_eq_0)
      show "device_bank (dv_regs ?dv) (unat ACT_BASE + k) = ?B" if "k < unat (sz_act_bytes (sizes_of tp))" for k
        using that n(9) u(3) set_for_bank[OF dv'] by (simp add: device_bank_def)
      fix k'
      let ?m = "load_bank ?B (unat ACT_BASE) (unat (sz_act_bytes (sizes_of tp))) (\<lambda>k. dm_bytes d' ! (unat ACT_BASE + k)) m"
      have "window (?m ?B) ACT_BASE (act_len tp) = staged 0x10000 (act_len tp) d'" using u(3) by (subst staged_window) simp_all
      also have "\<dots> = ti_act (place_input ops tp)" using inputs inputs_same_outside[OF ok d'] by (simp add: holds_inputs_def)
      finally have act: "window (?m ?B) ACT_BASE (act_len tp) = ti_act (place_input ops tp)" .
      have wt: "window (?m ?B) WEIGHT_BASE (weight_len tp) = window (en_mem s ?B) WEIGHT_BASE (weight_len tp)"
        using w n(9) u(3) by (subst window_other) simp_all
      have "keeps_other_weights ?B (en_mem s) ?m" using m n(9) u(3) by (simp add: keeps_other_weights_def)
      from weighed[OF d' dv' this act wt] show "wp T ?rest Q (s\<lparr>en_ddr := d', en_dev := ?dv, en_mem := ?m, en_transfers := k'\<rparr>)"
        unfolding st_def .
    qed
    then show ?thesis by (simp add: wp_steps wp_rules st fpga_dma_write_to_ip_def)
  qed
  let ?acted = "all_steps [on_device (vpu_select_banks b b), fpga_dma_write_to_ip hw cfg ACT_BASE (sz_act_bytes (sizes_of tp)),
    on_device (vpu_select_banks b b), copy_weights hw cfg i, ?quiet, ?scales, ?start]"
  have cleared: "wp T (clear_result hw cfg i) (wp T ?acted Q) (st (en_ddr s) dv (en_mem s) k)" if dv: "?set dv" for dv k
  proof (cases "rc_clear_result cfg \<and> \<not> rc_scale_stream cfg")
    case True
    let ?n = "sz_result_bytes (sizes_of tp)"
    let ?dv = "vpu_select_banks b b dv"
    have dv': "?set ?dv" by (rule set_for_select[OF dv])
    have "wp T (fpga_dma_copy hw cfg (DDR_BASE_PHYS + ucast RESULT_BASE) (LMM_BASE_PHYS + ucast RESULT_BASE) ?n) (wp T ?acted Q) (st d' ?dv (en_mem s) k)"
      if z: "ddr_zero_range32 RESULT_BASE ?n (en_ddr s) = Some d'" for d'
    proof -
      have d': "same_outside 0x200000 0x210000 (en_ddr s) d'" using zero_range[OF z, of "0x210000"] p(2,6) by simp
      show ?thesis
        unfolding st_def
      proof (rule wp_load[where bk = 0])
        show "ddr_ready d'" using same_outside_facts(1)[OF d'] d by simp
        show "dma_responds hw cfg \<and> ?n \<noteq> 0 \<and> unat RESULT_BASE + unat ?n \<le> 0x3C0000" if T
          using T[OF that] p(2,3,6) by (auto simp: unat_eq_0)
        show "device_bank (dv_regs ?dv) (unat RESULT_BASE + k) = 0" for k by (simp add: device_bank_def)
        fix k'
        let ?m = "load_bank 0 (unat RESULT_BASE) (unat ?n) (\<lambda>k. dm_bytes d' ! (unat RESULT_BASE + k)) (en_mem s)"
        have "window (?m ?B) WEIGHT_BASE (weight_len tp) = window (en_mem s ?B) WEIGHT_BASE (weight_len tp)"
          using n(11) by (subst window_other) simp_all
        moreover have "keeps_other_weights ?B (en_mem s) ?m" by (simp add: keeps_other_weights_def)
        ultimately show "wp T ?acted Q (s\<lparr>en_ddr := d', en_dev := ?dv, en_mem := ?m, en_transfers := k'\<rparr>)"
          using acted[OF d' dv'] unfolding st_def by blast
      qed
    qed
    moreover have "T \<Longrightarrow> ddr_zero_range32 RESULT_BASE ?n (en_ddr s) \<noteq> None"
    proof -
      have "ddr_ptr RESULT_BASE ?n (en_ddr s) = Some 0x200000"
        using p(2,3,6) ddr_ready_facts(1,4)[OF d] ddr_range_fits_value[OF ddr_ready_facts(2)[OF d]] by (simp add: ddr_ptr_def)
      moreover have "?n AND 3 = 0" by (rule low_bits_clear[where k = "padded_scale_len tp div 4"]) (simp only: p(6), simp add: padded_scale_len_def)
      ultimately show ?thesis by (simp add: ddr_zero_range32_def)
    qed
    ultimately show ?thesis
      using True by (auto simp: wp_clear_result st jf fpga_dma_write_to_ip_def wp_on_ddr wp_on_device split: option.splits)
  next
    case False
    then have "wp T (clear_result hw cfg i) (wp T ?acted Q) (st (en_ddr s) dv (en_mem s) k) = wp T ?acted Q (st (en_ddr s) dv (en_mem s) k)"
      by (simp only: wp_clear_result if_False)
    moreover have "keeps_other_weights ?B (en_mem s) (en_mem s)" by (simp add: keeps_other_weights_def)
    ultimately show ?thesis using acted[OF same_outside_refl dv, of "en_mem s"] by (simp only:)
  qed
  let ?mode = "1 OR (if rc_scale_stream cfg then 0x10 else 0) :: u32"
  let ?dv1 = "vpu_write_tile_descriptor (tile_of ?job) SLOT_DMA_FILLING SLOT_FREE 0x101
      (configure_vpu hw (tj_rows ?job) (tj_group_beats ?job) ?mode (vpu_wr32 REG_CTRL CTRL_CLEAR_DONE (vpu_select_banks b b (en_dev s))))"
  have dv1: "?set ?dv1" by (rule configure_sets[OF keeps _ job]) (use T in simp)
  have dv2: "?set (snd (fpga_commit_p2_dma_filling_descriptor (hw_regs hw) (tile_of ?job) ?dv1))" by (rule set_for_commit[OF keeps ans dv1])
  have commit: "fst (fpga_commit_p2_dma_filling_descriptor (hw_regs hw) (tile_of ?job) ?dv1)" if T
  proof (rule commit_passes)
    let ?c = "configure_vpu hw (tj_rows ?job) (tj_group_beats ?job) ?mode (vpu_wr32 REG_CTRL CTRL_CLEAR_DONE (vpu_select_banks b b (en_dev s)))"
    show "answers hw" by (rule ans[OF that])
    show "up ?c" using T[OF that] by (simp add: configure_vpu_def up_rules)
    have "dv_pingpong_supported (en_dev s)" using T[OF that] by (simp add: up_def)
    moreover have "dv_regs ?c REG_BANK = dv_regs (vpu_select_banks b b (en_dev s)) REG_BANK"
      by (simp add: configure_vpu_def mmio_fence_def keeps_regs[OF keeps] vpu_wr32_def)
    ultimately show "dv_regs ?c REG_BANK = expected_bank_word (tj_bank (tile_of ?job))"
      by (simp add: selected_word jf tile_job.defs)
  qed
  have valid: "wp T (job_still_valid i) R s = R s" for R
    by (simp add: wp_def job_still_valid_def residency_job_still_valid_def jf tile_job.defs)
  define l :: "'a step list" where "l = [job_still_valid i,
      on_device (\<lambda>dv. vpu_write_tile_descriptor (tile_of ?job) SLOT_DMA_FILLING SLOT_FREE 0x101 (configure_vpu hw (tj_rows ?job)
        (tj_group_beats ?job) ?mode (vpu_wr32 REG_CTRL CTRL_CLEAR_DONE (vpu_select_banks b b dv)))),
      ask_device (fpga_commit_p2_dma_filling_descriptor (hw_regs hw) (tile_of ?job)), clear_result hw cfg i,
      on_device (vpu_select_banks b b), fpga_dma_write_to_ip hw cfg ACT_BASE (sz_act_bytes (sizes_of tp)),
      on_device (vpu_select_banks b b), copy_weights hw cfg i, ?quiet, ?scales,
      modify (record_counters i), on_device (vpu_write_tile_descriptor (tile_of ?job) SLOT_COMPUTING SLOT_FREE 0x101),
      on_device (mmio_fence (hw_regs hw)), check_that (\<lambda>_. hw_worker_ok hw), modify start_device, on_device (mmio_fence (hw_regs hw))]"
  have "fpga_submit_q8_tile_job hw cfg i s = all_steps l s" by (simp only: fpga_submit_q8_tile_job_def Let_def jf l_def)
  then have "wp T (fpga_submit_q8_tile_job hw cfg i) Q s = wp T (all_steps l) Q s" by (simp only: wp_def)
  also have "\<dots> = wp T (job_still_valid i) (wp T (on_device (\<lambda>dv. vpu_write_tile_descriptor (tile_of ?job)
      SLOT_DMA_FILLING SLOT_FREE 0x101 (configure_vpu hw (tj_rows ?job) (tj_group_beats ?job) ?mode (vpu_wr32 REG_CTRL CTRL_CLEAR_DONE
        (vpu_select_banks b b dv))))) (wp T (ask_device (fpga_commit_p2_dma_filling_descriptor (hw_regs hw) (tile_of ?job)))
      (wp T (clear_result hw cfg i) (wp T ?acted Q)))) s"
    by (simp only: wp_steps l_def start_steps_def)
  also have "\<dots>"
    using commit cleared[OF dv2, of "en_transfers s"] by (auto simp: valid wp_on_device wp_ask_device st_def)
  finally show ?thesis .
qed

end
