(* ===== verification/Fpga_Matmul.thy ===== *)
theory Fpga_Matmul
  imports Fpga_Launch
begin

text \<open>
  The two schedulers of a matrix product (\<^verbatim>\<open>ggml/src/ggml-cpu/fpga_host.cpp\<close>): one job at a time on bank 0, and
  the ping-pong scheduler, which prepares a job while the other computes, reuses weights left in a bank, reads
  results while the next job runs, and carries a running job over to the next row tile; and the choice between
  them. Contract checking is off, the driver's default, and the next tile is not packed during a DMA
  (see theory \<open>Fpga_Job\<close>). The quantized activations are an operand.
\<close>

subsection \<open>Loop bodies the schedulers share\<close>

definition place_of :: "operands \<Rightarrow> int \<Rightarrow> int \<Rightarrow> int \<Rightarrow> int \<Rightarrow> int \<Rightarrow> int \<Rightarrow> tile_place" where
  "place_of ops nb row0 rows ib0 group_blocks col = \<lparr>tp_row0 = row0, tp_rows = rows, tp_k_block0 = ib0,
     tp_group_blocks = group_blocks, tp_col = col, tp_act_group = op_act_base ops + (col * nb + ib0) * Q8_BLOCK_BYTES\<rparr>"

definition clear_accum :: "'f float_ops \<Rightarrow> int \<Rightarrow> int \<Rightarrow> 'f engine \<Rightarrow> 'f engine" where
  "clear_accum fl m rows s = s\<lparr>en_accum := replicate (nat (m * rows)) (fl_zero fl)\<rparr>"

definition store_dst_value :: "operands \<Rightarrow> nat \<Rightarrow> nat \<Rightarrow> 'f \<Rightarrow> (nat \<Rightarrow> 'f) \<Rightarrow> nat \<Rightarrow> 'f" where
  "store_dst_value ops row col v dst = dst(row * op_nb0 ops + col * op_nb1 ops := v)"

definition store_row :: "operands \<Rightarrow> nat \<Rightarrow> nat \<Rightarrow> nat \<Rightarrow> nat \<Rightarrow> 'f step" where
  "store_row ops row0 rows col row s = do { v \<leftarrow> read_at (col * rows + row) (en_accum s);
     Some (True, s\<lparr>en_dst := store_dst_value ops (row0 + row) col v (en_dst s)\<rparr>) }"

definition store_rows :: "operands \<Rightarrow> int \<Rightarrow> int \<Rightarrow> int \<Rightarrow> 'f step" where
  "store_rows ops m row0 rows =
     all_steps (map (\<lambda>col. all_steps (map (store_row ops (nat row0) (nat rows) col) [0..<nat rows])) [0..<nat m])"

subsection \<open>One job at a time\<close>

definition single_bank_tile :: "'f float_ops \<Rightarrow> hardware \<Rightarrow> run_config \<Rightarrow> operands \<Rightarrow> cached_tile list option \<Rightarrow> tile_place \<Rightarrow> 'f step" where
  "single_bank_tile fl hw cfg ops wc tp = all_steps
     [modify (\<lambda>s. s\<lparr>en_slots := [blank_job]\<rparr>),
      fpga_prepare_q8_tile_job hw cfg ops wc tp 0 False WEIGHT_BASE SPU_PARAM_BASE 0,
      fpga_submit_q8_tile_job hw cfg 0,
      fpga_wait_and_drain_q8_tile_job hw cfg 0,
      fpga_accumulate_pl_scaled_q8_tile_job fl hw 0 True,
      modify (\<lambda>s. s\<lparr>en_tile_id := en_tile_id s + 1\<rparr>)]"

definition fpga_hw_q8_0_matmul_single_bank :: "'f float_ops \<Rightarrow> hardware \<Rightarrow> run_config \<Rightarrow> operands \<Rightarrow> cached_tile list option
    \<Rightarrow> int \<Rightarrow> int \<Rightarrow> int \<Rightarrow> 'f step" where
  "fpga_hw_q8_0_matmul_single_bank fl hw cfg ops wc n m nb =
     and_then (fpga_enforce_p2_stream_mode hw) (and_then (modify (\<lambda>s. s\<lparr>en_tile_id := 0, en_tile_index := 0\<rparr>))
       (all_steps (map (\<lambda>(row0, rows). all_steps
         [modify (clear_accum fl m rows),
          all_steps (map (\<lambda>(ib0, group_blocks). all_steps
            [all_steps (map (\<lambda>col. single_bank_tile fl hw cfg ops wc (place_of ops nb row0 rows ib0 group_blocks (int col))) [0..<nat m]),
             modify (\<lambda>s. s\<lparr>en_tile_index := en_tile_index s + 1\<rparr>)]) (k_groups (rc_limits cfg) rows nb 0)),
          store_rows ops m row0 rows]) (row_tiles (rc_limits cfg) n 0))))"

subsection \<open>Ping-pong\<close>

definition overlap_results :: "run_config \<Rightarrow> 'f engine \<Rightarrow> bool" where
  "overlap_results cfg s \<longleftrightarrow> rc_result_overlap cfg \<and> dv_descriptor_supported (en_dev s)"

text \<open>May the running job be carried over to the next row tile: only when that costs no chance to build a resident tile.\<close>

definition can_carry_to_row :: "run_config \<Rightarrow> int \<Rightarrow> int \<Rightarrow> int \<Rightarrow> 'f engine \<Rightarrow> bool" where
  "can_carry_to_row cfg m nb next_rows s =
     (let rs = en_dir s in
      if \<not> overlap_results cfg s \<or> m \<noteq> 1 then False
      else if \<not> rs_enabled rs \<or> rs_next_slot rs \<ge> length (rs_tiles rs) then True
      else let blocks = packed_q8_group_blocks_for_rows (rc_limits cfg) next_rows nb
        in case (residency_align_up (weight_window_bytes_for_rows next_rows (blocks * 2)) WEIGHT_CACHE_ALIGN,
                 residency_align_up (word_of_int next_rows * word_of_int blocks * 2) WEIGHT_CACHE_ALIGN) of
          (Some qs_padded, Some scales_padded) \<Rightarrow>
            if qs_padded > SIZE_MAX - scales_padded \<or> rs_budget_mb rs < 0 then False
            else let budget_end = ucast WEIGHT_CACHE_BASE + word_of_int (rs_budget_mb rs) * 1024 * 1024 :: u64
              in if budget_end > P2_WEIGHT_RESIDENCY_END then False
                 else residency_range_end (rs_next_off rs) (qs_padded + scales_padded) (ucast budget_end) = None
        | _ \<Rightarrow> False)"

text \<open>The running job is drained, the prepared one submitted; the results of the first are read before or after.\<close>

definition hand_over :: "'f float_ops \<Rightarrow> hardware \<Rightarrow> run_config \<Rightarrow> operands \<Rightarrow> int \<Rightarrow> int \<Rightarrow> int \<Rightarrow> nat \<Rightarrow> nat \<Rightarrow> 'f step" where
  "hand_over fl hw cfg ops m row0 rows r i s =
     (let overlap = overlap_results cfg s in all_steps
        [fpga_wait_and_drain_q8_tile_job hw cfg r,
         (if overlap then fpga_release_pl_scaled_q8_tile_job hw r True else fpga_accumulate_pl_scaled_q8_tile_job fl hw r True),
         fpga_submit_q8_tile_job hw cfg i,
         (if overlap then fpga_accumulate_pl_scaled_q8_tile_job fl hw r False else (\<lambda>s. Some (True, s))),
         (\<lambda>s. if tj_row0 (job_at r s) \<noteq> row0
              then and_then (store_rows ops m (tj_row0 (job_at r s)) (tj_rows (job_at r s))) (modify (clear_accum fl m rows)) s
              else Some (True, s))] s)"

definition pingpong_tile :: "'f float_ops \<Rightarrow> hardware \<Rightarrow> run_config \<Rightarrow> operands \<Rightarrow> cached_tile list option \<Rightarrow> int \<Rightarrow> tile_place \<Rightarrow> 'f step" where
  "pingpong_tile fl hw cfg ops wc m tp s =
     (let i = unat (en_tile_id s AND 1) in all_steps
        [fpga_prepare_q8_tile_job hw cfg ops wc tp (int i) (m > 1) WEIGHT_BASE SPU_PARAM_BASE i,
         modify (\<lambda>s. set_job i (\<lambda>job. job\<lparr>qj_weight_bank_reused := m > 1 \<and> en_loaded s ! i\<rparr>) s),
         (\<lambda>s. case en_running s of
            Some r \<Rightarrow> hand_over fl hw cfg ops m (tp_row0 tp) (tp_rows tp) r i s
          | None \<Rightarrow> fpga_submit_q8_tile_job hw cfg i s),
         modify (\<lambda>s. s\<lparr>en_running := Some i, en_loaded := (en_loaded s)[i := True], en_tile_id := en_tile_id s + 1\<rparr>)] s)"

definition pingpong_group :: "'f float_ops \<Rightarrow> hardware \<Rightarrow> run_config \<Rightarrow> operands \<Rightarrow> cached_tile list option \<Rightarrow> int \<Rightarrow> int \<Rightarrow> int \<Rightarrow> int
    \<Rightarrow> int \<times> int \<Rightarrow> 'f step" where
  "pingpong_group fl hw cfg ops wc m nb row0 rows = (\<lambda>(ib0, group_blocks). all_steps
     [modify (\<lambda>s. s\<lparr>en_staging := no_staging, en_loaded := [False, False]\<rparr>),
      all_steps (map (\<lambda>col. pingpong_tile fl hw cfg ops wc m (place_of ops nb row0 rows ib0 group_blocks (int col))) [0..<nat m]),
      modify (\<lambda>s. s\<lparr>en_tile_index := en_tile_index s + 1\<rparr>)])"

text \<open>The end of a row tile: carry the running job over, or drain it and store the rows.\<close>

definition finish_row :: "'f float_ops \<Rightarrow> hardware \<Rightarrow> run_config \<Rightarrow> operands \<Rightarrow> int \<Rightarrow> int \<Rightarrow> int \<Rightarrow> int \<Rightarrow> int \<Rightarrow> 'f step" where
  "finish_row fl hw cfg ops n m nb row0 rows s =
     (let next_row0 = row0 + rows in
      if en_running s \<noteq> None \<and> next_row0 < n
         \<and> can_carry_to_row cfg m nb (min (vl_max_rows (rc_limits cfg)) (n - next_row0)) s
      then Some (True, s)
      else and_then (case en_running s of
          Some r \<Rightarrow> all_steps [fpga_wait_and_drain_q8_tile_job hw cfg r, fpga_accumulate_pl_scaled_q8_tile_job fl hw r True,
             modify (\<lambda>s. s\<lparr>en_running := None\<rparr>)]
        | None \<Rightarrow> (\<lambda>s. Some (True, s))) (store_rows ops m row0 rows) s)"

definition pingpong_row :: "'f float_ops \<Rightarrow> hardware \<Rightarrow> run_config \<Rightarrow> operands \<Rightarrow> cached_tile list option \<Rightarrow> int \<Rightarrow> int \<Rightarrow> int
    \<Rightarrow> int \<times> int \<Rightarrow> 'f step" where
  "pingpong_row fl hw cfg ops wc n m nb = (\<lambda>(row0, rows). all_steps
     [(\<lambda>s. Some (True, if en_running s = None then clear_accum fl m rows s else s)),
      all_steps (map (pingpong_group fl hw cfg ops wc m nb row0 rows) (k_groups (rc_limits cfg) rows nb 0)),
      finish_row fl hw cfg ops n m nb row0 rows])"

definition fpga_hw_q8_0_matmul_pipelined :: "'f float_ops \<Rightarrow> hardware \<Rightarrow> run_config \<Rightarrow> operands \<Rightarrow> cached_tile list option
    \<Rightarrow> int \<Rightarrow> int \<Rightarrow> int \<Rightarrow> 'f step" where
  "fpga_hw_q8_0_matmul_pipelined fl hw cfg ops wc n m nb =
     and_then (modify (\<lambda>s. s\<lparr>en_tile_id := 0, en_tile_index := 0, en_slots := [blank_job, blank_job], en_running := None\<rparr>))
       (all_steps (map (pingpong_row fl hw cfg ops wc n m nb) (row_tiles (rc_limits cfg) n 0)))"

text \<open>The choice of the scheduler, after the quantization of the activations, when the device scales the rows.\<close>

definition fpga_hw_q8_0_matmul_dma_to_ip :: "'f float_ops \<Rightarrow> hardware \<Rightarrow> run_config \<Rightarrow> operands \<Rightarrow> cached_tile list option
    \<Rightarrow> int \<Rightarrow> int \<Rightarrow> int \<Rightarrow> 'f step" where
  "fpga_hw_q8_0_matmul_dma_to_ip fl hw cfg ops wc k n m =
     (let nb = k div 32 in
      and_then (fpga_enforce_p2_stream_mode hw)
        (if rc_pingpong cfg then fpga_hw_q8_0_matmul_pipelined fl hw cfg ops wc n m nb
         else fpga_hw_q8_0_matmul_single_bank fl hw cfg ops wc n m nb))"

end
