(* ===== verification/Fpga_Drain.thy ===== *)
theory Fpga_Drain
  imports Fpga_Submit Fpga_Matmul
begin

text \<open>
  Collecting a job: draining brings the rows the device computed from the inputs of the tile, releasing changes
  nothing else, accumulating adds the scaled rows to the accumulators of the column, storing writes them out.
\<close>

subsection \<open>Result rows\<close>

definition row_word :: "(nat \<Rightarrow> u8) \<Rightarrow> nat \<Rightarrow> u32" where
  "row_word f p = pack_i8x4_le (\<lambda>i. f (p + i))"

text \<open>A row as the device writes it: its number and its value, a signed number in 16 fraction bits.\<close>

definition spu_row :: "(nat \<Rightarrow> u8) \<Rightarrow> nat \<Rightarrow> u16 \<times> int" where
  "spu_row f r = (ucast (row_word f (16 * r)), sint (ucast (drop_bit 16 (row_word f (16 * r))) OR push_bit 16 (ucast (row_word f (16 * r + 4)))
     OR push_bit 48 (ucast (row_word f (16 * r + 8))) :: u64))"

definition numbers_rows :: "hardware \<Rightarrow> bool" where
  "numbers_rows hw \<longleftrightarrow> (\<forall>inp. \<forall>r < ti_rows inp. fst (spu_row (hw_spu hw inp inp) r) = of_nat r)"

text \<open>The value of a row of a tile, and the accumulators after its rows were added.\<close>

definition tile_value :: "hardware \<Rightarrow> operands \<Rightarrow> tile_place \<Rightarrow> nat \<Rightarrow> int" where
  "tile_value hw ops tp r = snd (spu_row (hw_spu hw (place_input ops tp) (place_input ops tp)) r)"

definition add_value :: "'f float_ops \<Rightarrow> hardware \<Rightarrow> operands \<Rightarrow> tile_place \<Rightarrow> nat \<Rightarrow> 'f \<Rightarrow> 'f" where
  "add_value fl hw ops tp r a = fl_add fl a (fl_mul fl (fl_int fl (tile_value hw ops tp r)) (fl_bits fl 0x37800000))"

definition add_tile :: "'f float_ops \<Rightarrow> hardware \<Rightarrow> operands \<Rightarrow> tile_place \<Rightarrow> 'f list \<Rightarrow> 'f list" where
  "add_tile fl hw ops tp acc = fold (\<lambda>r acc. let k = nat (tp_col tp * tp_rows tp) + r in acc[k := add_value fl hw ops tp r (acc ! k)])
     [0..<nat (tp_rows tp)] acc"

lemma row_read:
  assumes d: "ddr_ready d" and row: "r < 256" "16 * r + 16 \<le> n" and st: "staged 0x340000 n d = map f [0..<n]"
  shows "ddr_read_spu_q16_row (SPU_OUT_BASE + of_nat r * 16) False d = Some (spu_row f r)"
proof -
  have r: "unat (of_nat r :: u32) = r" using row(1) by (intro small_words) simp
  then have m: "unat (of_nat r * 16 :: u32) = r * 16" using row(1) by (subst unat_mult_no_overflow) simp_all
  have off: "unat (SPU_OUT_BASE + of_nat r * 16 :: u32) = 0x340000 + 16 * r" using row(1) m by (subst unat_add_no_overflow) simp_all
  have byte: "dm_bytes d ! (0x340000 + k) = f k" if "k < n" for k
  proof -
    have "staged 0x340000 n d ! k = map f [0..<n] ! k" by (simp only: st)
    then show ?thesis using that by (simp add: staged_def)
  qed
  have words: "load_words (0x340000 + 16 * r) 3 (dm_bytes d) = [row_word f (16 * r), row_word f (16 * r + 4), row_word f (16 * r + 8)]"
  proof -
    have "load32 (0x340000 + 16 * r + 4 * j) (dm_bytes d) = row_word f (16 * r + 4 * j)" if "j < 3" for j
    proof -
      have "dm_bytes d ! (0x340000 + 16 * r + 4 * j + k) = f (16 * r + 4 * j + k)" if "k < 4" for k
        using byte[of "16 * r + 4 * j + k"] \<open>j < 3\<close> that row(2) by (simp add: add.assoc)
      from this[of 0] this[of 1] this[of 2] this[of 3] show ?thesis by (simp add: load32_def row_word_def pack_i8x4_le_def)
    qed
    from this[of 0] this[of 1] this[of 2] show ?thesis by (simp add: load_words_def numeral_3_eq_3)
  qed
  show ?thesis
    unfolding spu_row_def
  proof (rule spu_row_exact)
    show "ddr_ok d" "dm_mapped d" using ddr_ready_facts[OF d] by simp_all
    show "(SPU_OUT_BASE + of_nat r * 16 :: u32) AND 3 = 0" by (rule low_bits_clear[where k = "0xD0000 + 4 * r"]) (simp add: off)
    show "unat (SPU_OUT_BASE + of_nat r * 16 :: u32) + 16 \<le> length (dm_bytes d)" using ddr_ready_facts(4)[OF d] row(1) by (simp add: off)
    show "load_words (unat (SPU_OUT_BASE + of_nat r * 16 :: u32)) 3 (dm_bytes d)
      = [row_word f (16 * r), row_word f (16 * r + 4), row_word f (16 * r + 8)]" unfolding off by (rule words)
  qed
qed

subsection \<open>Draining\<close>

text \<open>The handlers as sequences.\<close>

lemma wp_handlers:
  "wp T (fpga_wait_and_drain_q8_tile_job hw cfg i) Q s = (let job = job_at i s; t = tile_of job in wp T (all_steps
     [check_that (\<lambda>_. \<not> (qj_output_dma_ready job \<or> qj_hardware_released job \<or> qj_result_consumed job)),
      ask_device (fpga_measure_q8_compute_completion hw job), ask_device (vpu_finished hw), check_that (\<lambda>s. vpu_verify_done_job t (en_dev s)),
      ask_device (wait_spu_stream_outputs hw job (hw_polls hw)),
      ask_device (fpga_write_post_spu_descriptor (hw_regs hw) t SLOT_FREE SLOT_DMA_DRAINING 0x101 False False),
      on_device (vpu_select_banks (tj_bank job) (tj_bank job)), fpga_dma_read_from_ip hw cfg SPU_OUT_BASE (qj_spu_result_bytes job),
      ask_device (fpga_write_post_spu_descriptor (hw_regs hw) t SLOT_FREE SLOT_HOST_CONSUMING 0x101 False False),
      modify (set_job i (\<lambda>job. job\<lparr>qj_output_dma_ready := True\<rparr>))]) Q s)"
  "wp T (fpga_release_pl_scaled_q8_tile_job hw i p) Q s = (let job = job_at i s in wp T (all_steps
     [check_that (\<lambda>_. \<not> (\<not> qj_output_dma_ready job \<or> qj_hardware_released job \<or> (\<not> qj_result_consumed job \<and> \<not> p))),
      ask_device (fpga_write_post_spu_descriptor (hw_regs hw) (tile_of job) SLOT_FREE SLOT_FREE 0 True p),
      modify (set_job i (\<lambda>job. job\<lparr>qj_hardware_released := True\<rparr>))]) Q s)"
  "wp T (fpga_accumulate_pl_scaled_q8_tile_job fl hw i r) Q s = (let job = job_at i s in wp T (all_steps
     [check_that (\<lambda>_. \<not> (\<not> qj_output_dma_ready job \<or> qj_result_consumed job \<or> qj_hardware_released job = r)),
      all_steps (map (accumulate_row fl i) [0..<nat (tj_rows job)]), modify (set_job i (\<lambda>job. job\<lparr>qj_result_consumed := True\<rparr>)),
      (if r then fpga_release_pl_scaled_q8_tile_job hw i False else (\<lambda>s. Some (True, s)))]) Q s)"
  by (simp_all only: wp_def Let_def fpga_wait_and_drain_q8_tile_job_def fpga_release_pl_scaled_q8_tile_job_def
      fpga_accumulate_pl_scaled_q8_tile_job_def)

definition collected :: "tile_place \<Rightarrow> int \<Rightarrow> bool \<Rightarrow> q8_job \<Rightarrow> bool" where
  "collected tp b released job \<longleftrightarrow> tj_bank job = b \<and> tj_row0 job = tp_row0 tp \<and> tj_rows job = tp_rows tp \<and> qj_col job = tp_col tp
     \<and> qj_output_dma_ready job = True \<and> qj_hardware_released job = released \<and> qj_result_consumed job = False"

text \<open>The device after a drain: the bank of the job is still selected.\<close>

definition drained :: "int \<Rightarrow> device \<Rightarrow> bool" where
  "drained b dv \<longleftrightarrow> up dv \<and> dv_regs dv REG_BANK = expected_bank_word b"

lemma drained_post:
  assumes "answers hw" "drained b dv"
  shows "drained b (snd (fpga_write_post_spu_descriptor (hw_regs hw) t x y f p q dv))"
proof -
  have "dv_regs (snd (fpga_write_post_spu_descriptor (hw_regs hw) t x y f p q dv)) REG_BANK = dv_regs dv REG_BANK"
    using calm_post[OF answers_regs(9)[OF assms(1)] calm_refl] by (simp add: calm_def)
  then show ?thesis using assms by (simp add: drained_def up_post)
qed

lemma wp_drain:
  assumes ok: "tile_ok vl ops tp" and d: "ddr_ready (en_ddr s)" and job: "job_for tp b (job_at i s)" and i: "i < length (en_slots s)"
    and keeps: "keeps hw" and T: "T \<Longrightarrow> answers hw \<and> dma_responds hw cfg \<and> finished (job_at i s) (en_dev s)"
    and run: "en_job s = Some (bk, place_input ops tp)"
    and inp: "tile_snapshot bk (nat (tp_rows tp)) (nat (tp_group_blocks tp) * 2) (en_mem s) = place_input ops tp"
    and Q: "\<And>d' dv' n' job'. same_outside 0x340000 0x380000 (en_ddr s) d'
      \<Longrightarrow> staged 0x340000 (nat (tp_rows tp) * 16) d' = map (hw_spu hw (place_input ops tp) (place_input ops tp)) [0..<nat (tp_rows tp) * 16]
      \<Longrightarrow> sel dv' = sel (en_dev s) \<Longrightarrow> (T \<Longrightarrow> drained b dv') \<Longrightarrow> collected tp b False job'
      \<Longrightarrow> Q (s\<lparr>en_ddr := d', en_dev := dv', en_transfers := n', en_slots := (en_slots s)[i := job']\<rparr>)"
  shows "wp T (fpga_wait_and_drain_q8_tile_job hw cfg i) Q s"
proof -
  let ?job = "job_at i s" and ?inp = "place_input ops tp" and ?R = "nat (tp_rows tp)"
  let ?t = "tile_of ?job"
  note n = tile_sizes_nat[OF ok] and u = sizes_unat[OF ok]
  have jf: "qj_output_dma_ready ?job = False" "qj_hardware_released ?job = False" "qj_result_consumed ?job = False" "tj_bank ?job = b"
    "qj_spu_result_bytes ?job = sz_spu_result_bytes (sizes_of tp)" using job by (simp_all add: job_for_def)
  define dv1 where "dv1 = snd (fpga_measure_q8_compute_completion hw ?job (en_dev s))"
  define dv2 where "dv2 = snd (vpu_finished hw dv1)"
  define dv3 where "dv3 = snd (wait_spu_stream_outputs hw ?job (hw_polls hw) dv2)"
  define dv4 where "dv4 = snd (fpga_write_post_spu_descriptor (hw_regs hw) ?t SLOT_FREE SLOT_DMA_DRAINING 0x101 False False dv3)"
  define dv5 where "dv5 = vpu_select_banks b b dv4"
  define dv6 where "dv6 = snd (fpga_write_post_spu_descriptor (hw_regs hw) ?t SLOT_FREE SLOT_HOST_CONSUMING 0x101 False False dv5)"
  have calm4: "calm (en_dev s) dv4" unfolding dv1_def dv2_def dv3_def dv4_def by (intro calm_rules keeps calm_refl)
  have sel6: "sel dv6 = sel (en_dev s)"
    unfolding dv6_def using sel_calm[OF calm_post[OF keeps calm_refl, of dv5]] sel_calm[OF calm4] by (simp add: dv5_def)
  have live: "fst (fpga_measure_q8_compute_completion hw ?job (en_dev s)) \<and> fst (vpu_finished hw dv1) \<and> vpu_verify_done_job ?t dv2
      \<and> fst (wait_spu_stream_outputs hw ?job (hw_polls hw) dv2) \<and> dv3 = en_dev s" if T
    using finished_waits[of hw ?job "en_dev s"] T[OF that] by (simp add: dv1_def dv2_def dv3_def)
  have post: "fst (fpga_write_post_spu_descriptor (hw_regs hw) ?t x y 0x101 False False dv)" for x y dv
    by (simp add: fpga_write_post_spu_descriptor_def Let_def)
  have "drained b dv5" if T
  proof -
    have "up dv4" unfolding dv4_def using T[OF that] live[OF that] by (intro up_post) (simp_all add: finished_def)
    then show ?thesis by (simp add: drained_def dv5_def up_select selected_word up_def)
  qed
  then have drained6: "T \<Longrightarrow> drained b dv6" unfolding dv6_def using T drained_post by blast
  let ?rest = "all_steps [ask_device (fpga_write_post_spu_descriptor (hw_regs hw) ?t SLOT_FREE SLOT_HOST_CONSUMING 0x101 False False),
      modify (set_job i (\<lambda>job. job\<lparr>qj_output_dma_ready := True\<rparr>))]"
  have read: "wp T (fpga_dma_read_from_ip hw cfg SPU_OUT_BASE (sz_spu_result_bytes (sizes_of tp)))
      (wp T ?rest Q) (s\<lparr>en_dev := dv5\<rparr>)"
    unfolding fpga_dma_read_from_ip_def
  proof (rule wp_copy_out)
    show "ddr_ready (en_ddr (s\<lparr>en_dev := dv5\<rparr>))" using d by simp
    show "dma_responds hw cfg \<and> sz_spu_result_bytes (sizes_of tp) \<noteq> 0 \<and> unat SPU_OUT_BASE + unat (sz_spu_result_bytes (sizes_of tp)) \<le> 0x3C0000
        \<and> unat SPU_OUT_BASE + unat (sz_spu_result_bytes (sizes_of tp)) \<le> 0x3C0000" if T
      using T[OF that] n(1,2) u(6) by (auto simp: unat_eq_0)
    fix k
    let ?s = "s\<lparr>en_dev := dv5, en_transfers := k\<rparr>"
    let ?xs = "map (\<lambda>j. device_byte hw ?s (unat SPU_OUT_BASE + j)) [0..<unat (sz_spu_result_bytes (sizes_of tp))]"
    let ?d' = "(en_ddr s)\<lparr>dm_bytes := put_bytes (unat SPU_OUT_BASE) ?xs (dm_bytes (en_ddr s))\<rparr>"
    have xs: "?xs = map (hw_spu hw ?inp ?inp) [0..<?R * 16]"
    proof -
      have "ti_rows ?inp = ?R" "ti_beats ?inp = nat (tp_group_blocks tp) * 2" by (simp_all add: place_input_def)
      then have "device_byte hw ?s (unat SPU_OUT_BASE + j) = hw_spu hw ?inp ?inp j" if "j < ?R * 16" for j
        using that n(2) by (simp add: device_byte_def run inp)
      then show ?thesis by (simp add: u(6))
    qed
    have len: "length ?xs = ?R * 16" by (simp add: u(6))
    have room: "0x340000 + ?R * 16 \<le> length (dm_bytes (en_ddr s))" using ddr_ready_facts(4)[OF d] n(2) by linarith
    have out: "same_outside 0x340000 0x380000 (en_ddr s) ?d'"
      using room len n(2) by (auto simp: same_outside_def put_bytes_def nth_append)
    have st: "staged 0x340000 (?R * 16) ?d' = map (hw_spu hw ?inp ?inp) [0..<?R * 16]"
    proof -
      have "staged 0x340000 (?R * 16) ?d' = ?xs"
        using room len by (intro nth_equalityI) (simp_all add: staged_def put_bytes_def nth_append)
      then show ?thesis by (simp only: xs)
    qed
    have col: "collected tp b False (?job\<lparr>qj_output_dma_ready := True\<rparr>)" using job by (simp add: collected_def job_for_def)
    let ?r = "dma_from_device hw (unat SPU_OUT_BASE) (unat SPU_OUT_BASE) (unat (sz_spu_result_bytes (sizes_of tp))) (s\<lparr>en_dev := dv5, en_transfers := k\<rparr>)"
    have r: "?r = s\<lparr>en_ddr := ?d', en_dev := dv5, en_transfers := k\<rparr>" by (simp add: dma_from_device_def)
    have order: "s\<lparr>en_ddr := x, en_transfers := y, en_dev := z, en_slots := l\<rparr> = s\<lparr>en_ddr := x, en_dev := z, en_transfers := y, en_slots := l\<rparr>" for x y z l
      by simp
    have "wp T ?rest Q ?r = Q (s\<lparr>en_ddr := ?d', en_dev := dv6, en_transfers := k, en_slots := (en_slots s)[i := ?job\<lparr>qj_output_dma_ready := True\<rparr>]\<rparr>)"
      unfolding r by (simp add: wp_steps wp_ask_device wp_modify post set_job_def order flip: dv6_def)
    then show "wp T ?rest Q (dma_from_device hw (unat SPU_OUT_BASE) (unat SPU_OUT_BASE) (unat (sz_spu_result_bytes (sizes_of tp)))
        (s\<lparr>en_dev := dv5, en_transfers := k\<rparr>))"
      using Q[OF out st sel6 drained6 col] by simp
  qed
  show ?thesis
    unfolding wp_handlers(1) Let_def jf
    using read live by (auto simp: wp_steps wp_rules wp_ask_device post simp flip: dv1_def dv2_def dv3_def dv4_def dv5_def)
qed

subsection \<open>Releasing\<close>

lemma wp_release:
  assumes i: "i < length (en_slots s)" and job: "collected tp b False (job_at i s)" and keeps: "keeps hw" and T: "T \<Longrightarrow> answers hw \<and> drained b (en_dev s)"
    and Q: "\<And>dv'. sel dv' = sel (en_dev s) \<Longrightarrow> (T \<Longrightarrow> drained b dv')
      \<Longrightarrow> Q (s\<lparr>en_dev := dv', en_slots := (en_slots s)[i := (job_at i s)\<lparr>qj_hardware_released := True\<rparr>]\<rparr>)"
  shows "wp T (fpga_release_pl_scaled_q8_tile_job hw i True) Q s"
proof -
  let ?post = "fpga_write_post_spu_descriptor (hw_regs hw) (tile_of (job_at i s)) SLOT_FREE SLOT_FREE 0 True True (en_dev s)"
  have b: "tj_bank (tile_of (job_at i s)) = b" using job by (simp add: collected_def tile_job.defs)
  have "T \<Longrightarrow> fst ?post" using T release_passes[of hw "en_dev s" "tile_of (job_at i s)"] b by (simp add: drained_def)
  moreover have "sel (snd ?post) = sel (en_dev s)" by (rule sel_calm[OF calm_post[OF keeps calm_refl]])
  moreover have "T \<Longrightarrow> drained b (snd ?post)" using T drained_post by blast
  ultimately have "if fst ?post then Q (s\<lparr>en_dev := snd ?post, en_slots := (en_slots s)[i := (job_at i s)\<lparr>qj_hardware_released := True\<rparr>]\<rparr>) else \<not> T"
    using Q by auto
  then show ?thesis
    using job by (auto simp: wp_handlers(2) Let_def wp_rules wp_ask_device collected_def set_job_def)
qed

subsection \<open>Accumulating\<close>

lemma length_fold_update: "length (fold (\<lambda>r acc. acc[h r := g r acc]) xs acc) = length acc"
  by (induction xs arbitrary: acc) auto

lemma length_add_tile [simp]: "length (add_tile fl hw ops tp acc) = length acc"
  by (simp add: add_tile_def Let_def length_fold_update)

lemma wp_rows:
  fixes s :: "'f engine"
  assumes ok: "tile_ok vl ops tp" and d: "ddr_ready (en_ddr s)"
    and out: "staged 0x340000 (nat (tp_rows tp) * 16) (en_ddr s) = map (hw_spu hw (place_input ops tp) (place_input ops tp)) [0..<nat (tp_rows tp) * 16]"
    and job: "qj_col (job_at i s) = tp_col tp" "tj_rows (job_at i s) = tp_rows tp"
    and room: "nat (tp_col tp * tp_rows tp) + nat (tp_rows tp) \<le> length (en_accum s)" and T: "T \<Longrightarrow> numbers_rows hw"
    and Q: "Q (s\<lparr>en_accum := add_tile fl hw ops tp (en_accum s)\<rparr>)"
  shows "wp T (all_steps (map (accumulate_row fl i) [0..<nat (tp_rows tp)])) Q s"
proof -
  note n = tile_sizes_nat[OF ok]
  let ?k0 = "nat (tp_col tp * tp_rows tp)"
  let ?acc = "\<lambda>k. fold (\<lambda>r acc. acc[?k0 + r := add_value fl hw ops tp r (acc ! (?k0 + r))]) [0..<k] (en_accum s)"
  show "wp T (all_steps (map (accumulate_row fl i) [0..<nat (tp_rows tp)])) Q s"
  proof (rule wp_loop[where I = "\<lambda>k t. t = s\<lparr>en_accum := ?acc k\<rparr>"])
    show "s = s\<lparr>en_accum := ?acc 0\<rparr>" by simp
    show "Q t" if "t = s\<lparr>en_accum := ?acc (nat (tp_rows tp))\<rparr>" for t using Q that by (simp add: add_tile_def Let_def)
    fix k t assume k: "k < nat (tp_rows tp)" and t: "t = s\<lparr>en_accum := ?acc k\<rparr>"
    let ?row = "spu_row (hw_spu hw (place_input ops tp) (place_input ops tp)) k"
    have row: "ddr_read_spu_q16_row (SPU_OUT_BASE + of_nat k * 16) False (en_ddr t) = Some ?row"
      by (rule row_read[where n = "nat (tp_rows tp) * 16"]) (use d k n(2) out t in simp_all)
    have at: "read_at (?k0 + k) (en_accum t) = Some (?acc k ! (?k0 + k))"
      using k room by (simp add: t read_at_def length_fold_update)
    have num: "T \<Longrightarrow> fst ?row = of_nat k" using T k by (simp add: numbers_rows_def place_input_def)
    have j: "job_at i t = job_at i s" by (simp add: t)
    show "wp T (accumulate_row fl i k) (\<lambda>t. t = s\<lparr>en_accum := ?acc (Suc k)\<rparr>) t"
    proof -
      have "accumulate_row fl i k t = (if fst ?row \<noteq> of_nat k then Some (False, t)
          else Some (True, t\<lparr>en_accum := (en_accum t)[?k0 + k := add_value fl hw ops tp k (?acc k ! (?k0 + k))]\<rparr>))"
        unfolding accumulate_row_def Let_def j job row by (simp add: split_beta at add_value_def tile_value_def)
      then show ?thesis using num by (auto simp: wp_def t)
    qed
  qed
qed

lemma wp_accumulate:
  fixes s :: "'f engine"
  assumes ok: "tile_ok vl ops tp" and d: "ddr_ready (en_ddr s)" and i: "i < length (en_slots s)"
    and out: "staged 0x340000 (nat (tp_rows tp) * 16) (en_ddr s) = map (hw_spu hw (place_input ops tp) (place_input ops tp)) [0..<nat (tp_rows tp) * 16]"
    and job: "collected tp b (\<not> release) (job_at i s)" and keeps: "keeps hw"
    and room: "nat (tp_col tp * tp_rows tp) + nat (tp_rows tp) \<le> length (en_accum s)"
    and T: "T \<Longrightarrow> numbers_rows hw \<and> answers hw \<and> (release \<longrightarrow> drained b (en_dev s))"
    and Q: "\<And>dv' job'. sel dv' = sel (en_dev s) \<Longrightarrow> (\<not> release \<Longrightarrow> dv' = en_dev s) \<Longrightarrow> (release \<Longrightarrow> T \<Longrightarrow> up dv')
      \<Longrightarrow> tj_row0 job' = tp_row0 tp \<Longrightarrow> tj_rows job' = tp_rows tp
      \<Longrightarrow> Q (s\<lparr>en_accum := add_tile fl hw ops tp (en_accum s), en_dev := dv', en_slots := (en_slots s)[i := job']\<rparr>)"
  shows "wp T (fpga_accumulate_pl_scaled_q8_tile_job fl hw i release) Q s"
proof -
  let ?job = "job_at i s"
  let ?s = "s\<lparr>en_accum := add_tile fl hw ops tp (en_accum s)\<rparr>"
  have jf: "qj_output_dma_ready ?job = True" "qj_result_consumed ?job = False" "qj_hardware_released ?job = (\<not> release)" "tj_rows ?job = tp_rows tp"
    "qj_col ?job = tp_col tp" "tj_bank ?job = b" "tj_row0 ?job = tp_row0 tp" using job by (simp_all add: collected_def)
  let ?tail = "all_steps [modify (set_job i (\<lambda>job. job\<lparr>qj_result_consumed := True\<rparr>)),
    (if release then fpga_release_pl_scaled_q8_tile_job hw i False else (\<lambda>s. Some (True, s)))]"
  have tail: "wp T ?tail Q ?s"
  proof (cases release)
    case False
    have "wp T ?tail Q ?s = Q (?s\<lparr>en_slots := (en_slots s)[i := ?job\<lparr>qj_result_consumed := True\<rparr>]\<rparr>)"
      using False i by (simp add: wp_steps wp_modify wp_skip set_job_def)
    also have "?s\<lparr>en_slots := (en_slots s)[i := ?job\<lparr>qj_result_consumed := True\<rparr>]\<rparr>
        = s\<lparr>en_accum := add_tile fl hw ops tp (en_accum s), en_dev := en_dev s, en_slots := (en_slots s)[i := ?job\<lparr>qj_result_consumed := True\<rparr>]\<rparr>"
      by simp
    also have "Q \<dots>" by (rule Q) (use False jf in simp_all)
    finally show ?thesis .
  next
    case True
    let ?post = "fpga_write_post_spu_descriptor (hw_regs hw) (tile_of (?job\<lparr>qj_result_consumed := True\<rparr>)) SLOT_FREE SLOT_FREE 0 True False (en_dev s)"
    let ?job' = "?job\<lparr>qj_result_consumed := True, qj_hardware_released := True\<rparr>"
    have pass: "T \<Longrightarrow> fst ?post" using T True release_passes[of hw "en_dev s" "tile_of (?job\<lparr>qj_result_consumed := True\<rparr>)"]
      by (simp add: drained_def jf tile_job.defs)
    have sel: "sel (snd ?post) = sel (en_dev s)" by (rule sel_calm[OF calm_post[OF keeps calm_refl]])
    have up: "T \<Longrightarrow> up (snd ?post)" using T True by (simp add: drained_def up_post)
    have "Q (s\<lparr>en_accum := add_tile fl hw ops tp (en_accum s), en_dev := snd ?post, en_slots := (en_slots s)[i := ?job']\<rparr>)"
      by (rule Q) (use sel up True jf in simp_all)
    then have reached: "if fst ?post then Q (s\<lparr>en_accum := add_tile fl hw ops tp (en_accum s), en_dev := snd ?post, en_slots := (en_slots s)[i := ?job']\<rparr>) else \<not> T"
      using pass by auto
    define s' where "s' = s\<lparr>en_accum := add_tile fl hw ops tp (en_accum s), en_slots := (en_slots s)[i := ?job\<lparr>qj_result_consumed := True\<rparr>]\<rparr>"
    have s': "set_job i (\<lambda>job. job\<lparr>qj_result_consumed := True\<rparr>) ?s = s'" "job_at i s' = ?job\<lparr>qj_result_consumed := True\<rparr>" "en_dev s' = en_dev s"
      "set_job i (\<lambda>job. job\<lparr>qj_hardware_released := True\<rparr>) (s'\<lparr>en_dev := x\<rparr>)
        = s\<lparr>en_accum := add_tile fl hw ops tp (en_accum s), en_dev := x, en_slots := (en_slots s)[i := ?job']\<rparr>" for x
      using i by (simp_all add: s'_def set_job_def job_at_def)
    have flags: "qj_output_dma_ready (?job\<lparr>qj_result_consumed := True\<rparr>)" "\<not> qj_hardware_released (?job\<lparr>qj_result_consumed := True\<rparr>)"
      "qj_result_consumed (?job\<lparr>qj_result_consumed := True\<rparr>)" using jf True by simp_all
    have "wp T ?tail Q ?s = wp T (fpga_release_pl_scaled_q8_tile_job hw i False) Q s'" using True by (simp only: wp_steps wp_modify s' if_True)
    also have "\<dots>" unfolding wp_handlers(2) Let_def s' wp_steps wp_check wp_ask_device wp_modify using flags reached by (simp only: simp_thms if_True)
    finally show ?thesis .
  qed
  have "wp T (all_steps (map (accumulate_row fl i) [0..<nat (tp_rows tp)])) (wp T ?tail Q) s"
    by (rule wp_rows[OF ok d out jf(5,4) room]) (use T tail in simp_all)
  then show ?thesis unfolding wp_handlers(3) Let_def using jf by (simp add: wp_steps wp_check)
qed

subsection \<open>Storing\<close>

definition store_tile :: "operands \<Rightarrow> int \<Rightarrow> int \<Rightarrow> int \<Rightarrow> 'f list \<Rightarrow> (nat \<Rightarrow> 'f) \<Rightarrow> nat \<Rightarrow> 'f" where
  "store_tile ops m row0 rows acc dst = fold (\<lambda>col dst. fold (\<lambda>row. store_dst_value ops (nat row0 + row) col (acc ! (col * nat rows + row)))
     [0..<nat rows] dst) [0..<nat m] dst"

lemma wp_store:
  assumes "length (en_accum s) = nat (m * rows)" "0 \<le> rows" "Q (s\<lparr>en_dst := store_tile ops m row0 rows (en_accum s) (en_dst s)\<rparr>)"
  shows "wp T (store_rows ops m row0 rows) Q s"
proof -
  let ?row = "\<lambda>col row. store_dst_value ops (nat row0 + row) col (en_accum s ! (col * nat rows + row))"
  let ?dst = "\<lambda>c. fold (\<lambda>col dst. fold (?row col) [0..<nat rows] dst) [0..<c] (en_dst s)"
  show ?thesis
    unfolding store_rows_def
  proof (rule wp_loop[where I = "\<lambda>c t. t = s\<lparr>en_dst := ?dst c\<rparr>"])
    show "s = s\<lparr>en_dst := ?dst 0\<rparr>" by simp
    show "Q t" if "t = s\<lparr>en_dst := ?dst (nat m)\<rparr>" for t using assms(3) that by (simp add: store_tile_def)
    fix c t assume c: "c < nat m" and t: "t = s\<lparr>en_dst := ?dst c\<rparr>"
    show "wp T (all_steps (map (store_row ops (nat row0) (nat rows) c) [0..<nat rows])) (\<lambda>t. t = s\<lparr>en_dst := ?dst (Suc c)\<rparr>) t"
    proof (rule wp_loop[where I = "\<lambda>r t. t = s\<lparr>en_dst := fold (?row c) [0..<r] (?dst c)\<rparr>"])
      show "t = s\<lparr>en_dst := fold (?row c) [0..<0] (?dst c)\<rparr>" by (simp add: t)
      show "u = s\<lparr>en_dst := ?dst (Suc c)\<rparr>" if "u = s\<lparr>en_dst := fold (?row c) [0..<nat rows] (?dst c)\<rparr>" for u using that by simp
      fix r u assume r: "r < nat rows" and u: "u = s\<lparr>en_dst := fold (?row c) [0..<r] (?dst c)\<rparr>"
      have "c * nat rows + r < (c + 1) * nat rows" using r by simp
      also have "\<dots> \<le> nat m * nat rows" using c by (intro mult_le_mono1) simp
      also have "\<dots> = length (en_accum s)" using assms(1,2) c by (simp add: nat_mult_distrib)
      finally show "wp T (store_row ops (nat row0) (nat rows) c r) (\<lambda>u. u = s\<lparr>en_dst := fold (?row c) [0..<Suc r] (?dst c)\<rparr>) u"
        by (simp add: wp_def store_row_def u read_at_def)
    qed
  qed
qed

end
