(* ===== verification/Fpga_Overlap.thy ===== *)
theory Fpga_Overlap
  imports Fpga_Drain
begin

text \<open>
  One tile under either scheduler: alone, from preparation to accumulation, and in the ping-pong scheduler,
  where the job before is collected while this one is submitted.
\<close>

definition live :: "hardware \<Rightarrow> run_config \<Rightarrow> bool" where
  "live hw cfg \<longleftrightarrow> answers hw \<and> dma_responds hw cfg \<and> numbers_rows hw"

text \<open>What holds between two steps of a scheduler, for \<open>bk\<close> the banks of the two slots.\<close>

definition steady :: "bool \<Rightarrow> (int \<Rightarrow> nat) \<Rightarrow> nat \<Rightarrow> 'f engine \<Rightarrow> bool" where
  "steady T bk slots s \<longleftrightarrow> ddr_ready (en_ddr s) \<and> rs_enabled (en_dir s) = False \<and> length (en_slots s) = slots \<and> sel (en_dev s) = bk
     \<and> (T \<longrightarrow> up (en_dev s))"

lemma steady_update [simp]:
  "steady T bk n (s\<lparr>en_tile_id := x1\<rparr>) = steady T bk n s" "steady T bk n (s\<lparr>en_accum := x2\<rparr>) = steady T bk n s"
  "steady T bk n (s\<lparr>en_dst := x3\<rparr>) = steady T bk n s" "steady T bk n (s\<lparr>en_tile_index := x4\<rparr>) = steady T bk n s"
  "steady T bk n (s\<lparr>en_running := x5\<rparr>) = steady T bk n s" "steady T bk n (s\<lparr>en_loaded := x6\<rparr>) = steady T bk n s"
  "steady T bk n (s\<lparr>en_staging := x7\<rparr>) = steady T bk n s"
  by (simp_all add: steady_def)

subsection \<open>One job at a time\<close>

lemma wp_single_tile:
  assumes ok: "tile_ok (rc_limits cfg) ops tp" and s: "ddr_ready (en_ddr s)" "rs_enabled (en_dir s) = False" "sel (en_dev s) = bk" "T \<Longrightarrow> up (en_dev s)"
    and keeps: "keeps hw" and T: "T \<Longrightarrow> live hw cfg" and room: "nat (tp_col tp * tp_rows tp) + nat (tp_rows tp) \<le> length (en_accum s)"
  shows "wp T (single_bank_tile fl hw cfg ops None tp)
    (\<lambda>t. steady T bk 1 t \<and> en_accum t = add_tile fl hw ops tp (en_accum s) \<and> en_dst t = en_dst s) s"
  (is "wp T _ ?Q s")
proof -
  let ?s = "s\<lparr>en_slots := [blank_job]\<rparr>"
  let ?acc = "wp T (fpga_accumulate_pl_scaled_q8_tile_job fl hw 0 True) (wp T (modify (\<lambda>s. s\<lparr>en_tile_id := en_tile_id s + 1\<rparr>)) ?Q)"
  have ans: "T \<Longrightarrow> answers hw" "T \<Longrightarrow> dma_responds hw cfg" "T \<Longrightarrow> numbers_rows hw" using T by (simp_all add: live_def)
  have "wp T (fpga_prepare_q8_tile_job hw cfg ops None tp 0 False WEIGHT_BASE SPU_PARAM_BASE 0)
      (wp T (fpga_submit_q8_tile_job hw cfg 0) (wp T (fpga_wait_and_drain_q8_tile_job hw cfg 0) ?acc)) ?s"
  proof (rule wp_prepare[OF ok])
    fix d1 dv1 ws jid assume p: "ddr_ready d1" "holds_inputs ops tp d1" "runs_on T (en_dev ?s) dv1"
    let ?j = "new_job ops tp (sizes_of tp) (en_tile_id ?s) 0 WEIGHT_BASE SPU_PARAM_BASE jid"
    let ?s1 = "?s\<lparr>en_ddr := d1, en_dev := dv1, en_staging := ws, en_slots := (en_slots ?s)[0 := ?j]\<rparr>"
    have sel1: "sel dv1 = bk" using p(3) sel_calm s(3) by (auto simp: runs_on_def)
    show "wp T (fpga_submit_q8_tile_job hw cfg 0) (wp T (fpga_wait_and_drain_q8_tile_job hw cfg 0) ?acc) ?s1"
    proof (rule wp_submit[OF ok, where b = 0])
      show "ddr_ready (en_ddr ?s1)" "holds_inputs ops tp (en_ddr ?s1)" using p by simp_all
      show "job_for tp 0 (job_at 0 ?s1)" using new_job_for[of tp 0] by (simp add: job_at_def)
      show "answers hw \<and> dma_responds hw cfg \<and> up (en_dev ?s1)" if T using ans[OF that] p(3) s(4)[OF that] that by (simp add: runs_on_def)
      show "window (en_mem ?s1 (sel (en_dev ?s1) 0)) WEIGHT_BASE (weight_len tp) = ti_weight (place_input ops tp)"
        if "qj_weight_bank_reused (job_at 0 ?s1)" using that by (simp add: job_at_def new_job_def blank_job_def)
      fix d2 dv2 m2 n2 j2
      assume q: "same_outside 0x200000 0x210000 (en_ddr ?s1) d2" "sel dv2 = sel (en_dev ?s1)" "job_for tp 0 j2" "T \<Longrightarrow> finished j2 dv2"
        "tile_snapshot (sel (en_dev ?s1) 0) (nat (tp_rows tp)) (nat (tp_group_blocks tp) * 2) m2 = place_input ops tp"
      let ?s2 = "?s1\<lparr>en_ddr := d2, en_dev := dv2, en_mem := m2, en_transfers := n2, en_job := Some (sel (en_dev ?s1) 0, place_input ops tp),
        en_slots := (en_slots ?s1)[0 := j2]\<rparr>"
      have d2: "ddr_ready d2" using same_outside_facts(1)[OF q(1)] p(1) by simp
      show "wp T (fpga_wait_and_drain_q8_tile_job hw cfg 0) ?acc ?s2"
      proof (rule wp_drain[OF ok, where b = 0 and bk = "sel (en_dev ?s1) 0"])
        fix d3 dv3 n3 j3
        assume r: "same_outside 0x340000 0x380000 (en_ddr ?s2) d3"
          "staged 0x340000 (nat (tp_rows tp) * 16) d3 = map (hw_spu hw (place_input ops tp) (place_input ops tp)) [0..<nat (tp_rows tp) * 16]"
          "sel dv3 = sel (en_dev ?s2)" "T \<Longrightarrow> drained 0 dv3" "collected tp 0 False j3"
        have d3: "ddr_ready d3" using same_outside_facts(1)[OF r(1)] d2 by simp
        have sel3: "sel dv3 = bk" using r(3) q(2) sel1 by simp
        show "?acc (?s2\<lparr>en_ddr := d3, en_dev := dv3, en_transfers := n3, en_slots := (en_slots ?s2)[0 := j3]\<rparr>)"
        proof (rule wp_accumulate[OF ok, where b = 0])
          fix dv4 j4
          assume "sel dv4 = sel (en_dev (?s2\<lparr>en_ddr := d3, en_dev := dv3, en_transfers := n3, en_slots := (en_slots ?s2)[0 := j3]\<rparr>))"
            "True \<Longrightarrow> T \<Longrightarrow> up dv4"
          then show "wp T (modify (\<lambda>s. s\<lparr>en_tile_id := en_tile_id s + 1\<rparr>)) ?Q
              (?s2\<lparr>en_ddr := d3, en_dev := dv3, en_transfers := n3, en_slots := (en_slots ?s2)[0 := j3],
                en_accum := add_tile fl hw ops tp (en_accum (?s2\<lparr>en_ddr := d3, en_dev := dv3, en_transfers := n3, en_slots := (en_slots ?s2)[0 := j3]\<rparr>)),
                en_dev := dv4, en_slots := (en_slots (?s2\<lparr>en_ddr := d3, en_dev := dv3, en_transfers := n3, en_slots := (en_slots ?s2)[0 := j3]\<rparr>))[0 := j4]\<rparr>)"
            using d3 sel3 s(2) by (simp add: wp_modify steady_def)
        qed (use d3 r ans room keeps in \<open>simp_all add: job_at_def\<close>)
      qed (use d2 q ans keeps in \<open>simp_all add: job_at_def\<close>)
    qed (use keeps in simp_all)
  qed (use s keeps ans in simp_all)
  then show ?thesis by (simp add: single_bank_tile_def wp_steps wp_modify)
qed

subsection \<open>Two jobs\<close>

lemma wp_nothing [simp]: "wp T (\<lambda>s. Some (True, s)) Q = Q"
  by (rule ext) (simp add: wp_skip)

text \<open>A job the device was started on: its inputs stay in the windows until it is drained.\<close>

definition running :: "bool \<Rightarrow> operands \<Rightarrow> (int \<Rightarrow> nat) \<Rightarrow> nat \<Rightarrow> tile_place \<Rightarrow> 'f engine \<Rightarrow> bool" where
  "running T ops bk i tp s \<longleftrightarrow> i < 2 \<and> job_for tp (int i) (job_at i s) \<and> en_job s = Some (bk (int i), place_input ops tp)
     \<and> tile_snapshot (bk (int i)) (nat (tp_rows tp)) (nat (tp_group_blocks tp) * 2) (en_mem s) = place_input ops tp
     \<and> (T \<longrightarrow> finished (job_at i s) (en_dev s))"

text \<open>What submitting leaves alone, with or without collecting the job before.\<close>

definition unmoved :: "nat \<Rightarrow> 'f engine \<Rightarrow> 'f engine \<Rightarrow> bool" where
  "unmoved b s t \<longleftrightarrow> same_outside 0x200000 0x380000 (en_ddr s) (en_ddr t) \<and> en_dir t = en_dir s \<and> length (en_slots t) = length (en_slots s)
     \<and> sel (en_dev t) = sel (en_dev s) \<and> keeps_other_weights b (en_mem s) (en_mem t) \<and> en_staging t = en_staging s
     \<and> en_loaded t = en_loaded s \<and> en_tile_id t = en_tile_id s \<and> en_running t = en_running s"

text \<open>The accumulators and the result once the running job is collected; one of the row tile before also ends that tile.\<close>

definition settled :: "'f float_ops \<Rightarrow> hardware \<Rightarrow> operands \<Rightarrow> int \<Rightarrow> int \<Rightarrow> int \<Rightarrow> tile_place option \<Rightarrow> 'f engine \<Rightarrow> 'f list \<times> (nat \<Rightarrow> 'f)" where
  "settled fl hw ops m row0 rows run s = (case run of None \<Rightarrow> (en_accum s, en_dst s)
     | Some tp \<Rightarrow> let acc = add_tile fl hw ops tp (en_accum s) in
         if tp_row0 tp \<noteq> row0 then (replicate (nat (m * rows)) (fl_zero fl), store_tile ops m (tp_row0 tp) (tp_rows tp) acc (en_dst s))
         else (acc, en_dst s))"

lemma same_outside_mono: "same_outside a e d d' \<Longrightarrow> a' \<le> a \<Longrightarrow> e \<le> e' \<Longrightarrow> same_outside a' e' d d'"
  by (auto simp: same_outside_def)

lemma same_outside_trans: "same_outside a e d d' \<Longrightarrow> same_outside a e d' d'' \<Longrightarrow> same_outside a e d d''"
  by (auto simp: same_outside_def)

lemma keeps_other_refl [simp]: "keeps_other_weights b m m"
  by (simp add: keeps_other_weights_def)

lemma wp_submit_first:
  assumes ok: "tile_ok vl ops tp" and s: "steady T bk 2 s" "i < 2" and inputs: "holds_inputs ops tp (en_ddr s)"
    and job: "job_for tp (int i) (job_at i s)" and keeps: "keeps hw" and T: "T \<Longrightarrow> live hw cfg"
    and reused: "qj_weight_bank_reused (job_at i s) \<Longrightarrow> window (en_mem s (bk (int i))) WEIGHT_BASE (weight_len tp) = ti_weight (place_input ops tp)"
    and Q: "\<And>t. unmoved (bk (int i)) s t \<Longrightarrow> running T ops bk i tp t \<Longrightarrow> en_accum t = en_accum s \<Longrightarrow> en_dst t = en_dst s
      \<Longrightarrow> (\<And>j. j \<noteq> i \<Longrightarrow> job_at j t = job_at j s) \<Longrightarrow> staged 0x340000 0x40000 (en_ddr t) = staged 0x340000 0x40000 (en_ddr s) \<Longrightarrow> Q t"
  shows "wp T (fpga_submit_q8_tile_job hw cfg i) Q s"
proof (rule wp_submit[OF ok _ inputs job])
  have bk: "sel (en_dev s) = bk" using s(1) by (simp add: steady_def)
  show "ddr_ready (en_ddr s)" "i < length (en_slots s)" using s by (simp_all add: steady_def)
  show "answers hw \<and> dma_responds hw cfg \<and> up (en_dev s)" if T using T[OF that] s(1) that by (simp add: steady_def live_def)
  show "window (en_mem s (sel (en_dev s) (int i))) WEIGHT_BASE (weight_len tp) = ti_weight (place_input ops tp)"
    if "qj_weight_bank_reused (job_at i s)" using reused[OF that] by (simp add: bk)
  fix d2 dv2 m2 n2 j2
  assume q: "same_outside 0x200000 0x210000 (en_ddr s) d2" "sel dv2 = sel (en_dev s)" "job_for tp (int i) j2" "T \<Longrightarrow> finished j2 dv2"
    "tile_snapshot (sel (en_dev s) (int i)) (nat (tp_rows tp)) (nat (tp_group_blocks tp) * 2) m2 = place_input ops tp"
    "keeps_other_weights (sel (en_dev s) (int i)) (en_mem s) m2"
  let ?t = "s\<lparr>en_ddr := d2, en_dev := dv2, en_mem := m2, en_transfers := n2, en_job := Some (sel (en_dev s) (int i), place_input ops tp),
      en_slots := (en_slots s)[i := j2]\<rparr>"
  have "job_at i ?t = j2" using s by (simp add: job_at_def steady_def)
  then have "running T ops bk i tp ?t" using q s(2) by (simp add: running_def bk)
  moreover have "unmoved (bk (int i)) s ?t" using q by (simp add: unmoved_def bk same_outside_mono)
  moreover have "staged 0x340000 0x40000 (en_ddr ?t) = staged 0x340000 0x40000 (en_ddr s)" using same_outside_facts(3)[OF q(1)] by simp
  ultimately show "Q ?t" by (intro Q) (simp_all add: job_at_def)
qed (rule keeps)

lemma staged_prefix: "staged p n d = staged p n e \<Longrightarrow> k \<le> n \<Longrightarrow> staged p k d = staged p k e"
  by (auto simp: staged_def)

lemma unmoved_ready: "unmoved b s t \<Longrightarrow> ddr_ready (en_ddr t) = ddr_ready (en_ddr s)"
  using same_outside_facts(1) by (auto simp: unmoved_def)

definition settle_rows :: "'f float_ops \<Rightarrow> operands \<Rightarrow> int \<Rightarrow> int \<Rightarrow> int \<Rightarrow> nat \<Rightarrow> 'f step" where
  "settle_rows fl ops m row0 rows r = (\<lambda>s. if tj_row0 (job_at r s) \<noteq> row0
     then and_then (store_rows ops m (tj_row0 (job_at r s)) (tj_rows (job_at r s))) (modify (clear_accum fl m rows)) s else Some (True, s))"

lemma wp_settle:
  assumes "tj_row0 (job_at r s) = tp_row0 tp" "tj_rows (job_at r s) = tp_rows tp" "0 \<le> tp_rows tp" "length (en_accum s) = nat (m * tp_rows tp)"
    and "Q (if tp_row0 tp \<noteq> row0 then s\<lparr>en_dst := store_tile ops m (tp_row0 tp) (tp_rows tp) (en_accum s) (en_dst s),
      en_accum := replicate (nat (m * rows)) (fl_zero fl)\<rparr> else s)"
  shows "wp T (settle_rows fl ops m row0 rows r) Q s"
proof (cases "tp_row0 tp = row0")
  case True
  then show ?thesis using assms(1,5) by (simp add: wp_def settle_rows_def)
next
  case False
  have "wp T (store_rows ops m (tp_row0 tp) (tp_rows tp)) (wp T (modify (clear_accum fl m rows)) Q) s"
    by (rule wp_store[OF assms(4,3)]) (use assms(5) False in \<open>simp add: wp_modify clear_accum_def\<close>)
  moreover have "wp T (settle_rows fl ops m row0 rows r) Q s
    = wp T (and_then (store_rows ops m (tp_row0 tp) (tp_rows tp)) (modify (clear_accum fl m rows))) Q s"
    using False assms(1,2) by (intro wp_cong) (simp add: settle_rows_def)
  ultimately show ?thesis by (simp only: wp_and_then)
qed

text \<open>The release, submission and accumulation between draining and storing, in either order.\<close>

definition collected_next :: "bool \<Rightarrow> 'f float_ops \<Rightarrow> hardware \<Rightarrow> operands \<Rightarrow> (int \<Rightarrow> nat) \<Rightarrow> nat \<Rightarrow> tile_place \<Rightarrow> nat \<Rightarrow> tile_place
    \<Rightarrow> 'f engine \<Rightarrow> 'f engine \<Rightarrow> bool" where
  "collected_next T fl hw ops bk r tpr i tp s t \<longleftrightarrow> unmoved (bk (int i)) s t \<and> running T ops bk i tp t \<and> en_dst t = en_dst s
     \<and> en_accum t = add_tile fl hw ops tpr (en_accum s) \<and> tj_row0 (job_at r t) = tp_row0 tpr \<and> tj_rows (job_at r t) = tp_rows tpr"

lemma wp_exchange:
  assumes ok: "tile_ok vl ops tp" "tile_ok vl ops tpr" and slots: "r < 2" "i < 2" "r \<noteq> i"
    and s: "steady T bk 2 s" "T \<Longrightarrow> drained (int r) (en_dev s)" and inputs: "holds_inputs ops tp (en_ddr s)"
    and job: "job_for tp (int i) (job_at i s)" "collected tpr (int r) False (job_at r s)"
    and out: "staged 0x340000 (nat (tp_rows tpr) * 16) (en_ddr s) = map (hw_spu hw (place_input ops tpr) (place_input ops tpr)) [0..<nat (tp_rows tpr) * 16]"
    and keeps: "keeps hw" and T: "T \<Longrightarrow> live hw cfg" and room: "nat (tp_col tpr * tp_rows tpr) + nat (tp_rows tpr) \<le> length (en_accum s)"
    and reused: "qj_weight_bank_reused (job_at i s) \<Longrightarrow> window (en_mem s (bk (int i))) WEIGHT_BASE (weight_len tp) = ti_weight (place_input ops tp)"
    and Q: "\<And>t. collected_next T fl hw ops bk r tpr i tp s t \<Longrightarrow> Q t"
  shows "wp T (all_steps [(if overlap then fpga_release_pl_scaled_q8_tile_job hw r True else fpga_accumulate_pl_scaled_q8_tile_job fl hw r True),
        fpga_submit_q8_tile_job hw cfg i,
        (if overlap then fpga_accumulate_pl_scaled_q8_tile_job fl hw r False else (\<lambda>s. Some (True, s)))]) Q s"
proof -
  have len: "length (en_slots s) = 2" and ready: "ddr_ready (en_ddr s)" and bk: "sel (en_dev s) = bk" using s(1) by (simp_all add: steady_def)
  have ans: "T \<Longrightarrow> answers hw" "T \<Longrightarrow> numbers_rows hw" using T by (simp_all add: live_def)
  show ?thesis
  proof (cases overlap)
    case True
    have "wp T (fpga_release_pl_scaled_q8_tile_job hw r True) (wp T (fpga_submit_q8_tile_job hw cfg i)
        (wp T (fpga_accumulate_pl_scaled_q8_tile_job fl hw r False) Q)) s"
    proof (rule wp_release[where b = "int r"])
      fix dv1 assume d1: "sel dv1 = sel (en_dev s)" "T \<Longrightarrow> drained (int r) dv1"
      let ?jr = "(job_at r s)\<lparr>qj_hardware_released := True\<rparr>"
      let ?s1 = "s\<lparr>en_dev := dv1, en_slots := (en_slots s)[r := ?jr]\<rparr>"
      have at: "job_at i ?s1 = job_at i s" "job_at r ?s1 = ?jr" using slots len by (simp_all add: job_at_def)
      show "wp T (fpga_submit_q8_tile_job hw cfg i) (wp T (fpga_accumulate_pl_scaled_q8_tile_job fl hw r False) Q) ?s1"
      proof (rule wp_submit_first[OF ok(1)])
        show "steady T bk 2 ?s1" using s d1 by (auto simp: steady_def drained_def)
        fix t assume t: "unmoved (bk (int i)) ?s1 t" "running T ops bk i tp t" "en_accum t = en_accum ?s1" "en_dst t = en_dst ?s1"
          "\<And>j. j \<noteq> i \<Longrightarrow> job_at j t = job_at j ?s1" "staged 0x340000 0x40000 (en_ddr t) = staged 0x340000 0x40000 (en_ddr ?s1)"
        have jr: "job_at r t = ?jr" using t(5) slots at(2) by simp
        have lt: "length (en_slots t) = 2" using t(1) len by (simp add: unmoved_def)
        have "nat (tp_rows tpr) * 16 \<le> 0x40000" using tile_sizes_nat(2)[OF ok(2)] by simp
        from staged_prefix[OF t(6) this] have st: "staged 0x340000 (nat (tp_rows tpr) * 16) (en_ddr t)
            = map (hw_spu hw (place_input ops tpr) (place_input ops tpr)) [0..<nat (tp_rows tpr) * 16]" using out by simp
        show "wp T (fpga_accumulate_pl_scaled_q8_tile_job fl hw r False) Q t"
        proof (rule wp_accumulate[OF ok(2) _ _ st, where b = "int r"])
          show "ddr_ready (en_ddr t)" using unmoved_ready[OF t(1)] ready by simp
          show "collected tpr (int r) (\<not> False) (job_at r t)" using job(2) by (simp add: jr collected_def)
          fix dv' and job' :: q8_job assume q: "\<not> False \<Longrightarrow> dv' = en_dev t" "tj_row0 job' = tp_row0 tpr" "tj_rows job' = tp_rows tpr"
          let ?t = "t\<lparr>en_accum := add_tile fl hw ops tpr (en_accum t), en_dev := dv', en_slots := (en_slots t)[r := job']\<rparr>"
          have "job_at r ?t = job'" "job_at i ?t = job_at i t" using slots lt by (simp_all add: job_at_def)
          moreover have "unmoved (bk (int i)) s ?t" using t(1) q(1) d1(1) by (simp add: unmoved_def)
          moreover have "running T ops bk i tp ?t" using t(2) q(1) slots by (simp add: running_def job_at_def)
          ultimately show "Q ?t" using q(2,3) t(3,4) by (intro Q) (simp add: collected_next_def)
        qed (use slots lt keeps room t ans in simp_all)
      qed (use slots keeps T inputs job(1) reused at in simp_all)
    qed (use slots len job keeps ans s(2) in simp_all)
    then show ?thesis using True by (simp add: wp_steps)
  next
    case False
    have "wp T (fpga_accumulate_pl_scaled_q8_tile_job fl hw r True) (wp T (fpga_submit_q8_tile_job hw cfg i) Q) s"
    proof (rule wp_accumulate[OF ok(2) ready _ out, where b = "int r"])
      fix dv1 and job' :: q8_job assume q: "sel dv1 = sel (en_dev s)" "True \<Longrightarrow> T \<Longrightarrow> up dv1" "tj_row0 job' = tp_row0 tpr" "tj_rows job' = tp_rows tpr"
      let ?s1 = "s\<lparr>en_accum := add_tile fl hw ops tpr (en_accum s), en_dev := dv1, en_slots := (en_slots s)[r := job']\<rparr>"
      have at: "job_at i ?s1 = job_at i s" "job_at r ?s1 = job'" using slots len by (simp_all add: job_at_def)
      show "wp T (fpga_submit_q8_tile_job hw cfg i) Q ?s1"
      proof (rule wp_submit_first[OF ok(1)])
        show "steady T bk 2 ?s1" using s q by (simp add: steady_def)
        fix t assume t: "unmoved (bk (int i)) ?s1 t" "running T ops bk i tp t" "en_accum t = en_accum ?s1" "en_dst t = en_dst ?s1"
          "\<And>j. j \<noteq> i \<Longrightarrow> job_at j t = job_at j ?s1"
        have "job_at r t = job'" using t(5) slots at(2) by simp
        moreover have "unmoved (bk (int i)) s t" using t(1) q(1) by (simp add: unmoved_def)
        ultimately show "Q t" using t q by (intro Q) (simp add: collected_next_def)
      qed (use slots keeps T inputs job(1) reused at in simp_all)
    qed (use slots len keeps room ans s(2) job(2) in simp_all)
    then show ?thesis using False by (simp add: wp_steps wp_skip)
  qed
qed

lemma wp_hand_over:
  fixes s :: "'a engine"
  assumes ok: "tile_ok vl ops tp" "tile_ok vl ops tpr" and slots: "i < 2" "r \<noteq> i"
    and s: "steady T bk 2 s" "running T ops bk r tpr s" and inputs: "holds_inputs ops tp (en_ddr s)" and job: "job_for tp (int i) (job_at i s)"
    and keeps: "keeps hw" and T: "T \<Longrightarrow> live hw cfg"
    and room: "length (en_accum s) = nat (m * tp_rows tpr)" "0 \<le> tp_col tpr" "tp_col tpr < m"
    and reused: "qj_weight_bank_reused (job_at i s) \<Longrightarrow> window (en_mem s (bk (int i))) WEIGHT_BASE (weight_len tp) = ti_weight (place_input ops tp)"
    and Q: "\<And>t. unmoved (bk (int i)) s t \<Longrightarrow> running T ops bk i tp t \<Longrightarrow> (en_accum t, en_dst t) = settled fl hw ops m row0 rows (Some tpr) s
      \<Longrightarrow> length (en_accum t) = (if tp_row0 tpr \<noteq> row0 then nat (m * rows) else nat (m * tp_rows tpr)) \<Longrightarrow> Q t"
  shows "wp T (hand_over fl hw cfg ops m row0 rows r i) Q s"
proof -
  let ?X = "all_steps [(if overlap_results cfg s then fpga_release_pl_scaled_q8_tile_job hw r True else fpga_accumulate_pl_scaled_q8_tile_job fl hw r True),
        fpga_submit_q8_tile_job hw cfg i,
        (if overlap_results cfg s then fpga_accumulate_pl_scaled_q8_tile_job fl hw r False else (\<lambda>s. Some (True, s)))]"
  have len: "length (en_slots s) = 2" and ready: "ddr_ready (en_ddr s)" and bk: "sel (en_dev s) = bk" using s(1) by (simp_all add: steady_def)
  have run: "r < 2" "job_for tpr (int r) (job_at r s)" "en_job s = Some (bk (int r), place_input ops tpr)"
    "tile_snapshot (bk (int r)) (nat (tp_rows tpr)) (nat (tp_group_blocks tpr) * 2) (en_mem s) = place_input ops tpr"
    "T \<Longrightarrow> finished (job_at r s) (en_dev s)" using s(2) by (simp_all add: running_def)
  have rows0: "0 < tp_rows tpr" using ok(2) by (simp add: tile_ok_def)
  have room': "nat (tp_col tpr * tp_rows tpr) + nat (tp_rows tpr) \<le> length (en_accum s)"
  proof -
    have "(tp_col tpr + 1) * tp_rows tpr \<le> m * tp_rows tpr" using room(3) rows0 by (intro mult_right_mono) simp_all
    then have "tp_col tpr * tp_rows tpr + tp_rows tpr \<le> m * tp_rows tpr" by (simp add: distrib_right)
    then have "nat (tp_col tpr * tp_rows tpr + tp_rows tpr) \<le> nat (m * tp_rows tpr)" by simp
    moreover have "nat (tp_col tpr * tp_rows tpr + tp_rows tpr) = nat (tp_col tpr * tp_rows tpr) + nat (tp_rows tpr)"
      using room(2) rows0 by (intro nat_add_distrib) simp_all
    ultimately show ?thesis using room(1) by simp
  qed
  have "wp T (fpga_wait_and_drain_q8_tile_job hw cfg r) (wp T ?X (wp T (settle_rows fl ops m row0 rows r) Q)) s"
  proof (rule wp_drain[OF ok(2) ready run(2) _ keeps _ run(3,4)])
    show "r < length (en_slots s)" using run(1) len by simp
    show "answers hw \<and> dma_responds hw cfg \<and> finished (job_at r s) (en_dev s)" if T using T[OF that] run(5)[OF that] by (simp add: live_def)
    fix d1 dv1 n1 j1
    assume q: "same_outside 0x340000 0x380000 (en_ddr s) d1"
      "staged 0x340000 (nat (tp_rows tpr) * 16) d1 = map (hw_spu hw (place_input ops tpr) (place_input ops tpr)) [0..<nat (tp_rows tpr) * 16]"
      "sel dv1 = sel (en_dev s)" "T \<Longrightarrow> drained (int r) dv1" "collected tpr (int r) False j1"
    let ?s1 = "s\<lparr>en_ddr := d1, en_dev := dv1, en_transfers := n1, en_slots := (en_slots s)[r := j1]\<rparr>"
    have at: "job_at i ?s1 = job_at i s" "job_at r ?s1 = j1" using slots run(1) len by (simp_all add: job_at_def)
    have d1: "ddr_ready d1" using same_outside_facts(1)[OF q(1)] ready by simp
    show "wp T ?X (wp T (settle_rows fl ops m row0 rows r) Q) ?s1"
    proof (rule wp_exchange[OF ok run(1) slots])
      show "steady T bk 2 ?s1" using s(1) q d1 by (auto simp: steady_def drained_def)
      show "holds_inputs ops tp (en_ddr ?s1)" using inputs inputs_same_outside[OF ok(1) q(1)] by simp
      fix t assume t: "collected_next T fl hw ops bk r tpr i tp ?s1 t"
      have um: "unmoved (bk (int i)) s t"
        using t q(1,3) by (auto simp: collected_next_def unmoved_def intro: same_outside_trans[OF same_outside_mono])
      have acc: "en_accum t = add_tile fl hw ops tpr (en_accum s)" "en_dst t = en_dst s" "running T ops bk i tp t"
        "tj_row0 (job_at r t) = tp_row0 tpr" "tj_rows (job_at r t) = tp_rows tpr" using t by (simp_all add: collected_next_def)
      show "wp T (settle_rows fl ops m row0 rows r) Q t"
      proof (rule wp_settle[OF acc(4,5)])
        show "length (en_accum t) = nat (m * tp_rows tpr)" using acc(1) room(1) by simp
        let ?t = "if tp_row0 tpr \<noteq> row0 then t\<lparr>en_dst := store_tile ops m (tp_row0 tpr) (tp_rows tpr) (en_accum t) (en_dst t),
            en_accum := replicate (nat (m * rows)) (fl_zero fl)\<rparr> else t"
        have "unmoved (bk (int i)) s ?t" using um by (simp add: unmoved_def)
        moreover have "running T ops bk i tp ?t" using acc(3) by (simp add: running_def)
        ultimately show "Q ?t" using acc(1,2) room(1) by (intro Q) (simp_all add: settled_def Let_def)
      qed (use rows0 in simp)
    qed (use q job keeps T room' reused at in simp_all)
  qed
  moreover have "wp T (hand_over fl hw cfg ops m row0 rows r i) Q s
    = wp T (fpga_wait_and_drain_q8_tile_job hw cfg r) (wp T ?X (wp T (settle_rows fl ops m row0 rows r) Q)) s"
  proof -
    define l :: "'a step list" where "l = [fpga_wait_and_drain_q8_tile_job hw cfg r,
      (if overlap_results cfg s then fpga_release_pl_scaled_q8_tile_job hw r True else fpga_accumulate_pl_scaled_q8_tile_job fl hw r True),
      fpga_submit_q8_tile_job hw cfg i,
      (if overlap_results cfg s then fpga_accumulate_pl_scaled_q8_tile_job fl hw r False else (\<lambda>s. Some (True, s))),
      settle_rows fl ops m row0 rows r]"
    have "hand_over fl hw cfg ops m row0 rows r i s = all_steps l s" by (simp only: hand_over_def Let_def settle_rows_def l_def)
    then have "wp T (hand_over fl hw cfg ops m row0 rows r i) Q s = wp T (all_steps l) Q s" by (simp only: wp_def)
    then show ?thesis by (simp only: wp_steps l_def)
  qed
  ultimately show ?thesis by (simp only:)
qed

end
