(* ===== verification/Fpga_Product.thy ===== *)
theory Fpga_Product
  imports Fpga_Overlap
begin

text \<open>
  The result of the two schedulers: whatever the device does, a product that returns true has left in the result
  tensor the sums of the rows the device computes from the inputs of each tile; and on a device that answers
  it does return true.
\<close>

subsection \<open>The invariant of the ping-pong scheduler\<close>

text \<open>The slot of the next job, and of the one before.\<close>

lemma slots_alternate:
  fixes x :: u32
  shows "unat (x AND 1) < 2" "unat ((x - 1) AND 1) \<noteq> unat (x AND 1)"
proof -
  have "unat (x AND 1) \<le> unat (1 :: u32)" unfolding word_le_nat_alt[symmetric] by (rule word_and_le1)
  then show "unat (x AND 1) < 2" by simp
  have "odd (x - 1) \<noteq> odd x" by simp
  then have "(x - 1) AND 1 \<noteq> x AND 1" by (metis and_one_eq odd_iff_mod_2_eq_one)
  then show "unat ((x - 1) AND 1) \<noteq> unat (x AND 1)" by (simp only: word_unat_eq_iff simp_thms)
qed

definition pp_inv :: "bool \<Rightarrow> 'f float_ops \<Rightarrow> run_config \<Rightarrow> operands \<Rightarrow> (int \<Rightarrow> nat) \<Rightarrow> int \<Rightarrow> int \<Rightarrow> int \<Rightarrow> tile_place option \<Rightarrow> 'f engine \<Rightarrow> bool" where
  "pp_inv T fl cfg ops bk m row0 rows run s \<longleftrightarrow> steady T bk 2 s \<and> (case en_running s of
       None \<Rightarrow> run = None \<and> length (en_accum s) = nat (m * rows)
     | Some r \<Rightarrow> (case run of None \<Rightarrow> False | Some tp \<Rightarrow> r = unat ((en_tile_id s - 1) AND 1) \<and> running T ops bk r tp s
         \<and> tile_ok (rc_limits cfg) ops tp \<and> length (en_accum s) = nat (m * tp_rows tp) \<and> 0 \<le> tp_col tp \<and> tp_col tp < m
         \<and> (tp_row0 tp = row0 \<longrightarrow> tp_rows tp = rows)))"

text \<open>Within a group: the note on the staged weights is true, and a bank marked as loaded holds the weights of the group.\<close>

definition group_inv :: "operands \<Rightarrow> (int \<Rightarrow> nat) \<Rightarrow> int \<Rightarrow> u8 list \<Rightarrow> 'f engine \<Rightarrow> bool" where
  "group_inv ops bk m w s \<longleftrightarrow> length (en_loaded s) = 2 \<and> (m > 1 \<longrightarrow> staging_ok ops s
     \<and> (\<forall>b < 2. en_loaded s ! b \<longrightarrow> window (en_mem s (bk (int b))) WEIGHT_BASE (length w) = w))"

lemma windows_of_snapshot:
  assumes "tile_ok vl ops tp" "tile_snapshot b (nat (tp_rows tp)) (nat (tp_group_blocks tp) * 2) m = place_input ops tp"
  shows "window (m b) WEIGHT_BASE (weight_len tp) = ti_weight (place_input ops tp)"
proof -
  have "(nat (tp_rows tp) + 1) div 2 * 2 * (nat (tp_group_blocks tp) * 2) * 16 = weight_len tp"
    using tile_sizes_nat(14)[OF assms(1)] by simp
  then have "window (m b) WEIGHT_BASE (weight_len tp) = ti_weight (tile_snapshot b (nat (tp_rows tp)) (nat (tp_group_blocks tp) * 2) m)"
    unfolding tile_snapshot_def by (simp only: tile_input.simps)
  then show ?thesis by (simp only: assms(2))
qed

lemma staging_unmoved:
  assumes "same_outside 0x200000 e (en_ddr s) (en_ddr t)" "en_staging t = en_staging s" "rs_epoch (en_dir t) = rs_epoch (en_dir s)" "staging_ok ops s"
  shows "staging_ok ops t"
  unfolding staging_ok_def
proof (intro allI impI)
  fix vl tp assume ok: "tile_ok vl ops tp" and h: "staging_holds ops tp WEIGHT_BASE SPU_PARAM_BASE t"
  have "staging_holds ops tp WEIGHT_BASE SPU_PARAM_BASE s"
    using h assms(1-3) by (simp add: staging_holds_def Let_def same_outside_def)
  then have "staged 0x100000 (weight_len tp) (en_ddr s) = map (weight_image ops tp) [0..<weight_len tp]"
    using assms(4) ok by (simp add: staging_ok_def)
  then show "staged 0x100000 (weight_len tp) (en_ddr t) = map (weight_image ops tp) [0..<weight_len tp]"
    using same_outside_facts(3)[OF assms(1)] tile_sizes_nat(11)[OF ok] by simp
qed

lemma loaded_after:
  assumes ok: "tile_ok vl ops tp" and w: "w = ti_weight (place_input ops tp)" and i: "i < 2" and run: "running T ops bk i tp t"
    and "keeps_other_weights (bk (int i)) (en_mem s) (en_mem t)" and len: "length l = 2"
    and "\<forall>b < 2. l ! b \<longrightarrow> window (en_mem s (bk (int b))) WEIGHT_BASE (length w) = w"
  shows "\<forall>b < 2. l[i := True] ! b \<longrightarrow> window (en_mem t (bk (int b))) WEIGHT_BASE (length w) = w"
proof (intro allI impI)
  fix b :: nat assume b: "b < 2" "l[i := True] ! b"
  have lw: "length w = weight_len tp" using w by (simp add: place_input_def)
  have wi: "window (en_mem t (bk (int i))) WEIGHT_BASE (length w) = w"
    using windows_of_snapshot[OF ok] run w lw by (simp add: running_def)
  show "window (en_mem t (bk (int b))) WEIGHT_BASE (length w) = w"
  proof (cases "bk (int b) = bk (int i)")
    case False
    then have "l ! b" using b i len by (cases "b = i") simp_all
    then have "window (en_mem s (bk (int b))) WEIGHT_BASE (length w) = w" using assms(7) b(1) by blast
    moreover have "window (en_mem t (bk (int b))) WEIGHT_BASE (length w) = window (en_mem s (bk (int b))) WEIGHT_BASE (length w)"
      using assms(5) False tile_sizes_nat(11)[OF ok] unfolding lw by (simp add: window_def keeps_other_weights_def)
    ultimately show ?thesis by (simp only:)
  qed (use wi in simp)
qed

subsection \<open>A tile\<close>

lemma wp_pingpong_tile:
  fixes s :: "'a engine"
  assumes ok: "tile_ok (rc_limits cfg) ops tp" and place: "tp_row0 tp = row0" "tp_rows tp = rows" "0 \<le> tp_col tp" "tp_col tp < m"
    and s: "pp_inv T fl cfg ops bk m row0 rows run s" "group_inv ops bk m w s" and w: "w = ti_weight (place_input ops tp)"
    and keeps: "keeps hw" and T: "T \<Longrightarrow> live hw cfg"
  shows "wp T (pingpong_tile fl hw cfg ops None m tp) (\<lambda>t. pp_inv T fl cfg ops bk m row0 rows (Some tp) t \<and> group_inv ops bk m w t
    \<and> settled fl hw ops m row0 rows (Some tp) t
      = (add_tile fl hw ops tp (fst (settled fl hw ops m row0 rows run s)), snd (settled fl hw ops m row0 rows run s))) s"
    (is "wp T _ ?Q s")
proof -
  define i where "i = unat (en_tile_id s AND 1)"
  have i: "i < 2" "unat ((en_tile_id s - 1) AND 1) \<noteq> i" by (simp_all add: i_def slots_alternate)
  have st: "steady T bk 2 s" "length (en_slots s) = 2" "ddr_ready (en_ddr s)" "rs_enabled (en_dir s) = False" "sel (en_dev s) = bk" "T \<Longrightarrow> up (en_dev s)"
    using s(1) by (simp_all add: pp_inv_def steady_def)
  have ans: "T \<Longrightarrow> answers hw" using T by (simp add: live_def)
  let ?mark = "\<lambda>s. s\<lparr>en_running := Some i, en_loaded := (en_loaded s)[i := True], en_tile_id := en_tile_id s + 1\<rparr>"
  let ?reuse = "modify (\<lambda>s. set_job i (\<lambda>job. job\<lparr>qj_weight_bank_reused := m > 1 \<and> en_loaded s ! i\<rparr>) s)"
  let ?next = "\<lambda>s. case en_running s of Some r \<Rightarrow> hand_over fl hw cfg ops m (tp_row0 tp) (tp_rows tp) r i s | None \<Rightarrow> fpga_submit_q8_tile_job hw cfg i s"
  have "wp T (fpga_prepare_q8_tile_job hw cfg ops None tp (int i) (m > 1) WEIGHT_BASE SPU_PARAM_BASE i)
      (wp T ?reuse (wp T ?next (wp T (modify ?mark) ?Q))) s"
  proof (rule wp_prepare[OF ok st(3,4) _ keeps ans])
    show "i < length (en_slots s)" using i st(2) by simp
    show "1 < m \<Longrightarrow> staging_ok ops s" using s(2) by (simp add: group_inv_def)
    fix d1 dv1 ws jid
    assume p: "ddr_ready d1" "holds_inputs ops tp d1" "runs_on T (en_dev s) dv1"
      "1 < m \<Longrightarrow> staging_ok ops (s\<lparr>en_ddr := d1, en_staging := ws\<rparr>)"
    let ?j = "new_job ops tp (sizes_of tp) (en_tile_id s) (int i) WEIGHT_BASE SPU_PARAM_BASE jid\<lparr>qj_weight_bank_reused := m > 1 \<and> en_loaded s ! i\<rparr>"
    define u where "u = s\<lparr>en_ddr := d1, en_dev := dv1, en_staging := ws, en_slots := (en_slots s)[i := ?j]\<rparr>"
    have u: "en_ddr u = d1" "en_dev u = dv1" "en_mem u = en_mem s" "en_job u = en_job s" "en_accum u = en_accum s" "en_dst u = en_dst s"
      "en_running u = en_running s" "en_loaded u = en_loaded s" "en_tile_id u = en_tile_id s" by (simp_all add: u_def)
    have at: "job_at i u = ?j" "\<And>r. r \<noteq> i \<Longrightarrow> job_at r u = job_at r s" using i st(2) by (simp_all add: u_def job_at_def)
    have su: "steady T bk 2 u" using st p(1,3) sel_calm by (auto simp: steady_def u_def runs_on_def)
    have bank: "int i AND 1 = int i" using i(1) by (cases "i = 0") (simp_all add: less_2_cases_iff)
    have job: "job_for tp (int i) (job_at i u)" using new_job_for[of tp "int i"] by (simp add: at bank)
    have reused: "window (en_mem u (bk (int i))) WEIGHT_BASE (weight_len tp) = ti_weight (place_input ops tp)" if "qj_weight_bank_reused (job_at i u)"
    proof -
      have "m > 1 \<and> en_loaded s ! i" using that by (simp add: at)
      then have "window (en_mem s (bk (int i))) WEIGHT_BASE (length w) = w" using s(2) i(1) by (simp add: group_inv_def)
      moreover have "length w = weight_len tp" by (simp add: w place_input_def)
      ultimately show ?thesis by (simp add: u w)
    qed
    have staging: "1 < m \<Longrightarrow> staging_ok ops u" using p(4) by (auto simp: u_def staging_ok_def staging_holds_def)
    have reached: "?Q (?mark t)" if t: "unmoved (bk (int i)) u t" "running T ops bk i tp t"
        "(en_accum t, en_dst t) = settled fl hw ops m row0 rows run s" "length (en_accum t) = nat (m * rows)" for t
    proof -
      have tf: "en_loaded t = en_loaded s" "en_tile_id t = en_tile_id s" "length (en_slots t) = 2" "sel (en_dev t) = bk"
        "rs_enabled (en_dir t) = False" "keeps_other_weights (bk (int i)) (en_mem s) (en_mem t)"
        using t(1) su u by (simp_all add: unmoved_def steady_def)
      have sg: "1 < m \<Longrightarrow> staging_ok ops t"
        using t(1) staging by (auto simp: unmoved_def intro: staging_unmoved)
      have "T \<Longrightarrow> up (en_dev t)" using t(2) by (simp add: running_def finished_def)
      then have "steady T bk 2 (?mark t)" using unmoved_ready[OF t(1)] su tf by (simp add: steady_def)
      moreover have "running T ops bk i tp (?mark t)" using t(2) by (simp add: running_def)
      ultimately have inv: "pp_inv T fl cfg ops bk m row0 rows (Some tp) (?mark t)"
        using ok place t(4) by (simp add: pp_inv_def tf i_def)
      have "\<forall>b < 2. (en_loaded s)[i := True] ! b \<longrightarrow> window (en_mem t (bk (int b))) WEIGHT_BASE (length w) = w" if "m > 1"
        by (rule loaded_after[OF ok w i(1) t(2) tf(6)]) (use s(2) that in \<open>simp_all add: group_inv_def\<close>)
      then have grp: "group_inv ops bk m w (?mark t)"
        using sg s(2) tf by (simp add: group_inv_def staging_ok_def staging_holds_def)
      have "settled fl hw ops m row0 rows (Some tp) (?mark t) = (add_tile fl hw ops tp (en_accum t), en_dst t)"
        using place by (simp add: settled_def Let_def)
      then show ?thesis using inv grp t(3) by (metis fst_conv snd_conv)
    qed
    have "wp T ?next (wp T (modify ?mark) ?Q) u"
    proof (cases "en_running s")
      case None
      have run: "run = None" "length (en_accum s) = nat (m * rows)" using s(1) None by (simp_all add: pp_inv_def)
      have "wp T (fpga_submit_q8_tile_job hw cfg i) (wp T (modify ?mark) ?Q) u"
      proof (rule wp_submit_first[OF ok su i(1) _ job keeps T reused])
        show "holds_inputs ops tp (en_ddr u)" using p(2) by (simp add: u)
        fix t assume "unmoved (bk (int i)) u t" "running T ops bk i tp t" "en_accum t = en_accum u" "en_dst t = en_dst u"
        then show "wp T (modify ?mark) ?Q t" unfolding wp_modify using run by (intro reached) (simp_all add: settled_def u)
      qed
      then show ?thesis by (simp add: wp_def None u)
    next
      case (Some r)
      obtain tpr where run: "run = Some tpr" using s(1) Some by (auto simp: pp_inv_def split: option.splits)
      have rf: "r \<noteq> i" "running T ops bk r tpr s" "tile_ok (rc_limits cfg) ops tpr" "length (en_accum s) = nat (m * tp_rows tpr)"
        "0 \<le> tp_col tpr" "tp_col tpr < m" "tp_row0 tpr = row0 \<Longrightarrow> tp_rows tpr = rows"
        using s(1) Some run i(2) by (auto simp: pp_inv_def)
      have ru: "running T ops bk r tpr u"
        using rf(1,2) at p(3) by (auto simp: running_def u runs_on_def)
      have "wp T (hand_over fl hw cfg ops m row0 rows r i) (wp T (modify ?mark) ?Q) u"
      proof (rule wp_hand_over[OF ok rf(3) i(1) rf(1) su ru _ job keeps T _ rf(5,6) reused])
        show "holds_inputs ops tp (en_ddr u)" using p(2) by (simp add: u)
        show "length (en_accum u) = nat (m * tp_rows tpr)" using rf(4) by (simp add: u)
        fix t assume t: "unmoved (bk (int i)) u t" "running T ops bk i tp t" "(en_accum t, en_dst t) = settled fl hw ops m row0 rows (Some tpr) u"
          "length (en_accum t) = (if tp_row0 tpr \<noteq> row0 then nat (m * rows) else nat (m * tp_rows tpr))"
        have "settled fl hw ops m row0 rows (Some tpr) u = settled fl hw ops m row0 rows run s" by (simp add: settled_def Let_def u run)
        then show "wp T (modify ?mark) ?Q t" unfolding wp_modify using t rf(7) by (intro reached) (auto split: if_splits)
      qed
      then show ?thesis by (simp add: wp_def Some u place)
    qed
    then show "wp T ?reuse (wp T ?next (wp T (modify ?mark) ?Q)) (s\<lparr>en_ddr := d1, en_dev := dv1, en_staging := ws,
        en_slots := (en_slots s)[i := new_job ops tp (sizes_of tp) (en_tile_id s) (int i) WEIGHT_BASE SPU_PARAM_BASE jid]\<rparr>)"
      using i(1) st(2) by (simp add: wp_modify u_def set_job_def job_at_def)
  qed
  moreover have "wp T (pingpong_tile fl hw cfg ops None m tp) ?Q s
      = wp T (fpga_prepare_q8_tile_job hw cfg ops None tp (int i) (m > 1) WEIGHT_BASE SPU_PARAM_BASE i)
        (wp T ?reuse (wp T ?next (wp T (modify ?mark) ?Q))) s"
  proof -
    define l :: "'a step list" where
      "l = [fpga_prepare_q8_tile_job hw cfg ops None tp (int i) (m > 1) WEIGHT_BASE SPU_PARAM_BASE i, ?reuse, ?next, modify ?mark]"
    have "pingpong_tile fl hw cfg ops None m tp s = all_steps l s" by (simp only: pingpong_tile_def Let_def l_def i_def)
    then have "wp T (pingpong_tile fl hw cfg ops None m tp) ?Q s = wp T (all_steps l) ?Q s" by (simp only: wp_def)
    then show ?thesis by (simp only: wp_steps l_def)
  qed
  ultimately show ?thesis by (simp only:)
qed

subsection \<open>The reference\<close>

text \<open>The tiles of a row tile in the order of the K groups and columns, their sums, and the result of all row tiles.\<close>

definition group_places :: "operands \<Rightarrow> int \<Rightarrow> int \<Rightarrow> int \<Rightarrow> int \<Rightarrow> int \<times> int \<Rightarrow> tile_place list" where
  "group_places ops m nb row0 rows = (\<lambda>(ib0, gb). map (\<lambda>col. place_of ops nb row0 rows ib0 gb (int col)) [0..<nat m])"

definition row_sums :: "'f float_ops \<Rightarrow> hardware \<Rightarrow> operands \<Rightarrow> vpu_limits \<Rightarrow> int \<Rightarrow> int \<Rightarrow> int \<Rightarrow> int \<Rightarrow> 'f list" where
  "row_sums fl hw ops vl m nb row0 rows = fold (\<lambda>g. fold (add_tile fl hw ops) (group_places ops m nb row0 rows g)) (k_groups vl rows nb 0)
     (replicate (nat (m * rows)) (fl_zero fl))"

definition product_rows :: "'f float_ops \<Rightarrow> hardware \<Rightarrow> operands \<Rightarrow> vpu_limits \<Rightarrow> int \<Rightarrow> int \<Rightarrow> (int \<times> int) list \<Rightarrow> (nat \<Rightarrow> 'f) \<Rightarrow> nat \<Rightarrow> 'f" where
  "product_rows fl hw ops vl m nb = fold (\<lambda>(row0, rows). store_tile ops m row0 rows (row_sums fl hw ops vl m nb row0 rows))"

definition operands_ok :: "operands \<Rightarrow> int \<Rightarrow> int \<Rightarrow> bool" where
  "operands_ok ops n nb \<longleftrightarrow> op_weight_base ops \<noteq> 0 \<and> 0 < op_act_base ops \<and> n \<le> INT_MAX \<and> 0 < nb \<and> nb \<le> INT_MAX"

lemma place_ok:
  assumes lim: "limits_ok vl" and ops: "operands_ok ops n nb" and row: "0 \<le> row0" "0 < rows" "rows \<le> vl_max_rows vl" "row0 + rows \<le> n"
    and g: "(ib0, gb) \<in> set (k_groups vl rows nb 0)" and col: "0 \<le> col"
  shows "tile_ok vl ops (place_of ops nb row0 rows ib0 gb col)"
proof -
  have nb: "0 \<le> nb" using ops by (simp add: operands_ok_def)
  note p = k_groups_pieces[OF lim row(2,3) nb]
  have b: "0 \<le> ib0" "0 < gb" "ib0 + gb \<le> nb" using pieces_within[of 0 nb _ ib0 gb] p g by blast+
  have f: "gb \<le> 64" "2 * gb \<le> vl_max_beats vl" "rows * gb \<le> vl_result_words vl * 4" using p g by auto
  have "0 \<le> (col * nb + ib0) * Q8_BLOCK_BYTES" using b(1) col nb by simp
  then have "op_act_base ops + (col * nb + ib0) * Q8_BLOCK_BYTES \<noteq> 0" using ops by (simp add: operands_ok_def)
  then show ?thesis using b f row lim ops by (simp add: tile_ok_def place_of_def limits_ok_def operands_ok_def mult.commute)
qed

subsection \<open>The loops of the ping-pong scheduler\<close>

lemma pp_inv_update [simp]:
  "pp_inv T fl cfg ops bk m row0 rows run (s\<lparr>en_staging := x1\<rparr>) = pp_inv T fl cfg ops bk m row0 rows run s"
  "pp_inv T fl cfg ops bk m row0 rows run (s\<lparr>en_loaded := x2\<rparr>) = pp_inv T fl cfg ops bk m row0 rows run s"
  "pp_inv T fl cfg ops bk m row0 rows run (s\<lparr>en_tile_index := x3\<rparr>) = pp_inv T fl cfg ops bk m row0 rows run s"
  by (simp_all add: pp_inv_def running_def cong: option.case_cong)

lemma settled_update [simp]:
  "settled fl hw ops m row0 rows run (s\<lparr>en_staging := x1\<rparr>) = settled fl hw ops m row0 rows run s"
  "settled fl hw ops m row0 rows run (s\<lparr>en_loaded := x2\<rparr>) = settled fl hw ops m row0 rows run s"
  "settled fl hw ops m row0 rows run (s\<lparr>en_tile_index := x3\<rparr>) = settled fl hw ops m row0 rows run s"
  by (simp_all add: settled_def Let_def cong: option.case_cong if_cong)

text \<open>The running tile belongs to the current row tile, and the sums so far are as given.\<close>

definition in_row :: "bool \<Rightarrow> 'f float_ops \<Rightarrow> hardware \<Rightarrow> run_config \<Rightarrow> operands \<Rightarrow> (int \<Rightarrow> nat) \<Rightarrow> int \<Rightarrow> int \<Rightarrow> int \<Rightarrow> bool \<Rightarrow> 'f list \<Rightarrow> (nat \<Rightarrow> 'f)
    \<Rightarrow> 'f engine \<Rightarrow> bool" where
  "in_row T fl hw cfg ops bk m row0 rows begun acc dst s \<longleftrightarrow> (\<exists>run. pp_inv T fl cfg ops bk m row0 rows run s
     \<and> settled fl hw ops m row0 rows run s = (acc, dst) \<and> (begun \<longrightarrow> (\<exists>tp. run = Some tp \<and> tp_row0 tp = row0)))"

lemma wp_group:
  assumes lim: "limits_ok (rc_limits cfg)" and ops: "operands_ok ops n nb"
    and row: "0 \<le> row0" "0 < rows" "rows \<le> vl_max_rows (rc_limits cfg)" "row0 + rows \<le> n"
    and g: "g \<in> set (k_groups (rc_limits cfg) rows nb 0)" and m: "0 < m"
    and s: "in_row T fl hw cfg ops bk m row0 rows begun acc dst s" and keeps: "keeps hw" and T: "T \<Longrightarrow> live hw cfg"
  shows "wp T (pingpong_group fl hw cfg ops None m nb row0 rows g)
    (in_row T fl hw cfg ops bk m row0 rows True (fold (add_tile fl hw ops) (group_places ops m nb row0 rows g) acc) dst) s"
proof -
  obtain ib0 gb where gd: "g = (ib0, gb)" by fastforce
  let ?place = "\<lambda>col. place_of ops nb row0 rows ib0 gb (int col)"
  let ?w = "ti_weight (place_input ops (?place 0))"
  have same: "ti_weight (place_input ops (?place col)) = ?w" for col
    using weight_image_same(1)[of "?place col" "?place 0" ops] weight_image_same(2)[of "?place col" "?place 0"] by (simp add: place_input_def place_of_def)
  have ok: "tile_ok (rc_limits cfg) ops (?place col)" for col
    using place_ok[OF lim ops row] g gd by simp
  let ?I = "\<lambda>k t. \<exists>run. pp_inv T fl cfg ops bk m row0 rows run t \<and> group_inv ops bk m ?w t
    \<and> settled fl hw ops m row0 rows run t = (fold (add_tile fl hw ops) (map ?place [0..<k]) acc, dst)
    \<and> (0 < k \<longrightarrow> (\<exists>tp. run = Some tp \<and> tp_row0 tp = row0))"
  let ?loop = "all_steps (map (\<lambda>col. pingpong_tile fl hw cfg ops None m (?place col)) [0..<nat m])"
  let ?s = "s\<lparr>en_staging := no_staging, en_loaded := [False, False]\<rparr>"
  let ?Q = "in_row T fl hw cfg ops bk m row0 rows True (fold (add_tile fl hw ops) (group_places ops m nb row0 rows g) acc) dst"
  have "wp T ?loop (wp T (modify (\<lambda>s. s\<lparr>en_tile_index := en_tile_index s + 1\<rparr>)) ?Q) ?s"
  proof (rule wp_loop[where I = ?I])
    have "group_inv ops bk m ?w ?s"
      by (auto simp: group_inv_def staging_ok_def staging_holds_def no_staging_def Let_def less_2_cases_iff)
    then show "?I 0 ?s" using s by (auto simp: in_row_def)
    fix t assume "?I (nat m) t"
    then show "wp T (modify (\<lambda>s. s\<lparr>en_tile_index := en_tile_index s + 1\<rparr>)) ?Q t"
      using m by (auto simp: wp_modify in_row_def group_places_def gd)
  next
    fix k t assume k: "k < nat m" and I: "?I k t"
    then obtain run where run: "pp_inv T fl cfg ops bk m row0 rows run t" "group_inv ops bk m ?w t"
      "settled fl hw ops m row0 rows run t = (fold (add_tile fl hw ops) (map ?place [0..<k]) acc, dst)" by blast
    have pl: "tp_row0 (?place k) = row0" "tp_rows (?place k) = rows" "0 \<le> tp_col (?place k)" "tp_col (?place k) < m"
      using k by (simp_all add: place_of_def)
    show "wp T (pingpong_tile fl hw cfg ops None m (?place k)) (?I (Suc k)) t"
      by (rule wp_mono[OF wp_pingpong_tile[OF ok pl run(1,2) same[symmetric] keeps T]]) (use pl(1) run(3) in auto)
  qed
  then show ?thesis by (simp add: wp_steps wp_modify pingpong_group_def gd)
qed

lemma wp_groups:
  assumes lim: "limits_ok (rc_limits cfg)" and ops: "operands_ok ops n nb"
    and row: "0 \<le> row0" "0 < rows" "rows \<le> vl_max_rows (rc_limits cfg)" "row0 + rows \<le> n" and m: "0 < m"
    and s: "in_row T fl hw cfg ops bk m row0 rows False (replicate (nat (m * rows)) (fl_zero fl)) dst s"
    and keeps: "keeps hw" and T: "T \<Longrightarrow> live hw cfg"
  shows "wp T (all_steps (map (pingpong_group fl hw cfg ops None m nb row0 rows) (k_groups (rc_limits cfg) rows nb 0)))
    (in_row T fl hw cfg ops bk m row0 rows True (row_sums fl hw ops (rc_limits cfg) m nb row0 rows) dst) s"
proof (rule wp_list[where I = "\<lambda>ys. in_row T fl hw cfg ops bk m row0 rows (ys \<noteq> [])
    (fold (\<lambda>g. fold (add_tile fl hw ops) (group_places ops m nb row0 rows g)) ys (replicate (nat (m * rows)) (fl_zero fl))) dst"])
  show "in_row T fl hw cfg ops bk m row0 rows ([] \<noteq> []) (fold (\<lambda>g. fold (add_tile fl hw ops) (group_places ops m nb row0 rows g)) []
      (replicate (nat (m * rows)) (fl_zero fl))) dst s" using s by simp
next
  fix ys g zs t
  assume l: "k_groups (rc_limits cfg) rows nb 0 = ys @ g # zs" and I: "in_row T fl hw cfg ops bk m row0 rows (ys \<noteq> [])
    (fold (\<lambda>g. fold (add_tile fl hw ops) (group_places ops m nb row0 rows g)) ys (replicate (nat (m * rows)) (fl_zero fl))) dst t"
  have "g \<in> set (k_groups (rc_limits cfg) rows nb 0)" by (simp add: l)
  from wp_group[OF lim ops row this m I keeps T]
  show "wp T (pingpong_group fl hw cfg ops None m nb row0 rows g) (in_row T fl hw cfg ops bk m row0 rows (ys @ [g] \<noteq> [])
    (fold (\<lambda>g. fold (add_tile fl hw ops) (group_places ops m nb row0 rows g)) (ys @ [g]) (replicate (nat (m * rows)) (fl_zero fl))) dst) t" by simp
next
  fix t
  assume "in_row T fl hw cfg ops bk m row0 rows (k_groups (rc_limits cfg) rows nb 0 \<noteq> [])
    (fold (\<lambda>g. fold (add_tile fl hw ops) (group_places ops m nb row0 rows g)) (k_groups (rc_limits cfg) rows nb 0) (replicate (nat (m * rows)) (fl_zero fl))) dst t"
  moreover have "k_groups (rc_limits cfg) rows nb 0 \<noteq> []" using ops by (subst k_groups.simps) (simp add: operands_ok_def Let_def)
  ultimately show "in_row T fl hw cfg ops bk m row0 rows True (row_sums fl hw ops (rc_limits cfg) m nb row0 rows) dst t" by (simp add: row_sums_def)
qed

text \<open>Collecting the job that runs, without a next one.\<close>

lemma room_of_column:
  fixes c m rows :: int
  assumes "0 \<le> c" "c < m" "0 < rows"
  shows "nat (c * rows) + nat rows \<le> nat (m * rows)"
proof -
  have "(c + 1) * rows \<le> m * rows" using assms by (intro mult_right_mono) simp_all
  then have "nat (c * rows + rows) \<le> nat (m * rows)" by (simp add: distrib_right)
  moreover have "nat (c * rows + rows) = nat (c * rows) + nat rows" using assms by (intro nat_add_distrib) simp_all
  ultimately show ?thesis by simp
qed

lemma wp_collect:
  assumes ok: "tile_ok vl ops tp" and s: "steady T bk 2 s" "running T ops bk r tp s" and keeps: "keeps hw" and T: "T \<Longrightarrow> live hw cfg"
    and room: "length (en_accum s) = nat (m * tp_rows tp)" "0 \<le> tp_col tp" "tp_col tp < m"
    and Q: "\<And>t. steady T bk 2 t \<Longrightarrow> en_running t = None \<Longrightarrow> en_accum t = add_tile fl hw ops tp (en_accum s) \<Longrightarrow> en_dst t = en_dst s \<Longrightarrow> Q t"
  shows "wp T (all_steps [fpga_wait_and_drain_q8_tile_job hw cfg r, fpga_accumulate_pl_scaled_q8_tile_job fl hw r True,
    modify (\<lambda>s. s\<lparr>en_running := None\<rparr>)]) Q s"
proof -
  have st: "length (en_slots s) = 2" "ddr_ready (en_ddr s)" "rs_enabled (en_dir s) = False" "sel (en_dev s) = bk" using s(1) by (simp_all add: steady_def)
  have run: "r < 2" "job_for tp (int r) (job_at r s)" "en_job s = Some (bk (int r), place_input ops tp)"
    "tile_snapshot (bk (int r)) (nat (tp_rows tp)) (nat (tp_group_blocks tp) * 2) (en_mem s) = place_input ops tp"
    "T \<Longrightarrow> finished (job_at r s) (en_dev s)" using s(2) by (simp_all add: running_def)
  have rows0: "0 < tp_rows tp" using ok by (simp add: tile_ok_def)
  let ?stop = "modify (\<lambda>s. s\<lparr>en_running := None\<rparr>)"
  have "wp T (fpga_wait_and_drain_q8_tile_job hw cfg r) (wp T (fpga_accumulate_pl_scaled_q8_tile_job fl hw r True) (wp T ?stop Q)) s"
  proof (rule wp_drain[OF ok st(2) run(2) _ keeps _ run(3,4)])
    show "r < length (en_slots s)" using run(1) st(1) by simp
    show "answers hw \<and> dma_responds hw cfg \<and> finished (job_at r s) (en_dev s)" if T using T[OF that] run(5)[OF that] by (simp add: live_def)
    fix d1 dv1 n1 j1
    assume q: "same_outside 0x340000 0x380000 (en_ddr s) d1"
      "staged 0x340000 (nat (tp_rows tp) * 16) d1 = map (hw_spu hw (place_input ops tp) (place_input ops tp)) [0..<nat (tp_rows tp) * 16]"
      "sel dv1 = sel (en_dev s)" "T \<Longrightarrow> drained (int r) dv1" "collected tp (int r) False j1"
    let ?s1 = "s\<lparr>en_ddr := d1, en_dev := dv1, en_transfers := n1, en_slots := (en_slots s)[r := j1]\<rparr>"
    have d1: "ddr_ready d1" using same_outside_facts(1)[OF q(1)] st(2) by simp
    show "wp T (fpga_accumulate_pl_scaled_q8_tile_job fl hw r True) (wp T ?stop Q) ?s1"
    proof (rule wp_accumulate[OF ok, where b = "int r"])
      fix dv2 and j2 :: q8_job
      assume "sel dv2 = sel (en_dev ?s1)" "True \<Longrightarrow> T \<Longrightarrow> up dv2"
      then show "wp T ?stop Q (?s1\<lparr>en_accum := add_tile fl hw ops tp (en_accum ?s1), en_dev := dv2, en_slots := (en_slots ?s1)[r := j2]\<rparr>)"
        unfolding wp_modify using st q(3) d1 by (intro Q) (simp_all add: steady_def)
    qed (use d1 q st(1) run(1) keeps T room_of_column[OF room(2,3) rows0] room(1) in \<open>simp_all add: job_at_def live_def\<close>)
  qed
  then show ?thesis by (simp add: wp_steps)
qed

text \<open>Between two row tiles: nothing runs, or the last tile of the one before, whose rows are stored once it is collected.\<close>

definition between :: "bool \<Rightarrow> 'f float_ops \<Rightarrow> hardware \<Rightarrow> run_config \<Rightarrow> operands \<Rightarrow> (int \<Rightarrow> nat) \<Rightarrow> int \<Rightarrow> int \<Rightarrow> int \<Rightarrow> (nat \<Rightarrow> 'f) \<Rightarrow> 'f engine \<Rightarrow> bool" where
  "between T fl hw cfg ops bk n m row0 dst s \<longleftrightarrow> (n \<le> row0 \<longrightarrow> en_running s = None) \<and> (if en_running s = None then steady T bk 2 s \<and> en_dst s = dst
     else \<exists>tp. pp_inv T fl cfg ops bk m row0 0 (Some tp) s \<and> tp_row0 tp < row0
       \<and> store_tile ops m (tp_row0 tp) (tp_rows tp) (add_tile fl hw ops tp (en_accum s)) (en_dst s) = dst)"

lemma row_begins:
  assumes "between T fl hw cfg ops bk n m row0 dst s"
  shows "in_row T fl hw cfg ops bk m row0 rows False (replicate (nat (m * rows)) (fl_zero fl)) dst
    (if en_running s = None then clear_accum fl m rows s else s)"
proof (cases "en_running s")
  case None
  then show ?thesis using assms
    by (auto simp: between_def in_row_def pp_inv_def clear_accum_def settled_def intro!: exI[of _ None])
next
  case (Some r)
  then obtain tp where "pp_inv T fl cfg ops bk m row0 0 (Some tp) s" "tp_row0 tp < row0"
    "store_tile ops m (tp_row0 tp) (tp_rows tp) (add_tile fl hw ops tp (en_accum s)) (en_dst s) = dst"
    using assms by (auto simp: between_def)
  then show ?thesis using Some by (auto simp: in_row_def pp_inv_def settled_def Let_def intro!: exI[of _ "Some tp"])
qed

lemma wp_finish_row:
  fixes s :: "'a engine"
  assumes s: "in_row T fl hw cfg ops bk m row0 rows True acc dst s" and rows: "0 < rows" and keeps: "keeps hw" and T: "T \<Longrightarrow> live hw cfg"
  shows "wp T (finish_row fl hw cfg ops n m nb row0 rows) (between T fl hw cfg ops bk n m (row0 + rows) (store_tile ops m row0 rows acc dst)) s"
    (is "wp T _ ?Q s")
proof -
  obtain tp where tp: "pp_inv T fl cfg ops bk m row0 rows (Some tp) s" "tp_row0 tp = row0"
    and res: "add_tile fl hw ops tp (en_accum s) = acc" "en_dst s = dst"
    using s by (auto simp: in_row_def settled_def Let_def)
  obtain r where r: "en_running s = Some r" using tp(1) by (auto simp: pp_inv_def split: option.splits)
  have f: "steady T bk 2 s" "running T ops bk r tp s" "tile_ok (rc_limits cfg) ops tp" "length (en_accum s) = nat (m * tp_rows tp)"
    "0 \<le> tp_col tp" "tp_col tp < m" "tp_rows tp = rows" using tp r by (auto simp: pp_inv_def)
  show ?thesis
  proof (cases "row0 + rows < n \<and> can_carry_to_row cfg m nb (min (vl_max_rows (rc_limits cfg)) (n - (row0 + rows))) s")
    case True
    have "pp_inv T fl cfg ops bk m (row0 + rows) 0 (Some tp) s" using tp r rows by (auto simp: pp_inv_def)
    then have "?Q s" using True tp(2) rows res f(7) r by (auto simp: between_def)
    then show ?thesis using True by (simp add: wp_def finish_row_def Let_def r)
  next
    case False
    let ?steps = "all_steps [fpga_wait_and_drain_q8_tile_job hw cfg r, fpga_accumulate_pl_scaled_q8_tile_job fl hw r True,
      modify (\<lambda>s. s\<lparr>en_running := None\<rparr>)]"
    have "wp T ?steps (wp T (store_rows ops m row0 rows) ?Q) s"
    proof (rule wp_collect[OF f(3,1,2) keeps T f(4-6)])
      fix t assume t: "steady T bk 2 t" "en_running t = None" "en_accum t = add_tile fl hw ops tp (en_accum s)" "en_dst t = en_dst s"
      show "wp T (store_rows ops m row0 rows) ?Q t"
      proof (rule wp_store)
        show "length (en_accum t) = nat (m * rows)" unfolding t(3) using f(4,7) by simp
      qed (use t rows res in \<open>simp_all add: between_def\<close>)
    qed
    moreover have "finish_row fl hw cfg ops n m nb row0 rows s = and_then ?steps (store_rows ops m row0 rows) s"
      using False by (simp only: finish_row_def Let_def r option.case) auto
    ultimately show ?thesis by (simp only: wp_def[of T "finish_row fl hw cfg ops n m nb row0 rows"] wp_def[symmetric] wp_and_then)
  qed
qed

lemma wp_pingpong_rows:
  assumes lim: "limits_ok (rc_limits cfg)" and ops: "operands_ok ops n nb" and m: "0 < m" and keeps: "keeps hw" and T: "T \<Longrightarrow> live hw cfg"
    and "pieces row0 n ps" "0 \<le> row0" "\<forall>(r, rows) \<in> set ps. rows \<le> vl_max_rows (rc_limits cfg)"
    and "between T fl hw cfg ops bk n m row0 dst s"
  shows "wp T (all_steps (map (pingpong_row fl hw cfg ops None n m nb) ps))
    (between T fl hw cfg ops bk n m n (product_rows fl hw ops (rc_limits cfg) m nb ps dst)) s"
  using assms(6-)
proof (induction ps arbitrary: row0 dst s)
  case Nil
  then show ?case by (simp add: wp_rules product_rows_def)
next
  case (Cons p ps)
  obtain rows where p: "p = (row0, rows)" "0 < rows" "pieces (row0 + rows) n ps" using Cons.prems(1) by (cases p) auto
  have fit: "rows \<le> vl_max_rows (rc_limits cfg)" "row0 + rows \<le> n" using Cons.prems(3) p pieces_le by auto
  let ?sums = "row_sums fl hw ops (rc_limits cfg) m nb row0 rows"
  let ?s = "if en_running s = None then clear_accum fl m rows s else s"
  have "wp T (all_steps (map (pingpong_group fl hw cfg ops None m nb row0 rows) (k_groups (rc_limits cfg) rows nb 0)))
      (wp T (finish_row fl hw cfg ops n m nb row0 rows) (between T fl hw cfg ops bk n m (row0 + rows) (store_tile ops m row0 rows ?sums dst))) ?s"
    by (rule wp_mono[OF wp_groups[OF lim ops Cons.prems(2) p(2) fit m row_begins[OF Cons.prems(4)] keeps T] wp_finish_row[OF _ p(2) keeps T]])
  then have "wp T (pingpong_row fl hw cfg ops None n m nb p) (between T fl hw cfg ops bk n m (row0 + rows) (store_tile ops m row0 rows ?sums dst)) s"
    by (simp add: pingpong_row_def p(1) wp_steps wp_modify[unfolded modify_def])
  moreover have "wp T (all_steps (map (pingpong_row fl hw cfg ops None n m nb) ps))
      (between T fl hw cfg ops bk n m n (product_rows fl hw ops (rc_limits cfg) m nb ps (store_tile ops m row0 rows ?sums dst))) t"
    if "between T fl hw cfg ops bk n m (row0 + rows) (store_tile ops m row0 rows ?sums dst) t" for t
    by (rule Cons.IH) (use p that Cons.prems in auto)
  ultimately have "wp T (pingpong_row fl hw cfg ops None n m nb p) (wp T (all_steps (map (pingpong_row fl hw cfg ops None n m nb) ps))
      (between T fl hw cfg ops bk n m n (product_rows fl hw ops (rc_limits cfg) m nb ps (store_tile ops m row0 rows ?sums dst)))) s"
    by (rule wp_mono)
  then show ?case by (simp add: wp_and_then product_rows_def p(1))
qed

lemma wp_pipelined:
  assumes lim: "limits_ok (rc_limits cfg)" and ops: "operands_ok ops n nb" and m: "0 < m" "0 \<le> n" and keeps: "keeps hw" and T: "T \<Longrightarrow> live hw cfg \<and> up (en_dev s)"
    and s: "ddr_ready (en_ddr s)" "rs_enabled (en_dir s) = False"
  shows "wp T (fpga_hw_q8_0_matmul_pipelined fl hw cfg ops None n m nb)
    (\<lambda>t. en_dst t = product_rows fl hw ops (rc_limits cfg) m nb (row_tiles (rc_limits cfg) n 0) (en_dst s)) s"
proof -
  let ?ps = "row_tiles (rc_limits cfg) n 0"
  let ?s = "s\<lparr>en_tile_id := 0, en_tile_index := 0, en_slots := [blank_job, blank_job], en_running := None\<rparr>"
  have "0 < vl_max_rows (rc_limits cfg)" using lim by (simp add: limits_ok_def)
  from row_tiles_pieces[OF this m(2)] have ps: "pieces 0 n ?ps" "\<forall>(r, rows) \<in> set ?ps. rows \<le> vl_max_rows (rc_limits cfg)" by simp_all
  have "between T fl hw cfg ops (sel (en_dev s)) n m 0 (en_dst s) ?s"
    using s T by (simp add: between_def steady_def)
  from wp_pingpong_rows[OF lim ops m(1) keeps _ ps(1) order.refl ps(2) this] T
  have "wp T (all_steps (map (pingpong_row fl hw cfg ops None n m nb) ?ps))
      (between T fl hw cfg ops (sel (en_dev s)) n m n (product_rows fl hw ops (rc_limits cfg) m nb ?ps (en_dst s))) ?s" by blast
  then have "wp T (all_steps (map (pingpong_row fl hw cfg ops None n m nb) ?ps))
      (\<lambda>t. en_dst t = product_rows fl hw ops (rc_limits cfg) m nb ?ps (en_dst s)) ?s"
    by (rule wp_mono) (simp add: between_def)
  then show ?thesis by (simp add: fpga_hw_q8_0_matmul_pipelined_def wp_rules)
qed

subsection \<open>The loops of the single bank\<close>

lemma wp_single_row:
  assumes lim: "limits_ok (rc_limits cfg)" and ops: "operands_ok ops n nb" and m: "0 < m" and keeps: "keeps hw" and T: "T \<Longrightarrow> live hw cfg"
    and row: "0 \<le> row0" "0 < rows" "rows \<le> vl_max_rows (rc_limits cfg)" "row0 + rows \<le> n"
    and s: "steady T bk k s" "en_accum s = replicate (nat (m * rows)) (fl_zero fl)"
  defines "single \<equiv> \<lambda>ib0 gb col. single_bank_tile fl hw cfg ops None (place_of ops nb row0 rows ib0 gb (int col))"
  shows "wp T (all_steps (map (\<lambda>(ib0, gb). all_steps [all_steps (map (single ib0 gb) [0..<nat m]),
        modify (\<lambda>s. s\<lparr>en_tile_index := en_tile_index s + 1\<rparr>)]) (k_groups (rc_limits cfg) rows nb 0)))
    (\<lambda>t. (\<exists>k. steady T bk k t) \<and> en_dst t = en_dst s \<and> en_accum t = row_sums fl hw ops (rc_limits cfg) m nb row0 rows) s"
    (is "wp T (all_steps (map ?group _)) _ s")
proof (rule wp_list[where I = "\<lambda>ys t. (\<exists>k. steady T bk k t) \<and> en_dst t = en_dst s \<and> en_accum t
    = fold (\<lambda>g. fold (add_tile fl hw ops) (group_places ops m nb row0 rows g)) ys (replicate (nat (m * rows)) (fl_zero fl))"])
  show "(\<exists>k. steady T bk k s) \<and> en_dst s = en_dst s \<and> en_accum s
    = fold (\<lambda>g. fold (add_tile fl hw ops) (group_places ops m nb row0 rows g)) [] (replicate (nat (m * rows)) (fl_zero fl))" using s by auto
next
  fix t assume "(\<exists>k. steady T bk k t) \<and> en_dst t = en_dst s \<and> en_accum t = fold (\<lambda>g. fold (add_tile fl hw ops) (group_places ops m nb row0 rows g))
    (k_groups (rc_limits cfg) rows nb 0) (replicate (nat (m * rows)) (fl_zero fl))"
  then show "(\<exists>k. steady T bk k t) \<and> en_dst t = en_dst s \<and> en_accum t = row_sums fl hw ops (rc_limits cfg) m nb row0 rows" by (simp add: row_sums_def)
next
  fix ys g zs t
  let ?sums = "\<lambda>ys. fold (\<lambda>g. fold (add_tile fl hw ops) (group_places ops m nb row0 rows g)) ys (replicate (nat (m * rows)) (fl_zero fl))"
  assume l: "k_groups (rc_limits cfg) rows nb 0 = ys @ g # zs" and t: "(\<exists>k. steady T bk k t) \<and> en_dst t = en_dst s \<and> en_accum t = ?sums ys"
  obtain ib0 gb where g: "g = (ib0, gb)" by fastforce
  let ?place = "\<lambda>col. place_of ops nb row0 rows ib0 gb (int col)"
  have "(ib0, gb) \<in> set (k_groups (rc_limits cfg) rows nb 0)" by (simp add: l g)
  then have ok: "tile_ok (rc_limits cfg) ops (?place col)" for col using place_ok[OF lim ops row] by simp
  have len: "length (?sums ys) = nat (m * rows)"
  proof -
    have "length (fold (add_tile fl hw ops) ps acc) = length acc" for ps and acc :: "'a list" by (induction ps arbitrary: acc) auto
    then have "length (fold (\<lambda>g. fold (add_tile fl hw ops) (group_places ops m nb row0 rows g)) ys acc) = length acc" for acc :: "'a list"
      by (induction ys arbitrary: acc) auto
    then show ?thesis by simp
  qed
  have "wp T (all_steps (map (single ib0 gb) [0..<nat m])) (\<lambda>u. (\<exists>k. steady T bk k u) \<and> en_dst u = en_dst s
      \<and> en_accum u = fold (add_tile fl hw ops) (map ?place [0..<nat m]) (?sums ys)) t"
  proof (rule wp_loop[where I = "\<lambda>c u. (\<exists>k. steady T bk k u) \<and> en_dst u = en_dst s
      \<and> en_accum u = fold (add_tile fl hw ops) (map ?place [0..<c]) (?sums ys)"])
    fix c u assume c: "c < nat m" and u: "(\<exists>k. steady T bk k u) \<and> en_dst u = en_dst s \<and> en_accum u = fold (add_tile fl hw ops) (map ?place [0..<c]) (?sums ys)"
    have "length (fold (add_tile fl hw ops) ps acc) = length acc" for ps and acc :: "'a list" by (induction ps arbitrary: acc) auto
    then have "length (en_accum u) = nat (m * rows)" using u len by simp
    then have room: "nat (tp_col (?place c) * tp_rows (?place c)) + nat (tp_rows (?place c)) \<le> length (en_accum u)"
      using room_of_column[of "int c" m rows] c row(2) by (simp add: place_of_def)
    have st: "ddr_ready (en_ddr u)" "rs_enabled (en_dir u) = False" "sel (en_dev u) = bk" "T \<Longrightarrow> up (en_dev u)" using u by (auto simp: steady_def)
    show "wp T (single ib0 gb c) (\<lambda>u. (\<exists>k. steady T bk k u) \<and> en_dst u = en_dst s
        \<and> en_accum u = fold (add_tile fl hw ops) (map ?place [0..<Suc c]) (?sums ys)) u"
      unfolding single_def by (rule wp_mono[OF wp_single_tile[OF ok st keeps T room]]) (use u in auto)
  qed (use t in auto)
  then show "wp T (?group g) (\<lambda>t. (\<exists>k. steady T bk k t) \<and> en_dst t = en_dst s \<and> en_accum t = ?sums (ys @ [g])) t"
    unfolding g prod.case wp_steps wp_modify
    by (rule wp_mono) (simp add: wp_modify group_places_def)
qed

lemma length_row_sums: "length (row_sums fl hw ops vl m nb row0 rows) = nat (m * rows)"
proof -
  have a: "length (fold (add_tile fl hw ops) ps acc) = length acc" for ps and acc :: "'a list" by (induction ps arbitrary: acc) auto
  have "length (fold (\<lambda>g. fold (add_tile fl hw ops) (group_places ops m nb row0 rows g)) ys acc) = length acc" for ys and acc :: "'a list"
    by (induction ys arbitrary: acc) (auto simp: a)
  then show ?thesis by (simp add: row_sums_def)
qed

definition single_row :: "'f float_ops \<Rightarrow> hardware \<Rightarrow> run_config \<Rightarrow> operands \<Rightarrow> int \<Rightarrow> int \<Rightarrow> int \<times> int \<Rightarrow> 'f step" where
  "single_row fl hw cfg ops m nb = (\<lambda>(row0, rows). all_steps
     [modify (clear_accum fl m rows),
      all_steps (map (\<lambda>(ib0, gb). all_steps
        [all_steps (map (\<lambda>col. single_bank_tile fl hw cfg ops None (place_of ops nb row0 rows ib0 gb (int col))) [0..<nat m]),
         modify (\<lambda>s. s\<lparr>en_tile_index := en_tile_index s + 1\<rparr>)]) (k_groups (rc_limits cfg) rows nb 0)),
      store_rows ops m row0 rows])"

lemma wp_single_rows:
  assumes lim: "limits_ok (rc_limits cfg)" and ops: "operands_ok ops n nb" and m: "0 < m" and keeps: "keeps hw" and T: "T \<Longrightarrow> live hw cfg"
    and "pieces row0 n ps" "0 \<le> row0" "\<forall>(r, rows) \<in> set ps. rows \<le> vl_max_rows (rc_limits cfg)"
    and "steady T bk k s"
  shows "wp T (all_steps (map (single_row fl hw cfg ops m nb) ps))
    (\<lambda>t. en_dst t = product_rows fl hw ops (rc_limits cfg) m nb ps (en_dst s)) s"
  using assms(6-)
proof (induction ps arbitrary: row0 k s)
  case Nil
  then show ?case by (simp add: wp_rules product_rows_def)
next
  case (Cons p ps)
  obtain rows where p: "p = (row0, rows)" "0 < rows" "pieces (row0 + rows) n ps" using Cons.prems(1) by (cases p) auto
  have fit: "rows \<le> vl_max_rows (rc_limits cfg)" "row0 + rows \<le> n" using Cons.prems(3) p pieces_le by auto
  let ?sums = "row_sums fl hw ops (rc_limits cfg) m nb row0 rows"
  let ?Q = "\<lambda>t. (\<exists>k. steady T bk k t) \<and> en_dst t = store_tile ops m row0 rows ?sums (en_dst s)"
  have store: "wp T (store_rows ops m row0 rows) ?Q t"
    if "(\<exists>k. steady T bk k t) \<and> en_dst t = en_dst s \<and> en_accum t = ?sums" for t
    by (rule wp_store) (use that p(2) in \<open>auto simp: length_row_sums\<close>)
  have "steady T bk k (clear_accum fl m rows s)" "en_accum (clear_accum fl m rows s) = replicate (nat (m * rows)) (fl_zero fl)"
    "en_dst (clear_accum fl m rows s) = en_dst s" using Cons.prems(4) by (simp_all add: clear_accum_def)
  note row = wp_single_row[OF lim ops m keeps T Cons.prems(2) p(2) fit this(1,2), unfolded this(3)]
  have "wp T (single_row fl hw cfg ops m nb p) ?Q s"
    unfolding single_row_def p(1) prod.case wp_steps wp_modify by (rule wp_mono[OF row store])
  moreover have "wp T (all_steps (map (single_row fl hw cfg ops m nb) ps))
      (\<lambda>u. en_dst u = product_rows fl hw ops (rc_limits cfg) m nb ps (store_tile ops m row0 rows ?sums (en_dst s))) t" if "?Q t" for t
  proof -
    obtain k where "steady T bk k t" using \<open>?Q t\<close> by blast
    from Cons.IH[OF p(3) _ _ this] show ?thesis using Cons.prems(2,3) p(2) that by simp
  qed
  ultimately have "wp T (single_row fl hw cfg ops m nb p) (wp T (all_steps (map (single_row fl hw cfg ops m nb) ps))
      (\<lambda>u. en_dst u = product_rows fl hw ops (rc_limits cfg) m nb ps (store_tile ops m row0 rows ?sums (en_dst s)))) s"
    by (rule wp_mono)
  then show ?case by (simp add: wp_and_then product_rows_def p(1))
qed

subsection \<open>The product\<close>

text \<open>What is asked of the state: the DDR mapped, no resident tiles, and for progress a device that is up.\<close>

definition ready :: "'f engine \<Rightarrow> bool" where
  "ready s \<longleftrightarrow> ddr_ready (en_ddr s) \<and> rs_enabled (en_dir s) = False"

definition awake :: "'f engine \<Rightarrow> bool" where
  "awake s \<longleftrightarrow> up (en_dev s) \<and> (en_stream_mode s = 0 \<or> dv_regs (en_dev s) REG_SPU_CTRL AND 1 = 0)"

lemma wp_enforce:
  assumes s: "ready s" "T \<Longrightarrow> awake s" and keeps: "keeps hw" and T: "T \<Longrightarrow> live hw cfg"
    and Q: "\<And>t. ready t \<Longrightarrow> (T \<Longrightarrow> awake t) \<Longrightarrow> en_dst t = en_dst s \<Longrightarrow> Q t"
  shows "wp T (fpga_enforce_p2_stream_mode hw) Q s"
proof (cases "en_stream_mode s = 0")
  case True
  then have "wp T (fpga_enforce_p2_stream_mode hw) Q s = Q s" by (simp add: wp_def fpga_enforce_p2_stream_mode_def)
  then show ?thesis using s Q by simp
next
  case False
  let ?dv = "mmio_fence (hw_regs hw) (vpu_wr32 REG_STREAM_MODE 0 (mmio_fence (hw_regs hw) (en_dev s)))"
  have up: "T \<Longrightarrow> up ?dv" using s(2) T by (simp add: awake_def live_def up_rules)
  have pass: "vpu_rd32 REG_SPU_STREAM_STATUS (en_dev s) AND 0x10 \<noteq> 0 \<and> vpu_rd32 REG_SPU_CTRL (en_dev s) AND 1 = 0
      \<and> vpu_rd32 REG_STREAM_MODE ?dv AND 1 = 0 \<and> vpu_rd32 REG_SPU_STREAM_STATUS ?dv AND 0x10 \<noteq> 0" if T
  proof -
    have a: "answers hw" using T[OF that] by (simp add: live_def)
    have "vpu_rd32 REG_STREAM_MODE ?dv = 0" by (simp add: vpu_rd32_def mmio_fence_def vpu_wr32_def answers_regs(1)[OF a])
    then show ?thesis using s(2)[OF that] up[OF that] False by (simp add: awake_def up_def vpu_rd32_def)
  qed
  have "Q (s\<lparr>en_dev := ?dv, en_stream_mode := 0\<rparr>)" by (rule Q) (use s(1) up in \<open>simp_all add: ready_def awake_def\<close>)
  moreover define l :: "'a step list" where "l = [modify (\<lambda>s. s\<lparr>en_stream_mode := - 1\<rparr>),
         check_that (\<lambda>s. vpu_rd32 REG_SPU_STREAM_STATUS (en_dev s) AND 0x10 \<noteq> 0 \<and> vpu_rd32 REG_SPU_CTRL (en_dev s) AND 1 = 0),
         on_device (\<lambda>dv. mmio_fence (hw_regs hw) (vpu_wr32 REG_STREAM_MODE 0 (mmio_fence (hw_regs hw) dv))),
         check_that (\<lambda>s. vpu_rd32 REG_STREAM_MODE (en_dev s) AND 1 = 0 \<and> vpu_rd32 REG_SPU_STREAM_STATUS (en_dev s) AND 0x10 \<noteq> 0),
         modify (\<lambda>s. s\<lparr>en_stream_mode := 0\<rparr>)]"
  ultimately have "wp T (all_steps l) Q s" using pass by (auto simp: l_def wp_rules)
  moreover have "fpga_enforce_p2_stream_mode hw s = all_steps l s" using False by (simp only: fpga_enforce_p2_stream_mode_def l_def if_False)
  ultimately show ?thesis by (simp only: wp_def)
qed

lemma wp_single_bank:
  assumes lim: "limits_ok (rc_limits cfg)" and ops: "operands_ok ops n nb" and m: "0 < m" "0 \<le> n" and keeps: "keeps hw" and T: "T \<Longrightarrow> live hw cfg \<and> awake s"
    and s: "ready s"
  shows "wp T (fpga_hw_q8_0_matmul_single_bank fl hw cfg ops None n m nb)
    (\<lambda>t. en_dst t = product_rows fl hw ops (rc_limits cfg) m nb (row_tiles (rc_limits cfg) n 0) (en_dst s)) s" (is "wp T _ ?Q s")
proof -
  let ?ps = "row_tiles (rc_limits cfg) n 0"
  have "0 < vl_max_rows (rc_limits cfg)" using lim by (simp add: limits_ok_def)
  from row_tiles_pieces[OF this m(2)] have ps: "pieces 0 n ?ps" "\<forall>(r, rows) \<in> set ?ps. rows \<le> vl_max_rows (rc_limits cfg)" by simp_all
  have "wp T (fpga_enforce_p2_stream_mode hw) (wp T (modify (\<lambda>s. s\<lparr>en_tile_id := 0, en_tile_index := 0\<rparr>))
      (wp T (all_steps (map (single_row fl hw cfg ops m nb) ?ps)) ?Q)) s"
  proof (rule wp_enforce[OF s _ keeps, where cfg = cfg])
    fix t assume t: "ready t" "T \<Longrightarrow> awake t" "en_dst t = en_dst s"
    have "steady T (sel (en_dev t)) (length (en_slots t)) (t\<lparr>en_tile_id := 0, en_tile_index := 0\<rparr>)"
      using t by (simp add: steady_def ready_def awake_def)
    from wp_single_rows[OF lim ops m(1) keeps _ ps(1) order.refl ps(2) this, where fl = fl] T t(3)
    show "wp T (modify (\<lambda>s. s\<lparr>en_tile_id := 0, en_tile_index := 0\<rparr>)) (wp T (all_steps (map (single_row fl hw cfg ops m nb) ?ps)) ?Q) t"
      by (simp add: wp_modify)
  qed (use T in simp_all)
  moreover have "fpga_hw_q8_0_matmul_single_bank fl hw cfg ops None n m nb = and_then (fpga_enforce_p2_stream_mode hw)
      (and_then (modify (\<lambda>s. s\<lparr>en_tile_id := 0, en_tile_index := 0\<rparr>)) (all_steps (map (single_row fl hw cfg ops m nb) ?ps)))"
    by (simp add: fpga_hw_q8_0_matmul_single_bank_def single_row_def)
  ultimately show ?thesis by (simp add: wp_and_then[THEN ext])
qed

text \<open>Either scheduler, as dispatched.\<close>

lemma wp_product:
  assumes lim: "limits_ok (rc_limits cfg)" and ops: "operands_ok ops n (k div 32)" and m: "0 < m" "0 \<le> n" and keeps: "keeps hw"
    and T: "T \<Longrightarrow> live hw cfg \<and> awake s" and s: "ready s"
  shows "wp T (fpga_hw_q8_0_matmul_dma_to_ip fl hw cfg ops None k n m)
    (\<lambda>t. en_dst t = product_rows fl hw ops (rc_limits cfg) m (k div 32) (row_tiles (rc_limits cfg) n 0) (en_dst s)) s" (is "wp T _ ?Q s")
proof -
  let ?run = "if rc_pingpong cfg then fpga_hw_q8_0_matmul_pipelined fl hw cfg ops None n m (k div 32)
    else fpga_hw_q8_0_matmul_single_bank fl hw cfg ops None n m (k div 32)"
  have "wp T (fpga_enforce_p2_stream_mode hw) (wp T ?run ?Q) s"
  proof (rule wp_enforce[OF s _ keeps, where cfg = cfg])
    fix t :: "'a engine" assume t: "ready t" "T \<Longrightarrow> awake t" "en_dst t = en_dst s"
    have "T \<Longrightarrow> live hw cfg \<and> up (en_dev t)" using T t(2) by (simp add: awake_def)
    from wp_pipelined[OF lim ops m keeps this, where fl = fl] have "wp T (fpga_hw_q8_0_matmul_pipelined fl hw cfg ops None n m (k div 32)) ?Q t"
      using t by (simp add: ready_def)
    moreover have "wp T (fpga_hw_q8_0_matmul_single_bank fl hw cfg ops None n m (k div 32)) ?Q t"
      using wp_single_bank[OF lim ops m keeps _ t(1), where T = T and fl = fl] T t(2,3) by simp
    ultimately show "wp T ?run ?Q t" by simp
  qed (use T in simp_all)
  then show ?thesis by (simp add: fpga_hw_q8_0_matmul_dma_to_ip_def Let_def wp_and_then)
qed

end
