(* ===== verification/Fpga_Result.thy ===== *)
theory Fpga_Result
  imports Fpga_Product
begin

text \<open>
  The elements of an offloaded product: where each one is stored, and the sum of tile rows it is.
\<close>

subsection \<open>Sums of a tile\<close>

definition element_value :: "'f float_ops \<Rightarrow> hardware \<Rightarrow> operands \<Rightarrow> vpu_limits \<Rightarrow> int \<Rightarrow> int \<Rightarrow> int \<Rightarrow> nat \<Rightarrow> nat \<Rightarrow> 'f" where
  "element_value fl hw ops vl nb row0 rows r c
     = fold (\<lambda>(ib0, gb). add_value fl hw ops (place_of ops nb row0 rows ib0 gb (int c)) r) (k_groups vl rows nb 0) (fl_zero fl)"

lemma nth_fold_window:
  "j < length acc \<Longrightarrow> fold (\<lambda>r acc. acc[h + r := g r (acc ! (h + r))]) [0..<n] acc ! j
    = (if h \<le> j \<and> j < h + n then g (j - h) (acc ! j) else acc ! j)"
proof (induction n arbitrary: j)
  case (Suc n)
  let ?f = "\<lambda>r acc. acc[h + r := g r (acc ! (h + r))]"
  have len: "length (fold ?f xs acc) = length acc" for xs by (induction xs arbitrary: acc) simp_all
  show ?case
  proof (cases "j = h + n")
    case True
    then show ?thesis using Suc by (simp add: len)
  next
    case False
    then show ?thesis using Suc by (auto simp: nth_list_update)
  qed
qed auto

lemma add_tile_nth:
  assumes "tp_col tp = int c'" "tp_rows tp = int R" "r < R" "c * R + r < length acc"
  shows "add_tile fl hw ops tp acc ! (c * R + r) = (if c = c' then add_value fl hw ops tp r (acc ! (c * R + r)) else acc ! (c * R + r))"
proof -
  have h: "nat (tp_col tp * tp_rows tp) = c' * R" unfolding assms(1,2) of_nat_mult[symmetric] nat_int ..
  have "c' * R \<le> c * R + r \<and> c * R + r < c' * R + R \<longleftrightarrow> c = c'"
  proof
    assume a: "c' * R \<le> c * R + r \<and> c * R + r < c' * R + R"
    have "(c * R + r) div R = c" using assms(3) by simp
    moreover have "c' \<le> (c * R + r) div R" using a assms(3) by (subst less_eq_div_iff_mult_less_eq) auto
    moreover have "(c * R + r) div R < Suc c'" using a assms(3) by (intro less_mult_imp_div_less) simp
    ultimately show "c = c'" by simp
  qed (use assms(3) in auto)
  then show ?thesis unfolding add_tile_def Let_def h using nth_fold_window[OF assms(4), of "c' * R" "add_value fl hw ops tp" R] assms(2)
    by (simp add: nat_int)
qed

lemma length_add_tiles [simp]: "length (fold (add_tile fl hw ops) ps acc) = length acc"
  by (induction ps arbitrary: acc) simp_all

lemma group_nth:
  assumes "0 \<le> rows" "r < nat rows" "c * nat rows + r < length acc"
  shows "fold (add_tile fl hw ops) (map (\<lambda>col. place_of ops nb row0 rows ib0 gb (int col)) [0..<k]) acc ! (c * nat rows + r)
    = (if c < k then add_value fl hw ops (place_of ops nb row0 rows ib0 gb (int c)) r (acc ! (c * nat rows + r)) else acc ! (c * nat rows + r))"
proof (induction k)
  case (Suc k)
  let ?p = "place_of ops nb row0 rows ib0 gb (int k)"
  have p: "tp_col ?p = int k" "tp_rows ?p = int (nat rows)" using assms(1) by (simp_all add: place_of_def)
  show ?case using add_tile_nth[OF p assms(2), of c "fold (add_tile fl hw ops) (map (\<lambda>col. place_of ops nb row0 rows ib0 gb (int col)) [0..<k]) acc" fl hw ops]
      Suc assms(3) by (auto simp: less_Suc_eq)
qed simp

lemma row_sums_nth:
  assumes "0 \<le> rows" "0 \<le> m" "r < nat rows" "c < nat m"
  shows "row_sums fl hw ops vl m nb row0 rows ! (c * nat rows + r) = element_value fl hw ops vl nb row0 rows r c"
proof -
  have at: "c * nat rows + r < nat (m * rows)"
  proof -
    have "c * nat rows + r < (c + 1) * nat rows" using assms(3) by simp
    also have "\<dots> \<le> nat m * nat rows" using assms(4) by (intro mult_le_mono1) simp
    also have "\<dots> = nat (m * rows)" using assms(1,2) by (simp add: nat_mult_distrib)
    finally show ?thesis .
  qed
  have "fold (\<lambda>g. fold (add_tile fl hw ops) (group_places ops m nb row0 rows g)) gs acc ! (c * nat rows + r)
      = fold (\<lambda>(ib0, gb). add_value fl hw ops (place_of ops nb row0 rows ib0 gb (int c)) r) gs (acc ! (c * nat rows + r))"
    if "c * nat rows + r < length acc" for gs acc
    using that
  proof (induction gs arbitrary: acc)
    case (Cons g gs)
    obtain ib0 gb where g: "g = (ib0, gb)" by fastforce
    have "fold (add_tile fl hw ops) (group_places ops m nb row0 rows g) acc ! (c * nat rows + r)
        = add_value fl hw ops (place_of ops nb row0 rows ib0 gb (int c)) r (acc ! (c * nat rows + r))"
      using group_nth[OF assms(1,3) Cons.prems, where k = "nat m"] assms(4) by (simp add: group_places_def g)
    then show ?case using Cons by (simp add: g)
  qed simp
  from this[of "replicate (nat (m * rows)) (fl_zero fl)"] at show ?thesis by (simp add: row_sums_def element_value_def)
qed

subsection \<open>Stores\<close>

definition dst_at :: "operands \<Rightarrow> nat \<Rightarrow> nat \<Rightarrow> nat" where
  "dst_at ops i j = i * op_nb0 ops + j * op_nb1 ops"

lemma fold_stores:
  fixes a :: "'p \<Rightarrow> nat"
  shows "off \<notin> a ` set xs \<Longrightarrow> fold (\<lambda>p d. d(a p := v p)) xs d off = d off"
    "inj_on a (set xs) \<Longrightarrow> p \<in> set xs \<Longrightarrow> fold (\<lambda>p d. d(a p := v p)) xs d (a p) = v p"
proof -
  show out: "off \<notin> a ` set xs \<Longrightarrow> fold (\<lambda>p d. d(a p := v p)) xs d off = d off" for off xs d
    by (induction xs arbitrary: d) auto
  show "inj_on a (set xs) \<Longrightarrow> p \<in> set xs \<Longrightarrow> fold (\<lambda>p d. d(a p := v p)) xs d (a p) = v p"
  proof (induction xs arbitrary: d)
    case (Cons x xs)
    show ?case
    proof (cases "p \<in> set xs")
      case False
      then have "a p \<notin> a ` set xs" using Cons.prems by (auto simp: inj_on_def)
      moreover have "p = x" using False Cons.prems(2) by simp
      ultimately show ?thesis using out[of "a p" xs "d(a p := v p)"] by (simp del: fun_upd_apply add: fun_upd_same)
    qed (use Cons in \<open>simp add: inj_on_def\<close>)
  qed simp
qed

definition strides_ok :: "operands \<Rightarrow> int \<Rightarrow> int \<Rightarrow> bool" where
  "strides_ok ops n m \<longleftrightarrow> (\<forall>i < nat n. \<forall>i' < nat n. \<forall>j < nat m. \<forall>j' < nat m. dst_at ops i j = dst_at ops i' j' \<longrightarrow> i = i' \<and> j = j')"

lemma strides_inj:
  assumes "strides_ok ops n m"
  shows "inj_on (\<lambda>p. dst_at ops (fst p) (snd p)) ({..<nat n} \<times> {..<nat m})"
proof (rule inj_onI)
  fix p q assume p: "p \<in> {..<nat n} \<times> {..<nat m}" and q: "q \<in> {..<nat n} \<times> {..<nat m}"
    and e: "dst_at ops (fst p) (snd p) = dst_at ops (fst q) (snd q)"
  show "p = q" using assms[unfolded strides_ok_def, rule_format, OF _ _ _ _ e] p q by (auto simp: prod_eq_iff)
qed

definition tile_cells :: "int \<Rightarrow> int \<Rightarrow> int \<Rightarrow> (nat \<times> nat) list" where
  "tile_cells m row0 rows = concat (map (\<lambda>col. map (\<lambda>row. (nat row0 + row, col)) [0..<nat rows]) [0..<nat m])"

lemma set_tile_cells: "set (tile_cells m row0 rows) = {(i, j). nat row0 \<le> i \<and> i < nat row0 + nat rows \<and> j < nat m}"
proof -
  have "\<exists>x < nat rows. a = nat row0 + x" if "nat row0 \<le> a" "a < nat row0 + nat rows" for a
    using that by (intro exI[of _ "a - nat row0"]) auto
  then have "(a, b) \<in> (\<lambda>r. (nat row0 + r, b)) ` {0..<nat rows}" if "nat row0 \<le> a" "a < nat row0 + nat rows" for a b :: nat
    using that by (force simp: image_iff)
  then show ?thesis by (force simp: tile_cells_def)
qed

lemma store_tile_cells:
  "store_tile ops m row0 rows acc dst = fold (\<lambda>p d. d(dst_at ops (fst p) (snd p) := acc ! (snd p * nat rows + (fst p - nat row0)))) (tile_cells m row0 rows) dst"
proof -
  have "fold f (concat (map g xs)) d = fold (\<lambda>x. fold f (g x)) xs d" for f :: "nat \<times> nat \<Rightarrow> (nat \<Rightarrow> 'a) \<Rightarrow> nat \<Rightarrow> 'a" and g and xs :: "nat list" and d
    by (induction xs arbitrary: d) simp_all
  moreover have "store_dst_value ops (nat row0 + row) col v = (\<lambda>d. d(dst_at ops (nat row0 + row) col := v))" for row col and v :: 'a
    by (rule ext) (simp only: store_dst_value_def dst_at_def)
  ultimately show ?thesis by (simp add: store_tile_def tile_cells_def fold_map comp_def del: fun_upd_apply)
qed

lemma product_elements:
  assumes "pieces row0 n ps" "0 \<le> row0" "0 \<le> m" and strides: "strides_ok ops n m"
  shows "(start, rows) \<in> set ps \<Longrightarrow> r < nat rows \<Longrightarrow> c < nat m
      \<Longrightarrow> product_rows fl hw ops vl m nb ps dst (dst_at ops (nat start + r) c) = element_value fl hw ops vl nb start rows r c"
    "(\<And>i j. nat row0 \<le> i \<Longrightarrow> i < nat n \<Longrightarrow> j < nat m \<Longrightarrow> off \<noteq> dst_at ops i j) \<Longrightarrow> product_rows fl hw ops vl m nb ps dst off = dst off"
proof -
  have out: "product_rows fl hw ops vl m nb ps dst off = dst off"
    if "pieces row0 n ps" "0 \<le> row0" "\<And>i j. nat row0 \<le> i \<Longrightarrow> i < nat n \<Longrightarrow> j < nat m \<Longrightarrow> off \<noteq> dst_at ops i j" for row0 ps dst off
    using that
  proof (induction ps arbitrary: row0 dst)
    case (Cons p ps)
    obtain rows where p: "p = (row0, rows)" "0 < rows" "pieces (row0 + rows) n ps" using Cons.prems(1) by (cases p) auto
    have "row0 + rows \<le> n" by (rule pieces_le[OF p(3)])
    then have "off \<notin> (\<lambda>p. dst_at ops (fst p) (snd p)) ` set (tile_cells m row0 rows)"
      using Cons.prems(2,3) p(2) by (fastforce simp: set_tile_cells)
    then have "store_tile ops m row0 rows acc dst off = dst off" for acc unfolding store_tile_cells by (rule fold_stores(1))
    moreover have "product_rows fl hw ops vl m nb ps dst' off = dst' off" for dst'
      using Cons.IH[OF p(3)] Cons.prems(2,3) p(2) by simp
    ultimately show ?case by (simp add: product_rows_def p(1))
  qed (simp add: product_rows_def)
  show "(\<And>i j. nat row0 \<le> i \<Longrightarrow> i < nat n \<Longrightarrow> j < nat m \<Longrightarrow> off \<noteq> dst_at ops i j) \<Longrightarrow> product_rows fl hw ops vl m nb ps dst off = dst off"
    by (rule out[OF assms(1,2)])
  show "(start, rows) \<in> set ps \<Longrightarrow> r < nat rows \<Longrightarrow> c < nat m
      \<Longrightarrow> product_rows fl hw ops vl m nb ps dst (dst_at ops (nat start + r) c) = element_value fl hw ops vl nb start rows r c"
    using assms(1,2)
  proof (induction ps arbitrary: row0 dst)
    case (Cons p ps)
    obtain rows0 where p: "p = (row0, rows0)" "0 < rows0" "pieces (row0 + rows0) n ps" using Cons.prems(4) by (cases p) auto
    show ?case
    proof (cases "(start, rows) \<in> set ps")
      case True
      then show ?thesis using Cons.IH[OF True Cons.prems(2,3) p(3)] Cons.prems(5) p(2) by (simp add: product_rows_def p(1))
    next
      case False
      then have e: "start = row0" "rows = rows0" using Cons.prems(1) p(1) by auto
      have le: "row0 + rows0 \<le> n" by (rule pieces_le[OF p(3)])
      let ?i = "nat row0 + r"
      have i: "?i < nat n" "?i < nat (row0 + rows0)" using Cons.prems(2,5) e le p(2) by auto
      have "product_rows fl hw ops vl m nb ps d (dst_at ops ?i c) = d (dst_at ops ?i c)" for d
      proof (rule out[OF p(3)])
        fix i j assume "nat (row0 + rows0) \<le> i" "i < nat n" "j < nat m"
        note ij = strides[unfolded strides_ok_def, rule_format, OF i(1) this(2) Cons.prems(3) this(3)]
        show "dst_at ops ?i c \<noteq> dst_at ops i j" using ij i(2) \<open>nat (row0 + rows0) \<le> i\<close> by auto
      qed (use Cons.prems(5) p(2) in simp)
      moreover have "store_tile ops m row0 rows0 acc dst (dst_at ops ?i c) = acc ! (c * nat rows0 + r)" for acc
      proof -
        have "inj_on (\<lambda>p. dst_at ops (fst p) (snd p)) (set (tile_cells m row0 rows0))"
          by (rule inj_on_subset[OF strides_inj[OF strides]]) (use le Cons.prems(5) p(2) in \<open>auto simp: set_tile_cells\<close>)
        moreover have "(?i, c) \<in> set (tile_cells m row0 rows0)" using Cons.prems(2,3) e by (simp add: set_tile_cells)
        ultimately show ?thesis
          unfolding store_tile_cells using fold_stores(2)[of "\<lambda>p. dst_at ops (fst p) (snd p)" "tile_cells m row0 rows0" "(?i, c)"
            "\<lambda>p. acc ! (snd p * nat rows0 + (fst p - nat row0))" dst] by (simp del: fun_upd_apply)
      qed
      ultimately show ?thesis
        using row_sums_nth[of rows0 m r c fl hw ops vl nb row0] Cons.prems(2,3) assms(3) e p(2) by (simp add: product_rows_def p(1))
    qed
  qed simp
qed

end
