(* ===== verification/Fpga_Spu.thy ===== *)
theory Fpga_Spu
  imports Fpga_Ddr Hls_Float
begin

text \<open>
  The number format of the accelerator's results (\<^verbatim>\<open>ggml/src/ggml-cpu/fpga_host.cpp\<close>): what one Q8_0 block
  adds to a row in Q16.16, as the host computes it when it checks the device, the check of a whole tile,
  and how far the fixed-point numbers are from the exact product.
\<close>

subsection \<open>One block\<close>

text \<open>The integer product of two blocks. The sum stays far below the 32-bit range (\<open>raw_dot_bound\<close>).\<close>

definition q8_0_raw_dot :: "(nat \<Rightarrow> u8) \<Rightarrow> (nat \<Rightarrow> u8) \<Rightarrow> int" where
  "q8_0_raw_dot a w = fold (\<lambda>i acc. acc + sint (a i) * sint (w i)) [0..<32] 0"

text \<open>A finite, non-negative half precision number as a multiple of \<open>2\<^sup>-\<^sup>3\<^sup>2\<close>.\<close>

definition fp16_to_q0_32 :: "u16 \<Rightarrow> u64" where
  "fp16_to_q0_32 h =
     (let e = ucast (drop_bit 10 h) AND 0x1f :: u64; frac = ucast h AND 0x3ff
      in if e = 0 then push_bit 8 frac else push_bit (unat (e + 7)) (0x400 OR frac))"

text \<open>The 128-bit intermediate values are numbers; the conversion to \<open>int64_t\<close> keeps the low 64 bits.\<close>

definition fpga_spu_q16_contribution :: "int \<Rightarrow> u16 \<Rightarrow> u16 \<Rightarrow> int option" where
  "fpga_spu_q16_contribution raw act_scale weight_scale =
     (if act_scale AND 0x8000 \<noteq> 0 \<or> weight_scale AND 0x8000 \<noteq> 0 \<or> act_scale AND 0x7c00 = 0x7c00
         \<or> weight_scale AND 0x7c00 = 0x7c00 then None
      else let act_q32 = unat (fp16_to_q0_32 act_scale); weight_q32 = unat (fp16_to_q0_32 weight_scale);
               product_full = act_q32 * weight_q32;
               product_q32 = (if product_full div 2 ^ 96 \<noteq> 0 then 2 ^ 64 - 1 else product_full div 2 ^ 32 mod 2 ^ 64);
               contribution = raw * int product_q32 div 2 ^ 16
           in Some (sint (word_of_int contribution :: u64)))"

subsection \<open>A tile\<close>

text \<open>
  The check of the result rows in DDR against the blocks of the tile: the sums wrap at 64 bits. Tracing is
  the argument \<open>trace\<close> of the read, which the code sets for row 0 only.
\<close>

definition q16_step :: "(int \<Rightarrow> u8) \<Rightarrow> int \<Rightarrow> int \<Rightarrow> u64 \<Rightarrow> u64 option" where
  "q16_step mem act weight expected_bits = do {
     contribution \<leftarrow> fpga_spu_q16_contribution (q8_0_raw_dot (q8_qs mem act) (q8_qs mem weight)) (q8_d mem act) (q8_d mem weight);
     Some (expected_bits + word_of_int contribution) }"

definition q16_row :: "(int \<Rightarrow> u8) \<Rightarrow> int \<Rightarrow> int \<Rightarrow> int \<Rightarrow> int \<Rightarrow> int \<Rightarrow> nat \<Rightarrow> u64 option" where
  "q16_row mem nb1 weight_base act_group row k_block0 group_blocks =
     fold_opt (\<lambda>gb. q16_step mem (act_group + int gb * Q8_BLOCK_BYTES)
       (weight_block_from_base nb1 weight_base row (k_block0 + int gb))) [0..<group_blocks] 0"

definition fpga_pl_scale_contract_verify_q16_tile ::
    "(int \<Rightarrow> u8) \<Rightarrow> int \<Rightarrow> int \<Rightarrow> int \<Rightarrow> int \<Rightarrow> int \<Rightarrow> int \<Rightarrow> int \<Rightarrow> ddr_map \<Rightarrow> bool option" where
  "fpga_pl_scale_contract_verify_q16_tile mem nb1 weight_base act_group row0 rows k_block0 group_blocks d =
     fold_opt (\<lambda>row ok. if \<not> ok then Some False
         else case q16_row mem nb1 weight_base act_group (row0 + int row) k_block0 (nat group_blocks) of
           None \<Rightarrow> Some False
         | Some expected_bits \<Rightarrow> do {
             (row_id, actual) \<leftarrow> ddr_read_spu_q16_row (0x340000 + of_nat row * 16) (row = 0) d;
             Some (row_id = of_nat row \<and> word_of_int actual = expected_bits) })
       [0..<nat rows] True"

subsection \<open>The integer product\<close>

lemma raw_dot_sum: "q8_0_raw_dot a w = (\<Sum>i<32. sint (a i) * sint (w i))"
proof -
  have "fold (\<lambda>i acc. acc + f i) [0..<n] 0 = (\<Sum>i<n. f i)" for f :: "nat \<Rightarrow> int" and n
    by (induction n) simp_all
  then show ?thesis by (simp only: q8_0_raw_dot_def)
qed

lemma lane_bound: "\<bar>sint (x :: u8) * sint (y :: u8)\<bar> \<le> 16384"
proof -
  have "\<bar>sint x\<bar> \<le> 128" "\<bar>sint y\<bar> \<le> 128" using sint_range_size[of x] sint_range_size[of y] by (auto simp: word_size)
  then have "\<bar>sint x\<bar> * \<bar>sint y\<bar> \<le> 128 * 128" by (intro mult_mono) auto
  then show ?thesis by (simp only: abs_mult)
qed

lemma raw_dot_bound: "n \<le> 32 \<Longrightarrow> \<bar>\<Sum>i<n. sint (a i :: u8) * sint (w i :: u8)\<bar> \<le> 16384 * int n"
proof (induction n)
  case (Suc n)
  then have "\<bar>\<Sum>i<n. sint (a i) * sint (w i)\<bar> \<le> 16384 * int n" by simp
  then have "\<bar>(\<Sum>i<n. sint (a i) * sint (w i)) + sint (a n) * sint (w n)\<bar> \<le> 16384 * int n + 16384"
    using lane_bound[of "a n" "w n"] by (intro order_trans[OF abs_triangle_ineq]) (rule add_mono)
  then show ?case by (simp add: algebra_simps)
qed simp

lemma raw_dot_small: "\<bar>q8_0_raw_dot a w\<bar> \<le> 524288"
  using raw_dot_bound[of 32 a w] by (simp only: raw_dot_sum) simp

subsection \<open>Half precision as fixed point\<close>

definition f16_finite :: "u16 \<Rightarrow> bool" where
  "f16_finite h \<longleftrightarrow> f16_sign h = 0 \<and> f16_exp h < 31"

lemma scale_fields:
  "h AND 0x8000 \<noteq> 0 \<longleftrightarrow> f16_sign h \<noteq> 0" "h AND 0x7c00 = 0x7c00 \<longleftrightarrow> f16_exp h = 31"
proof -
  have c: "(0x8000 :: u16) = push_bit 15 (mask 1)" "(0x7c00 :: u16) = push_bit 10 (mask 5)"
    by (simp_all add: mask_eq_exp_minus_1)
  have d: "h AND push_bit k (mask n) = push_bit k (drop_bit k h AND mask n)" for k n
    by (rule bit_word_eqI) (auto simp: bit_simps)
  have v: "unat (h AND push_bit k (mask n)) = unat h div 2 ^ k mod 2 ^ n * 2 ^ k" if "k + n \<le> 16" for k n
  proof -
    have "unat h div 2 ^ k mod 2 ^ n < 2 ^ n" by simp
    then have "unat h div 2 ^ k mod 2 ^ n * 2 ^ k < 2 ^ n * 2 ^ k" by simp
    also have "(2 :: nat) ^ n * 2 ^ k \<le> 2 ^ 16" using that by (simp add: power_add[symmetric] add.commute del: power_numeral)
    finally have "unat (drop_bit k h AND mask n) * 2 ^ k < 2 ^ LENGTH(16)" by (simp add: unat_and_mask unat_drop_bit)
    then show ?thesis unfolding d by (subst unat_push_bit_exact) (simp_all add: unat_and_mask unat_drop_bit)
  qed
  have z: "h AND 0x8000 \<noteq> 0 \<longleftrightarrow> unat (h AND push_bit 15 (mask 1)) \<noteq> 0" by (simp only: c(1) unat_eq_0)
  have "unat h div 2 ^ 15 mod 2 = unat h div 2 ^ 15" using f16_field_bounds(1)[of h] by (simp add: f16_sign_def)
  then show "h AND 0x8000 \<noteq> 0 \<longleftrightarrow> f16_sign h \<noteq> 0" unfolding z by (subst v) (simp_all add: f16_sign_def)
  have "h AND 0x7c00 = 0x7c00 \<longleftrightarrow> unat (h AND push_bit 10 (mask 5)) = unat (0x7c00 :: u16)"
    by (simp only: c(2)[symmetric] word_unat_eq_iff)
  also have "\<dots> \<longleftrightarrow> f16_exp h * 1024 = 31744" by (subst v) (simp_all add: f16_exp_def)
  finally show "h AND 0x7c00 = 0x7c00 \<longleftrightarrow> f16_exp h = 31" by auto
qed

lemma q0_32_unat: "f16_exp h < 31 \<Longrightarrow> unat (fp16_to_q0_32 h)
    = (if f16_exp h = 0 then f16_man h * 2 ^ 8 else (1024 + f16_man h) * 2 ^ (f16_exp h + 7))"
proof -
  assume fin: "f16_exp h < 31"
  obtain e f :: u64 where w: "e = ucast (drop_bit 10 h) AND 0x1f" "f = ucast h AND 0x3ff" by blast
  have m: "(0x1F :: u64) = mask 5" "(0x3FF :: u64) = mask 10" by (simp_all add: mask_eq_exp_minus_1)
  have ue: "unat e = f16_exp h" unfolding w m unat_and_mask by (simp add: unat_ucast_wide unat_drop_bit f16_exp_def)
  have uf: "unat f = f16_man h" unfolding w m unat_and_mask by (simp add: unat_ucast_wide f16_man_def)
  have man: "f16_man h < 1024" by (rule f16_field_bounds(3))
  have z: "e = 0 \<longleftrightarrow> f16_exp h = 0" by (simp flip: ue add: unat_eq_0)
  have e7: "unat (e + 7) = f16_exp h + 7" using fin by (subst unat_add_no_overflow) (simp_all add: ue)
  have low: "unat (push_bit 8 f) = f16_man h * 2 ^ 8" using man by (subst unat_push_bit_exact) (simp_all add: uf)
  have one: "unat (0x400 OR f) = 1024 + f16_man h"
    using unat_or_fields[of f 10 1] man uf by (simp add: push_bit_eq_mult)
  have "(1024 + f16_man h) * 2 ^ (f16_exp h + 7) < 2048 * 2 ^ (f16_exp h + 7)" using man by simp
  also have "(2048 :: nat) * 2 ^ (f16_exp h + 7) \<le> 2048 * 2 ^ 37" using fin by (intro mult_le_mono2 power_increasing) auto
  finally have "(1024 + f16_man h) * 2 ^ (f16_exp h + 7) < 2 ^ LENGTH(64)" by simp
  then have high: "unat (push_bit (f16_exp h + 7) (0x400 OR f)) = (1024 + f16_man h) * 2 ^ (f16_exp h + 7)"
    using one by (subst unat_push_bit_exact) simp_all
  show ?thesis using z low high e7 by (simp add: fp16_to_q0_32_def Let_def w[symmetric])
qed

lemma q0_32_value: "f16_finite h \<Longrightarrow> real (unat (fp16_to_q0_32 h)) = f16_value h * 2 ^ 32"
proof -
  assume h: "f16_finite h"
  then have s: "f16_sign h = 0" and e: "f16_exp h < 31" by (simp_all add: f16_finite_def)
  have "2 powi (int (f16_exp h) - 15) * 2 ^ 32 = (2 :: real) ^ (f16_exp h + 17)"
    using power_int_add[of "2 :: real" "int (f16_exp h) - 15" 32] power_int_of_nat[of "2 :: real" "f16_exp h + 17"]
    by (simp add: algebra_simps)
  then have p: "(2 :: real) ^ f16_exp h = 2 powi (int (f16_exp h) - 15) * 32768" by (simp add: power_add)
  show ?thesis using s by (auto simp: q0_32_unat[OF e] f16_value_def power_add p field_simps)
qed

lemma f16_finite_value: "f16_finite h \<Longrightarrow> 0 \<le> f16_value h \<and> f16_value h < 65536"
proof -
  assume h: "f16_finite h"
  then have e: "f16_exp h < 31" by (simp add: f16_finite_def)
  have man: "f16_man h < 1024" by (rule f16_field_bounds(3))
  have "(1024 + f16_man h) * 2 ^ (f16_exp h + 7) < 2048 * 2 ^ (f16_exp h + 7)" using man by simp
  also have "(2048 :: nat) * 2 ^ (f16_exp h + 7) \<le> 2048 * 2 ^ 37" using e by (intro mult_le_mono2 power_increasing) auto
  finally have "unat (fp16_to_q0_32 h) < 2 ^ 48" using man by (simp add: q0_32_unat[OF e])
  then have "real (unat (fp16_to_q0_32 h)) < 2 ^ 48" by (metis of_nat_less_numeral_power_cancel_iff)
  then have "f16_value h * 2 ^ 32 < 65536 * 2 ^ 32" "0 \<le> f16_value h * 2 ^ 32"
    by (simp_all only: q0_32_value[OF h, symmetric] of_nat_0_le_iff) simp
  then show ?thesis by (simp add: zero_le_mult_iff)
qed

subsection \<open>The error of the fixed-point numbers\<close>

lemma floor_div: "real_of_int (a div 2 ^ k) \<le> real_of_int a / 2 ^ k \<and> real_of_int a / 2 ^ k - 1 < real_of_int (a div 2 ^ k)"
  using floor_divide_of_int_eq[of a "2 ^ k", where ?'a = real] by (simp add: floor_less_iff) linarith

lemma q16_value:
  assumes "f16_finite a" and "f16_finite w" and "\<bar>real_of_int raw\<bar> * f16_value a * f16_value w \<le> 2 ^ 46"
  obtains c where "fpga_spu_q16_contribution raw a w = Some c"
    and "\<bar>real_of_int c / 2 ^ 16 - real_of_int raw * f16_value a * f16_value w\<bar> < 1 / 2 ^ 16 + \<bar>real_of_int raw\<bar> / 2 ^ 32"
proof -
  obtain A W where AW: "A = unat (fp16_to_q0_32 a)" "W = unat (fp16_to_q0_32 w)" by blast
  have vA: "real A = f16_value a * 2 ^ 32" and vW: "real W = f16_value w * 2 ^ 32"
    using q0_32_value assms(1,2) by (simp_all add: AW)
  note b = f16_finite_value[OF assms(1)] f16_finite_value[OF assms(2)]
  have "real A < 2 ^ 48" "real W < 2 ^ 48" using b vA vW by simp_all
  then have lt: "A < 2 ^ 48" "W < 2 ^ 48" by (simp_all only: of_nat_less_numeral_power_cancel_iff)
  then have "A * W < 2 ^ 48 * 2 ^ 48" by (intro mult_strict_mono) auto
  then have full: "A * W < 2 ^ 96" by (simp only: power_add[symmetric]) simp
  then have P: "A * W div 2 ^ 96 = 0" "A * W div 2 ^ 32 mod 2 ^ 64 = A * W div 2 ^ 32"
    by (simp_all add: less_mult_imp_div_less)
  obtain P where PP: "P = int (A * W) div 2 ^ 32" by blast
  obtain c where c: "c = raw * P div 2 ^ 16" by blast
  have guard: "\<not> (a AND 0x8000 \<noteq> 0 \<or> w AND 0x8000 \<noteq> 0 \<or> a AND 0x7c00 = 0x7c00 \<or> w AND 0x7c00 = 0x7c00)"
    using assms(1,2) unfolding scale_fields by (simp add: f16_finite_def)
  have run: "fpga_spu_q16_contribution raw a w = Some (sint (word_of_int c :: u64))"
    using guard P by (simp add: fpga_spu_q16_contribution_def Let_def AW[symmetric] c PP zdiv_int)
  obtain x y where x: "x = real_of_int raw * f16_value a * f16_value w" and y: "y = f16_value a * f16_value w * 2 ^ 32" by blast
  have "real_of_int (int (A * W)) / 2 ^ 32 = y" by (simp add: vA vW y)
  then have p: "real_of_int P \<le> y" "y - 1 < real_of_int P" using floor_div[of "int (A * W)" 32] by (simp_all add: PP)
  then have "\<bar>real_of_int raw\<bar> * \<bar>real_of_int P - y\<bar> \<le> \<bar>real_of_int raw\<bar> * 1" by (intro mult_left_mono) auto
  then have e1: "\<bar>real_of_int (raw * P) - real_of_int raw * y\<bar> \<le> \<bar>real_of_int raw\<bar>"
    by (simp add: abs_mult[symmetric] algebra_simps)
  have c1: "real_of_int c \<le> real_of_int (raw * P) / 2 ^ 16" "real_of_int (raw * P) / 2 ^ 16 - 1 < real_of_int c"
    using floor_div[of "raw * P" 16] by (simp_all only: c)
  have yx: "real_of_int raw * y = x * 2 ^ 32" by (simp add: x y)
  have err: "\<bar>real_of_int c / 2 ^ 16 - x\<bar> < 1 / 2 ^ 16 + \<bar>real_of_int raw\<bar> / 2 ^ 32"
    using e1 c1 unfolding yx by (simp add: abs_if field_simps split: if_splits)
  have P0: "0 \<le> P" by (simp add: PP pos_imp_zdiv_nonneg_iff)
  have "\<bar>real_of_int (raw * P)\<bar> \<le> \<bar>real_of_int raw\<bar> * y"
    using p(1) P0 by (simp add: abs_mult mult_left_mono)
  also have "\<dots> \<le> 2 ^ 46 * 2 ^ 32" using assms(3) by (simp add: y ac_simps)
  finally have "\<bar>real_of_int (raw * P)\<bar> \<le> 2 ^ 78" by simp
  then have "\<bar>real_of_int c\<bar> \<le> 2 ^ 62 + 1" using c1 by (simp add: abs_if split: if_splits)
  then have "real_of_int \<bar>c\<bar> \<le> real_of_int (2 ^ 62 + 1)" by simp
  then have "\<bar>c\<bar> \<le> 2 ^ 62 + 1" by (simp only: of_int_le_iff)
  then have "sint (word_of_int c :: u64) = c" by (simp add: signed_of_int signed_take_bit_int_eq_self)
  then show ?thesis using that[of c] run err by (simp add: x)
qed

text \<open>The exact product of two blocks, and of a row with a column over the blocks of a tile.\<close>

definition block_product :: "(int \<Rightarrow> u8) \<Rightarrow> int \<Rightarrow> int \<Rightarrow> real" where
  "block_product mem act weight =
     real_of_int (q8_0_raw_dot (q8_qs mem act) (q8_qs mem weight)) * f16_value (q8_d mem act) * f16_value (q8_d mem weight)"

text \<open>Scales the device takes, and products far from the ends of its range.\<close>

definition block_in_range :: "(int \<Rightarrow> u8) \<Rightarrow> int \<Rightarrow> int \<Rightarrow> bool" where
  "block_in_range mem act weight \<longleftrightarrow> f16_finite (q8_d mem act) \<and> f16_finite (q8_d mem weight)
     \<and> \<bar>block_product mem act weight\<bar> \<le> 2 ^ 40"

lemma q16_step_value:
  assumes "block_in_range mem act weight"
  obtains c where "q16_step mem act weight bits = Some (bits + word_of_int c)" and "\<bar>c\<bar> \<le> 2 ^ 56 + 16"
    and "\<bar>real_of_int c / 2 ^ 16 - block_product mem act weight\<bar> \<le> 1 / 2 ^ 12"
proof -
  let ?r = "q8_0_raw_dot (q8_qs mem act) (q8_qs mem weight)" and ?a = "q8_d mem act" and ?w = "q8_d mem weight"
  note f = assms[unfolded block_in_range_def]
  have pos: "0 \<le> f16_value ?a * f16_value ?w" using f f16_finite_value by (simp add: mult_nonneg_nonneg)
  then have "\<bar>real_of_int ?r\<bar> * f16_value ?a * f16_value ?w = \<bar>block_product mem act weight\<bar>"
    by (simp only: block_product_def mult.assoc abs_mult[of "real_of_int ?r"] abs_of_nonneg[OF pos])
  then have le: "\<bar>real_of_int ?r\<bar> * f16_value ?a * f16_value ?w \<le> 2 ^ 46" using f by simp
  obtain c where c: "fpga_spu_q16_contribution ?r ?a ?w = Some c"
      "\<bar>real_of_int c / 2 ^ 16 - block_product mem act weight\<bar> < 1 / 2 ^ 16 + \<bar>real_of_int ?r\<bar> / 2 ^ 32"
    using q16_value[OF _ _ le] f by (metis block_product_def)
  have "\<bar>real_of_int ?r\<bar> \<le> 524288" using raw_dot_small[of "q8_qs mem act" "q8_qs mem weight"] by linarith
  then have e: "\<bar>real_of_int c / 2 ^ 16 - block_product mem act weight\<bar> \<le> 1 / 2 ^ 12" using c(2) by simp
  then have "\<bar>real_of_int c\<bar> / 2 ^ 16 \<le> 2 ^ 40 + 1 / 2 ^ 12" using f by (simp add: abs_if split: if_splits)
  then have "\<bar>real_of_int c\<bar> \<le> 2 ^ 56 + 16" by simp
  then have "real_of_int \<bar>c\<bar> \<le> real_of_int (2 ^ 56 + 16)" by simp
  then have "\<bar>c\<bar> \<le> 2 ^ 56 + 16" by (simp only: of_int_le_iff)
  then show ?thesis using that[of c] e by (simp add: q16_step_def c(1))
qed

lemma fold_opt_sum_words:
  assumes "\<And>i bits. i < n \<Longrightarrow> f i bits = Some (bits + word_of_int (c i) :: 'a :: len word)"
  shows "fold_opt f [0..<n] b = Some (b + word_of_int (\<Sum>i<n. c i))"
  using assms by (induction n) (simp_all add: fold_opt_append)

lemma q16_row_value:
  fixes n :: nat and act_group nb1 weight_base row k_block0 :: int
  defines "act \<equiv> \<lambda>gb. act_group + int gb * Q8_BLOCK_BYTES"
    and "weight \<equiv> \<lambda>gb. weight_block_from_base nb1 weight_base row (k_block0 + int gb)"
  assumes "\<And>gb. gb < n \<Longrightarrow> block_in_range mem (act gb) (weight gb)" and "n \<le> 64"
  obtains bits where "q16_row mem nb1 weight_base act_group row k_block0 n = Some bits"
    and "\<bar>real_of_int (sint bits) / 2 ^ 16 - (\<Sum>gb<n. block_product mem (act gb) (weight gb))\<bar> \<le> real n / 2 ^ 12"
proof -
  have "\<exists>c. (\<forall>bits. q16_step mem (act gb) (weight gb) bits = Some (bits + word_of_int c)) \<and> \<bar>c\<bar> \<le> 2 ^ 56 + 16
      \<and> \<bar>real_of_int c / 2 ^ 16 - block_product mem (act gb) (weight gb)\<bar> \<le> 1 / 2 ^ 12" if g: "gb < n" for gb
  proof -
    obtain c where c: "q16_step mem (act gb) (weight gb) 0 = Some (0 + word_of_int c)" "\<bar>c\<bar> \<le> 2 ^ 56 + 16"
      "\<bar>real_of_int c / 2 ^ 16 - block_product mem (act gb) (weight gb)\<bar> \<le> 1 / 2 ^ 12"
      using q16_step_value[OF assms(3)[OF g]] by blast
    then have "q16_step mem (act gb) (weight gb) bits = Some (bits + word_of_int c)" for bits
      by (auto simp: q16_step_def bind_eq_Some_conv)
    then show ?thesis using c(2,3) by blast
  qed
  then obtain c where c: "\<And>gb bits. gb < n \<Longrightarrow> q16_step mem (act gb) (weight gb) bits = Some (bits + word_of_int (c gb))"
      "\<And>gb. gb < n \<Longrightarrow> \<bar>c gb\<bar> \<le> 2 ^ 56 + 16"
      "\<And>gb. gb < n \<Longrightarrow> \<bar>real_of_int (c gb) / 2 ^ 16 - block_product mem (act gb) (weight gb)\<bar> \<le> 1 / 2 ^ 12"
    by metis
  have run: "q16_row mem nb1 weight_base act_group row k_block0 n = Some (0 + word_of_int (\<Sum>gb<n. c gb))"
    unfolding q16_row_def using c(1) unfolding act_def weight_def by (rule fold_opt_sum_words)
  have "\<bar>\<Sum>gb<n. c gb\<bar> \<le> (\<Sum>gb<n. 2 ^ 56 + 16)" using c(2) by (intro order_trans[OF sum_abs] sum_mono) simp
  also have "\<dots> \<le> (2 ^ 56 + 16) * 64" using assms(4) by simp
  finally have "\<bar>\<Sum>gb<n. c gb\<bar> \<le> (2 ^ 56 + 16) * 64" .
  moreover have "sint (word_of_int S :: u64) = S" if "\<bar>S\<bar> \<le> (2 ^ 56 + 16) * 64" for S
    using that by (simp add: signed_of_int signed_take_bit_int_eq_self)
  ultimately have s: "sint (word_of_int (\<Sum>gb<n. c gb) :: u64) = (\<Sum>gb<n. c gb)" by blast
  have "\<bar>(\<Sum>gb<n. real_of_int (c gb) / 2 ^ 16 - block_product mem (act gb) (weight gb))\<bar> \<le> (\<Sum>gb<n. 1 / 2 ^ 12)"
    using c(3) by (intro order_trans[OF sum_abs] sum_mono) simp
  then have "\<bar>real_of_int (\<Sum>gb<n. c gb) / 2 ^ 16 - (\<Sum>gb<n. block_product mem (act gb) (weight gb))\<bar> \<le> real n / 2 ^ 12"
    by (simp add: sum_subtractf sum_divide_distrib)
  then show ?thesis by (intro that[OF run]) (simp only: add_0 s)
qed

subsection \<open>Properties\<close>

lemma verify_prefix:
  assumes "fold_opt (\<lambda>row ok. if \<not> ok then Some False else f row) xs True = Some True" and "row \<in> set xs"
  shows "f row = Some True"
proof -
  have stuck: "fold_opt (\<lambda>row ok. if \<not> ok then Some False else f row) ys False = Some False" for ys by (induction ys) simp_all
  show ?thesis using assms
  proof (induction xs)
    case (Cons x xs)
    then obtain ok where "f x = Some ok" by (auto split: option.splits)
    then show ?case using Cons stuck by (cases ok) auto
  qed simp
qed


definition sample_memory :: "int \<Rightarrow> u8" where
  "sample_memory i = (if i mod 34 = 0 then 0 else if i mod 34 = 1 then 0x3C else 1)"

definition sample_results :: ddr_map where
  "sample_results = \<lparr>dm_mapped = True, dm_base = 0x7f0000000000, dm_bytes = (replicate 3407888 0)[3407876 := 0x20]\<rparr>"

lemma sample_results_bytes:
  "length (dm_bytes sample_results) = 3407888" "dm_mapped sample_results" "ddr_ok sample_results"
  "i < 3407888 \<Longrightarrow> dm_bytes sample_results ! i = (if i = 3407876 then 0x20 else 0)"
  by (auto simp: sample_results_def nth_list_update ddr_ok_def)


end
