(* ===== verification/Fpga_Exact.thy ===== *)
theory Fpga_Exact
  imports Fpga_Result Fpga_Spu
begin

text \<open>
  What the rows of a tile are worth: a device that forms, from the windows it was given, the sums the host forms
  when it audits a row (\<^verbatim>\<open>fpga_p2_audit_failed_row\<close> in \<^verbatim>\<open>ggml/src/ggml-cpu/fpga_host.cpp\<close>), computes
  the rows of the product of the source tensors, and every element of an offloaded product is close to the exact one.
\<close>

subsection \<open>The row sum of the staged windows\<close>

definition staged_act :: "tile_input \<Rightarrow> nat \<Rightarrow> nat \<Rightarrow> u8" where
  "staged_act inp gb lane = ti_act inp ! ((gb * 2 + lane div 16) * 16 + lane mod 16)"

definition staged_weight :: "tile_input \<Rightarrow> nat \<Rightarrow> nat \<Rightarrow> nat \<Rightarrow> u8" where
  "staged_weight inp row gb lane = ti_weight inp ! (16 * layout_index (ti_beats inp) row (gb * 2 + lane div 16) + lane mod 16)"

definition packed_scale :: "tile_input \<Rightarrow> nat \<Rightarrow> nat \<Rightarrow> u32" where
  "packed_scale inp row gb = row_word ((!) (ti_scale inp)) ((row * (ti_beats inp div 2) + gb) * 4)"

definition staged_sum :: "tile_input \<Rightarrow> nat \<Rightarrow> u64 option" where
  "staged_sum inp row = fold_opt (\<lambda>gb sum. do {
       staged_q16 \<leftarrow> fpga_spu_q16_contribution (q8_0_raw_dot (staged_act inp gb) (staged_weight inp row gb))
         (ucast (packed_scale inp row gb)) (ucast (drop_bit 16 (packed_scale inp row gb)));
       Some (sum + word_of_int staged_q16) }) [0..<ti_beats inp div 2] 0"

text \<open>A device whose rows are these sums, where the scales admit one.\<close>

definition conforms :: "hardware \<Rightarrow> bool" where
  "conforms hw \<longleftrightarrow> (\<forall>inp. \<forall>row < ti_rows inp. \<forall>bits. staged_sum inp row = Some bits
     \<longrightarrow> snd (spu_row (hw_spu hw inp inp) row) = sint bits)"

lemma window_word: "row_word (window_byte w) (4 * i) = w i"
proof -
  have "window_byte w (4 * i + j) = ucast (drop_bit (8 * j) (w i))" if "j < 4" for j
    using that by (simp add: window_byte_def)
  from this[of 0] this[of 1] this[of 2] this[of 3]
  have "row_word (window_byte w) (4 * i) = ucast (ucast (w i) :: u8) OR push_bit 8 (ucast (ucast (drop_bit 8 (w i)) :: u8))
      OR push_bit 16 (ucast (ucast (drop_bit 16 (w i)) :: u8)) OR push_bit 24 (ucast (ucast (drop_bit 24 (w i)) :: u8))"
    by (simp add: row_word_def pack_i8x4_le_def)
  also have "\<dots> = w i"
  proof (rule bit_word_eqI)
    fix n assume n: "n < LENGTH(32)"
    then consider "n < 8" | "8 \<le> n" "n < 16" | "16 \<le> n" "n < 24" | "24 \<le> n" "n < 32" by fastforce
    then show "bit (ucast (ucast (w i) :: u8) OR push_bit 8 (ucast (ucast (drop_bit 8 (w i)) :: u8))
      OR push_bit 16 (ucast (ucast (drop_bit 16 (w i)) :: u8)) OR push_bit 24 (ucast (ucast (drop_bit 24 (w i)) :: u8)) :: u32) n = bit (w i) n"
      by cases (auto simp: bit_simps)
  qed
  finally show ?thesis .
qed

lemma scale_halves:
  "ucast (ucast (a :: u16) OR push_bit 16 (ucast (b :: u16)) :: u32) = a"
  "ucast (drop_bit 16 (ucast (a :: u16) OR push_bit 16 (ucast (b :: u16)) :: u32)) = b"
proof -
  have no: "\<not> bit x (16 + n)" for x :: u16 and n using bit_imp_le_length[of x "16 + n"] by auto
  show "ucast (ucast a OR push_bit 16 (ucast b) :: u32) = a" "ucast (drop_bit 16 (ucast a OR push_bit 16 (ucast b) :: u32)) = b"
    by (auto intro!: bit_word_eqI simp: bit_simps no)
qed

lemma raw_dot_cong: "(\<And>i. i < 32 \<Longrightarrow> a i = a' i \<and> w i = w' i) \<Longrightarrow> q8_0_raw_dot a w = q8_0_raw_dot a' w'"
  unfolding raw_dot_sum by (intro sum.cong) auto

lemma fold_opt_same: "(\<And>x s. x \<in> set xs \<Longrightarrow> f x s = g x s) \<Longrightarrow> fold_opt f xs s = fold_opt g xs s"
  by (induction xs arbitrary: s) (auto split: option.splits)

lemma beat_index: "lane < 32 \<Longrightarrow> (gb * 2 + lane div 16) * 16 + lane mod 16 = gb * 32 + lane" for lane :: nat
  by (simp add: algebra_simps)

lemma place_act:
  assumes "gb < nat (tp_group_blocks tp)" "lane < 32"
  shows "staged_act (place_input ops tp) gb lane = q8_qs (op_mem ops) (tp_act_group tp + int gb * Q8_BLOCK_BYTES) lane"
proof -
  have "gb * 32 + lane < (gb + 1) * 32" using assms(2) by simp
  also have "\<dots> \<le> act_len tp" using assms(1) unfolding act_len_def by (intro mult_le_mono1) simp
  finally have at: "gb * 32 + lane < act_len tp" .
  have "(gb * 32 + lane) div 32 = gb" "(gb * 32 + lane) mod 32 = lane" using assms(2) by auto
  then show ?thesis using at by (simp add: staged_act_def place_input_def beat_index[OF assms(2)] act_image_def)
qed

lemma place_weight:
  assumes row: "row < nat (tp_rows tp)" and gb: "gb < nat (tp_group_blocks tp)" and lane: "lane < 32"
  shows "staged_weight (place_input ops tp) row gb lane = q8_qs (op_mem ops)
    (weight_block_from_base (uint (gt_nb (op_src0 ops) ! 1)) (op_weight_base ops) (tp_row0 tp + int row) (tp_k_block0 tp + int gb)) lane"
proof -
  let ?t = "whole_tile ops tp" and ?b = "gb * 2 + lane div 16"
  let ?i = "layout_index (nat (tp_group_blocks tp) * 2) row ?b"
  have t: "nat (pt_group_beats ?t) = nat (tp_group_blocks tp) * 2" "pt_nb1 ?t = uint (gt_nb (op_src0 ops) ! 1)"
    "pt_weight_data_base ?t = op_weight_base ops" "pt_row0 ?t = tp_row0 tp" "pt_k_block0 ?t = tp_k_block0 tp" "pt_rows ?t = tp_rows tp"
    by (simp_all add: whole_tile_def pack_task_of_def nat_mult_distrib)
  have b: "?b < nat (tp_group_blocks tp) * 2" using gb lane by linarith
  have "?i < padded_rows (nat (tp_rows tp)) * (nat (tp_group_blocks tp) * 2)"
    by (rule layout_index_less[OF less_le_trans[OF row padded_rows_bounds(1)] b])
  then have at: "16 * ?i + lane mod 16 < weight_len tp" unfolding weight_len_def by (simp add: algebra_simps)
  have d: "int ?b div 2 = int gb" "nat (int ?b mod 2) * 16 + lane mod 16 = lane"
  proof -
    have "lane div 16 < 2" using lane by simp
    then have "?b div 2 = gb" "?b mod 2 = lane div 16" by auto
    then show "int ?b div 2 = int gb" "nat (int ?b mod 2) * 16 + lane mod 16 = lane" by (simp_all flip: zdiv_int zmod_int)
  qed
  have "staged_weight (place_input ops tp) row gb lane = weight_image ops tp (16 * ?i + lane mod 16)"
    using at by (simp add: staged_weight_def place_input_def)
  also have "\<dots> = tile_lanes (op_mem ops) ?t row ?b (lane mod 16)"
    unfolding weight_image_def using window_byte_tile[of ?b ?t "lane mod 16" "tile_word (op_mem ops) ?t" row "op_mem ops"] b by (simp add: t)
  also have "\<dots> = q8_qs (op_mem ops) (weight_block_from_base (uint (gt_nb (op_src0 ops) ! 1)) (op_weight_base ops)
      (tp_row0 tp + int row) (tp_k_block0 tp + int gb)) lane"
    using tile_lanes_block[OF of_nat_0_le_iff of_nat_0_le_iff, of "op_mem ops" ?t row ?b "lane mod 16", unfolded t d nat_int] row
    by (simp only: zless_nat_eq_int_zless if_True)
  finally show ?thesis .
qed

lemma place_scale:
  assumes row: "row < nat (tp_rows tp)" and gb: "gb < nat (tp_group_blocks tp)"
  shows "ucast (packed_scale (place_input ops tp) row gb) = q8_d (op_mem ops) (tp_act_group tp + int gb * Q8_BLOCK_BYTES)"
    "ucast (drop_bit 16 (packed_scale (place_input ops tp) row gb)) = q8_d (op_mem ops)
      (weight_block_from_base (uint (gt_nb (op_src0 ops) ! 1)) (op_weight_base ops) (tp_row0 tp + int row) (tp_k_block0 tp + int gb))"
proof -
  let ?t = "whole_tile ops tp" and ?i = "row * nat (tp_group_blocks tp) + gb"
  have "?i < (row + 1) * nat (tp_group_blocks tp)" using gb by simp
  also have "\<dots> \<le> nat (tp_rows tp) * nat (tp_group_blocks tp)" using row by (intro mult_le_mono1) simp
  finally have at: "4 * ?i + 4 \<le> scale_len tp" by (simp add: scale_len_def)
  have "row_word ((!) (ti_scale (place_input ops tp))) (4 * ?i) = row_word (scale_image ops tp) (4 * ?i)"
    using at by (simp add: row_word_def pack_i8x4_le_def place_input_def)
  also have "\<dots> = scale_at (op_mem ops) ?t ?i" unfolding scale_image_def by (rule window_word)
  also have "\<dots> = scale_entry (op_mem ops) ?t row gb"
    using scale_at_row[of gb ?t "op_mem ops" row] gb by (simp add: whole_tile_def pack_task_of_def)
  finally have w: "packed_scale (place_input ops tp) row gb = scale_entry (op_mem ops) ?t row gb"
    by (simp add: packed_scale_def place_input_def mult.commute)
  show "ucast (packed_scale (place_input ops tp) row gb) = q8_d (op_mem ops) (tp_act_group tp + int gb * Q8_BLOCK_BYTES)"
    "ucast (drop_bit 16 (packed_scale (place_input ops tp) row gb)) = q8_d (op_mem ops)
      (weight_block_from_base (uint (gt_nb (op_src0 ops) ! 1)) (op_weight_base ops) (tp_row0 tp + int row) (tp_k_block0 tp + int gb))"
    unfolding w scale_entry_def scale_halves by (simp_all add: whole_tile_def pack_task_of_def)
qed

text \<open>The staged windows of a tile give the sum over the blocks of the source tensors.\<close>

lemma staged_sum_source:
  assumes "row < nat (tp_rows tp)"
  shows "staged_sum (place_input ops tp) row = q16_row (op_mem ops) (uint (gt_nb (op_src0 ops) ! 1)) (op_weight_base ops)
    (tp_act_group tp) (tp_row0 tp + int row) (tp_k_block0 tp) (nat (tp_group_blocks tp))"
proof -
  have n: "ti_beats (place_input ops tp) div 2 = nat (tp_group_blocks tp)" by (simp add: place_input_def)
  show ?thesis
    unfolding staged_sum_def q16_row_def n
  proof (rule fold_opt_same)
    fix gb sum assume gb: "gb \<in> set [0..<nat (tp_group_blocks tp)]"
    let ?w = "weight_block_from_base (uint (gt_nb (op_src0 ops) ! 1)) (op_weight_base ops) (tp_row0 tp + int row) (tp_k_block0 tp + int gb)"
    have "q8_0_raw_dot (staged_act (place_input ops tp) gb) (staged_weight (place_input ops tp) row gb)
        = q8_0_raw_dot (q8_qs (op_mem ops) (tp_act_group tp + int gb * Q8_BLOCK_BYTES)) (q8_qs (op_mem ops) ?w)"
      by (rule raw_dot_cong) (use gb place_act place_weight[OF assms] in simp)
    then show "do { staged_q16 \<leftarrow> fpga_spu_q16_contribution (q8_0_raw_dot (staged_act (place_input ops tp) gb) (staged_weight (place_input ops tp) row gb))
           (ucast (packed_scale (place_input ops tp) row gb)) (ucast (drop_bit 16 (packed_scale (place_input ops tp) row gb)));
         Some (sum + word_of_int staged_q16) }
      = q16_step (op_mem ops) (tp_act_group tp + int gb * Q8_BLOCK_BYTES) ?w sum"
      using gb by (simp add: q16_step_def place_scale[OF assms])
  qed
qed

subsection \<open>The error of an element\<close>

text \<open>Block \<open>b\<close> of row \<open>i\<close> of the weights and column \<open>j\<close> of the activations.\<close>

definition source_block :: "operands \<Rightarrow> int \<Rightarrow> nat \<Rightarrow> nat \<Rightarrow> nat \<Rightarrow> real" where
  "source_block ops nb i j b = block_product (op_mem ops) (op_act_base ops + (int j * nb + int b) * Q8_BLOCK_BYTES)
     (weight_block_from_base (uint (gt_nb (op_src0 ops) ! 1)) (op_weight_base ops) (int i) (int b))"

definition source_in_range :: "operands \<Rightarrow> int \<Rightarrow> nat \<Rightarrow> nat \<Rightarrow> nat \<Rightarrow> bool" where
  "source_in_range ops nb i j b = block_in_range (op_mem ops) (op_act_base ops + (int j * nb + int b) * Q8_BLOCK_BYTES)
     (weight_block_from_base (uint (gt_nb (op_src0 ops) ! 1)) (op_weight_base ops) (int i) (int b))"

lemma tile_value_error:
  assumes hw: "conforms hw" and r: "r < nat rows" and pos: "0 \<le> row0" "0 \<le> ib0" and gb: "gb \<le> 64"
    and range: "\<And>k. k < nat gb \<Longrightarrow> source_in_range ops nb (nat row0 + r) c (nat ib0 + k)"
  shows "\<bar>real_of_int (tile_value hw ops (place_of ops nb row0 rows ib0 gb (int c)) r) / 2 ^ 16
    - (\<Sum>k<nat gb. source_block ops nb (nat row0 + r) c (nat ib0 + k))\<bar> \<le> real (nat gb) / 2 ^ 12"
proof -
  let ?tp = "place_of ops nb row0 rows ib0 gb (int c)" and ?nb1 = "uint (gt_nb (op_src0 ops) ! 1)"
  have at: "tp_act_group ?tp + int k * Q8_BLOCK_BYTES = op_act_base ops + (int c * nb + int (nat ib0 + k)) * Q8_BLOCK_BYTES"
    "row0 + int r = int (nat row0 + r)" "ib0 + int k = int (nat ib0 + k)" for k
    using pos by (simp_all add: place_of_def algebra_simps)
  have n: "nat gb \<le> 64" using gb by simp
  obtain bits where bits: "q16_row (op_mem ops) ?nb1 (op_weight_base ops) (tp_act_group ?tp) (row0 + int r) ib0 (nat gb) = Some bits"
    "\<bar>real_of_int (sint bits) / 2 ^ 16 - (\<Sum>k<nat gb. block_product (op_mem ops) (tp_act_group ?tp + int k * Q8_BLOCK_BYTES)
        (weight_block_from_base ?nb1 (op_weight_base ops) (row0 + int r) (ib0 + int k)))\<bar> \<le> real (nat gb) / 2 ^ 12"
  proof (rule q16_row_value[OF _ n, of "op_mem ops" "tp_act_group ?tp" ?nb1 "op_weight_base ops" "row0 + int r" ib0])
    show "block_in_range (op_mem ops) (tp_act_group ?tp + int k * Q8_BLOCK_BYTES)
        (weight_block_from_base ?nb1 (op_weight_base ops) (row0 + int r) (ib0 + int k))" if "k < nat gb" for k
      using range[OF that] unfolding source_in_range_def at .
  qed
  have "staged_sum (place_input ops ?tp) r = Some bits"
    using staged_sum_source[of r ?tp ops] r bits(1) by (simp add: place_of_def)
  then have "tile_value hw ops ?tp r = sint bits"
    using hw r by (simp add: conforms_def tile_value_def) (simp add: place_input_def place_of_def)
  then show ?thesis using bits(2) unfolding at by (simp only: source_block_def)
qed

lemma pieces_length: "pieces a e ps \<Longrightarrow> length ps \<le> nat (e - a)"
proof (induction a e ps rule: pieces.induct)
  case (2 a e start len ps)
  then show ?case using pieces_le[of "a + len" e ps] by auto
qed simp

lemma groups_le:
  fixes f :: "nat \<Rightarrow> real" and v :: "int \<times> int \<Rightarrow> real"
  assumes "pieces a e ps" "0 \<le> a"
    and "\<And>ib0 gb. (ib0, gb) \<in> set ps \<Longrightarrow> v (ib0, gb) \<le> (\<Sum>k<nat gb. f (nat ib0 + k)) + real (nat gb) / d"
  shows "sum_list (map v ps) \<le> (\<Sum>b = nat a..<nat e. f b) + real (nat e - nat a) / d"
  using assms
proof (induction ps arbitrary: a)
  case (Cons p ps)
  obtain gb where p: "p = (a, gb)" "0 < gb" "pieces (a + gb) e ps" using Cons.prems(1) by (cases p) auto
  have n: "nat (a + gb) = nat a + nat gb" "nat a + nat gb \<le> nat e" using p(2,3) Cons.prems(2) pieces_le[OF p(3)] by auto
  have split: "(\<Sum>b = nat a..<nat e. f b) = (\<Sum>k<nat gb. f (nat a + k)) + (\<Sum>b = nat a + nat gb..<nat e. f b)"
  proof -
    have "(\<Sum>b = nat a..<nat e. f b) = (\<Sum>b = nat a..<nat a + nat gb. f b) + (\<Sum>b = nat a + nat gb..<nat e. f b)"
      using n(2) by (intro sum.atLeastLessThan_concat[symmetric]) auto
    moreover have "(\<Sum>b = nat a..<nat a + nat gb. f b) = (\<Sum>k<nat gb. f (nat a + k))"
      using sum.shift_bounds_nat_ivl[of f 0 "nat a" "nat gb"] by (simp add: add.commute atLeast0LessThan)
    ultimately show ?thesis by simp
  qed
  have width: "real (nat e - nat a) / d = real (nat gb) / d + real (nat e - (nat a + nat gb)) / d"
    using n(2) by (simp add: of_nat_diff flip: add_divide_distrib)
  have "sum_list (map v ps) \<le> (\<Sum>b = nat a + nat gb..<nat e. f b) + real (nat e - (nat a + nat gb)) / d"
    using Cons.IH[OF p(3)] Cons.prems(2,3) p(2) by (simp add: n(1))
  moreover have "v (a, gb) \<le> (\<Sum>k<nat gb. f (nat a + k)) + real (nat gb) / d" using Cons.prems(3) p(1) by simp
  ultimately show ?case unfolding split width p(1) by simp
qed simp

lemma groups_error:
  fixes f :: "nat \<Rightarrow> real" and v :: "int \<times> int \<Rightarrow> real"
  assumes p: "pieces a e ps" "0 \<le> a"
    and err: "\<And>ib0 gb. (ib0, gb) \<in> set ps \<Longrightarrow> \<bar>v (ib0, gb) - (\<Sum>k<nat gb. f (nat ib0 + k))\<bar> \<le> real (nat gb) / d"
  shows "\<bar>sum_list (map v ps) - (\<Sum>b = nat a..<nat e. f b)\<bar> \<le> real (nat e - nat a) / d"
    "(\<Sum>x \<leftarrow> ps. \<bar>v x\<bar>) \<le> (\<Sum>b = nat a..<nat e. \<bar>f b\<bar>) + real (nat e - nat a) / d"
proof -
  have "sum_list (map v ps) \<le> (\<Sum>b = nat a..<nat e. f b) + real (nat e - nat a) / d"
  proof (rule groups_le[OF p])
    show "v (ib0, gb) \<le> (\<Sum>k<nat gb. f (nat ib0 + k)) + real (nat gb) / d" if "(ib0, gb) \<in> set ps" for ib0 gb
      using err[OF that] by linarith
  qed
  moreover have "sum_list (map (\<lambda>x. - v x) ps) \<le> (\<Sum>b = nat a..<nat e. - f b) + real (nat e - nat a) / d"
  proof (rule groups_le[OF p])
    show "- v (ib0, gb) \<le> (\<Sum>k<nat gb. - f (nat ib0 + k)) + real (nat gb) / d" if "(ib0, gb) \<in> set ps" for ib0 gb
      using err[OF that] by (simp add: sum_negf)
  qed
  moreover have "sum_list (map (\<lambda>x. - v x) ps) = - sum_list (map v ps)" by (induction ps) simp_all
  ultimately show "\<bar>sum_list (map v ps) - (\<Sum>b = nat a..<nat e. f b)\<bar> \<le> real (nat e - nat a) / d" unfolding sum_negf by linarith
  show "(\<Sum>x \<leftarrow> ps. \<bar>v x\<bar>) \<le> (\<Sum>b = nat a..<nat e. \<bar>f b\<bar>) + real (nat e - nat a) / d"
  proof (rule groups_le[OF p])
    show "\<bar>v (ib0, gb)\<bar> \<le> (\<Sum>k<nat gb. \<bar>f (nat ib0 + k)\<bar>) + real (nat gb) / d" if "(ib0, gb) \<in> set ps" for ib0 gb
      using err[OF that] sum_abs[of "\<lambda>k. f (nat ib0 + k)" "{..<nat gb}"] by linarith
  qed
qed

subsection \<open>Rounding\<close>

text \<open>
  The host converts, scales and accumulates in floating point. \<open>v\<close> reads a number off a representation (\<open>None\<close> for
  infinities and NaN); away from overflow and underflow an operation is off by the relative error \<open>u\<close>, as in IEEE 754.
  Single precision to nearest has \<open>u = 2\<^sup>-\<^sup>2\<^sup>4\<close>, the real numbers \<open>u = 0\<close>.
\<close>

definition rounds :: "'f float_ops \<Rightarrow> ('f \<Rightarrow> real option) \<Rightarrow> real \<Rightarrow> bool" where
  "rounds fl v u \<longleftrightarrow> 0 \<le> u
     \<and> (\<forall>b. f32_exp b < 255 \<longrightarrow> v (fl_bits fl b) = Some (f32_value b))
     \<and> (\<forall>n. \<bar>n\<bar> \<le> 2 ^ 63 \<longrightarrow> (\<exists>z. v (fl_int fl n) = Some z \<and> \<bar>z - real_of_int n\<bar> \<le> u * \<bar>real_of_int n\<bar>))
     \<and> (\<forall>a b x y. v a = Some x \<and> v b = Some y \<and> \<bar>x + y\<bar> \<le> 2 ^ 100
         \<longrightarrow> (\<exists>z. v (fl_add fl a b) = Some z \<and> \<bar>z - (x + y)\<bar> \<le> u * \<bar>x + y\<bar>))
     \<and> (\<forall>a b x y. v a = Some x \<and> v b = Some y \<and> (x * y = 0 \<or> 1 / 2 ^ 100 \<le> \<bar>x * y\<bar> \<and> \<bar>x * y\<bar> \<le> 2 ^ 100)
         \<longrightarrow> (\<exists>z. v (fl_mul fl a b) = Some z \<and> \<bar>z - x * y\<bar> \<le> u * \<bar>x * y\<bar>))"

lemma rounds_add: "rounds fl v u \<Longrightarrow> v a = Some x \<Longrightarrow> v b = Some y \<Longrightarrow> \<bar>x + y\<bar> \<le> 2 ^ 100
    \<Longrightarrow> \<exists>z. v (fl_add fl a b) = Some z \<and> \<bar>z - (x + y)\<bar> \<le> u * \<bar>x + y\<bar>"
  unfolding rounds_def by blast

lemma rounds_mul: "rounds fl v u \<Longrightarrow> v a = Some x \<Longrightarrow> v b = Some y \<Longrightarrow> x * y = 0 \<or> 1 / 2 ^ 100 \<le> \<bar>x * y\<bar> \<and> \<bar>x * y\<bar> \<le> 2 ^ 100
    \<Longrightarrow> \<exists>z. v (fl_mul fl a b) = Some z \<and> \<bar>z - x * y\<bar> \<le> u * \<bar>x * y\<bar>"
  unfolding rounds_def by blast

lemma two_to_minus_16: "f32_value 0x37800000 = 1 / 2 ^ 16" "f32_exp 0x37800000 < 255" "f32_value 0 = 0" "f32_exp 0 < 255"
  by (simp_all add: f32_value_def f32_sign_def f32_exp_def f32_man_def)

text \<open>The conversion and the scaling of a row value.\<close>

lemma scaled_value:
  assumes r: "rounds fl v u" and u: "u \<le> 1 / 2" and n: "\<bar>n\<bar> \<le> 2 ^ 63"
  shows "\<exists>t. v (fl_mul fl (fl_int fl n) (fl_bits fl 0x37800000)) = Some t
    \<and> \<bar>t - real_of_int n / 2 ^ 16\<bar> \<le> ((1 + u) ^ 2 - 1) * \<bar>real_of_int n / 2 ^ 16\<bar>"
proof -
  have u0: "0 \<le> u" using r by (simp add: rounds_def)
  let ?n = "real_of_int n"
  obtain z where z: "v (fl_int fl n) = Some z" "\<bar>z - ?n\<bar> \<le> u * \<bar>?n\<bar>" using r n unfolding rounds_def by blast
  have c: "v (fl_bits fl 0x37800000) = Some (1 / 2 ^ 16)" using r two_to_minus_16 unfolding rounds_def by metis
  have un: "u * \<bar>?n\<bar> \<le> 1 / 2 * \<bar>?n\<bar>" using u by (intro mult_right_mono) auto
  have range: "z * (1 / 2 ^ 16) = 0 \<or> 1 / 2 ^ 100 \<le> \<bar>z * (1 / 2 ^ 16)\<bar> \<and> \<bar>z * (1 / 2 ^ 16)\<bar> \<le> 2 ^ 100"
  proof (cases "n = 0")
    case True
    then show ?thesis using z(2) by simp
  next
    case False
    then have "1 \<le> \<bar>?n\<bar>" by linarith
    moreover have "real_of_int \<bar>n\<bar> \<le> real_of_int (2 ^ 63)" using n by (simp only: of_int_le_iff)
    then have "\<bar>?n\<bar> \<le> 2 ^ 63" by simp
    ultimately have "1 / 2 \<le> \<bar>z\<bar>" "\<bar>z\<bar> \<le> 2 * 2 ^ 63" using z(2) un by linarith+
    then show ?thesis by (simp add: abs_mult)
  qed
  obtain t where t: "v (fl_mul fl (fl_int fl n) (fl_bits fl 0x37800000)) = Some t" "\<bar>t - z * (1 / 2 ^ 16)\<bar> \<le> u * \<bar>z * (1 / 2 ^ 16)\<bar>"
    using rounds_mul[OF r z(1) c range] by blast
  have "\<bar>z\<bar> \<le> (1 + u) * \<bar>?n\<bar>" using z(2) by (simp add: algebra_simps)
  then have "u * \<bar>z\<bar> \<le> u * ((1 + u) * \<bar>?n\<bar>)" using u0 by (rule mult_left_mono)
  then have "u * \<bar>z\<bar> + \<bar>z - ?n\<bar> \<le> ((1 + u) ^ 2 - 1) * \<bar>?n\<bar>" using z(2) by (simp add: power2_eq_square algebra_simps)
  moreover have "\<bar>t * 2 ^ 16 - z\<bar> \<le> u * \<bar>z\<bar>" using t(2) by (simp add: abs_mult field_simps abs_if split: if_splits)
  ultimately have "\<bar>t * 2 ^ 16 - ?n\<bar> \<le> ((1 + u) ^ 2 - 1) * \<bar>?n\<bar>" by linarith
  then have "\<bar>t * 2 ^ 16 - ?n\<bar> / 2 ^ 16 \<le> ((1 + u) ^ 2 - 1) * \<bar>?n\<bar> / 2 ^ 16" by (rule divide_right_mono) simp
  moreover have "\<bar>t * 2 ^ 16 - ?n\<bar> / 2 ^ 16 = \<bar>t - ?n / 2 ^ 16\<bar>" by (simp add: abs_if field_simps)
  ultimately show ?thesis using t(1) by (auto simp: abs_divide)
qed

text \<open>A sum of rounded terms: every partial sum adds one factor \<open>1 + u\<close>.\<close>

lemma rounded_step:
  fixes A S T e f u q x t z :: real
  assumes e: "\<bar>x - S\<bar> \<le> (q - 1) * A" and f: "\<bar>t - T\<bar> \<le> (q - 1) * \<bar>T\<bar>" and z: "\<bar>z - (x + t)\<bar> \<le> u * \<bar>x + t\<bar>" and S: "\<bar>S\<bar> \<le> A" and u: "0 \<le> u"
  shows "\<bar>z - (S + T)\<bar> \<le> ((1 + u) * q - 1) * (A + \<bar>T\<bar>)"
proof -
  have sum: "\<bar>x + t - (S + T)\<bar> \<le> (q - 1) * (A + \<bar>T\<bar>)" using e f by (simp add: algebra_simps abs_if split: if_splits)
  have "\<bar>x + t\<bar> \<le> q * (A + \<bar>T\<bar>)" using sum S by (simp add: algebra_simps abs_if split: if_splits)
  then have "u * \<bar>x + t\<bar> \<le> u * (q * (A + \<bar>T\<bar>))" using u by (rule mult_left_mono)
  then have "\<bar>z - (S + T)\<bar> \<le> u * (q * (A + \<bar>T\<bar>)) + (q - 1) * (A + \<bar>T\<bar>)" using sum z by linarith
  then show ?thesis by (simp add: algebra_simps)
qed

lemma rounded_sum:
  fixes T :: "'p \<Rightarrow> real"
  assumes r: "rounds fl v u"
    and terms: "\<And>p. p \<in> set ps \<Longrightarrow> \<exists>t. v (val p) = Some t \<and> \<bar>t - T p\<bar> \<le> ((1 + u) ^ 2 - 1) * \<bar>T p\<bar>"
    and a: "v a = Some x" "\<bar>x - S\<bar> \<le> ((1 + u) ^ (k + 2) - 1) * A" "\<bar>S\<bar> \<le> A"
    and small: "(1 + u) ^ (k + length ps + 2) * (A + (\<Sum>p \<leftarrow> ps. \<bar>T p\<bar>)) \<le> 2 ^ 100"
  shows "\<exists>z. v (fold (\<lambda>p a. fl_add fl a (val p)) ps a) = Some z
    \<and> \<bar>z - (S + sum_list (map T ps))\<bar> \<le> ((1 + u) ^ (k + length ps + 2) - 1) * (A + (\<Sum>p \<leftarrow> ps. \<bar>T p\<bar>))"
  using terms a small
proof (induction ps arbitrary: a x S A k)
  case (Cons p ps)
  have u: "0 \<le> u" using r by (simp add: rounds_def)
  let ?q = "(1 + u) ^ (k + 2)"
  obtain t where t: "v (val p) = Some t" "\<bar>t - T p\<bar> \<le> ((1 + u) ^ 2 - 1) * \<bar>T p\<bar>" using Cons.prems(1)[of p] by auto
  have q: "(1 + u) ^ 2 \<le> ?q" using u by (intro power_increasing) auto
  have tq: "\<bar>t - T p\<bar> \<le> (?q - 1) * \<bar>T p\<bar>" using t(2) q by (elim order_trans) (intro mult_right_mono, auto)
  have rest: "0 \<le> (\<Sum>p \<leftarrow> ps. \<bar>T p\<bar>)" by (rule sum_list_nonneg) auto
  have A: "0 \<le> A" using Cons.prems(4) by linarith
  have xt: "\<bar>x + t\<bar> \<le> ?q * (A + \<bar>T p\<bar>)"
    using Cons.prems(3,4) tq by (simp add: algebra_simps abs_if split: if_splits)
  also have "\<dots> \<le> (1 + u) ^ (k + length (p # ps) + 2) * (A + (\<Sum>p \<leftarrow> p # ps. \<bar>T p\<bar>))"
    using u A rest by (intro mult_mono power_increasing) auto
  also have "\<dots> \<le> 2 ^ 100" by (rule Cons.prems(5))
  finally obtain z where z: "v (fl_add fl a (val p)) = Some z" "\<bar>z - (x + t)\<bar> \<le> u * \<bar>x + t\<bar>"
    using rounds_add[OF r Cons.prems(2) t(1)] by blast
  have step: "\<bar>z - (S + T p)\<bar> \<le> ((1 + u) ^ (Suc k + 2) - 1) * (A + \<bar>T p\<bar>)"
    using rounded_step[OF Cons.prems(3) tq z(2) Cons.prems(4) u] by simp
  have "\<bar>S + T p\<bar> \<le> A + \<bar>T p\<bar>" using Cons.prems(4) by linarith
  from Cons.IH[OF _ z(1) step this] show ?case using Cons.prems(1,5) by (simp add: add.assoc)
qed simp

lemma tile_value_bound: "\<bar>tile_value hw ops tp r\<bar> \<le> 2 ^ 63"
proof -
  have "\<bar>sint (w :: u64)\<bar> \<le> 2 ^ 63" for w using sint_range_size[of w] by (auto simp: word_size)
  then show ?thesis by (simp add: tile_value_def spu_row_def)
qed

text \<open>The error of an element: that of the fixed-point rows, and that of the sum of the rounded rows.\<close>

definition element_tolerance :: "real \<Rightarrow> nat \<Rightarrow> real \<Rightarrow> real" where
  "element_tolerance u blocks mass = real blocks / 2 ^ 12 + ((1 + u) ^ (blocks + 2) - 1) * (mass + real blocks / 2 ^ 12)"

lemma element_error:
  assumes hw: "conforms hw" and lim: "limits_ok vl" and rows: "r < nat rows" "rows \<le> vl_max_rows vl" "0 \<le> row0" and nb: "0 \<le> nb" "nb \<le> INT_MAX"
    and range: "\<And>b. b < nat nb \<Longrightarrow> source_in_range ops nb (nat row0 + r) c b"
    and fl: "rounds fl v u" "(1 + u) ^ (nat nb + 2) \<le> 2"
  shows "\<exists>z. v (element_value fl hw ops vl nb row0 rows r c) = Some z
    \<and> \<bar>z - (\<Sum>b<nat nb. source_block ops nb (nat row0 + r) c b)\<bar>
      \<le> element_tolerance u (nat nb) (\<Sum>b<nat nb. \<bar>source_block ops nb (nat row0 + r) c b\<bar>)"
proof -
  let ?tv = "\<lambda>(ib0, gb). tile_value hw ops (place_of ops nb row0 rows ib0 gb (int c)) r"
  let ?T = "\<lambda>p. real_of_int (?tv p) / 2 ^ 16" and ?f = "\<lambda>b. source_block ops nb (nat row0 + r) c b" and ?ps = "k_groups vl rows nb 0"
  have u: "0 \<le> u" using fl(1) by (simp add: rounds_def)
  have pr: "0 < rows" using rows(1) by simp
  note k = k_groups_pieces[OF lim pr rows(2) nb(1)]
  have "\<bar>?T (ib0, gb) - (\<Sum>k<nat gb. ?f (nat ib0 + k))\<bar> \<le> real (nat gb) / 2 ^ 12"
    if g: "(ib0, gb) \<in> set ?ps" for ib0 gb
    unfolding prod.case
  proof (rule tile_value_error[OF hw rows(1,3)])
    have w: "0 \<le> ib0" "0 < gb" "ib0 + gb \<le> nb" using pieces_within[of 0 nb _ ib0 gb] k g by blast+
    then show "0 \<le> ib0" by simp
    show "gb \<le> 64" using k g by auto
    show "source_in_range ops nb (nat row0 + r) c (nat ib0 + j)" if "j < nat gb" for j
      by (rule range) (use w that in linarith)
  qed
  note e = groups_error[where v = ?T and d = "2 ^ 12", OF conjunct1[OF k] order.refl this]
  have err: "\<bar>sum_list (map ?T ?ps) - (\<Sum>b<nat nb. ?f b)\<bar> \<le> real (nat nb) / 2 ^ 12"
    "(\<Sum>p \<leftarrow> ?ps. \<bar>?T p\<bar>) \<le> (\<Sum>b<nat nb. \<bar>?f b\<bar>) + real (nat nb) / 2 ^ 12"
    using e by (simp_all add: atLeast0LessThan)
  have len: "length ?ps \<le> nat nb" using pieces_length[OF conjunct1[OF k]] by simp
  have q: "(1 + u) ^ (length ?ps + 2) \<le> (1 + u) ^ (nat nb + 2)" using u len by (intro power_increasing) auto
  have abs0: "0 \<le> (\<Sum>p \<leftarrow> ?ps. \<bar>?T p\<bar>)" by (rule sum_list_nonneg) auto
  have "(\<Sum>b<nat nb. \<bar>?f b\<bar>) \<le> (\<Sum>b<nat nb. 2 ^ 40)"
    by (intro sum_mono) (use range in \<open>simp add: source_in_range_def source_block_def block_in_range_def\<close>)
  moreover have n: "real (nat nb) \<le> 2 ^ 31" using nb by simp
  ultimately have total: "(\<Sum>p \<leftarrow> ?ps. \<bar>?T p\<bar>) \<le> 2 ^ 99" using err(2) by simp
  have "(1 + u) ^ (length ?ps + 2) * (\<Sum>p \<leftarrow> ?ps. \<bar>?T p\<bar>) \<le> 2 * 2 ^ 99"
    using q fl(2) abs0 total by (intro mult_mono) auto
  then have small: "(1 + u) ^ (0 + length ?ps + 2) * (0 + (\<Sum>p \<leftarrow> ?ps. \<bar>?T p\<bar>)) \<le> 2 ^ 100" by simp
  have half: "u \<le> 1 / 2"
  proof -
    have "(1 + u) ^ 2 \<le> (1 + u) ^ (nat nb + 2)" using u by (intro power_increasing) auto
    then have "1 + 2 * u + u * u \<le> 2" using fl(2) by (simp add: power2_eq_square algebra_simps)
    moreover have "0 \<le> u * u" by simp
    ultimately show ?thesis by linarith
  qed
  let ?val = "\<lambda>p. fl_mul fl (fl_int fl (?tv p)) (fl_bits fl 0x37800000)"
  have terms: "\<exists>t. v (?val p) = Some t \<and> \<bar>t - ?T p\<bar> \<le> ((1 + u) ^ 2 - 1) * \<bar>?T p\<bar>" for p
    by (cases p) (simp only: prod.case, rule scaled_value[OF fl(1) half tile_value_bound])
  have zero: "v (fl_zero fl) = Some 0" using fl(1) two_to_minus_16(3,4) unfolding rounds_def by metis
  obtain z where z: "v (fold (\<lambda>p a. fl_add fl a (?val p)) ?ps (fl_zero fl)) = Some z"
    "\<bar>z - (0 + sum_list (map ?T ?ps))\<bar> \<le> ((1 + u) ^ (0 + length ?ps + 2) - 1) * (0 + (\<Sum>p \<leftarrow> ?ps. \<bar>?T p\<bar>))"
    using rounded_sum[OF fl(1) terms zero _ _ small] by auto
  have "(\<lambda>p a. fl_add fl a (?val p)) = (\<lambda>(ib0, gb). add_value fl hw ops (place_of ops nb row0 rows ib0 gb (int c)) r)"
    by (simp add: fun_eq_iff add_value_def split_beta)
  then have "fold (\<lambda>p a. fl_add fl a (?val p)) ?ps (fl_zero fl) = element_value fl hw ops vl nb row0 rows r c"
    by (simp only: element_value_def)
  moreover have "((1 + u) ^ (length ?ps + 2) - 1) * (\<Sum>p \<leftarrow> ?ps. \<bar>?T p\<bar>)
      \<le> ((1 + u) ^ (nat nb + 2) - 1) * ((\<Sum>b<nat nb. \<bar>?f b\<bar>) + real (nat nb) / 2 ^ 12)"
    using q abs0 err(2) one_le_power[of "1 + u" "nat nb + 2"] u by (intro mult_mono) auto
  ultimately have "\<bar>z - (\<Sum>b<nat nb. ?f b)\<bar> \<le> element_tolerance u (nat nb) (\<Sum>b<nat nb. \<bar>?f b\<bar>)"
    and "v (element_value fl hw ops vl nb row0 rows r c) = Some z"
    using z err(1) unfolding element_tolerance_def add_0 by (linarith, simp only:)
  then show ?thesis by blast
qed

end
