(* ===== verification/Fpga_Offload.thy ===== *)
theory Fpga_Offload
  imports Fpga_Exact
begin

text \<open>
  Properties of an offloaded matrix product (\<open>fpga_hw_q8_0_matmul_dma_to_ip\<close>): how far its elements are from the
  exact product, that both schedulers compute the same, and that it completes on a device that answers. The
  witnesses run it on a concrete device, with two row tiles, two groups of K blocks and two columns.
\<close>

subsection \<open>The products\<close>

text \<open>The element of row \<open>i\<close> and column \<open>j\<close> is written by one tile.\<close>

lemma element_tile:
  assumes lim: "limits_ok vl" and n: "0 \<le> n" and m: "0 \<le> m" and strides: "strides_ok ops n m" and i: "i < nat n" and j: "j < nat m"
  obtains start rows where "(start, rows) \<in> set (row_tiles vl n 0)" "0 \<le> start" "start \<le> int i" "int i < start + rows" "rows \<le> vl_max_rows vl"
    and "\<And>fl hw nb dst. product_rows fl hw ops vl m nb (row_tiles vl n 0) dst (dst_at ops i j)
      = element_value fl hw ops vl nb start rows (i - nat start) j"
proof -
  have "0 < vl_max_rows vl" using lim by (simp add: limits_ok_def)
  note p = row_tiles_pieces[OF this n]
  have less: "int i < n" using i by simp
  obtain start rows where t: "(start, rows) \<in> set (row_tiles vl n 0)" "start \<le> int i" "int i < start + rows"
    using ex1_implies_ex[OF pieces_unique[OF conjunct1[OF p] of_nat_0_le_iff less]] by auto
  have s: "0 \<le> start" using pieces_within[OF conjunct1[OF p] t(1)] by simp
  have r: "nat start + (i - nat start) = i" "i - nat start < nat rows" using s t(2,3) by auto
  show ?thesis
    using product_elements(1)[OF conjunct1[OF p] order.refl m strides t(1) r(2) j] unfolding r(1)
    by (intro that[OF t(1) s t(2,3)]) (use p t(1) in auto)
qed

lemma product_dst:
  assumes "limits_ok (rc_limits cfg)" "operands_ok ops n (k div 32)" "0 < m" "0 \<le> n" "keeps hw" "ready s"
    and "fpga_hw_q8_0_matmul_dma_to_ip fl hw cfg ops None k n m s = Some (True, t)"
  shows "en_dst t = product_rows fl hw ops (rc_limits cfg) m (k div 32) (row_tiles (rc_limits cfg) n 0) (en_dst s)"
  using wp_product[of cfg ops n k m hw False s fl] assms by (simp add: wp_partial)

subsection \<open>A concrete device\<close>

text \<open>At the fence after START it has finished the job; its rows are the sums of the staged windows.\<close>

definition sample_regs :: "(u32 \<Rightarrow> u32) \<Rightarrow> u32 \<Rightarrow> u32" where
  "sample_regs r off = (let start = (r REG_CTRL = CTRL_START) in
     if off = REG_CTRL then 0
     else if off = REG_BANK_STAT then (r REG_BANK AND 3) OR (if start then push_bit 9 (r REG_BANK AND 1) else r REG_BANK_STAT AND 0x200)
     else if off = REG_SPU_STREAM_STATUS then 0x10
     else if \<not> start then r off
     else if off = REG_STATUS then 1
     else if off = REG_DONE_JOB \<or> off = REG_SPU_STREAM_LAST_JOB then r REG_JOB_ID
     else if off = REG_SPU_STREAM_OUT then r REG_SPU_STREAM_OUT + r REG_ROWS
     else if off = REG_SPU_STREAM_COUNT then r REG_SPU_STREAM_COUNT + r REG_ROWS * r REG_GROUP_BLOCKS
     else if off = REG_SPU_STREAM_DONE then r REG_SPU_STREAM_DONE + 1
     else if off = REG_SPU_STREAM_LAST_BANK then r REG_BANK
     else r off)"

definition sample_row_word :: "u64 \<Rightarrow> nat \<Rightarrow> nat \<Rightarrow> u32" where
  "sample_row_word bits row w = (if w = 0 then ucast (of_nat row :: u16) OR push_bit 16 (ucast (ucast bits :: u16))
     else if w = 1 then ucast (drop_bit 16 bits) else if w = 2 then ucast (drop_bit 48 bits) else 0)"

definition sample_spu :: "tile_input \<Rightarrow> tile_input \<Rightarrow> nat \<Rightarrow> u8" where
  "sample_spu inp now = window_byte (\<lambda>i. sample_row_word (case staged_sum inp (i div 4) of Some bits \<Rightarrow> bits | None \<Rightarrow> 0) (i div 4) (i mod 4))"

definition sample_hw :: hardware where
  "sample_hw = \<lparr>hw_regs = sample_regs, hw_dma_ok = (\<lambda>_. True), hw_spu = sample_spu, hw_polls = 1, hw_timer_ok = True, hw_worker_ok = True,
     hw_map_size = 0x3C0000, hw_env = (\<lambda>_. \<lparr>be_status_before = 0, be_bank_stat = 0, be_slot_state = 0, be_desc_flags = 0, be_status_after = 0,
       be_zdma_disabled = True, be_spu_quiescent = True, be_final_slot_state = 0, be_final_desc_flags = 0, be_sync_qs = True,
       be_sync_scales = True, be_settle = (\<lambda>m. m), be_mem = (\<lambda>_. 0), be_weight_base = 0\<rparr>)\<rparr>"

definition sample_cfg :: "bool \<Rightarrow> run_config" where
  "sample_cfg pingpong = \<lparr>rc_limits = \<lparr>vl_max_rows = 1, vl_max_beats = 2, vl_max_blocks = 1, vl_result_words = 1\<rparr>, rc_max_transfer = 4096,
     rc_clear_result = True, rc_scale_stream = True, rc_result_overlap = pingpong, rc_pingpong = pingpong, rc_pack_workers = 1\<rparr>"

definition sample_operands :: operands where
  "sample_operands = \<lparr>op_mem = sample_memory, op_src0 = \<lparr>gt_ptr = 0x5000, gt_data = 3400, gt_type = 8, gt_ne = [64, 2, 1, 1], gt_nb = [34, 68, 136, 136]\<rparr>,
     op_weight_base = 3400, op_act_base = 34, op_nb0 = 4, op_nb1 = 8\<rparr>"

definition sample_engine :: "'f \<Rightarrow> 'f engine" where
  "sample_engine z = \<lparr>en_ddr = \<lparr>dm_mapped = True, dm_base = 0x7f0000000000, dm_bytes = replicate 0x3C0000 0\<rparr>,
     en_dir = \<lparr>rs_enabled = False, rs_verify_metadata = True, rs_pingpong = True, rs_budget_mb = 0, rs_epoch = 1, rs_protocol = 2,
       rs_bitstream = 3, rs_abi = 4, rs_tiles = [], rs_index = [], rs_tile_count = 0, rs_next_slot = 0, rs_next_off = 0,
       rs_logical_bytes = 0, rs_stats = (\<lambda>_. 0)\<rparr>,
     en_dev = \<lparr>dv_regs = (\<lambda>_. 0x10), dv_next_job_id = 1, dv_pingpong_supported = True, dv_descriptor_supported = True,
       dv_p2_init_requested = True, dv_boundary_diagnostics = False, dv_seq_pos = 3\<rparr>,
     en_mem = (\<lambda>_ _. 0), en_job = None, en_transfers = 0, en_slots = [], en_staging = no_staging, en_accum = [], en_dst = (\<lambda>_. z),
     en_tile_id = 0, en_tile_index = 0, en_running = None, en_loaded = [False, False], en_stream_mode = 0\<rparr>"

lemma sample_answers: "answers sample_hw"
proof -
  have b: "((x AND 3) OR push_bit 9 (y AND 1)) AND 3 = x AND 3" "((x AND 3) OR (y AND 0x200)) AND 3 = x AND 3"
    "drop_bit 9 ((x AND 3) OR push_bit 9 (y AND 1)) AND 1 = y AND 1"
    "drop_bit 9 ((x AND 3) OR (y AND 0x200)) AND 1 = drop_bit 9 y AND 1" for x y :: u32
  proof -
    have m: "(3 :: u32) = mask 2" "(1 :: u32) = mask 1" by (simp_all add: mask_eq_exp_minus_1)
    have nine: "bit (0x200 :: u32) n \<longleftrightarrow> n = 9" for n using bit_exp_iff[of 9 n, where 'a = u32] bit_imp_le_length[of "0x200 :: u32" n] by auto
    have nine': "bit (0x200 :: int) n \<longleftrightarrow> n = 9" for n using bit_exp_iff[of 9 n, where 'a = int] by simp
    show "((x AND 3) OR push_bit 9 (y AND 1)) AND 3 = x AND 3" "((x AND 3) OR (y AND 0x200)) AND 3 = x AND 3"
      "drop_bit 9 ((x AND 3) OR push_bit 9 (y AND 1)) AND 1 = y AND 1"
      "drop_bit 9 ((x AND 3) OR (y AND 0x200)) AND 1 = drop_bit 9 y AND 1"
      unfolding m by (auto intro!: bit_word_eqI simp: bit_simps nine nine')
  qed
  have c: "drop_bit 9 (push_bit 9 y) AND 1 = y AND 1" for y :: u32
  proof -
    have "(1 :: u32) = mask 1" by (simp add: mask_eq_exp_minus_1)
    then show ?thesis by (auto intro!: bit_word_eqI simp: bit_simps)
  qed
  show ?thesis
    by (auto simp: c answers_def sample_hw_def Let_def sample_regs_def answers_start_def rests_def b)
qed

lemma sample_rows:
  "fst (spu_row (sample_spu inp now) row) = of_nat row"
  "staged_sum inp row = Some bits \<Longrightarrow> snd (spu_row (sample_spu inp now) row) = sint bits"
proof -
  let ?bits = "case staged_sum inp row of Some bits \<Rightarrow> bits | None \<Rightarrow> 0"
  have w: "row_word (sample_spu inp now) (4 * (4 * row + k)) = sample_row_word ?bits row k" if "k < 4" for k
    unfolding sample_spu_def window_word using that by simp
  have at: "16 * row + 4 = 4 * (4 * row + 1)" "16 * row + 8 = 4 * (4 * row + 2)" "16 * row = 4 * (4 * row + 0)" by simp_all
  have row: "spu_row (sample_spu inp now) row = (ucast (sample_row_word ?bits row 0), sint (ucast (drop_bit 16 (sample_row_word ?bits row 0))
      OR push_bit 16 (ucast (sample_row_word ?bits row 1)) OR push_bit 48 (ucast (sample_row_word ?bits row 2)) :: u64))"
    unfolding spu_row_def at(1,2) unfolding at(3) using w[of 0] w[of 1] w[of 2] by (simp only: zero_less_numeral one_less_numeral_iff rel_simps)
  show "fst (spu_row (sample_spu inp now) row) = of_nat row" unfolding row by (simp add: sample_row_word_def scale_halves)
  have low: "drop_bit 16 (ucast (a :: u16) OR push_bit 16 (ucast (b :: u16)) :: u32) = ucast b" for a b
    by (rule bit_word_eqI) (auto simp: bit_simps dest: bit_imp_le_length)
  have all: "(ucast (ucast (ucast b :: u16) :: u32) OR push_bit 16 (ucast (ucast (drop_bit 16 b) :: u32)) OR push_bit 48 (ucast (ucast (drop_bit 48 b) :: u32)) :: u64) = b"
    for b :: u64
  proof (rule bit_word_eqI)
    fix n assume "n < LENGTH(64)"
    then consider "n < 16" | "16 \<le> n" "n < 48" | "48 \<le> n" "n < 64" by fastforce
    then show "bit (ucast (ucast (ucast b :: u16) :: u32) OR push_bit 16 (ucast (ucast (drop_bit 16 b) :: u32)) OR push_bit 48 (ucast (ucast (drop_bit 48 b) :: u32)) :: u64) n = bit b n"
      by cases (auto simp: bit_simps dest: bit_imp_le_length)
  qed
  show "snd (spu_row (sample_spu inp now) row) = sint bits" if "staged_sum inp row = Some bits"
  proof -
    have "sample_row_word b row 0 = ucast (of_nat row :: u16) OR push_bit 16 (ucast (ucast b :: u16))"
      "sample_row_word b row 1 = ucast (drop_bit 16 b)" "sample_row_word b row 2 = ucast (drop_bit 48 b)" for b
      by (simp_all add: sample_row_word_def)
    then show ?thesis unfolding row using that all by (simp only: low option.case snd_conv)
  qed
qed

lemma sample_live: "live sample_hw (sample_cfg p)" "conforms sample_hw" "keeps sample_hw"
proof -
  have "numbers_rows sample_hw" by (simp add: numbers_rows_def sample_hw_def sample_rows)
  moreover have "dma_responds sample_hw (sample_cfg p)" by (simp add: dma_responds_def sample_hw_def sample_cfg_def)
  ultimately show "live sample_hw (sample_cfg p)" using sample_answers by (simp add: live_def)
  show "conforms sample_hw" by (simp add: conforms_def sample_hw_def sample_rows)
  show "keeps sample_hw" by (rule answers_regs(9)[OF sample_answers])
qed

lemma sample_engine_ready: "ready (sample_engine z)" "awake (sample_engine z)" "en_dst (sample_engine z) = (\<lambda>_. z)"
proof -
  have "length (replicate 0x3C0000 (0 :: u8)) = 0x3C0000" by (rule length_replicate)
  then show "ready (sample_engine z)" by (simp only: ready_def ddr_ready_def sample_engine_def engine.simps ddr_map.simps residency.simps) simp
  show "awake (sample_engine z)" by (simp add: awake_def up_def sample_engine_def)
  show "en_dst (sample_engine z) = (\<lambda>_. z)" by (simp only: sample_engine_def engine.simps)
qed

lemma sample_operands_ok: "limits_ok (rc_limits (sample_cfg p))" "operands_ok sample_operands 2 (64 div 32)" "strides_ok sample_operands 2 2"
  by (simp_all add: limits_ok_def sample_cfg_def operands_ok_def sample_operands_def strides_ok_def dst_at_def numeral_2_eq_2 less_Suc_eq All_less_Suc)

lemma sample_blocks:
  assumes "34 dvd act" "34 dvd weight"
  shows "block_product sample_memory act weight = 32" "block_in_range sample_memory act weight"
proof -
  have byte: "sample_memory (p + 2 + int i) = 1" "sample_memory p = 0" "sample_memory (p + 1) = 0x3C" if "34 dvd p" "i < 32" for p i
  proof -
    obtain q where p: "p = 34 * q" using \<open>34 dvd p\<close> by (elim dvdE)
    have "(p + 2 + int i) mod 34 = 2 + int i" "p mod 34 = 0" "(p + 1) mod 34 = 1" using \<open>i < 32\<close> unfolding p by (simp_all add: add.assoc)
    then show "sample_memory (p + 2 + int i) = 1" "sample_memory p = 0" "sample_memory (p + 1) = 0x3C" by (simp_all add: sample_memory_def)
  qed
  have d: "q8_d sample_memory p = 0x3C00" if "34 dvd p" for p using byte[OF that, of 0] by (simp add: q8_d_def)
  have "q8_0_raw_dot (q8_qs sample_memory act) (q8_qs sample_memory weight) = (\<Sum>i<(32 :: nat). 1 :: int)"
    unfolding raw_dot_sum by (rule sum.cong) (simp_all add: q8_qs_def byte assms)
  moreover have one: "f16_value 0x3C00 = 1" "f16_finite 0x3C00" by (simp_all add: f16_value_def f16_finite_def f16_sign_def f16_exp_def f16_man_def)
  ultimately show p: "block_product sample_memory act weight = 32" by (simp add: block_product_def d assms)
  show "block_in_range sample_memory act weight" by (simp add: block_in_range_def d assms one p)
qed

lemma sample_sources: "source_in_range sample_operands (64 div 32) i j b" "source_block sample_operands (64 div 32) i j b = 32"
proof -
  have "34 dvd op_act_base sample_operands + (int j * (64 div 32) + int b) * Q8_BLOCK_BYTES"
    "34 dvd weight_block_from_base (uint (gt_nb (op_src0 sample_operands) ! 1)) (op_weight_base sample_operands) (int i) (int b)"
    by (simp_all add: sample_operands_def weight_block_from_base_def)
  from sample_blocks[OF this] show "source_in_range sample_operands (64 div 32) i j b" "source_block sample_operands (64 div 32) i j b = 32"
    by (simp_all only: source_in_range_def source_block_def) (simp_all add: sample_operands_def)
qed

lemma sample_result:
  "\<exists>t. fpga_hw_q8_0_matmul_dma_to_ip fl sample_hw (sample_cfg p) sample_operands None 64 2 2 (sample_engine z) = Some (True, t)"
  using wp_product[OF sample_operands_ok(1)[of p] sample_operands_ok(2) _ _ sample_live(3), where T = True and s = "sample_engine z" and m = 2 and fl = fl]
    sample_live(1)[of p] by (auto simp: wp_total sample_engine_ready)

subsection \<open>Properties\<close>



text \<open>
  Property C2. The schedulers compute the same: two runs of an offloaded product that return true give the same
  result, bit by bit, also when one keeps two jobs in flight and reads results behind the next job and the other
  runs job by job, or when they chunk their transfers differently, as long as the tiles are cut by the same limits.
\<close>

theorem schedulers_agree:
  assumes "limits_ok (rc_limits cfg)" "operands_ok ops n (k div 32)" "0 < m" "0 \<le> n" "keeps hw"
    and "fpga_hw_q8_0_matmul_dma_to_ip fl hw cfg ops None k n m s = Some (True, t)" "ready s"
    and "fpga_hw_q8_0_matmul_dma_to_ip fl hw cfg' ops None k n m s' = Some (True, t')" "ready s'"
    and "rc_limits cfg' = rc_limits cfg" "en_dst s' = en_dst s"
  shows "en_dst t' = en_dst t"
  using product_dst[OF assms(1-5,7,6)] product_dst[of cfg' ops n k m hw s' fl t'] assms by simp

lemma schedulers_agree_witness:
  "\<exists>t t'. fpga_hw_q8_0_matmul_dma_to_ip real_ops sample_hw (sample_cfg True) sample_operands None 64 2 2 (sample_engine 0) = Some (True, t)
    \<and> fpga_hw_q8_0_matmul_dma_to_ip real_ops sample_hw (sample_cfg False) sample_operands None 64 2 2 (sample_engine 0) = Some (True, t')
    \<and> en_dst t' = en_dst t"
proof -
  obtain t t' where t: "fpga_hw_q8_0_matmul_dma_to_ip real_ops sample_hw (sample_cfg True) sample_operands None 64 2 2 (sample_engine 0) = Some (True, t)"
    "fpga_hw_q8_0_matmul_dma_to_ip real_ops sample_hw (sample_cfg False) sample_operands None 64 2 2 (sample_engine 0) = Some (True, t')"
    using sample_result[of real_ops True 0] sample_result[of real_ops False 0] by blast
  from schedulers_agree[OF sample_operands_ok(1,2) _ _ sample_live(3) t(1) sample_engine_ready(1) t(2) sample_engine_ready(1)]
  have "en_dst t' = en_dst t" by (simp add: sample_cfg_def)
  then show ?thesis using t by blast
qed

text \<open>
  Property C3. On a device that answers (every START is finished and reported, registers of the descriptor keep
  their values, transfers complete, rows carry their numbers), an offloaded product is never stuck, refused or
  aborted: it returns true, each element of a row tile is the sum over the K groups, in order, of the scaled rows
  of its tiles, and nothing else of the result tensor is written.
\<close>

theorem offload_completes:
  assumes "limits_ok (rc_limits cfg)" "operands_ok ops n (k div 32)" "0 < m" "0 \<le> n" "strides_ok ops n m"
    and "live hw cfg" "ready s" "awake s"
  shows "\<exists>t. fpga_hw_q8_0_matmul_dma_to_ip fl hw cfg ops None k n m s = Some (True, t)
    \<and> (\<forall>(start, rows) \<in> set (row_tiles (rc_limits cfg) n 0). \<forall>r < nat rows. \<forall>c < nat m. en_dst t (dst_at ops (nat start + r) c)
        = fold (\<lambda>(ib0, gb). add_value fl hw ops (place_of ops (k div 32) start rows ib0 gb (int c)) r)
            (k_groups (rc_limits cfg) rows (k div 32) 0) (fl_zero fl))
    \<and> (\<forall>off. (\<forall>i < nat n. \<forall>j < nat m. off \<noteq> dst_at ops i j) \<longrightarrow> en_dst t off = en_dst s off)"
proof -
  have keeps: "keeps hw" using assms(6) answers_regs(9) by (auto simp: live_def)
  have m: "0 \<le> m" using assms(3) by simp
  have "0 < vl_max_rows (rc_limits cfg)" using assms(1) by (simp add: limits_ok_def)
  note p = conjunct1[OF row_tiles_pieces[OF this assms(4)]]
  obtain t where t: "fpga_hw_q8_0_matmul_dma_to_ip fl hw cfg ops None k n m s = Some (True, t)"
    "en_dst t = product_rows fl hw ops (rc_limits cfg) m (k div 32) (row_tiles (rc_limits cfg) n 0) (en_dst s)"
    using wp_product[OF assms(1-4) keeps, where T = True and s = s and fl = fl] assms(6-8) by (auto simp: wp_total)
  show ?thesis
    using product_elements[OF p order.refl m assms(5), where fl = fl and hw = hw and vl = "rc_limits cfg" and nb = "k div 32" and dst = "en_dst s"]
    by (intro exI[of _ t] conjI t(1)) (auto simp: t(2) element_value_def)
qed

lemma offload_completes_witness:
  "\<exists>t. fpga_hw_q8_0_matmul_dma_to_ip real_ops sample_hw (sample_cfg True) sample_operands None 64 2 2 (sample_engine 7) = Some (True, t)
    \<and> en_dst t 16 = 7"
proof -
  have "16 \<noteq> dst_at sample_operands i j" if "i < 2" "j < 2" for i j
    using that by (auto simp: dst_at_def sample_operands_def less_2_cases_iff)
  then show ?thesis
    using offload_completes[OF sample_operands_ok(1)[of True] sample_operands_ok(2) _ _ sample_operands_ok(3) sample_live(1)[of True] sample_engine_ready(1,2),
        of real_ops 7]
    by (auto simp: sample_engine_ready(3))
qed

end
