(* ===== verification/Fpga_Guard.thy ===== *)
theory Fpga_Guard
  imports Fpga_Staging
begin

text \<open>
  Staging a tile with the deep contract guard (\<^verbatim>\<open>ggml/src/ggml-cpu/fpga_host.cpp\<close>): the payload is written in the
  layout of \<open>Q8_Layout\<close>, committed, and compared with the source; a mismatch stages it once more and then
  refuses the tile. The snapshot of the weights is a function of block and lane, as the activations are. Log
  lines, fences and the counter of restages are left out; \<open>None\<close> is an abort.
\<close>

subsection \<open>Operations\<close>

definition fpga_weight_layout_zero_padded_companion :: "u32 \<Rightarrow> int \<Rightarrow> int \<Rightarrow> ddr_map \<Rightarrow> ddr_map option" where
  "fpga_weight_layout_zero_padded_companion base rows group_beats d =
     (if rows mod 2 = 0 then Some d
      else fold_opt (\<lambda>beat d. case fpga_weight_layout_word_offset base rows group_beats rows (int beat) of
          None \<Rightarrow> None | Some off \<Rightarrow> ddr_zero_range32 off 16 d) [0..<nat group_beats] d)"

definition stage_weight_beat :: "(nat \<Rightarrow> nat \<Rightarrow> u8) \<Rightarrow> int \<Rightarrow> int \<Rightarrow> u32 \<Rightarrow> nat \<Rightarrow> nat \<Rightarrow> nat \<Rightarrow> ddr_map \<Rightarrow> ddr_map option" where
  "stage_weight_beat snapshot rows group_blocks weight_dst_off row gb beat d =
     (case fpga_weight_layout_word_offset weight_dst_off rows (group_blocks * 2) (int row) (int gb * 2 + int beat) of
        None \<Rightarrow> None
      | Some word_off \<Rightarrow> ddr_write_i8x16 word_off (\<lambda>i. snapshot (row * nat group_blocks + gb) (beat * 16 + i)) d)"

definition stage_act_beat :: "(nat \<Rightarrow> nat \<Rightarrow> u8) \<Rightarrow> nat \<Rightarrow> nat \<Rightarrow> ddr_map \<Rightarrow> ddr_map option" where
  "stage_act_beat act gb beat d = ddr_write_i8x16 (ACT_BASE + of_nat (gb * 2 + beat) * 16) (\<lambda>i. act gb (beat * 16 + i)) d"

definition fpga_stage_q8_group_payload :: "(nat \<Rightarrow> nat \<Rightarrow> u8) \<Rightarrow> (nat \<Rightarrow> nat \<Rightarrow> u8) \<Rightarrow> int \<Rightarrow> int \<Rightarrow> bool \<Rightarrow> u32 \<Rightarrow> ddr_map \<Rightarrow> ddr_map option" where
  "fpga_stage_q8_group_payload snapshot act rows group_blocks write_weight_payload weight_dst_off d =
     require (group_blocks \<le> INT_MAX div 2) (do {
       d \<leftarrow> (if write_weight_payload then do {
           d \<leftarrow> fold_opt (\<lambda>row. fold_opt (\<lambda>gb. fold_opt (stage_weight_beat snapshot rows group_blocks weight_dst_off row gb) [0..<2])
             [0..<nat group_blocks]) [0..<nat rows] d;
           fpga_weight_layout_zero_padded_companion weight_dst_off rows (group_blocks * 2) d }
         else Some d);
       fold_opt (\<lambda>gb. fold_opt (stage_act_beat act gb) [0..<2]) [0..<nat group_blocks] d })"

definition fpga_ddr_staging_readback_commit :: "u32 \<Rightarrow> u64 \<Rightarrow> ddr_map \<Rightarrow> unit option" where
  "fpga_ddr_staging_readback_commit off bytes d =
     require (bytes \<noteq> 0 \<and> off AND 3 = 0 \<and> bytes AND 3 = 0)
       (do { _ \<leftarrow> ddr_ptr off 4 d; _ \<leftarrow> ddr_ptr (off + ucast bytes - 4) 4 d; Some () })"

text \<open>The 32 bytes from \<open>p\<close> on against the quants of a block.\<close>

definition staged_block_matches :: "nat \<Rightarrow> (nat \<Rightarrow> u8) \<Rightarrow> ddr_map \<Rightarrow> bool" where
  "staged_block_matches p expected d = list_all (\<lambda>lane. dm_bytes d ! (p + lane) = expected lane) [0..<32]"

definition fpga_contract_verify_staged_q8_group :: "(nat \<Rightarrow> nat \<Rightarrow> u8) \<Rightarrow> (nat \<Rightarrow> nat \<Rightarrow> u8) \<Rightarrow> int \<Rightarrow> int \<Rightarrow> u32 \<Rightarrow> ddr_map \<Rightarrow> bool option" where
  "fpga_contract_verify_staged_q8_group snapshot act rows group_blocks weight_src_off d = do {
     ok \<leftarrow> fold_opt (\<lambda>gb ok. if \<not> ok then Some False
         else do { p \<leftarrow> ddr_ptr (ACT_BASE + of_nat gb * 32) 32 d; Some (staged_block_matches p (act gb) d) })
       [0..<nat group_blocks] True;
     fold_opt (\<lambda>row. fold_opt (\<lambda>gb ok. if \<not> ok then Some False
         else case fpga_weight_layout_word_offset weight_src_off rows (group_blocks * 2) (int row) (int gb * 2) of
           None \<Rightarrow> Some False
         | Some off \<Rightarrow> do { p \<leftarrow> ddr_ptr off 32 d; Some (staged_block_matches p (snapshot (row * nat group_blocks + gb)) d) })
       [0..<nat group_blocks]) [0..<nat rows] ok }"

primrec stage_attempts :: "(nat \<Rightarrow> nat \<Rightarrow> u8) \<Rightarrow> (nat \<Rightarrow> nat \<Rightarrow> u8) \<Rightarrow> int \<Rightarrow> int \<Rightarrow> bool \<Rightarrow> u32 \<Rightarrow> u64 \<Rightarrow> u64 \<Rightarrow> bool \<Rightarrow> nat \<Rightarrow> ddr_map
    \<Rightarrow> (bool \<times> ddr_map) option" where
  "stage_attempts snapshot act rows group_blocks write src act_bytes weight_bytes guard 0 d = Some (False, d)"
| "stage_attempts snapshot act rows group_blocks write src act_bytes weight_bytes guard (Suc attempts) d = do {
     d \<leftarrow> fpga_stage_q8_group_payload snapshot act rows group_blocks write src d;
     _ \<leftarrow> fpga_ddr_staging_readback_commit ACT_BASE act_bytes d;
     _ \<leftarrow> fpga_ddr_staging_readback_commit src weight_bytes d;
     ok \<leftarrow> (if \<not> guard then Some True else fpga_contract_verify_staged_q8_group snapshot act rows group_blocks src d);
     if ok then Some (True, d) else stage_attempts snapshot act rows group_blocks write src act_bytes weight_bytes guard attempts d }"

definition fpga_stage_q8_group_with_contract_guard :: "(nat \<Rightarrow> nat \<Rightarrow> u8) \<Rightarrow> (nat \<Rightarrow> nat \<Rightarrow> u8) \<Rightarrow> int \<Rightarrow> int \<Rightarrow> bool \<Rightarrow> u32 \<Rightarrow> u64 \<Rightarrow> u64
    \<Rightarrow> bool \<Rightarrow> ddr_map \<Rightarrow> (bool \<times> ddr_map) option" where
  "fpga_stage_q8_group_with_contract_guard snapshot act rows group_blocks write src act_bytes weight_bytes guard_enabled =
     stage_attempts snapshot act rows group_blocks write src act_bytes weight_bytes guard_enabled (if guard_enabled then 2 else 1)"

text \<open>The second attempt when the check fails between the copies of the activations and the weights.\<close>

definition fpga_contract_restage_after_act_dma :: "(nat \<Rightarrow> nat \<Rightarrow> u8) \<Rightarrow> (nat \<Rightarrow> nat \<Rightarrow> u8) \<Rightarrow> int \<Rightarrow> int \<Rightarrow> bool \<Rightarrow> u32 \<Rightarrow> u64 \<Rightarrow> u64
    \<Rightarrow> ddr_map \<Rightarrow> (bool \<times> ddr_map) option" where
  "fpga_contract_restage_after_act_dma snapshot act rows group_blocks write src act_bytes weight_bytes d =
     (if \<not> write then Some (False, d)
      else do {
        d \<leftarrow> fpga_stage_q8_group_payload snapshot act rows group_blocks True src d;
        _ \<leftarrow> fpga_ddr_staging_readback_commit ACT_BASE act_bytes d;
        _ \<leftarrow> fpga_ddr_staging_readback_commit src weight_bytes d;
        ok \<leftarrow> fpga_contract_verify_staged_q8_group snapshot act rows group_blocks src d;
        Some (ok, d) })"

subsection \<open>What staging leaves in the window\<close>

text \<open>The lanes of a word of the layout: the quants of its row and beat, zeros for the padding row.\<close>

definition payload_word :: "(nat \<Rightarrow> nat \<Rightarrow> u8) \<Rightarrow> nat \<Rightarrow> nat \<Rightarrow> nat \<Rightarrow> nat \<Rightarrow> u8" where
  "payload_word snapshot rows blocks i c =
     (let row = 2 * (i div 2 div (blocks * 2)) + i mod 2; b = i div 2 mod (blocks * 2)
      in if row < rows then snapshot (row * blocks + b div 2) (b mod 2 * 16 + c) else 0)"

definition filled :: "(nat \<Rightarrow> nat \<Rightarrow> u8) \<Rightarrow> nat \<Rightarrow> nat \<Rightarrow> nat set \<Rightarrow> ddr_map \<Rightarrow> bool" where
  "filled snapshot rows blocks S d \<longleftrightarrow> ddr_ready d
     \<and> (\<forall>i \<in> S. i < 32768 \<and> (\<forall>c < 16. dm_bytes d ! (0x100000 + 16 * i + c) = payload_word snapshot rows blocks i c))"

lemma payload_word_at:
  assumes "b < blocks * 2"
  shows "payload_word snapshot rows blocks (layout_index (blocks * 2) row b) c
    = (if row < rows then snapshot (row * blocks + b div 2) (b mod 2 * 16 + c) else 0)"
proof -
  have "2 * (row div 2) + row mod 2 = row" by simp
  then show ?thesis unfolding payload_word_def Let_def layout_index_decode[OF assms] by simp
qed

lemma filled_put:
  assumes "filled snapshot rows blocks S d" and "i < 32768" and "\<And>c. c < 16 \<Longrightarrow> f c = payload_word snapshot rows blocks i c"
  shows "filled snapshot rows blocks (S \<union> {i}) (ddr_put (0x100000 + 16 * i) 16 f d)"
proof -
  have d: "ddr_ready d" using assms(1) by (simp add: filled_def)
  have "dm_bytes (ddr_put (0x100000 + 16 * i) 16 f d) ! (0x100000 + 16 * j + c) = payload_word snapshot rows blocks j c"
    if j: "j \<in> S \<union> {i}" "j < 32768" and c: "c < 16" for j c
  proof -
    have at: "0x100000 + 16 * j + c < length (dm_bytes d)" using j(2) c ddr_ready_facts(4)[OF d] by linarith
    show ?thesis
    proof (cases "j = i")
      case True
      then show ?thesis using at c assms(3) by simp
    next
      case False
      then have "\<not> (0x100000 + 16 * i \<le> 0x100000 + 16 * j + c \<and> 0x100000 + 16 * j + c < 0x100000 + 16 * i + 16)" using c by linarith
      then have "dm_bytes (ddr_put (0x100000 + 16 * i) 16 f d) ! (0x100000 + 16 * j + c) = dm_bytes d ! (0x100000 + 16 * j + c)"
        by (simp only: ddr_put_fields(4)[OF at] if_False)
      then show ?thesis using j False c assms(1) by (simp add: filled_def)
    qed
  qed
  then show ?thesis using assms(1,2) d by (auto simp: filled_def)
qed

lemma filled_elsewhere:
  assumes "filled snapshot rows blocks S d" "p + n \<le> 0x100000"
  shows "filled snapshot rows blocks S (ddr_put p n f d)"
proof -
  have d: "ddr_ready d" using assms(1) by (simp add: filled_def)
  have "dm_bytes (ddr_put p n f d) ! (0x100000 + 16 * j + c) = dm_bytes d ! (0x100000 + 16 * j + c)" if "j < 32768" "c < 16" for j c
    using that assms(2) ddr_ready_facts(4)[OF d] by (subst ddr_put_fields) auto
  then show ?thesis using assms(1) d by (auto simp: filled_def)
qed

lemma filled_mono: "filled snapshot rows blocks S d \<Longrightarrow> T \<subseteq> S \<Longrightarrow> filled snapshot rows blocks T d"
  by (auto simp: filled_def)

lemma fold_filled:
  assumes "\<And>x S d. x \<in> set xs \<Longrightarrow> filled snapshot rows blocks S d \<Longrightarrow> \<exists>d'. f x d = Some d' \<and> filled snapshot rows blocks (S \<union> g x) d'"
    and "filled snapshot rows blocks S d"
  shows "\<exists>d'. fold_opt f xs d = Some d' \<and> filled snapshot rows blocks (S \<union> (\<Union>x \<in> set xs. g x)) d'"
  using assms
proof (induction xs arbitrary: S d)
  case (Cons x xs)
  obtain d' where d': "f x d = Some d'" "filled snapshot rows blocks (S \<union> g x) d'" using Cons.prems(1)[of x] Cons.prems(2) by auto
  have "\<exists>e. fold_opt f xs d' = Some e \<and> filled snapshot rows blocks (S \<union> g x \<union> (\<Union>x \<in> set xs. g x)) e"
    by (rule Cons.IH[OF _ d'(2)]) (use Cons.prems(1) in simp)
  then show ?case using d'(1) by (auto simp: Un_assoc)
qed simp

text \<open>Sizes the driver stages.\<close>

definition group_ok :: "nat \<Rightarrow> nat \<Rightarrow> bool" where
  "group_ok R G \<longleftrightarrow> 0 < R \<and> R \<le> 256 \<and> 0 < G \<and> G \<le> 64"

lemma index_less: "group_ok R G \<Longrightarrow> r < padded_rows R \<Longrightarrow> b < G * 2 \<Longrightarrow> layout_index (G * 2) r b < 32768"
proof -
  assume shape: "group_ok R G" and r: "r < padded_rows R" and b: "b < G * 2"
  have "padded_rows R \<le> 256" using shape by (auto simp: padded_rows_def group_ok_def)
  then have "padded_rows R * (G * 2) \<le> 256 * 128" using shape by (intro mult_le_mono) (simp_all add: group_ok_def)
  from less_le_trans[OF layout_index_less[OF r b] this] show "layout_index (G * 2) r b < 32768" by simp
qed

lemma offset:
  assumes shape: "group_ok R G" and rb: "r < padded_rows R" "b < G * 2"
  obtains off where "fpga_weight_layout_word_offset WEIGHT_BASE (int R) (int G * 2) (int r) (int b) = Some off"
    and "unat off = 0x100000 + 16 * layout_index (G * 2) r b"
proof -
  have g: "nat (int G * 2) = G * 2" by (simp add: nat_mult_distrib)
  obtain i where i: "fpga_weight_layout_word_index (int R) (int G * 2) (int r) (int b) = Some i"
    "unat i = layout_index (G * 2) r b"
    using word_index_value[of "int R" "int G * 2" "int r" "int b"] shape rb by (auto simp: g group_ok_def)
  have lt: "unat i < 32768" using index_less[OF shape rb] i(2) by simp
  have m: "unat (i * 16) = unat i * 16" using lt by (subst unat_mult_no_overflow) simp_all
  have s: "unat ((ucast WEIGHT_BASE :: u64) + i * 16) = 0x100000 + unat i * 16" using lt m by (subst unat_add_no_overflow) simp_all
  have "\<not> i > SIZE_MAX div 16" "\<not> i * 16 > 4294967295" "\<not> (ucast WEIGHT_BASE :: u64) + i * 16 > 4294967295"
    using lt m s by (simp_all add: word_less_nat_alt unat_div)
  then have o: "fpga_weight_layout_word_offset WEIGHT_BASE (int R) (int G * 2) (int r) (int b) = Some (WEIGHT_BASE + ucast (i * 16))"
    by (simp add: fpga_weight_layout_word_offset_def i(1))
  have dims: "0 < int R" "int R \<le> INT_MAX" "0 < int G * 2" "int G * 2 \<le> INT_MAX" "int r \<le> INT_MAX"
    using shape rb by (auto simp: padded_rows_def group_ok_def)
  show ?thesis using word_offset_value[OF dims o] by (intro that[OF o]) (simp add: g)
qed

lemma stage_weight_beat_fills:
  assumes ok: "group_ok R G" and rb: "row < R" "gb < G" "beat < 2" and d: "filled snapshot R G S d"
  shows "\<exists>d'. stage_weight_beat snapshot (int R) (int G) WEIGHT_BASE row gb beat d = Some d'
    \<and> filled snapshot R G (S \<union> {layout_index (G * 2) row (gb * 2 + beat)}) d'"
proof -
  let ?i = "layout_index (G * 2) row (gb * 2 + beat)"
  have b: "gb * 2 + beat < G * 2" using rb by linarith
  have r: "row < padded_rows R" by (rule less_le_trans[OF rb(1) padded_rows_bounds(1)])
  obtain off where off: "fpga_weight_layout_word_offset WEIGHT_BASE (int R) (int G * 2) (int row) (int (gb * 2 + beat)) = Some off"
    "unat off = 0x100000 + 16 * ?i" using offset[OF ok r b] by blast
  have lt: "?i < 32768" by (rule index_less[OF ok r b])
  have w: "ddr_write_i8x16 off f d = Some (ddr_put (0x100000 + 16 * ?i) 16 f d)" for f
    using write_beat[of d off "0x40000 + 4 * ?i"] d off(2) lt by (simp add: filled_def)
  have lanes: "snapshot (row * G + gb) (beat * 16 + c) = payload_word snapshot R G ?i c" for c
  proof -
    have "(gb * 2 + beat) div 2 = gb" "(gb * 2 + beat) mod 2 = beat" using rb(3) by auto
    then show ?thesis using rb(1) by (simp only: payload_word_at[OF b] if_True)
  qed
  have at: "int gb * 2 + int beat = int (gb * 2 + beat)" by simp
  have "stage_weight_beat snapshot (int R) (int G) WEIGHT_BASE row gb beat d
      = Some (ddr_put (0x100000 + 16 * ?i) 16 (\<lambda>c. snapshot (row * G + gb) (beat * 16 + c)) d)"
    unfolding stage_weight_beat_def at off(1) by (simp only: option.case w nat_int)
  then show ?thesis using filled_put[OF d lt lanes] by blast
qed

lemma padding_fills:
  assumes ok: "group_ok R G" and d: "filled snapshot R G S d"
  shows "\<exists>d'. fpga_weight_layout_zero_padded_companion WEIGHT_BASE (int R) (int G * 2) d = Some d'
    \<and> filled snapshot R G (S \<union> (if even R then {} else {i. \<exists>b < G * 2. i = layout_index (G * 2) R b})) d'"
proof (cases "even R")
  case True
  then show ?thesis using d by (auto simp: fpga_weight_layout_zero_padded_companion_def)
next
  case False
  have r: "R < padded_rows R" using False by (auto simp: padded_rows_def elim!: oddE)
  have zero: "\<exists>d'. (case fpga_weight_layout_word_offset WEIGHT_BASE (int R) (int G * 2) (int R) (int b) of
        None \<Rightarrow> None | Some off \<Rightarrow> ddr_zero_range32 off 16 d) = Some d'
      \<and> filled snapshot R G (S \<union> {layout_index (G * 2) R b}) d'"
    if b: "b \<in> set [0..<G * 2]" and d: "filled snapshot R G S d" for b S d
  proof -
    let ?i = "layout_index (G * 2) R b"
    have b: "b < G * 2" using b by simp
    obtain off where off: "fpga_weight_layout_word_offset WEIGHT_BASE (int R) (int G * 2) (int R) (int b) = Some off"
      "unat off = 0x100000 + 16 * ?i" using offset[OF ok r b] by blast
    have lt: "?i < 32768" by (rule index_less[OF ok r b])
    have ready: "ddr_ready d" using d by (simp add: filled_def)
    have low: "off AND 3 = 0" by (rule low_bits_clear[where k = "0x40000 + 4 * ?i"]) (simp add: off(2))
    have fits: "ddr_range_fits off 16 d"
      using off(2) lt ddr_ready_facts(1,4)[OF ready] ddr_range_fits_value[OF ddr_ready_facts(2)[OF ready]] by simp
    have four: "unat ((16 :: u64) div 4) = 4" "(16 :: u64) AND 3 = 0" by (simp_all add: unat_div)
    have room: "unat off + 4 * length (replicate 4 (0 :: u32)) \<le> length (dm_bytes d)"
      using off(2) lt ddr_ready_facts(4)[OF ready] by simp
    have "d\<lparr>dm_bytes := store_words (unat off) (replicate 4 0) (dm_bytes d)\<rparr> = ddr_put (unat off) 16 (\<lambda>_. 0) d"
    proof (rule ddr_eqI)
      fix j assume j: "j < length (dm_bytes (ddr_put (unat off) 16 (\<lambda>_. 0) d))"
      show "dm_bytes (d\<lparr>dm_bytes := store_words (unat off) (replicate 4 0) (dm_bytes d)\<rparr>) ! j = dm_bytes (ddr_put (unat off) 16 (\<lambda>_. 0) d) ! j"
      proof (cases "unat off \<le> j \<and> j < unat off + 16")
        case True
        then have "(j - unat off) div 4 < 4" by auto
        moreover have "store_words (unat off) (replicate 4 0) (dm_bytes d) ! j = window_byte ((!) (replicate 4 0)) (j - unat off)"
          by (rule store_words_byte[OF room]) (use True in simp_all)
        ultimately show ?thesis using True j by (simp add: window_byte_def)
      next
        case False
        then show ?thesis using j by (auto simp: store_words_other)
      qed
    qed simp_all
    then have "ddr_zero_range32 off 16 d = Some (ddr_put (0x100000 + 16 * ?i) 16 (\<lambda>_. 0) d)"
      using fits low four by (simp add: ddr_zero_range32_def ddr_ptr_def off(2))
    moreover have "0 = payload_word snapshot R G ?i c" for c by (simp add: payload_word_at[OF b])
    ultimately show ?thesis using off(1) filled_put[OF d lt, of "\<lambda>_. 0"] by simp
  qed
  have n: "nat (int G * 2) = G * 2" by (simp add: nat_mult_distrib)
  have "\<exists>d'. fpga_weight_layout_zero_padded_companion WEIGHT_BASE (int R) (int G * 2) d = Some d'
      \<and> filled snapshot R G (S \<union> (\<Union>b \<in> set [0..<G * 2]. {layout_index (G * 2) R b})) d'"
  proof -
    have odd: "int R mod 2 \<noteq> 0" using False by presburger
    show ?thesis
      unfolding fpga_weight_layout_zero_padded_companion_def n if_not_P[OF odd] by (rule fold_filled[OF zero d])
  qed
  moreover have "(\<Union>b \<in> set [0..<G * 2]. {layout_index (G * 2) R b}) = {i. \<exists>b < G * 2. i = layout_index (G * 2) R b}" by auto
  ultimately show ?thesis using False by simp
qed

lemma stage_act_beat_keeps:
  assumes gb: "gb < 64" "beat < 2" and d: "filled snapshot R G S d"
  shows "\<exists>d'. stage_act_beat act gb beat d = Some d' \<and> filled snapshot R G (S \<union> {}) d'"
proof -
  have x: "gb * 2 + beat < 128" using gb by linarith
  have ready: "ddr_ready d" using d by (simp add: filled_def)
  note at = act_word[OF x]
  have room: "unat (ACT_BASE + of_nat (gb * 2 + beat) * 16 :: u32) + 16 \<le> 0x100000" unfolding at using x by simp
  then have "unat (ACT_BASE + of_nat (gb * 2 + beat) * 16 :: u32) + 16 \<le> 0x3C0000" by simp
  from write_beat[OF ready at this] filled_elsewhere[OF d room] show ?thesis by (simp only: stage_act_beat_def Un_empty_right) blast
qed

text \<open>The words of the layout, and a staged payload.\<close>

definition layout_words :: "nat \<Rightarrow> nat \<Rightarrow> nat set" where
  "layout_words R G = {i. \<exists>r < padded_rows R. \<exists>b < G * 2. i = layout_index (G * 2) r b}"

lemma payload_fills:
  assumes ok: "group_ok R G" and d: "ddr_ready d"
  shows "\<exists>d'. fpga_stage_q8_group_payload snapshot act (int R) (int G) True WEIGHT_BASE d = Some d'
    \<and> filled snapshot R G (layout_words R G) d'"
proof -
  have G: "G \<le> 64" "int G \<le> INT_MAX div 2" using ok by (simp_all add: group_ok_def)
  let ?written = "\<Union>row \<in> set [0..<R]. \<Union>gb \<in> set [0..<G]. \<Union>beat \<in> set [0..<2]. {layout_index (G * 2) row (gb * 2 + beat)}"
  let ?pad = "if even R then {} else {i. \<exists>b < G * 2. i = layout_index (G * 2) R b}"
  have start: "filled snapshot R G {} d" using d by (simp add: filled_def)
  have beats: "\<exists>d'. fold_opt (stage_weight_beat snapshot (int R) (int G) WEIGHT_BASE row gb) [0..<2] d = Some d'
      \<and> filled snapshot R G (S \<union> (\<Union>beat \<in> set [0..<2]. {layout_index (G * 2) row (gb * 2 + beat)})) d'"
    if "row < R" "gb < G" "filled snapshot R G S d" for row gb S d
    by (rule fold_filled[OF stage_weight_beat_fills[OF ok that(1,2)] that(3)]) simp_all
  have blocks: "\<exists>d'. fold_opt (\<lambda>gb. fold_opt (stage_weight_beat snapshot (int R) (int G) WEIGHT_BASE row gb) [0..<2]) [0..<G] d = Some d'
      \<and> filled snapshot R G (S \<union> (\<Union>gb \<in> set [0..<G]. \<Union>beat \<in> set [0..<2]. {layout_index (G * 2) row (gb * 2 + beat)})) d'"
    if "row < R" "filled snapshot R G S d" for row S d
    by (rule fold_filled[OF beats[OF that(1)] that(2)]) simp_all
  have "\<exists>d'. fold_opt (\<lambda>row. fold_opt (\<lambda>gb. fold_opt (stage_weight_beat snapshot (int R) (int G) WEIGHT_BASE row gb) [0..<2]) [0..<G]) [0..<R] d = Some d'
      \<and> filled snapshot R G ({} \<union> ?written) d'"
    by (rule fold_filled[OF blocks start]) simp_all
  then obtain d1 where d1: "fold_opt (\<lambda>row. fold_opt (\<lambda>gb. fold_opt (stage_weight_beat snapshot (int R) (int G) WEIGHT_BASE row gb) [0..<2])
      [0..<G]) [0..<R] d = Some d1" "filled snapshot R G ({} \<union> ?written) d1"
    by blast
  obtain d2 where d2: "fpga_weight_layout_zero_padded_companion WEIGHT_BASE (int R) (int G * 2) d1 = Some d2"
    "filled snapshot R G ({} \<union> ?written \<union> ?pad) d2" using padding_fills[OF ok d1(2)] by blast
  have acts: "\<exists>d'. fold_opt (stage_act_beat act gb) [0..<2] d = Some d' \<and> filled snapshot R G (S \<union> {}) d'"
    if "gb < 64" "filled snapshot R G S d" for gb S d
  proof -
    have "\<exists>d'. fold_opt (stage_act_beat act gb) [0..<2] d = Some d' \<and> filled snapshot R G (S \<union> (\<Union>beat \<in> set [0..<2]. {})) d'"
      by (rule fold_filled[OF stage_act_beat_keeps[OF that(1)] that(2)]) simp_all
    then show ?thesis by simp
  qed
  have "\<exists>d3. fold_opt (\<lambda>gb. fold_opt (stage_act_beat act gb) [0..<2]) [0..<G] d2 = Some d3
      \<and> filled snapshot R G ({} \<union> ?written \<union> ?pad \<union> (\<Union>gb \<in> set [0..<G]. {})) d3"
    by (rule fold_filled[OF acts d2(2)]) (use G in simp_all)
  then obtain d3 where d3: "fold_opt (\<lambda>gb. fold_opt (stage_act_beat act gb) [0..<2]) [0..<G] d2 = Some d3"
    "filled snapshot R G (?written \<union> ?pad) d3" by auto
  have "layout_words R G \<subseteq> ?written \<union> ?pad"
  proof
    fix i assume "i \<in> layout_words R G"
    then obtain r b where i: "r < padded_rows R" "b < G * 2" "i = layout_index (G * 2) r b" by (auto simp: layout_words_def)
    show "i \<in> ?written \<union> ?pad"
    proof (cases "r < R")
      case True
      have b: "b div 2 < G" "b mod 2 < 2" "b div 2 * 2 + b mod 2 = b" using i(2) by auto
      then have "i \<in> ?written" unfolding i(3) using True by (intro UN_I[of r] UN_I[of "b div 2"] UN_I[of "b mod 2"]) simp_all
      then show ?thesis by simp
    next
      case False
      then have "odd R" "r = R" using i(1) by (auto simp: padded_rows_def elim!: evenE)
      then show ?thesis using i(2,3) by auto
    qed
  qed
  then have "filled snapshot R G (layout_words R G) d3" by (rule filled_mono[OF d3(2)])
  moreover have "fpga_stage_q8_group_payload snapshot act (int R) (int G) True WEIGHT_BASE d = Some d3"
    by (simp only: fpga_stage_q8_group_payload_def nat_int if_P[OF G(2)] if_True d1(1) d2(1) d3(1) bind.bind_lunit)
  ultimately show ?thesis by blast
qed

subsection \<open>The check\<close>

lemma fold_and:
  "fold_opt (\<lambda>x ok. if \<not> ok then Some False else Some (P x)) xs ok = Some (ok \<and> (\<forall>x \<in> set xs. P x))"
  by (induction xs arbitrary: ok) auto

lemma fold_opt_eq: "(\<And>x s. x \<in> set xs \<Longrightarrow> f x s = g x s) \<Longrightarrow> fold_opt f xs s = fold_opt g xs s"
  by (induction xs arbitrary: s) (auto split: option.splits)

lemma ptr_32: "ddr_ready d \<Longrightarrow> unat off + 32 \<le> 0x3C0000 \<Longrightarrow> ddr_ptr off 32 d = Some (unat off)"
  using ddr_ready_facts(1,4)[of d] ddr_range_fits_value[OF ddr_ready_facts(2), of d off 32] by (simp add: ddr_ptr_def)

lemma verify_value:
  assumes ok: "group_ok R G" and d: "ddr_ready d"
  obtains a where "fpga_contract_verify_staged_q8_group snapshot act (int R) (int G) WEIGHT_BASE d
    = Some (a \<and> (\<forall>row < R. \<forall>gb < G. staged_block_matches (0x100000 + 16 * layout_index (G * 2) row (gb * 2)) (snapshot (row * G + gb)) d))"
proof -
  have G: "G \<le> 64" using ok by (simp add: group_ok_def)
  have "\<exists>p. ddr_ptr (ACT_BASE + of_nat gb * 32) 32 d = Some p" if "gb < G" for gb
  proof -
    have x: "gb * 2 < 128" using that G by linarith
    have e: "(of_nat (gb * 2) * 16 :: u32) = of_nat gb * 32" by simp
    have "unat (ACT_BASE + of_nat gb * 32 :: u32) + 32 \<le> 0x3C0000" using act_word[OF x] x unfolding e by simp
    then show ?thesis using ptr_32[OF d] by blast
  qed
  then have "\<exists>t. fold_opt (\<lambda>gb ok. if \<not> ok then Some False
      else do { p \<leftarrow> ddr_ptr (ACT_BASE + of_nat gb * 32) 32 d; Some (staged_block_matches p (act gb) d) }) [0..<G] True = Some t \<and> True"
    by (intro fold_opt_total) (auto split: option.splits, metis bind.bind_lunit)
  then obtain a where a: "fold_opt (\<lambda>gb ok. if \<not> ok then Some False
      else do { p \<leftarrow> ddr_ptr (ACT_BASE + of_nat gb * 32) 32 d; Some (staged_block_matches p (act gb) d) }) [0..<G] True = Some a" by blast
  let ?m = "\<lambda>row gb. staged_block_matches (0x100000 + 16 * layout_index (G * 2) row (gb * 2)) (snapshot (row * G + gb)) d"
  have row: "fold_opt (\<lambda>gb ok. if \<not> ok then Some False
         else case fpga_weight_layout_word_offset WEIGHT_BASE (int R) (int G * 2) (int row) (int gb * 2) of
           None \<Rightarrow> Some False
         | Some off \<Rightarrow> do { p \<leftarrow> ddr_ptr off 32 d; Some (staged_block_matches p (snapshot (row * G + gb)) d) }) [0..<G] ok
      = Some (ok \<and> (\<forall>gb \<in> set [0..<G]. ?m row gb))" if "row < R" for row ok
  proof -
    have step: "(case fpga_weight_layout_word_offset WEIGHT_BASE (int R) (int G * 2) (int row) (int gb * 2) of
           None \<Rightarrow> Some False
         | Some off \<Rightarrow> do { p \<leftarrow> ddr_ptr off 32 d; Some (staged_block_matches p (snapshot (row * G + gb)) d) }) = Some (?m row gb)" if "gb < G" for gb
    proof -
      have b: "gb * 2 < G * 2" and r: "row < padded_rows R" using that \<open>row < R\<close> less_le_trans[OF \<open>row < R\<close> padded_rows_bounds(1)] by simp_all
      obtain off where off: "fpga_weight_layout_word_offset WEIGHT_BASE (int R) (int G * 2) (int row) (int (gb * 2)) = Some off"
        "unat off = 0x100000 + 16 * layout_index (G * 2) row (gb * 2)" using offset[OF ok r b] by blast
      have "unat off + 32 \<le> 0x3C0000" using index_less[OF ok r b] off(2) by simp
      then show ?thesis using off ptr_32[OF d] by simp
    qed
    show ?thesis unfolding fold_and[symmetric] by (rule fold_opt_eq) (use step in simp)
  qed
  have "fold_opt (\<lambda>row. fold_opt (\<lambda>gb ok. if \<not> ok then Some False
         else case fpga_weight_layout_word_offset WEIGHT_BASE (int R) (int G * 2) (int row) (int gb * 2) of
           None \<Rightarrow> Some False
         | Some off \<Rightarrow> do { p \<leftarrow> ddr_ptr off 32 d; Some (staged_block_matches p (snapshot (row * G + gb)) d) }) [0..<G]) [0..<n] a
      = Some (a \<and> (\<forall>row < n. \<forall>gb < G. ?m row gb))" if "n \<le> R" for n
    using that by (induction n) (auto simp: fold_opt_append row less_Suc_eq)
  from this[of R] show ?thesis
    using that[of a] by (simp only: fpga_contract_verify_staged_q8_group_def nat_int a bind.bind_lunit order.refl)
qed

lemma commit_value:
  assumes "ddr_ready d" "0 < n" "n mod 4 = 0" "unat off mod 4 = 0" "unat off + n \<le> 0x3C0000"
  shows "fpga_ddr_staging_readback_commit off (of_nat n) d = Some ()"
proof -
  have un: "unat (of_nat n :: u64) = n" "unat (of_nat n :: u32) = n" using assms(5) by (auto intro!: small_words)
  have "of_nat n AND 3 = (0 :: u64)"
  proof -
    have "unat ((of_nat n :: u64) AND mask 2) = 0" using assms(3) un(1) by (simp only: unat_and_mask) simp
    then show ?thesis by (simp add: unat_eq_0 mask_eq_exp_minus_1)
  qed
  moreover have "off AND 3 = 0" using assms(4) by (intro low_bits_clear[where k = "unat off div 4"]) presburger
  moreover have "ddr_ptr off' 4 d = Some (unat off')" if "unat off' + 4 \<le> 0x3C0000" for off'
    using that assms(1) ddr_ready_facts(1,4)[of d] ddr_range_fits_value[OF ddr_ready_facts(2), of d off' 4] by (simp add: ddr_ptr_def)
  moreover have "unat off + 4 \<le> 0x3C0000" using assms(2,3,5) by presburger
  moreover have "unat (off + of_nat n - 4) + 4 \<le> 0x3C0000"
  proof -
    have s: "unat (off + of_nat n) = unat off + n" using assms(5) un by (subst unat_add_no_overflow) simp_all
    have "4 \<le> n" using assms(2,3) by presburger
    then have "unat (off + of_nat n - 4) = unat off + n - 4" using s by (subst unat_sub) (simp_all add: word_le_nat_alt)
    then show ?thesis using assms(5) \<open>4 \<le> n\<close> by simp
  qed
  moreover have "(ucast (of_nat n :: u64) :: u32) = of_nat n"
    using assms(5) by (simp only: word_unat_eq_iff unsigned_ucast_eq un) (simp add: take_bit_nat_eq_self)
  moreover have "(of_nat n :: u64) \<noteq> 0" using un(1) assms(2) by (metis unat_0 less_irrefl)
  ultimately show ?thesis by (simp add: fpga_ddr_staging_readback_commit_def)
qed

subsection \<open>Properties\<close>

lemma two_attempts:
  "stage_attempts snapshot act rows blocks write src ab wb guard 2 = stage_attempts snapshot act rows blocks write src ab wb guard (Suc (Suc 0))"
  by (simp only: numeral_2_eq_2)

lemma attempt_refused:
  assumes ok: "group_ok R G" and d: "ddr_ready d" and row: "row < R" "even row" and gb: "gb < G" and lane: "lane < 16"
    and differs: "snapshot (row * G + gb) (16 + lane) \<noteq> (if row + 1 < R then snapshot ((row + 1) * G + gb) lane else 0)"
  obtains d' where "fpga_stage_q8_group_payload snapshot act (int R) (int G) True WEIGHT_BASE d = Some d'"
    and "filled snapshot R G (layout_words R G) d'"
    and "fpga_ddr_staging_readback_commit ACT_BASE (of_nat (G * 32)) d' = Some ()"
    and "fpga_ddr_staging_readback_commit WEIGHT_BASE (of_nat (padded_rows R * (G * 2) * 16)) d' = Some ()"
    and "fpga_contract_verify_staged_q8_group snapshot act (int R) (int G) WEIGHT_BASE d' = Some False"
proof -
  obtain d' where p: "fpga_stage_q8_group_payload snapshot act (int R) (int G) True WEIGHT_BASE d = Some d'"
    "filled snapshot R G (layout_words R G) d'" using payload_fills[OF ok d] by blast
  have ready: "ddr_ready d'" using p(2) by (simp add: filled_def)
  have g: "0 < G" "G \<le> 64" "0 < R" using ok by (simp_all add: group_ok_def)
  have bytes: "padded_rows R * (G * 2) * 16 \<le> 524288" "0 < padded_rows R * (G * 2) * 16"
  proof -
    have "padded_rows R \<le> 256" "0 < padded_rows R" using ok by (auto simp: group_ok_def padded_rows_def)
    moreover from this have "padded_rows R * (G * 2) \<le> 256 * 128" using g by (intro mult_le_mono) simp_all
    ultimately show "padded_rows R * (G * 2) * 16 \<le> 524288" "0 < padded_rows R * (G * 2) * 16" using g by simp_all
  qed
  have four: "y * 32 mod 4 = 0" "y * 16 mod 4 = 0" for y :: nat by presburger+
  have c1: "fpga_ddr_staging_readback_commit ACT_BASE (of_nat (G * 32)) d' = Some ()"
    by (rule commit_value[OF ready _ four(1)]) (use g in simp_all)
  have c2: "fpga_ddr_staging_readback_commit WEIGHT_BASE (of_nat (padded_rows R * (G * 2) * 16)) d' = Some ()"
    by (rule commit_value[OF ready bytes(2) four(2)]) (use bytes(1) in simp_all)
  let ?i = "layout_index (G * 2) row (gb * 2)" and ?next = "layout_index (G * 2) (row + 1) (gb * 2)"
  have b: "gb * 2 < G * 2" using gb by simp
  have beside: "?next = ?i + 1" using row(2) by (auto simp: layout_index_def elim!: evenE)
  have "row + 1 < padded_rows R" using row unfolding padded_rows_def by presburger
  then have "?next \<in> layout_words R G" using b unfolding layout_words_def by blast
  then have "dm_bytes d' ! (0x100000 + 16 * ?next + lane) = payload_word snapshot R G ?next lane" using p(2) lane by (simp add: filled_def)
  also have "\<dots> = (if row + 1 < R then snapshot ((row + 1) * G + gb) lane else 0)" by (simp add: payload_word_at[OF b])
  finally have "dm_bytes d' ! (0x100000 + 16 * ?i + (16 + lane)) \<noteq> snapshot (row * G + gb) (16 + lane)"
    using differs unfolding beside by (simp add: add.assoc)
  then have "\<not> staged_block_matches (0x100000 + 16 * ?i) (snapshot (row * G + gb)) d'"
    using lane unfolding staged_block_matches_def list_all_iff by (auto intro!: bexI[of _ "16 + lane"])
  moreover obtain a where "fpga_contract_verify_staged_q8_group snapshot act (int R) (int G) WEIGHT_BASE d'
      = Some (a \<and> (\<forall>row < R. \<forall>gb < G. staged_block_matches (0x100000 + 16 * layout_index (G * 2) row (gb * 2)) (snapshot (row * G + gb)) d'))"
    using verify_value[OF ok ready] by blast
  ultimately have "fpga_contract_verify_staged_q8_group snapshot act (int R) (int G) WEIGHT_BASE d' = Some False" using row(1) gb by auto
  then show ?thesis using that[OF p c1 c2] by blast
qed

lemma restage_refused:
  assumes "group_ok R G" "ddr_ready d" "row < R" "even row" "gb < G" "lane < 16"
    and "snapshot (row * G + gb) (16 + lane) \<noteq> (if row + 1 < R then snapshot ((row + 1) * G + gb) lane else 0)"
  shows "\<exists>d'. fpga_contract_restage_after_act_dma snapshot act (int R) (int G) write WEIGHT_BASE (of_nat (G * 32))
      (of_nat (padded_rows R * (G * 2) * 16)) d = Some (False, d')"
proof -
  obtain d' where d': "fpga_stage_q8_group_payload snapshot act (int R) (int G) True WEIGHT_BASE d = Some d'"
    "fpga_ddr_staging_readback_commit ACT_BASE (of_nat (G * 32)) d' = Some ()"
    "fpga_ddr_staging_readback_commit WEIGHT_BASE (of_nat (padded_rows R * (G * 2) * 16)) d' = Some ()"
    "fpga_contract_verify_staged_q8_group snapshot act (int R) (int G) WEIGHT_BASE d' = Some False"
    using attempt_refused[where snapshot = snapshot and act = act, OF assms] by blast
  have "fpga_contract_restage_after_act_dma snapshot act (int R) (int G) write WEIGHT_BASE (of_nat (G * 32))
      (of_nat (padded_rows R * (G * 2) * 16)) d = Some (False, if write then d' else d)"
    by (cases "write") (simp_all only: fpga_contract_restage_after_act_dma_def d' if_True if_False bind.bind_lunit not_True_eq_False not_False_eq_True)
  then show ?thesis by blast
qed

text \<open>
  Property C39. The deep contract check refuses correctly staged tiles. The layout puts the two beats of a block 32
  bytes apart, with a beat of the other row of the pair between them, but the check compares a block with 32
  consecutive bytes. A tile is staged twice, exactly as the layout asks for, and refused, as soon as one block
  of an even row differs in its second half from the first half of the block of the next row (or from zero, when
  there is none); with the check off the same tile is accepted.
\<close>

theorem deep_guard_refuses_staged_tile:
  fixes snapshot act :: "nat \<Rightarrow> nat \<Rightarrow> u8"
  assumes "group_ok R G" "ddr_ready d" "row < R" "even row" "gb < G" "lane < 16"
    and "snapshot (row * G + gb) (16 + lane) \<noteq> (if row + 1 < R then snapshot ((row + 1) * G + gb) lane else 0)"
  defines "stage \<equiv> \<lambda>guard. fpga_stage_q8_group_with_contract_guard snapshot act (int R) (int G) True WEIGHT_BASE (of_nat (G * 32))
      (of_nat (padded_rows R * (G * 2) * 16)) guard d"
  shows "(\<exists>d'. stage True = Some (False, d') \<and> (\<forall>r < R. \<forall>b < G * 2. \<forall>c < 16.
      dm_bytes d' ! (0x100000 + 16 * layout_index (G * 2) r b + c) = snapshot (r * G + b div 2) (b mod 2 * 16 + c)))
    \<and> (\<exists>d'. stage False = Some (True, d'))"
proof -
  obtain d1 where d1: "fpga_stage_q8_group_payload snapshot act (int R) (int G) True WEIGHT_BASE d = Some d1"
    "filled snapshot R G (layout_words R G) d1"
    "fpga_ddr_staging_readback_commit ACT_BASE (of_nat (G * 32)) d1 = Some ()"
    "fpga_ddr_staging_readback_commit WEIGHT_BASE (of_nat (padded_rows R * (G * 2) * 16)) d1 = Some ()"
    "fpga_contract_verify_staged_q8_group snapshot act (int R) (int G) WEIGHT_BASE d1 = Some False"
    using attempt_refused[where snapshot = snapshot and act = act, OF assms(1-7)] .
  have ready: "ddr_ready d1" using d1(2) by (simp add: filled_def)
  obtain d2 where d2: "fpga_stage_q8_group_payload snapshot act (int R) (int G) True WEIGHT_BASE d1 = Some d2"
    "filled snapshot R G (layout_words R G) d2"
    "fpga_ddr_staging_readback_commit ACT_BASE (of_nat (G * 32)) d2 = Some ()"
    "fpga_ddr_staging_readback_commit WEIGHT_BASE (of_nat (padded_rows R * (G * 2) * 16)) d2 = Some ()"
    "fpga_contract_verify_staged_q8_group snapshot act (int R) (int G) WEIGHT_BASE d2 = Some False"
    using attempt_refused[where snapshot = snapshot and act = act, OF assms(1) ready assms(3-7)] .
  have on: "stage True = Some (False, d2)"
    unfolding stage_def fpga_stage_q8_group_with_contract_guard_def if_P[OF TrueI] two_attempts
    by (simp only: stage_attempts.simps d1(1,3-5) d2(1,3-5) bind.bind_lunit if_False not_True_eq_False)
  have off: "stage False = Some (True, d1)"
    unfolding stage_def fpga_stage_q8_group_with_contract_guard_def if_not_P[OF not_False_eq_True[THEN iffD2, OF TrueI]] One_nat_def
    by (simp only: stage_attempts.simps d1(1,3,4) bind.bind_lunit if_True not_False_eq_True)
  have "dm_bytes d2 ! (0x100000 + 16 * layout_index (G * 2) r b + c) = snapshot (r * G + b div 2) (b mod 2 * 16 + c)"
    if r: "r < R" "b < G * 2" "c < 16" for r b c
  proof -
    have "layout_index (G * 2) r b \<in> layout_words R G"
      using less_le_trans[OF r(1) padded_rows_bounds(1)] r(2) unfolding layout_words_def by blast
    then show ?thesis using d2(2) r by (simp add: filled_def payload_word_at)
  qed
  then show ?thesis using on off by blast
qed

definition blank_window :: ddr_map where
  "blank_window = \<lparr>dm_mapped = True, dm_base = 0x7f0000000000, dm_bytes = replicate 0x3C0000 0\<rparr>"

lemma deep_guard_refuses_staged_tile_witness:
  "\<exists>d'. fpga_stage_q8_group_with_contract_guard (\<lambda>_ _. 1) (\<lambda>_ _. 1) 1 1 True WEIGHT_BASE 32 64 True blank_window = Some (False, d')"
proof -
  have "length (replicate 0x3C0000 (0 :: u8)) = 0x3C0000" by (rule length_replicate)
  then have ready: "ddr_ready blank_window" by (simp only: ddr_ready_def blank_window_def ddr_map.simps) simp
  have "group_ok 1 1" by (simp add: group_ok_def)
  from deep_guard_refuses_staged_tile[OF this ready, of 0 0 0 "\<lambda>_ _. 1" "\<lambda>_ _. 1"] show ?thesis by (auto simp: padded_rows_def)
qed

end
