(* ===== verification/Hls_Product.thy ===== *)
theory Hls_Product
  imports Hls_Kernel
begin

text \<open>
  What the tiled product of the accelerator kernel computes: in exact arithmetic it is the reference of the
  test bench, \<open>A\<close> times the transposed dequantized weights, and which depths it cannot handle.
\<close>

subsection \<open>Exact arithmetic\<close>

definition exact_elem :: "real list \<Rightarrow> u16 list \<Rightarrow> int list \<Rightarrow> nat \<Rightarrow> nat \<Rightarrow> nat \<Rightarrow> real" where
  "exact_elem A B_d B_qs K m n =
    (\<Sum>k < K. A ! (m * K + k) * (real_of_int (B_qs ! (n * K + k)) * f32_value (f16_to_f32 (B_d ! (n * (K div 32) + k div 32)))))"

lemma fold_sum: "fold (\<lambda>k s. s + f k) [0..<n] z = z + (\<Sum>k < n. f k)" for f :: "nat \<Rightarrow> real"
  by (induction n) (simp_all add: add.assoc)

lemma matmul_elem_exact: "K = kt * 64 \<Longrightarrow> matmul_elem real_ops A B_d B_qs K m n kt = exact_elem A B_d B_qs K m n"
proof -
  assume K: "K = kt * 64"
  let ?g = "\<lambda>k. A ! (m * K + k) * (real_of_int (B_qs ! (n * K + k)) * f32_value (f16_to_f32 (B_d ! (n * (K div 32) + k div 32))))"
  have "block_dot real_ops A B_d B_qs K m n t = (\<Sum>tk < 64. ?g (t * 64 + tk))" for t
    unfolding block_dot_def f16_safe_def Let_def real_ops_simps fold_sum by simp
  also have "(\<Sum>tk < 64. ?g (t * 64 + tk)) = sum ?g {t * 64..<t * 64 + 64}" for t
    using sum.shift_bounds_nat_ivl[of ?g 0 "t * 64" 64] by (simp add: atLeast0LessThan add.commute)
  finally have b: "block_dot real_ops A B_d B_qs K m n t = sum ?g {t * 64..<t * 64 + 64}" for t .
  have "(\<Sum>t < kt. sum ?g {t * 64..<t * 64 + 64}) = sum ?g {..<kt * 64}" by (rule sum.nat_group)
  then show ?thesis unfolding matmul_elem_def real_ops_simps fold_sum b exact_elem_def using K by simp
qed

subsection \<open>The reference\<close>

lemma fold_opt_Some: "(\<And>i s. i < n \<Longrightarrow> f i s = Some (g i s)) \<Longrightarrow> fold_opt f [0..<n] s = Some (fold g [0..<n] s)"
  by (induction n) (simp_all add: fold_opt_append)

lemma product_at_unique:
  assumes "product_at v M N C0 UNIV C" and "product_at v M N C0 UNIV C'"
  shows "C = C'"
proof (rule nth_equalityI)
  show "length C = length C'" using assms by (simp add: product_at_def)
  fix i assume i: "i < length C"
  show "C ! i = C' ! i"
  proof (cases "i < M * N")
    case True
    then have "i div N < M" "i mod N < N" by (auto simp: less_mult_imp_div_less intro!: mod_less_divisor gr0I)
    moreover have "C ! (a * N + b) = C' ! (a * N + b)" if "a < M" "b < N" for a b using assms that by (simp add: product_at_def)
    ultimately have "C ! (i div N * N + i mod N) = C' ! (i div N * N + i mod N)" by blast
    then show ?thesis by (simp add: div_mult_mod_eq)
  next
    case False
    then show ?thesis using assms i by (simp add: product_at_def)
  qed
qed

lemma golden_elem:
  assumes "ports_fit M K N A B_d B_qs C" and "m < M" and "n < N" and "K mod 32 = 0"
  shows "fold_opt (\<lambda>k sum. do {
       scale \<leftarrow> elem_read B_d (int K div 32) (int n) (int (k div 32));
       a \<leftarrow> elem_read A (int K) (int m) (int k);
       q \<leftarrow> elem_read B_qs (int K) (int n) (int k);
       Some (fl_add real_ops sum (fl_mul real_ops (fl_mul real_ops a (fl_int real_ops q)) (f16_safe real_ops scale))) })
     [0..<K] (fl_zero real_ops) = Some (exact_elem A B_d B_qs K m n)"
proof -
  have p: "M * K \<le> 2147483647" "M * K \<le> length A" "N * K \<le> 2147483647" "N * K \<le> length B_qs" "N * (K div 32) \<le> length B_d"
    using assms(1) by (simp_all add: ports_fit_def)
  have "N * (K div 32) \<le> N * K" by simp
  then have p': "N * (K div 32) \<le> 2147483647" using p(3) by linarith
  let ?g = "\<lambda>k. A ! (m * K + k) * (real_of_int (B_qs ! (n * K + k)) * f32_value (f16_to_f32 (B_d ! (n * (K div 32) + k div 32))))"
  have step: "do {
       scale \<leftarrow> elem_read B_d (int K div 32) (int n) (int (k div 32));
       a \<leftarrow> elem_read A (int K) (int m) (int k);
       q \<leftarrow> elem_read B_qs (int K) (int n) (int k);
       Some (fl_add real_ops sum (fl_mul real_ops (fl_mul real_ops a (fl_int real_ops q)) (f16_safe real_ops scale))) }
     = Some (sum + ?g k)" if k: "k < K" for k sum
  proof -
    have "K = K div 32 * 32" using assms(4) div_mult_mod_eq[of K 32] by simp
    then have "k < K div 32 * 32" using k by linarith
    then have d: "k div 32 < K div 32" by (rule less_mult_imp_div_less)
    have "elem_read B_d (int K div 32) (int n) (int (k div 32)) = Some (B_d ! (n * (K div 32) + k div 32))"
      using elem_read_Some[OF assms(3) d p' p(5)] by (simp add: zdiv_int)
    moreover note elem_read_Some[OF assms(2) k p(1,2)] elem_read_Some[OF assms(3) k p(3,4)]
    ultimately show ?thesis by (simp add: f16_safe_def mult.assoc)
  qed
  have "exact_elem A B_d B_qs K m n = fold (\<lambda>k s. s + ?g k) [0..<K] (fl_zero real_ops)"
    unfolding fold_sum by (simp add: exact_elem_def)
  then show ?thesis by (simp only:) (rule fold_opt_Some, rule step)
qed

lemma golden_value:
  assumes fit: "ports_fit M K N A B_d B_qs C0" and K: "K mod 32 = 0"
  shows "\<exists>C'. matmul_cpu_golden real_ops A B_d B_qs (int M) (int K) (int N) C0 = Some C'
    \<and> product_at (exact_elem A B_d B_qs K) M N C0 UNIV C'"
proof -
  let ?v = "exact_elem A B_d B_qs K"
  have sz: "M * N \<le> length C0" "M * N \<le> 2147483647" using fit by (simp_all add: ports_fit_def)
  let ?cell = "\<lambda>m n C. do {
       sum \<leftarrow> fold_opt (\<lambda>k sum. do {
           scale \<leftarrow> elem_read B_d (int K div 32) (int n) (int (k div 32));
           a \<leftarrow> elem_read A (int K) (int m) (int k);
           q \<leftarrow> elem_read B_qs (int K) (int n) (int k);
           Some (fl_add real_ops sum (fl_mul real_ops (fl_mul real_ops a (fl_int real_ops q)) (f16_safe real_ops scale))) }) [0..<K] (fl_zero real_ops);
       i \<leftarrow> elem_index (int N) (int m) (int n);
       port_write C i sum }"
  have row: "\<exists>C'. fold_opt (?cell m) [0..<N] C = Some C' \<and> product_at ?v M N C0 {(a, b). a < Suc m \<and> b < N} C'"
    if m: "m < M" and C: "product_at ?v M N C0 {(a, b). a < m \<and> b < N} C" for m C
  proof -
    let ?W = "\<lambda>n. {(a, b). a < m \<and> b < N} \<union> {(m, b) | b. b < n}"
    have "\<exists>C'. fold_opt (?cell m) [0..<N] C = Some C' \<and> product_at ?v M N C0 (?W N) C'"
    proof (rule fold_opt_upt_total[where P = "\<lambda>n. product_at ?v M N C0 (?W n)"])
      have "?W 0 = {(a, b). a < m \<and> b < N}" by auto
      then show "product_at ?v M N C0 (?W 0) C" using C by metis
      fix n D assume n: "n < N" and D: "product_at ?v M N C0 (?W n) D"
      have w: "?W (Suc n) = insert (m, n) (?W n)" by (auto simp: less_Suc_eq)
      have "?cell m n D = Some (D[m * N + n := ?v m n])"
        unfolding golden_elem[OF fit m n K] elem_index_Some[OF m n sz(2)]
        using product_at_write[OF D m n sz(1)] by (simp add: port_write_def del: of_nat_add of_nat_mult)
      then show "\<exists>D'. ?cell m n D = Some D' \<and> product_at ?v M N C0 (?W (Suc n)) D'"
        using product_at_write[OF D m n sz(1)] unfolding w by simp
    qed simp
    moreover have e: "?W N = {(a, b). a < Suc m \<and> b < N}" by (auto simp: less_Suc_eq)
    ultimately show ?thesis unfolding e by blast
  qed
  have "\<exists>C'. fold_opt (\<lambda>m. fold_opt (?cell m) [0..<N]) [0..<M] C0 = Some C' \<and> product_at ?v M N C0 {(a, b). a < M \<and> b < N} C'"
    by (rule fold_opt_upt_total[where P = "\<lambda>m. product_at ?v M N C0 {(a, b). a < m \<and> b < N}"])
      (use row in \<open>auto simp: product_at_def\<close>)
  moreover have "product_at ?v M N C0 UNIV C'" if "product_at ?v M N C0 {(a, b). a < M \<and> b < N} C'" for C'
    using that by (auto simp: product_at_def)
  ultimately show ?thesis by (auto simp: matmul_cpu_golden_def)
qed

text \<open>
  Property C13. In exact arithmetic and for depths that are multiples of 64, the tiled kernel and the
  reference of the test bench compute the same memory, and every element is the sum over the depth of
  activation times quant times block scale: the tiling changes only the order of the additions.
\<close>

theorem hls_matmul_is_product:
  assumes "ports_fit M K N A B_d B_qs C" and "K mod TILE_K = 0"
  shows "hls_matmul real_ops A B_d B_qs (int M) (int K) (int N) C = matmul_cpu_golden real_ops A B_d B_qs (int M) (int K) (int N) C
    \<and> (\<exists>C'. hls_matmul real_ops A B_d B_qs (int M) (int K) (int N) C = Some C'
        \<and> (\<forall>m < M. \<forall>n < N. C' ! (m * N + n) = exact_elem A B_d B_qs K m n))"
proof -
  have kt: "K = K div 64 * 64" using assms(2) div_mult_mod_eq[of K 64] by simp
  have k32: "K mod 32 = 0" using assms(2) by presburger
  obtain C1 where c1: "hls_matmul real_ops A B_d B_qs (int M) (int K) (int N) C = Some C1" "product_at (\<lambda>m n. matmul_elem real_ops A B_d B_qs K m n (K div 64)) M N C UNIV C1"
    using tile_loops[OF assms(1) kt, of real_ops] by blast
  have e: "(\<lambda>m n. matmul_elem real_ops A B_d B_qs K m n (K div 64)) = exact_elem A B_d B_qs K" using matmul_elem_exact[OF kt] by blast
  obtain C2 where c2: "matmul_cpu_golden real_ops A B_d B_qs (int M) (int K) (int N) C = Some C2" "product_at (exact_elem A B_d B_qs K) M N C UNIV C2"
    using golden_value[OF assms(1) k32] by blast
  have "C1 = C2" using c1(2) c2(2) unfolding e by (rule product_at_unique)
  then show ?thesis using c1 c2 by (simp add: product_at_def)
qed

text \<open>One row of ones times one column of twos with scale 1, over a depth of 64.\<close>

lemma sample_fit: "ports_fit 1 64 1 (replicate 64 1) (replicate 2 0x3C00) (replicate 64 2) [x]"
  by (simp add: ports_fit_def)

lemma hls_matmul_is_product_witness:
  "\<exists>C'. hls_matmul real_ops (replicate 64 1) (replicate 2 0x3C00) (replicate 64 2) 1 64 1 [7] = Some C' \<and> C' ! 0 = 128"
proof -
  have one: "f32_value (f16_to_f32 0x3C00) = 1" using f16_normal_value[of "0x3C00"] half_fields by (simp add: f16_value_def)
  have "k < 64 \<Longrightarrow> replicate 2 (0x3C00 :: u16) ! (k div 32) = 0x3C00" for k :: nat by (rule nth_replicate) simp
  then have "exact_elem (replicate 64 1) (replicate 2 0x3C00) (replicate 64 2) 64 0 0 = (\<Sum>k < (64 :: nat). 2 :: real)"
    unfolding exact_elem_def by (intro sum.cong) (auto simp: one simp del: replicate.simps)
  moreover have "(64 :: nat) mod 64 = 0" by simp
  note conjunct2[OF hls_matmul_is_product[OF sample_fit[of 7] this]]
  ultimately show ?thesis by auto
qed

subsection \<open>Depths that end in the middle of a tile\<close>

text \<open>
  Property C16. For a depth that is a multiple of the 32 quants of a block but not of the 64 of a tile, the
  kernel reads one scale past the end of the last row: with a scale memory of exactly the rows' scales, no
  call with such a depth is defined. The guard of the quants, \<open>gk < K\<close>, is missing for the scales.
\<close>

theorem hls_matmul_reads_past_scales:
  assumes "0 < M" and "0 < N" and "K mod TILE_K = 32" and "length B_d = N * (K div HLS_QK8_0)"
    and "M + TILE_M \<le> 2147483648" and "K + TILE_K \<le> 2147483648" and "N + TILE_N \<le> 2147483648"
  shows "hls_matmul fl A B_d B_qs (int M) (int K) (int N) C = None"
proof -
  let ?t = "K div 64" and ?n = "(N - 1) div 64"
  have k: "K = ?t * 64 + 32" using assms(3) div_mult_mod_eq[of K 64] by simp
  have "(?t * 64 + 32) div 32 = ?t * 2 + 1" by simp
  then have kd: "K div 32 = ?t * 2 + 1" unfolding k[symmetric] .
  have bd: "load_Bd B_d (int K) (int N) (int (?n * 64)) (int (?t * 64)) = None"
  proof -
    let ?tn = "(N - 1) mod 64"
    have gn: "int (?n * 64) + int ?tn = int (N - 1)" by (metis div_mult_mod_eq of_nat_add)
    have blk: "int (?t * 64) div 32 + int 1 = int (K div 32)" using kd by simp
    have kdi: "int K div 32 = int (K div 32)" by (simp add: zdiv_int)
    have "int (N - 1) * int (K div 32) + int (K div 32) = int (N * (K div 32))"
      using assms(2) by (cases N) (simp_all add: algebra_simps)
    then have "elem_read B_d (int (K div 32)) (int (N - 1)) (int (K div 32)) = None"
      by (simp add: elem_read_def elem_index_def port_read_def read_at_def assms(4) del: of_nat_mult)
    then have r: "(let gn = int (?n * 64) + int ?tn; gkb = int (?t * 64) div 32 + int 1 in
        if gn < int N then elem_read B_d (int K div 32) gn gkb else Some 0) = None"
      unfolding gn blk kdi Let_def using assms(2) by simp
    have m: "?tn \<in> set [0..<64]" "1 \<in> set [0..<64 div 32 :: nat]" by simp_all
    show ?thesis unfolding load_Bd_def load_tile_def
      by (rule gather_None[OF m(1)], rule gather_None[OF m(2)], rule r)
  qed
  have step: "tile_step fl A B_d B_qs (int M) (int K) (int N) m0 (int (?n * 64)) (int (?t * 64)) T = None" for m0 T
    unfolding tile_step_def bd by (simp add: bind_eq_None_conv)
  have z: "(0 :: nat) < 64" "(0 :: nat) < 16" by simp_all
  have "?t \<in> set [0..<(K + (64 - 1)) div 64]" using k by simp
  then have sum: "for_tiles 64 (int K) (tile_step fl A B_d B_qs (int M) (int K) (int N) m0 (int (?n * 64))) 0 T = None" for m0 T
    unfolding tiles_fold[OF z(1) assms(6)] by (rule fold_opt_None) (rule step)
  have "N + (64 - 1) = (N - 1) + 64" using assms(2) by simp
  then have "?n < (N + (64 - 1)) div 64" by simp
  then have "?n \<in> set [0..<(N + (64 - 1)) div 64]" by simp
  then have row: "for_tiles 64 (int N) (\<lambda>n0 C. do {
     C_tile \<leftarrow> for_tiles 64 (int K) (tile_step fl A B_d B_qs (int M) (int K) (int N) m0 n0) 0 (zero_tile fl);
     store_C (int M) (int N) m0 n0 C_tile C }) 0 D = None" for m0 D
    unfolding tiles_fold[OF z(1) assms(7)] by (rule fold_opt_None) (simp only: sum Option.bind.bind_lzero)
  have "0 < (M + (16 - 1)) div 16" using assms(1) by (simp add: div_greater_zero_iff)
  then have "0 \<in> set [0..<(M + (16 - 1)) div 16]" by simp
  then show ?thesis
    unfolding hls_matmul_def tiles_fold[OF z(2) assms(5)] by (rule fold_opt_None) (rule row)
qed

lemma hls_matmul_reads_past_scales_witness:
  "hls_matmul real_ops (replicate 32 1) [0x3C00] (replicate 32 2) 1 32 1 [7] = None"
  using hls_matmul_reads_past_scales[of 1 1 32 "[0x3C00]" real_ops "replicate 32 1" "replicate 32 2" "[7]"] by simp

end
