(* ===== verification/Hls_Attention.thy ===== *)
theory Hls_Attention
  imports Hls_Kernel
begin

text \<open>
  The attention of the accelerator kernel (\<^verbatim>\<open>hls_accelerator/kernel_forward.cpp\<close>, the branch
  \<open>is_attn != 0\<close>): a call stores the keys and values of one position in on-chip memories that live across
  calls and attends over the stored positions. The contract is attention over the history of the calls.
\<close>

subsection \<open>The on-chip memories\<close>

abbreviation (input) MAX_LAYERS :: nat where "MAX_LAYERS \<equiv> 26"
abbreviation (input) MAX_CTX :: nat where "MAX_CTX \<equiv> 64"
abbreviation (input) MAX_HEAD_DIM :: nat where "MAX_HEAD_DIM \<equiv> 256"

text \<open>The static arrays, as functions of their indices; layer and position are clamped to the arrays.\<close>

record 'f hls_state =
  hs_k_cache :: "nat \<Rightarrow> nat \<Rightarrow> nat \<Rightarrow> int"
  hs_v_cache :: "nat \<Rightarrow> nat \<Rightarrow> nat \<Rightarrow> int"
  hs_k_scale :: "nat \<Rightarrow> nat \<Rightarrow> 'f"
  hs_v_scale :: "nat \<Rightarrow> nat \<Rightarrow> 'f"

definition hls_init :: "'f float_ops \<Rightarrow> 'f hls_state" where
  "hls_init fl = \<lparr>hs_k_cache = (\<lambda>_ _ _. 0), hs_v_cache = (\<lambda>_ _ _. 0), hs_k_scale = (\<lambda>_ _. fl_zero fl), hs_v_scale = (\<lambda>_ _. fl_zero fl)\<rparr>"

definition put3 :: "nat \<Rightarrow> nat \<Rightarrow> nat \<Rightarrow> 'a \<Rightarrow> (nat \<Rightarrow> nat \<Rightarrow> nat \<Rightarrow> 'a) \<Rightarrow> (nat \<Rightarrow> nat \<Rightarrow> nat \<Rightarrow> 'a)" where
  "put3 l p d x m = m(l := (m l)(p := (m l p)(d := x)))"

definition put2 :: "nat \<Rightarrow> nat \<Rightarrow> 'a \<Rightarrow> (nat \<Rightarrow> nat \<Rightarrow> 'a) \<Rightarrow> (nat \<Rightarrow> nat \<Rightarrow> 'a)" where
  "put2 l p x m = m(l := (m l)(p := x))"

text \<open>Indices past an array are moved to its last element; a negative one is not.\<close>

definition clamp :: "nat \<Rightarrow> int \<Rightarrow> int" where
  "clamp limit i = (if i < int limit then i else int (limit - 1))"

definition head_dim_of :: "int \<Rightarrow> int" where
  "head_dim_of K = (if K > int MAX_HEAD_DIM then int MAX_HEAD_DIM else K)"

subsection \<open>The phases of a call\<close>

definition load_qkv_step ::
    "'f list \<Rightarrow> int list \<Rightarrow> int \<Rightarrow> nat \<Rightarrow> nat \<Rightarrow> nat \<Rightarrow> 'f list \<times> 'f hls_state \<Rightarrow> ('f list \<times> 'f hls_state) option" where
  "load_qkv_step A B_qs head_dim lid p d = (\<lambda>(Q, st).
     if int d < head_dim then do {
       a \<leftarrow> port_read A (int d);
       k \<leftarrow> port_read B_qs (int d);
       v \<leftarrow> port_read B_qs (head_dim + int d);
       Some (Q @ [a], st\<lparr>hs_k_cache := put3 lid p d k (hs_k_cache st), hs_v_cache := put3 lid p d v (hs_v_cache st)\<rparr>) }
     else Some (Q, st))"

definition qk_sum :: "'f float_ops \<Rightarrow> 'f list \<Rightarrow> int \<Rightarrow> 'f hls_state \<Rightarrow> nat \<Rightarrow> nat \<Rightarrow> 'f" where
  "qk_sum fl Q head_dim st lid p = fold (\<lambda>d sum. if int d < head_dim
     then let kv = fl_mul fl (fl_int fl (hs_k_cache st lid p d)) (hs_k_scale st lid p) in fl_add fl sum (fl_mul fl (Q ! d) kv)
     else sum) [0..<MAX_HEAD_DIM] (fl_zero fl)"

text \<open>The soft cap, \<open>50.0f * tanhf(sum * 0.02f)\<close>.\<close>

definition soft_cap :: "'f float_ops \<Rightarrow> 'f \<Rightarrow> 'f" where
  "soft_cap fl x = fl_mul fl (fl_bits fl 0x42480000) (fl_tanh fl (fl_mul fl x (fl_bits fl 0x3CA3D70A)))"

definition calc_qk :: "'f float_ops \<Rightarrow> 'f list \<Rightarrow> int \<Rightarrow> 'f hls_state \<Rightarrow> nat \<Rightarrow> nat \<Rightarrow> 'f list \<times> 'f" where
  "calc_qk fl Q head_dim st lid safe_pos = fold (\<lambda>p (scores, max_score).
     let capped_sc = soft_cap fl (qk_sum fl Q head_dim st lid p) in
     (scores @ [capped_sc], if fl_gt fl capped_sc max_score then capped_sc else max_score)) [0..<safe_pos + 1] ([], fl_bits fl 0xE0AD78EC)"

definition softmax_exp :: "'f float_ops \<Rightarrow> 'f \<Rightarrow> 'f list \<Rightarrow> 'f list \<times> 'f" where
  "softmax_exp fl max_score scores = fold (\<lambda>s (es, sum_exp). let ex = fl_exp fl (fl_sub fl s max_score) in (es @ [ex], fl_add fl sum_exp ex))
     scores ([], fl_zero fl)"

definition softmax_norm :: "'f float_ops \<Rightarrow> 'f \<Rightarrow> 'f list \<Rightarrow> 'f list" where
  "softmax_norm fl sum_exp es = (let inv_sum = (if fl_gt fl sum_exp (fl_bits fl 0x1E3CE508) then fl_div fl (fl_bits fl 0x3F800000) sum_exp else fl_zero fl) in
     map (\<lambda>e. fl_mul fl e inv_sum) es)"

definition calc_sv_step :: "'f float_ops \<Rightarrow> 'f list \<Rightarrow> int \<Rightarrow> 'f hls_state \<Rightarrow> nat \<Rightarrow> nat \<Rightarrow> 'f list \<Rightarrow> 'f list" where
  "calc_sv_step fl scores head_dim st lid p temp_out = fold (\<lambda>d out. if int d < head_dim
     then let vv = fl_mul fl (fl_int fl (hs_v_cache st lid p d)) (hs_v_scale st lid p) in out[d := fl_add fl (out ! d) (fl_mul fl (scores ! p) vv)]
     else out) [0..<MAX_HEAD_DIM] temp_out"

definition write_c :: "'f list \<Rightarrow> int \<Rightarrow> 'f list \<Rightarrow> 'f list option" where
  "write_c temp_out head_dim = fold_opt (\<lambda>d C. if int d < head_dim then port_write C (int d) (temp_out ! d) else Some C) [0..<MAX_HEAD_DIM]"

definition hls_attention ::
    "'f float_ops \<Rightarrow> 'f list \<Rightarrow> u16 list \<Rightarrow> int list \<Rightarrow> int \<Rightarrow> int \<Rightarrow> int \<Rightarrow> 'f list \<times> 'f hls_state \<Rightarrow> ('f list \<times> 'f hls_state) option" where
  "hls_attention fl A B_d B_qs K layer_id pos = (\<lambda>(C, st).
    (let head_dim = head_dim_of K; safe_pos = clamp MAX_CTX pos; safe_lid = clamp MAX_LAYERS layer_id in
     require (0 \<le> safe_pos \<and> 0 \<le> safe_lid)
       (let p = nat safe_pos; l = nat safe_lid in do {
          k_s \<leftarrow> port_read B_d 0;
          v_s \<leftarrow> port_read B_d 1;
          let st = st\<lparr>hs_k_scale := put2 l p (f16_safe fl k_s) (hs_k_scale st), hs_v_scale := put2 l p (f16_safe fl v_s) (hs_v_scale st)\<rparr>;
          (Q, st) \<leftarrow> fold_opt (load_qkv_step A B_qs head_dim l p) [0..<MAX_HEAD_DIM] ([], st);
          let (scores, max_score) = calc_qk fl Q head_dim st l p;
          let (es, sum_exp) = softmax_exp fl max_score scores;
          let weights = softmax_norm fl sum_exp es;
          let temp_out = fold (calc_sv_step fl weights head_dim st l) [0..<p + 1] (replicate MAX_HEAD_DIM (fl_zero fl));
          C \<leftarrow> write_c temp_out head_dim C;
          Some (C, st) })))"

text \<open>The entry point: one kernel for both.\<close>

definition kernel_forward ::
    "'f float_ops \<Rightarrow> 'f list \<Rightarrow> u16 list \<Rightarrow> int list \<Rightarrow> int \<Rightarrow> int \<Rightarrow> int \<Rightarrow> int \<Rightarrow> int \<Rightarrow> int \<Rightarrow> 'f list \<times> 'f hls_state \<Rightarrow> ('f list \<times> 'f hls_state) option" where
  "kernel_forward fl A B_d B_qs M K N layer_id pos is_attn = (\<lambda>(C, st).
     if is_attn = 0 then do { C \<leftarrow> hls_matmul fl A B_d B_qs M K N C; Some (C, st) }
     else hls_attention fl A B_d B_qs K layer_id pos (C, st))"

subsection \<open>Attention over a history\<close>

text \<open>What one position leaves behind, and attention over a list of positions.\<close>

record 'f kv_entry =
  ke_k_scale :: 'f
  ke_v_scale :: 'f
  ke_k :: "int list"
  ke_v :: "int list"

definition entry_score :: "'f float_ops \<Rightarrow> nat \<Rightarrow> 'f list \<Rightarrow> 'f kv_entry \<Rightarrow> 'f" where
  "entry_score fl hdim Q e = soft_cap fl (fold (\<lambda>d sum. fl_add fl sum (fl_mul fl (Q ! d) (fl_mul fl (fl_int fl (ke_k e ! d)) (ke_k_scale e)))) [0..<hdim] (fl_zero fl))"

definition score_max :: "'f float_ops \<Rightarrow> 'f list \<Rightarrow> 'f" where
  "score_max fl scores = fold (\<lambda>c m. if fl_gt fl c m then c else m) scores (fl_bits fl 0xE0AD78EC)"

definition attention_weights :: "'f float_ops \<Rightarrow> nat \<Rightarrow> 'f list \<Rightarrow> 'f kv_entry list \<Rightarrow> 'f list" where
  "attention_weights fl hdim Q hist = (let scores = map (entry_score fl hdim Q) hist;
       es = map (\<lambda>s. fl_exp fl (fl_sub fl s (score_max fl scores))) scores in
     softmax_norm fl (fold (\<lambda>e sum. fl_add fl sum e) es (fl_zero fl)) es)"

definition attend :: "'f float_ops \<Rightarrow> nat \<Rightarrow> 'f list \<Rightarrow> 'f kv_entry list \<Rightarrow> 'f list" where
  "attend fl hdim Q hist = map (\<lambda>d. fold (\<lambda>(w, e) acc. fl_add fl acc (fl_mul fl w (fl_mul fl (fl_int fl (ke_v e ! d)) (ke_v_scale e))))
     (zip (attention_weights fl hdim Q hist) hist) (fl_zero fl)) [0..<hdim]"

text \<open>The abstraction: the first \<open>n\<close> positions the memories hold for a layer.\<close>

definition stored_entry :: "nat \<Rightarrow> 'f hls_state \<Rightarrow> nat \<Rightarrow> nat \<Rightarrow> 'f kv_entry" where
  "stored_entry hdim st l p = \<lparr>ke_k_scale = hs_k_scale st l p, ke_v_scale = hs_v_scale st l p,
     ke_k = map (hs_k_cache st l p) [0..<hdim], ke_v = map (hs_v_cache st l p) [0..<hdim]\<rparr>"

definition kv_history :: "nat \<Rightarrow> 'f hls_state \<Rightarrow> nat \<Rightarrow> nat \<Rightarrow> 'f kv_entry list" where
  "kv_history hdim st l n = map (stored_entry hdim st l) [0..<n]"

definition call_entry :: "'f float_ops \<Rightarrow> nat \<Rightarrow> u16 list \<Rightarrow> int list \<Rightarrow> 'f kv_entry" where
  "call_entry fl hdim B_d B_qs = \<lparr>ke_k_scale = f16_safe fl (B_d ! 0), ke_v_scale = f16_safe fl (B_d ! 1),
     ke_k = take hdim B_qs, ke_v = take hdim (drop hdim B_qs)\<rparr>"

subsection \<open>The phases compute it\<close>

lemma fold_guarded: "hdim \<le> n \<Longrightarrow> fold (\<lambda>d s. if int d < int hdim then f d s else s) [0..<n] s = fold f [0..<hdim] s"
proof -
  assume "hdim \<le> n"
  then have n: "[0..<n] = [0..<hdim] @ [hdim..<n]" by (metis le0 upt_add_eq_append le_add_diff_inverse)
  have "fold (\<lambda>d s. if int d < int hdim then f d s else s) [hdim..<n] s = s" for s
    by (rule fold_invariant[where Q = "\<lambda>d. hdim \<le> d" and P = "\<lambda>t. t = s"]) auto
  moreover have "fold (\<lambda>d s. if int d < int hdim then f d s else s) [0..<hdim] s = fold f [0..<hdim] s"
    by (intro fold_cong) auto
  ultimately show ?thesis by (simp add: n)
qed

lemma fold_opt_guarded: "hdim \<le> n \<Longrightarrow> fold_opt (\<lambda>d s. if int d < int hdim then f d s else Some s) [0..<n] s = fold_opt f [0..<hdim] s"
proof -
  assume "hdim \<le> n"
  then have n: "[0..<n] = [0..<hdim] @ [hdim..<n]" by (metis le0 upt_add_eq_append le_add_diff_inverse)
  have "fold_opt (\<lambda>d s. if int d < int hdim then f d s else Some s) xs s = Some s" if "\<forall>d \<in> set xs. hdim \<le> d" for xs s
    using that by (induction xs) auto
  moreover have "fold_opt (\<lambda>d s. if int d < int hdim then f d s else Some s) xs s = fold_opt f xs s" if "\<forall>d \<in> set xs. d < hdim" for xs s
    using that by (induction xs arbitrary: s) (auto split: option.splits)
  ultimately show ?thesis by (simp add: n fold_opt_append split: option.splits)
qed

lemma fold_snoc_pair: "fold (\<lambda>x (ys, m). (ys @ [g x], h (g x) m)) xs (ys, m) = (ys @ map g xs, fold h (map g xs) m)"
  by (induction xs arbitrary: ys m) auto

lemma load_qkv_value:
  assumes "hdim \<le> MAX_HEAD_DIM" and "hdim \<le> length A" and "2 * hdim \<le> length B_qs"
  shows "fold_opt (load_qkv_step A B_qs (int hdim) l p) [0..<MAX_HEAD_DIM] ([], st) = Some (take hdim A,
     st\<lparr>hs_k_cache := \<lambda>l' p' d. if l' = l \<and> p' = p \<and> d < hdim then B_qs ! d else hs_k_cache st l' p' d,
        hs_v_cache := \<lambda>l' p' d. if l' = l \<and> p' = p \<and> d < hdim then B_qs ! (hdim + d) else hs_v_cache st l' p' d\<rparr>)"
proof -
  let ?f = "\<lambda>d (Q, st). do {
       a \<leftarrow> port_read A (int d);
       k \<leftarrow> port_read B_qs (int d);
       v \<leftarrow> port_read B_qs (int hdim + int d);
       Some (Q @ [a], st\<lparr>hs_k_cache := put3 l p d k (hs_k_cache st), hs_v_cache := put3 l p d v (hs_v_cache st)\<rparr>) }"
  let ?st = "\<lambda>n. st\<lparr>hs_k_cache := \<lambda>l' p' d. if l' = l \<and> p' = p \<and> d < n then B_qs ! d else hs_k_cache st l' p' d,
        hs_v_cache := \<lambda>l' p' d. if l' = l \<and> p' = p \<and> d < n then B_qs ! (hdim + d) else hs_v_cache st l' p' d\<rparr>"
  have "load_qkv_step A B_qs (int hdim) l p = (\<lambda>d s. if int d < int hdim then ?f d s else Some s)"
    by (simp add: load_qkv_step_def fun_eq_iff)
  then have "fold_opt (load_qkv_step A B_qs (int hdim) l p) [0..<256] ([], st) = fold_opt ?f [0..<hdim] ([], st)"
    using fold_opt_guarded[OF assms(1), of ?f] by simp
  moreover have "fold_opt ?f [0..<n] ([], st) = Some (take n A, ?st n)" if "n \<le> hdim" for n
    using that
  proof (induction n)
    case 0
    then show ?case by simp
  next
    case (Suc n)
    then have "n < length A" "n < length B_qs" "hdim + n < length B_qs" using assms by simp_all
    then have "port_read A (int n) = Some (A ! n)" "port_read B_qs (int n) = Some (B_qs ! n)" "port_read B_qs (int hdim + int n) = Some (B_qs ! (hdim + n))"
      by (simp_all add: port_read_def nat_add_distrib)
    then have "?f n (take n A, ?st n) = Some (take (Suc n) A, ?st (Suc n))"
      using \<open>n < length A\<close> by (simp add: take_Suc_conv_app_nth put3_def fun_eq_iff)
    then show ?case using Suc by (simp add: fold_opt_append)
  qed
  ultimately show ?thesis by simp
qed

lemma qk_sum_value:
  "hdim \<le> MAX_HEAD_DIM \<Longrightarrow> soft_cap fl (qk_sum fl Q (int hdim) st l p) = entry_score fl hdim Q (stored_entry hdim st l p)"
  unfolding qk_sum_def entry_score_def Let_def
  by (subst fold_guarded) (auto simp: stored_entry_def intro!: arg_cong[where f = "soft_cap fl"] fold_cong)

lemma calc_qk_value:
  assumes "hdim \<le> MAX_HEAD_DIM"
  shows "calc_qk fl Q (int hdim) st l p = (map (entry_score fl hdim Q) (kv_history hdim st l (p + 1)),
    score_max fl (map (entry_score fl hdim Q) (kv_history hdim st l (p + 1))))"
proof -
  have m: "map (entry_score fl hdim Q) (kv_history hdim st l (p + 1)) = map (\<lambda>p. entry_score fl hdim Q (stored_entry hdim st l p)) [0..<p + 1]"
    by (simp add: kv_history_def)
  show ?thesis
    unfolding calc_qk_def Let_def qk_sum_value[OF assms] m score_max_def
    by (rule trans[OF fold_snoc_pair[where h = "\<lambda>c m. if fl_gt fl c m then c else m"]]) simp
qed

lemma softmax_value:
  "softmax_exp fl m scores = (let es = map (\<lambda>s. fl_exp fl (fl_sub fl s m)) scores in (es, fold (\<lambda>e sum. fl_add fl sum e) es (fl_zero fl)))"
  unfolding softmax_exp_def Let_def
  using fold_snoc_pair[of "\<lambda>s. fl_exp fl (fl_sub fl s m)" "\<lambda>e sum. fl_add fl sum e" scores "[]" "fl_zero fl"] by simp

lemma calc_sv_step_value:
  assumes "hdim \<le> MAX_HEAD_DIM" and "length out = MAX_HEAD_DIM"
  shows "length (calc_sv_step fl ws (int hdim) st l p out) = MAX_HEAD_DIM"
    "d < hdim \<Longrightarrow> calc_sv_step fl ws (int hdim) st l p out ! d
      = fl_add fl (out ! d) (fl_mul fl (ws ! p) (fl_mul fl (fl_int fl (hs_v_cache st l p d)) (hs_v_scale st l p)))"
proof -
  let ?v = "\<lambda>d. fl_mul fl (ws ! p) (fl_mul fl (fl_int fl (hs_v_cache st l p d)) (hs_v_scale st l p))"
  let ?f = "\<lambda>d out. out[d := fl_add fl (out ! d) (?v d)]"
  have g: "calc_sv_step fl ws (int hdim) st l p out = fold ?f [0..<hdim] out"
    unfolding calc_sv_step_def Let_def by (rule fold_guarded[OF assms(1)])
  have inv: "length (fold ?f [0..<n] out) = 256 \<and> (\<forall>d < n. fold ?f [0..<n] out ! d = fl_add fl (out ! d) (?v d))
      \<and> (\<forall>d \<ge> n. fold ?f [0..<n] out ! d = out ! d)" if "n \<le> 256" for n
    using that by (induction n) (auto simp: assms(2) nth_list_update less_Suc_eq)
  show "length (calc_sv_step fl ws (int hdim) st l p out) = 256" using inv[OF assms(1)] by (simp add: g)
  show "d < hdim \<Longrightarrow> calc_sv_step fl ws (int hdim) st l p out ! d = fl_add fl (out ! d) (?v d)" using inv[OF assms(1)] by (simp add: g)
qed

lemma calc_sv_value:
  assumes "hdim \<le> MAX_HEAD_DIM" and "length ws = n"
  shows "take hdim (fold (calc_sv_step fl ws (int hdim) st l) [0..<n] (replicate MAX_HEAD_DIM (fl_zero fl)))
    = map (\<lambda>d. fold (\<lambda>(w, e) acc. fl_add fl acc (fl_mul fl w (fl_mul fl (fl_int fl (ke_v e ! d)) (ke_v_scale e))))
        (zip ws (kv_history hdim st l n)) (fl_zero fl)) [0..<hdim]"
    and "length (fold (calc_sv_step fl ws (int hdim) st l) [0..<n] (replicate MAX_HEAD_DIM (fl_zero fl))) = MAX_HEAD_DIM"
proof -
  let ?out = "\<lambda>k. fold (calc_sv_step fl ws (int hdim) st l) [0..<k] (replicate 256 (fl_zero fl))"
  let ?g = "\<lambda>d (w, e) acc. fl_add fl acc (fl_mul fl w (fl_mul fl (fl_int fl (ke_v e ! d)) (ke_v_scale e)))"
  have inv: "length (?out k) = 256 \<and> (\<forall>d < hdim. ?out k ! d = fold (?g d) (zip (take k ws) (kv_history hdim st l k)) (fl_zero fl))" if "k \<le> n" for k
    using that
  proof (induction k)
    case 0
    then show ?case using assms(1) by simp
  next
    case (Suc k)
    then have IH: "length (?out k) = 256" "\<forall>d < hdim. ?out k ! d = fold (?g d) (zip (take k ws) (kv_history hdim st l k)) (fl_zero fl)" by simp_all
    have z: "zip (take (Suc k) ws) (kv_history hdim st l (Suc k)) = zip (take k ws) (kv_history hdim st l k) @ [(ws ! k, stored_entry hdim st l k)]"
      using Suc.prems assms(2) by (simp add: take_Suc_conv_app_nth kv_history_def)
    show ?case unfolding z
      using IH calc_sv_step_value[OF assms(1) IH(1), where fl = fl and ws = ws and st = st and l = l and p = k] by (simp add: stored_entry_def)
  qed
  show "length (?out n) = 256" using inv by simp
  show "take hdim (?out n) = map (\<lambda>d. fold (?g d) (zip ws (kv_history hdim st l n)) (fl_zero fl)) [0..<hdim]"
    using inv[of n] assms by (intro nth_equalityI) (simp_all del: upt_Suc)
qed

lemma write_c_value:
  assumes "hdim \<le> MAX_HEAD_DIM" and "length out = MAX_HEAD_DIM" and "hdim \<le> length C"
  shows "write_c out (int hdim) C = Some (take hdim out @ drop hdim C)"
proof -
  have "write_c out (int hdim) C = fold_opt (\<lambda>d C. port_write C (int d) (out ! d)) [0..<hdim] C"
    unfolding write_c_def by (rule fold_opt_guarded[OF assms(1)])
  moreover have "fold_opt (\<lambda>d C. port_write C (int d) (out ! d)) [0..<n] C = Some (take n out @ drop n C)" if "n \<le> hdim" for n
    using that
  proof (induction n)
    case 0
    then show ?case by simp
  next
    case (Suc n)
    have "(take n out @ drop n C)[n := out ! n] = take (Suc n) out @ drop (Suc n) C"
      using Suc.prems assms by (intro nth_equalityI) (auto simp: nth_append nth_list_update)
    then show ?case using Suc assms by (simp add: fold_opt_append port_write_def)
  qed
  ultimately show ?thesis by simp
qed

subsection \<open>One call\<close>

record 'f attn_call =
  ac_layer :: nat
  ac_pos :: nat
  ac_A :: "'f list"
  ac_B_d :: "u16 list"
  ac_B_qs :: "int list"

definition run_call :: "'f float_ops \<Rightarrow> int \<Rightarrow> 'f attn_call \<Rightarrow> 'f list \<times> 'f hls_state \<Rightarrow> ('f list \<times> 'f hls_state) option" where
  "run_call fl K c = kernel_forward fl (ac_A c) (ac_B_d c) (ac_B_qs c) 1 K 1 (int (ac_layer c)) (int (ac_pos c)) 1"

definition entry_of :: "'f float_ops \<Rightarrow> nat \<Rightarrow> 'f attn_call \<Rightarrow> 'f kv_entry" where
  "entry_of fl hdim c = call_entry fl hdim (ac_B_d c) (ac_B_qs c)"

text \<open>The operands of a call: one head of \<open>K\<close> query elements, and as many keys and values.\<close>

definition call_fits :: "nat \<Rightarrow> 'f attn_call \<Rightarrow> bool" where
  "call_fits K c \<longleftrightarrow> ac_layer c < MAX_LAYERS \<and> K \<le> length (ac_A c) \<and> 2 \<le> length (ac_B_d c) \<and> 2 * K \<le> length (ac_B_qs c)"

abbreviation (input) slot_of :: "nat \<Rightarrow> nat" where "slot_of p \<equiv> min p (MAX_CTX - 1)"

lemma call_step:
  fixes fl :: "'f float_ops" and st :: "'f hls_state"
  assumes "call_fits K c" and "K \<le> MAX_HEAD_DIM" and "K \<le> length C"
  defines "hist \<equiv> kv_history K st (ac_layer c) (slot_of (ac_pos c)) @ [entry_of fl K c]"
  shows "\<exists>st'. run_call fl (int K) c (C, st) = Some (attend fl K (take K (ac_A c)) hist @ drop K C, st')
    \<and> kv_history K st' (ac_layer c) (slot_of (ac_pos c) + 1) = hist
    \<and> (\<forall>l n. l \<noteq> ac_layer c \<longrightarrow> kv_history K st' l n = kv_history K st l n)"
proof -
  obtain p where p: "p = min (ac_pos c) 63" by blast
  have hist: "hist = kv_history K st (ac_layer c) p @ [entry_of fl K c]" by (simp add: hist_def p)
  let ?l = "ac_layer c" and ?A = "ac_A c" and ?Bd = "ac_B_d c" and ?Bq = "ac_B_qs c"
  have f: "?l < 26" "K \<le> length ?A" "2 \<le> length ?Bd" "2 * K \<le> length ?Bq" using assms(1) by (simp_all add: call_fits_def)
  have cl: "clamp 64 (int (ac_pos c)) = int p" "clamp 26 (int ?l) = int ?l" "head_dim_of (int K) = int K"
    using f(1) assms(2) by (auto simp: clamp_def head_dim_of_def p)
  let ?st1 = "st\<lparr>hs_k_scale := put2 ?l p (f16_safe fl (?Bd ! 0)) (hs_k_scale st), hs_v_scale := put2 ?l p (f16_safe fl (?Bd ! 1)) (hs_v_scale st)\<rparr>"
  obtain st2 where st2: "st2 = ?st1\<lparr>hs_k_cache := \<lambda>l' p' d. if l' = ?l \<and> p' = p \<and> d < K then ?Bq ! d else hs_k_cache ?st1 l' p' d,
        hs_v_cache := \<lambda>l' p' d. if l' = ?l \<and> p' = p \<and> d < K then ?Bq ! (K + d) else hs_v_cache ?st1 l' p' d\<rparr>" by blast
  have hd: "port_read ?Bd 0 = Some (?Bd ! 0)" "port_read ?Bd 1 = Some (?Bd ! 1)" using f(3) by (auto simp: port_read_def read_at_def)
  have new: "stored_entry K st2 ?l p = entry_of fl K c"
    using f(4) by (auto simp: st2 stored_entry_def entry_of_def call_entry_def put2_def intro!: nth_equalityI)
  have old: "stored_entry K st2 l q = stored_entry K st l q" if "l \<noteq> ?l \<or> q \<noteq> p" for l q
    using that by (auto simp: st2 stored_entry_def put2_def)
  have h: "kv_history K st2 ?l (p + 1) = hist"
    using new old by (simp add: kv_history_def hist)
  let ?ws = "attention_weights fl K (take K ?A) hist"
  let ?out = "fold (calc_sv_step fl ?ws (int K) st2 ?l) [0..<p + 1] (replicate 256 (fl_zero fl))"
  have lw: "length ?ws = p + 1" by (simp add: attention_weights_def Let_def softmax_norm_def hist kv_history_def)
  note sv = calc_sv_value[OF assms(2) lw, of fl st2 ?l, unfolded h]
  have out: "write_c ?out (int K) C = Some (attend fl K (take K ?A) hist @ drop K C)"
    using write_c_value[OF assms(2) sv(2) assms(3)] unfolding sv(1) by (simp add: attend_def)
  have "run_call fl (int K) c (C, st) = Some (attend fl K (take K ?A) hist @ drop K C, st2)"
    using out unfolding run_call_def kernel_forward_def hls_attention_def prod.case cl Let_def nat_int hd
      Option.bind.bind_lunit load_qkv_value[OF assms(2) f(2,4)] st2[symmetric] calc_qk_value[OF assms(2)] h softmax_value
    by (simp add: attention_weights_def Let_def)
  moreover have "kv_history K st2 l n = kv_history K st l n" if "l \<noteq> ?l" for l n
    using old that by (simp add: kv_history_def)
  ultimately show ?thesis using h by (auto simp: p)
qed

subsection \<open>A run\<close>

abbreviation calls_of :: "nat \<Rightarrow> 'f attn_call list \<Rightarrow> 'f attn_call list" where
  "calls_of l cs \<equiv> filter (\<lambda>c. ac_layer c = l) cs"

text \<open>The calls of a layer come for the positions 0, 1, 2 and so on.\<close>

definition in_order :: "nat \<Rightarrow> 'f attn_call list \<Rightarrow> bool" where
  "in_order l cs \<longleftrightarrow> map ac_pos (calls_of l cs) = [0..<length (calls_of l cs)]"

lemma in_order_snoc:
  "in_order l (cs @ [c]) \<Longrightarrow> in_order l cs \<and> (ac_layer c = l \<longrightarrow> ac_pos c = length (calls_of l cs))"
  by (auto simp: in_order_def split: if_splits)

lemma run_history:
  assumes "\<forall>c \<in> set cs. call_fits K c" and "in_order l cs" and "K \<le> MAX_HEAD_DIM" and "K \<le> length C"
  shows "\<exists>C1 st1. fold_opt (run_call fl (int K)) cs (C, st) = Some (C1, st1) \<and> length C1 = length C
    \<and> kv_history K st1 l (slot_of (length (calls_of l cs))) = take (MAX_CTX - 1) (map (entry_of fl K) (calls_of l cs))"
  using assms(1,2)
proof (induction cs rule: rev_induct)
  case Nil
  then show ?case by (simp add: kv_history_def)
next
  case (snoc c cs)
  let ?es = "map (entry_of fl K) (calls_of l cs)"
  obtain C1 st1 where r: "fold_opt (run_call fl (int K)) cs (C, st) = Some (C1, st1)" "length C1 = length C"
    "kv_history K st1 l (min (length (calls_of l cs)) 63) = take 63 ?es"
    using snoc in_order_snoc[OF snoc.prems(2)] by auto
  obtain out st2 where s: "run_call fl (int K) c (C1, st1) = Some (out @ drop K C1, st2)" "length out = K"
    "kv_history K st2 (ac_layer c) (min (ac_pos c) 63 + 1) = kv_history K st1 (ac_layer c) (min (ac_pos c) 63) @ [entry_of fl K c]"
    "\<forall>l n. l \<noteq> ac_layer c \<longrightarrow> kv_history K st2 l n = kv_history K st1 l n"
    using call_step[of K c C1 fl st1] snoc.prems(1) assms(3,4) r(2) by (auto simp: attend_def)
  have run: "fold_opt (run_call fl (int K)) (cs @ [c]) (C, st) = Some (out @ drop K C1, st2)" using r(1) s(1) by (simp add: fold_opt_append)
  have "kv_history K st2 l (min (length (calls_of l (cs @ [c]))) 63) = take 63 (map (entry_of fl K) (calls_of l (cs @ [c])))"
  proof (cases "ac_layer c = l")
    case False
    then show ?thesis using s(4) r(3) by simp
  next
    case True
    let ?n = "length (calls_of l cs)"
    have h: "kv_history K st2 l (min ?n 63 + 1) = take 63 ?es @ [entry_of fl K c]"
      using s(3) r(3) in_order_snoc[OF snoc.prems(2)] True by simp
    have "take (min ?n 63) (calls_of l cs) = take 63 (calls_of l cs)" by (simp add: min_def)
    then have pre: "kv_history K st2 l (min ?n 63) = take 63 ?es"
      using arg_cong[OF h, of "take (min ?n 63)"] by (simp add: kv_history_def take_map)
    show ?thesis
    proof (cases "?n < 63")
      case True
      then show ?thesis using h \<open>ac_layer c = l\<close> by simp
    next
      case False
      then show ?thesis using pre \<open>ac_layer c = l\<close> by simp
    qed
  qed
  then show ?case using run s(2) r(2) assms(4) by auto
qed

lemma attention_history:
  assumes "\<forall>c \<in> set (cs @ [c]). call_fits K c" and "in_order (ac_layer c) (cs @ [c])" and "K \<le> MAX_HEAD_DIM" and "K \<le> length C"
  shows "\<exists>C1 st1 C2 st2. fold_opt (run_call fl (int K)) cs (C, hls_init fl) = Some (C1, st1)
    \<and> run_call fl (int K) c (C1, st1) = Some (C2, st2)
    \<and> take K C2 = attend fl K (take K (ac_A c)) (take (MAX_CTX - 1) (map (entry_of fl K) (calls_of (ac_layer c) cs)) @ [entry_of fl K c])
    \<and> drop K C2 = drop K C1"
proof -
  have o: "in_order (ac_layer c) cs" "ac_pos c = length (calls_of (ac_layer c) cs)" using in_order_snoc[OF assms(2)] by simp_all
  obtain C1 st1 where r: "fold_opt (run_call fl (int K)) cs (C, hls_init fl) = Some (C1, st1)" "length C1 = length C"
    "kv_history K st1 (ac_layer c) (min (ac_pos c) 63) = take 63 (map (entry_of fl K) (calls_of (ac_layer c) cs))"
    using run_history[of cs K "ac_layer c" C fl "hls_init fl"] assms o by auto
  have "length (attend fl K q h) = K" for q h by (simp add: attend_def)
  then show ?thesis using call_step[of K c C1 fl st1] assms r by auto
qed

text \<open>
  Property C14. A run of attention calls in which the calls of a layer come in the order of their positions
  refines attention over a list: whatever other layers did in between, a call writes the attention of its
  query over the entries of all earlier calls of its layer and its own, as long as they are at most 64. From
  then on only the first 63 and its own are attended: every call from position 63 on replaces slot 63.
\<close>

theorem attention_refines_history:
  assumes "\<forall>c \<in> set (cs @ [c]). call_fits K c" and "in_order (ac_layer c) (cs @ [c])" and "K \<le> MAX_HEAD_DIM" and "K \<le> length C"
  shows "\<exists>C1 st1 C2 st2. fold_opt (run_call fl (int K)) cs (C, hls_init fl) = Some (C1, st1)
    \<and> run_call fl (int K) c (C1, st1) = Some (C2, st2)
    \<and> take K C2 = attend fl K (take K (ac_A c)) (take (MAX_CTX - 1) (map (entry_of fl K) (calls_of (ac_layer c) cs)) @ [entry_of fl K c])
    \<and> drop K C2 = drop K C1"
  by (rule attention_history[OF assms])

text \<open>The second call of a layer, after one of the same and one of another layer.\<close>

definition sample_call :: "nat \<Rightarrow> nat \<Rightarrow> int \<Rightarrow> real attn_call" where
  "sample_call l p x = \<lparr>ac_layer = l, ac_pos = p, ac_A = [1], ac_B_d = [0x3C00, 0x3C00], ac_B_qs = [x, x + 1]\<rparr>"

lemma attention_refines_history_witness:
  "\<exists>C1 st1 C2 st2. fold_opt (run_call real_ops 1) [sample_call 3 0 5, sample_call 4 0 6] ([0], hls_init real_ops) = Some (C1, st1)
    \<and> run_call real_ops 1 (sample_call 3 1 7) (C1, st1) = Some (C2, st2)
    \<and> take 1 C2 = attend real_ops 1 [1] [entry_of real_ops 1 (sample_call 3 0 5), entry_of real_ops 1 (sample_call 3 1 7)]"
proof -
  let ?cs = "[sample_call 3 0 5, sample_call 4 0 6]" and ?c = "sample_call 3 1 7"
  have "\<forall>c \<in> set (?cs @ [?c]). call_fits 1 c" "in_order (ac_layer ?c) (?cs @ [?c])" "1 \<le> (256 :: nat)" "1 \<le> length [0 :: real]"
    by (simp_all add: call_fits_def in_order_def sample_call_def)
  note r = attention_refines_history[OF this, of real_ops]
  have e: "take (MAX_CTX - 1) (map (entry_of real_ops 1) (calls_of (ac_layer ?c) ?cs)) @ [entry_of real_ops 1 ?c]
      = [entry_of real_ops 1 (sample_call 3 0 5), entry_of real_ops 1 ?c]" "take 1 (ac_A ?c) = [1]" "int 1 = 1"
    by (simp_all add: sample_call_def)
  show ?thesis using r unfolding e by blast
qed

end
