(* ===== verification/Hls_Softmax.thy ===== *)
theory Hls_Softmax
  imports Hls_Attention
begin

text \<open>
  The attention of the accelerator kernel in exact arithmetic: the weights are the softmax of the capped
  scores, so that the guards of the code against overflow and division by zero never change them.
\<close>

subsection \<open>Constants\<close>

lemma f32_constants:
  "f32_value 0x42480000 = 50" "f32_value 0x3F800000 = 1" "f32_value 0x1E3CE508 < 1" "f32_value 0xE0AD78EC < - 50"
proof -
  have c: "(2 :: real) powi 5 = 32" by (simp add: power_int_def)
  show "f32_value 0x42480000 = 50" "f32_value 0x3F800000 = 1"
    by (simp_all add: f32_value_def f32_sign_def f32_exp_def f32_man_def c)
  show "f32_value 0x1E3CE508 < 1"
    by (simp add: f32_value_def f32_sign_def f32_exp_def f32_man_def power_int_def power_one_over)
  show "f32_value 0xE0AD78EC < - 50"
    by (simp add: f32_value_def f32_sign_def f32_exp_def f32_man_def power_int_def)
qed

subsection \<open>The maximum\<close>

lemma score_max_fold:
  "fold (\<lambda>c m. if c > m then c else m) xs m = Max (insert m (set xs))" for m :: real
proof (induction xs arbitrary: m)
  case (Cons x xs)
  have "fold (\<lambda>c m. if c > m then c else m) (x # xs) m = fold (\<lambda>c m. if c > m then c else m) xs (max m x)"
    by (simp add: max_def)
  also have "\<dots> = Max (insert (max m x) (set xs))" by (rule Cons)
  also have "\<dots> = Max (insert m (set (x # xs)))" by (cases "set xs = {}") (simp_all add: max.assoc)
  finally show ?case .
qed simp

lemma soft_cap_bounds: "- 50 < soft_cap real_ops x" "soft_cap real_ops x < 50"
  using tanh_real_bounds[of "x * f32_value 0x3CA3D70A"] by (simp_all add: soft_cap_def f32_constants(1))

lemma score_max_value:
  assumes "scores \<noteq> []" and "\<forall>s \<in> set scores. - 50 < s"
  shows "score_max real_ops scores = Max (set scores)"
proof -
  have "score_max real_ops scores = Max (insert (f32_value 0xE0AD78EC) (set scores))"
    by (simp add: score_max_def score_max_fold)
  also have "\<dots> = max (f32_value 0xE0AD78EC) (Max (set scores))" using assms(1) by simp
  also have "\<dots> = Max (set scores)"
    using assms f32_constants(4) Max_in[of "set scores"] by fastforce
  finally show ?thesis .
qed

subsection \<open>The weights\<close>

definition softmax_weight :: "nat \<Rightarrow> real list \<Rightarrow> real kv_entry list \<Rightarrow> real kv_entry \<Rightarrow> real" where
  "softmax_weight hdim Q hist e = exp (entry_score real_ops hdim Q e) / (\<Sum>e' \<leftarrow> hist. exp (entry_score real_ops hdim Q e'))"

lemma fold_plus_sum_list: "fold (\<lambda>e s. s + f e) es z = z + (\<Sum>e \<leftarrow> es. f e)" for f :: "'a \<Rightarrow> real"
  by (induction es arbitrary: z) (simp_all add: add.assoc)

lemma sum_list_divide: "(\<Sum>e \<leftarrow> es. f e / c) = (\<Sum>e \<leftarrow> es. f e) / c" for c :: real
  by (induction es) (simp_all add: add_divide_distrib)

lemma exp_le_sum_list: "x \<in> set es \<Longrightarrow> exp (f x) \<le> (\<Sum>e \<leftarrow> es. exp (f e))" for f :: "'a \<Rightarrow> real"
proof (induction es)
  case (Cons e es)
  have "0 \<le> (\<Sum>e \<leftarrow> es. exp (f e))" by (intro sum_list_nonneg) auto
  then show ?case using Cons by (cases "x = e") (auto intro: add_increasing)
qed simp

lemma attention_weights_value:
  assumes "hist \<noteq> []"
  shows "attention_weights real_ops hdim Q hist = map (softmax_weight hdim Q hist) hist"
proof -
  let ?sc = "entry_score real_ops hdim Q"
  let ?m = "score_max real_ops (map ?sc hist)"
  have m: "?m = Max (set (map ?sc hist))"
    using assms soft_cap_bounds by (intro score_max_value) (auto simp: entry_score_def)
  let ?Z = "\<Sum>e \<leftarrow> hist. exp (?sc e)"
  have e: "exp (?sc e - ?m) = exp (?sc e) / exp ?m" for e by (rule exp_diff)
  have s: "(\<Sum>e \<leftarrow> hist. exp (?sc e - ?m)) = ?Z / exp ?m" unfolding e by (rule sum_list_divide)
  have "?m \<in> ?sc ` set hist" using assms Max_in[of "?sc ` set hist"] by (simp add: m)
  then obtain x where x: "x \<in> set hist" "?sc x = ?m" by (metis imageE)
  have "exp ?m \<le> ?Z" using exp_le_sum_list[OF x(1), of ?sc] x(2) by simp
  then have "1 \<le> ?Z / exp ?m" by simp
  then have g: "f32_value 0x1E3CE508 < ?Z / exp ?m" using f32_constants(3) by linarith
  have t: "fold (\<lambda>e s. s + e) (map (\<lambda>s. exp (s - ?m)) (map ?sc hist)) 0 = ?Z / exp ?m"
    using fold_plus_sum_list[of "\<lambda>e. e" "map (\<lambda>s. exp (s - ?m)) (map ?sc hist)" 0] s by (simp add: comp_def)
  show ?thesis
    unfolding attention_weights_def softmax_norm_def Let_def real_ops_simps f32_value_0 t
    using g by (simp add: f32_constants(2) e softmax_weight_def)
qed

lemma softmax_weights_sum: "hist \<noteq> [] \<Longrightarrow> (\<Sum>e \<leftarrow> hist. softmax_weight hdim Q hist e) = 1"
proof -
  assume h: "hist \<noteq> []"
  let ?Z = "\<Sum>e \<leftarrow> hist. exp (entry_score real_ops hdim Q e)"
  obtain x where "x \<in> set hist" using h by (cases hist) auto
  then have "exp (entry_score real_ops hdim Q x) \<le> ?Z" by (rule exp_le_sum_list)
  then have "0 < ?Z" using exp_gt_zero[of "entry_score real_ops hdim Q x"] by linarith
  then show ?thesis by (simp add: softmax_weight_def sum_list_divide)
qed

lemma attend_softmax:
  assumes "hist \<noteq> []"
  shows "attend real_ops hdim Q hist
    = map (\<lambda>d. \<Sum>e \<leftarrow> hist. softmax_weight hdim Q hist e * (real_of_int (ke_v e ! d) * ke_v_scale e)) [0..<hdim]"
proof -
  have z: "zip (map w hist) hist = map (\<lambda>e. (w e, e)) hist" for w :: "real kv_entry \<Rightarrow> real"
    by (induction hist) simp_all
  show ?thesis
    unfolding attend_def attention_weights_value[OF assms] z fold_map
    by (simp add: comp_def fold_plus_sum_list)
qed

lemma softmax_weight_pos: "e \<in> set hist \<Longrightarrow> 0 < softmax_weight hdim Q hist e"
proof -
  assume "e \<in> set hist"
  then have "exp (entry_score real_ops hdim Q e) \<le> (\<Sum>e' \<leftarrow> hist. exp (entry_score real_ops hdim Q e'))"
    by (rule exp_le_sum_list)
  then have "0 < (\<Sum>e' \<leftarrow> hist. exp (entry_score real_ops hdim Q e'))" using exp_gt_zero[of "entry_score real_ops hdim Q e"] by linarith
  then show ?thesis by (simp add: softmax_weight_def)
qed

subsection \<open>The kernel\<close>

text \<open>
  The score of the position stored by call \<open>c\<close> for a query, and its softmax weight among the calls \<open>cs\<close>, as
  formulas over the operands of the calls.
\<close>

definition call_score :: "nat \<Rightarrow> real list \<Rightarrow> real attn_call \<Rightarrow> real" where
  "call_score K q c = 50 * tanh ((\<Sum>d < K. q ! d * (real_of_int (ac_B_qs c ! d) * f32_value (f16_to_f32 (ac_B_d c ! 0)))) * f32_value 0x3CA3D70A)"

definition call_weight :: "nat \<Rightarrow> real list \<Rightarrow> real attn_call list \<Rightarrow> real attn_call \<Rightarrow> real" where
  "call_weight K q cs c = exp (call_score K q c) / (\<Sum>c' \<leftarrow> cs. exp (call_score K q c'))"

lemma call_score_entry:
  assumes "call_fits K c"
  shows "entry_score real_ops K (take K q) (entry_of real_ops K c) = call_score K q c"
proof -
  have "fold (\<lambda>d s. s + take K q ! d * (real_of_int (take K (ac_B_qs c) ! d) * f32_value (f16_to_f32 (ac_B_d c ! 0)))) [0..<K] 0
      = (\<Sum>d \<leftarrow> [0..<K]. take K q ! d * (real_of_int (take K (ac_B_qs c) ! d) * f32_value (f16_to_f32 (ac_B_d c ! 0))))"
    by (simp add: fold_plus_sum_list)
  also have "\<dots> = (\<Sum>d < K. q ! d * (real_of_int (ac_B_qs c ! d) * f32_value (f16_to_f32 (ac_B_d c ! 0))))"
    by (simp add: interv_sum_list_conv_sum_set_nat atLeast0LessThan)
  finally show ?thesis
    by (simp add: entry_score_def soft_cap_def call_score_def entry_of_def call_entry_def f16_safe_def f32_constants(1))
qed

lemma call_weight_entry:
  assumes "\<forall>c \<in> set cs. call_fits K c" and "c \<in> set cs"
  shows "softmax_weight K (take K q) (map (entry_of real_ops K) cs) (entry_of real_ops K c) = call_weight K q cs c"
proof -
  have "(\<Sum>c' \<leftarrow> cs. exp (entry_score real_ops K (take K q) (entry_of real_ops K c'))) = (\<Sum>c' \<leftarrow> cs. exp (call_score K q c'))"
    using assms(1) by (intro arg_cong[where f = sum_list] map_cong) (simp_all add: call_score_entry)
  then show ?thesis using assms by (simp add: softmax_weight_def call_weight_def call_score_entry comp_def)
qed

text \<open>
  Property C17. In exact arithmetic the kernel computes softmax attention. After any run of attention calls, in
  which the calls of a layer come in the order of their positions, element \<open>d\<close> of what a call writes is the
  average of the dequantized values \<open>d\<close> of the calls of its layer (the first 63 and its own), with the
  softmax of the capped scores of their keys as weights. The weights are positive and sum to one: subtracting
  the maximum and guarding the division change nothing, because a capped score stays between -50 and 50.
\<close>

theorem attention_is_softmax:
  fixes c :: "real attn_call"
  assumes "\<forall>c \<in> set (cs @ [c]). call_fits K c" and "in_order (ac_layer c) (cs @ [c])" and "K \<le> MAX_HEAD_DIM" and "K \<le> length C"
  defines "hs \<equiv> take (MAX_CTX - 1) (calls_of (ac_layer c) cs) @ [c]"
  shows "\<exists>C1 st1 C2 st2. fold_opt (run_call real_ops (int K)) cs (C, hls_init real_ops) = Some (C1, st1)
    \<and> run_call real_ops (int K) c (C1, st1) = Some (C2, st2)
    \<and> (\<forall>d < K. C2 ! d = (\<Sum>e \<leftarrow> hs. call_weight K (ac_A c) hs e * (real_of_int (ac_B_qs e ! (K + d)) * f32_value (f16_to_f32 (ac_B_d e ! 1)))))
    \<and> (\<Sum>e \<leftarrow> hs. call_weight K (ac_A c) hs e) = 1 \<and> (\<forall>e \<in> set hs. 0 < call_weight K (ac_A c) hs e)"
proof -
  let ?es = "map (entry_of real_ops K) hs" and ?q = "take K (ac_A c)"
  have fits: "\<forall>e \<in> set hs. call_fits K e" using assms(1) by (auto simp: hs_def dest: in_set_takeD)
  have ne: "?es \<noteq> []" by (simp add: hs_def)
  note w = call_weight_entry[OF fits]
  obtain C1 st1 C2 st2 where run: "fold_opt (run_call real_ops (int K)) cs (C, hls_init real_ops) = Some (C1, st1)"
    "run_call real_ops (int K) c (C1, st1) = Some (C2, st2)" "take K C2 = attend real_ops K ?q ?es"
    using attention_history[OF assms(1-4), of real_ops] by (auto simp: hs_def take_map)
  have "C2 ! d = (\<Sum>e \<leftarrow> hs. call_weight K (ac_A c) hs e * (real_of_int (ac_B_qs e ! (K + d)) * f32_value (f16_to_f32 (ac_B_d e ! 1))))" if d: "d < K" for d
  proof -
    have "C2 ! d = attend real_ops K ?q ?es ! d" using run(3) d by (metis nth_take)
    also have "\<dots> = (\<Sum>e \<leftarrow> hs. softmax_weight K ?q ?es (entry_of real_ops K e) * (real_of_int (ke_v (entry_of real_ops K e) ! d) * ke_v_scale (entry_of real_ops K e)))"
      using d by (simp add: attend_softmax[OF ne] comp_def)
    also have "\<dots> = (\<Sum>e \<leftarrow> hs. call_weight K (ac_A c) hs e * (real_of_int (ac_B_qs e ! (K + d)) * f32_value (f16_to_f32 (ac_B_d e ! 1))))"
    proof (intro arg_cong[where f = sum_list] map_cong refl)
      fix e
      assume e: "e \<in> set hs"
      then have "2 * K \<le> length (ac_B_qs e)" using fits by (simp add: call_fits_def)
      then have "drop K (ac_B_qs e) ! d = ac_B_qs e ! (K + d)" using d by simp
      then show "softmax_weight K ?q ?es (entry_of real_ops K e) * (real_of_int (ke_v (entry_of real_ops K e) ! d) * ke_v_scale (entry_of real_ops K e))
          = call_weight K (ac_A c) hs e * (real_of_int (ac_B_qs e ! (K + d)) * f32_value (f16_to_f32 (ac_B_d e ! 1)))"
        using d by (simp add: w[OF e]) (simp add: entry_of_def call_entry_def f16_safe_def)
    qed
    finally show ?thesis .
  qed
  moreover have "(\<Sum>e \<leftarrow> hs. call_weight K (ac_A c) hs e) = 1"
  proof -
    have "(\<Sum>e \<leftarrow> hs. call_weight K (ac_A c) hs e) = (\<Sum>e \<leftarrow> ?es. softmax_weight K ?q ?es e)"
      by (simp add: w comp_def cong: map_cong)
    then show ?thesis using softmax_weights_sum[OF ne] by simp
  qed
  moreover have "0 < call_weight K (ac_A c) hs e" if "e \<in> set hs" for e
    using softmax_weight_pos[of "entry_of real_ops K e" ?es K ?q] w[OF that] that by simp
  ultimately show ?thesis using run(1,2) by blast
qed

text \<open>Two positions with the same key and the values 2 and 4, with a call of another layer in between.\<close>

definition sample_value :: "nat \<Rightarrow> int \<Rightarrow> real attn_call" where
  "sample_value p v = \<lparr>ac_layer = 3, ac_pos = p, ac_A = [1], ac_B_d = [0x3C00, 0x3C00], ac_B_qs = [3, v]\<rparr>"

lemma attention_is_softmax_witness:
  "\<exists>C1 st1 C2 st2. fold_opt (run_call real_ops 1) [sample_value 0 2, sample_call 4 0 6] ([0], hls_init real_ops) = Some (C1, st1)
    \<and> run_call real_ops 1 (sample_value 1 4) (C1, st1) = Some (C2, st2) \<and> C2 ! 0 = 3"
proof -
  let ?cs = "[sample_value 0 2, sample_call 4 0 6]" and ?c = "sample_value 1 4"
  have "\<forall>c \<in> set (?cs @ [?c]). call_fits 1 c" "in_order (ac_layer ?c) (?cs @ [?c])" "1 \<le> (256 :: nat)" "1 \<le> length [0 :: real]"
    by (simp_all add: call_fits_def in_order_def sample_call_def sample_value_def)
  note r = attention_is_softmax[OF this]
  have h: "take (MAX_CTX - 1) (calls_of (ac_layer ?c) ?cs) @ [?c] = [sample_value 0 2, ?c]" "int 1 = 1"
    by (simp_all add: sample_call_def sample_value_def)
  have "call_score 1 q (sample_value 0 2) = call_score 1 q ?c" for q by (simp add: call_score_def sample_value_def)
  then have w: "call_weight 1 q [sample_value 0 2, ?c] (sample_value 0 2) = 1 / 2" "call_weight 1 q [sample_value 0 2, ?c] ?c = 1 / 2" for q
    by (simp_all add: call_weight_def)
  have one: "f32_value (f16_to_f32 0x3C00) = 1" using f16_normal_value[of "0x3C00"] half_fields by (simp add: f16_value_def)
  have sum: "(\<Sum>e \<leftarrow> [sample_value 0 2, ?c]. call_weight 1 (ac_A ?c) [sample_value 0 2, ?c] e
      * (real_of_int (ac_B_qs e ! (1 + 0)) * f32_value (f16_to_f32 (ac_B_d e ! 1)))) = 3"
    unfolding list.map sum_list.Cons w by (simp add: sample_value_def one)
  obtain C1 st1 C2 st2 where out: "fold_opt (run_call real_ops 1) ?cs ([0], hls_init real_ops) = Some (C1, st1)"
    "run_call real_ops 1 ?c (C1, st1) = Some (C2, st2)"
    "\<forall>d < 1. C2 ! d = (\<Sum>e \<leftarrow> [sample_value 0 2, ?c]. call_weight 1 (ac_A ?c) [sample_value 0 2, ?c] e
      * (real_of_int (ac_B_qs e ! (1 + d)) * f32_value (f16_to_f32 (ac_B_d e ! 1))))"
    using r unfolding h by blast
  have "C2 ! 0 = 3" using spec[OF out(3), of 0] unfolding sum by simp
  then show ?thesis using out(1,2) by blast
qed

end
