(* ===== verification/Spec2Isabelle.thy ===== *)
theory Spec2Isabelle
  imports Kv_Roundtrip Kv_Dryrun Decode_Outputs Fpga_Build Fpga_Offload Fpga_Guard Hls_Product Hls_Softmax
begin

text \<open>
  A verification library for the inference path of Infrastructure_GEMMA3: a fork of llama.cpp that runs
  Gemma 3 on a ZCU104 or KV260 board, with Q8_0 matrix products offloaded to an FPGA. The theories below
  follow a batch of tokens through the program and the weights of a tile through the host driver.

  \<^bold>\<open>The program and how its parts interact.\<close> \<open>llama_context::decode\<close> sanitizes a batch
  (\<open>llama_batch_allocr\<close>), splits it into micro-batches, asks the memory
  (\<open>llama_kv_cache_iswa\<close>, a pair of \<open>llama_kv_cache\<close>) for cells, applies every micro-batch to the cell
  tables (\<open>llama_kv_cells\<close>), fills the index tensors and the attention mask, runs the graph, collects the
  output rows and restores their order; when the graph fails it rolls the memory back. The graph reaches
  the board through \<^verbatim>\<open>ggml/src/ggml-cpu/fpga_host.cpp\<close>, which keeps tiles of weights, packed in a
  layout of 128-bit words, resident in a staging DDR, and hands their descriptors to the device. The
  HLS kernel under \<^verbatim>\<open>hls_accelerator\<close> multiplies and attends.

  \<^bold>\<open>Theories.\<close>

  \<^item> \<open>Prelude\<close>: machine types, checked arithmetic, loops over \<open>option\<close> (\<open>fold_opt\<close>), lemma
    collections, and the locale \<open>transition_system\<close> (reachability and its invariant rule).
  \<^item> \<open>Q8_Layout\<close> (\<^verbatim>\<open>fpga_q8_layout.cpp\<close>): word index and offset arithmetic at its C widths. The locale
    \<open>placement\<close> says when an index function stores cells without overlap; the word index is a bijection
    between cells and words, and offsets never wrap.
  \<^item> \<open>Q8_Pack\<close> (\<^verbatim>\<open>fpga_q8_pack.cpp\<close>): both packers over word memories and the shapes they accept.
    After a call every word of the tile is the word the layout asks for.
  \<^item> \<open>Fpga_Ddr\<close>, \<open>Fpga_Device\<close>, \<open>Fpga_Residency\<close>, \<open>Fpga_Build\<close> (\<^verbatim>\<open>fpga_host.cpp\<close>): the staging
    window with its range checks and CRC; registers, banks, descriptors and their readback; the directory
    of 128 slots and 1024 buckets; what a build stores. The step relation \<open>residency_step\<close> has lookups,
    poisoning and resets as steps, and \<open>residency_inv\<close> is its invariant.
  \<^item> \<open>Fpga_Spu\<close> (\<^verbatim>\<open>fpga_host.cpp\<close>): the fixed-point result rows of the device and the check of a tile; an
    accepted tile is the exact product within \<open>2\<^sup>-\<^sup>1\<^sup>2\<close> per block.
  \<^item> \<open>Fpga_Tiles\<close>, \<open>Fpga_Job\<close>, \<open>Fpga_Prepare\<close>, \<open>Fpga_Launch\<close>, \<open>Fpga_Matmul\<close> (\<^verbatim>\<open>fpga_host.cpp\<close>): a matrix
    product cut into tiles; one tile job prepared in the staging DDR, copied to a bank of the device, started,
    drained and accumulated; the single-bank and the ping-pong scheduler. One record holds the DDR, the
    registers, the memory of the device and the host's buffers; what the device computes is a parameter.
  \<^item> \<open>Fpga_Steps\<close>: \<open>wp T f Q s\<close>, the weakest precondition of a step of the host. \<open>T\<close> chooses between \<open>if the
    step returns true then Q\<close> and \<open>the step returns true and Q\<close>, so that one proof serves both; its rules for
    sequences, loops and DMA copies. \<open>Fpga_Window\<close>, \<open>Fpga_Staging\<close>: the inputs of a tile as byte ranges of the
    windows, and that preparing a job puts them there. \<open>Fpga_Answer\<close>: devices that keep their descriptor
    registers (\<open>keeps\<close>), and devices that answer (\<open>answers\<close>), on which every wait and readback succeeds.
    \<open>Fpga_Run\<close>, \<open>Fpga_Submit\<close>, \<open>Fpga_Drain\<close>: the rule of each handler: a prepared job computes on its own inputs,
    also when weights are reused, and its rows reach the accumulators. \<open>Fpga_Overlap\<close>, \<open>Fpga_Product\<close>: the
    handover between two jobs in flight and the invariants of the loops; either scheduler computes
    \<open>product_rows\<close>, a sum over tiles that mentions no state.
  \<^item> \<open>Fpga_Result\<close>, \<open>Fpga_Exact\<close>, \<open>Fpga_Offload\<close>: the elements of that sum, the rows of a device that forms the
    sums of the staged windows as the host's audit does (\<open>staged_sum\<close>), and the properties of a whole offloaded
    product: its distance from the exact one, the rounding of the host's floating-point operations included
    (\<open>element_tolerance\<close>), that the schedulers agree, that it completes. They are for
    products without resident tiles and without the weight cache, both options of the driver.
  \<^item> \<open>Fpga_Guard\<close>: staging with the deep contract check, which compares a block with consecutive bytes although
    the layout puts a beat of another row between its halves.
  \<^item> \<open>Kv_Cells\<close> (\<^verbatim>\<open>llama-kv-cells.h\<close>): every operation of the cell table. The locale \<open>cell_store\<close> is
    the contract the cache relies on: every operation keeps the derived indices and acts on the abstract
    map from cells to positions and sequences.
  \<^item> \<open>Kv_Cache\<close>, \<open>Kv_Slots\<close>, \<open>Kv_Inputs\<close> (\<^verbatim>\<open>llama-kv-cache.cpp\<close>): sequence operations with pending
    stream copies and shifts; \<open>find_slot\<close>, \<open>apply_ubatch\<close>, \<open>prepare\<close> and the batch context; the index
    tensors and the mask. The dry run of \<open>prepare\<close> is exact for one stream without a window (\<open>plain_cache\<close>); with
    several streams it mixes up their search heads.
  \<^item> \<open>Kv_State\<close>, \<open>Kv_Restore\<close>, \<open>Kv_Roundtrip\<close> (\<^verbatim>\<open>llama-kv-cache.cpp\<close>, \<open>state_write\<close> and
    \<open>state_read\<close>): the byte format, its round trip, and where a restore departs from what was saved.
  \<^item> \<open>Kv_Iswa\<close>, \<open>Kv_Window\<close>, \<open>Kv_Attend\<close> (\<^verbatim>\<open>llama-kv-cache-iswa.cpp\<close>): the pair of caches, the reuse
    of masked cells, and \<open>window_inv\<close>, the invariant of the states that unified caches reach by clearing,
    removing any range, keeping and copying sequences and by batches of one micro-batch of next tokens
    (\<open>iswa_step\<close>; position shifts and batches of several micro-batches are not steps). For a token at or after
    the mark of its sequence, a bound of the positions it held since it was last empty, the small cache has
    every token the window still shows, so its attention is that of a cache which never forgets. Before the
    mark, after the tail of a sequence was removed, it may not be: the server reprocesses the prompt then.
  \<^item> \<open>Kv_Dryrun\<close> (\<open>prepare\<close> of \<^verbatim>\<open>llama-kv-cache.cpp\<close>): why several micro-batches are no steps. Their dry run
    restores the cells of the slots only, and so can drop tokens that the first micro-batch attends to.
  \<^item> \<open>Batch_Alloc\<close>, \<open>Batch_Split\<close>, \<open>Batch_Equal\<close>, \<open>Batch_Init\<close> (\<^verbatim>\<open>llama-batch.cpp\<close>): \<open>init\<close> with
    its checks and the three splits; the simple and the equal split hand out every token once, with its fields,
    and the equal split may exceed the size asked for by one token.
  \<^item> \<open>Decode\<close>, \<open>Decode_Outputs\<close> (\<^verbatim>\<open>llama-context.cpp\<close>): one call of \<open>decode\<close> from the batch to the
    logits, with its retry, rollback and output order.
  \<^item> \<open>Hls_Float\<close>, \<open>Hls_Kernel\<close>, \<open>Hls_Product\<close>, \<open>Hls_Attention\<close>, \<open>Hls_Softmax\<close>
    (\<^verbatim>\<open>hls_accelerator/kernel_forward.cpp\<close> and \<^verbatim>\<open>.h\<close>): half precision conversions bit for bit, the tiled
    product (complete for depths that are multiples of 64), the attention over on-chip memories, and what both
    compute in exact arithmetic: the product, and softmax attention.

  \<^bold>\<open>Conventions.\<close> A class or struct is a \<open>record\<close> with the fields of the source, an operation a definition of
  the source's name that takes the record and returns it updated. \<open>None\<close> is a failed assertion, an uncaught
  exception, an abort or undefined behaviour (a read past an array, a signed overflow), so a theorem that ends
  in \<open>Some\<close> also says that none of these happens. A refusal the code returns to its caller is a value: a
  boolean, a status, a code. Integers whose wrap-around matters are words; the others are \<open>int\<close> or \<open>nat\<close>
  with their range checked where the code could leave it. Memory is a list of elements or a map from offsets.

  \<^bold>\<open>Loops.\<close> Loops over a known range are folds. \<open>find_slot\<close>, the rounds of \<open>split_equal\<close>, the loop that
  splits a batch and the loop of \<open>decode\<close> over its micro-batches are \<open>partial_function (option)\<close>, for which
  not returning is also \<open>None\<close>; \<open>find_slot_complete\<close>, \<open>simple_split_complete\<close> and
  \<open>equal_split_stable\<close> show that they return. The tile loops of the kernel and of the host are
  \<open>function\<close>s with a proved measure. The wait loops of the host poll until a timeout; the number of polls is the
  parameter \<open>hw_polls\<close>, and running out of it is the timeout of the code (it returns false), not a loss of
  information: \<open>offload_completes\<close> holds for every number of polls.

  \<^bold>\<open>Parameters.\<close> The graph of the model, the K-shift graph and the allocation of buffers are arguments of the
  definitions that use them; so are the register values the device shows, whether a sync succeeds, what the
  DDR holds once writes have settled, and the floating-point units. \<open>real_ops\<close> instantiates the last by the
  real numbers for the theorems on exact arithmetic of the kernel; \<open>rounds\<close> states the relative rounding error
  of the operations the host accumulates with, as IEEE 754 has it.

  \<^bold>\<open>Not modelled.\<close> Of \<^verbatim>\<open>fpga_host.cpp\<close>: the registers of the DMA channel, initialisation, self-tests, timing and
  traces; the thread that packs half of a tile (its range is disjoint, so it runs after the main range); the
  packing of the next tile while a single-column product copies the current one; the path without device
  scaling beyond its staging; the quantization of the activations. The graph
  builders of the models, the operators of ggml and the other backends: floating-point or GPU code. Model
  loading, tokenizers, sampling, grammars, tools and servers: off the path from a batch to its logits.
  Recurrent memories: Gemma does not use them. Embedding outputs and pooling of \<open>decode\<close>, \<open>encode\<close>, and the
  session file format around \<open>state_write\<close> are left out of the components they belong to.
\<close>

end
